(* ===== verification/Kagari_Prelude.thy ===== *)
theory Kagari_Prelude
  imports Main "HOL-Library.Word"
begin

unbundle bit_operations_syntax

text \<open>
  Shared vocabulary of the development.

  \<^item> \<open>outcome\<close>: the result of a Rust function that returns \<open>Result<T, E>\<close> and may also panic
    (an \<open>assert!\<close>, an \<open>expect\<close>, an index out of range). \<open>and_then\<close> is the \<open>?\<close> operator.
  \<^item> \<open>usize\<close> and \<open>u64\<close> values are natural numbers; the checked and saturating operations of
    Rust's standard library are written out at their width, for a 64-bit target.
  \<^item> 64-bit bitmap words are \<open>64 word\<close>; \<open>bit_at\<close> is the source's \<open>1 << i\<close> and
    \<open>trailing_zeros\<close> is Rust's method of that name.
  \<^item> \<open>rust_simps\<close> and \<open>bitmap_simps\<close> collect the rewrite rules that the component
    proofs share.
\<close>

named_theorems rust_simps \<open>definitions of the modelled standard-library operations\<close>
named_theorems bitmap_simps \<open>bit tests on updated bitmap words\<close>

section \<open>Results and panics\<close>

datatype ('e, 'a) outcome = Ok 'a | Err 'e | Panic string

fun and_then :: "('e, 'a) outcome \<Rightarrow> ('a \<Rightarrow> ('e, 'b) outcome) \<Rightarrow> ('e, 'b) outcome" where
  "and_then (Ok x) f = f x"
| "and_then (Err e) f = Err e"
| "and_then (Panic m) f = Panic m"

text \<open>\<open>Option::ok_or\<close> and \<open>Option::expect\<close>.\<close>

definition ok_or :: "'e \<Rightarrow> 'a option \<Rightarrow> ('e, 'a) outcome" where
  "ok_or e x = (case x of Some y \<Rightarrow> Ok y | None \<Rightarrow> Err e)"

definition expect :: "string \<Rightarrow> 'a option \<Rightarrow> ('e, 'a) outcome" where
  "expect m x = (case x of Some y \<Rightarrow> Ok y | None \<Rightarrow> Panic m)"

text \<open>\<open>assert!(condition)\<close>, followed by the rest of the function.\<close>

definition assert_then :: "bool \<Rightarrow> string \<Rightarrow> ('e, 'a) outcome \<Rightarrow> ('e, 'a) outcome" where
  "assert_then b m k = (if b then k else Panic m)"

lemma and_then_eq_Ok [simp]:
  "and_then x f = Ok y \<longleftrightarrow> (\<exists>z. x = Ok z \<and> f z = Ok y)"
  by (cases x) auto

lemma ok_or_eq_Ok [simp]: "ok_or e x = Ok y \<longleftrightarrow> x = Some y"
  by (cases x) (auto simp: ok_or_def)

lemma ok_or_simps [simp]: "ok_or e (Some y) = Ok y" "ok_or e None = Err e"
  by (auto simp: ok_or_def)

lemma expect_eq_Ok [simp]: "expect e x = Ok y \<longleftrightarrow> x = Some y"
  by (cases x) (auto simp: expect_def)

lemma expect_simps [simp]: "expect m (Some y) = Ok y" "expect m None = Panic m"
  by (auto simp: expect_def)

lemma assert_then_eq_Ok [simp]: "assert_then b m k = Ok y \<longleftrightarrow> b \<and> k = Ok y"
  by (auto simp: assert_then_def)

lemma assert_then_True [simp]: "assert_then True m k = k"
  by (simp add: assert_then_def)

section \<open>Vectors\<close>

text \<open>\<open>Vec::swap_remove\<close>: the last element takes the place of the removed one.\<close>

definition swap_remove :: "nat \<Rightarrow> 'a list \<Rightarrow> 'a list" where
  "swap_remove i xs = butlast (xs[i := last xs])"

lemma swap_remove_spec:
  assumes "i < length xs"
  shows "length (swap_remove i xs) = length xs - 1" "\<And>j. j < i \<Longrightarrow> swap_remove i xs ! j = xs ! j"
    "distinct xs \<Longrightarrow> distinct (swap_remove i xs)" "distinct xs \<Longrightarrow> set (swap_remove i xs) = set xs - {xs ! i}"
proof -
  from assms obtain ys z where xs: "xs = ys @ [z]" by (cases xs rule: rev_cases) auto
  then have eq: "swap_remove i xs = (if i < length ys then ys[i := z] else ys)"
    using assms by (auto simp: swap_remove_def list_update_append nth_append butlast_append split: nat.splits)
  show "length (swap_remove i xs) = length xs - 1" using xs eq by simp
  show "swap_remove i xs ! j = xs ! j" if "j < i" for j using that assms xs eq by (auto simp: nth_append)
  show "distinct (swap_remove i xs)" if "distinct xs"
    using that xs eq by (auto simp: distinct_list_update)
  show "set (swap_remove i xs) = set xs - {xs ! i}" if "distinct xs"
    using that assms xs eq by (auto simp: set_update_distinct nth_append less_Suc_eq dest: nth_mem)
qed


section \<open>Machine-width arithmetic\<close>

definition usize_max :: nat where
  "usize_max = 2 ^ 64 - 1"

definition checked_add :: "nat \<Rightarrow> nat \<Rightarrow> nat option" where
  "checked_add a b = (if a + b \<le> usize_max then Some (a + b) else None)"

definition checked_sub :: "nat \<Rightarrow> nat \<Rightarrow> nat option" where
  "checked_sub a b = (if b \<le> a then Some (a - b) else None)"

definition saturating_add :: "nat \<Rightarrow> nat \<Rightarrow> nat" where
  "saturating_add a b = min (a + b) usize_max"

definition saturating_sub :: "nat \<Rightarrow> nat \<Rightarrow> nat" where
  "saturating_sub a b = a - b"

definition saturating_mul :: "nat \<Rightarrow> nat \<Rightarrow> nat" where
  "saturating_mul a b = min (a * b) usize_max"

lemmas [rust_simps] = checked_add_def checked_sub_def saturating_add_def saturating_sub_def
  saturating_mul_def

lemma checked_add_eq_Some: "checked_add a b = Some c \<longleftrightarrow> c = a + b \<and> a + b \<le> usize_max"
  by (auto simp: checked_add_def)

lemma checked_sub_eq_Some: "checked_sub a b = Some c \<longleftrightarrow> b \<le> a \<and> c = a - b"
  by (auto simp: checked_sub_def)

section \<open>Bitmap words\<close>

type_synonym u64 = "64 word"

definition bit_at :: "nat \<Rightarrow> u64" where
  "bit_at i = push_bit i 1"

function tz_from :: "nat \<Rightarrow> 'a::len word \<Rightarrow> nat" where
  "tz_from n w =
     (if LENGTH('a) \<le> n then LENGTH('a) else if bit w n then n else tz_from (Suc n) w)"
  by pat_completeness auto
termination
  by (relation "measure (\<lambda>(n, w). LENGTH('a) - n)") auto

declare tz_from.simps [simp del]

definition trailing_zeros :: "'a::len word \<Rightarrow> nat" where
  "trailing_zeros w = tz_from 0 w"

lemma bit_bit_at [bitmap_simps]: "bit (bit_at i) j \<longleftrightarrow> j = i \<and> i < 64"
  by (auto simp: bit_at_def bit_push_bit_iff bit_1_iff possible_bit_word simp flip: push_bit_of_1)

lemma bit_set_at [bitmap_simps]:
  "bit (w OR bit_at i) j \<longleftrightarrow> bit w j \<or> j = i \<and> i < 64"
  by (auto simp: bit_or_iff bit_bit_at)

lemma bit_clear_at [bitmap_simps]:
  "bit (w AND NOT (bit_at i)) j \<longleftrightarrow> bit (w :: u64) j \<and> j \<noteq> i"
proof (cases "j < 64")
  case True
  then show ?thesis by (auto simp: bit_and_iff bit_not_iff bit_bit_at)
next
  case False
  then have "\<not> bit w j" using bit_imp_le_length [of w j] by auto
  then show ?thesis by (auto simp: bit_and_iff)
qed

lemma bit_test_at [bitmap_simps]:
  "(w :: u64) AND bit_at i \<noteq> 0 \<longleftrightarrow> bit w i \<and> i < 64"
proof -
  have "w AND bit_at i \<noteq> 0 \<longleftrightarrow> (\<exists>j. bit (w AND bit_at i) j)"
    using bit_eq_iff [of "w AND bit_at i" 0] by auto
  then show ?thesis by (auto simp: bit_and_iff bit_bit_at)
qed

lemma tz_from_spec:
  "n \<le> LENGTH('a::len) \<Longrightarrow>
     tz_from n (w :: 'a word) \<le> LENGTH('a) \<and> n \<le> tz_from n w
   \<and> (\<forall>i. n \<le> i \<and> i < tz_from n w \<longrightarrow> \<not> bit w i)
   \<and> (tz_from n w < LENGTH('a) \<longrightarrow> bit w (tz_from n w))"
proof (induction n w rule: tz_from.induct)
  case (1 n w)
  show ?case
  proof (cases "LENGTH('a) \<le> n \<or> bit w n")
    case True
    with "1.prems" show ?thesis by (auto simp: tz_from.simps [of n w])
  next
    case False
    with "1.prems" have "Suc n \<le> LENGTH('a)" by auto
    with False "1.IH"
    have IH: "tz_from (Suc n) w \<le> LENGTH('a) \<and> Suc n \<le> tz_from (Suc n) w
      \<and> (\<forall>i. Suc n \<le> i \<and> i < tz_from (Suc n) w \<longrightarrow> \<not> bit w i)
      \<and> (tz_from (Suc n) w < LENGTH('a) \<longrightarrow> bit w (tz_from (Suc n) w))" by auto
    have eq: "tz_from n w = tz_from (Suc n) w" using False by (simp add: tz_from.simps [of n w])
    have "\<not> bit w i" if "n \<le> i" "i < tz_from (Suc n) w" for i
      using that False IH by (cases "i = n") auto
    with IH eq show ?thesis by auto
  qed
qed

lemma trailing_zeros_le: "trailing_zeros (w :: 'a::len word) \<le> LENGTH('a)"
  using tz_from_spec [of 0 w] by (simp add: trailing_zeros_def)

lemma trailing_zeros_below: "i < trailing_zeros w \<Longrightarrow> \<not> bit w i"
  using tz_from_spec [of 0 w] by (simp add: trailing_zeros_def)

lemma trailing_zeros_bit: "trailing_zeros (w :: 'a::len word) < LENGTH('a) \<Longrightarrow> bit w (trailing_zeros w)"
  using tz_from_spec [of 0 w] by (simp add: trailing_zeros_def)

lemma trailing_zeros_nonzero:
  assumes "(w :: 'a::len word) \<noteq> 0"
  shows "trailing_zeros w < LENGTH('a)" "bit w (trailing_zeros w)"
proof -
  from assms obtain i where i: "bit w i" by (auto simp: bit_eq_iff)
  then have "i < LENGTH('a)" by (rule bit_imp_le_length)
  moreover have "trailing_zeros w \<le> i" using i trailing_zeros_below [of i w] by (meson not_le)
  ultimately show "trailing_zeros w < LENGTH('a)" by simp
  then show "bit w (trailing_zeros w)" by (rule trailing_zeros_bit)
qed

lemma word_all_bits: "(w :: 'a::len word) = - 1 \<longleftrightarrow> (\<forall>i < LENGTH('a). bit w i)"
  by (auto simp: bit_eq_iff bit_minus_1_iff possible_bit_word)

lemma bit_not_u64 [bitmap_simps]: "bit (NOT (w :: u64)) i \<longleftrightarrow> i < 64 \<and> \<not> bit w i"
  by (auto simp: bit_not_iff)

end
