(* ===== verification/Gc_Base.thy ===== *)
theory Gc_Base
  imports Kagari_Prelude
begin

text \<open>
  Errors, lifecycle phases, work accounting and memory accounting of the managed heap
  (\<^verbatim>\<open>crates/kagari-gc/src: error.rs, scan.rs, heap.rs\<close>).
\<close>

section \<open>Definitions\<close>

datatype gc_error =
    ForeignHeap
  | InvalidRoot
  | Representation
  | Storage string
  | Faulted_error
  | Closed_error
  | Limit string
  | Allocation
  | Provider string
  | Index

type_synonym 'a gc_result = "(gc_error, 'a) outcome"

text \<open>The allocator's answer to a fallible reservation of that many more elements.\<close>

type_synonym reserve = "nat \<Rightarrow> bool"

datatype phase = Idle | Roots | Mark | Sweep | Faulted | Closed

datatype scan_kind = EdgeFree | Bounded nat | Resumable | Indivisible

datatype scan_status = Pending | Complete

subsection \<open>Work budgets (scan.rs)\<close>

record scan_budget =
  remaining :: nat
  spent :: nat

definition budget_new :: "nat \<Rightarrow> scan_budget" where
  "budget_new units = \<lparr>remaining = units, spent = 0\<rparr>"

definition take_units :: "nat \<Rightarrow> scan_budget \<Rightarrow> bool \<times> scan_budget" where
  "take_units units b =
     (if units > remaining b \<or> checked_add (spent b) units = None then (False, b)
      else (True, b\<lparr>remaining := remaining b - units, spent := spent b + units\<rparr>))"

definition charge_units :: "nat \<Rightarrow> scan_budget \<Rightarrow> scan_budget gc_result" where
  "charge_units units b =
     and_then (ok_or (Limit ''scan work'') (checked_add (spent b) units))
       (\<lambda>total. Ok (b\<lparr>spent := total, remaining := saturating_sub (remaining b) units\<rparr>))"

subsection \<open>Managed memory accounting (heap.rs)\<close>

record memory_ledger =
  indirect :: nat
  peak :: nat
  allocation_growth :: nat

definition ledger_default :: memory_ledger where
  "ledger_default = \<lparr>indirect = 0, peak = 0, allocation_growth = 0\<rparr>"

definition ledger_grew :: "nat \<Rightarrow> memory_ledger \<Rightarrow> memory_ledger" where
  "ledger_grew bytes l =
     l\<lparr>allocation_growth := saturating_add (allocation_growth l) bytes\<rparr>"

definition ledger_check :: "memory_ledger \<Rightarrow> nat \<Rightarrow> nat \<Rightarrow> nat \<Rightarrow> nat gc_result" where
  "ledger_check l old new limit =
     and_then
       (ok_or (Limit ''indirect accounting'')
         (Option.bind (checked_sub (indirect l) old) (\<lambda>bytes. checked_add bytes new)))
       (\<lambda>total. if total > limit then Err (Limit ''indirect bytes'') else Ok total)"

definition ledger_observe :: "nat \<Rightarrow> memory_ledger \<Rightarrow> memory_ledger" where
  "ledger_observe backing_bytes l =
     l\<lparr>peak := max (peak l) (saturating_add backing_bytes (indirect l))\<rparr>"

section \<open>Work never exceeds the allowance\<close>

lemma take_units_conserves:
  "take_units u b = (ok, b') \<Longrightarrow> remaining b' + spent b' = remaining b + spent b"
  by (auto simp: take_units_def split: if_splits)

lemma take_units_False: "take_units u b = (False, b') \<Longrightarrow> b' = b"
  by (auto simp: take_units_def split: if_splits)

lemma take_units_True:
  "take_units u b = (True, b') \<Longrightarrow>
     u \<le> remaining b \<and> remaining b' = remaining b - u \<and> spent b' = spent b + u"
  by (auto simp: take_units_def split: if_splits)

text \<open>A budget that started within the machine width never refuses a unit for overflow.\<close>

lemma take_units_iff:
  "remaining b + spent b \<le> usize_max \<Longrightarrow> fst (take_units u b) \<longleftrightarrow> u \<le> remaining b"
  by (auto simp: take_units_def checked_add_def)

lemma charge_units_spent:
  "charge_units u b = Ok b' \<Longrightarrow> spent b' = spent b + u \<and> remaining b' = remaining b - u"
  by (auto simp: charge_units_def checked_add_eq_Some saturating_sub_def)

text \<open>The accounted total after replacing an object's charge, on every branch.\<close>

lemma ledger_check_cases:
  "ledger_check l old new limit =
     (if old \<le> indirect l \<and> indirect l - old + new \<le> usize_max
      then (if indirect l - old + new \<le> limit then Ok (indirect l - old + new)
            else Err (Limit ''indirect bytes''))
      else Err (Limit ''indirect accounting''))"
  by (auto simp: ledger_check_def rust_simps)

end
