(* ===== verification/Gc_Table.thy ===== *)
theory Gc_Table
  imports Gc_Base
begin

unbundle bit_operations_syntax

text \<open>
  The stable-identity directory \<^verbatim>\<open>Table<T>\<close> of \<^verbatim>\<open>crates/kagari-gc/src/table.rs\<close>: a
  radix tree whose leaves hold 256 slots and whose branches hold 64 children, with a bitmap of
  occupied slots (leaf) or full subtrees (branch). The heap uses it for pages, root
  registrations and descriptors. An identity is a natural number; \<open>prepare_bound\<close> shows that
  it always fits a \<^verbatim>\<open>u32\<close>, so that \<open>id >> shift\<close> and \<open>id & mask\<close> are
  \<open>drop_bit\<close> and \<open>take_bit\<close>.

  \<open>id_directory\<close> is the interface the heap's components rely on; it is interpreted on the
  operations below.
\<close>

section \<open>Definitions\<close>

definition BITS :: nat where "BITS = 6"
definition LEAF_BITS :: nat where "LEAF_BITS = 8"
definition WIDTH :: nat where "WIDTH = 2 ^ BITS"

datatype 'a table =
  Table (slots: "'a option list") (children: "'a table option list") (full: "u64 list")
    (shift: nat) (tlen: nat)

definition table_default :: "'a table" where
  "table_default = Table [] [] (replicate 4 0) 0 0"

definition branch :: "reserve \<Rightarrow> nat \<Rightarrow> 'a table gc_result" where
  "branch mem sh =
     (if mem WIDTH then Ok (Table [] (replicate WIDTH None) (replicate 4 0) sh 0)
      else Err Allocation)"

definition is_full :: "'a table \<Rightarrow> bool" where
  "is_full t =
     (if shift t = 0 then list_all (\<lambda>word. word = - 1) (full t) else full t ! 0 = - 1)"

fun position :: "('b \<Rightarrow> bool) \<Rightarrow> 'b list \<Rightarrow> nat option" where
  "position P [] = None"
| "position P (x # xs) = (if P x then Some 0 else map_option Suc (position P xs))"

primrec nodes :: "'a table \<Rightarrow> nat" where
  "nodes (Table sl ch fu sh n) =
     Suc (sum_list (map (case_option 0 (\<lambda>k. k)) (map (map_option nodes) ch)))"

text \<open>The existing child at \<open>index\<close>, or the empty block that \<open>prepare_slot\<close> installs there.\<close>

definition child_or_new :: "reserve \<Rightarrow> nat \<Rightarrow> 'a table option \<Rightarrow> 'a table gc_result" where
  "child_or_new mem sh c =
     (case c of Some k \<Rightarrow> Ok k
      | None \<Rightarrow> if sh = LEAF_BITS then Ok table_default else branch mem (sh - BITS))"

lemma nodes_child: "i < length ch \<Longrightarrow> ch ! i = Some c \<Longrightarrow> nodes c < nodes (Table sl ch fu sh n)"
proof -
  assume "i < length ch" "ch ! i = Some c"
  then have "nodes c \<in> set (map (case_option 0 (\<lambda>k. k)) (map (map_option nodes) ch))"
    by (force simp: in_set_conv_nth)
  then show ?thesis using member_le_sum_list by (fastforce simp: less_Suc_eq_le)
qed

lemma child_or_new_smaller:
  assumes "child_or_new mem sh (ch ! i) = Ok c" "i < length ch" "0 < sh"
  shows "nodes c < nodes (Table sl ch fu sh n) \<or>
    nodes c \<le> nodes (Table sl ch fu sh n) \<and> shift c < sh"
  using assms nodes_child [of i ch c]
  by (auto simp: child_or_new_def branch_def table_default_def LEAF_BITS_def BITS_def sum_list_replicate
      split: option.splits if_splits)

function prepare_slot :: "reserve \<Rightarrow> 'a table \<Rightarrow> ('a table \<times> nat) gc_result" where
  "prepare_slot mem (Table sl ch fu sh n) =
     (if sh = 0 then
        (case position (\<lambda>word. word \<noteq> - 1) fu of
           None \<Rightarrow> Err (Limit ''metadata identities'')
         | Some word \<Rightarrow>
             (let index = word * 64 + trailing_zeros (NOT (fu ! word))
              in if length sl \<le> index then
                   (if mem (index + 1 - length sl)
                    then Ok (Table (sl @ replicate (index + 1 - length sl) None) ch fu sh n, index)
                    else Err Allocation)
                 else Ok (Table sl ch fu sh n, index)))
      else
        (let index = trailing_zeros (NOT (fu ! 0))
         in if index = WIDTH then Err (Limit ''metadata identities'')
            else if length ch \<le> index then Panic ''index out of bounds''
            else
              (case child_or_new mem sh (ch ! index) of
                 Err e \<Rightarrow> Err e
               | Panic m \<Rightarrow> Panic m
               | Ok child \<Rightarrow>
                   and_then (prepare_slot mem child)
                     (\<lambda>(child', offset).
                        Ok (Table sl (ch[index := Some child']) fu sh n,
                            push_bit sh index OR offset)))))"
  by pat_completeness auto
termination
proof (relation "measures [\<lambda>(mem, t). nodes t, \<lambda>(mem, t). shift t]", goal_cases)
  case 1
  show ?case by simp
next
  case (2 mem sl ch fu sh n index child)
  then show ?case
    using child_or_new_smaller [of mem sh ch index child sl fu n] by auto
qed

definition prepare :: "reserve \<Rightarrow> 'a table \<Rightarrow> ('a table \<times> nat) gc_result" where
  "prepare mem t =
     and_then
       (if is_full t then
          (if shift t = 26 then Err (Limit ''metadata identities'')
           else
             and_then (branch mem (if shift t = 0 then LEAF_BITS else shift t + BITS))
               (\<lambda>root. Ok (Table (slots root) ((children root)[0 := Some t])
                            ((full root)[0 := 1]) (shift root) (tlen t))))
        else Ok t)
       (prepare_slot mem)"

text \<open>
  Both routines take \<^verbatim>\<open>&mut self\<close>, and a failing call may already have changed the table: the new
  root is in place before \<^verbatim>\<open>prepare_slot\<close> runs, and a new child is installed before the recursive
  call. \<open>prepare_slot\<close> and \<open>prepare\<close> give the table of a successful call; \<open>prepare_slot_failed\<close>
  and \<open>prepare_failed\<close> give the table that a call ending in \<^verbatim>\<open>Err\<close> leaves behind.
\<close>

function prepare_slot_failed :: "reserve \<Rightarrow> 'a table \<Rightarrow> 'a table" where
  "prepare_slot_failed mem (Table sl ch fu sh n) =
     (if sh = 0 then Table sl ch fu sh n
      else
        (let index = trailing_zeros (NOT (fu ! 0))
         in if index = WIDTH \<or> length ch \<le> index then Table sl ch fu sh n
            else
              (case child_or_new mem sh (ch ! index) of
                 Err e \<Rightarrow> Table sl ch fu sh n
               | Panic m \<Rightarrow> Table sl ch fu sh n
               | Ok child \<Rightarrow>
                   Table sl (ch[index := Some (prepare_slot_failed mem child)]) fu sh n)))"
  by pat_completeness auto
termination
proof (relation "measures [\<lambda>(mem, t). nodes t, \<lambda>(mem, t). shift t]", goal_cases)
  case 1
  show ?case by simp
next
  case (2 mem sl ch fu sh n index child)
  then show ?case
    using child_or_new_smaller [of mem sh ch index child sl fu n] by auto
qed

definition prepare_failed :: "reserve \<Rightarrow> 'a table \<Rightarrow> 'a table" where
  "prepare_failed mem t =
     (if is_full t then
        (if shift t = 26 then t
         else
           (case branch mem (if shift t = 0 then LEAF_BITS else shift t + BITS) of
              Ok root \<Rightarrow>
                prepare_slot_failed mem
                  (Table (slots root) ((children root)[0 := Some t])
                     ((full root)[0 := 1]) (shift root) (tlen t))
            | Err e \<Rightarrow> t
            | Panic m \<Rightarrow> t))
      else prepare_slot_failed mem t)"

function table_insert :: "nat \<Rightarrow> 'a \<Rightarrow> 'a table \<Rightarrow> 'a table gc_result" where
  "table_insert i v (Table sl ch fu sh n) =
     (if sh = 0 then
        (if length sl \<le> i then Panic ''index out of bounds''
         else if sl ! i \<noteq> None then Panic ''prepared empty metadata slot''
         else Ok (Table (sl[i := Some v]) ch
                   (fu[i div 64 := fu ! (i div 64) OR bit_at (i mod 64)]) sh (n + 1)))
      else
        (let index = drop_bit sh i
         in if length ch \<le> index then Panic ''index out of bounds''
            else (case ch ! index of
                    None \<Rightarrow> Panic ''prepared metadata branch''
                  | Some child \<Rightarrow>
                      and_then (table_insert (take_bit sh i) v child)
                        (\<lambda>child'. Ok (Table sl (ch[index := Some child'])
                                   (if is_full child' then fu[0 := fu ! 0 OR bit_at index] else fu)
                                   sh (n + 1))))))"
  by pat_completeness auto
termination
  by (relation "measure (\<lambda>(i, v, t). nodes t)") (auto intro: nodes_child simp: not_le simp del: nodes.simps)

function table_get :: "nat \<Rightarrow> 'a table \<Rightarrow> 'a option" where
  "table_get i (Table sl ch fu sh n) =
     (if sh = 0 then (if i < length sl then sl ! i else None)
      else if drop_bit sh i < length ch then
        (case ch ! drop_bit sh i of
           None \<Rightarrow> None
         | Some child \<Rightarrow> table_get (take_bit sh i) child)
      else None)"
  by pat_completeness auto
termination
  by (relation "measure (\<lambda>(i, t). nodes t)") (auto intro: nodes_child simp: not_le simp del: nodes.simps)

text \<open>\<open>get_mut\<close>, with the write the caller makes through the reference.\<close>

function table_update :: "nat \<Rightarrow> ('a \<Rightarrow> 'a) \<Rightarrow> 'a table \<Rightarrow> 'a table" where
  "table_update i f (Table sl ch fu sh n) =
     (if sh = 0 then
        (if i < length sl then Table (sl[i := map_option f (sl ! i)]) ch fu sh n
         else Table sl ch fu sh n)
      else if drop_bit sh i < length ch then
        (case ch ! drop_bit sh i of
           None \<Rightarrow> Table sl ch fu sh n
         | Some child \<Rightarrow>
             Table sl (ch[drop_bit sh i := Some (table_update (take_bit sh i) f child)]) fu sh n)
      else Table sl ch fu sh n)"
  by pat_completeness auto
termination
  by (relation "measure (\<lambda>(i, f, t). nodes t)") (auto intro: nodes_child simp: not_le simp del: nodes.simps)

text \<open>The common suffix of \<open>remove\<close>: decrement the population, drop an empty block.\<close>

definition after_remove :: "'a table \<Rightarrow> 'a table" where
  "after_remove t =
     (if tlen t - 1 = 0 then table_default
      else Table (slots t) (children t) (full t) (shift t) (tlen t - 1))"

function table_remove :: "nat \<Rightarrow> 'a table \<Rightarrow> ('a \<times> 'a table) option" where
  "table_remove i (Table sl ch fu sh n) =
     (if sh = 0 then
        (if length sl \<le> i then None
         else
           (case sl ! i of
              None \<Rightarrow> None
            | Some v \<Rightarrow>
                Some (v, after_remove
                  (Table (sl[i := None]) ch
                     (fu[i div 64 := fu ! (i div 64) AND NOT (bit_at (i mod 64))]) sh n))))
      else
        (let index = drop_bit sh i
         in if length ch \<le> index then None
            else
              (case ch ! index of
                 None \<Rightarrow> None
               | Some child \<Rightarrow>
                   (case table_remove (take_bit sh i) child of
                      None \<Rightarrow> None
                    | Some (v, child') \<Rightarrow>
                        Some (v, after_remove
                          (Table sl
                             (ch[index := (if tlen child' = 0 then None else Some child')])
                             (fu[0 := fu ! 0 AND NOT (bit_at index)]) sh n))))))"
  by pat_completeness auto
termination
  by (relation "measure (\<lambda>(i, t). nodes t)") (auto intro: nodes_child simp: not_le simp del: nodes.simps)

fun prune_empty :: "'a table \<Rightarrow> 'a table" where
  "prune_empty (Table sl ch fu sh n) =
     Table sl
       (map (\<lambda>c. case c of None \<Rightarrow> None
                 | Some k \<Rightarrow> if tlen k = 0 then None else Some (prune_empty k)) ch)
       fu sh n"

function drop_zero_prefix :: "'a table \<Rightarrow> 'a table" where
  "drop_zero_prefix (Table sl ch fu sh n) =
     (if sh \<noteq> 0 \<and> 0 < length ch then
        (case ch ! 0 of
           None \<Rightarrow> Table sl ch fu sh n
         | Some child \<Rightarrow>
             if tlen child = n then drop_zero_prefix child else Table sl ch fu sh n)
      else Table sl ch fu sh n)"
  by pat_completeness auto
termination
  by (relation "measure nodes") (auto intro: nodes_child simp: not_le simp del: nodes.simps)

definition table_trim :: "'a table \<Rightarrow> 'a table" where
  "table_trim t = (if tlen t = 0 then table_default else drop_zero_prefix (prune_empty t))"

definition shrink_target :: "nat \<Rightarrow> nat \<Rightarrow> nat option" where
  "shrink_target capacity needed =
     (if needed = 0 then (if capacity \<noteq> 0 then Some 0 else None)
      else (let target = max (saturating_mul needed 2) 16
            in if capacity > saturating_mul target 2 then Some target else None))"

text \<open>\<^verbatim>\<open>shrink_vec\<close>: the capacity of a vector afterwards.\<close>

definition shrink_vec :: "nat \<Rightarrow> nat \<Rightarrow> nat \<Rightarrow> nat" where
  "shrink_vec cap len needed =
     (case shrink_target cap (max needed len) of
        None \<Rightarrow> cap | Some target \<Rightarrow> min cap (max len target))"

subsection \<open>Well-formedness and the slots a table can address\<close>

definition child_shift :: "nat \<Rightarrow> nat" where
  "child_shift sh = (if sh = LEAF_BITS then 0 else sh - BITS)"

fun table_inv :: "'a table \<Rightarrow> bool" where
  "table_inv (Table sl ch fu sh n) \<longleftrightarrow>
     length fu = 4 \<and>
     (if sh = 0 then
        ch = [] \<and> length sl \<le> 256 \<and>
        list_all (\<lambda>i. bit (fu ! (i div 64)) (i mod 64) \<longleftrightarrow> i < length sl \<and> sl ! i \<noteq> None) [0..<256] \<and>
        n = length (filter (\<lambda>x. x \<noteq> None) sl)
      else
        sl = [] \<and> length ch = 64 \<and> sh \<in> {8, 14, 20, 26} \<and>
        list_all (\<lambda>i. bit (fu ! 0) i \<longleftrightarrow> (case ch ! i of None \<Rightarrow> False | Some c \<Rightarrow> is_full c)) [0..<64] \<and>
        list_all (\<lambda>c. case c of None \<Rightarrow> True
                      | Some k \<Rightarrow> table_inv k \<and> shift k = child_shift sh) ch \<and>
        n = sum_list (map (case_option 0 tlen) ch))"

definition capacity :: "'a table \<Rightarrow> nat" where
  "capacity t = (if shift t = 0 then 256 else 64 * 2 ^ shift t)"

text \<open>The path to the slot \<open>i\<close> exists and the slot is empty: what \<open>insert\<close> requires.\<close>

function vacant :: "nat \<Rightarrow> 'a table \<Rightarrow> bool" where
  "vacant i (Table sl ch fu sh n) \<longleftrightarrow>
     (if sh = 0 then i < length sl \<and> sl ! i = None
      else if drop_bit sh i < length ch then
        (case ch ! drop_bit sh i of
           None \<Rightarrow> False
         | Some child \<Rightarrow> vacant (take_bit sh i) child)
      else False)"
  by pat_completeness auto
termination
  by (relation "measure (\<lambda>(i, t). nodes t)") (auto intro: nodes_child simp: not_le simp del: nodes.simps)

section \<open>Index decomposition\<close>

lemma join_index:
  assumes "(offset :: nat) < 2 ^ sh"
  shows "push_bit sh index OR offset = index * 2 ^ sh + offset"
proof -
  have "push_bit sh index AND offset = 0"
  proof (rule bit_eqI)
    fix k
    have "\<not> bit offset k" if "sh \<le> k"
      using assms that by (metis bit_take_bit_iff leD take_bit_nat_eq_self)
    then show "bit (push_bit sh index AND offset) k \<longleftrightarrow> bit (0 :: nat) k"
      by (auto simp: bit_and_iff bit_push_bit_iff)
  qed
  then have "push_bit sh index OR offset = push_bit sh index + offset"
    by (simp add: disjunctive_add_eq_or)
  then show ?thesis by (simp add: push_bit_eq_mult)
qed

lemma split_index:
  assumes "(offset :: nat) < 2 ^ sh"
  shows "drop_bit sh (push_bit sh index OR offset) = index"
    and "take_bit sh (push_bit sh index OR offset) = offset"
  using assms by (simp_all add: join_index drop_bit_eq_div take_bit_eq_mod)

lemma drop_bit_bound: "drop_bit sh (i :: nat) < 64 \<longleftrightarrow> i < 64 * 2 ^ sh"
  by (simp add: drop_bit_eq_div div_less_iff_less_mult)

lemma same_index:
  "(i :: nat) = j \<longleftrightarrow> drop_bit sh i = drop_bit sh j \<and> take_bit sh i = take_bit sh j"
  by (metis bits_ident)

section \<open>Properties of the directory\<close>

lemma table_inv_leaf:
  "table_inv (Table sl ch fu 0 n) \<longleftrightarrow>
     length fu = 4 \<and> ch = [] \<and> length sl \<le> 256 \<and>
     (\<forall>i < 256. bit (fu ! (i div 64)) (i mod 64) \<longleftrightarrow> i < length sl \<and> sl ! i \<noteq> None) \<and>
     n = length (filter (\<lambda>x. x \<noteq> None) sl)"
  by (auto simp: list_all_iff)

lemma case_option_False: "(case x of None \<Rightarrow> False | Some c \<Rightarrow> P c) \<longleftrightarrow> (\<exists>c. x = Some c \<and> P c)"
  by (cases x) auto

lemma case_option_True: "(case x of None \<Rightarrow> True | Some c \<Rightarrow> P c) \<longleftrightarrow> (\<forall>c. x = Some c \<longrightarrow> P c)"
  by (cases x) auto

lemma table_inv_branch:
  "0 < sh \<Longrightarrow> table_inv (Table sl ch fu sh n) \<longleftrightarrow>
     length fu = 4 \<and> sl = [] \<and> length ch = 64 \<and> sh \<in> {8, 14, 20, 26} \<and>
     (\<forall>i < 64. bit (fu ! 0) i \<longleftrightarrow> (\<exists>c. ch ! i = Some c \<and> is_full c)) \<and>
     (\<forall>i < 64. \<forall>c. ch ! i = Some c \<longrightarrow> table_inv c \<and> shift c = child_shift sh) \<and>
     n = sum_list (map (case_option 0 tlen) ch)"
  by (simp add: list_all_length case_option_False case_option_True cong: conj_cong)

declare table_inv.simps [simp del]

lemma capacity_child:
  "sh \<in> {8, 14, 20, 26} \<Longrightarrow> shift c = child_shift sh \<Longrightarrow> capacity c = 2 ^ sh"
  by (auto simp: capacity_def child_shift_def LEAF_BITS_def BITS_def)

lemma bits_all_full:
  "length fu = 4 \<Longrightarrow>
     list_all (\<lambda>w. w = (- 1 :: u64)) fu \<longleftrightarrow> (\<forall>i < 256. bit (fu ! (i div 64)) (i mod 64))"
proof -
  assume len: "length fu = 4"
  have "list_all (\<lambda>w. w = (- 1 :: u64)) fu \<longleftrightarrow> (\<forall>w < 4. \<forall>k < 64. bit (fu ! w) k)"
    using len by (auto simp: list_all_length word_all_bits)
  also have "\<dots> \<longleftrightarrow> (\<forall>i < 256. bit (fu ! (i div 64)) (i mod 64))"
  proof (intro iffI allI impI)
    fix i :: nat
    assume "\<forall>w < 4. \<forall>k < 64. bit (fu ! w) k" "i < 256"
    moreover have "i div 64 < 4" "i mod 64 < 64" using \<open>i < 256\<close> by auto
    ultimately show "bit (fu ! (i div 64)) (i mod 64)" by blast
  next
    fix w k :: nat
    assume all: "\<forall>i < 256. bit (fu ! (i div 64)) (i mod 64)" and "w < 4" "k < 64"
    then have "64 * w + k < 256" by simp
    with all have "bit (fu ! ((64 * w + k) div 64)) ((64 * w + k) mod 64)" by blast
    with \<open>k < 64\<close> show "bit (fu ! w) k" by simp
  qed
  finally show ?thesis .
qed

lemma full_iff: "table_inv t \<Longrightarrow> is_full t \<longleftrightarrow> (\<forall>i < capacity t. table_get i t \<noteq> None)"
proof (induction t)
  case (Table sl ch fu sh n)
  show ?case
  proof (cases "sh = 0")
    case True
    with Table.prems show ?thesis
      by (auto simp: table_inv_leaf is_full_def capacity_def bits_all_full)
  next
    case False
    then have sh: "0 < sh" by simp
    note inv = Table.prems [unfolded table_inv_branch [OF sh]]
    have child: "is_full c \<longleftrightarrow> (\<forall>k < 2 ^ sh. table_get k c \<noteq> None)"
      if "i < 64" "ch ! i = Some c" for i c
    proof -
      have "Some c \<in> set ch" using that inv by (metis nth_mem)
      then show ?thesis
        using Table.IH [of "Some c" c] that inv capacity_child [of sh c] by auto
    qed
    have "is_full (Table sl ch fu sh n) \<longleftrightarrow> (\<forall>i < 64. bit (fu ! 0) i)"
      using False by (simp add: is_full_def word_all_bits)
    also have "\<dots> \<longleftrightarrow> (\<forall>i < 64. \<exists>c. ch ! i = Some c \<and> (\<forall>k < 2 ^ sh. table_get k c \<noteq> None))"
      using inv child by blast
    also have "\<dots> \<longleftrightarrow> (\<forall>j < 64 * 2 ^ sh. table_get j (Table sl ch fu sh n) \<noteq> None)"
    proof (intro iffI allI impI)
      fix j :: nat
      assume all: "\<forall>i < 64. \<exists>c. ch ! i = Some c \<and> (\<forall>k < 2 ^ sh. table_get k c \<noteq> None)"
        and "j < 64 * 2 ^ sh"
      then have "drop_bit sh j < 64" by (simp add: drop_bit_bound)
      with all obtain c where "ch ! drop_bit sh j = Some c" "\<forall>k < 2 ^ sh. table_get k c \<noteq> None"
        by blast
      with False inv \<open>drop_bit sh j < 64\<close> show "table_get j (Table sl ch fu sh n) \<noteq> None" by simp
    next
      fix i :: nat
      assume all: "\<forall>j < 64 * 2 ^ sh. table_get j (Table sl ch fu sh n) \<noteq> None" and i: "i < 64"
      have get: "table_get (push_bit sh i OR k) (Table sl ch fu sh n) \<noteq> None" if "k < 2 ^ sh" for k
      proof -
        have "drop_bit sh (push_bit sh i OR k) < 64"
          using i by (simp only: split_index [OF that])
        then have "push_bit sh i OR k < 64 * 2 ^ sh" by (simp only: drop_bit_bound)
        with all show ?thesis by blast
      qed
      have get': "(case ch ! i of None \<Rightarrow> None | Some c \<Rightarrow> table_get k c) \<noteq> None" if "k < 2 ^ sh" for k
        using get [OF that] sh i inv by (simp only: table_get.simps split_index [OF that]) simp
      from get' [of 0] obtain c where "ch ! i = Some c" by (auto split: option.splits)
      moreover have "table_get k c \<noteq> None" if "k < 2 ^ sh" for k
        using get' [OF that] \<open>ch ! i = Some c\<close> by simp
      ultimately show "\<exists>c. ch ! i = Some c \<and> (\<forall>k < 2 ^ sh. table_get k c \<noteq> None)" by blast
    qed
    finally show ?thesis using False by (simp add: capacity_def)
  qed
qed

lemma table_inv_default [simp]: "table_inv table_default"
  by (auto simp: table_default_def table_inv_leaf nth_replicate less_mult_imp_div_less)

lemma not_full_default [simp]: "\<not> is_full table_default"
  by (simp add: table_default_def is_full_def numeral_eq_Suc)

lemma get_default [simp]: "table_get i table_default = None"
  by (simp add: table_default_def)

lemma default_simps [simp]: "shift table_default = 0" "tlen table_default = 0"
  by (simp_all add: table_default_def)

lemma branch_ok:
  assumes "branch mem sh = Ok t" "sh \<in> {8, 14, 20, 26}"
  shows "table_inv t" "shift t = sh" "tlen t = 0" "\<not> is_full t" "table_get i t = None"
    "slots t = []" "children t = replicate 64 None" "length (full t) = 4"
  using assms
  by (auto simp: branch_def table_inv_branch is_full_def WIDTH_def BITS_def nth_replicate
      sum_list_replicate drop_bit_bound split: if_splits)

lemma table_inv_set_child:
  assumes inv: "table_inv (Table sl ch fu sh n)" and sh: "0 < sh" and i: "i < 64"
    and child: "\<And>k. c' = Some k \<Longrightarrow> table_inv k \<and> shift k = child_shift sh"
    and fu': "length fu' = 4" "\<And>j. j < 64 \<Longrightarrow> j \<noteq> i \<Longrightarrow> bit (fu' ! 0) j = bit (fu ! 0) j"
    and fi: "bit (fu' ! 0) i \<longleftrightarrow> (\<exists>k. c' = Some k \<and> is_full k)"
    and n': "n' + case_option 0 tlen (ch ! i) = n + case_option 0 tlen c'"
  shows "table_inv (Table sl (ch[i := c']) fu' sh n')"
proof -
  note I = inv [unfolded table_inv_branch [OF sh]]
  have "sum_list (map (case_option 0 tlen) (ch[i := c'])) = n'"
  proof -
    have le: "case_option 0 tlen (ch ! i) \<le> sum_list (map (case_option 0 tlen) ch)"
      using i I by (intro member_le_sum_list) auto
    have "sum_list (map (case_option 0 tlen) (ch[i := c'])) =
      n + case_option 0 tlen c' - case_option 0 tlen (ch ! i)"
      using i I le by (simp add: map_update sum_list_update)
    with n' show ?thesis by simp
  qed
  with I i child fu' fi show ?thesis
    unfolding table_inv_branch [OF sh] by (simp add: nth_list_update)
qed

lemma child_or_new_ok:
  assumes "child_or_new mem sh c = Ok k" "sh \<in> {8, 14, 20, 26}"
    and "\<And>k. c = Some k \<Longrightarrow> table_inv k \<and> shift k = child_shift sh"
  shows "table_inv k \<and> shift k = child_shift sh \<and> tlen k = case_option 0 tlen c
    \<and> (\<forall>j. table_get j k = Option.bind c (table_get j)) \<and> (c = None \<longrightarrow> \<not> is_full k)"
proof (cases c)
  case (Some k')
  with assms show ?thesis by (simp add: child_or_new_def)
next
  case None
  show ?thesis
  proof (cases "sh = 8")
    case True
    with None assms show ?thesis by (auto simp: child_or_new_def LEAF_BITS_def child_shift_def)
  next
    case False
    with None assms have "branch mem (sh - 6) = Ok k" "sh - 6 \<in> {8, 14, 20, 26}"
      by (auto simp: child_or_new_def LEAF_BITS_def BITS_def)
    from branch_ok [OF this] None False show ?thesis
      by (simp add: child_shift_def LEAF_BITS_def BITS_def)
  qed
qed

lemma position_Some:
  "position P xs = Some i \<Longrightarrow> i < length xs \<and> P (xs ! i) \<and> (\<forall>j < i. \<not> P (xs ! j))"
proof (induction xs arbitrary: i)
  case (Cons x xs)
  show ?case
  proof (cases "P x")
    case False
    with Cons.prems obtain k where "position P xs = Some k" "i = Suc k" by auto
    with Cons.IH [of k] False show ?thesis by (auto simp: less_Suc_eq_0_disj)
  qed (use Cons.prems in auto)
qed simp

lemma position_None: "position P xs = None \<longleftrightarrow> (\<forall>x \<in> set xs. \<not> P x)"
  by (induction xs) auto

lemma first_clear_bit:
  assumes "(w :: u64) \<noteq> - 1"
  shows "trailing_zeros (NOT w) < 64" "\<not> bit w (trailing_zeros (NOT w))"
    "j < trailing_zeros (NOT w) \<Longrightarrow> bit w j"
proof -
  from assms have "NOT w \<noteq> 0" by (metis bit.compl_zero bit.double_compl)
  then show lt: "trailing_zeros (NOT w) < 64" and "\<not> bit w (trailing_zeros (NOT w))"
    using trailing_zeros_nonzero [of "NOT w"] by (auto simp: bit_not_u64)
  show "bit w j" if "j < trailing_zeros (NOT w)"
    using trailing_zeros_below [OF that] that lt by (auto simp: bit_not_u64)
qed

lemma all_set_tz: "trailing_zeros (NOT (w :: u64)) = 64 \<longleftrightarrow> w = - 1"
proof
  assume "trailing_zeros (NOT w) = 64"
  then show "w = - 1" using first_clear_bit(1) [of w] by (cases "w = - 1") auto
next
  assume "w = - 1"
  then have "trailing_zeros (NOT w) = trailing_zeros (0 :: u64)" by simp
  also have "\<dots> = 64"
    using trailing_zeros_bit [of "0 :: u64"] trailing_zeros_le [of "0 :: u64"] by fastforce
  finally show "trailing_zeros (NOT w) = 64" .
qed

declare prepare_slot.simps [simp del] prepare_slot_failed.simps [simp del] table_insert.simps [simp del] table_get.simps [simp del]
  table_update.simps [simp del] table_remove.simps [simp del] vacant.simps [simp del]
  prune_empty.simps [simp del] drop_zero_prefix.simps [simp del]

lemma filter_update_count:
  "i < length xs \<Longrightarrow> length (filter P (xs[i := x])) + (if P (xs ! i) then 1 else 0)
     = length (filter P xs) + (if P x then 1 else 0)"
  by (induction xs arbitrary: i) (fastforce split: nat.splits)+

lemma get_branch:
  "0 < sh \<Longrightarrow> length ch = 64 \<Longrightarrow>
     table_get j (Table sl ch fu sh n) =
       (if drop_bit sh j < 64 then Option.bind (ch ! drop_bit sh j) (table_get (take_bit sh j)) else None)"
  by (simp add: table_get.simps split: option.split)

lemma get_replace_child:
  assumes sh: "0 < sh" and len: "length ch = 64" and x: "drop_bit sh i < 64"
    and child: "ch ! drop_bit sh i = Some child"
    and c': "\<And>k. Option.bind c' (table_get k) = (if k = take_bit sh i then r else table_get k child)"
  shows "table_get j (Table sl (ch[drop_bit sh i := c']) fu' sh n') =
    (if j = i then r else table_get j (Table sl ch fu sh n))"
proof (cases "drop_bit sh j = drop_bit sh i")
  case True
  then have "j = i \<longleftrightarrow> take_bit sh j = take_bit sh i" using same_index [of j i sh] by simp
  with True assms show ?thesis by (simp add: get_branch)
next
  case False
  with assms show ?thesis by (auto simp: get_branch)
qed

lemma get_leaf: "table_get j (Table sl ch fu 0 n) = (if j < length sl then sl ! j else None)"
  by (simp add: table_get.simps)

lemma word_index_eq: "(i :: nat) div 64 = j div 64 \<Longrightarrow> i mod 64 = j mod 64 \<Longrightarrow> i = j"
  by (metis div_mod_decomp)

lemma leaf_bit_update:
  assumes "length fu = 4" "i < 256" "j < 256"
  shows "bit (fu[i div 64 := w] ! (j div 64)) (j mod 64) \<longleftrightarrow>
    (if j div 64 = i div 64 then bit w (j mod 64) else bit (fu ! (j div 64)) (j mod 64))"
  using assms by (auto simp: nth_list_update less_mult_imp_div_less)

lemma vacant_get: "table_inv t \<Longrightarrow> vacant i t \<Longrightarrow> table_get i t = None"
proof (induction i t rule: vacant.induct)
  case (1 i sl ch fu sh n)
  show ?case
  proof (cases "sh = 0")
    case True
    with "1.prems" show ?thesis by (simp add: get_leaf vacant.simps)
  next
    case False
    with "1" show ?thesis
      by (auto simp: get_branch vacant.simps table_inv_branch split: if_splits option.splits)
  qed
qed

text \<open>What a successful reservation of a slot guarantees.\<close>

definition prepared :: "'a table \<Rightarrow> 'a table \<Rightarrow> nat \<Rightarrow> bool" where
  "prepared t t' i \<longleftrightarrow> table_inv t' \<and> shift t' = shift t \<and> tlen t' = tlen t \<and> is_full t' = is_full t
     \<and> (\<forall>j. table_get j t' = table_get j t) \<and> vacant i t' \<and> i < capacity t
     \<and> table_get i t = None \<and> (\<forall>j < i. table_get j t \<noteq> None)"

lemma prepare_leaf:
  assumes inv: "table_inv (Table sl ch fu 0 n)"
    and ok: "prepare_slot mem (Table sl ch fu 0 n) = Ok (t', i)"
  shows "prepared (Table sl ch fu 0 n) t' i"
proof -
  note I = inv [unfolded table_inv_leaf]
  from ok obtain w where w: "position (\<lambda>word. word \<noteq> - 1) fu = Some w"
    by (auto simp: prepare_slot.simps split: option.splits)
  from position_Some [OF w] I have wlt: "w < 4" and wne: "fu ! w \<noteq> - 1"
    and before: "\<And>k. k < w \<Longrightarrow> fu ! k = - 1" by auto
  define z where "z = trailing_zeros (NOT (fu ! w))"
  have z: "z < 64" "\<not> bit (fu ! w) z" "\<And>k. k < z \<Longrightarrow> bit (fu ! w) k"
    using first_clear_bit [OF wne] by (auto simp: z_def)
  have i: "i = w * 64 + z" and t': "t' = Table (sl @ replicate (i + 1 - length sl) None) ch fu 0 n"
    using ok w by (auto simp: prepare_slot.simps z_def Let_def split: if_splits)
  have lt: "i < 256" using i wlt z(1) by simp
  have free: "\<not> (i < length sl \<and> sl ! i \<noteq> None)"
  proof -
    have "i div 64 = w" "i mod 64 = z" using i z(1) by auto
    with I lt z(2) show ?thesis by blast
  qed
  have used: "j < length sl \<and> sl ! j \<noteq> None" if "j < i" for j
  proof -
    have "bit (fu ! (j div 64)) (j mod 64)"
    proof (cases "j div 64 = w")
      case True
      then have "j mod 64 < z" using that i by (metis div_mod_decomp mult.commute nat_add_left_cancel_less)
      with True z(3) show ?thesis by simp
    next
      case False
      then have "j div 64 < w" using that i z(1) by auto
      with before show ?thesis by (simp add: word_all_bits)
    qed
    with I that lt show ?thesis by auto
  qed
  have sl': "(sl @ replicate (i + 1 - length sl) None) ! j = (if j < length sl then sl ! j else None)"
    if "j < length sl + (i + 1 - length sl)" for j
    using that by (auto simp: nth_append)
  have inv': "table_inv t'"
    using I lt sl' unfolding t' table_inv_leaf by (auto simp: nth_append split: if_splits)
  have vac: "vacant i t'" using sl' [of i] free by (auto simp: t' vacant.simps)
  show ?thesis
    unfolding prepared_def using inv' vac used free lt t' sl'
    by (auto simp: is_full_def capacity_def get_leaf split: if_splits)
qed

lemma prepare_slot_ok:
  "table_inv t \<Longrightarrow> prepare_slot mem t = Ok (t', i) \<Longrightarrow> prepared t t' i"
proof (induction mem t arbitrary: t' i rule: prepare_slot.induct)
  case (1 mem sl ch fu sh n)
  show ?case
  proof (cases "sh = 0")
    case True
    with "1.prems" show ?thesis by (auto intro: prepare_leaf)
  next
    case False
    then have sh: "0 < sh" by simp
    note I = "1.prems"(1) [unfolded table_inv_branch [OF sh]]
    define x where "x = trailing_zeros (NOT (fu ! 0))"
    from "1.prems"(2) False obtain child child' off where
      xne: "x \<noteq> WIDTH" and child: "child_or_new mem sh (ch ! x) = Ok child"
      and rec: "prepare_slot mem child = Ok (child', off)"
      and t': "t' = Table sl (ch[x := Some child']) fu sh n" and i: "i = push_bit sh x OR off"
      by (auto simp: prepare_slot.simps x_def Let_def split: if_splits outcome.splits)
    have nf: "fu ! 0 \<noteq> - 1" using xne by (auto simp: x_def WIDTH_def BITS_def all_set_tz)
    have x: "x < 64" "\<not> bit (fu ! 0) x" "\<And>k. k < x \<Longrightarrow> bit (fu ! 0) k"
      using first_clear_bit [OF nf] by (auto simp: x_def)
    have old: "\<And>k. ch ! x = Some k \<Longrightarrow> table_inv k \<and> shift k = child_shift sh" using I x(1) by blast
    have shs: "sh \<in> {8, 14, 20, 26}" using I by blast
    note C = child_or_new_ok [OF child shs old]
    have P: "prepared child child' off"
    proof (rule "1.IH" [OF False x_def])
      show "x \<noteq> WIDTH" by fact
      show "\<not> length ch \<le> x" using I x(1) by simp
      show "child_or_new mem sh (ch ! x) = Ok child" by fact
      show "table_inv child" using C by blast
      show "prepare_slot mem child = Ok (child', off)" by fact
    qed
    note P = P [unfolded prepared_def]
    have off: "off < 2 ^ sh" using P C capacity_child [OF shs, of child] by simp
    have nfc: "\<not> is_full child"
    proof (cases "ch ! x")
      case (Some k)
      with child have "k = child" by (simp add: child_or_new_def)
      with Some I x show ?thesis by blast
    next
      case None
      with C show ?thesis by blast
    qed
    have inv': "table_inv t'"
      unfolding t' by (rule table_inv_set_child [OF "1.prems"(1) sh x(1)]) (use P C I x nfc in auto)
    have gets: "table_get j t' = table_get j (Table sl ch fu sh n)" for j
    proof (cases "drop_bit sh j = x")
      case True
      then show ?thesis using sh I x P C by (simp add: t' get_branch)
    next
      case False
      then show ?thesis using sh I x by (simp add: t' get_branch)
    qed
    have di: "drop_bit sh i = x" and ti: "take_bit sh i = off"
      by (simp_all only: i split_index [OF off])
    have vac: "vacant i t'" using sh I x(1) P by (simp add: t' di ti vacant.simps)
    have none: "table_get i (Table sl ch fu sh n) = None"
      using P C I sh x(1) by (simp add: di ti get_branch)
    have ieq: "i = x * 2 ^ sh + off" using i join_index [OF off] by simp
    have below: "table_get j (Table sl ch fu sh n) \<noteq> None" if "j < i" for j
    proof (cases "drop_bit sh j = x")
      case True
      have "take_bit sh j < off"
        using that True ieq by (metis bits_ident add.commute nat_add_left_cancel_less push_bit_eq_mult)
      then have "table_get (take_bit sh j) child \<noteq> None" using P by blast
      with True C I sh x(1) show ?thesis by (simp add: get_branch)
    next
      case False
      have "drop_bit sh j < Suc x"
        using that ieq off by (simp add: drop_bit_eq_div div_less_iff_less_mult algebra_simps)
      with False have dx: "drop_bit sh j < x" by simp
      have "drop_bit sh j < 64" using dx x(1) by simp
      with x(3) [OF dx] I obtain c where c: "ch ! drop_bit sh j = Some c" "is_full c" by blast
      then have cc: "table_inv c" "shift c = child_shift sh"
        using I \<open>drop_bit sh j < 64\<close> by blast+
      have "take_bit sh j < capacity c" using capacity_child [OF shs cc(2)] by simp
      with c cc full_iff [of c] have "table_get (take_bit sh j) c \<noteq> None" by blast
      with c dx I sh x(1) show ?thesis by (simp add: get_branch)
    qed
    have "i < capacity (Table sl ch fu sh n)"
      using sh x(1) di drop_bit_bound [of sh i] by (simp add: capacity_def)
    with inv' gets vac none below show ?thesis
      unfolding prepared_def using sh by (auto simp: t' is_full_def)
  qed
qed

lemma prepare_slot_total:
  "(\<And>k. mem k) \<Longrightarrow> table_inv t \<Longrightarrow> \<not> is_full t \<Longrightarrow> \<exists>t' i. prepare_slot mem t = Ok (t', i)"
proof (induction mem t rule: prepare_slot.induct)
  case (1 mem sl ch fu sh n)
  show ?case
  proof (cases "sh = 0")
    case True
    with "1.prems" obtain w where "position (\<lambda>word. word \<noteq> - 1) fu = Some w"
      by (cases "position (\<lambda>word. word \<noteq> - 1) fu") (auto simp: is_full_def position_None list_all_iff)
    with True "1.prems"(1) show ?thesis by (auto simp: prepare_slot.simps Let_def)
  next
    case False
    then have sh: "0 < sh" by simp
    note I = "1.prems"(2) [unfolded table_inv_branch [OF sh]]
    define x where "x = trailing_zeros (NOT (fu ! 0))"
    have nf: "fu ! 0 \<noteq> - 1" using "1.prems"(3) False by (simp add: is_full_def)
    have x: "x < 64" "\<not> bit (fu ! 0) x" using first_clear_bit [OF nf] by (auto simp: x_def)
    have shs: "sh \<in> {8, 14, 20, 26}" using I by blast
    obtain child where child: "child_or_new mem sh (ch ! x) = Ok child"
      using "1.prems"(1) by (cases "ch ! x"; cases "sh = LEAF_BITS") (auto simp: child_or_new_def branch_def)
    have old: "\<And>k. ch ! x = Some k \<Longrightarrow> table_inv k \<and> shift k = child_shift sh" using I x(1) by blast
    note C = child_or_new_ok [OF child shs old]
    have nfc: "\<not> is_full child"
      using child C I x by (cases "ch ! x") (auto simp: child_or_new_def)
    have "\<exists>t' i. prepare_slot mem child = Ok (t', i)"
    proof (rule "1.IH" [OF False x_def])
      show "x \<noteq> WIDTH" using x(1) by (simp add: WIDTH_def BITS_def)
      show "\<not> length ch \<le> x" using I x(1) by simp
    qed (use child C nfc "1.prems"(1) in auto)
    then obtain t' i where "prepare_slot mem child = Ok (t', i)" by blast
    with False child x(1) I show ?thesis
      by (auto simp: prepare_slot.simps Let_def x_def [symmetric] WIDTH_def BITS_def)
  qed
qed

lemma get_beyond: "table_inv t \<Longrightarrow> capacity t \<le> j \<Longrightarrow> table_get j t = None"
proof (cases t)
  case (Table sl ch fu sh n)
  assume "table_inv t" "capacity t \<le> j"
  then show ?thesis
    using drop_bit_bound [of sh j]
    by (cases "sh = 0") (auto simp: Table capacity_def table_inv_leaf table_inv_branch get_leaf get_branch)
qed

lemma table_inv_shift: "table_inv t \<Longrightarrow> shift t \<in> {0, 8, 14, 20, 26}"
  by (cases t; cases "shift t = 0") (auto simp: table_inv_branch)

definition grown :: "'a table \<Rightarrow> 'a table \<Rightarrow> bool" where
  "grown t r \<longleftrightarrow> table_inv r \<and> tlen r = tlen t \<and> \<not> is_full r \<and> (\<forall>j. table_get j r = table_get j t)"

lemma grow_ok:
  assumes inv: "table_inv t" and f: "is_full t" and s: "shift t \<noteq> 26"
    and root: "branch mem (if shift t = 0 then LEAF_BITS else shift t + BITS) = Ok root"
  shows "grown t (Table (slots root) ((children root)[0 := Some t]) ((full root)[0 := 1])
    (shift root) (tlen t))"
proof -
  define sh where "sh = (if shift t = 0 then LEAF_BITS else shift t + BITS)"
  have "shift t \<in> {0, 8, 14, 20}" using table_inv_shift [OF inv] s by auto
  then have shs: "sh \<in> {8, 14, 20, 26}" and cs: "shift t = child_shift sh" and pos: "0 < sh"
    by (auto simp: sh_def LEAF_BITS_def BITS_def child_shift_def)
  note R = branch_ok [OF root [folded sh_def] shs]
  obtain fu where root_eq: "root = Table [] (replicate 64 None) fu sh 0"
    using R(2,3,6,7) by (cases root) simp
  have fu: "length fu = 4" using R(8) root_eq by simp
  note rinv = R(1) [unfolded root_eq]
  have zero: "\<not> bit (fu ! 0) j" if "j < 64" for j
    using rinv that pos by (simp add: table_inv_branch)
  let ?r = "Table [] ((replicate 64 None)[0 := Some t]) (fu[0 := 1]) sh (tlen t)"
  have inv': "table_inv ?r"
    by (rule table_inv_set_child [OF rinv]) (use pos fu inv cs f zero in \<open>auto simp: bit_1_iff\<close>)
  have gets: "table_get j ?r = table_get j t" for j
  proof (cases "drop_bit sh j = 0")
    case True
    then have "take_bit sh j = j" by (metis bits_ident add_0 push_bit_of_0)
    with True pos show ?thesis by (simp add: get_branch)
  next
    case False
    then have "capacity t \<le> j"
      using capacity_child [OF shs cs] by (simp add: drop_bit_eq_div div_greater_zero_iff)
    with False pos inv show ?thesis
      by (simp add: get_branch get_beyond nth_list_update)
  qed
  have "\<not> is_full ?r" using pos fu by (simp add: is_full_def)
  with inv' gets show ?thesis by (simp add: grown_def root_eq)
qed

text \<open>The identity returned is free, is the least free one, and nothing else changes.\<close>

lemma prepare_ok:
  assumes inv: "table_inv t" and ok: "prepare mem t = Ok (t', i)"
  shows "table_inv t' \<and> vacant i t' \<and> tlen t' = tlen t \<and> (\<forall>j. table_get j t' = table_get j t)
    \<and> table_get i t = None \<and> (\<forall>j < i. table_get j t \<noteq> None) \<and> i < 2 ^ 32"
proof -
  from ok obtain r where r: "r = t \<or> grown t r" and slot: "prepare_slot mem r = Ok (t', i)"
    using grow_ok [OF inv] by (auto simp: prepare_def split: if_splits)
  from r inv have g: "table_inv r" "tlen r = tlen t" "\<And>j. table_get j r = table_get j t"
    by (auto simp: grown_def)
  note P = prepare_slot_ok [OF g(1) slot, unfolded prepared_def]
  have "capacity r \<le> 2 ^ 32" using table_inv_shift [OF g(1)] by (auto simp: capacity_def)
  with P g show ?thesis by auto
qed

text \<open>With memory available, only a directory holding all identities refuses one.\<close>

lemma prepare_total:
  fixes t :: "'a table"
  assumes mem: "\<And>k. mem k" and inv: "table_inv t" and free: "\<exists>j < 2 ^ 32. table_get j t = None"
  shows "\<exists>t' i. prepare mem t = Ok (t', i)"
proof (cases "is_full t")
  case True
  have s: "shift t \<noteq> 26"
  proof
    assume "shift t = 26"
    then have "capacity t = 2 ^ 32" by (simp add: capacity_def)
    with True inv free full_iff [of t] show False by auto
  qed
  obtain root :: "'a table"
    where root: "branch mem (if shift t = 0 then LEAF_BITS else shift t + BITS) = Ok root"
    using mem by (auto simp: branch_def)
  note G = grow_ok [OF inv True s root, unfolded grown_def]
  then obtain t' i where "prepare_slot mem (Table (slots root) ((children root)[0 := Some t])
      ((full root)[0 := 1]) (shift root) (tlen t)) = Ok (t', i)"
    using prepare_slot_total [of mem, OF mem] by blast
  with True s root show ?thesis by (auto simp: prepare_def)
next
  case False
  then show ?thesis using prepare_slot_total [OF mem inv] by (auto simp: prepare_def)
qed

lemma prepare_slot_no_panic: "table_inv t \<Longrightarrow> prepare_slot mem t \<noteq> Panic m"
proof (induction mem t rule: prepare_slot.induct)
  case (1 mem sl ch fu sh n)
  show ?case
  proof (cases "sh = 0")
    case True
    then show ?thesis by (simp add: prepare_slot.simps Let_def split: option.splits)
  next
    case False
    let ?i = "trailing_zeros (NOT (fu ! 0))"
    have I: "length ch = 64" "sh \<in> {8, 14, 20, 26}" "\<And>j c. j < 64 \<Longrightarrow> ch ! j = Some c \<Longrightarrow> table_inv c \<and> shift c = child_shift sh"
      using "1.prems" False by (simp_all add: table_inv_branch)
    have lt: "?i < 64" if "?i \<noteq> WIDTH" using that trailing_zeros_le [of "NOT (fu ! 0)"] by (simp add: WIDTH_def BITS_def)
    have np: "child_or_new mem sh c \<noteq> Panic m" for c
      by (simp add: child_or_new_def branch_def split: option.splits)
    show ?thesis
    proof (cases "?i = WIDTH")
      case True
      then show ?thesis using False by (simp add: prepare_slot.simps)
    next
      case w: False
      show ?thesis
      proof (cases "child_or_new mem sh (ch ! ?i)")
        case (Ok c)
        then have "table_inv c" using child_or_new_ok [OF Ok I(2)] I(3) [OF lt [OF w]] by blast
        then have "prepare_slot mem c \<noteq> Panic m"
          using "1.IH" [OF False refl w _ Ok] lt [OF w] I(1) by simp
        then show ?thesis using False w Ok lt [OF w] I(1)
          by (cases "prepare_slot mem c") (simp_all add: prepare_slot.simps [of mem sl] Let_def split: prod.splits)
      qed (use False w lt [OF w] I(1) np [of "ch ! ?i"] in \<open>simp_all add: prepare_slot.simps [of mem sl]\<close>)
    qed
  qed
qed

lemma prepare_no_panic:
  fixes t :: "'a table"
  assumes "table_inv t"
  shows "prepare mem t \<noteq> Panic m"
proof -
  have br: "(branch mem s :: 'a table gc_result) \<noteq> Panic m" for s by (simp add: branch_def)
  show ?thesis
  proof (cases "is_full t")
    case False
    then show ?thesis using prepare_slot_no_panic [OF assms] by (simp add: prepare_def)
  next
    case True
    show ?thesis
    proof (cases "branch mem (if shift t = 0 then LEAF_BITS else shift t + BITS) :: 'a table gc_result")
      case (Ok root)
      then show ?thesis using True grow_ok [OF assms True _ Ok] prepare_slot_no_panic
        by (auto simp: prepare_def grown_def)
    qed (use True br in \<open>auto simp: prepare_def\<close>)
  qed
qed

text \<open>What a failing \<open>prepare\<close> leaves: a well-formed table with the same entries; only spare blocks
  may be new.\<close>

definition same_entries :: "'a table \<Rightarrow> 'a table \<Rightarrow> bool" where
  "same_entries t t' \<longleftrightarrow> table_inv t' \<and> tlen t' = tlen t \<and> (\<forall>j. table_get j t' = table_get j t)"

lemma same_entries_refl [simp]: "same_entries t t \<longleftrightarrow> table_inv t"
  by (auto simp: same_entries_def)

lemma same_entries_trans: "same_entries t t' \<Longrightarrow> same_entries t' t'' \<Longrightarrow> same_entries t t''"
  by (auto simp: same_entries_def)

lemma prepare_slot_failed_ok:
  "table_inv t \<Longrightarrow> same_entries t (prepare_slot_failed mem t)
    \<and> shift (prepare_slot_failed mem t) = shift t
    \<and> is_full (prepare_slot_failed mem t) = is_full t"
proof (induction mem t rule: prepare_slot_failed.induct)
  case (1 mem sl ch fu sh n)
  define x where "x = trailing_zeros (NOT (fu ! 0))"
  let ?t = "Table sl ch fu sh n"
  show ?case
  proof (cases "sh = 0 \<or> x = WIDTH \<or> length ch \<le> x \<or> (\<forall>c. child_or_new mem sh (ch ! x) \<noteq> Ok c)")
    case True
    then have "prepare_slot_failed mem ?t = ?t"
      by (auto simp: prepare_slot_failed.simps x_def Let_def split: outcome.splits)
    with "1.prems" show ?thesis by simp
  next
    case False
    then obtain child where sh: "0 < sh" and xw: "x \<noteq> WIDTH" and xl: "\<not> length ch \<le> x"
      and child: "child_or_new mem sh (ch ! x) = Ok child" by auto
    let ?c = "prepare_slot_failed mem child"
    have eq: "prepare_slot_failed mem ?t = Table sl (ch[x := Some ?c]) fu sh n"
      using sh xw xl child by (simp add: prepare_slot_failed.simps x_def Let_def)
    note I = "1.prems" [unfolded table_inv_branch [OF sh]]
    have x: "x < 64" "\<not> bit (fu ! 0) x"
      using first_clear_bit [of "fu ! 0"] xw by (auto simp: x_def WIDTH_def BITS_def all_set_tz)
    have shs: "sh \<in> {8, 14, 20, 26}" using I by blast
    have old: "\<And>k. ch ! x = Some k \<Longrightarrow> table_inv k \<and> shift k = child_shift sh" using I x(1) by blast
    note C = child_or_new_ok [OF child shs old]
    have IH: "same_entries child ?c \<and> shift ?c = shift child \<and> is_full ?c = is_full child"
      by (rule "1.IH") (use sh xw xl child C in \<open>auto simp: x_def\<close>)
    have nf: "\<not> is_full child"
    proof (cases "ch ! x")
      case (Some k)
      with child have "k = child" by (simp add: child_or_new_def)
      with Some I x show ?thesis by blast
    qed (use C in blast)
    have inv': "table_inv (Table sl (ch[x := Some ?c]) fu sh n)"
      by (rule table_inv_set_child [OF "1.prems" sh x(1)])
        (use IH C I x nf in \<open>auto simp: same_entries_def\<close>)
    have "table_get j (Table sl (ch[x := Some ?c]) fu sh n) = table_get j ?t" for j
      using sh I x IH C by (cases "drop_bit sh j = x") (simp_all add: get_branch same_entries_def)
    with inv' show ?thesis unfolding eq by (simp add: same_entries_def is_full_def)
  qed
qed

lemma prepare_failed_ok: "table_inv t \<Longrightarrow> same_entries t (prepare_failed mem t)"
proof -
  assume inv: "table_inv t"
  consider "prepare_failed mem t = t"
    | r where "r = t \<or> grown t r" "prepare_failed mem t = prepare_slot_failed mem r"
    using grow_ok [OF inv] by (fastforce simp: prepare_failed_def split: outcome.splits if_splits)
  then show ?thesis
  proof cases
    case 1
    with inv show ?thesis by simp
  next
    case 2
    then have "same_entries t r" using inv by (auto simp: grown_def same_entries_def)
    moreover have "same_entries r (prepare_slot_failed mem r)"
      using prepare_slot_failed_ok [of r] calculation by (auto simp: same_entries_def)
    ultimately show ?thesis using 2 same_entries_trans by auto
  qed
qed

lemma insert_ok:
  "table_inv t \<Longrightarrow> vacant i t \<Longrightarrow>
     \<exists>t'. table_insert i v t = Ok t' \<and> table_inv t' \<and> shift t' = shift t \<and> tlen t' = Suc (tlen t)
       \<and> (\<forall>j. table_get j t' = (if j = i then Some v else table_get j t))"
proof (induction i v t rule: table_insert.induct)
  case (1 i v sl ch fu sh n)
  show ?case
  proof (cases "sh = 0")
    case True
    with "1.prems" have I: "length fu = 4" "ch = []" "length sl \<le> 256" "i < length sl" "sl ! i = None"
      and bits: "\<And>j. j < 256 \<Longrightarrow> bit (fu ! (j div 64)) (j mod 64) \<longleftrightarrow> j < length sl \<and> sl ! j \<noteq> None"
      and n: "n = length (filter (\<lambda>x. x \<noteq> None) sl)"
      by (auto simp: table_inv_leaf vacant.simps)
    have bits': "bit (fu[i div 64 := fu ! (i div 64) OR bit_at (i mod 64)] ! (j div 64)) (j mod 64)
        \<longleftrightarrow> j < length sl \<and> sl[i := Some v] ! j \<noteq> None" if "j < 256" for j
      using leaf_bit_update [of fu i j] bits [OF that] I that word_index_eq [of i j]
      by (auto simp: bit_set_at nth_list_update)
    have "length (filter (\<lambda>x. x \<noteq> None) (sl[i := Some v])) = Suc n"
      using I n filter_update_count [of i sl "\<lambda>x. x \<noteq> None" "Some v"] by simp
    with True I bits' show ?thesis
      by (auto simp: table_insert.simps table_inv_leaf get_leaf nth_list_update)
  next
    case False
    then have sh: "0 < sh" by simp
    note I = "1.prems"(1) [unfolded table_inv_branch [OF sh]]
    define x where "x = drop_bit sh i"
    define off where "off = take_bit sh i"
    from "1.prems"(2) False obtain child where x: "x < 64" and child: "ch ! x = Some child"
      and vac: "vacant off child"
      using I by (auto simp: vacant.simps x_def off_def split: if_splits option.splits)
    have cinv: "table_inv child" "shift child = child_shift sh" using I x child by blast+
    from "1.IH" [OF False x_def _ child, folded off_def, OF _ cinv(1) vac] I x
    obtain child' where ins: "table_insert off v child = Ok child'" and c': "table_inv child'"
      "shift child' = child_shift sh" "tlen child' = Suc (tlen child)"
      "\<And>j. table_get j child' = (if j = off then Some v else table_get j child)"
      using cinv(2) by (auto simp: off_def)
    have nf: "\<not> bit (fu ! 0) x"
    proof -
      have "table_get off child = None" using vacant_get [OF cinv(1) vac] .
      moreover have "off < capacity child"
        using capacity_child [of sh child] I cinv(2) by (auto simp: off_def)
      ultimately have "\<not> is_full child" using full_iff [OF cinv(1)] by blast
      with I x child show ?thesis by auto
    qed
    let ?fu = "if is_full child' then fu[0 := fu ! 0 OR bit_at x] else fu"
    let ?t = "Table sl (ch[x := Some child']) ?fu sh (n + 1)"
    have eq: "table_insert i v (Table sl ch fu sh n) = Ok ?t"
      using False I x child ins by (simp add: table_insert.simps x_def off_def Let_def)
    have inv': "table_inv ?t"
      by (rule table_inv_set_child [OF "1.prems"(1) sh x])
        (use c' I x child nf in \<open>auto simp: bit_set_at\<close>)
    have "table_get j ?t = (if j = i then Some v else table_get j (Table sl ch fu sh n))" for j
      unfolding x_def using I x child c'(4)
      by (intro get_replace_child [OF sh]) (auto simp: x_def off_def)
    with eq inv' show ?thesis by simp
  qed
qed

lemma update_ok:
  "table_inv t \<Longrightarrow> table_inv (table_update i f t) \<and> shift (table_update i f t) = shift t
     \<and> tlen (table_update i f t) = tlen t \<and> is_full (table_update i f t) = is_full t
     \<and> (\<forall>j. table_get j (table_update i f t) =
          (if j = i then map_option f (table_get i t) else table_get j t))"
proof (induction i f t rule: table_update.induct)
  case (1 i f sl ch fu sh n)
  show ?case
  proof (cases "sh = 0")
    case True
    note I = "1.prems" [unfolded True table_inv_leaf]
    have "length (filter (\<lambda>x. x \<noteq> None) (sl[i := map_option f (sl ! i)])) = n" if "i < length sl"
      using that I filter_update_count [of i sl "\<lambda>x. x \<noteq> None" "map_option f (sl ! i)"]
      by (auto split: if_splits)
    with True I show ?thesis
      by (auto simp: table_update.simps table_inv_leaf get_leaf is_full_def nth_list_update)
  next
    case False
    then have sh: "0 < sh" by simp
    note I = "1.prems" [unfolded table_inv_branch [OF sh]]
    define x where "x = drop_bit sh i"
    define off where "off = take_bit sh i"
    show ?thesis
    proof (cases "x < 64 \<and> ch ! x \<noteq> None")
      case False
      have eq: "table_update i f (Table sl ch fu sh n) = Table sl ch fu sh n"
        using False I sh by (auto simp: table_update.simps x_def split: option.splits)
      have "table_get i (Table sl ch fu sh n) = None"
        using False I sh by (auto simp: get_branch x_def)
      with eq "1.prems" show ?thesis by auto
    next
      case True
      then obtain child where x: "x < 64" and child: "ch ! x = Some child" by blast
      have cinv: "table_inv child" "shift child = child_shift sh" using I x child by blast+
      have IH: "table_inv (table_update off f child)
        \<and> shift (table_update off f child) = shift child
        \<and> tlen (table_update off f child) = tlen child
        \<and> is_full (table_update off f child) = is_full child
        \<and> (\<forall>j. table_get j (table_update off f child) =
          (if j = off then map_option f (table_get off child) else table_get j child))"
        unfolding off_def by (rule "1.IH") (use False I x child cinv in \<open>auto simp: x_def\<close>)
      let ?t = "Table sl (ch[x := Some (table_update off f child)]) fu sh n"
      have eq: "table_update i f (Table sl ch fu sh n) = ?t"
        using False I x child by (simp add: table_update.simps x_def off_def)
      have inv': "table_inv ?t"
        by (rule table_inv_set_child [OF "1.prems" sh x]) (use IH cinv I x child in auto)
      have "table_get j ?t = (if j = i then map_option f (table_get i (Table sl ch fu sh n))
          else table_get j (Table sl ch fu sh n))" for j
        unfolding x_def using I x child IH
        by (intro get_replace_child [OF sh]) (auto simp: get_branch [OF sh] x_def off_def)
      with eq inv' show ?thesis using sh by (simp add: is_full_def)
    qed
  qed
qed

lemma branch_child:
  "table_inv (Table sl ch fu sh n) \<Longrightarrow> 0 < sh \<Longrightarrow> i < 64 \<Longrightarrow> ch ! i = Some c \<Longrightarrow>
     table_inv c \<and> shift c = child_shift sh"
  by (simp add: table_inv_branch)

lemma tlen_zero: "table_inv t \<Longrightarrow> tlen t = 0 \<longleftrightarrow> (\<forall>i. table_get i t = None)"
proof (induction t)
  case (Table sl ch fu sh n)
  show ?case
  proof (cases "sh = 0")
    case True
    with Table.prems show ?thesis
      by (auto simp: table_inv_leaf get_leaf filter_empty_conv all_set_conv_all_nth)
  next
    case False
    then have sh: "0 < sh" by simp
    note I = Table.prems [unfolded table_inv_branch [OF sh]]
    have child: "tlen c = 0 \<longleftrightarrow> (\<forall>i. table_get i c = None)" if "i < 64" "ch ! i = Some c" for i c
    proof -
      have "Some c \<in> set ch" using that I by (metis nth_mem)
      then show ?thesis using Table.IH [of "Some c" c] that I by auto
    qed
    have "n = 0 \<longleftrightarrow> (\<forall>i < 64. case_option 0 tlen (ch ! i) = 0)"
      using I by (auto simp: all_set_conv_all_nth)
    also have "\<dots> \<longleftrightarrow> (\<forall>i < 64. \<forall>c. ch ! i = Some c \<longrightarrow> (\<forall>k. table_get k c = None))"
      using child by (auto split: option.splits)
    also have "\<dots> \<longleftrightarrow> (\<forall>j. table_get j (Table sl ch fu sh n) = None)"
    proof (intro iffI allI impI)
      fix j
      assume "\<forall>i < 64. \<forall>c. ch ! i = Some c \<longrightarrow> (\<forall>k. table_get k c = None)"
      then show "table_get j (Table sl ch fu sh n) = None"
        using sh I by (cases "ch ! drop_bit sh j") (auto simp: get_branch)
    next
      fix i c k
      assume none: "\<forall>j. table_get j (Table sl ch fu sh n) = None" and i: "i < 64" and c: "ch ! i = Some c"
      have cc: "table_inv c" "shift c = child_shift sh" using I i c by blast+
      show "table_get k c = None"
      proof (cases "k < 2 ^ sh")
        case True
        define j where "j = push_bit sh i OR k"
        have "drop_bit sh j = i" "take_bit sh j = k" by (simp_all only: j_def split_index [OF True])
        moreover have "table_get j (Table sl ch fu sh n) = None" using none by blast
        ultimately show ?thesis using sh I i c by (simp add: get_branch)
      next
        case False
        then show ?thesis
          using get_beyond [OF cc(1)] capacity_child [of sh c] I cc(2) by auto
      qed
    qed
    finally show ?thesis by simp
  qed
qed

lemma after_remove_ok:
  assumes inv: "table_inv (Table sl ch fu sh (n - 1))"
  shows "table_inv (after_remove (Table sl ch fu sh n))
    \<and> tlen (after_remove (Table sl ch fu sh n)) = n - 1
    \<and> (n - 1 \<noteq> 0 \<longrightarrow> shift (after_remove (Table sl ch fu sh n)) = sh)
    \<and> (\<forall>j. table_get j (after_remove (Table sl ch fu sh n)) = table_get j (Table sl ch fu sh (n - 1)))"
  using inv tlen_zero [OF inv] by (auto simp: after_remove_def)

definition removed :: "'a table \<Rightarrow> nat \<Rightarrow> 'a \<Rightarrow> 'a table \<Rightarrow> bool" where
  "removed t i v t' \<longleftrightarrow> table_get i t = Some v \<and> table_inv t' \<and> Suc (tlen t') = tlen t
     \<and> (tlen t' \<noteq> 0 \<longrightarrow> shift t' = shift t)
     \<and> (\<forall>j. table_get j t' = (if j = i then None else table_get j t))"

lemma remove_ok:
  "table_inv t \<Longrightarrow>
     (case table_remove i t of None \<Rightarrow> table_get i t = None | Some (v, t') \<Rightarrow> removed t i v t')"
proof (induction i t rule: table_remove.induct)
  case (1 i sl ch fu sh n)
  show ?case
  proof (cases "sh = 0")
    case True
    note I = "1.prems" [unfolded True table_inv_leaf]
    show ?thesis
    proof (cases "i < length sl \<and> sl ! i \<noteq> None")
      case False
      with True show ?thesis by (auto simp: table_remove.simps get_leaf split: option.splits)
    next
      case True2: True
      then obtain v where i: "i < length sl" and v: "sl ! i = Some v" by blast
      let ?fu = "fu[i div 64 := fu ! (i div 64) AND NOT (bit_at (i mod 64))]"
      have cnt: "Suc (length (filter (\<lambda>x. x \<noteq> None) (sl[i := None]))) = n"
        using i v I filter_update_count [of i sl "\<lambda>x. x \<noteq> None" None] by simp
      have bits': "bit (?fu ! (j div 64)) (j mod 64) \<longleftrightarrow> j < length sl \<and> sl[i := None] ! j \<noteq> None"
        if "j < 256" for j
        using leaf_bit_update [of fu i j] I that i word_index_eq [of i j]
        by (auto simp: bit_clear_at nth_list_update)
      have inv': "table_inv (Table (sl[i := None]) ch ?fu sh (n - 1))"
        using True I cnt bits' by (auto simp: table_inv_leaf)
      from after_remove_ok [OF inv'] cnt i v True
      show ?thesis
        by (auto simp: table_remove.simps removed_def get_leaf nth_list_update)
    qed
  next
    case False
    then have sh: "0 < sh" by simp
    note I = "1.prems" [unfolded table_inv_branch [OF sh]]
    define x where "x = drop_bit sh i"
    define off where "off = take_bit sh i"
    show ?thesis
    proof (cases "x < 64 \<and> ch ! x \<noteq> None")
      case False
      with I sh show ?thesis
        by (auto simp: table_remove.simps get_branch x_def Let_def split: option.splits)
    next
      case True
      then obtain child where x: "x < 64" and child: "ch ! x = Some child" by blast
      have cinv: "table_inv child" "shift child = child_shift sh" using I x child by blast+
      have IH: "case table_remove off child of None \<Rightarrow> table_get off child = None
          | Some (v, t') \<Rightarrow> removed child off v t'"
        unfolding off_def
        by (rule "1.IH") (use False I x child cinv in \<open>auto simp: x_def\<close>)
      show ?thesis
      proof (cases "table_remove off child")
        case None
        with IH sh I x child show ?thesis
          by (simp add: table_remove.simps get_branch x_def off_def Let_def)
      next
        case (Some r)
        then obtain v child' where rm: "table_remove off child = Some (v, child')" by (cases r) auto
        with IH have R: "table_get off child = Some v" "table_inv child'" "Suc (tlen child') = tlen child"
          "tlen child' \<noteq> 0 \<Longrightarrow> shift child' = child_shift sh"
          "\<And>j. table_get j child' = (if j = off then None else table_get j child)"
          using cinv(2) by (auto simp: removed_def)
        define c' where "c' = (if tlen child' = 0 then None else Some child')"
        let ?fu = "fu[0 := fu ! 0 AND NOT (bit_at x)]"
        have nf: "\<not> is_full child'" if "tlen child' \<noteq> 0"
        proof -
          have "off < capacity child'"
            using capacity_child [of sh child'] I R(4) [OF that] by (auto simp: off_def)
          with R(5) [of off] full_iff [OF R(2)] show ?thesis by auto
        qed
        have bind: "Option.bind c' (table_get k) = (if k = off then None else table_get k child)" for k
          using R(5) tlen_zero [OF R(2)] by (auto simp: c'_def)
        have n1: "n - 1 + case_option 0 tlen (ch ! x) = n + case_option 0 tlen c'"
        proof -
          have "case_option 0 tlen (ch ! x) \<le> sum_list (map (case_option 0 tlen) ch)"
            using x I by (intro member_le_sum_list) auto
          then have "tlen child \<le> n" using I child by simp
          with R(3) child show ?thesis by (auto simp: c'_def)
        qed
        have inv': "table_inv (Table sl (ch[x := c']) ?fu sh (n - 1))"
          by (rule table_inv_set_child [OF "1.prems" sh x])
            (use R(2,4) I x nf n1 in \<open>auto simp: c'_def bit_clear_at split: if_splits\<close>)
        have "n \<noteq> 0" using n1 R(3) child by (auto simp: c'_def split: if_splits)
        have gets: "table_get j (Table sl (ch[x := c']) ?fu sh (n - 1)) =
            (if j = i then None else table_get j (Table sl ch fu sh n))" for j
          unfolding x_def using I x child bind
          by (intro get_replace_child [OF sh]) (auto simp: x_def off_def)
        have get: "table_get i (Table sl ch fu sh n) = Some v"
          using sh I x child R(1) by (simp add: get_branch x_def off_def)
        have eq: "table_remove i (Table sl ch fu sh n) =
            Some (v, after_remove (Table sl (ch[x := c']) ?fu sh n))"
          using False I x child rm by (simp add: table_remove.simps x_def off_def c'_def Let_def)
        from after_remove_ok [OF inv'] gets get \<open>n \<noteq> 0\<close> show ?thesis
          by (simp add: eq removed_def)
      qed
    qed
  qed
qed

text \<open>The recorded length is the number of stored values.\<close>

lemma tlen_card: "table_inv t \<Longrightarrow> finite {i. table_get i t \<noteq> None} \<and> tlen t = card {i. table_get i t \<noteq> None}"
proof (induction "tlen t" arbitrary: t)
  case 0
  then have "{i. table_get i t \<noteq> None} = {}" using tlen_zero [of t] by auto
  with 0 show ?case by simp
next
  case (Suc n)
  then obtain i v where i: "table_get i t = Some v" using tlen_zero [of t] by fastforce
  with remove_ok [OF Suc.prems, of i] obtain t' where r: "removed t i v t'"
    by (auto split: option.splits) (auto simp: removed_def)
  then have "{j. table_get j t \<noteq> None} = insert i {j. table_get j t' \<noteq> None}" "i \<notin> {j. table_get j t' \<noteq> None}"
    using i by (auto simp: removed_def split: if_splits)
  moreover have "finite {j. table_get j t' \<noteq> None} \<and> tlen t' = card {j. table_get j t' \<noteq> None}"
  proof (rule Suc.hyps(1))
    show "n = tlen t'" "table_inv t'" using Suc.hyps(2) r by (auto simp: removed_def)
  qed
  ultimately have "finite {j. table_get j t \<noteq> None}" "card {j. table_get j t \<noteq> None} = Suc (tlen t')" by simp_all
  then show ?case using r by (simp add: removed_def)
qed

lemma prune_ok:
  "table_inv t \<Longrightarrow> table_inv (prune_empty t) \<and> shift (prune_empty t) = shift t
    \<and> tlen (prune_empty t) = tlen t \<and> is_full (prune_empty t) = is_full t
    \<and> (\<forall>j. table_get j (prune_empty t) = table_get j t)"
proof (induction t rule: prune_empty.induct)
  case (1 sl ch fu sh n)
  let ?p = "\<lambda>c. case c of None \<Rightarrow> None | Some k \<Rightarrow> if tlen k = 0 then None else Some (prune_empty k)"
  show ?case
  proof (cases "sh = 0")
    case True
    with "1.prems" show ?thesis by (auto simp: prune_empty.simps table_inv_leaf)
  next
    case False
    then have sh: "0 < sh" by simp
    note I = "1.prems" [unfolded table_inv_branch [OF sh]]
    have IH: "table_inv (prune_empty c) \<and> shift (prune_empty c) = child_shift sh
        \<and> tlen (prune_empty c) = tlen c \<and> is_full (prune_empty c) = is_full c
        \<and> (\<forall>j. table_get j (prune_empty c) = table_get j c)"
      if "i < 64" "ch ! i = Some c" "tlen c \<noteq> 0" for i c
    proof -
      have mem: "Some c \<in> set ch" using that I by (metis nth_mem)
      from branch_child [OF "1.prems" sh that(1,2)] "1.IH" [OF mem refl that(3)] show ?thesis by simp
    qed
    have sums: "map (case_option 0 tlen) (map ?p ch) = map (case_option 0 tlen) ch"
    proof (rule nth_equalityI)
      fix i
      assume "i < length (map (case_option 0 tlen) (map ?p ch))"
      then have i: "i < 64" using I by simp
      then show "map (case_option 0 tlen) (map ?p ch) ! i = map (case_option 0 tlen) ch ! i"
        using I IH [OF i] by (cases "ch ! i") simp_all
    qed simp
    have empty: "\<not> is_full c" if "i < 64" "ch ! i = Some c" "tlen c = 0" for i c
    proof -
      have c: "table_inv c" using I that by blast
      have "0 < capacity c" by (simp add: capacity_def)
      with full_iff [OF c] tlen_zero [OF c] that show ?thesis by auto
    qed
    have full': "bit (fu ! 0) i \<longleftrightarrow> (\<exists>c. map ?p ch ! i = Some c \<and> is_full c)" if i: "i < 64" for i
    proof (cases "ch ! i")
      case (Some c)
      with i I have "bit (fu ! 0) i \<longleftrightarrow> is_full c" by simp
      with i I Some IH [OF i Some] empty [OF i Some] show ?thesis by auto
    qed (use i I in simp)
    have child': "table_inv c \<and> shift c = child_shift sh" if i: "i < 64" and c: "map ?p ch ! i = Some c" for i c
    proof (cases "ch ! i")
      case (Some k)
      with i c I have "c = prune_empty k" "tlen k \<noteq> 0" by (auto split: if_splits)
      with IH [OF i Some] show ?thesis by blast
    qed (use i c I in simp)
    have inv': "table_inv (Table sl (map ?p ch) fu sh n)"
      unfolding table_inv_branch [OF sh] sums using I full' child' by simp
    have gets: "table_get j (Table sl (map ?p ch) fu sh n) = table_get j (Table sl ch fu sh n)" for j
    proof (cases "drop_bit sh j < 64")
      case lt: True
      show ?thesis
      proof (cases "ch ! drop_bit sh j")
        case (Some c)
        have c: "table_inv c" using I lt Some by blast
        show ?thesis using sh I lt Some IH [OF lt Some] tlen_zero [OF c] by (simp add: get_branch)
      qed (use sh I lt in \<open>simp add: get_branch\<close>)
    qed (use sh I in \<open>simp add: get_branch\<close>)
    show ?thesis using inv' gets by (simp add: prune_empty.simps is_full_def)
  qed
qed

lemma only_child:
  assumes inv: "table_inv (Table sl ch fu sh n)" and sh: "0 < sh" and c: "ch ! 0 = Some c"
    and n: "tlen c = n" and k: "k < 64" "k \<noteq> 0" and c': "ch ! k = Some c'"
  shows "table_get j c' = None"
proof -
  note I = inv [unfolded table_inv_branch [OF sh]]
  obtain d ds where ch: "ch = d # ds" using I by (cases ch) auto
  with I c n have "sum_list (map (case_option 0 tlen) ds) = 0" by auto
  then have "\<forall>x \<in> set ds. case_option 0 tlen x = 0" by auto
  moreover have "Some c' \<in> set ds"
    using ch c' k I by (cases k) (auto simp: in_set_conv_nth)
  ultimately have "tlen c' = 0" by force
  with tlen_zero [of c'] I k c' show ?thesis by auto
qed

lemma drop_zero_prefix_ok:
  "table_inv t \<Longrightarrow> table_inv (drop_zero_prefix t) \<and> tlen (drop_zero_prefix t) = tlen t
    \<and> (\<forall>j. table_get j (drop_zero_prefix t) = table_get j t)"
proof (induction t rule: drop_zero_prefix.induct)
  case (1 sl ch fu sh n)
  show ?case
  proof (cases "0 < sh \<and> (\<exists>c. ch ! 0 = Some c \<and> tlen c = n)")
    case False
    then have "drop_zero_prefix (Table sl ch fu sh n) = Table sl ch fu sh n"
      by (auto simp: drop_zero_prefix.simps split: option.splits)
    with "1.prems" show ?thesis by simp
  next
    case True
    then obtain c where sh: "0 < sh" and c: "ch ! 0 = Some c" and n: "tlen c = n" by blast
    note I = "1.prems" [unfolded table_inv_branch [OF sh]]
    have cc: "table_inv c" "shift c = child_shift sh"
      using branch_child [OF "1.prems" sh _ c] by auto
    have eq: "drop_zero_prefix (Table sl ch fu sh n) = drop_zero_prefix c"
      using sh c n I by (simp add: drop_zero_prefix.simps)
    have IH: "table_inv (drop_zero_prefix c) \<and> tlen (drop_zero_prefix c) = tlen c
        \<and> (\<forall>j. table_get j (drop_zero_prefix c) = table_get j c)"
      by (rule "1.IH") (use sh c n I cc in auto)
    have "table_get j c = table_get j (Table sl ch fu sh n)" for j
    proof (cases "drop_bit sh j = 0")
      case True
      then have "take_bit sh j = j" by (metis bits_ident add_0 push_bit_of_0)
      with True sh I c show ?thesis by (simp add: get_branch)
    next
      case False
      then have "table_get j c = None"
        using get_beyond [OF cc(1)] capacity_child [of sh c] I cc(2)
        by (auto simp: drop_bit_eq_div div_greater_zero_iff)
      moreover have "Option.bind (ch ! drop_bit sh j) (table_get (take_bit sh j)) = None"
        if lt: "drop_bit sh j < 64"
        using only_child [OF "1.prems" sh c n lt False] by (cases "ch ! drop_bit sh j") auto
      ultimately show ?thesis using sh I by (simp add: get_branch)
    qed
    with IH eq n show ?thesis by simp
  qed
qed

lemma trim_ok:
  "table_inv t \<Longrightarrow> table_inv (table_trim t) \<and> tlen (table_trim t) = tlen t
    \<and> (\<forall>j. table_get j (table_trim t) = table_get j t)"
  using prune_ok [of t] drop_zero_prefix_ok [of "prune_empty t"] tlen_zero [of t]
  by (auto simp: table_trim_def)

section \<open>The interface the heap relies on\<close>

locale id_directory =
  fixes inv :: "'t \<Rightarrow> bool" and empty :: 't and lookup :: "nat \<Rightarrow> 't \<Rightarrow> 'v option"
    and count :: "'t \<Rightarrow> nat"
    and prep :: "reserve \<Rightarrow> 't \<Rightarrow> ('t \<times> nat) gc_result" and failed :: "reserve \<Rightarrow> 't \<Rightarrow> 't"
    and ready :: "nat \<Rightarrow> 't \<Rightarrow> bool"
    and ins :: "nat \<Rightarrow> 'v \<Rightarrow> 't \<Rightarrow> 't gc_result"
    and rem :: "nat \<Rightarrow> 't \<Rightarrow> ('v \<times> 't) option"
  assumes inv_empty: "inv empty" and lookup_empty: "lookup i empty = None"
    and prep_law: "inv t \<Longrightarrow> prep mem t = Ok (t', i) \<Longrightarrow>
      inv t' \<and> ready i t' \<and> count t' = count t \<and> (\<forall>j. lookup j t' = lookup j t)
      \<and> lookup i t = None"
    and failed_law: "inv t \<Longrightarrow>
      inv (failed mem t) \<and> count (failed mem t) = count t \<and> (\<forall>j. lookup j (failed mem t) = lookup j t)"
    and ins_law: "inv t \<Longrightarrow> ready i t \<Longrightarrow>
      \<exists>t'. ins i v t = Ok t' \<and> inv t' \<and> count t' = Suc (count t)
        \<and> (\<forall>j. lookup j t' = (if j = i then Some v else lookup j t))"
    and rem_law: "inv t \<Longrightarrow> lookup i t = Some v \<Longrightarrow>
      \<exists>t'. rem i t = Some (v, t') \<and> inv t' \<and> Suc (count t') = count t
        \<and> (\<forall>j. lookup j t' = (if j = i then None else lookup j t))"
    and rem_absent: "inv t \<Longrightarrow> lookup i t = None \<Longrightarrow> rem i t = None"
begin

lemma reserve_insert:
  assumes "inv t" "prep mem t = Ok (t', i)"
  shows "\<exists>u. ins i v t' = Ok u \<and> inv u \<and> count u = Suc (count t)
    \<and> (\<forall>j. lookup j u = (if j = i then Some v else lookup j t))"
  using prep_law [OF assms] ins_law [of t' i v] by auto

lemma reserve_insert_remove:
  assumes "inv t" "prep mem t = Ok (t', i)" "ins i v t' = Ok u"
  shows "\<exists>w. rem i u = Some (v, w) \<and> inv w \<and> count w = count t \<and> (\<forall>j. lookup j w = lookup j t)"
proof -
  from reserve_insert [OF assms(1,2), of v] assms(3)
  have u: "inv u" "count u = Suc (count t)" "\<And>j. lookup j u = (if j = i then Some v else lookup j t)"
    by auto
  moreover have "lookup i t = None" using prep_law [OF assms(1,2)] by blast
  ultimately show ?thesis using rem_law [OF u(1), of i v] by auto
qed

end

interpretation directory: id_directory table_inv table_default table_get tlen prepare prepare_failed
  vacant table_insert table_remove
proof unfold_locales
  fix t t' :: "'a table" and mem i
  assume "table_inv t" "prepare mem t = Ok (t', i)"
  from prepare_ok [OF this]
  show "table_inv t' \<and> vacant i t' \<and> tlen t' = tlen t \<and> (\<forall>j. table_get j t' = table_get j t)
      \<and> table_get i t = None"
    by blast
next
  fix t :: "'a table" and mem
  assume "table_inv t"
  from prepare_failed_ok [OF this, of mem]
  show "table_inv (prepare_failed mem t) \<and> tlen (prepare_failed mem t) = tlen t
      \<and> (\<forall>j. table_get j (prepare_failed mem t) = table_get j t)"
    by (simp add: same_entries_def)
next
  fix t :: "'a table" and i v
  assume "table_inv t" "vacant i t"
  from insert_ok [OF this, of v]
  show "\<exists>t'. table_insert i v t = Ok t' \<and> table_inv t' \<and> tlen t' = Suc (tlen t)
      \<and> (\<forall>j. table_get j t' = (if j = i then Some v else table_get j t))"
    by blast
next
  fix t :: "'a table" and i v
  assume "table_inv t" "table_get i t = Some v"
  then show "\<exists>t'. table_remove i t = Some (v, t') \<and> table_inv t' \<and> Suc (tlen t') = tlen t
      \<and> (\<forall>j. table_get j t' = (if j = i then None else table_get j t))"
    using remove_ok [of t i] by (auto simp: removed_def split: option.splits)
next
  fix t :: "'a table" and i
  assume "table_inv t" "table_get i t = None"
  then show "table_remove i t = None"
    using remove_ok [of t i] by (auto simp: removed_def split: option.splits)
qed simp_all

section \<open>Correctness of the directory\<close>

text \<open>(C36) Reserving and then inserting: the identity handed out fits a \<^verbatim>\<open>u32\<close>, is unoccupied and
  is the least unoccupied one; the insert that follows never panics, keeps the directory well
  formed, counts one more entry, and changes the lookup of that identity only.\<close>

theorem table_reserve_insert:
  assumes "table_inv t" "prepare mem t = Ok (t', i)"
  shows "i < 2 ^ 32 \<and> table_get i t = None \<and> (\<forall>j. j < i \<longrightarrow> table_get j t \<noteq> None)
    \<and> (\<exists>u. table_insert i v t' = Ok u \<and> table_inv u \<and> tlen u = Suc (tlen t)
        \<and> (\<forall>j. table_get j u = (if j = i then Some v else table_get j t)))"
  using prepare_ok [OF assms] directory.reserve_insert [OF assms, of v] by blast

definition sample_table :: "nat table" where
  "sample_table =
     Table [Some 7, None, Some 9] [] [5, 0, 0, 0] 0 2"

lemma sample_table_inv: "table_inv sample_table"
  by code_simp

lemma sample_table_prepare: "prepare (\<lambda>_. True) sample_table = Ok (sample_table, 1)"
  by code_simp

theorem table_reserve_insert_witness:
  "table_get 1 sample_table = None \<and> table_get 0 sample_table \<noteq> None
   \<and> (\<exists>u. table_insert 1 (8 :: nat) sample_table = Ok u \<and> table_get 1 u = Some 8 \<and> table_get 2 u = Some 9)"
proof -
  have "table_get 2 sample_table = Some 9" by code_simp
  then show ?thesis
    using table_reserve_insert [OF sample_table_inv sample_table_prepare, of 8] by fastforce
qed

text \<open>Insertion and removal are inverse: removing the identity just inserted returns the
  inserted value and a directory with the lookups and the population of the original one.\<close>

theorem table_insert_remove_roundtrip:
  assumes "table_inv t" "prepare mem t = Ok (t', i)" "table_insert i v t' = Ok u"
  shows "\<exists>w. table_remove i u = Some (v, w) \<and> table_inv w \<and> tlen w = tlen t
    \<and> (\<forall>j. table_get j w = table_get j t)"
  by (rule directory.reserve_insert_remove [OF assms])

theorem table_insert_remove_roundtrip_witness:
  "\<exists>u w. table_insert 1 (8 :: nat) sample_table = Ok u \<and> table_remove 1 u = Some (8, w)
    \<and> tlen w = tlen sample_table"
proof -
  obtain u where "table_insert 1 8 sample_table = Ok u"
    using insert_ok [OF sample_table_inv, of 1 8] by (auto simp: sample_table_def vacant.simps)
  with table_insert_remove_roundtrip [OF sample_table_inv sample_table_prepare this]
  show ?thesis by blast
qed

text \<open>(C37) Identities run out only when all \<open>2 ^ 32\<close> are live: while one is free and the
  allocator grants the requested blocks, reservation succeeds, growing the directory by one
  level if it has to.\<close>

theorem table_prepare_succeeds:
  assumes "\<forall>k. mem k" "table_inv t" "\<exists>j < 2 ^ 32. table_get j t = None"
  shows "\<exists>t' i. prepare mem t = Ok (t', i)"
  using assms prepare_total by blast

theorem table_prepare_succeeds_witness:
  "\<exists>t' i. prepare (\<lambda>_. True) sample_table = Ok (t', i)"
proof (rule table_prepare_succeeds)
  have "table_get 1 sample_table = None" by code_simp
  then show "\<exists>j < 2 ^ 32. table_get j sample_table = None" by (intro exI [of _ 1]) simp
qed (simp_all add: sample_table_inv)

text \<open>Idle maintenance keeps every live identity: trimming prunes empty blocks and lowers the
  tree, and no lookup changes.\<close>

theorem table_trim_preserves:
  assumes "table_inv t"
  shows "table_inv (table_trim t) \<and> tlen (table_trim t) = tlen t
    \<and> (\<forall>j. table_get j (table_trim t) = table_get j t)"
  by (rule trim_ok [OF assms])

theorem table_trim_preserves_witness:
  "table_inv (table_trim sample_table) \<and> tlen (table_trim sample_table) = 2
   \<and> table_get 2 (table_trim sample_table) = Some 9"
proof -
  have "tlen sample_table = 2" "table_get 2 sample_table = Some 9" by code_simp+
  with table_trim_preserves [OF sample_table_inv] show ?thesis by simp
qed

end
