(* ===== verification/Gc_Page.thy ===== *)
theory Gc_Page
  imports Gc_Base
begin

unbundle bit_operations_syntax

text \<open>
  Slab pages and their mark bitmaps: \<^verbatim>\<open>crates/kagari-gc/src/allocation/page.rs\<close> and the
  \<^verbatim>\<open>PageMarks\<close> of \<^verbatim>\<open>marking.rs\<close>.

  A page is one allocation: 1024 bytes of object slots of one stride, followed by a trailer that
  holds the header, the occupancy bitmaps and the mark bitmaps, or a single large object with its
  own trailer. The sizes that the Rust compiler chooses for the trailer's structs are the
  parameter \<open>trailer_types\<close>; the offsets computed from them are modelled. The contents of the
  trailer are the fields of \<open>small_header\<close> and \<open>large_header\<close>. An address is a natural number.

  Each slot is vacant, unavailable (reserved, or detached and not yet released) or occupied;
  \<open>slot_state\<close> reads that off the bitmaps, and the operations are shown to move one slot
  between those states.
\<close>

section \<open>Definitions\<close>

subsection \<open>Mark bitmaps (marking.rs)\<close>

record page_marks =
  epoch :: nat
  discovered :: "u64 list"
  scanned :: "u64 list"
  queued :: bool

definition marks_default :: page_marks where
  "marks_default = \<lparr>epoch = 0, discovered = [0, 0], scanned = [0, 0], queued = False\<rparr>"

definition reset_needed :: "page_marks \<Rightarrow> nat \<Rightarrow> bool" where
  "reset_needed m e \<longleftrightarrow> epoch m \<noteq> e"

definition marks_ensure :: "nat \<Rightarrow> page_marks \<Rightarrow> page_marks" where
  "marks_ensure e m =
     (if reset_needed m e
      then m\<lparr>discovered := map (\<lambda>_. 0) (discovered m), scanned := map (\<lambda>_. 0) (scanned m),
             queued := False, epoch := e\<rparr>
      else m)"

definition black_word :: "page_marks \<Rightarrow> nat \<Rightarrow> nat \<Rightarrow> u64" where
  "black_word m word e = (if reset_needed m e then 0 else scanned m ! word)"

definition black :: "page_marks \<Rightarrow> nat \<Rightarrow> nat \<Rightarrow> bool" where
  "black m slot e \<longleftrightarrow> black_word m (slot div 64) e AND bit_at (slot mod 64) \<noteq> 0"

definition is_discovered :: "page_marks \<Rightarrow> nat \<Rightarrow> nat \<Rightarrow> bool" where
  "is_discovered m slot e \<longleftrightarrow>
     \<not> reset_needed m e \<and> discovered m ! (slot div 64) AND bit_at (slot mod 64) \<noteq> 0"

definition set_word_bit :: "nat \<Rightarrow> u64 list \<Rightarrow> u64 list" where
  "set_word_bit slot ws = ws[slot div 64 := ws ! (slot div 64) OR bit_at (slot mod 64)]"

definition clear_word_bit :: "nat \<Rightarrow> u64 list \<Rightarrow> u64 list" where
  "clear_word_bit slot ws = ws[slot div 64 := ws ! (slot div 64) AND NOT (bit_at (slot mod 64))]"

definition set_black :: "nat \<Rightarrow> nat \<Rightarrow> page_marks \<Rightarrow> page_marks" where
  "set_black slot e m =
     (let m = marks_ensure e m
      in m\<lparr>discovered := set_word_bit slot (discovered m), scanned := set_word_bit slot (scanned m)\<rparr>)"

definition clear_slot :: "nat \<Rightarrow> page_marks \<Rightarrow> page_marks" where
  "clear_slot slot m =
     m\<lparr>discovered := clear_word_bit slot (discovered m), scanned := clear_word_bit slot (scanned m)\<rparr>"

definition gray :: "page_marks \<Rightarrow> nat \<Rightarrow> 128 word" where
  "gray m e =
     (if reset_needed m e then 0
      else ucast (discovered m ! 0 AND NOT (scanned m ! 0))
        OR push_bit 64 (ucast (discovered m ! 1 AND NOT (scanned m ! 1))))"

subsection \<open>Page geometry (page.rs)\<close>

definition SLAB_BYTES :: nat where "SLAB_BYTES = 1024"

definition STRIDES :: "nat list" where
  "STRIDES = [8, 16, 24, 32, 40, 48, 56, 64, 80, 96, 112, 128, 160, 192, 224, 256, 320, 384,
     448, 512, 640, 768, 896, 1024]"

definition GROUPS :: nat where "GROUPS = 96"

text \<open>\<^verbatim>\<open>std::alloc::Layout\<close> and its \<open>extend\<close> and \<open>array\<close>.\<close>

record layout =
  lsize :: nat
  lalign :: nat

definition isize_max :: nat where "isize_max = 2 ^ 63 - 1"

definition round_up :: "nat \<Rightarrow> nat \<Rightarrow> nat" where
  "round_up n a = (n + a - 1) div a * a"

definition layout_extend :: "layout \<Rightarrow> layout \<Rightarrow> (layout \<times> nat) option" where
  "layout_extend l r =
     (let offset = round_up (lsize l) (lalign r);
          size = offset + lsize r;
          align = max (lalign l) (lalign r)
      in if size \<le> isize_max - (align - 1) then Some (\<lparr>lsize = size, lalign = align\<rparr>, offset)
         else None)"

definition u64_array :: "nat \<Rightarrow> layout" where
  "u64_array n = \<lparr>lsize = 8 * n, lalign = 8\<rparr>"

record trailer_types =
  small_type :: layout
  marks_type :: layout
  large_type :: layout

record geometry =
  stride :: nat
  gslots :: nat
  words :: nat
  bits_offset :: nat
  marks_offset :: nat
  trailer :: layout

definition div_ceil :: "nat \<Rightarrow> nat \<Rightarrow> nat" where
  "div_ceil a b = (a + b - 1) div b"

definition geometry_new :: "trailer_types \<Rightarrow> nat \<Rightarrow> geometry gc_result" where
  "geometry_new tt st =
     (let slots = SLAB_BYTES div st; words = div_ceil slots 64
      in and_then (expect ''invalid constant bitmap trailer''
                     (layout_extend (small_type tt) (u64_array (words * 2))))
         (\<lambda>(tr, bits_off).
            and_then (expect ''invalid constant mark trailer'' (layout_extend tr (marks_type tt)))
            (\<lambda>(tr', marks_off).
               Ok \<lparr>stride = st, gslots = slots, words = words,
                   bits_offset = SLAB_BYTES + bits_off, marks_offset = SLAB_BYTES + marks_off,
                   trailer = tr'\<rparr>)))"

definition find_class :: "layout \<Rightarrow> nat option" where
  "find_class l =
     (case filter (\<lambda>k. STRIDES ! k \<ge> lsize l \<and> STRIDES ! k mod lalign l = 0) [0..<length STRIDES] of
        [] \<Rightarrow> None | k # _ \<Rightarrow> Some k)"

definition page_group :: "layout \<Rightarrow> bool \<Rightarrow> nat option" where
  "page_group l edge_free =
     (if 1 \<le> lalign l \<and> lalign l \<le> 64 then
        (let tier = (if lalign l \<le> 16 then 0 else 1)
         in map_option (\<lambda>cls. tier * 48 + cls * 2 + (if edge_free then 0 else 1)) (find_class l))
      else None)"

definition group_stride :: "nat \<Rightarrow> nat" where
  "group_stride g = STRIDES ! (g mod 48 div 2)"

definition slab_align :: "nat \<Rightarrow> nat" where
  "slab_align g = (if g div 48 = 0 then 16 else 64)"

definition backing_layout :: "trailer_types \<Rightarrow> layout \<Rightarrow> nat option \<Rightarrow> layout gc_result" where
  "backing_layout tt l grp =
     (case grp of
        Some g \<Rightarrow>
          and_then (geometry_new tt (group_stride g))
          (\<lambda>geo. and_then (ok_or (Limit ''page trailer layout'')
                    (layout_extend \<lparr>lsize = SLAB_BYTES, lalign = slab_align g\<rparr> (trailer geo)))
             (\<lambda>(whole, offset). assert_then (offset = SLAB_BYTES) ''slab trailer offset'' (Ok whole)))
      | None \<Rightarrow> and_then (ok_or (Limit ''page trailer layout'') (layout_extend l (large_type tt)))
                 (\<lambda>(whole, offset). Ok whole))"

subsection \<open>Page state\<close>

record links =
  previous :: "nat option"
  successor :: "nat option"

definition links_default :: links where
  "links_default = \<lparr>previous = None, successor = None\<rparr>"

record backing =
  base :: nat
  block :: layout

text \<open>\<^verbatim>\<open>Backing::new\<close>: \<open>alloc\<close> is the system allocator's answer.\<close>

definition backing_new :: "(layout \<Rightarrow> nat option) \<Rightarrow> layout \<Rightarrow> backing gc_result" where
  "backing_new alloc l =
     and_then (ok_or Allocation (alloc l)) (\<lambda>pointer. Ok \<lparr>base = pointer, block = l\<rparr>)"

record small_header =
  geometry :: geometry
  sgroup :: nat
  sfree :: nat
  sactive :: links
  savailable :: links
  bits :: "u64 list"
  smarks :: page_marks

record large_header =
  lactive :: links
  loccupied :: bool
  lunavailable :: bool
  lmarks :: page_marks

datatype page = Small backing small_header | Large backing large_header

definition new_small :: "trailer_types \<Rightarrow> (layout \<Rightarrow> nat option) \<Rightarrow> nat \<Rightarrow> page gc_result" where
  "new_small tt alloc g =
     and_then (geometry_new tt (group_stride g))
       (\<lambda>geo. and_then (backing_layout tt \<lparr>lsize = 0, lalign = 1\<rparr> (Some g))
          (\<lambda>l. and_then (backing_new alloc l)
             (\<lambda>b. Ok (Small b \<lparr>geometry = geo, sgroup = g, sfree = gslots geo,
                               sactive = links_default, savailable = links_default,
                               bits = replicate (words geo * 2) 0, smarks = marks_default\<rparr>))))"

definition new_large :: "trailer_types \<Rightarrow> (layout \<Rightarrow> nat option) \<Rightarrow> layout \<Rightarrow> page gc_result" where
  "new_large tt alloc l =
     and_then (ok_or (Limit ''page trailer layout'') (layout_extend l (large_type tt)))
       (\<lambda>(whole, offset). and_then (backing_new alloc whole)
          (\<lambda>b. Ok (Large b \<lparr>lactive = links_default, loccupied = False, lunavailable = False,
                            lmarks = marks_default\<rparr>)))"

fun page_backing :: "page \<Rightarrow> backing" where
  "page_backing (Small b h) = b"
| "page_backing (Large b h) = b"

fun group_id :: "page \<Rightarrow> nat option" where
  "group_id (Small b h) = Some (sgroup h)"
| "group_id (Large b h) = None"

fun page_slots :: "page \<Rightarrow> nat" where
  "page_slots (Small b h) = gslots (geometry h)"
| "page_slots (Large b h) = 1"

fun page_free :: "page \<Rightarrow> nat" where
  "page_free (Small b h) = sfree h"
| "page_free (Large b h) = (if \<not> loccupied h \<and> \<not> lunavailable h then 1 else 0)"

fun page_marks_of :: "page \<Rightarrow> page_marks" where
  "page_marks_of (Small b h) = smarks h"
| "page_marks_of (Large b h) = lmarks h"

text \<open>The marks live in cells: a shared reference to a page may replace them.\<close>

fun with_marks :: "(page_marks \<Rightarrow> page_marks) \<Rightarrow> page \<Rightarrow> page" where
  "with_marks f (Small b h) = Small b (h\<lparr>smarks := f (smarks h)\<rparr>)"
| "with_marks f (Large b h) = Large b (h\<lparr>lmarks := f (lmarks h)\<rparr>)"

fun page_occupied :: "page \<Rightarrow> nat \<Rightarrow> bool" where
  "page_occupied (Small b h) slot \<longleftrightarrow>
     slot < gslots (geometry h) \<and> bits h ! (slot div 64) AND bit_at (slot mod 64) \<noteq> 0"
| "page_occupied (Large b h) slot \<longleftrightarrow> slot < 1 \<and> loccupied h"

fun occupied_word :: "page \<Rightarrow> nat \<Rightarrow> u64" where
  "occupied_word (Small b h) word = bits h ! word"
| "occupied_word (Large b h) word = (if loccupied h then 1 else 0)"

definition dead_candidates :: "page \<Rightarrow> nat \<Rightarrow> nat \<Rightarrow> nat \<Rightarrow> u64" where
  "dead_candidates p start e word =
     (let lower = (if word = start div 64 then start mod 64 else 0)
      in occupied_word p word AND NOT (black_word (page_marks_of p) word e)
           AND push_bit lower (- 1))"

fun next_dead_in :: "page \<Rightarrow> nat \<Rightarrow> nat \<Rightarrow> nat \<Rightarrow> nat list \<Rightarrow> nat" where
  "next_dead_in p start stop e [] = stop"
| "next_dead_in p start stop e (word # ws) =
     (let candidates = dead_candidates p start e word
      in if candidates \<noteq> 0 then min (word * 64 + trailing_zeros candidates) stop
         else next_dead_in p start stop e ws)"

definition next_dead :: "page \<Rightarrow> nat \<Rightarrow> nat \<Rightarrow> nat \<Rightarrow> nat" where
  "next_dead p start stop e =
     next_dead_in p start stop e [start div 64..<Suc ((stop - 1) div 64)]"

fun page_pointer :: "page \<Rightarrow> nat \<Rightarrow> nat gc_result" where
  "page_pointer (Small b h) slot =
     assert_then (slot < gslots (geometry h)) ''page slot''
       (Ok (base b + slot * stride (geometry h)))"
| "page_pointer (Large b h) slot = assert_then (slot < 1) ''page slot'' (Ok (base b))"

fun slot_of :: "page \<Rightarrow> nat \<Rightarrow> nat option" where
  "slot_of (Small b h) pointer =
     Option.bind (checked_sub pointer (base b))
       (\<lambda>offset. if offset mod stride (geometry h) \<noteq> 0 then None
                 else let slot = offset div stride (geometry h)
                      in if slot < gslots (geometry h) then Some slot else None)"
| "slot_of (Large b h) pointer =
     Option.bind (checked_sub pointer (base b))
       (\<lambda>offset. if offset = 0 then Some 0 else None)"

fun find_map :: "('a \<Rightarrow> 'b option) \<Rightarrow> 'a list \<Rightarrow> 'b option" where
  "find_map f [] = None"
| "find_map f (x # xs) = (case f x of Some y \<Rightarrow> Some y | None \<Rightarrow> find_map f xs)"

definition free_in_word :: "small_header \<Rightarrow> nat \<Rightarrow> nat option" where
  "free_in_word h word =
     (let available = NOT (bits h ! word OR bits h ! (words (geometry h) + word));
          slot = word * 64 + trailing_zeros available
      in if available \<noteq> 0 \<and> slot < gslots (geometry h) then Some slot else None)"

text \<open>Offset of a slot's bit in the second, unavailable half of the bitmap.\<close>

definition unavail_bit :: "small_header \<Rightarrow> nat \<Rightarrow> nat" where
  "unavail_bit h slot = words (geometry h) * 64 + slot"

fun page_reserve :: "page \<Rightarrow> (page \<times> nat) gc_result" where
  "page_reserve (Small b h) =
     and_then (expect ''nonfull page'' (find_map (free_in_word h) [0..<words (geometry h)]))
       (\<lambda>slot. Ok (Small b (h\<lparr>bits := set_word_bit (unavail_bit h slot) (bits h),
                             sfree := sfree h - 1, smarks := clear_slot slot (smarks h)\<rparr>), slot))"
| "page_reserve (Large b h) =
     assert_then (page_free (Large b h) = 1) ''large page is free''
       (Ok (Large b (h\<lparr>lunavailable := True, lmarks := clear_slot 0 (lmarks h)\<rparr>), 0))"

fun page_commit :: "nat \<Rightarrow> page \<Rightarrow> page" where
  "page_commit slot (Small b h) =
     Small b (h\<lparr>bits := set_word_bit slot (clear_word_bit (unavail_bit h slot) (bits h))\<rparr>)"
| "page_commit slot (Large b h) = Large b (h\<lparr>lunavailable := False, loccupied := True\<rparr>)"

fun page_detach :: "nat \<Rightarrow> page \<Rightarrow> page gc_result" where
  "page_detach slot (Small b h) =
     assert_then (page_occupied (Small b h) slot) ''detach occupied''
       (Ok (Small b (h\<lparr>bits := set_word_bit (unavail_bit h slot) (clear_word_bit slot (bits h))\<rparr>)))"
| "page_detach slot (Large b h) =
     assert_then (page_occupied (Large b h) slot) ''detach occupied''
       (Ok (Large b (h\<lparr>loccupied := False, lunavailable := True\<rparr>)))"

fun page_release :: "nat \<Rightarrow> page \<Rightarrow> page" where
  "page_release slot (Small b h) =
     Small b (h\<lparr>bits := clear_word_bit (unavail_bit h slot) (bits h), sfree := sfree h + 1\<rparr>)"
| "page_release slot (Large b h) = Large b (h\<lparr>lunavailable := False\<rparr>)"

fun page_active :: "page \<Rightarrow> links" where
  "page_active (Small b h) = sactive h"
| "page_active (Large b h) = lactive h"

fun with_active :: "(links \<Rightarrow> links) \<Rightarrow> page \<Rightarrow> page" where
  "with_active f (Small b h) = Small b (h\<lparr>sactive := f (sactive h)\<rparr>)"
| "with_active f (Large b h) = Large b (h\<lparr>lactive := f (lactive h)\<rparr>)"

text \<open>\<open>available\<close> and \<open>available_mut\<close> assert a small page.\<close>

fun page_available :: "page \<Rightarrow> links gc_result" where
  "page_available (Small b h) = Ok (savailable h)"
| "page_available (Large b h) = Panic ''small page''"

fun with_available :: "(links \<Rightarrow> links) \<Rightarrow> page \<Rightarrow> page gc_result" where
  "with_available f (Small b h) = Ok (Small b (h\<lparr>savailable := f (savailable h)\<rparr>))"
| "with_available f (Large b h) = Panic ''small page''"

subsection \<open>Well-formed pages and the state of a slot\<close>

datatype slot_status = Vacant | Unavailable | Occupied

fun page_unavailable :: "page \<Rightarrow> nat \<Rightarrow> bool" where
  "page_unavailable (Small b h) slot \<longleftrightarrow>
     slot < gslots (geometry h) \<and>
     bits h ! (unavail_bit h slot div 64) AND bit_at (unavail_bit h slot mod 64) \<noteq> 0"
| "page_unavailable (Large b h) slot \<longleftrightarrow> slot < 1 \<and> lunavailable h"

definition slot_state :: "page \<Rightarrow> nat \<Rightarrow> slot_status" where
  "slot_state p slot =
     (if page_occupied p slot then Occupied
      else if page_unavailable p slot then Unavailable else Vacant)"

definition marks_inv :: "page_marks \<Rightarrow> bool" where
  "marks_inv m \<longleftrightarrow> length (discovered m) = 2 \<and> length (scanned m) = 2"

definition bits_set :: "u64 list \<Rightarrow> nat \<Rightarrow> bool" where
  "bits_set ws i \<longleftrightarrow> i div 64 < length ws \<and> bit (ws ! (i div 64)) (i mod 64)"

fun page_inv :: "page \<Rightarrow> bool" where
  "page_inv (Small b h) \<longleftrightarrow>
     stride (geometry h) \<in> set STRIDES \<and> stride (geometry h) = group_stride (sgroup h) \<and>
     sgroup h < GROUPS \<and>
     gslots (geometry h) = SLAB_BYTES div stride (geometry h) \<and>
     words (geometry h) = div_ceil (gslots (geometry h)) 64 \<and>
     length (bits h) = words (geometry h) * 2 \<and> marks_inv (smarks h) \<and>
     list_all (\<lambda>s. gslots (geometry h) \<le> s \<longrightarrow>
        \<not> bits_set (bits h) s \<and> \<not> bits_set (bits h) (unavail_bit h s)) [0..<words (geometry h) * 64] \<and>
     list_all (\<lambda>s. \<not> (bits_set (bits h) s \<and> bits_set (bits h) (unavail_bit h s)))
       [0..<gslots (geometry h)] \<and>
     sfree h = length (filter (\<lambda>s. slot_state (Small b h) s = Vacant) [0..<gslots (geometry h)])"
| "page_inv (Large b h) \<longleftrightarrow> marks_inv (lmarks h) \<and> \<not> (loccupied h \<and> lunavailable h)"

text \<open>What a change of one slot leaves alone.\<close>

definition same_frame :: "page \<Rightarrow> page \<Rightarrow> bool" where
  "same_frame p q \<longleftrightarrow> page_backing p = page_backing q \<and> group_id p = group_id q \<and>
     page_slots p = page_slots q \<and> page_active p = page_active q \<and> page_available p = page_available q \<and>
     (\<forall>s. page_pointer p s = page_pointer q s)"

text \<open>The slot-by-slot search that \<^const>\<open>next_dead\<close> optimises.\<close>

definition dead :: "page \<Rightarrow> nat \<Rightarrow> nat \<Rightarrow> bool" where
  "dead p e s \<longleftrightarrow> page_occupied p s \<and> \<not> black (page_marks_of p) s e"

definition first_dead :: "page \<Rightarrow> nat \<Rightarrow> nat \<Rightarrow> nat \<Rightarrow> nat" where
  "first_dead p start stop e =
     (case filter (dead p e) [start..<stop] of [] \<Rightarrow> stop | s # _ \<Rightarrow> s)"

text \<open>What is asked of the sizes and alignments of the trailer structs.\<close>

definition small_align :: "layout \<Rightarrow> bool" where
  "small_align l \<longleftrightarrow> lalign l \<in> {1, 2, 4, 8, 16} \<and> lsize l \<le> 2 ^ 20"

definition types_ok :: "trailer_types \<Rightarrow> bool" where
  "types_ok tt \<longleftrightarrow> small_align (small_type tt) \<and> small_align (marks_type tt)"

text \<open>Sizes of the trailer structs, and a three-slot page, for the examples below.\<close>

definition sample_types :: trailer_types where
  "sample_types = \<lparr>small_type = \<lparr>lsize = 56, lalign = 8\<rparr>, marks_type = \<lparr>lsize = 48, lalign = 8\<rparr>,
     large_type = \<lparr>lsize = 72, lalign = 8\<rparr>\<rparr>"

definition sample_page :: page where
  "sample_page = Small \<lparr>base = 4096, block = \<lparr>lsize = 1144, lalign = 16\<rparr>\<rparr>
     \<lparr>geometry = \<lparr>stride = 320, gslots = 3, words = 1, bits_offset = 1080, marks_offset = 1096,
                   trailer = \<lparr>lsize = 120, lalign = 8\<rparr>\<rparr>,
      sgroup = 33, sfree = 1, sactive = links_default, savailable = links_default,
      bits = [5, 0], smarks = \<lparr>epoch = 7, discovered = [1, 0], scanned = [1, 0], queued = False\<rparr>\<rparr>"

section \<open>Bitmaps\<close>

lemma bits_set_set [bitmap_simps]:
  "bits_set (set_word_bit s ws) i \<longleftrightarrow> bits_set ws i \<or> i = s \<and> s div 64 < length ws"
proof (cases "i div 64 = s div 64")
  case True
  then have "i = s \<longleftrightarrow> i mod 64 = s mod 64" by (metis div_mod_decomp)
  with True show ?thesis by (auto simp: bits_set_def set_word_bit_def bit_set_at)
next
  case False
  then show ?thesis by (auto simp: bits_set_def set_word_bit_def)
qed

lemma bits_set_clear [bitmap_simps]: "bits_set (clear_word_bit s ws) i \<longleftrightarrow> bits_set ws i \<and> i \<noteq> s"
proof (cases "i div 64 = s div 64")
  case True
  then have "i = s \<longleftrightarrow> i mod 64 = s mod 64" by (metis div_mod_decomp)
  with True show ?thesis by (auto simp: bits_set_def clear_word_bit_def bit_clear_at)
next
  case False
  then show ?thesis by (auto simp: bits_set_def clear_word_bit_def)
qed

lemma length_word_bit [simp]:
  "length (set_word_bit s ws) = length ws" "length (clear_word_bit s ws) = length ws"
  by (simp_all add: set_word_bit_def clear_word_bit_def)

lemma test_bits_set [bitmap_simps]:
  "s div 64 < length ws \<Longrightarrow> ws ! (s div 64) AND bit_at (s mod 64) \<noteq> 0 \<longleftrightarrow> bits_set ws s"
  by (auto simp: bits_set_def bit_test_at)

subsection \<open>Colours\<close>

text \<open>A slot is black or discovered in an epoch only if the page's marks belong to that epoch.\<close>

lemma black_iff: "marks_inv m \<Longrightarrow> s < 128 \<Longrightarrow> black m s e \<longleftrightarrow> epoch m = e \<and> bits_set (scanned m) s"
  by (auto simp: black_def black_word_def reset_needed_def marks_inv_def bits_set_def bit_test_at
      less_mult_imp_div_less)

lemma discovered_iff:
  "marks_inv m \<Longrightarrow> s < 128 \<Longrightarrow> is_discovered m s e \<longleftrightarrow> epoch m = e \<and> bits_set (discovered m) s"
  by (auto simp: is_discovered_def reset_needed_def marks_inv_def bits_set_def bit_test_at
      less_mult_imp_div_less)

lemma marks_inv_ops [simp]:
  "marks_inv marks_default"
  "marks_inv m \<Longrightarrow> marks_inv (marks_ensure e m)"
  "marks_inv m \<Longrightarrow> marks_inv (set_black s e m)"
  "marks_inv m \<Longrightarrow> marks_inv (clear_slot s m)"
  by (auto simp: marks_inv_def marks_default_def marks_ensure_def set_black_def clear_slot_def Let_def)

lemma bits_set_zero [simp]: "\<not> bits_set (map (\<lambda>_. 0) ws) i"
  by (auto simp: bits_set_def)

lemma ensure_colours:
  assumes "marks_inv m" "s < 128"
  shows "black (marks_ensure e m) s e \<longleftrightarrow> black m s e"
    "is_discovered (marks_ensure e m) s e \<longleftrightarrow> is_discovered m s e"
    "epoch (marks_ensure e m) = e"
proof -
  show "epoch (marks_ensure e m) = e" by (simp add: marks_ensure_def reset_needed_def)
  show "black (marks_ensure e m) s e \<longleftrightarrow> black m s e"
    "is_discovered (marks_ensure e m) s e \<longleftrightarrow> is_discovered m s e"
    using assms by (cases "epoch m = e";
        simp add: black_iff discovered_iff; simp add: marks_ensure_def reset_needed_def)+
qed

lemma set_black_colours:
  assumes "marks_inv m" "s < 128" "t < 128"
  shows "black (set_black s e m) t e \<longleftrightarrow> black m t e \<or> t = s"
    "is_discovered (set_black s e m) t e \<longleftrightarrow> is_discovered m t e \<or> t = s"
proof -
  have "s div 64 < 2" using assms(2) by (simp add: less_mult_imp_div_less)
  with assms show "black (set_black s e m) t e \<longleftrightarrow> black m t e \<or> t = s"
    "is_discovered (set_black s e m) t e \<longleftrightarrow> is_discovered m t e \<or> t = s"
    by (auto simp: black_iff discovered_iff)
      (auto simp: set_black_def Let_def marks_ensure_def reset_needed_def bits_set_set marks_inv_def
        split: if_splits)
qed

lemma clear_slot_colours:
  assumes "marks_inv m" "s < 128" "t < 128"
  shows "black (clear_slot s m) t e \<longleftrightarrow> black m t e \<and> t \<noteq> s"
    "is_discovered (clear_slot s m) t e \<longleftrightarrow> is_discovered m t e \<and> t \<noteq> s"
  using assms by (auto simp: black_iff discovered_iff) (auto simp: clear_slot_def bits_set_clear)

lemma gray_bit:
  assumes "marks_inv m" "s < 128"
  shows "bit (gray m e) s \<longleftrightarrow> is_discovered m s e \<and> \<not> black m s e"
proof (cases "epoch m = e")
  case False
  with assms show ?thesis by (simp add: gray_def reset_needed_def discovered_iff)
next
  case True
  have ld: "discovered m = [discovered m ! 0, discovered m ! 1]" "scanned m = [scanned m ! 0, scanned m ! 1]"
    using assms(1) by (auto simp: marks_inv_def list_eq_iff_nth_eq less_Suc_eq numeral_2_eq_2)
  show ?thesis
  proof (cases "s < 64")
    case lt: True
    then have "\<not> bit (push_bit 64 (ucast (discovered m ! 1 AND NOT (scanned m ! 1))) :: 128 word) s"
      by (simp add: bit_push_bit_iff)
    with lt True assms show ?thesis
      by (auto simp: gray_def reset_needed_def bit_or_iff bit_ucast_iff bit_and_iff bit_not_iff
          black_iff discovered_iff bits_set_def marks_inv_def)
  next
    case ge: False
    have hi: "s div 64 = 1" "s mod 64 = s - 64"
      using ge assms(2) by (simp_all add: div_if mod_if [of s 64])
    have "\<not> bit (ucast (discovered m ! 0 AND NOT (scanned m ! 0)) :: 128 word) s"
      using ge by (auto simp: bit_ucast_iff dest: bit_imp_le_length)
    with ge True assms hi show ?thesis
      by (auto simp: gray_def reset_needed_def bit_or_iff bit_push_bit_iff bit_ucast_iff bit_and_iff
          bit_not_iff black_iff discovered_iff bits_set_def marks_inv_def)
  qed
qed

subsection \<open>Slots of a page\<close>

lemma stride_bounds:
  "st \<in> set STRIDES \<Longrightarrow> 8 \<le> st \<and> st \<le> SLAB_BYTES \<and> 1 \<le> SLAB_BYTES div st \<and> SLAB_BYTES div st \<le> 128"
  by (auto simp: STRIDES_def SLAB_BYTES_def)

lemma div_ceil_covers:
  assumes "0 < b" shows "a \<le> div_ceil a b * b" "div_ceil a b * b < a + b"
proof -
  have "(a + b - 1) div b * b + (a + b - 1) mod b = a + b - 1" by (rule div_mult_mod_eq)
  with assms mod_less_divisor [of b "a + b - 1"]
  show "a \<le> div_ceil a b * b" "div_ceil a b * b < a + b" unfolding div_ceil_def by linarith+
qed

lemma small_bounds:
  assumes "page_inv (Small b h)"
  shows "0 < gslots (geometry h)" "gslots (geometry h) \<le> 128"
    "gslots (geometry h) \<le> words (geometry h) * 64" "words (geometry h) \<le> 2"
    "words (geometry h) * 64 < gslots (geometry h) + 64"
    "length (bits h) = words (geometry h) * 2"
proof -
  from assms stride_bounds [of "stride (geometry h)"]
  show n: "0 < gslots (geometry h)" "gslots (geometry h) \<le> 128" by auto
  from assms have w: "words (geometry h) = div_ceil (gslots (geometry h)) 64" by simp
  with div_ceil_covers [of 64 "gslots (geometry h)"]
  show "gslots (geometry h) \<le> words (geometry h) * 64" "words (geometry h) * 64 < gslots (geometry h) + 64"
    by auto
  with n show "words (geometry h) \<le> 2" by linarith
  from assms show "length (bits h) = words (geometry h) * 2" by simp
qed

lemma slot_div_less:
  assumes "page_inv (Small b h)" "s < words (geometry h) * 64"
  shows "s div 64 < length (bits h)" "unavail_bit h s div 64 < length (bits h)"
    "s div 64 < words (geometry h)"
proof -
  show *: "s div 64 < words (geometry h)" using assms(2) by (simp add: less_mult_imp_div_less)
  with small_bounds(6) [OF assms(1)] show "s div 64 < length (bits h)"
    "unavail_bit h s div 64 < length (bits h)" by (auto simp: unavail_bit_def)
qed

lemma small_slot_lt:
  "page_inv (Small b h) \<Longrightarrow> s < gslots (geometry h) \<Longrightarrow> s < words (geometry h) * 64"
  using small_bounds(3) [of b h] by linarith

lemma small_states:
  assumes "page_inv (Small b h)" "s < gslots (geometry h)"
  shows "page_occupied (Small b h) s \<longleftrightarrow> bits_set (bits h) s"
    "page_unavailable (Small b h) s \<longleftrightarrow> bits_set (bits h) (unavail_bit h s)"
    "slot_state (Small b h) s =
       (if bits_set (bits h) s then Occupied
        else if bits_set (bits h) (unavail_bit h s) then Unavailable else Vacant)"
proof -
  note lt = slot_div_less [OF assms(1) small_slot_lt [OF assms]]
  show a: "page_occupied (Small b h) s \<longleftrightarrow> bits_set (bits h) s"
    using assms(2) test_bits_set [OF lt(1)] by simp
  show c: "page_unavailable (Small b h) s \<longleftrightarrow> bits_set (bits h) (unavail_bit h s)"
    using assms(2) test_bits_set [OF lt(2)] by simp
  show "slot_state (Small b h) s =
       (if bits_set (bits h) s then Occupied
        else if bits_set (bits h) (unavail_bit h s) then Unavailable else Vacant)"
    by (simp only: slot_state_def a c)
qed

lemma slot_state_beyond: "page_slots p \<le> s \<Longrightarrow> slot_state p s = Vacant"
  by (cases p) (auto simp: slot_state_def)

text \<open>How the number of positions with a given status changes when one position changes.\<close>

lemma count_update:
  assumes "s < n"
  shows "length (filter (\<lambda>i. (f(s := v)) i = x) [0..<n]) + (if f s = x then 1 else 0) =
    length (filter (\<lambda>i. f i = x) [0..<n]) + (if v = x then 1 else 0)"
proof -
  let ?A = "{i. i < n \<and> f i = x \<and> i \<noteq> s}"
  have fin: "finite ?A" "s \<notin> ?A" by auto
  have card: "length (filter (\<lambda>i. g i = x) [0..<n]) = card {i. i < n \<and> g i = x}" for g
    by (simp add: length_filter_conv_card) (metis (lifting) add_0 nth_upt)
  have split: "{i. i < n \<and> g i = x} = (if g s = x then insert s ?A else ?A)"
    if "\<forall>i. i \<noteq> s \<longrightarrow> g i = f i" for g using that assms by auto
  have "card {i. i < n \<and> g i = x} = card ?A + (if g s = x then 1 else 0)"
    if "\<forall>i. i \<noteq> s \<longrightarrow> g i = f i" for g by (simp only: split [OF that]) (simp add: fin)
  from this [of f] this [of "f(s := v)"] show ?thesis by (simp add: card)
qed

text \<open>Changing the two bits of one slot changes the state of that slot only.\<close>

lemma small_update:
  assumes inv: "page_inv (Small b h)" and s: "s < gslots (geometry h)"
    and B: "\<And>i. bits_set B i \<longleftrightarrow>
      (if i = s then oc else if i = unavail_bit h s then un else bits_set (bits h) i)"
    and len: "length B = length (bits h)" and one: "\<not> (oc \<and> un)" and m: "marks_inv m"
    and st: "st = (if oc then Occupied else if un then Unavailable else Vacant)"
    and f: "f + (if slot_state (Small b h) s = Vacant then 1 else 0)
      = sfree h + (if st = Vacant then 1 else 0)"
  defines "p \<equiv> Small b (h\<lparr>bits := B, sfree := f, smarks := m\<rparr>)"
  shows "slot_state p = (slot_state (Small b h))(s := st)" "page_inv p"
proof -
  let ?n = "gslots (geometry h)" and ?w = "words (geometry h)"
  note bd = small_bounds [OF inv]
  have far: "t \<noteq> unavail_bit h s" if "t < ?w * 64" for t using that by (simp add: unavail_bit_def)
  have far': "unavail_bit h t \<noteq> s" for t using s bd by (auto simp: unavail_bit_def)
  have eqs: "unavail_bit h t = unavail_bit h s \<longleftrightarrow> t = s" for t by (simp add: unavail_bit_def)
  have un': "unavail_bit (h\<lparr>bits := B, sfree := f, smarks := m\<rparr>) t = unavail_bit h t" for t
    by (simp add: unavail_bit_def)
  have occ: "page_occupied p t \<longleftrightarrow> bits_set B t" and una: "page_unavailable p t \<longleftrightarrow> bits_set B (unavail_bit h t)"
    if "t < ?n" for t
    using that slot_div_less [OF inv small_slot_lt [OF inv that]] len
    by (auto simp: p_def un' test_bits_set)
  show state: "slot_state p = (slot_state (Small b h))(s := st)"
  proof
    fix t show "slot_state p t = ((slot_state (Small b h))(s := st)) t"
    proof (cases "t < ?n")
      case True
      with small_states(3) [OF inv True] show ?thesis
        using bd(3) by (auto simp: slot_state_def [of p] occ una B far far' eqs st)
    next
      case False
      then show ?thesis using s slot_state_beyond [of p t] slot_state_beyond [of "Small b h" t]
        by (auto simp: p_def)
    qed
  qed
  have "length (filter (\<lambda>i. slot_state p i = Vacant) [0..<?n]) = f"
    using count_update [OF s, of "slot_state (Small b h)" st Vacant] f inv by (simp add: state del: fun_upd_apply)
  moreover have "\<not> bits_set B t \<and> \<not> bits_set B (unavail_bit h t)" if "?n \<le> t" "t < ?w * 64" for t
    using that inv s by (auto simp: B far far' eqs list_all_iff)
  moreover have "\<not> (bits_set B t \<and> bits_set B (unavail_bit h t))" if "t < ?n" for t
    using that inv one bd(3) by (auto simp: B far far' eqs list_all_iff)
  ultimately show "page_inv p" using inv len m by (auto simp: p_def un' list_all_iff)
qed

subsection \<open>Reserving, committing, detaching and releasing a slot\<close>

lemma bits_set_word: "i < 64 \<Longrightarrow> w < length ws \<Longrightarrow> bits_set ws (w * 64 + i) \<longleftrightarrow> bit (ws ! w) i"
  by (simp add: bits_set_def)

lemma free_in_word_bit:
  assumes inv: "page_inv (Small b h)" and w: "w < words (geometry h)" and i: "i < 64"
  shows "bit (NOT (bits h ! w OR bits h ! (words (geometry h) + w))) i \<longleftrightarrow>
    \<not> bits_set (bits h) (w * 64 + i) \<and> \<not> bits_set (bits h) (unavail_bit h (w * 64 + i))"
proof -
  have "unavail_bit h (w * 64 + i) = (words (geometry h) + w) * 64 + i"
    by (simp add: unavail_bit_def algebra_simps)
  with w i small_bounds(6) [OF inv] show ?thesis
    using bits_set_word [of i w "bits h"] bits_set_word [of i "words (geometry h) + w" "bits h"]
    by (simp add: bit_not_iff bit_and_iff)
qed

lemma vacant_bits:
  assumes "page_inv (Small b h)" "s < gslots (geometry h)"
  shows "slot_state (Small b h) s = Vacant \<longleftrightarrow>
    \<not> bits_set (bits h) s \<and> \<not> bits_set (bits h) (unavail_bit h s)"
  by (simp add: small_states(3) [OF assms])

lemma free_in_word_spec:
  assumes inv: "page_inv (Small b h)" and w: "w < words (geometry h)"
  shows "free_in_word h w = Some s \<Longrightarrow>
      w * 64 \<le> s \<and> s < gslots (geometry h) \<and> slot_state (Small b h) s = Vacant \<and>
      (\<forall>t. w * 64 \<le> t \<and> t < s \<longrightarrow> slot_state (Small b h) t \<noteq> Vacant)"
    and "free_in_word h w = None \<Longrightarrow>
      \<forall>t. w * 64 \<le> t \<and> t < w * 64 + 64 \<and> t < gslots (geometry h) \<longrightarrow> slot_state (Small b h) t \<noteq> Vacant"
proof -
  let ?a = "NOT (bits h ! w OR bits h ! (words (geometry h) + w))"
  let ?z = "trailing_zeros ?a"
  have vac: "slot_state (Small b h) (w * 64 + i) = Vacant \<longleftrightarrow> bit ?a i"
    if "i < 64" "w * 64 + i < gslots (geometry h)" for i
    using free_in_word_bit [OF inv w that(1)] vacant_bits [OF inv that(2)] by simp
  have below: "slot_state (Small b h) t \<noteq> Vacant"
    if "w * 64 \<le> t" "t < w * 64 + ?z" "t < gslots (geometry h)" for t
    using that vac [of "t - w * 64"] trailing_zeros_below [of "t - w * 64" ?a] trailing_zeros_le [of ?a]
    by auto
  { assume "free_in_word h w = Some s"
    then have s: "?a \<noteq> 0" "s = w * 64 + ?z" "s < gslots (geometry h)"
      by (auto simp: free_in_word_def Let_def split: if_splits)
    from trailing_zeros_nonzero [OF s(1)] have "?z < 64" "bit ?a ?z" by simp_all
    with s vac [of ?z] below show
      "w * 64 \<le> s \<and> s < gslots (geometry h) \<and> slot_state (Small b h) s = Vacant \<and>
       (\<forall>t. w * 64 \<le> t \<and> t < s \<longrightarrow> slot_state (Small b h) t \<noteq> Vacant)" by auto }
  { assume "free_in_word h w = None"
    then have n: "?a = 0 \<or> gslots (geometry h) \<le> w * 64 + ?z"
      by (auto simp: free_in_word_def Let_def split: if_splits)
    show "\<forall>t. w * 64 \<le> t \<and> t < w * 64 + 64 \<and> t < gslots (geometry h) \<longrightarrow>
        slot_state (Small b h) t \<noteq> Vacant"
    proof (cases "?a = 0")
      case True
      then have "\<not> bit ?a i" for i by simp
      with vac show ?thesis by (metis add.commute le_iff_add nat_add_left_cancel_less)
    next
      case False
      with n below show ?thesis by auto
    qed }
qed

lemma find_map_Some: "find_map f xs = Some y \<longleftrightarrow>
    (\<exists>i < length xs. f (xs ! i) = Some y \<and> (\<forall>j < i. f (xs ! j) = None))"
proof (induction xs)
  case (Cons x xs)
  then show ?case by (cases "f x") (auto simp: All_less_Suc2 Ex_less_Suc2)
qed simp

lemma find_map_None: "find_map f xs = None \<longleftrightarrow> (\<forall>x \<in> set xs. f x = None)"
  by (induction xs) (auto split: option.splits)

text \<open>The word-at-a-time search finds the least vacant slot, and finds one iff there is one.\<close>

lemma find_free_Some:
  assumes inv: "page_inv (Small b h)"
    and f: "find_map (free_in_word h) [0..<words (geometry h)] = Some s"
  shows "s < gslots (geometry h)" "slot_state (Small b h) s = Vacant"
    "t < s \<Longrightarrow> slot_state (Small b h) t \<noteq> Vacant"
proof -
  from f obtain w where w: "w < words (geometry h)" "free_in_word h w = Some s"
    "\<forall>j < w. free_in_word h j = None" by (auto simp: find_map_Some)
  note s = free_in_word_spec(1) [OF inv w(1,2)]
  show "s < gslots (geometry h)" "slot_state (Small b h) s = Vacant" using s by auto
  assume t: "t < s"
  show "slot_state (Small b h) t \<noteq> Vacant"
  proof (cases "w * 64 \<le> t")
    case True with s t show ?thesis by auto
  next
    case False
    then have "t div 64 < w" by (simp add: less_mult_imp_div_less)
    with w have "free_in_word h (t div 64) = None" "t div 64 < words (geometry h)" by auto
    from free_in_word_spec(2) [OF inv this(2) this(1)] s t show ?thesis
      by (auto dest!: spec [of _ t])
  qed
qed

lemma find_free_None:
  assumes inv: "page_inv (Small b h)"
  shows "find_map (free_in_word h) [0..<words (geometry h)] = None \<longleftrightarrow> sfree h = 0"
proof -
  have f: "sfree h = 0 \<longleftrightarrow> (\<forall>t < gslots (geometry h). slot_state (Small b h) t \<noteq> Vacant)"
    using inv by (auto simp: filter_empty_conv)
  show ?thesis
  proof (cases "find_map (free_in_word h) [0..<words (geometry h)]")
    case (Some s)
    with find_free_Some(1,2) [OF inv Some] f show ?thesis by auto
  next
    case None
    have "slot_state (Small b h) t \<noteq> Vacant" if "t < gslots (geometry h)" for t
    proof -
      have w: "t div 64 < words (geometry h)"
        using slot_div_less(3) [OF inv small_slot_lt [OF inv that]] .
      with None have "free_in_word h (t div 64) = None" by (auto simp: find_map_None)
      from free_in_word_spec(2) [OF inv w this] that show ?thesis by (auto dest!: spec [of _ t])
    qed
    with f None show ?thesis by auto
  qed
qed

lemma small_marks: "page_inv (Small b h) \<Longrightarrow> marks_inv (smarks h)" by simp

lemma upd_self: "f s = v \<Longrightarrow> f(s := v) = f" by auto

lemma reserve_spec:
  assumes inv: "page_inv p" and free: "0 < page_free p"
  shows "\<exists>q s. page_reserve p = Ok (q, s) \<and> s < page_slots p \<and> slot_state p s = Vacant \<and>
    (\<forall>t < s. slot_state p t \<noteq> Vacant) \<and> slot_state q = (slot_state p)(s := Unavailable) \<and>
    page_inv q \<and> same_frame p q \<and> page_marks_of q = clear_slot s (page_marks_of p)"
proof (cases p)
  case (Large b h)
  with assms have l: "\<not> loccupied h" "\<not> lunavailable h" by (auto split: if_splits)
  with Large have "page_reserve p = Ok (Large b (h\<lparr>lunavailable := True, lmarks := clear_slot 0 (lmarks h)\<rparr>), 0)"
    by simp
  with Large l inv show ?thesis by (intro exI conjI) (auto simp: slot_state_def same_frame_def)
next
  case (Small b h)
  note inv' = inv [unfolded Small]
  from free Small find_free_None [OF inv'] obtain s
    where s: "find_map (free_in_word h) [0..<words (geometry h)] = Some s" by auto
  note fs = find_free_Some [OF inv' s]
  let ?B = "set_word_bit (unavail_bit h s) (bits h)"
  let ?q = "Small b (h\<lparr>bits := ?B, sfree := sfree h - 1, smarks := clear_slot s (smarks h)\<rparr>)"
  have r: "page_reserve p = Ok (?q, s)" using Small s by simp
  note lt = slot_div_less [OF inv' small_slot_lt [OF inv' fs(1)]]
  have nb: "\<not> bits_set (bits h) s" "unavail_bit h s \<noteq> s"
    using vacant_bits [OF inv' fs(1)] fs(2) small_bounds [OF inv'] by (auto simp: unavail_bit_def)
  have "slot_state ?q = (slot_state (Small b h))(s := Unavailable)" "page_inv ?q"
    by (rule small_update [OF inv' fs(1), where oc = False and un = True and st = Unavailable];
        use nb lt fs(2) free Small small_marks [OF inv'] in \<open>auto simp: bits_set_set\<close>)+
  with r fs Small show ?thesis
    by (intro exI [of _ ?q] exI [of _ s]) (auto simp: same_frame_def simp del: page_inv.simps)
qed

lemma reserve_full: "page_inv p \<Longrightarrow> page_free p = 0 \<Longrightarrow> \<exists>m. page_reserve p = Panic m"
  by (cases p) (auto simp: find_free_None [THEN iffD2] assert_then_def simp del: page_inv.simps
      split: if_splits)

lemma commit_spec:
  assumes inv: "page_inv p" and s: "slot_state p s = Unavailable"
  shows "slot_state (page_commit s p) = (slot_state p)(s := Occupied)" "page_inv (page_commit s p)"
    "same_frame p (page_commit s p)" "page_marks_of (page_commit s p) = page_marks_of p"
    "page_free (page_commit s p) = page_free p"
proof -
  show "same_frame p (page_commit s p)" "page_marks_of (page_commit s p) = page_marks_of p"
    by (cases p; simp add: same_frame_def)+
  have lt: "s < page_slots p" using s slot_state_beyond [of p s] by (cases "s < page_slots p") auto
  show "page_free (page_commit s p) = page_free p"
    using s lt by (cases p) (auto simp: slot_state_def split: if_splits)
  have "slot_state (page_commit s p) = (slot_state p)(s := Occupied) \<and> page_inv (page_commit s p)"
  proof (cases p)
    case (Large b h)
    with assms show ?thesis by (auto simp: slot_state_def split: if_splits)
  next
    case (Small b h)
    note inv' = inv [unfolded Small] and lt' = lt [unfolded Small page_slots.simps]
    note dl = slot_div_less [OF inv' small_slot_lt [OF inv' lt']]
    let ?B = "set_word_bit s (clear_word_bit (unavail_bit h s) (bits h))"
    have q: "page_commit s p = Small b (h\<lparr>bits := ?B, sfree := sfree h, smarks := smarks h\<rparr>)"
      using Small by simp
    show ?thesis unfolding q unfolding Small
      by (rule conjI; rule small_update [OF inv' lt', where oc = True and un = False and st = Occupied];
          use dl s Small small_marks [OF inv'] in \<open>auto simp: bits_set_set bits_set_clear\<close>)
  qed
  then show "slot_state (page_commit s p) = (slot_state p)(s := Occupied)" "page_inv (page_commit s p)"
    by auto
qed

lemma detach_spec:
  assumes inv: "page_inv p" and s: "slot_state p s = Occupied"
  shows "\<exists>q. page_detach s p = Ok q \<and> slot_state q = (slot_state p)(s := Unavailable) \<and>
    page_inv q \<and> same_frame p q \<and> page_marks_of q = page_marks_of p \<and> page_free q = page_free p"
proof (cases p)
  case (Large b h)
  with assms show ?thesis by (auto simp: slot_state_def same_frame_def split: if_splits)
next
  case (Small b h)
  have occ: "page_occupied (Small b h) s" using s Small by (auto simp: slot_state_def split: if_splits)
  then have lt': "s < gslots (geometry h)" by simp
  note inv' = inv [unfolded Small]
  note dl = slot_div_less [OF inv' small_slot_lt [OF inv' lt']]
  let ?B = "set_word_bit (unavail_bit h s) (clear_word_bit s (bits h))"
  let ?q = "Small b (h\<lparr>bits := ?B, sfree := sfree h, smarks := smarks h\<rparr>)"
  have ne: "unavail_bit h s \<noteq> s" using lt' small_bounds [OF inv'] by (auto simp: unavail_bit_def)
  have q: "page_detach s p = Ok ?q" using Small occ by simp
  have "slot_state ?q = (slot_state (Small b h))(s := Unavailable)" "page_inv ?q"
    by (rule small_update [OF inv' lt', where oc = False and un = True and st = Unavailable];
        use dl s Small small_marks [OF inv'] ne in \<open>auto simp: bits_set_set bits_set_clear\<close>)+
  with q Small show ?thesis by (intro exI [of _ ?q]) (auto simp: same_frame_def simp del: page_inv.simps)
qed

lemma detach_panics: "slot_state p s \<noteq> Occupied \<Longrightarrow> page_detach s p = Panic ''detach occupied''"
  by (cases p) (auto simp: slot_state_def assert_then_def split: if_splits)

lemma release_spec:
  assumes inv: "page_inv p" and s: "slot_state p s = Unavailable"
  shows "slot_state (page_release s p) = (slot_state p)(s := Vacant)" "page_inv (page_release s p)"
    "same_frame p (page_release s p)" "page_marks_of (page_release s p) = page_marks_of p"
    "page_free (page_release s p) = page_free p + 1"
proof -
  show "same_frame p (page_release s p)" "page_marks_of (page_release s p) = page_marks_of p"
    by (cases p; simp add: same_frame_def)+
  have lt: "s < page_slots p" using s slot_state_beyond [of p s] by (cases "s < page_slots p") auto
  show "page_free (page_release s p) = page_free p + 1"
    using s lt by (cases p) (auto simp: slot_state_def split: if_splits)
  have "slot_state (page_release s p) = (slot_state p)(s := Vacant) \<and> page_inv (page_release s p)"
  proof (cases p)
    case (Large b h)
    with assms show ?thesis by (auto simp: slot_state_def split: if_splits)
  next
    case (Small b h)
    note inv' = inv [unfolded Small] and lt' = lt [unfolded Small page_slots.simps]
    have nb: "\<not> bits_set (bits h) s" "unavail_bit h s \<noteq> s"
      using small_states(3) [OF inv' lt'] s Small small_bounds [OF inv'] lt'
      by (auto simp: unavail_bit_def split: if_splits)
    let ?B = "clear_word_bit (unavail_bit h s) (bits h)"
    have q: "page_release s p = Small b (h\<lparr>bits := ?B, sfree := sfree h + 1, smarks := smarks h\<rparr>)"
      using Small by simp
    show ?thesis unfolding q unfolding Small
      by (rule conjI; rule small_update [OF inv' lt', where oc = False and un = False and st = Vacant];
          use nb s Small small_marks [OF inv'] in \<open>auto simp: bits_set_clear\<close>)
  qed
  then show "slot_state (page_release s p) = (slot_state p)(s := Vacant)" "page_inv (page_release s p)"
    by auto
qed

subsection \<open>The bitmap search for unmarked objects\<close>

lemma page_slots_le: "page_inv p \<Longrightarrow> page_slots p \<le> 128"
  using small_bounds(2) by (cases p) auto

lemma page_marks_inv: "page_inv p \<Longrightarrow> marks_inv (page_marks_of p)"
  by (cases p) auto

lemma occupied_word_bit:
  assumes inv: "page_inv p" and w: "w * 64 < page_slots p" and i: "i < 64"
  shows "bit (occupied_word p w) i \<longleftrightarrow> page_occupied p (w * 64 + i)"
proof (cases p)
  case (Large b h)
  with w have "w = 0" by auto
  with Large show ?thesis by (auto simp: bit_1_iff)
next
  case (Small b h)
  note inv' = inv [unfolded Small]
  have w': "w < words (geometry h)" "w < length (bits h)" using w Small small_bounds [OF inv'] by auto
  then have eq: "bit (bits h ! w) i \<longleftrightarrow> bits_set (bits h) (w * 64 + i)" using bits_set_word [OF i] by simp
  show ?thesis
  proof (cases "w * 64 + i < gslots (geometry h)")
    case True
    from small_states(1) [OF inv' this] eq Small show ?thesis by (simp del: page_occupied.simps)
  next
    case False
    moreover have "w * 64 + i < words (geometry h) * 64" using w' i by linarith
    ultimately have "\<not> bits_set (bits h) (w * 64 + i)" using inv' by (auto simp: list_all_iff)
    with eq False Small show ?thesis by simp
  qed
qed

lemma dead_candidates_bit:
  assumes inv: "page_inv p" and w: "w * 64 < page_slots p" and i: "i < 64"
  shows "bit (dead_candidates p start e w) i \<longleftrightarrow>
    dead p e (w * 64 + i) \<and> (w = start div 64 \<longrightarrow> start mod 64 \<le> i)"
proof -
  have black: "black (page_marks_of p) (w * 64 + i) e \<longleftrightarrow> bit (black_word (page_marks_of p) w e) i"
    using i by (simp add: black_def bit_test_at)
  have "bit (push_bit l (- 1) :: u64) i \<longleftrightarrow> l \<le> i" for l
    using i by (auto simp: bit_not_iff bit_mask_iff)
  with i black occupied_word_bit [OF assms] show ?thesis
    by (auto simp: dead_candidates_def Let_def bit_and_iff bit_not_iff dead_def)
qed

lemma next_dead_in_spec:
  assumes inv: "page_inv p" and stop: "start < stop" "stop \<le> page_slots p"
    and a: "start div 64 \<le> a" "a \<le> Suc ((stop - 1) div 64)"
    and d: "d = next_dead_in p start stop e [a..<Suc ((stop - 1) div 64)]"
  shows "d \<le> stop \<and> (\<forall>t. max start (a * 64) \<le> t \<and> t < d \<longrightarrow> \<not> dead p e t) \<and>
    (d < stop \<longrightarrow> dead p e d \<and> start \<le> d)"
  using a d
proof (induction "Suc ((stop - 1) div 64) - a" arbitrary: a)
  case 0
  then have "a = Suc ((stop - 1) div 64)" "d = stop" by auto
  moreover have "stop \<le> Suc ((stop - 1) div 64) * 64"
    using stop div_mult_mod_eq [of "stop - 1" 64] mod_less_divisor [of 64 "stop - 1"]
    by (simp only: mult_Suc)
  ultimately show ?case by auto
next
  case (Suc n)
  let ?c = "dead_candidates p start e a"
  let ?z = "trailing_zeros ?c"
  from Suc have a_lt: "a \<le> (stop - 1) div 64" by linarith
  then have a64: "a * 64 < stop" using stop(1) div_mult_mod_eq [of "stop - 1" 64] by linarith
  with stop have w: "a * 64 < page_slots p" by linarith
  have split: "[a..<Suc ((stop - 1) div 64)] = a # [Suc a..<Suc ((stop - 1) div 64)]"
    using a_lt by (simp add: upt_conv_Cons)
  note cand = dead_candidates_bit [OF inv w, of _ start e]
  have here: "\<not> dead p e t" if "max start (a * 64) \<le> t" "t < a * 64 + 64" "\<not> bit ?c (t - a * 64)" for t
  proof -
    have "start mod 64 \<le> t - a * 64" if "a = start div 64"
      using that \<open>max start (a * 64) \<le> t\<close> by (simp add: minus_div_mult_eq_mod [symmetric] del: minus_div_mult_eq_mod)
    with that cand [of "t - a * 64"] show ?thesis by auto
  qed
  show ?case
  proof (cases "?c = 0")
    case False
    from trailing_zeros_nonzero [OF False] have z: "?z < 64" "bit ?c ?z" by simp_all
    have d': "d = min (a * 64 + ?z) stop" using Suc.prems(3) False unfolding split by (simp add: Let_def)
    have dd: "dead p e (a * 64 + ?z)" "a = start div 64 \<longrightarrow> start mod 64 \<le> ?z" using z cand by auto
    have "start \<le> a * 64 + ?z"
    proof (cases "a = start div 64")
      case True with dd(2) div_mult_mod_eq [of start 64] show ?thesis by linarith
    next
      case ne: False
      with Suc.prems(1) have "start < a * 64" by (metis div_less_iff_less_mult le_neq_implies_less zero_less_numeral)
      then show ?thesis by simp
    qed
    moreover have "\<not> dead p e t" if "max start (a * 64) \<le> t" "t < d" for t
      using here [of t] that d' z(1) trailing_zeros_below [of "t - a * 64" ?c] by auto
    ultimately show ?thesis using d' dd by (auto simp: min_def)
  next
    case True
    then have d': "d = next_dead_in p start stop e [Suc a..<Suc ((stop - 1) div 64)]"
      using Suc.prems(3) unfolding split by (simp add: Let_def)
    have IH: "d \<le> stop \<and> (\<forall>t. max start (Suc a * 64) \<le> t \<and> t < d \<longrightarrow> \<not> dead p e t) \<and>
      (d < stop \<longrightarrow> dead p e d \<and> start \<le> d)"
    proof (rule Suc.hyps(1))
      show "n = Suc ((stop - 1) div 64) - Suc a" using Suc.hyps(2) by linarith
      show "start div 64 \<le> Suc a" "Suc a \<le> Suc ((stop - 1) div 64)" using Suc.prems(1) a_lt by linarith+
    qed (rule d')
    have "\<not> dead p e t" if "max start (a * 64) \<le> t" "t < d" for t
      using here [of t] IH that True by (cases "t < a * 64 + 64") auto
    with IH show ?thesis by auto
  qed
qed

lemma first_dead_unique:
  assumes "d \<le> stop" "start \<le> d" "\<forall>t. start \<le> t \<and> t < d \<longrightarrow> \<not> dead p e t" "d < stop \<longrightarrow> dead p e d"
  shows "first_dead p start stop e = d"
proof -
  have "[start..<stop] = [start..<d] @ [d..<stop]" using assms(1,2)
    by (metis le_add_diff_inverse upt_add_eq_append)
  moreover have "filter (dead p e) [start..<d] = []" using assms(3) by (auto simp: filter_empty_conv)
  moreover have "filter (dead p e) [d..<stop] = (if d < stop then d # filter (dead p e) [Suc d..<stop] else [])"
    using assms(4) by (simp add: upt_conv_Cons)
  ultimately show ?thesis using assms(1) by (simp add: first_dead_def)
qed

lemma next_dead_first_dead:
  assumes "page_inv p" "start < stop" "stop \<le> page_slots p"
  shows "next_dead p start stop e = first_dead p start stop e"
proof -
  have "start div 64 \<le> (stop - 1) div 64" by (rule div_le_mono) (use assms(2) in simp)
  then have le: "start div 64 \<le> Suc ((stop - 1) div 64)" by simp
  have eq: "max start (start div 64 * 64) = start" by simp
  from next_dead_in_spec [OF assms order_refl le refl, of e] assms(2)
  show ?thesis unfolding next_dead_def eq by (intro first_dead_unique [symmetric]) force+
qed

subsection \<open>Addresses, size classes and trailers\<close>

lemma pointer_slot_of:
  assumes "page_inv p" "s < page_slots p"
  shows "\<exists>a. page_pointer p s = Ok a \<and> slot_of p a = Some s"
proof (cases p)
  case (Large b h)
  with assms show ?thesis by (auto simp: checked_sub_def)
next
  case (Small b h)
  with assms have "0 < stride (geometry h)" using stride_bounds [of "stride (geometry h)"] by auto
  with Small assms show ?thesis by (auto simp: checked_sub_def)
qed

lemma slot_of_pointer:
  assumes "slot_of p a = Some s" shows "page_pointer p s = Ok a \<and> s < page_slots p"
  using assms by (cases p)
    (auto simp: bind_eq_Some_conv checked_sub_eq_Some Let_def split: if_splits dest: mod_0_imp_dvd)

lemma find_class_spec:
  "find_class l = Some k \<Longrightarrow>
     k < length STRIDES \<and> lsize l \<le> STRIDES ! k \<and> STRIDES ! k mod lalign l = 0 \<and>
     (\<forall>j < k. \<not> (lsize l \<le> STRIDES ! j \<and> STRIDES ! j mod lalign l = 0))"
proof -
  assume a: "find_class l = Some k"
  let ?P = "\<lambda>k. STRIDES ! k \<ge> lsize l \<and> STRIDES ! k mod lalign l = 0"
  from a obtain ks where f: "filter ?P [0..<length STRIDES] = k # ks"
    by (auto simp: find_class_def split: list.splits)
  from filter_eq_ConsD [OF f] obtain us vs where
    u: "[0..<length STRIDES] = us @ k # vs" "\<forall>u\<in>set us. \<not> ?P u" "?P k" by auto
  have len: "length us < length STRIDES" using arg_cong [OF u(1), of length] by simp
  have "k = length us" using arg_cong [OF u(1), of "\<lambda>xs. xs ! length us"] len by simp
  moreover have "us = [0..<length us]" using arg_cong [OF u(1), of "take (length us)"] len by (simp add: take_upt)
  then have "set us = {0..<length us}" by (metis set_upt)
  ultimately show ?thesis using u len by auto
qed

lemma page_group_spec:
  assumes "page_group l ef = Some g"
  shows "g < GROUPS" "lsize l \<le> group_stride g" "group_stride g mod lalign l = 0" "lalign l \<le> slab_align g"
    "group_stride g \<in> set STRIDES" "even g \<longleftrightarrow> ef"
proof -
  from assms obtain k where k: "find_class l = Some k" "1 \<le> lalign l" "lalign l \<le> 64"
    and g: "g = (if lalign l \<le> 16 then 0 else 1) * 48 + k * 2 + (if ef then 0 else 1)"
    by (auto simp: page_group_def Let_def split: if_splits)
  note K = find_class_spec [OF k(1)]
  have k24: "k < 24" using K by (simp add: STRIDES_def)
  have m: "g mod 48 div 2 = k" "g div 48 = (if lalign l \<le> 16 then 0 else 1)"
    using k24 g by (auto split: if_splits)
  show "g < GROUPS" using k24 g by (auto simp: GROUPS_def)
  show "lsize l \<le> group_stride g" "group_stride g mod lalign l = 0" "group_stride g \<in> set STRIDES"
    using K by (auto simp: group_stride_def m)
  show "lalign l \<le> slab_align g" using k by (auto simp: slab_align_def m)
  show "even g \<longleftrightarrow> ef" using g by auto
qed

lemma round_up_spec:
  assumes "0 < a" shows "n \<le> round_up n a" "a dvd round_up n a" "round_up n a < n + a"
  using div_ceil_covers [OF assms, of n] by (simp_all add: round_up_def div_ceil_def)

lemma round_up_self: "0 < a \<Longrightarrow> a dvd n \<Longrightarrow> round_up n a = n"
  using round_up_spec [of a n] dvd_diff_nat [of a "round_up n a" n] nat_dvd_not_less [of "round_up n a - n" a]
  by linarith

lemma layout_extend_spec:
  assumes "layout_extend l r = Some (w, off)" "0 < lalign r"
  shows "lsize l \<le> off" "lalign r dvd off" "off + lsize r = lsize w" "lalign w = max (lalign l) (lalign r)"
    "off < lsize l + lalign r"
  using assms round_up_spec [OF assms(2), of "lsize l"]
  by (auto simp: layout_extend_def Let_def split: if_splits)

lemma layout_extend_ok:
  assumes "lalign l \<in> {1, 2, 4, 8, 16, 64}" "lalign r \<in> {1, 2, 4, 8, 16, 64}" "lsize l \<le> 2 ^ 30" "lsize r \<le> 2 ^ 30"
  shows "\<exists>w off. layout_extend l r = Some (w, off)"
proof -
  have "0 < lalign r" "lalign r \<le> 64" "lalign l \<le> 64" using assms(1,2) by auto
  with round_up_spec [of "lalign r" "lsize l"]
  have "round_up (lsize l) (lalign r) + lsize r \<le> 2 ^ 32" using assms(3,4) by simp
  moreover have "isize_max - (max (lalign l) (lalign r) - 1) \<ge> 2 ^ 32"
    using \<open>lalign r \<le> 64\<close> \<open>lalign l \<le> 64\<close> by (simp add: isize_max_def)
  ultimately show ?thesis by (simp add: layout_extend_def Let_def)
qed

text \<open>
  The header, the occupancy bitmaps and the marks of a slab lie after the object slots, in this
  order, without overlap, each at its alignment.
\<close>

lemma geometry_new_spec:
  assumes tt: "types_ok tt" and st: "st \<in> set STRIDES"
  shows "\<exists>geo. geometry_new tt st = Ok geo \<and> stride geo = st \<and> gslots geo = SLAB_BYTES div st \<and>
    words geo = div_ceil (gslots geo) 64 \<and> gslots geo * st \<le> SLAB_BYTES \<and>
    SLAB_BYTES + lsize (small_type tt) \<le> bits_offset geo \<and> 8 dvd bits_offset geo \<and>
    bits_offset geo + 8 * (words geo * 2) \<le> marks_offset geo \<and> lalign (marks_type tt) dvd marks_offset geo \<and>
    marks_offset geo + lsize (marks_type tt) = SLAB_BYTES + lsize (trailer geo) \<and>
    lalign (trailer geo) \<in> {8, 16} \<and> lsize (trailer geo) \<le> 2 ^ 22"
proof -
  let ?n = "SLAB_BYTES div st" let ?w = "div_ceil ?n 64"
  have w: "?w \<le> 2" using stride_bounds [OF st] div_ceil_covers [of 64 ?n] by linarith
  have al: "lalign (small_type tt) \<in> {1,2,4,8,16}" "lalign (marks_type tt) \<in> {1,2,4,8,16}"
    and sz: "lsize (small_type tt) \<le> 2 ^ 20" "lsize (marks_type tt) \<le> 2 ^ 20"
    using tt by (auto simp: types_ok_def small_align_def)
  obtain t1 o1 where e1: "layout_extend (small_type tt) (u64_array (?w * 2)) = Some (t1, o1)"
    using layout_extend_ok [of "small_type tt" "u64_array (?w * 2)"] al sz w by (auto simp: u64_array_def)
  note s1 = layout_extend_spec [OF e1]
  have t1: "lalign t1 \<in> {8, 16}" "lsize t1 \<le> 2 ^ 21" using s1 al(1) sz(1) w
    by (auto simp: u64_array_def max_def)
  obtain t2 o2 where e2: "layout_extend t1 (marks_type tt) = Some (t2, o2)"
    using layout_extend_ok [of t1 "marks_type tt"] al sz t1 by auto
  have pos: "0 < lalign (marks_type tt)" "lalign (marks_type tt) \<le> 16" "lalign (marks_type tt) dvd SLAB_BYTES"
    using al(2) by (auto simp: SLAB_BYTES_def)
  note s2 = layout_extend_spec [OF e2 pos(1)]
  have t2: "lalign t2 \<in> {8, 16}" "lsize t2 \<le> 2 ^ 22" using s2 al t1 sz pos by (auto simp: max_def)
  define geo where "geo = \<lparr>stride = st, gslots = ?n, words = ?w, bits_offset = SLAB_BYTES + o1,
     marks_offset = SLAB_BYTES + o2, trailer = t2\<rparr>"
  have "geometry_new tt st = Ok geo" using e1 e2 by (simp add: geometry_new_def geo_def Let_def)
  moreover have "8 dvd SLAB_BYTES + o1" using s1(2) by (simp add: u64_array_def SLAB_BYTES_def)
  moreover have "lalign (marks_type tt) dvd SLAB_BYTES + o2" using s2(2) pos(3) by (rule dvd_add [rotated])
  moreover have "?n * st \<le> SLAB_BYTES" by simp
  ultimately show ?thesis using s1(1,3) s2(1,3) t2 by (auto simp: geo_def u64_array_def)
qed

lemma backing_layout_ok:
  assumes tt: "types_ok tt" and st: "group_stride g \<in> set STRIDES"
  shows "\<exists>whole geo. backing_layout tt l (Some g) = Ok whole \<and> geometry_new tt (group_stride g) = Ok geo \<and>
    lsize whole = SLAB_BYTES + lsize (trailer geo) \<and> slab_align g \<le> lalign whole"
proof -
  from geometry_new_spec [OF assms] obtain geo where geo: "geometry_new tt (group_stride g) = Ok geo"
    "lalign (trailer geo) \<in> {8, 16}" "lsize (trailer geo) \<le> 2 ^ 22" by auto
  let ?s = "\<lparr>lsize = SLAB_BYTES, lalign = slab_align g\<rparr>"
  obtain whole off where e: "layout_extend ?s (trailer geo) = Some (whole, off)"
    using layout_extend_ok [of ?s "trailer geo"] geo
    by (cases "g div 48 = 0") (auto simp: slab_align_def SLAB_BYTES_def)
  have "lalign (trailer geo) dvd SLAB_BYTES" "0 < lalign (trailer geo)" using geo(2) by (auto simp: SLAB_BYTES_def)
  then have "off = SLAB_BYTES" using e round_up_self by (auto simp: layout_extend_def Let_def split: if_splits)
  with e geo layout_extend_spec [OF e] \<open>0 < lalign (trailer geo)\<close> show ?thesis
    by (auto simp: backing_layout_def)
qed

text \<open>A new page is well formed, and all its slots are vacant.\<close>

lemma new_small_inv:
  assumes "group_stride g \<in> set STRIDES" "g < GROUPS" "new_small tt alloc g = Ok p"
  shows "page_inv p" "page_free p = page_slots p" "slot_state p s = Vacant" "group_id p = Some g"
proof -
  from assms(3) obtain geo b where geo: "geometry_new tt (group_stride g) = Ok geo"
    and p: "p = Small b \<lparr>geometry = geo, sgroup = g, sfree = gslots geo, sactive = links_default,
      savailable = links_default, bits = replicate (words geo * 2) 0, smarks = marks_default\<rparr>"
    by (auto simp: new_small_def)
  have geo': "stride geo = group_stride g" "gslots geo = SLAB_BYTES div stride geo"
    "words geo = div_ceil (gslots geo) 64"
    using geo by (auto simp: geometry_new_def Let_def split: prod.splits)
  have zero: "\<not> bits_set (replicate n 0) i" for n i by (auto simp: bits_set_def)
  have nth0: "replicate n (0::u64) ! i AND x = 0" if "i < n" for n i x using that by simp
  have lt: "t div 64 < words geo * 2" "(words geo * 64 + t) div 64 < words geo * 2"
    if "t < gslots geo" for t
    using that div_ceil_covers [of 64 "gslots geo"] geo'(3)
    by (auto intro!: less_mult_imp_div_less)
  show st: "slot_state p s = Vacant" for s
    using lt [of s] by (simp add: p slot_state_def unavail_bit_def del: div_mult_self3 div_mult_self4)
  show "page_inv p" using assms(1,2) geo' st by (auto simp: p list_all_iff zero)
  show "page_free p = page_slots p" "group_id p = Some g" by (simp_all add: p)
qed

lemma new_large_inv:
  assumes "new_large tt alloc l = Ok p"
  shows "page_inv p" "page_free p = 1" "slot_state p s = Vacant"
  using assms by (auto simp: new_large_def slot_state_def)

section \<open>The slot interface\<close>

text \<open>What the physical heap relies on: a page is a set of slots with a status each.\<close>

locale slot_page =
  fixes status :: "'p \<Rightarrow> nat \<Rightarrow> slot_status" and vacancies :: "'p \<Rightarrow> nat" and inv :: "'p \<Rightarrow> bool"
    and acquire :: "'p \<Rightarrow> ('p \<times> nat) gc_result" and settle :: "nat \<Rightarrow> 'p \<Rightarrow> 'p"
    and unlink :: "nat \<Rightarrow> 'p \<Rightarrow> 'p gc_result" and restore :: "nat \<Rightarrow> 'p \<Rightarrow> 'p"
  assumes acquire: "inv p \<Longrightarrow> 0 < vacancies p \<Longrightarrow>
      \<exists>q s. acquire p = Ok (q, s) \<and> status p s = Vacant \<and> status q = (status p)(s := Unavailable) \<and>
        inv q \<and> Suc (vacancies q) = vacancies p"
    and settle: "inv p \<Longrightarrow> status p s = Unavailable \<Longrightarrow>
      status (settle s p) = (status p)(s := Occupied) \<and> inv (settle s p) \<and> vacancies (settle s p) = vacancies p"
    and unlink: "inv p \<Longrightarrow> status p s = Occupied \<Longrightarrow>
      \<exists>q. unlink s p = Ok q \<and> status q = (status p)(s := Unavailable) \<and> inv q \<and> vacancies q = vacancies p"
    and restore: "inv p \<Longrightarrow> status p s = Unavailable \<Longrightarrow>
      status (restore s p) = (status p)(s := Vacant) \<and> inv (restore s p) \<and> vacancies (restore s p) = Suc (vacancies p)"
begin

lemma life_cycle:
  assumes "inv p" "0 < vacancies p"
  shows "\<exists>q s r. acquire p = Ok (q, s) \<and> status (settle s q) = (status p)(s := Occupied) \<and>
    unlink s (settle s q) = Ok r \<and> status (restore s r) = status p \<and> inv (restore s r) \<and>
    vacancies (restore s r) = vacancies p"
proof -
  from acquire [OF assms] obtain q s where q: "acquire p = Ok (q, s)" "status p s = Vacant"
    "status q = (status p)(s := Unavailable)" "inv q" "Suc (vacancies q) = vacancies p" by auto
  from settle [of q s] q have c: "status (settle s q) = (status p)(s := Occupied)" "inv (settle s q)"
    "vacancies (settle s q) = vacancies q" by auto
  from unlink [OF c(2), of s] c obtain r where r: "unlink s (settle s q) = Ok r"
    "status r = (status p)(s := Unavailable)" "inv r" "vacancies r = vacancies q" by auto
  from restore [OF r(3), of s] r q have "status (restore s r) = (status p)(s := Vacant)"
    "inv (restore s r)" "vacancies (restore s r) = vacancies p" by auto
  moreover have "(status p)(s := Vacant) = status p" using q(2) by auto
  ultimately show ?thesis using q(1) c(1) r(1) by auto
qed

lemma abandon:
  assumes "inv p" "0 < vacancies p"
  shows "\<exists>q s. acquire p = Ok (q, s) \<and> status (restore s q) = status p \<and> inv (restore s q) \<and>
    vacancies (restore s q) = vacancies p"
proof -
  from acquire [OF assms] obtain q s where q: "acquire p = Ok (q, s)" "status p s = Vacant"
    "status q = (status p)(s := Unavailable)" "inv q" "Suc (vacancies q) = vacancies p" by auto
  moreover have "(status p)(s := Vacant) = status p" using q(2) by auto
  ultimately show ?thesis using restore [of q s] by auto
qed

end

lemma free_count:
  assumes "page_inv p"
  shows "page_free p = length (filter (\<lambda>s. slot_state p s = Vacant) [0..<page_slots p])"
  using assms by (cases p) (auto simp: slot_state_def)

lemma reserve_free:
  assumes "page_inv p" "page_inv q" "page_slots q = page_slots p" "s < page_slots p" "slot_state p s = Vacant"
    "slot_state q = (slot_state p)(s := Unavailable)"
  shows "Suc (page_free q) = page_free p"
  using count_update [OF assms(4), of "slot_state p" Unavailable Vacant] assms
  by (simp add: free_count del: fun_upd_apply)

interpretation pages: slot_page slot_state page_free page_inv page_reserve page_commit page_detach page_release
proof
  fix p assume p: "page_inv p" "0 < page_free p"
  from reserve_spec [OF this] obtain q s where "page_reserve p = Ok (q, s)" "s < page_slots p"
    "slot_state p s = Vacant" "slot_state q = (slot_state p)(s := Unavailable)" "page_inv q" "same_frame p q"
    by blast
  with p(1) reserve_free [of p q s] show
    "\<exists>q s. page_reserve p = Ok (q, s) \<and> slot_state p s = Vacant \<and> slot_state q = (slot_state p)(s := Unavailable) \<and>
       page_inv q \<and> Suc (page_free q) = page_free p" by (auto simp: same_frame_def simp del: page_inv.simps)
next
  fix p s assume "page_inv p" "slot_state p s = Occupied"
  from detach_spec [OF this]
  show "\<exists>q. page_detach s p = Ok q \<and> slot_state q = (slot_state p)(s := Unavailable) \<and> page_inv q \<and>
    page_free q = page_free p" by blast
qed (use commit_spec release_spec in \<open>auto simp del: page_inv.simps\<close>)

section \<open>Properties\<close>

lemma sample_page_inv: "page_inv sample_page"
  by code_simp

text \<open>
  Reserving a slot of a page that has a free one never panics: it takes the lowest vacant
  slot, makes exactly that slot unavailable, keeps the page well formed with one free slot less,
  and clears the slot's mark bits of every epoch, so that a recycled slot is never taken for a
  marked object.
\<close>

theorem page_reserve_least_vacant:
  assumes "page_inv p" "0 < page_free p"
  shows "\<exists>q s. page_reserve p = Ok (q, s) \<and> s < page_slots p \<and> slot_state p s = Vacant \<and>
    (\<forall>t < s. slot_state p t \<noteq> Vacant) \<and> slot_state q = (slot_state p)(s := Unavailable) \<and>
    page_inv q \<and> Suc (page_free q) = page_free p \<and>
    (\<forall>e. \<not> black (page_marks_of q) s e \<and> \<not> is_discovered (page_marks_of q) s e)"
proof -
  from reserve_spec [OF assms] obtain q s where q: "page_reserve p = Ok (q, s)" "s < page_slots p"
    "slot_state p s = Vacant" "\<forall>t < s. slot_state p t \<noteq> Vacant"
    "slot_state q = (slot_state p)(s := Unavailable)" "page_inv q" "same_frame p q"
    "page_marks_of q = clear_slot s (page_marks_of p)" by blast
  moreover have "s < 128" using q(2) page_slots_le [OF assms(1)] by simp
  then have "\<not> black (page_marks_of q) s e \<and> \<not> is_discovered (page_marks_of q) s e" for e
    using clear_slot_colours [OF page_marks_inv [OF assms(1)]] q(8) by simp
  moreover have "Suc (page_free q) = page_free p"
    using reserve_free [OF assms(1) q(6)] q by (simp add: same_frame_def)
  ultimately show ?thesis by blast
qed

theorem page_reserve_least_vacant_witness:
  "\<exists>q s. page_reserve sample_page = Ok (q, s) \<and> slot_state sample_page s = Vacant \<and> Suc (page_free q) = 1"
proof -
  have "0 < page_free sample_page" "page_free sample_page = 1" by code_simp+
  with page_reserve_least_vacant [OF sample_page_inv] show ?thesis by auto
qed

text \<open>
  (C35) The bitmap search for dead objects agrees with the slot-by-slot search: between \<open>start\<close>
  and \<open>stop\<close> it returns the first slot that is occupied and not black in the epoch, or \<open>stop\<close>.
\<close>

theorem next_dead_refines_scan:
  assumes "page_inv p" "start < stop" "stop \<le> page_slots p"
  shows "next_dead p start stop e = first_dead p start stop e"
  using assms by (rule next_dead_first_dead)

theorem next_dead_refines_scan_witness:
  "next_dead sample_page 0 3 7 = first_dead sample_page 0 3 7 \<and> first_dead sample_page 0 3 7 = 2"
proof -
  have "(0 :: nat) < 3" "3 \<le> page_slots sample_page" "first_dead sample_page 0 3 7 = 2" by code_simp+
  with next_dead_refines_scan [OF sample_page_inv, of 0 3 7] show ?thesis by simp
qed

text \<open>
  A slot that goes through reserve, commit, detach and release ends where it began: between
  commit and detach exactly that slot is occupied, no step panics, and afterwards every slot has
  its old state and the free count is what it was.
\<close>

theorem page_slot_life_cycle:
  assumes "page_inv p" "0 < page_free p"
  shows "\<exists>q s r. page_reserve p = Ok (q, s) \<and> slot_state (page_commit s q) = (slot_state p)(s := Occupied) \<and>
    page_detach s (page_commit s q) = Ok r \<and> slot_state (page_release s r) = slot_state p \<and>
    page_inv (page_release s r) \<and> page_free (page_release s r) = page_free p"
  using assms by (rule pages.life_cycle)

theorem page_slot_life_cycle_witness:
  "\<exists>q s r. page_reserve sample_page = Ok (q, s) \<and> page_detach s (page_commit s q) = Ok r \<and>
    slot_state (page_release s r) = slot_state sample_page"
proof -
  have "0 < page_free sample_page" by code_simp
  from page_slot_life_cycle [OF sample_page_inv this] show ?thesis by blast
qed

text \<open>
  (C38) The size class chosen for an object layout fits it: the group exists, its stride is at least
  the object's size, and every slot of a page of that group starts at an address with the
  object's alignment, ends inside the 1024 bytes of object space, and does not overlap another
  slot.
\<close>

theorem slab_slots_fit:
  assumes "page_group l edge_free = Some (sgroup h)" "page_inv (Small b h)"
    "lalign l \<in> {1, 2, 4, 8, 16, 32, 64}" "slab_align (sgroup h) dvd base b"
    "page_pointer (Small b h) s = Ok a"
  shows "lalign l dvd a \<and> base b \<le> a \<and> a + lsize l \<le> base b + SLAB_BYTES \<and>
    (\<forall>t c. s < t \<and> page_pointer (Small b h) t = Ok c \<longrightarrow> a + lsize l \<le> c)"
proof (intro conjI allI impI)
  let ?st = "stride (geometry h)"
  note g = page_group_spec [OF assms(1)]
  have st: "?st = group_stride (sgroup h)" "gslots (geometry h) = SLAB_BYTES div ?st" using assms(2) by auto
  have a: "a = base b + s * ?st" "s < gslots (geometry h)" using assms(5) by auto
  have "slab_align (sgroup h) = 16 \<or> slab_align (sgroup h) = 64" by (auto simp: slab_align_def)
  with assms(3) g(4) have "lalign l dvd slab_align (sgroup h)" by auto
  with assms(4) g(3) a st show "lalign l dvd a" by (auto dest: mod_0_imp_dvd intro: dvd_trans)
  show "base b \<le> a" using a by simp
  have "Suc s * ?st \<le> gslots (geometry h) * ?st" using a(2) by (intro mult_right_mono) auto
  also have "\<dots> \<le> SLAB_BYTES" using st by simp
  finally show "a + lsize l \<le> base b + SLAB_BYTES" using a g(2) st by simp
  fix t c assume c: "s < t \<and> page_pointer (Small b h) t = Ok c"
  then have "Suc s * ?st \<le> t * ?st" by (intro mult_right_mono) auto
  with a g(2) st c show "a + lsize l \<le> c" by auto
qed

theorem slab_slots_fit_witness:
  "(16 :: nat) dvd 4416 \<and> page_pointer sample_page 1 = Ok 4416 \<and> page_pointer sample_page 2 = Ok 4736 \<and>
   4416 + 304 \<le> (4736 :: nat) \<and> 4096 \<le> (4416 :: nat) \<and> 4416 + 304 \<le> (4096 + SLAB_BYTES)"
proof -
  obtain b h where p: "sample_page = Small b h" and b: "base b = 4096" and h: "sgroup h = 33"
    by (simp add: sample_page_def)
  have g: "page_group \<lparr>lsize = 304, lalign = 16\<rparr> False = Some 33" by code_simp
  have pt: "page_pointer sample_page 1 = Ok 4416" "page_pointer sample_page 2 = Ok 4736" by code_simp+
  have al: "slab_align 33 dvd 4096" by (simp add: slab_align_def)
  have "(16 :: nat) dvd 4416 \<and> 4096 \<le> (4416 :: nat) \<and> 4416 + 304 \<le> 4096 + SLAB_BYTES \<and>
    (\<forall>t c. 1 < t \<and> page_pointer (Small b h) t = Ok c \<longrightarrow> 4416 + 304 \<le> c)"
    using slab_slots_fit [of "\<lparr>lsize = 304, lalign = 16\<rparr>" False h b 1 4416]
      g al b h pt sample_page_inv by (simp add: p del: page_inv.simps page_pointer.simps)
  with pt show ?thesis by (simp add: p)
qed

text \<open>
  (C39) The trailer of a slab page: for every size class the layout computation succeeds, the
  header, the bitmaps and the marks follow the object slots in this order without overlap, each
  properly aligned, and all of it lies inside the block that the allocator is asked for.
\<close>

theorem slab_trailer_disjoint:
  assumes "types_ok tt" "page_group l edge_free = Some g"
  shows "\<exists>geo whole. geometry_new tt (group_stride g) = Ok geo \<and> backing_layout tt l (Some g) = Ok whole \<and>
    gslots geo * stride geo \<le> SLAB_BYTES \<and> SLAB_BYTES + lsize (small_type tt) \<le> bits_offset geo \<and>
    8 dvd bits_offset geo \<and> bits_offset geo + 8 * (words geo * 2) \<le> marks_offset geo \<and>
    lalign (marks_type tt) dvd marks_offset geo \<and> marks_offset geo + lsize (marks_type tt) = lsize whole"
  using geometry_new_spec [OF assms(1) page_group_spec(5) [OF assms(2)]]
    backing_layout_ok [OF assms(1) page_group_spec(5) [OF assms(2)], of l] by auto

theorem slab_trailer_disjoint_witness:
  "\<exists>geo whole. geometry_new sample_types (group_stride 33) = Ok geo \<and>
     backing_layout sample_types \<lparr>lsize = 304, lalign = 16\<rparr> (Some 33) = Ok whole \<and>
     marks_offset geo + 48 = lsize whole"
proof -
  have "types_ok sample_types" "lsize (marks_type sample_types) = 48"
    by (simp_all add: types_ok_def small_align_def sample_types_def)
  moreover have "page_group \<lparr>lsize = 304, lalign = 16\<rparr> False = Some 33" by code_simp
  ultimately show ?thesis using slab_trailer_disjoint [of sample_types "\<lparr>lsize = 304, lalign = 16\<rparr>" False 33] by auto
qed

text \<open>
  Slot numbers and object addresses of a page are inverse to each other: the address of a
  slot is recognised as that slot, and an address that is recognised is the address of that slot;
  interior and foreign addresses are rejected.
\<close>

theorem page_pointer_roundtrip:
  assumes "page_inv p"
  shows "slot_of p a = Some s \<longleftrightarrow> page_pointer p s = Ok a"
proof
  assume "page_pointer p s = Ok a"
  moreover from this have "s < page_slots p" by (cases p) auto
  ultimately show "slot_of p a = Some s" using pointer_slot_of [OF assms] by fastforce
qed (use slot_of_pointer in blast)

theorem page_pointer_roundtrip_witness:
  "slot_of sample_page 4736 = Some 2 \<and> page_pointer sample_page 2 = Ok 4736"
proof -
  have "page_pointer sample_page 2 = Ok 4736" by code_simp
  with page_pointer_roundtrip [OF sample_page_inv, of 4736 2] show ?thesis by simp
qed

end
