(* ===== verification/Gc_Descriptors.thy ===== *)
theory Gc_Descriptors
  imports Gc_Table Gc_Page "HOL-Library.Product_Lexorder"
begin

text \<open>
  Registered object representations (\<^verbatim>\<open>crates/kagari-gc/src: dynamic.rs, dynamic/builder.rs,
  dynamic/layout.rs, descriptor.rs\<close>): the physical layout of runtime-defined records, the
  descriptors of Rust and dynamic representations, and the registry that hands out descriptor
  identities, counts the objects that use them and retires unused ones.

  A Rust type enters as the constants its \<^verbatim>\<open>GcObject\<close> implementation supplies
  (\<open>gc_type\<close>); the addresses of its \<^verbatim>\<open>scan\<close>, \<^verbatim>\<open>charge\<close> and
  \<^verbatim>\<open>destroy\<close> functions are not part of the state modelled here. \<^verbatim>\<open>Arc<()>\<close> identities
  are numbers, and the strong count that \<^verbatim>\<open>retire_unused\<close> reads is an argument.
\<close>

section \<open>Definitions\<close>

subsection \<open>Dynamic layouts (dynamic.rs, dynamic/builder.rs, dynamic/layout.rs)\<close>

datatype field_type =
  FBool | FChar | FI8 | FU8 | FI16 | FU16 | FI32 | FU32 | FI64 | FU64 | FI128 | FU128
  | FF32 | FF64 | FReference

text \<open>The types that implement \<^verbatim>\<open>Scalar\<close>, with their \<^verbatim>\<open>FIELD_TYPE\<close>: every kind of field but the
  reference.\<close>

datatype scalar_type =
  VBool | VChar | VI8 | VU8 | VI16 | VU16 | VI32 | VU32 | VI64 | VU64 | VI128 | VU128 | VF32 | VF64

fun field_type_of :: "scalar_type \<Rightarrow> field_type" where
  "field_type_of VBool = FBool"
| "field_type_of VChar = FChar"
| "field_type_of VI8 = FI8"
| "field_type_of VU8 = FU8"
| "field_type_of VI16 = FI16"
| "field_type_of VU16 = FU16"
| "field_type_of VI32 = FI32"
| "field_type_of VU32 = FU32"
| "field_type_of VI64 = FI64"
| "field_type_of VU64 = FU64"
| "field_type_of VI128 = FI128"
| "field_type_of VU128 = FU128"
| "field_type_of VF32 = FF32"
| "field_type_of VF64 = FF64"

fun field_layout :: "field_type \<Rightarrow> layout" where
  "field_layout FBool = \<lparr>lsize = 1, lalign = 1\<rparr>"
| "field_layout FChar = \<lparr>lsize = 4, lalign = 4\<rparr>"
| "field_layout FI8 = \<lparr>lsize = 1, lalign = 1\<rparr>"
| "field_layout FU8 = \<lparr>lsize = 1, lalign = 1\<rparr>"
| "field_layout FI16 = \<lparr>lsize = 2, lalign = 2\<rparr>"
| "field_layout FU16 = \<lparr>lsize = 2, lalign = 2\<rparr>"
| "field_layout FI32 = \<lparr>lsize = 4, lalign = 4\<rparr>"
| "field_layout FU32 = \<lparr>lsize = 4, lalign = 4\<rparr>"
| "field_layout FI64 = \<lparr>lsize = 8, lalign = 8\<rparr>"
| "field_layout FU64 = \<lparr>lsize = 8, lalign = 8\<rparr>"
| "field_layout FI128 = \<lparr>lsize = 16, lalign = 16\<rparr>"
| "field_layout FU128 = \<lparr>lsize = 16, lalign = 16\<rparr>"
| "field_layout FF32 = \<lparr>lsize = 4, lalign = 4\<rparr>"
| "field_layout FF64 = \<lparr>lsize = 8, lalign = 8\<rparr>"
| "field_layout FReference = \<lparr>lsize = 8, lalign = 8\<rparr>"

record layout_builder =
  bidentity :: nat
  bfields :: "field_type list"

record field_key =
  kidentity :: nat
  kindex :: nat

definition builder_new :: "nat \<Rightarrow> layout_builder" where
  "builder_new ident = \<lparr>bidentity = ident, bfields = []\<rparr>"

definition builder_push :: "field_type \<Rightarrow> layout_builder \<Rightarrow> layout_builder \<times> field_key" where
  "builder_push k b =
     (b\<lparr>bfields := bfields b @ [k]\<rparr>, \<lparr>kidentity = bidentity b, kindex = length (bfields b)\<rparr>)"

record field =
  fkind :: field_type
  foffset :: nat

record dynamic_shape =
  sidentity :: nat
  slayout :: layout
  sfields :: "field list"
  references :: "nat list"

definition pad_to_align :: "layout \<Rightarrow> layout" where
  "pad_to_align l = l\<lparr>lsize := round_up (lsize l) (lalign l)\<rparr>"

definition packing_order :: "field_type list \<Rightarrow> nat list" where
  "packing_order kinds =
     sort_key (\<lambda>index. (- int (lalign (field_layout (kinds ! index))), index)) [0..<length kinds]"

fun place_fields :: "nat list \<Rightarrow> layout \<Rightarrow> field list \<Rightarrow> (layout \<times> field list) gc_result" where
  "place_fields [] l fs = Ok (l, fs)"
| "place_fields (index # order) l fs =
     and_then (ok_or (Limit ''dynamic field layout'') (layout_extend l (field_layout (fkind (fs ! index)))))
       (\<lambda>(after, offset). place_fields order after (fs[index := (fs ! index)\<lparr>foffset := offset\<rparr>]))"

definition shape_new :: "reserve \<Rightarrow> layout_builder \<Rightarrow> dynamic_shape gc_result" where
  "shape_new mem builder =
     (let kinds = bfields builder
      in if \<not> mem (length kinds) then Err Allocation
         else if \<not> mem (length (filter (\<lambda>k. k = FReference) kinds)) then Err Allocation
         else and_then (place_fields (packing_order kinds) \<lparr>lsize = 0, lalign = 1\<rparr>
                          (map (\<lambda>k. \<lparr>fkind = k, foffset = 0\<rparr>) kinds))
                (\<lambda>(l, fs). Ok \<lparr>sidentity = bidentity builder, slayout = pad_to_align l, sfields = fs,
                   references = map foffset (filter (\<lambda>f. fkind f = FReference) fs)\<rparr>))"

text \<open>
  \<^verbatim>\<open>DynamicShape::scan\<close>: \<open>load\<close> reads a reference slot of the record, \<open>visit\<close>
  is \<^verbatim>\<open>EdgeVisitor::try_visit_reference\<close> on the collector's state. The result carries the
  cursor, the budget and that state as the loop left them.
\<close>

function shape_scan :: "(nat \<Rightarrow> nat option) \<Rightarrow>
    (nat \<Rightarrow> scan_budget \<Rightarrow> 'm \<Rightarrow> scan_status gc_result \<times> scan_budget \<times> 'm) \<Rightarrow> dynamic_shape \<Rightarrow>
    nat \<Rightarrow> scan_budget \<Rightarrow> 'm \<Rightarrow> scan_status gc_result \<times> nat \<times> scan_budget \<times> 'm" where
  "shape_scan load visit shape at b m =
     (if at < length (references shape) then
        (case take_units 1 b of
           (False, b) \<Rightarrow> (Ok Pending, at, b, m)
         | (True, b) \<Rightarrow>
             (case load (references shape ! at) of
                None \<Rightarrow> shape_scan load visit shape (at + 1) b m
              | Some target \<Rightarrow>
                  (case visit target b m of
                     (Ok Complete, b, m) \<Rightarrow> shape_scan load visit shape (at + 1) b m
                   | (Ok Pending, b, m) \<Rightarrow> (Ok Pending, at, b, m)
                   | (Err e, b, m) \<Rightarrow> (Err e, at, b, m)
                   | (Panic e, b, m) \<Rightarrow> (Panic e, at, b, m))))
      else (Ok Complete, at, b, m))"
  by pat_completeness auto
termination
  by (relation "measure (\<lambda>(load, visit, shape, at, b, m). length (references shape) - at)") auto

declare shape_scan.simps [simp del]

subsection \<open>Descriptors (descriptor.rs)\<close>

definition header_layout :: layout where
  "header_layout = \<lparr>lsize = 8, lalign = 4\<rparr>"

record gc_type =
  type_id :: nat
  type_layout :: layout
  type_kind :: scan_kind
  type_state :: layout

datatype representation = Rust nat | Dynamic dynamic_shape

record descriptor =
  desc_id :: nat
  desc_rep :: representation
  desc_layout :: layout
  desc_group :: "nat option"
  payload_offset :: nat
  state_layout :: layout
  desc_kind :: scan_kind

definition exceeds_bound :: "scan_kind \<Rightarrow> bool" where
  "exceeds_bound k = (case k of Bounded max_work \<Rightarrow> max_work > 204 | _ \<Rightarrow> False)"

definition descriptor_new :: "gc_type \<Rightarrow> nat \<Rightarrow> descriptor gc_result" where
  "descriptor_new T i =
     (if exceeds_bound (type_kind T) then Err (Provider ''bounded scanner exceeds 204 units'')
      else and_then (ok_or (Limit ''object layout'') (layout_extend header_layout (type_layout T)))
        (\<lambda>(l, offset). Ok \<lparr>desc_id = i, desc_rep = Rust (type_id T), desc_layout = l,
           desc_group = page_group l (type_kind T = EdgeFree), payload_offset = offset,
           state_layout = type_state T, desc_kind = type_kind T\<rparr>))"

definition descriptor_dynamic :: "nat \<Rightarrow> dynamic_shape \<Rightarrow> descriptor gc_result" where
  "descriptor_dynamic i shape =
     and_then (ok_or (Limit ''dynamic object layout'') (layout_extend header_layout (slayout shape)))
       (\<lambda>(l, offset). Ok \<lparr>desc_id = i, desc_rep = Dynamic shape, desc_layout = l,
          desc_group = page_group l (references shape = []), payload_offset = offset,
          state_layout = \<lparr>lsize = 8, lalign = 8\<rparr>,
          desc_kind = (if references shape = [] then EdgeFree else Resumable)\<rparr>)"

definition descriptor_type :: "descriptor \<Rightarrow> nat option" where
  "descriptor_type d = (case desc_rep d of Rust t \<Rightarrow> Some t | Dynamic _ \<Rightarrow> None)"

definition descriptor_shape :: "descriptor \<Rightarrow> dynamic_shape gc_result" where
  "descriptor_shape d = (case desc_rep d of Dynamic s \<Rightarrow> Ok s | Rust _ \<Rightarrow> Err Representation)"

text \<open>\<^verbatim>\<open>DynamicLayout::field\<close>, \<^verbatim>\<open>scalar\<close> and \<^verbatim>\<open>reference\<close>.\<close>

definition layout_field :: "descriptor \<Rightarrow> field_key \<Rightarrow> field gc_result" where
  "layout_field d key =
     and_then (descriptor_shape d)
       (\<lambda>shape. if sidentity shape \<noteq> kidentity key then Err Representation
                else if kindex key < length (sfields shape) then Ok (sfields shape ! kindex key)
                else Panic ''index out of bounds'')"

definition bind_scalar :: "scalar_type \<Rightarrow> descriptor \<Rightarrow> field_key \<Rightarrow> nat gc_result" where
  "bind_scalar v d key =
     and_then (layout_field d key)
       (\<lambda>f. if fkind f \<noteq> field_type_of v then Err Representation else Ok (foffset f))"

definition bind_reference :: "descriptor \<Rightarrow> field_key \<Rightarrow> nat gc_result" where
  "bind_reference d key =
     and_then (layout_field d key)
       (\<lambda>f. if fkind f \<noteq> FReference then Err Representation else Ok (foffset f))"

subsection \<open>The descriptor registry (descriptor.rs)\<close>

record descriptor_entry =
  entry_descriptor :: descriptor
  uses :: nat

record descriptors =
  dslots :: "descriptor_entry table"
  dactive :: "nat list"
  dtypes :: "(nat \<times> nat) list"

definition descriptors_default :: descriptors where
  "descriptors_default = \<lparr>dslots = table_default, dactive = [], dtypes = []\<rparr>"

definition reserve_id :: "reserve \<Rightarrow> descriptors \<Rightarrow> (descriptors \<times> nat) gc_result" where
  "reserve_id mem ds =
     (if \<not> mem 1 then Err Allocation
      else and_then (prepare mem (dslots ds)) (\<lambda>(t, i). Ok (ds\<lparr>dslots := t\<rparr>, i)))"

text \<open>The registry a failing \<open>reserve_id\<close> leaves: the table as the failing \<^verbatim>\<open>prepare\<close> left it.\<close>

definition reserve_id_failed :: "reserve \<Rightarrow> descriptors \<Rightarrow> descriptors" where
  "reserve_id_failed mem ds =
     (if \<not> mem 1 then ds else ds\<lparr>dslots := prepare_failed mem (dslots ds)\<rparr>)"

definition install :: "descriptor \<Rightarrow> descriptors \<Rightarrow> descriptors gc_result" where
  "install d ds =
     and_then (table_insert (desc_id d) \<lparr>entry_descriptor = d, uses = 0\<rparr> (dslots ds))
       (\<lambda>t. Ok (ds\<lparr>dactive := dactive ds @ [desc_id d], dslots := t\<rparr>))"

definition descriptors_get :: "nat \<Rightarrow> descriptors \<Rightarrow> descriptor gc_result" where
  "descriptors_get i ds =
     ok_or (Storage ''descriptor'') (map_option entry_descriptor (table_get i (dslots ds)))"

definition register :: "reserve \<Rightarrow> gc_type \<Rightarrow> descriptors \<Rightarrow> (descriptors \<times> descriptor) gc_result" where
  "register mem T ds =
     (case map_of (dtypes ds) (type_id T) of
        Some i \<Rightarrow> and_then (descriptors_get i ds) (\<lambda>d. Ok (ds, d))
      | None \<Rightarrow>
          if \<not> mem 1 then Err Allocation
          else and_then (reserve_id mem ds)
            (\<lambda>(ds, i). and_then (descriptor_new T i)
               (\<lambda>d. and_then (install d ds)
                  (\<lambda>ds. Ok (ds\<lparr>dtypes := (type_id T, i) # dtypes ds\<rparr>, d)))))"

definition register_dynamic ::
  "reserve \<Rightarrow> dynamic_shape \<Rightarrow> descriptors \<Rightarrow> (descriptors \<times> descriptor) gc_result" where
  "register_dynamic mem shape ds =
     and_then (reserve_id mem ds)
       (\<lambda>(ds, i). and_then (descriptor_dynamic i shape)
          (\<lambda>d. and_then (install d ds) (\<lambda>ds. Ok (ds, d))))"

text \<open>
  The registry after a registration that ends in \<^verbatim>\<open>Err\<close>. An identity that was reserved before the
  descriptor was refused stays prepared in the table.
\<close>

definition register_dynamic_failed :: "reserve \<Rightarrow> dynamic_shape \<Rightarrow> descriptors \<Rightarrow> descriptors" where
  "register_dynamic_failed mem shape ds =
     (case reserve_id mem ds of
        Ok (ds', i) \<Rightarrow> ds' | Err e \<Rightarrow> reserve_id_failed mem ds | Panic m \<Rightarrow> ds)"

definition register_failed :: "reserve \<Rightarrow> gc_type \<Rightarrow> descriptors \<Rightarrow> descriptors" where
  "register_failed mem T ds =
     (case map_of (dtypes ds) (type_id T) of
        Some i \<Rightarrow> ds
      | None \<Rightarrow>
          if \<not> mem 1 then ds
          else (case reserve_id mem ds of
                  Ok (ds', i) \<Rightarrow> ds' | Err e \<Rightarrow> reserve_id_failed mem ds | Panic m \<Rightarrow> ds))"

definition descriptors_retain :: "nat \<Rightarrow> descriptors \<Rightarrow> descriptors gc_result" where
  "descriptors_retain i ds =
     and_then (ok_or (Storage ''descriptor'') (table_get i (dslots ds)))
       (\<lambda>entry. and_then (ok_or (Limit ''descriptor uses'') (checked_add (uses entry) 1))
          (\<lambda>n. Ok (ds\<lparr>dslots := table_update i (\<lambda>e. e\<lparr>uses := n\<rparr>) (dslots ds)\<rparr>)))"

definition descriptors_release :: "nat \<Rightarrow> descriptors \<Rightarrow> descriptors gc_result" where
  "descriptors_release i ds =
     and_then (expect ''live metadata identity'' (table_get i (dslots ds)))
       (\<lambda>entry. and_then (expect ''descriptor use credit'' (checked_sub (uses entry) 1))
          (\<lambda>n. Ok (ds\<lparr>dslots := table_update i (\<lambda>e. e\<lparr>uses := n\<rparr>) (dslots ds)\<rparr>)))"

text \<open>\<open>strong\<close> is the strong count of each registered descriptor.\<close>

definition retire_unused :: "(nat \<Rightarrow> nat) \<Rightarrow> nat \<Rightarrow> descriptors \<Rightarrow> descriptors gc_result" where
  "retire_unused strong active_index ds =
     (if length (dactive ds) \<le> active_index then Panic ''index out of bounds''
      else let index = dactive ds ! active_index
           in and_then (expect ''live metadata identity'' (table_get index (dslots ds)))
                (\<lambda>entry.
                   if uses entry = 0 \<and> strong index = 1 then
                     Ok \<lparr>dslots = (case table_remove index (dslots ds) of
                                     None \<Rightarrow> dslots ds | Some (_, t) \<Rightarrow> t),
                         dactive = swap_remove active_index (dactive ds),
                         dtypes = (case descriptor_type (entry_descriptor entry) of
                                     None \<Rightarrow> dtypes ds
                                   | Some t \<Rightarrow> filter (\<lambda>p. fst p \<noteq> t) (dtypes ds))\<rparr>
                   else Ok ds))"

subsection \<open>Reference definitions\<close>

abbreviation fsize :: "field \<Rightarrow> nat" where "fsize f \<equiv> lsize (field_layout (fkind f))"
abbreviation falign :: "field \<Rightarrow> nat" where "falign f \<equiv> lalign (field_layout (fkind f))"

text \<open>Two byte ranges of a record do not overlap.\<close>

definition apart :: "field \<Rightarrow> field \<Rightarrow> bool" where
  "apart f g \<longleftrightarrow> foffset f + fsize f \<le> foffset g \<or> foffset g + fsize g \<le> foffset f"

definition registered :: "nat \<Rightarrow> descriptors \<Rightarrow> descriptor_entry option" where
  "registered i ds = table_get i (dslots ds)"

definition registry_inv :: "descriptors \<Rightarrow> bool" where
  "registry_inv ds \<longleftrightarrow>
     table_inv (dslots ds) \<and> distinct (dactive ds) \<and>
     (\<forall>i. i \<in> set (dactive ds) \<longleftrightarrow> registered i ds \<noteq> None) \<and>
     (\<forall>i e. registered i ds = Some e \<longrightarrow> desc_id (entry_descriptor e) = i) \<and>
     (\<forall>t i. map_of (dtypes ds) t = Some i \<longleftrightarrow>
        (\<exists>e. registered i ds = Some e \<and> descriptor_type (entry_descriptor e) = Some t))"

text \<open>The descriptor stage of the sweep, run without interruption: it visits the positions of
  \<^verbatim>\<open>active\<close> from the last to the first.\<close>

fun retire_descriptors :: "(nat \<Rightarrow> nat) \<Rightarrow> nat \<Rightarrow> descriptors \<Rightarrow> descriptors gc_result" where
  "retire_descriptors strong 0 ds = Ok ds"
| "retire_descriptors strong (Suc n) ds =
     and_then (retire_unused strong n ds) (retire_descriptors strong n)"

text \<open>Counting one more or one fewer user of a descriptor changes that count only.\<close>

definition recounted :: "nat \<Rightarrow> nat \<Rightarrow> descriptors \<Rightarrow> descriptors \<Rightarrow> bool" where
  "recounted i n ds ds' \<longleftrightarrow> registry_inv ds' \<and> dactive ds' = dactive ds \<and> dtypes ds' = dtypes ds \<and>
     (\<forall>j. registered j ds' = (if j = i then map_option (\<lambda>e. e\<lparr>uses := n\<rparr>) (registered j ds) else registered j ds))"

definition retirable :: "(nat \<Rightarrow> nat) \<Rightarrow> descriptors \<Rightarrow> nat \<Rightarrow> bool" where
  "retirable strong ds i \<longleftrightarrow> (\<exists>e. registered i ds = Some e \<and> uses e = 0) \<and> strong i = 1"

definition sample_builder :: layout_builder where
  "sample_builder = \<lparr>bidentity = 7, bfields = [FU8, FReference, FI128, FBool, FI32]\<rparr>"

definition sample_shape :: dynamic_shape where
  "sample_shape = \<lparr>sidentity = 7, slayout = \<lparr>lsize = 32, lalign = 16\<rparr>,
     sfields = [\<lparr>fkind = FU8, foffset = 28\<rparr>, \<lparr>fkind = FReference, foffset = 16\<rparr>,
       \<lparr>fkind = FI128, foffset = 0\<rparr>, \<lparr>fkind = FBool, foffset = 29\<rparr>, \<lparr>fkind = FI32, foffset = 24\<rparr>],
     references = [16]\<rparr>"

definition sample_key :: field_key where
  "sample_key = \<lparr>kidentity = 7, kindex = 1\<rparr>"

definition sample_type :: gc_type where
  "sample_type = \<lparr>type_id = 3, type_layout = \<lparr>lsize = 16, lalign = 8\<rparr>, type_kind = Resumable,
     type_state = \<lparr>lsize = 0, lalign = 1\<rparr>\<rparr>"

definition sample_registry :: descriptors where
  "sample_registry = (case register (\<lambda>_. True) sample_type descriptors_default of
     Ok (ds, d) \<Rightarrow> ds | _ \<Rightarrow> descriptors_default)"

section \<open>Packing the fields of a dynamic record\<close>

lemma falign_cases: "lalign (field_layout k) \<in> {1, 2, 4, 8, 16}" by (cases k) auto

lemma falign_pos [simp]: "0 < lalign (field_layout k)" by (cases k) auto

lemma fsize_pos [simp]: "0 < lsize (field_layout k)" by (cases k) auto

lemma falign_dvd_size: "lalign (field_layout k) dvd lsize (field_layout k)" by (cases k) auto

lemma falign_dvd: "lalign (field_layout j) \<le> lalign (field_layout k) \<Longrightarrow> lalign (field_layout j) dvd lalign (field_layout k)"
  by (cases j; cases k; simp)

lemma layout_extend_exact:
  assumes "layout_extend l (field_layout k) = Some (w, off)" "lalign (field_layout k) dvd lsize l"
  shows "off = lsize l" "lsize w = lsize l + lsize (field_layout k)"
    "lalign w = max (lalign l) (lalign (field_layout k))"
  using assms round_up_self [of "lalign (field_layout k)" "lsize l"]
  by (auto simp: layout_extend_def Let_def split: if_splits)

lemma place_fields_spec:
  assumes "place_fields order l fs = Ok (l', fs')" "distinct order" "set order \<subseteq> {..<length fs}"
    "sorted_wrt (\<lambda>i j. falign (fs ! j) \<le> falign (fs ! i)) order" "\<forall>i \<in> set order. falign (fs ! i) dvd lsize l"
  shows "map fkind fs' = map fkind fs" "lsize l' = lsize l + (\<Sum>i \<leftarrow> order. fsize (fs ! i))"
    "\<forall>i. i \<notin> set order \<longrightarrow> fs' ! i = fs ! i" "lalign l \<le> lalign l'"
    "\<forall>i \<in> set order. falign (fs ! i) dvd foffset (fs' ! i) \<and> lsize l \<le> foffset (fs' ! i) \<and>
       foffset (fs' ! i) + fsize (fs ! i) \<le> lsize l' \<and> falign (fs ! i) \<le> lalign l'"
    "\<forall>i \<in> set order. \<forall>j \<in> set order. i \<noteq> j \<longrightarrow> apart (fs' ! i) (fs' ! j)"
    "lalign l' = lalign l \<or> (\<exists>i \<in> set order. lalign l' = falign (fs ! i))"
    "\<forall>b. lsize l \<le> b \<and> b < lsize l' \<longrightarrow> (\<exists>i \<in> set order. foffset (fs' ! i) \<le> b \<and> b < foffset (fs' ! i) + fsize (fs ! i))"
proof -
  have "map fkind fs' = map fkind fs \<and> lsize l' = lsize l + (\<Sum>i \<leftarrow> order. fsize (fs ! i)) \<and>
    (\<forall>i. i \<notin> set order \<longrightarrow> fs' ! i = fs ! i) \<and> lalign l \<le> lalign l' \<and>
    (\<forall>i \<in> set order. falign (fs ! i) dvd foffset (fs' ! i) \<and> lsize l \<le> foffset (fs' ! i) \<and>
       foffset (fs' ! i) + fsize (fs ! i) \<le> lsize l' \<and> falign (fs ! i) \<le> lalign l') \<and>
    (\<forall>i \<in> set order. \<forall>j \<in> set order. i \<noteq> j \<longrightarrow> apart (fs' ! i) (fs' ! j)) \<and>
    (lalign l' = lalign l \<or> (\<exists>i \<in> set order. lalign l' = falign (fs ! i))) \<and>
    (\<forall>b. lsize l \<le> b \<and> b < lsize l' \<longrightarrow> (\<exists>i \<in> set order. foffset (fs' ! i) \<le> b \<and> b < foffset (fs' ! i) + fsize (fs ! i)))"
    using assms
  proof (induction order arbitrary: l fs)
    case Nil
    then show ?case by auto
  next
    case (Cons i order)
    note 2 = Cons.IH Cons.prems
    define k where "k = fkind (fs ! i)"
    from 2(2) obtain w off where e: "layout_extend l (field_layout k) = Some (w, off)"
      and p: "place_fields order w (fs[i := (fs ! i)\<lparr>foffset := off\<rparr>]) = Ok (l', fs')"
      by (auto simp: k_def)
    have i: "i < length fs" "i \<notin> set order" using 2 by auto
    have d: "lalign (field_layout k) dvd lsize l" using 2(6) by (simp add: k_def)
    note x = layout_extend_exact [OF e d]
    define gs where "gs = fs[i := (fs ! i)\<lparr>foffset := off\<rparr>]"
    have gs: "gs ! j = fs ! j" if "j \<noteq> i" for j using that by (simp add: gs_def)
    have gi: "gs ! i = (fs ! i)\<lparr>foffset := off\<rparr>" using i by (simp add: gs_def)
    have gk: "fkind (gs ! j) = fkind (fs ! j)" for j using gs gi by (cases "j = i") auto
    have len: "length gs = length fs" by (simp add: gs_def)
    have kinds: "map fkind gs = map fkind fs" using i by (simp add: gs_def map_update list_update_same_conv)
    have ad: "falign (fs ! j) dvd lsize w" if j: "j \<in> set order" for j
    proof -
      have "falign (fs ! j) dvd lalign (field_layout k)" using 2(5) j by (intro falign_dvd) (auto simp: k_def)
      then have "falign (fs ! j) dvd lsize (field_layout k)" using falign_dvd_size dvd_trans by blast
      moreover have "falign (fs ! j) dvd lsize l" using 2(6) j by simp
      ultimately show ?thesis by (simp add: x)
    qed
    have IH: "map fkind fs' = map fkind gs \<and> lsize l' = lsize w + (\<Sum>i \<leftarrow> order. fsize (gs ! i)) \<and>
      (\<forall>i. i \<notin> set order \<longrightarrow> fs' ! i = gs ! i) \<and> lalign w \<le> lalign l' \<and>
      (\<forall>i \<in> set order. falign (gs ! i) dvd foffset (fs' ! i) \<and> lsize w \<le> foffset (fs' ! i) \<and>
         foffset (fs' ! i) + fsize (gs ! i) \<le> lsize l' \<and> falign (gs ! i) \<le> lalign l') \<and>
      (\<forall>i \<in> set order. \<forall>j \<in> set order. i \<noteq> j \<longrightarrow> apart (fs' ! i) (fs' ! j)) \<and>
      (lalign l' = lalign w \<or> (\<exists>i \<in> set order. lalign l' = falign (gs ! i))) \<and>
      (\<forall>b. lsize w \<le> b \<and> b < lsize l' \<longrightarrow> (\<exists>i \<in> set order. foffset (fs' ! i) \<le> b \<and> b < foffset (fs' ! i) + fsize (gs ! i)))"
      by (rule Cons.IH) (use 2(3-6) p ad in \<open>auto simp: gs_def [symmetric] gk len\<close>)
    have fi: "fs' ! i = (fs ! i)\<lparr>foffset := off\<rparr>" using IH i(2) gi by simp
    have fk: "fkind (fs' ! j) = fkind (fs ! j)" if "j \<in> set order" for j
      using IH kinds 2(4) that by (metis insert_subset lessThan_iff list.simps(15) nth_map subsetD length_map)
    have ap: "apart (fs' ! i) (fs' ! j)" if "j \<in> set order" for j
      using IH that x fi by (auto simp: apart_def k_def)
    then have ap': "apart (fs' ! j) (fs' ! i)" if "j \<in> set order" for j using that by (auto simp: apart_def)
    show ?case
    proof (intro conjI)
      show "lsize l' = lsize l + (\<Sum>i \<leftarrow> i # order. fsize (fs ! i))" using IH x by (simp add: gk k_def)
      show "\<forall>a \<in> set (i # order). falign (fs ! a) dvd foffset (fs' ! a) \<and> lsize l \<le> foffset (fs' ! a) \<and>
         foffset (fs' ! a) + fsize (fs ! a) \<le> lsize l' \<and> falign (fs ! a) \<le> lalign l'"
        using IH x d fi by (auto simp: gk k_def)
      show "\<forall>a \<in> set (i # order). \<forall>j \<in> set (i # order). a \<noteq> j \<longrightarrow> apart (fs' ! a) (fs' ! j)"
        using IH ap ap' by auto
      show "lalign l' = lalign l \<or> (\<exists>a \<in> set (i # order). lalign l' = falign (fs ! a))"
        using IH x(3) by (auto simp: gk k_def max_def split: if_splits)
      show "\<forall>b. lsize l \<le> b \<and> b < lsize l' \<longrightarrow>
          (\<exists>a \<in> set (i # order). foffset (fs' ! a) \<le> b \<and> b < foffset (fs' ! a) + fsize (fs ! a))"
      proof (intro allI impI)
        fix b assume b: "lsize l \<le> b \<and> b < lsize l'"
        show "\<exists>a \<in> set (i # order). foffset (fs' ! a) \<le> b \<and> b < foffset (fs' ! a) + fsize (fs ! a)"
        proof (cases "b < lsize w")
          case True
          with b x fi show ?thesis by (intro bexI [of _ i]) (simp_all add: k_def)
        next
          case False
          with b IH have "\<exists>a \<in> set order. foffset (fs' ! a) \<le> b \<and> b < foffset (fs' ! a) + fsize (gs ! a)" by simp
          then show ?thesis by (auto simp: gk)
        qed
      qed
    qed (use IH kinds gs x(3) in auto)
  qed
  then show "map fkind fs' = map fkind fs" "lsize l' = lsize l + (\<Sum>i \<leftarrow> order. fsize (fs ! i))"
    "\<forall>i. i \<notin> set order \<longrightarrow> fs' ! i = fs ! i" "lalign l \<le> lalign l'"
    "\<forall>i \<in> set order. falign (fs ! i) dvd foffset (fs' ! i) \<and> lsize l \<le> foffset (fs' ! i) \<and>
       foffset (fs' ! i) + fsize (fs ! i) \<le> lsize l' \<and> falign (fs ! i) \<le> lalign l'"
    "\<forall>i \<in> set order. \<forall>j \<in> set order. i \<noteq> j \<longrightarrow> apart (fs' ! i) (fs' ! j)"
    "lalign l' = lalign l \<or> (\<exists>i \<in> set order. lalign l' = falign (fs ! i))"
    "\<forall>b. lsize l \<le> b \<and> b < lsize l' \<longrightarrow> (\<exists>i \<in> set order. foffset (fs' ! i) \<le> b \<and> b < foffset (fs' ! i) + fsize (fs ! i))"
    by blast+
qed

lemma packing_order_spec:
  "set (packing_order kinds) = {..<length kinds}" "distinct (packing_order kinds)"
  "sorted_wrt (\<lambda>i j. lalign (field_layout (kinds ! j)) \<le> lalign (field_layout (kinds ! i))) (packing_order kinds)"
proof -
  define key where "key = (\<lambda>index. (- int (lalign (field_layout (kinds ! index))), index))"
  have "sorted_wrt (\<lambda>i j. key i \<le> key j) (sort_key key [0..<length kinds])"
    using sorted_sort_key [of key "[0..<length kinds]"] by (simp add: sorted_map)
  then show "sorted_wrt (\<lambda>i j. lalign (field_layout (kinds ! j)) \<le> lalign (field_layout (kinds ! i))) (packing_order kinds)"
    unfolding packing_order_def key_def by (rule sorted_wrt_mono_rel [rotated]) (auto simp: less_eq_prod_def)
qed (auto simp: packing_order_def)

lemma round_up_least: "0 < a \<Longrightarrow> a dvd m \<Longrightarrow> n \<le> m \<Longrightarrow> round_up n a \<le> m"
proof -
  assume a: "0 < a" "a dvd m" "n \<le> m"
  then obtain k where k: "m = a * k" by auto
  have "round_up n a < n + a" "a dvd round_up n a" using round_up_spec a by auto
  then obtain j where j: "round_up n a = a * j" by auto
  have "a * j < a * (k + 1)" using \<open>round_up n a < n + a\<close> a(3) k j by (simp add: algebra_simps)
  then have "j \<le> k" by (simp only: mult_less_cancel1) simp
  then show ?thesis by (simp add: k j)
qed

lemma sum_packing: "(\<Sum>i \<leftarrow> packing_order kinds. f i) = (\<Sum>i \<leftarrow> [0..<length kinds]. f i :: nat)"
  by (simp add: interv_sum_list_conv_sum_set_nat sum_list_distinct_conv_sum_set packing_order_spec lessThan_atLeast0)

lemma shape_new_spec:
  assumes "shape_new mem b = Ok s"
  shows "map fkind (sfields s) = bfields b" "sidentity s = bidentity b"
    "references s = map foffset (filter (\<lambda>f. fkind f = FReference) (sfields s))"
    "\<forall>f \<in> set (sfields s). falign f dvd foffset f \<and> foffset f + fsize f \<le> lsize (slayout s) \<and>
       falign f dvd lalign (slayout s)"
    "\<forall>i < length (sfields s). \<forall>j < length (sfields s). i \<noteq> j \<longrightarrow> apart (sfields s ! i) (sfields s ! j)"
    "lsize (slayout s) = round_up (\<Sum>k \<leftarrow> bfields b. lsize (field_layout k)) (lalign (slayout s))"
    "lalign (slayout s) \<in> {1, 2, 4, 8, 16}"
    "\<forall>n < (\<Sum>k \<leftarrow> bfields b. lsize (field_layout k)). \<exists>f \<in> set (sfields s). foffset f \<le> n \<and> n < foffset f + fsize f"
proof -
  define fs where "fs = map (\<lambda>k. \<lparr>fkind = k, foffset = 0\<rparr>) (bfields b)"
  from assms obtain l gs where p: "place_fields (packing_order (bfields b)) \<lparr>lsize = 0, lalign = 1\<rparr> fs = Ok (l, gs)"
    and s: "s = \<lparr>sidentity = bidentity b, slayout = pad_to_align l, sfields = gs,
      references = map foffset (filter (\<lambda>f. fkind f = FReference) gs)\<rparr>"
    by (auto simp: shape_new_def Let_def fs_def split: if_splits)
  have fk: "fkind (fs ! i) = bfields b ! i" if "i < length (bfields b)" for i using that by (simp add: fs_def)
  have srt: "sorted_wrt (\<lambda>i j. falign (fs ! j) \<le> falign (fs ! i)) (packing_order (bfields b))"
    using packing_order_spec(3) [of "bfields b"]
    by (rule sorted_wrt_mono_rel [rotated]) (auto simp: packing_order_spec fk)
  have sub: "set (packing_order (bfields b)) \<subseteq> {..<length fs}"
    by (simp add: packing_order_spec fs_def)
  have "\<forall>i \<in> set (packing_order (bfields b)). falign (fs ! i) dvd lsize \<lparr>lsize = 0, lalign = 1\<rparr>" by simp
  note spec = place_fields_spec [OF p packing_order_spec(2) sub srt this]
  have kinds: "map fkind gs = bfields b" using spec(1) by (simp add: fs_def comp_def)
  then have len: "length gs = length (bfields b)" by (metis length_map)
  have gk: "fkind (gs ! i) = bfields b ! i" if "i < length (bfields b)" for i using kinds len that by (metis nth_map)
  have al: "lalign l \<in> {1, 2, 4, 8, 16}"
    using spec(7)
  proof (elim disjE bexE)
    fix i assume "lalign l = falign (fs ! i)"
    then show ?thesis using falign_cases [of "fkind (fs ! i)"] by simp
  qed (simp_all)
  then have pos: "0 < lalign l" by auto
  have sz: "lsize l \<le> lsize (slayout s)" using round_up_spec(1) [OF pos] by (simp add: s pad_to_align_def)
  have "(\<Sum>i \<leftarrow> [0..<length (bfields b)]. fsize (fs ! i)) = (\<Sum>k \<leftarrow> bfields b. lsize (field_layout k))"
    by (rule arg_cong [where f = sum_list], rule nth_equalityI) (auto simp: fk)
  then have total: "lsize l = (\<Sum>k \<leftarrow> bfields b. lsize (field_layout k))" using spec(2) by (simp add: sum_packing)
  show "\<forall>n < (\<Sum>k \<leftarrow> bfields b. lsize (field_layout k)). \<exists>f \<in> set (sfields s). foffset f \<le> n \<and> n < foffset f + fsize f"
  proof (intro allI impI)
    fix n assume "n < (\<Sum>k \<leftarrow> bfields b. lsize (field_layout k))"
    with spec(8) total obtain i where "i < length (bfields b)" "foffset (gs ! i) \<le> n" "n < foffset (gs ! i) + fsize (fs ! i)"
      by (auto simp: packing_order_spec)
    then show "\<exists>f \<in> set (sfields s). foffset f \<le> n \<and> n < foffset f + fsize f"
      by (intro bexI [of _ "gs ! i"]) (simp_all add: s fk gk len)
  qed
  from total show "lsize (slayout s) = round_up (\<Sum>k \<leftarrow> bfields b. lsize (field_layout k)) (lalign (slayout s))"
    by (simp add: s pad_to_align_def)
  show "lalign (slayout s) \<in> {1, 2, 4, 8, 16}" using al by (simp add: s pad_to_align_def)
  show "\<forall>f \<in> set (sfields s). falign f dvd foffset f \<and> foffset f + fsize f \<le> lsize (slayout s) \<and>
      falign f dvd lalign (slayout s)"
  proof
    fix f assume "f \<in> set (sfields s)"
    then obtain i where i: "i < length (bfields b)" "f = gs ! i" by (auto simp: s in_set_conv_nth len)
    then have "falign f dvd foffset f \<and> foffset f + fsize f \<le> lsize l \<and> falign f \<le> lalign l"
      using spec(5) by (simp add: packing_order_spec fk gk)
    moreover have "falign f dvd lalign l" if "falign f \<le> lalign l"
      using that al falign_cases [of "fkind f"] by auto
    ultimately show "falign f dvd foffset f \<and> foffset f + fsize f \<le> lsize (slayout s) \<and>
      falign f dvd lalign (slayout s)" using sz by (auto simp: s pad_to_align_def)
  qed
  show "\<forall>i < length (sfields s). \<forall>j < length (sfields s). i \<noteq> j \<longrightarrow> apart (sfields s ! i) (sfields s ! j)"
    using spec(6) by (auto simp: s packing_order_spec len)
  show "map fkind (sfields s) = bfields b" "sidentity s = bidentity b"
    "references s = map foffset (filter (\<lambda>f. fkind f = FReference) (sfields s))"
    using kinds by (simp_all add: s)
qed

section \<open>The registry\<close>

text \<open>What a refused registration leaves: the same entries, in a well-formed registry.\<close>

definition registry_refused :: "descriptors \<Rightarrow> descriptors \<Rightarrow> bool" where
  "registry_refused ds ds' \<longleftrightarrow> registry_inv ds' \<and> dactive ds' = dactive ds \<and> dtypes ds' = dtypes ds \<and>
     (\<forall>j. registered j ds' = registered j ds)"

lemma refused_refl: "registry_inv ds \<Longrightarrow> registry_refused ds ds"
  by (simp add: registry_refused_def)

lemma registry_empty: "registry_inv descriptors_default"
  using directory.inv_empty by (auto simp: registry_inv_def descriptors_default_def registered_def)

lemma prepared_registry:
  assumes "registry_inv ds" "reserve_id mem ds = Ok (ds', i)"
  shows "registry_inv ds'" "registered i ds' = None" "vacant i (dslots ds')" "\<And>j. registered j ds' = registered j ds"
    "dtypes ds' = dtypes ds" "dactive ds' = dactive ds" "i < 2 ^ 32"
proof -
  from assms(2) obtain t where t: "prepare mem (dslots ds) = Ok (t, i)" and ds': "ds' = ds\<lparr>dslots := t\<rparr>"
    by (auto simp: reserve_id_def split: if_splits)
  from prepare_ok [OF _ t] assms(1)
  have p: "table_inv t" "vacant i t" "\<And>j. table_get j t = table_get j (dslots ds)" "table_get i (dslots ds) = None" "i < 2 ^ 32"
    by (auto simp: registry_inv_def)
  then have r: "registered j ds' = registered j ds" for j by (simp add: registered_def ds')
  show "registry_inv ds'" using assms(1) p(1) r by (auto simp: registry_inv_def ds')
  show "registered i ds' = None" "vacant i (dslots ds')" "\<And>j. registered j ds' = registered j ds"
    "dtypes ds' = dtypes ds" "dactive ds' = dactive ds" "i < 2 ^ 32"
    using p r by (auto simp: registered_def ds')
qed

lemma reserve_id_failed_ok: "registry_inv ds \<Longrightarrow> registry_refused ds (reserve_id_failed mem ds)"
  using prepare_failed_ok [of "dslots ds" mem]
  by (auto simp: registry_refused_def reserve_id_failed_def same_entries_def registry_inv_def registered_def)

lemma reserve_id_refused:
  "registry_inv ds \<Longrightarrow> reserve_id mem ds = Ok (ds', i) \<Longrightarrow> registry_refused ds ds'"
  using prepared_registry [of ds mem ds' i] by (simp add: registry_refused_def)

lemma register_dynamic_failed_ok: "registry_inv ds \<Longrightarrow> registry_refused ds (register_dynamic_failed mem shape ds)"
  by (auto simp: register_dynamic_failed_def refused_refl reserve_id_failed_ok reserve_id_refused split: outcome.splits)

lemma register_failed_ok: "registry_inv ds \<Longrightarrow> registry_refused ds (register_failed mem T ds)"
  by (auto simp: register_failed_def refused_refl reserve_id_failed_ok reserve_id_refused split: outcome.splits option.splits)

lemma installed:
  assumes "registry_inv ds" "vacant (desc_id d) (dslots ds)" "registered (desc_id d) ds = None"
  shows "\<exists>ds'. install d ds = Ok ds' \<and> table_inv (dslots ds') \<and> dactive ds' = dactive ds @ [desc_id d] \<and>
    dtypes ds' = dtypes ds \<and>
    (\<forall>j. registered j ds' = (if j = desc_id d then Some \<lparr>entry_descriptor = d, uses = 0\<rparr> else registered j ds))"
  using insert_ok [OF _ assms(2), of "\<lparr>entry_descriptor = d, uses = 0\<rparr>"] assms(1)
  by (auto simp: install_def registry_inv_def registered_def)

lemma descriptor_new_fields:
  "descriptor_new T i = Ok d \<Longrightarrow> desc_id d = i \<and> descriptor_type d = Some (type_id T)"
  by (auto simp: descriptor_new_def descriptor_type_def split: if_splits)

lemma descriptor_dynamic_fields:
  "descriptor_dynamic i s = Ok d \<Longrightarrow> desc_id d = i \<and> descriptor_type d = None \<and> descriptor_shape d = Ok s"
  by (auto simp: descriptor_dynamic_def descriptor_type_def descriptor_shape_def)

lemma register_known:
  assumes "registry_inv ds" "map_of (dtypes ds) (type_id T) = Some i"
  shows "\<exists>e. registered i ds = Some e \<and> register mem T ds = Ok (ds, entry_descriptor e) \<and>
    descriptor_type (entry_descriptor e) = Some (type_id T)"
proof -
  from assms obtain e where "registered i ds = Some e" "descriptor_type (entry_descriptor e) = Some (type_id T)"
    unfolding registry_inv_def by blast
  with assms(2) show ?thesis by (auto simp: register_def descriptors_get_def registered_def)
qed

lemma register_new:
  assumes inv: "registry_inv ds" and new: "map_of (dtypes ds) (type_id T) = None"
    and reg: "register mem T ds = Ok (ds', d)"
  shows "registry_inv ds' \<and> registered (desc_id d) ds = None \<and> descriptor_type d = Some (type_id T) \<and>
    map_of (dtypes ds') (type_id T) = Some (desc_id d) \<and>
    (\<forall>j. registered j ds' = (if j = desc_id d then Some \<lparr>entry_descriptor = d, uses = 0\<rparr> else registered j ds))"
proof -
  from reg new obtain ds1 i where r: "reserve_id mem ds = Ok (ds1, i)" and d: "descriptor_new T i = Ok d"
    and k: "and_then (install d ds1) (\<lambda>ds. Ok (ds\<lparr>dtypes := (type_id T, i) # dtypes ds\<rparr>, d)) = Ok (ds', d)"
    by (auto simp: register_def split: if_splits)
  note p = prepared_registry [OF inv r] and f = descriptor_new_fields [OF d]
  from installed [OF p(1), of d] p(2,3) f k
  have q: "table_inv (dslots ds')" "dactive ds' = dactive ds @ [i]" "dtypes ds' = (type_id T, i) # dtypes ds"
    "\<And>j. registered j ds' = (if j = i then Some \<lparr>entry_descriptor = d, uses = 0\<rparr> else registered j ds)"
    by (auto simp: p(4) [unfolded registered_def] p(5,6) registered_def)
  have none: "registered i ds = None" using p(2,4) by simp
  have "i \<notin> set (dactive ds)" using inv none by (auto simp: registry_inv_def)
  moreover have "map_of (dtypes ds') t = Some j \<longleftrightarrow>
      (\<exists>e. registered j ds' = Some e \<and> descriptor_type (entry_descriptor e) = Some t)" for t j
  proof -
    have "map_of (dtypes ds) t = Some j \<longleftrightarrow>
        (\<exists>e. registered j ds = Some e \<and> descriptor_type (entry_descriptor e) = Some t)"
      using inv by (simp add: registry_inv_def)
    then show ?thesis using new f none by (cases "j = i"; cases "t = type_id T") (auto simp: q(3,4))
  qed
  ultimately have "registry_inv ds'" using inv q f unfolding registry_inv_def by auto
  with q f none show ?thesis by auto
qed

lemma register_dynamic_ok:
  assumes inv: "registry_inv ds" and reg: "register_dynamic mem s ds = Ok (ds', d)"
  shows "registry_inv ds' \<and> registered (desc_id d) ds = None \<and> descriptor_shape d = Ok s \<and>
    (\<forall>j. registered j ds' = (if j = desc_id d then Some \<lparr>entry_descriptor = d, uses = 0\<rparr> else registered j ds))"
proof -
  from reg obtain ds1 i where r: "reserve_id mem ds = Ok (ds1, i)" and d: "descriptor_dynamic i s = Ok d"
    and k: "install d ds1 = Ok ds'"
    by (auto simp: register_dynamic_def split: if_splits)
  note p = prepared_registry [OF inv r] and f = descriptor_dynamic_fields [OF d]
  from installed [OF p(1), of d] p(2,3) f k
  have q: "table_inv (dslots ds')" "dactive ds' = dactive ds @ [i]" "dtypes ds' = dtypes ds"
    "\<And>j. registered j ds' = (if j = i then Some \<lparr>entry_descriptor = d, uses = 0\<rparr> else registered j ds)"
    by (auto simp: p(4-6))
  have none: "registered i ds = None" using p(2,4) by simp
  have "i \<notin> set (dactive ds)" using inv none by (auto simp: registry_inv_def)
  moreover have "map_of (dtypes ds') t = Some j \<longleftrightarrow>
      (\<exists>e. registered j ds' = Some e \<and> descriptor_type (entry_descriptor e) = Some t)" for t j
    using inv f none unfolding registry_inv_def q(3,4) by (cases "j = i") auto
  ultimately have "registry_inv ds'" using inv q f unfolding registry_inv_def by auto
  with q f none show ?thesis by auto
qed

lemma recount:
  assumes "registry_inv ds"
  shows "recounted i n ds (ds\<lparr>dslots := table_update i (\<lambda>e. e\<lparr>uses := n\<rparr>) (dslots ds)\<rparr>)"
proof -
  let ?ds = "ds\<lparr>dslots := table_update i (\<lambda>e. e\<lparr>uses := n\<rparr>) (dslots ds)\<rparr>"
  have u: "table_inv (dslots ?ds)"
    "registered j ?ds = (if j = i then map_option (\<lambda>e. e\<lparr>uses := n\<rparr>) (registered j ds) else registered j ds)" for j
    using update_ok [of "dslots ds" i "\<lambda>e. e\<lparr>uses := n\<rparr>"] assms by (auto simp: registry_inv_def registered_def)
  have "(\<exists>e. registered j ?ds = Some e \<and> descriptor_type (entry_descriptor e) = Some t) \<longleftrightarrow>
      (\<exists>e. registered j ds = Some e \<and> descriptor_type (entry_descriptor e) = Some t)"
    for j t unfolding u(2) by auto
  moreover have "registered j ?ds \<noteq> None \<longleftrightarrow> registered j ds \<noteq> None" for j unfolding u(2) by auto
  moreover have "\<forall>j e. registered j ?ds = Some e \<longrightarrow> desc_id (entry_descriptor e) = j"
    unfolding u(2) using assms by (auto simp: registry_inv_def split: if_splits)
  ultimately have "registry_inv ?ds" using assms u(1) unfolding registry_inv_def by simp
  with u(2) show ?thesis by (simp add: recounted_def)
qed

lemma retain_ok:
  assumes "registry_inv ds" "registered i ds = Some e"
  shows "descriptors_retain i ds = (if uses e < usize_max
     then Ok (ds\<lparr>dslots := table_update i (\<lambda>x. x\<lparr>uses := uses e + 1\<rparr>) (dslots ds)\<rparr>)
     else Err (Limit ''descriptor uses''))"
  using assms by (auto simp: descriptors_retain_def registered_def checked_add_def)

lemma release_ok:
  assumes "registry_inv ds" "registered i ds = Some e" "0 < uses e"
  shows "descriptors_release i ds =
    Ok (ds\<lparr>dslots := table_update i (\<lambda>x. x\<lparr>uses := uses e - 1\<rparr>) (dslots ds)\<rparr>)"
  using assms by (auto simp: descriptors_release_def registered_def checked_sub_def)

lemma retain_recounts:
  assumes "registry_inv ds" "descriptors_retain i ds = Ok ds'"
  shows "\<exists>e. registered i ds = Some e \<and> recounted i (uses e + 1) ds ds'"
  using assms recount [OF assms(1)] by (auto simp: descriptors_retain_def registered_def checked_add_eq_Some)

lemma release_recounts:
  assumes "registry_inv ds" "descriptors_release i ds = Ok ds'"
  shows "\<exists>e. registered i ds = Some e \<and> 0 < uses e \<and> recounted i (uses e - 1) ds ds'"
  using assms recount [OF assms(1)] by (auto simp: descriptors_release_def registered_def checked_sub_eq_Some)

lemma map_of_filter_key: "map_of (filter (\<lambda>p. fst p \<noteq> t) xs) u = (if u = t then None else map_of xs u)"
  by (induction xs) auto

lemma retire_one:
  assumes inv: "registry_inv ds" and n: "n < length (dactive ds)"
  defines "i \<equiv> dactive ds ! n"
  shows "\<exists>ds'. retire_unused strong n ds = Ok ds' \<and> registry_inv ds' \<and>
    (\<forall>j. registered j ds' = (if j = i \<and> retirable strong ds i then None else registered j ds)) \<and>
    (\<forall>m < n. dactive ds' ! m = dactive ds ! m) \<and> n \<le> length (dactive ds') \<and>
    set (dactive ds) - {i} \<subseteq> set (dactive ds')"
proof -
  have "i \<in> set (dactive ds)" using n by (simp add: i_def)
  then obtain e where e: "registered i ds = Some e" using inv by (auto simp: registry_inv_def)
  show ?thesis
  proof (cases "uses e = 0 \<and> strong i = 1")
    case False
    then show ?thesis using e n inv by (auto simp: retire_unused_def registered_def retirable_def i_def Let_def)
  next
    case True
    have get: "table_get i (dslots ds) = Some e" using e by (simp add: registered_def)
    have "table_inv (dslots ds)" using inv by (simp add: registry_inv_def)
    from directory.rem_law [OF this get]
    obtain t where rem: "table_remove i (dslots ds) = Some (e, t)" and t: "table_inv t"
      "\<And>j. table_get j t = (if j = i then None else table_get j (dslots ds))" by auto
    define ty where "ty = (case descriptor_type (entry_descriptor e) of None \<Rightarrow> dtypes ds
      | Some t \<Rightarrow> filter (\<lambda>p. fst p \<noteq> t) (dtypes ds))"
    define ds' where "ds' = \<lparr>dslots = t, dactive = swap_remove n (dactive ds), dtypes = ty\<rparr>"
    have ret: "retire_unused strong n ds = Ok ds'"
      using True n get rem by (simp add: retire_unused_def i_def ds'_def ty_def)
    have r: "registered j ds' = (if j = i then None else registered j ds)" for j
      by (simp add: registered_def ds'_def t)
    have dist: "distinct (dactive ds)" using inv by (simp add: registry_inv_def)
    note sw = swap_remove_spec [OF n]
    have mem: "\<forall>j. j \<in> set (dactive ds') \<longleftrightarrow> registered j ds' \<noteq> None"
      using inv sw(4) [OF dist] r by (auto simp: ds'_def registry_inv_def i_def [symmetric])
    have ty: "map_of ty u = (if descriptor_type (entry_descriptor e) = Some u then None else map_of (dtypes ds) u)" for u
      by (cases "descriptor_type (entry_descriptor e)") (auto simp: ty_def map_of_filter_key)
    have uniq: "\<And>u j. map_of (dtypes ds) u = Some j \<longleftrightarrow>
        (\<exists>e. registered j ds = Some e \<and> descriptor_type (entry_descriptor e) = Some u)"
      using inv by (simp add: registry_inv_def)
    have map: "map_of (dtypes ds') u = Some j \<longleftrightarrow>
        (\<exists>e. registered j ds' = Some e \<and> descriptor_type (entry_descriptor e) = Some u)" for u j
    proof (cases "descriptor_type (entry_descriptor e) = Some u")
      case True
      then have "map_of (dtypes ds) u = Some i" using uniq e by blast
      then have "\<not> (\<exists>e. registered j ds = Some e \<and> descriptor_type (entry_descriptor e) = Some u)" if "j \<noteq> i"
        using uniq [of u j] that by simp
      then show ?thesis using True ty [of u] r [of j] by (auto simp: ds'_def)
    next
      case False
      then show ?thesis using uniq [of u j] ty [of u] r [of j] e by (auto simp: ds'_def)
    qed
    have "registry_inv ds'" using inv t(1) mem map sw(3) [OF dist] r
      unfolding registry_inv_def by (simp add: ds'_def)
    moreover have "retirable strong ds i" using True e by (auto simp: retirable_def)
    ultimately show ?thesis using ret r sw(1,2) sw(4) [OF dist] n by (auto simp: ds'_def i_def)
  qed
qed

text \<open>Walking the active list backwards reaches every descriptor exactly once, although each
  removal moves the last entry into the vacated position.\<close>

lemma retire_descriptors_spec:
  assumes "registry_inv ds" "n \<le> length (dactive ds)"
  shows "\<exists>ds'. retire_descriptors strong n ds = Ok ds' \<and> registry_inv ds' \<and>
    (\<forall>j. registered j ds' = (if j \<in> set (take n (dactive ds)) \<and> retirable strong ds j then None else registered j ds))"
  using assms
proof (induction n arbitrary: ds)
  case (Suc n)
  have n: "n < length (dactive ds)" using Suc.prems by simp
  define i where "i = dactive ds ! n"
  from retire_one [OF Suc.prems(1) n, of strong]
  obtain ds1 where d1: "retire_unused strong n ds = Ok ds1" "registry_inv ds1"
    "\<And>j. registered j ds1 = (if j = i \<and> retirable strong ds i then None else registered j ds)"
    "\<And>m. m < n \<Longrightarrow> dactive ds1 ! m = dactive ds ! m" "n \<le> length (dactive ds1)" by (auto simp: i_def)
  from Suc.IH [OF d1(2,5)] obtain ds2 where d2: "retire_descriptors strong n ds1 = Ok ds2" "registry_inv ds2"
    "\<And>j. registered j ds2 = (if j \<in> set (take n (dactive ds1)) \<and> retirable strong ds1 j then None else registered j ds1)"
    by auto
  have take: "take n (dactive ds1) = take n (dactive ds)"
    using n d1(4,5) by (intro nth_equalityI) auto
  have "i \<notin> set (take n (dactive ds))"
    using Suc.prems(1) n unfolding i_def registry_inv_def
    by (metis distinct_take in_set_conv_nth length_take less_irrefl min.absorb2 nth_eq_iff_index_eq nth_take order_less_trans less_imp_le)
  moreover have "retirable strong ds1 j \<longleftrightarrow> retirable strong ds j" if "j \<noteq> i" for j
    using that by (simp add: retirable_def d1(3))
  moreover have "set (take (Suc n) (dactive ds)) = insert i (set (take n (dactive ds)))"
    using n by (simp add: take_Suc_conv_app_nth i_def)
  ultimately have "registered j ds2 = (if j \<in> set (take (Suc n) (dactive ds)) \<and> retirable strong ds j then None
      else registered j ds)" for j
    by (cases "j = i") (simp_all add: d2(3) take d1(3))
  then show ?case using d1(1) d2(1,2) by auto
qed simp

section \<open>Properties\<close>

lemma sample_order: "packing_order [FU8, FReference, FI128, FBool, FI32] = [2, 1, 4, 0, 3]"
  by (simp add: packing_order_def upt_rec less_eq_prod_def)

lemma sample_shape_new: "shape_new (\<lambda>_. True) sample_builder = Ok sample_shape"
  by (simp add: shape_new_def sample_builder_def sample_order sample_shape_def layout_extend_def round_up_def
      isize_max_def pad_to_align_def)

text \<open>
  (C40) The layout computed for a dynamic record keeps the declared fields in their logical
  order, puts every field at an offset its alignment divides, inside the record and apart from
  every other field, and lists exactly the offsets of the reference fields. The fields are
  packed without padding between them: every byte below the sum of the field sizes belongs to a
  field, so that padding is at the end only, where the size is rounded up to the record's
  alignment.
\<close>

theorem dynamic_layout_packed:
  assumes "shape_new mem b = Ok s"
  shows "map fkind (sfields s) = bfields b
    \<and> (\<forall>f \<in> set (sfields s). falign f dvd foffset f \<and> foffset f + fsize f \<le> lsize (slayout s))
    \<and> (\<forall>i < length (sfields s). \<forall>j < length (sfields s). i \<noteq> j \<longrightarrow> apart (sfields s ! i) (sfields s ! j))
    \<and> references s = map foffset (filter (\<lambda>f. fkind f = FReference) (sfields s))
    \<and> lsize (slayout s) = round_up (\<Sum>k \<leftarrow> bfields b. lsize (field_layout k)) (lalign (slayout s))
    \<and> (\<forall>n < (\<Sum>k \<leftarrow> bfields b. lsize (field_layout k)). \<exists>f \<in> set (sfields s). foffset f \<le> n \<and> n < foffset f + fsize f)"
  using shape_new_spec [OF assms] by blast

theorem dynamic_layout_packed_witness:
  "lsize (slayout sample_shape) = round_up 30 (lalign (slayout sample_shape))
   \<and> references sample_shape = map foffset (filter (\<lambda>f. fkind f = FReference) (sfields sample_shape))
   \<and> (\<exists>f \<in> set (sfields sample_shape). foffset f \<le> 29 \<and> 29 < foffset f + fsize f)"
proof -
  have "(\<Sum>k \<leftarrow> bfields sample_builder. lsize (field_layout k)) = 30" by code_simp
  with dynamic_layout_packed [OF sample_shape_new] show ?thesis by simp
qed

text \<open>
  A key binds the field it was declared for: after further fields are added and the
  layout is registered, the key of a scalar field yields the offset of a field of its
  kind at the declared position, and is refused for every other scalar type, as a reference and
  by every layout of another builder.
\<close>

lemma field_type_of_eq [simp]: "field_type_of v = field_type_of w \<longleftrightarrow> v = w" "field_type_of v \<noteq> FReference"
  by (cases v; cases w; simp) (cases v; simp)

theorem field_key_binding:
  assumes "builder_push (field_type_of v) b = (b1, key)" "bidentity b2 = bidentity b1" "bfields b2 = bfields b1 @ others"
    "shape_new mem b2 = Ok s" "descriptor_dynamic i s = Ok d"
  shows "bind_scalar v d key = Ok (foffset (sfields s ! length (bfields b)))
    \<and> fkind (sfields s ! length (bfields b)) = field_type_of v
    \<and> (\<forall>w. w \<noteq> v \<longrightarrow> bind_scalar w d key = Err Representation) \<and> bind_reference d key = Err Representation
    \<and> (\<forall>mem' b' s' i' d'. bidentity b' \<noteq> bidentity b \<longrightarrow> shape_new mem' b' = Ok s' \<longrightarrow>
         descriptor_dynamic i' s' = Ok d' \<longrightarrow> bind_scalar v d' key = Err Representation)"
proof -
  note s = shape_new_spec(1,2) [OF assms(4)] and d = descriptor_dynamic_fields [OF assms(5)]
  have n: "length (bfields b) < length (sfields s)"
  proof -
    have "length (sfields s) = length (bfields b2)" using s(1) by (metis length_map)
    then show ?thesis using assms(1,3) by (auto simp: builder_push_def)
  qed
  have k: "fkind (sfields s ! length (bfields b)) = field_type_of v"
  proof -
    have "bfields b2 ! length (bfields b) = field_type_of v" using assms(1,3) by (auto simp: builder_push_def nth_append)
    then show ?thesis using s(1) n by (metis nth_map)
  qed
  have key: "kidentity key = bidentity b" "kindex key = length (bfields b)" "bidentity b1 = bidentity b"
    using assms(1) by (auto simp: builder_push_def)
  have f: "layout_field d key = Ok (sfields s ! length (bfields b))"
    using d s(2) key n assms(2) by (simp add: layout_field_def)
  have "bind_scalar v d' key = Err Representation" if "bidentity b' \<noteq> bidentity b"
    "shape_new mem' b' = Ok s'" "descriptor_dynamic i' s' = Ok d'" for mem' b' s' i' d'
    using that key shape_new_spec(2) [OF that(2)] descriptor_dynamic_fields [OF that(3)]
    by (simp add: bind_scalar_def layout_field_def)
  then show ?thesis using f k by (auto simp: bind_scalar_def bind_reference_def)
qed

theorem field_key_binding_witness:
  "\<exists>d. descriptor_dynamic 0 sample_shape = Ok d \<and> bind_scalar VU8 d \<lparr>kidentity = 7, kindex = 0\<rparr> = Ok 28
     \<and> bind_scalar VU64 d \<lparr>kidentity = 7, kindex = 0\<rparr> = Err Representation"
proof -
  obtain d where d: "descriptor_dynamic 0 sample_shape = Ok d"
    by (auto simp: descriptor_dynamic_def sample_shape_def layout_extend_def header_layout_def round_up_def isize_max_def)
  have p: "builder_push (field_type_of VU8) (builder_new 7) = (\<lparr>bidentity = 7, bfields = [FU8]\<rparr>, \<lparr>kidentity = 7, kindex = 0\<rparr>)"
    by (simp add: builder_push_def builder_new_def)
  have "bidentity sample_builder = 7" "bfields sample_builder = [FU8] @ [FReference, FI128, FBool, FI32]"
    "bfields (builder_new 7) = []" "foffset (sfields sample_shape ! 0) = 28" by code_simp+
  with field_key_binding [OF p _ _ sample_shape_new d] d show ?thesis by auto
qed

text \<open>
  Registering a Rust type twice yields one descriptor: registration keeps the registry
  well-formed, gives a fresh identity to a new type without touching the other entries, and
  every later registration of the same type returns the same descriptor and changes nothing.
\<close>

theorem register_idempotent:
  assumes "registry_inv ds" "register mem T ds = Ok (ds', d)"
  shows "registry_inv ds' \<and> descriptors_get (desc_id d) ds' = Ok d \<and> descriptor_type d = Some (type_id T)
    \<and> (\<forall>j. registered j ds \<noteq> None \<longrightarrow> registered j ds' = registered j ds)
    \<and> (\<forall>mem'. register mem' T ds' = Ok (ds', d))"
proof (cases "map_of (dtypes ds) (type_id T)")
  case (Some i)
  from register_known [OF assms(1) Some, of mem] assms(2) obtain e where e: "registered i ds = Some e"
    "ds' = ds" "d = entry_descriptor e" "descriptor_type d = Some (type_id T)" by force
  moreover have "desc_id d = i" using e assms(1) by (auto simp: registry_inv_def)
  ultimately show ?thesis using assms(1) register_known [OF assms(1) Some]
    by (auto simp: descriptors_get_def registered_def)
next
  case None
  note new = register_new [OF assms(1) None assms(2)]
  from new register_known [of ds' T "desc_id d"] have "register mem' T ds' = Ok (ds', d)" for mem'
    by (metis descriptor_entry.select_convs(1) option.inject)
  with new show ?thesis by (auto simp: descriptors_get_def registered_def)
qed

lemma sample_prepare: "prepare (\<lambda>_. True) (table_default :: descriptor_entry table) = Ok (Table [None] [] (replicate 4 0) 0 0, 0)"
  by code_simp

lemma sample_registered:
  "\<exists>d. register (\<lambda>_. True) sample_type descriptors_default = Ok (sample_registry, d) \<and> desc_id d = 0 \<and> desc_kind d = Resumable
     \<and> registered 0 sample_registry = Some \<lparr>entry_descriptor = d, uses = 0\<rparr>"
  by (auto simp: sample_registry_def register_def reserve_id_def descriptors_default_def sample_prepare
      descriptor_new_def sample_type_def exceeds_bound_def layout_extend_def header_layout_def round_up_def
      isize_max_def install_def registered_def table_insert.simps table_get.simps)

theorem register_idempotent_witness:
  "\<exists>d. register (\<lambda>_. True) sample_type descriptors_default = Ok (sample_registry, d)
     \<and> register (\<lambda>_. False) sample_type sample_registry = Ok (sample_registry, d)
     \<and> registry_inv sample_registry"
  using sample_registered register_idempotent [OF registry_empty, of "\<lambda>_. True" sample_type sample_registry] by blast

text \<open>
  The descriptor stage of the sweep retires exactly the descriptors that no object uses
  and nobody else holds, keeps all others with their use counts, and never panics, although
  removal by swapping reorders the list it walks.
\<close>

theorem descriptor_sweep_exact:
  assumes "registry_inv ds"
  shows "\<exists>ds'. retire_descriptors strong (length (dactive ds)) ds = Ok ds' \<and> registry_inv ds' \<and>
    (\<forall>j. registered j ds' = (if retirable strong ds j then None else registered j ds))"
proof -
  have "retirable strong ds j \<Longrightarrow> j \<in> set (dactive ds)" for j
    using assms by (auto simp: retirable_def registry_inv_def)
  with retire_descriptors_spec [OF assms order_refl, of strong] show ?thesis by auto
qed

lemma sample_registry_inv: "registry_inv sample_registry"
  using sample_registered register_known register_new [OF registry_empty, of sample_type "\<lambda>_. True" sample_registry]
  by (auto simp: descriptors_default_def)

theorem descriptor_sweep_exact_witness:
  "\<exists>ds'. retire_descriptors (\<lambda>_. 1) (length (dactive sample_registry)) sample_registry = Ok ds' \<and> registered 0 ds' = None
     \<and> registered 0 sample_registry \<noteq> None"
proof -
  have "retirable (\<lambda>_. 1) sample_registry 0" "registered 0 sample_registry \<noteq> None"
    using sample_registered by (auto simp: retirable_def)
  with descriptor_sweep_exact [OF sample_registry_inv, of "\<lambda>_. 1"] show ?thesis by auto
qed

end
