(* ===== verification/Gc_Physical.thy ===== *)
theory Gc_Physical
  imports Gc_Descriptors
begin

text \<open>
  The physical heap (\<^verbatim>\<open>crates/kagari-gc/src/allocation.rs\<close>): the directory of pages, the
  doubly linked list of active pages, one doubly linked list of pages with free slots for each
  group, and the resolution of object addresses.

  An operation on the heap returns its result together with the heap it leaves, also when it
  fails half way (\<open>action\<close>, sequenced by \<open>act_then\<close>). The links between pages are stored in
  the pages themselves, as in the source, so the lists are intrusive: unlinking a page writes
  to its neighbours. \<open>memory\<close> is the content of the process's memory at object addresses: the
  header words that \<^verbatim>\<open>commit\<close> writes through a raw pointer and \<^verbatim>\<open>locate\<close> reads back; reading
  an address that holds no header is undefined in the source and a panic here. The system
  allocator is the argument \<open>alloc\<close>, the sizes of the page trailers are the argument \<open>tt\<close>, and
  \<open>mem\<close> answers fallible reservations.
\<close>

section \<open>Definitions\<close>

subsection \<open>State\<close>

record object_header =
  hdescriptor :: nat
  hallocation :: nat

record physical_cursor =
  cpage :: "nat option"
  cslot :: nat

record physical_heap =
  allocations :: "page table"
  available :: "nat option list"
  first_active :: "nat option"
  cursor :: physical_cursor
  descriptors_of :: descriptors
  backing_bytes :: nat
  objects :: nat
  memory :: "nat \<Rightarrow> object_header option"

definition physical_default :: "(nat \<Rightarrow> object_header option) \<Rightarrow> physical_heap" where
  "physical_default bytes =
     \<lparr>allocations = table_default, available = replicate GROUPS None, first_active = None,
      cursor = \<lparr>cpage = None, cslot = 0\<rparr>, descriptors_of = descriptors_default,
      backing_bytes = 0, objects = 0, memory = bytes\<rparr>"

record reservation =
  rreference :: nat
  rpage :: nat
  rslot :: nat

record checked_object =
  opointer :: nat
  odescriptor :: descriptor
  opage :: nat
  oslot :: nat

record location =
  lpage :: page
  lid :: nat
  lslot :: nat
  ldescriptor :: nat

subsection \<open>Sequencing\<close>

type_synonym 'a action = "physical_heap \<Rightarrow> 'a gc_result \<times> physical_heap"

definition act_then :: "'a action \<Rightarrow> ('a \<Rightarrow> 'b action) \<Rightarrow> 'b action" where
  "act_then m f h =
     (case m h of
        (Ok x, h) \<Rightarrow> f x h
      | (Err e, h) \<Rightarrow> (Err e, h)
      | (Panic p, h) \<Rightarrow> (Panic p, h))"

definition lift :: "'a gc_result \<Rightarrow> 'a action" where
  "lift r h = (r, h)"

definition gets :: "(physical_heap \<Rightarrow> 'a gc_result) \<Rightarrow> 'a action" where
  "gets f h = (f h, h)"

definition modify :: "(physical_heap \<Rightarrow> physical_heap) \<Rightarrow> unit action" where
  "modify f h = (Ok (), f h)"

subsection \<open>Pages\<close>

definition page_count :: "physical_heap \<Rightarrow> nat" where
  "page_count h = tlen (allocations h)"

definition heap_page :: "nat \<Rightarrow> physical_heap \<Rightarrow> page gc_result" where
  "heap_page i h = ok_or (Storage ''page identity'') (table_get i (allocations h))"

text \<open>\<^verbatim>\<open>page_mut\<close>, with the write the caller makes through the reference; the write of the
  caller may panic.\<close>

definition page_mut :: "nat \<Rightarrow> (page \<Rightarrow> page gc_result) \<Rightarrow> unit action" where
  "page_mut i f =
     act_then (gets (heap_page i))
       (\<lambda>p. act_then (lift (f p))
          (\<lambda>q. modify (\<lambda>h. h\<lparr>allocations := table_update i (\<lambda>_. q) (allocations h)\<rparr>)))"

definition set_active :: "nat \<Rightarrow> (links \<Rightarrow> links) \<Rightarrow> unit action" where
  "set_active i f = page_mut i (\<lambda>p. Ok (with_active f p))"

definition set_available :: "nat \<Rightarrow> (links \<Rightarrow> links) \<Rightarrow> unit action" where
  "set_available i f = page_mut i (with_available f)"

text \<open>The two accesses to the array of list heads.\<close>

definition available_head :: "nat \<Rightarrow> physical_heap \<Rightarrow> nat option gc_result" where
  "available_head g h =
     (if g < length (available h) then Ok (available h ! g) else Panic ''index out of bounds'')"

definition set_available_head :: "nat \<Rightarrow> nat option \<Rightarrow> unit action" where
  "set_available_head g x h =
     (if g < length (available h) then (Ok (), h\<lparr>available := (available h)[g := x]\<rparr>)
      else (Panic ''index out of bounds'', h))"

definition link_active :: "nat \<Rightarrow> unit action" where
  "link_active i =
     act_then (gets (\<lambda>h. Ok (first_active h)))
       (\<lambda>first. act_then (set_active i (\<lambda>_. \<lparr>previous = None, successor = first\<rparr>))
          (\<lambda>_. act_then (case first of
                           Some f \<Rightarrow> set_active f (\<lambda>l. l\<lparr>previous := Some i\<rparr>)
                         | None \<Rightarrow> lift (Ok ()))
             (\<lambda>_. modify (\<lambda>h. h\<lparr>first_active := Some i\<rparr>))))"

definition link_available :: "nat \<Rightarrow> nat \<Rightarrow> unit action" where
  "link_available i g =
     act_then (gets (available_head g))
       (\<lambda>first. act_then (set_available i (\<lambda>_. \<lparr>previous = None, successor = first\<rparr>))
          (\<lambda>_. act_then (case first of
                           Some f \<Rightarrow> set_available f (\<lambda>l. l\<lparr>previous := Some i\<rparr>)
                         | None \<Rightarrow> lift (Ok ()))
             (\<lambda>_. set_available_head g (Some i))))"

definition unlink_available :: "nat \<Rightarrow> nat \<Rightarrow> unit action" where
  "unlink_available i g =
     act_then (gets (heap_page i))
       (\<lambda>p. act_then (lift (page_available p))
          (\<lambda>ls. act_then (case previous ls of
                            Some f \<Rightarrow> set_available f (\<lambda>l. l\<lparr>successor := successor ls\<rparr>)
                          | None \<Rightarrow> set_available_head g (successor ls))
             (\<lambda>_. act_then (case successor ls of
                              Some n \<Rightarrow> set_available n (\<lambda>l. l\<lparr>previous := previous ls\<rparr>)
                            | None \<Rightarrow> lift (Ok ()))
                (\<lambda>_. set_available i (\<lambda>_. links_default)))))"

text \<open>The part of \<^verbatim>\<open>remove_page\<close> that takes the page out of the active list.\<close>

definition unlink_active :: "nat \<Rightarrow> links \<Rightarrow> unit action" where
  "unlink_active i ls =
     act_then (case previous ls of
                 Some f \<Rightarrow> set_active f (\<lambda>l. l\<lparr>successor := successor ls\<rparr>)
               | None \<Rightarrow> modify (\<lambda>h. h\<lparr>first_active := successor ls\<rparr>))
       (\<lambda>_. case successor ls of
              Some n \<Rightarrow> set_active n (\<lambda>l. l\<lparr>previous := previous ls\<rparr>)
            | None \<Rightarrow> lift (Ok ()))"

definition move_cursor :: "nat \<Rightarrow> nat option \<Rightarrow> physical_heap \<Rightarrow> physical_heap" where
  "move_cursor i after h =
     (if cpage (cursor h) = Some i then h\<lparr>cursor := \<lparr>cpage = after, cslot = 0\<rparr>\<rparr> else h)"

definition drop_page :: "nat \<Rightarrow> unit action" where
  "drop_page i h =
     (case table_remove i (allocations h) of
        None \<Rightarrow> (Panic ''retired page'', h)
      | Some (q, t) \<Rightarrow>
          let size = lsize (block (page_backing q))
          in if size \<le> backing_bytes h
             then (Ok (), h\<lparr>allocations := t, backing_bytes := backing_bytes h - size\<rparr>)
             else (Panic ''attempt to subtract with overflow'', h\<lparr>allocations := t\<rparr>))"

definition remove_page :: "nat \<Rightarrow> unit action" where
  "remove_page i =
     act_then (gets (heap_page i))
       (\<lambda>p. act_then (case group_id p of Some g \<Rightarrow> unlink_available i g | None \<Rightarrow> lift (Ok ()))
          (\<lambda>_. act_then (gets (heap_page i))
             (\<lambda>p. act_then (modify (move_cursor i (successor (page_active p))))
                (\<lambda>_. act_then (unlink_active i (page_active p)) (\<lambda>_. drop_page i)))))"

subsection \<open>Slots\<close>

text \<open>The branch of \<^verbatim>\<open>reserve\<close> that adds a page.\<close>

definition insert_page :: "nat \<Rightarrow> page \<Rightarrow> nat \<Rightarrow> unit action" where
  "insert_page i p new_bytes h =
     (case table_insert i p (allocations h) of
        Ok t \<Rightarrow> (Ok (), h\<lparr>allocations := t, backing_bytes := new_bytes\<rparr>)
      | Err e \<Rightarrow> (Err e, h)
      | Panic e \<Rightarrow> (Panic e, h))"

definition add_page :: "trailer_types \<Rightarrow> reserve \<Rightarrow> (layout \<Rightarrow> nat option) \<Rightarrow> descriptor \<Rightarrow> nat \<Rightarrow> nat action" where
  "add_page tt mem alloc d limit h =
     (case prepare mem (allocations h) of
        Err e \<Rightarrow> (Err e, h\<lparr>allocations := prepare_failed mem (allocations h)\<rparr>)
      | Panic p \<Rightarrow> (Panic p, h)
      | Ok (t, i) \<Rightarrow>
          act_then (lift (backing_layout tt (desc_layout d) (desc_group d)))
            (\<lambda>l. act_then (gets (\<lambda>h. ok_or (Limit ''backing bytes'') (checked_add (backing_bytes h) (lsize l))))
               (\<lambda>new_bytes.
                  if new_bytes > limit then lift (Err (Limit ''backing bytes''))
                  else act_then (lift (case desc_group d of
                                         Some g \<Rightarrow> new_small tt alloc g
                                       | None \<Rightarrow> new_large tt alloc (desc_layout d)))
                    (\<lambda>p. act_then (insert_page i p new_bytes)
                       (\<lambda>_. act_then (link_active i)
                          (\<lambda>_. act_then (case desc_group d of
                                           Some g \<Rightarrow> link_available i g
                                         | None \<Rightarrow> lift (Ok ()))
                             (\<lambda>_. lift (Ok i)))))))
            (h\<lparr>allocations := t\<rparr>))"

text \<open>\<^verbatim>\<open>self.page_mut(id)?.reserve()\<close>.\<close>

definition take_slot :: "nat \<Rightarrow> nat action" where
  "take_slot i =
     act_then (gets (heap_page i))
       (\<lambda>p. act_then (lift (page_reserve p))
          (\<lambda>(q, s). act_then (modify (\<lambda>h. h\<lparr>allocations := table_update i (\<lambda>_. q) (allocations h)\<rparr>))
             (\<lambda>_. lift (Ok s))))"

text \<open>The end of \<^verbatim>\<open>reserve\<close>: take a slot of the chosen page, unlist the page if that was its last.\<close>

definition reserve_in :: "nat option \<Rightarrow> nat \<Rightarrow> reservation action" where
  "reserve_in grp i =
     act_then (take_slot i)
       (\<lambda>slot. act_then (gets (heap_page i))
          (\<lambda>p. act_then (case grp of
                           Some g \<Rightarrow> if page_free p = 0 then unlink_available i g else lift (Ok ())
                         | None \<Rightarrow> lift (Ok ()))
             (\<lambda>_. act_then (gets (heap_page i))
                (\<lambda>p. act_then (lift (page_pointer p slot))
                   (\<lambda>a. lift (Ok \<lparr>rreference = a, rpage = i, rslot = slot\<rparr>))))))"

definition heap_reserve ::
  "trailer_types \<Rightarrow> reserve \<Rightarrow> (layout \<Rightarrow> nat option) \<Rightarrow> descriptor \<Rightarrow> nat \<Rightarrow> reservation action" where
  "heap_reserve tt mem alloc d limit =
     act_then
       (act_then (gets (\<lambda>h. case desc_group d of Some g \<Rightarrow> available_head g h | None \<Rightarrow> Ok None))
          (\<lambda>a. case a of Some i \<Rightarrow> lift (Ok i) | None \<Rightarrow> add_page tt mem alloc d limit))
       (reserve_in (desc_group d))"

definition heap_commit :: "reservation \<Rightarrow> nat \<Rightarrow> unit action" where
  "heap_commit r d h =
     (case descriptors_retain d (descriptors_of h) of
        Err e \<Rightarrow> (Err e, h)
      | Panic p \<Rightarrow> (Panic p, h)
      | Ok ds \<Rightarrow>
          act_then (page_mut (rpage r) (\<lambda>p. Ok (page_commit (rslot r) p)))
            (\<lambda>_. modify (\<lambda>h. h\<lparr>objects := objects h + 1\<rparr>))
            (h\<lparr>descriptors_of := ds,
               memory := (memory h)(rreference r \<mapsto> \<lparr>hdescriptor = d, hallocation = rpage r\<rparr>)\<rparr>))"

definition release_slot :: "nat \<Rightarrow> nat \<Rightarrow> unit action" where
  "release_slot i slot =
     act_then (gets (heap_page i))
       (\<lambda>p. act_then (page_mut i (\<lambda>p. Ok (page_release slot p)))
          (\<lambda>_. act_then (case group_id p of
                           Some g \<Rightarrow> if page_free p = 0 then link_available i g else lift (Ok ())
                         | None \<Rightarrow> lift (Ok ()))
             (\<lambda>_. act_then (gets (heap_page i))
                (\<lambda>p. if page_free p = page_slots p then remove_page i else lift (Ok ())))))"

definition heap_rollback :: "reservation \<Rightarrow> unit action" where
  "heap_rollback r = release_slot (rpage r) (rslot r)"

subsection \<open>Address resolution\<close>

definition read_header :: "nat \<Rightarrow> physical_heap \<Rightarrow> object_header gc_result" where
  "read_header a h = (case memory h a of Some x \<Rightarrow> Ok x | None \<Rightarrow> Panic ''uninitialised header'')"

definition locate :: "nat \<Rightarrow> physical_heap \<Rightarrow> location gc_result" where
  "locate a h =
     and_then (read_header a h)
       (\<lambda>header. and_then (ok_or ForeignHeap (table_get (hallocation header) (allocations h)))
          (\<lambda>p. and_then (ok_or ForeignHeap (slot_of p a))
             (\<lambda>slot. if \<not> page_occupied p slot then Err (Storage ''object occupancy'')
                     else Ok \<lparr>lpage = p, lid = hallocation header, lslot = slot,
                             ldescriptor = hdescriptor header\<rparr>)))"

definition checked_object_at :: "nat \<Rightarrow> nat \<Rightarrow> nat \<Rightarrow> physical_heap \<Rightarrow> checked_object gc_result" where
  "checked_object_at a i slot h =
     and_then (read_header a h)
       (\<lambda>header. and_then (descriptors_get (hdescriptor header) (descriptors_of h))
          (\<lambda>d. Ok \<lparr>opointer = a + payload_offset d, odescriptor = d, opage = i, oslot = slot\<rparr>))"

definition resolve :: "nat \<Rightarrow> physical_heap \<Rightarrow> checked_object gc_result" where
  "resolve a h = and_then (locate a h) (\<lambda>loc. checked_object_at a (lid loc) (lslot loc) h)"

definition object_at :: "nat \<Rightarrow> nat \<Rightarrow> physical_heap \<Rightarrow> checked_object gc_result" where
  "object_at i slot h =
     and_then (heap_page i h)
       (\<lambda>p. if page_slots p \<le> slot \<or> \<not> page_occupied p slot then Err (Storage ''object occupancy'')
            else and_then (page_pointer p slot) (\<lambda>a. checked_object_at a i slot h))"

subsection \<open>Reference definitions\<close>

text \<open>\<open>dlseg lk p xs a b\<close>: starting at \<open>a\<close>, the links lead through \<open>xs\<close> to \<open>b\<close>, and the first
  node's back link is \<open>p\<close>.\<close>

fun dlseg :: "(nat \<Rightarrow> links option) \<Rightarrow> nat option \<Rightarrow> nat list \<Rightarrow> nat option \<Rightarrow> nat option \<Rightarrow> bool" where
  "dlseg lk p [] a b \<longleftrightarrow> a = b"
| "dlseg lk p (x # xs) a b \<longleftrightarrow>
     a = Some x \<and> (\<exists>l. lk x = Some l \<and> previous l = p \<and> dlseg lk (Some x) xs (successor l) b)"

definition dlist :: "(nat \<Rightarrow> links option) \<Rightarrow> nat list \<Rightarrow> nat option \<Rightarrow> bool" where
  "dlist lk xs head \<longleftrightarrow> distinct xs \<and> dlseg lk None xs head None"

text \<open>The element that follows \<open>i\<close> in a list.\<close>

fun after_in :: "nat \<Rightarrow> nat list \<Rightarrow> nat option" where
  "after_in i [] = None"
| "after_in i (x # xs) = (if x = i then (case xs of [] \<Rightarrow> None | y # _ \<Rightarrow> Some y) else after_in i xs)"

text \<open>The link map after pushing a node in front, and after taking one out.\<close>

definition pushed :: "nat \<Rightarrow> nat option \<Rightarrow> (nat \<Rightarrow> links option) \<Rightarrow> nat \<Rightarrow> links option" where
  "pushed x head lk =
     (let lk = lk(x \<mapsto> \<lparr>previous = None, successor = head\<rparr>)
      in case head of None \<Rightarrow> lk | Some f \<Rightarrow> lk(f \<mapsto> (the (lk f))\<lparr>previous := Some x\<rparr>))"

definition unlinked :: "links \<Rightarrow> (nat \<Rightarrow> links option) \<Rightarrow> nat \<Rightarrow> links option" where
  "unlinked l lk =
     (let lk = (case previous l of None \<Rightarrow> lk | Some f \<Rightarrow> lk(f \<mapsto> (the (lk f))\<lparr>successor := successor l\<rparr>))
      in case successor l of None \<Rightarrow> lk | Some n \<Rightarrow> lk(n \<mapsto> (the (lk n))\<lparr>previous := previous l\<rparr>))"

definition alinks :: "page table \<Rightarrow> nat \<Rightarrow> links option" where
  "alinks t i = map_option page_active (table_get i t)"

definition vlinks :: "page table \<Rightarrow> nat \<Rightarrow> links option" where
  "vlinks t i = (case table_get i t of Some (Small b h) \<Rightarrow> Some (savailable h) | _ \<Rightarrow> None)"

text \<open>A page without its links.\<close>

fun strip :: "page \<Rightarrow> page" where
  "strip (Small b h) = Small b (h\<lparr>sactive := links_default, savailable := links_default\<rparr>)"
| "strip (Large b h) = Large b (h\<lparr>lactive := links_default\<rparr>)"

definition contents :: "page table \<Rightarrow> nat \<Rightarrow> page option" where
  "contents t i = map_option strip (table_get i t)"

definition relinked :: "page table \<Rightarrow> page table \<Rightarrow> bool" where
  "relinked t t' \<longleftrightarrow> table_inv t' \<and> tlen t' = tlen t \<and> contents t' = contents t"

text \<open>The lists: \<open>act\<close> is the active list, \<open>avs g\<close> the available list of group \<open>g\<close>.\<close>

definition links_ok :: "page table \<Rightarrow> nat option list \<Rightarrow> nat option \<Rightarrow> nat list \<Rightarrow> (nat \<Rightarrow> nat list) \<Rightarrow> bool" where
  "links_ok t av fa act avs \<longleftrightarrow>
     table_inv t \<and> length av = GROUPS \<and> dlist (alinks t) act fa \<and> set act = dom (contents t) \<and>
     (\<forall>g < GROUPS. dlist (vlinks t) (avs g) (av ! g) \<and>
        (\<forall>i \<in> set (avs g). \<exists>p. contents t i = Some p \<and> group_id p = Some g))"

text \<open>Outside \<open>X\<close>, exactly the pages with a free slot are listed under their group.\<close>

definition listed_ok :: "nat set \<Rightarrow> (nat \<Rightarrow> page option) \<Rightarrow> (nat \<Rightarrow> nat list) \<Rightarrow> bool" where
  "listed_ok X c avs \<longleftrightarrow> (\<forall>g < GROUPS. \<forall>i p. i \<notin> X \<longrightarrow> c i = Some p \<longrightarrow> group_id p = Some g \<longrightarrow>
     (i \<in> set (avs g) \<longleftrightarrow> 0 < page_free p))"

subsection \<open>Intrusive lists\<close>

section \<open>Intrusive doubly linked lists\<close>

lemma after_in_split: "i \<notin> set xs \<Longrightarrow> after_in i (xs @ i # ys) = (case ys of [] \<Rightarrow> None | y # _ \<Rightarrow> Some y)"
  by (induction xs) auto

lemma dlseg_cong: "(\<And>x. x \<in> set xs \<Longrightarrow> lk x = lk' x) \<Longrightarrow> dlseg lk p xs a b = dlseg lk' p xs a b"
  by (induction xs arbitrary: p a) auto

lemma dlseg_append:
  "dlseg lk p (xs @ ys) a b \<longleftrightarrow>
     (\<exists>m. dlseg lk p xs a m \<and> dlseg lk (if xs = [] then p else Some (last xs)) ys m b)"
  by (induction xs arbitrary: p a) auto

lemma dlseg_dom: "dlseg lk p xs a b \<Longrightarrow> x \<in> set xs \<Longrightarrow> lk x \<noteq> None"
  by (induction xs arbitrary: p a) auto

lemma dlist_dom: "dlist lk xs a \<Longrightarrow> x \<in> set xs \<Longrightarrow> lk x \<noteq> None"
  using dlseg_dom by (auto simp: dlist_def)

lemma dlist_cong: "(\<And>x. x \<in> set xs \<Longrightarrow> lk x = lk' x) \<Longrightarrow> dlist lk xs a = dlist lk' xs a"
  unfolding dlist_def using dlseg_cong [of xs lk lk' None a None] by simp

lemma dlist_head: "dlist lk xs a \<Longrightarrow> a = (case xs of [] \<Rightarrow> None | x # _ \<Rightarrow> Some x)"
  by (cases xs) (auto simp: dlist_def)

lemma dlist_push:
  assumes "dlist lk xs head" "x \<notin> set xs"
  shows "dlist (pushed x head lk) (x # xs) (Some x)"
proof (cases xs)
  case Nil
  then show ?thesis using assms by (auto simp: dlist_def pushed_def)
next
  case (Cons f ys)
  with assms obtain l where h: "head = Some f" and l: "lk f = Some l" "previous l = None"
    and ys: "dlseg lk (Some f) ys (successor l) None" "f \<notin> set ys" "distinct ys" "x \<noteq> f" "x \<notin> set ys"
    by (auto simp: dlist_def)
  let ?lk = "pushed x head lk"
  have eq: "?lk x = Some \<lparr>previous = None, successor = Some f\<rparr>" "?lk f = Some (l\<lparr>previous := Some x\<rparr>)"
    using h l ys by (auto simp: pushed_def)
  have "dlseg ?lk (Some f) ys (successor l) None = dlseg lk (Some f) ys (successor l) None"
    by (rule dlseg_cong) (use ys h in \<open>auto simp: pushed_def\<close>)
  then show ?thesis using Cons ys h eq by (auto simp: dlist_def)
qed

lemma dlseg_snoc:
  "dlseg lk p (xs @ [f]) a b \<longleftrightarrow>
     dlseg lk p xs a (Some f) \<and> lk f = Some \<lparr>previous = (if xs = [] then p else Some (last xs)), successor = b\<rparr>"
  by (auto simp: dlseg_append)

lemma dlist_unlink:
  assumes "dlist lk (xs @ x # ys) head" "lk x = Some l"
  shows "dlist (unlinked l lk) (xs @ ys) (if previous l = None then successor l else head)"
    "previous l = (if xs = [] then None else Some (last xs))"
    "successor l = (case ys of [] \<Rightarrow> None | y # _ \<Rightarrow> Some y)"
proof -
  let ?p = "if xs = [] then None else Some (last xs)"
  let ?lk = "unlinked l lk"
  from assms have seg: "dlseg lk None xs head (Some x)" "previous l = ?p" "dlseg lk (Some x) ys (successor l) None"
    and d: "distinct xs" "distinct ys" "set xs \<inter> set ys = {}" "x \<notin> set xs" "x \<notin> set ys"
    by (auto simp: dlist_def dlseg_append)
  show "previous l = ?p" by (rule seg)
  have lx: "xs \<noteq> [] \<Longrightarrow> last xs \<notin> set ys" using d(3) last_in_set by blast
  show suc: "successor l = (case ys of [] \<Rightarrow> None | y # _ \<Rightarrow> Some y)" using seg(3) by (cases ys) auto
  have right: "dlseg ?lk ?p ys (successor l) None"
  proof (cases ys)
    case Nil
    then show ?thesis using seg(3) by simp
  next
    case (Cons y zs)
    with seg(3) obtain k where k: "lk y = Some k" "dlseg lk (Some y) zs (successor k) None" "successor l = Some y" by auto
    have "y \<notin> set xs" "y \<notin> set zs" using d Cons by auto
    then have y: "?lk y = Some (k\<lparr>previous := ?p\<rparr>)"
      using k(1,3) seg(2) last_in_set [of xs] by (auto simp: unlinked_def)
    have "dlseg ?lk (Some y) zs (successor k) None = dlseg lk (Some y) zs (successor k) None"
      using d Cons seg(2) k(3) \<open>y \<notin> set zs\<close> lx
      by (intro dlseg_cong) (auto simp: unlinked_def)
    with y k Cons show ?thesis by simp
  qed
  have left: "dlseg ?lk None xs (if previous l = None then successor l else head) (successor l)"
  proof (cases xs rule: rev_cases)
    case Nil
    then show ?thesis using seg(2) by simp
  next
    case (snoc zs f)
    with seg(1) have f: "dlseg lk None zs head (Some f)"
      "lk f = Some \<lparr>previous = (if zs = [] then None else Some (last zs)), successor = Some x\<rparr>"
      by (simp_all add: dlseg_snoc)
    have "f \<notin> set ys" "f \<notin> set zs" using d snoc by auto
    then have g: "?lk f = Some \<lparr>previous = (if zs = [] then None else Some (last zs)), successor = successor l\<rparr>"
      using f(2) seg(2) snoc suc by (auto simp: unlinked_def split: list.splits)
    have "dlseg ?lk None zs head (Some f) = dlseg lk None zs head (Some f)"
      using d snoc seg(2) suc \<open>f \<notin> set zs\<close> by (intro dlseg_cong) (auto simp: unlinked_def split: list.splits)
    with g f snoc seg(2) show ?thesis by (simp add: dlseg_snoc)
  qed
  have "dlseg ?lk None (xs @ ys) (if previous l = None then successor l else head) None"
    using left right by (auto simp: dlseg_append)
  then show "dlist ?lk (xs @ ys) (if previous l = None then successor l else head)"
    using d by (simp add: dlist_def)
qed

subsection \<open>Links and contents of a directory of pages\<close>

section \<open>Heap actions\<close>

lemma act_then_Ok: "m h = (Ok x, h') \<Longrightarrow> act_then m f h = f x h'"
  by (simp add: act_then_def)

lemma lift_apply [simp]: "lift v h = (v, h)"
  by (simp add: lift_def)

lemma modify_apply [simp]: "modify g h = (Ok (), g h)"
  by (simp add: modify_def)

lemma gets_apply [simp]: "gets r h = (r h, h)"
  by (simp add: gets_def)

lemma act_gets [simp]: "act_then (gets r) f h = (case r h of Ok x \<Rightarrow> f x h | Err e \<Rightarrow> (Err e, h) | Panic p \<Rightarrow> (Panic p, h))"
  by (simp add: act_then_def split: outcome.splits)

lemma act_lift [simp]: "act_then (lift r) f h = (case r of Ok x \<Rightarrow> f x h | Err e \<Rightarrow> (Err e, h) | Panic p \<Rightarrow> (Panic p, h))"
  by (simp add: act_then_def split: outcome.splits)

lemma act_modify [simp]: "act_then (modify g) f h = f () (g h)"
  by (simp add: act_then_def)

lemma strip_simps [simp]:
  "page_free (strip p) = page_free p" "page_slots (strip p) = page_slots p" "group_id (strip p) = group_id p"
  "page_backing (strip p) = page_backing p" "page_marks_of (strip p) = page_marks_of p"
  "page_occupied (strip p) s = page_occupied p s" "page_unavailable (strip p) s = page_unavailable p s"
  "page_pointer (strip p) s = page_pointer p s"
  by (cases p; simp add: unavail_bit_def Let_def; fail)+

lemma strip_slot_of [simp]: "slot_of (strip p) a = slot_of p a"
proof (cases p)
  case (Small b h)
  show ?thesis unfolding Small by (cases "checked_sub a (base b)") (simp_all add: Let_def)
qed simp

lemma strip_state [simp]: "slot_state (strip p) = slot_state p"
  by (simp add: slot_state_def fun_eq_iff)

lemma strip_inv [simp]: "page_inv (strip p) = page_inv p"
proof (cases p)
  case (Small b h)
  then show ?thesis using strip_state [of p] by (simp add: unavail_bit_def)
qed simp

lemma strip_with [simp]: "strip (with_active f p) = strip p" "with_available f p = Ok q \<Longrightarrow> strip q = strip p"
  by (cases p; auto)+

lemma page_mut_ok:
  assumes "table_inv (allocations h)" "table_get i (allocations h) = Some p" "f p = Ok q"
  shows "\<exists>t. page_mut i f h = (Ok (), h\<lparr>allocations := t\<rparr>) \<and> table_inv t \<and> tlen t = tlen (allocations h) \<and>
    (\<forall>j. table_get j t = (if j = i then Some q else table_get j (allocations h)))"
  using update_ok [OF assms(1), of i "\<lambda>_. q"] assms
  by (intro exI [of _ "table_update i (\<lambda>_. q) (allocations h)"]) (simp add: page_mut_def heap_page_def)

lemma set_active_ok:
  assumes "table_inv (allocations h)" "alinks (allocations h) i = Some l"
  shows "\<exists>t. set_active i f h = (Ok (), h\<lparr>allocations := t\<rparr>) \<and> relinked (allocations h) t \<and>
    alinks t = (alinks (allocations h))(i \<mapsto> f l) \<and> vlinks t = vlinks (allocations h)"
proof -
  from assms(2) obtain p where p: "table_get i (allocations h) = Some p" "l = page_active p" by (auto simp: alinks_def)
  have q: "page_active (with_active f p) = f l" "\<And>b s. with_active f p = Small b s \<Longrightarrow> \<exists>s'. p = Small b s' \<and> savailable s' = savailable s"
    "\<And>b s. p = Small b s \<Longrightarrow> \<exists>s'. with_active f p = Small b s' \<and> savailable s' = savailable s"
    using p(2) by (cases p; auto)+
  from page_mut_ok [OF assms(1) p(1), of "\<lambda>p. Ok (with_active f p)"]
  obtain t where t: "set_active i f h = (Ok (), h\<lparr>allocations := t\<rparr>)" "table_inv t" "tlen t = tlen (allocations h)"
    "\<And>j. table_get j t = (if j = i then Some (with_active f p) else table_get j (allocations h))"
    unfolding set_active_def by blast
  moreover have "alinks t = (alinks (allocations h))(i \<mapsto> f l)" using t(4) q(1) by (auto simp: alinks_def fun_eq_iff)
  moreover have "vlinks t j = vlinks (allocations h) j" for j
    using t(4) p(1) by (cases p) (auto simp: vlinks_def)
  moreover have "contents t = contents (allocations h)" using t(4) p(1) by (auto simp: contents_def fun_eq_iff)
  ultimately show ?thesis unfolding relinked_def by blast
qed

lemma set_available_ok:
  assumes "table_inv (allocations h)" "vlinks (allocations h) i = Some l"
  shows "\<exists>t. set_available i f h = (Ok (), h\<lparr>allocations := t\<rparr>) \<and> relinked (allocations h) t \<and>
    vlinks t = (vlinks (allocations h))(i \<mapsto> f l) \<and> alinks t = alinks (allocations h)"
proof -
  from assms(2) obtain b s where p: "table_get i (allocations h) = Some (Small b s)" "l = savailable s"
    by (auto simp: vlinks_def split: option.splits page.splits)
  let ?q = "Small b (s\<lparr>savailable := f l\<rparr>)"
  from page_mut_ok [OF assms(1) p(1), of "with_available f" ?q] p(2)
  obtain t where t: "set_available i f h = (Ok (), h\<lparr>allocations := t\<rparr>)" "table_inv t" "tlen t = tlen (allocations h)"
    "\<And>j. table_get j t = (if j = i then Some ?q else table_get j (allocations h))"
    unfolding set_available_def by auto
  moreover have "vlinks t = (vlinks (allocations h))(i \<mapsto> f l)" using t(4) by (auto simp: vlinks_def fun_eq_iff)
  moreover have "alinks t = alinks (allocations h)" using t(4) p(1) by (auto simp: alinks_def fun_eq_iff)
  moreover have "contents t = contents (allocations h)" using t(4) p(1) by (auto simp: contents_def fun_eq_iff)
  ultimately show ?thesis unfolding relinked_def by blast
qed

lemma relinked_trans [trans]: "relinked t u \<Longrightarrow> relinked u v \<Longrightarrow> relinked t v"
  by (simp add: relinked_def)

lemma relinked_inv: "relinked t u \<Longrightarrow> table_inv u" by (simp add: relinked_def)

lemma relinked_refl: "table_inv t \<Longrightarrow> relinked t t" by (simp add: relinked_def)

lemma link_active_ok:
  assumes inv: "table_inv (allocations h)" and i: "alinks (allocations h) i \<noteq> None"
    and act: "dlist (alinks (allocations h)) act (first_active h)"
  shows "\<exists>t. link_active i h = (Ok (), h\<lparr>allocations := t, first_active := Some i\<rparr>) \<and> relinked (allocations h) t \<and>
    alinks t = pushed i (first_active h) (alinks (allocations h)) \<and> vlinks t = vlinks (allocations h)"
proof -
  let ?l = "\<lparr>previous = None, successor = first_active h\<rparr>"
  from i obtain l where "alinks (allocations h) i = Some l" by blast
  from set_active_ok [OF inv this, of "\<lambda>_. ?l"]
  obtain t where t: "set_active i (\<lambda>_. ?l) h = (Ok (), h\<lparr>allocations := t\<rparr>)" "relinked (allocations h) t"
    "alinks t = (alinks (allocations h))(i \<mapsto> ?l)" "vlinks t = vlinks (allocations h)" by auto
  show ?thesis
  proof (cases "first_active h")
    case None
    then show ?thesis using t by (auto simp: link_active_def act_then_Ok t(1) pushed_def)
  next
    case (Some f)
    have "alinks (allocations h) f \<noteq> None" using act Some dlist_dom [OF act] dlist_head [OF act]
      by (auto split: list.splits)
    then obtain k where k: "alinks (allocations (h\<lparr>allocations := t\<rparr>)) f = Some k" using t(3) by (cases "f = i") auto
    from set_active_ok [OF _ this, of "\<lambda>l. l\<lparr>previous := Some i\<rparr>"] relinked_inv [OF t(2)]
    obtain u where u: "set_active f (\<lambda>l. l\<lparr>previous := Some i\<rparr>) (h\<lparr>allocations := t\<rparr>) = (Ok (), h\<lparr>allocations := u\<rparr>)"
      "relinked t u" "alinks u = (alinks t)(f \<mapsto> k\<lparr>previous := Some i\<rparr>)" "vlinks u = vlinks t" by auto
    have "link_active i h = (Ok (), h\<lparr>allocations := u, first_active := Some i\<rparr>)"
      using Some by (simp add: link_active_def act_then_Ok t(1) [unfolded Some] act_then_Ok u(1))
    moreover have "alinks u = pushed i (first_active h) (alinks (allocations h))"
      using u(3) k t(3) Some by (simp add: pushed_def)
    ultimately show ?thesis using u t relinked_trans by auto
  qed
qed

lemma set_available_head_ok:
  "g < length (available h) \<Longrightarrow> set_available_head g x h = (Ok (), h\<lparr>available := (available h)[g := x]\<rparr>)"
  by (simp add: set_available_head_def)

lemma link_available_ok:
  assumes inv: "table_inv (allocations h)" and i: "vlinks (allocations h) i \<noteq> None" and g: "g < length (available h)"
    and av: "dlist (vlinks (allocations h)) xs (available h ! g)"
  shows "\<exists>t. link_available i g h = (Ok (), h\<lparr>allocations := t, available := (available h)[g := Some i]\<rparr>) \<and>
    relinked (allocations h) t \<and>
    vlinks t = pushed i (available h ! g) (vlinks (allocations h)) \<and> alinks t = alinks (allocations h)"
proof -
  let ?l = "\<lparr>previous = None, successor = available h ! g\<rparr>"
  from i obtain l where "vlinks (allocations h) i = Some l" by blast
  from set_available_ok [OF inv this, of "\<lambda>_. ?l"]
  obtain t where t: "set_available i (\<lambda>_. ?l) h = (Ok (), h\<lparr>allocations := t\<rparr>)" "relinked (allocations h) t"
    "vlinks t = (vlinks (allocations h))(i \<mapsto> ?l)" "alinks t = alinks (allocations h)" by auto
  show ?thesis
  proof (cases "available h ! g")
    case None
    then show ?thesis using t g
      by (auto simp: link_available_def available_head_def act_then_Ok t(1) pushed_def set_available_head_ok)
  next
    case (Some f)
    have "vlinks (allocations h) f \<noteq> None" using av Some dlist_dom [OF av] dlist_head [OF av]
      by (auto split: list.splits)
    then obtain k where k: "vlinks (allocations (h\<lparr>allocations := t\<rparr>)) f = Some k" using t(3) by (cases "f = i") auto
    from set_available_ok [OF _ this, of "\<lambda>l. l\<lparr>previous := Some i\<rparr>"] relinked_inv [OF t(2)]
    obtain u where u: "set_available f (\<lambda>l. l\<lparr>previous := Some i\<rparr>) (h\<lparr>allocations := t\<rparr>) = (Ok (), h\<lparr>allocations := u\<rparr>)"
      "relinked t u" "vlinks u = (vlinks t)(f \<mapsto> k\<lparr>previous := Some i\<rparr>)" "alinks u = alinks t" by auto
    have "link_available i g h = (Ok (), h\<lparr>allocations := u, available := (available h)[g := Some i]\<rparr>)"
      using Some g by (simp add: link_available_def available_head_def act_then_Ok t(1) [unfolded Some]
          act_then_Ok u(1) set_available_head_ok)
    moreover have "vlinks u = pushed i (available h ! g) (vlinks (allocations h))"
      using u(3) k t(3) Some by (simp add: pushed_def)
    ultimately show ?thesis using u t relinked_trans by auto
  qed
qed

lemma dlist_neighbours:
  assumes "dlist lk (xs @ i # ys) a" "lk i = Some l"
  shows "previous l = Some f \<Longrightarrow> lk f \<noteq> None \<and> f \<noteq> i" "successor l = Some n \<Longrightarrow> lk n \<noteq> None \<and> n \<noteq> i"
    "previous l = Some f \<Longrightarrow> successor l = Some n \<Longrightarrow> f \<noteq> n"
proof -
  note u = dlist_unlink(2,3) [OF assms] and d = dlist_dom [OF assms(1)]
  have dist: "distinct (xs @ i # ys)" using assms(1) by (simp add: dlist_def)
  have p: "f \<in> set xs" if "previous l = Some f" for f using that u(1) by (auto split: if_splits)
  have s: "n \<in> set ys" if "successor l = Some n" for n using that u(2) by (auto split: list.splits)
  show "previous l = Some f \<Longrightarrow> lk f \<noteq> None \<and> f \<noteq> i" using p d dist by auto
  show "successor l = Some n \<Longrightarrow> lk n \<noteq> None \<and> n \<noteq> i" using s d dist by auto
  show "previous l = Some f \<Longrightarrow> successor l = Some n \<Longrightarrow> f \<noteq> n" using p s dist by auto
qed

lemma unlink_active_ok:
  assumes inv: "table_inv (allocations h)"
    and act: "dlist (alinks (allocations h)) (xs @ i # ys) (first_active h)" and l: "alinks (allocations h) i = Some l"
  shows "\<exists>t. unlink_active i l h =
      (Ok (), h\<lparr>allocations := t, first_active := if previous l = None then successor l else first_active h\<rparr>) \<and>
    relinked (allocations h) t \<and> alinks t = unlinked l (alinks (allocations h)) \<and> vlinks t = vlinks (allocations h)"
proof -
  note nb = dlist_neighbours [OF act l]
  define h1 where "h1 = h\<lparr>first_active := if previous l = None then successor l else first_active h\<rparr>"
  have "\<exists>t. (case previous l of Some f \<Rightarrow> set_active f (\<lambda>k. k\<lparr>successor := successor l\<rparr>)
      | None \<Rightarrow> modify (\<lambda>h. h\<lparr>first_active := successor l\<rparr>)) h = (Ok (), h1\<lparr>allocations := t\<rparr>) \<and>
    relinked (allocations h) t \<and> vlinks t = vlinks (allocations h) \<and>
    alinks t = (case previous l of None \<Rightarrow> alinks (allocations h)
      | Some f \<Rightarrow> (alinks (allocations h))(f \<mapsto> (the (alinks (allocations h) f))\<lparr>successor := successor l\<rparr>))"
  proof (cases "previous l")
    case None
    then show ?thesis by (intro exI [of _ "allocations h"]) (simp add: h1_def relinked_refl [OF inv])
  next
    case (Some f)
    then obtain k where "alinks (allocations h) f = Some k" using nb(1) by auto
    from set_active_ok [OF inv this, of "\<lambda>k. k\<lparr>successor := successor l\<rparr>"] this Some show ?thesis by (auto simp: h1_def)
  qed
  then obtain t where t: "(case previous l of Some f \<Rightarrow> set_active f (\<lambda>k. k\<lparr>successor := successor l\<rparr>)
      | None \<Rightarrow> modify (\<lambda>h. h\<lparr>first_active := successor l\<rparr>)) h = (Ok (), h1\<lparr>allocations := t\<rparr>)"
    "relinked (allocations h) t" "vlinks t = vlinks (allocations h)"
    "alinks t = (case previous l of None \<Rightarrow> alinks (allocations h)
      | Some f \<Rightarrow> (alinks (allocations h))(f \<mapsto> (the (alinks (allocations h) f))\<lparr>successor := successor l\<rparr>))" by auto
  show ?thesis
  proof (cases "successor l")
    case None
    then show ?thesis using t by (intro exI [of _ t])
      (auto simp: unlink_active_def act_then_Ok t(1) [unfolded None] h1_def unlinked_def)
  next
    case (Some n)
    then have "alinks t n \<noteq> None" using nb(2) t(4) by (cases "previous l") auto
    then obtain k where k: "alinks (allocations (h1\<lparr>allocations := t\<rparr>)) n = Some k" by auto
    from set_active_ok [OF _ k, of "\<lambda>k. k\<lparr>previous := previous l\<rparr>"] relinked_inv [OF t(2)]
    obtain u where u: "set_active n (\<lambda>k. k\<lparr>previous := previous l\<rparr>) (h1\<lparr>allocations := t\<rparr>) = (Ok (), h1\<lparr>allocations := u\<rparr>)"
      "relinked t u" "alinks u = (alinks t)(n \<mapsto> k\<lparr>previous := previous l\<rparr>)" "vlinks u = vlinks t" by auto
    have "unlink_active i l h = (Ok (), h1\<lparr>allocations := u\<rparr>)"
      by (simp add: unlink_active_def act_then_Ok t(1)) (simp add: Some u(1))
    moreover have "alinks u = unlinked l (alinks (allocations h))"
      using u(3) k t(4) Some by (simp add: unlinked_def)
    moreover have "relinked (allocations h) u" using relinked_trans [OF t(2) u(2)] .
    ultimately show ?thesis using u(4) t(3) by (intro exI [of _ u]) (simp add: h1_def)
  qed
qed

lemma unlink_available_ok:
  assumes inv: "table_inv (allocations h)" and g: "g < length (available h)"
    and av: "dlist (vlinks (allocations h)) (xs @ i # ys) (available h ! g)" and l: "vlinks (allocations h) i = Some l"
  shows "\<exists>t. unlink_available i g h =
      (Ok (), h\<lparr>allocations := t, available := if previous l = None then (available h)[g := successor l] else available h\<rparr>) \<and>
    relinked (allocations h) t \<and> vlinks t = (unlinked l (vlinks (allocations h)))(i \<mapsto> links_default) \<and>
    alinks t = alinks (allocations h)"
proof -
  note nb = dlist_neighbours [OF av l]
  define h1 where "h1 = h\<lparr>available := if previous l = None then (available h)[g := successor l] else available h\<rparr>"
  have "\<exists>t. (case previous l of Some f \<Rightarrow> set_available f (\<lambda>k. k\<lparr>successor := successor l\<rparr>)
      | None \<Rightarrow> set_available_head g (successor l)) h = (Ok (), h1\<lparr>allocations := t\<rparr>) \<and>
    relinked (allocations h) t \<and> alinks t = alinks (allocations h) \<and>
    vlinks t = (case previous l of None \<Rightarrow> vlinks (allocations h)
      | Some f \<Rightarrow> (vlinks (allocations h))(f \<mapsto> (the (vlinks (allocations h) f))\<lparr>successor := successor l\<rparr>))"
  proof (cases "previous l")
    case None
    then show ?thesis by (intro exI [of _ "allocations h"]) (simp add: h1_def relinked_refl [OF inv] set_available_head_ok [OF g])
  next
    case (Some f)
    then obtain k where "vlinks (allocations h) f = Some k" using nb(1) by auto
    from set_available_ok [OF inv this, of "\<lambda>k. k\<lparr>successor := successor l\<rparr>"] this Some show ?thesis by (auto simp: h1_def)
  qed
  then obtain t where t: "(case previous l of Some f \<Rightarrow> set_available f (\<lambda>k. k\<lparr>successor := successor l\<rparr>)
      | None \<Rightarrow> set_available_head g (successor l)) h = (Ok (), h1\<lparr>allocations := t\<rparr>)"
    "relinked (allocations h) t" "alinks t = alinks (allocations h)"
    "vlinks t = (case previous l of None \<Rightarrow> vlinks (allocations h)
      | Some f \<Rightarrow> (vlinks (allocations h))(f \<mapsto> (the (vlinks (allocations h) f))\<lparr>successor := successor l\<rparr>))" by auto
  have "\<exists>u. (case successor l of Some n \<Rightarrow> set_available n (\<lambda>k. k\<lparr>previous := previous l\<rparr>)
      | None \<Rightarrow> lift (Ok ())) (h1\<lparr>allocations := t\<rparr>) = (Ok (), h1\<lparr>allocations := u\<rparr>) \<and>
    relinked t u \<and> alinks u = alinks t \<and> vlinks u = unlinked l (vlinks (allocations h))"
  proof (cases "successor l")
    case None
    then show ?thesis using t by (intro exI [of _ t]) (auto simp: unlinked_def relinked_refl relinked_inv)
  next
    case (Some n)
    then have "vlinks t n \<noteq> None" using nb(2) t(4) by (cases "previous l") auto
    then obtain k where k: "vlinks (allocations (h1\<lparr>allocations := t\<rparr>)) n = Some k" by auto
    from set_available_ok [OF _ k, of "\<lambda>k. k\<lparr>previous := previous l\<rparr>"] relinked_inv [OF t(2)] k Some t(4)
    show ?thesis by (auto simp: unlinked_def)
  qed
  then obtain u where u: "(case successor l of Some n \<Rightarrow> set_available n (\<lambda>k. k\<lparr>previous := previous l\<rparr>)
      | None \<Rightarrow> lift (Ok ())) (h1\<lparr>allocations := t\<rparr>) = (Ok (), h1\<lparr>allocations := u\<rparr>)"
    "relinked t u" "alinks u = alinks t" "vlinks u = unlinked l (vlinks (allocations h))" by auto
  have "vlinks u i = Some l" using u(4) l nb by (auto simp: unlinked_def Let_def split: option.splits)
  then have "vlinks (allocations (h1\<lparr>allocations := u\<rparr>)) i = Some l" by simp
  from set_available_ok [OF _ this, of "\<lambda>_. links_default"] relinked_inv [OF u(2)]
  obtain v where v: "set_available i (\<lambda>_. links_default) (h1\<lparr>allocations := u\<rparr>) = (Ok (), h1\<lparr>allocations := v\<rparr>)"
    "relinked u v" "vlinks v = (vlinks u)(i \<mapsto> links_default)" "alinks v = alinks u" by auto
  obtain b s where p: "table_get i (allocations h) = Some (Small b s)" "l = savailable s"
    using l by (auto simp: vlinks_def split: option.splits page.splits)
  have "unlink_available i g h = (Ok (), h1\<lparr>allocations := v\<rparr>)"
    using p by (simp add: unlink_available_def heap_page_def act_then_Ok t(1) [unfolded p(2)] u(1) [unfolded p(2)] v(1))
  moreover have "relinked (allocations h) v" using relinked_trans [OF relinked_trans [OF t(2) u(2)] v(2)] .
  ultimately show ?thesis using v(3,4) u(3,4) t(3) by (intro exI [of _ v]) (simp add: h1_def)
qed

subsection \<open>Heap invariant\<close>

section \<open>The lists of pages\<close>

lemma contents_iff: "contents t i = Some p \<longleftrightarrow> (\<exists>q. table_get i t = Some q \<and> p = strip q)"
  by (auto simp: contents_def)

lemma alinks_dom: "alinks t i \<noteq> None \<longleftrightarrow> contents t i \<noteq> None"
  by (auto simp: alinks_def contents_def)

lemma vlinks_dom: "vlinks t i \<noteq> None \<longleftrightarrow> (\<exists>p g. contents t i = Some p \<and> group_id p = Some g)"
  by (cases "table_get i t") (auto simp: vlinks_def contents_def split: page.splits elim: group_id.elims)

lemma same_frame_links:
  assumes "same_frame p q"
  shows "page_active q = page_active p" "group_id q = group_id p"
    "(\<exists>b h. p = Small b h \<and> l = savailable h) \<longleftrightarrow> (\<exists>b h. q = Small b h \<and> l = savailable h)"
  using assms by (cases p; cases q; auto simp: same_frame_def)+

text \<open>A write that keeps a page's links keeps the lists.\<close>

lemma page_write_ok:
  assumes "links_ok (allocations h) av fa act avs" "table_get i (allocations h) = Some p" "f p = Ok q" "same_frame p q"
  shows "\<exists>t. page_mut i f h = (Ok (), h\<lparr>allocations := t\<rparr>) \<and> links_ok t av fa act avs \<and>
    contents t = (contents (allocations h))(i \<mapsto> strip q)"
proof -
  let ?t = "allocations h"
  note sf = same_frame_links [OF assms(4)]
  from page_mut_ok [where f = f and q = q, OF _ assms(2)] assms(1,3)
  obtain t where t: "page_mut i f h = (Ok (), h\<lparr>allocations := t\<rparr>)" "table_inv t"
    "\<And>j. table_get j t = (if j = i then Some q else table_get j ?t)" by (auto simp: links_ok_def)
  have a: "alinks t = alinks ?t" using t(3) assms(2) sf(1) by (auto simp: alinks_def fun_eq_iff)
  have v: "vlinks t = vlinks ?t"
  proof
    fix j
    have "vlinks u j = Some l \<longleftrightarrow> (\<exists>p. table_get j u = Some p \<and> (\<exists>b h. p = Small b h \<and> l = savailable h))" for u l
      by (auto simp: vlinks_def split: option.splits page.splits)
    then have "vlinks t j = Some l \<longleftrightarrow> vlinks ?t j = Some l" for l using t(3) assms(2) sf(3) by simp
    then show "vlinks t j = vlinks ?t j" by (metis option.exhaust)
  qed
  have c: "contents t = (contents ?t)(i \<mapsto> strip q)" using t(3) by (auto simp: contents_def fun_eq_iff)
  have "dom (contents t) = dom (contents ?t)" using c assms(2) by (auto simp: contents_def)
  moreover have "\<exists>p. contents t j = Some p \<and> group_id p = Some g" if "\<exists>p. contents ?t j = Some p \<and> group_id p = Some g" for j g
    using that c assms(2) sf(2) by (auto simp: contents_def)
  ultimately have "links_ok t av fa act avs" using assms(1) t(2) unfolding links_ok_def a v by blast
  with t(1) c show ?thesis by blast
qed

lemma links_ok_groups:
  assumes "links_ok t av fa act avs" "g < GROUPS" "g' < GROUPS" "i \<in> set (avs g)" "i \<in> set (avs g')"
  shows "g = g'"
  using assms unfolding links_ok_def by (metis option.inject)

lemma links_ok_relinked:
  assumes "links_ok t av fa act avs" "relinked t u"
  shows "table_inv u" "contents u = contents t" "set act = dom (contents u)"
    "\<And>g i. g < GROUPS \<Longrightarrow> i \<in> set (avs g) \<Longrightarrow> \<exists>p. contents u i = Some p \<and> group_id p = Some g"
  using assms by (auto simp: links_ok_def relinked_def)

lemma link_available_keeps:
  assumes ok: "links_ok (allocations h) (available h) fa act avs" and p: "contents (allocations h) i = Some p" "group_id p = Some g"
    and g: "g < GROUPS" and i: "i \<notin> set (avs g)"
  shows "\<exists>t av. link_available i g h = (Ok (), h\<lparr>allocations := t, available := av\<rparr>) \<and>
    links_ok t av fa act (avs(g := i # avs g)) \<and> contents t = contents (allocations h)"
proof -
  let ?t = "allocations h"
  have len: "g < length (available h)" using ok g by (simp add: links_ok_def)
  have dl: "dlist (vlinks ?t) (avs g) (available h ! g)" using ok g by (simp add: links_ok_def)
  have "vlinks ?t i \<noteq> None" using p vlinks_dom by blast
  from link_available_ok [OF _ this len dl] ok
  obtain t where t: "link_available i g h = (Ok (), h\<lparr>allocations := t, available := (available h)[g := Some i]\<rparr>)"
    "relinked ?t t" "vlinks t = pushed i (available h ! g) (vlinks ?t)" "alinks t = alinks ?t" by (auto simp: links_ok_def)
  note rl = links_ok_relinked [OF ok t(2)]
  have new: "dlist (vlinks t) (i # avs g) (Some i)" unfolding t(3) by (rule dlist_push [OF dl i])
  have other: "dlist (vlinks t) (avs k) (available h ! k)" if k: "k < GROUPS" "k \<noteq> g" for k
  proof -
    have "vlinks t j = vlinks ?t j" if j: "j \<in> set (avs k)" for j
    proof -
      have "j \<noteq> i" using ok k j p unfolding links_ok_def by (metis option.inject)
      moreover have "available h ! g \<noteq> Some j"
        using dlist_head [OF dl] links_ok_groups [OF ok g k(1), of j] k(2) j by (auto split: list.splits)
      ultimately show ?thesis by (auto simp: t(3) pushed_def Let_def split: option.splits)
    qed
    moreover have "dlist (vlinks ?t) (avs k) (available h ! k)" using ok k by (simp add: links_ok_def)
    ultimately show ?thesis using dlist_cong by blast
  qed
  have "links_ok t ((available h)[g := Some i]) fa act (avs(g := i # avs g))"
    using ok rl new other t(4) p len by (auto simp: links_ok_def nth_list_update)
  with t(1) rl(2) show ?thesis by blast
qed

lemma unlink_available_keeps:
  assumes ok: "links_ok (allocations h) (available h) fa act avs" and g: "g < GROUPS" and i: "i \<in> set (avs g)"
  shows "\<exists>t av. unlink_available i g h = (Ok (), h\<lparr>allocations := t, available := av\<rparr>) \<and>
    links_ok t av fa act (avs(g := remove1 i (avs g))) \<and> contents t = contents (allocations h)"
proof -
  let ?t = "allocations h"
  have len: "g < length (available h)" using ok g by (simp add: links_ok_def)
  have dl: "dlist (vlinks ?t) (avs g) (available h ! g)" using ok g by (simp add: links_ok_def)
  from i obtain xs ys where s: "avs g = xs @ i # ys" "i \<notin> set xs" by (meson split_list_first)
  then have rm: "remove1 i (avs g) = xs @ ys" by (simp add: remove1_append)
  from dlist_dom [OF dl i] obtain l where l: "vlinks ?t i = Some l" by auto
  from unlink_available_ok [OF _ len dl [unfolded s(1)] l] ok
  obtain t where t: "unlink_available i g h = (Ok (), h\<lparr>allocations := t,
      available := if previous l = None then (available h)[g := successor l] else available h\<rparr>)"
    "relinked ?t t" "vlinks t = (unlinked l (vlinks ?t))(i \<mapsto> links_default)" "alinks t = alinks ?t"
    by (auto simp: links_ok_def)
  define av where "av = (if previous l = None then (available h)[g := successor l] else available h)"
  note rl = links_ok_relinked [OF ok t(2)] and ul = dlist_unlink [OF dl [unfolded s(1)] l]
  have "i \<notin> set ys" "distinct xs" "distinct ys" using dl s by (auto simp: dlist_def)
  then have "dlist (vlinks t) (xs @ ys) (if previous l = None then successor l else available h ! g)"
    using ul(1) s(2) unfolding t(3) by (subst dlist_cong [where lk' = "unlinked l (vlinks ?t)"]) auto
  then have new: "dlist (vlinks t) (remove1 i (avs g)) (av ! g)" using len by (auto simp: rm av_def)
  have other: "dlist (vlinks t) (avs k) (available h ! k)" if k: "k < GROUPS" "k \<noteq> g" for k
  proof -
    have "vlinks t j = vlinks ?t j" if j: "j \<in> set (avs k)" for j
    proof -
      have "j \<notin> set (avs g)" using links_ok_groups [OF ok g k(1)] k(2) j by blast
      then have "j \<noteq> i" "previous l \<noteq> Some j" "successor l \<noteq> Some j"
        using ul(2,3) s by (auto split: list.splits if_splits)
      then show ?thesis by (auto simp: t(3) unlinked_def Let_def split: option.splits)
    qed
    moreover have "dlist (vlinks ?t) (avs k) (available h ! k)" using ok k by (simp add: links_ok_def)
    ultimately show ?thesis using dlist_cong by blast
  qed
  have "av ! k = available h ! k" if "k \<noteq> g" for k using that by (simp add: av_def)
  then have "links_ok t av fa act (avs(g := remove1 i (avs g)))"
    using ok rl new other t(4) by (auto simp: links_ok_def av_def dest: notin_set_remove1 set_remove1_subset [THEN subsetD])
  with t(1) rl(2) show ?thesis unfolding av_def by (intro exI conjI)
qed

lemma links_okD:
  assumes "links_ok t av fa act avs"
  shows "table_inv t" "length av = GROUPS" "dlist (alinks t) act fa" "set act = dom (contents t)" "distinct act"
    "\<And>g. g < GROUPS \<Longrightarrow> dlist (vlinks t) (avs g) (av ! g)"
    "\<And>g i. g < GROUPS \<Longrightarrow> i \<in> set (avs g) \<Longrightarrow> \<exists>p. contents t i = Some p \<and> group_id p = Some g"
  using assms by (auto simp: links_ok_def dlist_def)

lemma links_ok_cong:
  assumes "\<And>g. g < GROUPS \<Longrightarrow> avs g = avs' g"
  shows "links_ok t av fa act avs = links_ok t av fa act avs'"
  using assms by (simp add: links_ok_def)

lemma dlist_frame:
  assumes "\<And>x. x \<noteq> i \<Longrightarrow> lk x = lk' x" "i \<notin> set xs"
  shows "dlist lk xs a = dlist lk' xs a"
  by (rule dlist_cong) (use assms in metis)

lemma insert_page_keeps:
  assumes ok: "links_ok t (available h) (first_active h) act avs" and inv: "table_inv (allocations h)"
    and get: "\<And>j. table_get j (allocations h) = (if j = i then Some p else table_get j t)" and new: "table_get i t = None"
  shows "\<exists>u. link_active i h = (Ok (), h\<lparr>allocations := u, first_active := Some i\<rparr>) \<and>
    links_ok u (available h) (Some i) (i # act) avs \<and> contents u = (contents t)(i \<mapsto> strip p)"
proof -
  let ?t = "allocations h"
  have c: "contents ?t = (contents t)(i \<mapsto> strip p)" using get by (auto simp: contents_def fun_eq_iff)
  have ci: "contents t i = None" using new by (simp add: contents_def)
  have a: "alinks ?t j = alinks t j" "vlinks ?t j = vlinks t j" if "j \<noteq> i" for j
    using get that by (simp_all add: alinks_def vlinks_def)
  have i: "i \<notin> set act" "\<And>g. g < GROUPS \<Longrightarrow> i \<notin> set (avs g)" using links_okD(4) [OF ok] links_okD(7) [OF ok] ci by force+
  have act: "dlist (alinks ?t) act (first_active h)"
    using links_okD(3) [OF ok] dlist_frame [of i "alinks ?t" "alinks t" act, OF a(1) i(1)] by simp
  have ai: "alinks ?t i \<noteq> None" using get by (simp add: alinks_def)
  from link_active_ok [OF inv ai act]
  obtain u where u: "link_active i h = (Ok (), h\<lparr>allocations := u, first_active := Some i\<rparr>)" "relinked ?t u"
    "alinks u = pushed i (first_active h) (alinks ?t)" "vlinks u = vlinks ?t" by blast
  have cu: "contents u = (contents t)(i \<mapsto> strip p)" using u(2) c by (simp add: relinked_def)
  have "dlist (vlinks u) (avs g) (available h ! g)" if g: "g < GROUPS" for g
    using links_okD(6) [OF ok g] dlist_frame [of i "vlinks u" "vlinks t" "avs g", OF _ i(2) [OF g]] a(2) u(4) by simp
  moreover have "dlist (alinks u) (i # act) (Some i)" unfolding u(3) by (rule dlist_push [OF act i(1)])
  ultimately have "links_ok u (available h) (Some i) (i # act) avs"
    using ok relinked_inv [OF u(2)] i(2) by (auto simp: links_ok_def cu)
  with u(1) cu show ?thesis by blast
qed

lemma links_ok_delete:
  assumes ok: "links_ok t av fa act avs" and i: "contents t i \<noteq> None" "\<And>g. g < GROUPS \<Longrightarrow> i \<notin> set (avs g)"
    and u: "table_inv u" "\<And>j. table_get j u = (if j = i then None else table_get j t')"
    and t': "contents t' = contents t" "vlinks t' = vlinks t" "dlist (alinks t') (remove1 i act) fa'"
  shows "links_ok u av fa' (remove1 i act) avs" "contents u = (contents t)(i := None)"
proof -
  show c: "contents u = (contents t)(i := None)" using u(2) t'(1) by (auto simp: contents_def fun_eq_iff)
  have l: "alinks u j = alinks t' j" "vlinks u j = vlinks t j" if "j \<noteq> i" for j
    using u(2) that t'(2) by (auto simp: alinks_def vlinks_def fun_eq_iff)
  have d: "distinct act" "set act = dom (contents t)" using ok by (auto simp: links_ok_def dlist_def)
  have "dlist (alinks u) (remove1 i act) fa'"
    using t'(3) dlist_cong [of "remove1 i act" "alinks u" "alinks t'"] l(1) d by auto
  moreover have "dlist (vlinks u) (avs g) (av ! g)" if g: "g < GROUPS" for g
    using links_okD(6) [OF ok g] dlist_frame [of i "vlinks u" "vlinks t" "avs g", OF _ i(2) [OF g]] l(2) by simp
  moreover have "\<exists>p. contents u j = Some p \<and> group_id p = Some g" if "g < GROUPS" "j \<in> set (avs g)" for g j
    using ok that i(2) c by (auto simp: links_ok_def)
  ultimately show "links_ok u av fa' (remove1 i act) avs"
    using ok u(1) d c by (auto simp: links_ok_def)
qed

lemma remove_page_keeps:
  assumes ok: "links_ok (allocations h) (available h) (first_active h) act avs"
    and p: "contents (allocations h) i = Some p" and g: "\<And>g. group_id p = Some g \<Longrightarrow> g < GROUPS \<and> i \<in> set (avs g)"
    and size: "lsize (block (page_backing p)) \<le> backing_bytes h"
  shows "\<exists>h' avs'. remove_page i h = (Ok (), h') \<and>
    links_ok (allocations h') (available h') (first_active h') (remove1 i act) avs' \<and>
    avs' = (\<lambda>g. remove1 i (avs g)) \<and>
    contents (allocations h') = (contents (allocations h))(i := None) \<and>
    backing_bytes h' = backing_bytes h - lsize (block (page_backing p)) \<and> objects h' = objects h \<and>
    memory h' = memory h \<and> descriptors_of h' = descriptors_of h \<and>
    cursor h' = (if cpage (cursor h) = Some i then \<lparr>cpage = after_in i act, cslot = 0\<rparr> else cursor h) \<and>
    (cpage (cursor h') = cpage (cursor h) \<or> cpage (cursor h) = Some i) \<and>
    (\<forall>n. cpage (cursor h) = Some i \<longrightarrow> cpage (cursor h') = Some n \<longrightarrow> n \<in> set (remove1 i act))"
proof -
  have "\<exists>t av. (case group_id p of Some g \<Rightarrow> unlink_available i g | None \<Rightarrow> lift (Ok ())) h =
      (Ok (), h\<lparr>allocations := t, available := av\<rparr>) \<and>
    links_ok t av (first_active h) act (\<lambda>g. remove1 i (avs g)) \<and> contents t = contents (allocations h)"
  proof (cases "group_id p")
    case None
    have "i \<notin> set (avs g)" if "g < GROUPS" for g using links_okD(7) [OF ok that, of i] p None by auto
    then have "links_ok (allocations h) (available h) (first_active h) act (\<lambda>g. remove1 i (avs g))"
      using ok links_ok_cong [of avs "\<lambda>g. remove1 i (avs g)"] by (simp add: remove1_idem)
    then show ?thesis using None by (intro exI [of _ "allocations h"] exI [of _ "available h"]) simp
  next
    case (Some g0)
    have "i \<notin> set (avs g)" if "g < GROUPS" "g \<noteq> g0" for g using links_okD(7) [OF ok that(1), of i] p Some that(2) by auto
    then have "links_ok t av fa act (avs(g0 := remove1 i (avs g0))) = links_ok t av fa act (\<lambda>g. remove1 i (avs g))" for t av fa
      by (intro links_ok_cong) (simp add: remove1_idem)
    then show ?thesis using unlink_available_keeps [OF ok, of g0 i] g [OF Some] Some by auto
  qed
  then obtain t av where u: "(case group_id p of Some g \<Rightarrow> unlink_available i g | None \<Rightarrow> lift (Ok ())) h =
      (Ok (), h\<lparr>allocations := t, available := av\<rparr>)"
    and ok1: "links_ok t av (first_active h) act (\<lambda>g. remove1 i (avs g))" and c1: "contents t = contents (allocations h)" by blast
  obtain q0 q where q: "table_get i (allocations h) = Some q0" "p = strip q0" "table_get i t = Some q" "strip q = strip q0"
    using p c1 by (metis contents_iff)
  define l where "l = page_active q"
  define cur where "cur = (if cpage (cursor h) = Some i then \<lparr>cpage = successor l, cslot = 0\<rparr> else cursor h)"
  define h2 where "h2 = h\<lparr>allocations := t, available := av, cursor := cur\<rparr>"
  have h2: "allocations h2 = t" "first_active h2 = first_active h" by (simp_all add: h2_def)
  have iact: "i \<in> set act" using links_okD(4) [OF ok] p by auto
  then obtain xs ys where s: "act = xs @ i # ys" "i \<notin> set xs" by (meson split_list_first)
  have al: "alinks (allocations h2) i = Some l" using q by (simp add: alinks_def h2 l_def)
  have dl: "dlist (alinks (allocations h2)) (xs @ i # ys) (first_active h2)" using links_okD(3) [OF ok1] s by (simp add: h2)
  have "table_inv (allocations h2)" using links_okD(1) [OF ok1] h2 by simp
  define fa where "fa = (if previous l = None then successor l else first_active h2)"
  from unlink_active_ok [OF \<open>table_inv (allocations h2)\<close> dl al]
  obtain t2 where t2: "unlink_active i l h2 = (Ok (), h2\<lparr>allocations := t2, first_active := fa\<rparr>)"
    "relinked t t2" "alinks t2 = unlinked l (alinks t)" "vlinks t2 = vlinks t" unfolding fa_def h2(1) by blast
  note ul = dlist_unlink [OF dl al]
  have rm: "remove1 i act = xs @ ys" using s by (simp add: remove1_append)
  obtain q2 where q2: "table_get i t2 = Some q2" "strip q2 = p" using t2(2) q by (metis contents_iff relinked_def)
  from directory.rem_law [OF relinked_inv [OF t2(2)] q2(1)]
  obtain t3 where t3: "table_remove i t2 = Some (q2, t3)" "table_inv t3"
    "\<And>j. table_get j t3 = (if j = i then None else table_get j t2)" by auto
  have bytes: "page_backing q2 = page_backing p" using q2(2) strip_simps(4) by metis
  have ni: "i \<notin> set (remove1 i (avs g))" if "g < GROUPS" for g
    using links_okD(6) [OF ok that] by (simp add: dlist_def)
  have ok3: "links_ok t3 av fa (remove1 i act) (\<lambda>g. remove1 i (avs g))" "contents t3 = (contents t)(i := None)"
  proof -
    have a: "contents t i \<noteq> None" using p c1 by simp
    have b: "contents t2 = contents t" using t2(2) by (simp add: relinked_def)
    have d: "dlist (alinks t2) (remove1 i act) fa" using ul(1) t2(3) rm by (simp add: fa_def h2)
    show "links_ok t3 av fa (remove1 i act) (\<lambda>g. remove1 i (avs g))" "contents t3 = (contents t)(i := None)"
      using links_ok_delete [OF ok1 a _ t3(2,3) b t2(4) d] ni by simp_all
  qed
  define h' where "h' = h2\<lparr>allocations := t3, first_active := fa,
    backing_bytes := backing_bytes h - lsize (block (page_backing p))\<rparr>"
  have mod: "move_cursor i (successor l) (h\<lparr>allocations := t, available := av\<rparr>) = h2"
    by (simp add: move_cursor_def h2_def cur_def)
  have grp: "group_id q0 = group_id p" using q(2) by simp
  have drp: "drop_page i (h2\<lparr>allocations := t2, first_active := fa\<rparr>) = (Ok (), h')"
    using size by (simp add: drop_page_def t3(1) bytes h'_def h2_def Let_def)
  have "remove_page i h = (Ok (), h')"
    using q(1,3) by (simp add: remove_page_def heap_page_def grp act_then_Ok u mod l_def [symmetric] t2(1) drp)
  moreover have "n \<in> set (remove1 i act)" if "cpage (cursor h) = Some i" "cpage (cursor h') = Some n" for n
    using that ul(3) rm by (auto simp: h'_def h2_def cur_def split: list.splits)
  moreover have "successor l = after_in i act" using ul(3) s after_in_split by simp
  ultimately show ?thesis using ok3 c1 by (intro exI [of _ h'] exI [of _ "\<lambda>g. remove1 i (avs g)"]) (auto simp: h'_def h2_def cur_def)
qed

end
