(* ===== verification/Gc_Heap.thy ===== *)
theory Gc_Heap
  imports Gc_Physical
begin

text \<open>
  Correctness of the physical heap of \<open>Gc_Physical\<close>. \<open>heap_inv\<close> says that the active list holds
  every page, that a page is in the available list of its group exactly when it has a free
  slot, that every page is well-formed, in use and in a block of its own, that the byte and
  object counts are the sums over the pages, and that every occupied slot carries a header
  naming its page and a registered descriptor. \<open>slot_heap\<close> is the interface the allocation
  code relies on, interpreted on \<^verbatim>\<open>reserve\<close>, \<^verbatim>\<open>commit\<close> and
  \<^verbatim>\<open>release_slot\<close>. The system allocator is assumed to return blocks that do not
  overlap the blocks it has not got back (\<open>fresh_alloc\<close>).
\<close>

section \<open>Definitions\<close>

subsection \<open>Reference definitions\<close>

definition page_bytes :: "page \<Rightarrow> nat" where
  "page_bytes p = lsize (block (page_backing p))"

definition page_objects :: "page \<Rightarrow> nat" where
  "page_objects p = length (filter (\<lambda>s. slot_state p s = Occupied) [0..<page_slots p])"

text \<open>The slots of a page lie in its block.\<close>

fun block_fits :: "page \<Rightarrow> bool" where
  "block_fits (Small b h) \<longleftrightarrow> SLAB_BYTES \<le> lsize (block b)"
| "block_fits (Large b h) \<longleftrightarrow> 0 < lsize (block b)"

definition blocks_apart :: "nat \<Rightarrow> nat \<Rightarrow> page \<Rightarrow> bool" where
  "blocks_apart a n p \<longleftrightarrow> a + n \<le> base (page_backing p) \<or> base (page_backing p) + page_bytes p \<le> a"

definition pages_ok :: "nat set \<Rightarrow> (nat \<Rightarrow> page option) \<Rightarrow> bool" where
  "pages_ok X c \<longleftrightarrow>
     (\<forall>i p. c i = Some p \<longrightarrow> page_inv p \<and> block_fits p \<and> (i \<notin> X \<longrightarrow> page_free p < page_slots p)) \<and>
     (\<forall>i j p q. c i = Some p \<longrightarrow> c j = Some q \<longrightarrow> i \<noteq> j \<longrightarrow> blocks_apart (base (page_backing p)) (page_bytes p) q)"

definition total :: "(page \<Rightarrow> nat) \<Rightarrow> (nat \<Rightarrow> page option) \<Rightarrow> nat" where
  "total f c = (\<Sum>i \<in> dom c. f (the (c i)))"

text \<open>Every occupied slot holds a header that names its own page and a registered descriptor.\<close>

definition memory_ok :: "(nat \<Rightarrow> object_header option) \<Rightarrow> descriptors \<Rightarrow> (nat \<Rightarrow> page option) \<Rightarrow> bool" where
  "memory_ok m ds c \<longleftrightarrow> registry_inv ds \<and>
     (\<forall>i p s a. c i = Some p \<longrightarrow> slot_state p s = Occupied \<longrightarrow> page_pointer p s = Ok a \<longrightarrow>
        (\<exists>d. m a = Some \<lparr>hdescriptor = d, hallocation = i\<rparr> \<and> registered d ds \<noteq> None))"

text \<open>The invariant with its lists, where the pages in \<open>X\<close> may be empty or wrongly listed.\<close>

definition heap_at :: "nat set \<Rightarrow> physical_heap \<Rightarrow> nat list \<Rightarrow> (nat \<Rightarrow> nat list) \<Rightarrow> bool" where
  "heap_at X h act avs \<longleftrightarrow>
     (let c = contents (allocations h)
      in links_ok (allocations h) (available h) (first_active h) act avs \<and> listed_ok X c avs \<and> pages_ok X c \<and>
         backing_bytes h = total page_bytes c \<and> objects h = total page_objects c \<and>
         (\<forall>i. cpage (cursor h) = Some i \<longrightarrow> c i \<noteq> None) \<and> memory_ok (memory h) (descriptors_of h) c)"

definition heap_inv :: "physical_heap \<Rightarrow> bool" where
  "heap_inv h \<longleftrightarrow> (\<exists>act avs. heap_at {} h act avs)"

text \<open>What the rest of the collector sees of the heap: the state of every slot of every page.\<close>

definition slot_at :: "physical_heap \<Rightarrow> nat \<Rightarrow> nat \<Rightarrow> slot_status" where
  "slot_at h i = (case contents (allocations h) i of None \<Rightarrow> (\<lambda>_. Vacant) | Some p \<Rightarrow> slot_state p)"

text \<open>The address of a slot.\<close>

definition slot_address :: "physical_heap \<Rightarrow> nat \<Rightarrow> nat \<Rightarrow> nat option" where
  "slot_address h i s =
     (case contents (allocations h) i of None \<Rightarrow> None
      | Some p \<Rightarrow> (case page_pointer p s of Ok a \<Rightarrow> Some a | _ \<Rightarrow> None))"

text \<open>The marks of a page; a page that does not exist has none.\<close>

definition marks_at :: "physical_heap \<Rightarrow> nat \<Rightarrow> page_marks" where
  "marks_at h i = (case contents (allocations h) i of None \<Rightarrow> marks_default | Some p \<Rightarrow> page_marks_of p)"

text \<open>What is asked of the trailer types, of a descriptor and of the allocator.\<close>

definition page_types_ok :: "trailer_types \<Rightarrow> bool" where
  "page_types_ok tt \<longleftrightarrow> types_ok tt \<and> 0 < lalign (large_type tt)"

definition descriptor_ok :: "descriptor \<Rightarrow> bool" where
  "descriptor_ok d \<longleftrightarrow> 0 < lsize (desc_layout d) \<and> (\<forall>g. desc_group d = Some g \<longrightarrow> g < GROUPS)"

definition fresh_alloc :: "(layout \<Rightarrow> nat option) \<Rightarrow> physical_heap \<Rightarrow> bool" where
  "fresh_alloc alloc h \<longleftrightarrow>
     (\<forall>l a i p. alloc l = Some a \<longrightarrow> contents (allocations h) i = Some p \<longrightarrow> blocks_apart a (lsize l) p)"

text \<open>An operation that adds or keeps pages leaves the existing blocks where they are.\<close>

definition same_block :: "page \<Rightarrow> page \<Rightarrow> bool" where
  "same_block p q \<longleftrightarrow> page_backing q = page_backing p \<and> page_slots q = page_slots p \<and> page_pointer q = page_pointer p"

definition keeps_blocks :: "physical_heap \<Rightarrow> physical_heap \<Rightarrow> bool" where
  "keeps_blocks h h' \<longleftrightarrow> (\<forall>j p. contents (allocations h) j = Some p \<longrightarrow>
     (\<exists>q. contents (allocations h') j = Some q \<and> same_block p q))"

text \<open>The state of a slot changes and nothing else that is visible.\<close>

definition set_slot :: "nat \<Rightarrow> nat \<Rightarrow> slot_status \<Rightarrow> (nat \<Rightarrow> nat \<Rightarrow> slot_status) \<Rightarrow> nat \<Rightarrow> nat \<Rightarrow> slot_status" where
  "set_slot i s x f = f(i := (f i)(s := x))"

text \<open>What an allocation request must satisfy, and when a descriptor can take one more object.\<close>

record request =
  req_types :: trailer_types
  req_mem :: reserve
  req_alloc :: "layout \<Rightarrow> nat option"
  req_descriptor :: descriptor
  req_limit :: nat

definition request_ok :: "request \<Rightarrow> physical_heap \<Rightarrow> bool" where
  "request_ok q h \<longleftrightarrow> page_types_ok (req_types q) \<and> descriptor_ok (req_descriptor q) \<and> fresh_alloc (req_alloc q) h"

definition heap_request :: "request \<Rightarrow> reservation action" where
  "heap_request q = heap_reserve (req_types q) (req_mem q) (req_alloc q) (req_descriptor q) (req_limit q)"

definition accepts :: "nat \<Rightarrow> physical_heap \<Rightarrow> bool" where
  "accepts d h \<longleftrightarrow> (\<exists>e. registered d (descriptors_of h) = Some e \<and> uses e < usize_max)"

definition sample_heap :: physical_heap where
  "sample_heap = (physical_default (\<lambda>_. None))\<lparr>descriptors_of := sample_registry\<rparr>"

definition sample_descriptor :: descriptor where
  "sample_descriptor = \<lparr>desc_id = 0, desc_rep = Rust 3, desc_layout = \<lparr>lsize = 24, lalign = 8\<rparr>,
     desc_group = None, payload_offset = 8, state_layout = \<lparr>lsize = 0, lalign = 1\<rparr>, desc_kind = EdgeFree\<rparr>"

definition sample_request :: request where
  "sample_request = \<lparr>req_types = sample_types, req_mem = (\<lambda>_. True), req_alloc = (\<lambda>_. Some 4096),
     req_descriptor = sample_descriptor, req_limit = 1000000\<rparr>"

section \<open>Totals and addresses\<close>

lemma total_new: "finite (dom c) \<Longrightarrow> c i = None \<Longrightarrow> total f (c(i \<mapsto> p)) = f p + total f c"
proof -
  assume a: "finite (dom c)" "c i = None"
  have "(\<Sum>x \<in> dom c. f (the ((c(i \<mapsto> p)) x))) = (\<Sum>x \<in> dom c. f (the (c x)))"
    by (rule sum.cong) (use a in auto)
  then show ?thesis using a by (simp add: total_def domIff)
qed

lemma total_drop: "finite (dom c) \<Longrightarrow> c i = Some p \<Longrightarrow> f p + total f (c(i := None)) = total f c"
  using total_new [of "c(i := None)" i f p] by (auto simp: map_upd_triv)

lemma total_change:
  "finite (dom c) \<Longrightarrow> c i = Some p \<Longrightarrow> f p + total f (c(i \<mapsto> q)) = f q + total f c"
proof -
  assume a: "finite (dom c)" "c i = Some p"
  let ?c = "c(i := None)"
  have "total f (c(i \<mapsto> q)) = f q + total f ?c" using total_new [of ?c i f q] a by simp
  then show ?thesis using total_drop [OF a, of f] by simp
qed

lemma total_member: "finite (dom c) \<Longrightarrow> c i = Some p \<Longrightarrow> f p \<le> total f c"
  using total_drop [of c i p f] by simp

lemma group_stride_in: "group_stride g \<in> set STRIDES"
proof -
  have "g mod 48 div 2 < length STRIDES" by (simp add: STRIDES_def less_mult_imp_div_less)
  then show ?thesis by (simp add: group_stride_def)
qed

lemma pointer_in_block:
  assumes "page_inv p" "block_fits p" "page_pointer p s = Ok a"
  shows "base (page_backing p) \<le> a" "a < base (page_backing p) + page_bytes p"
proof -
  have "base (page_backing p) \<le> a \<and> a < base (page_backing p) + page_bytes p"
  proof (cases p)
    case (Small b h)
    let ?st = "stride (geometry h)"
    have st: "0 < ?st" "gslots (geometry h) = SLAB_BYTES div ?st"
      using assms(1) Small stride_bounds [of "stride (geometry h)"] by auto
    have s: "s < gslots (geometry h)" "a = base b + s * ?st" using assms(3) Small by auto
    have "Suc s * ?st \<le> gslots (geometry h) * ?st" using s(1) by (intro mult_le_mono1) simp
    also have "\<dots> \<le> SLAB_BYTES" by (simp add: st)
    finally have "s * ?st + ?st \<le> SLAB_BYTES" by simp
    then show ?thesis using s st(1) assms(2) Small by (auto simp: page_bytes_def)
  next
    case (Large b h)
    then show ?thesis using assms by (auto simp: page_bytes_def)
  qed
  then show "base (page_backing p) \<le> a" "a < base (page_backing p) + page_bytes p" by auto
qed

text \<open>An address belongs to at most one slot.\<close>

lemma address_unique:
  assumes ok: "pages_ok X c" and p: "c i = Some p" "page_pointer p s = Ok a" and q: "c j = Some q" "page_pointer q r = Ok a"
  shows "i = j" "s = r"
proof -
  have inv: "page_inv p" "block_fits p" "page_inv q" "block_fits q" using ok p q by (auto simp: pages_ok_def)
  show ij: "i = j"
  proof (rule ccontr)
    assume "i \<noteq> j"
    then have "blocks_apart (base (page_backing p)) (page_bytes p) q" using ok p(1) q(1) by (auto simp: pages_ok_def)
    then show False using pointer_in_block [OF inv(1,2) p(2)] pointer_in_block [OF inv(3,4) q(2)]
      by (auto simp: blocks_apart_def)
  qed
  have "s < page_slots p" "r < page_slots p" using p(2) q ij p(1) by (cases p; auto)+
  then show "s = r" using pointer_slot_of [OF inv(1)] p q ij by (metis option.inject outcome.inject(1))
qed

lemma pages_okD:
  assumes "pages_ok X c" "c i = Some p"
  shows "page_inv p" "block_fits p" "i \<notin> X \<Longrightarrow> page_free p < page_slots p"
  using assms by (auto simp: pages_ok_def)

text \<open>Replacing a page by one in the same block.\<close>

lemma pages_ok_write:
  assumes ok: "pages_ok X c" and p: "c i = Some p" and q: "page_inv q" "same_frame p q"
    and Y: "X - {i} \<subseteq> Y" "i \<notin> Y \<Longrightarrow> page_free q < page_slots q"
  shows "pages_ok Y (c(i \<mapsto> q))"
proof -
  have b: "page_backing q = page_backing p" using q(2) by (simp add: same_frame_def)
  then have bytes: "page_bytes q = page_bytes p" by (simp add: page_bytes_def)
  have fits: "block_fits q" using pages_okD(2) [OF ok p] b q(2) by (cases p; cases q) (auto simp: same_frame_def)
  have ap: "blocks_apart (base (page_backing x)) (page_bytes x) y"
    if "c j = Some x" "c k = Some y" "j \<noteq> k" for j k x y using ok that by (auto simp: pages_ok_def)
  have "\<And>j k x y. (c(i \<mapsto> q)) j = Some x \<Longrightarrow> (c(i \<mapsto> q)) k = Some y \<Longrightarrow> j \<noteq> k \<Longrightarrow>
      blocks_apart (base (page_backing x)) (page_bytes x) y"
    using ap p b bytes by (auto simp: blocks_apart_def split: if_splits)
  moreover have "page_inv x \<and> block_fits x \<and> (j \<notin> Y \<longrightarrow> page_free x < page_slots x)" if "(c(i \<mapsto> q)) j = Some x" for j x
  proof (cases "j = i")
    case True
    then show ?thesis using that q(1) fits Y(2) by auto
  next
    case False
    then have "c j = Some x" "j \<notin> Y \<Longrightarrow> j \<notin> X" using that Y(1) by auto
    then show ?thesis using pages_okD [OF ok] by blast
  qed
  ultimately show ?thesis unfolding pages_ok_def by blast
qed

lemma pages_ok_mono: "pages_ok X c \<Longrightarrow> X \<subseteq> Y \<Longrightarrow> pages_ok Y c"
  by (auto simp: pages_ok_def)

lemma heap_inv_empty:
  assumes "registry_inv ds"
  shows "heap_inv ((physical_default m)\<lparr>descriptors_of := ds\<rparr>)"
proof -
  have c: "contents table_default = (\<lambda>_. None)" by (simp add: contents_def fun_eq_iff)
  have "heap_at {} ((physical_default m)\<lparr>descriptors_of := ds\<rparr>) [] (\<lambda>_. [])"
    using assms directory.inv_empty
    by (simp add: heap_at_def physical_default_def c links_ok_def listed_ok_def pages_ok_def total_def memory_ok_def dlist_def)
  then show ?thesis unfolding heap_inv_def by blast
qed

section \<open>Operations on slots keep the invariant\<close>

lemma same_block_refl [simp]: "same_block p p"
  by (simp add: same_block_def)

lemma same_block_sym: "same_block p q \<Longrightarrow> same_block q p"
  by (simp add: same_block_def)

lemma same_block_trans: "same_block p q \<Longrightarrow> same_block q r \<Longrightarrow> same_block p r"
  by (simp add: same_block_def)

lemma same_frame_block: "same_frame p q \<Longrightarrow> same_block p q"
  by (simp add: same_frame_def same_block_def fun_eq_iff)

lemma strip_links:
  "page_active (strip p) = links_default"
  "page_available (strip p) = (if group_id p = None then Panic ''small page'' else Ok links_default)"
  by (cases p; simp)+

lemma same_frame_strip: "same_frame p q \<Longrightarrow> same_frame (strip p) (strip q)"
  by (simp add: same_frame_def strip_links)

lemma strip_idem [simp]: "strip (strip p) = strip p"
  by (cases p) simp_all

lemma memory_ok_write:
  assumes "memory_ok m ds c" "c i = Some p" "same_frame p q" "\<And>s. slot_state q s = Occupied \<Longrightarrow> slot_state p s = Occupied"
  shows "memory_ok m ds (c(i \<mapsto> q))"
  using assms unfolding memory_ok_def same_frame_def by (auto split: if_splits) metis+

lemma objects_change:
  assumes "slot_state q = (slot_state p)(s := x)" "page_slots q = page_slots p" "s < page_slots p" "slot_state p s = y" "x \<noteq> y"
  shows "page_objects q + (if y = Occupied then 1 else 0) = page_objects p + (if x = Occupied then 1 else 0)"
  using count_update [OF assms(3), of "slot_state p" x Occupied] assms by (auto simp: page_objects_def)

lemma heap_atD:
  assumes "heap_at X h act avs"
  shows "links_ok (allocations h) (available h) (first_active h) act avs" "listed_ok X (contents (allocations h)) avs"
    "pages_ok X (contents (allocations h))" "backing_bytes h = total page_bytes (contents (allocations h))"
    "objects h = total page_objects (contents (allocations h))"
    "\<And>i. cpage (cursor h) = Some i \<Longrightarrow> contents (allocations h) i \<noteq> None"
    "memory_ok (memory h) (descriptors_of h) (contents (allocations h))" "finite (dom (contents (allocations h)))"
proof -
  show "links_ok (allocations h) (available h) (first_active h) act avs" using assms by (simp add: heap_at_def Let_def)
  from links_okD(4) [OF this] show "finite (dom (contents (allocations h)))" by (metis List.finite_set)
qed (use assms in \<open>simp_all add: heap_at_def Let_def\<close>)

lemma slot_less: "slot_state p s \<noteq> Vacant \<Longrightarrow> s < page_slots p"
  by (cases p) (auto simp: slot_state_def split: if_splits)

lemma group_bound: "page_inv p \<Longrightarrow> group_id p = Some g \<Longrightarrow> g < GROUPS"
  by (cases p) auto

text \<open>Where a page stands after one of its slots changed: the effect on all parts of the
  invariant but the lists of available pages.\<close>

lemma heap_at_slot_change:
  assumes h: "heap_at X h act avs" and p: "contents (allocations h) i = Some p"
    and q: "page_inv q" "same_frame p q" "slot_state q = (slot_state p)(s := x)" "s < page_slots p" "slot_state p s \<noteq> x"
    and occ: "x \<noteq> Occupied" "slot_state p s \<noteq> Occupied"
    and h': "links_ok t (available h) (first_active h) act avs" "contents t = (contents (allocations h))(i \<mapsto> q)"
  shows "heap_at (insert i X) (h\<lparr>allocations := t\<rparr>) act avs"
proof -
  note D = heap_atD [OF h]
  have "page_objects q = page_objects p"
    using objects_change [OF q(3), of "slot_state p s"] q occ by (simp add: same_frame_def)
  moreover have "page_bytes q = page_bytes p" using q(2) by (simp add: same_frame_def page_bytes_def)
  ultimately have tot: "total page_objects (contents t) = objects h" "total page_bytes (contents t) = backing_bytes h"
    using total_change [OF D(8) p, of page_objects q] total_change [OF D(8) p, of page_bytes q] D(4,5) h'(2) by simp_all
  moreover have "pages_ok (insert i X) (contents t)" unfolding h'(2)
    using D(3) p q(1,2) by (rule pages_ok_write) auto
  moreover have "memory_ok (memory h) (descriptors_of h) (contents t)" unfolding h'(2)
    using D(7) p q(2) by (rule memory_ok_write) (use q(3) occ in \<open>auto split: if_splits\<close>)
  moreover have "listed_ok (insert i X) (contents t) avs" using D(2) by (auto simp: listed_ok_def h'(2))
  ultimately show ?thesis using h'(1) D(6) unfolding heap_at_def Let_def by (auto simp: h'(2))
qed

text \<open>Settling the one page that was excepted.\<close>

lemma heap_at_settle:
  assumes "heap_at {i} h act avs" "contents (allocations h) i = Some p" "page_free p < page_slots p"
    "\<And>g. group_id p = Some g \<Longrightarrow> i \<in> set (avs g) \<longleftrightarrow> 0 < page_free p"
  shows "heap_at {} h act avs"
proof -
  note D = heap_atD [OF assms(1)]
  have "page_free x < page_slots x" if "contents (allocations h) j = Some x" for j x
    using that assms(2,3) pages_okD(3) [OF D(3) that] by (cases "j = i") auto
  then have "pages_ok {} (contents (allocations h))" using D(3) unfolding pages_ok_def by blast
  moreover have "j \<in> set (avs g) \<longleftrightarrow> 0 < page_free x"
    if "g < GROUPS" "contents (allocations h) j = Some x" "group_id x = Some g" for g j x
    using that assms(2,4) D(2) by (cases "j = i") (auto simp: listed_ok_def)
  then have "listed_ok {} (contents (allocations h)) avs" by (simp add: listed_ok_def)
  ultimately show ?thesis using assms(1) by (simp add: heap_at_def Let_def)
qed

lemma heap_at_lists:
  assumes h: "heap_at X h act avs" and ok: "links_ok t av (first_active h) act avs'"
    and c: "contents t = contents (allocations h)" and l: "\<And>g j. g < GROUPS \<Longrightarrow> j \<notin> X \<Longrightarrow> j \<in> set (avs' g) \<longleftrightarrow> j \<in> set (avs g)"
  shows "heap_at X (h\<lparr>allocations := t, available := av\<rparr>) act avs'"
  using h ok l unfolding heap_at_def Let_def listed_ok_def by (simp add: c)

lemma take_slot_ok:
  assumes ok: "links_ok (allocations h) av fa act avs" and p: "table_get i (allocations h) = Some p" "page_inv p" "0 < page_free p"
  shows "\<exists>t q s. take_slot i h = (Ok s, h\<lparr>allocations := t\<rparr>) \<and> links_ok t av fa act avs \<and> table_get i t = Some q \<and>
    contents t = (contents (allocations h))(i \<mapsto> strip q) \<and> same_frame p q \<and> page_inv q \<and> s < page_slots p \<and>
    slot_state p s = Vacant \<and> slot_state q = (slot_state p)(s := Unavailable) \<and> Suc (page_free q) = page_free p \<and>
    page_marks_of q = clear_slot s (page_marks_of p)"
proof -
  from reserve_spec [OF p(2,3)] obtain q s where q: "page_reserve p = Ok (q, s)" "s < page_slots p" "slot_state p s = Vacant"
    "slot_state q = (slot_state p)(s := Unavailable)" "page_inv q" "same_frame p q" "page_marks_of q = clear_slot s (page_marks_of p)" by blast
  have sl: "page_slots q = page_slots p" using q(6) by (simp add: same_frame_def)
  from page_write_ok [OF ok p(1), of "\<lambda>_. Ok q" q] q(6)
  obtain t where t: "page_mut i (\<lambda>_. Ok q) h = (Ok (), h\<lparr>allocations := t\<rparr>)" "links_ok t av fa act avs"
    "contents t = (contents (allocations h))(i \<mapsto> strip q)" by auto
  have th: "t = table_update i (\<lambda>_. q) (allocations h)"
    using t(1) p(1) by (simp add: page_mut_def heap_page_def) (metis physical_heap.select_convs(1) physical_heap.surjective physical_heap.update_convs(1))
  have "take_slot i h = (Ok s, h\<lparr>allocations := t\<rparr>)" using p(1) q(1) th by (simp add: take_slot_def heap_page_def)
  moreover have "table_get i t = Some q"
    using update_ok [OF links_okD(1) [OF ok], of i "\<lambda>_. q"] p(1) th by simp
  moreover have "Suc (page_free q) = page_free p" by (rule reserve_free) (use p q sl in auto)
  ultimately show ?thesis using t q by blast
qed

lemma contents_get: "contents t i = Some p \<Longrightarrow> \<exists>q. table_get i t = Some q \<and> strip q = p"
  by (auto simp: contents_def)

lemma slot_at_simps: "contents (allocations h) i = Some p \<Longrightarrow> slot_at h i = slot_state p"
  by (simp add: slot_at_def)

lemma slot_at_update:
  assumes "contents (allocations h') = (contents (allocations h))(i \<mapsto> q)" "slot_state q = (slot_at h i)(s := x)"
  shows "slot_at h' = (slot_at h)(i := (slot_at h i)(s := x))"
  using assms by (auto simp: slot_at_def fun_eq_iff split: option.splits)

lemma slot_at_cong: "contents (allocations h') = contents (allocations h) \<Longrightarrow> slot_at h' = slot_at h"
  by (simp add: slot_at_def fun_eq_iff)

lemma reserve_in_ok:
  assumes h: "heap_at {i} h act avs" and p: "contents (allocations h) i = Some p" "0 < page_free p"
    and av: "\<And>g. group_id p = Some g \<Longrightarrow> i \<in> set (avs g)"
  shows "\<exists>r h' avs'. reserve_in (group_id p) i h = (Ok r, h') \<and> heap_at {} h' act avs' \<and> rpage r = i \<and>
    slot_at h i (rslot r) = Vacant \<and> slot_at h' = (slot_at h)(i := (slot_at h i)(rslot r := Unavailable)) \<and>
    slot_address h' i (rslot r) = Some (rreference r) \<and> rslot r < page_slots p \<and>
    backing_bytes h' = backing_bytes h \<and> objects h' = objects h \<and> memory h' = memory h \<and> descriptors_of h' = descriptors_of h \<and>
    cursor h' = cursor h \<and>
    (\<exists>q. contents (allocations h') = (contents (allocations h))(i \<mapsto> q) \<and> same_block p q \<and>
       page_marks_of q = clear_slot (rslot r) (page_marks_of p))"
proof -
  note D = heap_atD [OF h]
  obtain p0 where p0: "table_get i (allocations h) = Some p0" "strip p0 = p" using contents_get p(1) by blast
  have inv: "page_inv p" "page_inv p0" "0 < page_free p0" using pages_okD(1) [OF D(3) p(1)] p0(2) p(2) by auto
  from take_slot_ok [OF D(1) p0(1) inv(2,3)]
  obtain t q s where q: "take_slot i h = (Ok s, h\<lparr>allocations := t\<rparr>)" "links_ok t (available h) (first_active h) act avs"
    "table_get i t = Some q" "contents t = (contents (allocations h))(i \<mapsto> strip q)" "same_frame p0 q" "page_inv q"
    "s < page_slots p0" "slot_state p0 s = Vacant" "slot_state q = (slot_state p0)(s := Unavailable)"
    "Suc (page_free q) = page_free p0" "page_marks_of q = clear_slot s (page_marks_of p0)" by blast
  have sf: "same_frame p (strip q)" using same_frame_strip [OF q(5)] p0(2) by simp
  have st: "slot_state (strip q) = (slot_state p)(s := Unavailable)" "slot_state p s = Vacant" "s < page_slots p"
    using q(7-9) p0(2) by auto
  have gr: "group_id q = group_id p" "page_slots q = page_slots p" using q(5) p0(2) by (auto simp: same_frame_def)
  let ?h = "h\<lparr>allocations := t\<rparr>"
  have h1: "heap_at {i} ?h act avs"
    using heap_at_slot_change [OF h p(1), of "strip q" s Unavailable t] sf st q(2,4,6) by auto
  have c1: "contents (allocations ?h) i = Some (strip q)" using q(4) by simp
  have less: "page_free q < page_slots q" using q(7,10) free_count [OF inv(1)] gr(2) p0(2) st(3)
    length_filter_le [of "\<lambda>s. slot_state p s = Vacant" "[0..<page_slots p]"] by auto
  have "\<exists>t' av avs'. (case group_id p of Some g \<Rightarrow> if page_free q = 0 then unlink_available i g else lift (Ok ())
      | None \<Rightarrow> lift (Ok ())) ?h = (Ok (), h\<lparr>allocations := t', available := av\<rparr>) \<and>
    heap_at {} (h\<lparr>allocations := t', available := av\<rparr>) act avs' \<and> contents t' = contents t"
  proof (cases "group_id p")
    case None
    have "heap_at {} ?h act avs" by (rule heap_at_settle [OF h1 c1]) (use None less gr in simp_all)
    then show ?thesis using None by (intro exI [of _ t] exI [of _ "available h"] exI [of _ avs]) simp
  next
    case (Some g)
    note g = group_bound [OF inv(1) Some]
    show ?thesis
    proof (cases "page_free q = 0")
      case False
      have "heap_at {} ?h act avs" by (rule heap_at_settle [OF h1 c1]) (use less av gr False in simp_all)
      then show ?thesis using False Some by (intro exI [of _ t] exI [of _ "available h"] exI [of _ avs]) simp
    next
      case True
      have lk: "links_ok (allocations ?h) (available ?h) (first_active h) act avs" using q(2) by simp
      from unlink_available_keeps [OF lk g av [OF Some]]
      obtain t' av' where u: "unlink_available i g ?h = (Ok (), h\<lparr>allocations := t', available := av'\<rparr>)"
        "links_ok t' av' (first_active h) act (avs(g := remove1 i (avs g)))" "contents t' = contents t" by auto
      let ?avs = "avs(g := remove1 i (avs g))"
      have dis: "distinct (avs g)" using links_okD(6) [OF lk g] by (simp add: dlist_def)
      have "heap_at {i} (?h\<lparr>allocations := t', available := av'\<rparr>) act ?avs"
        by (rule heap_at_lists [OF h1]) (use u(2,3) dis in auto)
      then have "heap_at {} (?h\<lparr>allocations := t', available := av'\<rparr>) act ?avs"
        by (rule heap_at_settle [where p = "strip q"]) (use u(3) c1 less gr True dis Some in \<open>auto split: if_splits\<close>)
      then show ?thesis using u True Some by auto
    qed
  qed
  then obtain t' av avs' where u: "(case group_id p of Some g \<Rightarrow> if page_free q = 0 then unlink_available i g else lift (Ok ())
      | None \<Rightarrow> lift (Ok ())) ?h = (Ok (), h\<lparr>allocations := t', available := av\<rparr>)"
    "heap_at {} (h\<lparr>allocations := t', available := av\<rparr>) act avs'" "contents t' = contents t" by blast
  let ?h' = "h\<lparr>allocations := t', available := av\<rparr>"
  obtain q' where q': "table_get i t' = Some q'" "strip q' = strip q" using contents_get [of t' i "strip q"] u(3) q(4) by auto
  have "page_pointer q' s = page_pointer p s" using sf q'(2) unfolding same_frame_def by (metis strip_simps(8))
  moreover obtain a where a: "page_pointer p s = Ok a" using pointer_slot_of [OF inv(1) st(3)] by blast
  ultimately have ptr: "page_pointer q' s = Ok a" "page_pointer (strip q) s = Ok a" using sf by (simp_all add: same_frame_def)
  let ?r = "\<lparr>rreference = a, rpage = i, rslot = s\<rparr>"
  have "reserve_in (group_id p) i h = (Ok ?r, ?h')"
    using q(3) q'(1) ptr(1) u(1) by (simp add: reserve_in_def act_then_Ok q(1) heap_page_def)
  moreover have "slot_at ?h' = (slot_at h)(i := (slot_at h i)(s := Unavailable))"
    by (rule slot_at_update [where q = "strip q"]) (use u(3) q(4) st p(1) in \<open>auto simp: slot_at_def\<close>)
  moreover have "slot_address ?h' i s = Some a" using u(3) q(4) ptr by (simp add: slot_address_def)
  moreover have "\<exists>q. contents t' = (contents (allocations h))(i \<mapsto> q) \<and> same_block p q \<and>
      page_marks_of q = clear_slot s (page_marks_of p)"
    using u(3) q(4,11) sf p0(2) by (intro exI [of _ "strip q"]) (auto simp: same_frame_block)
  ultimately show ?thesis using u(2) st p(1)
    by (intro exI [of _ ?r] exI [of _ ?h'] exI [of _ avs']) (simp add: slot_at_def)
qed

lemma heap_at_remove:
  assumes h: "heap_at {i} h act avs" and p: "contents (allocations h) i = Some p" and o: "page_objects p = 0"
    and av: "\<And>g. group_id p = Some g \<Longrightarrow> i \<in> set (avs g)"
  shows "\<exists>h' avs'. remove_page i h = (Ok (), h') \<and> heap_at {} h' (remove1 i act) avs' \<and>
    contents (allocations h') = (contents (allocations h))(i := None) \<and>
    objects h' = objects h \<and> memory h' = memory h \<and> descriptors_of h' = descriptors_of h \<and>
    cursor h' = (if cpage (cursor h) = Some i then \<lparr>cpage = after_in i act, cslot = 0\<rparr> else cursor h) \<and>
    backing_bytes h' + page_bytes p = backing_bytes h"
proof -
  note D = heap_atD [OF h]
  have g: "g < GROUPS \<and> i \<in> set (avs g)" if "group_id p = Some g" for g
    using group_bound [OF pages_okD(1) [OF D(3) p] that] av that by simp
  have size: "lsize (block (page_backing p)) \<le> backing_bytes h"
    using total_member [OF D(8) p, of page_bytes] D(4) by (simp add: page_bytes_def)
  from remove_page_keeps [OF D(1) p g size]
  obtain h' where r: "remove_page i h = (Ok (), h')"
    "links_ok (allocations h') (available h') (first_active h') (remove1 i act) (\<lambda>g. remove1 i (avs g))"
    "contents (allocations h') = (contents (allocations h))(i := None)"
    "backing_bytes h' = backing_bytes h - page_bytes p" "objects h' = objects h"
    "memory h' = memory h" "descriptors_of h' = descriptors_of h"
    "cpage (cursor h') = cpage (cursor h) \<or> cpage (cursor h) = Some i"
    "\<And>n. cpage (cursor h) = Some i \<Longrightarrow> cpage (cursor h') = Some n \<Longrightarrow> n \<in> set (remove1 i act)"
    "cursor h' = (if cpage (cursor h) = Some i then \<lparr>cpage = after_in i act, cslot = 0\<rparr> else cursor h)"
    by (auto simp: page_bytes_def)
  let ?c = "contents (allocations h')"
  have cur: "?c n \<noteq> None" if n: "cpage (cursor h') = Some n" for n
  proof (cases "cpage (cursor h) = Some i")
    case True
    then show ?thesis using r(9) [OF True n] links_okD(4) [OF r(2)] by auto
  next
    case False
    then show ?thesis using r(3,8) n D(6) [of n] by auto
  qed
  have "listed_ok {} ?c (\<lambda>g. remove1 i (avs g))"
    using D(2) links_okD(6) [OF D(1)] by (auto simp: listed_ok_def r(3) dlist_def split: if_splits)
  moreover have "pages_ok {} ?c" using D(3) unfolding pages_ok_def r(3) by (auto split: if_splits)
  moreover have "backing_bytes h' = total page_bytes ?c" "objects h' = total page_objects ?c"
    using r(3-5) D(4,5) total_drop [OF D(8) p, of page_bytes] total_drop [OF D(8) p, of page_objects] o by simp_all
  moreover have "memory_ok (memory h') (descriptors_of h') ?c" using D(7) by (simp add: memory_ok_def r(3,6,7))
  ultimately have "heap_at {} h' (remove1 i act) (\<lambda>g. remove1 i (avs g))"
    using r(2) cur by (simp add: heap_at_def Let_def)
  then show ?thesis using r size by (intro exI [of _ h'] exI [of _ "\<lambda>g. remove1 i (avs g)"]) (simp add: page_bytes_def)
qed

lemma all_free:
  assumes "page_inv p" "page_free p = page_slots p"
  shows "slot_state p s = Vacant" "page_objects p = 0"
proof -
  have "filter (\<lambda>s. slot_state p s = Vacant) [0..<page_slots p] = [0..<page_slots p]"
    using free_count [OF assms(1)] assms(2) filter_id_conv
    by (metis (no_types, lifting) length_upt diff_zero sum_length_filter_compl add_cancel_left_right filter_empty_conv length_0_conv)
  then have v: "slot_state p r = Vacant" if "r < page_slots p" for r using that by (simp add: filter_id_conv)
  then show "slot_state p s = Vacant" using slot_less [of p s] by blast
  then show "page_objects p = 0" using v by (auto simp: page_objects_def filter_empty_conv)
qed

lemma release_slot_ok:
  assumes h: "heap_at {} h act avs" and s: "slot_at h i s = Unavailable"
  shows "\<exists>h' act' avs'. release_slot i s h = (Ok (), h') \<and> heap_at {} h' act' avs' \<and>
    act' = (if contents (allocations h') i = None then remove1 i act else act) \<and>
    cursor h' = (if contents (allocations h') i = None \<and> cpage (cursor h) = Some i
      then \<lparr>cpage = after_in i act, cslot = 0\<rparr> else cursor h) \<and>
    slot_at h' = (slot_at h)(i := (slot_at h i)(s := Vacant)) \<and>
    objects h' = objects h \<and> memory h' = memory h \<and> descriptors_of h' = descriptors_of h \<and>
    (\<forall>j. j \<noteq> i \<longrightarrow> contents (allocations h') j = contents (allocations h) j) \<and>
    (\<forall>q. contents (allocations h') i = Some q \<longrightarrow>
       (\<exists>p. contents (allocations h) i = Some p \<and> same_block p q \<and> page_marks_of q = page_marks_of p))"
proof -
  note D = heap_atD [OF h]
  obtain p where p: "contents (allocations h) i = Some p" "slot_state p s = Unavailable"
    using s by (auto simp: slot_at_def split: option.splits)
  obtain p0 where p0: "table_get i (allocations h) = Some p0" "strip p0 = p" using contents_get p(1) by blast
  have inv: "page_inv p" "page_inv p0" using pages_okD(1) [OF D(3) p(1)] p0(2) by auto
  have s0: "slot_state p0 s = Unavailable" using p(2) p0(2) by auto
  note R = release_spec [OF inv(2) s0]
  define q where "q = page_release s p0"
  from page_write_ok [OF D(1) p0(1), of "\<lambda>p. Ok (page_release s p)" q] R(3)
  obtain t where t: "page_mut i (\<lambda>p. Ok (page_release s p)) h = (Ok (), h\<lparr>allocations := t\<rparr>)"
    "links_ok t (available h) (first_active h) act avs" "contents t = (contents (allocations h))(i \<mapsto> strip q)"
    by (auto simp: q_def)
  have sf: "same_frame p (strip q)" using same_frame_strip [OF R(3)] p0(2) by (simp add: q_def)
  have st: "slot_state (strip q) = (slot_state p)(s := Vacant)" "s < page_slots p"
    using R(1) p0(2) slot_less [of p s] p(2) by (auto simp: q_def)
  have gr: "group_id q = group_id p" "page_slots q = page_slots p" "group_id p0 = group_id p"
    using R(3) p0(2) by (auto simp: same_frame_def q_def)
  have fr: "page_free q = page_free p + 1" "page_free p0 = page_free p" using R(5) p0(2) by (auto simp: q_def)
  let ?h = "h\<lparr>allocations := t\<rparr>"
  have h1: "heap_at {i} ?h act avs"
    using heap_at_slot_change [OF h p(1), of "strip q" s Vacant t] sf st R(2) p(2) t(2,3) by (simp add: q_def)
  have "\<exists>t' av avs'. (case group_id p of Some g \<Rightarrow> if page_free p = 0 then link_available i g else lift (Ok ())
      | None \<Rightarrow> lift (Ok ())) ?h = (Ok (), h\<lparr>allocations := t', available := av\<rparr>) \<and>
    heap_at {i} (h\<lparr>allocations := t', available := av\<rparr>) act avs' \<and> contents t' = contents t \<and>
    (\<forall>g. group_id p = Some g \<longrightarrow> i \<in> set (avs' g))"
  proof (cases "group_id p")
    case None
    then show ?thesis using h1 by (intro exI [of _ t] exI [of _ "available h"] exI [of _ avs]) simp
  next
    case (Some g)
    note g = group_bound [OF inv(1) Some]
    have mem: "i \<in> set (avs g) \<longleftrightarrow> 0 < page_free p" using D(2) g p(1) Some by (auto simp: listed_ok_def)
    show ?thesis
    proof (cases "page_free p = 0")
      case False
      then show ?thesis using Some mem h1 by (intro exI [of _ t] exI [of _ "available h"] exI [of _ avs]) simp
    next
      case True
      have lk: "links_ok (allocations ?h) (available ?h) (first_active h) act avs" using t(2) by simp
      have "contents (allocations ?h) i = Some (strip q)" "group_id (strip q) = Some g" using t(3) gr Some by auto
      from link_available_keeps [OF lk this g] mem True
      obtain t' av' where u: "link_available i g ?h = (Ok (), h\<lparr>allocations := t', available := av'\<rparr>)"
        "links_ok t' av' (first_active h) act (avs(g := i # avs g))" "contents t' = contents t" by auto
      have "heap_at {i} (?h\<lparr>allocations := t', available := av'\<rparr>) act (avs(g := i # avs g))"
        by (rule heap_at_lists [OF h1]) (use u(2,3) in auto)
      then show ?thesis using u True Some by (intro exI [of _ t'] exI [of _ av'] exI [of _ "avs(g := i # avs g)"]) auto
    qed
  qed
  then obtain t' av avs' where u: "(case group_id p of Some g \<Rightarrow> if page_free p = 0 then link_available i g else lift (Ok ())
      | None \<Rightarrow> lift (Ok ())) ?h = (Ok (), h\<lparr>allocations := t', available := av\<rparr>)"
    "heap_at {i} (h\<lparr>allocations := t', available := av\<rparr>) act avs'" "contents t' = contents t"
    "\<And>g. group_id p = Some g \<Longrightarrow> i \<in> set (avs' g)" by blast
  let ?h' = "h\<lparr>allocations := t', available := av\<rparr>"
  obtain q' where q': "table_get i t' = Some q'" "strip q' = strip q" using contents_get [of t' i "strip q"] u(3) t(3) by auto
  have q'f: "page_free q' = page_free q" "page_slots q' = page_slots q" using q'(2) by (metis strip_simps(1,2))+
  have c': "contents (allocations ?h') i = Some (strip q)" using u(3) t(3) by simp
  have run: "release_slot i s h = (if page_free q = page_slots q then remove_page i ?h' else (Ok (), ?h'))"
    using p0(1) q'(1) q'f by (simp add: release_slot_def heap_page_def gr(3) act_then_Ok t(1) u(1) [folded fr(2)])
  have other: "contents t' j = contents (allocations h) j" if "j \<noteq> i" for j using that u(3) t(3) by simp
  show ?thesis
  proof (cases "page_free q = page_slots q")
    case True
    have free: "page_inv (strip q)" "page_free (strip q) = page_slots (strip q)" using True R(2) by (simp_all add: q_def)
    from heap_at_remove [OF u(2) c' all_free(2) [OF free]] u(4) gr(1)
    obtain h2 avs2 where r: "remove_page i ?h' = (Ok (), h2)" "heap_at {} h2 (remove1 i act) avs2"
      "contents (allocations h2) = (contents t')(i := None)" "objects h2 = objects h" "memory h2 = memory h"
      "descriptors_of h2 = descriptors_of h"
      "cursor h2 = (if cpage (cursor h) = Some i then \<lparr>cpage = after_in i act, cslot = 0\<rparr> else cursor h)" by auto
    have "(slot_at h i)(s := Vacant) = (\<lambda>_. Vacant)"
      using all_free(1) [OF free] st(1) p(1) by (simp add: slot_at_def fun_eq_iff)
    then have "slot_at h2 = (slot_at h)(i := (slot_at h i)(s := Vacant))"
      using r(3) other by (auto simp: slot_at_def fun_eq_iff)
    then show ?thesis using run True r other by (intro exI [of _ h2] exI [of _ "remove1 i act"] exI [of _ avs2]) simp
  next
    case False
    have "page_free (strip q) \<le> page_slots (strip q)"
      using free_count [of "strip q"] R(2) length_filter_le [of "\<lambda>s. slot_state (strip q) s = Vacant" "[0..<page_slots (strip q)]"]
      by (simp add: q_def)
    then have "heap_at {} ?h' act avs'"
      by (intro heap_at_settle [OF u(2) c']) (use False fr u(4) gr(1) in simp_all)
    moreover have "slot_at ?h' = (slot_at h)(i := (slot_at h i)(s := Vacant))"
      by (rule slot_at_update [where q = "strip q"]) (use u(3) t(3) st p(1) in \<open>auto simp: slot_at_def\<close>)
    moreover have "same_block p (strip q)" by (rule same_frame_block [OF sf])
    moreover have "page_marks_of q = page_marks_of p" using R(4) p0(2) by (auto simp: q_def)
    ultimately show ?thesis using run False other c' p(1) gr(2)
      by (intro exI [of _ ?h'] exI [of _ act] exI [of _ avs']) simp
  qed
qed

lemma new_page_ok:
  assumes tt: "page_types_ok tt" and d: "descriptor_ok d" and l: "backing_layout tt (desc_layout d) (desc_group d) = Ok l"
    and p: "(case desc_group d of Some g \<Rightarrow> new_small tt alloc g | None \<Rightarrow> new_large tt alloc (desc_layout d)) = Ok p"
  shows "page_inv p" "page_free p = page_slots p" "0 < page_slots p" "\<And>s. slot_state p s = Vacant" "group_id p = desc_group d"
    "block_fits p" "page_bytes p = lsize l" "alloc l = Some (base (page_backing p))" "page_objects p = 0"
    "page_marks_of p = marks_default"
proof -
  show "page_marks_of p = marks_default" using p by (auto simp: new_small_def new_large_def split: option.splits)
  have "page_inv p \<and> page_free p = page_slots p \<and> 0 < page_slots p \<and> group_id p = desc_group d \<and> block_fits p \<and>
    page_bytes p = lsize l \<and> alloc l = Some (base (page_backing p))"
  proof (cases "desc_group d")
    case (Some g)
    have g: "g < GROUPS" using d Some by (simp add: descriptor_ok_def)
    have ns: "new_small tt alloc g = Ok p" using p Some by simp
    note N = new_small_inv [OF group_stride_in g ns]
    have tt': "types_ok tt" using tt by (simp add: page_types_ok_def)
    from backing_layout_ok [OF tt' group_stride_in [of g], of "desc_layout d"] l Some
    have sz: "SLAB_BYTES \<le> lsize l" by auto
    have eq: "backing_layout tt \<lparr>lsize = 0, lalign = 1\<rparr> (Some g) = Ok l" using l Some by (simp add: backing_layout_def)
    from ns eq have "\<exists>b h. p = Small b h \<and> alloc l = Some (base b) \<and> block b = l"
      by (auto simp: new_small_def backing_new_def)
    then obtain b h where b: "p = Small b h" "alloc l = Some (base b)" "block b = l" by blast
    have "0 < page_slots p" using N(1) b(1) stride_bounds [of "stride (geometry h)"] by auto
    then show ?thesis using N b sz Some by (auto simp: page_bytes_def)
  next
    case None
    have nl: "new_large tt alloc (desc_layout d) = Ok p" using p None by simp
    note N = new_large_inv [OF nl]
    from nl l None have "\<exists>off b h. layout_extend (desc_layout d) (large_type tt) = Some (l, off) \<and>
        p = Large b h \<and> alloc l = Some (base b) \<and> block b = l"
      by (auto simp: new_large_def backing_new_def backing_layout_def)
    then obtain off b h where w: "layout_extend (desc_layout d) (large_type tt) = Some (l, off)"
      "p = Large b h" "alloc l = Some (base b)" "block b = l" by blast
    have "lsize (desc_layout d) \<le> lsize l" using layout_extend_spec [OF w(1)] tt by (simp add: page_types_ok_def)
    then show ?thesis using N w None d by (auto simp: page_bytes_def descriptor_ok_def)
  qed
  then show r: "page_inv p" "page_free p = page_slots p" "0 < page_slots p" "group_id p = desc_group d"
    "block_fits p" "page_bytes p = lsize l" "alloc l = Some (base (page_backing p))" by auto
  show "\<And>s. slot_state p s = Vacant" "page_objects p = 0" using all_free [OF r(1,2)] by auto
qed

lemma strip_fits: "block_fits (strip p) = block_fits p"
  by (cases p) simp_all

text \<open>The invariant does not depend on spare capacity of the directory.\<close>

lemma heap_at_capacity:
  assumes h: "heap_at X h act avs" and t: "table_inv t" "\<And>j. table_get j t = table_get j (allocations h)"
  shows "heap_at X (h\<lparr>allocations := t\<rparr>) act avs" "contents t = contents (allocations h)"
proof -
  have "contents t = contents (allocations h)" "alinks t = alinks (allocations h)" "vlinks t = vlinks (allocations h)"
    using t(2) by (simp_all add: contents_def alinks_def vlinks_def fun_eq_iff)
  then show "heap_at X (h\<lparr>allocations := t\<rparr>) act avs" "contents t = contents (allocations h)"
    using h t(1) by (simp_all add: heap_at_def Let_def links_ok_def)
qed

lemma heap_at_new_page:
  assumes h: "heap_at {} h act avs" and i: "contents (allocations h) i = None"
    and p: "page_inv p" "block_fits p" "page_objects p = 0" "\<And>j q. contents (allocations h) j = Some q \<Longrightarrow> blocks_apart (base (page_backing p)) (page_bytes p) q"
    and t: "links_ok t av fa (i # act) avs'" "contents t = (contents (allocations h))(i \<mapsto> p)"
    and l: "\<And>g j. g < GROUPS \<Longrightarrow> j \<noteq> i \<Longrightarrow> j \<in> set (avs' g) \<longleftrightarrow> j \<in> set (avs g)"
  shows "heap_at {i} (h\<lparr>allocations := t, available := av, first_active := fa, backing_bytes := backing_bytes h + page_bytes p\<rparr>)
    (i # act) avs'"
proof -
  note D = heap_atD [OF h]
  let ?c = "contents (allocations h)"
  have "listed_ok {i} (contents t) avs'" using D(2) l by (auto simp: listed_ok_def t(2))
  moreover have "pages_ok {i} (contents t)"
  proof -
    have "blocks_apart (base (page_backing x)) (page_bytes x) y"
      if "(?c(i \<mapsto> p)) j = Some x" "(?c(i \<mapsto> p)) k = Some y" "j \<noteq> k" for j k x y
      using that D(3) p(4) by (auto simp: pages_ok_def blocks_apart_def split: if_splits)
    then show ?thesis using D(3) p(1,2) unfolding pages_ok_def t(2) by (auto split: if_splits)
  qed
  moreover have "memory_ok (memory h) (descriptors_of h) (contents t)"
  proof -
    have "slot_state p s \<noteq> Occupied" for s
      using p(3) slot_less [of p s] by (auto simp: page_objects_def filter_empty_conv)
    then show ?thesis using D(7) by (auto simp: memory_ok_def t(2))
  qed
  moreover have "total page_bytes (contents t) = backing_bytes h + page_bytes p" "total page_objects (contents t) = objects h"
    using total_new [OF D(8) i] D(4,5) p(3) by (simp_all add: t(2))
  ultimately show ?thesis using t(1) D(6) by (auto simp: heap_at_def Let_def t(2))
qed

lemma backing_layout_no_panic: "types_ok tt \<Longrightarrow> backing_layout tt l grp \<noteq> Panic m"
proof (cases grp)
  case None
  then show ?thesis by (simp add: backing_layout_def ok_or_def split: option.splits)
next
  case (Some g)
  assume "types_ok tt"
  from backing_layout_ok [OF this group_stride_in [of g], of l] Some show ?thesis by auto
qed

text \<open>Adding a page: it is listed and still empty, or nothing has changed but spare capacity.\<close>

lemma add_page_ok:
  assumes h: "heap_at {} h act avs" and tt: "page_types_ok tt" and d: "descriptor_ok d" and al: "fresh_alloc alloc h"
  shows "(\<exists>i h' avs' p. add_page tt mem alloc d limit h = (Ok i, h') \<and> heap_at {i} h' (i # act) avs' \<and>
      contents (allocations h) i = None \<and> contents (allocations h') = (contents (allocations h))(i \<mapsto> p) \<and>
      group_id p = desc_group d \<and> 0 < page_free p \<and> (\<forall>s. slot_state p s = Vacant) \<and>
      (\<forall>g. group_id p = Some g \<longrightarrow> i \<in> set (avs' g)) \<and> backing_bytes h' \<le> limit \<and>
      objects h' = objects h \<and> memory h' = memory h \<and> descriptors_of h' = descriptors_of h \<and>
      page_marks_of p = marks_default \<and> cursor h' = cursor h)
    \<or> (\<exists>e t. add_page tt mem alloc d limit h = (Err e, h\<lparr>allocations := t\<rparr>) \<and>
      heap_at {} (h\<lparr>allocations := t\<rparr>) act avs \<and> contents t = contents (allocations h) \<and>
      same_entries (allocations h) t)"
proof (cases "prepare mem (allocations h)")
  case (Err e)
  let ?t = "prepare_failed mem (allocations h)"
  have same: "same_entries (allocations h) ?t"
    by (rule prepare_failed_ok [OF links_okD(1) [OF heap_atD(1) [OF h]]])
  then have "heap_at {} (h\<lparr>allocations := ?t\<rparr>) act avs \<and> contents ?t = contents (allocations h)"
    using heap_at_capacity [OF h, of ?t] by (simp add: same_entries_def)
  then show ?thesis using same Err by (intro disjI2 exI [of _ e] exI [of _ ?t]) (simp add: add_page_def)
next
  case (Panic m)
  then show ?thesis using prepare_no_panic links_okD(1) [OF heap_atD(1) [OF h]] by blast
next
  case (Ok ti)
  obtain t i where ti: "ti = (t, i)" by (cases ti)
  note D = heap_atD [OF h]
  from prepare_ok [OF links_okD(1) [OF D(1)], of mem t i] Ok ti
  have t: "table_inv t" "vacant i t" "\<And>j. table_get j t = table_get j (allocations h)" "table_get i (allocations h) = None"
    "tlen t = tlen (allocations h)" by auto
  note cap = heap_at_capacity [OF h t(1,3)]
  let ?h = "h\<lparr>allocations := t\<rparr>"
  have err: "add_page tt mem alloc d limit h = (Err e, ?h) \<Longrightarrow> ?thesis" for e
    using cap t by (auto simp: same_entries_def)
  let ?new = "case desc_group d of Some g \<Rightarrow> new_small tt alloc g | None \<Rightarrow> new_large tt alloc (desc_layout d)"
  show ?thesis
  proof (cases "backing_layout tt (desc_layout d) (desc_group d)")
    case (Err e)
    then show ?thesis by (intro err [of e]) (simp add: add_page_def Ok ti)
  next
    case (Panic m)
    then show ?thesis using backing_layout_no_panic tt by (auto simp: page_types_ok_def)
  next
    case l: (Ok l)
    show ?thesis
    proof (cases "backing_bytes h + lsize l \<le> usize_max \<and> backing_bytes h + lsize l \<le> limit")
      case False
      then show ?thesis by (intro err [of "Limit ''backing bytes''"]) (auto simp: add_page_def Ok ti l checked_add_def)
    next
      case True
      show ?thesis
      proof (cases ?new)
        case (Err e)
        then show ?thesis using True by (intro err [of e]) (auto simp: add_page_def Ok ti l checked_add_def)
      next
        case (Panic m)
        moreover have "?new \<noteq> Panic m"
          using l by (auto simp: new_small_def new_large_def backing_new_def backing_layout_def ok_or_def
              split: option.splits outcome.splits)
        ultimately show ?thesis by blast
      next
        case p: (Ok p)
        note N = new_page_ok [OF tt d l p]
        from insert_ok [OF t(1,2), of p] obtain t1 where t1: "table_insert i p t = Ok t1" "table_inv t1"
          "\<And>j. table_get j t1 = (if j = i then Some p else table_get j t)" by auto
        define h1 where "h1 = h\<lparr>allocations := t1, backing_bytes := backing_bytes h + lsize l\<rparr>"
        have "links_ok (allocations h) (available h1) (first_active h1) act avs" "table_inv (allocations h1)"
          "\<And>j. table_get j (allocations h1) = (if j = i then Some p else table_get j (allocations h))"
          using D(1) t1(2,3) t(3) by (simp_all add: h1_def)
        from insert_page_keeps [OF this t(4)]
        obtain t2 where t2: "link_active i h1 = (Ok (), h1\<lparr>allocations := t2, first_active := Some i\<rparr>)"
          "links_ok t2 (available h) (Some i) (i # act) avs" "contents t2 = (contents (allocations h))(i \<mapsto> strip p)"
          by (auto simp: h1_def)
        have ci: "contents (allocations h) i = None" using t(4) by (simp add: contents_def)
        have nav: "i \<notin> set (avs g)" if "g < GROUPS" for g using links_okD(7) [OF D(1) that, of i] ci by auto
        define h2 where "h2 = h1\<lparr>allocations := t2, first_active := Some i\<rparr>"
        have "\<exists>t3 av avs'. (case desc_group d of Some g \<Rightarrow> link_available i g | None \<Rightarrow> lift (Ok ())) h2 =
            (Ok (), h2\<lparr>allocations := t3, available := av\<rparr>) \<and> links_ok t3 av (Some i) (i # act) avs' \<and>
          contents t3 = contents t2 \<and> (\<forall>g. desc_group d = Some g \<longrightarrow> i \<in> set (avs' g)) \<and>
          (\<forall>g j. g < GROUPS \<longrightarrow> j \<noteq> i \<longrightarrow> j \<in> set (avs' g) \<longleftrightarrow> j \<in> set (avs g))"
        proof (cases "desc_group d")
          case None
          then show ?thesis using t2(2) by (intro exI [of _ t2] exI [of _ "available h"] exI [of _ avs]) (simp add: h2_def h1_def)
        next
          case (Some g)
          have g: "g < GROUPS" using d Some by (simp add: descriptor_ok_def)
          have ok2: "links_ok (allocations h2) (available h2) (Some i) (i # act) avs" using t2(2) by (simp add: h2_def h1_def)
          have "contents (allocations h2) i = Some (strip p)" "group_id (strip p) = Some g"
            using t2(3) N(5) Some by (simp_all add: h2_def)
          from link_available_keeps [OF ok2 this g nav [OF g]]
          obtain t3 av where "link_available i g h2 = (Ok (), h2\<lparr>allocations := t3, available := av\<rparr>)"
            "links_ok t3 av (Some i) (i # act) (avs(g := i # avs g))" "contents t3 = contents t2" by (auto simp: h2_def)
          then show ?thesis using Some by (intro exI [of _ t3] exI [of _ av] exI [of _ "avs(g := i # avs g)"]) simp
        qed
        then obtain t3 av avs' where t3: "(case desc_group d of Some g \<Rightarrow> link_available i g | None \<Rightarrow> lift (Ok ())) h2 =
            (Ok (), h2\<lparr>allocations := t3, available := av\<rparr>)" "links_ok t3 av (Some i) (i # act) avs'"
          "contents t3 = contents t2" "\<And>g. desc_group d = Some g \<Longrightarrow> i \<in> set (avs' g)"
          "\<And>g j. g < GROUPS \<Longrightarrow> j \<noteq> i \<Longrightarrow> j \<in> set (avs' g) \<longleftrightarrow> j \<in> set (avs g)" by blast
        define h3 where "h3 = h\<lparr>allocations := t3, available := av, first_active := Some i, backing_bytes := backing_bytes h + lsize l\<rparr>"
        have h3: "h2\<lparr>allocations := t3, available := av\<rparr> = h3" by (simp add: h3_def h2_def h1_def)
        have ins: "insert_page i p (backing_bytes h + lsize l) ?h = (Ok (), h1)" using t1(1) by (simp add: insert_page_def h1_def)
        have run: "add_page tt mem alloc d limit h = (Ok i, h3)"
          using True t2(1) t3(1) t1(1) p
          by (simp add: add_page_def Ok ti l checked_add_def act_then_Ok ins h2_def [symmetric] h3)
        have pb: "page_bytes (strip p) = lsize l" "page_backing (strip p) = page_backing p" using N(7) by (simp_all add: page_bytes_def)
        have fit: "block_fits (strip p)" "page_objects (strip p) = 0" using N(6,9) strip_fits by (simp_all add: page_objects_def)
        have "blocks_apart (base (page_backing (strip p))) (page_bytes (strip p)) q"
          if "contents (allocations h) j = Some q" for j q
          using al that N(8) by (simp add: fresh_alloc_def pb)
        from heap_at_new_page [OF h ci _ fit this t3(2) _ t3(5)] t3(3) t2(3) N(1)
        have "heap_at {i} h3 (i # act) avs'" by (simp add: h3_def pb)
        then show ?thesis using run ci t3(3,4) t2(3) N(2-5,10) True
          by (intro disjI1 exI [of _ i] exI [of _ h3] exI [of _ avs'] exI [of _ "strip p"]) (simp add: h3_def)
      qed
    qed
  qed
qed

lemma heap_at_mono: "heap_at {} h act avs \<Longrightarrow> heap_at X h act avs"
  by (auto simp: heap_at_def Let_def listed_ok_def intro: pages_ok_mono)

lemma heap_reserve_at:
  assumes h: "heap_at {} h act avs" and tt: "page_types_ok tt" and d: "descriptor_ok d" and al: "fresh_alloc alloc h"
  shows "(\<exists>r h' avs'. heap_reserve tt mem alloc d limit h = (Ok r, h') \<and>
      heap_at {} h' (if contents (allocations h) (rpage r) = None then rpage r # act else act) avs' \<and>
      slot_at h (rpage r) (rslot r) = Vacant \<and> slot_at h' = set_slot (rpage r) (rslot r) Unavailable (slot_at h) \<and>
      slot_address h' (rpage r) (rslot r) = Some (rreference r) \<and>
      backing_bytes h' \<le> max (backing_bytes h) limit \<and> objects h' = objects h \<and> memory h' = memory h \<and>
      descriptors_of h' = descriptors_of h \<and> keeps_blocks h h' \<and> cursor h' = cursor h \<and>
      marks_at h' = (marks_at h)(rpage r := clear_slot (rslot r) (marks_at h (rpage r))) \<and>
      dom (contents (allocations h')) = insert (rpage r) (dom (contents (allocations h))))
    \<or> (\<exists>e h'. heap_reserve tt mem alloc d limit h = (Err e, h') \<and> heap_at {} h' act avs \<and>
      contents (allocations h') = contents (allocations h) \<and> slot_at h' = slot_at h \<and>
      backing_bytes h' = backing_bytes h \<and> objects h' = objects h \<and> memory h' = memory h \<and>
      descriptors_of h' = descriptors_of h \<and> keeps_blocks h h' \<and> cursor h' = cursor h \<and>
      h' = h\<lparr>allocations := allocations h'\<rparr> \<and> same_entries (allocations h) (allocations h'))"
proof -
  note D = heap_atD [OF h]
  have fin: "\<exists>r h' avs' q. reserve_in (desc_group d) i h1 = (Ok r, h') \<and> heap_at {} h' act1 avs' \<and> rpage r = i \<and>
      slot_at h1 i (rslot r) = Vacant \<and> slot_at h' = set_slot i (rslot r) Unavailable (slot_at h1) \<and>
      slot_address h' i (rslot r) = Some (rreference r) \<and>
      backing_bytes h' = backing_bytes h1 \<and> objects h' = objects h1 \<and> memory h' = memory h1 \<and>
      descriptors_of h' = descriptors_of h1 \<and> cursor h' = cursor h1 \<and>
      contents (allocations h') = (contents (allocations h1))(i \<mapsto> q) \<and> same_block p q \<and>
      page_marks_of q = clear_slot (rslot r) (page_marks_of p)"
    if a: "heap_at {i} h1 act1 avs1" "contents (allocations h1) i = Some p" "0 < page_free p" "group_id p = desc_group d"
      "\<And>g. group_id p = Some g \<Longrightarrow> i \<in> set (avs1 g)" for i h1 act1 avs1 p
    using reserve_in_ok [OF a(1-3,5)] unfolding a(4) set_slot_def by blast
  show ?thesis
  proof (cases "\<exists>g i. desc_group d = Some g \<and> available h ! g = Some i")
    case True
    then obtain g i where g: "desc_group d = Some g" "available h ! g = Some i" by blast
    have gl: "g < GROUPS" using d g(1) by (simp add: descriptor_ok_def)
    have dl: "dlist (vlinks (allocations h)) (avs g) (Some i)" using links_okD(6) [OF D(1) gl] g(2) by simp
    then have iav: "i \<in> set (avs g)" using dlist_head [OF dl] by (auto split: list.splits)
    from links_okD(7) [OF D(1) gl iav] obtain p where p: "contents (allocations h) i = Some p" "group_id p = Some g" by blast
    have "0 < page_free p" using D(2) gl p iav by (auto simp: listed_ok_def)
    from fin [OF heap_at_mono [OF h] p(1) this] p(2) iav g(1)
    obtain r h' avs' q where r: "reserve_in (desc_group d) i h = (Ok r, h')" "heap_at {} h' act avs'" "rpage r = i"
      "slot_at h i (rslot r) = Vacant" "slot_at h' = set_slot i (rslot r) Unavailable (slot_at h)"
      "slot_address h' i (rslot r) = Some (rreference r)" "backing_bytes h' = backing_bytes h" "objects h' = objects h"
      "memory h' = memory h" "descriptors_of h' = descriptors_of h" "cursor h' = cursor h"
      "contents (allocations h') = (contents (allocations h))(i \<mapsto> q)" "same_block p q"
      "page_marks_of q = clear_slot (rslot r) (page_marks_of p)" by (simp, blast)
    have "heap_reserve tt mem alloc d limit h = (Ok r, h')"
      using g gl links_okD(2) [OF D(1)] r(1) by (simp add: heap_reserve_def available_head_def act_then_Ok)
    moreover have "keeps_blocks h h'" using r(12,13) p(1) by (auto simp: keeps_blocks_def)
    moreover have "marks_at h' = (marks_at h)(i := clear_slot (rslot r) (marks_at h i))"
      using r(12,14) p(1) by (simp add: marks_at_def fun_eq_iff)
    moreover have "dom (contents (allocations h')) = insert i (dom (contents (allocations h)))" by (simp add: r(12))
    ultimately show ?thesis using r p(1) by (intro disjI1 exI [of _ r] exI [of _ h'] exI [of _ avs']) simp
  next
    case False
    have run: "heap_reserve tt mem alloc d limit h = act_then (add_page tt mem alloc d limit) (reserve_in (desc_group d)) h"
    proof -
      have "(case desc_group d of Some g \<Rightarrow> available_head g h | None \<Rightarrow> Ok None) = Ok None"
        using False d links_okD(2) [OF D(1)] by (auto simp: available_head_def descriptor_ok_def split: option.splits)
      then show ?thesis by (simp add: heap_reserve_def act_then_def)
    qed
    from add_page_ok [OF h tt d al, of mem limit] show ?thesis
    proof (elim disjE exE conjE)
      fix i h1 avs1 p
      assume a: "add_page tt mem alloc d limit h = (Ok i, h1)" "heap_at {i} h1 (i # act) avs1" "contents (allocations h) i = None"
        "contents (allocations h1) = (contents (allocations h))(i \<mapsto> p)" "group_id p = desc_group d" "0 < page_free p"
        "\<forall>s. slot_state p s = Vacant" "\<forall>g. group_id p = Some g \<longrightarrow> i \<in> set (avs1 g)" "backing_bytes h1 \<le> limit"
        "objects h1 = objects h" "memory h1 = memory h" "descriptors_of h1 = descriptors_of h"
        "page_marks_of p = marks_default" "cursor h1 = cursor h"
      have same: "slot_at h1 = slot_at h" using a(3,4,7) by (auto simp: slot_at_def fun_eq_iff split: option.splits)
      have "contents (allocations h1) i = Some p" using a(4) by simp
      from fin [OF a(2) this a(6,5)] a(8)
      obtain r h' avs' q where r: "reserve_in (desc_group d) i h1 = (Ok r, h')" "heap_at {} h' (i # act) avs'" "rpage r = i"
        "slot_at h1 i (rslot r) = Vacant" "slot_at h' = set_slot i (rslot r) Unavailable (slot_at h1)"
        "slot_address h' i (rslot r) = Some (rreference r)" "backing_bytes h' = backing_bytes h1" "objects h' = objects h1"
        "memory h' = memory h1" "descriptors_of h' = descriptors_of h1" "cursor h' = cursor h1"
        "contents (allocations h') = (contents (allocations h1))(i \<mapsto> q)" "page_marks_of q = clear_slot (rslot r) (page_marks_of p)"
        by blast
      have c: "contents (allocations h') = (contents (allocations h))(i \<mapsto> q)" using a(4) r(12) by simp
      have "keeps_blocks h h'" using a(3) by (auto simp: c keeps_blocks_def)
      moreover have "marks_at h' = (marks_at h)(i := clear_slot (rslot r) (marks_at h i))"
        using c r(13) a(3,13) by (simp add: marks_at_def fun_eq_iff)
      moreover have "dom (contents (allocations h')) = insert i (dom (contents (allocations h)))" by (simp add: c)
      moreover have "heap_reserve tt mem alloc d limit h = (Ok r, h')" using run a(1) r(1) by (simp add: act_then_Ok)
      ultimately show ?thesis using a r same by (intro disjI1 exI [of _ r] exI [of _ h'] exI [of _ avs']) simp
    next
      fix e t
      assume a: "add_page tt mem alloc d limit h = (Err e, h\<lparr>allocations := t\<rparr>)" "heap_at {} (h\<lparr>allocations := t\<rparr>) act avs"
        "contents t = contents (allocations h)" "same_entries (allocations h) t"
      have "heap_reserve tt mem alloc d limit h = (Err e, h\<lparr>allocations := t\<rparr>)" using run a(1) by (simp add: act_then_def)
      then show ?thesis using a(2-4)
        by (intro disjI2 exI [of _ e] exI [of _ "h\<lparr>allocations := t\<rparr>"]) (auto simp: keeps_blocks_def slot_at_def fun_eq_iff)
    qed
  qed
qed

lemma heap_reserve_ok:
  assumes inv: "heap_inv h" and tt: "page_types_ok tt" and d: "descriptor_ok d" and al: "fresh_alloc alloc h"
  shows "(\<exists>r h'. heap_reserve tt mem alloc d limit h = (Ok r, h') \<and> heap_inv h' \<and>
      slot_at h (rpage r) (rslot r) = Vacant \<and> slot_at h' = set_slot (rpage r) (rslot r) Unavailable (slot_at h) \<and>
      slot_address h' (rpage r) (rslot r) = Some (rreference r) \<and>
      backing_bytes h' \<le> max (backing_bytes h) limit \<and> objects h' = objects h \<and> memory h' = memory h \<and>
      descriptors_of h' = descriptors_of h \<and> keeps_blocks h h')
    \<or> (\<exists>e h'. heap_reserve tt mem alloc d limit h = (Err e, h') \<and> heap_inv h' \<and> slot_at h' = slot_at h \<and>
      backing_bytes h' = backing_bytes h \<and> objects h' = objects h \<and> memory h' = memory h \<and>
      descriptors_of h' = descriptors_of h \<and> keeps_blocks h h' \<and>
      h' = h\<lparr>allocations := allocations h'\<rparr> \<and> same_entries (allocations h) (allocations h'))"
proof -
  from inv obtain act avs where h: "heap_at {} h act avs" by (auto simp: heap_inv_def)
  from heap_reserve_at [OF h tt d al, of mem limit] show ?thesis unfolding heap_inv_def by blast
qed

lemma slot_addressD:
  assumes "slot_address h i s = Some a"
  shows "\<exists>p. contents (allocations h) i = Some p \<and> page_pointer p s = Ok a"
  using assms by (auto simp: slot_address_def split: option.splits outcome.splits)

lemma heap_commit_at:
  assumes h: "heap_at {} h act avs" and s: "slot_at h (rpage r) (rslot r) = Unavailable" "slot_address h (rpage r) (rslot r) = Some (rreference r)"
    and d: "registered d (descriptors_of h) = Some e" "uses e < usize_max"
  shows "\<exists>h'. heap_commit r d h = (Ok (), h') \<and> heap_at {} h' act avs \<and> cursor h' = cursor h \<and> marks_at h' = marks_at h \<and>
    dom (contents (allocations h')) = dom (contents (allocations h)) \<and> keeps_blocks h h' \<and> slot_at h' = set_slot (rpage r) (rslot r) Occupied (slot_at h) \<and>
    slot_address h' (rpage r) (rslot r) = Some (rreference r) \<and>
    memory h' = (memory h)(rreference r \<mapsto> \<lparr>hdescriptor = d, hallocation = rpage r\<rparr>) \<and> objects h' = objects h + 1 \<and>
    backing_bytes h' = backing_bytes h \<and> recounted d (uses e + 1) (descriptors_of h) (descriptors_of h')"
proof -
  let ?i = "rpage r" and ?s = "rslot r" and ?a = "rreference r"
  note D = heap_atD [OF h]
  have reg: "registry_inv (descriptors_of h)" using D(7) by (simp add: memory_ok_def)
  define ds where "ds = (descriptors_of h)\<lparr>dslots := table_update d (\<lambda>x. x\<lparr>uses := uses e + 1\<rparr>) (dslots (descriptors_of h))\<rparr>"
  have ret: "descriptors_retain d (descriptors_of h) = Ok ds" using retain_ok [OF reg d(1)] d(2) by (simp add: ds_def)
  have rc: "recounted d (uses e + 1) (descriptors_of h) ds" unfolding ds_def by (rule recount [OF reg])
  from slot_addressD [OF s(2)] obtain p where p: "contents (allocations h) ?i = Some p" "page_pointer p ?s = Ok ?a" by blast
  have ps: "slot_state p ?s = Unavailable" using s(1) p(1) by (simp add: slot_at_def)
  obtain p0 where p0: "table_get ?i (allocations h) = Some p0" "strip p0 = p" using contents_get p(1) by blast
  have inv0: "page_inv p0" "slot_state p0 ?s = Unavailable" using pages_okD(1) [OF D(3) p(1)] p0(2) ps by auto
  define q where "q = page_commit ?s p0"
  note C = commit_spec [OF inv0]
  define h1 where "h1 = h\<lparr>descriptors_of := ds, memory := (memory h)(?a \<mapsto> \<lparr>hdescriptor = d, hallocation = ?i\<rparr>)\<rparr>"
  have "links_ok (allocations h1) (available h) (first_active h) act avs" "table_get ?i (allocations h1) = Some p0"
    using D(1) p0(1) by (simp_all add: h1_def)
  from page_write_ok [OF this, of "\<lambda>p. Ok (page_commit ?s p)" q] C(3)
  obtain t where t: "page_mut ?i (\<lambda>p. Ok (page_commit ?s p)) h1 = (Ok (), h1\<lparr>allocations := t\<rparr>)"
    "links_ok t (available h) (first_active h) act avs" "contents t = (contents (allocations h))(?i \<mapsto> strip q)"
    by (auto simp: q_def h1_def)
  have sf: "same_frame p (strip q)" using same_frame_strip [OF C(3)] p0(2) by (simp add: q_def)
  have st: "slot_state (strip q) = (slot_state p)(?s := Occupied)" using C(1) p0(2) by (auto simp: q_def)
  have fr: "page_free (strip q) = page_free p" "page_slots (strip q) = page_slots p" "group_id (strip q) = group_id p"
    using C(5) p0(2) sf by (auto simp: q_def same_frame_def)
  define h' where "h' = h1\<lparr>allocations := t, objects := objects h + 1\<rparr>"
  have run: "heap_commit r d h = (Ok (), h')" using ret t(1) by (simp add: heap_commit_def act_then_Ok h1_def [symmetric] h'_def) (simp add: h1_def)
  have ob: "page_objects (strip q) = page_objects p + 1"
    using objects_change [OF st fr(2), of Unavailable] slot_less [of p ?s] ps by simp
  have pg: "pages_ok {} (contents t)" unfolding t(3)
    by (rule pages_ok_write [OF D(3) p(1)]) (use C(2) sf pages_okD(3) [OF D(3) p(1)] fr in \<open>auto simp: q_def\<close>)
  have mem: "memory_ok (memory h') (descriptors_of h') (contents t)"
  proof -
    have "\<exists>d'. memory h' a = Some \<lparr>hdescriptor = d', hallocation = j\<rparr> \<and> registered d' ds \<noteq> None"
      if x: "contents t j = Some x" "slot_state x k = Occupied" "page_pointer x k = Ok a" for j x k a
    proof (cases "a = ?a")
      case True
      have "contents t ?i = Some (strip q)" "page_pointer (strip q) ?s = Ok ?a" using t(3) p(2) sf by (simp_all add: same_frame_def)
      then have "j = ?i" using address_unique [OF pg x(1,3)] True by blast
      then show ?thesis using True rc d(1) by (simp add: h'_def h1_def recounted_def)
    next
      case False
      have "\<exists>y. contents (allocations h) j = Some y \<and> slot_state y k = Occupied \<and> page_pointer y k = Ok a"
      proof (cases "j = ?i")
        case True
        then have "x = strip q" using x(1) t(3) by simp
        moreover have "k \<noteq> ?s" using False x(3) calculation p(2) sf by (auto simp: same_frame_def)
        ultimately show ?thesis using True p(1) x(2,3) st sf by (auto simp: same_frame_def)
      qed (use x t(3) in auto)
      then obtain d' where "memory h a = Some \<lparr>hdescriptor = d', hallocation = j\<rparr>" "registered d' (descriptors_of h) \<noteq> None"
        using D(7) unfolding memory_ok_def by blast
      then show ?thesis using False rc by (auto simp: h'_def h1_def recounted_def)
    qed
    then show ?thesis using rc by (auto simp: memory_ok_def h'_def h1_def recounted_def)
  qed
  have "page_bytes (strip q) = page_bytes p" using sf by (simp add: same_frame_def page_bytes_def)
  then have tot: "total page_bytes (contents t) = backing_bytes h" "total page_objects (contents t) = objects h + 1"
    using total_change [OF D(8) p(1), of page_bytes "strip q"] total_change [OF D(8) p(1), of page_objects "strip q"] D(4,5) ob t(3) by simp_all
  have "listed_ok {} (contents t) avs" using D(2) fr p(1) by (auto simp: listed_ok_def t(3))
  then have "heap_at {} h' act avs" using t(2) pg mem tot D(6) by (auto simp: heap_at_def Let_def h'_def h1_def t(3))
  moreover have "slot_at h' = set_slot ?i ?s Occupied (slot_at h)" unfolding set_slot_def
    by (rule slot_at_update [where q = "strip q"]) (use t(3) st p(1) in \<open>auto simp: h'_def slot_at_def\<close>)
  moreover have "slot_address h' ?i ?s = Some ?a" using t(3) p(2) sf by (simp add: slot_address_def h'_def same_frame_def)
  moreover have "marks_at h' = marks_at h"
    using t(3) p(1) C(4) p0(2) by (auto simp: marks_at_def h'_def q_def fun_eq_iff)
  moreover have "keeps_blocks h h'" using t(3) p(1) same_frame_block [OF sf] by (auto simp: keeps_blocks_def h'_def)
  moreover have "dom (contents t) = dom (contents (allocations h))" using t(3) p(1) by auto
  ultimately show ?thesis using run rc by (intro exI [of _ h']) (simp add: h'_def h1_def)
qed

lemma heap_commit_ok:
  assumes inv: "heap_inv h" and s: "slot_at h (rpage r) (rslot r) = Unavailable" "slot_address h (rpage r) (rslot r) = Some (rreference r)"
    and d: "registered d (descriptors_of h) = Some e" "uses e < usize_max"
  shows "\<exists>h'. heap_commit r d h = (Ok (), h') \<and> heap_inv h' \<and> slot_at h' = set_slot (rpage r) (rslot r) Occupied (slot_at h) \<and>
    slot_address h' (rpage r) (rslot r) = Some (rreference r) \<and>
    memory h' = (memory h)(rreference r \<mapsto> \<lparr>hdescriptor = d, hallocation = rpage r\<rparr>) \<and> objects h' = objects h + 1 \<and>
    backing_bytes h' = backing_bytes h \<and> recounted d (uses e + 1) (descriptors_of h) (descriptors_of h')"
proof -
  from inv obtain act avs where h: "heap_at {} h act avs" by (auto simp: heap_inv_def)
  from heap_commit_at [OF h s d] show ?thesis unfolding heap_inv_def by blast
qed

section \<open>The slots of the heap as an interface\<close>

text \<open>
  What the allocation and retirement code relies on: acquiring a slot makes one vacant slot
  unavailable, settling it makes it occupied, releasing it makes it vacant again, and each
  step keeps the invariant and succeeds on what the previous step returned.
\<close>

locale slot_heap =
  fixes inv :: "'h \<Rightarrow> bool" and status :: "'h \<Rightarrow> nat \<Rightarrow> nat \<Rightarrow> slot_status" and place :: "'h \<Rightarrow> nat \<Rightarrow> nat \<Rightarrow> nat option"
    and valid :: "'q \<Rightarrow> 'h \<Rightarrow> bool" and ready :: "'d \<Rightarrow> 'h \<Rightarrow> bool"
    and acquire :: "'q \<Rightarrow> 'h \<Rightarrow> reservation gc_result \<times> 'h" and settle :: "reservation \<Rightarrow> 'd \<Rightarrow> 'h \<Rightarrow> unit gc_result \<times> 'h"
    and free :: "nat \<Rightarrow> nat \<Rightarrow> 'h \<Rightarrow> unit gc_result \<times> 'h"
  assumes acquire_law: "inv h \<Longrightarrow> valid q h \<Longrightarrow> acquire q h = (Ok r, h') \<Longrightarrow>
      inv h' \<and> status h (rpage r) (rslot r) = Vacant \<and>
      status h' = set_slot (rpage r) (rslot r) Unavailable (status h) \<and>
      place h' (rpage r) (rslot r) = Some (rreference r) \<and> (\<forall>d. ready d h \<longrightarrow> ready d h')"
    and settle_law: "inv h \<Longrightarrow> status h (rpage r) (rslot r) = Unavailable \<Longrightarrow>
      place h (rpage r) (rslot r) = Some (rreference r) \<Longrightarrow> ready d h \<Longrightarrow>
      \<exists>h'. settle r d h = (Ok (), h') \<and> inv h' \<and> status h' = set_slot (rpage r) (rslot r) Occupied (status h)"
    and free_law: "inv h \<Longrightarrow> status h i s = Unavailable \<Longrightarrow>
      \<exists>h'. free i s h = (Ok (), h') \<and> inv h' \<and> status h' = set_slot i s Vacant (status h)"
begin

lemma acquired:
  assumes "inv h" "valid q h" "acquire q h = (Ok r, h')"
  shows "status h' (rpage r) (rslot r) = Unavailable"
  using acquire_law [OF assms] by (simp add: set_slot_def)

lemma abandon:
  assumes "inv h" "valid q h" "acquire q h = (Ok r, h1)"
  shows "\<exists>h2. free (rpage r) (rslot r) h1 = (Ok (), h2) \<and> inv h2 \<and> status h2 = status h"
proof -
  note a = acquire_law [OF assms]
  from free_law [of h1 "rpage r" "rslot r"] a acquired [OF assms]
  obtain h2 where "free (rpage r) (rslot r) h1 = (Ok (), h2)" "inv h2" "status h2 = set_slot (rpage r) (rslot r) Vacant (status h1)"
    by blast
  moreover have "set_slot (rpage r) (rslot r) Vacant (status h1) = status h"
    using a by (auto simp: set_slot_def fun_eq_iff)
  ultimately show ?thesis by simp
qed

lemma allocate:
  assumes "inv h" "valid q h" "acquire q h = (Ok r, h1)" "ready d h"
  shows "\<exists>h2. settle r d h1 = (Ok (), h2) \<and> inv h2 \<and> status h2 = set_slot (rpage r) (rslot r) Occupied (status h)"
proof -
  note a = acquire_law [OF assms(1-3)]
  from settle_law [of h1 r d] a acquired [OF assms(1-3)] assms(4)
  obtain h2 where "settle r d h1 = (Ok (), h2)" "inv h2" "status h2 = set_slot (rpage r) (rslot r) Occupied (status h1)" by blast
  moreover have "set_slot (rpage r) (rslot r) Occupied (status h1) = set_slot (rpage r) (rslot r) Occupied (status h)"
    using a by (auto simp: set_slot_def fun_eq_iff)
  ultimately show ?thesis by simp
qed

end

lemma heap_request_ok:
  assumes "heap_inv h" "request_ok q h"
  shows "(\<exists>r h'. heap_request q h = (Ok r, h') \<and> heap_inv h' \<and>
      slot_at h (rpage r) (rslot r) = Vacant \<and> slot_at h' = set_slot (rpage r) (rslot r) Unavailable (slot_at h) \<and>
      slot_address h' (rpage r) (rslot r) = Some (rreference r) \<and>
      backing_bytes h' \<le> max (backing_bytes h) (req_limit q) \<and> objects h' = objects h \<and> memory h' = memory h \<and>
      descriptors_of h' = descriptors_of h \<and> keeps_blocks h h')
    \<or> (\<exists>e h'. heap_request q h = (Err e, h') \<and> heap_inv h' \<and> slot_at h' = slot_at h \<and>
      backing_bytes h' = backing_bytes h \<and> objects h' = objects h \<and> memory h' = memory h \<and>
      descriptors_of h' = descriptors_of h \<and> keeps_blocks h h')"
  using heap_reserve_ok [OF assms(1)] assms(2) unfolding heap_request_def request_ok_def by blast

lemma heap_request_Ok:
  assumes "heap_inv h" "request_ok q h" "heap_request q h = (Ok r, h')"
  shows "heap_inv h'" "slot_at h (rpage r) (rslot r) = Vacant"
    "slot_at h' = set_slot (rpage r) (rslot r) Unavailable (slot_at h)"
    "slot_address h' (rpage r) (rslot r) = Some (rreference r)" "objects h' = objects h" "memory h' = memory h"
    "descriptors_of h' = descriptors_of h" "keeps_blocks h h'"
  using heap_request_ok [OF assms(1,2)] assms(3) by auto

lemma release_slot_inv:
  assumes "heap_inv h" "slot_at h i s = Unavailable"
  shows "\<exists>h'. release_slot i s h = (Ok (), h') \<and> heap_inv h' \<and> slot_at h' = set_slot i s Vacant (slot_at h) \<and>
    objects h' = objects h \<and> memory h' = memory h \<and> descriptors_of h' = descriptors_of h \<and> keeps_blocks h' h"
proof -
  from assms(1) obtain act avs where h: "heap_at {} h act avs" by (auto simp: heap_inv_def)
  from release_slot_ok [OF h assms(2)] obtain h' act' avs' where r: "release_slot i s h = (Ok (), h')" "heap_at {} h' act' avs'"
    "slot_at h' = (slot_at h)(i := (slot_at h i)(s := Vacant))" "objects h' = objects h" "memory h' = memory h"
    "descriptors_of h' = descriptors_of h" "\<And>j. j \<noteq> i \<Longrightarrow> contents (allocations h') j = contents (allocations h) j"
    "\<And>q. contents (allocations h') i = Some q \<Longrightarrow> \<exists>p. contents (allocations h) i = Some p \<and> same_block p q" by blast
  have "keeps_blocks h' h" unfolding keeps_blocks_def
  proof (intro allI impI)
    fix j p assume "contents (allocations h') j = Some p"
    then show "\<exists>q. contents (allocations h) j = Some q \<and> same_block p q"
      using r(7,8) same_block_sym by (cases "j = i") (fastforce+)
  qed
  with r show ?thesis by (auto simp: heap_inv_def set_slot_def)
qed

interpretation heap: slot_heap heap_inv slot_at slot_address request_ok accepts heap_request heap_commit release_slot
proof
  fix h q h' and r :: reservation
  assume "heap_inv h" "request_ok q h" "heap_request q h = (Ok r, h')"
  from heap_request_Ok [OF this]
  show "heap_inv h' \<and> slot_at h (rpage r) (rslot r) = Vacant \<and>
      slot_at h' = set_slot (rpage r) (rslot r) Unavailable (slot_at h) \<and>
      slot_address h' (rpage r) (rslot r) = Some (rreference r) \<and> (\<forall>d. accepts d h \<longrightarrow> accepts d h')"
    by (simp add: accepts_def)
next
  fix h d and r :: reservation
  assume "heap_inv h" "slot_at h (rpage r) (rslot r) = Unavailable"
    "slot_address h (rpage r) (rslot r) = Some (rreference r)" "accepts d h"
  then show "\<exists>h'. heap_commit r d h = (Ok (), h') \<and> heap_inv h' \<and> slot_at h' = set_slot (rpage r) (rslot r) Occupied (slot_at h)"
    using heap_commit_ok unfolding accepts_def by blast
next
  fix h i s
  assume "heap_inv h" "slot_at h i s = Unavailable"
  then show "\<exists>h'. release_slot i s h = (Ok (), h') \<and> heap_inv h' \<and> slot_at h' = set_slot i s Vacant (slot_at h)"
    using release_slot_inv by blast
qed

text \<open>A heap's pages are exactly those with a slot in use, so the slots determine the pages.\<close>

lemma page_in_use:
  assumes "heap_inv h"
  shows "contents (allocations h) i \<noteq> None \<longleftrightarrow> (\<exists>s. slot_at h i s \<noteq> Vacant)"
proof
  assume "contents (allocations h) i \<noteq> None"
  then obtain p where p: "contents (allocations h) i = Some p" by blast
  from assms obtain act avs where h: "heap_at {} h act avs" by (auto simp: heap_inv_def)
  note P = pages_okD [OF heap_atD(3) [OF h] p]
  have "length (filter (\<lambda>s. slot_state p s = Vacant) [0..<page_slots p]) \<noteq> length [0..<page_slots p]"
    using P(1,3) free_count [of p] by simp
  then have "filter (\<lambda>s. slot_state p s = Vacant) [0..<page_slots p] \<noteq> [0..<page_slots p]" by auto
  then obtain s where "slot_state p s \<noteq> Vacant" by (auto simp: filter_id_conv)
  then show "\<exists>s. slot_at h i s \<noteq> Vacant" using p by (auto simp: slot_at_def)
qed (auto simp: slot_at_def split: option.splits)

lemma backing_determined:
  assumes "heap_inv h" "heap_inv h'" "slot_at h' = slot_at h" "keeps_blocks h h'"
  shows "backing_bytes h' = backing_bytes h"
proof -
  let ?c = "contents (allocations h)" and ?c' = "contents (allocations h')"
  have "?c' i \<noteq> None \<longleftrightarrow> ?c i \<noteq> None" for i
    using page_in_use [OF assms(1), of i] page_in_use [OF assms(2), of i] assms(3) by simp
  then have dom: "dom ?c' = dom ?c" unfolding dom_def by blast
  have "total page_bytes ?c' = total page_bytes ?c" unfolding total_def dom
  proof (rule sum.cong [OF refl])
    fix i assume "i \<in> dom ?c"
    then show "page_bytes (the (?c' i)) = page_bytes (the (?c i))"
      using assms(4) unfolding keeps_blocks_def page_bytes_def by (force simp: same_block_def)
  qed
  moreover have "backing_bytes x = total page_bytes (contents (allocations x))" if "heap_inv x" for x
    using that heap_atD(4) by (auto simp: heap_inv_def)
  ultimately show ?thesis using assms(1,2) by simp
qed

section \<open>Resolving addresses\<close>

lemma get_contents: "table_get i t = Some p \<Longrightarrow> contents t i = Some (strip p)"
  by (simp add: contents_def)

lemma object_at_occupied:
  assumes inv: "heap_inv h" and s: "slot_at h i s = Occupied" "slot_address h i s = Some a"
  shows "\<exists>d e. memory h a = Some \<lparr>hdescriptor = d, hallocation = i\<rparr> \<and> registered d (descriptors_of h) = Some e \<and>
    resolve a h = Ok \<lparr>opointer = a + payload_offset (entry_descriptor e), odescriptor = entry_descriptor e, opage = i, oslot = s\<rparr> \<and>
    object_at i s h = resolve a h"
proof -
  from inv obtain act avs where h: "heap_at {} h act avs" by (auto simp: heap_inv_def)
  note D = heap_atD [OF h]
  from slot_addressD [OF s(2)] obtain p where p: "contents (allocations h) i = Some p" "page_pointer p s = Ok a" by blast
  have occ: "slot_state p s = Occupied" using s(1) p(1) by (simp add: slot_at_def)
  from D(7) p occ obtain d where d: "memory h a = Some \<lparr>hdescriptor = d, hallocation = i\<rparr>" "registered d (descriptors_of h) \<noteq> None"
    unfolding memory_ok_def by blast
  then obtain e where e: "registered d (descriptors_of h) = Some e" by blast
  obtain q where q: "table_get i (allocations h) = Some q" "strip q = p" using contents_get p(1) by blast
  have po: "page_occupied p s" using occ by (auto simp: slot_state_def split: if_splits)
  have so: "slot_of p a = Some s" "s < page_slots p"
    using pointer_slot_of [OF pages_okD(1) [OF D(3) p(1)], of s] slot_less [of p s] occ p(2) by auto
  have qq: "page_occupied q s" "slot_of q a = Some s" "page_pointer q s = Ok a" "s < page_slots q"
    using po so p(2) q(2) by auto
  have chk: "checked_object_at a i s h = Ok \<lparr>opointer = a + payload_offset (entry_descriptor e), odescriptor = entry_descriptor e, opage = i, oslot = s\<rparr>"
    using d(1) e by (simp add: checked_object_at_def read_header_def descriptors_get_def registered_def)
  have "locate a h = Ok \<lparr>lpage = q, lid = i, lslot = s, ldescriptor = d\<rparr>"
    using d(1) q(1) qq by (simp add: locate_def read_header_def)
  moreover have "object_at i s h = checked_object_at a i s h" using q(1) qq by (simp add: object_at_def heap_page_def)
  ultimately show ?thesis using d(1) e chk by (simp add: resolve_def)
qed

lemma locate_sound:
  assumes "locate a h = Ok loc"
  shows "slot_at h (lid loc) (lslot loc) = Occupied" "slot_address h (lid loc) (lslot loc) = Some a"
proof -
  from assms obtain hd where hd: "table_get (lid loc) (allocations h) = Some (lpage loc)" "slot_of (lpage loc) a = Some (lslot loc)"
    "page_occupied (lpage loc) (lslot loc)" by (auto simp: locate_def split: if_splits)
  from slot_of_pointer [OF hd(2)] have "page_pointer (lpage loc) (lslot loc) = Ok a" by simp
  with hd get_contents [OF hd(1)] show "slot_at h (lid loc) (lslot loc) = Occupied" "slot_address h (lid loc) (lslot loc) = Some a"
    by (simp_all add: slot_at_def slot_address_def slot_state_def)
qed

lemma resolve_sound:
  assumes "resolve a h = Ok ob"
  shows "slot_at h (opage ob) (oslot ob) = Occupied" "slot_address h (opage ob) (oslot ob) = Some a"
  using assms locate_sound by (auto simp: resolve_def checked_object_at_def)

lemma sample_prepare_page: "prepare (\<lambda>_. True) (table_default :: page table) = Ok (Table [None] [] (replicate 4 0) 0 0, 0)"
  by code_simp

lemma sample_request_Ok:
  "\<exists>r h'. heap_request sample_request sample_heap = (Ok r, h') \<and> rreference r = 4096"
  by (simp add: heap_request_def heap_reserve_def sample_request_def sample_heap_def sample_descriptor_def add_page_def
      sample_prepare_page physical_default_def act_then_def backing_layout_def layout_extend_def sample_types_def round_up_def
      isize_max_def checked_add_def usize_max_def new_large_def backing_new_def insert_page_def table_insert.simps
      link_active_def set_active_def page_mut_def heap_page_def table_get.simps table_update.simps reserve_in_def
      take_slot_def)

lemma sample_heap_inv: "heap_inv sample_heap"
  unfolding sample_heap_def by (rule heap_inv_empty [OF sample_registry_inv])

lemma sample_request_valid: "request_ok sample_request sample_heap"
  by (simp add: request_ok_def sample_request_def page_types_ok_def types_ok_def small_align_def sample_types_def
      descriptor_ok_def sample_descriptor_def fresh_alloc_def sample_heap_def physical_default_def contents_def)

section \<open>Properties\<close>

text \<open>
  (C15) Reserving a slot never panics. When it succeeds, exactly one vacant slot of the heap
  becomes unavailable, the returned reference is that slot's address, the heap has grown at
  most up to the limit, and the page lists, the listing of pages with free slots and the
  byte and object counts are consistent again. When it fails, the heap is the one before but
  for spare blocks of the page directory: no component other than the directory has changed,
  and the directory is well formed, has the same number of entries and answers every lookup
  as before.
\<close>

theorem heap_reserve_sound:
  assumes "heap_inv h" "page_types_ok tt" "descriptor_ok d" "fresh_alloc alloc h"
  shows "case heap_reserve tt mem alloc d limit h of
      (Ok r, h') \<Rightarrow> heap_inv h' \<and> slot_at h (rpage r) (rslot r) = Vacant \<and>
        slot_at h' = set_slot (rpage r) (rslot r) Unavailable (slot_at h) \<and>
        slot_address h' (rpage r) (rslot r) = Some (rreference r) \<and> backing_bytes h' \<le> max (backing_bytes h) limit
    | (Err e, h') \<Rightarrow> heap_inv h' \<and> slot_at h' = slot_at h \<and> backing_bytes h' = backing_bytes h \<and>
        h' = h\<lparr>allocations := allocations h'\<rparr> \<and> table_inv (allocations h') \<and>
        tlen (allocations h') = tlen (allocations h) \<and>
        (\<forall>i. table_get i (allocations h') = table_get i (allocations h))
    | (Panic m, h') \<Rightarrow> False"
  using heap_reserve_ok [OF assms, of mem limit] by (auto simp: same_entries_def)

theorem heap_reserve_sound_witness:
  "\<exists>r h'. heap_reserve sample_types (\<lambda>_. True) (\<lambda>_. Some 4096) sample_descriptor 1000000 sample_heap = (Ok r, h') \<and>
     heap_inv h' \<and> slot_at h' (rpage r) (rslot r) = Unavailable \<and> slot_address h' (rpage r) (rslot r) = Some 4096"
proof -
  have v: "page_types_ok sample_types" "descriptor_ok sample_descriptor" "fresh_alloc (\<lambda>_. Some 4096) sample_heap"
    using sample_request_valid by (simp_all add: request_ok_def sample_request_def)
  obtain r h' where r: "heap_reserve sample_types (\<lambda>_. True) (\<lambda>_. Some 4096) sample_descriptor 1000000 sample_heap = (Ok r, h')"
    "rreference r = 4096" using sample_request_Ok by (auto simp: heap_request_def sample_request_def)
  from heap_reserve_sound [OF sample_heap_inv v, where mem = "\<lambda>_. True" and limit = 1000000] r show ?thesis by (auto simp: set_slot_def)
qed

text \<open>
  (C16) An abandoned allocation leaves no trace: rolling a fresh reservation back succeeds and
  restores the state of every slot and the number of backing bytes; a page that was added for
  the reservation is unlinked from both lists and removed.
\<close>

theorem heap_rollback_restores:
  assumes "heap_inv h" "request_ok q h" "heap_request q h = (Ok r, h1)"
  shows "\<exists>h2. heap_rollback r h1 = (Ok (), h2) \<and> heap_inv h2 \<and> slot_at h2 = slot_at h \<and>
    backing_bytes h2 = backing_bytes h \<and> objects h2 = objects h \<and> memory h2 = memory h \<and> descriptors_of h2 = descriptors_of h"
proof -
  note R = heap_request_Ok [OF assms]
  from heap.abandon [OF assms] obtain h2 where h2: "release_slot (rpage r) (rslot r) h1 = (Ok (), h2)" "heap_inv h2" "slot_at h2 = slot_at h"
    by blast
  have "slot_at h1 (rpage r) (rslot r) = Unavailable" using R(3) by (simp add: set_slot_def)
  from release_slot_inv [OF R(1) this] h2(1)
  have k: "objects h2 = objects h1" "memory h2 = memory h1" "descriptors_of h2 = descriptors_of h1" "keeps_blocks h2 h1" by auto
  have "keeps_blocks h2 h"
  proof -
    have "\<exists>p. contents (allocations h) j = Some p \<and> same_block q p"
      if q: "contents (allocations h2) j = Some q" for j q
    proof -
      obtain p where p: "contents (allocations h) j = Some p"
        using page_in_use [OF assms(1), of j] page_in_use [OF h2(2), of j] h2(3) q by auto
      from k(4) q obtain u where u: "contents (allocations h1) j = Some u" "same_block q u" by (auto simp: keeps_blocks_def)
      moreover have "same_block p u" using R(8) p u(1) by (fastforce simp: keeps_blocks_def)
      ultimately show ?thesis using p same_block_sym same_block_trans by blast
    qed
    then show ?thesis by (simp add: keeps_blocks_def)
  qed
  from backing_determined [OF h2(2) assms(1) _ this] h2(3) have "backing_bytes h2 = backing_bytes h" by simp
  with h2 k R show ?thesis by (simp add: heap_rollback_def)
qed

theorem heap_rollback_restores_witness:
  "\<exists>r h1 h2. heap_request sample_request sample_heap = (Ok r, h1) \<and> heap_rollback r h1 = (Ok (), h2) \<and>
     backing_bytes h2 = 0 \<and> slot_at h2 = slot_at sample_heap"
proof -
  obtain r h1 where r: "heap_request sample_request sample_heap = (Ok r, h1)" using sample_request_Ok by blast
  have "backing_bytes sample_heap = 0" by (simp add: sample_heap_def physical_default_def)
  with heap_rollback_restores [OF sample_heap_inv sample_request_valid r] r show ?thesis by auto
qed

text \<open>
  (C17) A committed object can be found: after reserving a slot and committing it with a
  registered descriptor, the invariant holds with one more object, and both the object's
  address and its page and slot resolve to that descriptor and to the payload behind the
  header.
\<close>

theorem heap_commit_resolves:
  assumes "heap_inv h" "request_ok q h" "heap_request q h = (Ok r, h1)"
    "registered d (descriptors_of h) = Some e" "uses e < usize_max"
  shows "\<exists>h2 ob. heap_commit r d h1 = (Ok (), h2) \<and> heap_inv h2 \<and> objects h2 = objects h + 1 \<and>
    slot_at h2 = set_slot (rpage r) (rslot r) Occupied (slot_at h) \<and>
    resolve (rreference r) h2 = Ok ob \<and> object_at (rpage r) (rslot r) h2 = Ok ob \<and>
    odescriptor ob = entry_descriptor e \<and> opointer ob = rreference r + payload_offset (entry_descriptor e)"
proof -
  note R = heap_request_Ok [OF assms(1-3)]
  have "accepts d h" using assms(4,5) by (auto simp: accepts_def)
  from heap.allocate [OF assms(1-3) this] obtain h2 where h2: "heap_commit r d h1 = (Ok (), h2)" "heap_inv h2"
    "slot_at h2 = set_slot (rpage r) (rslot r) Occupied (slot_at h)" by blast
  have "slot_at h1 (rpage r) (rslot r) = Unavailable" using R(3) by (simp add: set_slot_def)
  from heap_commit_ok [OF R(1) this R(4), of d e] assms(4,5) R(5,7) h2(1)
  have c: "slot_address h2 (rpage r) (rslot r) = Some (rreference r)" "objects h2 = objects h + 1"
    "memory h2 (rreference r) = Some \<lparr>hdescriptor = d, hallocation = rpage r\<rparr>"
    "recounted d (uses e + 1) (descriptors_of h) (descriptors_of h2)" by auto
  have "slot_at h2 (rpage r) (rslot r) = Occupied" using h2(3) by (simp add: set_slot_def)
  from object_at_occupied [OF h2(2) this c(1)] c(3,4) assms(4)
  obtain ob where "resolve (rreference r) h2 = Ok ob" "object_at (rpage r) (rslot r) h2 = Ok ob"
    "odescriptor ob = entry_descriptor e" "opointer ob = rreference r + payload_offset (entry_descriptor e)"
    by (auto simp: recounted_def)
  with h2 c(2) show ?thesis by blast
qed

theorem heap_commit_resolves_witness:
  "\<exists>r h1 h2 ob. heap_request sample_request sample_heap = (Ok r, h1) \<and> heap_commit r 0 h1 = (Ok (), h2) \<and>
     objects h2 = 1 \<and> resolve 4096 h2 = Ok ob"
proof -
  obtain r h1 where r: "heap_request sample_request sample_heap = (Ok r, h1)" "rreference r = 4096" using sample_request_Ok by blast
  obtain d where "registered 0 (descriptors_of sample_heap) = Some \<lparr>entry_descriptor = d, uses = 0\<rparr>"
    using sample_registered by (auto simp: sample_heap_def)
  from heap_commit_resolves [OF sample_heap_inv sample_request_valid r(1) this] r
  show ?thesis by (auto simp: usize_max_def sample_heap_def physical_default_def)
qed

text \<open>
  (C25) Address resolution admits exactly the live objects of this heap: an address resolves
  if and only if it is the address of an occupied slot, and then it yields that slot; an
  address of another heap's object, whose header names a page that is absent here or does not
  contain it, is refused.
\<close>

theorem resolve_exact:
  assumes "heap_inv h" "memory h a = Some header"
  shows "((\<exists>ob. resolve a h = Ok ob \<and> opage ob = i \<and> oslot ob = s) \<longleftrightarrow>
      slot_at h i s = Occupied \<and> slot_address h i s = Some a)
    \<and> ((\<nexists>i s. slot_at h i s = Occupied \<and> slot_address h i s = Some a) \<longrightarrow> (\<exists>e. resolve a h = Err e))"
proof (intro conjI impI)
  show "(\<exists>ob. resolve a h = Ok ob \<and> opage ob = i \<and> oslot ob = s) \<longleftrightarrow>
      slot_at h i s = Occupied \<and> slot_address h i s = Some a"
    using resolve_sound [of a h] object_at_occupied [OF assms(1), of i s a] by force
  have "resolve a h \<noteq> Panic m" for m
    using assms(2) by (auto simp: resolve_def locate_def read_header_def checked_object_at_def descriptors_get_def ok_or_def
        split: option.splits)
  moreover assume n: "\<nexists>i s. slot_at h i s = Occupied \<and> slot_address h i s = Some a"
  then have "resolve a h \<noteq> Ok ob" for ob using resolve_sound [of a h ob] by blast
  ultimately show "\<exists>e. resolve a h = Err e" by (metis outcome.exhaust)
qed

theorem resolve_exact_witness:
  "\<exists>e. resolve 64 (sample_heap\<lparr>memory := [64 \<mapsto> \<lparr>hdescriptor = 0, hallocation = 9\<rparr>]\<rparr>) = Err e"
proof -
  let ?h = "sample_heap\<lparr>memory := [64 \<mapsto> \<lparr>hdescriptor = 0, hallocation = 9\<rparr>]\<rparr>"
  have "?h = (physical_default [64 \<mapsto> \<lparr>hdescriptor = 0, hallocation = 9\<rparr>])\<lparr>descriptors_of := sample_registry\<rparr>"
    by (simp add: sample_heap_def physical_default_def)
  then have inv: "heap_inv ?h" using heap_inv_empty [OF sample_registry_inv] by simp
  have "slot_at ?h i s = Vacant" for i s by (simp add: slot_at_def sample_heap_def physical_default_def contents_def)
  then show ?thesis using resolve_exact [OF inv, of 64] by simp
qed

end
