(* ===== verification/Gc_Marking.thy ===== *)
theory Gc_Marking
  imports Gc_Heap
begin

text \<open>
  The marking engine (\<^verbatim>\<open>crates/kagari-gc/src/marking.rs\<close>): colours in the pages and one
  reserved queue of pages that hold gray objects.

  The colours are cells of the pages, so an operation that borrows the physical heap shared may
  still change them: the state of a marking operation is \<open>edge_visitor\<close>, the pair of borrows
  that \<^verbatim>\<open>EdgeVisitor\<close> of \<^verbatim>\<open>scan.rs\<close> holds. The queue is a vector with its capacity written
  out (\<open>pcapacity\<close>), because \<^verbatim>\<open>publish\<close> refuses to push beyond it; \<open>slack\<close> is what the
  allocator grants beyond a request.

  \<open>mark_inv A v\<close> is the invariant of the queue between two steps of the collector, where \<open>A\<close>
  holds the object that is being scanned: a page is flagged as queued exactly when it is in the
  queue, every gray object is on a queued page or is the one in \<open>A\<close>, gray objects are
  allocated, no page has marks of a later epoch, and the queue has room for every page.
\<close>

section \<open>Definitions\<close>

subsection \<open>State\<close>

record marking =
  mphase :: phase
  mepoch :: nat
  pending :: "nat list"
  pcapacity :: nat
  mcycles :: nat
  publication_work :: nat

definition marking_default :: marking where
  "marking_default = \<lparr>mphase = Idle, mepoch = 0, pending = [], pcapacity = 0, mcycles = 0, publication_work = 0\<rparr>"

record edge_visitor =
  physical :: physical_heap
  marking :: marking

text \<open>A write to the mark cells of a page.\<close>

definition set_marks :: "nat \<Rightarrow> (page_marks \<Rightarrow> page_marks) \<Rightarrow> physical_heap \<Rightarrow> physical_heap" where
  "set_marks i f h = snd (page_mut i (\<lambda>p. Ok (with_marks f p)) h)"

subsection \<open>Lifecycle\<close>

definition marking_check :: "marking \<Rightarrow> unit gc_result" where
  "marking_check m =
     (case mphase m of Faulted \<Rightarrow> Err Faulted_error | Closed \<Rightarrow> Err Closed_error | _ \<Rightarrow> Ok ())"

definition reserve_pages :: "reserve \<Rightarrow> nat \<Rightarrow> nat \<Rightarrow> marking \<Rightarrow> marking gc_result" where
  "reserve_pages mem slack count m =
     (let additional = saturating_sub count (length (pending m))
      in if additional \<le> pcapacity m - length (pending m) then Ok m
         else if mem additional then Ok (m\<lparr>pcapacity := length (pending m) + additional + slack\<rparr>)
         else Err Allocation)"

definition marking_trim :: "nat \<Rightarrow> marking \<Rightarrow> marking gc_result" where
  "marking_trim pages m =
     assert_then (mphase m = Idle) ''trim outside Idle''
       (assert_then (pending m = []) ''trim with mark jobs''
          (Ok (m\<lparr>pcapacity := shrink_vec (pcapacity m) (length (pending m)) pages\<rparr>)))"

definition marking_close :: "marking \<Rightarrow> marking" where
  "marking_close m = m\<lparr>mphase := Closed, pending := [], pcapacity := 0\<rparr>"

definition marking_start :: "marking \<Rightarrow> marking gc_result" where
  "marking_start m =
     and_then (marking_check m) (\<lambda>_.
       assert_then (mphase m = Idle) ''start outside Idle''
         (assert_then (pending m = []) ''start with mark jobs''
            (and_then (ok_or (Limit ''mark epoch'') (checked_add (mepoch m) 1))
               (\<lambda>e. Ok (m\<lparr>mepoch := e, mphase := phase.Roots\<rparr>)))))"

definition marking_admit :: "reservation \<Rightarrow> edge_visitor \<Rightarrow> unit gc_result \<times> edge_visitor" where
  "marking_admit r v =
     (if mphase (marking v) \<noteq> Idle then
        (case heap_page (rpage r) (physical v) of
           Ok p \<Rightarrow> (Ok (), v\<lparr>physical := set_marks (rpage r) (set_black (rslot r) (mepoch (marking v))) (physical v)\<rparr>)
         | Err e \<Rightarrow> (Err e, v)
         | Panic m \<Rightarrow> (Panic m, v))
      else (Ok (), v))"

subsection \<open>Publication\<close>

text \<open>The cost of a publication, against the budget of a scan or to the account of the mutator.\<close>

definition charge_publication ::
    "nat \<Rightarrow> scan_budget option \<Rightarrow> marking \<Rightarrow> scan_status gc_result \<times> scan_budget option \<times> marking" where
  "charge_publication reset budget m =
     (case budget of
        Some b \<Rightarrow> (case take_units reset b of
                     (True, b) \<Rightarrow> (Ok Complete, Some b, m)
                   | (False, b) \<Rightarrow> (Ok Pending, Some b, m))
      | None \<Rightarrow> (case checked_add (publication_work m) (1 + reset) of
                   Some w \<Rightarrow> (Ok Complete, None, m\<lparr>publication_work := w\<rparr>)
                 | None \<Rightarrow> (Err (Limit ''publication work''), None, m)))"

definition set_discovered :: "nat \<Rightarrow> nat \<Rightarrow> page_marks \<Rightarrow> page_marks" where
  "set_discovered slot e m =
     (let m = marks_ensure e m in m\<lparr>discovered := set_word_bit slot (discovered m)\<rparr>)"

text \<open>The end of \<^verbatim>\<open>publish_admitted\<close>: colour the object, and queue its page once.\<close>

definition discover :: "bool \<Rightarrow> location \<Rightarrow> edge_visitor \<Rightarrow> edge_visitor" where
  "discover leaf loc v =
     (let e = mepoch (marking v);
          m = set_discovered (lslot loc) e (page_marks_of (lpage loc))
      in if leaf then v\<lparr>physical := set_marks (lid loc) (\<lambda>_. set_black (lslot loc) e m) (physical v)\<rparr>
         else if queued m then v\<lparr>physical := set_marks (lid loc) (\<lambda>_. m) (physical v)\<rparr>
         else v\<lparr>physical := set_marks (lid loc) (\<lambda>_. m\<lparr>queued := True\<rparr>) (physical v),
                marking := (marking v)\<lparr>pending := pending (marking v) @ [lid loc]\<rparr>\<rparr>)"

definition publish_located ::
    "location \<Rightarrow> scan_budget option \<Rightarrow> edge_visitor \<Rightarrow> scan_status gc_result \<times> scan_budget option \<times> edge_visitor" where
  "publish_located loc budget v =
     (let e = mepoch (marking v); marks = page_marks_of (lpage loc)
      in case charge_publication (if reset_needed marks e then 4 else 0) budget (marking v) of
           (Ok Complete, budget, m) \<Rightarrow>
             (case descriptors_get (ldescriptor loc) (descriptors_of (physical v)) of
                Ok d \<Rightarrow>
                  (let leaf = (desc_kind d = EdgeFree)
                   in if \<not> leaf \<and> \<not> queued marks \<and> length (pending m) = pcapacity m
                      then (Err (Storage ''unreserved mark job''), budget, v\<lparr>marking := m\<rparr>)
                      else (Ok Complete, budget, discover leaf loc (v\<lparr>marking := m\<rparr>)))
              | Err x \<Rightarrow> (Err x, budget, v\<lparr>marking := m\<rparr>)
              | Panic x \<Rightarrow> (Panic x, budget, v\<lparr>marking := m\<rparr>))
         | (Ok Pending, budget, m) \<Rightarrow> (Ok Pending, budget, v)
         | (Err x, budget, m) \<Rightarrow> (Err x, budget, v)
         | (Panic x, budget, m) \<Rightarrow> (Panic x, budget, v))"

definition publish_admitted ::
    "nat \<Rightarrow> scan_budget option \<Rightarrow> edge_visitor \<Rightarrow> scan_status gc_result \<times> scan_budget option \<times> edge_visitor" where
  "publish_admitted a budget v =
     (if marking_check (marking v) \<noteq> Ok () then (Panic ''publication requires lifecycle admission'', budget, v)
      else case locate a (physical v) of
        Err x \<Rightarrow> (Err x, budget, v)
      | Panic x \<Rightarrow> (Panic x, budget, v)
      | Ok loc \<Rightarrow>
          if mphase (marking v) = Idle then (Ok Complete, budget, v)
          else if mphase (marking v) = Sweep then
            (if black (page_marks_of (lpage loc)) (lslot loc) (mepoch (marking v)) then (Ok Complete, budget, v)
             else (Err (Storage ''publication of condemned object''), budget, v))
          else if is_discovered (page_marks_of (lpage loc)) (lslot loc) (mepoch (marking v))
            then (Ok Complete, budget, v)
          else publish_located loc budget v)"

definition publish ::
    "nat \<Rightarrow> scan_budget option \<Rightarrow> edge_visitor \<Rightarrow> scan_status gc_result \<times> scan_budget option \<times> edge_visitor" where
  "publish a budget v =
     (case marking_check (marking v) of
        Ok _ \<Rightarrow> publish_admitted a budget v
      | Err x \<Rightarrow> (Err x, budget, v)
      | Panic x \<Rightarrow> (Panic x, budget, v))"

text \<open>\<^verbatim>\<open>EdgeVisitor::try_visit_reference\<close>.\<close>

definition try_visit_reference ::
    "nat \<Rightarrow> scan_budget \<Rightarrow> edge_visitor \<Rightarrow> scan_status gc_result \<times> scan_budget \<times> edge_visitor" where
  "try_visit_reference a b v =
     (case publish a (Some b) v of (r, budget, v) \<Rightarrow> (r, (case budget of Some b \<Rightarrow> b | None \<Rightarrow> b), v))"

subsection \<open>The queue\<close>

text \<open>\<^verbatim>\<open>next\<close>: the lowest gray object of the page on top of the queue.\<close>

definition next_gray :: "edge_visitor \<Rightarrow> nat option gc_result \<times> edge_visitor" where
  "next_gray v =
     (let m = marking v
      in if pending m = [] then (Ok None, v)
         else let i = last (pending m); v = v\<lparr>marking := m\<lparr>pending := butlast (pending m)\<rparr>\<rparr>
              in case heap_page i (physical v) of
                   Err x \<Rightarrow> (Err x, v)
                 | Panic x \<Rightarrow> (Panic x, v)
                 | Ok p \<Rightarrow>
                     (let g = gray (page_marks_of p) (mepoch m);
                          v = v\<lparr>physical := set_marks i (\<lambda>m. m\<lparr>queued := False\<rparr>) (physical v)\<rparr>
                      in if g = 0 then (Ok None, v)
                         else let slot = trailing_zeros g;
                                  v = (if g AND (g - 1) \<noteq> 0
                                       then v\<lparr>physical := set_marks i (\<lambda>m. m\<lparr>queued := True\<rparr>) (physical v),
                                              marking := (marking v)\<lparr>pending := pending (marking v) @ [i]\<rparr>\<rparr>
                                       else v)
                              in if \<not> page_occupied p slot then (Err (Storage ''gray free slot''), v)
                                 else (and_then (page_pointer p slot) (\<lambda>a. Ok (Some a)), v)))"

definition has_jobs :: "marking \<Rightarrow> bool" where
  "has_jobs m \<longleftrightarrow> pending m \<noteq> []"

subsection \<open>Reference definitions\<close>

text \<open>The colour of a slot in an epoch.\<close>

definition black_at :: "physical_heap \<Rightarrow> nat \<Rightarrow> nat \<Rightarrow> nat \<Rightarrow> bool" where
  "black_at h e i s \<longleftrightarrow>
     (\<exists>p. contents (allocations h) i = Some p \<and> s < 128 \<and> black (page_marks_of p) s e)"

definition found_at :: "physical_heap \<Rightarrow> nat \<Rightarrow> nat \<Rightarrow> nat \<Rightarrow> bool" where
  "found_at h e i s \<longleftrightarrow>
     (\<exists>p. contents (allocations h) i = Some p \<and> s < 128 \<and> is_discovered (page_marks_of p) s e)"

definition queued_at :: "physical_heap \<Rightarrow> nat \<Rightarrow> bool" where
  "queued_at h i \<longleftrightarrow> (\<exists>p. contents (allocations h) i = Some p \<and> queued (page_marks_of p))"

definition leaf_at :: "physical_heap \<Rightarrow> nat \<Rightarrow> nat \<Rightarrow> bool" where
  "leaf_at h i s \<longleftrightarrow> (\<exists>a d e. slot_address h i s = Some a \<and> memory h a = Some \<lparr>hdescriptor = d, hallocation = i\<rparr> \<and>
     registered d (descriptors_of h) = Some e \<and> desc_kind (entry_descriptor e) = EdgeFree)"

definition mark_inv :: "(nat \<times> nat) set \<Rightarrow> edge_visitor \<Rightarrow> bool" where
  "mark_inv A v \<longleftrightarrow>
     (let h = physical v; m = marking v; e = mepoch m
      in distinct (pending m) \<and> (\<forall>i. i \<in> set (pending m) \<longleftrightarrow> queued_at h i) \<and>
         (\<forall>i p. contents (allocations h) i = Some p \<longrightarrow> epoch (page_marks_of p) \<le> e) \<and>
         (\<forall>i p. contents (allocations h) i = Some p \<longrightarrow> queued (page_marks_of p) \<longrightarrow> epoch (page_marks_of p) = e) \<and>
         (\<forall>i s. black_at h e i s \<longrightarrow> found_at h e i s) \<and>
         (\<forall>i s. found_at h e i s \<longrightarrow> \<not> black_at h e i s \<longrightarrow>
            slot_at h i s = Occupied \<and> \<not> leaf_at h i s \<and> (i \<in> set (pending m) \<or> (i, s) \<in> A)) \<and>
         page_count h \<le> pcapacity m \<and>
         (\<forall>i \<in> set (pending m). \<exists>s. found_at h e i s \<and> \<not> black_at h e i s \<and> (i, s) \<notin> A) \<and>
         (\<forall>i s. (i, s) \<in> A \<longrightarrow> found_at h e i s \<and> \<not> black_at h e i s))"

text \<open>Two heaps that differ in colours only.\<close>

definition same_objects :: "physical_heap \<Rightarrow> physical_heap \<Rightarrow> bool" where
  "same_objects h h' \<longleftrightarrow> slot_at h' = slot_at h \<and> slot_address h' = slot_address h \<and> memory h' = memory h \<and>
     descriptors_of h' = descriptors_of h \<and> objects h' = objects h \<and> backing_bytes h' = backing_bytes h \<and>
     cursor h' = cursor h \<and> first_active h' = first_active h \<and> page_count h' = page_count h \<and>
     (\<forall>X act avs. heap_at X h act avs \<longrightarrow> heap_at X h' act avs)"

text \<open>\<open>N\<close> has been discovered between two states; the leaves among the new objects are black.\<close>

definition extends :: "(nat \<times> nat) set \<Rightarrow> edge_visitor \<Rightarrow> edge_visitor \<Rightarrow> bool" where
  "extends N v v' \<longleftrightarrow>
     (let h = physical v; h' = physical v'; e = mepoch (marking v)
      in same_objects h h' \<and> mphase (marking v') = mphase (marking v) \<and> mepoch (marking v') = e \<and>
         pcapacity (marking v') = pcapacity (marking v) \<and> mcycles (marking v') = mcycles (marking v) \<and>
         (\<forall>i s. found_at h' e i s \<longleftrightarrow> found_at h e i s \<or> (i, s) \<in> N) \<and>
         (\<forall>i s. black_at h' e i s \<longleftrightarrow> black_at h e i s \<or> (i, s) \<in> N \<and> \<not> found_at h e i s \<and> leaf_at h i s))"

text \<open>Work charged to a budget.\<close>

definition spends :: "scan_budget option \<Rightarrow> scan_budget option \<Rightarrow> bool" where
  "spends b b' = (case (b, b') of
     (None, None) \<Rightarrow> True
   | (Some x, Some y) \<Rightarrow> spent x \<le> spent y \<and> remaining y + spent y = remaining x + spent x
   | _ \<Rightarrow> False)"


definition sample_marking :: marking where
  "sample_marking = \<lparr>mphase = phase.Roots, mepoch = 1, pending = [], pcapacity = 4, mcycles = 0, publication_work = 0\<rparr>"

section \<open>Writing colours\<close>

lemma with_marks_parts [simp]:
  "page_marks_of (with_marks f p) = f (page_marks_of p)" "page_slots (with_marks f p) = page_slots p"
  "page_free (with_marks f p) = page_free p" "page_pointer (with_marks f p) s = page_pointer p s"
  "page_occupied (with_marks f p) s = page_occupied p s" "page_unavailable (with_marks f p) s = page_unavailable p s"
  "group_id (with_marks f p) = group_id p" "page_backing (with_marks f p) = page_backing p"
  "strip (with_marks f p) = with_marks f (strip p)"
  by (cases p; simp add: unavail_bit_def)+

lemma with_marks_state [simp]: "slot_state (with_marks f p) = slot_state p"
  by (simp add: slot_state_def fun_eq_iff)

lemma with_marks_frame: "same_frame p (with_marks f p)"
  by (cases p) (auto simp: same_frame_def)

lemma with_marks_inv: "page_inv p \<Longrightarrow> marks_inv (f (page_marks_of p)) \<Longrightarrow> page_inv (with_marks f p)"
proof -
  assume a: "page_inv p" "marks_inv (f (page_marks_of p))"
  have "slot_state (Small b (h\<lparr>smarks := m\<rparr>)) = slot_state (Small b h)" for b h m
    using with_marks_state [of "\<lambda>_. m" "Small b h"] by simp
  moreover have "unavail_bit (h\<lparr>smarks := m\<rparr>) = unavail_bit h" for h m by (simp add: unavail_bit_def fun_eq_iff)
  ultimately show ?thesis using a by (cases p) auto
qed

lemma set_marks_heap:
  assumes h: "heap_at X h act avs" and p: "contents (allocations h) i = Some p" and f: "marks_inv (f (page_marks_of p))"
  shows "heap_at X (set_marks i f h) act avs"
    "contents (allocations (set_marks i f h)) = (contents (allocations h))(i \<mapsto> with_marks f p)"
    "\<exists>t. set_marks i f h = h\<lparr>allocations := t\<rparr> \<and> tlen t = tlen (allocations h)"
proof -
  note D = heap_atD [OF h]
  obtain p0 where p0: "table_get i (allocations h) = Some p0" "strip p0 = p" using contents_get p by blast
  have sf: "same_frame p0 (with_marks f p0)" by (rule with_marks_frame)
  from page_write_ok [OF D(1) p0(1), of "\<lambda>p. Ok (with_marks f p)"] sf
  obtain t where t: "page_mut i (\<lambda>p. Ok (with_marks f p)) h = (Ok (), h\<lparr>allocations := t\<rparr>)"
    "links_ok t (available h) (first_active h) act avs" "contents t = (contents (allocations h))(i \<mapsto> with_marks f p)"
    using p0(2) by auto
  have ti: "table_inv (allocations h)" using D(1) by (simp add: links_ok_def)
  have tl: "tlen t = tlen (allocations h)"
    using page_mut_ok [OF ti p0(1), of "\<lambda>p. Ok (with_marks f p)" "with_marks f p0"] t(1) by (auto dest: arg_cong [where f = allocations])
  have eq: "set_marks i f h = h\<lparr>allocations := t\<rparr>" by (simp add: set_marks_def t(1))
  then show "\<exists>t. set_marks i f h = h\<lparr>allocations := t\<rparr> \<and> tlen t = tlen (allocations h)" using tl by blast
  show c: "contents (allocations (set_marks i f h)) = (contents (allocations h))(i \<mapsto> with_marks f p)" by (simp add: eq t(3))
  have "page_inv (with_marks f p)" using pages_okD(1) [OF D(3) p] f by (rule with_marks_inv)
  then have pg: "pages_ok X (contents t)" unfolding t(3)
    by (rule pages_ok_write [OF D(3) p _ with_marks_frame]) (use pages_okD(3) [OF D(3) p] in auto)
  have "page_objects (with_marks f p) = page_objects p" "page_bytes (with_marks f p) = page_bytes p"
    by (simp_all add: page_objects_def page_bytes_def)
  then have tot: "total page_objects (contents t) = objects h" "total page_bytes (contents t) = backing_bytes h"
    using total_change [OF D(8) p, of page_objects "with_marks f p"] total_change [OF D(8) p, of page_bytes "with_marks f p"]
      D(4,5) by (simp_all add: t(3))
  have "memory_ok (memory h) (descriptors_of h) (contents t)" unfolding t(3)
    by (rule memory_ok_write [OF D(7) p with_marks_frame]) auto
  moreover have "listed_ok X (contents t) avs" using D(2) p by (auto simp: listed_ok_def t(3))
  ultimately show "heap_at X (set_marks i f h) act avs"
    using t(2) pg tot D(6) by (auto simp: heap_at_def Let_def eq t(3))
qed

lemma set_marks_ok:
  assumes h: "heap_inv h" and p: "contents (allocations h) i = Some p" and f: "marks_inv (f (page_marks_of p))"
  shows "heap_inv (set_marks i f h)" "same_objects h (set_marks i f h)"
    "contents (allocations (set_marks i f h)) = (contents (allocations h))(i \<mapsto> with_marks f p)"
proof -
  from h obtain act avs where "heap_at {} h act avs" by (auto simp: heap_inv_def)
  note M = set_marks_heap [where f = f, OF this p f]
  show "heap_inv (set_marks i f h)" using M(1) by (auto simp: heap_inv_def)
  show c: "contents (allocations (set_marks i f h)) = (contents (allocations h))(i \<mapsto> with_marks f p)" by (rule M(2))
  have "slot_at (set_marks i f h) = slot_at h" "slot_address (set_marks i f h) = slot_address h"
    using p by (auto simp: slot_at_def slot_address_def c fun_eq_iff)
  moreover have "heap_at X h act avs \<Longrightarrow> heap_at X (set_marks i f h) act avs" for X act avs
    by (rule set_marks_heap(1) [where f = f, OF _ p f])
  ultimately show "same_objects h (set_marks i f h)" using M(3) by (auto simp: same_objects_def page_count_def)
qed

lemma set_marks_colours:
  assumes "heap_inv h" "contents (allocations h) i = Some p" "marks_inv (f (page_marks_of p))"
  shows "black_at (set_marks i f h) e j s \<longleftrightarrow>
      (if j = i then s < 128 \<and> black (f (page_marks_of p)) s e else black_at h e j s)"
    "found_at (set_marks i f h) e j s \<longleftrightarrow>
      (if j = i then s < 128 \<and> is_discovered (f (page_marks_of p)) s e else found_at h e j s)"
    "queued_at (set_marks i f h) j \<longleftrightarrow> (if j = i then queued (f (page_marks_of p)) else queued_at h j)"
  by (auto simp: black_at_def found_at_def queued_at_def set_marks_ok(3) [where f = f, OF assms])

lemma same_objects_refl [simp]: "same_objects h h"
  by (simp add: same_objects_def)

lemma same_objects_trans: "same_objects h h' \<Longrightarrow> same_objects h' h'' \<Longrightarrow> same_objects h h''"
  by (simp add: same_objects_def)

lemma same_objects_leaf: "same_objects h h' \<Longrightarrow> leaf_at h' = leaf_at h"
  by (simp add: same_objects_def leaf_at_def fun_eq_iff)

lemma extends_refl: "extends {} v v"
  by (simp add: extends_def Let_def)

lemma extends_eta: "extends N \<lparr>physical = physical v, marking = marking v\<rparr> v' = extends N v v'"
  by (simp add: extends_def Let_def)

lemma extends_trans: "extends N v v' \<Longrightarrow> extends M v' v'' \<Longrightarrow> extends (N \<union> M) v v''"
proof -
  assume a: "extends N v v'" "extends M v' v''"
  then have "leaf_at (physical v') = leaf_at (physical v)" by (intro same_objects_leaf) (simp add: extends_def Let_def)
  moreover have "same_objects (physical v) (physical v'')"
    using a same_objects_trans by (fastforce simp: extends_def Let_def)
  ultimately show ?thesis using a by (simp add: extends_def Let_def) blast
qed

lemma spends_refl [simp]: "spends b b"
  by (simp add: spends_def split: option.splits)

lemma spends_trans: "spends b b' \<Longrightarrow> spends b' b'' \<Longrightarrow> spends b b''"
  by (auto simp: spends_def split: option.splits)

section \<open>Publication\<close>

lemma locate_occupied:
  assumes inv: "heap_inv h" and s: "slot_at h i s = Occupied" "slot_address h i s = Some a"
  shows "\<exists>p d dd. locate a h = Ok \<lparr>lpage = p, lid = i, lslot = s, ldescriptor = d\<rparr> \<and>
    contents (allocations h) i = Some (strip p) \<and> s < page_slots p \<and> page_inv p \<and>
    descriptors_get d (descriptors_of h) = Ok dd \<and> (leaf_at h i s \<longleftrightarrow> desc_kind dd = EdgeFree)"
proof -
  from object_at_occupied [OF assms] obtain d e where d: "memory h a = Some \<lparr>hdescriptor = d, hallocation = i\<rparr>"
    "registered d (descriptors_of h) = Some e"
    "resolve a h = Ok \<lparr>opointer = a + payload_offset (entry_descriptor e), odescriptor = entry_descriptor e, opage = i, oslot = s\<rparr>"
    by blast
  from d(3) obtain loc where loc: "locate a h = Ok loc" "lid loc = i" "lslot loc = s"
    "descriptors_get d (descriptors_of h) = Ok (entry_descriptor e)"
    using d(1) by (auto simp: resolve_def checked_object_at_def read_header_def)
  from loc(1) d(1) obtain p k where k: "table_get i (allocations h) = Some p" "loc = \<lparr>lpage = p, lid = i, lslot = k, ldescriptor = d\<rparr>"
    by (auto simp: locate_def read_header_def split: if_splits)
  have l: "loc = \<lparr>lpage = lpage loc, lid = i, lslot = s, ldescriptor = d\<rparr>" "table_get i (allocations h) = Some (lpage loc)"
    using k loc(3) by simp_all
  from inv obtain act avs where "heap_at {} h act avs" by (auto simp: heap_inv_def)
  then have "page_inv (strip (lpage loc))" by (rule pages_okD(1) [OF heap_atD(3) get_contents [OF l(2)]])
  moreover have "s < page_slots (lpage loc)" using s(1) get_contents [OF l(2)] slot_less [of "lpage loc" s] by (simp add: slot_at_def)
  moreover have "leaf_at h i s \<longleftrightarrow> desc_kind (entry_descriptor e) = EdgeFree" using s(2) d by (auto simp: leaf_at_def)
  ultimately show ?thesis using loc(1,4) l get_contents [OF l(2)] by (intro exI [of _ "lpage loc"] exI [of _ d] exI [of _ "entry_descriptor e"]) simp
qed

text \<open>Colours after the mark of one slot is set.\<close>

lemma set_discovered_colours:
  assumes "marks_inv m" "s < 128" "t < 128"
  shows "black (set_discovered s e m) t e \<longleftrightarrow> black m t e"
    "is_discovered (set_discovered s e m) t e \<longleftrightarrow> is_discovered m t e \<or> t = s"
    "marks_inv (set_discovered s e m)" "epoch (set_discovered s e m) = e"
    "queued (set_discovered s e m) \<longleftrightarrow> queued m \<and> epoch m = e"
proof -
  have s: "s div 64 < 2" using assms(2) by (simp add: less_mult_imp_div_less)
  let ?m = "marks_ensure e m"
  have m: "marks_inv ?m" using assms(1) by simp
  then show inv: "marks_inv (set_discovered s e m)" by (simp add: set_discovered_def Let_def marks_inv_def)
  show ep: "epoch (set_discovered s e m) = e"
    using ensure_colours(3) [OF assms(1,2)] by (simp add: set_discovered_def Let_def)
  show "black (set_discovered s e m) t e \<longleftrightarrow> black m t e"
    using ensure_colours(1) [OF assms(1,3), of e] black_iff [OF inv assms(3), of e] black_iff [OF m assms(3), of e]
      ensure_colours(3) [OF assms(1,3), of e] ep by (simp add: set_discovered_def Let_def)
  show "is_discovered (set_discovered s e m) t e \<longleftrightarrow> is_discovered m t e \<or> t = s"
    using ensure_colours(2) [OF assms(1,3), of e] discovered_iff [OF inv assms(3), of e] discovered_iff [OF m assms(3), of e]
      ensure_colours(3) [OF assms(1,3), of e] ep m s by (auto simp: set_discovered_def Let_def bits_set_set marks_inv_def)
  show "queued (set_discovered s e m) \<longleftrightarrow> queued m \<and> epoch m = e"
    by (auto simp: set_discovered_def Let_def marks_ensure_def reset_needed_def)
qed

lemma queued_colours [simp]:
  "black (m\<lparr>queued := q\<rparr>) s e = black m s e" "is_discovered (m\<lparr>queued := q\<rparr>) s e = is_discovered m s e"
  "marks_inv (m\<lparr>queued := q\<rparr>) = marks_inv m" "gray (m\<lparr>queued := q\<rparr>) e = gray m e"
  by (auto simp: black_def black_word_def is_discovered_def reset_needed_def marks_inv_def gray_def)

lemma set_black_epoch [simp]: "epoch (set_black s e m) = e"
  by (simp add: set_black_def Let_def marks_ensure_def reset_needed_def)

lemma set_black_queued: "queued (set_black s e m) \<longleftrightarrow> queued m \<and> epoch m = e"
  by (auto simp: set_black_def Let_def marks_ensure_def reset_needed_def)

text \<open>Discovering an object that was white.\<close>

lemma mark_invD:
  assumes "mark_inv A v"
  shows "distinct (pending (marking v))" "\<And>i. i \<in> set (pending (marking v)) \<longleftrightarrow> queued_at (physical v) i"
    "\<And>i p. contents (allocations (physical v)) i = Some p \<Longrightarrow> epoch (page_marks_of p) \<le> mepoch (marking v)"
    "\<And>i p. contents (allocations (physical v)) i = Some p \<Longrightarrow> queued (page_marks_of p) \<Longrightarrow> epoch (page_marks_of p) = mepoch (marking v)"
    "\<And>i s. black_at (physical v) (mepoch (marking v)) i s \<Longrightarrow> found_at (physical v) (mepoch (marking v)) i s"
    "\<And>i s. found_at (physical v) (mepoch (marking v)) i s \<Longrightarrow> \<not> black_at (physical v) (mepoch (marking v)) i s \<Longrightarrow>
       slot_at (physical v) i s = Occupied \<and> \<not> leaf_at (physical v) i s \<and> (i \<in> set (pending (marking v)) \<or> (i, s) \<in> A)"
    "page_count (physical v) \<le> pcapacity (marking v)"
    "\<And>i. i \<in> set (pending (marking v)) \<Longrightarrow>
       \<exists>s. found_at (physical v) (mepoch (marking v)) i s \<and> \<not> black_at (physical v) (mepoch (marking v)) i s \<and> (i, s) \<notin> A"
    "\<And>i s. (i, s) \<in> A \<Longrightarrow> found_at (physical v) (mepoch (marking v)) i s \<and> \<not> black_at (physical v) (mepoch (marking v)) i s"
  using assms unfolding mark_inv_def Let_def by blast+

lemma page_count_dom: "heap_inv h \<Longrightarrow> page_count h = card (dom (contents (allocations h)))"
  using tlen_card [of "allocations h"]
  by (auto simp: heap_inv_def page_count_def dom_def contents_def dest!: heap_atD(1) simp: links_ok_def)

lemma pending_room:
  assumes "heap_inv (physical v)" "mark_inv A v" "contents (allocations (physical v)) i \<noteq> None" "\<not> queued_at (physical v) i"
  shows "length (pending (marking v)) < pcapacity (marking v)"
proof -
  note M = mark_invD [OF assms(2)]
  let ?D = "dom (contents (allocations (physical v)))"
  from assms(1) obtain act avs where "heap_at {} (physical v) act avs" by (auto simp: heap_inv_def)
  then have fin: "finite ?D" by (rule heap_atD)
  have "set (pending (marking v)) \<subseteq> ?D" using M(2) by (auto simp: queued_at_def)
  moreover have "i \<notin> set (pending (marking v))" "i \<in> ?D" using M(2) assms(3,4) by auto
  ultimately have "set (pending (marking v)) \<subset> ?D" by blast
  then have "card (set (pending (marking v))) < card ?D" by (rule psubset_card_mono [OF fin])
  then show ?thesis using M(1,7) page_count_dom [OF assms(1)] by (simp add: distinct_card)
qed

text \<open>The general case: one object of a page is discovered, and possibly made black.\<close>

lemma discover_one:
  assumes inv: "heap_inv h" "mark_inv A \<lparr>physical = h, marking = m\<rparr>" and p: "contents (allocations h) i = Some p" "s < page_slots p"
    and occ: "slot_at h i s = Occupied" and new: "\<not> found_at h (mepoch m) i s"
    and f: "marks_inv (f (page_marks_of p))" "epoch (f (page_marks_of p)) = mepoch m"
      "\<And>t. t < 128 \<Longrightarrow> is_discovered (f (page_marks_of p)) t (mepoch m) \<longleftrightarrow> is_discovered (page_marks_of p) t (mepoch m) \<or> t = s"
      "\<And>t. t < 128 \<Longrightarrow> black (f (page_marks_of p)) t (mepoch m) \<longleftrightarrow> black (page_marks_of p) t (mepoch m) \<or> t = s \<and> leaf_at h i s"
    and pend: "distinct pend" "\<And>j. j \<in> set pend \<longleftrightarrow> (if j = i then queued (f (page_marks_of p)) else j \<in> set (pending m))"
      "set (pending m) \<subseteq> set pend" "leaf_at h i s \<or> i \<in> set pend" "leaf_at h i s \<Longrightarrow> i \<in> set pend \<Longrightarrow> i \<in> set (pending m)"
    and m': "m' = m\<lparr>pending := pend, publication_work := w\<rparr>"
  shows "extends {(i, s)} \<lparr>physical = h, marking = m\<rparr> \<lparr>physical = set_marks i f h, marking = m'\<rparr>"
    "mark_inv A \<lparr>physical = set_marks i f h, marking = m'\<rparr>" "heap_inv (set_marks i f h)"
proof -
  let ?e = "mepoch m" and ?h = "set_marks i f h"
  note M = mark_invD [OF inv(2), simplified]
  note S = set_marks_ok [where f = f, OF inv(1) p(1) f(1)]
  note C = set_marks_colours [where f = f, OF inv(1) p(1) f(1)]
  from inv(1) obtain act avs where "heap_at {} h act avs" by (auto simp: heap_inv_def)
  then have "page_inv p" using p(1) by (blast intro: pages_okD(1) heap_atD(3))
  then have le: "page_slots p \<le> 128" by (rule page_slots_le)
  have found: "found_at ?h ?e j t \<longleftrightarrow> found_at h ?e j t \<or> (j, t) = (i, s)" for j t
  proof (cases "j = i \<and> t < 128")
    case True
    then show ?thesis using f(3) [of t] p by (simp add: found_at_def S(3))
  qed (use p le in \<open>auto simp: found_at_def S(3)\<close>)
  have black: "black_at ?h ?e j t \<longleftrightarrow> black_at h ?e j t \<or> (j, t) = (i, s) \<and> leaf_at h i s" for j t
  proof (cases "j = i \<and> t < 128")
    case True
    then show ?thesis using f(4) [of t] p by (simp add: black_at_def S(3))
  qed (use p le in \<open>auto simp: black_at_def S(3)\<close>)
  have so: "slot_at ?h = slot_at h" "leaf_at ?h = leaf_at h" "page_count ?h = page_count h"
    using S(2) same_objects_leaf by (auto simp: same_objects_def)
  show "heap_inv ?h" by (rule S(1))
  show "extends {(i, s)} \<lparr>physical = h, marking = m\<rparr> \<lparr>physical = ?h, marking = m'\<rparr>"
    using S(2) found black new by (auto simp: extends_def Let_def m')
  have "queued_at ?h j \<longleftrightarrow> j \<in> set pend" for j using pend(2) [of j] M(2) [of j] by (auto simp: C)
  moreover have "epoch (page_marks_of q) \<le> ?e \<and> (queued (page_marks_of q) \<longrightarrow> epoch (page_marks_of q) = ?e)"
    if "contents (allocations ?h) j = Some q" for j q
    using that M(3,4) f(2) by (auto simp: S(3) split: if_splits)
  moreover have "slot_at h j t = Occupied \<and> \<not> leaf_at h j t \<and> (j \<in> set pend \<or> (j, t) \<in> A)"
    if "found_at ?h ?e j t" "\<not> black_at ?h ?e j t" for j t
    using that M(6) [of j t] occ pend(3,4) by (auto simp: found black)
  moreover have "found_at ?h ?e j t" if "black_at ?h ?e j t" for j t using that M(5) by (auto simp: found black)
  moreover have "\<exists>t. found_at ?h ?e j t \<and> \<not> black_at ?h ?e j t \<and> (j, t) \<notin> A" if j: "j \<in> set pend" for j
  proof (cases "j \<in> set (pending m)")
    case True
    then obtain t where "found_at h ?e j t" "\<not> black_at h ?e j t" "(j, t) \<notin> A" using M(8) by blast
    then show ?thesis using new by (auto simp: found black)
  next
    case False
    then have "j = i" "\<not> leaf_at h i s" using j pend(2) [of j] pend(5) by (auto split: if_splits)
    moreover have "\<not> black_at h ?e i s" "(i, s) \<notin> A" using new M(5) [of i s] M(9) [of i s] by auto
    ultimately show ?thesis by (auto simp: found black)
  qed
  moreover have "found_at ?h ?e j t \<and> \<not> black_at ?h ?e j t" if "(j, t) \<in> A" for j t
    using M(9) [OF that] new by (auto simp: found black)
  ultimately show "mark_inv A \<lparr>physical = ?h, marking = m'\<rparr>"
    using pend(1) M(7) unfolding mark_inv_def Let_def by (simp add: m' so)
qed

text \<open>How a publication is paid for.\<close>

lemma charge_publication_cases:
  obtains (paid) b' w where "charge_publication r b m = (Ok Complete, b', m\<lparr>publication_work := w\<rparr>)" "spends b b'"
  | (unpaid) bu where "charge_publication r b m = (Ok Pending, b, m)" "b = Some bu" "fst (take_units r bu) = False"
  | (overflow) "charge_publication r b m = (Err (Limit ''publication work''), b, m)" "b = None"
proof (cases b)
  case None
  then show ?thesis using paid [of None] overflow
    by (cases "checked_add (publication_work m) (1 + r)") (auto simp: charge_publication_def spends_def)
next
  case (Some bu)
  obtain ok bu' where t: "take_units r bu = (ok, bu')" by fastforce
  show ?thesis
  proof (cases ok)
    case True
    then have "spends b (Some bu')" using take_units_True [of r bu bu'] t Some by (auto simp: spends_def)
    then show ?thesis using paid [of "Some bu'" "publication_work m"] Some t True by (simp add: charge_publication_def)
  next
    case False
    then show ?thesis using unpaid [of bu] Some t take_units_False [of r bu bu'] by (simp add: charge_publication_def)
  qed
qed

lemma marking_check_Ok: "marking_check m = Ok () \<longleftrightarrow> mphase m \<noteq> Faulted \<and> mphase m \<noteq> Closed"
  by (cases "mphase m") (auto simp: marking_check_def)

lemma publish_located_ok:
  assumes inv: "heap_inv (physical v)" "mark_inv A v" and occ: "slot_at (physical v) i s = Occupied"
    and p: "contents (allocations (physical v)) i = Some (strip p)" "s < page_slots p" "page_inv p"
    and d: "descriptors_get d (descriptors_of (physical v)) = Ok dd" "leaf_at (physical v) i s \<longleftrightarrow> desc_kind dd = EdgeFree"
    and new: "\<not> found_at (physical v) (mepoch (marking v)) i s"
    and loc: "loc = \<lparr>lpage = p, lid = i, lslot = s, ldescriptor = d\<rparr>"
  shows "(\<exists>b' v'. publish_located loc b v = (Ok Complete, b', v') \<and> extends {(i, s)} v v' \<and> mark_inv A v' \<and>
      heap_inv (physical v') \<and> spends b b')
    \<or> (\<exists>bu. publish_located loc b v = (Ok Pending, b, v) \<and> b = Some bu \<and> \<not> fst (take_units 4 bu))
    \<or> publish_located loc b v = (Err (Limit ''publication work''), b, v) \<and> b = None"
proof -
  let ?e = "mepoch (marking v)" and ?mk = "page_marks_of p"
  let ?r = "if reset_needed ?mk ?e then 4 else 0 :: nat"
  have le: "s < 128" using p(2) page_slots_le [OF p(3)] by simp
  have mi: "marks_inv ?mk" by (rule page_marks_inv [OF p(3)])
  note SD = set_discovered_colours [OF mi le, of _ ?e]
  have mono: "fst (take_units ?r bu)" if "fst (take_units 4 bu)" for bu :: scan_budget
    using that by (auto simp: take_units_def checked_add_def split: if_splits)
  show ?thesis
  proof (cases rule: charge_publication_cases [of ?r b "marking v"])
    case (paid b' w)
    let ?m = "(marking v)\<lparr>publication_work := w\<rparr>" and ?leaf = "desc_kind dd = EdgeFree"
    let ?v = "v\<lparr>marking := ?m\<rparr>" and ?sd = "set_discovered s ?e ?mk"
    note M = mark_invD [OF inv(2)]
    have room: "length (pending ?m) \<noteq> pcapacity ?m" if "\<not> queued ?mk"
      using pending_room [OF inv, of i] p(1) that by (auto simp: queued_at_def)
    have run: "publish_located loc b v = (Ok Complete, b', discover ?leaf loc ?v)"
      using paid(1) d(1) room by (auto simp: publish_located_def Let_def loc)
    have Q: "queued ?sd \<longleftrightarrow> i \<in> set (pending (marking v))"
      using SD(5) [OF le] M(2) [of i] M(4) [OF p(1)] p(1) by (auto simp: queued_at_def)
    have "mark_inv A \<lparr>physical = physical v, marking = marking v\<rparr>" using inv(2) by (cases v) simp
    then have pre: "s < page_slots (strip p)" "mark_inv A \<lparr>physical = physical v, marking = marking v\<rparr>" using p(2) by simp_all
    have "extends {(i, s)} v (discover ?leaf loc ?v) \<and> mark_inv A (discover ?leaf loc ?v) \<and> heap_inv (physical (discover ?leaf loc ?v))"
    proof (cases ?leaf)
      case True
      let ?f = "\<lambda>_ :: page_marks. set_black s ?e ?sd"
      have eq: "discover ?leaf loc ?v = \<lparr>physical = set_marks i ?f (physical v), marking = ?m\<rparr>"
        using True by (simp add: discover_def Let_def loc)
      have pd: "\<And>j. j \<in> set (pending (marking v)) \<longleftrightarrow> (if j = i then queued (set_black s ?e ?sd) else j \<in> set (pending (marking v)))"
        using Q SD(4) [OF le] by (auto simp: set_black_queued)
      have "extends {(i, s)} \<lparr>physical = physical v, marking = marking v\<rparr> \<lparr>physical = set_marks i ?f (physical v), marking = ?m\<rparr> \<and>
          mark_inv A \<lparr>physical = set_marks i ?f (physical v), marking = ?m\<rparr> \<and> heap_inv (set_marks i ?f (physical v))"
        by (intro conjI discover_one [where f = ?f, OF inv(1) pre(2) p(1) pre(1) occ new _ _ _ _ M(1), where w = w])
          (use SD [OF le] set_black_colours [OF SD(3) [OF le] le, of _ ?e] pd True d(2) in \<open>auto simp: SD(1,2)\<close>)
      then show ?thesis unfolding eq by (simp add: extends_eta)
    next
      case False
      let ?f = "\<lambda>_ :: page_marks. ?sd\<lparr>queued := True\<rparr>"
      let ?pend = "if queued ?sd then pending (marking v) else pending (marking v) @ [i]"
      have eq: "discover ?leaf loc ?v = \<lparr>physical = set_marks i ?f (physical v), marking = ?m\<lparr>pending := ?pend\<rparr>\<rparr>"
        using False by (cases ?sd) (auto simp: discover_def Let_def loc)
      have pd: "distinct ?pend" "\<And>j. j \<in> set ?pend \<longleftrightarrow> (if j = i then queued (?f (page_marks_of (strip p))) else j \<in> set (pending (marking v)))"
        using M(1) Q by auto
      have "extends {(i, s)} \<lparr>physical = physical v, marking = marking v\<rparr> \<lparr>physical = set_marks i ?f (physical v), marking = ?m\<lparr>pending := ?pend\<rparr>\<rparr> \<and>
          mark_inv A \<lparr>physical = set_marks i ?f (physical v), marking = ?m\<lparr>pending := ?pend\<rparr>\<rparr> \<and> heap_inv (set_marks i ?f (physical v))"
        by (intro conjI discover_one [where f = ?f, OF inv(1) pre(2) p(1) pre(1) occ new _ _ _ _ pd(1), where w = w])
          (use SD [OF le] pd Q False d(2) in \<open>auto simp: SD(1,2)\<close>)
      then show ?thesis unfolding eq by (simp add: extends_eta)
    qed
    then show ?thesis using run paid(2) by blast
  next
    case (unpaid bu)
    then have "publish_located loc b v = (Ok Pending, b, v)" by (simp add: publish_located_def Let_def loc)
    moreover have "\<not> fst (take_units 4 bu)" using unpaid(3) mono [of bu] by blast
    ultimately show ?thesis using unpaid(2) by blast
  next
    case overflow
    then show ?thesis by (simp add: publish_located_def Let_def loc)
  qed
qed

text \<open>Publication while marking, on every branch.\<close>

lemma publish_ok:
  assumes inv: "heap_inv (physical v)" "mark_inv A v" and ph: "mphase (marking v) \<in> {phase.Roots, Mark}"
    and s: "slot_at (physical v) i s = Occupied" "slot_address (physical v) i s = Some a"
  shows "(\<exists>b' v'. publish a b v = (Ok Complete, b', v') \<and> extends {(i, s)} v v' \<and> mark_inv A v' \<and>
      heap_inv (physical v') \<and> spends b b')
    \<or> (\<exists>bu. publish a b v = (Ok Pending, b, v) \<and> b = Some bu \<and> \<not> fst (take_units 4 bu))
    \<or> publish a b v = (Err (Limit ''publication work''), b, v) \<and> b = None"
proof -
  let ?e = "mepoch (marking v)"
  from locate_occupied [OF inv(1) s] obtain p d dd where L: "locate a (physical v) = Ok \<lparr>lpage = p, lid = i, lslot = s, ldescriptor = d\<rparr>"
    "contents (allocations (physical v)) i = Some (strip p)" "s < page_slots p" "page_inv p"
    "descriptors_get d (descriptors_of (physical v)) = Ok dd" "leaf_at (physical v) i s \<longleftrightarrow> desc_kind dd = EdgeFree" by blast
  have chk: "marking_check (marking v) = Ok ()" using ph by (auto simp: marking_check_Ok)
  have found: "found_at (physical v) ?e i s \<longleftrightarrow> is_discovered (page_marks_of p) s ?e"
    using L(2,3) page_slots_le [OF L(4)] by (simp add: found_at_def)
  show ?thesis
  proof (cases "found_at (physical v) ?e i s")
    case True
    then have "publish a b v = (Ok Complete, b, v)"
      using L(1) chk ph found by (auto simp: publish_def publish_admitted_def)
    moreover have "extends {(i, s)} v v" using True by (auto simp: extends_def Let_def)
    ultimately show ?thesis using inv by auto
  next
    case False
    then have "publish a b v = publish_located \<lparr>lpage = p, lid = i, lslot = s, ldescriptor = d\<rparr> b v"
      using L(1) chk ph found by (auto simp: publish_def publish_admitted_def)
    then show ?thesis using publish_located_ok [OF inv s(1) L(2-6) False refl, of b] by simp
  qed
qed

text \<open>Publication in the other phases.\<close>

lemma publish_sweep:
  assumes "heap_inv (physical v)" "slot_at (physical v) i s = Occupied" "slot_address (physical v) i s = Some a"
    and "mphase (marking v) = Sweep"
  shows "publish a b v = (if black_at (physical v) (mepoch (marking v)) i s then Ok Complete
    else Err (Storage ''publication of condemned object''), b, v)"
proof -
  from locate_occupied [OF assms(1-3)] obtain p d where L: "locate a (physical v) = Ok \<lparr>lpage = p, lid = i, lslot = s, ldescriptor = d\<rparr>"
    "contents (allocations (physical v)) i = Some (strip p)" "s < page_slots p" "page_inv p" by blast
  then show ?thesis using assms(4) page_slots_le [OF L(4)]
    by (auto simp: publish_def publish_admitted_def marking_check_def black_at_def)
qed

lemma publish_idle:
  assumes "heap_inv (physical v)" "slot_at (physical v) i s = Occupied" "slot_address (physical v) i s = Some a"
    and "mphase (marking v) = Idle"
  shows "publish a b v = (Ok Complete, b, v)"
proof -
  from locate_occupied [OF assms(1-3)] obtain loc where "locate a (physical v) = Ok loc" by blast
  then show ?thesis using assms(4) by (simp add: publish_def publish_admitted_def marking_check_def)
qed

lemma publish_stopped:
  "mphase (marking v) = Faulted \<Longrightarrow> publish a b v = (Err Faulted_error, b, v)"
  "mphase (marking v) = Closed \<Longrightarrow> publish a b v = (Err Closed_error, b, v)"
  by (simp_all add: publish_def marking_check_def)


section \<open>Taking gray objects\<close>

lemma clear_lowest_bit:
  assumes "(g :: 'a::len word) \<noteq> 0"
  shows "bit (g AND (g - 1)) t \<longleftrightarrow> bit g t \<and> t \<noteq> trailing_zeros g"
proof -
  let ?k = "trailing_zeros g"
  define h where "h = unset_bit ?k g"
  note k = trailing_zeros_nonzero [OF assms] trailing_zeros_below [of _ g]
  have h: "bit h n \<longleftrightarrow> bit g n \<and> ?k < n" for n
    using k(3) [of n] by (cases n ?k rule: linorder_cases) (auto simp: h_def bit_unset_bit_iff)
  have p: "bit (2 ^ ?k :: 'a word) n \<longleftrightarrow> n = ?k" for n using k(1) by (auto simp: bit_exp_iff)
  have "bit g n \<longleftrightarrow> bit (h OR 2 ^ ?k) n" for n
    using k(2) k(3) [of n] h [of n] p [of n] by (cases n ?k rule: linorder_cases) (simp_all add: bit_or_iff)
  then have "g = h OR 2 ^ ?k" by (simp add: bit_eq_iff)
  also have "\<dots> = h + 2 ^ ?k" using h p
    by (intro disjunctive_add_eq_or [symmetric] bit_eqI) (simp add: bit_and_iff)
  finally have "g - 1 = h + mask ?k" by (simp add: mask_eq_exp_minus_1 algebra_simps)
  also have "\<dots> = h OR mask ?k" using h
    by (intro disjunctive_add_eq_or bit_eqI) (auto simp: bit_and_iff bit_mask_iff)
  finally show ?thesis using h [of t] k(3) [of t] by (auto simp: bit_and_iff bit_or_iff bit_mask_iff)
qed

lemma two_bits:
  "(g :: 'a::len word) \<noteq> 0 \<Longrightarrow> g AND (g - 1) \<noteq> 0 \<longleftrightarrow> (\<exists>t. bit g t \<and> t \<noteq> trailing_zeros g)"
  using clear_lowest_bit [of g] bit_eq_iff [of "g AND (g - 1)" 0] by (auto dest: bit_imp_le_length)


text \<open>Flagging a page as queued or not, together with the queue.\<close>

lemma requeue_ok:
  assumes inv: "heap_inv (physical v)" "mark_inv A v" and p: "contents (allocations (physical v)) i = Some p"
    and ep: "epoch (page_marks_of p) = mepoch (marking v)"
    and pend: "distinct pend" "set pend = (if x then insert i (set (pending (marking v))) else set (pending (marking v)) - {i})"
    and A: "\<And>t. found_at (physical v) (mepoch (marking v)) i t \<Longrightarrow> \<not> black_at (physical v) (mepoch (marking v)) i t \<Longrightarrow> x \<or> (i, t) \<in> B"
      "\<And>j t. j \<noteq> i \<Longrightarrow> (j, t) \<in> A \<longleftrightarrow> (j, t) \<in> B"
      "\<And>t. (i, t) \<in> B \<Longrightarrow> found_at (physical v) (mepoch (marking v)) i t \<and> \<not> black_at (physical v) (mepoch (marking v)) i t"
      "x \<Longrightarrow> \<exists>t. found_at (physical v) (mepoch (marking v)) i t \<and> \<not> black_at (physical v) (mepoch (marking v)) i t \<and> (i, t) \<notin> B"
    and v': "v' = \<lparr>physical = set_marks i (\<lambda>m. m\<lparr>queued := x\<rparr>) (physical v), marking = (marking v)\<lparr>pending := pend\<rparr>\<rparr>"
  shows "heap_inv (physical v')" "extends {} v v'" "mark_inv B v'" "\<exists>q. contents (allocations (physical v')) i = Some q \<and> page_marks_of q = (page_marks_of p)\<lparr>queued := x\<rparr>"
proof -
  let ?h = "physical v" and ?e = "mepoch (marking v)" and ?f = "\<lambda>m. m\<lparr>queued := x\<rparr>"
  note M = mark_invD [OF inv(2)]
  from inv(1) obtain act avs where "heap_at {} ?h act avs" by (auto simp: heap_inv_def)
  then have "page_inv p" using p by (blast intro: pages_okD(1) heap_atD(3))
  then have mi: "marks_inv (?f (page_marks_of p))" by (simp add: page_marks_inv)
  note S = set_marks_ok [where f = ?f, OF inv(1) p mi]
  have col: "black_at (set_marks i ?f ?h) e j t = black_at ?h e j t" "found_at (set_marks i ?f ?h) e j t = found_at ?h e j t"
    for e j t using p by (auto simp: black_at_def found_at_def S(3))
  have so: "slot_at (set_marks i ?f ?h) = slot_at ?h" "leaf_at (set_marks i ?f ?h) = leaf_at ?h" "page_count (set_marks i ?f ?h) = page_count ?h"
    using S(2) same_objects_leaf by (auto simp: same_objects_def)
  show "heap_inv (physical v')" using S(1) by (simp add: v')
  show "extends {} v v'" using S(2) col by (simp add: extends_def Let_def v')
  show "\<exists>q. contents (allocations (physical v')) i = Some q \<and> page_marks_of q = (page_marks_of p)\<lparr>queued := x\<rparr>" by (simp add: v' S(3))
  have "queued_at (set_marks i ?f ?h) j \<longleftrightarrow> j \<in> set pend" for j
    using pend(2) M(2) [of j] by (auto simp: queued_at_def S(3))
  moreover have "epoch (page_marks_of q) \<le> ?e \<and> (queued (page_marks_of q) \<longrightarrow> epoch (page_marks_of q) = ?e)"
    if "contents (allocations (set_marks i ?f ?h)) j = Some q" for j q
    using that M(3,4) ep by (auto simp: S(3) split: if_splits)
  moreover have "slot_at ?h j t = Occupied \<and> \<not> leaf_at ?h j t \<and> (j \<in> set pend \<or> (j, t) \<in> B)"
    if "found_at ?h ?e j t" "\<not> black_at ?h ?e j t" for j t
    using M(6) [OF that] A(1) [of t] A(2) [of j t] that pend(2) by (cases "j = i") auto
  moreover have "\<exists>t. found_at ?h ?e j t \<and> \<not> black_at ?h ?e j t \<and> (j, t) \<notin> B" if "j \<in> set pend" for j
    using that pend(2) M(8) [of j] A(2) [of j] A(4) by (cases "j = i") (auto split: if_splits)
  moreover have "found_at ?h ?e j t \<and> \<not> black_at ?h ?e j t" if "(j, t) \<in> B" for j t
    using that M(9) [of j t] A(2) [of j t] A(3) [of t] by (cases "j = i") auto
  ultimately show "mark_inv B v'"
    using pend(1) M(5,7) unfolding mark_inv_def Let_def by (simp add: v' so col)
qed

text \<open>The queue hands out gray objects; the object it hands out becomes the active one.\<close>

lemma next_gray_ok:
  assumes inv: "heap_inv (physical v)" "mark_inv {} v"
  shows "pending (marking v) = [] \<and> next_gray v = (Ok None, v)
    \<or> pending (marking v) \<noteq> [] \<and> (\<exists>i s a v'. next_gray v = (Ok (Some a), v') \<and> extends {} v v' \<and> mark_inv {(i, s)} v' \<and> heap_inv (physical v') \<and>
        slot_at (physical v) i s = Occupied \<and> slot_address (physical v) i s = Some a \<and>
        found_at (physical v) (mepoch (marking v)) i s \<and> \<not> black_at (physical v) (mepoch (marking v)) i s \<and> \<not> leaf_at (physical v) i s)"
proof (cases "pending (marking v) = []")
  case False
  let ?h = "physical v" and ?m = "marking v" let ?e = "mepoch ?m" and ?i = "last (pending ?m)"
  note M = mark_invD [OF inv(2)]
  have pe: "pending ?m = butlast (pending ?m) @ [?i]" using False by simp
  have i: "?i \<in> set (pending ?m)" "?i \<notin> set (butlast (pending ?m))" "distinct (butlast (pending ?m))"
    using M(1) False by (auto simp: distinct_butlast) (metis pe distinct_append disjoint_iff list.set_intros(1))
  then obtain p where p: "contents (allocations ?h) ?i = Some p" "queued (page_marks_of p)" using M(2) by (auto simp: queued_at_def)
  obtain p0 where p0: "table_get ?i (allocations ?h) = Some p0" "strip p0 = p" using contents_get p(1) by blast
  from inv(1) obtain act avs where "heap_at {} ?h act avs" by (auto simp: heap_inv_def)
  then have pi: "page_inv p" using p(1) by (blast intro: pages_okD(1) heap_atD(3))
  then have mi: "marks_inv (page_marks_of p)" by (rule page_marks_inv)
  let ?g = "gray (page_marks_of p) ?e"
  have bits: "bit ?g t \<longleftrightarrow> found_at ?h ?e ?i t \<and> \<not> black_at ?h ?e ?i t" for t
  proof (cases "t < 128")
    case True
    then show ?thesis using gray_bit [OF mi True, of ?e] p(1) by (simp add: found_at_def black_at_def)
  next
    case False
    then show ?thesis using bit_imp_le_length [of ?g t] by (auto simp: found_at_def)
  qed
  have ep: "epoch (page_marks_of p) = ?e" by (rule M(4) [OF p])
  define v1 where "v1 = \<lparr>physical = set_marks ?i (\<lambda>m. m\<lparr>queued := False\<rparr>) ?h, marking = ?m\<lparr>pending := butlast (pending ?m)\<rparr>\<rparr>"
  have pend1: "set (butlast (pending ?m)) = set (pending ?m) - {?i}" using i(2) pe by (metis Diff_insert_absorb Un_insert_right list.simps(15) set_append set_empty sup_bot.right_neutral list.set(1))
  let ?G = "{(?i, t) | t. found_at ?h ?e ?i t \<and> \<not> black_at ?h ?e ?i t}"
  note R = requeue_ok [where x = False and v' = v1, OF inv p(1) ep i(3)]
  have R1: "heap_inv (physical v1)" "extends {} v v1" "\<exists>q. contents (allocations (physical v1)) ?i = Some q \<and> page_marks_of q = (page_marks_of p)\<lparr>queued := False\<rparr>"
    by (rule R [where B = ?G]; simp add: pend1 v1_def)+
  have R2: "mark_inv ?G v1" by (rule R(3)) (auto simp: pend1 v1_def)
  have pg: "heap_page ?i ?h = Ok p0" using p0(1) by (simp add: heap_page_def)
  have g0: "gray (page_marks_of p0) ?e = ?g" using p0(2) by auto
  have g: "?g \<noteq> 0" using M(8) [OF i(1)] bits by auto
  show ?thesis
  proof -
    let ?s = "trailing_zeros ?g"
    have s: "found_at ?h ?e ?i ?s" "\<not> black_at ?h ?e ?i ?s" using bits trailing_zeros_nonzero(2) [OF g] by auto
    note G = M(6) [OF s]
    have lt: "?s < page_slots p" using G p(1) slot_less [of p ?s] by (simp add: slot_at_def)
    then obtain a where a: "page_pointer p ?s = Ok a" by (cases p) auto
    have ad: "slot_address ?h ?i ?s = Some a" "page_pointer p0 ?s = Ok a" using a p(1) p0(2) by (auto simp: slot_address_def)
    have oc: "page_occupied p0 ?s" using G p(1) p0(2) by (auto simp: slot_at_def slot_state_def split: if_splits)
    define v2 where "v2 = (if ?g AND (?g - 1) \<noteq> 0 then v1\<lparr>physical := set_marks ?i (\<lambda>m. m\<lparr>queued := True\<rparr>) (physical v1),
      marking := (marking v1)\<lparr>pending := pending (marking v1) @ [?i]\<rparr>\<rparr> else v1)"
    have run: "next_gray v = (Ok (Some a), v2)"
      using False pg g0 g oc ad(2) by (simp add: next_gray_def Let_def v1_def v2_def)
    have "heap_inv (physical v2) \<and> extends {} v v2 \<and> mark_inv {(?i, ?s)} v2"
    proof (cases "?g AND (?g - 1) = 0")
      case True
      then have "?G = {(?i, ?s)}" using two_bits [OF g] bits s by auto
      then have "mark_inv {(?i, ?s)} v1" using R2 by simp
      then show ?thesis using True R1(1,2) by (simp add: v2_def)
    next
      case more: False
      from R1(3) obtain q where q: "contents (allocations (physical v1)) ?i = Some q" "epoch (page_marks_of q) = mepoch (marking v1)"
        using ep by (auto simp: v1_def)
      from more obtain t where t: "found_at ?h ?e ?i t" "\<not> black_at ?h ?e ?i t" "t \<noteq> ?s" using two_bits [OF g] bits by auto
      have same: "found_at (physical v1) (mepoch (marking v1)) j t = found_at ?h ?e j t" "black_at (physical v1) (mepoch (marking v1)) j t = black_at ?h ?e j t" for j t
        using R1(2) by (simp_all add: extends_def Let_def)
      have "heap_inv (physical v2) \<and> extends {} v1 v2 \<and> mark_inv {(?i, ?s)} v2"
        by (intro conjI requeue_ok [where x = True and v' = v2, OF R1(1) R2 q, of "pending (marking v1) @ [?i]"])
          (use more i s t in \<open>auto simp: v2_def same, auto simp: v1_def\<close>)
      then show ?thesis using extends_trans [OF R1(2), of "{}" v2] by simp
    qed
    then show ?thesis using run s G ad(1) False by blast
  qed
qed (simp add: next_gray_def Let_def)


section \<open>The other operations\<close>

lemma default_white [simp]: "s < 128 \<Longrightarrow> \<not> black marks_default s e" "s < 128 \<Longrightarrow> \<not> is_discovered marks_default s e" "\<not> queued marks_default"
proof -
  have "[0, 0] ! n = (0 :: u64)" if "n < 2" for n using that by (auto simp: less_2_cases_iff)
  then have "\<not> bits_set [0, 0] s" by (auto simp: bits_set_def)
  then show "s < 128 \<Longrightarrow> \<not> black marks_default s e" "s < 128 \<Longrightarrow> \<not> is_discovered marks_default s e"
    using black_iff [OF marks_inv_ops(1), of s e] discovered_iff [OF marks_inv_ops(1), of s e]
    by (simp_all add: marks_default_def)
qed (simp add: marks_default_def)

lemma colours_marks:
  "black_at h e i s \<longleftrightarrow> s < 128 \<and> black (marks_at h i) s e" "found_at h e i s \<longleftrightarrow> s < 128 \<and> is_discovered (marks_at h i) s e"
  "queued_at h i \<longleftrightarrow> queued (marks_at h i)"
  by (auto simp: black_at_def found_at_def queued_at_def marks_at_def split: option.splits)

lemma slot_address_kept: "keeps_blocks h h' \<Longrightarrow> contents (allocations h) i \<noteq> None \<Longrightarrow> slot_address h' i s = slot_address h i s"
proof -
  assume a: "keeps_blocks h h'" "contents (allocations h) i \<noteq> None"
  then obtain p where p: "contents (allocations h) i = Some p" by blast
  with a(1) obtain q where "contents (allocations h') i = Some q" "page_pointer q = page_pointer p"
    by (auto simp: keeps_blocks_def same_block_def)
  with p show ?thesis by (simp add: slot_address_def)
qed

text \<open>Marking one slot black.\<close>

lemma paint_black:
  assumes inv: "heap_inv (physical v)" "mark_inv A v" and p: "contents (allocations (physical v)) i = Some p" "s < 128"
    and s: "(i, s) \<in> A \<or> \<not> (found_at (physical v) (mepoch (marking v)) i s \<and> \<not> black_at (physical v) (mepoch (marking v)) i s)"
    and v': "v' = v\<lparr>physical := set_marks i (set_black s (mepoch (marking v))) (physical v)\<rparr>"
  shows "heap_inv (physical v')" "same_objects (physical v) (physical v')" "mark_inv (A - {(i, s)}) v'"
    "\<And>j t. found_at (physical v') (mepoch (marking v)) j t \<longleftrightarrow> found_at (physical v) (mepoch (marking v)) j t \<or> (j, t) = (i, s)"
    "\<And>j t. black_at (physical v') (mepoch (marking v)) j t \<longleftrightarrow> black_at (physical v) (mepoch (marking v)) j t \<or> (j, t) = (i, s)"
proof -
  let ?h = "physical v" and ?e = "mepoch (marking v)" let ?f = "set_black s ?e"
  note M = mark_invD [OF inv(2)]
  from inv(1) obtain act avs where "heap_at {} ?h act avs" by (auto simp: heap_inv_def)
  then have "page_inv p" using p(1) by (blast intro: pages_okD(1) heap_atD(3))
  then have mi: "marks_inv (page_marks_of p)" "marks_inv (?f (page_marks_of p))" by (simp_all add: page_marks_inv)
  note S = set_marks_ok [where f = ?f, OF inv(1) p(1) mi(2)]
  show hi: "heap_inv (physical v')" and so': "same_objects ?h (physical v')" using S by (simp_all add: v')
  show found: "found_at (physical v') ?e j t \<longleftrightarrow> found_at ?h ?e j t \<or> (j, t) = (i, s)" for j t
  proof (cases "j = i \<and> t < 128")
    case True
    then show ?thesis using set_black_colours(2) [OF mi(1) p(2), of t ?e] p by (simp add: found_at_def v' S(3))
  qed (use p in \<open>auto simp: found_at_def v' S(3)\<close>)
  show black: "black_at (physical v') ?e j t \<longleftrightarrow> black_at ?h ?e j t \<or> (j, t) = (i, s)" for j t
  proof (cases "j = i \<and> t < 128")
    case True
    then show ?thesis using set_black_colours(1) [OF mi(1) p(2), of t ?e] p by (simp add: black_at_def v' S(3))
  qed (use p in \<open>auto simp: black_at_def v' S(3)\<close>)
  have so: "slot_at (physical v') = slot_at ?h" "leaf_at (physical v') = leaf_at ?h" "page_count (physical v') = page_count ?h"
    using so' same_objects_leaf by (auto simp: same_objects_def)
  have "queued_at (physical v') j \<longleftrightarrow> queued_at ?h j" for j
    using M(4) [OF p(1)] p(1) by (auto simp: queued_at_def v' S(3) set_black_queued)
  moreover have "epoch (page_marks_of q) \<le> ?e \<and> (queued (page_marks_of q) \<longrightarrow> epoch (page_marks_of q) = ?e)"
    if "contents (allocations (physical v')) j = Some q" for j q
    using that M(3,4) by (auto simp: v' S(3) split: if_splits)
  moreover have "slot_at ?h j t = Occupied \<and> \<not> leaf_at ?h j t \<and> (j \<in> set (pending (marking v)) \<or> (j, t) \<in> A - {(i, s)})"
    if "found_at (physical v') ?e j t" "\<not> black_at (physical v') ?e j t" for j t
    using that M(6) [of j t] by (auto simp: found black)
  moreover have "found_at (physical v') ?e j t" if "black_at (physical v') ?e j t" for j t using that M(5) by (auto simp: found black)
  moreover have "\<exists>t. found_at (physical v') ?e j t \<and> \<not> black_at (physical v') ?e j t \<and> (j, t) \<notin> A - {(i, s)}"
    if "j \<in> set (pending (marking v))" for j
    using M(8) [OF that] s by (fastforce simp: found black)
  moreover have "found_at (physical v') ?e j t \<and> \<not> black_at (physical v') ?e j t" if "(j, t) \<in> A - {(i, s)}" for j t
    using M(9) [of j t] that by (auto simp: found black)
  moreover have "marking v' = marking v" by (simp add: v')
  ultimately show "mark_inv (A - {(i, s)}) v'" using M(1,2,7) unfolding mark_inv_def Let_def by (simp add: so)
qed

text \<open>A new cycle starts with every object white.\<close>

lemma marking_start_ok:
  assumes "heap_inv (physical v)" "mark_inv {} v" "mphase (marking v) = Idle" "pending (marking v) = []"
    and m: "marking_start (marking v) = Ok m"
  shows "mark_inv {} (v\<lparr>marking := m\<rparr>)" "mphase m = phase.Roots" "mepoch m = mepoch (marking v) + 1"
    "\<not> found_at (physical v) (mepoch m) i s" "\<not> black_at (physical v) (mepoch m) i s" "pending m = []"
proof -
  note M = mark_invD [OF assms(2)]
  have e: "m = (marking v)\<lparr>mepoch := mepoch (marking v) + 1, mphase := phase.Roots\<rparr>"
    using m assms(3,4) by (auto simp: marking_start_def checked_add_eq_Some)
  have white: "\<not> found_at (physical v) (mepoch m) i s" for i s
    using M(3) [of i] by (fastforce simp: found_at_def is_discovered_def reset_needed_def e)
  have white': "\<not> black_at (physical v) (mepoch m) i s" for i s
    using M(3) [of i] by (fastforce simp: black_at_def black_def black_word_def reset_needed_def e)
  show "\<not> found_at (physical v) (mepoch m) i s" "\<not> black_at (physical v) (mepoch m) i s" by (rule white white')+
  show "mphase m = phase.Roots" "mepoch m = mepoch (marking v) + 1" "pending m = []" using assms(4) by (simp_all add: e)
  have q: "\<not> queued_at (physical v) i" for i using M(2) [of i] assms(4) by simp
  then show "mark_inv {} (v\<lparr>marking := m\<rparr>)"
    using M(3,7) white white' assms(4) unfolding mark_inv_def Let_def
    by (auto simp: e queued_at_def le_SucI) 
qed

lemma marking_start_fails:
  assumes "mphase m = Idle" "pending m = []" "mepoch m < usize_max"
  shows "\<exists>m'. marking_start m = Ok m'"
  using assms by (simp add: marking_start_def marking_check_def checked_add_def)

lemma pending_le: "heap_inv (physical v) \<Longrightarrow> mark_inv A v \<Longrightarrow> length (pending (marking v)) \<le> page_count (physical v)"
proof -
  assume a: "heap_inv (physical v)" "mark_inv A v"
  note M = mark_invD [OF a(2)]
  from a(1) obtain act avs where "heap_at {} (physical v) act avs" by (auto simp: heap_inv_def)
  then have fin: "finite (dom (contents (allocations (physical v))))" by (rule heap_atD)
  have "set (pending (marking v)) \<subseteq> dom (contents (allocations (physical v)))" using M(2) by (auto simp: queued_at_def)
  from card_mono [OF fin this] show ?thesis using M(1) page_count_dom [OF a(1)] by (simp add: distinct_card)
qed

lemma mark_inv_capacity:
  assumes "mark_inv A v" "pcapacity (marking v) \<le> c"
  shows "mark_inv A (v\<lparr>marking := (marking v)\<lparr>pcapacity := c\<rparr>\<rparr>)"
  using assms unfolding mark_inv_def Let_def by (elim conjE, intro conjI) simp_all

lemma reserve_pages_ok:
  assumes inv: "heap_inv (physical v)" "mark_inv A v" and m: "reserve_pages mem slack n (marking v) = Ok m"
  shows "mark_inv A (v\<lparr>marking := m\<rparr>)" "n \<le> pcapacity m" "\<exists>c. m = (marking v)\<lparr>pcapacity := c\<rparr>"
proof -
  note M = mark_invD [OF inv(2)]
  have l: "length (pending (marking v)) \<le> pcapacity (marking v)" using pending_le [OF inv] M(7) by simp
  from m obtain c where c: "m = (marking v)\<lparr>pcapacity := c\<rparr>" "n \<le> c" "pcapacity (marking v) \<le> c"
  proof (cases "saturating_sub n (length (pending (marking v))) \<le> pcapacity (marking v) - length (pending (marking v))")
    case True
    then show ?thesis using m l that [of "pcapacity (marking v)"] by (auto simp: reserve_pages_def saturating_sub_def)
  next
    case False
    then show ?thesis using m l that [of "length (pending (marking v)) + saturating_sub n (length (pending (marking v))) + slack"]
      by (auto simp: reserve_pages_def saturating_sub_def Let_def split: if_splits)
  qed
  show "n \<le> pcapacity m" "\<exists>c. m = (marking v)\<lparr>pcapacity := c\<rparr>" using c by auto
  show "mark_inv A (v\<lparr>marking := m\<rparr>)" using mark_inv_capacity [OF inv(2) c(3)] c(1) by simp
qed

lemma marking_trim_ok:
  assumes "heap_inv (physical v)" "mark_inv {} v" "mphase (marking v) = Idle" "pending (marking v) = []"
    and "pcapacity (marking v) \<le> usize_max"
  shows "\<exists>m. marking_trim (page_count (physical v)) (marking v) = Ok m \<and> mark_inv {} (v\<lparr>marking := m\<rparr>)"
proof -
  note M = mark_invD [OF assms(2)]
  have "page_count (physical v) \<le> shrink_vec (pcapacity (marking v)) 0 (page_count (physical v))"
    using M(7) assms(5) by (auto simp: shrink_vec_def shrink_target_def saturating_mul_def usize_max_def Let_def split: if_splits)
  then show ?thesis using assms by (simp add: marking_trim_def mark_inv_def Let_def)
qed

section \<open>Allocation and retirement under marking\<close>

text \<open>When the slots of a heap change, gray objects keep their state and nothing else turns gray.\<close>

lemma mark_inv_transfer:
  assumes inv: "heap_inv h" "heap_inv h'" "mark_inv A v" "physical v = h"
    and pages: "page_count h' \<le> pcapacity (marking v)"
    and marks: "\<And>j t. t < 128 \<Longrightarrow> found_at h' e j t \<Longrightarrow> found_at h e j t" "\<And>j t. black_at h' e j t \<Longrightarrow> found_at h' e j t"
      "\<And>j t. found_at h' e j t \<Longrightarrow> \<not> black_at h' e j t \<Longrightarrow> \<not> black_at h e j t"
    and e: "e = mepoch (marking v)" "\<And>j. epoch (marks_at h' j) \<in> {0, epoch (marks_at h j)}"
    and q: "\<And>j. queued_at h' j \<longleftrightarrow> queued_at h j" "\<And>j. queued_at h j \<Longrightarrow> epoch (marks_at h' j) = epoch (marks_at h j)"
    and occ: "\<And>j t. slot_at h j t = Occupied \<Longrightarrow> found_at h' e j t \<Longrightarrow> \<not> black_at h' e j t \<Longrightarrow> slot_at h' j t = Occupied \<and> leaf_at h' j t = leaf_at h j t"
    and gray: "\<And>j t. slot_at h j t = Occupied \<Longrightarrow> found_at h e j t \<Longrightarrow> \<not> black_at h e j t \<Longrightarrow> found_at h' e j t \<and> \<not> black_at h' e j t"
  shows "mark_inv A (v\<lparr>physical := h'\<rparr>)"
proof -
  note M = mark_invD [OF inv(3), unfolded inv(4)]
  have ep: "epoch (marks_at h j) \<le> e" "queued (marks_at h j) \<Longrightarrow> epoch (marks_at h j) = e" for j
    using M(3,4) [of j] e(1) by (auto simp: marks_at_def marks_default_def split: option.splits)
  have E: "epoch (page_marks_of p) \<le> e \<and> (queued (page_marks_of p) \<longrightarrow> epoch (page_marks_of p) = e)"
    if "contents (allocations h') j = Some p" for j p
  proof -
    have m: "marks_at h' j = page_marks_of p" using that by (simp add: marks_at_def)
    then have "queued (page_marks_of p) \<Longrightarrow> epoch (page_marks_of p) = e"
      using q [of j] ep(2) [of j] by (simp add: colours_marks)
    then show ?thesis using e(2) [of j] ep(1) [of j] m by auto
  qed
  have "slot_at h' j t = Occupied \<and> \<not> leaf_at h' j t \<and> (queued_at h' j \<or> (j, t) \<in> A)"
    if g: "found_at h' e j t" "\<not> black_at h' e j t" for j t
  proof -
    have "t < 128" using g(1) by (auto simp: found_at_def)
    then have f: "found_at h e j t" "\<not> black_at h e j t" using marks g by auto
    show ?thesis using M(6) [of j t] f occ [of j t] g q M(2) [of j] e(1) by auto
  qed
  moreover have G: "found_at h' e j t \<and> \<not> black_at h' e j t" if "found_at h e j t" "\<not> black_at h e j t" for j t
    using gray [of j t] that M(6) [of j t] e(1) by blast
  moreover have "\<exists>t. found_at h' e j t \<and> \<not> black_at h' e j t \<and> (j, t) \<notin> A" if "j \<in> set (pending (marking v))" for j
    using M(8) [OF that] G e(1) by blast
  moreover have "found_at h' e j t \<and> \<not> black_at h' e j t" if "(j, t) \<in> A" for j t using M(9) [OF that] G e(1) by blast
  ultimately show ?thesis using M(1,2) E marks(2) pages q(1) unfolding mark_inv_def Let_def by (simp add: e(1) [symmetric] inv(4))
qed

lemma clear_slot_parts [simp]: "epoch (clear_slot s m) = epoch m" "queued (clear_slot s m) = queued m"
  by (simp_all add: clear_slot_def)

lemma marks_at_inv: "heap_inv h \<Longrightarrow> marks_inv (marks_at h i)"
proof -
  assume "heap_inv h"
  then obtain act avs where "heap_at {} h act avs" by (auto simp: heap_inv_def)
  then have "page_inv p" if "contents (allocations h) i = Some p" for p using that by (blast intro: pages_okD(1) heap_atD(3))
  then show ?thesis using page_marks_inv by (auto simp: marks_at_def split: option.splits)
qed

text \<open>Reserving a slot forgets the marks its last object has left.\<close>

lemma reserve_colours:
  assumes "heap_inv h" "s < 128" "marks_at h' = (marks_at h)(i := clear_slot s (marks_at h i))"
  shows "found_at h' e j t \<longleftrightarrow> found_at h e j t \<and> (j, t) \<noteq> (i, s)" "black_at h' e j t \<longleftrightarrow> black_at h e j t \<and> (j, t) \<noteq> (i, s)"
    "queued_at h' j \<longleftrightarrow> queued_at h j"
  using clear_slot_colours [OF marks_at_inv [OF assms(1)] assms(2)] by (auto simp: colours_marks assms(3))

lemma occupied_page: "slot_at h i s \<noteq> Vacant \<Longrightarrow> contents (allocations h) i \<noteq> None"
  by (cases "contents (allocations h) i") (auto simp: slot_at_def)

lemma leaf_at_kept:
  assumes "keeps_blocks h h'" "memory h' = memory h" "descriptors_of h' = descriptors_of h" "slot_at h i s \<noteq> Vacant"
  shows "leaf_at h' i s = leaf_at h i s"
  using slot_address_kept [OF assms(1) occupied_page [OF assms(4)], of s] assms(2,3) by (simp add: leaf_at_def)

lemma slot_bound: "heap_inv h \<Longrightarrow> slot_address h i s = Some a \<Longrightarrow> s < 128"
proof -
  assume a: "heap_inv h" "slot_address h i s = Some a"
  from slot_addressD [OF a(2)] obtain p where p: "contents (allocations h) i = Some p" "page_pointer p s = Ok a" by blast
  from a(1) obtain act avs where "heap_at {} h act avs" by (auto simp: heap_inv_def)
  then have "page_inv p" using p(1) by (blast intro: pages_okD(1) heap_atD(3))
  moreover have "s < page_slots p" using p(2) by (cases p) auto
  ultimately show ?thesis using page_slots_le [of p] by simp
qed

lemma reserve_marks:
  assumes inv: "heap_inv h" "heap_inv h'" "mark_inv A v" "physical v = h" and room: "page_count h + 1 \<le> pcapacity (marking v)"
    and r: "slot_at h i s = Vacant" "slot_at h' = set_slot i s Unavailable (slot_at h)" "slot_address h' i s = Some a"
      "memory h' = memory h" "descriptors_of h' = descriptors_of h" "keeps_blocks h h'"
      "marks_at h' = (marks_at h)(i := clear_slot s (marks_at h i))"
      "dom (contents (allocations h')) = insert i (dom (contents (allocations h)))"
  shows "mark_inv A (v\<lparr>physical := h'\<rparr>)"
proof -
  note M = mark_invD [OF inv(3), unfolded inv(4)]
  note C = reserve_colours [OF inv(1) slot_bound [OF inv(2) r(3)] r(7)]
  have "card (insert i (dom (contents (allocations h)))) \<le> page_count h + 1"
    unfolding page_count_dom [OF inv(1)] by (simp add: card_insert_le_m1 card_insert_if)
  then have pc: "page_count h' \<le> pcapacity (marking v)" using room page_count_dom [OF inv(2)] r(8) by simp
  show ?thesis
  proof (rule mark_inv_transfer [OF inv pc _ _ _ refl])
    show "found_at h' (mepoch (marking v)) j t \<Longrightarrow> found_at h (mepoch (marking v)) j t" for j t by (simp add: C)
    show "black_at h' (mepoch (marking v)) j t \<Longrightarrow> found_at h' (mepoch (marking v)) j t" for j t using M(5) by (auto simp: C)
    show "found_at h' (mepoch (marking v)) j t \<Longrightarrow> \<not> black_at h' (mepoch (marking v)) j t \<Longrightarrow> \<not> black_at h (mepoch (marking v)) j t" for j t
      by (auto simp: C)
    show "epoch (marks_at h' j) \<in> {0, epoch (marks_at h j)}" for j by (simp add: r(7))
    show "queued_at h' j \<longleftrightarrow> queued_at h j" for j by (rule C(3))
    show "queued_at h j \<Longrightarrow> epoch (marks_at h' j) = epoch (marks_at h j)" for j by (simp add: r(7))
    show "slot_at h' j t = Occupied \<and> leaf_at h' j t = leaf_at h j t" if "slot_at h j t = Occupied" for j t
      using that r(1,2) leaf_at_kept [OF r(6,4,5), of j t] by (auto simp: set_slot_def)
    show "found_at h' (mepoch (marking v)) j t \<and> \<not> black_at h' (mepoch (marking v)) j t"
      if "slot_at h j t = Occupied" "found_at h (mepoch (marking v)) j t" "\<not> black_at h (mepoch (marking v)) j t" for j t
      using that r(1) by (auto simp: C)
  qed
qed


lemma address_inj:
  assumes "heap_inv h" "slot_address h i s = Some a" "slot_address h j t = Some a"
  shows "i = j" "s = t"
proof -
  from assms(1) obtain act avs where "heap_at {} h act avs" by (auto simp: heap_inv_def)
  then have ok: "pages_ok {} (contents (allocations h))" by (rule heap_atD)
  from slot_addressD [OF assms(2)] slot_addressD [OF assms(3)] address_unique [OF ok] show "i = j" "s = t" by blast+
qed

lemma occupied_address: "heap_inv h \<Longrightarrow> slot_at h i s \<noteq> Vacant \<Longrightarrow> \<exists>a. slot_address h i s = Some a"
proof -
  assume a: "heap_inv h" "slot_at h i s \<noteq> Vacant"
  from occupied_page [OF a(2)] obtain p where p: "contents (allocations h) i = Some p" by blast
  from a(1) obtain act avs where "heap_at {} h act avs" by (auto simp: heap_inv_def)
  then have "page_inv p" using p by (blast intro: pages_okD(1) heap_atD(3))
  moreover have "s < page_slots p" using a(2) p slot_less [of p s] by (simp add: slot_at_def)
  ultimately obtain x where "page_pointer p s = Ok x" using pointer_slot_of by blast
  then show ?thesis using p by (simp add: slot_address_def)
qed

lemma commit_marks:
  assumes inv: "heap_inv h" "heap_inv h'" "mark_inv A v" "physical v = h"
    and r: "slot_at h i s = Unavailable" "slot_at h' = set_slot i s Occupied (slot_at h)" "slot_address h i s = Some a"
      "memory h' = (memory h)(a \<mapsto> hdr)" "recounted d n (descriptors_of h) (descriptors_of h')" "keeps_blocks h h'"
      "marks_at h' = marks_at h" "dom (contents (allocations h')) = dom (contents (allocations h))"
  shows "mark_inv A (v\<lparr>physical := h'\<rparr>)"
proof -
  note M = mark_invD [OF inv(3), unfolded inv(4)]
  have C: "found_at h' e j t = found_at h e j t" "black_at h' e j t = black_at h e j t" "queued_at h' j = queued_at h j" for e j t
    by (simp_all add: colours_marks r(7))
  have pc: "page_count h' \<le> pcapacity (marking v)" using M(7) page_count_dom [OF inv(1)] page_count_dom [OF inv(2)] r(8) by simp
  have keep: "slot_at h' j t = Occupied" "leaf_at h' j t = leaf_at h j t" if o: "slot_at h j t = Occupied" for j t
  proof -
    show "slot_at h' j t = Occupied" using o r(1,2) by (auto simp: set_slot_def)
    obtain b where b: "slot_address h j t = Some b" using occupied_address [OF inv(1)] o by (metis slot_status.distinct(3))
    have "slot_address h' j t = Some b" using slot_address_kept [OF r(6) occupied_page, of j t] o b by simp
    moreover have "b \<noteq> a" using address_inj [OF inv(1) r(3), of j t] b o r(1) by auto
    ultimately show "leaf_at h' j t = leaf_at h j t" using b r(4,5)
      by (auto simp: leaf_at_def recounted_def split: if_splits)
  qed
  show ?thesis
  proof (rule mark_inv_transfer [OF inv pc _ _ _ refl])
    show "black_at h' (mepoch (marking v)) j t \<Longrightarrow> found_at h' (mepoch (marking v)) j t" for j t using M(5) by (auto simp: C)
  qed (use keep r(7) in \<open>auto simp: C\<close>)
qed

text \<open>Giving a slot back removes its page only when no object is left on it.\<close>

lemma release_colours:
  assumes "\<And>j. marks_at h' j = (if contents (allocations h') j = None then marks_default else marks_at h j)"
  shows "found_at h' e j t \<longleftrightarrow> found_at h e j t \<and> contents (allocations h') j \<noteq> None"
    "black_at h' e j t \<longleftrightarrow> black_at h e j t \<and> contents (allocations h') j \<noteq> None"
    "queued_at h' j \<longleftrightarrow> queued_at h j \<and> contents (allocations h') j \<noteq> None"
  by (auto simp: colours_marks assms [of j])


lemma release_marks:
  assumes inv: "heap_inv h" "heap_inv h'" "mark_inv A v" "physical v = h"
    and r: "slot_at h i s = Unavailable" "slot_at h' = set_slot i s Vacant (slot_at h)"
      "memory h' = memory h" "descriptors_of h' = descriptors_of h" "keeps_blocks h' h"
      "\<And>j. marks_at h' j = (if contents (allocations h') j = None then marks_default else marks_at h j)"
  shows "mark_inv A (v\<lparr>physical := h'\<rparr>)"
proof -
  note M = mark_invD [OF inv(3), unfolded inv(4)]
  note C = release_colours [of h' h, OF r(6)]
  have sub: "dom (contents (allocations h')) \<subseteq> dom (contents (allocations h))" using r(5) by (auto simp: keeps_blocks_def)
  from inv(1) obtain act avs where "heap_at {} h act avs" by (auto simp: heap_inv_def)
  then have "finite (dom (contents (allocations h)))" by (rule heap_atD)
  from card_mono [OF this sub] have pc: "page_count h' \<le> pcapacity (marking v)"
    using M(7) page_count_dom [OF inv(1)] page_count_dom [OF inv(2)] by simp
  have keep: "slot_at h' j t = Occupied" "leaf_at h' j t = leaf_at h j t" "contents (allocations h') j \<noteq> None"
    if o: "slot_at h j t = Occupied" for j t
  proof -
    show o': "slot_at h' j t = Occupied" using o r(1,2) by (auto simp: set_slot_def)
    show "leaf_at h' j t = leaf_at h j t" using leaf_at_kept [OF r(5), of j t] r(3,4) o' by simp
    show "contents (allocations h') j \<noteq> None" using occupied_page [of h' j t] o' by simp
  qed
  have qocc: "\<exists>t. slot_at h j t = Occupied" if "queued_at h j" for j using M(8) [of j] M(2) [of j] M(6) that by blast
  show ?thesis
  proof (rule mark_inv_transfer [OF inv pc _ _ _ refl])
    show "black_at h' (mepoch (marking v)) j t \<Longrightarrow> found_at h' (mepoch (marking v)) j t" for j t using M(5) by (auto simp: C)
    show "queued_at h' j \<longleftrightarrow> queued_at h j" for j using qocc keep(3) by (auto simp: C)
    show "epoch (marks_at h' j) \<in> {0, epoch (marks_at h j)}" for j by (simp add: r(6) marks_default_def)
    show "epoch (marks_at h' j) = epoch (marks_at h j)" if q: "queued_at h j" for j
    proof -
      obtain t where "slot_at h j t = Occupied" using qocc [OF q] by blast
      from keep(3) [OF this] show ?thesis unfolding r(6) by (simp only: if_False)
    qed
  qed (use keep in \<open>auto simp: C\<close>)
qed

section \<open>An example\<close>

lemma mark_inv_empty:
  assumes "\<And>i. contents (allocations h) i = None" "pending m = []" "heap_inv h"
  shows "mark_inv {} \<lparr>physical = h, marking = m\<rparr>"
  using assms page_count_dom [OF assms(3)] by (simp add: mark_inv_def Let_def queued_at_def black_at_def found_at_def dom_def)

text \<open>One object that may hold references, in a heap that is marking.\<close>

lemma sample_object:
  "\<exists>r h1 h2. heap_request sample_request sample_heap = (Ok r, h1) \<and> heap_commit r 0 h1 = (Ok (), h2) \<and>
     heap_inv h2 \<and> mark_inv {} \<lparr>physical = h2, marking = sample_marking\<rparr> \<and> slot_at h2 (rpage r) (rslot r) = Occupied \<and>
     slot_address h2 (rpage r) (rslot r) = Some 4096 \<and> \<not> leaf_at h2 (rpage r) (rslot r) \<and> \<not> found_at h2 1 (rpage r) (rslot r)"
proof -
  obtain r h1 where r: "heap_request sample_request sample_heap = (Ok r, h1)" "rreference r = 4096" using sample_request_Ok by blast
  obtain d where d: "registered 0 (descriptors_of sample_heap) = Some \<lparr>entry_descriptor = d, uses = 0\<rparr>" "desc_kind d = Resumable"
    using sample_registered by (auto simp: sample_heap_def)
  have tt: "page_types_ok sample_types" "descriptor_ok sample_descriptor" "fresh_alloc (\<lambda>_. Some 4096) sample_heap"
    using sample_request_valid by (simp_all add: request_ok_def sample_request_def)
  from sample_heap_inv obtain act avs where at: "heap_at {} sample_heap act avs" by (auto simp: heap_inv_def)
  from heap_reserve_at [OF at tt, of "\<lambda>_. True" 1000000] r obtain act1 avs1 where R: "heap_at {} h1 act1 avs1" "slot_at sample_heap (rpage r) (rslot r) = Vacant"
    "slot_at h1 = set_slot (rpage r) (rslot r) Unavailable (slot_at sample_heap)" "slot_address h1 (rpage r) (rslot r) = Some 4096"
    "memory h1 = memory sample_heap" "descriptors_of h1 = descriptors_of sample_heap" "keeps_blocks sample_heap h1"
    "marks_at h1 = (marks_at sample_heap)(rpage r := clear_slot (rslot r) (marks_at sample_heap (rpage r)))"
    "dom (contents (allocations h1)) = insert (rpage r) (dom (contents (allocations sample_heap)))"
    by (auto simp: heap_request_def sample_request_def)
  have i1: "heap_inv h1" using R(1) by (auto simp: heap_inv_def)
  have e: "mark_inv {} \<lparr>physical = sample_heap, marking = sample_marking\<rparr>"
    by (rule mark_inv_empty [OF _ _ sample_heap_inv]) (simp_all add: sample_heap_def physical_default_def contents_def sample_marking_def)
  have "page_count sample_heap + 1 \<le> pcapacity sample_marking"
    by (simp add: sample_marking_def page_count_def sample_heap_def physical_default_def)
  from reserve_marks [OF sample_heap_inv i1 e, simplified, OF this [simplified] R(2-9)]
  have m1: "mark_inv {} \<lparr>physical = h1, marking = sample_marking\<rparr>" by simp
  have s1: "slot_at h1 (rpage r) (rslot r) = Unavailable" using R(3) by (simp add: set_slot_def)
  from heap_commit_at [OF R(1) s1 _ d(1) [folded R(6)]] R(4) r(2)
  obtain h2 where H: "heap_commit r 0 h1 = (Ok (), h2)" "heap_at {} h2 act1 avs1" "marks_at h2 = marks_at h1"
    "dom (contents (allocations h2)) = dom (contents (allocations h1))" "keeps_blocks h1 h2"
    "slot_at h2 = set_slot (rpage r) (rslot r) Occupied (slot_at h1)" "slot_address h2 (rpage r) (rslot r) = Some 4096"
    "memory h2 = (memory h1)(4096 \<mapsto> \<lparr>hdescriptor = 0, hallocation = rpage r\<rparr>)" "recounted 0 1 (descriptors_of h1) (descriptors_of h2)"
    by (auto simp: usize_max_def)
  have i2: "heap_inv h2" using H(2) by (auto simp: heap_inv_def)
  from commit_marks [OF i1 i2 m1, simplified, OF s1 H(6) R(4) H(8,9,5,3,4)]
  have m2: "mark_inv {} \<lparr>physical = h2, marking = sample_marking\<rparr>" by simp
  have "\<not> leaf_at h2 (rpage r) (rslot r)" using H(7-9) d R(6) by (auto simp: leaf_at_def recounted_def)
  moreover have "\<not> found_at h1 1 (rpage r) (rslot r)"
    using reserve_colours(1) [OF sample_heap_inv slot_bound [OF i1 R(4)] R(8)] by simp
  then have "\<not> found_at h2 1 (rpage r) (rslot r)" by (simp add: colours_marks H(3))
  ultimately show ?thesis using r(1) H(1,6,7) i2 m2 by (auto simp: set_slot_def)
qed

section \<open>Properties\<close>

text \<open>
  (C18) Publishing a reference to a live object while marking never fails for want of queue space
  or for a stale header: it either completes, and then exactly this object is added to the
  discovered ones, it is black at once if it can hold no references and otherwise its page is
  queued, and no other colour changes; or, when the budget cannot pay for resetting the page's
  marks, it reports pending and changes nothing; or the mutator's work account overflows and
  nothing changes. The queue invariant is kept.
\<close>

theorem publish_sound:
  assumes "heap_inv (physical v)" "mark_inv A v" "mphase (marking v) = phase.Roots \<or> mphase (marking v) = Mark"
    and "slot_at (physical v) i s = Occupied" "slot_address (physical v) i s = Some a"
  shows "case publish a b v of
      (Ok Complete, b', v') \<Rightarrow> extends {(i, s)} v v' \<and> mark_inv A v' \<and> heap_inv (physical v') \<and> spends b b'
    | (Ok Pending, b', v') \<Rightarrow> v' = v \<and> b' = b \<and> (\<exists>bu. b = Some bu \<and> \<not> fst (take_units 4 bu))
    | (Err e, b', v') \<Rightarrow> e = Limit ''publication work'' \<and> b = None \<and> v' = v
    | (Panic m, b', v') \<Rightarrow> False"
  using publish_ok [OF assms(1,2) _ assms(4,5), of b] assms(3) by auto

theorem publish_sound_witness:
  "\<exists>h i s b v'. slot_at h i s = Occupied \<and> slot_address h i s = Some 4096 \<and>
     publish 4096 (Some (budget_new 8)) \<lparr>physical = h, marking = sample_marking\<rparr> = (Ok Complete, b, v') \<and> found_at (physical v') 1 i s"
proof -
  from sample_object obtain r :: reservation and h where h: "heap_inv h" "mark_inv {} \<lparr>physical = h, marking = sample_marking\<rparr>"
    "slot_at h (rpage r) (rslot r) = Occupied" "slot_address h (rpage r) (rslot r) = Some 4096" by (elim exE conjE)
  have t: "fst (take_units 4 (budget_new 8))" by (simp add: take_units_def budget_new_def checked_add_def usize_max_def)
  let ?v = "\<lparr>physical = h, marking = sample_marking\<rparr>"
  obtain q b v where q: "publish 4096 (Some (budget_new 8)) ?v = (q, b, v)" by (cases "publish 4096 (Some (budget_new 8)) ?v") auto
  have "mphase (marking ?v) = phase.Roots \<or> mphase (marking ?v) = Mark" by (simp add: sample_marking_def)
  from publish_sound [of ?v "{}" "rpage r" "rslot r" 4096 "Some (budget_new 8)", simplified, OF h(1,2) this [simplified] h(3,4)] q t
  have "q = Ok Complete \<and> extends {(rpage r, rslot r)} ?v v"
    by (cases q rule: outcome.exhaust) (auto split: scan_status.splits)
  then have "q = Ok Complete" "found_at (physical v) 1 (rpage r) (rslot r)" by (simp_all add: extends_def Let_def sample_marking_def)
  then show ?thesis using q h by blast
qed

lemma sample_gray:
  "\<exists>v i s. heap_inv (physical v) \<and> mark_inv {} v \<and> found_at (physical v) (mepoch (marking v)) i s \<and> \<not> black_at (physical v) (mepoch (marking v)) i s"
proof -
  from sample_object obtain r :: reservation and h where h: "heap_inv h" "mark_inv {} \<lparr>physical = h, marking = sample_marking\<rparr>"
    "slot_at h (rpage r) (rslot r) = Occupied" "slot_address h (rpage r) (rslot r) = Some 4096" "\<not> leaf_at h (rpage r) (rslot r)" "\<not> found_at h 1 (rpage r) (rslot r)"
    by (elim exE conjE)
  have t: "fst (take_units 4 (budget_new 8))" by (simp add: take_units_def budget_new_def checked_add_def usize_max_def)
  let ?v = "\<lparr>physical = h, marking = sample_marking\<rparr>"
  have "mphase (marking ?v) \<in> {phase.Roots, Mark}" by (simp add: sample_marking_def)
  from publish_ok [of ?v "{}" "rpage r" "rslot r" 4096 "Some (budget_new 8)", simplified, OF h(1,2) this [simplified] h(3,4)] t
  obtain v where v: "extends {(rpage r, rslot r)} ?v v" "mark_inv {} v" "heap_inv (physical v)" by auto
  have "\<not> black_at h (mepoch sample_marking) (rpage r) (rslot r)"
    using mark_invD(5) [OF h(2), of "rpage r" "rslot r"] h(6) by (auto simp: sample_marking_def)
  then show ?thesis using v h(5) by (intro exI [of _ v]) (auto simp: extends_def Let_def)
qed

text \<open>
  (C19) The queue hands out work: while it is not empty, taking the next job returns an allocated
  gray object, which becomes the only gray object that may be off the queue; when it is empty no
  gray object is left. No colour changes, and the check for a gray free slot never fires.
\<close>

theorem next_gray_sound:
  assumes "heap_inv (physical v)" "mark_inv {} v"
  shows "case next_gray v of
      (Ok (Some a), v') \<Rightarrow> \<exists>i s. slot_at (physical v) i s = Occupied \<and> slot_address (physical v) i s = Some a \<and>
        found_at (physical v) (mepoch (marking v)) i s \<and> \<not> black_at (physical v) (mepoch (marking v)) i s \<and>
        extends {} v v' \<and> mark_inv {(i, s)} v' \<and> heap_inv (physical v')
    | (Ok None, v') \<Rightarrow> v' = v \<and> (\<forall>i s. found_at (physical v) (mepoch (marking v)) i s \<longrightarrow> black_at (physical v) (mepoch (marking v)) i s)
    | _ \<Rightarrow> False"
  using next_gray_ok [OF assms]
proof (elim disjE conjE exE)
  assume "pending (marking v) = []" "next_gray v = (Ok None, v)"
  then show ?thesis using mark_invD(6) [OF assms(2)] by auto
next
  fix i s a v'
  assume "next_gray v = (Ok (Some a), v')" "extends {} v v'" "mark_inv {(i, s)} v'" "heap_inv (physical v')"
    "slot_at (physical v) i s = Occupied" "slot_address (physical v) i s = Some a"
    "found_at (physical v) (mepoch (marking v)) i s" "\<not> black_at (physical v) (mepoch (marking v)) i s"
  then show ?thesis by simp blast
qed

theorem next_gray_sound_witness:
  "\<exists>v a v'. heap_inv (physical v) \<and> mark_inv {} v \<and> next_gray v = (Ok (Some a), v') \<and> heap_inv (physical v')"
proof -
  from sample_gray obtain v i s where v: "heap_inv (physical v)" "mark_inv {} v"
    "found_at (physical v) (mepoch (marking v)) i s" "\<not> black_at (physical v) (mepoch (marking v)) i s" by (elim exE conjE)
  obtain q v' where q: "next_gray v = (q, v')" by fastforce
  from next_gray_sound [OF v(1,2)] q v(3,4) obtain a where "q = Ok (Some a)" "heap_inv (physical v')"
    by (cases q rule: outcome.exhaust) (auto split: option.splits)
  then show ?thesis using q v(1,2) by blast
qed

end
