(* ===== verification/Gc_Scanning.thy ===== *)
theory Gc_Scanning
  imports Gc_Marking
begin

text \<open>
  Scanning objects for references (\<^verbatim>\<open>crates/kagari-gc/src: object.rs, descriptor.rs, scan.rs\<close>):
  the hooks of managed representations and their dispatch through a descriptor.

  An object of a Rust type is a value of the type variable \<^typ>\<open>'o\<close>, with the hooks of its
  \<^verbatim>\<open>GcObject\<close> implementation in \<open>provider\<close>, by type identity; a dynamic record maps the
  offsets of its reference slots to addresses, and its scanner is \<open>shape_scan\<close>.

  The contract of \<^verbatim>\<open>GcObject\<close> is the locale \<open>edge_scanner\<close>: a scan touches the collector only
  through the budget and through visits of the object's own edges, a completed scan has visited
  every edge that the state did not count as covered, and a suspended one counts as covered only
  what was visited. Dynamic records and the scalar types of \<^verbatim>\<open>scalar_objects!\<close> are shown to
  satisfy it; \<open>gc_objects\<close> states it for all Rust types of a program.
\<close>

section \<open>Definitions\<close>

subsection \<open>Representations\<close>

text \<open>
  What the bytes of an object and of the scan workspace hold, as far as the collector reads them: a
  Rust value of the client's type \<open>'o\<close> or the reference slots of a record, and the state of the
  client's scanner or the cursor of a record scan. These two types abstract from the byte layout;
  they translate no declaration of the source.
\<close>

datatype 'o payload = RustValue 'o | Record "nat \<Rightarrow> nat option"

datatype 's scan_state = RustState 's | Cursor nat

record ('o, 's) provider =
  kind_of :: "nat \<Rightarrow> scan_kind"
  begin_hook :: "nat \<Rightarrow> 'o \<Rightarrow> 's"
  scan_hook :: "nat \<Rightarrow> 'o \<Rightarrow> 's \<Rightarrow> scan_budget \<Rightarrow> edge_visitor \<Rightarrow> scan_status gc_result \<times> 's \<times> scan_budget \<times> edge_visitor"
  charge_hook :: "nat \<Rightarrow> 'o \<Rightarrow> nat"
  destroy_hook :: "nat \<Rightarrow> 'o \<Rightarrow> unit gc_result"

text \<open>
  The dispatch of \<^verbatim>\<open>Descriptor\<close>. Interpreting the bytes of one representation as another is
  undefined in the source and a panic here.
\<close>

definition descriptor_begin :: "('o, 's) provider \<Rightarrow> descriptor \<Rightarrow> 'o payload \<Rightarrow> 's scan_state gc_result" where
  "descriptor_begin P d x =
     (case desc_rep d of
        Rust t \<Rightarrow> (case x of RustValue w \<Rightarrow> Ok (RustState (begin_hook P t w)) | Record _ \<Rightarrow> Panic ''representation'')
      | Dynamic _ \<Rightarrow> Ok (Cursor 0))"

definition descriptor_scan ::
    "('o, 's) provider \<Rightarrow> descriptor \<Rightarrow> 'o payload \<Rightarrow> 's scan_state \<Rightarrow> scan_budget \<Rightarrow> edge_visitor \<Rightarrow>
     scan_status gc_result \<times> 's scan_state \<times> scan_budget \<times> edge_visitor" where
  "descriptor_scan P d x st b v =
     (case (desc_rep d, x, st) of
        (Rust t, RustValue w, RustState s) \<Rightarrow> (case scan_hook P t w s b v of (r, s, b, v) \<Rightarrow> (r, RustState s, b, v))
      | (Dynamic shape, Record f, Cursor n) \<Rightarrow>
          (case shape_scan f try_visit_reference shape n b v of (r, n, b, v) \<Rightarrow> (r, Cursor n, b, v))
      | _ \<Rightarrow> (Panic ''representation'', st, b, v))"

definition descriptor_charge :: "('o, 's) provider \<Rightarrow> descriptor \<Rightarrow> 'o payload \<Rightarrow> nat gc_result" where
  "descriptor_charge P d x =
     (case desc_rep d of
        Rust t \<Rightarrow> (case x of RustValue w \<Rightarrow> Ok (charge_hook P t w) | Record _ \<Rightarrow> Panic ''representation'')
      | Dynamic _ \<Rightarrow> Ok 0)"

definition descriptor_destroy :: "('o, 's) provider \<Rightarrow> descriptor \<Rightarrow> 'o payload \<Rightarrow> unit gc_result" where
  "descriptor_destroy P d x =
     (case desc_rep d of
        Rust t \<Rightarrow> (case x of RustValue w \<Rightarrow> destroy_hook P t w | Record _ \<Rightarrow> Panic ''representation'')
      | Dynamic _ \<Rightarrow> Ok ())"

text \<open>The hooks of the edge-free scalar types.\<close>

definition scalar_scan :: "nat \<Rightarrow> unit \<Rightarrow> scan_budget \<Rightarrow> edge_visitor \<Rightarrow> scan_status gc_result \<times> unit \<times> scan_budget \<times> edge_visitor" where
  "scalar_scan w s b v = (Ok Complete, s, b, v)"

definition scalar_provider :: "(nat, unit) provider" where
  "scalar_provider = \<lparr>kind_of = (\<lambda>_. EdgeFree), begin_hook = (\<lambda>_ _. ()), scan_hook = (\<lambda>_. scalar_scan),
     charge_hook = (\<lambda>_ _. 0), destroy_hook = (\<lambda>_ _. Ok ())\<rparr>"

subsection \<open>Reference definitions\<close>

text \<open>What a scanner may do with the collector; the third argument is the set of edges visited to the end.\<close>

inductive scan_run :: "nat set \<Rightarrow> scan_budget \<times> edge_visitor \<Rightarrow> nat set \<Rightarrow> scan_budget \<times> edge_visitor \<Rightarrow> bool"
  for E :: "nat set" and bv :: "scan_budget \<times> edge_visitor" where
  run_start: "scan_run E bv {} bv"
| run_take: "scan_run E bv V (b, v) \<Longrightarrow> take_units n b = (ok, b') \<Longrightarrow> scan_run E bv V (b', v)"
| run_charge: "scan_run E bv V (b, v) \<Longrightarrow> charge_units n b = Ok b' \<Longrightarrow> scan_run E bv V (b', v)"
| run_visit: "scan_run E bv V (b, v) \<Longrightarrow> a \<in> E \<Longrightarrow> try_visit_reference a b v = (r, b', v') \<Longrightarrow>
    scan_run E bv (if r = Ok Complete then insert a V else V) (b', v')"

text \<open>The edges of an object and those a scan state accounts for.\<close>

definition record_edges :: "dynamic_shape \<Rightarrow> (nat \<Rightarrow> nat option) \<Rightarrow> nat set" where
  "record_edges shape f = {a. \<exists>off \<in> set (references shape). f off = Some a}"

definition record_covered :: "dynamic_shape \<Rightarrow> (nat \<Rightarrow> nat option) \<Rightarrow> nat \<Rightarrow> nat set" where
  "record_covered shape f n = record_edges (shape\<lparr>references := take n (references shape)\<rparr>) f"

type_synonym 'o edge_map = "nat \<Rightarrow> 'o \<Rightarrow> nat set"
type_synonym ('o, 's) cover_map = "nat \<Rightarrow> 'o \<Rightarrow> 's \<Rightarrow> nat set"

definition payload_edges :: "'o edge_map \<Rightarrow> descriptor \<Rightarrow> 'o payload \<Rightarrow> nat set" where
  "payload_edges E d x =
     (case (desc_rep d, x) of
        (Rust t, RustValue w) \<Rightarrow> E t w
      | (Dynamic shape, Record f) \<Rightarrow> record_edges shape f
      | _ \<Rightarrow> {})"

definition payload_covered :: "('o, 's) cover_map \<Rightarrow> descriptor \<Rightarrow> 'o payload \<Rightarrow> 's scan_state \<Rightarrow> nat set" where
  "payload_covered C d x st =
     (case (desc_rep d, x, st) of
        (Rust t, RustValue w, RustState s) \<Rightarrow> C t w s
      | (Dynamic shape, Record f, Cursor n) \<Rightarrow> record_covered shape f n
      | _ \<Rightarrow> {})"

text \<open>A payload, a scan state and a descriptor of the same representation.\<close>

fun payload_fits :: "representation \<Rightarrow> 'o payload \<Rightarrow> bool" where
  "payload_fits (Rust _) (RustValue _) = True"
| "payload_fits (Dynamic _) (Record _) = True"
| "payload_fits _ _ = False"

fun state_fits :: "representation \<Rightarrow> 's scan_state \<Rightarrow> bool" where
  "state_fits (Rust _) (RustState _) = True"
| "state_fits (Dynamic _) (Cursor _) = True"
| "state_fits _ _ = False"

definition descriptor_fits :: "('o, 's) provider \<Rightarrow> descriptor \<Rightarrow> bool" where
  "descriptor_fits P d \<longleftrightarrow> descriptor_ok d \<and>
     (case desc_rep d of
        Rust t \<Rightarrow> desc_kind d = kind_of P t
      | Dynamic shape \<Rightarrow> desc_kind d = (if references shape = [] then EdgeFree else Resumable))"

text \<open>The addresses of allocated objects.\<close>

definition live_set :: "physical_heap \<Rightarrow> nat set" where
  "live_set h = {a. \<exists>i s. slot_at h i s = Occupied \<and> slot_address h i s = Some a}"

definition found_set :: "physical_heap \<Rightarrow> nat \<Rightarrow> nat set" where
  "found_set h e = {a. \<exists>i s. slot_at h i s = Occupied \<and> slot_address h i s = Some a \<and> found_at h e i s}"

definition black_set :: "physical_heap \<Rightarrow> nat \<Rightarrow> nat set" where
  "black_set h e = {a. \<exists>i s. slot_at h i s = Occupied \<and> slot_address h i s = Some a \<and> black_at h e i s}"

definition leaf_set :: "physical_heap \<Rightarrow> nat set" where
  "leaf_set h = {a. \<exists>i s. slot_at h i s = Occupied \<and> slot_address h i s = Some a \<and> leaf_at h i s}"

text \<open>The effect of scanning in terms of addresses: \<open>V\<close> is discovered.\<close>

definition scanned :: "nat set \<Rightarrow> edge_visitor \<Rightarrow> edge_visitor \<Rightarrow> bool" where
  "scanned V v v' \<longleftrightarrow> (\<exists>N. extends N v v' \<and>
     (\<forall>i s. (i, s) \<in> N \<longleftrightarrow> slot_at (physical v) i s = Occupied \<and> (\<exists>a \<in> V. slot_address (physical v) i s = Some a)))"

section \<open>The scanner contract\<close>

locale edge_scanner =
  fixes start :: "'o \<Rightarrow> 's gc_result"
    and scan :: "'o \<Rightarrow> 's \<Rightarrow> scan_budget \<Rightarrow> edge_visitor \<Rightarrow> scan_status gc_result \<times> 's \<times> scan_budget \<times> edge_visitor"
    and edges :: "'o \<Rightarrow> nat set"
    and covered :: "'o \<Rightarrow> 's \<Rightarrow> nat set"
  assumes start_law: "start w = Ok s \<Longrightarrow> covered w s = {}"
    and scan_law: "scan w s b v = (r, s', b', v') \<Longrightarrow>
      \<exists>V. scan_run (edges w) (b, v) V (b', v') \<and> (r = Ok Complete \<longrightarrow> edges w \<subseteq> covered w s \<union> V) \<and>
        (r = Ok Pending \<longrightarrow> covered w s' \<subseteq> covered w s \<union> V)"
begin

text \<open>A scan from the start that completes has visited every edge.\<close>

lemma fresh_scan:
  assumes "start w = Ok s" "scan w s b v = (Ok Complete, s', b', v')"
  shows "\<exists>V. scan_run (edges w) (b, v) V (b', v') \<and> edges w \<subseteq> V"
  using scan_law [OF assms(2)] start_law [OF assms(1)] by auto

end

locale gc_objects =
  fixes P :: "('o, 's) provider" and E :: "'o edge_map" and C :: "('o, 's) cover_map"
  assumes scanner: "edge_scanner (\<lambda>w. Ok (begin_hook P t w)) (scan_hook P t) (E t) (C t)"
    and leaves: "kind_of P t = EdgeFree \<Longrightarrow> E t w = {}"

section \<open>Runs of a scanner\<close>

lemma scan_run_trans:
  assumes "scan_run E bv V bv'" "scan_run E bv' W bv''"
  shows "scan_run E bv (V \<union> W) bv''"
  using assms(2)
proof (induction rule: scan_run.induct)
  case run_start
  then show ?case using assms(1) by simp
next
  case (run_visit W b v a r b' v')
  from scan_run.run_visit [OF run_visit.IH run_visit.hyps(2,3)] show ?case by (cases "r = Ok Complete") auto
qed (auto intro: scan_run.run_take scan_run.run_charge)

lemma scan_run_mono: "scan_run E bv V bv' \<Longrightarrow> E \<subseteq> F \<Longrightarrow> scan_run F bv V bv'"
  by (induction rule: scan_run.induct) (blast intro: scan_run.intros)+

lemma same_objects_live: "same_objects h h' \<Longrightarrow> live_set h' = live_set h \<and> leaf_set h' = leaf_set h"
  using same_objects_leaf [of h h'] by (simp add: live_set_def leaf_set_def same_objects_def)

lemma scanned_refl: "scanned {} v v"
  unfolding scanned_def using extends_refl by blast

lemma scanned_trans:
  assumes "scanned V v v'" "scanned W v' v''"
  shows "scanned (V \<union> W) v v''"
proof -
  from assms obtain N M where n: "extends N v v'" "extends M v' v''"
    "\<And>i s. (i, s) \<in> N \<longleftrightarrow> slot_at (physical v) i s = Occupied \<and> (\<exists>a \<in> V. slot_address (physical v) i s = Some a)"
    "\<And>i s. (i, s) \<in> M \<longleftrightarrow> slot_at (physical v') i s = Occupied \<and> (\<exists>a \<in> W. slot_address (physical v') i s = Some a)"
    unfolding scanned_def by blast
  have "same_objects (physical v) (physical v')" using n(1) by (simp add: extends_def Let_def)
  then have "slot_at (physical v') = slot_at (physical v)" "slot_address (physical v') = slot_address (physical v)" by (simp_all add: same_objects_def)
  then show ?thesis unfolding scanned_def using extends_trans [OF n(1,2)] n(3,4) by (intro exI [of _ "N \<union> M"]) auto
qed

lemma extends_same: "extends N v v' \<Longrightarrow> same_objects (physical v) (physical v')"
  by (simp add: extends_def Let_def)

lemma scanned_sets:
  assumes "scanned V v v'" "V \<subseteq> live_set (physical v)" "e = mepoch (marking v)" "heap_inv (physical v)"
  shows "found_set (physical v') e = found_set (physical v) e \<union> V"
    "black_set (physical v') e = black_set (physical v) e \<union> (V - found_set (physical v) e) \<inter> leaf_set (physical v)"
    "same_objects (physical v) (physical v')" "mphase (marking v') = mphase (marking v)" "mepoch (marking v') = mepoch (marking v)"
    "mcycles (marking v') = mcycles (marking v)" "pcapacity (marking v') = pcapacity (marking v)"
proof -
  from assms(1) obtain N where N: "extends N v v'"
    "\<And>i s. (i, s) \<in> N \<longleftrightarrow> slot_at (physical v) i s = Occupied \<and> (\<exists>a \<in> V. slot_address (physical v) i s = Some a)"
    unfolding scanned_def by blast
  show so: "same_objects (physical v) (physical v')" "mphase (marking v') = mphase (marking v)" "mepoch (marking v') = mepoch (marking v)"
    "mcycles (marking v') = mcycles (marking v)" "pcapacity (marking v') = pcapacity (marking v)"
    using N(1) by (simp_all add: extends_def Let_def)
  have eq: "slot_at (physical v') = slot_at (physical v)" "slot_address (physical v') = slot_address (physical v)"
    using so(1) by (simp_all add: same_objects_def)
  have f: "found_at (physical v') e i s \<longleftrightarrow> found_at (physical v) e i s \<or> (i, s) \<in> N"
    and b: "black_at (physical v') e i s \<longleftrightarrow> black_at (physical v) e i s \<or> (i, s) \<in> N \<and> \<not> found_at (physical v) e i s \<and> leaf_at (physical v) i s" for i s
    using N(1) assms(3) by (simp_all add: extends_def Let_def)
  show "found_set (physical v') e = found_set (physical v) e \<union> V"
    using assms(2) N(2) by (force simp: found_set_def eq f live_set_def)
  show "black_set (physical v') e = black_set (physical v) e \<union> (V - found_set (physical v) e) \<inter> leaf_set (physical v)"
    using assms(2) N(2) address_inj [OF assms(4)] by (auto simp: black_set_def found_set_def leaf_set_def eq b) blast+
qed

lemma publish_scanned:
  assumes inv: "heap_inv (physical v)" "mark_inv A v" and ph: "mphase (marking v) \<in> {phase.Roots, Mark}" and a: "a \<in> live_set (physical v)"
    and p: "publish a b v = (r, b', v')"
  shows "(r = Ok Complete \<and> scanned {a} v v' \<or> r = Ok Pending \<and> v' = v \<and> b' = b \<and> b \<noteq> None \<or> r = Err (Limit ''publication work'') \<and> v' = v \<and> b = None) \<and>
    heap_inv (physical v') \<and> mark_inv A v' \<and> spends b b'"
proof -
  from a obtain i s where s: "slot_at (physical v) i s = Occupied" "slot_address (physical v) i s = Some a" by (auto simp: live_set_def)
  have N: "(j, t) \<in> {(i, s)} \<longleftrightarrow> slot_at (physical v) j t = Occupied \<and> (\<exists>c \<in> {a}. slot_address (physical v) j t = Some c)" for j t
    using s address_inj [OF inv(1) s(2), of j t] by auto
  from publish_ok [OF inv ph s, of b] show ?thesis
  proof (elim disjE exE conjE)
    fix b2 v2 assume "publish a b v = (Ok Complete, b2, v2)" "extends {(i, s)} v v2" "mark_inv A v2" "heap_inv (physical v2)" "spends b b2"
    then show ?thesis using p N unfolding scanned_def by auto
  qed (use p inv in auto)
qed

lemma scan_run_ok:
  assumes "scan_run E bv V bv'" "E \<subseteq> live_set (physical (snd bv))" "heap_inv (physical (snd bv))" "mark_inv A (snd bv)"
    "mphase (marking (snd bv)) \<in> {phase.Roots, Mark}"
  shows "V \<subseteq> E \<and> scanned V (snd bv) (snd bv') \<and> heap_inv (physical (snd bv')) \<and> mark_inv A (snd bv')"
  using assms(1)
proof (induction rule: scan_run.induct)
  case run_start
  then show ?case using assms scanned_refl by simp
next
  case (run_visit V b v a r b' v')
  then have I: "scanned V (snd bv) v" "heap_inv (physical v)" "mark_inv A v" "V \<subseteq> E" by auto
  then have Vl: "V \<subseteq> live_set (physical (snd bv))" using assms(2) by blast
  note S = scanned_sets [OF I(1) Vl refl assms(3)]
  have a: "a \<in> live_set (physical v)" using run_visit.hyps(2) assms(2) same_objects_live [OF S(3)] by auto
  have ph: "mphase (marking v) \<in> {phase.Roots, Mark}" using S(4) assms(5) by simp
  obtain bb where "publish a (Some b) v = (r, bb, v')" using run_visit.hyps(3) by (auto simp: try_visit_reference_def split: prod.splits)
  from publish_scanned [OF I(2,3) ph a this] have "r = Ok Complete \<and> scanned {a} v v' \<or> r \<noteq> Ok Complete \<and> v' = v" "heap_inv (physical v')" "mark_inv A v'" by auto
  then show ?case using scanned_trans [OF I(1)] I(1,4) run_visit.hyps(2) by force
qed auto

section \<open>Dynamic records and scalars\<close>

lemma record_covered_Suc:
  assumes "n < length (references shape)"
  shows "record_covered shape f (Suc n) = record_covered shape f n \<union> set_option (f (references shape ! n))"
  using assms by (auto simp: record_covered_def record_edges_def take_Suc_conv_app_nth)

lemma record_covered_all: "length (references shape) \<le> n \<Longrightarrow> record_covered shape f n = record_edges shape f"
  by (simp add: record_covered_def record_edges_def)

lemma record_covered_edges: "record_covered shape f n \<subseteq> record_edges shape f"
  by (auto simp: record_covered_def record_edges_def dest: in_set_takeD)

lemma shape_scan_run:
  assumes "shape_scan f try_visit_reference shape n b v = (r, n', b', v')"
  shows "\<exists>V. scan_run (record_edges shape f) (b, v) V (b', v') \<and> (r = Ok Complete \<longrightarrow> record_edges shape f \<subseteq> record_covered shape f n \<union> V) \<and>
    (r = Ok Pending \<longrightarrow> record_covered shape f n' \<subseteq> record_covered shape f n \<union> V)"
  using assms
proof (induction "length (references shape) - n" arbitrary: n b v rule: less_induct)
  case less
  let ?E = "record_edges shape f"
  note run = less.prems [unfolded shape_scan.simps [of f _ shape n]]
  show ?case
  proof (cases "n < length (references shape)")
    case False
    then have "r = Ok Complete" "b' = b" "v' = v" using run by auto
    then show ?thesis using False record_covered_all [of shape n f] by (intro exI [of _ "{}"]) (simp add: run_start)
  next
    case n: True
    obtain ok b1 where t: "take_units 1 b = (ok, b1)" by (cases "take_units 1 b")
    have r1: "scan_run ?E (b, v) {} (b1, v)" by (rule run_take [OF run_start t])
    show ?thesis
    proof (cases ok)
      case False
      then show ?thesis using run n t r1 by auto
    next
      case ok: True
      have next_ok: ?thesis if V: "scan_run ?E (b, v) V (b2, v2)" "set_option (f (references shape ! n)) \<subseteq> V"
          and next_run: "shape_scan f try_visit_reference shape (n + 1) b2 v2 = (r, n', b', v')" for V b2 v2
      proof -
        have "length (references shape) - (n + 1) < length (references shape) - n" using n by simp
        from less.hyps [OF this next_run] obtain W where W: "scan_run ?E (b2, v2) W (b', v')"
          "r = Ok Complete \<longrightarrow> ?E \<subseteq> record_covered shape f (n + 1) \<union> W"
          "r = Ok Pending \<longrightarrow> record_covered shape f n' \<subseteq> record_covered shape f (n + 1) \<union> W" by auto
        show ?thesis using scan_run_trans [OF V(1) W(1)] W(2,3) V(2) record_covered_Suc [OF n, of f] by (intro exI [of _ "V \<union> W"]) auto
      qed
      show ?thesis
      proof (cases "f (references shape ! n)")
        case None
        then show ?thesis using run n t ok by (intro next_ok [OF r1]) auto
      next
        case (Some a)
        then have a: "a \<in> ?E" using n by (auto simp: record_edges_def)
        obtain x b2 v2 where x: "try_visit_reference a b1 v = (x, b2, v2)" by (cases "try_visit_reference a b1 v")
        from run_visit [OF r1 a x] have r2: "scan_run ?E (b, v) (if x = Ok Complete then {a} else {}) (b2, v2)" by simp
        show ?thesis
        proof (cases "x = Ok Complete")
          case True
          then show ?thesis using run n t ok Some x r2 by (intro next_ok [of "{a}" b2 v2]) auto
        next
          case False
          then show ?thesis using run n t ok Some x r2
            by (cases x) (auto split: scan_status.splits intro!: exI [of _ "{}"])
        qed
      qed
    qed
  qed
qed

interpretation record_scan: edge_scanner "\<lambda>_. Ok 0" "\<lambda>f. shape_scan f try_visit_reference shape" "record_edges shape" "record_covered shape" for shape
  by unfold_locales (use shape_scan_run in \<open>auto simp: record_covered_def record_edges_def\<close>)

interpretation scalar_scanner: edge_scanner "\<lambda>_. Ok ()" scalar_scan "\<lambda>_. {}" "\<lambda>_ _. {}"
  by unfold_locales (auto simp: scalar_scan_def intro!: exI [of _ "{} :: nat set"] run_start)

interpretation scalar_objects: gc_objects scalar_provider "\<lambda>_ _. {}" "\<lambda>_ _ _. {}"
  by unfold_locales (auto simp: scalar_provider_def scalar_scan_def intro!: exI [of _ "{} :: nat set"] run_start)

context gc_objects
begin

text \<open>The contract at the level of descriptors.\<close>

lemma begin_covered: "descriptor_begin P d x = Ok st \<Longrightarrow> payload_fits (desc_rep d) x \<Longrightarrow> state_fits (desc_rep d) st \<and> payload_covered C d x st = {}"
  using edge_scanner.start_law [OF scanner]
  by (auto simp: descriptor_begin_def payload_covered_def record_covered_def record_edges_def split: representation.splits payload.splits)

lemma begin_total: "payload_fits (desc_rep d) x \<Longrightarrow> \<exists>st. descriptor_begin P d x = Ok st"
  by (cases "desc_rep d"; cases x) (auto simp: descriptor_begin_def)

lemma dispatch_law:
  assumes "descriptor_scan P d x st b v = (r, st', b', v')" "payload_fits (desc_rep d) x" "state_fits (desc_rep d) st"
  shows "state_fits (desc_rep d) st' \<and> (\<exists>V. scan_run (payload_edges E d x) (b, v) V (b', v') \<and>
    (r = Ok Complete \<longrightarrow> payload_edges E d x \<subseteq> payload_covered C d x st \<union> V) \<and>
    (r = Ok Pending \<longrightarrow> payload_covered C d x st' \<subseteq> payload_covered C d x st \<union> V))"
proof (cases "desc_rep d")
  case (Rust t)
  then obtain w s where ws: "x = RustValue w" "st = RustState s" using assms by (cases x; cases st) auto
  then obtain s' where "scan_hook P t w s b v = (r, s', b', v')" "st' = RustState s'"
    using assms(1) Rust by (auto simp: descriptor_scan_def split: prod.splits)
  then show ?thesis using edge_scanner.scan_law [OF scanner] Rust ws by (simp add: payload_edges_def payload_covered_def)
next
  case (Dynamic shape)
  then obtain f n where ws: "x = Record f" "st = Cursor n" using assms by (cases x; cases st) auto
  then obtain n' where "shape_scan f try_visit_reference shape n b v = (r, n', b', v')" "st' = Cursor n'"
    using assms(1) Dynamic by (auto simp: descriptor_scan_def split: prod.splits)
  then show ?thesis using record_scan.scan_law Dynamic ws by (simp add: payload_edges_def payload_covered_def)
qed

lemma leaf_edges: "descriptor_fits P d \<Longrightarrow> desc_kind d = EdgeFree \<Longrightarrow> payload_edges E d x = {}"
  using leaves by (cases "desc_rep d"; cases x) (auto simp: descriptor_fits_def payload_edges_def record_edges_def split: if_splits)

end

end
