(* ===== verification/Gc_Roots.thy ===== *)
theory Gc_Roots
  imports Gc_Table
begin

text \<open>
  Host roots (\<^verbatim>\<open>crates/kagari-gc/src/root.rs\<close>): the registry of root packs, the leases that
  own them, and the port through which dropped leases report themselves.

  A lease is an \<open>Arc\<close> shared by the heap's handles; its address is \<open>lease_ptr\<close>. The counters of
  these allocations are part of the state: \<open>strong\<close> and \<open>armed\<close> give, for the address of a
  lease, its number of strong references and its flag. The registry holds only weak references.
  \<open>lease_clone\<close> and \<open>lease_drop\<close> are what the owners of handles do. The port is behind a mutex in
  the source; every access to it is one step here.

  \<open>roots_inv\<close> ties the parts together: the list of active registrations and the back indices
  agree, generations are unique and bounded by the serial number, every registration holds one
  reserved credit of the release queue, and the queue holds exactly the registrations whose
  last handle is gone.
\<close>

section \<open>Definitions\<close>

subsection \<open>State\<close>

record root_id =
  id_heap :: nat
  id_slot :: nat
  id_generation :: nat

record root_lease =
  lease_id :: root_id
  lease_ptr :: nat

record release_port =
  connected :: bool
  credits :: nat
  notices :: "root_id list"
  ncapacity :: nat

record root_entry =
  active_index :: nat
  elease :: nat
  targets :: "nat option list"
  typed :: "nat option"

record root_slot =
  generation :: nat
  entry :: root_entry

record roots =
  rheap :: nat
  rslots :: "root_slot table"
  ractive :: "nat list"
  acapacity :: nat
  serial :: nat
  released :: release_port
  rcount :: nat
  strong :: "nat \<Rightarrow> nat"
  armed :: "nat \<Rightarrow> bool"

record prepared_root =
  prep_lease :: root_lease
  prep_entry :: root_entry

definition roots_new :: "nat \<Rightarrow> roots" where
  "roots_new heap =
     \<lparr>rheap = heap, rslots = table_default, ractive = [], acapacity = 0, serial = 0,
      released = \<lparr>connected = True, credits = 0, notices = [], ncapacity = 0\<rparr>, rcount = 0,
      strong = (\<lambda>_. 0), armed = (\<lambda>_. False)\<rparr>"

subsection \<open>Registration\<close>

text \<open>\<^verbatim>\<open>try_reserve\<close> of a vector with the given length and capacity: the capacity afterwards.\<close>

definition grown_capacity :: "reserve \<Rightarrow> nat \<Rightarrow> nat \<Rightarrow> nat \<Rightarrow> nat \<Rightarrow> nat gc_result" where
  "grown_capacity mem slack len cap additional =
     (if additional \<le> cap - len then Ok cap
      else if len + additional \<le> usize_max \<and> mem additional then Ok (min usize_max (len + additional + slack)) else Err Allocation)"

definition roots_prepare ::
    "reserve \<Rightarrow> nat \<Rightarrow> nat \<Rightarrow> nat \<Rightarrow> nat option \<Rightarrow> nat \<Rightarrow> roots \<Rightarrow> prepared_root gc_result \<times> roots" where
  "roots_prepare mem slack ptr count typ limit rs =
     (if rcount rs \<ge> limit then (Err (Limit ''root registrations''), rs)
      else case grown_capacity mem slack (length (ractive rs)) (acapacity rs) 1 of
        Err e \<Rightarrow> (Err e, rs) | Panic m \<Rightarrow> (Panic m, rs)
      | Ok ac \<Rightarrow> let rs = rs\<lparr>acapacity := ac\<rparr>
      in if 0 < count \<and> \<not> mem count then (Err Allocation, rs)
      else case prepare mem (rslots rs) of
        Err e \<Rightarrow> (Err e, rs\<lparr>rslots := prepare_failed mem (rslots rs)\<rparr>) | Panic m \<Rightarrow> (Panic m, rs)
      | Ok (t, slot) \<Rightarrow> let rs = rs\<lparr>rslots := t\<rparr>
      in case checked_add (serial rs) 1 of
        None \<Rightarrow> (Err (Limit ''root generation''), rs)
      | Some gen \<Rightarrow> let rs = rs\<lparr>serial := gen\<rparr>; port = released rs
      in case checked_add (credits port) 1 of
        None \<Rightarrow> (Err (Limit ''release credits''), rs)
      | Some cap \<Rightarrow>
          (case grown_capacity mem slack (length (notices port)) (ncapacity port) (saturating_sub cap (length (notices port))) of
             Err e \<Rightarrow> (Err e, rs) | Panic m \<Rightarrow> (Panic m, rs)
           | Ok nc \<Rightarrow>
               (Ok \<lparr>prep_lease = \<lparr>lease_id = \<lparr>id_heap = rheap rs, id_slot = slot, id_generation = gen\<rparr>, lease_ptr = ptr\<rparr>,
                    prep_entry = \<lparr>active_index = length (ractive rs), elease = ptr, targets = replicate count None, typed = typ\<rparr>\<rparr>,
                rs\<lparr>released := port\<lparr>ncapacity := nc\<rparr>, strong := (strong rs)(ptr := 1), armed := (armed rs)(ptr := False)\<rparr>)))"

definition first_target :: "nat option \<Rightarrow> nat option list \<Rightarrow> nat option list" where
  "first_target target ts = (case ts of [] \<Rightarrow> [] | _ # rest \<Rightarrow> target # rest)"

definition roots_commit :: "prepared_root \<Rightarrow> nat option \<Rightarrow> roots \<Rightarrow> root_lease gc_result \<times> roots" where
  "roots_commit p target rs =
     (let i = lease_id (prep_lease p);
          e = (prep_entry p)\<lparr>targets := first_target target (targets (prep_entry p))\<rparr>;
          rs = rs\<lparr>ractive := ractive rs @ [id_slot i]\<rparr>
      in case table_insert (id_slot i) \<lparr>generation = id_generation i, entry = e\<rparr> (rslots rs) of
           Err x \<Rightarrow> (Err x, rs) | Panic m \<Rightarrow> (Panic m, rs)
         | Ok t \<Rightarrow>
             (Ok (prep_lease p),
              rs\<lparr>rslots := t, rcount := rcount rs + 1, released := (released rs)\<lparr>credits := credits (released rs) + 1\<rparr>,
                 armed := (armed rs)(lease_ptr (prep_lease p) := True)\<rparr>))"

subsection \<open>Leases\<close>

definition lease_clone :: "root_lease \<Rightarrow> roots \<Rightarrow> roots" where
  "lease_clone l rs = rs\<lparr>strong := (strong rs)(lease_ptr l := strong rs (lease_ptr l) + 1)\<rparr>"

text \<open>Dropping a strong reference; the last one runs \<^verbatim>\<open>RootLease::drop\<close>.\<close>

definition lease_dropped :: "root_lease \<Rightarrow> roots \<Rightarrow> unit gc_result \<times> roots" where
  "lease_dropped l rs =
     (if \<not> armed rs (lease_ptr l) then (Ok (), rs)
      else let port = released rs
           in if connected port then
                if length (notices port) < ncapacity port
                then (Ok (), rs\<lparr>released := port\<lparr>notices := notices port @ [lease_id l]\<rparr>\<rparr>)
                else (Panic ''reserved root-release credit'', rs)
              else (Ok (), rs))"

text \<open>
  Dropping a handle takes one off the count of the shared lease; the last one runs its drop. The
  count and the notice it queues under the port's lock are one step here. A service call of another
  thread that falls between the two would find the count at zero before the notice is there, no
  longer scan the registration, and release it later; this interleaving is left out.
\<close>

definition lease_drop :: "root_lease \<Rightarrow> roots \<Rightarrow> unit gc_result \<times> roots" where
  "lease_drop l rs =
     (let n = strong rs (lease_ptr l) - 1; rs = rs\<lparr>strong := (strong rs)(lease_ptr l := n)\<rparr>
      in if n = 0 then lease_dropped l rs else (Ok (), rs))"

subsection \<open>Access\<close>

definition roots_admit :: "root_lease \<Rightarrow> roots \<Rightarrow> root_entry gc_result" where
  "roots_admit l rs =
     (if id_heap (lease_id l) \<noteq> rheap rs then Err ForeignHeap
      else case table_get (id_slot (lease_id l)) (rslots rs) of
        None \<Rightarrow> Err InvalidRoot
      | Some s \<Rightarrow>
          if generation s \<noteq> id_generation (lease_id l) then Err InvalidRoot
          else if elease (entry s) \<noteq> lease_ptr l then Err InvalidRoot
          else Ok (entry s))"

definition roots_target :: "nat \<Rightarrow> root_lease \<Rightarrow> roots \<Rightarrow> nat gc_result" where
  "roots_target T l rs =
     and_then (roots_admit l rs) (\<lambda>e.
       if typed e \<noteq> Some T then Err Representation
       else case targets e of [] \<Rightarrow> Panic ''index out of bounds'' | t # _ \<Rightarrow> ok_or InvalidRoot t)"

text \<open>
  \<^verbatim>\<open>replace_with\<close>: the closure \<open>pick\<close> prepares the target with shared access to the registry; its
  own state is \<open>w\<close>.
\<close>

definition set_target :: "nat \<Rightarrow> nat option \<Rightarrow> root_slot \<Rightarrow> root_slot" where
  "set_target n target s = s\<lparr>entry := (entry s)\<lparr>targets := (targets (entry s))[n := target]\<rparr>\<rparr>"

definition replace_with ::
    "root_lease \<Rightarrow> nat \<Rightarrow> (roots \<Rightarrow> 'w \<Rightarrow> nat option gc_result \<times> 'w) \<Rightarrow> roots \<Rightarrow> 'w \<Rightarrow> unit gc_result \<times> roots \<times> 'w" where
  "replace_with l n pick rs w =
     (case roots_admit l rs of
        Err x \<Rightarrow> (Err x, rs, w) | Panic m \<Rightarrow> (Panic m, rs, w)
      | Ok e \<Rightarrow>
          if typed e \<noteq> None \<or> n \<ge> length (targets e) then (Err Index, rs, w)
          else case pick rs w of
            (Err x, w) \<Rightarrow> (Err x, rs, w)
          | (Panic m, w) \<Rightarrow> (Panic m, rs, w)
          | (Ok target, w) \<Rightarrow>
              (Ok (), rs\<lparr>rslots := table_update (id_slot (lease_id l)) (set_target n target) (rslots rs)\<rparr>, w))"

subsection \<open>Release\<close>

definition set_index :: "nat \<Rightarrow> root_slot \<Rightarrow> root_slot" where
  "set_index n s = s\<lparr>entry := (entry s)\<lparr>active_index := n\<rparr>\<rparr>"

text \<open>The removal of a registration's place in the active list.\<close>

definition drop_active :: "nat \<Rightarrow> roots \<Rightarrow> roots gc_result" where
  "drop_active k rs =
     (if length (ractive rs) \<le> k then Panic ''swap_remove index''
      else let act = swap_remove k (ractive rs)
           in if k < length act then
                (case table_get (act ! k) (rslots rs) of
                   None \<Rightarrow> Panic ''live metadata identity''
                 | Some _ \<Rightarrow> Ok (rs\<lparr>ractive := act, rslots := table_update (act ! k) (set_index k) (rslots rs)\<rparr>))
              else Ok (rs\<lparr>ractive := act\<rparr>))"

definition release_one :: "roots \<Rightarrow> root_entry option gc_result \<times> roots" where
  "release_one rs =
     (case notices (released rs) of
        [] \<Rightarrow> (Ok None, rs)
      | i # rest \<Rightarrow> let rs = rs\<lparr>released := (released rs)\<lparr>notices := rest\<rparr>\<rparr>
      in case table_remove (id_slot i) (rslots rs) of
        None \<Rightarrow> (Panic ''registered release slot'', rs)
      | Some (s, t) \<Rightarrow> let rs = rs\<lparr>rslots := t\<rparr>
      in if generation s \<noteq> id_generation i then (Panic ''release generation'', rs)
      else if strong rs (elease (entry s)) \<noteq> 0 then (Panic ''release of a live lease'', rs)
      else case drop_active (active_index (entry s)) rs of
        Err x \<Rightarrow> (Err x, rs) | Panic m \<Rightarrow> (Panic m, rs)
      | Ok rs \<Rightarrow>
          if rcount rs = 0 \<or> credits (released rs) = 0 then (Panic ''attempt to subtract with overflow'', rs)
          else (Ok (Some (entry s)),
                rs\<lparr>rcount := rcount rs - 1, released := (released rs)\<lparr>credits := credits (released rs) - 1\<rparr>\<rparr>))"

definition roots_disconnect :: "roots \<Rightarrow> roots" where
  "roots_disconnect rs =
     rs\<lparr>released := (released rs)\<lparr>connected := False, notices := [], ncapacity := 0, credits := 0\<rparr>\<rparr>"

definition roots_close :: "roots \<Rightarrow> roots" where
  "roots_close rs = rs\<lparr>rslots := table_default, ractive := [], acapacity := 0, rcount := 0\<rparr>"

definition pending_releases :: "roots \<Rightarrow> nat" where
  "pending_releases rs = length (notices (released rs))"

definition roots_trim :: "roots \<Rightarrow> roots" where
  "roots_trim rs =
     (let port = released rs
      in rs\<lparr>rslots := table_trim (rslots rs), acapacity := shrink_vec (acapacity rs) (length (ractive rs)) (rcount rs),
            released := (case shrink_target (ncapacity port) (credits port) of
                           None \<Rightarrow> port
                         | Some target \<Rightarrow> port\<lparr>ncapacity := min (ncapacity port) (max (length (notices port)) target)\<rparr>)\<rparr>)"

subsection \<open>Reference definitions\<close>

definition registration :: "roots \<Rightarrow> nat \<Rightarrow> root_slot option" where
  "registration rs i = table_get i (rslots rs)"

text \<open>The registration a lease was issued for still exists.\<close>

definition issued :: "root_lease \<Rightarrow> roots \<Rightarrow> bool" where
  "issued l rs \<longleftrightarrow> id_heap (lease_id l) = rheap rs \<and>
     (\<exists>s. registration rs (id_slot (lease_id l)) = Some s \<and> generation s = id_generation (lease_id l) \<and>
          elease (entry s) = lease_ptr l)"

definition port_inv :: "roots \<Rightarrow> bool" where
  "port_inv rs \<longleftrightarrow> (let port = released rs in connected port \<longrightarrow>
     credits port = rcount rs \<and> credits port \<le> ncapacity port \<and> ncapacity port \<le> usize_max \<and> distinct (notices port) \<and>
     (\<forall>n. n \<in> set (notices port) \<longleftrightarrow> id_heap n = rheap rs \<and>
        (\<exists>s. registration rs (id_slot n) = Some s \<and> generation s = id_generation n \<and> strong rs (elease (entry s)) = 0)))"

definition roots_inv :: "roots \<Rightarrow> bool" where
  "roots_inv rs \<longleftrightarrow> table_inv (rslots rs) \<and> distinct (ractive rs) \<and>
     (\<forall>i. i \<in> set (ractive rs) \<longleftrightarrow> registration rs i \<noteq> None) \<and>
     (\<forall>i s. registration rs i = Some s \<longrightarrow> active_index (entry s) < length (ractive rs) \<and>
        ractive rs ! active_index (entry s) = i \<and> generation s \<le> serial rs \<and> armed rs (elease (entry s))) \<and>
     (\<forall>i j s t. registration rs i = Some s \<longrightarrow> registration rs j = Some t \<longrightarrow> elease (entry s) = elease (entry t) \<longrightarrow> i = j) \<and>
     rcount rs = length (ractive rs) \<and> port_inv rs"

text \<open>The address of a new lease is not the address of one that a registration still refers to.\<close>

definition fresh_lease :: "nat \<Rightarrow> roots \<Rightarrow> bool" where
  "fresh_lease ptr rs \<longleftrightarrow> (\<forall>i s. registration rs i = Some s \<longrightarrow> elease (entry s) \<noteq> ptr)"

definition prepared_ok :: "prepared_root \<Rightarrow> roots \<Rightarrow> bool" where
  "prepared_ok p rs \<longleftrightarrow>
     (let i = lease_id (prep_lease p); e = prep_entry p; ptr = lease_ptr (prep_lease p)
      in id_heap i = rheap rs \<and> vacant (id_slot i) (rslots rs) \<and> registration rs (id_slot i) = None \<and>
         id_generation i = serial rs \<and> active_index e = length (ractive rs) \<and> elease e = ptr \<and> fresh_lease ptr rs \<and>
         0 < strong rs ptr \<and> (connected (released rs) \<longrightarrow> credits (released rs) < ncapacity (released rs)))"

text \<open>The same registration up to its place in the active list.\<close>

definition same_root :: "root_slot \<Rightarrow> root_slot \<Rightarrow> bool" where
  "same_root s t \<longleftrightarrow> generation t = generation s \<and> elease (entry t) = elease (entry s) \<and>
     targets (entry t) = targets (entry s) \<and> typed (entry t) = typed (entry s)"

subsection \<open>Steps\<close>

text \<open>
  The steps of the heap and of the owners of handles. A prepared registration is committed or
  dropped before the heap's next operation on the registry; handles are cloned and dropped at
  any time.
\<close>


type_synonym root_state = "roots \<times> prepared_root option"

inductive root_step :: "root_state \<Rightarrow> root_state \<Rightarrow> bool" where
  step_prepare: "roots_prepare mem slack ptr count ty limit rs = (Ok p, rs') \<Longrightarrow> fresh_lease ptr rs \<Longrightarrow> root_step (rs, None) (rs', Some p)"
| step_refuse: "roots_prepare mem slack ptr count ty limit rs = (Err e, rs') \<Longrightarrow> fresh_lease ptr rs \<Longrightarrow> root_step (rs, None) (rs', None)"
| step_commit: "roots_commit p target rs = (Ok l, rs') \<Longrightarrow> root_step (rs, Some p) (rs', None)"
| step_abandon: "lease_drop (prep_lease p) rs = (Ok (), rs') \<Longrightarrow> root_step (rs, Some p) (rs', None)"
| step_clone: "issued l rs \<Longrightarrow> 0 < strong rs (lease_ptr l) \<Longrightarrow> root_step (rs, q) (lease_clone l rs, q)"
| step_drop: "issued l rs \<Longrightarrow> 0 < strong rs (lease_ptr l) \<Longrightarrow> lease_drop l rs = (Ok (), rs') \<Longrightarrow> root_step (rs, q) (rs', q)"
| step_replace: "replace_with l n pick rs () = (Ok (), rs', ()) \<Longrightarrow> root_step (rs, None) (rs', None)"
| step_release: "release_one rs = (Ok r, rs') \<Longrightarrow> root_step (rs, None) (rs', None)"
| step_trim: "root_step (rs, None) (roots_trim rs, None)"

definition root_state_inv :: "root_state \<Rightarrow> bool" where
  "root_state_inv st \<longleftrightarrow> roots_inv (fst st) \<and> connected (released (fst st)) \<and> length (ractive (fst st)) \<le> acapacity (fst st) \<and>
     (\<forall>p. snd st = Some p \<longrightarrow> prepared_ok p (fst st) \<and> \<not> armed (fst st) (lease_ptr (prep_lease p)) \<and>
        strong (fst st) (lease_ptr (prep_lease p)) = 1 \<and> length (ractive (fst st)) < acapacity (fst st))"

text \<open>A lease that was issued, or prepared, and has no registration any more.\<close>

definition expired :: "root_lease \<Rightarrow> root_state \<Rightarrow> bool" where
  "expired l st \<longleftrightarrow> id_generation (lease_id l) \<le> serial (fst st) \<and>
     (\<forall>s. registration (fst st) (id_slot (lease_id l)) = Some s \<longrightarrow> generation s \<noteq> id_generation (lease_id l)) \<and>
     (\<forall>p. snd st = Some p \<longrightarrow> id_generation (lease_id (prep_lease p)) \<noteq> id_generation (lease_id l))"

text \<open>The service loop over the queue of releases, with the number of notices it may serve.\<close>

fun release_times :: "nat \<Rightarrow> roots \<Rightarrow> unit gc_result \<times> roots" where
  "release_times 0 rs = (Ok (), rs)"
| "release_times (Suc n) rs =
     (case release_one rs of
        (Ok None, rs) \<Rightarrow> (Ok (), rs) | (Ok (Some _), rs) \<Rightarrow> release_times n rs
      | (Err e, rs) \<Rightarrow> (Err e, rs) | (Panic m, rs) \<Rightarrow> (Panic m, rs))"

definition held :: "roots \<Rightarrow> nat \<Rightarrow> bool" where
  "held rs i \<longleftrightarrow> (\<exists>s. registration rs i = Some s \<and> 0 < strong rs (elease (entry s)))"

definition sample_root_lease :: root_lease where
  "sample_root_lease = \<lparr>lease_id = \<lparr>id_heap = 1, id_slot = 0, id_generation = 1\<rparr>, lease_ptr = 7\<rparr>"

definition sample_root_prepared :: prepared_root where
  "sample_root_prepared = \<lparr>prep_lease = sample_root_lease,
     prep_entry = \<lparr>active_index = 0, elease = 7, targets = [None, None], typed = None\<rparr>\<rparr>"

definition sample_root_slot :: root_slot where
  "sample_root_slot = \<lparr>generation = 1, entry = \<lparr>active_index = 0, elease = 7, targets = [Some 64, None], typed = None\<rparr>\<rparr>"

definition sample_root_table :: "root_slot table" where
  "sample_root_table = (case prepare (\<lambda>_. True) table_default of Ok (t, _) \<Rightarrow> t | _ \<Rightarrow> table_default)"

definition sample_root_table2 :: "root_slot table" where
  "sample_root_table2 = (case table_insert 0 sample_root_slot sample_root_table of Ok t \<Rightarrow> t | _ \<Rightarrow> table_default)"

definition sample_roots1 :: roots where
  "sample_roots1 = \<lparr>rheap = 1, rslots = sample_root_table, ractive = [], acapacity = 1, serial = 1,
     released = \<lparr>connected = True, credits = 0, notices = [], ncapacity = 1\<rparr>, rcount = 0, strong = (\<lambda>_. 0)(7 := 1), armed = (\<lambda>_. False)(7 := False)\<rparr>"

definition sample_roots2 :: roots where
  "sample_roots2 = \<lparr>rheap = 1, rslots = sample_root_table2, ractive = [0], acapacity = 1, serial = 1,
     released = \<lparr>connected = True, credits = 1, notices = [], ncapacity = 1\<rparr>, rcount = 1, strong = (\<lambda>_. 0)(7 := 1), armed = (\<lambda>_. False)(7 := True)\<rparr>"

definition sample_roots3 :: roots where
  "sample_roots3 = \<lparr>rheap = 1, rslots = sample_root_table2, ractive = [0], acapacity = 1, serial = 1,
     released = \<lparr>connected = True, credits = 1, notices = [lease_id sample_root_lease], ncapacity = 1\<rparr>, rcount = 1, strong = (\<lambda>_. 0)(7 := 0), armed = (\<lambda>_. False)(7 := True)\<rparr>"

definition sample_roots4 :: roots where
  "sample_roots4 = snd (release_one sample_roots3)"

section \<open>The invariant\<close>

lemma roots_invD:
  assumes "roots_inv rs"
  shows "table_inv (rslots rs)" "distinct (ractive rs)" "\<And>i. i \<in> set (ractive rs) \<longleftrightarrow> registration rs i \<noteq> None"
    "\<And>i s. registration rs i = Some s \<Longrightarrow> active_index (entry s) < length (ractive rs) \<and>
        ractive rs ! active_index (entry s) = i \<and> generation s \<le> serial rs \<and> armed rs (elease (entry s))"
    "\<And>i j s t. registration rs i = Some s \<Longrightarrow> registration rs j = Some t \<Longrightarrow> elease (entry s) = elease (entry t) \<Longrightarrow> i = j"
    "rcount rs = length (ractive rs)" "port_inv rs"
  using assms unfolding roots_inv_def by blast+

lemma port_invD:
  assumes "port_inv rs" "connected (released rs)"
  shows "credits (released rs) = rcount rs" "credits (released rs) \<le> ncapacity (released rs)" "distinct (notices (released rs))"
    "\<And>n. n \<in> set (notices (released rs)) \<longleftrightarrow> id_heap n = rheap rs \<and>
        (\<exists>s. registration rs (id_slot n) = Some s \<and> generation s = id_generation n \<and> strong rs (elease (entry s)) = 0)"
    "ncapacity (released rs) \<le> usize_max"
  using assms unfolding port_inv_def Let_def by blast+

lemma roots_new_inv: "roots_inv (roots_new h)"
  by (simp add: roots_inv_def roots_new_def registration_def port_inv_def)

text \<open>Queued registrations are distinct, so the queue is never longer than the list of registrations.\<close>

lemma notice_slots:
  assumes "roots_inv rs" "connected (released rs)"
  shows "distinct (map id_slot (notices (released rs)))" "set (map id_slot (notices (released rs))) \<subseteq> set (ractive rs)"
proof -
  note I = roots_invD [OF assms(1)]
  note P = port_invD [OF I(7) assms(2)]
  have "inj_on id_slot (set (notices (released rs)))"
    by (rule inj_onI) (auto simp: P(4) intro!: root_id.equality)
  then show "distinct (map id_slot (notices (released rs)))" using P(3) by (simp add: distinct_map)
  show "set (map id_slot (notices (released rs))) \<subseteq> set (ractive rs)" using P(4) I(3) by auto
qed

section \<open>Registration\<close>

text \<open>Changes that leave the registrations and the leases alone.\<close>

lemma roots_inv_cong:
  assumes "roots_inv rs" "table_inv (rslots rs')" "\<And>i. registration rs' i = registration rs i" "ractive rs' = ractive rs"
    "serial rs \<le> serial rs'" "rcount rs' = rcount rs" "rheap rs' = rheap rs"
    "\<And>i s. registration rs i = Some s \<Longrightarrow> armed rs' (elease (entry s)) \<and> (strong rs' (elease (entry s)) = 0 \<longleftrightarrow> strong rs (elease (entry s)) = 0)"
    "connected (released rs') \<Longrightarrow> connected (released rs) \<and> credits (released rs') = credits (released rs) \<and> notices (released rs') = notices (released rs) \<and>
       credits (released rs) \<le> ncapacity (released rs') \<and> ncapacity (released rs') \<le> usize_max"
  shows "roots_inv rs'"
proof -
  note I = roots_invD [OF assms(1)]
  have "generation s \<le> serial rs'" if "registration rs i = Some s" for i s using I(4) [OF that] assms(5) by simp
  moreover have "port_inv rs'" unfolding port_inv_def Let_def
  proof (intro impI)
    assume c: "connected (released rs')"
    note P = port_invD [OF I(7) conjunct1 [OF assms(9) [OF c]]]
    have "(\<exists>s. registration rs i = Some s \<and> generation s = g \<and> strong rs' (elease (entry s)) = 0) \<longleftrightarrow>
        (\<exists>s. registration rs i = Some s \<and> generation s = g \<and> strong rs (elease (entry s)) = 0)" for i g
      using assms(8) by blast
    then show "credits (released rs') = rcount rs' \<and> credits (released rs') \<le> ncapacity (released rs') \<and> ncapacity (released rs') \<le> usize_max \<and> distinct (notices (released rs')) \<and>
        (\<forall>n. n \<in> set (notices (released rs')) \<longleftrightarrow> id_heap n = rheap rs' \<and>
          (\<exists>s. registration rs' (id_slot n) = Some s \<and> generation s = id_generation n \<and> strong rs' (elease (entry s)) = 0))"
      using P assms(9) [OF c] by (simp add: assms(3,6,7))
  qed
  ultimately show ?thesis using I(2-6) assms(2,4,6,8) unfolding roots_inv_def assms(3) by simp
qed

lemma grown_capacity_cases:
  assumes "len \<le> cap \<or> 0 < n"
  shows "(\<exists>c. grown_capacity mem slack len cap n = Ok c \<and> (cap \<le> usize_max \<longrightarrow> cap \<le> c \<and> c \<le> usize_max) \<and> len + n \<le> c) \<or> grown_capacity mem slack len cap n = Err Allocation"
  using assms by (auto simp: grown_capacity_def)

lemma notices_le:
  assumes "roots_inv rs" "connected (released rs)"
  shows "length (notices (released rs)) \<le> credits (released rs)" "length (notices (released rs)) \<le> ncapacity (released rs)"
proof -
  note I = roots_invD [OF assms(1)]
  note P = port_invD [OF I(7) assms(2)]
  have "card (set (map id_slot (notices (released rs)))) \<le> card (set (ractive rs))"
    using notice_slots(2) [OF assms] by (intro card_mono) auto
  then show "length (notices (released rs)) \<le> credits (released rs)"
    using distinct_card [OF notice_slots(1) [OF assms]] distinct_card [OF I(2)] I(6) P(1) by simp
  then show "length (notices (released rs)) \<le> ncapacity (released rs)" using P(2) by simp
qed

lemma roots_prepare_ok:
  assumes inv: "roots_inv rs" "connected (released rs)" and fresh: "fresh_lease ptr rs"
  shows "(\<exists>p rs'. roots_prepare mem slack ptr count typ limit rs = (Ok p, rs') \<and> roots_inv rs' \<and> prepared_ok p rs' \<and>
      (\<forall>i. registration rs' i = registration rs i) \<and> rheap rs' = rheap rs \<and> connected (released rs') \<and> length (ractive rs') < acapacity rs' \<and>
      ractive rs' = ractive rs \<and> notices (released rs') = notices (released rs) \<and> strong rs' = (strong rs)(ptr := 1) \<and> \<not> armed rs' ptr \<and>
      lease_ptr (prep_lease p) = ptr \<and> targets (prep_entry p) = replicate count None \<and> typed (prep_entry p) = typ \<and>
      serial rs' = serial rs + 1 \<and> rcount rs < limit)
    \<or> (\<exists>e rs'. roots_prepare mem slack ptr count typ limit rs = (Err e, rs') \<and> roots_inv rs' \<and>
      (\<forall>i. registration rs' i = registration rs i) \<and> rheap rs' = rheap rs \<and> connected (released rs') \<and> (length (ractive rs) \<le> acapacity rs \<longrightarrow> length (ractive rs') \<le> acapacity rs') \<and>
      ractive rs' = ractive rs \<and> released rs' = released rs \<and> strong rs' = strong rs)"
proof -
  note I = roots_invD [OF inv(1)]
  note P = port_invD [OF I(7) inv(2)]
  have err: ?thesis
    if "roots_prepare mem slack ptr count typ limit rs = (Err e, rs')" "rs' = rs\<lparr>acapacity := c, rslots := t, serial := g\<rparr>" "length (ractive rs) \<le> acapacity rs \<longrightarrow> length (ractive rs) \<le> c"
      "table_inv t" "\<And>i. table_get i t = table_get i (rslots rs)" "serial rs \<le> g" for e rs' c t g
  proof -
    have "roots_inv rs'" by (rule roots_inv_cong [OF inv(1)]) (use that P I(4) in \<open>auto simp: registration_def\<close>)
    then show ?thesis using that inv(2) by (intro disjI2 exI [of _ e] exI [of _ rs']) (simp add: registration_def)
  qed
  have keep: "rs\<lparr>acapacity := c\<rparr> = rs\<lparr>acapacity := c, rslots := rslots rs, serial := serial rs\<rparr>"
    "rs\<lparr>acapacity := c, rslots := t\<rparr> = rs\<lparr>acapacity := c, rslots := t, serial := serial rs\<rparr>"
    "rs = rs\<lparr>acapacity := acapacity rs, rslots := rslots rs, serial := serial rs\<rparr>" for c t by simp_all
  show ?thesis
  proof (cases "rcount rs < limit")
    case False
    then show ?thesis by (intro err [OF _ keep(3)]) (use I(1) in \<open>auto simp: roots_prepare_def\<close>)
  next
    case lim: True
    from grown_capacity_cases [OF disjI2 [OF zero_less_one], of mem slack "length (ractive rs)" "acapacity rs"] show ?thesis
    proof (elim disjE exE conjE)
      assume "grown_capacity mem slack (length (ractive rs)) (acapacity rs) 1 = Err Allocation"
      then show ?thesis using lim by (intro err [OF _ keep(3)]) (use I(1) in \<open>auto simp: roots_prepare_def\<close>)
    next
      fix c assume c: "grown_capacity mem slack (length (ractive rs)) (acapacity rs) 1 = Ok c" "acapacity rs \<le> usize_max \<longrightarrow> acapacity rs \<le> c \<and> c \<le> usize_max" "length (ractive rs) + 1 \<le> c"
      show ?thesis
      proof (cases "count = 0 \<or> mem count")
        case False
        then show ?thesis using lim c by (intro err [OF _ keep(1) [of c]]) (use I(1) in \<open>auto simp: roots_prepare_def Let_def\<close>)
      next
        case mc': True
        then have mc: "(0 < count \<and> \<not> mem count) = False" by blast
        show ?thesis
        proof (cases "prepare mem (rslots rs)")
          case (Panic m)
          then show ?thesis using prepare_no_panic [OF I(1)] by blast
        next
          case (Err e)
          let ?t = "prepare_failed mem (rslots rs)"
          have "same_entries (rslots rs) ?t" by (rule prepare_failed_ok [OF I(1)])
          then show ?thesis using lim c mc Err
            by (intro err [OF _ keep(2) [where c = c and t = ?t]])
              (auto simp: same_entries_def roots_prepare_def Let_def)
        next
          case (Ok ts)
          obtain t i where ti: "ts = (t, i)" by (cases ts)
          from prepare_ok [OF I(1), of mem t i] Ok ti
          have t: "table_inv t" "vacant i t" "\<And>j. table_get j t = table_get j (rslots rs)" "table_get i (rslots rs) = None" by auto
          show ?thesis
          proof (cases "serial rs < usize_max")
            case False
            then show ?thesis using lim c mc Ok ti
              by (intro err [OF _ keep(2) [where c = c and t = t]]) (use t in \<open>auto simp: roots_prepare_def Let_def checked_add_def\<close>)
          next
            case s: True
            let ?rs = "rs\<lparr>acapacity := c, rslots := t, serial := serial rs + 1\<rparr>" and ?port = "released rs"
            let ?n = "saturating_sub (credits ?port + 1) (length (notices ?port))"
            have run: "roots_prepare mem slack ptr count typ limit rs =
              (case checked_add (credits ?port) 1 of None \<Rightarrow> (Err (Limit ''release credits''), ?rs)
               | Some cap \<Rightarrow> (case grown_capacity mem slack (length (notices ?port)) (ncapacity ?port) (saturating_sub cap (length (notices ?port))) of
                   Err e \<Rightarrow> (Err e, ?rs) | Panic m \<Rightarrow> (Panic m, ?rs)
                 | Ok nc \<Rightarrow> (Ok \<lparr>prep_lease = \<lparr>lease_id = \<lparr>id_heap = rheap rs, id_slot = i, id_generation = serial rs + 1\<rparr>, lease_ptr = ptr\<rparr>,
                    prep_entry = \<lparr>active_index = length (ractive rs), elease = ptr, targets = replicate count None, typed = typ\<rparr>\<rparr>,
                    ?rs\<lparr>released := ?port\<lparr>ncapacity := nc\<rparr>, strong := (strong rs)(ptr := 1), armed := (armed rs)(ptr := False)\<rparr>)))"
              using lim c Ok ti s unfolding roots_prepare_def Let_def mc if_False
              by (simp add: checked_add_def mc split: outcome.splits)
            show ?thesis
            proof (cases "credits ?port < usize_max")
              case False
              then show ?thesis by (intro err [where c = c and t = t and g = "serial rs + 1" and rs' = ?rs]) (use run c t in \<open>auto simp: checked_add_def\<close>)
            next
              case True
              then have ca: "checked_add (credits ?port) 1 = Some (credits ?port + 1)" by (simp add: checked_add_def)
              from grown_capacity_cases [OF disjI1 [OF notices_le(2) [OF inv]], of mem slack ?n] show ?thesis
              proof (elim disjE exE conjE)
                assume "grown_capacity mem slack (length (notices ?port)) (ncapacity ?port) ?n = Err Allocation"
                then show ?thesis by (intro err [where c = c and t = t and g = "serial rs + 1" and rs' = ?rs]) (use run ca c t in auto)
              next
                fix nc assume nc: "grown_capacity mem slack (length (notices ?port)) (ncapacity ?port) ?n = Ok nc" "ncapacity ?port \<le> usize_max \<longrightarrow> ncapacity ?port \<le> nc \<and> nc \<le> usize_max"
                  "length (notices ?port) + ?n \<le> nc"
                let ?rs' = "?rs\<lparr>released := ?port\<lparr>ncapacity := nc\<rparr>, strong := (strong rs)(ptr := 1), armed := (armed rs)(ptr := False)\<rparr>"
                have reg: "registration ?rs' j = registration rs j" for j using t(3) by (simp add: registration_def)
                have "roots_inv ?rs'"
                  by (rule roots_inv_cong [OF inv(1)]) (use t reg P nc I(4) fresh inv(2) in \<open>auto simp: fresh_lease_def\<close>)
                moreover have "credits ?port < nc" using nc(3) notices_le(1) [OF inv] by (simp add: saturating_sub_def)
                ultimately show ?thesis
                  using run ca nc c lim inv(2) t fresh reg
                  by (intro disjI1 exI [of _ "\<lparr>prep_lease = \<lparr>lease_id = \<lparr>id_heap = rheap rs, id_slot = i, id_generation = serial rs + 1\<rparr>, lease_ptr = ptr\<rparr>,
                    prep_entry = \<lparr>active_index = length (ractive rs), elease = ptr, targets = replicate count None, typed = typ\<rparr>\<rparr>"] exI [of _ ?rs'])
                    (simp add: prepared_ok_def Let_def fresh_lease_def registration_def)
              qed
            qed
          qed
        qed
      qed
    qed
  qed
qed

lemma roots_commit_ok:
  assumes inv: "roots_inv rs" "connected (released rs)" and p: "prepared_ok p rs" and cap: "length (ractive rs) < acapacity rs"
  shows "\<exists>rs'. roots_commit p target rs = (Ok (prep_lease p), rs') \<and> roots_inv rs' \<and> connected (released rs') \<and> rheap rs' = rheap rs \<and>
    issued (prep_lease p) rs' \<and> ractive rs' = ractive rs @ [id_slot (lease_id (prep_lease p))] \<and> strong rs' = strong rs \<and> length (ractive rs') \<le> acapacity rs' \<and>
    notices (released rs') = notices (released rs) \<and>
    (\<forall>i. registration rs' i = (if i = id_slot (lease_id (prep_lease p)) then Some \<lparr>generation = id_generation (lease_id (prep_lease p)),
        entry = (prep_entry p)\<lparr>targets := first_target target (targets (prep_entry p))\<rparr>\<rparr> else registration rs i))"
proof -
  note I = roots_invD [OF inv(1)]
  note P = port_invD [OF I(7) inv(2)]
  let ?i = "id_slot (lease_id (prep_lease p))" and ?ptr = "lease_ptr (prep_lease p)"
  let ?e = "(prep_entry p)\<lparr>targets := first_target target (targets (prep_entry p))\<rparr>"
  let ?s = "\<lparr>generation = id_generation (lease_id (prep_lease p)), entry = ?e\<rparr>"
  have D: "id_heap (lease_id (prep_lease p)) = rheap rs" "vacant ?i (rslots rs)" "registration rs ?i = None" "id_generation (lease_id (prep_lease p)) = serial rs"
    "active_index (prep_entry p) = length (ractive rs)" "elease (prep_entry p) = ?ptr" "fresh_lease ?ptr rs" "0 < strong rs ?ptr"
    "credits (released rs) < ncapacity (released rs)"
    using p inv(2) by (simp_all add: prepared_ok_def Let_def)
  from insert_ok [OF I(1) D(2), of ?s] obtain t where t: "table_insert ?i ?s (rslots rs) = Ok t" "table_inv t"
    "\<And>j. table_get j t = (if j = ?i then Some ?s else table_get j (rslots rs))" by auto
  define rs' where "rs' = rs\<lparr>ractive := ractive rs @ [?i], rslots := t, rcount := rcount rs + 1,
    released := (released rs)\<lparr>credits := credits (released rs) + 1\<rparr>, armed := (armed rs)(?ptr := True)\<rparr>"
  have sel: "ractive rs' = ractive rs @ [?i]" "rslots rs' = t" "rcount rs' = rcount rs + 1" "released rs' = (released rs)\<lparr>credits := credits (released rs) + 1\<rparr>"
    "armed rs' = (armed rs)(?ptr := True)" "strong rs' = strong rs" "serial rs' = serial rs" "rheap rs' = rheap rs" "acapacity rs' = acapacity rs"
    by (simp_all add: rs'_def)
  have run: "roots_commit p target rs = (Ok (prep_lease p), rs')" using t(1) by (simp add: roots_commit_def Let_def rs'_def)
  have reg: "registration rs' j = (if j = ?i then Some ?s else registration rs j)" for j using t(3) by (simp add: registration_def sel)
  have ni: "?i \<notin> set (ractive rs)" using I(3) D(3) by simp
  have el: "elease (entry s) \<noteq> ?ptr" if "registration rs j = Some s" for j s using D(7) that by (simp add: fresh_lease_def)
  have "port_inv rs'" unfolding port_inv_def Let_def
  proof (intro impI conjI allI)
    fix n :: root_id
    have "(\<exists>s. registration rs' (id_slot n) = Some s \<and> generation s = id_generation n \<and> strong rs (elease (entry s)) = 0) \<longleftrightarrow>
        (\<exists>s. registration rs (id_slot n) = Some s \<and> generation s = id_generation n \<and> strong rs (elease (entry s)) = 0)"
      using D(3,6,8) by (auto simp: reg)
    then show "n \<in> set (notices (released rs')) \<longleftrightarrow> id_heap n = rheap rs' \<and>
        (\<exists>s. registration rs' (id_slot n) = Some s \<and> generation s = id_generation n \<and> strong rs' (elease (entry s)) = 0)"
      using P(4) [of n] by (simp add: sel)
  qed (use P D(9) sel in auto)
  moreover have "active_index (entry s) < length (ractive rs') \<and> ractive rs' ! active_index (entry s) = j \<and> generation s \<le> serial rs' \<and> armed rs' (elease (entry s))"
    if "registration rs' j = Some s" for j s
    using that I(4) [of j s] D(4-6) by (auto simp: reg sel nth_append split: if_splits)
  moreover have "j = k" if "registration rs' j = Some s" "registration rs' k = Some u" "elease (entry s) = elease (entry u)" for j k s u
  proof -
    have e: "elease (entry ?s) = ?ptr" using D(6) by simp
    have "s = ?s" if "j = ?i" using that \<open>registration rs' j = Some s\<close> by (simp add: reg)
    moreover have "u = ?s" if "k = ?i" using that \<open>registration rs' k = Some u\<close> by (simp add: reg)
    moreover have "registration rs j = Some s" if "j \<noteq> ?i" using that \<open>registration rs' j = Some s\<close> by (simp add: reg)
    moreover have "registration rs k = Some u" if "k \<noteq> ?i" using that \<open>registration rs' k = Some u\<close> by (simp add: reg)
    ultimately show ?thesis using el [of j s] el [of k u] I(5) [of j s k u] e that(3) by metis
  qed
  moreover have "j \<in> set (ractive rs') \<longleftrightarrow> registration rs' j \<noteq> None" for j using I(3) [of j] by (simp add: reg sel)
  ultimately have "roots_inv rs'" using t(2) I(2,6) ni sel(1-3) unfolding roots_inv_def by (auto simp del: not_None_eq)
  moreover have "issued (prep_lease p) rs'" using D(1,6) by (simp add: issued_def reg sel)
  ultimately show ?thesis using run reg inv(2) cap by (intro exI [of _ rs']) (simp add: sel)
qed

text \<open>The handles of a lease.\<close>

lemma lease_clone_inv:
  assumes "roots_inv rs" "0 < strong rs (lease_ptr l)"
  shows "roots_inv (lease_clone l rs)"
  by (rule roots_inv_cong [OF assms(1)])
    (use assms roots_invD [OF assms(1)] port_invD(2,5) in \<open>auto simp: lease_clone_def registration_def\<close>)

lemma lease_drop_ok:
  assumes inv: "roots_inv rs" "connected (released rs)" and l: "issued l rs" "0 < strong rs (lease_ptr l)"
  shows "\<exists>rs'. lease_drop l rs = (Ok (), rs') \<and> roots_inv rs' \<and> connected (released rs') \<and> (\<forall>i. registration rs' i = registration rs i) \<and>
    rheap rs' = rheap rs \<and> ractive rs' = ractive rs \<and> acapacity rs' = acapacity rs \<and>
    strong rs' = (strong rs)(lease_ptr l := strong rs (lease_ptr l) - 1) \<and>
    notices (released rs') = notices (released rs) @ (if strong rs (lease_ptr l) = 1 then [lease_id l] else [])"
proof -
  note I = roots_invD [OF inv(1)]
  note P = port_invD [OF I(7) inv(2)]
  from l(1) obtain s where s: "id_heap (lease_id l) = rheap rs" "registration rs (id_slot (lease_id l)) = Some s"
    "generation s = id_generation (lease_id l)" "elease (entry s) = lease_ptr l" by (auto simp: issued_def)
  show ?thesis
  proof (cases "strong rs (lease_ptr l) = 1")
    case False
    let ?rs = "rs\<lparr>strong := (strong rs)(lease_ptr l := strong rs (lease_ptr l) - 1)\<rparr>"
    have "lease_drop l rs = (Ok (), ?rs)" using False l(2) by (simp add: lease_drop_def Let_def)
    moreover have "roots_inv ?rs"
      by (rule roots_inv_cong [OF inv(1)]) (use False l(2) I P in \<open>auto simp: registration_def\<close>)
    ultimately show ?thesis using False inv(2) by (auto simp: registration_def)
  next
    case True
    let ?port = "released rs"
    let ?rs = "rs\<lparr>strong := (strong rs)(lease_ptr l := 0), released := ?port\<lparr>notices := notices ?port @ [lease_id l]\<rparr>\<rparr>"
    have new: "lease_id l \<notin> set (notices ?port)" using P(4) [of "lease_id l"] s True by simp
    have iff: "strong ?rs (elease (entry u)) = 0 \<longleftrightarrow> strong rs (elease (entry u)) = 0 \<or> j = id_slot (lease_id l)" if "registration rs j = Some u" for j u
      using I(5) [OF that s(2)] s(2,4) that by auto
    have "length (notices ?port) < ncapacity ?port"
    proof -
      have "id_slot (lease_id l) \<in> set (ractive rs)" using I(3) s(2) by simp
      moreover have "id_slot (lease_id l) \<notin> set (map id_slot (notices ?port))" using P(4) s(2,4) True by auto
      ultimately have "set (map id_slot (notices ?port)) \<subset> set (ractive rs)" using notice_slots(2) [OF inv] by blast
      from psubset_card_mono [OF _ this] show ?thesis
        using distinct_card [OF notice_slots(1) [OF inv]] distinct_card [OF I(2)] I(6) P(1,2) by simp
    qed
    then have run: "lease_drop l rs = (Ok (), ?rs)"
      using True I(4) [OF s(2)] s(4) inv(2) by (simp add: lease_drop_def lease_dropped_def Let_def)
    have "port_inv ?rs" unfolding port_inv_def Let_def
    proof (intro impI conjI allI)
      fix n
      have "id_heap n = rheap rs \<and> (\<exists>u. registration rs (id_slot n) = Some u \<and> generation u = id_generation n \<and> strong ?rs (elease (entry u)) = 0)
          \<longleftrightarrow> n \<in> set (notices ?port) \<or> n = lease_id l"
        using P(4) [of n] iff [of "id_slot n"] s by (auto intro!: root_id.equality)
      then show "n \<in> set (notices (released ?rs)) \<longleftrightarrow> id_heap n = rheap ?rs \<and>
          (\<exists>s. registration ?rs (id_slot n) = Some s \<and> generation s = id_generation n \<and> strong ?rs (elease (entry s)) = 0)"
        by (auto simp: registration_def)
    qed (use P new in auto)
    then have "roots_inv ?rs" using I by (simp add: roots_inv_def registration_def)
    then show ?thesis using run True inv(2) by (intro exI [of _ ?rs]) (simp add: registration_def)
  qed
qed

section \<open>Targets and release\<close>

text \<open>A registration that changes only in its targets or in its place keeps the invariant.\<close>

lemma roots_admit_iff:
  "roots_admit l rs = (if id_heap (lease_id l) \<noteq> rheap rs then Err ForeignHeap
     else if issued l rs then Ok (entry (the (registration rs (id_slot (lease_id l))))) else Err InvalidRoot)"
  by (auto simp: roots_admit_def issued_def registration_def split: option.splits)

lemma replace_with_ok:
  assumes inv: "roots_inv rs" and l: "roots_admit l rs = Ok e" "typed e = None" "n < length (targets e)" and pick: "pick rs w = (Ok target, w')"
  shows "\<exists>rs'. replace_with l n pick rs w = (Ok (), rs', w') \<and> roots_inv rs' \<and> released rs' = released rs \<and> strong rs' = strong rs \<and>
    serial rs' = serial rs \<and> rheap rs' = rheap rs \<and> ractive rs' = ractive rs \<and> acapacity rs' = acapacity rs \<and>
    (\<forall>i. registration rs' i = (if i = id_slot (lease_id l) then map_option (set_target n target) (registration rs i) else registration rs i))"
proof -
  note I = roots_invD [OF inv]
  define rs' where "rs' = rs\<lparr>rslots := table_update (id_slot (lease_id l)) (set_target n target) (rslots rs)\<rparr>"
  have sel: "released rs' = released rs" "strong rs' = strong rs" "serial rs' = serial rs" "rheap rs' = rheap rs" "ractive rs' = ractive rs"
    "rcount rs' = rcount rs" "acapacity rs' = acapacity rs" "armed rs' = armed rs" by (simp_all add: rs'_def)
  have reg: "registration rs' i = (if i = id_slot (lease_id l) then map_option (set_target n target) (registration rs i) else registration rs i)" for i
    using update_ok [OF I(1), of "id_slot (lease_id l)" "set_target n target"] by (simp add: registration_def rs'_def)
  have same: "\<exists>u. registration rs i = Some u \<and> generation s = generation u \<and> elease (entry s) = elease (entry u) \<and> active_index (entry s) = active_index (entry u)"
    if "registration rs' i = Some s" for i s using that by (auto simp: reg set_target_def split: if_splits)
  have some: "registration rs' i = None \<longleftrightarrow> registration rs i = None" for i by (simp add: reg)
  have rev: "(\<exists>s. registration rs' i = Some s \<and> generation s = g \<and> strong rs (elease (entry s)) = 0)
      \<longleftrightarrow> (\<exists>s. registration rs i = Some s \<and> generation s = g \<and> strong rs (elease (entry s)) = 0)" for i g
    by (cases "registration rs i") (auto simp: reg set_target_def)
  have "port_inv rs'" using I(7) by (simp add: port_inv_def sel rev)
  moreover have "table_inv (rslots rs')" using update_ok [OF I(1)] by (simp add: rs'_def)
  moreover have "i = j" if "registration rs' i = Some s" "registration rs' j = Some t" "elease (entry s) = elease (entry t)" for i j s t
    using same [OF that(1)] same [OF that(2)] that(3) I(5) by metis
  moreover have "active_index (entry s) < length (ractive rs') \<and> ractive rs' ! active_index (entry s) = i \<and> generation s \<le> serial rs' \<and> armed rs' (elease (entry s))"
    if "registration rs' i = Some s" for i s using same [OF that] I(4) by (auto simp: sel)
  ultimately have "roots_inv rs'" using I(2,3,6) some unfolding roots_inv_def by (simp add: sel)
  then show ?thesis using l pick reg by (intro exI [of _ rs']) (simp add: replace_with_def sel rs'_def)
qed

lemma swap_remove_nth:
  assumes "k < length xs" "m < length xs - 1"
  shows "swap_remove k xs ! m = (if m = k then last xs else xs ! m)"
  using assms by (simp add: swap_remove_def nth_butlast nth_list_update)

text \<open>Removing one place of the active list and correcting the back index of the entry moved there.\<close>

lemma drop_active_ok:
  assumes t: "table_inv (rslots rs)" and dist: "distinct (ractive rs)" and k: "k < length (ractive rs)" "ractive rs ! k = x"
    and reg: "\<And>i. registration rs i \<noteq> None \<longleftrightarrow> i \<in> set (ractive rs) \<and> i \<noteq> x"
    and idx: "\<And>i s. registration rs i = Some s \<Longrightarrow> active_index (entry s) < length (ractive rs) \<and> ractive rs ! active_index (entry s) = i"
  obtains rs' where "drop_active k rs = Ok rs'" "table_inv (rslots rs')" "distinct (ractive rs')" "length (ractive rs') = length (ractive rs) - 1"
    "set (ractive rs') = set (ractive rs) - {x}" "rcount rs' = rcount rs" "released rs' = released rs" "strong rs' = strong rs" "armed rs' = armed rs"
    "serial rs' = serial rs" "rheap rs' = rheap rs" "acapacity rs' = acapacity rs"
    "\<And>i. rel_option same_root (registration rs i) (registration rs' i)"
    "\<And>i s. registration rs' i = Some s \<Longrightarrow> active_index (entry s) < length (ractive rs') \<and> ractive rs' ! active_index (entry s) = i"
proof -
  let ?act = "swap_remove k (ractive rs)"
  note sw = swap_remove_spec [OF k(1)]
  have old: "active_index (entry s) < length ?act \<and> active_index (entry s) \<noteq> k \<or> active_index (entry s) = length (ractive rs) - 1 \<and> k < length ?act"
    if "registration rs i = Some s" for i s
  proof -
    have "i \<noteq> x" using that reg [of i] by simp
    then have "active_index (entry s) \<noteq> k" using idx [OF that] k by auto
    then show ?thesis using idx [OF that] k sw(1) by (cases "active_index (entry s) = length (ractive rs) - 1") auto
  qed
  show ?thesis
  proof (cases "k < length ?act")
    case False
    define rs' where "rs' = rs\<lparr>ractive := ?act\<rparr>"
    have "drop_active k rs = Ok rs'" using False k by (simp add: drop_active_def Let_def rs'_def)
    moreover have "registration rs' i = registration rs i" for i by (simp add: registration_def rs'_def)
    moreover have "ractive rs' ! active_index (entry s) = i \<and> active_index (entry s) < length (ractive rs')" if "registration rs i = Some s" for i s
      using old [OF that] idx [OF that] False swap_remove_nth [OF k(1), of "active_index (entry s)"] sw(1) by (auto simp: rs'_def)
    ultimately show ?thesis using t sw k dist
      by (intro that [of rs']) (auto simp: rs'_def same_root_def option.rel_refl)
  next
    case True
    let ?y = "last (ractive rs)"
    have y: "?act ! k = ?y" using True sw(1) swap_remove_nth [OF k(1)] by simp
    have nth_last: "ractive rs ! (length (ractive rs) - 1) = ?y" using k by (intro last_conv_nth [symmetric]) auto
    have yx: "?y \<noteq> x"
    proof
      assume "?y = x"
      then have "length (ractive rs) - 1 = k" using nth_last k nth_eq_iff_index_eq [OF dist, of "length (ractive rs) - 1" k] by simp
      then show False using True sw(1) by simp
    qed
    have "?y \<in> set (ractive rs)" using k by (intro last_in_set) auto
    then obtain z where z: "table_get ?y (rslots rs) = Some z" using reg [of ?y] yx by (auto simp: registration_def)
    define rs' where "rs' = rs\<lparr>ractive := ?act, rslots := table_update ?y (set_index k) (rslots rs)\<rparr>"
    have run: "drop_active k rs = Ok rs'" using True k z y by (simp add: drop_active_def Let_def rs'_def)
    have r: "registration rs' i = (if i = ?y then map_option (set_index k) (registration rs i) else registration rs i)" for i
      using update_ok [OF t, of ?y "set_index k"] by (simp add: registration_def rs'_def)
    have new: "active_index (entry s) < length ?act \<and> ?act ! active_index (entry s) = i" if "registration rs' i = Some s" for i s
    proof (cases "i = ?y")
      case i: True
      then show ?thesis using that r True y by (auto simp: set_index_def)
    next
      case False
      then have s: "registration rs i = Some s" using that r by simp
      have "active_index (entry s) \<noteq> length (ractive rs) - 1" using idx [OF s] nth_last False by auto
      then show ?thesis using old [OF s] idx [OF s] swap_remove_nth [OF k(1), of "active_index (entry s)"] sw(1) by auto
    qed
    have rel: "rel_option same_root (registration rs i) (registration rs' i)" for i
      by (cases "registration rs i") (auto simp: r same_root_def set_index_def)
    show ?thesis using run rel new sw dist k update_ok [OF t]
      by (intro that [of rs']) (auto simp: rs'_def)
  qed
qed

lemma release_one_ok:
  assumes inv: "roots_inv rs" "connected (released rs)" and n: "notices (released rs) = i # rest"
  shows "\<exists>s rs'. registration rs (id_slot i) = Some s \<and> generation s = id_generation i \<and> strong rs (elease (entry s)) = 0 \<and>
    release_one rs = (Ok (Some (entry s)), rs') \<and> roots_inv rs' \<and> notices (released rs') = rest \<and> connected (released rs') \<and>
    (\<forall>j. rel_option same_root (if j = id_slot i then None else registration rs j) (registration rs' j)) \<and>
    serial rs' = serial rs \<and> rheap rs' = rheap rs \<and> strong rs' = strong rs \<and> Suc (rcount rs') = rcount rs \<and>
    acapacity rs' = acapacity rs \<and> ncapacity (released rs') = ncapacity (released rs)"
proof -
  note I = roots_invD [OF inv(1)]
  note P = port_invD [OF I(7) inv(2)]
  have "i \<in> set (notices (released rs))" using n by simp
  then obtain s where s: "registration rs (id_slot i) = Some s" "generation s = id_generation i" "strong rs (elease (entry s)) = 0" "id_heap i = rheap rs"
    using P(4) by blast
  obtain t where t: "table_remove (id_slot i) (rslots rs) = Some (s, t)" "table_inv t"
    "\<And>j. table_get j t = (if j = id_slot i then None else table_get j (rslots rs))"
    using remove_ok [OF I(1), of "id_slot i"] s(1) by (auto simp: removed_def registration_def split: option.splits)
  define rs1 where "rs1 = rs\<lparr>released := (released rs)\<lparr>notices := rest\<rparr>, rslots := t\<rparr>"
  have sel1: "rslots rs1 = t" "ractive rs1 = ractive rs" "rcount rs1 = rcount rs" "released rs1 = (released rs)\<lparr>notices := rest\<rparr>" "strong rs1 = strong rs"
    "armed rs1 = armed rs" "serial rs1 = serial rs" "rheap rs1 = rheap rs" "acapacity rs1 = acapacity rs" by (simp_all add: rs1_def)
  have r1: "registration rs1 j = (if j = id_slot i then None else registration rs j)" for j using t(3) by (simp add: registration_def sel1)
  let ?k = "active_index (entry s)"
  have k: "?k < length (ractive rs1)" "ractive rs1 ! ?k = id_slot i" using I(4) [OF s(1)] by (simp_all add: sel1)
  have m1: "registration rs1 j \<noteq> None \<longleftrightarrow> j \<in> set (ractive rs1) \<and> j \<noteq> id_slot i" for j using I(3) [of j] by (simp add: r1 sel1)
  have i1: "active_index (entry u) < length (ractive rs1) \<and> ractive rs1 ! active_index (entry u) = j" if "registration rs1 j = Some u" for j u
    using that I(4) [of j u] by (simp add: r1 sel1 split: if_splits)
  obtain rs2 where d: "drop_active ?k rs1 = Ok rs2" "table_inv (rslots rs2)" "distinct (ractive rs2)" "length (ractive rs2) = length (ractive rs1) - 1"
    "set (ractive rs2) = set (ractive rs1) - {id_slot i}" "rcount rs2 = rcount rs1" "released rs2 = released rs1" "strong rs2 = strong rs1" "armed rs2 = armed rs1"
    "serial rs2 = serial rs1" "rheap rs2 = rheap rs1" "acapacity rs2 = acapacity rs1"
    "\<And>j. rel_option same_root (registration rs1 j) (registration rs2 j)"
    "\<And>j u. registration rs2 j = Some u \<Longrightarrow> active_index (entry u) < length (ractive rs2) \<and> ractive rs2 ! active_index (entry u) = j"
    by (rule drop_active_ok [of rs1 ?k "id_slot i"]) (use t(2) I(2) k m1 i1 in \<open>auto simp: sel1\<close>)
  define rs' where "rs' = rs2\<lparr>rcount := rcount rs2 - 1, released := (released rs2)\<lparr>credits := credits (released rs2) - 1\<rparr>\<rparr>"
  have sel: "rslots rs' = rslots rs2" "ractive rs' = ractive rs2" "rcount rs' = rcount rs - 1" "strong rs' = strong rs" "armed rs' = armed rs" "serial rs' = serial rs"
    "rheap rs' = rheap rs" "acapacity rs' = acapacity rs" "notices (released rs') = rest" "connected (released rs')" "credits (released rs') = credits (released rs) - 1"
    "ncapacity (released rs') = ncapacity (released rs)"
    using d(6-12) inv(2) by (simp_all add: rs'_def sel1)
  have r2: "registration rs' = registration rs2" by (simp add: fun_eq_iff registration_def sel)
  have rel: "rel_option same_root (if j = id_slot i then None else registration rs j) (registration rs' j)" for j using d(13) [of j] by (simp add: r1 r2)
  have pos: "0 < rcount rs" "0 < credits (released rs)" using k I(6) P(1) by (auto simp: sel1)
  have run: "release_one rs = (Ok (Some (entry s)), rs')"
    using n t(1) s pos d(1,6,7) by (simp add: release_one_def Let_def rs'_def sel1 rs1_def [symmetric])
  have prev: "\<exists>u. registration rs j = Some u \<and> j \<noteq> id_slot i \<and> same_root u v" if "registration rs' j = Some v" for j v
    using rel [of j] that by (auto simp: option_rel_Some2 split: if_splits)
  have slots: "id_slot m \<noteq> id_slot i" if "m \<in> set rest" for m
    using notice_slots(1) [OF inv] imageI [OF that, of id_slot] unfolding n by auto
  have "m \<in> set rest \<longleftrightarrow> id_heap m = rheap rs \<and> (\<exists>v. registration rs' (id_slot m) = Some v \<and> generation v = id_generation m \<and> strong rs (elease (entry v)) = 0)" for m
  proof
    assume m: "m \<in> set rest"
    then have "m \<in> set (notices (released rs))" using n by simp
    then obtain u where u: "registration rs (id_slot m) = Some u" "generation u = id_generation m" "strong rs (elease (entry u)) = 0" "id_heap m = rheap rs" using P(4) by blast
    then show "id_heap m = rheap rs \<and> (\<exists>v. registration rs' (id_slot m) = Some v \<and> generation v = id_generation m \<and> strong rs (elease (entry v)) = 0)"
      using rel [of "id_slot m"] slots [OF m] by (auto simp: option_rel_Some1 same_root_def)
  next
    assume "id_heap m = rheap rs \<and> (\<exists>v. registration rs' (id_slot m) = Some v \<and> generation v = id_generation m \<and> strong rs (elease (entry v)) = 0)"
    then obtain v where v: "id_heap m = rheap rs" "registration rs' (id_slot m) = Some v" "generation v = id_generation m" "strong rs (elease (entry v)) = 0" by blast
    from prev [OF v(2)] v have "m \<in> set (notices (released rs))" "m \<noteq> i" using P(4) [of m] by (auto simp: same_root_def)
    then show "m \<in> set rest" using n by simp
  qed
  then have "port_inv rs'" using P(1,2,3,5) n by (simp add: port_inv_def sel)
  moreover have "x = y" if "registration rs' x = Some a" "registration rs' y = Some b" "elease (entry a) = elease (entry b)" for x y a b
    using prev [OF that(1)] prev [OF that(2)] that(3) I(5) unfolding same_root_def by metis
  moreover have "generation a \<le> serial rs \<and> armed rs (elease (entry a))" if "registration rs' x = Some a" for x a
    using prev [OF that] I(4) unfolding same_root_def by metis
  moreover have "x \<in> set (ractive rs2) \<longleftrightarrow> registration rs' x \<noteq> None" for x
    using d(5) d(13) [of x] m1 [of x] by (auto simp: r2 option_rel_Some1 option_rel_Some2)
  ultimately have "roots_inv rs'" using d(2-4,14) I(6) pos unfolding roots_inv_def
    by (simp add: sel sel1 r2 del: not_None_eq)
  then show ?thesis using s run rel pos by (intro exI [of _ s] exI [of _ rs']) (simp add: sel)
qed

text \<open>Shrinking the tables and the queue keeps one credit for every registration.\<close>

lemma shrink_target_ge:
  assumes "shrink_target cap needed = Some target" "needed \<le> cap" "cap \<le> usize_max"
  shows "needed \<le> target"
  using assms by (auto simp: shrink_target_def saturating_mul_def Let_def split: if_splits)

lemma roots_trim_ok:
  assumes "roots_inv rs"
  shows "roots_inv (roots_trim rs)" "\<And>i. registration (roots_trim rs) i = registration rs i"
proof -
  note I = roots_invD [OF assms]
  show r: "\<And>i. registration (roots_trim rs) i = registration rs i"
    using trim_ok [OF I(1)] by (simp add: roots_trim_def registration_def Let_def)
  show "roots_inv (roots_trim rs)"
  proof (rule roots_inv_cong [OF assms _ r])
    assume c: "connected (released (roots_trim rs))"
    then have "connected (released rs)" by (simp add: roots_trim_def Let_def split: option.splits)
    moreover from this have "credits (released rs) \<le> ncapacity (released (roots_trim rs))"
      using port_invD(2,5) [OF I(7)] shrink_target_ge [of "ncapacity (released rs)" "credits (released rs)"]
      by (fastforce simp: roots_trim_def Let_def split: option.splits)
    ultimately show "connected (released rs) \<and> credits (released (roots_trim rs)) = credits (released rs) \<and>
        notices (released (roots_trim rs)) = notices (released rs) \<and> credits (released rs) \<le> ncapacity (released (roots_trim rs)) \<and>
        ncapacity (released (roots_trim rs)) \<le> usize_max"
      using port_invD(5) [OF I(7)] by (auto simp: roots_trim_def Let_def split: option.splits)
  qed (use trim_ok [OF I(1)] I(4) in \<open>auto simp: roots_trim_def Let_def\<close>)
qed

section \<open>The life of a registry\<close>


inductive_cases root_stepE: "root_step (rs, q) (rs', q')"

lemma root_state_init: "root_state_inv (roots_new h, None)"
  using roots_new_inv by (simp add: root_state_inv_def roots_new_def)

lemma replace_with_step:
  assumes "roots_inv rs" "replace_with l n pick rs w = (Ok (), rs', w')"
  shows "roots_inv rs' \<and> released rs' = released rs \<and> serial rs' = serial rs \<and> ractive rs' = ractive rs \<and> acapacity rs' = acapacity rs \<and>
    (\<forall>i. rel_option (\<lambda>s t. generation t = generation s) (registration rs i) (registration rs' i))"
proof -
  from assms(2) obtain e target where l: "roots_admit l rs = Ok e" "typed e = None" "n < length (targets e)" "pick rs w = (Ok target, w')"
    by (auto simp: replace_with_def split: outcome.splits if_splits prod.splits)
  have "rel_option (\<lambda>s t. generation t = generation s) x (map_option (set_target n target) x)" for x
    by (cases x) (auto simp: set_target_def)
  then show ?thesis using replace_with_ok [where pick = pick and w = w, OF assms(1) l] assms(2) by (auto simp: option.rel_refl)
qed

lemma prepared_ok_handles:
  assumes "prepared_ok p rs" "\<And>i. registration rs' i = registration rs i" "rslots rs' = rslots rs" "serial rs' = serial rs" "ractive rs' = ractive rs" "rheap rs' = rheap rs"
    "credits (released rs') = credits (released rs)" "ncapacity (released rs') = ncapacity (released rs)" "connected (released rs') = connected (released rs)"
    "0 < strong rs' (lease_ptr (prep_lease p))"
  shows "prepared_ok p rs'"
  using assms by (simp add: prepared_ok_def fresh_lease_def Let_def)

lemma lease_drop_frame:
  assumes "lease_drop l rs = (r, rs')"
  shows "rslots rs' = rslots rs \<and> serial rs' = serial rs \<and> rheap rs' = rheap rs \<and> ractive rs' = ractive rs \<and> acapacity rs' = acapacity rs \<and> armed rs' = armed rs \<and>
    credits (released rs') = credits (released rs) \<and> ncapacity (released rs') = ncapacity (released rs) \<and> connected (released rs') = connected (released rs)"
  using assms by (auto simp: lease_drop_def lease_dropped_def Let_def split: if_splits)

lemma issued_not_prepared:
  assumes "roots_inv rs" "prepared_ok p rs" "issued l rs"
  shows "lease_ptr l \<noteq> lease_ptr (prep_lease p)"
  using assms by (auto simp: issued_def prepared_ok_def fresh_lease_def Let_def)

lemma root_step_inv:
  assumes "root_step st st'" "root_state_inv st"
  shows "root_state_inv st'"
  using assms
proof (cases rule: root_step.cases)
  case (step_prepare mem slack ptr count ty limit rs p rs')
  then show ?thesis using assms(2) roots_prepare_ok [of rs ptr mem slack count ty limit]
    by (auto simp: root_state_inv_def)
next
  case (step_refuse mem slack ptr count ty limit rs e rs')
  then show ?thesis using assms(2) roots_prepare_ok [of rs ptr mem slack count ty limit]
    by (auto simp: root_state_inv_def)
next
  case (step_commit p target rs l rs')
  then show ?thesis using assms(2) roots_commit_ok [of rs p target] by (auto simp: root_state_inv_def)
next
  case (step_abandon p rs rs')
  then have p: "prepared_ok p rs" "roots_inv rs" "\<not> armed rs (lease_ptr (prep_lease p))" "strong rs (lease_ptr (prep_lease p)) = 1" using assms(2) by (auto simp: root_state_inv_def)
  have rs': "rs' = rs\<lparr>strong := (strong rs)(lease_ptr (prep_lease p) := 0)\<rparr>"
    using step_abandon p by (simp add: lease_drop_def lease_dropped_def Let_def)
  have "roots_inv rs'" unfolding rs'
    by (rule roots_inv_cong [OF p(2)])
      (use p roots_invD [OF p(2)] port_invD(2,5) in \<open>auto simp: registration_def prepared_ok_def fresh_lease_def Let_def\<close>)
  then show ?thesis using step_abandon assms(2) rs' by (simp add: root_state_inv_def)
next
  case (step_clone l rs q)
  have inv: "roots_inv rs" using step_clone assms(2) by (simp add: root_state_inv_def)
  have "prepared_ok p (lease_clone l rs) \<and> strong (lease_clone l rs) (lease_ptr (prep_lease p)) = strong rs (lease_ptr (prep_lease p))"
    if "prepared_ok p rs" for p
    using issued_not_prepared [OF inv that step_clone(3)] that by (auto simp: lease_clone_def prepared_ok_def registration_def fresh_lease_def Let_def)
  then show ?thesis using step_clone assms(2) lease_clone_inv [OF inv step_clone(4)] by (auto simp: root_state_inv_def lease_clone_def)
next
  case (step_drop l rs rs' q)
  have inv: "roots_inv rs" "connected (released rs)" using step_drop assms(2) by (simp_all add: root_state_inv_def)
  from lease_drop_ok [OF inv step_drop(3,4)] step_drop(5) have d: "roots_inv rs'" "strong rs' = (strong rs)(lease_ptr l := strong rs (lease_ptr l) - 1)" by auto
  note f = lease_drop_frame [OF step_drop(5)]
  have "prepared_ok p rs' \<and> strong rs' (lease_ptr (prep_lease p)) = strong rs (lease_ptr (prep_lease p))"
    if "prepared_ok p rs" for p
    using issued_not_prepared [OF inv(1) that step_drop(3)] that f d(2) by (auto simp: prepared_ok_def registration_def fresh_lease_def Let_def)
  then show ?thesis using step_drop assms(2) d f by (auto simp: root_state_inv_def)
next
  case (step_replace l n pick rs rs')
  then show ?thesis using assms(2) replace_with_step [of rs l n pick "()" rs' "()"] by (auto simp: root_state_inv_def)
next
  case (step_release rs r rs')
  have inv: "roots_inv rs" "connected (released rs)" using step_release assms(2) by (simp_all add: root_state_inv_def)
  show ?thesis
  proof (cases "notices (released rs)")
    case Nil
    then show ?thesis using step_release assms(2) by (simp add: release_one_def)
  next
    case (Cons i rest)
    from release_one_ok [OF inv Cons] step_release(3) have "roots_inv rs'" "connected (released rs')" "Suc (rcount rs') = rcount rs" "acapacity rs' = acapacity rs" by auto
    then show ?thesis using step_release assms(2) roots_invD(6) [OF inv(1)] roots_invD(6) [of rs'] by (simp add: root_state_inv_def)
  qed
next
  case (step_trim rs)
  have "connected (released rs) \<Longrightarrow> connected (released (roots_trim rs))" by (simp add: roots_trim_def Let_def split: option.splits)
  moreover have "length (ractive rs) \<le> acapacity rs \<Longrightarrow> length (ractive (roots_trim rs)) \<le> acapacity (roots_trim rs)"
    by (auto simp: roots_trim_def shrink_vec_def Let_def split: option.splits)
  ultimately show ?thesis using step_trim assms(2) roots_trim_ok(1) [of rs] by (simp add: root_state_inv_def)
qed

lemma root_reachable_inv: "root_step\<^sup>*\<^sup>* (roots_new h, None) st \<Longrightarrow> root_state_inv st"
  by (induction rule: rtranclp_induct) (auto intro: root_state_init root_step_inv)

text \<open>A slot of the registry is given a new generation each time it is used again.\<close>

lemma root_step_expired:
  assumes step: "root_step st st'" and inv: "root_state_inv st" and ex: "expired l st"
  shows "expired l st'"
  using step
proof (cases rule: root_step.cases)
  case (step_prepare mem slack ptr count ty limit rs p rs')
  then show ?thesis using inv ex roots_prepare_ok [of rs ptr mem slack count ty limit]
    by (auto simp: root_state_inv_def expired_def prepared_ok_def Let_def)
next
  case (step_refuse mem slack ptr count ty limit rs e rs')
  have "serial rs \<le> serial rs'" using step_refuse(3)
    by (auto simp: roots_prepare_def Let_def checked_add_def split: outcome.splits if_splits option.splits)
  then show ?thesis using step_refuse inv ex roots_prepare_ok [of rs ptr mem slack count ty limit]
    by (auto simp: root_state_inv_def expired_def)
next
  case (step_commit p target rs l' rs')
  then have "serial rs' = serial rs" by (auto simp: roots_commit_def Let_def split: outcome.splits)
  then show ?thesis using step_commit inv ex roots_commit_ok [of rs p target] by (auto simp: root_state_inv_def expired_def)
next
  case (step_abandon p rs rs')
  then show ?thesis using ex lease_drop_frame [OF step_abandon(3)] by (auto simp: expired_def registration_def)
next
  case (step_clone l' rs q)
  then show ?thesis using ex by (auto simp: expired_def registration_def lease_clone_def)
next
  case (step_drop l' rs rs' q)
  then show ?thesis using ex lease_drop_frame [OF step_drop(5)] by (auto simp: expired_def registration_def)
next
  case (step_replace l' n pick rs rs')
  then have r: "serial rs' = serial rs" "rel_option (\<lambda>s t. generation t = generation s) (registration rs i) (registration rs' i)" for i
    using inv replace_with_step [of rs l' n pick "()" rs' "()"] by (auto simp: root_state_inv_def)
  show ?thesis using step_replace(1,2) ex r(1) r(2) [of "id_slot (lease_id l)"] by (auto simp: expired_def option_rel_Some2)
next
  case (step_release rs x rs')
  have I: "roots_inv rs" "connected (released rs)" using step_release inv by (simp_all add: root_state_inv_def)
  show ?thesis
  proof (cases "notices (released rs)")
    case Nil
    then show ?thesis using step_release ex by (simp add: release_one_def)
  next
    case (Cons i rest)
    from release_one_ok [OF I Cons] obtain e rs2 where "release_one rs = (Ok e, rs2)" "serial rs2 = serial rs"
      "\<forall>j. rel_option same_root (if j = id_slot i then None else registration rs j) (registration rs2 j)" by blast
    then have "serial rs' = serial rs" "rel_option same_root (if id_slot (lease_id l) = id_slot i then None else registration rs (id_slot (lease_id l)))
        (registration rs' (id_slot (lease_id l)))" using step_release(3) by simp_all
    then show ?thesis using step_release(1,2) ex by (auto simp: expired_def option_rel_Some2 same_root_def split: if_splits)
  qed
next
  case (step_trim rs)
  then show ?thesis using ex inv roots_trim_ok(2) [of rs] by (auto simp: expired_def root_state_inv_def roots_trim_def Let_def)
qed

lemma root_reachable_expired:
  assumes "root_step\<^sup>*\<^sup>* st st'" "root_state_inv st" "expired l st"
  shows "expired l st'"
proof -
  from assms(1) have "root_state_inv st' \<and> expired l st'"
    by (induction rule: rtranclp_induct) (use assms root_step_inv root_step_expired in blast)+
  then show ?thesis by simp
qed

lemma release_times_ok:
  assumes "roots_inv rs" "connected (released rs)" "length (notices (released rs)) \<le> n"
  shows "\<exists>rs'. release_times n rs = (Ok (), rs') \<and> roots_inv rs' \<and> notices (released rs') = [] \<and> (\<forall>i. held rs' i = held rs i) \<and>
    (\<forall>i. registration rs' i \<noteq> None \<longrightarrow> held rs i)"
  using assms
proof (induction n arbitrary: rs)
  case 0
  then have "registration rs i \<noteq> None \<longrightarrow> held rs i" for i
    using port_invD(4) [OF roots_invD(7) [OF 0(1)] 0(2), of "\<lparr>id_heap = rheap rs, id_slot = i, id_generation = generation (the (registration rs i))\<rparr>"]
    by (auto simp: held_def)
  then show ?case using 0 by auto
next
  case (Suc n)
  show ?case
  proof (cases "notices (released rs)")
    case Nil
    then have "registration rs i \<noteq> None \<longrightarrow> held rs i" for i
      using port_invD(4) [OF roots_invD(7) [OF Suc(2)] Suc(3), of "\<lparr>id_heap = rheap rs, id_slot = i, id_generation = generation (the (registration rs i))\<rparr>"]
      by (auto simp: held_def)
    then show ?thesis using Nil Suc by (simp add: release_one_def)
  next
    case (Cons i rest)
    from release_one_ok [OF Suc(2,3) Cons] obtain s rs1 where s: "registration rs (id_slot i) = Some s" "strong rs (elease (entry s)) = 0"
      "release_one rs = (Ok (Some (entry s)), rs1)" "roots_inv rs1" "notices (released rs1) = rest" "connected (released rs1)" "strong rs1 = strong rs"
      "\<forall>j. rel_option same_root (if j = id_slot i then None else registration rs j) (registration rs1 j)" by blast
    have h: "held rs1 j = held rs j" for j
      using s(8) [rule_format, of j] s(1,2,7) by (cases "j = id_slot i") (auto simp: held_def same_root_def option_rel_Some1 option_rel_Some2)
    have "length (notices (released rs1)) \<le> n" using Suc(4) Cons s(5) by simp
    from Suc.IH [OF s(4,6) this] show ?thesis using s(3) h by simp
  qed
qed

section \<open>Properties\<close>

text \<open>(C23) Registration: in every reachable state of the registry, preparing a root pack and committing it
  gives a lease that the registry admits, with the requested number of empty targets, the first
  of them set, and leaves all other registrations as they were; when preparing fails no
  registration changes.\<close>

theorem root_registration:
  assumes "root_step\<^sup>*\<^sup>* (roots_new h, None) (rs, None)" "fresh_lease ptr rs"
  shows "case roots_prepare mem slack ptr count ty limit rs of
      (Ok p, rs1) \<Rightarrow> rcount rs < limit \<and> (\<exists>rs2. roots_commit p target rs1 = (Ok (prep_lease p), rs2) \<and>
        (\<exists>e. roots_admit (prep_lease p) rs2 = Ok e \<and> targets e = first_target target (replicate count None) \<and> typed e = ty) \<and>
        (\<forall>i. i \<noteq> id_slot (lease_id (prep_lease p)) \<longrightarrow> registration rs2 i = registration rs i))
    | (Err _, rs1) \<Rightarrow> \<forall>i. registration rs1 i = registration rs i
    | (Panic _, rs1) \<Rightarrow> False"
proof -
  have inv: "roots_inv rs" "connected (released rs)" "length (ractive rs) \<le> acapacity rs"
    using root_reachable_inv [OF assms(1)] by (simp_all add: root_state_inv_def)
  from roots_prepare_ok [OF inv(1,2) assms(2), of mem slack count ty limit] show ?thesis
  proof (elim disjE exE conjE)
    fix p rs1
    assume p: "roots_prepare mem slack ptr count ty limit rs = (Ok p, rs1)" "roots_inv rs1" "prepared_ok p rs1"
      "\<forall>i. registration rs1 i = registration rs i" "connected (released rs1)" "length (ractive rs1) < acapacity rs1"
      "targets (prep_entry p) = replicate count None" "typed (prep_entry p) = ty" "rcount rs < limit"
    from roots_commit_ok [OF p(2,5,3,6), of target] obtain rs2 where c: "roots_commit p target rs1 = (Ok (prep_lease p), rs2)"
      "issued (prep_lease p) rs2" "rheap rs2 = rheap rs1"
      "\<forall>i. registration rs2 i = (if i = id_slot (lease_id (prep_lease p)) then Some \<lparr>generation = id_generation (lease_id (prep_lease p)),
        entry = (prep_entry p)\<lparr>targets := first_target target (targets (prep_entry p))\<rparr>\<rparr> else registration rs1 i)" by blast
    have "id_heap (lease_id (prep_lease p)) = rheap rs2" using c(2) by (simp add: issued_def)
    then show ?thesis using p c by (simp add: roots_admit_iff)
  qed auto
qed

text \<open>(C22) Dropping a handle of a live registration never exceeds the reserved queue: the drop queues one
  notice when it was the last handle and none otherwise, and the registration stays until the
  notice is served.\<close>

theorem root_drop_within_credit:
  assumes "root_step\<^sup>*\<^sup>* (roots_new h, None) (rs, q)" "issued l rs" "0 < strong rs (lease_ptr l)"
  shows "\<exists>rs'. lease_drop l rs = (Ok (), rs') \<and> length (notices (released rs')) \<le> ncapacity (released rs') \<and>
    notices (released rs') = notices (released rs) @ (if strong rs (lease_ptr l) = 1 then [lease_id l] else []) \<and>
    (\<forall>i. registration rs' i = registration rs i)"
proof -
  have inv: "roots_inv rs" "connected (released rs)" using root_reachable_inv [OF assms(1)] by (simp_all add: root_state_inv_def)
  from lease_drop_ok [OF this assms(2,3)] show ?thesis using notices_le(2) by blast
qed

text \<open>(C21) Releasing: the registration of the oldest notice is removed, its lease has no handle left, and
  every other registration keeps its generation, lease, targets and type.\<close>

theorem root_release_exact:
  assumes "root_step\<^sup>*\<^sup>* (roots_new h, None) (rs, None)" "notices (released rs) = i # rest"
  shows "\<exists>s rs'. registration rs (id_slot i) = Some s \<and> generation s = id_generation i \<and> strong rs (elease (entry s)) = 0 \<and>
    release_one rs = (Ok (Some (entry s)), rs') \<and> roots_inv rs' \<and> notices (released rs') = rest \<and>
    (\<forall>j. rel_option same_root (if j = id_slot i then None else registration rs j) (registration rs' j))"
proof -
  have inv: "roots_inv rs" "connected (released rs)" using root_reachable_inv [OF assms(1)] by (simp_all add: root_state_inv_def)
  from release_one_ok [OF this assms(2)] show ?thesis by blast
qed

text \<open>(C20) Generations are never reused: once the registration of a lease has been released, every later
  access through that lease is refused, also when its slot is in use again.\<close>

theorem root_lease_expires:
  assumes "root_step\<^sup>*\<^sup>* (roots_new h, None) (rs, None)" "notices (released rs) = lease_id l # rest"
    "release_one rs = (Ok (Some e), rs')" "root_step\<^sup>*\<^sup>* (rs', None) (rs2, q)"
  shows "roots_admit l rs2 = Err (if id_heap (lease_id l) = rheap rs2 then InvalidRoot else ForeignHeap)"
proof -
  have si: "root_state_inv (rs, None)" using root_reachable_inv [OF assms(1)] .
  then have inv: "roots_inv rs" "connected (released rs)" by (simp_all add: root_state_inv_def)
  from release_one_ok [OF inv assms(2)] obtain s rs1 where s: "registration rs (id_slot (lease_id l)) = Some s" "generation s = id_generation (lease_id l)"
    "release_one rs = (Ok (Some (entry s)), rs1)" "serial rs1 = serial rs"
    "\<forall>j. rel_option same_root (if j = id_slot (lease_id l) then None else registration rs j) (registration rs1 j)" by blast
  then have r: "serial rs' = serial rs" "rel_option same_root None (registration rs' (id_slot (lease_id l)))"
    using assms(3) s(5) [rule_format, of "id_slot (lease_id l)"] by auto
  have "expired l (rs', None)" using r s(1,2) roots_invD(4) [OF inv(1) s(1)] by (auto simp: expired_def)
  moreover have "root_state_inv (rs', None)" using step_release [OF assms(3)] si by (rule root_step_inv)
  ultimately have "expired l (rs2, q)" using assms(4) by (blast intro: root_reachable_expired)
  then show ?thesis by (auto simp: roots_admit_iff expired_def issued_def)
qed

text \<open>(C24) Progress: serving as many notices as are queued empties the queue and leaves exactly the
  registrations that still have a handle.\<close>

theorem root_releases_drain:
  assumes "root_step\<^sup>*\<^sup>* (roots_new h, None) (rs, None)"
  shows "\<exists>rs'. release_times (pending_releases rs) rs = (Ok (), rs') \<and> pending_releases rs' = 0 \<and>
    (\<forall>i. registration rs' i \<noteq> None \<longleftrightarrow> held rs i)"
proof -
  have inv: "roots_inv rs" "connected (released rs)" using root_reachable_inv [OF assms(1)] by (simp_all add: root_state_inv_def)
  from release_times_ok [OF this, of "pending_releases rs"] obtain rs' where "release_times (pending_releases rs) rs = (Ok (), rs')"
    "notices (released rs') = []" "\<And>i. held rs' i = held rs i" "\<And>i. registration rs' i \<noteq> None \<longrightarrow> held rs i" by (auto simp: pending_releases_def)
  then show ?thesis by (intro exI [of _ rs']) (auto simp: pending_releases_def held_def)
qed

subsection \<open>Witnesses\<close>

lemma sample_root_fresh: "fresh_lease 7 (roots_new 1)"
  by (simp add: fresh_lease_def roots_new_def registration_def)

lemma sample_root_tables:
  "prepare (\<lambda>_. True) (table_default :: root_slot table) = Ok (sample_root_table, 0)"
  "table_insert 0 sample_root_slot sample_root_table = Ok sample_root_table2"
  "table_get 0 sample_root_table2 = Some sample_root_slot"
  by code_simp+

lemma sample_root_prepare:
  "roots_prepare (\<lambda>_. True) 0 7 2 None 8 (roots_new 1) = (Ok sample_root_prepared, sample_roots1)"
proof -
  have two: "replicate 2 (None :: nat option) = [None, None]" by (simp add: numeral_2_eq_2)
  show ?thesis by (simp add: roots_prepare_def roots_new_def grown_capacity_def sample_root_tables checked_add_def usize_max_def saturating_sub_def
      sample_roots1_def sample_root_prepared_def sample_root_lease_def two)
qed

lemma sample_root_commit:
  "roots_commit sample_root_prepared (Some 64) sample_roots1 = (Ok sample_root_lease, sample_roots2)"
proof -
  have "\<lparr>generation = 1, entry = (prep_entry sample_root_prepared)\<lparr>targets := first_target (Some 64) (targets (prep_entry sample_root_prepared))\<rparr>\<rparr> = sample_root_slot"
    by (simp add: sample_root_slot_def sample_root_prepared_def first_target_def)
  then show ?thesis using sample_root_tables(2)
    by (simp add: roots_commit_def Let_def sample_roots1_def sample_roots2_def sample_root_prepared_def sample_root_lease_def fun_eq_iff)
qed

lemma sample_root_drop: "lease_drop sample_root_lease sample_roots2 = (Ok (), sample_roots3)"
  by (simp add: lease_drop_def lease_dropped_def sample_roots2_def sample_roots3_def sample_root_lease_def Let_def fun_eq_iff)

lemma sample_roots2_issued: "issued sample_root_lease sample_roots2" "strong sample_roots2 (lease_ptr sample_root_lease) = 1"
  using sample_root_tables(3) by (simp_all add: issued_def registration_def sample_roots2_def sample_root_lease_def sample_root_slot_def)

lemma sample_roots2_reachable: "root_step\<^sup>*\<^sup>* (roots_new 1, None) (sample_roots2, None)"
  using step_prepare [OF sample_root_prepare sample_root_fresh] step_commit [OF sample_root_commit]
  by (meson converse_rtranclp_into_rtranclp rtranclp.rtrancl_refl)

lemma sample_roots3_reachable: "root_step\<^sup>*\<^sup>* (roots_new 1, None) (sample_roots3, None)"
  using sample_roots2_reachable step_drop [OF sample_roots2_issued(1) _ sample_root_drop] sample_roots2_issued(2)
  by (simp add: rtranclp.rtrancl_into_rtrancl)

lemma sample_roots3_notices: "notices (released sample_roots3) = [lease_id sample_root_lease]"
  by (simp add: sample_roots3_def)

theorem root_registration_witness:
  "\<exists>rs2. roots_commit sample_root_prepared (Some 64) sample_roots1 = (Ok sample_root_lease, rs2) \<and>
     (\<exists>e. roots_admit sample_root_lease rs2 = Ok e \<and> targets e = [Some 64, None])"
proof -
  have "prep_lease sample_root_prepared = sample_root_lease" by (simp add: sample_root_prepared_def)
  then show ?thesis
    using root_registration [OF rtranclp.rtrancl_refl sample_root_fresh, where mem = "\<lambda>_. True" and slack = 0 and count = 2 and ty = None and limit = 8 and target = "Some 64"]
    unfolding sample_root_prepare by (auto simp: first_target_def numeral_2_eq_2)
qed

theorem root_drop_within_credit_witness:
  "\<exists>rs'. lease_drop sample_root_lease sample_roots2 = (Ok (), rs') \<and> notices (released rs') = [lease_id sample_root_lease]"
proof -
  have "notices (released sample_roots2) = []" by (simp add: sample_roots2_def)
  then show ?thesis using root_drop_within_credit [OF sample_roots2_reachable sample_roots2_issued(1)] sample_roots2_issued(2) by auto
qed

theorem root_release_exact_witness:
  "\<exists>e rs'. release_one sample_roots3 = (Ok (Some e), rs') \<and> notices (released rs') = []"
  using root_release_exact [OF sample_roots3_reachable sample_roots3_notices] by blast

theorem root_lease_expires_witness:
  "roots_admit sample_root_lease sample_roots4 = Err InvalidRoot"
proof -
  obtain e where run: "release_one sample_roots3 = (Ok (Some e), sample_roots4)" and heap: "rheap sample_roots4 = rheap sample_roots3"
    using release_one_ok [of sample_roots3] root_reachable_inv [OF sample_roots3_reachable] sample_roots3_notices
    by (fastforce simp: root_state_inv_def sample_roots4_def)
  from root_lease_expires [OF sample_roots3_reachable sample_roots3_notices run rtranclp.rtrancl_refl]
  have "roots_admit sample_root_lease sample_roots4 = Err (if id_heap (lease_id sample_root_lease) = rheap sample_roots4 then InvalidRoot else ForeignHeap)" .
  moreover have "id_heap (lease_id sample_root_lease) = rheap sample_roots4" using heap by (simp add: sample_root_lease_def sample_roots3_def)
  ultimately show ?thesis by simp
qed

theorem root_releases_drain_witness:
  "\<exists>rs'. release_times 1 sample_roots3 = (Ok (), rs') \<and> pending_releases rs' = 0"
  using root_releases_drain [OF sample_roots3_reachable] sample_roots3_notices by (auto simp: pending_releases_def)

end
