(* ===== verification/Gc_Retirement.thy ===== *)
theory Gc_Retirement
  imports Gc_Scanning Gc_Roots
begin

text \<open>
  Retirement (\<^verbatim>\<open>crates/kagari-gc/src/sweep.rs\<close>): a bounded batch of detached owners, destroyed
  outside the storage loans and then given back.

  Detaching an object makes its slot unavailable and keeps its header, its block and its
  descriptor (the pins); finishing the batch runs the destructors, returns the descriptor's use
  credit and releases the slot, which may remove the page. \<open>uses_ok B h\<close> says that the use
  counts of the registry are the numbers of allocated objects of each descriptor, plus those of
  the batch, whose descriptor identities are \<open>B\<close>. \<open>swept\<close> is the invariant of the sweep: what
  lies before the cursor in the list of pages holds no unmarked object.
\<close>

section \<open>Definitions\<close>

subsection \<open>Batches\<close>

definition RETIREMENT_CAP :: nat where
  "RETIREMENT_CAP = 32"

record pin =
  pin_descriptor :: descriptor
  pin_backing :: backing
  pin_page :: nat

record retired =
  ret_reservation :: reservation
  ret_descriptor :: descriptor
  ret_initialized :: bool

datatype owner = Object retired | Pack root_entry

record batch =
  owners :: "owner list"
  pins :: "pin list"

definition batch_new :: batch where
  "batch_new = \<lparr>owners = [], pins = []\<rparr>"

definition batch_len :: "batch \<Rightarrow> nat" where
  "batch_len b = length (owners b)"

definition push_root :: "root_entry \<Rightarrow> batch \<Rightarrow> batch gc_result" where
  "push_root root b =
     assert_then (batch_len b < RETIREMENT_CAP) ''batch capacity'' (Ok (b\<lparr>owners := owners b @ [Pack root]\<rparr>))"

text \<open>Adjacent objects of the same page and descriptor share one pair of pins.\<close>

definition add_pin :: "nat \<Rightarrow> descriptor \<Rightarrow> backing \<Rightarrow> pin list \<Rightarrow> pin list" where
  "add_pin i d back ps =
     (if ps \<noteq> [] \<and> pin_page (last ps) = i \<and> pin_descriptor (last ps) = d then ps
      else ps @ [\<lparr>pin_descriptor = d, pin_backing = back, pin_page = i\<rparr>])"

text \<open>The objects of the heap, by the address of their header.\<close>

type_synonym 'o objects = "nat \<Rightarrow> 'o payload option"

definition retirement_charge :: "('o, 's) provider \<Rightarrow> descriptor \<Rightarrow> 'o payload option \<Rightarrow> nat option \<Rightarrow> nat gc_result" where
  "retirement_charge P d x available_bytes =
     (case available_bytes of
        None \<Rightarrow> Ok 0
      | Some bytes \<Rightarrow>
          and_then (expect ''initialized object'' x) (\<lambda>x. and_then (descriptor_charge P d x)
            (\<lambda>charge. if charge > bytes then Err (Storage ''retirement charge exceeds ledger'') else Ok charge)))"

definition take_object :: "nat \<Rightarrow> nat \<Rightarrow> unit action" where
  "take_object i slot =
     act_then (page_mut i (page_detach slot))
       (\<lambda>_ h. if objects h = 0 then (Panic ''attempt to subtract with overflow'', h)
              else (Ok (), h\<lparr>objects := objects h - 1\<rparr>))"

definition batch_detach ::
    "('o, 's) provider \<Rightarrow> 'o objects \<Rightarrow> nat \<Rightarrow> nat \<Rightarrow> nat option \<Rightarrow> batch \<Rightarrow> (nat \<times> batch) action" where
  "batch_detach P os i slot available_bytes b =
     act_then (lift (assert_then (batch_len b < RETIREMENT_CAP) ''batch capacity'' (Ok ())))
       (\<lambda>_. act_then (gets (object_at i slot))
          (\<lambda>ob. act_then (gets (\<lambda>h. and_then (heap_page i h) (\<lambda>p. and_then (page_pointer p slot) (\<lambda>a. Ok (p, a)))))
             (\<lambda>(p, a). act_then (lift (retirement_charge P (odescriptor ob) (os a) available_bytes))
                (\<lambda>charge. act_then (take_object i slot)
                   (\<lambda>_. lift (Ok (charge,
                       \<lparr>owners = owners b @ [Object \<lparr>ret_reservation = \<lparr>rreference = a, rpage = i, rslot = slot\<rparr>,
                                             ret_descriptor = odescriptor ob, ret_initialized = True\<rparr>],
                        pins = add_pin i (odescriptor ob) (page_backing p) (pins b)\<rparr>)))))))"

text \<open>\<^verbatim>\<open>Retired::dispose\<close>: run the destructor once; the result says whether it panicked.\<close>

definition dispose :: "('o, 's) provider \<Rightarrow> 'o objects \<Rightarrow> retired \<Rightarrow> bool" where
  "dispose P os r =
     (if \<not> ret_initialized r then False
      else case os (rreference (ret_reservation r)) of
        None \<Rightarrow> False
      | Some x \<Rightarrow> descriptor_destroy P (ret_descriptor r) x \<noteq> Ok ())"

definition release_use :: "nat \<Rightarrow> unit action" where
  "release_use d h =
     (case descriptors_release d (descriptors_of h) of
        Ok ds \<Rightarrow> (Ok (), h\<lparr>descriptors_of := ds\<rparr>) | Err e \<Rightarrow> (Err e, h) | Panic m \<Rightarrow> (Panic m, h))"

text \<open>
  The drop of the remaining owners of a batch, on an early error: each object is destroyed, its slot
  stays unavailable.
\<close>

definition discard_owners :: "owner list \<Rightarrow> 'o objects \<Rightarrow> 'o objects" where
  "discard_owners ws os a =
     (if \<exists>w \<in> set ws. (case w of Object r \<Rightarrow> rreference (ret_reservation r) = a | Pack _ \<Rightarrow> False) then None else os a)"

text \<open>
  \<^verbatim>\<open>finish\<close>: the number of destructors that panicked, with the objects that are gone. When
  releasing fails, the remaining owners are still destroyed.
\<close>

fun finish_owners :: "('o, 's) provider \<Rightarrow> owner list \<Rightarrow> nat \<Rightarrow> 'o objects \<Rightarrow> physical_heap \<Rightarrow> nat gc_result \<times> 'o objects \<times> physical_heap" where
  "finish_owners P [] panics os h = (Ok panics, os, h)"
| "finish_owners P (Pack root # rest) panics os h = finish_owners P rest panics os h"
| "finish_owners P (Object r # rest) panics os h =
     (let panics = panics + (if dispose P os r then 1 else 0);
          gone = os(rreference (ret_reservation r) := None)
      in case act_then (release_use (desc_id (ret_descriptor r)))
           (\<lambda>_. release_slot (rpage (ret_reservation r)) (rslot (ret_reservation r))) h of
           (Ok _, h) \<Rightarrow> finish_owners P rest panics gone h
         | (Err e, h) \<Rightarrow> (Err e, discard_owners rest gone, h)
         | (Panic m, h) \<Rightarrow> (Panic m, discard_owners rest gone, h))"

subsection \<open>Reference definitions\<close>

definition header_descriptor :: "physical_heap \<Rightarrow> nat \<Rightarrow> nat option" where
  "header_descriptor h a = map_option hdescriptor (memory h a)"

definition users :: "physical_heap \<Rightarrow> nat \<Rightarrow> nat set" where
  "users h d = {a \<in> live_set h. header_descriptor h a = Some d}"

definition uses_ok :: "nat list \<Rightarrow> physical_heap \<Rightarrow> bool" where
  "uses_ok B h \<longleftrightarrow> (\<forall>d e. registered d (descriptors_of h) = Some e \<longrightarrow> uses e = card (users h d) + count_list B d) \<and>
     (\<forall>d \<in> set B. registered d (descriptors_of h) \<noteq> None)"

definition retired_ids :: "owner list \<Rightarrow> nat list" where
  "retired_ids os = concat (map (\<lambda>w. case w of Object r \<Rightarrow> [desc_id (ret_descriptor r)] | Pack _ \<Rightarrow> []) os)"

definition retired_slots :: "owner list \<Rightarrow> (nat \<times> nat) list" where
  "retired_slots os = concat (map (\<lambda>w. case w of Object r \<Rightarrow> [(rpage (ret_reservation r), rslot (ret_reservation r))] | Pack _ \<Rightarrow> []) os)"

text \<open>The slots of a batch are unavailable and belong to the batch alone.\<close>

definition batch_ok :: "owner list \<Rightarrow> physical_heap \<Rightarrow> bool" where
  "batch_ok os h \<longleftrightarrow> distinct (retired_slots os) \<and> (\<forall>(i, s) \<in> set (retired_slots os). slot_at h i s = Unavailable) \<and>
     uses_ok (retired_ids os) h"

definition swept :: "physical_heap \<Rightarrow> nat \<Rightarrow> nat list \<Rightarrow> bool" where
  "swept h e act \<longleftrightarrow>
     (let clean = (\<lambda>i s. slot_at h i s = Occupied \<longrightarrow> black_at h e i s)
      in case cpage (cursor h) of
           None \<Rightarrow> \<forall>i s. clean i s
         | Some c \<Rightarrow> \<exists>xs ys. act = xs @ c # ys \<and> (\<forall>i \<in> set xs. \<forall>s. clean i s) \<and> (\<forall>s < cslot (cursor h). clean c s))"

text \<open>An operation of the sweep keeps what the rest of the program sees of every other object.\<close>

definition keeps_objects :: "nat set \<Rightarrow> physical_heap \<Rightarrow> physical_heap \<Rightarrow> bool" where
  "keeps_objects G h h' \<longleftrightarrow> live_set h' = live_set h - G \<and> memory h' = memory h \<and>
     (\<forall>e. black_set h' e = black_set h e - G) \<and>
     (\<forall>d. map_option entry_descriptor (registered d (descriptors_of h')) = map_option entry_descriptor (registered d (descriptors_of h)))"

section \<open>Live objects\<close>

lemma live_finite: "heap_inv h \<Longrightarrow> finite (live_set h)"
proof -
  assume h: "heap_inv h"
  then obtain act avs where "heap_at {} h act avs" by (auto simp: heap_inv_def)
  then have fin: "finite (dom (contents (allocations h)))" by (rule heap_atD(8))
  have "live_set h \<subseteq> (\<lambda>(i, s). the (slot_address h i s)) ` (dom (contents (allocations h)) \<times> {..<128})"
  proof
    fix a assume "a \<in> live_set h"
    then obtain i s where s: "slot_at h i s = Occupied" "slot_address h i s = Some a" by (auto simp: live_set_def)
    then have "(i, s) \<in> dom (contents (allocations h)) \<times> {..<128}" "a = (\<lambda>(i, s). the (slot_address h i s)) (i, s)"
      using slot_bound [OF h s(2)] occupied_page [of h i s] by auto
    then show "a \<in> (\<lambda>(i, s). the (slot_address h i s)) ` (dom (contents (allocations h)) \<times> {..<128})" by (rule rev_image_eqI)
  qed
  then show ?thesis using fin finite_subset by blast
qed

lemma live_slot:
  assumes "heap_inv h" "a \<in> live_set h"
  obtains i s where "slot_at h i s = Occupied" "slot_address h i s = Some a"
    "\<And>j t. slot_address h j t = Some a \<Longrightarrow> j = i \<and> t = s"
  using assms address_inj [OF assms(1)] unfolding live_set_def by blast

lemma slot_live: "heap_inv h \<Longrightarrow> slot_at h i s = Occupied \<Longrightarrow> \<exists>a. slot_address h i s = Some a \<and> a \<in> live_set h"
  using occupied_address [of h i s] by (auto simp: live_set_def)

lemma occupied_live: "heap_inv h \<Longrightarrow> slot_address h i s = Some a \<Longrightarrow> a \<in> live_set h \<longleftrightarrow> slot_at h i s = Occupied"
  unfolding live_set_def using address_inj [of h i s a] by blast

section \<open>Detaching an object\<close>

lemma take_object_ok:
  assumes h: "heap_at {} h act avs" and s: "slot_at h i s = Occupied"
  shows "\<exists>h'. take_object i s h = (Ok (), h') \<and> heap_at {} h' act avs \<and> slot_at h' = set_slot i s Unavailable (slot_at h) \<and>
    slot_address h' = slot_address h \<and> memory h' = memory h \<and> descriptors_of h' = descriptors_of h \<and> marks_at h' = marks_at h \<and>
    cursor h' = cursor h \<and> first_active h' = first_active h \<and> page_count h' = page_count h \<and> backing_bytes h' = backing_bytes h \<and>
    (\<forall>j. (contents (allocations h') j = None) = (contents (allocations h) j = None)) \<and> keeps_blocks h h' \<and> objects h' + 1 = objects h"
proof -
  note D = heap_atD [OF h]
  obtain p where p: "contents (allocations h) i = Some p" "slot_state p s = Occupied" using s by (auto simp: slot_at_def split: option.splits)
  obtain p0 where p0: "table_get i (allocations h) = Some p0" "strip p0 = p" using contents_get p(1) by blast
  have inv: "page_inv p" by (rule pages_okD(1) [OF D(3) p(1)])
  have inv0: "page_inv p0" "slot_state p0 s = Occupied" using inv p p0(2) by auto
  from detach_spec [OF this] obtain q where q: "page_detach s p0 = Ok q" "slot_state q = (slot_state p0)(s := Unavailable)"
    "page_inv q" "same_frame p0 q" "page_marks_of q = page_marks_of p0" "page_free q = page_free p0" by blast
  from page_write_ok [where f = "page_detach s", OF D(1) p0(1) q(1,4)] obtain t where t: "page_mut i (page_detach s) h = (Ok (), h\<lparr>allocations := t\<rparr>)"
    "links_ok t (available h) (first_active h) act avs" "contents t = (contents (allocations h))(i \<mapsto> strip q)" by blast
  have ti: "table_inv (allocations h)" using D(1) by (simp add: links_ok_def)
  have tl: "tlen t = tlen (allocations h)"
    using page_mut_ok [where f = "page_detach s", OF ti p0(1) q(1)] t(1) by (auto dest: arg_cong [where f = allocations])
  have sf: "same_frame p (strip q)" using same_frame_strip [OF q(4)] p0(2) by simp
  have st: "slot_state (strip q) = (slot_state p)(s := Unavailable)" "s < page_slots p" using q(2) p0(2) slot_less [of p s] p(2) by auto
  have slots: "page_slots (strip q) = page_slots p" using sf by (simp add: same_frame_def)
  have cnt: "page_objects (strip q) + 1 = page_objects p" using objects_change [OF st(1) slots st(2) p(2)] by simp
  have tot: "total page_objects (contents t) + 1 = objects h" "total page_bytes (contents t) = backing_bytes h"
    using total_change [OF D(8) p(1), of page_objects "strip q"] total_change [OF D(8) p(1), of page_bytes "strip q"] cnt D(4,5) sf
    by (simp_all add: t(3) page_bytes_def same_frame_def)
  define h' where "h' = h\<lparr>allocations := t, objects := objects h - 1\<rparr>"
  have sel: "allocations h' = t" "memory h' = memory h" "descriptors_of h' = descriptors_of h" "cursor h' = cursor h" "first_active h' = first_active h"
    "backing_bytes h' = backing_bytes h" "available h' = available h" "objects h' + 1 = objects h" using tot(1) by (auto simp: h'_def)
  have run: "take_object i s h = (Ok (), h')" using t(1) tot(1) by (simp add: take_object_def act_then_def h'_def)
  have c: "contents (allocations h') = (contents (allocations h))(i \<mapsto> strip q)" by (simp add: sel t(3))
  have "pages_ok {} (contents t)" unfolding t(3)
    by (rule pages_ok_write [OF D(3) p(1) _ sf]) (use q(3,6) pages_okD(3) [OF D(3) p(1)] p0(2) slots in auto)
  moreover have "memory_ok (memory h) (descriptors_of h) (contents t)" unfolding t(3)
    by (rule memory_ok_write [OF D(7) p(1) sf]) (use st in \<open>auto split: if_splits\<close>)
  moreover have "listed_ok {} (contents t) avs" using D(2) p(1) sf q(6) p0(2) by (auto simp: listed_ok_def t(3) same_frame_def)
  ultimately have "heap_at {} h' act avs" using t(2) tot sel(8) D(6) by (auto simp: heap_at_def Let_def sel t(3))
  moreover have "slot_at h' = set_slot i s Unavailable (slot_at h)" using p(1) st by (auto simp: slot_at_def set_slot_def c fun_eq_iff)
  moreover have "slot_address h' = slot_address h" using p(1) sf by (auto simp: slot_address_def c fun_eq_iff same_frame_def)
  moreover have "marks_at h' = marks_at h" using p(1) q(5) p0(2) by (auto simp: marks_at_def c fun_eq_iff)
  moreover have "keeps_blocks h h'" using p(1) same_frame_block [OF sf] by (auto simp: keeps_blocks_def c same_block_def)
  ultimately show ?thesis using run sel tl p(1) by (intro exI [of _ h']) (auto simp: c page_count_def split: if_splits)
qed

lemma marks_colours:
  assumes "marks_at h' = marks_at h"
  shows "found_at h' e j t = found_at h e j t" "black_at h' e j t = black_at h e j t" "queued_at h' j = queued_at h j"
  using assms by (simp_all add: colours_marks)

lemma no_gray:
  assumes "mark_inv {} v" "pending (marking v) = []" "found_at (physical v) (mepoch (marking v)) i s"
  shows "black_at (physical v) (mepoch (marking v)) i s"
  using assms by (auto simp: mark_inv_def Let_def)

lemma detach_marks:
  assumes inv: "heap_inv h" "heap_inv h'" "mark_inv {} v" "physical v = h" "pending (marking v) = []"
    and m: "marks_at h' = marks_at h" "page_count h' = page_count h"
  shows "mark_inv {} (v\<lparr>physical := h'\<rparr>)"
proof (rule mark_inv_transfer [OF inv(1-4)])
  have ng: "black_at h (mepoch (marking v)) i s" if "found_at h (mepoch (marking v)) i s" for i s
    using no_gray [OF inv(3,5)] inv(4) that by simp
  show "page_count h' \<le> pcapacity (marking v)" using inv(3,4) m(2) by (simp add: mark_inv_def Let_def)
  show "black_at h' (mepoch (marking v)) j t \<Longrightarrow> found_at h' (mepoch (marking v)) j t" for j t
    using inv(3,4) by (simp add: marks_colours [OF m(1)] mark_inv_def Let_def)
qed (use no_gray [OF inv(3,5)] inv(4) m in \<open>auto simp: marks_colours [OF m(1)]\<close>)

text \<open>Objects after a slot has been taken from them.\<close>

lemma taken_objects:
  assumes inv: "heap_inv h" "slot_at h i s = Occupied" "slot_address h i s = Some a"
    and h': "slot_at h' = set_slot i s Unavailable (slot_at h)" "slot_address h' = slot_address h" "memory h' = memory h"
      "descriptors_of h' = descriptors_of h" "marks_at h' = marks_at h"
  shows "keeps_objects {a} h h'" "\<And>d. users h' d = users h d - {a}"
proof -
  have occ: "slot_at h' j t = Occupied \<and> slot_address h' j t = Some c \<longleftrightarrow> slot_at h j t = Occupied \<and> slot_address h j t = Some c \<and> c \<noteq> a" for j t c
  proof (cases "j = i \<and> t = s")
    case True
    then show ?thesis using inv(3) by (simp add: h'(1,2) set_slot_def)
  next
    case False
    then have "slot_at h' j t = slot_at h j t" by (auto simp: h'(1) set_slot_def)
    moreover have "slot_address h j t \<noteq> Some a" using False address_inj [OF inv(1,3)] by metis
    ultimately show ?thesis by (auto simp: h'(2))
  qed
  have live: "live_set h' = live_set h - {a}" unfolding live_set_def using occ by auto
  then show "\<And>d. users h' d = users h d - {a}" by (auto simp: users_def header_descriptor_def h'(3))
  have "black_set h' e = black_set h e - {a}" for e
    unfolding black_set_def conj_assoc [symmetric] occ by (auto simp: marks_colours [OF h'(5)])
  then show "keeps_objects {a} h h'" using live by (simp add: keeps_objects_def h')
qed

lemma count_list_snoc: "count_list (xs @ [y]) x = count_list xs x + (if x = y then 1 else 0)"
  by (induction xs) auto

lemma card_users_remove:
  assumes "heap_inv h" "a \<in> live_set h" "header_descriptor h a = Some d"
  shows "card (users h c - {a}) + (if c = d then 1 else 0) = card (users h c)"
proof -
  have "finite (users h c)" using live_finite [OF assms(1)] by (simp add: users_def)
  then show ?thesis using assms(2,3) card_Suc_Diff1 [of "users h c" a] by (cases "c = d") (auto simp: users_def)
qed

lemma batch_detach_ok:
  assumes h: "heap_at {} h act avs" and s: "slot_at h i s = Occupied" "slot_address h i s = Some a"
    and b: "batch_ok (owners b) h" "batch_len b < RETIREMENT_CAP" and x: "avail \<noteq> None \<longrightarrow> os a \<noteq> None \<and> payload_fits (desc_rep d) (the (os a))"
    and d: "header_descriptor h a = Some (desc_id d)" "registered (desc_id d) (descriptors_of h) = Some e" "entry_descriptor e = d"
  shows "(\<exists>charge b' h'. batch_detach P os i s avail b h = (Ok (charge, b'), h') \<and> heap_at {} h' act avs \<and> batch_ok (owners b') h' \<and>
      keeps_objects {a} h h' \<and> batch_len b' = batch_len b + 1 \<and> slot_at h' = set_slot i s Unavailable (slot_at h) \<and> slot_address h' = slot_address h \<and>
      marks_at h' = marks_at h \<and> cursor h' = cursor h \<and> descriptors_of h' = descriptors_of h \<and> page_count h' = page_count h \<and>
      (\<forall>bytes. avail = Some bytes \<longrightarrow> descriptor_charge P d (the (os a)) = Ok charge \<and> charge \<le> bytes) \<and>
      (\<exists>r. owners b' = owners b @ [Object r] \<and> rreference (ret_reservation r) = a \<and> ret_descriptor r = d) \<and> backing_bytes h' = backing_bytes h)
    \<or> (\<exists>bytes charge. avail = Some bytes \<and> descriptor_charge P d (the (os a)) = Ok charge \<and> bytes < charge \<and>
      batch_detach P os i s avail b h = (Err (Storage ''retirement charge exceeds ledger''), h))"
proof -
  have inv: "heap_inv h" using h by (auto simp: heap_inv_def)
  from object_at_occupied [OF inv s] obtain d0 e0 where o: "memory h a = Some \<lparr>hdescriptor = d0, hallocation = i\<rparr>"
    "registered d0 (descriptors_of h) = Some e0" "resolve a h = Ok \<lparr>opointer = a + payload_offset (entry_descriptor e0), odescriptor = entry_descriptor e0, opage = i, oslot = s\<rparr>"
    "object_at i s h = resolve a h" by blast
  have d0: "d0 = desc_id d" "e0 = e" using d(1,2) o(1,2) by (auto simp: header_descriptor_def)
  obtain p where p: "heap_page i h = Ok p" "page_pointer p s = Ok a"
    using s(2) by (auto simp: slot_address_def heap_page_def contents_def split: option.splits outcome.splits)
  from take_object_ok [OF h s(1)] obtain h' where t: "take_object i s h = (Ok (), h')" "heap_at {} h' act avs"
    "slot_at h' = set_slot i s Unavailable (slot_at h)" "slot_address h' = slot_address h" "memory h' = memory h"
    "descriptors_of h' = descriptors_of h" "marks_at h' = marks_at h" "cursor h' = cursor h" "page_count h' = page_count h" "backing_bytes h' = backing_bytes h" by blast
  note T = taken_objects [OF inv s t(3-7)]
  define r where "r = \<lparr>ret_reservation = \<lparr>rreference = a, rpage = i, rslot = s\<rparr>, ret_descriptor = d, ret_initialized = True\<rparr>"
  define b' where "b' = \<lparr>owners = owners b @ [Object r], pins = add_pin i d (page_backing p) (pins b)\<rparr>"
  have ids: "retired_ids (owners b') = retired_ids (owners b) @ [desc_id d]" "retired_slots (owners b') = retired_slots (owners b) @ [(i, s)]"
    by (simp_all add: b'_def r_def retired_ids_def retired_slots_def)
  have al: "a \<in> live_set h" using s by (auto simp: live_set_def)
  have "uses_ok (retired_ids (owners b')) h'"
  proof -
    have u: "uses_ok (retired_ids (owners b)) h" using b(1) by (simp add: batch_ok_def)
    have "uses e' = card (users h' c) + count_list (retired_ids (owners b')) c" if "registered c (descriptors_of h') = Some e'" for c e'
      using u that card_users_remove [OF inv al d(1), of c]
      by (cases "c = desc_id d") (auto simp: uses_ok_def ids count_list_snoc T(2) t(6))
    then show ?thesis using u d(2) by (auto simp: uses_ok_def ids t(6))
  qed
  moreover have "(i, s) \<notin> set (retired_slots (owners b))" using b(1) s(1) by (auto simp: batch_ok_def)
  ultimately have "batch_ok (owners b') h'" using b(1) by (auto simp: batch_ok_def ids t(3) set_slot_def)
  moreover have "batch_len b' = batch_len b + 1" by (simp add: b'_def batch_len_def)
  ultimately have good: ?thesis if "retirement_charge P d (os a) avail = Ok c"
      "\<forall>bytes. avail = Some bytes \<longrightarrow> descriptor_charge P d (the (os a)) = Ok c \<and> c \<le> bytes" for c
    using b(2) o(3,4) p t d(3) d0 that T(1)
    by (intro disjI1 exI [of _ c] exI [of _ b'] exI [of _ h']) (simp add: batch_detach_def act_then_def b'_def r_def assert_then_def)
  show ?thesis
  proof (cases avail)
    case None
    then show ?thesis by (intro good [of 0]) (simp_all add: retirement_charge_def)
  next
    case (Some bytes)
    then obtain w where w: "os a = Some w" "payload_fits (desc_rep d) w" using x by auto
    then obtain c where c: "descriptor_charge P d w = Ok c" by (cases "desc_rep d"; cases w) (auto simp: descriptor_charge_def)
    show ?thesis
    proof (cases "c \<le> bytes")
      case True
      then show ?thesis using Some w c by (intro good [of c]) (simp_all add: retirement_charge_def)
    next
      case False
      then show ?thesis using b(2) o(3,4) p d(3) d0 Some w c
        by (intro disjI2 exI [of _ bytes] exI [of _ c]) (simp add: batch_detach_def act_then_def assert_then_def retirement_charge_def)
    qed
  qed
qed

section \<open>Finishing a batch\<close>

lemma recounted_descriptors:
  assumes "recounted d n ds ds'"
  shows "map_option entry_descriptor (registered c ds') = map_option entry_descriptor (registered c ds)"
  using assms by (auto simp: recounted_def option.map_comp comp_def)

lemma leaf_at_descriptors:
  assumes "slot_address h' = slot_address h" "memory h' = memory h"
    "\<And>c. map_option entry_descriptor (registered c (descriptors_of h')) = map_option entry_descriptor (registered c (descriptors_of h))"
  shows "leaf_at h' i s = leaf_at h i s"
proof -
  have eq: "leaf_at k i s \<longleftrightarrow> (\<exists>a d. slot_address k i s = Some a \<and> memory k a = Some \<lparr>hdescriptor = d, hallocation = i\<rparr> \<and>
      (\<exists>dd. map_option entry_descriptor (registered d (descriptors_of k)) = Some dd \<and> desc_kind dd = EdgeFree))" for k
    by (auto simp: leaf_at_def)
  show ?thesis by (simp only: eq assms)
qed

lemma release_use_ok:
  assumes h: "heap_at {} h act avs" and d: "registered d (descriptors_of h) = Some e" "0 < uses e"
  shows "\<exists>ds. release_use d h = (Ok (), h\<lparr>descriptors_of := ds\<rparr>) \<and> heap_at {} (h\<lparr>descriptors_of := ds\<rparr>) act avs \<and>
    recounted d (uses e - 1) (descriptors_of h) ds"
proof -
  note D = heap_atD [OF h]
  have ri: "registry_inv (descriptors_of h)" using D(7) by (simp add: memory_ok_def)
  obtain ds where ds: "descriptors_release d (descriptors_of h) = Ok ds"
    using d by (auto simp: descriptors_release_def registered_def checked_sub_def)
  from release_recounts [OF ri ds] d(1) have rc: "recounted d (uses e - 1) (descriptors_of h) ds" by auto
  have "registered c ds \<noteq> None" if "registered c (descriptors_of h) \<noteq> None" for c using rc that by (auto simp: recounted_def)
  then have "memory_ok (memory h) ds (contents (allocations h))" using D(7) rc by (fastforce simp: memory_ok_def recounted_def)
  then have "heap_at {} (h\<lparr>descriptors_of := ds\<rparr>) act avs" using h by (simp add: heap_at_def Let_def)
  then show ?thesis using ds rc by (auto simp: release_use_def)
qed

lemma released_objects:
  assumes h: "slot_at h i s = Unavailable" "slot_at h' = (slot_at h)(i := (slot_at h i)(s := Vacant))" "memory h' = memory h"
    and c: "\<And>j. j \<noteq> i \<Longrightarrow> contents (allocations h') j = contents (allocations h) j"
      "\<And>q. contents (allocations h') i = Some q \<Longrightarrow>
        \<exists>p. contents (allocations h) i = Some p \<and> same_block p q \<and> page_marks_of q = page_marks_of p"
  shows "slot_at h' j t = Occupied \<longleftrightarrow> slot_at h j t = Occupied"
    "slot_at h j t = Occupied \<Longrightarrow> slot_address h' j t = slot_address h j t \<and> black_at h' e j t = black_at h e j t"
    "live_set h' = live_set h" "black_set h' e = black_set h e" "users h' d = users h d"
proof -
  show occ: "slot_at h' j t = Occupied \<longleftrightarrow> slot_at h j t = Occupied" for j t using h(1) by (auto simp: h(2))
  show same: "slot_address h' j t = slot_address h j t \<and> black_at h' e j t = black_at h e j t" if "slot_at h j t = Occupied" for j t e
  proof -
    have "contents (allocations h') j \<noteq> None" using occupied_page [of h' j t] occ [of j t] that by simp
    then obtain q where q: "contents (allocations h') j = Some q" by auto
    then obtain p where "contents (allocations h) j = Some p" "same_block p q" "page_marks_of q = page_marks_of p"
      using c by (cases "j = i") (auto simp: same_block_def)
    then show ?thesis using q by (simp add: slot_address_def black_at_def same_block_def)
  qed
  have iff: "slot_at h' j t = Occupied \<and> slot_address h' j t = Some c \<longleftrightarrow> slot_at h j t = Occupied \<and> slot_address h j t = Some c" for j t c
    using occ [of j t] same [of j t] by metis
  have iff2: "slot_at h' j t = Occupied \<and> slot_address h' j t = Some c \<and> black_at h' e j t \<longleftrightarrow> slot_at h j t = Occupied \<and> slot_address h j t = Some c \<and> black_at h e j t" for j t c
    using occ [of j t] same [of j t e] by metis
  show live: "live_set h' = live_set h" by (simp only: live_set_def iff)
  show "black_set h' e = black_set h e" by (simp only: black_set_def iff2)
  show "users h' d = users h d" using live by (simp add: users_def header_descriptor_def h(3))
qed

text \<open>Removing an empty page moves the cursor with it, so the swept part stays swept.\<close>

lemma swept_at:
  assumes "cpage (cursor h) = Some c" "act = xs @ c # ys" "\<And>i s. i \<in> set xs \<Longrightarrow> slot_at h i s = Occupied \<Longrightarrow> black_at h e i s"
    "\<And>s. s < cslot (cursor h) \<Longrightarrow> slot_at h c s = Occupied \<Longrightarrow> black_at h e c s"
  shows "swept h e act"
proof -
  have "\<exists>xs ys. act = xs @ c # ys \<and> (\<forall>i \<in> set xs. \<forall>s. slot_at h i s = Occupied \<longrightarrow> black_at h e i s) \<and>
      (\<forall>s < cslot (cursor h). slot_at h c s = Occupied \<longrightarrow> black_at h e c s)"
    using assms(2-4) by blast
  then show ?thesis using assms(1) by (simp add: swept_def Let_def)
qed

lemma swept_release:
  assumes sw: "swept h e act" and act: "heap_at {} h act avs"
    and clean: "\<And>j t. slot_at h' j t = Occupied \<Longrightarrow> slot_at h j t = Occupied \<and> black_at h' e j t = black_at h e j t"
    and gone: "slot_at h' i = (\<lambda>_. Vacant) \<or> act' = act \<and> cursor h' = cursor h"
    and act': "act' = act \<or> act' = remove1 i act"
    and cur: "cursor h' = (if act' \<noteq> act \<and> cpage (cursor h) = Some i then \<lparr>cpage = after_in i act, cslot = 0\<rparr> else cursor h)"
  shows "swept h' e act'"
proof (cases "cpage (cursor h)")
  case None
  then show ?thesis using sw cur clean by (simp add: swept_def Let_def)
next
  case (Some c)
  have dist: "distinct act" using heap_atD(1) [OF act] by (simp add: links_ok_def dlist_def)
  from sw Some obtain xs ys where xy: "act = xs @ c # ys" and xs: "\<And>j t. j \<in> set xs \<Longrightarrow> slot_at h j t = Occupied \<Longrightarrow> black_at h e j t"
    and c: "\<And>t. t < cslot (cursor h) \<Longrightarrow> slot_at h c t = Occupied \<Longrightarrow> black_at h e c t" by (auto simp: swept_def Let_def)
  show ?thesis
  proof (cases "act' = act")
    case True
    then have "cursor h' = cursor h" using cur by simp
    then show ?thesis using Some True xy xs c clean by (intro swept_at [of h' c _ xs ys]) auto
  next
    case False
    then have a': "act' = remove1 i act" and g: "slot_at h' i = (\<lambda>_. Vacant)" using act' gone by auto
    show ?thesis
    proof (cases "c = i")
      case True
      have a: "act' = xs @ ys" using a' xy True dist by (simp add: remove1_append)
      have cu: "cursor h' = \<lparr>cpage = (case ys of [] \<Rightarrow> None | y # _ \<Rightarrow> Some y), cslot = 0\<rparr>"
        using cur False Some True xy dist after_in_split [of i xs ys] by auto
      show ?thesis
      proof (cases ys)
        case Nil
        have "slot_at h' j t = Occupied \<Longrightarrow> black_at h' e j t" for j t
        proof -
          assume o: "slot_at h' j t = Occupied"
          have "contents (allocations h) j \<noteq> None" using clean [OF o] occupied_page [of h j t] by simp
          then have "j \<in> set act" using heap_atD(1) [OF act] by (auto simp: links_ok_def)
          moreover have "j \<noteq> i" using o g by auto
          ultimately have "j \<in> set xs" using xy True Nil by auto
          then show ?thesis using xs clean [OF o] by blast
        qed
        then show ?thesis using cu Nil by (simp add: swept_def)
      next
        case (Cons y zs)
        then show ?thesis using cu a xs clean by (intro swept_at [of h' y _ xs zs]) auto
      qed
    next
      case False
      have cu: "cursor h' = cursor h" using cur False Some by simp
      have "act' = (if i \<in> set xs then remove1 i xs @ c # ys else xs @ c # remove1 i ys)" using a' xy False by (simp add: remove1_append)
      then obtain xs' ys' where "act' = xs' @ c # ys'" "set xs' \<subseteq> set xs" using set_remove1_subset [of i xs] by (cases "i \<in> set xs") auto
      then show ?thesis using cu Some xs c clean by (intro swept_at [of h' c _ xs' ys']) auto
    qed
  qed
qed

lemma finish_owners_ok:
  assumes "heap_at {} h act avs" "batch_ok ows h" "swept h e act" "mark_inv {} v" "physical v = h"
  shows "\<exists>n os' h' act' avs'. finish_owners P ows k os h = (Ok n, os', h') \<and> heap_at {} h' act' avs' \<and> uses_ok [] h' \<and> swept h' e act' \<and>
    keeps_objects {} h h' \<and> mark_inv {} (v\<lparr>physical := h'\<rparr>) \<and> k \<le> n \<and>
    (cpage (cursor h) = None \<longrightarrow> cpage (cursor h') = None) \<and> dactive (descriptors_of h') = dactive (descriptors_of h) \<and> (\<forall>a. os' a = os a \<or> os' a = None \<and> (\<exists>r. Object r \<in> set ows \<and> a = rreference (ret_reservation r)))"
  using assms
proof (induction P ows k os h arbitrary: act avs v rule: finish_owners.induct)
  case (1 P k os h)
  then show ?case by (auto simp: batch_ok_def retired_ids_def keeps_objects_def)
next
  case (2 P root rest k os h)
  from 2(3) have "batch_ok rest h" by (simp add: batch_ok_def retired_ids_def retired_slots_def)
  from 2(1) [OF 2(2) this 2(4-6)] show ?case by auto
next
  case (3 P r rest k os h)
  let ?d = "desc_id (ret_descriptor r)" and ?i = "rpage (ret_reservation r)" and ?s = "rslot (ret_reservation r)"
  have b: "uses_ok (?d # retired_ids rest) h" "slot_at h ?i ?s = Unavailable" "(?i, ?s) \<notin> set (retired_slots rest)" "distinct (retired_slots rest)"
    "\<And>j t. (j, t) \<in> set (retired_slots rest) \<Longrightarrow> slot_at h j t = Unavailable"
    using 3(3) by (auto simp: batch_ok_def retired_ids_def retired_slots_def)
  then obtain en where en: "registered ?d (descriptors_of h) = Some en" "0 < uses en" by (auto simp: uses_ok_def)
  from release_use_ok [OF 3(2) en] obtain ds where ds: "release_use ?d h = (Ok (), h\<lparr>descriptors_of := ds\<rparr>)"
    "heap_at {} (h\<lparr>descriptors_of := ds\<rparr>) act avs" "recounted ?d (uses en - 1) (descriptors_of h) ds" by blast
  define h1 where "h1 = h\<lparr>descriptors_of := ds\<rparr>"
  have s1: "slot_at h1 = slot_at h" "slot_address h1 = slot_address h" "cursor h1 = cursor h" "memory h1 = memory h" "descriptors_of h1 = ds"
    "marks_at h1 = marks_at h" "allocations h1 = allocations h" "page_count h1 = page_count h"
    by (simp_all add: h1_def slot_at_def slot_address_def marks_at_def fun_eq_iff page_count_def)
  have inv: "heap_inv h" "heap_inv h1" using 3(2) ds(2) by (auto simp: heap_inv_def h1_def)
  have leaf1: "leaf_at h1 j t = leaf_at h j t" for j t
    by (rule leaf_at_descriptors) (simp_all add: s1 recounted_descriptors [OF ds(3)])
  have m1: "mark_inv {} (v\<lparr>physical := h1\<rparr>)"
    using 3(5,6) by (simp add: mark_inv_def Let_def s1 leaf1 marks_colours [OF s1(6)]) blast
  have u1: "slot_at h1 ?i ?s = Unavailable" using b(2) by (simp add: s1)
  from release_slot_ok [OF ds(2) [folded h1_def] u1] obtain h2 act2 avs2 where r: "release_slot ?i ?s h1 = (Ok (), h2)" "heap_at {} h2 act2 avs2"
    "act2 = (if contents (allocations h2) ?i = None then remove1 ?i act else act)"
    "cursor h2 = (if contents (allocations h2) ?i = None \<and> cpage (cursor h1) = Some ?i then \<lparr>cpage = after_in ?i act, cslot = 0\<rparr> else cursor h1)"
    "slot_at h2 = (slot_at h1)(?i := (slot_at h1 ?i)(?s := Vacant))" "memory h2 = memory h1" "descriptors_of h2 = descriptors_of h1"
    "\<And>j. j \<noteq> ?i \<Longrightarrow> contents (allocations h2) j = contents (allocations h1) j"
    "\<And>q. contents (allocations h2) ?i = Some q \<Longrightarrow> \<exists>p. contents (allocations h1) ?i = Some p \<and> same_block p q \<and> page_marks_of q = page_marks_of p" by blast
  note R = released_objects [OF u1 r(5,6,8,9)]
  have i2: "heap_inv h2" using r(2) by (auto simp: heap_inv_def)
  have sw1: "swept h1 e act" using 3(4) unfolding swept_def Let_def s1 marks_colours [OF s1(6)] .
  have inact: "?i \<in> set act" using occupied_page [of h1 ?i ?s] u1 heap_atD(1) [OF ds(2)] by (auto simp: links_ok_def h1_def)
  have dist: "distinct act" using heap_atD(1) [OF 3(2)] by (simp add: links_ok_def dlist_def)
  have rm: "remove1 ?i act \<noteq> act" using inact dist by (metis distinct_remove1 in_set_conv_decomp notin_set_remove1 set_remove1_eq Diff_iff singletonI)
  have sw2: "swept h2 e act2"
  proof (rule swept_release [OF sw1 ds(2) [folded h1_def], where i = ?i])
    show "slot_at h2 j t = Occupied \<Longrightarrow> slot_at h1 j t = Occupied \<and> black_at h2 e j t = black_at h1 e j t" for j t using R(1,2) by blast
    show "slot_at h2 ?i = (\<lambda>_. Vacant) \<or> act2 = act \<and> cursor h2 = cursor h1" using r(3,4) by (auto simp: slot_at_def)
  qed (use r(3,4) rm in auto)
  have m2: "mark_inv {} (v\<lparr>physical := h2\<rparr>)"
  proof -
    have kb: "keeps_blocks h2 h1" using r(8,9) unfolding keeps_blocks_def
      by (metis same_block_def)
    have "marks_at h2 j = (if contents (allocations h2) j = None then marks_default else marks_at h1 j)" for j
      using r(8,9) by (cases "j = ?i") (force simp: marks_at_def split: option.splits)+
    from release_marks [OF inv(2) i2 m1 _ u1 _ r(6,7) kb this] show ?thesis using r(5) by (simp add: set_slot_def)
  qed
  have u2: "uses_ok (retired_ids rest) h2"
  proof -
    have "uses e' = card (users h2 c) + count_list (retired_ids rest) c" if "registered c (descriptors_of h2) = Some e'" for c e'
    proof -
      have us: "users h2 c = users h c" using R(5) by (simp add: users_def header_descriptor_def s1 live_set_def)
      from that ds(3) obtain f where f: "registered c (descriptors_of h) = Some f" "e' = (if c = ?d then f\<lparr>uses := uses en - 1\<rparr> else f)"
        by (auto simp: r(7) s1 recounted_def split: if_splits)
      have "uses f = card (users h c) + count_list (?d # retired_ids rest) c" using b(1) f(1) by (simp add: uses_ok_def)
      then show ?thesis using f en us by (cases "c = ?d") auto
    qed
    moreover have "registered c (descriptors_of h2) \<noteq> None" if "c \<in> set (retired_ids rest)" for c
      using b(1) that ds(3) by (auto simp: uses_ok_def r(7) s1 recounted_def)
    ultimately show ?thesis by (simp add: uses_ok_def)
  qed
  have "slot_at h2 j t = Unavailable" if "(j, t) \<in> set (retired_slots rest)" for j t
    using b(5) [OF that] b(3) that by (auto simp: r(5) s1)
  then have b2: "batch_ok rest h2" using b(4) u2 by (auto simp: batch_ok_def)
  have k2: "keeps_objects {} h h2"
    using R(3,4) ds(3) by (auto simp: keeps_objects_def r(6,7) s1 live_set_def black_set_def marks_colours [OF s1(6)] recounted_def option.map_comp comp_def)
  let ?k = "k + (if dispose P os r then 1 else 0)" and ?os = "os(rreference (ret_reservation r) := None)"
  have run: "act_then (release_use ?d) (\<lambda>_. release_slot ?i ?s) h = (Ok (), h2)" using ds(1) r(1) by (simp add: act_then_def h1_def)
  have v2: "(v\<lparr>physical := h2\<rparr>)\<lparr>physical := x\<rparr> = v\<lparr>physical := x\<rparr>" for x by simp
  have p2: "physical (v\<lparr>physical := h2\<rparr>) = h2" by simp
  from 3(1) [OF refl refl run [symmetric] refl r(2) b2 sw2 m2 p2, unfolded v2] obtain n os' h' act' avs' where
    fin: "finish_owners P rest ?k ?os h2 = (Ok n, os', h')" "heap_at {} h' act' avs'" "uses_ok [] h'" "swept h' e act'" "keeps_objects {} h2 h'"
      "mark_inv {} (v\<lparr>physical := h'\<rparr>)" "?k \<le> n"
      "cpage (cursor h2) = None \<longrightarrow> cpage (cursor h') = None" "dactive (descriptors_of h') = dactive (descriptors_of h2)" "\<forall>a. os' a = ?os a \<or> os' a = None \<and> (\<exists>r. Object r \<in> set rest \<and> a = rreference (ret_reservation r))"
    by (elim exE conjE) (rule that)
  have "keeps_objects {} h h'" using k2 fin(5) by (simp add: keeps_objects_def)
  moreover have "finish_owners P (Object r # rest) k os h = (Ok n, os', h')" using run fin(1) by (simp add: Let_def)
  moreover have "k \<le> n" using fin(7) by simp
  moreover have "os' a = os a \<or> os' a = None \<and> (\<exists>q. Object q \<in> set (Object r # rest) \<and> a = rreference (ret_reservation q))" for a
    using fin(10) [rule_format, of a] by (auto split: if_splits)
  moreover have "cpage (cursor h) = None \<longrightarrow> cpage (cursor h') = None" using fin(8) r(4) s1(3) by simp
  moreover have "dactive (descriptors_of h') = dactive (descriptors_of h)" using fin(9) r(7) s1(5) ds(3) by (simp add: recounted_def)
  ultimately show ?case using fin(2-4,6) by (intro exI conjI allI)
qed

end
