(* ===== verification/Gc_Collector.thy ===== *)
theory Gc_Collector
  imports Gc_Retirement "HOL-Library.Monad_Syntax"
begin

text \<open>
  The collection state machine (\<^verbatim>\<open>crates/kagari-gc/src: heap/service.rs, heap.rs, root_source.rs\<close>):
  one budgeted service call after another takes a cycle from scanning the roots through marking
  to sweeping.

  \<open>gc_heap\<close> is \<^verbatim>\<open>Heap\<close>: the physical heap, the host roots, the marking engine, the object that
  is being scanned with its state, the cursors of the root scan and the sweep, and the ledger.
  \<open>gobjects\<close> holds the objects themselves, by address of their header. Execution roots are a
  \<open>root_scan\<close>: none, or the source of a driver with its cursor, whose hooks are a parameter.

  \<open>gc_inv\<close> is the invariant between two calls. Its part for marking is the tricolour invariant:
  no edge leads from a black object to one that is not discovered, the covered edges of the
  suspended object and the scanned roots are discovered. In the sweep the black objects contain
  the roots and are closed under edges, and what the sweep has passed is black.
\<close>

section \<open>Definitions\<close>

subsection \<open>State\<close>

record active_scan =
  aowner :: nat
  adescriptor :: descriptor
  restart :: bool

record root_cursor =
  rc_end :: nat
  rc_next :: nat
  rc_target :: nat
  rc_active :: "root_id option"

definition root_cursor_default :: root_cursor where
  "root_cursor_default = \<lparr>rc_end = 0, rc_next = 0, rc_target = 0, rc_active = None\<rparr>"

datatype sweep_stage = SweepPhysical | SweepRoots nat | SweepDescriptors nat

record pacing_config =
  min_growth_bytes :: nat
  growth_percent :: nat
  assist_multiplier :: nat

record pacing =
  pconfig :: pacing_config
  threshold :: nat

record heap_config =
  cpacing :: pacing_config
  max_backing_bytes :: nat
  max_indirect_bytes :: nat
  max_objects :: nat
  max_roots :: nat

record ('o, 's) gc_heap =
  gid :: nat
  gconfig :: heap_config
  gphysical :: physical_heap
  groots :: roots
  gmarking :: marking
  gactive :: "active_scan option"
  gworkspace :: "'s scan_state"
  gledger :: memory_ledger
  groot_cursor :: root_cursor
  gsweep :: sweep_stage
  gpacing :: pacing
  gobjects :: "'o objects"
  gstrong :: "nat \<Rightarrow> nat"

definition visitor :: "('o, 's) gc_heap \<Rightarrow> edge_visitor" where
  "visitor H = \<lparr>physical = gphysical H, marking = gmarking H\<rparr>"

definition visited :: "edge_visitor \<Rightarrow> ('o, 's) gc_heap \<Rightarrow> ('o, 's) gc_heap" where
  "visited v H = H\<lparr>gphysical := physical v, gmarking := marking v\<rparr>"

definition set_phase :: "phase \<Rightarrow> ('o, 's) gc_heap \<Rightarrow> ('o, 's) gc_heap" where
  "set_phase x H = H\<lparr>gmarking := (gmarking H)\<lparr>mphase := x\<rparr>\<rparr>"

subsection \<open>Root sources (root_source.rs)\<close>

record ('q, 'c) root_source =
  source_begin :: "'q \<Rightarrow> 'c gc_result"
  source_hook :: "'q \<Rightarrow> 'c \<Rightarrow> scan_budget \<Rightarrow> edge_visitor \<Rightarrow> scan_status gc_result \<times> 'c \<times> scan_budget \<times> edge_visitor"

record ('q, 'c) source_scan =
  sroots :: 'q
  scursor :: "'c option"
  scomplete :: bool

datatype ('q, 'c) root_scan = NoSource | Source "('q, 'c) source_scan"

definition source_begin_scan :: "('q, 'c) root_source \<Rightarrow> ('q, 'c) root_scan \<Rightarrow> unit gc_result \<times> ('q, 'c) root_scan" where
  "source_begin_scan Q r =
     (case r of
        NoSource \<Rightarrow> (Ok (), NoSource)
      | Source s \<Rightarrow> let s = s\<lparr>scomplete := False\<rparr>
          in case source_begin Q (sroots s) of
               Ok c \<Rightarrow> (Ok (), Source (s\<lparr>scursor := Some c\<rparr>))
             | Err e \<Rightarrow> (Err e, Source s)
             | Panic m \<Rightarrow> (Panic m, Source s))"

text \<open>The checks of \<^verbatim>\<open>SourceScan::scan\<close> on what the source reports.\<close>

definition source_scan_check ::
    "scan_budget \<Rightarrow> scan_status \<Rightarrow> scan_budget \<Rightarrow> ('q, 'c) source_scan \<Rightarrow> scan_status gc_result \<times> ('q, 'c) root_scan" where
  "source_scan_check before status after s =
     (let spent = spent after - spent before
      in if spent > remaining before then (Err (Provider ''root source exceeded allowance''), Source s)
         else if status = Pending \<and> spent = 0 \<and> remaining before \<ge> 5
           then (Err (Provider ''root source made no progress''), Source s)
         else (Ok status, Source (s\<lparr>scomplete := (status = Complete)\<rparr>)))"

definition source_scan_step ::
    "('q, 'c) root_source \<Rightarrow> ('q, 'c) root_scan \<Rightarrow> scan_budget \<Rightarrow> edge_visitor \<Rightarrow>
     scan_status gc_result \<times> ('q, 'c) root_scan \<times> scan_budget \<times> edge_visitor" where
  "source_scan_step Q r b v =
     (case r of
        NoSource \<Rightarrow> (Ok Complete, NoSource, b, v)
      | Source s \<Rightarrow>
          if scomplete s then (Ok Complete, Source s, b, v)
          else case scursor s of
            None \<Rightarrow> (Panic ''source begun before scanning'', Source s, b, v)
          | Some c \<Rightarrow>
              (case source_hook Q (sroots s) c b v of
                 (x, c, b', v') \<Rightarrow> let s = s\<lparr>scursor := Some c\<rparr>
                   in case x of
                        Err e \<Rightarrow> (Err e, Source s, b', v')
                      | Panic m \<Rightarrow> (Panic m, Source s, b', v')
                      | Ok status \<Rightarrow> (case source_scan_check b status b' s of (res, r) \<Rightarrow> (res, r, b', v'))))"

subsection \<open>Scanning roots (heap/service.rs)\<close>

text \<open>The end of the scan of the host roots: the source, then the change of phase.\<close>

definition scan_source ::
    "('q, 'c) root_source \<Rightarrow> scan_budget \<Rightarrow> ('o, 's) gc_heap \<Rightarrow> ('q, 'c) root_scan \<Rightarrow>
     bool gc_result \<times> scan_budget \<times> ('o, 's) gc_heap \<times> ('q, 'c) root_scan" where
  "scan_source Q b H r =
     (case source_scan_step Q r b (visitor H) of
        (x, r, b, v) \<Rightarrow> let H = visited v H
          in case x of
               Err e \<Rightarrow> (Err e, b, H, r)
             | Panic m \<Rightarrow> (Panic m, b, H, r)
             | Ok Pending \<Rightarrow> (Ok False, b, H, r)
             | Ok Complete \<Rightarrow>
                 (case take_units 1 b of
                    (False, b) \<Rightarrow> (Ok False, b, H, r)
                  | (True, b) \<Rightarrow> (Ok True, b, set_phase Mark H, r)))"

text \<open>One target of the registration under the cursor, or the step to the next registration.\<close>

definition scan_target ::
    "root_id \<Rightarrow> root_entry \<Rightarrow> scan_budget \<Rightarrow> ('o, 's) gc_heap \<Rightarrow> bool gc_result \<times> scan_budget \<times> ('o, 's) gc_heap" where
  "scan_target i e b H =
     (let c = groot_cursor H; H = H\<lparr>groot_cursor := c\<lparr>rc_active := Some i\<rparr>\<rparr>;
          advance = (\<lambda>H. H\<lparr>groot_cursor := (groot_cursor H)\<lparr>rc_target := rc_target c + 1\<rparr>\<rparr>)
      in case targets e ! rc_target c of
           None \<Rightarrow> (Ok True, b, advance H)
         | Some a \<Rightarrow>
             (case try_visit_reference a b (visitor H) of
                (Ok Complete, b, v) \<Rightarrow> (Ok True, b, advance (visited v H))
              | (Ok Pending, b, v) \<Rightarrow> (Ok False, b, visited v H)
              | (Err x, b, v) \<Rightarrow> (Err x, b, visited v H)
              | (Panic m, b, v) \<Rightarrow> (Panic m, b, visited v H)))"

definition next_root :: "('o, 's) gc_heap \<Rightarrow> ('o, 's) gc_heap" where
  "next_root H =
     (let c = groot_cursor H
      in H\<lparr>groot_cursor := c\<lparr>rc_next := rc_next c + 1, rc_target := 0, rc_active := None\<rparr>\<rparr>)"

definition scan_registration :: "scan_budget \<Rightarrow> ('o, 's) gc_heap \<Rightarrow> bool gc_result \<times> scan_budget \<times> ('o, 's) gc_heap" where
  "scan_registration b H =
     (let c = groot_cursor H; rs = groots H
      in if length (ractive rs) \<le> rc_next c then (Panic ''index out of bounds'', b, H)
         else let i = ractive rs ! rc_next c
              in case table_get i (rslots rs) of
                   None \<Rightarrow> (Panic ''live metadata identity'', b, H)
                 | Some slot \<Rightarrow>
                     (let root = \<lparr>id_heap = gid H, id_slot = i, id_generation = generation slot\<rparr>;
                          valid = (rc_active c = None \<or> rc_active c = Some root)
                      in if valid \<and> strong rs (elease (entry slot)) \<noteq> 0 \<and> rc_target c < length (targets (entry slot))
                         then scan_target root (entry slot) b H
                         else (Ok True, b, next_root H)))"

definition scan_roots ::
    "('q, 'c) root_source \<Rightarrow> scan_budget \<Rightarrow> ('o, 's) gc_heap \<Rightarrow> ('q, 'c) root_scan \<Rightarrow>
     bool gc_result \<times> scan_budget \<times> ('o, 's) gc_heap \<times> ('q, 'c) root_scan" where
  "scan_roots Q b H r =
     (if rc_next (groot_cursor H) \<ge> rc_end (groot_cursor H) then scan_source Q b H r
      else case take_units 1 b of
        (False, b) \<Rightarrow> (Ok False, b, H, r)
      | (True, b) \<Rightarrow> (case scan_registration b H of (x, b, H) \<Rightarrow> (x, b, H, r)))"

subsection \<open>Scanning objects\<close>

text \<open>The object to scan: the suspended one, or the next gray one, or none.\<close>

definition start_sweep :: "('o, 's) gc_heap \<Rightarrow> ('o, 's) gc_heap" where
  "start_sweep H =
     set_phase Sweep (H\<lparr>gphysical := (gphysical H)\<lparr>cursor := \<lparr>cpage = first_active (gphysical H), cslot = 0\<rparr>\<rparr>,
                       gsweep := SweepPhysical\<rparr>)"

definition begin_scan :: "('o, 's) provider \<Rightarrow> nat \<Rightarrow> descriptor \<Rightarrow> ('o, 's) gc_heap \<Rightarrow> unit gc_result \<times> ('o, 's) gc_heap" where
  "begin_scan P a d H =
     (case gobjects H a of
        None \<Rightarrow> (Panic ''uninitialized object'', H)
      | Some x \<Rightarrow>
          (case descriptor_begin P d x of
             Ok st \<Rightarrow> (Ok (), H\<lparr>gworkspace := st, gactive := Some \<lparr>aowner = a, adescriptor = d, restart = False\<rparr>\<rparr>)
           | Err e \<Rightarrow> (Err e, H)
           | Panic m \<Rightarrow> (Panic m, H)))"

definition acquire_next ::
    "('o, 's) provider \<Rightarrow> ('o, 's) gc_heap \<Rightarrow> checked_object option gc_result \<times> ('o, 's) gc_heap" where
  "acquire_next P H =
     (case next_gray (visitor H) of
        (x, v) \<Rightarrow> let H = visited v H
          in case x of
               Err e \<Rightarrow> (Err e, H)
             | Panic m \<Rightarrow> (Panic m, H)
             | Ok None \<Rightarrow> (Ok None, if has_jobs (gmarking H) then H else start_sweep H)
             | Ok (Some a) \<Rightarrow>
                 (case resolve a (gphysical H) of
                    Err e \<Rightarrow> (Err e, H)
                  | Panic m \<Rightarrow> (Panic m, H)
                  | Ok ob \<Rightarrow>
                      (case begin_scan P a (odescriptor ob) H of
                         (Ok _, H) \<Rightarrow> (Ok (Some ob), H)
                       | (Err e, H) \<Rightarrow> (Err e, H)
                       | (Panic m, H) \<Rightarrow> (Panic m, H))))"

text \<open>The checks on what a scanner reports, and the end of the object's scan.\<close>

definition scan_verdict :: "scan_kind \<Rightarrow> scan_budget \<Rightarrow> scan_status \<Rightarrow> scan_budget \<Rightarrow> bool gc_result" where
  "scan_verdict kind before status after =
     (let spent = spent after - spent before; available = remaining before
      in if kind \<noteq> Indivisible \<and> spent > available then Err (Provider ''bounded scan exceeded allowance'')
         else if (case kind of Bounded max_work \<Rightarrow> status \<noteq> Complete \<or> spent > max_work * 5 | _ \<Rightarrow> False)
           then Err (Provider ''bounded scan violated declared bound'')
         else if status = Pending \<and> spent = 0 \<and> available \<ge> 5 then Err (Provider ''scanner made no progress'')
         else Ok (status = Complete))"

definition finish_scan :: "checked_object \<Rightarrow> ('o, 's) gc_heap \<Rightarrow> bool gc_result \<times> ('o, 's) gc_heap" where
  "finish_scan ob H =
     (case heap_page (opage ob) (gphysical H) of
        Err e \<Rightarrow> (Err e, H)
      | Panic m \<Rightarrow> (Panic m, H)
      | Ok _ \<Rightarrow> (Ok True, H\<lparr>gphysical := set_marks (opage ob) (set_black (oslot ob) (mepoch (gmarking H))) (gphysical H),
                          gactive := None\<rparr>))"

definition run_scan ::
    "('o, 's) provider \<Rightarrow> checked_object \<Rightarrow> active_scan \<Rightarrow> 'o payload \<Rightarrow> scan_budget \<Rightarrow> ('o, 's) gc_heap \<Rightarrow>
     bool gc_result \<times> scan_budget \<times> ('o, 's) gc_heap" where
  "run_scan P ob ac x b H =
     (if (case desc_kind (adescriptor ac) of Bounded max_work \<Rightarrow> remaining b < max_work * 5 | _ \<Rightarrow> False)
      then (Ok False, b, H)
      else case descriptor_scan P (adescriptor ac) x (gworkspace H) b (visitor H) of
        (y, st, b', v) \<Rightarrow> let H = (visited v H)\<lparr>gworkspace := st\<rparr>
          in case y of
               Err e \<Rightarrow> (Err e, b', H)
             | Panic m \<Rightarrow> (Panic m, b', H)
             | Ok status \<Rightarrow>
                 (case scan_verdict (desc_kind (adescriptor ac)) b status b' of
                    Err e \<Rightarrow> (Err e, b', H)
                  | Panic m \<Rightarrow> (Panic m, b', H)
                  | Ok False \<Rightarrow> (Ok False, b', H)
                  | Ok True \<Rightarrow> (case finish_scan ob H of (z, H) \<Rightarrow> (z, b', H))))"

definition scan_active ::
    "('o, 's) provider \<Rightarrow> checked_object \<Rightarrow> scan_budget \<Rightarrow> ('o, 's) gc_heap \<Rightarrow> bool gc_result \<times> scan_budget \<times> ('o, 's) gc_heap" where
  "scan_active P ob b H =
     (case gactive H of
        None \<Rightarrow> (Panic ''active scanner'', b, H)
      | Some ac \<Rightarrow>
          if odescriptor ob \<noteq> adescriptor ac then (Err (Storage ''active descriptor changed''), b, H)
          else case gobjects H (aowner ac) of
            None \<Rightarrow> (Panic ''uninitialized object'', b, H)
          | Some x \<Rightarrow>
              if restart ac then
                (case begin_scan P (aowner ac) (adescriptor ac) H of
                   (Ok _, H) \<Rightarrow> run_scan P ob (ac\<lparr>restart := False\<rparr>) x b H
                 | (Err e, H) \<Rightarrow> (Err e, b, H)
                 | (Panic m, H) \<Rightarrow> (Panic m, b, H))
              else run_scan P ob ac x b H)"

definition scan_object ::
    "('o, 's) provider \<Rightarrow> scan_budget \<Rightarrow> ('o, 's) gc_heap \<Rightarrow> bool gc_result \<times> scan_budget \<times> ('o, 's) gc_heap" where
  "scan_object P b H =
     (case gactive H of
        Some ac \<Rightarrow>
          (case resolve (aowner ac) (gphysical H) of
             Ok ob \<Rightarrow> scan_active P ob b H
           | Err e \<Rightarrow> (Err e, b, H)
           | Panic m \<Rightarrow> (Panic m, b, H))
      | None \<Rightarrow>
          (case take_units 4 b of
             (False, b) \<Rightarrow> (Ok False, b, H)
           | (True, b) \<Rightarrow>
               (case acquire_next P H of
                  (Ok None, H) \<Rightarrow> (Ok True, b, H)
                | (Ok (Some ob), H) \<Rightarrow> scan_active P ob b H
                | (Err e, H) \<Rightarrow> (Err e, b, H)
                | (Panic m, H) \<Rightarrow> (Panic m, b, H))))"

subsection \<open>Sweeping\<close>

text \<open>The next slot of the cursor, and the dead object found on the way.\<close>

definition dead_slot :: "page \<Rightarrow> nat \<Rightarrow> nat \<Rightarrow> nat \<Rightarrow> nat \<times> nat option" where
  "dead_slot p slot e units =
     (if page_occupied p slot \<and> \<not> black (page_marks_of p) slot e then (slot + 1, Some slot)
      else let stop = min (page_slots p) (slot + min units (page_slots p) + 1);
               victim = next_dead p slot stop e
           in if victim < stop then (victim + 1, Some victim) else (stop, None))"

definition set_cursor :: "physical_cursor \<Rightarrow> ('o, 's) gc_heap \<Rightarrow> ('o, 's) gc_heap" where
  "set_cursor c H = H\<lparr>gphysical := (gphysical H)\<lparr>cursor := c\<rparr>\<rparr>"

text \<open>An iteration of the sweep says whether the loop goes on.\<close>

definition sweep_dead ::
    "('o, 's) provider \<Rightarrow> nat \<Rightarrow> nat \<Rightarrow> batch \<Rightarrow> ('o, 's) gc_heap \<Rightarrow> bool gc_result \<times> batch \<times> ('o, 's) gc_heap" where
  "sweep_dead P i victim batch H =
     (case batch_detach P (gobjects H) i victim (Some (indirect (gledger H))) batch (gphysical H) of
        (Ok (charge, batch), h) \<Rightarrow>
          (Ok True, batch, H\<lparr>gphysical := h, gledger := (gledger H)\<lparr>indirect := indirect (gledger H) - charge\<rparr>\<rparr>)
      | (Err e, h) \<Rightarrow> (Err e, batch, H\<lparr>gphysical := h\<rparr>)
      | (Panic m, h) \<Rightarrow> (Panic m, batch, H\<lparr>gphysical := h\<rparr>))"

definition sweep_page ::
    "('o, 's) provider \<Rightarrow> batch \<Rightarrow> scan_budget \<Rightarrow> ('o, 's) gc_heap \<Rightarrow> bool gc_result \<times> batch \<times> scan_budget \<times> ('o, 's) gc_heap" where
  "sweep_page P batch b H =
     (let h = gphysical H
      in case cpage (cursor h) of
           None \<Rightarrow> (Ok True, batch, b, H\<lparr>gsweep := SweepRoots (pending_releases (groots H))\<rparr>)
         | Some i \<Rightarrow>
             (case heap_page i h of
                Err e \<Rightarrow> (Err e, batch, b, H)
              | Panic m \<Rightarrow> (Panic m, batch, b, H)
              | Ok p \<Rightarrow>
                  let slot = cslot (cursor h)
                  in if slot \<ge> page_slots p
                     then (Ok True, batch, b, set_cursor \<lparr>cpage = successor (page_active p), cslot = 0\<rparr> H)
                     else case dead_slot p slot (mepoch (gmarking H)) (remaining b) of
                       (next, victim) \<Rightarrow>
                         (case take_units (next - slot - 1) b of
                            (False, b) \<Rightarrow> (Panic ''sweep allowance'', batch, b, H)
                          | (True, b) \<Rightarrow>
                              let H = set_cursor ((cursor h)\<lparr>cslot := next\<rparr>) H
                              in case victim of
                                   None \<Rightarrow> (Ok True, batch, b, H)
                                 | Some victim \<Rightarrow> (case sweep_dead P i victim batch H of (x, batch, H) \<Rightarrow> (x, batch, b, H)))))"

definition sweep_root :: "nat \<Rightarrow> batch \<Rightarrow> ('o, 's) gc_heap \<Rightarrow> bool gc_result \<times> batch \<times> ('o, 's) gc_heap" where
  "sweep_root n batch H =
     (if n \<noteq> 0 then
        (case release_one (groots H) of
           (x, rs) \<Rightarrow> let H = H\<lparr>groots := rs\<rparr>
             in case x of
                  Err e \<Rightarrow> (Err e, batch, H)
                | Panic m \<Rightarrow> (Panic m, batch, H)
                | Ok None \<Rightarrow> (Err (Storage ''root release snapshot exhausted''), batch, H)
                | Ok (Some root) \<Rightarrow>
                    (case push_root root batch of
                       Ok batch \<Rightarrow> (Ok True, batch, H\<lparr>gsweep := SweepRoots (n - 1)\<rparr>)
                     | Err e \<Rightarrow> (Err e, batch, H)
                     | Panic m \<Rightarrow> (Panic m, batch, H)))
      else (Ok True, batch, H\<lparr>gsweep := SweepDescriptors (length (dactive (descriptors_of (gphysical H))))\<rparr>))"

definition sweep_descriptor :: "nat \<Rightarrow> batch \<Rightarrow> ('o, 's) gc_heap \<Rightarrow> bool gc_result \<times> batch \<times> ('o, 's) gc_heap" where
  "sweep_descriptor n batch H =
     (if batch_len batch \<noteq> 0 then (Ok False, batch, H)
      else if n \<noteq> 0 then
        (case retire_unused (gstrong H) (n - 1) (descriptors_of (gphysical H)) of
           Ok ds \<Rightarrow> (Ok True, batch, H\<lparr>gphysical := (gphysical H)\<lparr>descriptors_of := ds\<rparr>, gsweep := SweepDescriptors (n - 1)\<rparr>)
         | Err e \<Rightarrow> (Err e, batch, H)
         | Panic m \<Rightarrow> (Panic m, batch, H))
      else case checked_add (mcycles (gmarking H)) 1 of
        None \<Rightarrow> (Err (Limit ''completed cycles''), batch, H)
      | Some n \<Rightarrow> (Ok False, batch, H\<lparr>gmarking := (gmarking H)\<lparr>mcycles := n, mphase := Idle\<rparr>\<rparr>))"

definition sweep_step ::
    "('o, 's) provider \<Rightarrow> batch \<Rightarrow> scan_budget \<Rightarrow> ('o, 's) gc_heap \<Rightarrow> bool gc_result \<times> batch \<times> scan_budget \<times> ('o, 's) gc_heap" where
  "sweep_step P batch b H =
     (case gsweep H of
        SweepPhysical \<Rightarrow> sweep_page P batch b H
      | SweepRoots n \<Rightarrow> (case sweep_root n batch H of (x, batch, H) \<Rightarrow> (x, batch, b, H))
      | SweepDescriptors n \<Rightarrow> (case sweep_descriptor n batch H of (x, batch, H) \<Rightarrow> (x, batch, b, H)))"

lemma take_units_le: "take_units n b = (ok, b') \<Longrightarrow> remaining b' \<le> remaining b"
  by (auto simp: take_units_def split: if_splits)

lemma sweep_page_budget:
  assumes "sweep_page P batch b H = (x, batch', b', H')"
  shows "remaining b' \<le> remaining b"
proof (cases "cpage (cursor (gphysical H))")
  case None
  then show ?thesis using assms by (simp add: sweep_page_def)
next
  case (Some i)
  show ?thesis
  proof (cases "heap_page i (gphysical H)")
    case (Ok p)
    show ?thesis
    proof (cases "page_slots p \<le> cslot (cursor (gphysical H))")
      case True
      then show ?thesis using assms Some Ok by (simp add: sweep_page_def)
    next
      case False
      obtain n d where nd: "dead_slot p (cslot (cursor (gphysical H))) (mepoch (gmarking H)) (remaining b) = (n, d)" by fastforce
      obtain ok b1 where t: "take_units (n - cslot (cursor (gphysical H)) - 1) b = (ok, b1)" by fastforce
      have "b' = b1" using assms Some Ok False nd t by (cases ok; cases d) (auto simp: sweep_page_def Let_def split: prod.splits)
      then show ?thesis using take_units_le [OF t] by simp
    qed
  qed (use assms Some in \<open>auto simp: sweep_page_def\<close>)
qed

lemma sweep_step_budget:
  assumes "sweep_step P batch b H = (x, batch', b', H')"
  shows "remaining b' \<le> remaining b"
proof (cases "gsweep H")
  case SweepPhysical
  then show ?thesis using assms sweep_page_budget [of P batch b H] by (simp add: sweep_step_def)
next
  case (SweepRoots n)
  then show ?thesis using assms by (cases "sweep_root n batch H") (simp add: sweep_step_def)
next
  case (SweepDescriptors n)
  then show ?thesis using assms by (cases "sweep_descriptor n batch H") (simp add: sweep_step_def)
qed

lemma sweep_step_decreases:
  "(True, b1) = take_units (Suc 0) b \<Longrightarrow> (x, batch', b', H') = sweep_step P batch b1 H \<Longrightarrow> remaining b' < remaining b"
  using take_units_True [of "Suc 0" b b1] sweep_step_budget [of P batch b1 H x batch' b' H'] by simp linarith

function sweep_loop ::
    "('o, 's) provider \<Rightarrow> batch \<Rightarrow> scan_budget \<Rightarrow> ('o, 's) gc_heap \<Rightarrow> unit gc_result \<times> batch \<times> scan_budget \<times> ('o, 's) gc_heap" where
  "sweep_loop P batch b H =
     (if batch_len batch < RETIREMENT_CAP then
        (case take_units 1 b of
           (False, b) \<Rightarrow> (Ok (), batch, b, H)
         | (True, b) \<Rightarrow>
             (case sweep_step P batch b H of
                (Ok True, batch, b, H) \<Rightarrow> sweep_loop P batch b H
              | (Ok False, batch, b, H) \<Rightarrow> (Ok (), batch, b, H)
              | (Err e, batch, b, H) \<Rightarrow> (Err e, batch, b, H)
              | (Panic m, batch, b, H) \<Rightarrow> (Panic m, batch, b, H)))
      else (Ok (), batch, b, H))"
  by pat_completeness auto
termination
proof (relation "measure (\<lambda>(P, batch, b, H). remaining b)", goal_cases)
  case 2
  then show ?case using sweep_step_decreases by fastforce
qed simp

declare sweep_loop.simps [simp del]

text \<open>
  An error in the loop drops the batch: the destructors of the detached objects still run, their
  slots stay unavailable, and the caller faults the heap.
\<close>

definition discard_batch :: "batch \<Rightarrow> 'o objects \<Rightarrow> 'o objects" where
  "discard_batch batch os = discard_owners (owners batch) os"

definition sweep :: "('o, 's) provider \<Rightarrow> scan_budget \<Rightarrow> ('o, 's) gc_heap \<Rightarrow> nat gc_result \<times> scan_budget \<times> ('o, 's) gc_heap" where
  "sweep P b H =
     (case sweep_loop P batch_new b H of
        (Err e, batch, b, H) \<Rightarrow> (Err e, b, H\<lparr>gobjects := discard_batch batch (gobjects H)\<rparr>)
      | (Panic m, batch, b, H) \<Rightarrow> (Panic m, b, H\<lparr>gobjects := discard_batch batch (gobjects H)\<rparr>)
      | (Ok _, batch, b, H) \<Rightarrow>
          (case finish_owners P (owners batch) 0 (gobjects H) (gphysical H) of
             (x, os, h) \<Rightarrow> let H = H\<lparr>gobjects := os, gphysical := h\<rparr>
               in case x of
                    Err e \<Rightarrow> (Err e, b, H)
                  | Panic m \<Rightarrow> (Panic m, b, H)
                  | Ok panics \<Rightarrow>
                      if panics \<noteq> 0 then (Err (Provider ''object destructor panicked''), b, set_phase Faulted H)
                      else (Ok (batch_len batch), b, H)))"

subsection \<open>Service\<close>

text \<open>The loop of \<^verbatim>\<open>service\<close>; a scanner that never spends its budget would keep it running.\<close>

partial_function (option) service_loop ::
    "('o, 's) provider \<Rightarrow> ('q, 'c) root_source \<Rightarrow> scan_budget \<Rightarrow> ('o, 's) gc_heap \<Rightarrow> ('q, 'c) root_scan \<Rightarrow>
     (nat gc_result \<times> scan_budget \<times> ('o, 's) gc_heap \<times> ('q, 'c) root_scan) option" where
  "service_loop P Q b H r =
     (if remaining b = 0 then Some (Ok 0, b, H, r)
      else case mphase (gmarking H) of
        phase.Roots \<Rightarrow>
          (case scan_roots Q b H r of
             (Ok continue, b, H, r) \<Rightarrow> if continue then service_loop P Q b H r else Some (Ok 0, b, H, r)
           | (Err e, b, H, r) \<Rightarrow> Some (Err e, b, H, r)
           | (Panic m, b, H, r) \<Rightarrow> Some (Panic m, b, H, r))
      | Mark \<Rightarrow>
          (case scan_object P b H of
             (Ok continue, b, H) \<Rightarrow> if continue then service_loop P Q b H r else Some (Ok 0, b, H, r)
           | (Err e, b, H) \<Rightarrow> Some (Err e, b, H, r)
           | (Panic m, b, H) \<Rightarrow> Some (Panic m, b, H, r))
      | Sweep \<Rightarrow> (case sweep P b H of (x, b, H) \<Rightarrow> Some (x, b, H, r))
      | Idle \<Rightarrow> Some (Ok 0, b, H, r)
      | _ \<Rightarrow> Some (and_then (marking_check (gmarking H)) (\<lambda>_. Ok 0), b, H, r))"

definition start_cycle ::
    "('q, 'c) root_source \<Rightarrow> ('o, 's) gc_heap \<Rightarrow> ('q, 'c) root_scan \<Rightarrow> unit gc_result \<times> ('o, 's) gc_heap \<times> ('q, 'c) root_scan" where
  "start_cycle Q H r =
     (case marking_start (gmarking H) of
        Err e \<Rightarrow> (Err e, H, r)
      | Panic m \<Rightarrow> (Panic m, H, r)
      | Ok m \<Rightarrow> let H = H\<lparr>gmarking := m\<rparr>
          in case source_begin_scan Q r of
               (Err e, r) \<Rightarrow> (Err e, H, r)
             | (Panic p, r) \<Rightarrow> (Panic p, H, r)
             | (Ok _, r) \<Rightarrow>
                 (Ok (), H\<lparr>gledger := (gledger H)\<lparr>allocation_growth := 0\<rparr>,
                           groot_cursor := root_cursor_default\<lparr>rc_end := length (ractive (groots H))\<rparr>\<rparr>, r))"

definition service ::
    "('o, 's) provider \<Rightarrow> ('q, 'c) root_source \<Rightarrow> scan_budget \<Rightarrow> ('o, 's) gc_heap \<Rightarrow> ('q, 'c) root_scan \<Rightarrow>
     (nat gc_result \<times> scan_budget \<times> ('o, 's) gc_heap \<times> ('q, 'c) root_scan) option" where
  "service P Q b H r =
     (if mphase (gmarking H) = Idle then
        (case take_units 1 b of
           (False, b) \<Rightarrow> Some (Ok 0, b, H, r)
         | (True, b) \<Rightarrow>
             (case start_cycle Q H r of
                (Ok _, H, r) \<Rightarrow> service_loop P Q b H r
              | (Err e, H, r) \<Rightarrow> Some (Err e, b, H, r)
              | (Panic m, H, r) \<Rightarrow> Some (Panic m, b, H, r)))
      else service_loop P Q b H r)"

subsection \<open>Reference definitions\<close>

definition descriptor_at :: "physical_heap \<Rightarrow> nat \<Rightarrow> descriptor option" where
  "descriptor_at h a = Option.bind (header_descriptor h a) (\<lambda>d. map_option entry_descriptor (registered d (descriptors_of h)))"

definition edges_at :: "'o edge_map \<Rightarrow> physical_heap \<Rightarrow> 'o objects \<Rightarrow> nat \<Rightarrow> nat set" where
  "edges_at E h os a = (case (descriptor_at h a, os a) of (Some d, Some x) \<Rightarrow> payload_edges E d x | _ \<Rightarrow> {})"

text \<open>The roots: targets of registrations that have a handle, and the roots of the source.\<close>

definition host_roots :: "roots \<Rightarrow> nat set" where
  "host_roots rs = {a. \<exists>i s. registration rs i = Some s \<and> 0 < strong rs (elease (entry s)) \<and> Some a \<in> set (targets (entry s))}"

definition source_roots :: "('q \<Rightarrow> nat set) \<Rightarrow> ('q, 'c) root_scan \<Rightarrow> nat set" where
  "source_roots S r = (case r of NoSource \<Rightarrow> {} | Source s \<Rightarrow> S (sroots s))"

definition gc_roots :: "('q \<Rightarrow> nat set) \<Rightarrow> ('o, 's) gc_heap \<Rightarrow> ('q, 'c) root_scan \<Rightarrow> nat set" where
  "gc_roots S H r = host_roots (groots H) \<union> source_roots S r"

definition reachable :: "'o edge_map \<Rightarrow> ('q \<Rightarrow> nat set) \<Rightarrow> ('o, 's) gc_heap \<Rightarrow> ('q, 'c) root_scan \<Rightarrow> nat set" where
  "reachable E S H r = {b. \<exists>a \<in> gc_roots S H r. (\<lambda>x y. y \<in> edges_at E (gphysical H) (gobjects H) x)\<^sup>*\<^sup>* a b}"

text \<open>The roots that the scan of the current cycle has passed.\<close>

definition passed_target :: "root_cursor \<Rightarrow> nat \<Rightarrow> nat \<Rightarrow> bool" where
  "passed_target c k j \<longleftrightarrow> k < rc_next c \<or> rc_end c \<le> k \<or> k = rc_next c \<and> j < rc_target c"

definition passed_roots :: "root_cursor \<Rightarrow> roots \<Rightarrow> nat set" where
  "passed_roots c rs = {a. \<exists>k s j. k < length (ractive rs) \<and> registration rs (ractive rs ! k) = Some s \<and> 0 < strong rs (elease (entry s)) \<and>
     j < length (targets (entry s)) \<and> targets (entry s) ! j = Some a \<and> passed_target c k j}"

definition passed_source :: "('q \<Rightarrow> nat set) \<Rightarrow> ('q \<Rightarrow> 'c \<Rightarrow> nat set) \<Rightarrow> ('q, 'c) root_scan \<Rightarrow> nat set" where
  "passed_source S D r = (case r of NoSource \<Rightarrow> {}
     | Source s \<Rightarrow> if scomplete s then S (sroots s) else (case scursor s of None \<Rightarrow> {} | Some c \<Rightarrow> D (sroots s) c))"

definition cursor_ok :: "('o, 's) gc_heap \<Rightarrow> bool" where
  "cursor_ok H \<longleftrightarrow> (let c = groot_cursor H; rs = groots H
     in rc_end c \<le> length (ractive rs) \<and> (rc_next c < rc_end c \<longrightarrow> rc_active c = None \<and> rc_target c = 0 \<or>
        (\<exists>s. registration rs (ractive rs ! rc_next c) = Some s \<and>
           rc_active c = Some \<lparr>id_heap = gid H, id_slot = ractive rs ! rc_next c, id_generation = generation s\<rparr>)))"

definition active_ok :: "('o, 's) cover_map \<Rightarrow> ('o, 's) gc_heap \<Rightarrow> active_scan \<Rightarrow> bool" where
  "active_ok C H ac \<longleftrightarrow> aowner ac \<in> live_set (gphysical H) \<and> descriptor_at (gphysical H) (aowner ac) = Some (adescriptor ac) \<and>
     (\<not> restart ac \<longrightarrow> state_fits (desc_rep (adescriptor ac)) (gworkspace H) \<and>
        (\<forall>x. gobjects H (aowner ac) = Some x \<longrightarrow>
           payload_covered C (adescriptor ac) x (gworkspace H) \<subseteq> found_set (gphysical H) (mepoch (gmarking H))))"

definition active_slots :: "('o, 's) gc_heap \<Rightarrow> (nat \<times> nat) set" where
  "active_slots H = (case gactive H of None \<Rightarrow> {}
     | Some ac \<Rightarrow> {(i, s). slot_at (gphysical H) i s = Occupied \<and> slot_address (gphysical H) i s = Some (aowner ac)})"

text \<open>Every object has the representation its descriptor says.\<close>

definition typed_objects :: "('o, 's) provider \<Rightarrow> physical_heap \<Rightarrow> 'o objects \<Rightarrow> bool" where
  "typed_objects P h os \<longleftrightarrow>
     (\<forall>a \<in> live_set h. \<exists>d x. descriptor_at h a = Some d \<and> os a = Some x \<and> payload_fits (desc_rep d) x) \<and>
     (\<forall>d e. registered d (descriptors_of h) = Some e \<longrightarrow> descriptor_fits P (entry_descriptor e))"

text \<open>Edges within a set; no edge from a black object to an undiscovered one.\<close>

definition closed_in :: "(nat \<Rightarrow> nat set) \<Rightarrow> nat set \<Rightarrow> bool" where
  "closed_in G X \<longleftrightarrow> (\<forall>a \<in> X. G a \<subseteq> X)"

definition tricolour :: "'o edge_map \<Rightarrow> ('o, 's) gc_heap \<Rightarrow> bool" where
  "tricolour E H \<longleftrightarrow> (\<forall>a \<in> black_set (gphysical H) (mepoch (gmarking H)).
     edges_at E (gphysical H) (gobjects H) a \<subseteq> found_set (gphysical H) (mepoch (gmarking H)))"

definition sweep_inv :: "('o, 's) gc_heap \<Rightarrow> bool" where
  "sweep_inv H \<longleftrightarrow> (let h = gphysical H; e = mepoch (gmarking H)
     in \<exists>act avs. heap_at {} h act avs \<and> swept h e act \<and>
        (case gsweep H of
           SweepPhysical \<Rightarrow> True
         | SweepRoots n \<Rightarrow> cpage (cursor h) = None \<and> n \<le> pending_releases (groots H)
         | SweepDescriptors n \<Rightarrow> cpage (cursor h) = None \<and> n \<le> length (dactive (descriptors_of h))))"

definition phase_inv ::
    "'o edge_map \<Rightarrow> ('o, 's) cover_map \<Rightarrow> ('q \<Rightarrow> nat set) \<Rightarrow> ('q \<Rightarrow> 'c \<Rightarrow> nat set) \<Rightarrow> ('o, 's) gc_heap \<Rightarrow> ('q, 'c) root_scan \<Rightarrow> bool" where
  "phase_inv E C S D H r \<longleftrightarrow>
     (let h = gphysical H; e = mepoch (gmarking H); G = edges_at E h (gobjects H)
      in case mphase (gmarking H) of
           Idle \<Rightarrow> closed_in G (live_set h) \<and> gc_roots S H r \<subseteq> live_set h \<and> pending (gmarking H) = [] \<and> gactive H = None
         | phase.Roots \<Rightarrow> closed_in G (live_set h) \<and> gc_roots S H r \<subseteq> live_set h \<and> tricolour E H \<and> gactive H = None \<and> cursor_ok H \<and>
             passed_roots (groot_cursor H) (groots H) \<union> passed_source S D r \<subseteq> found_set h e
         | Mark \<Rightarrow> closed_in G (live_set h) \<and> gc_roots S H r \<subseteq> found_set h e \<and> tricolour E H \<and> (\<forall>ac. gactive H = Some ac \<longrightarrow> active_ok C H ac)
         | Sweep \<Rightarrow> closed_in G (black_set h e) \<and> gc_roots S H r \<subseteq> black_set h e \<and> pending (gmarking H) = [] \<and> gactive H = None \<and> sweep_inv H
         | _ \<Rightarrow> False)"

definition gc_inv ::
    "('o, 's) provider \<Rightarrow> 'o edge_map \<Rightarrow> ('o, 's) cover_map \<Rightarrow> ('q \<Rightarrow> nat set) \<Rightarrow> ('q \<Rightarrow> 'c \<Rightarrow> nat set) \<Rightarrow>
     ('o, 's) gc_heap \<Rightarrow> ('q, 'c) root_scan \<Rightarrow> bool" where
  "gc_inv P E C S D H r \<longleftrightarrow> heap_inv (gphysical H) \<and> uses_ok [] (gphysical H) \<and> typed_objects P (gphysical H) (gobjects H) \<and>
     mark_inv (active_slots H) (visitor H) \<and> roots_inv (groots H) \<and> connected (released (groots H)) \<and> rheap (groots H) = gid H \<and>
     phase_inv E C S D H r"

section \<open>What the program sees\<close>

text \<open>
  A step of the collector keeps the roots and every reachable object: it stays allocated, with
  its descriptor and its contents.
\<close>

definition kept ::
    "'o edge_map \<Rightarrow> ('q \<Rightarrow> nat set) \<Rightarrow> ('o, 's) gc_heap \<Rightarrow> ('q, 'c) root_scan \<Rightarrow> ('o, 's) gc_heap \<Rightarrow> ('q, 'c) root_scan \<Rightarrow> bool" where
  "kept E S H r H' r' \<longleftrightarrow> gc_roots S H' r' = gc_roots S H r \<and>
     (\<forall>a \<in> reachable E S H r. a \<in> live_set (gphysical H') \<and> gobjects H' a = gobjects H a \<and>
        descriptor_at (gphysical H') a = descriptor_at (gphysical H) a)"

lemma edges_at_cong: "descriptor_at h' a = descriptor_at h a \<Longrightarrow> os' a = os a \<Longrightarrow> edges_at E h' os' a = edges_at E h os a"
  by (simp add: edges_at_def)

lemma reachable_mono:
  assumes "b \<in> reachable E S H r" "gc_roots S H r \<subseteq> gc_roots S H' r'"
    "\<And>a. a \<in> reachable E S H r \<Longrightarrow> edges_at E (gphysical H) (gobjects H) a \<subseteq> edges_at E (gphysical H') (gobjects H') a"
  shows "b \<in> reachable E S H' r'"
proof -
  from assms(1) obtain a where a: "a \<in> gc_roots S H r" "(\<lambda>x y. y \<in> edges_at E (gphysical H) (gobjects H) x)\<^sup>*\<^sup>* a b" by (auto simp: reachable_def)
  from a(2) have "(\<lambda>x y. y \<in> edges_at E (gphysical H') (gobjects H') x)\<^sup>*\<^sup>* a b"
  proof (induction rule: rtranclp_induct)
    case (step y z)
    have "y \<in> reachable E S H r" using a(1) step(1) by (auto simp: reachable_def)
    then show ?case using assms(3) step(2,3) by (meson rtranclp.rtrancl_into_rtrancl subsetD)
  qed simp
  then show ?thesis using a(1) assms(2) by (auto simp: reachable_def)
qed

lemma kept_reachable:
  assumes "kept E S H r H' r'"
  shows "reachable E S H' r' = reachable E S H r"
proof (rule antisym)
  have e: "edges_at E (gphysical H') (gobjects H') a = edges_at E (gphysical H) (gobjects H) a" if "a \<in> reachable E S H r" for a
    using assms that by (intro edges_at_cong) (auto simp: kept_def)
  have g: "gc_roots S H' r' = gc_roots S H r" using assms by (simp add: kept_def)
  show "reachable E S H r \<subseteq> reachable E S H' r'" using reachable_mono [where H = H and H' = H'] e g by blast
  show "reachable E S H' r' \<subseteq> reachable E S H r"
  proof
    fix b assume "b \<in> reachable E S H' r'"
    then obtain a where a: "a \<in> gc_roots S H r" "(\<lambda>x y. y \<in> edges_at E (gphysical H') (gobjects H') x)\<^sup>*\<^sup>* a b" by (auto simp: reachable_def g)
    from a(2) have "(\<lambda>x y. y \<in> edges_at E (gphysical H) (gobjects H) x)\<^sup>*\<^sup>* a b"
    proof (induction rule: rtranclp_induct)
      case (step y z)
      have "y \<in> reachable E S H r" using a(1) step(3) by (auto simp: reachable_def)
      then show ?case using e step(2,3) by (auto intro: rtranclp.rtrancl_into_rtrancl)
    qed simp
    then show "b \<in> reachable E S H r" using a(1) by (auto simp: reachable_def)
  qed
qed

lemma kept_refl: "reachable E S H r \<subseteq> live_set (gphysical H) \<Longrightarrow> kept E S H r H r"
  by (auto simp: kept_def)

lemma kept_trans: "kept E S H r H' r' \<Longrightarrow> kept E S H' r' H'' r'' \<Longrightarrow> kept E S H r H'' r''"
  using kept_reachable [of E S H r H' r'] by (simp add: kept_def)

lemma root_reachable: "gc_roots S H r \<subseteq> reachable E S H r"
  by (auto simp: reachable_def)

lemma edge_reachable: "a \<in> reachable E S H r \<Longrightarrow> edges_at E (gphysical H) (gobjects H) a \<subseteq> reachable E S H r"
  unfolding reachable_def by (auto intro: rtranclp.rtrancl_into_rtrancl)

text \<open>A set that contains the roots and is closed under edges contains what is reachable.\<close>

lemma reachable_closed:
  assumes "gc_roots S H r \<subseteq> X" "closed_in (edges_at E (gphysical H) (gobjects H)) X"
  shows "reachable E S H r \<subseteq> X"
proof
  fix b assume "b \<in> reachable E S H r"
  then obtain a where "a \<in> X" "(\<lambda>x y. y \<in> edges_at E (gphysical H) (gobjects H) x)\<^sup>*\<^sup>* a b" using assms(1) by (auto simp: reachable_def)
  from this(2,1) show "b \<in> X" by (induction rule: rtranclp_induct) (use assms(2) in \<open>auto simp: closed_in_def\<close>)
qed

lemma black_found:
  assumes "mark_inv A v"
  shows "black_set (physical v) (mepoch (marking v)) \<subseteq> found_set (physical v) (mepoch (marking v))"
  using assms unfolding mark_inv_def Let_def black_set_def found_set_def by blast

lemma found_live: "found_set h e \<subseteq> live_set h" "black_set h e \<subseteq> live_set h"
  by (auto simp: found_set_def live_set_def black_set_def)

lemma visitor_simps [simp]:
  "visitor (visited v H) = v" "gobjects (visited v H) = gobjects H" "groots (visited v H) = groots H" "gactive (visited v H) = gactive H"
  "groot_cursor (visited v H) = groot_cursor H" "gphysical (visited v H) = physical v" "gmarking (visited v H) = marking v"
  "gid (visited v H) = gid H" "gsweep (visited v H) = gsweep H" "gworkspace (visited v H) = gworkspace H" "gledger (visited v H) = gledger H"
  "physical (visitor H) = gphysical H" "marking (visitor H) = gmarking H" "visited (visitor H) H = H"
  by (simp_all add: visitor_def visited_def)

lemma same_objects_view:
  assumes "same_objects h h'"
  shows "descriptor_at h' a = descriptor_at h a" "edges_at E h' os a = edges_at E h os a" "uses_ok B h' = uses_ok B h" "typed_objects P h' os = typed_objects P h os"
    "live_set h' = live_set h" "leaf_set h' = leaf_set h" "descriptors_of h' = descriptors_of h"
proof -
  have m: "memory h' = memory h" "descriptors_of h' = descriptors_of h" using assms by (simp_all add: same_objects_def)
  show d: "descriptor_at h' a = descriptor_at h a" for a using m by (simp add: descriptor_at_def header_descriptor_def)
  show "edges_at E h' os a = edges_at E h os a" by (simp add: edges_at_def d)
  show l: "live_set h' = live_set h" "leaf_set h' = leaf_set h" using same_objects_live [OF assms] by simp_all
  show "uses_ok B h' = uses_ok B h" "typed_objects P h' os = typed_objects P h os"
    using m l d by (simp_all add: uses_ok_def users_def header_descriptor_def typed_objects_def)
  show "descriptors_of h' = descriptors_of h" by (rule m)
qed

lemma leaf_descriptor:
  assumes "a \<in> leaf_set h" "heap_inv h"
  shows "\<exists>d. descriptor_at h a = Some d \<and> desc_kind d = EdgeFree \<and> (\<exists>c e. registered c (descriptors_of h) = Some e \<and> entry_descriptor e = d)"
  using assms by (auto simp: leaf_set_def leaf_at_def descriptor_at_def header_descriptor_def) blast

lemma object_descriptor:
  assumes inv: "heap_inv h" and s: "slot_at h i s = Occupied" "slot_address h i s = Some a"
  shows "\<exists>d e. descriptor_at h a = Some d \<and> resolve a h = Ok \<lparr>opointer = a + payload_offset d, odescriptor = d, opage = i, oslot = s\<rparr> \<and>
    header_descriptor h a = Some (desc_id d) \<and> registered (desc_id d) (descriptors_of h) = Some e \<and> entry_descriptor e = d"
proof -
  from object_at_occupied [OF assms] obtain d e where d: "memory h a = Some \<lparr>hdescriptor = d, hallocation = i\<rparr>" "registered d (descriptors_of h) = Some e"
    "resolve a h = Ok \<lparr>opointer = a + payload_offset (entry_descriptor e), odescriptor = entry_descriptor e, opage = i, oslot = s\<rparr>" by blast
  obtain act avs where "heap_at {} h act avs" using inv by (auto simp: heap_inv_def)
  then have "registry_inv (descriptors_of h)" using heap_atD(7) by (fastforce simp: memory_ok_def)
  then have "desc_id (entry_descriptor e) = d" using d(2) by (simp add: registry_inv_def)
  then show ?thesis using d by (auto simp: descriptor_at_def header_descriptor_def)
qed

text \<open>The collector with its two suppliers of edges.\<close>

locale collector = gc_objects P E C + source: edge_scanner "source_begin Q" "source_hook Q" S D
  for P :: "('o, 's) provider" and E C and Q :: "('q, 'c) root_source" and S D
begin

lemma leaf_no_edges:
  assumes "a \<in> leaf_set h" "heap_inv h" "typed_objects P h os"
  shows "edges_at E h os a = {}"
proof -
  from leaf_descriptor [OF assms(1,2)] obtain d c e where d: "descriptor_at h a = Some d" "desc_kind d = EdgeFree" "registered c (descriptors_of h) = Some e" "entry_descriptor e = d" by blast
  then have "descriptor_fits P d" using assms(3) by (auto simp: typed_objects_def)
  then show ?thesis using leaf_edges d by (auto simp: edges_at_def split: option.splits)
qed

text \<open>Discovering objects keeps the tricolour invariant: what turns black at once has no edges.\<close>

lemma discovery:
  assumes inv: "heap_inv (gphysical H)" "typed_objects P (gphysical H) (gobjects H)"
    and sc: "scanned V (visitor H) v'" "V \<subseteq> live_set (gphysical H)" and tri: "tricolour E H"
  shows "tricolour E (visited v' H)" "found_set (physical v') (mepoch (gmarking H)) = found_set (gphysical H) (mepoch (gmarking H)) \<union> V"
    "same_objects (gphysical H) (physical v')" "mphase (marking v') = mphase (gmarking H)" "mepoch (marking v') = mepoch (gmarking H)"
    "mcycles (marking v') = mcycles (gmarking H)"
proof -
  note SS = scanned_sets [OF sc(1) _ refl, simplified, OF sc(2) inv(1)]
  then show "found_set (physical v') (mepoch (gmarking H)) = found_set (gphysical H) (mepoch (gmarking H)) \<union> V"
    "same_objects (gphysical H) (physical v')" "mphase (marking v') = mphase (gmarking H)" "mepoch (marking v') = mepoch (gmarking H)"
    "mcycles (marking v') = mcycles (gmarking H)" by auto
  have "edges_at E (gphysical H) (gobjects H) a = {}" if "a \<in> leaf_set (gphysical H)" for a using leaf_no_edges that inv by blast
  then show "tricolour E (visited v' H)" using tri SS(1,2,5) same_objects_view(2) [OF SS(3)] by (fastforce simp: tricolour_def)
qed

end

end
