(* ===== verification/Gc_Root_Phase.thy ===== *)
theory Gc_Root_Phase
  imports Gc_Collector
begin

text \<open>
  The root-scanning phase keeps the invariant and every reachable object, on every branch: a
  registration, the step to the next one, the source, and the change to marking. \<open>worked\<close> relates
  a budget to what later work leaves of it; \<open>precise\<close> says that only reachable objects have been
  discovered in this cycle.
\<close>

definition precise :: "'o edge_map \<Rightarrow> ('q \<Rightarrow> nat set) \<Rightarrow> ('o, 's) gc_heap \<Rightarrow> ('q, 'c) root_scan \<Rightarrow> bool" where
  "precise E S H r \<longleftrightarrow> found_set (gphysical H) (mepoch (gmarking H)) \<subseteq> reachable E S H r"

definition budget_ok :: "scan_budget \<Rightarrow> bool" where
  "budget_ok b \<longleftrightarrow> remaining b + spent b \<le> usize_max"

text \<open>One budget is what another has become after some work.\<close>

definition worked :: "scan_budget \<Rightarrow> scan_budget \<Rightarrow> bool" where
  "worked b b' \<longleftrightarrow> remaining b' \<le> remaining b \<and> spent b \<le> spent b' \<and> (budget_ok b \<longrightarrow> budget_ok b')"

section \<open>Budgets\<close>

lemma worked_refl [simp]: "worked b b"
  by (simp add: worked_def)

lemma worked_trans: "worked b b' \<Longrightarrow> worked b' b'' \<Longrightarrow> worked b b''"
  by (auto simp: worked_def)

lemma take_worked: "take_units n b = (ok, b') \<Longrightarrow> worked b b'"
  by (auto simp: take_units_def worked_def budget_ok_def split: if_splits)

lemma charge_worked: "charge_units n b = Ok b' \<Longrightarrow> worked b b'"
  by (auto simp: charge_units_def worked_def budget_ok_def checked_add_def saturating_sub_def rust_simps split: if_splits option.splits)

lemma publish_located_budget:
  assumes "publish_located loc (Some b) v = (x, b', v')"
  shows "\<exists>c. b' = Some c \<and> worked b c"
proof -
  let ?n = "if reset_needed (page_marks_of (lpage loc)) (mepoch (marking v)) then 4 else 0 :: nat"
  obtain ok c where t: "take_units ?n b = (ok, c)" by fastforce
  have "b' = Some c" using assms t by (auto simp: publish_located_def charge_publication_def Let_def split: bool.splits outcome.splits if_splits)
  then show ?thesis using take_worked [OF t] by blast
qed

lemma visit_worked:
  assumes "try_visit_reference a b v = (x, b', v')"
  shows "worked b b'"
proof -
  obtain c where p: "publish a (Some b) v = (x, c, v')" "b' = (case c of Some b \<Rightarrow> b | None \<Rightarrow> b)"
    using assms by (auto simp: try_visit_reference_def split: prod.splits)
  show ?thesis
  proof (cases "c = Some b")
    case False
    then obtain loc where "publish_located loc (Some b) v = (x, c, v')"
      using p(1) by (auto simp: publish_def publish_admitted_def split: outcome.splits if_splits)
    then show ?thesis using publish_located_budget p(2) by fastforce
  qed (use p(2) in simp)
qed

lemma scan_run_worked:
  assumes "scan_run E bv V bv'"
  shows "worked (fst bv) (fst bv')"
  using assms
proof (induction rule: scan_run.induct)
  case (run_take V b v n ok b')
  then show ?case using take_worked worked_trans by fastforce
next
  case (run_charge V b v n b')
  then show ?case using charge_worked worked_trans by fastforce
next
  case (run_visit V b v a r b' v')
  then show ?case using visit_worked worked_trans by fastforce
qed simp

section \<open>Scanning the roots\<close>

lemma mark_inv_phase:
  "mark_inv A \<lparr>physical = h, marking = m\<lparr>mphase := x\<rparr>\<rparr> = mark_inv A \<lparr>physical = h, marking = m\<rparr>"
  "mark_inv A \<lparr>physical = h, marking = m\<lparr>mcycles := n\<rparr>\<rparr> = mark_inv A \<lparr>physical = h, marking = m\<rparr>"
  by (simp_all add: mark_inv_def)

lemma visitor_eta: "\<lparr>physical = physical v, marking = marking v\<rparr> = v"
  by simp

lemma held_passed:
  assumes "roots_inv rs" "a \<in> host_roots rs"
  shows "\<exists>k s j. k < length (ractive rs) \<and> registration rs (ractive rs ! k) = Some s \<and> 0 < strong rs (elease (entry s)) \<and>
     j < length (targets (entry s)) \<and> targets (entry s) ! j = Some a"
proof -
  from assms(2) obtain i s where s: "registration rs i = Some s" "0 < strong rs (elease (entry s))" "Some a \<in> set (targets (entry s))" by (auto simp: host_roots_def)
  have "i \<in> set (ractive rs)" using roots_invD(3) [OF assms(1)] s(1) by simp
  then obtain k where "k < length (ractive rs)" "ractive rs ! k = i" by (auto simp: in_set_conv_nth)
  then show ?thesis using s by (metis in_set_conv_nth)
qed

lemma passed_subset: "roots_inv rs \<Longrightarrow> passed_roots c rs \<subseteq> host_roots rs"
  by (auto simp: passed_roots_def host_roots_def) (metis nth_mem)

lemma passed_all:
  assumes "roots_inv rs" "rc_end c \<le> rc_next c"
  shows "passed_roots c rs = host_roots rs"
proof
  show "host_roots rs \<subseteq> passed_roots c rs"
  proof
    fix a assume "a \<in> host_roots rs"
    from held_passed [OF assms(1) this] obtain k s j where k: "k < length (ractive rs)" "registration rs (ractive rs ! k) = Some s"
      "0 < strong rs (elease (entry s))" "j < length (targets (entry s))" "targets (entry s) ! j = Some a" by blast
    moreover have "passed_target c k j" using assms(2) by (simp add: passed_target_def) linarith
    ultimately show "a \<in> passed_roots c rs" unfolding passed_roots_def by blast
  qed
qed (rule passed_subset [OF assms(1)])

context collector
begin

text \<open>A step of the root scan that discovers \<open>V\<close> and moves the cursors over it.\<close>

lemma roots_step:
  assumes inv: "gc_inv P E C S D H r" and ph: "mphase (gmarking H) = phase.Roots"
    and v: "scanned V (visitor H) v" "V \<subseteq> gc_roots S H r" "heap_inv (physical v)" "mark_inv {} v"
    and H': "H' = (visited v H)\<lparr>groot_cursor := c\<rparr>" "cursor_ok H'"
    and r': "source_roots S r' = source_roots S r"
    and passed: "passed_roots c (groots H) \<subseteq> passed_roots (groot_cursor H) (groots H) \<union> V" "passed_source S D r' \<subseteq> passed_source S D r \<union> V"
  shows "gc_inv P E C S D H' r'" "kept E S H r H' r'" "precise E S H r \<longrightarrow> precise E S H' r'"
    "rc_end c \<le> rc_next c \<Longrightarrow> source_roots S r' \<subseteq> passed_source S D r' \<Longrightarrow>
      gc_inv P E C S D (set_phase Mark H') r' \<and> kept E S H r (set_phase Mark H') r' \<and> (precise E S H r \<longrightarrow> precise E S (set_phase Mark H') r')"
proof -
  let ?h = "gphysical H" and ?e = "mepoch (gmarking H)"
  have I: "heap_inv ?h" "uses_ok [] ?h" "typed_objects P ?h (gobjects H)" "roots_inv (groots H)" "connected (released (groots H))" "rheap (groots H) = gid H"
    "closed_in (edges_at E ?h (gobjects H)) (live_set ?h)" "gc_roots S H r \<subseteq> live_set ?h" "tricolour E H" "gactive H = None"
    "passed_roots (groot_cursor H) (groots H) \<union> passed_source S D r \<subseteq> found_set ?h ?e"
    using inv ph by (simp_all add: gc_inv_def phase_inv_def Let_def)
  have Vl: "V \<subseteq> live_set ?h" using v(2) I(8) by blast
  note N = discovery [OF I(1,3) v(1) Vl I(9)]
  note W = same_objects_view [OF N(3)]
  have sel: "gphysical H' = physical v" "gmarking H' = marking v" "gobjects H' = gobjects H" "groots H' = groots H" "gactive H' = None" "gid H' = gid H"
    "groot_cursor H' = c" "visitor H' = v"
    using I(10) by (simp_all add: H'(1) visitor_def)
  have gr: "gc_roots S H' r' = gc_roots S H r" by (simp add: gc_roots_def sel r')
  have tri: "tricolour E H'" using N(1) by (simp add: tricolour_def sel)
  have f: "passed_roots c (groots H) \<union> passed_source S D r' \<subseteq> found_set (physical v) ?e" using passed I(11) N(2) by blast
  have base: "heap_inv (gphysical H')" "uses_ok [] (gphysical H')" "typed_objects P (gphysical H') (gobjects H')" "roots_inv (groots H')"
    "closed_in (edges_at E (gphysical H') (gobjects H')) (live_set (gphysical H'))" "gc_roots S H' r' \<subseteq> live_set (gphysical H')"
    using I(1-8) v(3) gr by (simp_all add: sel closed_in_def W)
  have as: "active_slots H' = {}" by (simp add: active_slots_def sel)
  show g: "gc_inv P E C S D H' r'"
    using base v(4) I(5,6) tri H'(2) f N(4,5) ph by (simp add: gc_inv_def phase_inv_def sel as)
  have R: "reachable E S H r \<subseteq> live_set ?h" by (rule reachable_closed [OF I(8,7)])
  have k: "kept E S H r X r'" if "gphysical X = physical v" "gobjects X = gobjects H" "groots X = groots H" for X
    using R that r' by (auto simp: kept_def gc_roots_def W(1,5))
  show k1: "kept E S H r H' r'" by (rule k) (simp_all add: sel)
  have VR: "V \<subseteq> reachable E S H r" using v(2) root_reachable [of S H r E] by blast
  have pr: "precise E S X r'" if "precise E S H r" "kept E S H r X r'" "gphysical X = physical v" "mepoch (gmarking X) = ?e" for X
    using that VR N(2) kept_reachable [OF that(2)] by (simp add: precise_def)
  show "precise E S H r \<longrightarrow> precise E S H' r'" using pr k1 N(5) by (simp add: sel)
  assume e: "rc_end c \<le> rc_next c" "source_roots S r' \<subseteq> passed_source S D r'"
  let ?M = "set_phase Mark H'"
  have selM: "gphysical ?M = physical v" "gobjects ?M = gobjects H" "groots ?M = groots H" "gactive ?M = None" "mphase (gmarking ?M) = Mark"
    "mepoch (gmarking ?M) = ?e" "gid ?M = gid H" using N(5) by (simp_all add: set_phase_def sel)
  have kM: "kept E S H r ?M r'" by (rule k) (simp_all add: selM)
  have "gc_roots S ?M r' \<subseteq> found_set (physical v) ?e"
    using f e(2) passed_all [OF I(4) e(1)] by (auto simp: gc_roots_def selM)
  moreover have "mark_inv {} (visitor ?M)" using v(4) by (simp add: set_phase_def visitor_def sel mark_inv_phase visitor_eta)
  moreover have "tricolour E ?M" using tri N(5) by (simp add: tricolour_def selM sel)
  ultimately have "gc_inv P E C S D ?M r'" using base I(5,6) by (simp add: gc_inv_def phase_inv_def selM sel active_slots_def)
  then show "gc_inv P E C S D ?M r' \<and> kept E S H r ?M r' \<and> (precise E S H r \<longrightarrow> precise E S ?M r')" using kM pr selM by blast
qed

text \<open>What a step leaves: on success the invariant, and always every reachable object.\<close>

lemma source_scan_ok:
  assumes inv: "gc_inv P E C S D H r" and ph: "mphase (gmarking H) = phase.Roots" and c: "rc_end (groot_cursor H) \<le> rc_next (groot_cursor H)"
    and run: "scan_source Q b H r = (x, b', H', r')"
  shows "kept E S H r H' r'" "precise E S H r \<longrightarrow> precise E S H' r'" "x = Ok y \<longrightarrow> gc_inv P E C S D H' r'" "worked b b'" "x = Ok True \<longrightarrow> remaining b' < remaining b"
proof -
  obtain z r1 b1 v where st: "source_scan_step Q r b (visitor H) = (z, r1, b1, v)" by (metis prod_cases4)
  have I: "heap_inv (gphysical H)" "mark_inv {} (visitor H)" "gc_roots S H r \<subseteq> live_set (gphysical H)" "cursor_ok H"
    using inv ph by (auto simp: gc_inv_def phase_inv_def Let_def active_slots_def)
  have "\<exists>V. V \<subseteq> source_roots S r \<and> scanned V (visitor H) v \<and> heap_inv (physical v) \<and> mark_inv {} v \<and> source_roots S r1 = source_roots S r \<and> worked b b1 \<and>
      (z = Ok Pending \<or> z = Ok Complete \<longrightarrow> passed_source S D r1 \<subseteq> passed_source S D r \<union> V) \<and> (z = Ok Complete \<longrightarrow> source_roots S r1 \<subseteq> passed_source S D r1)"
  proof (cases r)
    case NoSource
    then show ?thesis using st I scanned_refl [of "visitor H"] by (intro exI [of _ "{}"]) (auto simp: source_scan_step_def source_roots_def passed_source_def)
  next
    case (Source s)
    show ?thesis
    proof (cases "scomplete s \<or> scursor s = None")
      case True
      then show ?thesis using st I Source scanned_refl [of "visitor H"]
        by (intro exI [of _ "{}"]) (auto simp: source_scan_step_def source_roots_def passed_source_def)
    next
      case False
      then obtain k where k: "scursor s = Some k" by auto
      obtain w k' where w: "source_hook Q (sroots s) k b (visitor H) = (w, k', b1, v)"
        and r1: "r1 = Source (s\<lparr>scursor := Some k'\<rparr>) \<and> (\<forall>t. z \<noteq> Ok t) \<or> (\<exists>t. z = Ok t \<and> w = Ok t \<and> r1 = Source (s\<lparr>scursor := Some k', scomplete := (t = Complete)\<rparr>))"
        using st Source False k by (auto simp: source_scan_step_def source_scan_check_def Let_def split: prod.splits outcome.splits if_splits)
      from source.scan_law [OF w] obtain V where V: "scan_run (S (sroots s)) (b, visitor H) V (b1, v)" "w = Ok Complete \<longrightarrow> S (sroots s) \<subseteq> D (sroots s) k \<union> V"
        "w = Ok Pending \<longrightarrow> D (sroots s) k' \<subseteq> D (sroots s) k \<union> V" by blast
      have sl: "S (sroots s) \<subseteq> live_set (gphysical H)" using I(3) Source by (simp add: gc_roots_def source_roots_def)
      from scan_run_ok [OF V(1), of "{}"] sl I(1,2) ph have "V \<subseteq> S (sroots s)" "scanned V (visitor H) v" "heap_inv (physical v)" "mark_inv {} v" by auto
      moreover have "worked b b1" using scan_run_worked [OF V(1)] by simp
      ultimately show ?thesis using r1 Source False k V(2,3)
        by (intro exI [of _ V]) (auto simp: source_roots_def passed_source_def split: if_splits)
    qed
  qed
  then obtain V where V: "V \<subseteq> source_roots S r" "scanned V (visitor H) v" "heap_inv (physical v)" "mark_inv {} v" "source_roots S r1 = source_roots S r" "worked b b1"
    "z = Ok Pending \<or> z = Ok Complete \<longrightarrow> passed_source S D r1 \<subseteq> passed_source S D r \<union> V" "z = Ok Complete \<longrightarrow> source_roots S r1 \<subseteq> passed_source S D r1" by blast
  have Vr: "V \<subseteq> gc_roots S H r" using V(1) by (auto simp: gc_roots_def)
  let ?v = "visited v H"
  have H1: "?v = ?v\<lparr>groot_cursor := groot_cursor H\<rparr>" by (simp add: visited_def)
  have cu: "cursor_ok ?v" using I(4) by (simp add: cursor_ok_def)
  have pz: "passed_roots (groot_cursor H) (groots H) \<subseteq> passed_roots (groot_cursor H) (groots H) \<union> V" by blast
  have anyr: "kept E S H r ?v r1 \<and> (precise E S H r \<longrightarrow> precise E S ?v r1)"
  proof -
    have "kept E S H r ?v r \<and> (precise E S H r \<longrightarrow> precise E S ?v r)"
      using roots_step(2,3) [OF inv ph V(2) Vr V(3,4) H1 cu refl pz] by blast
    moreover have "kept E S H r X r1 = kept E S H r X r" "precise E S X r1 = precise E S X r" for X
      by (simp_all add: kept_def precise_def reachable_def gc_roots_def V(5))
    ultimately show ?thesis by simp
  qed
  have good: "gc_inv P E C S D ?v r1" if "z = Ok t" for t
    using roots_step(1) [OF inv ph V(2) Vr V(3,4) H1 cu V(5) pz] V(7) that by (cases t) auto
  have mark: "gc_inv P E C S D (set_phase Mark ?v) r1 \<and> kept E S H r (set_phase Mark ?v) r1 \<and> (precise E S H r \<longrightarrow> precise E S (set_phase Mark ?v) r1)" if "z = Ok Complete"
    using roots_step(4) [OF inv ph V(2) Vr V(3,4) H1 cu V(5) pz _ c] V(7,8) that by blast
  show "kept E S H r H' r'" "precise E S H r \<longrightarrow> precise E S H' r'"
    using run st anyr mark by (auto simp: scan_source_def Let_def split: outcome.splits scan_status.splits prod.splits bool.splits)
  show "x = Ok y \<longrightarrow> gc_inv P E C S D H' r'"
    using run st good mark by (auto simp: scan_source_def Let_def split: outcome.splits scan_status.splits prod.splits bool.splits)
  show "worked b b'" using run st V(6) take_worked worked_trans
    by (fastforce simp: scan_source_def Let_def split: outcome.splits scan_status.splits prod.splits bool.splits)
  show "x = Ok True \<longrightarrow> remaining b' < remaining b" using run st V(6) take_units_True [of 1 b1]
    by (fastforce simp: scan_source_def Let_def worked_def split: outcome.splits scan_status.splits prod.splits bool.splits)
qed

end

lemma passed_next:
  assumes "rc_next c < rc_end c" "registration rs (ractive rs ! rc_next c) = Some s"
    "strong rs (elease (entry s)) = 0 \<or> length (targets (entry s)) \<le> rc_target c"
  shows "passed_roots (c\<lparr>rc_next := rc_next c + 1, rc_target := 0, rc_active := x\<rparr>) rs \<subseteq> passed_roots c rs"
proof
  fix a assume "a \<in> passed_roots (c\<lparr>rc_next := rc_next c + 1, rc_target := 0, rc_active := x\<rparr>) rs"
  then obtain k u j where k: "k < length (ractive rs)" "registration rs (ractive rs ! k) = Some u" "0 < strong rs (elease (entry u))"
    "j < length (targets (entry u))" "targets (entry u) ! j = Some a" "k < rc_next c + 1 \<or> rc_end c \<le> k" by (auto simp: passed_roots_def passed_target_def)
  have "k < rc_next c \<or> rc_end c \<le> k \<or> k = rc_next c \<and> j < rc_target c"
  proof (cases "k = rc_next c")
    case True
    then have "u = s" using k(2) assms(2) by simp
    then show ?thesis using True k(3,4) assms(3) by auto
  qed (use k(6) in linarith)
  then show "a \<in> passed_roots c rs" unfolding passed_roots_def passed_target_def using k by blast
qed

lemma passed_advance:
  assumes "rc_next c < rc_end c" "registration rs (ractive rs ! rc_next c) = Some s" "rc_target c < length (targets (entry s))"
  shows "passed_roots (c\<lparr>rc_target := rc_target c + 1, rc_active := x\<rparr>) rs \<subseteq> passed_roots c rs \<union> set_option (targets (entry s) ! rc_target c)"
proof
  fix a assume "a \<in> passed_roots (c\<lparr>rc_target := rc_target c + 1, rc_active := x\<rparr>) rs"
  then obtain k u j where k: "k < length (ractive rs)" "registration rs (ractive rs ! k) = Some u" "0 < strong rs (elease (entry u))"
    "j < length (targets (entry u))" "targets (entry u) ! j = Some a" "k < rc_next c \<or> rc_end c \<le> k \<or> k = rc_next c \<and> j < rc_target c + 1"
    by (auto simp: passed_roots_def passed_target_def)
  show "a \<in> passed_roots c rs \<union> set_option (targets (entry s) ! rc_target c)"
  proof (cases "k = rc_next c \<and> j = rc_target c")
    case True
    then show ?thesis using k assms(2) by auto
  next
    case False
    then have "passed_target c k j" using k(6) by (auto simp: passed_target_def)
    then show ?thesis unfolding passed_roots_def using k by blast
  qed
qed

lemma passed_same: "passed_roots (c\<lparr>rc_active := x\<rparr>) rs = passed_roots c rs"
  by (simp add: passed_roots_def passed_target_def)

context collector
begin

lemma scan_registration_ok:
  assumes inv: "gc_inv P E C S D H r" and ph: "mphase (gmarking H) = phase.Roots" and lt: "rc_next (groot_cursor H) < rc_end (groot_cursor H)"
    and run: "scan_registration b H = (x, b', H')"
  shows "kept E S H r H' r \<and> (precise E S H r \<longrightarrow> precise E S H' r) \<and> (x = Ok y \<longrightarrow> gc_inv P E C S D H' r) \<and> worked b b'"
proof -
  let ?c = "groot_cursor H" and ?rs = "groots H"
  let ?i = "ractive ?rs ! rc_next ?c"
  have I: "heap_inv (gphysical H)" "mark_inv {} (visitor H)" "gc_roots S H r \<subseteq> live_set (gphysical H)" "cursor_ok H" "roots_inv ?rs"
    using inv ph by (auto simp: gc_inv_def phase_inv_def Let_def active_slots_def)
  have n: "rc_next ?c < length (ractive ?rs)" using I(4) lt by (simp add: cursor_ok_def Let_def)
  then have "?i \<in> set (ractive ?rs)" by simp
  then obtain s where s: "registration ?rs ?i = Some s" using roots_invD(3) [OF I(5)] by auto
  let ?root = "\<lparr>id_heap = gid H, id_slot = ?i, id_generation = generation s\<rparr>"
  have valid: "rc_active ?c = None \<and> rc_target ?c = 0 \<or> rc_active ?c = Some ?root" using I(4) lt s by (auto simp: cursor_ok_def Let_def)
  have step: "kept E S H r K r \<and> (precise E S H r \<longrightarrow> precise E S K r) \<and> gc_inv P E C S D K r"
    if "scanned V (visitor H) v" "V \<subseteq> gc_roots S H r" "heap_inv (physical v)" "mark_inv {} v" "K = (visited v H)\<lparr>groot_cursor := c\<rparr>" "cursor_ok K"
      "passed_roots c ?rs \<subseteq> passed_roots ?c ?rs \<union> V" for V v K c
    using roots_step(1-3) [OF inv ph that(1-6) refl that(7)] by blast
  have stay: "V \<subseteq> gc_roots S H r \<Longrightarrow> H = visited (visitor H) H" for V by simp
  show ?thesis
  proof (cases "strong ?rs (elease (entry s)) \<noteq> 0 \<and> rc_target ?c < length (targets (entry s))")
    case False
    have H': "x = Ok True" "b' = b" "H' = next_root H" using run n s False valid by (auto simp: scan_registration_def Let_def registration_def)
    let ?c' = "?c\<lparr>rc_next := rc_next ?c + 1, rc_target := 0, rc_active := None\<rparr>"
    have "H' = (visited (visitor H) H)\<lparr>groot_cursor := ?c'\<rparr>" by (simp add: H' next_root_def Let_def)
    moreover have "cursor_ok H'" using I(4) by (simp add: cursor_ok_def H' next_root_def Let_def)
    moreover have "passed_roots ?c' ?rs \<subseteq> passed_roots ?c ?rs" by (rule passed_next [OF lt s]) (use False in auto)
    ultimately show ?thesis
      using step [of "{}" "visitor H" H' ?c'] I scanned_refl [of "visitor H"] H' by auto
  next
    case True
    have st: "scan_target ?root (entry s) b H = (x, b', H')" using run n s True valid by (auto simp: scan_registration_def Let_def registration_def)
    let ?c1 = "?c\<lparr>rc_active := Some ?root\<rparr>" and ?c2 = "?c\<lparr>rc_target := rc_target ?c + 1, rc_active := Some ?root\<rparr>"
    have ok: "cursor_ok ((visited v H)\<lparr>groot_cursor := ?c1\<rparr>)" "cursor_ok ((visited v H)\<lparr>groot_cursor := ?c2\<rparr>)" for v
      using I(4) s by (simp_all add: cursor_ok_def Let_def)
    note adv = passed_advance [OF lt s conjunct2 [OF True], of "Some ?root"]
    show ?thesis
    proof (cases "targets (entry s) ! rc_target ?c")
      case None
      have H': "x = Ok True" "b' = b" "H' = (visited (visitor H) H)\<lparr>groot_cursor := ?c2\<rparr>"
        using st None by (auto simp: scan_target_def Let_def)
      then show ?thesis using step [OF scanned_refl _ _ _ H'(3)] ok(2) [of "visitor H"] adv None I by auto
    next
      case (Some a)
      have a: "a \<in> gc_roots S H r" using s True Some by (auto simp: gc_roots_def host_roots_def) (metis nth_mem)
      obtain z b1 v where z: "try_visit_reference a b (visitor H) = (z, b1, v)" by (metis prod_cases3)
      have vis: "visitor (H\<lparr>groot_cursor := k\<rparr>) = visitor H" for k by (simp add: visitor_def)
      obtain bb where pb: "publish a (Some b) (visitor H) = (z, bb, v)" using z by (auto simp: try_visit_reference_def split: prod.splits)
      from publish_scanned [OF _ I(2) _ _ pb] I(1,3) a ph
      have p: "z = Ok Complete \<and> scanned {a} (visitor H) v \<or> z = Ok Pending \<and> v = visitor H" "heap_inv (physical v)" "mark_inv {} v" by auto
      have w: "worked b b1" by (rule visit_worked [OF z])
      show ?thesis
      proof (cases "z = Ok Complete")
        case True
        then have H': "x = Ok True" "b' = b1" "H' = (visited v H)\<lparr>groot_cursor := ?c2\<rparr>"
          using st Some z by (auto simp: scan_target_def Let_def vis visited_def)
        then show ?thesis using step [of "{a}" v H' ?c2] p True a ok(2) adv Some w by auto
      next
        case False
        then have zp: "z = Ok Pending" "v = visitor H" using p(1) by auto
        then have H': "x = Ok False" "b' = b1" "H' = (visited (visitor H) H)\<lparr>groot_cursor := ?c1\<rparr>"
          using st Some z by (auto simp: scan_target_def Let_def vis visited_def)
        then show ?thesis using step [OF scanned_refl _ _ _ H'(3)] I ok(1) [of "visitor H"] w by (auto simp: passed_same)
      qed
    qed
  qed
qed

lemma scan_roots_ok:
  assumes inv: "gc_inv P E C S D H r" and ph: "mphase (gmarking H) = phase.Roots" and run: "scan_roots Q b H r = (x, b', H', r')"
  shows "kept E S H r H' r' \<and> (precise E S H r \<longrightarrow> precise E S H' r') \<and> (x = Ok y \<longrightarrow> gc_inv P E C S D H' r') \<and> worked b b' \<and> (x = Ok True \<longrightarrow> remaining b' < remaining b)"
proof (cases "rc_end (groot_cursor H) \<le> rc_next (groot_cursor H)")
  case True
  then show ?thesis
    using source_scan_ok [OF inv ph] run by (auto simp: scan_roots_def)
next
  case False
  have R: "reachable E S H r \<subseteq> live_set (gphysical H)"
    using inv ph by (intro reachable_closed) (auto simp: gc_inv_def phase_inv_def Let_def)
  obtain ok b1 where t: "take_units 1 b = (ok, b1)" by fastforce
  show ?thesis
  proof (cases ok)
    case notok: False
    then show ?thesis using run False t inv kept_refl [OF R] take_worked [OF t] by (auto simp: scan_roots_def)
  next
    case ok: True
    obtain x2 b2 H2 where s: "scan_registration b1 H = (x2, b2, H2)" by (metis prod_cases3)
    then have eq: "x = x2" "b' = b2" "H' = H2" "r' = r" using run False t ok by (auto simp: scan_roots_def)
    have w: "worked b b1" "remaining b1 < remaining b" using take_worked [OF t] take_units_True [of 1 b b1] t ok by auto
    have "rc_next (groot_cursor H) < rc_end (groot_cursor H)" using False by simp
    from scan_registration_ok [where y = y, OF inv ph this s]
    have k: "kept E S H r H2 r" "precise E S H r \<longrightarrow> precise E S H2 r" "x2 = Ok y \<longrightarrow> gc_inv P E C S D H2 r" "worked b1 b2" by simp_all
    moreover have "worked b b2" by (rule worked_trans [OF w(1) k(4)])
    moreover have "remaining b2 < remaining b" using w(2) k(4) by (simp add: worked_def)
    ultimately show ?thesis unfolding eq by blast
  qed
qed

end

end
