(* ===== verification/Gc_Mark_Phase.thy ===== *)
theory Gc_Mark_Phase
  imports Gc_Root_Phase
begin

text \<open>
  The marking phase keeps the invariant and every reachable object: resuming or starting an
  object, the scan itself with the checks on what a scanner reports, painting it black, and the
  change to sweeping when no gray object is left.
\<close>

section \<open>Marking\<close>

context collector
begin

lemma mark_invs:
  assumes "gc_inv P E C S D H r" "mphase (gmarking H) = Mark"
  shows "heap_inv (gphysical H)" "uses_ok [] (gphysical H)" "typed_objects P (gphysical H) (gobjects H)" "mark_inv (active_slots H) (visitor H)"
    "roots_inv (groots H)" "connected (released (groots H))" "rheap (groots H) = gid H"
    "closed_in (edges_at E (gphysical H) (gobjects H)) (live_set (gphysical H))"
    "gc_roots S H r \<subseteq> found_set (gphysical H) (mepoch (gmarking H))" "tricolour E H" "\<And>ac. gactive H = Some ac \<Longrightarrow> active_ok C H ac"
    "reachable E S H r \<subseteq> live_set (gphysical H)"
proof -
  show I: "heap_inv (gphysical H)" "uses_ok [] (gphysical H)" "typed_objects P (gphysical H) (gobjects H)" "mark_inv (active_slots H) (visitor H)"
    "roots_inv (groots H)" "connected (released (groots H))" "rheap (groots H) = gid H"
    "closed_in (edges_at E (gphysical H) (gobjects H)) (live_set (gphysical H))"
    "gc_roots S H r \<subseteq> found_set (gphysical H) (mepoch (gmarking H))" "tricolour E H" "\<And>ac. gactive H = Some ac \<Longrightarrow> active_ok C H ac"
    using assms by (simp_all add: gc_inv_def phase_inv_def Let_def)
  show "reachable E S H r \<subseteq> live_set (gphysical H)"
    by (rule reachable_closed [OF _ I(8)]) (use I(9) found_live(1) in blast)
qed

text \<open>Steps of the marking phase: objects \<open>V\<close> are discovered, and one object may turn black.\<close>

lemma mark_step:
  assumes inv: "gc_inv P E C S D H r" and ph: "mphase (gmarking H) = Mark"
    and so: "same_objects (gphysical H) (gphysical H')" "heap_inv (gphysical H')"
    and m: "mphase (gmarking H') = Mark" "mepoch (gmarking H') = mepoch (gmarking H)" "mark_inv (active_slots H') (visitor H')"
    and f: "found_set (gphysical H') (mepoch (gmarking H)) = found_set (gphysical H) (mepoch (gmarking H)) \<union> V"
    and tri: "tricolour E H'"
    and H': "gobjects H' = gobjects H" "groots H' = groots H" "gid H' = gid H" "\<And>ac. gactive H' = Some ac \<Longrightarrow> active_ok C H' ac"
    and V: "precise E S H r \<Longrightarrow> V \<subseteq> reachable E S H r"
  shows "gc_inv P E C S D H' r \<and> kept E S H r H' r \<and> (precise E S H r \<longrightarrow> precise E S H' r)"
proof -
  note I = mark_invs [OF inv ph]
  note W = same_objects_view [OF so(1)]
  have gr: "gc_roots S H' r = gc_roots S H r" by (simp add: gc_roots_def H'(2))
  have k: "kept E S H r H' r" using I(12) H'(1) gr by (auto simp: kept_def W(1,5))
  have "gc_inv P E C S D H' r"
    using I(2,3,5-9) so(2) m tri H' f gr by (auto simp: gc_inv_def phase_inv_def Let_def W closed_in_def)
  moreover have "precise E S H' r" if "precise E S H r"
    using that V f kept_reachable [OF k] by (simp add: precise_def m(2))
  ultimately show ?thesis using k by blast
qed

lemma active_slot:
  assumes "heap_inv (gphysical H)" "gactive H = Some ac" "active_ok C H ac"
  obtains i s where "slot_at (gphysical H) i s = Occupied" "slot_address (gphysical H) i s = Some (aowner ac)" "active_slots H = {(i, s)}"
proof -
  have "aowner ac \<in> live_set (gphysical H)" using assms(3) by (simp add: active_ok_def)
  from live_slot [OF assms(1) this] obtain i s where s: "slot_at (gphysical H) i s = Occupied" "slot_address (gphysical H) i s = Some (aowner ac)"
    "\<And>j t. slot_address (gphysical H) j t = Some (aowner ac) \<Longrightarrow> j = i \<and> t = s" by blast
  have "active_slots H = {(j, t). slot_at (gphysical H) j t = Occupied \<and> slot_address (gphysical H) j t = Some (aowner ac)}"
    using assms(2) by (simp add: active_slots_def)
  then have "active_slots H = {(i, s)}" using s by blast
  then show ?thesis using that s by blast
qed

lemma finish_scan_ok:
  assumes inv: "gc_inv P E C S D H r" and ph: "mphase (gmarking H) = Mark" and ac: "gactive H = Some ac"
    and ob: "resolve (aowner ac) (gphysical H) = Ok ob"
    and e: "edges_at E (gphysical H) (gobjects H) (aowner ac) \<subseteq> found_set (gphysical H) (mepoch (gmarking H))"
    and run: "finish_scan ob H = (x, H')"
  shows "x = Ok True \<and> gactive H' = None \<and> gc_inv P E C S D H' r \<and> kept E S H r H' r \<and> (precise E S H r \<longrightarrow> precise E S H' r)"
proof -
  let ?h = "gphysical H" and ?e = "mepoch (gmarking H)"
  note I = mark_invs [OF inv ph]
  from active_slot [OF I(1) ac I(11) [OF ac]] obtain i s where s: "slot_at ?h i s = Occupied" "slot_address ?h i s = Some (aowner ac)" "active_slots H = {(i, s)}" by blast
  from object_descriptor [OF I(1) s(1,2)] ob have oi: "opage ob = i" "oslot ob = s" by auto
  obtain p where p: "contents (allocations ?h) i = Some p" using occupied_page [of ?h i s] s(1) by auto
  have s128: "s < 128" by (rule slot_bound [OF I(1) s(2)])
  have pg: "\<exists>q. heap_page i ?h = Ok q" using p by (auto simp: heap_page_def contents_def)
  let ?v = "(visitor H)\<lparr>physical := set_marks i (set_black s ?e) ?h\<rparr>"
  have mi: "mark_inv {(i, s)} (visitor H)" using I(4) s(3) by simp
  have "(i, s) \<in> {(i, s)} \<or> \<not> (found_at ?h ?e i s \<and> \<not> black_at ?h ?e i s)" by simp
  note B = paint_black [OF _ mi _ s128 _ refl, simplified, OF I(1) p]
  have H': "x = Ok True" "H' = H\<lparr>gphysical := set_marks i (set_black s ?e) ?h, gactive := None\<rparr>"
    using run pg oi by (auto simp: finish_scan_def)
  have sel: "gphysical H' = set_marks i (set_black s ?e) ?h" "gmarking H' = gmarking H" "gobjects H' = gobjects H" "groots H' = groots H" "gactive H' = None"
    "gid H' = gid H" by (simp_all add: H'(2))
  have vi: "visitor H' = ?v" "active_slots H' = {}" by (simp_all add: visitor_def sel active_slots_def)
  have so: "same_objects ?h (gphysical H')" using B(2) by (simp add: sel)
  have fa: "found_at ?h ?e i s" using mi by (simp add: mark_inv_def Let_def)
  have eq: "slot_at (gphysical H') = slot_at ?h" "slot_address (gphysical H') = slot_address ?h" using so by (simp_all add: same_objects_def)
  have f: "found_set (gphysical H') ?e = found_set ?h ?e" using B(4) fa by (auto simp: found_set_def sel eq [unfolded sel])
  have b: "black_set (gphysical H') ?e \<subseteq> black_set ?h ?e \<union> {aowner ac}" using B(5) s(2) by (auto simp: black_set_def sel eq [unfolded sel])
  have "tricolour E H'" unfolding tricolour_def sel(2)
  proof
    fix a assume "a \<in> black_set (gphysical H') ?e"
    then have "a \<in> black_set ?h ?e \<or> a = aowner ac" using b by blast
    then show "edges_at E (gphysical H') (gobjects H') a \<subseteq> found_set (gphysical H') ?e"
      using I(10) e by (auto simp: tricolour_def f sel(3) same_objects_view(2) [OF so])
  qed
  moreover have "mark_inv (active_slots H') (visitor H')" using B(3) by (simp add: vi)
  ultimately have "gc_inv P E C S D H' r \<and> kept E S H r H' r \<and> (precise E S H r \<longrightarrow> precise E S H' r)"
    using B(1) f by (intro mark_step [OF inv ph so, where V = "{}"]) (simp_all add: sel ph)
  then show ?thesis using H'(1) sel(5) by simp
qed

lemma unused_workspace: "gactive K = None \<Longrightarrow> gc_inv P E C S D (K\<lparr>gworkspace := t\<rparr>) r = gc_inv P E C S D K r"
  by (cases "mphase (gmarking K)"; cases "gsweep K")
    (simp_all add: gc_inv_def phase_inv_def active_slots_def visitor_def gc_roots_def tricolour_def cursor_ok_def sweep_inv_def)

lemma run_scan_ok:
  assumes inv: "gc_inv P E C S D H r" and ph: "mphase (gmarking H) = Mark" and ac: "gactive H = Some ac" "\<not> restart ac"
    and ob: "resolve (aowner ac) (gphysical H) = Ok ob" and x: "gobjects H (aowner ac) = Some w"
    and run: "run_scan P ob ac w b H = (x, b', H')"
  shows "kept E S H r H' r \<and> (precise E S H r \<longrightarrow> precise E S H' r) \<and> (x = Ok y \<longrightarrow> gc_inv P E C S D H' r) \<and> worked b b' \<and> (x = Ok True \<longrightarrow> gactive H' = None)"
proof (cases "case desc_kind (adescriptor ac) of Bounded max_work \<Rightarrow> remaining b < max_work * 5 | _ \<Rightarrow> False")
  case True
  then have "x = Ok False" "b' = b" "H' = H" using run by (auto simp: run_scan_def)
  then show ?thesis using inv kept_refl [OF mark_invs(12) [OF inv ph]] by simp
next
  case False
  let ?h = "gphysical H" and ?e = "mepoch (gmarking H)" and ?d = "adescriptor ac" and ?a = "aowner ac"
  note I = mark_invs [OF inv ph]
  have A: "?a \<in> live_set ?h" "descriptor_at ?h ?a = Some ?d" "state_fits (desc_rep ?d) (gworkspace H)"
    "payload_covered C ?d w (gworkspace H) \<subseteq> found_set ?h ?e" using I(11) [OF ac(1)] ac(2) x by (simp_all add: active_ok_def)
  have fits: "payload_fits (desc_rep ?d) w" using I(3) A(1,2) x by (fastforce simp: typed_objects_def)
  have ed: "edges_at E ?h (gobjects H) ?a = payload_edges E ?d w" using A(2) x by (simp add: edges_at_def)
  then have el: "payload_edges E ?d w \<subseteq> live_set ?h" using I(8) A(1) by (auto simp: closed_in_def)
  obtain z st b1 v where sc: "descriptor_scan P ?d w (gworkspace H) b (visitor H) = (z, st, b1, v)" by (metis prod_cases4)
  from dispatch_law [OF sc fits A(3)] obtain V where V: "state_fits (desc_rep ?d) st" "scan_run (payload_edges E ?d w) (b, visitor H) V (b1, v)"
    "z = Ok Complete \<longrightarrow> payload_edges E ?d w \<subseteq> payload_covered C ?d w (gworkspace H) \<union> V"
    "z = Ok Pending \<longrightarrow> payload_covered C ?d w st \<subseteq> payload_covered C ?d w (gworkspace H) \<union> V" by blast
  from scan_run_ok [OF V(2), of "active_slots H"] el I(1,4) ph
  have R: "V \<subseteq> payload_edges E ?d w" "scanned V (visitor H) v" "heap_inv (physical v)" "mark_inv (active_slots H) v" by auto
  have wk: "worked b b1" using scan_run_worked [OF V(2)] by simp
  have Vl: "V \<subseteq> live_set ?h" using R(1) el by blast
  note N = discovery [OF I(1,3) R(2) Vl I(10)]
  note W = same_objects_view [OF N(3)]
  define H1 where "H1 = (visited v H)\<lparr>gworkspace := st\<rparr>"
  have sel: "gphysical H1 = physical v" "gmarking H1 = marking v" "gobjects H1 = gobjects H" "groots H1 = groots H" "gactive H1 = gactive H" "gid H1 = gid H"
    "gworkspace H1 = st" "visitor H1 = v" by (simp_all add: H1_def visitor_def)
  have sl: "active_slots H1 = active_slots H"
    using N(3) ac(1) by (simp add: active_slots_def sel same_objects_def)
  have tri1: "tricolour E H1" using N(1) by (simp add: tricolour_def sel)
  have prV: "precise E S H r \<Longrightarrow> V \<subseteq> reachable E S H r"
  proof -
    assume "precise E S H r"
    from active_slot [OF I(1) ac(1) I(11) [OF ac(1)]] obtain i s where s: "slot_at ?h i s = Occupied" "slot_address ?h i s = Some ?a" "active_slots H = {(i, s)}" by blast
    then have "found_at ?h ?e i s" using I(4) by (simp add: mark_inv_def Let_def)
    then have "?a \<in> found_set ?h ?e" using s(1,2) by (auto simp: found_set_def)
    then have "?a \<in> reachable E S H r" using \<open>precise E S H r\<close> by (auto simp: precise_def)
    then show ?thesis using edge_reachable [of ?a E S H r] R(1) ed by blast
  qed
  have kp: "kept E S H r H1 r" "precise E S H r \<longrightarrow> precise E S H1 r"
  proof -
    show k: "kept E S H r H1 r" using I(12) by (auto simp: kept_def sel W(1,5) gc_roots_def)
    show "precise E S H r \<longrightarrow> precise E S H1 r" using kept_reachable [OF k] prV N(2,5) by (auto simp: precise_def sel)
  qed
  have good: "gc_inv P E C S D (H1\<lparr>gworkspace := t\<rparr>) r" if "state_fits (desc_rep ?d) t" "payload_covered C ?d w t \<subseteq> found_set (physical v) ?e" for t
  proof -
    let ?H = "H1\<lparr>gworkspace := t\<rparr>"
    have "active_ok C ?H k" if "gactive ?H = Some k" for k
      using A(1,2) that \<open>payload_covered C ?d w t \<subseteq> found_set (physical v) ?e\<close> \<open>state_fits (desc_rep ?d) t\<close> ac x N(5)
      by (auto simp: active_ok_def sel W)
    moreover have "tricolour E ?H" using tri1 by (simp add: tricolour_def)
    moreover have vH: "active_slots ?H = active_slots H" "visitor ?H = v" using sl ac(1) by (simp_all add: active_slots_def visitor_def sel)
    moreover have "mark_inv (active_slots ?H) (visitor ?H)" using R(4) unfolding vH .
    ultimately show ?thesis
      using mark_step [OF inv ph, of ?H V] N prV R(3) ph by (simp add: sel)
  qed
  show ?thesis
  proof (cases z)
    case (Err e)
    then have "x = Err e" "b' = b1" "H' = H1" using run False sc by (auto simp: run_scan_def H1_def Let_def)
    then show ?thesis using kp wk by simp
  next
    case (Panic m)
    then have "x = Panic m" "b' = b1" "H' = H1" using run False sc by (auto simp: run_scan_def H1_def Let_def)
    then show ?thesis using kp wk by simp
  next
    case (Ok status)
    show ?thesis
    proof (cases "scan_verdict (desc_kind ?d) b status b1")
      case (Err e)
      then have "x = Err e" "b' = b1" "H' = H1" using run False sc Ok by (auto simp: run_scan_def H1_def Let_def)
      then show ?thesis using kp wk by simp
    next
      case (Panic m)
      then show ?thesis by (auto simp: scan_verdict_def Let_def split: if_splits)
    next
      case v: (Ok complete)
      then have cm: "complete = (status = Complete)" by (auto simp: scan_verdict_def Let_def split: if_splits)
      show ?thesis
      proof (cases status)
        case Pending
        then have "x = Ok False" "b' = b1" "H' = H1" using run False sc Ok v cm by (auto simp: run_scan_def H1_def Let_def)
        moreover have "gc_inv P E C S D H1 r" using V(1,4) A(4) N(2) Ok Pending good [of st] by (auto simp: H1_def)
        ultimately show ?thesis using kp wk by simp
      next
        case Complete
        define K where "K = H1\<lparr>gworkspace := gworkspace H\<rparr>"
        have selK: "gphysical K = physical v" "gmarking K = marking v" "gobjects K = gobjects H" "groots K = groots H" "gactive K = Some ac"
          by (simp_all add: K_def sel ac(1))
        have gK: "gc_inv P E C S D K r" using good [of "gworkspace H"] A(3,4) N(2) by (auto simp: K_def)
        have kK: "kept E S H r K r" "precise E S K r = precise E S H1 r"
          using kp(1) by (simp_all add: kept_def K_def gc_roots_def precise_def reachable_def)
        have obK: "resolve (aowner ac) (gphysical K) = Ok ob"
        proof -
          from active_slot [OF I(1) ac(1) I(11) [OF ac(1)]] obtain i s where s: "slot_at ?h i s = Occupied" "slot_address ?h i s = Some ?a" by blast
          moreover from this have "slot_at (physical v) i s = Occupied" "slot_address (physical v) i s = Some ?a" using N(3) by (simp_all add: same_objects_def)
          ultimately show ?thesis using object_descriptor [OF I(1)] object_descriptor [OF R(3)] ob W(1) [of ?a] by (fastforce simp: selK)
        qed
        have "edges_at E (gphysical K) (gobjects K) (aowner ac) \<subseteq> found_set (gphysical K) (mepoch (gmarking K))"
          using V(3) A(4) N(2,5) Ok Complete ed by (auto simp: selK W)
        obtain z2 K2 where fin: "finish_scan ob K = (z2, K2)" by fastforce
        from finish_scan_ok [OF gK _ selK(5) obK _ fin] N(4,5) ph V(3) A(4) N(2) Ok Complete ed
        have F: "z2 = Ok True" "gactive K2 = None" "gc_inv P E C S D K2 r" "kept E S K r K2 r" "precise E S K r \<longrightarrow> precise E S K2 r"
          by (auto simp: selK W)
        have fin1: "finish_scan ob H1 = (z2, K2\<lparr>gworkspace := st\<rparr>)"
          using fin by (auto simp: finish_scan_def K_def H1_def split: outcome.splits)
        have "x = z2" "b' = b1" "H' = K2\<lparr>gworkspace := st\<rparr>" using run False sc Ok v cm Complete fin1 by (auto simp: run_scan_def H1_def [symmetric] Let_def)
        moreover have "gc_inv P E C S D (K2\<lparr>gworkspace := st\<rparr>) r" using F(2,3) by (simp add: unused_workspace)
        moreover have "kept E S H r (K2\<lparr>gworkspace := st\<rparr>) r" "precise E S (K2\<lparr>gworkspace := st\<rparr>) r = precise E S K2 r"
          using kept_trans [OF kK(1) F(4)] by (simp_all add: kept_def precise_def reachable_def gc_roots_def)
        ultimately show ?thesis using F kK(2) kp wk by simp
      qed
    qed
  qed
qed

end

section \<open>The sweep cursor\<close>

text \<open>Moving the cursor changes nothing but the cursor.\<close>

lemma cursor_view [simp]:
  "slot_at (h\<lparr>cursor := c\<rparr>) = slot_at h" "slot_address (h\<lparr>cursor := c\<rparr>) = slot_address h" "marks_at (h\<lparr>cursor := c\<rparr>) = marks_at h"
  "black_at (h\<lparr>cursor := c\<rparr>) = black_at h" "found_at (h\<lparr>cursor := c\<rparr>) = found_at h" "page_count (h\<lparr>cursor := c\<rparr>) = page_count h"
  "live_set (h\<lparr>cursor := c\<rparr>) = live_set h" "black_set (h\<lparr>cursor := c\<rparr>) = black_set h" "found_set (h\<lparr>cursor := c\<rparr>) = found_set h"
  "descriptor_at (h\<lparr>cursor := c\<rparr>) = descriptor_at h" "edges_at E (h\<lparr>cursor := c\<rparr>) = edges_at E h" "uses_ok B (h\<lparr>cursor := c\<rparr>) = uses_ok B h"
  "typed_objects P (h\<lparr>cursor := c\<rparr>) os = typed_objects P h os" "batch_ok ows (h\<lparr>cursor := c\<rparr>) = batch_ok ows h"
  by (auto simp: fun_eq_iff slot_at_def slot_address_def marks_at_def black_at_def found_at_def page_count_def live_set_def black_set_def found_set_def
      descriptor_at_def header_descriptor_def edges_at_def uses_ok_def users_def typed_objects_def batch_ok_def)

lemma cursor_marks [simp]: "mark_inv A \<lparr>physical = h\<lparr>cursor := c\<rparr>, marking = m\<rparr> = mark_inv A \<lparr>physical = h, marking = m\<rparr>"
  by (simp add: mark_inv_def queued_at_def leaf_at_def)

lemma cursor_heap:
  assumes "heap_at {} h act avs" "\<And>i. cpage c = Some i \<Longrightarrow> i \<in> set act"
  shows "heap_at {} (h\<lparr>cursor := c\<rparr>) act avs"
proof -
  have "contents (allocations h) i \<noteq> None" if "cpage c = Some i" for i
    using assms(2) [OF that] links_okD(4) [OF heap_atD(1) [OF assms(1)]] by auto
  then show ?thesis using assms(1) by (simp add: heap_at_def Let_def)
qed

lemma first_active_head:
  assumes "heap_at {} h act avs"
  shows "first_active h = (case act of [] \<Rightarrow> None | x # _ \<Rightarrow> Some x)"
  using heap_atD(1) [OF assms] by (cases act) (auto simp: links_ok_def dlist_def)

lemma page_active_in: "heap_at X h act avs \<Longrightarrow> slot_at h i s \<noteq> Vacant \<Longrightarrow> i \<in> set act"
  using links_okD(4) [OF heap_atD(1)] occupied_page [of h i s] by blast

lemma swept_first:
  assumes "heap_at {} h act avs"
  shows "swept (h\<lparr>cursor := \<lparr>cpage = first_active h, cslot = 0\<rparr>\<rparr>) e act"
proof (cases act)
  case Nil
  then show ?thesis using page_active_in [OF assms] by (fastforce simp: swept_def first_active_head [OF assms])
next
  case (Cons x xs)
  then show ?thesis by (intro swept_at [of _ x _ "[]" xs]) (simp_all add: first_active_head [OF assms])
qed

context collector
begin

lemma start_sweep_ok:
  assumes inv: "gc_inv P E C S D H r" and ph: "mphase (gmarking H) = Mark" and p: "pending (gmarking H) = []" "gactive H = None"
  shows "gc_inv P E C S D (start_sweep H) r \<and> kept E S H r (start_sweep H) r \<and> (precise E S H r \<longrightarrow> precise E S (start_sweep H) r)"
proof -
  let ?h = "gphysical H" and ?e = "mepoch (gmarking H)" and ?H = "start_sweep H"
  note I = mark_invs [OF inv ph]
  obtain act avs where ha: "heap_at {} ?h act avs" using I(1) by (auto simp: heap_inv_def)
  define c where "c = \<lparr>cpage = first_active ?h, cslot = 0\<rparr>"
  have sel: "gphysical ?H = ?h\<lparr>cursor := c\<rparr>" "gmarking ?H = (gmarking H)\<lparr>mphase := Sweep\<rparr>" "gobjects ?H = gobjects H" "groots ?H = groots H"
    "gactive ?H = None" "gid ?H = gid H" "gsweep ?H = SweepPhysical" by (simp_all add: start_sweep_def set_phase_def c_def p)
  have hc: "heap_at {} (?h\<lparr>cursor := c\<rparr>) act avs"
    by (rule cursor_heap [OF ha]) (auto simp: c_def first_active_head [OF ha] split: list.splits)
  have mi: "mark_inv {} (visitor H)" using I(4) p(2) by (simp add: active_slots_def)
  have fb: "found_set ?h ?e = black_set ?h ?e"
    using black_found [OF mi] no_gray [OF mi] p(1) by (simp add: found_set_def black_set_def) blast
  have "mark_inv {} (visitor ?H)" using mi by (simp add: visitor_def sel mark_inv_phase)
  moreover have "closed_in (edges_at E ?h (gobjects H)) (black_set ?h ?e)" using I(10) fb by (simp add: closed_in_def tricolour_def)
  moreover have "sweep_inv ?H" using hc swept_first [OF ha, of ?e] by (auto simp: sweep_inv_def sel c_def Let_def)
  ultimately have g: "gc_inv P E C S D ?H r"
    using I(2,3,5-7,9) hc p fb by (auto simp: gc_inv_def phase_inv_def sel active_slots_def gc_roots_def heap_inv_def)
  have k: "kept E S H r ?H r" using I(12) by (auto simp: kept_def sel gc_roots_def)
  show ?thesis using g k kept_reachable [OF k] by (auto simp: precise_def sel)
qed

text \<open>Starting on an object, in a heap \<open>K\<close> where that object is the one left out of the queue.\<close>

lemma begin_scan_ok:
  assumes inv: "gc_inv P E C S D H r" and ph: "mphase (gmarking H) = Mark"
    and so: "same_objects (gphysical H) (gphysical K)" "heap_inv (gphysical K)" "tricolour E K"
      "mphase (gmarking K) = Mark" "mepoch (gmarking K) = mepoch (gmarking H)"
      "found_set (gphysical K) (mepoch (gmarking H)) = found_set (gphysical H) (mepoch (gmarking H))"
      "gobjects K = gobjects H" "groots K = groots H" "gid K = gid H"
    and a: "a \<in> live_set (gphysical H)" "descriptor_at (gphysical H) a = Some d"
      "mark_inv {(i, s). slot_at (gphysical K) i s = Occupied \<and> slot_address (gphysical K) i s = Some a} (visitor K)"
  shows "\<exists>H' x. begin_scan P a d K = (Ok (), H') \<and> gobjects H a = Some x \<and> gactive H' = Some \<lparr>aowner = a, adescriptor = d, restart = False\<rparr> \<and>
    gphysical H' = gphysical K \<and> gobjects H' = gobjects H \<and> mphase (gmarking H') = Mark \<and>
    gc_inv P E C S D H' r \<and> kept E S H r H' r \<and> (precise E S H r \<longrightarrow> precise E S H' r)"
proof -
  note I = mark_invs [OF inv ph]
  note W = same_objects_view [OF so(1)]
  from I(3) a obtain x where x: "gobjects H a = Some x" "payload_fits (desc_rep d) x" by (fastforce simp: typed_objects_def)
  from begin_total [OF x(2)] obtain st where st: "descriptor_begin P d x = Ok st" by blast
  note cov = begin_covered [OF st x(2)]
  let ?ac = "\<lparr>aowner = a, adescriptor = d, restart = False\<rparr>"
  define H' where "H' = K\<lparr>gworkspace := st, gactive := Some ?ac\<rparr>"
  have sel: "gphysical H' = gphysical K" "gmarking H' = gmarking K" "gobjects H' = gobjects H" "groots H' = groots H" "gactive H' = Some ?ac" "gid H' = gid H"
    "gworkspace H' = st" by (simp_all add: H'_def so)
  have "mark_inv (active_slots H') (visitor H')" using a(3) by (simp add: active_slots_def visitor_def sel)
  moreover have "active_ok C H' ac" if "gactive H' = Some ac" for ac
    using that a(1,2) cov x by (auto simp: active_ok_def sel W)
  moreover have "tricolour E H'" using so(3) by (simp add: tricolour_def sel so(7))
  ultimately have "gc_inv P E C S D H' r \<and> kept E S H r H' r \<and> (precise E S H r \<longrightarrow> precise E S H' r)"
    using so by (intro mark_step [OF inv ph, where V = "{}"]) (simp_all add: sel)
  then show ?thesis using x(1) st sel so(4,7) by (intro exI [of _ H'] exI [of _ x]) (simp add: begin_scan_def H'_def)
qed

text \<open>What a step of the marking phase leaves.\<close>

lemma acquire_next_ok:
  assumes inv: "gc_inv P E C S D H r" and ph: "mphase (gmarking H) = Mark" and none: "gactive H = None"
  shows "(\<exists>H'. acquire_next P H = (Ok None, H') \<and> gactive H' = None \<and> gc_inv P E C S D H' r \<and> kept E S H r H' r \<and> (precise E S H r \<longrightarrow> precise E S H' r))
    \<or> (\<exists>H' ob ac x. acquire_next P H = (Ok (Some ob), H') \<and> gactive H' = Some ac \<and> \<not> restart ac \<and> odescriptor ob = adescriptor ac \<and>
        resolve (aowner ac) (gphysical H') = Ok ob \<and> gobjects H' (aowner ac) = Some x \<and> mphase (gmarking H') = Mark \<and>
        gc_inv P E C S D H' r \<and> kept E S H r H' r \<and> (precise E S H r \<longrightarrow> precise E S H' r))"
proof -
  let ?h = "gphysical H" and ?e = "mepoch (gmarking H)"
  note I = mark_invs [OF inv ph]
  have mi: "mark_inv {} (visitor H)" using I(4) none by (simp add: active_slots_def)
  have hi: "heap_inv (physical (visitor H))" using I(1) by simp
  from next_gray_ok [OF hi mi] show ?thesis
  proof (elim disjE conjE exE)
    assume "pending (marking (visitor H)) = []" "next_gray (visitor H) = (Ok None, visitor H)"
    then have "acquire_next P H = (Ok None, start_sweep H)" "gactive (start_sweep H) = None" "pending (gmarking H) = []"
      using none by (simp_all add: acquire_next_def has_jobs_def start_sweep_def set_phase_def)
    then show ?thesis using start_sweep_ok [OF inv ph _ none] by blast
  next
    fix i s a v'
    assume n: "next_gray (visitor H) = (Ok (Some a), v')" "extends {} (visitor H) v'" "mark_inv {(i, s)} v'" "heap_inv (physical v')"
      and o: "slot_at (physical (visitor H)) i s = Occupied" "slot_address (physical (visitor H)) i s = Some a"
    let ?K = "visited v' H"
    have so: "same_objects ?h (physical v')" using extends_same [OF n(2)] by simp
    note W = same_objects_view [OF so]
    have eq: "slot_at (physical v') = slot_at ?h" "slot_address (physical v') = slot_address ?h" using so by (simp_all add: same_objects_def)
    have m: "mphase (marking v') = Mark" "mepoch (marking v') = ?e" "found_at (physical v') ?e = found_at ?h ?e" "black_at (physical v') ?e = black_at ?h ?e"
      using n(2) ph by (simp_all add: extends_def Let_def fun_eq_iff)
    have fb: "found_set (physical v') ?e = found_set ?h ?e" "black_set (physical v') ?e = black_set ?h ?e"
      by (simp_all add: found_set_def black_set_def eq m)
    have tri: "tricolour E ?K" using I(10) by (simp add: tricolour_def m(2) fb W)
    have o': "slot_at (physical v') i s = Occupied" "slot_address (physical v') i s = Some a" using o by (simp_all add: eq)
    from object_descriptor [OF n(4) o'] obtain d where d: "descriptor_at ?h a = Some d"
      "resolve a (physical v') = Ok \<lparr>opointer = a + payload_offset d, odescriptor = d, opage = i, oslot = s\<rparr>" by (auto simp: W(1))
    have one: "{(j, t). slot_at (gphysical ?K) j t = Occupied \<and> slot_address (gphysical ?K) j t = Some a} = {(i, s)}"
      using o' address_inj [OF n(4) o'(2)] unfolding visitor_simps by blast
    have "\<exists>H' x. begin_scan P a d ?K = (Ok (), H') \<and> gobjects H a = Some x \<and> gactive H' = Some \<lparr>aowner = a, adescriptor = d, restart = False\<rparr> \<and>
      gphysical H' = gphysical ?K \<and> gobjects H' = gobjects H \<and> mphase (gmarking H') = Mark \<and>
      gc_inv P E C S D H' r \<and> kept E S H r H' r \<and> (precise E S H r \<longrightarrow> precise E S H' r)"
    proof (rule begin_scan_ok [OF inv ph])
      show "mark_inv {(j, t). slot_at (gphysical ?K) j t = Occupied \<and> slot_address (gphysical ?K) j t = Some a} (visitor ?K)"
        unfolding one using n(3) by simp
      show "a \<in> live_set ?h" using o by (auto simp: live_set_def)
    qed (use so n(4) tri m(1,2) fb(1) d(1) in simp_all)
    then obtain H' x where "begin_scan P a d ?K = (Ok (), H')" "gobjects H a = Some x" "gactive H' = Some \<lparr>aowner = a, adescriptor = d, restart = False\<rparr>"
      "gphysical H' = gphysical ?K" "gobjects H' = gobjects H" "mphase (gmarking H') = Mark" "gc_inv P E C S D H' r" "kept E S H r H' r"
      "precise E S H r \<longrightarrow> precise E S H' r" by blast
    then show ?thesis using d(2) by (intro disjI2 exI [of _ H'] exI [of _ "\<lparr>opointer = a + payload_offset d, odescriptor = d, opage = i, oslot = s\<rparr>"]
        exI [of _ "\<lparr>aowner = a, adescriptor = d, restart = False\<rparr>"] exI [of _ x]) (simp add: acquire_next_def n(1))
  qed
qed

lemma scan_active_ok:
  assumes inv: "gc_inv P E C S D H r" and ph: "mphase (gmarking H) = Mark" and ac: "gactive H = Some ac"
    and ob: "resolve (aowner ac) (gphysical H) = Ok ob" and run: "scan_active P ob b H = (x, b', H')"
  shows "kept E S H r H' r \<and> (precise E S H r \<longrightarrow> precise E S H' r) \<and> (x = Ok y \<longrightarrow> gc_inv P E C S D H' r) \<and> worked b b' \<and> (x = Ok True \<longrightarrow> gactive H' = None)"
proof -
  let ?h = "gphysical H" and ?a = "aowner ac"
  note I = mark_invs [OF inv ph]
  have A: "?a \<in> live_set ?h" "descriptor_at ?h ?a = Some (adescriptor ac)" using I(11) [OF ac] by (simp_all add: active_ok_def)
  from active_slot [OF I(1) ac I(11) [OF ac]] obtain i s where s: "slot_at ?h i s = Occupied" "slot_address ?h i s = Some ?a" "active_slots H = {(i, s)}" by blast
  from object_descriptor [OF I(1) s(1,2)] A(2) ob have od: "odescriptor ob = adescriptor ac" by auto
  from I(3) A obtain w where w: "gobjects H ?a = Some w" by (fastforce simp: typed_objects_def)
  show ?thesis
  proof (cases "restart ac")
    case False
    then show ?thesis using run od w ac run_scan_ok [OF inv ph ac False ob w] by (simp add: scan_active_def)
  next
    case True
    have "active_slots H = {(i, s). slot_at ?h i s = Occupied \<and> slot_address ?h i s = Some ?a}" using ac by (simp add: active_slots_def)
    then have mi: "mark_inv {(i, s). slot_at ?h i s = Occupied \<and> slot_address ?h i s = Some ?a} (visitor H)" using I(4) by simp
    let ?ac = "\<lparr>aowner = ?a, adescriptor = adescriptor ac, restart = False\<rparr>"
    from begin_scan_ok [OF inv ph same_objects_refl I(1,10) ph refl refl refl refl refl A mi]
    obtain H1 where H1: "begin_scan P ?a (adescriptor ac) H = (Ok (), H1)" "gactive H1 = Some ?ac" "gphysical H1 = ?h" "gobjects H1 = gobjects H"
      "mphase (gmarking H1) = Mark" "gc_inv P E C S D H1 r" "kept E S H r H1 r" "precise E S H r \<longrightarrow> precise E S H1 r" by blast
    have acq: "ac\<lparr>restart := False\<rparr> = ?ac" by (cases ac) simp
    have rs: "run_scan P ob ?ac w b H1 = (x, b', H')" using run od w ac True H1(1) by (simp add: scan_active_def acq)
    from run_scan_ok [OF H1(6,5,2) _ _ _ rs, where y = y] ob w H1(3,4)
    have "kept E S H1 r H' r" "precise E S H1 r \<longrightarrow> precise E S H' r" "x = Ok y \<longrightarrow> gc_inv P E C S D H' r" "worked b b'" "x = Ok True \<longrightarrow> gactive H' = None" by simp_all
    then show ?thesis using H1(7,8) kept_trans by blast
  qed
qed

text \<open>A step that asks to go on has spent units or has finished the suspended object.\<close>

lemma scan_object_ok:
  assumes inv: "gc_inv P E C S D H r" and ph: "mphase (gmarking H) = Mark" and run: "scan_object P b H = (x, b', H')"
  shows "kept E S H r H' r \<and> (precise E S H r \<longrightarrow> precise E S H' r) \<and> (x = Ok y \<longrightarrow> gc_inv P E C S D H' r) \<and> worked b b' \<and>
    (x = Ok True \<longrightarrow> gactive H' = None \<and> (gactive H = None \<longrightarrow> remaining b' < remaining b))"
proof (cases "gactive H")
  case (Some ac)
  note I = mark_invs [OF inv ph]
  from active_slot [OF I(1) Some I(11) [OF Some]] obtain i s where s: "slot_at (gphysical H) i s = Occupied" "slot_address (gphysical H) i s = Some (aowner ac)" by blast
  from object_descriptor [OF I(1) s] obtain ob where ob: "resolve (aowner ac) (gphysical H) = Ok ob" by blast
  then have "scan_active P ob b H = (x, b', H')" using run Some by (simp add: scan_object_def)
  from scan_active_ok [OF inv ph Some ob this, where y = y] show ?thesis using Some by simp
next
  case None
  obtain ok b1 where t: "take_units 4 b = (ok, b1)" by fastforce
  show ?thesis
  proof (cases ok)
    case False
    then show ?thesis using run None t inv kept_refl [OF mark_invs(12) [OF inv ph]] take_worked [OF t] by (auto simp: scan_object_def)
  next
    case True
    have w: "worked b b1" "remaining b1 < remaining b" using take_worked [OF t] take_units_True [of 4 b b1] t True by auto
    from acquire_next_ok [OF inv ph None] show ?thesis
    proof (elim disjE exE conjE)
      fix K assume k: "acquire_next P H = (Ok None, K)" "gactive K = None" "gc_inv P E C S D K r" "kept E S H r K r" "precise E S H r \<longrightarrow> precise E S K r"
      then have "x = Ok True" "b' = b1" "H' = K" using run None t True by (auto simp: scan_object_def)
      then show ?thesis using k w by simp
    next
      fix K ob ac w0
      assume k: "acquire_next P H = (Ok (Some ob), K)" "gactive K = Some ac" "resolve (aowner ac) (gphysical K) = Ok ob" "mphase (gmarking K) = Mark"
        "gc_inv P E C S D K r" "kept E S H r K r" "precise E S H r \<longrightarrow> precise E S K r"
      have "scan_active P ob b1 K = (x, b', H')" using run None t True k(1) by (simp add: scan_object_def)
      from scan_active_ok [OF k(5,4,2,3) this, where y = y]
      have z: "kept E S K r H' r" "precise E S K r \<longrightarrow> precise E S H' r" "x = Ok y \<longrightarrow> gc_inv P E C S D H' r" "worked b1 b'" "x = Ok True \<longrightarrow> gactive H' = None" by simp_all
      moreover have "worked b b'" by (rule worked_trans [OF w(1) z(4)])
      moreover have "remaining b' < remaining b" using w(2) z(4) by (simp add: worked_def)
      ultimately show ?thesis using k(6,7) kept_trans by blast
    qed
  qed
qed

end

end
