(* ===== verification/Gc_Sweep_Phase.thy ===== *)
theory Gc_Sweep_Phase
  imports Gc_Mark_Phase
begin

text \<open>
  The sweep phase. \<open>sweeping\<close> is the invariant inside the loop, where a batch holds the objects
  that have been detached; \<open>spared\<close> says that every black object has stayed as it was. The
  objects that a sweep destroys are never black, so nothing reachable is lost, and when the
  phase ends the allocated objects are the black ones.
\<close>

section \<open>Reference definitions\<close>

definition retired_set :: "owner list \<Rightarrow> nat set" where
  "retired_set ows = {a. \<exists>q. Object q \<in> set ows \<and> a = rreference (ret_reservation q)}"

definition sweeping ::
    "('o, 's) provider \<Rightarrow> 'o edge_map \<Rightarrow> ('q \<Rightarrow> nat set) \<Rightarrow> batch \<Rightarrow> ('o, 's) gc_heap \<Rightarrow> ('q, 'c) root_scan \<Rightarrow> bool" where
  "sweeping P E S batch H r \<longleftrightarrow>
     (let h = gphysical H; e = mepoch (gmarking H)
      in mphase (gmarking H) = Sweep \<and> heap_inv h \<and> batch_ok (owners batch) h \<and> typed_objects P h (gobjects H) \<and> mark_inv {} (visitor H) \<and>
         roots_inv (groots H) \<and> connected (released (groots H)) \<and> rheap (groots H) = gid H \<and>
         closed_in (edges_at E h (gobjects H)) (black_set h e) \<and> gc_roots S H r \<subseteq> black_set h e \<and> pending (gmarking H) = [] \<and>
         gactive H = None \<and> sweep_inv H \<and> retired_set (owners batch) \<inter> live_set h = {})"

definition spared :: "('o, 's) gc_heap \<Rightarrow> ('o, 's) gc_heap \<Rightarrow> bool" where
  "spared H H' \<longleftrightarrow>
     (let h = gphysical H; h' = gphysical H'; e = mepoch (gmarking H)
      in mepoch (gmarking H') = e \<and> black_set h' e = black_set h e \<and> host_roots (groots H') = host_roots (groots H) \<and>
         (\<forall>a \<in> black_set h e. descriptor_at h' a = descriptor_at h a \<and> gobjects H' a = gobjects H a))"

text \<open>The sweep has come to the end: every allocated object is black.\<close>

definition all_black :: "('o, 's) gc_heap \<Rightarrow> bool" where
  "all_black H \<longleftrightarrow> live_set (gphysical H) = black_set (gphysical H) (mepoch (gmarking H))"

text \<open>What an iteration of the sweep leaves: the batch holds no black object.\<close>

definition swept_step ::
    "('o, 's) provider \<Rightarrow> 'o edge_map \<Rightarrow> ('q \<Rightarrow> nat set) \<Rightarrow> ('o, 's) gc_heap \<Rightarrow> ('q, 'c) root_scan \<Rightarrow> bool gc_result \<Rightarrow> batch \<Rightarrow> ('o, 's) gc_heap \<Rightarrow> bool" where
  "swept_step P E S H r x batch' H' \<longleftrightarrow> spared H H' \<and> retired_set (owners batch') \<inter> black_set (gphysical H') (mepoch (gmarking H')) = {} \<and>
     (\<forall>y. x = Ok y \<longrightarrow> sweeping P E S batch' H' r \<or>
        \<not> y \<and> owners batch' = [] \<and> all_black H' \<and> sweeping P E S batch' H r \<and> (\<exists>n. H' = H\<lparr>gmarking := (gmarking H)\<lparr>mcycles := n, mphase := Idle\<rparr>\<rparr>))"

section \<open>Sparing\<close>

lemma spared_refl [simp]: "spared H H"
  by (simp add: spared_def)

lemma spared_trans: "spared H H' \<Longrightarrow> spared H' H'' \<Longrightarrow> spared H H''"
  by (auto simp: spared_def Let_def)

lemma sweepingD:
  assumes "sweeping P E S batch H r"
  shows "mphase (gmarking H) = Sweep" "heap_inv (gphysical H)" "batch_ok (owners batch) (gphysical H)" "typed_objects P (gphysical H) (gobjects H)"
    "mark_inv {} (visitor H)" "roots_inv (groots H)" "connected (released (groots H))" "rheap (groots H) = gid H"
    "closed_in (edges_at E (gphysical H) (gobjects H)) (black_set (gphysical H) (mepoch (gmarking H)))"
    "gc_roots S H r \<subseteq> black_set (gphysical H) (mepoch (gmarking H))" "pending (gmarking H) = []" "gactive H = None" "sweep_inv H"
    "retired_set (owners batch) \<inter> live_set (gphysical H) = {}" "reachable E S H r \<subseteq> black_set (gphysical H) (mepoch (gmarking H))"
proof -
  show c: "closed_in (edges_at E (gphysical H) (gobjects H)) (black_set (gphysical H) (mepoch (gmarking H)))"
    "gc_roots S H r \<subseteq> black_set (gphysical H) (mepoch (gmarking H))"
    using assms by (simp_all add: sweeping_def Let_def)
  show "reachable E S H r \<subseteq> black_set (gphysical H) (mepoch (gmarking H))" by (rule reachable_closed [OF c(2,1)])
qed (use assms in \<open>simp_all add: sweeping_def Let_def\<close>)

lemma sweeping_start:
  assumes "gc_inv P E C S D H r" "mphase (gmarking H) = Sweep"
  shows "sweeping P E S batch_new H r"
  using assms by (auto simp: gc_inv_def phase_inv_def Let_def sweeping_def batch_new_def retired_set_def batch_ok_def retired_slots_def retired_ids_def
      active_slots_def)

lemma spared_kept:
  assumes "spared H H'" "reachable E S H r \<subseteq> black_set (gphysical H) (mepoch (gmarking H))"
  shows "kept E S H r H' r"
  using assms found_live(2) [of "gphysical H'" "mepoch (gmarking H)"] by (auto simp: spared_def Let_def kept_def gc_roots_def)

lemma swept_found:
  assumes "mark_inv {} (visitor H)" "pending (gmarking H) = []"
  shows "found_set (gphysical H) (mepoch (gmarking H)) = black_set (gphysical H) (mepoch (gmarking H))"
  using black_found [OF assms(1)] no_gray [OF assms(1)] assms(2) by (simp add: found_set_def black_set_def) blast

lemma spared_precise:
  assumes "spared H H'" "kept E S H r H' r" "precise E S H r" "mark_inv {} (visitor H)" "pending (gmarking H) = []"
    "mark_inv {} (visitor H')" "pending (gmarking H') = []"
  shows "precise E S H' r"
proof -
  have "black_set (gphysical H') (mepoch (gmarking H')) = black_set (gphysical H) (mepoch (gmarking H))" using assms(1) by (simp add: spared_def Let_def)
  then show ?thesis using assms(3) kept_reachable [OF assms(2)] swept_found [OF assms(4,5)] swept_found [OF assms(6,7)] by (simp add: precise_def)
qed

text \<open>The sweep invariant after a step that spares the black objects.\<close>

lemma sweeping_step:
  assumes inv: "sweeping P E S batch H r" and sp: "spared H H'"
    and ph: "mphase (gmarking H') = Sweep" "pending (gmarking H') = []" "gactive H' = None" "gid H' = gid H"
    and h: "heap_inv (gphysical H')" "batch_ok (owners batch') (gphysical H')" "typed_objects P (gphysical H') (gobjects H')" "mark_inv {} (visitor H')"
    and rs: "roots_inv (groots H')" "connected (released (groots H'))" "rheap (groots H') = rheap (groots H)"
    and sw: "sweep_inv H'" "retired_set (owners batch') \<inter> live_set (gphysical H') = {}"
  shows "sweeping P E S batch' H' r"
proof -
  note I = sweepingD [OF inv]
  let ?B = "black_set (gphysical H) (mepoch (gmarking H))"
  have e: "mepoch (gmarking H') = mepoch (gmarking H)" and b: "black_set (gphysical H') (mepoch (gmarking H)) = ?B"
    and hr: "host_roots (groots H') = host_roots (groots H)" using sp by (simp_all add: spared_def Let_def)
  have ed: "edges_at E (gphysical H') (gobjects H') a = edges_at E (gphysical H) (gobjects H) a" if "a \<in> ?B" for a
    using sp that by (intro edges_at_cong) (simp_all add: spared_def Let_def)
  have "closed_in (edges_at E (gphysical H') (gobjects H')) ?B" using I(9) ed by (simp add: closed_in_def)
  moreover have "gc_roots S H' r \<subseteq> ?B" using I(10) hr by (simp add: gc_roots_def)
  ultimately show ?thesis using assms(3-) I(8) by (simp add: sweeping_def e b)
qed

section \<open>Steps of the sweep\<close>

lemma dead_slot_ok:
  assumes inv: "page_inv p" and s: "s < page_slots p" and d: "dead_slot p s e units = (n, victim)"
  shows "s < n" "n - s - 1 \<le> units" "n \<le> page_slots p" "\<And>t. s \<le> t \<Longrightarrow> t < n \<Longrightarrow> dead p e t \<Longrightarrow> victim = Some t"
    "\<And>t. victim = Some t \<Longrightarrow> dead p e t \<and> n = t + 1 \<and> s \<le> t"
proof -
  define stop where "stop = min (page_slots p) (s + min units (page_slots p) + 1)"
  define v where "v = next_dead p s stop e"
  have stop: "s < stop" "stop \<le> page_slots p" "stop \<le> s + units + 1" using s by (auto simp: stop_def)
  have "s div 64 \<le> Suc ((stop - 1) div 64)" by (rule le_SucI, rule div_le_mono) (use stop(1) in simp)
  note spec = next_dead_in_spec [OF inv stop(1,2) order_refl this next_dead_def, where e = e, folded v_def]
  have mx: "max s (s div 64 * 64) = s" using div_times_less_eq_dividend [of s 64] by linarith
  have v: "v \<le> stop" "\<And>t. s \<le> t \<Longrightarrow> t < v \<Longrightarrow> \<not> dead p e t" "v < stop \<Longrightarrow> dead p e v \<and> s \<le> v"
    using spec unfolding mx by blast+
  have cases: "dead p e s \<and> n = s + 1 \<and> victim = Some s \<or> v < stop \<and> n = v + 1 \<and> victim = Some v \<or> \<not> v < stop \<and> n = stop \<and> victim = None"
    using d unfolding dead_slot_def Let_def stop_def [symmetric] v_def [symmetric] dead_def by (auto split: if_splits)
  show "s < n" using cases v stop by auto
  show "n - s - 1 \<le> units" using cases v stop by auto
  show "n \<le> page_slots p" using cases v stop s by auto
  show "victim = Some t" if "s \<le> t" "t < n" "dead p e t" for t
  proof -
    have "\<not> t < v" using v(2) that by blast
    then show ?thesis using cases v(1) that by auto
  qed
  show "dead p e t \<and> n = t + 1 \<and> s \<le> t" if "victim = Some t" for t using cases v(3) that by auto
qed

text \<open>A slot of a page, seen in the heap.\<close>

lemma page_slot:
  assumes "heap_at {} h act avs" "heap_page i h = Ok p"
  shows "page_inv p" "slot_at h i = slot_state p" "slot_state p s = Occupied \<Longrightarrow> black_at h e i s \<longleftrightarrow> \<not> dead p e s" "dead p e s \<Longrightarrow> slot_at h i s = Occupied"
    "contents (allocations h) i = Some (strip p)" "alinks (allocations h) i = Some (page_active p)"
proof -
  have g: "table_get i (allocations h) = Some p" using assms(2) by (simp add: heap_page_def split: option.splits)
  then show c: "contents (allocations h) i = Some (strip p)" "alinks (allocations h) i = Some (page_active p)" by (simp_all add: contents_def alinks_def)
  from pages_okD(1) [OF heap_atD(3) [OF assms(1)] c(1)] show pi: "page_inv p" by simp
  show sl: "slot_at h i = slot_state p" by (simp add: slot_at_def c fun_eq_iff)
  have h: "heap_inv h" using assms(1) by (auto simp: heap_inv_def)
  show "dead p e s \<Longrightarrow> slot_at h i s = Occupied" by (simp add: sl dead_def slot_state_def)
  assume o: "slot_state p s = Occupied"
  then obtain a where "slot_address h i s = Some a" using occupied_address [OF h, of i s] by (auto simp: sl)
  then have "s < 128" by (rule slot_bound [OF h])
  moreover have "page_occupied p s" using o by (simp add: slot_state_def split: if_splits)
  ultimately show "black_at h e i s \<longleftrightarrow> \<not> dead p e s" by (simp add: black_at_def c dead_def)
qed

lemma swept_next:
  assumes ha: "heap_at {} h act avs" and act: "act = xs @ i # ys" and p: "heap_page i h = Ok p"
    and clean: "\<And>j s. j \<in> set xs \<Longrightarrow> slot_at h j s = Occupied \<Longrightarrow> black_at h e j s" "\<And>s. slot_at h i s = Occupied \<Longrightarrow> black_at h e i s"
  shows "swept (h\<lparr>cursor := \<lparr>cpage = successor (page_active p), cslot = 0\<rparr>\<rparr>) e act"
    "\<And>j. successor (page_active p) = Some j \<Longrightarrow> j \<in> set act"
proof -
  have "dlist (alinks (allocations h)) (xs @ i # ys) (first_active h)" using heap_atD(1) [OF ha] act by (simp add: links_ok_def)
  from dlist_unlink(3) [OF this page_slot(6) [OF ha p]] have s: "successor (page_active p) = (case ys of [] \<Rightarrow> None | y # _ \<Rightarrow> Some y)" .
  then show "\<And>j. successor (page_active p) = Some j \<Longrightarrow> j \<in> set act" using act by (auto split: list.splits)
  show "swept (h\<lparr>cursor := \<lparr>cpage = successor (page_active p), cslot = 0\<rparr>\<rparr>) e act"
  proof (cases ys)
    case Nil
    have "black_at h e j t" if "slot_at h j t = Occupied" for j t
      using page_active_in [OF ha, of j t] that clean act Nil by auto
    then show ?thesis using s Nil by (simp add: swept_def)
  next
    case (Cons y zs)
    then show ?thesis using s act clean by (intro swept_at [of _ y _ "xs @ [i]" zs]) auto
  qed
qed

lemma sweep_dead_ok:
  assumes inv: "sweeping P E S batch H r" and ha: "heap_at {} (gphysical H) act avs" and ph: "gsweep H = SweepPhysical"
    and c: "heap_at {} ((gphysical H)\<lparr>cursor := c\<rparr>) act avs"
    and o: "slot_at (gphysical H) i s = Occupied" "\<not> black_at (gphysical H) (mepoch (gmarking H)) i s" and len: "batch_len batch < RETIREMENT_CAP"
    and sw: "\<And>h'. slot_at h' = set_slot i s Unavailable (slot_at (gphysical H)) \<Longrightarrow> marks_at h' = marks_at (gphysical H) \<Longrightarrow> cursor h' = c \<Longrightarrow>
      swept h' (mepoch (gmarking H)) act"
    and run: "sweep_dead P i s batch (set_cursor c H) = (x, batch', H')"
  shows "spared H H' \<and> (x = Ok y \<longrightarrow> sweeping P E S batch' H' r) \<and> retired_set (owners batch') \<inter> black_set (gphysical H') (mepoch (gmarking H')) = {}"
proof -
  note I = sweepingD [OF inv]
  let ?h = "(gphysical H)\<lparr>cursor := c\<rparr>" and ?e = "mepoch (gmarking H)"
  obtain a where a: "slot_address (gphysical H) i s = Some a" using occupied_address [OF I(2), of i s] o(1) by auto
  from object_descriptor [OF I(2) o(1) a] obtain d en where d: "descriptor_at (gphysical H) a = Some d" "header_descriptor (gphysical H) a = Some (desc_id d)"
    "registered (desc_id d) (descriptors_of (gphysical H)) = Some en" "entry_descriptor en = d" by blast
  have al: "a \<in> live_set (gphysical H)" using o(1) a by (auto simp: live_set_def)
  then obtain w where w: "gobjects H a = Some w" "payload_fits (desc_rep d) w" using I(4) d(1) by (fastforce simp: typed_objects_def)
  have anb: "a \<notin> black_set (gphysical H) ?e" using o(2) address_inj [OF I(2) a] unfolding black_set_def mem_Collect_eq by blast
  have hi: "heap_inv ?h" using c by (auto simp: heap_inv_def)
  have dis: "retired_set (owners batch) \<inter> black_set (gphysical H) ?e = {}" using I(14) found_live(2) [of "gphysical H" ?e] by blast
  have selK: "gobjects (set_cursor c H) = gobjects H" "gphysical (set_cursor c H) = ?h" "gledger (set_cursor c H) = gledger H" by (simp_all add: set_cursor_def)
  have pre: "slot_at ?h i s = Occupied" "slot_address ?h i s = Some a" "batch_ok (owners batch) ?h"
    "Some (indirect (gledger H)) \<noteq> None \<longrightarrow> gobjects H a \<noteq> None \<and> payload_fits (desc_rep d) (the (gobjects H a))"
    "header_descriptor ?h a = Some (desc_id d)" "registered (desc_id d) (descriptors_of ?h) = Some en"
    using o(1) a I(3) w d by (simp_all add: header_descriptor_def)
  from batch_detach_ok [where avail = "Some (indirect (gledger H))" and os = "gobjects H" and P = P, OF c pre(1-3) len pre(4-6) d(4)] show ?thesis
  proof (elim disjE exE conjE)
    fix charge b1 h' q
    assume det: "batch_detach P (gobjects H) i s (Some (indirect (gledger H))) batch ?h = (Ok (charge, b1), h')" "heap_at {} h' act avs" "batch_ok (owners b1) h'"
      "keeps_objects {a} ?h h'" "slot_at h' = set_slot i s Unavailable (slot_at ?h)" "slot_address h' = slot_address ?h" "marks_at h' = marks_at ?h" "cursor h' = cursor ?h"
      "descriptors_of h' = descriptors_of ?h" "page_count h' = page_count ?h" "owners b1 = owners batch @ [Object q]" "rreference (ret_reservation q) = a"
    have H': "x = Ok True" "batch' = b1"
      "H' = (set_cursor c H)\<lparr>gphysical := h', gledger := (gledger H)\<lparr>indirect := indirect (gledger H) - charge\<rparr>\<rparr>"
      using run det(1) by (simp_all add: sweep_dead_def selK)
    have sel: "gphysical H' = h'" "gmarking H' = gmarking H" "gobjects H' = gobjects H" "groots H' = groots H" "gactive H' = gactive H" "gid H' = gid H" "gsweep H' = gsweep H"
      by (simp_all add: H'(3) set_cursor_def)
    note ok = det(1-7) det(8) [simplified] det(9-12) [unfolded H'(2) [symmetric]] and ok3 = det(3) [unfolded H'(2) [symmetric]]
    have k: "live_set h' = live_set (gphysical H) - {a}" "memory h' = memory (gphysical H)" "black_set h' ?e = black_set (gphysical H) ?e - {a}"
      using ok(4) by (simp_all add: keeps_objects_def)
    have da: "descriptor_at h' = descriptor_at (gphysical H)" using k(2) ok(9) by (simp add: descriptor_at_def header_descriptor_def fun_eq_iff)
    have sp: "spared H H'" using k(3) anb by (simp add: spared_def sel da)
    have ret: "retired_set (owners batch') = insert a (retired_set (owners batch))" using ok(11,12) by (auto simp: retired_set_def)
    have hi': "heap_inv h'" using ok(2) by (auto simp: heap_inv_def)
    have "mark_inv {} ((visitor (set_cursor c H))\<lparr>physical := h'\<rparr>)"
      using I(5,11) ok(7,10) by (intro detach_marks [OF hi hi']) (simp_all add: visitor_def set_cursor_def)
    then have mi: "mark_inv {} (visitor H')" by (simp add: visitor_def set_cursor_def sel)
    have ty: "typed_objects P h' (gobjects H)" using I(4) k(1) ok(9) by (auto simp: typed_objects_def da)
    have "swept h' ?e act" by (rule sw) (use ok in simp_all)
    then have "sweep_inv H'" using ok(2) ph by (auto simp: sweep_inv_def sel Let_def)
    then have "sweeping P E S batch' H' r"
      using I hi' ok3 mi ty k(1) ret by (intro sweeping_step [OF inv sp]) (auto simp: sel)
    moreover have "retired_set (owners batch') \<inter> black_set h' ?e = {}" using dis anb ret k(3) by auto
    ultimately show ?thesis using sp by (simp add: sel)
  next
    fix bytes charge
    assume "batch_detach P (gobjects H) i s (Some (indirect (gledger H))) batch ?h = (Err (Storage ''retirement charge exceeds ledger''), ?h)"
    then have "\<forall>z. x \<noteq> Ok z" "batch' = batch" "H' = set_cursor c H" using run by (auto simp: sweep_dead_def selK set_cursor_def)
    then show ?thesis using dis by (simp add: spared_def set_cursor_def)
  qed
qed

lemma batch_spares:
  assumes "sweeping P E S batch H r"
  shows "retired_set (owners batch) \<inter> black_set (gphysical H) (mepoch (gmarking H)) = {}"
  using sweepingD(14) [OF assms] found_live(2) [of "gphysical H"] by blast

lemma swept_still: "sweeping P E S batch H r \<Longrightarrow> (\<And>y. x = Ok y \<Longrightarrow> sweeping P E S batch H r) \<Longrightarrow> swept_step P E S H r x batch H"
  using batch_spares [of P E S batch H r] spared_refl [of H] unfolding swept_step_def by blast

lemma sweep_stage_ok:
  assumes "sweeping P E S batch H r" "sweep_inv (H\<lparr>gsweep := s\<rparr>)"
  shows "sweeping P E S batch (H\<lparr>gsweep := s\<rparr>) r"
  using assms by (simp add: sweeping_def visitor_def gc_roots_def Let_def)

lemma sweep_page_ok:
  assumes inv: "sweeping P E S batch H r" and ph: "gsweep H = SweepPhysical" and len: "batch_len batch < RETIREMENT_CAP"
    and run: "sweep_page P batch b H = (x, batch', b', H')"
  shows "swept_step P E S H r x batch' H'"
proof (cases "cpage (cursor (gphysical H))")
  case None
  then have H': "x = Ok True" "batch' = batch" "H' = H\<lparr>gsweep := SweepRoots (pending_releases (groots H))\<rparr>" using run by (auto simp: sweep_page_def)
  have "sweep_inv H'" using sweepingD(13) [OF inv] None by (auto simp: sweep_inv_def H'(3) Let_def)
  from sweep_stage_ok [OF inv this [unfolded H'(3)]] show ?thesis using batch_spares [OF inv] H' by (simp add: swept_step_def spared_def)
next
  case (Some i)
  let ?h = "gphysical H" and ?e = "mepoch (gmarking H)" and ?s = "cslot (cursor (gphysical H))"
  note I = sweepingD [OF inv]
  from I(13) obtain act avs where ha: "heap_at {} ?h act avs" and sw: "swept ?h ?e act" by (auto simp: sweep_inv_def Let_def)
  from sw Some obtain xs ys where act: "act = xs @ i # ys" and xs: "\<And>j t. j \<in> set xs \<Longrightarrow> slot_at ?h j t = Occupied \<Longrightarrow> black_at ?h ?e j t"
    and below: "\<And>t. t < ?s \<Longrightarrow> slot_at ?h i t = Occupied \<Longrightarrow> black_at ?h ?e i t" by (auto simp: swept_def Let_def)
  obtain p where p: "heap_page i ?h = Ok p" using heap_atD(6) [OF ha Some] by (auto simp: heap_page_def contents_def)
  note pg = page_slot [OF ha p]
  have move: "swept_step P E S H r x batch H'" if "H' = set_cursor c H" "heap_at {} (?h\<lparr>cursor := c\<rparr>) act avs" "swept (?h\<lparr>cursor := c\<rparr>) ?e act" for c
  proof -
    have sel: "gphysical H' = ?h\<lparr>cursor := c\<rparr>" "gmarking H' = gmarking H" "gobjects H' = gobjects H" "groots H' = groots H" "gactive H' = gactive H" "gid H' = gid H" "gsweep H' = gsweep H"
      by (simp_all add: that(1) set_cursor_def)
    have sp: "spared H H'" by (simp add: spared_def sel)
    have "sweep_inv H'" using that(2,3) ph by (auto simp: sweep_inv_def sel Let_def)
    then have "sweeping P E S batch H' r"
      using I that(2) by (intro sweeping_step [OF inv sp]) (auto simp: sel heap_inv_def visitor_def)
    then show ?thesis using sp batch_spares [of P E S batch H' r] unfolding swept_step_def by blast
  qed
  show ?thesis
  proof (cases "page_slots p \<le> ?s")
    case True
    have "t < ?s" if "slot_at ?h i t = Occupied" for t
    proof -
      have "slot_state p t \<noteq> Vacant" using that pg(2) by simp
      then have "\<not> page_slots p \<le> t" using slot_state_beyond [of p t] by blast
      then show ?thesis using True by simp
    qed
    then have clean: "black_at ?h ?e i t" if "slot_at ?h i t = Occupied" for t using below that by blast
    note nx = swept_next [OF ha act p xs clean]
    have "batch' = batch" "H' = set_cursor \<lparr>cpage = successor (page_active p), cslot = 0\<rparr> H" using run Some p True by (auto simp: sweep_page_def)
    moreover have "heap_at {} (?h\<lparr>cursor := \<lparr>cpage = successor (page_active p), cslot = 0\<rparr>\<rparr>) act avs" by (rule cursor_heap [OF ha]) (use nx(2) in simp)
    ultimately show ?thesis using move [of "\<lparr>cpage = successor (page_active p), cslot = 0\<rparr>"] nx(1) by simp
  next
    case False
    then have lt: "?s < page_slots p" by simp
    obtain n victim where d: "dead_slot p ?s ?e (remaining b) = (n, victim)" by fastforce
    note ds = dead_slot_ok [OF pg(1) lt d]
    define c where "c = (cursor ?h)\<lparr>cslot := n\<rparr>"
    have hc: "heap_at {} (?h\<lparr>cursor := c\<rparr>) act avs" by (rule cursor_heap [OF ha]) (use Some act in \<open>auto simp: c_def\<close>)
    obtain ok b1 where t: "take_units (n - ?s - 1) b = (ok, b1)" by fastforce
    show ?thesis
    proof (cases ok)
      case no: False
      then have "x = Panic ''sweep allowance''" "batch' = batch" "H' = H" using run Some p False d t by (auto simp: sweep_page_def)
      then show ?thesis using swept_still [OF inv inv] by simp
    next
      case ok: True
      have below_n: "black_at ?h ?e i u" if "u < n" "slot_at ?h i u = Occupied" "victim \<noteq> Some u" for u
      proof (cases "u < ?s")
        case False
        then show ?thesis using ds(4) [of u] that pg(2,3) by auto
      qed (use below that in blast)
      show ?thesis
      proof (cases victim)
        case None
        have "batch' = batch" "H' = set_cursor c H" using run Some p False d t ok None by (auto simp: sweep_page_def c_def Let_def)
        moreover have "swept (?h\<lparr>cursor := c\<rparr>) ?e act" by (rule swept_at [of _ i _ xs ys]) (use Some act xs below_n None in \<open>auto simp: c_def\<close>)
        ultimately show ?thesis using move hc by simp
      next
        case (Some v)
        have dv: "dead p ?e v" using ds(5) [OF Some] by simp
        have o: "slot_at ?h i v = Occupied" "\<not> black_at ?h ?e i v" using pg(2) pg(3) [of v] pg(4) [OF dv] dv by auto
        have cp: "cpage (cursor ?h) = Some i" using \<open>cpage (cursor ?h) = Some i\<close> .
        have sw': "swept h' ?e act" if "slot_at h' = set_slot i v Unavailable (slot_at ?h)" "marks_at h' = marks_at ?h" "cursor h' = c" for h'
        proof (rule swept_at [of _ i _ xs ys])
          have occ: "slot_at h' j t = Occupied \<Longrightarrow> slot_at ?h j t = Occupied \<and> (j, t) \<noteq> (i, v)" for j t
            using that(1) by (auto simp: set_slot_def split: if_splits)
          note col = marks_colours [OF that(2)]
          show "slot_at h' j t = Occupied \<Longrightarrow> black_at h' ?e j t" if "j \<in> set xs" for j t using occ xs [OF that] by (simp add: col)
          show "slot_at h' i t = Occupied \<Longrightarrow> black_at h' ?e i t" if "t < cslot (cursor h')" for t
            using occ [of i t] below_n [of t] that Some \<open>cursor h' = c\<close> by (auto simp: col c_def)
        qed (use cp act that(3) in \<open>simp_all add: c_def\<close>)
        obtain y K where sd: "sweep_dead P i v batch (set_cursor c H) = (x, batch', K)" "H' = K"
          using run cp p False d t ok Some by (auto simp: sweep_page_def c_def Let_def split: prod.splits)
        from sweep_dead_ok [OF inv ha ph hc o len sw' sd(1)] show ?thesis unfolding sd(2) swept_step_def by blast
      qed
    qed
  qed
qed

lemma released_roots:
  assumes inv: "roots_inv rs" "connected (released rs)" and n: "notices (released rs) = i # rest" and run: "release_one rs = (x, rs')"
  shows "\<exists>e. x = Ok (Some e)" "roots_inv rs'" "connected (released rs')" "rheap rs' = rheap rs" "host_roots rs' = host_roots rs"
    "Suc (pending_releases rs') = pending_releases rs"
proof -
  from release_one_ok [OF inv n] run obtain s where s: "registration rs (id_slot i) = Some s" "strong rs (elease (entry s)) = 0" "x = Ok (Some (entry s))"
    "roots_inv rs'" "notices (released rs') = rest" "connected (released rs')" "rheap rs' = rheap rs" "strong rs' = strong rs"
    "\<And>j. rel_option same_root (if j = id_slot i then None else registration rs j) (registration rs' j)" by auto
  then show "\<exists>e. x = Ok (Some e)" "roots_inv rs'" "connected (released rs')" "rheap rs' = rheap rs" "Suc (pending_releases rs') = pending_releases rs"
    by (simp_all add: pending_releases_def n)
  have a: "\<exists>v. registration rs j = Some v \<and> same_root v u" if "registration rs' j = Some u" for j u
    using s(9) [of j] that by (auto simp: option_rel_Some2 split: if_splits)
  have b: "\<exists>u. registration rs' j = Some u \<and> same_root v u" if "registration rs j = Some v" "0 < strong rs (elease (entry v))" for j v
    using s(9) [of j] that s(1,2) by (auto simp: option_rel_Some1 split: if_splits)
  show "host_roots rs' = host_roots rs"
  proof (intro set_eqI iffI)
    fix y assume "y \<in> host_roots rs'"
    then show "y \<in> host_roots rs" using a s(8) by (fastforce simp: host_roots_def same_root_def)
  next
    fix y assume "y \<in> host_roots rs"
    then obtain j v where v: "registration rs j = Some v" "0 < strong rs (elease (entry v))" "Some y \<in> set (targets (entry v))" by (auto simp: host_roots_def)
    from b [OF v(1,2)] obtain u where "registration rs' j = Some u" "same_root v u" by blast
    then show "y \<in> host_roots rs'" using v(2,3) s(8) by (auto simp: host_roots_def same_root_def intro!: exI [of _ j] exI [of _ u])
  qed
qed

lemma sweep_root_ok:
  assumes inv: "sweeping P E S batch H r" and ph: "gsweep H = SweepRoots n" and len: "batch_len batch < RETIREMENT_CAP"
    and run: "sweep_root n batch H = (x, batch', H')"
  shows "swept_step P E S H r x batch' H'"
proof (cases "n = 0")
  case True
  then have H': "x = Ok True" "batch' = batch" "H' = H\<lparr>gsweep := SweepDescriptors (length (dactive (descriptors_of (gphysical H))))\<rparr>" using run by (auto simp: sweep_root_def)
  have "sweep_inv H'" using sweepingD(13) [OF inv] ph by (auto simp: sweep_inv_def H'(3) Let_def)
  from sweep_stage_ok [OF inv this [unfolded H'(3)]] show ?thesis using batch_spares [OF inv] H' by (simp add: swept_step_def spared_def)
next
  case False
  note I = sweepingD [OF inv]
  from I(13) ph have np: "n \<le> pending_releases (groots H)" "cpage (cursor (gphysical H)) = None" by (auto simp: sweep_inv_def Let_def)
  then obtain i rest where n: "notices (released (groots H)) = i # rest" using False by (cases "notices (released (groots H))") (auto simp: pending_releases_def)
  obtain z rs where rel: "release_one (groots H) = (z, rs)" by fastforce
  note R = released_roots [OF I(6,7) n rel]
  from R(1) obtain e where z: "z = Ok (Some e)" by blast
  have H': "x = Ok True" "batch' = batch\<lparr>owners := owners batch @ [Pack e]\<rparr>" "H' = H\<lparr>groots := rs, gsweep := SweepRoots (n - 1)\<rparr>"
    using run False rel z len by (auto simp: sweep_root_def push_root_def assert_then_def)
  have sp: "spared H H'" using R(5) by (simp add: spared_def H'(3))
  have ret: "retired_set (owners batch') = retired_set (owners batch)" by (auto simp: retired_set_def H'(2))
  have "batch_ok (owners batch') (gphysical H')" using I(3) by (simp add: H'(2,3) batch_ok_def retired_ids_def retired_slots_def)
  moreover have "sweep_inv H'" using I(13) np R(6) False by (auto simp: sweep_inv_def H'(3) Let_def)
  ultimately have "sweeping P E S batch' H' r"
    using I R ret by (intro sweeping_step [OF inv sp]) (simp_all add: H'(3) visitor_def)
  then show ?thesis using sp batch_spares [of P E S batch' H' r] unfolding swept_step_def by blast
qed

text \<open>A registered descriptor without users is nobody's descriptor.\<close>

lemma unused_descriptor:
  assumes "heap_inv h" "uses_ok [] h" "retirable f (descriptors_of h) d" "a \<in> live_set h"
  shows "header_descriptor h a \<noteq> Some d"
proof
  assume "header_descriptor h a = Some d"
  then have "a \<in> users h d" using assms(4) by (simp add: users_def)
  moreover obtain e where "registered d (descriptors_of h) = Some e" "uses e = 0" using assms(3) by (auto simp: retirable_def)
  then have "card (users h d) = 0" using assms(2) by (auto simp: uses_ok_def)
  moreover have "finite (users h d)" using live_finite [OF assms(1)] by (simp add: users_def)
  ultimately show False by auto
qed

lemma sweep_descriptor_ok:
  assumes inv: "sweeping P E S batch H r" and ph: "gsweep H = SweepDescriptors n"
    and run: "sweep_descriptor n batch H = (x, batch', H')"
  shows "swept_step P E S H r x batch' H'"
proof -
  note I = sweepingD [OF inv]
  let ?h = "gphysical H" and ?e = "mepoch (gmarking H)"
  from I(13) ph obtain act avs where ha: "heap_at {} ?h act avs" and sw: "swept ?h ?e act" and np: "n \<le> length (dactive (descriptors_of ?h))" "cpage (cursor ?h) = None"
    by (auto simp: sweep_inv_def Let_def)
  consider "batch_len batch \<noteq> 0" | "batch_len batch = 0" "n \<noteq> 0" | "batch_len batch = 0" "n = 0" by blast
  then show ?thesis
  proof cases
    case 1
    then have "batch' = batch" "H' = H" using run by (auto simp: sweep_descriptor_def)
    then show ?thesis using swept_still [OF inv inv] by simp
  next
    case 2
    then have ow: "owners batch = []" by (simp add: batch_len_def)
    have ri: "registry_inv (descriptors_of ?h)" using heap_atD(7) [OF ha] by (simp add: memory_ok_def)
    have uo: "uses_ok [] ?h" using I(3) ow by (simp add: batch_ok_def retired_ids_def)
    let ?d = "dactive (descriptors_of ?h) ! (n - 1)"
    have "n - 1 < length (dactive (descriptors_of ?h))" using 2(2) np(1) by simp
    from retire_one [OF ri this, of "gstrong H"] obtain ds where ds: "retire_unused (gstrong H) (n - 1) (descriptors_of ?h) = Ok ds" "registry_inv ds"
      "\<And>j. registered j ds = (if j = ?d \<and> retirable (gstrong H) (descriptors_of ?h) ?d then None else registered j (descriptors_of ?h))"
      "n - 1 \<le> length (dactive ds)" by blast
    define h' where "h' = ?h\<lparr>descriptors_of := ds\<rparr>"
    have H': "x = Ok True" "batch' = batch" "H' = H\<lparr>gphysical := h', gsweep := SweepDescriptors (n - 1)\<rparr>"
      using run 2 ds(1) by (auto simp: sweep_descriptor_def h'_def)
    have same: "slot_at h' = slot_at ?h" "slot_address h' = slot_address ?h" "marks_at h' = marks_at ?h" "cursor h' = cursor ?h" "memory h' = memory ?h"
      "descriptors_of h' = ds" "page_count h' = page_count ?h" "allocations h' = allocations ?h"
      by (simp_all add: h'_def slot_at_def slot_address_def marks_at_def fun_eq_iff page_count_def)
    have sets: "live_set h' = live_set ?h" "black_set h' e = black_set ?h e" for e
      by (simp_all add: live_set_def black_set_def same marks_colours [OF same(3)])
    have reg: "registered d ds = registered d (descriptors_of ?h)" if "header_descriptor ?h a = Some d" "a \<in> live_set ?h" for a d
      using ds(3) [of d] unused_descriptor [OF I(2) uo _ that(2)] that(1) by auto
    have hd: "header_descriptor h' = header_descriptor ?h" by (simp add: header_descriptor_def same fun_eq_iff)
    have da: "descriptor_at h' a = descriptor_at ?h a" if "a \<in> live_set ?h" for a
      using reg [OF _ that] by (cases "header_descriptor ?h a") (simp_all add: descriptor_at_def same hd)
    have ha': "heap_at {} h' act avs"
    proof -
      have "registered d ds \<noteq> None" if "contents (allocations ?h) i = Some p" "slot_state p s = Occupied" "page_pointer p s = Ok a"
        "memory ?h a = Some \<lparr>hdescriptor = d, hallocation = i\<rparr>" "registered d (descriptors_of ?h) \<noteq> None" for i p s a d
      proof -
        have "slot_at ?h i s = Occupied" "slot_address ?h i s = Some a" using that(1-3) by (simp_all add: slot_at_def slot_address_def)
        then have "a \<in> live_set ?h" by (auto simp: live_set_def)
        then show ?thesis using reg [of a d] that(4,5) by (simp add: header_descriptor_def)
      qed
      then have "memory_ok (memory ?h) ds (contents (allocations ?h))" using heap_atD(7) [OF ha] ds(2) unfolding memory_ok_def by blast
      then show ?thesis using ha by (simp add: heap_at_def Let_def h'_def)
    qed
    have sp: "spared H H'" using da sets found_live(2) [of ?h ?e] by (auto simp: spared_def H'(3) Let_def)
    have uo': "uses_ok [] h'" using uo ds(3) by (auto simp: uses_ok_def users_def sets same hd split: if_splits)
    have "descriptor_fits P (entry_descriptor en)" if "registered d ds = Some en" for d en
      using I(4) ds(3) [of d] that by (auto simp: typed_objects_def split: if_splits)
    then have ty: "typed_objects P h' (gobjects H)" using I(4) da by (auto simp: typed_objects_def sets same)
    have hi': "heap_inv h'" using ha' by (auto simp: heap_inv_def)
    have "mark_inv {} ((visitor H)\<lparr>physical := h'\<rparr>)" by (rule detach_marks [OF I(2) hi' I(5)]) (use I(11) in \<open>simp_all add: same\<close>)
    then have mi: "mark_inv {} (visitor H')" by (simp add: visitor_def H'(3))
    have "swept h' ?e act" using sw unfolding swept_def Let_def same marks_colours [OF same(3)] .
    then have "sweep_inv H'" using ha' np ds(4) by (auto simp: sweep_inv_def H'(3) Let_def same)
    then have "sweeping P E S batch' H' r"
      using I hi' ty mi uo' ow by (intro sweeping_step [OF inv sp]) (auto simp: H' sets batch_ok_def retired_ids_def retired_slots_def)
    then show ?thesis using sp batch_spares [of P E S batch' H' r] unfolding swept_step_def by blast
  next
    case 3
    show ?thesis
    proof (cases "checked_add (mcycles (gmarking H)) 1")
      case None
      then have "x = Err (Limit ''completed cycles'')" "batch' = batch" "H' = H" using run 3 by (auto simp: sweep_descriptor_def)
      then show ?thesis using swept_still [OF inv inv] by simp
    next
      case (Some k)
      then have H': "x = Ok False" "batch' = batch" "H' = H\<lparr>gmarking := (gmarking H)\<lparr>mcycles := k, mphase := Idle\<rparr>\<rparr>" using run 3 by (auto simp: sweep_descriptor_def)
      have "live_set ?h = black_set ?h ?e" using sw np(2) found_live(2) [of ?h ?e] by (auto simp: swept_def live_set_def black_set_def)
      then have "all_black H'" by (simp add: all_black_def H'(3))
      moreover have "spared H H'" by (simp add: spared_def H'(3))
      moreover have "owners batch = []" using 3(1) by (simp add: batch_len_def)
      ultimately show ?thesis using H' inv batch_spares [OF inv] unfolding swept_step_def by auto
    qed
  qed
qed

lemma sweep_step_ok:
  assumes inv: "sweeping P E S batch H r" and len: "batch_len batch < RETIREMENT_CAP" and run: "sweep_step P batch b H = (x, batch', b', H')"
  shows "swept_step P E S H r x batch' H'" "worked b b'"
proof -
  show "swept_step P E S H r x batch' H'"
  proof (cases "gsweep H")
    case SweepPhysical
    then show ?thesis using run sweep_page_ok [OF inv SweepPhysical len] by (simp add: sweep_step_def)
  next
    case (SweepRoots n)
    then show ?thesis using run sweep_root_ok [OF inv SweepRoots len] by (auto simp: sweep_step_def split: prod.splits)
  next
    case (SweepDescriptors n)
    then show ?thesis using run sweep_descriptor_ok [OF inv SweepDescriptors] by (auto simp: sweep_step_def split: prod.splits)
  qed
  show "worked b b'" using run
    by (auto simp: sweep_step_def sweep_page_def Let_def split: sweep_stage.splits prod.splits option.splits outcome.splits if_splits bool.splits
        intro: take_worked)
qed

text \<open>The loop ends with the invariant, or with the cycle complete and every object black.\<close>

lemma sweep_loop_ok:
  assumes "sweeping P E S batch H r" "sweep_loop P batch b H = (x, batch', b', H')"
  shows "spared H H' \<and> worked b b' \<and> retired_set (owners batch') \<inter> black_set (gphysical H') (mepoch (gmarking H')) = {} \<and>
    (x = Ok () \<longrightarrow> sweeping P E S batch' H' r \<or> (\<exists>K n. owners batch' = [] \<and> all_black H' \<and> sweeping P E S batch' K r \<and> spared H K \<and>
       H' = K\<lparr>gmarking := (gmarking K)\<lparr>mcycles := n, mphase := Idle\<rparr>\<rparr>))"
  using assms
proof (induction P batch b H rule: sweep_loop.induct)
  case (1 P batch b H)
  have still: ?case if "(x, batch', b', H') = (Ok (), batch, c, H)" "worked b c" for c
    using that 1(2) batch_spares [OF 1(2)] by simp
  show ?case
  proof (cases "batch_len batch < RETIREMENT_CAP")
    case len: True
    obtain ok b1 where t: "take_units 1 b = (ok, b1)" by fastforce
    note w = take_worked [OF t]
    show ?thesis
    proof (cases ok)
      case False
      then show ?thesis using 1(3) len t w by (intro still [of b1]) (simp_all add: sweep_loop.simps [of P batch b H])
    next
      case ok: True
      obtain y batch1 b2 H1 where st: "sweep_step P batch b1 H = (y, batch1, b2, H1)" by (metis prod_cases4)
      note SS = sweep_step_ok [OF 1(2) len st]
      have w2: "worked b b2" by (rule worked_trans [OF w SS(2)])
      have unf: "sweep_loop P batch b H = (case y of Ok c \<Rightarrow> if c then sweep_loop P batch1 b2 H1 else (Ok (), batch1, b2, H1)
          | Err e \<Rightarrow> (Err e, batch1, b2, H1) | Panic m \<Rightarrow> (Panic m, batch1, b2, H1))"
        using len t ok st by (subst sweep_loop.simps) (auto split: outcome.splits)
      show ?thesis
      proof (cases "y = Ok True")
        case True
        then have inv1: "sweeping P E S batch1 H1 r" using SS(1) by (auto simp: swept_step_def)
        have "(True, b1) = take_units 1 b" "(Ok True, batch1, b2, H1) = sweep_step P batch b1 H" using t ok st True by simp_all
        from 1(1) [OF len this(1) refl this(2) refl refl refl refl inv1] 1(3) unf True
        have IH: "spared H1 H'" "worked b2 b'" "retired_set (owners batch') \<inter> black_set (gphysical H') (mepoch (gmarking H')) = {}"
          "x = Ok () \<longrightarrow> sweeping P E S batch' H' r \<or> (\<exists>K n. owners batch' = [] \<and> all_black H' \<and> sweeping P E S batch' K r \<and> spared H1 K \<and>
             H' = K\<lparr>gmarking := (gmarking K)\<lparr>mcycles := n, mphase := Idle\<rparr>\<rparr>)" by auto
        have sp: "spared H H1" using SS(1) by (simp add: swept_step_def)
        show ?thesis using IH spared_trans [OF sp] worked_trans [OF w2 IH(2)] by blast
      next
        case False
        then have H': "batch' = batch1" "b' = b2" "H' = H1" and x: "x = Ok () \<longrightarrow> y = Ok False" using 1(3) unf by (auto split: outcome.splits if_splits)
        have sp: "spared H H1" "retired_set (owners batch1) \<inter> black_set (gphysical H1) (mepoch (gmarking H1)) = {}" using SS(1) by (simp_all add: swept_step_def)
        have "sweeping P E S batch1 H1 r \<or> (\<exists>K n. owners batch1 = [] \<and> all_black H1 \<and> sweeping P E S batch1 K r \<and> spared H K \<and>
             H1 = K\<lparr>gmarking := (gmarking K)\<lparr>mcycles := n, mphase := Idle\<rparr>\<rparr>)" if "y = Ok False"
          using SS(1) that spared_refl [of H] unfolding swept_step_def by blast
        then show ?thesis using sp w2 x unfolding H' by blast
      qed
    qed
  next
    case False
    then show ?thesis using 1(3) by (intro still [of b]) (simp_all add: sweep_loop.simps [of P batch b H])
  qed
qed

text \<open>An empty batch in the last iteration: the heap is idle, with the black objects left.\<close>

lemma sweep_complete:
  assumes K: "sweeping P E S batch K r" "owners batch = []" and H: "H = K\<lparr>gmarking := (gmarking K)\<lparr>mcycles := n, mphase := Idle\<rparr>\<rparr>" and b: "all_black H"
  shows "gc_inv P E C S D H r"
proof -
  note I = sweepingD [OF K(1)]
  have sel: "gphysical H = gphysical K" "gobjects H = gobjects K" "groots H = groots K" "gactive H = None" "gid H = gid K"
    "mphase (gmarking H) = Idle" "mepoch (gmarking H) = mepoch (gmarking K)" "pending (gmarking H) = []"
    using I(11,12) by (simp_all add: H)
  have "mark_inv {} (visitor H)" using I(5) by (simp add: visitor_def H mark_inv_phase)
  moreover have "uses_ok [] (gphysical K)" using I(3) K(2) by (simp add: batch_ok_def retired_ids_def)
  moreover have "live_set (gphysical K) = black_set (gphysical K) (mepoch (gmarking K))" using b by (simp add: all_black_def sel)
  ultimately show ?thesis using I by (simp add: gc_inv_def phase_inv_def sel active_slots_def gc_roots_def)
qed

lemma sweeping_done:
  assumes inv: "sweeping P E S batch H r" and run: "finish_owners P (owners batch) 0 (gobjects H) (gphysical H) = (x, os, h)"
  defines "H' \<equiv> H\<lparr>gobjects := os, gphysical := h\<rparr>"
  shows "spared H H'" "\<exists>n. x = Ok n" "gc_inv P E C S D H' r"
proof -
  note I = sweepingD [OF inv]
  let ?h = "gphysical H" and ?e = "mepoch (gmarking H)"
  from I(13) obtain act avs where ha: "heap_at {} ?h act avs" and sw: "swept ?h ?e act" by (auto simp: sweep_inv_def Let_def)
  have pv: "physical (visitor H) = ?h" by simp
  from finish_owners_ok [OF ha I(3) sw I(5) pv, of P 0 "gobjects H"] run obtain n act' avs' where F: "x = Ok n" "heap_at {} h act' avs'" "uses_ok [] h" "swept h ?e act'"
    "keeps_objects {} ?h h" "mark_inv {} ((visitor H)\<lparr>physical := h\<rparr>)" "cpage (cursor ?h) = None \<longrightarrow> cpage (cursor h) = None"
    "dactive (descriptors_of h) = dactive (descriptors_of ?h)"
    "\<And>a. os a = gobjects H a \<or> os a = None \<and> (\<exists>r. Object r \<in> set (owners batch) \<and> a = rreference (ret_reservation r))"
    by (elim exE conjE) (simp; blast)
  show "\<exists>n. x = Ok n" using F(1) by blast
  have sel: "gphysical H' = h" "gmarking H' = gmarking H" "gobjects H' = os" "groots H' = groots H" "gactive H' = None" "gid H' = gid H" "gsweep H' = gsweep H"
    using I(12) by (simp_all add: H'_def)
  have k: "live_set h = live_set ?h" "memory h = memory ?h" "black_set h ?e = black_set ?h ?e"
    "\<And>d. map_option entry_descriptor (registered d (descriptors_of h)) = map_option entry_descriptor (registered d (descriptors_of ?h))"
    using F(5) by (simp_all add: keeps_objects_def)
  have da: "descriptor_at h a = descriptor_at ?h a" for a by (simp add: descriptor_at_def header_descriptor_def k)
  have os: "os a = gobjects H a" if "a \<in> live_set ?h" for a using F(9) [of a] I(14) that by (auto simp: retired_set_def)
  show sp: "spared H H'" using os found_live(2) [of ?h ?e] by (auto simp: spared_def sel k(3) da Let_def)
  have hi: "heap_inv h" using F(2) by (auto simp: heap_inv_def)
  have "descriptor_fits P (entry_descriptor en)" if "registered d (descriptors_of h) = Some en" for d en
  proof -
    from k(4) [of d] that obtain e0 where "registered d (descriptors_of ?h) = Some e0" "entry_descriptor e0 = entry_descriptor en" by (auto simp: map_option_case split: option.splits)
    then show ?thesis using I(4) unfolding typed_objects_def by metis
  qed
  then have ty: "typed_objects P h os" using I(4) os by (auto simp: typed_objects_def k(1) da)
  have "sweep_inv H'" using I(13) F(2,4,7,8) by (auto simp: sweep_inv_def sel Let_def split: sweep_stage.splits)
  moreover have "mark_inv {} (visitor H')" using F(6) by (simp add: visitor_def sel)
  moreover have "batch_ok (owners batch_new) h" using F(3) by (simp add: batch_ok_def batch_new_def retired_ids_def retired_slots_def)
  moreover have "retired_set (owners batch_new) = {}" by (simp add: retired_set_def batch_new_def)
  ultimately have "sweeping P E S batch_new H' r"
    using I hi ty by (intro sweeping_step [OF inv sp]) (simp_all add: sel)
  from sweepingD [OF this] F(3) show "gc_inv P E C S D H' r" by (simp add: gc_inv_def phase_inv_def sel active_slots_def Let_def)
qed

text \<open>The sweep keeps every reachable object on every branch; when it succeeds, the invariant holds, and a completed cycle leaves the reachable objects only.\<close>

lemma sweep_ok:
  assumes inv: "gc_inv P E C S D H r" and ph: "mphase (gmarking H) = Sweep" and run: "sweep P b H = (x, b', H')"
  shows "kept E S H r H' r" "worked b b'"
    "x = Ok n \<Longrightarrow> gc_inv P E C S D H' r \<and> (precise E S H r \<longrightarrow> precise E S H' r) \<and> (mphase (gmarking H') = Idle \<longrightarrow> all_black H')"
proof -
  note start = sweeping_start [OF inv ph]
  note R = sweepingD(15) [OF start]
  obtain y batch b1 H1 where loop: "sweep_loop P batch_new b H = (y, batch, b1, H1)" by (metis prod_cases4)
  from sweep_loop_ok [OF start loop]
  have L: "spared H H1" "worked b b1" "retired_set (owners batch) \<inter> black_set (gphysical H1) (mepoch (gmarking H1)) = {}" by simp_all
  have fin: "y = Ok () \<longrightarrow> sweeping P E S batch H1 r \<or> (\<exists>K n. owners batch = [] \<and> all_black H1 \<and> sweeping P E S batch K r \<and> spared H K \<and>
       H1 = K\<lparr>gmarking := (gmarking K)\<lparr>mcycles := n, mphase := Idle\<rparr>\<rparr>)" using sweep_loop_ok [OF start loop] by blast
  have mp: "mark_inv {} (visitor H)" "pending (gmarking H) = []" using sweepingD(5,11) [OF start] by simp_all
  have good: "kept E S H r K r \<and> (precise E S H r \<longrightarrow> precise E S K r)" if "spared H K" "gc_inv P E C S D K r" "pending (gmarking K) = []" "gactive K = None" for K
  proof -
    have "mark_inv {} (visitor K)" using that(2,4) by (simp add: gc_inv_def active_slots_def)
    then show ?thesis using spared_precise [OF that(1) _ _ mp _ that(3)] spared_kept [OF that(1) R] by blast
  qed
  show "worked b b'"
    using run loop L(2) by (auto simp: sweep_def Let_def split: outcome.splits prod.splits if_splits)
  have drop: "spared H (H1\<lparr>gobjects := discard_batch batch (gobjects H1)\<rparr>)"
  proof -
    have "discard_batch batch (gobjects H1) a = gobjects H1 a" if "a \<in> black_set (gphysical H1) (mepoch (gmarking H1))" for a
    proof -
      have "a \<notin> retired_set (owners batch)" using L(3) that by blast
      then show ?thesis by (auto simp: discard_batch_def discard_owners_def retired_set_def split: owner.splits)
    qed
    then show ?thesis using L(1) by (auto simp: spared_def Let_def)
  qed
  have "kept E S H r H' r \<and> (x = Ok n \<longrightarrow> gc_inv P E C S D H' r \<and> (precise E S H r \<longrightarrow> precise E S H' r) \<and> (mphase (gmarking H') = Idle \<longrightarrow> all_black H'))"
  proof (cases y)
    case (Err e)
    then have "H' = H1\<lparr>gobjects := discard_batch batch (gobjects H1)\<rparr>" "x = Err e" using run loop by (auto simp: sweep_def)
    then show ?thesis using spared_kept [OF drop R] by simp
  next
    case (Panic m)
    then have "H' = H1\<lparr>gobjects := discard_batch batch (gobjects H1)\<rparr>" "x = Panic m" using run loop by (auto simp: sweep_def)
    then show ?thesis using spared_kept [OF drop R] by simp
  next
    case (Ok u)
    obtain z os h where fo: "finish_owners P (owners batch) 0 (gobjects H1) (gphysical H1) = (z, os, h)" by (metis prod_cases3)
    define H2 where "H2 = H1\<lparr>gobjects := os, gphysical := h\<rparr>"
    have out: "\<exists>m. z = Ok m" "gc_inv P E C S D H2 r" "spared H H2" "mphase (gmarking H2) = Idle \<longrightarrow> all_black H2" "pending (gmarking H2) = []" "gactive H2 = None"
    proof -
      from fin Ok consider "sweeping P E S batch H1 r" | K k where "owners batch = []" "all_black H1" "sweeping P E S batch K r" "spared H K"
         "H1 = K\<lparr>gmarking := (gmarking K)\<lparr>mcycles := k, mphase := Idle\<rparr>\<rparr>" by auto
      then have "(\<exists>m. z = Ok m) \<and> gc_inv P E C S D H2 r \<and> spared H H2 \<and> (mphase (gmarking H2) = Idle \<longrightarrow> all_black H2) \<and> pending (gmarking H2) = [] \<and> gactive H2 = None"
      proof cases
        case 1
        from sweeping_done [OF 1 fo] have "\<exists>m. z = Ok m" "gc_inv P E C S D H2 r" "spared H1 H2" unfolding H2_def by blast+
        moreover have "mphase (gmarking H2) = Sweep" "pending (gmarking H2) = []" "gactive H2 = None" using sweepingD(1,11,12) [OF 1] by (simp_all add: H2_def)
        ultimately show ?thesis using spared_trans [OF L(1)] by simp
      next
        case 2
        then have eq: "z = Ok 0" "H2 = H1" using fo by (simp_all add: H2_def)
        have "pending (gmarking H1) = []" "gactive H1 = None" using sweepingD(11,12) [OF 2(3)] 2(5) by simp_all
        then show ?thesis using eq sweep_complete [OF 2(3,1,5,2)] 2(2) L(1) by blast
      qed
      then show "\<exists>m. z = Ok m" "gc_inv P E C S D H2 r" "spared H H2" "mphase (gmarking H2) = Idle \<longrightarrow> all_black H2" "pending (gmarking H2) = []" "gactive H2 = None" by simp_all
    qed
    note g = good [OF out(3,2,5,6)]
    from out(1) obtain m where m: "z = Ok m" by blast
    show ?thesis
    proof (cases "m = 0")
      case True
      then have "H' = H2" using run loop Ok fo m by (auto simp: sweep_def H2_def)
      then show ?thesis using g out(2,4) by simp
    next
      case False
      then have "H' = set_phase Faulted H2" "x = Err (Provider ''object destructor panicked'')" using run loop Ok fo m by (auto simp: sweep_def H2_def)
      moreover have "kept E S H r (set_phase Faulted H2) r" using g by (simp add: kept_def set_phase_def gc_roots_def)
      ultimately show ?thesis by simp
    qed
  qed
  then show "kept E S H r H' r" "x = Ok n \<Longrightarrow> gc_inv P E C S D H' r \<and> (precise E S H r \<longrightarrow> precise E S H' r) \<and> (mphase (gmarking H') = Idle \<longrightarrow> all_black H')"
    by simp_all
qed

end
