(* ===== verification/Gc_Service.thy ===== *)
theory Gc_Service
  imports Gc_Sweep_Phase
begin

text \<open>
  The service call as a whole: it returns, keeps every reachable object on every branch, and on
  success re-establishes the invariant. A cycle that starts from an idle heap discovers only
  reachable objects, so when it completes the allocated objects are the reachable ones.
\<close>

section \<open>Reference definitions\<close>

text \<open>What a service call leaves.\<close>

definition served ::
    "('o, 's) provider \<Rightarrow> 'o edge_map \<Rightarrow> ('o, 's) cover_map \<Rightarrow> ('q \<Rightarrow> nat set) \<Rightarrow> ('q \<Rightarrow> 'c \<Rightarrow> nat set) \<Rightarrow>
     scan_budget \<Rightarrow> ('o, 's) gc_heap \<Rightarrow> ('q, 'c) root_scan \<Rightarrow> nat gc_result \<Rightarrow> scan_budget \<Rightarrow> ('o, 's) gc_heap \<Rightarrow> ('q, 'c) root_scan \<Rightarrow> bool" where
  "served P E C S D b H r x b' H' r' \<longleftrightarrow> kept E S H r H' r' \<and> worked b b' \<and>
     (\<forall>n. x = Ok n \<longrightarrow> gc_inv P E C S D H' r' \<and> (precise E S H r \<longrightarrow> precise E S H' r') \<and>
        (mphase (gmarking H') = Idle \<longrightarrow> mphase (gmarking H) = Idle \<or> all_black H'))"

lemma served_trans:
  assumes "kept E S H r H1 r1" "worked b b1" "precise E S H r \<longrightarrow> precise E S H1 r1" "mphase (gmarking H1) \<noteq> Idle" "served P E C S D b1 H1 r1 x b' H' r'"
  shows "served P E C S D b H r x b' H' r'"
  using assms kept_trans [OF assms(1)] worked_trans [OF assms(2)] by (auto simp: served_def)

lemma publish_phase: "publish a b v = (x, b', v') \<Longrightarrow> mphase (marking v') = mphase (marking v)"
  by (auto simp: publish_def publish_admitted_def publish_located_def charge_publication_def discover_def Let_def
      split: outcome.splits if_splits prod.splits option.splits bool.splits scan_status.splits)

lemma visit_phase: "try_visit_reference a b v = (x, b', v') \<Longrightarrow> mphase (marking v') = mphase (marking v)"
  by (auto simp: try_visit_reference_def dest!: publish_phase split: prod.splits)

lemma scan_run_phase: "scan_run E bv V bv' \<Longrightarrow> mphase (marking (snd bv')) = mphase (marking (snd bv))"
  by (induction rule: scan_run.induct) (auto dest: visit_phase)

lemma next_gray_phase: "next_gray v = (x, v') \<Longrightarrow> mphase (marking v') = mphase (marking v)"
  by (auto simp: next_gray_def Let_def split: if_splits outcome.splits prod.splits)

section \<open>Starting a cycle\<close>

context collector
begin

lemma idle_invs:
  assumes "gc_inv P E C S D H r" "mphase (gmarking H) = Idle"
  shows "heap_inv (gphysical H)" "mark_inv {} (visitor H)" "pending (gmarking H) = []" "gactive H = None" "gc_roots S H r \<subseteq> live_set (gphysical H)"
    "closed_in (edges_at E (gphysical H) (gobjects H)) (live_set (gphysical H))" "reachable E S H r \<subseteq> live_set (gphysical H)" "roots_inv (groots H)"
proof -
  show I: "gc_roots S H r \<subseteq> live_set (gphysical H)" "closed_in (edges_at E (gphysical H) (gobjects H)) (live_set (gphysical H))" "gactive H = None"
    using assms by (simp_all add: gc_inv_def phase_inv_def Let_def)
  show "reachable E S H r \<subseteq> live_set (gphysical H)" by (rule reachable_closed [OF I(1,2)])
  show "mark_inv {} (visitor H)" using assms(1) I(3) by (simp add: gc_inv_def active_slots_def)
qed (use assms in \<open>simp_all add: gc_inv_def phase_inv_def Let_def\<close>)

lemma source_begin_roots: "source_begin_scan Q r = (x, r') \<Longrightarrow> source_roots S r' = source_roots S r"
  by (auto simp: source_begin_scan_def source_roots_def Let_def split: root_scan.splits outcome.splits)

lemma source_begin_passed: "source_begin_scan Q r = (Ok (), r') \<Longrightarrow> passed_source S D r' = {}"
  using source.start_law by (auto simp: source_begin_scan_def passed_source_def Let_def split: root_scan.splits outcome.splits)

lemma start_cycle_ok:
  assumes inv: "gc_inv P E C S D H r" and ph: "mphase (gmarking H) = Idle" and run: "start_cycle Q H r = (x, H', r')"
  shows "kept E S H r H' r' \<and> (x = Ok () \<longrightarrow> gc_inv P E C S D H' r' \<and> precise E S H' r' \<and> mphase (gmarking H') = phase.Roots)"
proof -
  note I = idle_invs [OF inv ph]
  have unmoved: "kept E S H r K k" if "gphysical K = gphysical H" "gobjects K = gobjects H" "groots K = groots H" "source_roots S k = source_roots S r" for K k
    using I(7) that by (auto simp: kept_def gc_roots_def)
  show ?thesis
  proof (cases "marking_start (gmarking H)")
    case (Ok m)
    obtain y r1 where b: "source_begin_scan Q r = (y, r1)" by fastforce
    note sr = source_begin_roots [OF b]
    have hv: "heap_inv (physical (visitor H))" "mphase (marking (visitor H)) = Idle" "pending (marking (visitor H)) = []" "marking_start (marking (visitor H)) = Ok m"
      using I ph Ok by simp_all
    note M = marking_start_ok [OF hv(1) I(2) hv(2-4)]
    show ?thesis
    proof (cases "y = Ok ()")
      case True
      let ?c = "root_cursor_default\<lparr>rc_end := length (ractive (groots H))\<rparr>"
      have H': "x = Ok ()" "r' = r1" "H' = H\<lparr>gmarking := m, gledger := (gledger H)\<lparr>allocation_growth := 0\<rparr>, groot_cursor := ?c\<rparr>"
        using run Ok b True by (auto simp: start_cycle_def Let_def)
      have sel: "gphysical H' = gphysical H" "gmarking H' = m" "gobjects H' = gobjects H" "groots H' = groots H" "gactive H' = None" "gid H' = gid H" "groot_cursor H' = ?c"
        by (simp_all add: H' I(4))
      have e: "black_set (gphysical H) (mepoch m) = {}" "found_set (gphysical H) (mepoch m) = {}" using M(4,5) by (auto simp: black_set_def found_set_def)
      have "mark_inv {} (visitor H')" using M(1) by (simp add: visitor_def sel)
      moreover have "cursor_ok H'" by (simp add: cursor_ok_def sel root_cursor_default_def)
      moreover have "passed_roots ?c (groots H) = {}" by (auto simp: passed_roots_def passed_target_def root_cursor_default_def)
      moreover have "passed_source S D r1 = {}" using source_begin_passed b True by simp
      moreover have "tricolour E H'" by (simp add: tricolour_def sel e)
      ultimately have "gc_inv P E C S D H' r1"
        using inv I(5,6) M(2) sr by (simp add: gc_inv_def phase_inv_def sel active_slots_def gc_roots_def)
      then show ?thesis using unmoved [of H' r1] sr M(2) H'(1,2) by (simp add: sel precise_def e)
    next
      case False
      then have "\<forall>z. x \<noteq> Ok z" "r' = r1" "H' = H\<lparr>gmarking := m\<rparr>" using run Ok b by (auto simp: start_cycle_def Let_def split: outcome.splits)
      then show ?thesis using unmoved [of H' r1] sr by simp
    qed
  qed (use run unmoved in \<open>auto simp: start_cycle_def\<close>)
qed

section \<open>Phases\<close>

text \<open>Scanning never ends a cycle.\<close>

lemma descriptor_scan_phase:
  assumes "descriptor_scan P d x st b v = (y, st', b', v')"
  shows "mphase (marking v') = mphase (marking v)"
proof (cases "payload_fits (desc_rep d) x \<and> state_fits (desc_rep d) st")
  case True
  then show ?thesis using dispatch_law [OF assms] scan_run_phase by fastforce
next
  case False
  then show ?thesis using assms by (cases "desc_rep d"; cases x; cases st) (auto simp: descriptor_scan_def)
qed

lemma source_step_phase:
  assumes "source_scan_step Q r b v = (y, r', b', v')"
  shows "mphase (marking v') = mphase (marking v)"
proof -
  have "mphase (marking v2) = mphase (marking v)" if "source_hook Q q c b v = (w, c', b2, v2)" for q c w c' b2 v2
    using source.scan_law [OF that] scan_run_phase by fastforce
  then show ?thesis using assms by (auto simp: source_scan_step_def Let_def split: root_scan.splits if_splits option.splits prod.splits outcome.splits)
qed

lemma scan_registration_phase:
  assumes "scan_registration b H = (x, b', H')"
  shows "mphase (gmarking H') = mphase (gmarking H)"
proof -
  have "mphase (gmarking K) = mphase (gmarking H)" if "scan_target i e b H = (y, c, K)" for i e y c K
    using that visit_phase [of _ b "visitor (H\<lparr>groot_cursor := _\<rparr>)"]
    by (auto simp: scan_target_def Let_def visitor_def split: option.splits prod.splits outcome.splits scan_status.splits dest: visit_phase)
  then show ?thesis using assms by (auto simp: scan_registration_def next_root_def Let_def split: if_splits option.splits)
qed

lemma scan_roots_phase: "scan_roots Q b H r = (Ok y, b', H', r') \<Longrightarrow> mphase (gmarking H) = phase.Roots \<Longrightarrow> mphase (gmarking H') \<noteq> Idle"
  by (auto simp: scan_roots_def scan_source_def set_phase_def Let_def split: if_splits prod.splits outcome.splits scan_status.splits bool.splits
      dest!: source_step_phase scan_registration_phase)

lemma scan_active_phase: "scan_active P ob b H = (x, b', H') \<Longrightarrow> mphase (gmarking H') = mphase (gmarking H)"
  by (auto simp: scan_active_def begin_scan_def run_scan_def finish_scan_def Let_def split: option.splits if_splits prod.splits outcome.splits bool.splits
      dest!: descriptor_scan_phase)

lemma scan_object_phase:
  assumes "scan_object P b H = (Ok y, b', H')" "mphase (gmarking H) = Mark"
  shows "mphase (gmarking H') \<noteq> Idle"
proof -
  have "mphase (gmarking K) \<noteq> Idle" if "acquire_next P H = (z, K)" for z K
    using that assms(2) by (auto simp: acquire_next_def begin_scan_def start_sweep_def set_phase_def Let_def
        split: prod.splits outcome.splits option.splits if_splits dest!: next_gray_phase)
  then show ?thesis using assms by (auto simp: scan_object_def split: option.splits outcome.splits prod.splits bool.splits dest!: scan_active_phase)
qed

end

context collector
begin

section \<open>The service loop\<close>

lemma inv_phase: "gc_inv P E C S D H r \<Longrightarrow> mphase (gmarking H) \<in> {Idle, phase.Roots, Mark, Sweep}"
  by (auto simp: gc_inv_def phase_inv_def Let_def split: phase.splits)

lemma inv_reachable:
  assumes "gc_inv P E C S D H r"
  shows "reachable E S H r \<subseteq> live_set (gphysical H)"
proof -
  from inv_phase [OF assms] consider "mphase (gmarking H) = Idle" | "mphase (gmarking H) = phase.Roots" | "mphase (gmarking H) = Mark" | "mphase (gmarking H) = Sweep" by auto
  then show ?thesis
  proof cases
    case 1 then show ?thesis by (rule idle_invs(7) [OF assms])
  next
    case 2 then show ?thesis using assms by (intro reachable_closed) (auto simp: gc_inv_def phase_inv_def Let_def)
  next
    case 3 then show ?thesis by (rule mark_invs(12) [OF assms])
  next
    case 4 then show ?thesis using sweepingD(15) [OF sweeping_start [OF assms 4]] found_live(2) [of "gphysical H"] by blast
  qed
qed

lemma service_loop_ok:
  "gc_inv P E C S D H r \<Longrightarrow> \<exists>x b' H' r'. service_loop P Q b H r = Some (x, b', H', r') \<and> served P E C S D b H r x b' H' r'"
proof (induction "2 * remaining b + (if gactive H = None then 0 else 1)" arbitrary: b H r rule: less_induct)
  case (less b H r)
  note inv = less.prems
  have id: "served P E C S D b H r (Ok 0) b H r"
    using kept_refl [OF inv_reachable [OF inv]] inv by (auto simp: served_def)
  have next_step: ?case if "gc_inv P E C S D H1 r1" "service_loop P Q b H r = service_loop P Q b1 H1 r1" "kept E S H r H1 r1"
      "precise E S H r \<longrightarrow> precise E S H1 r1" "worked b b1" "mphase (gmarking H1) \<noteq> Idle"
      "2 * remaining b1 + (if gactive H1 = None then 0 else 1) < 2 * remaining b + (if gactive H = None then 0 else 1)" for b1 H1 r1
  proof -
    from less.hyps [OF that(7,1)] obtain y b2 H2 r2 where l: "service_loop P Q b1 H1 r1 = Some (y, b2, H2, r2)" "served P E C S D b1 H1 r1 y b2 H2 r2" by blast
    from served_trans [OF that(3,5,4,6) l(2)] l(1) that(2) show ?thesis by auto
  qed
  have stop: ?case if "service_loop P Q b H r = Some (x, b1, H1, r1)" "kept E S H r H1 r1" "worked b b1"
      "\<And>n. x = Ok n \<Longrightarrow> gc_inv P E C S D H1 r1 \<and> (precise E S H r \<longrightarrow> precise E S H1 r1) \<and> (mphase (gmarking H1) = Idle \<longrightarrow> all_black H1)" for x b1 H1 r1
    using that by (intro exI [of _ x] exI [of _ b1] exI [of _ H1] exI [of _ r1]) (simp add: served_def)
  show ?case
  proof (cases "remaining b = 0 \<or> mphase (gmarking H) = Idle")
    case True
    then have "service_loop P Q b H r = Some (Ok 0, b, H, r)" by (subst service_loop.simps) auto
    then show ?thesis using id by blast
  next
    case False
    with inv_phase [OF inv] consider "mphase (gmarking H) = phase.Roots" | "mphase (gmarking H) = Mark" | "mphase (gmarking H) = Sweep" by auto
    then show ?thesis
    proof cases
      case 1
      obtain x b1 H1 r1 where s: "scan_roots Q b H r = (x, b1, H1, r1)" by (metis prod_cases4)
      have R: "kept E S H r H1 r1" "precise E S H r \<longrightarrow> precise E S H1 r1" "\<And>y. x = Ok y \<Longrightarrow> gc_inv P E C S D H1 r1" "worked b b1" "x = Ok True \<longrightarrow> remaining b1 < remaining b"
        using scan_roots_ok [OF inv 1 s] by blast+
      have unf: "service_loop P Q b H r = (case x of Ok c \<Rightarrow> if c then service_loop P Q b1 H1 r1 else Some (Ok 0, b1, H1, r1) | Err e \<Rightarrow> Some (Err e, b1, H1, r1) | Panic m \<Rightarrow> Some (Panic m, b1, H1, r1))"
        using s 1 False by (subst service_loop.simps) (simp split: outcome.splits)
      show ?thesis
      proof (cases "x = Ok True")
        case True
        have "2 * remaining b1 + (if gactive H1 = None then 0 else 1) < 2 * remaining b + (if gactive H = None then 0 else 1)" using R(5) True by auto
        then show ?thesis using R True unf scan_roots_phase [OF s [unfolded True] 1] by (intro next_step [of H1 r1 b1]) simp_all
      next
        case nt: False
        then have "service_loop P Q b H r = Some (case x of Ok c \<Rightarrow> Ok 0 | Err e \<Rightarrow> Err e | Panic m \<Rightarrow> Panic m, b1, H1, r1)" using unf by (auto split: outcome.splits)
        then show ?thesis
          using R s scan_roots_phase [OF _ 1] by (elim stop) (auto split: outcome.splits)
      qed
    next
      case 2
      obtain x b1 H1 where s: "scan_object P b H = (x, b1, H1)" by (metis prod_cases3)
      have R: "kept E S H r H1 r" "precise E S H r \<longrightarrow> precise E S H1 r" "\<And>y. x = Ok y \<Longrightarrow> gc_inv P E C S D H1 r" "worked b b1"
        "x = Ok True \<longrightarrow> gactive H1 = None \<and> (gactive H = None \<longrightarrow> remaining b1 < remaining b)"
        using scan_object_ok [OF inv 2 s] by blast+
      have unf: "service_loop P Q b H r = (case x of Ok c \<Rightarrow> if c then service_loop P Q b1 H1 r else Some (Ok 0, b1, H1, r) | Err e \<Rightarrow> Some (Err e, b1, H1, r) | Panic m \<Rightarrow> Some (Panic m, b1, H1, r))"
        using s 2 False by (subst service_loop.simps) (simp split: outcome.splits)
      show ?thesis
      proof (cases "x = Ok True")
        case True
        have "remaining b1 \<le> remaining b" using R(4) by (simp add: worked_def)
        then have "2 * remaining b1 + (if gactive H1 = None then 0 else 1) < 2 * remaining b + (if gactive H = None then 0 else 1)" using R(5) True by auto
        then show ?thesis using R True unf scan_object_phase [OF s [unfolded True] 2] by (intro next_step [of H1 r b1]) simp_all
      next
        case nt: False
        then have "service_loop P Q b H r = Some (case x of Ok c \<Rightarrow> Ok 0 | Err e \<Rightarrow> Err e | Panic m \<Rightarrow> Panic m, b1, H1, r)" using unf by (auto split: outcome.splits)
        then show ?thesis
          using R s scan_object_phase [OF _ 2] by (elim stop) (auto split: outcome.splits)
      qed
    next
      case 3
      obtain x b1 H1 where s: "sweep P b H = (x, b1, H1)" by (metis prod_cases3)
      have "service_loop P Q b H r = Some (x, b1, H1, r)" using s 3 False by (subst service_loop.simps) simp
      then show ?thesis using sweep_ok [OF inv 3 s] by (elim stop) simp_all
    qed
  qed
qed

text \<open>
  One service call from any state between calls. Unless it found no unit to start a cycle with,
  a cycle begun in this call has discovered reachable objects only, and one that is complete has
  left black objects only.
\<close>

lemma service_ok:
  assumes inv: "gc_inv P E C S D H r"
  shows "\<exists>x b' H' r'. service P Q b H r = Some (x, b', H', r') \<and> kept E S H r H' r' \<and> worked b b' \<and>
    (\<forall>n. x = Ok n \<longrightarrow> gc_inv P E C S D H' r' \<and>
       (H' = H \<and> mphase (gmarking H) = Idle \<and> \<not> fst (take_units 1 b) \<or>
        (mphase (gmarking H) = Idle \<or> precise E S H r \<longrightarrow> precise E S H' r') \<and> (mphase (gmarking H') = Idle \<longrightarrow> all_black H')))"
proof (cases "mphase (gmarking H) = Idle")
  case False
  then have "service P Q b H r = service_loop P Q b H r" by (simp add: service_def)
  moreover from service_loop_ok [OF inv, of b] obtain x b' H' r' where "service_loop P Q b H r = Some (x, b', H', r')" "served P E C S D b H r x b' H' r'" by blast
  ultimately show ?thesis using False by (intro exI [of _ x] exI [of _ b'] exI [of _ H'] exI [of _ r']) (simp add: served_def)
next
  case idle: True
  obtain ok b1 where t: "take_units 1 b = (ok, b1)" by fastforce
  note w = take_worked [OF t]
  show ?thesis
  proof (cases ok)
    case False
    then have "service P Q b H r = Some (Ok 0, b1, H, r)" using idle t by (simp add: service_def)
    then show ?thesis using inv idle w t False kept_refl [OF inv_reachable [OF inv]] by auto
  next
    case ok: True
    obtain x H1 r1 where st: "start_cycle Q H r = (x, H1, r1)" by (metis prod_cases3)
    note SC = start_cycle_ok [OF inv idle st]
    show ?thesis
    proof (cases "x = Ok ()")
      case True
      from SC True have g: "gc_inv P E C S D H1 r1" "precise E S H1 r1" "mphase (gmarking H1) = phase.Roots" "kept E S H r H1 r1" by simp_all
      from service_loop_ok [OF g(1), of b1] obtain y b2 H2 r2 where l: "service_loop P Q b1 H1 r1 = Some (y, b2, H2, r2)" "served P E C S D b1 H1 r1 y b2 H2 r2" by blast
      have "service P Q b H r = Some (y, b2, H2, r2)" using idle t ok st True l(1) by (simp add: service_def)
      then show ?thesis using l(2) g kept_trans [OF g(4)] worked_trans [OF w]
        by (intro exI [of _ y] exI [of _ b2] exI [of _ H2] exI [of _ r2]) (simp add: served_def)
    next
      case False
      have "service P Q b H r = Some (case x of Err e \<Rightarrow> Err e | Panic m \<Rightarrow> Panic m | Ok u \<Rightarrow> Ok 0, b1, H1, r1)"
        using idle t ok st False by (auto simp: service_def split: outcome.splits)
      then show ?thesis using SC w False by (intro exI [of _ "case x of Err e \<Rightarrow> Err e | Panic m \<Rightarrow> Panic m | Ok u \<Rightarrow> Ok 0"] exI [of _ b1] exI [of _ H1] exI [of _ r1])
        (auto split: outcome.splits)
    qed
  qed
qed

text \<open>After a cycle in which only reachable objects were discovered, nothing else is left.\<close>

lemma collected_exact:
  assumes "gc_inv P E C S D H r" "mphase (gmarking H) = Idle" "precise E S H r" "all_black H"
  shows "live_set (gphysical H) = reachable E S H r"
proof -
  note I = idle_invs [OF assms(1,2)]
  have "black_set (gphysical H) (mepoch (gmarking H)) \<subseteq> found_set (gphysical H) (mepoch (gmarking H))" using black_found [OF I(2)] by simp
  then show ?thesis using assms(3,4) I(7) by (auto simp: precise_def all_black_def)
qed

end

end
