(* ===== verification/Gc_Driver.thy ===== *)
theory Gc_Driver
  imports Gc_Service
begin

text \<open>
  The entry points of the heap driver (\<^verbatim>\<open>crates/kagari-gc/src: heap.rs, heap/pacing.rs,
  heap/metadata.rs\<close>): construction, one budgeted step, a full collection, the automatic safepoint
  with its pacing, idle maintenance and shutdown. Clock readings are left out of the reports.

  \<open>drain\<close> runs until the heap is idle and is partial, like the loop it models: \<open>None\<close> means that
  the loop does not end. The theorems show that a collection that succeeds leaves exactly the
  reachable objects, and that a safepoint follows the pacing policy: an idle, quiet heap is left
  alone, and a pressing quota or a burst of growth finishes the cycle.
\<close>

section \<open>Definitions\<close>

subsection \<open>Construction\<close>

definition pacing_new :: "pacing_config \<Rightarrow> pacing gc_result" where
  "pacing_new c =
     (if min_growth_bytes c = 0 \<or> growth_percent c = 0 \<or> assist_multiplier c = 0
      then Err (Limit ''nonzero pacing thresholds required'')
      else Ok \<lparr>pconfig = c, threshold = min_growth_bytes c\<rparr>)"

definition pacing_config_default :: pacing_config where
  "pacing_config_default = \<lparr>min_growth_bytes = 16 * 1024, growth_percent = 50, assist_multiplier = 1\<rparr>"

definition heap_config_default :: heap_config where
  "heap_config_default = \<lparr>cpacing = pacing_config_default, max_backing_bytes = usize_max, max_indirect_bytes = usize_max,
     max_objects = usize_max, max_roots = usize_max\<rparr>"

text \<open>\<^verbatim>\<open>Heap::new\<close> with the counter of heap identities; \<open>bytes\<close> is the memory before any allocation.\<close>

definition heap_new :: "heap_config \<Rightarrow> (nat \<Rightarrow> object_header option) \<Rightarrow> 's scan_state \<Rightarrow> nat \<Rightarrow> ('o, 's) gc_heap gc_result \<times> nat" where
  "heap_new config bytes st next_id =
     (case pacing_new (cpacing config) of
        Err e \<Rightarrow> (Err e, next_id)
      | Panic m \<Rightarrow> (Panic m, next_id)
      | Ok p \<Rightarrow>
          (if next_id \<ge> 2 ^ 64 - 1 then (Err (Limit ''heap identity''), next_id)
           else (Ok \<lparr>gid = next_id, gconfig = config, gphysical = physical_default bytes, groots = roots_new next_id, gmarking = marking_default,
                     gactive = None, gworkspace = st, gledger = ledger_default, groot_cursor = root_cursor_default,
                     gsweep = SweepPhysical, gpacing = p, gobjects = (\<lambda>_. None), gstrong = (\<lambda>_. 1)\<rparr>, next_id + 1)))"

subsection \<open>Service\<close>

definition pacing_completed :: "nat \<Rightarrow> pacing \<Rightarrow> pacing" where
  "pacing_completed managed p =
     (let relative = min (managed * growth_percent (pconfig p) div 100) usize_max
      in p\<lparr>threshold := max relative (min_growth_bytes (pconfig p))\<rparr>)"

record work_report =
  work :: nat
  retired_owners :: nat

definition service_work ::
    "('o, 's) provider \<Rightarrow> ('q, 'c) root_source \<Rightarrow> nat \<Rightarrow> ('o, 's) gc_heap \<Rightarrow> ('q, 'c) root_scan \<Rightarrow>
     (work_report gc_result \<times> ('o, 's) gc_heap \<times> ('q, 'c) root_scan) option" where
  "service_work P Q allowance H r =
     (case marking_check (gmarking H) of
        Err e \<Rightarrow> Some (Err e, H, r)
      | Panic m \<Rightarrow> Some (Panic m, H, r)
      | Ok _ \<Rightarrow>
          if allowance < 8 then Some (Err (Limit ''step allowance must be at least 8 units''), H, r)
          else case service P Q (budget_new allowance) H r of
            None \<Rightarrow> None
          | Some (x, b, H', r) \<Rightarrow>
              Some (case x of
                 Err e \<Rightarrow> (Err e, set_phase Faulted H', r)
               | Panic _ \<Rightarrow> (Err (Provider ''scanner or charge panicked''), set_phase Faulted H', r)
               | Ok retired \<Rightarrow>
                   (Ok \<lparr>work = spent b, retired_owners = retired\<rparr>,
                    (if mcycles (gmarking H') \<noteq> mcycles (gmarking H)
                     then H'\<lparr>gpacing := pacing_completed (saturating_add (backing_bytes (gphysical H')) (indirect (gledger H'))) (gpacing H')\<rparr>
                     else H'), r)))"

record step_report =
  sr_phase :: phase
  sr_work :: work_report
  completed_cycles :: nat
  required_budget :: "nat option"

definition step_with ::
    "('o, 's) provider \<Rightarrow> ('q, 'c) root_source \<Rightarrow> nat \<Rightarrow> ('o, 's) gc_heap \<Rightarrow> ('q, 'c) root_scan \<Rightarrow>
     (step_report gc_result \<times> ('o, 's) gc_heap \<times> ('q, 'c) root_scan) option" where
  "step_with P Q allowance H r =
     map_option (\<lambda>(x, H', r).
       (and_then x (\<lambda>w.
          Ok \<lparr>sr_phase = mphase (gmarking H'), sr_work = w, completed_cycles = mcycles (gmarking H') - mcycles (gmarking H),
              required_budget = Option.bind (gactive H') (\<lambda>ac.
                case desc_kind (adescriptor ac) of
                  Bounded max_work \<Rightarrow> if max_work * 5 > allowance then Some (max (max_work * 5) 8) else None
                | _ \<Rightarrow> None)\<rparr>), H', r))
       (service_work P Q allowance H r)"

definition WORK_NORMAL :: nat where
  "WORK_NORMAL = 1024"

text \<open>The totals of a collection so far.\<close>

definition add_work :: "work_report \<Rightarrow> work_report \<Rightarrow> work_report gc_result" where
  "add_work t w =
     and_then (ok_or (Limit ''collection work'') (checked_add (work t) (work w)))
       (\<lambda>n. and_then (ok_or (Limit ''retirement count'') (checked_add (retired_owners t) (retired_owners w)))
          (\<lambda>k. Ok \<lparr>work = n, retired_owners = k\<rparr>))"

text \<open>The service call between the two drains of a collection adds its retirements unchecked.\<close>

definition add_fresh :: "work_report \<Rightarrow> work_report \<Rightarrow> work_report gc_result" where
  "add_fresh t w =
     and_then (ok_or (Limit ''collection work'') (checked_add (work t) (work w)))
       (\<lambda>n. and_then (expect ''attempt to add with overflow'' (checked_add (retired_owners t) (retired_owners w)))
          (\<lambda>k. Ok \<lparr>work = n, retired_owners = k\<rparr>))"

partial_function (option) drain ::
    "('o, 's) provider \<Rightarrow> ('q, 'c) root_source \<Rightarrow> work_report \<Rightarrow> ('o, 's) gc_heap \<Rightarrow> ('q, 'c) root_scan \<Rightarrow>
     (work_report gc_result \<times> ('o, 's) gc_heap \<times> ('q, 'c) root_scan) option" where
  "drain P Q t H r =
     (if mphase (gmarking H) = Idle then Some (Ok t, H, r)
      else Option.bind (service_work P Q WORK_NORMAL H r)
        (\<lambda>(x, H, r). case and_then x (add_work t) of
           Ok t \<Rightarrow> drain P Q t H r
         | Err e \<Rightarrow> Some (Err e, H, r)
         | Panic m \<Rightarrow> Some (Panic m, H, r)))"

subsection \<open>Idle maintenance (heap/metadata.rs)\<close>

definition descriptors_trim :: "descriptors \<Rightarrow> descriptors" where
  "descriptors_trim ds = ds\<lparr>dslots := table_trim (dslots ds)\<rparr>"

text \<open>\<^verbatim>\<open>trim_metadata\<close>; the result says whether it ran. The scan workspace holds the state itself, so its buffer does not show.\<close>

definition trim_metadata :: "('o, 's) gc_heap \<Rightarrow> bool gc_result \<times> ('o, 's) gc_heap" where
  "trim_metadata H =
     (case marking_check (gmarking H) of
        Err e \<Rightarrow> (Err e, H)
      | Panic m \<Rightarrow> (Panic m, H)
      | Ok _ \<Rightarrow>
          if mphase (gmarking H) \<noteq> Idle then (Ok False, H)
          else if gactive H \<noteq> None then (Panic ''assertion failed: self.active.is_none()'', H)
          else let H = H\<lparr>gphysical := (gphysical H)\<lparr>allocations := table_trim (allocations (gphysical H))\<rparr>, groots := roots_trim (groots H)\<rparr>
               in case marking_trim (page_count (gphysical H)) (gmarking H) of
                    Err e \<Rightarrow> (Err e, H)
                  | Panic m \<Rightarrow> (Panic m, H)
                  | Ok m \<Rightarrow> (Ok True, H\<lparr>gmarking := m,
                        gphysical := (gphysical H)\<lparr>descriptors_of := descriptors_trim (descriptors_of (gphysical H))\<rparr>\<rparr>))"

subsection \<open>Full collection\<close>

definition then_drain ::
    "('o, 's) provider \<Rightarrow> ('q, 'c) root_source \<Rightarrow> work_report gc_result \<times> ('o, 's) gc_heap \<times> ('q, 'c) root_scan \<Rightarrow>
     (work_report gc_result \<times> ('o, 's) gc_heap \<times> ('q, 'c) root_scan) option" where
  "then_drain P Q s = (case s of (Ok t, H, r) \<Rightarrow> drain P Q t H r | _ \<Rightarrow> Some s)"

definition collect_with ::
    "('o, 's) provider \<Rightarrow> ('q, 'c) root_source \<Rightarrow> ('o, 's) gc_heap \<Rightarrow> ('q, 'c) root_scan \<Rightarrow>
     (work_report gc_result \<times> ('o, 's) gc_heap \<times> ('q, 'c) root_scan) option" where
  "collect_with P Q H r =
     (case marking_check (gmarking H) of
        Err e \<Rightarrow> Some (Err e, H, r)
      | Panic m \<Rightarrow> Some (Panic m, H, r)
      | Ok _ \<Rightarrow>
          do { s \<leftarrow> drain P Q \<lparr>work = 0, retired_owners = 0\<rparr> H r;
               s \<leftarrow> (case s of
                      (Ok t, H, r) \<Rightarrow> do { (x, H, r) \<leftarrow> service_work P Q WORK_NORMAL H r; Some (and_then x (add_fresh t), H, r) }
                    | _ \<Rightarrow> Some s);
               s \<leftarrow> then_drain P Q s;
               (case s of
                  (Ok t, H, r) \<Rightarrow>
                    (case trim_metadata H of
                       (Ok True, H) \<Rightarrow> Some (Ok t, H, r)
                     | (Ok False, H) \<Rightarrow> Some (Panic ''completed collection'', H, r)
                     | (Err e, H) \<Rightarrow> Some (Err e, H, r)
                     | (Panic m, H) \<Rightarrow> Some (Panic m, H, r))
                | _ \<Rightarrow> Some s) })"

subsection \<open>Safepoints (heap/pacing.rs)\<close>

definition near_limit :: "nat \<Rightarrow> nat \<Rightarrow> bool" where
  "near_limit used limit \<longleftrightarrow> limit \<noteq> usize_max \<and> used \<noteq> 0 \<and> used \<ge> limit - limit div 4"

definition pressure :: "('o, 's) gc_heap \<Rightarrow> bool" where
  "pressure H \<longleftrightarrow>
     (mphase (gmarking H) \<noteq> Idle \<or> allocation_growth (gledger H) \<noteq> 0 \<or> pending_releases (groots H) \<noteq> 0) \<and>
     (near_limit (backing_bytes (gphysical H)) (max_backing_bytes (gconfig H)) \<or>
      near_limit (indirect (gledger H)) (max_indirect_bytes (gconfig H)) \<or>
      near_limit (objects (gphysical H)) (max_objects (gconfig H)) \<or>
      near_limit (rcount (groots H)) (max_roots (gconfig H)))"

definition service_due :: "('o, 's) gc_heap \<Rightarrow> bool" where
  "service_due H \<longleftrightarrow> mphase (gmarking H) \<noteq> Idle \<or> allocation_growth (gledger H) \<ge> threshold (gpacing H) \<or>
     pending_releases (groots H) \<ge> RETIREMENT_CAP \<or> pressure H"

datatype automatic_kind = Step | Assist

definition automatic_choice :: "('o, 's) gc_heap \<Rightarrow> automatic_kind" where
  "automatic_choice H =
     (let multiplier = assist_multiplier (pconfig (gpacing H))
      in if pressure H \<or> allocation_growth (gledger H) \<ge>
              saturating_mul (threshold (gpacing H)) (if mphase (gmarking H) \<noteq> Idle then multiplier else max multiplier 2)
         then Assist else Step)"

record automatic_report =
  ar_kind :: automatic_kind
  ar_work :: work_report
  ar_cycles :: nat

definition safepoint_with ::
    "('o, 's) provider \<Rightarrow> ('q, 'c) root_source \<Rightarrow> ('o, 's) gc_heap \<Rightarrow> ('q, 'c) root_scan \<Rightarrow>
     (automatic_report option gc_result \<times> ('o, 's) gc_heap \<times> ('q, 'c) root_scan) option" where
  "safepoint_with P Q H r =
     (case marking_check (gmarking H) of
        Err e \<Rightarrow> Some (Err e, H, r)
      | Panic m \<Rightarrow> Some (Panic m, H, r)
      | Ok _ \<Rightarrow>
          if \<not> service_due H then Some (Ok None, H, r)
          else let kind = automatic_choice H; cycles = mcycles (gmarking H)
          in do { s \<leftarrow> service_work P Q WORK_NORMAL H r;
                  s \<leftarrow> (if kind = Assist then then_drain P Q s else Some s);
                  (case s of
                     (Err e, H, r) \<Rightarrow> Some (Err e, H, r)
                   | (Panic m, H, r) \<Rightarrow> Some (Panic m, H, r)
                   | (Ok t, H, r) \<Rightarrow>
                       (case trim_metadata H of
                          (Ok _, H) \<Rightarrow> Some (Ok (Some \<lparr>ar_kind = kind, ar_work = t, ar_cycles = mcycles (gmarking H) - cycles\<rparr>), H, r)
                        | (Err e, H) \<Rightarrow> Some (Err e, H, r)
                        | (Panic m, H) \<Rightarrow> Some (Panic m, H, r))) })"

subsection \<open>Shutdown\<close>

text \<open>The inner loop of \<^verbatim>\<open>dispose_all\<close>: fill a batch from the cursor on.\<close>

partial_function (option) dispose_fill ::
    "('o, 's) provider \<Rightarrow> 'o objects \<Rightarrow> batch \<Rightarrow> physical_heap \<Rightarrow> (batch gc_result \<times> physical_heap) option" where
  "dispose_fill P os batch h =
     (if batch_len batch < RETIREMENT_CAP then
        (case cpage (cursor h) of
           None \<Rightarrow> Some (Ok batch, h)
         | Some i \<Rightarrow>
             (case heap_page i h of
                Ok p \<Rightarrow>
                  let slot = cslot (cursor h)
                  in if slot \<ge> page_slots p
                     then dispose_fill P os batch (h\<lparr>cursor := \<lparr>cpage = successor (page_active p), cslot = 0\<rparr>\<rparr>)
                     else let h = h\<lparr>cursor := (cursor h)\<lparr>cslot := slot + 1\<rparr>\<rparr>
                          in if page_occupied p slot
                             then (case batch_detach P os i slot None batch h of
                                     (Ok (charge, batch), h) \<Rightarrow> dispose_fill P os batch h
                                   | (_, h) \<Rightarrow> Some (Panic ''owned initialized shutdown object'', h))
                             else dispose_fill P os batch h
              | _ \<Rightarrow> Some (Panic ''owned shutdown page'', h)))
      else Some (Ok batch, h))"

partial_function (option) dispose_batches ::
    "('o, 's) provider \<Rightarrow> nat \<Rightarrow> nat \<Rightarrow> 'o objects \<Rightarrow> physical_heap \<Rightarrow> ((nat \<times> nat) gc_result \<times> 'o objects \<times> physical_heap) option" where
  "dispose_batches P disposed panics os h =
     Option.bind (dispose_fill P os batch_new h)
       (\<lambda>(x, h). case x of
          Ok batch \<Rightarrow>
            (case finish_owners P (owners batch) 0 os h of
               (Ok n, os, h) \<Rightarrow>
                 if cpage (cursor h) = None then Some (Ok (disposed + batch_len batch, panics + n), os, h)
                 else dispose_batches P (disposed + batch_len batch) (panics + n) os h
             | (_, os, h) \<Rightarrow> Some (Panic ''linear shutdown retirement'', os, h))
        | _ \<Rightarrow> Some (Panic ''owned shutdown page'', os, h))"

definition dispose_all ::
    "('o, 's) provider \<Rightarrow> 'o objects \<Rightarrow> physical_heap \<Rightarrow> ((nat \<times> nat) gc_result \<times> 'o objects \<times> physical_heap) option" where
  "dispose_all P os h = dispose_batches P 0 0 os (h\<lparr>cursor := \<lparr>cpage = first_active h, cslot = 0\<rparr>\<rparr>)"

definition shutdown :: "('o, 's) provider \<Rightarrow> ('o, 's) gc_heap \<Rightarrow> ((nat \<times> nat) gc_result \<times> ('o, 's) gc_heap) option" where
  "shutdown P H =
     (let H = H\<lparr>gmarking := marking_close (gmarking H), groots := roots_disconnect (groots H), gactive := None\<rparr>
      in map_option (\<lambda>(x, os, h).
           (x, case x of
                 Ok _ \<Rightarrow> H\<lparr>groots := roots_close (groots H), gphysical := physical_default (memory h), gobjects := os,
                          gledger := (gledger H)\<lparr>indirect := 0, allocation_growth := 0\<rparr>\<rparr>
               | _ \<Rightarrow> H\<lparr>gphysical := h, gobjects := os\<rparr>))
           (dispose_all P (gobjects H) (gphysical H)))"

subsection \<open>Reference definitions\<close>

text \<open>A root source whose storage is one frame of slots, scanned like a record.\<close>

definition frame_source :: "(dynamic_shape \<times> (nat \<Rightarrow> nat option), nat) root_source" where
  "frame_source = \<lparr>source_begin = (\<lambda>_. Ok 0), source_hook = (\<lambda>(shape, f). shape_scan f try_visit_reference shape)\<rparr>"

definition frame_roots :: "dynamic_shape \<times> (nat \<Rightarrow> nat option) \<Rightarrow> nat set" where
  "frame_roots = (\<lambda>(shape, f). record_edges shape f)"

definition frame_covered :: "dynamic_shape \<times> (nat \<Rightarrow> nat option) \<Rightarrow> nat \<Rightarrow> nat set" where
  "frame_covered = (\<lambda>(shape, f). record_covered shape f)"

text \<open>
  The pacing policy of a safepoint. A quota presses when there is something to collect and at least
  three quarters of a finite limit are used; a burst is growth past the assist threshold, which is
  at least two thresholds while no cycle is active.
\<close>

definition quotas :: "('o, 's) gc_heap \<Rightarrow> (nat \<times> nat) set" where
  "quotas H = {(backing_bytes (gphysical H), max_backing_bytes (gconfig H)), (indirect (gledger H), max_indirect_bytes (gconfig H)),
     (objects (gphysical H), max_objects (gconfig H)), (rcount (groots H), max_roots (gconfig H))}"

definition quota_pressed :: "('o, 's) gc_heap \<Rightarrow> bool" where
  "quota_pressed H \<longleftrightarrow>
     (mphase (gmarking H) \<noteq> Idle \<or> 0 < allocation_growth (gledger H) \<or> 0 < pending_releases (groots H)) \<and>
     (\<exists>(used, limit) \<in> quotas H. limit \<noteq> usize_max \<and> 0 < used \<and> 3 * limit \<le> 4 * used)"

definition burst :: "('o, 's) gc_heap \<Rightarrow> bool" where
  "burst H \<longleftrightarrow>
     min usize_max (threshold (gpacing H) *
       (if mphase (gmarking H) = Idle then max 2 (assist_multiplier (pconfig (gpacing H))) else assist_multiplier (pconfig (gpacing H))))
     \<le> allocation_growth (gledger H)"

definition sample_gc :: "(nat, unit) gc_heap" where
  "sample_gc = \<lparr>gid = 1, gconfig = heap_config_default, gphysical = physical_default (\<lambda>_. None), groots = roots_new 1, gmarking = marking_default,
     gactive = None, gworkspace = Cursor 0, gledger = ledger_default, groot_cursor = root_cursor_default, gsweep = SweepPhysical,
     gpacing = \<lparr>pconfig = pacing_config_default, threshold = 16 * 1024\<rparr>, gobjects = (\<lambda>_. None), gstrong = (\<lambda>_. 1)\<rparr>"

definition sample_grown :: "nat \<Rightarrow> (nat, unit) gc_heap" where
  "sample_grown g = sample_gc\<lparr>gledger := ledger_default\<lparr>allocation_growth := g\<rparr>\<rparr>"

definition sample_burst :: "(nat, unit) gc_heap" where
  "sample_burst = sample_grown (32 * 1024)"

section \<open>Pacing\<close>

lemma near_limit_iff: "near_limit used limit \<longleftrightarrow> limit \<noteq> usize_max \<and> 0 < used \<and> 3 * limit \<le> 4 * used"
proof -
  obtain q m where "limit = 4 * q + m" "m < 4" "limit div 4 = q"
    by (metis mod_less_divisor mult_div_mod_eq zero_less_numeral)
  then have "limit - limit div 4 \<le> used \<longleftrightarrow> 3 * limit \<le> 4 * used" by linarith
  then show ?thesis by (simp add: near_limit_def)
qed

lemma pressure_iff: "pressure H \<longleftrightarrow> quota_pressed H"
  by (auto simp: pressure_def quota_pressed_def quotas_def near_limit_iff)

lemma automatic_choice_iff: "automatic_choice H = Assist \<longleftrightarrow> quota_pressed H \<or> burst H"
  by (simp add: automatic_choice_def Let_def pressure_iff burst_def saturating_mul_def max.commute min.commute)

lemma service_due_iff:
  "service_due H \<longleftrightarrow> \<not> (mphase (gmarking H) = Idle \<and> allocation_growth (gledger H) < threshold (gpacing H) \<and>
     pending_releases (groots H) < RETIREMENT_CAP \<and> \<not> quota_pressed H)"
  by (auto simp: service_due_def pressure_iff)

section \<open>Service calls of the driver\<close>

lemma pacing_frame [simp]:
  "gc_inv P E C S D (H\<lparr>gpacing := p\<rparr>) r = gc_inv P E C S D H r"
  "kept E S H0 r0 (H\<lparr>gpacing := p\<rparr>) r = kept E S H0 r0 H r" "precise E S (H\<lparr>gpacing := p\<rparr>) r = precise E S H r" "all_black (H\<lparr>gpacing := p\<rparr>) = all_black H"
proof -
  have "gc_roots S (H\<lparr>gpacing := p\<rparr>) r = gc_roots S H r" by (simp add: gc_roots_def)
  then show "kept E S H0 r0 (H\<lparr>gpacing := p\<rparr>) r = kept E S H0 r0 H r" "precise E S (H\<lparr>gpacing := p\<rparr>) r = precise E S H r" "all_black (H\<lparr>gpacing := p\<rparr>) = all_black H"
    by (simp_all add: kept_def precise_def reachable_def all_black_def)
  show "gc_inv P E C S D (H\<lparr>gpacing := p\<rparr>) r = gc_inv P E C S D H r"
    by (cases "mphase (gmarking H)"; cases "gsweep H"; cases "gactive H")
      (simp_all add: gc_inv_def phase_inv_def active_slots_def visitor_def gc_roots_def tricolour_def cursor_ok_def sweep_inv_def active_ok_def)
qed

lemma kept_phase [simp]: "kept E S H r (set_phase x H') r' = kept E S H r H' r'"
  by (simp add: kept_def set_phase_def gc_roots_def)

lemma set_phase_phase [simp]: "mphase (gmarking (set_phase x H)) = x"
  by (simp add: set_phase_def)

context collector
begin

lemma service_work_ok:
  assumes inv: "gc_inv P E C S D H r"
  shows "\<exists>x H' r'. service_work P Q n H r = Some (x, H', r') \<and> kept E S H r H' r' \<and>
    (\<forall>w. x = Ok w \<longrightarrow> gc_inv P E C S D H' r' \<and> (mphase (gmarking H) = Idle \<or> precise E S H r \<longrightarrow> precise E S H' r') \<and>
       (mphase (gmarking H') = Idle \<longrightarrow> all_black H')) \<and>
    (\<forall>e. x = Err e \<longrightarrow> n < 8 \<and> H' = H \<or> mphase (gmarking H') = Faulted) \<and> (\<forall>m. x \<noteq> Panic m)"
proof -
  have ck: "marking_check (gmarking H) = Ok ()" using inv_phase [OF inv] by (auto simp: marking_check_def)
  show ?thesis
  proof (cases "n < 8")
    case True
    then have "service_work P Q n H r = Some (Err (Limit ''step allowance must be at least 8 units''), H, r)" using ck by (simp add: service_work_def)
    then show ?thesis using True kept_refl [OF inv_reachable [OF inv]] by simp
  next
    case False
    from service_ok [OF inv, of "budget_new n"] obtain x b' H' r' where s: "service P Q (budget_new n) H r = Some (x, b', H', r')" "kept E S H r H' r'"
      "\<And>k. x = Ok k \<Longrightarrow> gc_inv P E C S D H' r' \<and> (H' = H \<and> mphase (gmarking H) = Idle \<and> \<not> fst (take_units 1 (budget_new n)) \<or>
          (mphase (gmarking H) = Idle \<or> precise E S H r \<longrightarrow> precise E S H' r') \<and> (mphase (gmarking H') = Idle \<longrightarrow> all_black H'))" by blast
    have "fst (take_units 1 (budget_new n))" using False by (simp add: take_units_def budget_new_def checked_add_def usize_max_def)
    then have ok: "\<And>k. x = Ok k \<Longrightarrow> gc_inv P E C S D H' r' \<and> (mphase (gmarking H) = Idle \<or> precise E S H r \<longrightarrow> precise E S H' r') \<and> (mphase (gmarking H') = Idle \<longrightarrow> all_black H')"
      using s(3) by blast
    show ?thesis
    proof (cases x)
      case (Ok k)
      then show ?thesis using s(1,2) ok [OF Ok] False ck by (auto simp: service_work_def)
    qed (use s(1,2) False ck in \<open>auto simp: service_work_def\<close>)
  qed
qed

lemma drain_ok:
  assumes "drain P Q t H r = Some (x, H', r')" "gc_inv P E C S D H r"
  shows "kept E S H r H' r' \<and> (\<forall>t'. x = Ok t' \<longrightarrow> gc_inv P E C S D H' r' \<and> mphase (gmarking H') = Idle \<and>
    (mphase (gmarking H) = Idle \<and> H' = H \<and> r' = r \<or> all_black H' \<and> (precise E S H r \<longrightarrow> precise E S H' r')))"
proof -
  define G where "G = (\<lambda>((((P', Q'), t :: work_report), H), r) (y :: work_report gc_result \<times> ('o, 's) gc_heap \<times> ('q, 'c) root_scan).
    P' = P \<longrightarrow> Q' = Q \<longrightarrow> gc_inv P E C S D H r \<longrightarrow> (case y of (x, H', r') \<Rightarrow> kept E S H r H' r' \<and>
      (\<forall>t'. x = Ok t' \<longrightarrow> gc_inv P E C S D H' r' \<and> mphase (gmarking H') = Idle \<and>
        (mphase (gmarking H) = Idle \<and> H' = H \<and> r' = r \<or> all_black H' \<and> (precise E S H r \<longrightarrow> precise E S H' r')))))"
  have "G ((((P, Q), t), H), r) (x, H', r')"
  proof (rule drain.raw_induct [OF _ assms(1), where Pa = G])
    fix f P' Q' t H r y
    assume IH: "\<And>P Q t H r y. f P Q t H r = Some y \<Longrightarrow> G ((((P, Q), t), H), r) y"
      and y: "(if mphase (gmarking H) = Idle then Some (Ok t, H, r) else service_work P' Q' WORK_NORMAL H r \<bind>
           (\<lambda>(x, H, r). case and_then x (add_work t) of Ok t \<Rightarrow> f P' Q' t H r | Err e \<Rightarrow> Some (Err e, H, r) | Panic m \<Rightarrow> Some (Panic m, H, r))) = Some y"
    show "G ((((P', Q'), t), H), r) y"
    proof (cases "P' = P \<and> Q' = Q \<and> gc_inv P E C S D H r")
      case False
      then show ?thesis by (auto simp: G_def)
    next
      case True
      then have PQ: "P' = P" "Q' = Q" and inv: "gc_inv P E C S D H r" by simp_all
      show ?thesis
      proof (cases "mphase (gmarking H) = Idle")
        case True
        then show ?thesis using y inv kept_refl [OF inv_reachable [OF inv]] by (auto simp: G_def)
      next
        case False
        from service_work_ok [OF inv, of WORK_NORMAL] obtain z H1 r1 where s: "service_work P Q WORK_NORMAL H r = Some (z, H1, r1)" "kept E S H r H1 r1"
          "\<And>w. z = Ok w \<Longrightarrow> gc_inv P E C S D H1 r1 \<and> (precise E S H r \<longrightarrow> precise E S H1 r1) \<and> (mphase (gmarking H1) = Idle \<longrightarrow> all_black H1)" by blast
        show ?thesis
        proof (cases "and_then z (add_work t)")
          case (Ok u)
          then obtain w where w: "z = Ok w" by (cases z) auto
          have "f P Q u H1 r1 = Some y" using y False s(1) Ok PQ by simp
          from IH [OF this] s(3) [OF w] kept_trans [OF s(2)] show ?thesis by (cases y) (auto simp: G_def)
        qed (use y False s(1,2) PQ in \<open>auto simp: G_def\<close>)
      qed
    qed
  qed
  then show ?thesis using assms(2) by (simp add: G_def)
qed

end

section \<open>Maintenance\<close>

lemma page_count_bound:
  assumes "heap_inv h"
  shows "page_count h \<le> 2 ^ 32"
proof -
  obtain act avs where "heap_at {} h act avs" using assms by (auto simp: heap_inv_def)
  then have ti: "table_inv (allocations h)" using links_okD(1) [OF heap_atD(1)] by blast
  have cap: "capacity (allocations h) \<le> 2 ^ 32" using table_inv_shift [OF ti] by (auto simp: capacity_def)
  have "{i. table_get i (allocations h) \<noteq> None} \<subseteq> {..<2 ^ 32}"
  proof
    fix i assume "i \<in> {i. table_get i (allocations h) \<noteq> None}"
    then have "\<not> capacity (allocations h) \<le> i" using get_beyond [OF ti, of i] by auto
    then show "i \<in> {..<2 ^ 32}" using cap by simp
  qed
  then have "card {i. table_get i (allocations h) \<noteq> None} \<le> card {..<2 ^ 32 :: nat}" by (intro card_mono) simp_all
  then show ?thesis using tlen_card [OF ti] by (simp add: page_count_def)
qed

lemma trim_pages_same:
  assumes "heap_inv h"
  shows "same_objects h (h\<lparr>allocations := table_trim (allocations h)\<rparr>)" "heap_inv (h\<lparr>allocations := table_trim (allocations h)\<rparr>)"
    "marks_at (h\<lparr>allocations := table_trim (allocations h)\<rparr>) = marks_at h"
proof -
  obtain act avs where ha: "heap_at {} h act avs" using assms by (auto simp: heap_inv_def)
  then have ti: "table_inv (allocations h)" using links_okD(1) [OF heap_atD(1)] by blast
  note T = trim_ok [OF ti]
  have c: "contents (table_trim (allocations h)) = contents (allocations h)" "alinks (table_trim (allocations h)) = alinks (allocations h)"
    "vlinks (table_trim (allocations h)) = vlinks (allocations h)" using T by (simp_all add: contents_def alinks_def vlinks_def fun_eq_iff)
  have "heap_at X (h\<lparr>allocations := table_trim (allocations h)\<rparr>) as bs" if "heap_at X h as bs" for X as bs
    using that T by (simp add: heap_at_def Let_def links_ok_def c)
  then show "same_objects h (h\<lparr>allocations := table_trim (allocations h)\<rparr>)" "heap_inv (h\<lparr>allocations := table_trim (allocations h)\<rparr>)"
    using ha T by (auto simp: same_objects_def slot_at_def slot_address_def fun_eq_iff c page_count_def heap_inv_def intro!: exI [of _ act] exI [of _ avs])
  show "marks_at (h\<lparr>allocations := table_trim (allocations h)\<rparr>) = marks_at h" by (simp add: marks_at_def c fun_eq_iff)
qed

lemma trim_registered:
  assumes "registry_inv ds"
  shows "registered i (descriptors_trim ds) = registered i ds" "registry_inv (descriptors_trim ds)" "dactive (descriptors_trim ds) = dactive ds"
proof -
  have T: "table_inv (table_trim (dslots ds))" "\<And>j. table_get j (table_trim (dslots ds)) = table_get j (dslots ds)" "tlen (table_trim (dslots ds)) = tlen (dslots ds)"
    using trim_ok [of "dslots ds"] assms by (simp_all add: registry_inv_def)
  show r: "registered i (descriptors_trim ds) = registered i ds" for i by (simp add: registered_def descriptors_trim_def T(2))
  show d: "dactive (descriptors_trim ds) = dactive ds" by (simp add: descriptors_trim_def)
  have "dtypes (descriptors_trim ds) = dtypes ds" "dslots (descriptors_trim ds) = table_trim (dslots ds)" by (simp_all add: descriptors_trim_def)
  then show "registry_inv (descriptors_trim ds)" using assms T(1) by (simp add: registry_inv_def r d)
qed

lemma trim_room: "n \<le> cap \<Longrightarrow> n \<le> usize_max \<Longrightarrow> n \<le> shrink_vec cap 0 n"
  by (auto simp: shrink_vec_def shrink_target_def saturating_mul_def Let_def split: if_splits)

context collector
begin

lemma trim_metadata_ok:
  assumes inv: "gc_inv P E C S D H r" and ph: "mphase (gmarking H) = Idle"
  shows "\<exists>H'. trim_metadata H = (Ok True, H') \<and> gc_inv P E C S D H' r \<and> kept E S H r H' r \<and> mphase (gmarking H') = Idle \<and>
    live_set (gphysical H') = live_set (gphysical H)"
proof -
  note I = idle_invs [OF inv ph]
  let ?h = "gphysical H" and ?h1 = "(gphysical H)\<lparr>allocations := table_trim (allocations (gphysical H))\<rparr>"
  note T = trim_pages_same [OF I(1)]
  note W = same_objects_view [OF T(1)]
  have ri: "registry_inv (descriptors_of ?h)" using I(1) heap_atD(7) by (fastforce simp: heap_inv_def memory_ok_def)
  note R = trim_registered [OF ri]
  define h' where "h' = ?h1\<lparr>descriptors_of := descriptors_trim (descriptors_of ?h)\<rparr>"
  have same: "slot_at h' = slot_at ?h" "slot_address h' = slot_address ?h" "memory h' = memory ?h" "marks_at h' = marks_at ?h" "page_count h' = page_count ?h"
    "descriptors_of h' = descriptors_trim (descriptors_of ?h)"
    using T(1,3) by (simp_all add: h'_def same_objects_def slot_at_def slot_address_def marks_at_def fun_eq_iff page_count_def)
  have hi: "heap_inv h'"
  proof -
    obtain act avs where ha: "heap_at {} ?h1 act avs" using T(2) by (auto simp: heap_inv_def)
    have "memory_ok (memory ?h1) (descriptors_trim (descriptors_of ?h)) (contents (allocations ?h1))" using heap_atD(7) [OF ha] R(1,2) by (simp add: memory_ok_def)
    then have "heap_at {} h' act avs" using ha by (simp add: heap_at_def Let_def h'_def)
    then show ?thesis by (auto simp: heap_inv_def)
  qed
  have lv: "live_set h' = live_set ?h" by (simp add: live_set_def same)
  have hd: "header_descriptor h' = header_descriptor ?h" by (simp add: header_descriptor_def same fun_eq_iff)
  have da: "descriptor_at h' = descriptor_at ?h" by (simp add: descriptor_at_def hd same R(1) fun_eq_iff)
  have ed: "edges_at E h' os = edges_at E ?h os" for os by (simp add: edges_at_def da fun_eq_iff)
  have mi: "mark_inv {} ((visitor H)\<lparr>physical := h'\<rparr>)"
    by (rule detach_marks [OF I(1) hi I(2)]) (use I(3) in \<open>simp_all add: same\<close>)
  let ?n = "page_count h'"
  have "?n \<le> usize_max" using page_count_bound [OF hi] by (simp add: usize_max_def)
  moreover have "?n \<le> pcapacity (gmarking H)" using mark_invD(7) [OF mi] by simp
  ultimately have room: "?n \<le> shrink_vec (pcapacity (gmarking H)) 0 ?n" by (intro trim_room)
  define m where "m = (gmarking H)\<lparr>pcapacity := shrink_vec (pcapacity (gmarking H)) 0 ?n\<rparr>"
  have m: "marking_trim (page_count ?h1) (gmarking H) = Ok m" "mark_inv {} (((visitor H)\<lparr>physical := h'\<rparr>)\<lparr>marking := m\<rparr>)" "mphase m = Idle" "pending m = []"
  proof -
    have "page_count ?h1 = ?n" by (simp add: h'_def page_count_def)
    then show "marking_trim (page_count ?h1) (gmarking H) = Ok m" using ph I(3) by (simp add: marking_trim_def m_def assert_then_def)
    show "mark_inv {} (((visitor H)\<lparr>physical := h'\<rparr>)\<lparr>marking := m\<rparr>)" using mi room I(3) by (simp add: mark_inv_def Let_def m_def)
  qed (simp_all add: m_def ph I(3))
  define H' where "H' = H\<lparr>gphysical := h', groots := roots_trim (groots H), gmarking := m\<rparr>"
  have run: "trim_metadata H = (Ok True, H')"
    using ph I(4) m(1) by (simp add: trim_metadata_def marking_check_def H'_def h'_def Let_def)
  have sel: "gphysical H' = h'" "gobjects H' = gobjects H" "groots H' = roots_trim (groots H)" "gactive H' = None" "gid H' = gid H" "gmarking H' = m"
    by (simp_all add: H'_def I(4))
  note RT = roots_trim_ok [OF I(8)]
  have st: "strong (roots_trim (groots H)) = strong (groots H)" "rheap (roots_trim (groots H)) = rheap (groots H)"
     "connected (released (roots_trim (groots H))) = connected (released (groots H))"
    by (simp_all add: roots_trim_def Let_def split: option.splits)
  have hr: "host_roots (roots_trim (groots H)) = host_roots (groots H)" by (simp add: host_roots_def RT(2) st)
  have "mark_inv {} (visitor H')" using m(2) by (simp add: visitor_def sel)
  moreover have "uses_ok [] h' = uses_ok [] ?h" by (simp add: uses_ok_def users_def lv hd same R(1))
  moreover have "typed_objects P h' (gobjects H) = typed_objects P ?h (gobjects H)" by (simp add: typed_objects_def lv da same R(1))
  ultimately have g: "gc_inv P E C S D H' r"
    using inv ph hi RT(1) m(3,4) by (simp add: gc_inv_def phase_inv_def sel st active_slots_def gc_roots_def hr lv ed Let_def)
  moreover have "kept E S H r H' r" using I(7) by (auto simp: kept_def gc_roots_def sel hr lv da)
  ultimately show ?thesis using run m(3) by (auto simp: sel lv)
qed

section \<open>Full collections and safepoints\<close>

text \<open>Whatever a collection reports, reachable objects stay; a success leaves nothing else.\<close>

lemma collect_ok:
  assumes run: "collect_with P Q H r = Some (x, H', r')" and inv: "gc_inv P E C S D H r"
  shows "kept E S H r H' r' \<and> (\<forall>t. x = Ok t \<longrightarrow> gc_inv P E C S D H' r' \<and> mphase (gmarking H') = Idle \<and> live_set (gphysical H') = reachable E S H r)"
proof -
  have ck: "marking_check (gmarking H) = Ok ()" using inv_phase [OF inv] by (auto simp: marking_check_def)
  from run ck obtain x1 H1 r1 where d1: "drain P Q \<lparr>work = 0, retired_owners = 0\<rparr> H r = Some (x1, H1, r1)"
    by (auto simp: collect_with_def bind_eq_Some_conv)
  note D1 = drain_ok [OF d1 inv]
  show ?thesis
  proof (cases x1)
    case (Ok t1)
    then have g1: "gc_inv P E C S D H1 r1" "mphase (gmarking H1) = Idle" "kept E S H r H1 r1" using D1 by simp_all
    from service_work_ok [OF g1(1), of WORK_NORMAL] g1(2) obtain x2 H2 r2 where s2: "service_work P Q WORK_NORMAL H1 r1 = Some (x2, H2, r2)" "kept E S H1 r1 H2 r2"
      "\<And>w. x2 = Ok w \<Longrightarrow> gc_inv P E C S D H2 r2 \<and> precise E S H2 r2 \<and> (mphase (gmarking H2) = Idle \<longrightarrow> all_black H2)" by blast
    have k2: "kept E S H r H2 r2" by (rule kept_trans [OF g1(3) s2(2)])
    show ?thesis
    proof (cases "and_then x2 (add_fresh t1)")
      case ok2: (Ok t2)
      then obtain w where w: "x2 = Ok w" by (cases x2) auto
      from run ck d1 Ok s2(1) ok2 obtain x3 H3 r3 where d3: "drain P Q t2 H2 r2 = Some (x3, H3, r3)"
        by (auto simp: collect_with_def then_drain_def bind_eq_Some_conv)
      note D3 = drain_ok [OF d3 conjunct1 [OF s2(3) [OF w]]]
      have k3: "kept E S H r H3 r3" using kept_trans [OF k2] D3 by blast
      show ?thesis
      proof (cases x3)
        case ok3: (Ok t3)
        with D3 s2(3) [OF w] have g3: "gc_inv P E C S D H3 r3" "mphase (gmarking H3) = Idle" "precise E S H3 r3" "all_black H3" by auto
        from trim_metadata_ok [OF g3(1,2)] obtain H4 where t: "trim_metadata H3 = (Ok True, H4)" "gc_inv P E C S D H4 r3" "kept E S H3 r3 H4 r3"
          "mphase (gmarking H4) = Idle" "live_set (gphysical H4) = live_set (gphysical H3)" by blast
        have eq: "x = Ok t3" "H' = H4" "r' = r3" using run ck d1 Ok s2(1) ok2 d3 ok3 t(1) by (auto simp: collect_with_def then_drain_def)
        have "live_set (gphysical H4) = reachable E S H r" using t(5) collected_exact [OF g3] kept_reachable [OF k3] by simp
        then show ?thesis using t kept_trans [OF k3 t(3)] by (simp add: eq)
      qed (use run ck d1 Ok s2(1) ok2 d3 k3 in \<open>auto simp: collect_with_def then_drain_def\<close>)
    qed (use run ck d1 Ok s2(1) k2 in \<open>auto simp: collect_with_def then_drain_def\<close>)
  qed (use run ck d1 D1 in \<open>auto simp: collect_with_def then_drain_def\<close>)
qed

lemma safepoint_ok:
  assumes run: "safepoint_with P Q H r = Some (x, H', r')" and inv: "gc_inv P E C S D H r"
  shows "kept E S H r H' r' \<and> (\<forall>t. x = Ok t \<longrightarrow> gc_inv P E C S D H' r' \<and> (t = None \<longleftrightarrow> \<not> service_due H) \<and> (t = None \<longrightarrow> H' = H) \<and>
    (\<forall>rep. t = Some rep \<longrightarrow> ar_kind rep = automatic_choice H \<and>
      (ar_kind rep = Assist \<longrightarrow> mphase (gmarking H') = Idle \<and>
        (mphase (gmarking H) = Idle \<longrightarrow> live_set (gphysical H') = reachable E S H r))))"
proof -
  have ck: "marking_check (gmarking H) = Ok ()" using inv_phase [OF inv] by (auto simp: marking_check_def)
  show ?thesis
  proof (cases "service_due H")
    case False
    then show ?thesis using run ck inv kept_refl [OF inv_reachable [OF inv]] by (auto simp: safepoint_with_def)
  next
    case True
    from service_work_ok [OF inv, of WORK_NORMAL] obtain x1 H1 r1 where s: "service_work P Q WORK_NORMAL H r = Some (x1, H1, r1)" "kept E S H r H1 r1"
      "\<And>w. x1 = Ok w \<Longrightarrow> gc_inv P E C S D H1 r1"
      "\<And>w. x1 = Ok w \<Longrightarrow> (mphase (gmarking H) = Idle \<longrightarrow> precise E S H1 r1) \<and> (mphase (gmarking H1) = Idle \<longrightarrow> all_black H1)" by blast
    obtain x2 H2 r2 where d: "(if automatic_choice H = Assist then then_drain P Q (x1, H1, r1) else Some (x1, H1, r1)) = Some (x2, H2, r2)"
      using run ck True s(1) by (auto simp: safepoint_with_def Let_def bind_eq_Some_conv)
    have d2: "kept E S H r H2 r2 \<and> (\<forall>t. x2 = Ok t \<longrightarrow> gc_inv P E C S D H2 r2 \<and> (automatic_choice H = Assist \<longrightarrow> mphase (gmarking H2) = Idle \<and> all_black H2 \<and>
        (mphase (gmarking H) = Idle \<longrightarrow> precise E S H2 r2)))"
    proof (cases "automatic_choice H = Assist \<and> (\<exists>w. x1 = Ok w)")
      case True
      then obtain w where w: "x1 = Ok w" "automatic_choice H = Assist" by blast
      then have "drain P Q w H1 r1 = Some (x2, H2, r2)" using d by (simp add: then_drain_def)
      from drain_ok [OF this s(3) [OF w(1)]] show ?thesis using kept_trans [OF s(2)] s(4) [OF w(1)] by blast
    next
      case False
      then have "x2 = x1" "H2 = H1" "r2 = r1" using d by (auto simp: then_drain_def split: if_splits outcome.splits)
      then show ?thesis using s False by auto
    qed
    show ?thesis
    proof (cases x2)
      case (Ok t)
      have g2: "gc_inv P E C S D H2 r2" using d2 Ok by simp
      have ck2: "marking_check (gmarking H2) = Ok ()" using inv_phase [OF g2] by (auto simp: marking_check_def)
      have tr: "\<exists>c H3. trim_metadata H2 = (Ok c, H3) \<and> gc_inv P E C S D H3 r2 \<and> kept E S H2 r2 H3 r2 \<and> mphase (gmarking H3) = mphase (gmarking H2) \<and>
          live_set (gphysical H3) = live_set (gphysical H2)"
      proof (cases "mphase (gmarking H2) = Idle")
        case True
        then show ?thesis using trim_metadata_ok [OF g2 True] by auto
      next
        case False
        then have "trim_metadata H2 = (Ok False, H2)" using ck2 by (simp add: trim_metadata_def)
        then show ?thesis using g2 kept_refl [OF inv_reachable [OF g2]] by blast
      qed
      then obtain c H3 where t: "trim_metadata H2 = (Ok c, H3)" "gc_inv P E C S D H3 r2" "kept E S H2 r2 H3 r2" "mphase (gmarking H3) = mphase (gmarking H2)"
        "live_set (gphysical H3) = live_set (gphysical H2)" by blast
      have "live_set (gphysical H3) = reachable E S H r" if "automatic_choice H = Assist" "mphase (gmarking H) = Idle"
        using t(5) collected_exact [OF g2] kept_reachable [of E S H r H2 r2] d2 Ok that by simp
      moreover have "x = Ok (Some \<lparr>ar_kind = automatic_choice H, ar_work = t, ar_cycles = mcycles (gmarking H3) - mcycles (gmarking H)\<rparr>)" "H' = H3" "r' = r2"
        using run ck True s(1) d Ok t(1) by (auto simp: safepoint_with_def Let_def)
      ultimately show ?thesis using t d2 Ok True kept_trans [of E S H r H2 r2 H3 r2] by auto
    qed (use run ck True s(1) d d2 in \<open>auto simp: safepoint_with_def Let_def\<close>)
  qed
qed

end

interpretation frames: collector scalar_provider "\<lambda>_ _. {}" "\<lambda>_ _ _. {}" frame_source frame_roots frame_covered
proof unfold_locales
  show "source_begin frame_source w = Ok s \<Longrightarrow> frame_covered w s = {}" for w s
    using record_scan.start_law by (auto simp: frame_source_def frame_covered_def split: prod.splits)
  show "\<exists>V. scan_run (frame_roots w) (b, v) V (b', v') \<and> (r = Ok Complete \<longrightarrow> frame_roots w \<subseteq> frame_covered w s \<union> V) \<and>
      (r = Ok Pending \<longrightarrow> frame_covered w s' \<subseteq> frame_covered w s \<union> V)" if "source_hook frame_source w s b v = (r, s', b', v')" for w s b v r s' b' v'
    using that record_scan.scan_law by (auto simp: frame_source_def frame_roots_def frame_covered_def split: prod.splits)
qed

lemmas frame_collector = frames.collector_axioms

lemma new_heap_inv:
  assumes "heap_new config bytes st k = (Ok H, k')" "source_roots S r = {}"
  shows "gc_inv P E C S D H r" "live_set (gphysical H) = {}" "mphase (gmarking H) = Idle"
proof -
  have sel: "gphysical H = physical_default bytes" "groots H = roots_new k" "gmarking H = marking_default" "gactive H = None" "gid H = k"
    using assms(1) by (auto simp: heap_new_def split: outcome.splits if_splits)
  have c: "contents (allocations (physical_default bytes)) i = None" for i by (simp add: physical_default_def contents_def)
  have "physical_default bytes = (physical_default bytes)\<lparr>descriptors_of := descriptors_default\<rparr>" by (simp add: physical_default_def)
  then have hi: "heap_inv (physical_default bytes)" using heap_inv_empty [OF registry_empty, of bytes] by simp
  have lv: "live_set (physical_default bytes) = {}" by (simp add: live_set_def slot_at_def c)
  have mi: "mark_inv {} \<lparr>physical = physical_default bytes, marking = marking_default\<rparr>" by (rule mark_inv_empty [OF c _ hi]) (simp add: marking_default_def)
  have d: "descriptors_of (physical_default bytes) = descriptors_default" "registered j descriptors_default = None" for j
    by (simp_all add: physical_default_def registered_def descriptors_default_def)
  have r: "registration (roots_new k) i = None" for i by (simp add: registration_def roots_new_def)
  have "uses_ok [] (physical_default bytes)" "typed_objects P (physical_default bytes) os" for os by (simp_all add: uses_ok_def typed_objects_def d lv)
  moreover have "connected (released (roots_new k))" "rheap (roots_new k) = k" "host_roots (roots_new k) = {}" by (simp_all add: roots_new_def host_roots_def r [unfolded roots_new_def])
  ultimately show "gc_inv P E C S D H r"
    using hi lv mi roots_new_inv assms(2)
    by (simp add: gc_inv_def phase_inv_def sel active_slots_def visitor_def gc_roots_def marking_default_def closed_in_def)
  show "live_set (gphysical H) = {}" "mphase (gmarking H) = Idle" by (simp_all add: sel lv marking_default_def)
qed

lemma sample_gc_new: "heap_new heap_config_default (\<lambda>_. None) (Cursor 0) 1 = (Ok sample_gc, 2)"
  by (simp add: heap_new_def sample_gc_def pacing_new_def heap_config_default_def pacing_config_default_def)

lemma sample_gc_inv: "gc_inv P E C S D sample_gc NoSource"
  by (rule new_heap_inv [OF sample_gc_new]) (simp add: source_roots_def)

lemma sample_burst_inv: "gc_inv P E C S D sample_burst NoSource"
proof -
  have "gc_inv P E C S D sample_gc NoSource = gc_inv P E C S D sample_burst NoSource"
    by (simp add: gc_inv_def phase_inv_def active_slots_def visitor_def gc_roots_def sample_burst_def sample_grown_def sample_gc_def marking_default_def)
  then show ?thesis using sample_gc_inv by blast
qed

text \<open>One service call of the empty heap runs through every phase, whatever the growth.\<close>

lemma sample_service:
  "\<exists>H. service_work scalar_provider frame_source WORK_NORMAL (sample_grown g) NoSource = Some (Ok \<lparr>work = 9, retired_owners = 0\<rparr>, H, NoSource) \<and>
     mphase (gmarking H) = Idle \<and> pending (gmarking H) = [] \<and> gactive H = None"
proof -
  have cap: "batch_len batch_new < RETIREMENT_CAP" by (simp add: batch_len_def batch_new_def RETIREMENT_CAP_def)
  note defs = sample_gc_def marking_default_def take_units_def budget_new_def checked_add_def usize_max_def set_phase_def visitor_def visited_def
  define b0 where "b0 = \<lparr>remaining = 1023, spent = 1\<rparr>"
  define H1 where "H1 = sample_gc\<lparr>gmarking := marking_default\<lparr>mepoch := 1, mphase := phase.Roots\<rparr>\<rparr>"
  have st: "start_cycle frame_source (sample_grown g) NoSource = (Ok (), H1, NoSource)"
    by (simp add: sample_grown_def start_cycle_def marking_start_def marking_check_def assert_then_def source_begin_scan_def H1_def defs ledger_default_def root_cursor_default_def roots_new_def)
  define H2 where "H2 = set_phase Mark H1"
  have r: "scan_roots frame_source b0 H1 NoSource = (Ok True, \<lparr>remaining = 1022, spent = 2\<rparr>, H2, NoSource)"
    by (simp add: scan_roots_def scan_source_def source_scan_step_def b0_def H1_def H2_def defs root_cursor_default_def)
  define H3 where "H3 = start_sweep H2"
  have m: "scan_object scalar_provider \<lparr>remaining = 1022, spent = 2\<rparr> H2 = (Ok True, \<lparr>remaining = 1018, spent = 6\<rparr>, H3)"
    by (simp add: scan_object_def acquire_next_def next_gray_def has_jobs_def H1_def H2_def H3_def defs)
  have s0: "cpage (cursor (gphysical H3)) = None" "gsweep H3 = SweepPhysical" "groots H3 = roots_new 1" "descriptors_of (gphysical H3) = descriptors_default"
    "gmarking H3 = marking_default\<lparr>mepoch := 1, mphase := Sweep\<rparr>" "gactive H3 = None" "gobjects H3 = (\<lambda>_. None)" "gphysical H3 = physical_default (\<lambda>_. None)"
    by (simp_all add: H3_def H2_def H1_def start_sweep_def defs physical_default_def)
  define H4 where "H4 = H3\<lparr>gsweep := SweepRoots 0\<rparr>"
  define H5 where "H5 = H4\<lparr>gsweep := SweepDescriptors 0\<rparr>"
  define H6 where "H6 = H5\<lparr>gmarking := (gmarking H5)\<lparr>mcycles := 1, mphase := Idle\<rparr>\<rparr>"
  have step: "sweep_step scalar_provider batch_new b H3 = (Ok True, batch_new, b, H4)" "sweep_step scalar_provider batch_new b H4 = (Ok True, batch_new, b, H5)"
    "sweep_step scalar_provider batch_new b H5 = (Ok False, batch_new, b, H6)" for b
    using s0 by (simp_all add: sweep_step_def sweep_page_def sweep_root_def sweep_descriptor_def H4_def H5_def H6_def pending_releases_def roots_new_def
        descriptors_default_def batch_len_def batch_new_def checked_add_def usize_max_def marking_default_def)
  have take1: "take_units 1 \<lparr>remaining = 1018, spent = 6\<rparr> = (True, \<lparr>remaining = 1017, spent = 7\<rparr>)"
    "take_units 1 \<lparr>remaining = 1017, spent = 7\<rparr> = (True, \<lparr>remaining = 1016, spent = 8\<rparr>)" "take_units 1 \<lparr>remaining = 1016, spent = 8\<rparr> = (True, \<lparr>remaining = 1015, spent = 9\<rparr>)"
    by (simp_all add: defs)
  have lp: "sweep_loop scalar_provider batch_new \<lparr>remaining = 1018, spent = 6\<rparr> H3 = (Ok (), batch_new, \<lparr>remaining = 1015, spent = 9\<rparr>, H6)"
    using cap take1 step by (simp add: sweep_loop.simps)
  have h6: "gmarking H6 = marking_default\<lparr>mepoch := 1, mcycles := 1\<rparr>" "gactive H6 = None" "H6\<lparr>gobjects := gobjects H6, gphysical := gphysical H6\<rparr> = H6"
    using s0 by (simp_all add: H6_def H5_def H4_def marking_default_def)
  have sw: "sweep scalar_provider \<lparr>remaining = 1018, spent = 6\<rparr> H3 = (Ok 0, \<lparr>remaining = 1015, spent = 9\<rparr>, H6)"
    using lp by (simp add: sweep_def batch_new_def batch_len_def)
  have ph: "mphase (gmarking H1) = phase.Roots" "mphase (gmarking H2) = Mark" "mphase (gmarking H3) = Sweep" "mphase (gmarking (sample_grown g)) = Idle"
    by (simp_all add: s0 H1_def H2_def sample_grown_def defs)
  have "service_loop scalar_provider frame_source \<lparr>remaining = 1018, spent = 6\<rparr> H3 NoSource = Some (Ok 0, \<lparr>remaining = 1015, spent = 9\<rparr>, H6, NoSource)"
    using sw ph by (subst service_loop.simps) simp
  then have "service_loop scalar_provider frame_source \<lparr>remaining = 1022, spent = 2\<rparr> H2 NoSource = Some (Ok 0, \<lparr>remaining = 1015, spent = 9\<rparr>, H6, NoSource)"
    using m ph by (subst service_loop.simps) simp
  then have loop: "service_loop scalar_provider frame_source b0 H1 NoSource = Some (Ok 0, \<lparr>remaining = 1015, spent = 9\<rparr>, H6, NoSource)"
    using r ph by (subst service_loop.simps) (simp add: b0_def)
  have sv: "service scalar_provider frame_source (budget_new WORK_NORMAL) (sample_grown g) NoSource = Some (Ok 0, \<lparr>remaining = 1015, spent = 9\<rparr>, H6, NoSource)"
    using loop st ph(4) by (simp add: service_def take_units_def budget_new_def checked_add_def usize_max_def WORK_NORMAL_def b0_def)
  obtain H7 where w: "service_work scalar_provider frame_source WORK_NORMAL (sample_grown g) NoSource = Some (Ok \<lparr>work = 9, retired_owners = 0\<rparr>, H7, NoSource)" "gmarking H7 = gmarking H6" "gactive H7 = None"
    using sv ph(4) h6(2) by (simp add: service_work_def marking_check_def WORK_NORMAL_def)
  then show ?thesis using h6(1) by (intro exI [of _ H7]) (simp add: marking_default_def)
qed

lemma sample_trim: "mphase (gmarking H) = Idle \<Longrightarrow> pending (gmarking H) = [] \<Longrightarrow> gactive H = None \<Longrightarrow> \<exists>H'. trim_metadata H = (Ok True, H')"
  by (simp add: trim_metadata_def marking_check_def marking_trim_def Let_def assert_then_def)

lemma sample_collect: "\<exists>t H. collect_with scalar_provider frame_source sample_gc NoSource = Some (Ok t, H, NoSource)"
proof -
  have g0: "sample_grown 0 = sample_gc" by (simp add: sample_grown_def sample_gc_def ledger_default_def)
  obtain H7 where w: "service_work scalar_provider frame_source WORK_NORMAL sample_gc NoSource = Some (Ok \<lparr>work = 9, retired_owners = 0\<rparr>, H7, NoSource)"
      "mphase (gmarking H7) = Idle" "pending (gmarking H7) = []" "gactive H7 = None"
    using sample_service [of 0] unfolding g0 by blast
  have ph: "mphase (gmarking sample_gc) = Idle" by (simp add: sample_gc_def marking_default_def)
  have dr: "drain scalar_provider frame_source t sample_gc NoSource = Some (Ok t, sample_gc, NoSource)" "drain scalar_provider frame_source t H7 NoSource = Some (Ok t, H7, NoSource)" for t
    using ph w(2) by (simp_all add: drain.simps)
  from sample_trim [OF w(2-4)] obtain H8 where tr: "trim_metadata H7 = (Ok True, H8)" by blast
  show ?thesis
    using dr w(1) tr ph by (simp add: collect_with_def marking_check_def add_fresh_def then_drain_def checked_add_def usize_max_def)
qed

lemma sample_safepoint: "\<exists>rep H. safepoint_with scalar_provider frame_source sample_burst NoSource = Some (Ok (Some rep), H, NoSource)"
proof -
  obtain H7 where w: "service_work scalar_provider frame_source WORK_NORMAL sample_burst NoSource = Some (Ok \<lparr>work = 9, retired_owners = 0\<rparr>, H7, NoSource)"
      "mphase (gmarking H7) = Idle" "pending (gmarking H7) = []" "gactive H7 = None"
    using sample_service [of "32 * 1024"] unfolding sample_burst_def by blast
  have d: "drain scalar_provider frame_source t H7 NoSource = Some (Ok t, H7, NoSource)" for t using w(2) by (simp add: drain.simps)
  from sample_trim [OF w(2-4)] obtain H8 where tr: "trim_metadata H7 = (Ok True, H8)" by blast
  have "service_due sample_burst" "marking_check (gmarking sample_burst) = Ok ()"
    by (simp_all add: service_due_def sample_burst_def sample_grown_def sample_gc_def marking_check_def marking_default_def)
  then show ?thesis using w(1) d tr by (simp add: safepoint_with_def then_drain_def Let_def)
qed

section \<open>Properties\<close>

text \<open>
  (C3) One service call of the collector, in any phase and with any allowance, returns, and whatever
  it reports it loses nothing: every object reachable from the host roots and the root source stays
  allocated with its contents and its descriptor, and the same objects are reachable afterwards. When
  it succeeds, the invariant between calls holds again. Object scanners and the root source are
  assumed to report their edges and only their edges.
\<close>

theorem service_safe:
  assumes "collector P E C Q S D" "gc_inv P E C S D H r"
  shows "\<exists>x b' H' r'. service P Q b H r = Some (x, b', H', r') \<and> remaining b' \<le> remaining b \<and> reachable E S H' r' = reachable E S H r \<and>
    (\<forall>a \<in> reachable E S H r. a \<in> live_set (gphysical H') \<and> gobjects H' a = gobjects H a \<and> descriptor_at (gphysical H') a = descriptor_at (gphysical H) a) \<and>
    (\<forall>n. x = Ok n \<longrightarrow> gc_inv P E C S D H' r')"
proof -
  from collector.service_ok [OF assms] obtain x b' H' r' where s: "service P Q b H r = Some (x, b', H', r')" "kept E S H r H' r'" "worked b b'"
    "\<forall>n. x = Ok n \<longrightarrow> gc_inv P E C S D H' r'" by blast
  show ?thesis using s kept_reachable [OF s(2)]
    by (intro exI [of _ x] exI [of _ b'] exI [of _ H'] exI [of _ r']) (simp add: kept_def worked_def)
qed

theorem service_safe_witness:
  "\<exists>x b' H' r'. service scalar_provider frame_source (budget_new 8) sample_gc NoSource = Some (x, b', H', r') \<and> remaining b' \<le> 8"
  using service_safe [OF frame_collector sample_gc_inv, of "budget_new 8"] by (auto simp: budget_new_def)

text \<open>
  (C4) A full collection: whatever it reports, every reachable object is kept; when it reports
  success, the heap is idle and the allocated objects are exactly those that were reachable
  when it was called, although it first finishes a cycle that other calls have begun.
\<close>

theorem collect_exact:
  assumes "collector P E C Q S D" "gc_inv P E C S D H r" "collect_with P Q H r = Some (x, H', r')"
  shows "(\<forall>a \<in> reachable E S H r. a \<in> live_set (gphysical H') \<and> gobjects H' a = gobjects H a) \<and>
    (\<forall>t. x = Ok t \<longrightarrow> live_set (gphysical H') = reachable E S H r \<and> mphase (gmarking H') = Idle \<and> gc_inv P E C S D H' r')"
  using collector.collect_ok [OF assms(1,3,2)] by (simp add: kept_def)

theorem collect_exact_witness:
  "\<exists>t H. collect_with scalar_provider frame_source sample_gc NoSource = Some (Ok t, H, NoSource) \<and>
     live_set (gphysical H) = reachable (\<lambda>_ _. {}) frame_roots sample_gc (NoSource :: (_, nat) root_scan)"
proof -
  from sample_collect obtain t H where c: "collect_with scalar_provider frame_source sample_gc NoSource = Some (Ok t, H, NoSource)" by blast
  have "live_set (gphysical H) = reachable (\<lambda>_ _. {}) frame_roots sample_gc (NoSource :: (_, nat) root_scan)" using collect_exact [OF frame_collector sample_gc_inv c] by simp
  then show ?thesis using c by blast
qed

text \<open>
  (C5) The automatic safepoint. It keeps every reachable object, whatever it reports. When it
  succeeds, the invariant holds again, and it followed the pacing policy: it does nothing exactly
  when the heap is idle, the growth is below the threshold, less than a batch of root releases is
  pending and no quota presses; it assists exactly when a quota presses or the growth is a burst,
  and otherwise takes one step. An assist leaves the heap idle, and one that started from an idle
  heap leaves exactly the reachable objects allocated.
\<close>

theorem safepoint_paced:
  assumes "collector P E C Q S D" "gc_inv P E C S D H r" "safepoint_with P Q H r = Some (x, H', r')"
  shows "(\<forall>a \<in> reachable E S H r. a \<in> live_set (gphysical H') \<and> gobjects H' a = gobjects H a) \<and>
    (\<forall>t. x = Ok t \<longrightarrow> gc_inv P E C S D H' r' \<and>
      (t = None \<longleftrightarrow> mphase (gmarking H) = Idle \<and> allocation_growth (gledger H) < threshold (gpacing H) \<and>
         pending_releases (groots H) < RETIREMENT_CAP \<and> \<not> quota_pressed H) \<and>
      (t = None \<longrightarrow> H' = H) \<and>
      (\<forall>rep. t = Some rep \<longrightarrow> (ar_kind rep = Assist \<longleftrightarrow> quota_pressed H \<or> burst H) \<and>
         (quota_pressed H \<or> burst H \<longrightarrow> mphase (gmarking H') = Idle \<and>
            (mphase (gmarking H) = Idle \<longrightarrow> live_set (gphysical H') = reachable E S H r))))"
proof (intro conjI allI impI)
  note ok = collector.safepoint_ok [OF assms(1,3,2)]
  show "\<forall>a \<in> reachable E S H r. a \<in> live_set (gphysical H') \<and> gobjects H' a = gobjects H a" using ok by (simp add: kept_def)
  fix t assume x: "x = Ok t"
  show "gc_inv P E C S D H' r'" "t = None \<Longrightarrow> H' = H" using ok x by blast+
  show "t = None \<longleftrightarrow> mphase (gmarking H) = Idle \<and> allocation_growth (gledger H) < threshold (gpacing H) \<and>
      pending_releases (groots H) < RETIREMENT_CAP \<and> \<not> quota_pressed H"
    using ok x unfolding service_due_iff by blast
  fix rep assume rep: "t = Some rep"
  then have k: "ar_kind rep = automatic_choice H" "ar_kind rep = Assist \<Longrightarrow> mphase (gmarking H') = Idle \<and>
      (mphase (gmarking H) = Idle \<longrightarrow> live_set (gphysical H') = reachable E S H r)" using ok x by blast+
  then show "ar_kind rep = Assist \<longleftrightarrow> quota_pressed H \<or> burst H" using automatic_choice_iff [of H] by simp
  assume "quota_pressed H \<or> burst H"
  then show "mphase (gmarking H') = Idle" "mphase (gmarking H) = Idle \<Longrightarrow> live_set (gphysical H') = reachable E S H r"
    using k automatic_choice_iff [of H] by simp_all
qed

text \<open>An empty heap whose growth is a burst: the safepoint runs a whole cycle.\<close>

theorem safepoint_paced_witness:
  "\<exists>rep H. safepoint_with scalar_provider frame_source sample_burst NoSource = Some (Ok (Some rep), H, NoSource) \<and>
     ar_kind rep = Assist \<and> mphase (gmarking H) = Idle \<and>
     live_set (gphysical H) = reachable (\<lambda>_ _. {}) frame_roots sample_burst (NoSource :: (_, nat) root_scan)"
proof -
  have b: "burst sample_burst" "mphase (gmarking sample_burst) = Idle"
    by (simp_all add: burst_def sample_burst_def sample_grown_def sample_gc_def marking_default_def pacing_config_default_def ledger_default_def usize_max_def)
  from sample_safepoint obtain rep H where s: "safepoint_with scalar_provider frame_source sample_burst NoSource = Some (Ok (Some rep), H, NoSource)" by blast
  have "ar_kind rep = Assist" "mphase (gmarking H) = Idle"
     "live_set (gphysical H) = reachable (\<lambda>_ _. {}) frame_roots sample_burst (NoSource :: (_, nat) root_scan)"
    using safepoint_paced [OF frame_collector sample_burst_inv s] b by auto
  then show ?thesis using s by blast
qed

end
