(* ===== verification/Gc_Access.thy ===== *)
theory Gc_Access
  imports Gc_Driver
begin

text \<open>
  What the program does with the heap (\<^verbatim>\<open>crates/kagari-gc/src: access.rs, access/scope.rs,
  access/fields.rs, access/mutation.rs, dynamic/access.rs, root_source.rs\<close>): registering types,
  allocating, reading and writing fields, mutable loans, and moving references into and out of
  the host roots and the roots of a driver.

  A scoped handle \<^verbatim>\<open>Gc\<close> is the address of its object; its lifetime, which ends with the scope, is
  the set of handles of \<open>Gc_World\<close>. Type identities are numbers. The collector goes on between
  scopes, so every operation runs in any phase of a cycle: what the mutator stores it publishes
  first, and what it allocates is born black.

  Reserved memory, the blocks of the allocator and the addresses of new leases are parameters.
  A constructor and a provider's mutation are parameters too: the former as the contents it
  builds, the latter as an operation on the contents and on the services of \<^verbatim>\<open>Mutation\<close>.
\<close>

section \<open>Definitions\<close>

subsection \<open>Sequencing\<close>

type_synonym ('o, 's, 'a) heap_action = "('o, 's) gc_heap \<Rightarrow> 'a gc_result \<times> ('o, 's) gc_heap"

definition heap_then :: "('o, 's, 'a) heap_action \<Rightarrow> ('a \<Rightarrow> ('o, 's, 'b) heap_action) \<Rightarrow> ('o, 's, 'b) heap_action" where
  "heap_then m f H =
     (case m H of
        (Ok x, H) \<Rightarrow> f x H
      | (Err e, H) \<Rightarrow> (Err e, H)
      | (Panic p, H) \<Rightarrow> (Panic p, H))"

definition heap_reads :: "(('o, 's) gc_heap \<Rightarrow> 'a gc_result) \<Rightarrow> ('o, 's, 'a) heap_action" where
  "heap_reads f H = (f H, H)"

subsection \<open>Types of objects (descriptor.rs)\<close>

text \<open>The type of erased handles; no managed type has its number.\<close>

definition ANY_OBJECT :: nat where
  "ANY_OBJECT = 0"

definition descriptor_matches :: "nat \<Rightarrow> descriptor \<Rightarrow> bool" where
  "descriptor_matches T d \<longleftrightarrow> T = ANY_OBJECT \<or> descriptor_type d = Some T"

subsection \<open>Publication (access/scope.rs, access.rs)\<close>

definition scope_check :: "nat \<Rightarrow> ('o, 's) gc_heap \<Rightarrow> nat gc_result" where
  "scope_check a H = and_then (marking_check (gmarking H)) (\<lambda>_. Ok a)"

definition heap_publish :: "nat \<Rightarrow> ('o, 's, unit) heap_action" where
  "heap_publish a H =
     (case publish a None (visitor H) of (x, _, v) \<Rightarrow> (and_then x (\<lambda>_. Ok ()), visited v H))"

definition scope_publish :: "nat \<Rightarrow> ('o, 's, nat) heap_action" where
  "scope_publish a H =
     (if mphase (gmarking H) = Idle then (Ok a, H)
      else case publish_admitted a None (visitor H) of
        (Ok _, _, v) \<Rightarrow> (Ok a, visited v H)
      | (Err e, _, v) \<Rightarrow> (Err e, set_phase Faulted (visited v H))
      | (Panic p, _, v) \<Rightarrow> (Panic p, visited v H))"

subsection \<open>Host roots (access.rs, access/scope.rs)\<close>

definition typed_root :: "nat \<Rightarrow> root_lease \<Rightarrow> ('o, 's) gc_heap \<Rightarrow> nat gc_result" where
  "typed_root T l H =
     and_then (roots_target T l (groots H)) (\<lambda>a.
     and_then (resolve a (gphysical H)) (\<lambda>ob.
     if descriptor_matches T (odescriptor ob) then Ok a else Err Representation))"

definition prepare_root :: "reserve \<Rightarrow> nat \<Rightarrow> nat \<Rightarrow> nat \<Rightarrow> nat option \<Rightarrow> ('o, 's, prepared_root) heap_action" where
  "prepare_root mem slack ptr count ty H =
     (case roots_prepare mem slack ptr count ty (max_roots (gconfig H)) (groots H) of (x, rs) \<Rightarrow> (x, H\<lparr>groots := rs\<rparr>))"

definition commit_root :: "prepared_root \<Rightarrow> nat option \<Rightarrow> ('o, 's, root_lease) heap_action" where
  "commit_root p target H = (case roots_commit p target (groots H) of (x, rs) \<Rightarrow> (x, H\<lparr>groots := rs\<rparr>))"

text \<open>A prepared registration that goes out of scope drops its lease.\<close>

definition abandon_root :: "prepared_root \<Rightarrow> ('o, 's) gc_heap \<Rightarrow> ('o, 's) gc_heap" where
  "abandon_root p H = H\<lparr>groots := snd (lease_drop (prep_lease p) (groots H))\<rparr>"

definition retain :: "reserve \<Rightarrow> nat \<Rightarrow> nat \<Rightarrow> nat \<Rightarrow> nat \<Rightarrow> ('o, 's, root_lease) heap_action" where
  "retain mem slack ptr T a =
     heap_then (heap_reads (\<lambda>H. resolve a (gphysical H))) (\<lambda>ob.
     heap_then (heap_reads (\<lambda>_. if descriptor_matches T (odescriptor ob) then Ok () else Err Representation)) (\<lambda>_.
     heap_then (prepare_root mem slack ptr 1 (Some T)) (\<lambda>p H.
       case heap_publish a H of
         (Ok _, H) \<Rightarrow> commit_root p (Some a) H
       | (Err e, H) \<Rightarrow> (Err e, abandon_root p H)
       | (Panic m, H) \<Rightarrow> (Panic m, abandon_root p H))))"

definition scope_retain :: "reserve \<Rightarrow> nat \<Rightarrow> nat \<Rightarrow> nat \<Rightarrow> nat \<Rightarrow> ('o, 's, root_lease) heap_action" where
  "scope_retain mem slack ptr T a = heap_then (heap_reads (scope_check a)) (retain mem slack ptr T)"

definition create_roots :: "reserve \<Rightarrow> nat \<Rightarrow> nat \<Rightarrow> nat \<Rightarrow> ('o, 's, root_lease) heap_action" where
  "create_roots mem slack ptr count =
     heap_then (heap_reads (\<lambda>H. marking_check (gmarking H))) (\<lambda>_.
     heap_then (prepare_root mem slack ptr count None) (\<lambda>p. commit_root p None))"

text \<open>The two closures given to \<^verbatim>\<open>replace_with\<close>; their own state is the rest of the heap.\<close>

definition pick_root :: "nat \<Rightarrow> root_lease \<Rightarrow> roots \<Rightarrow> ('o, 's) gc_heap \<Rightarrow> nat option gc_result \<times> ('o, 's) gc_heap" where
  "pick_root T source rs =
     heap_then (heap_reads (typed_root T source)) (\<lambda>a. heap_then (heap_publish a) (\<lambda>_. heap_reads (\<lambda>_. Ok (Some a))))"

definition pick_handle :: "nat option \<Rightarrow> roots \<Rightarrow> ('o, 's) gc_heap \<Rightarrow> nat option gc_result \<times> ('o, 's) gc_heap" where
  "pick_handle value rs =
     (case value of
        None \<Rightarrow> heap_reads (\<lambda>_. Ok None)
      | Some a \<Rightarrow> heap_then (heap_publish a) (\<lambda>_. heap_reads (\<lambda>_. Ok (Some a))))"

definition replace_target ::
    "root_lease \<Rightarrow> nat \<Rightarrow> (roots \<Rightarrow> ('o, 's) gc_heap \<Rightarrow> nat option gc_result \<times> ('o, 's) gc_heap) \<Rightarrow> ('o, 's, unit) heap_action" where
  "replace_target pack index pick =
     heap_then (heap_reads (\<lambda>H. marking_check (gmarking H))) (\<lambda>_ H.
       case replace_with pack index pick (groots H) H of (x, rs, H) \<Rightarrow> (x, H\<lparr>groots := rs\<rparr>))"

definition replace_root :: "root_lease \<Rightarrow> nat \<Rightarrow> nat \<Rightarrow> root_lease \<Rightarrow> ('o, 's, unit) heap_action" where
  "replace_root pack index T source = replace_target pack index (pick_root T source)"

definition clear_root :: "root_lease \<Rightarrow> nat \<Rightarrow> ('o, 's, unit) heap_action" where
  "clear_root pack index = replace_target pack index (\<lambda>_. heap_reads (\<lambda>_. Ok None))"

definition set_root :: "root_lease \<Rightarrow> nat \<Rightarrow> nat option \<Rightarrow> ('o, 's, unit) heap_action" where
  "set_root pack index value = replace_target pack index (pick_handle value)"

definition entry_target :: "nat \<Rightarrow> root_entry \<Rightarrow> nat gc_result" where
  "entry_target index e =
     (if index < length (targets e) then ok_or Index (targets e ! index) else Err Index)"

definition root_at :: "reserve \<Rightarrow> nat \<Rightarrow> nat \<Rightarrow> nat \<Rightarrow> root_lease \<Rightarrow> nat \<Rightarrow> ('o, 's, root_lease) heap_action" where
  "root_at mem slack ptr T pack index =
     heap_then (heap_reads (\<lambda>H.
       and_then (marking_check (gmarking H)) (\<lambda>_.
       and_then (roots_admit pack (groots H)) (\<lambda>e.
       if typed e \<noteq> None then Err Representation else entry_target index e))))
     (retain mem slack ptr T)"

text \<open>Handles from roots: \<^verbatim>\<open>Scope::get\<close> and \<^verbatim>\<open>Scope::get_root\<close>.\<close>

definition scope_get :: "nat \<Rightarrow> root_lease \<Rightarrow> ('o, 's) gc_heap \<Rightarrow> nat gc_result" where
  "scope_get T l H = and_then (marking_check (gmarking H)) (\<lambda>_. typed_root T l H)"

definition get_root :: "nat \<Rightarrow> root_lease \<Rightarrow> nat \<Rightarrow> ('o, 's) gc_heap \<Rightarrow> nat gc_result" where
  "get_root T pack index H =
     and_then (marking_check (gmarking H)) (\<lambda>_.
     and_then (roots_admit pack (groots H)) (\<lambda>e.
     and_then (entry_target index e) (\<lambda>a.
     and_then (resolve a (gphysical H)) (\<lambda>ob.
     if descriptor_matches T (odescriptor ob) then Ok a else Err Representation))))"

definition downcast :: "nat \<Rightarrow> nat \<Rightarrow> ('o, 's) gc_heap \<Rightarrow> nat gc_result" where
  "downcast T a H =
     and_then (scope_check a H) (\<lambda>a.
     and_then (resolve a (gphysical H)) (\<lambda>ob.
     if descriptor_matches T (odescriptor ob) then Ok a else Err Representation))"

subsection \<open>Reading and writing objects (access/scope.rs, access/fields.rs)\<close>

text \<open>\<^verbatim>\<open>typed_pointer\<close> and the loan of the object behind it.\<close>

definition scope_read :: "nat \<Rightarrow> ('o, 's) gc_heap \<Rightarrow> 'o gc_result" where
  "scope_read a H =
     (case scope_check a H of
        Ok a \<Rightarrow> (case gobjects H a of Some (RustValue w) \<Rightarrow> Ok w | _ \<Rightarrow> Panic ''representation'')
      | _ \<Rightarrow> Panic ''invalid scoped object access'')"

definition scope_follow :: "nat \<Rightarrow> ('o \<Rightarrow> nat option) \<Rightarrow> nat \<Rightarrow> ('o, 's) gc_heap \<Rightarrow> nat option gc_result" where
  "scope_follow U select a H =
     and_then (scope_read a H) (\<lambda>w.
     case select w of
       None \<Rightarrow> Ok None
     | Some b \<Rightarrow>
         (case resolve b (gphysical H) of
            Ok ob \<Rightarrow> if descriptor_matches U (odescriptor ob) then Ok (Some b) else Panic ''stored edge type mismatch''
          | _ \<Rightarrow> Panic ''selected edge must name live storage in this heap''))"

definition write_object :: "nat \<Rightarrow> 'o payload \<Rightarrow> ('o, 's) gc_heap \<Rightarrow> ('o, 's) gc_heap" where
  "write_object a x H = H\<lparr>gobjects := (gobjects H)(a \<mapsto> x)\<rparr>"

record ('o, 'v) scalar_field =
  sf_read :: "'o \<Rightarrow> 'v"
  sf_write :: "'v \<Rightarrow> 'o \<Rightarrow> 'o"

record 'o edge_field =
  ef_read :: "'o \<Rightarrow> nat option"
  ef_write :: "nat option \<Rightarrow> 'o \<Rightarrow> 'o"

definition scalar_get :: "('o, 'v) scalar_field \<Rightarrow> nat \<Rightarrow> ('o, 's) gc_heap \<Rightarrow> 'v gc_result" where
  "scalar_get f a H = and_then (scope_read a H) (\<lambda>w. Ok (sf_read f w))"

definition scalar_set :: "('o, 'v) scalar_field \<Rightarrow> nat \<Rightarrow> 'v \<Rightarrow> ('o, 's, unit) heap_action" where
  "scalar_set f a value =
     heap_then (heap_reads (scope_read a)) (\<lambda>w H. (Ok (), write_object a (RustValue (sf_write f value w)) H))"

definition edge_get :: "nat \<Rightarrow> 'o edge_field \<Rightarrow> nat \<Rightarrow> ('o, 's) gc_heap \<Rightarrow> nat option gc_result" where
  "edge_get U f a H = scope_follow U (ef_read f) a H"

text \<open>The incoming reference of a field write.\<close>

definition publish_value :: "nat option \<Rightarrow> ('o, 's, nat option) heap_action" where
  "publish_value value =
     (case value of
        None \<Rightarrow> heap_reads (\<lambda>_. Ok None)
      | Some b \<Rightarrow> heap_then (scope_publish b) (\<lambda>b. heap_reads (\<lambda>_. Ok (Some b))))"

definition edge_set :: "'o edge_field \<Rightarrow> nat \<Rightarrow> nat option \<Rightarrow> ('o, 's, unit) heap_action" where
  "edge_set f a value =
     heap_then (heap_reads (scope_read a)) (\<lambda>w H.
       case publish_value value H of
         (Ok target, H) \<Rightarrow> (Ok (), write_object a (RustValue (ef_write f target w)) H)
       | (_, H) \<Rightarrow> (Panic ''fixed edge publication failed'', H))"

subsection \<open>Dynamic records (dynamic/access.rs)\<close>

record dynamic_layout =
  dl_heap :: nat
  dl_descriptor :: descriptor

record reference_field =
  rf_layout :: dynamic_layout
  rf_offset :: nat

text \<open>\<^verbatim>\<open>DynamicLayout::pointer\<close>: the record behind a handle, after the check of its layout.\<close>

definition layout_pointer :: "dynamic_layout \<Rightarrow> nat \<Rightarrow> ('o, 's) gc_heap \<Rightarrow> (nat \<Rightarrow> nat option) gc_result" where
  "layout_pointer l a H =
     and_then (scope_check a H) (\<lambda>a.
     if dl_heap l \<noteq> gid H then Err ForeignHeap
     else and_then (read_header a (gphysical H)) (\<lambda>header.
       if hdescriptor header \<noteq> desc_id (dl_descriptor l) then Err Representation
       else case gobjects H a of Some (Record f) \<Rightarrow> Ok f | _ \<Rightarrow> Panic ''representation''))"

definition reference_get :: "reference_field \<Rightarrow> nat \<Rightarrow> ('o, 's) gc_heap \<Rightarrow> nat option gc_result" where
  "reference_get f a H =
     and_then (layout_pointer (rf_layout f) a H) (\<lambda>sl.
     case sl (rf_offset f) of
       None \<Rightarrow> Ok None
     | Some b \<Rightarrow> and_then (resolve b (gphysical H)) (\<lambda>_. Ok (Some b)))"

definition reference_set :: "reference_field \<Rightarrow> nat \<Rightarrow> nat option \<Rightarrow> ('o, 's, unit) heap_action" where
  "reference_set f a value =
     heap_then (heap_reads (layout_pointer (rf_layout f) a)) (\<lambda>sl.
     heap_then (publish_value value) (\<lambda>target H.
       (Ok (), write_object a (Record (sl(rf_offset f := target))) H)))"

subsection \<open>Registration (access.rs, dynamic/layout.rs)\<close>

text \<open>
  A successful registration hands out one more strong reference to the descriptor; a refused one
  leaves the registry that \<open>failed\<close> gives. The workspace is grown by an allocation that may fail;
  its contents are \<open>gworkspace\<close>.
\<close>

definition set_registry :: "descriptors \<Rightarrow> ('o, 's) gc_heap \<Rightarrow> ('o, 's) gc_heap" where
  "set_registry ds H = H\<lparr>gphysical := (gphysical H)\<lparr>descriptors_of := ds\<rparr>\<rparr>"

definition with_registry ::
  "(descriptors \<Rightarrow> (descriptors \<times> descriptor) gc_result) \<Rightarrow> (descriptors \<Rightarrow> descriptors) \<Rightarrow> bool \<Rightarrow> ('o, 's, descriptor) heap_action" where
  "with_registry reg failed room =
     heap_then (heap_reads (\<lambda>H. marking_check (gmarking H))) (\<lambda>_ H.
     case reg (descriptors_of (gphysical H)) of
       Err e \<Rightarrow> (Err e, set_registry (failed (descriptors_of (gphysical H))) H)
     | Panic m \<Rightarrow> (Panic m, H)
     | Ok (ds, d) \<Rightarrow>
         let H = set_registry ds H
         in if room then (Ok d, H\<lparr>gstrong := (gstrong H)(desc_id d := gstrong H (desc_id d) + 1)\<rparr>)
            else (Err Allocation, H))"

definition access_register :: "reserve \<Rightarrow> bool \<Rightarrow> gc_type \<Rightarrow> ('o, 's, descriptor) heap_action" where
  "access_register mem room T = with_registry (register mem T) (register_failed mem T) room"

definition access_register_dynamic :: "reserve \<Rightarrow> bool \<Rightarrow> layout_builder \<Rightarrow> ('o, 's, dynamic_layout) heap_action" where
  "access_register_dynamic mem room builder =
     heap_then
       (with_registry (\<lambda>ds. and_then (shape_new mem builder) (\<lambda>shape. register_dynamic mem shape ds))
          (\<lambda>ds. case shape_new mem builder of
                  Ok shape \<Rightarrow> register_dynamic_failed mem shape ds | Err e \<Rightarrow> ds | Panic m \<Rightarrow> ds) room)
       (\<lambda>d. heap_reads (\<lambda>H. Ok \<lparr>dl_heap = gid H, dl_descriptor = d\<rparr>))"

text \<open>The drop of a descriptor handle: \<^verbatim>\<open>TypedDescriptor\<close>, \<^verbatim>\<open>DynamicLayout\<close> or a bound field.\<close>

definition descriptor_drop :: "nat \<Rightarrow> ('o, 's) gc_heap \<Rightarrow> ('o, 's) gc_heap" where
  "descriptor_drop i H = H\<lparr>gstrong := (gstrong H)(i := gstrong H i - 1)\<rparr>"

subsection \<open>Allocation (access.rs)\<close>

definition check_allocation :: "nat \<Rightarrow> descriptor \<Rightarrow> ('o, 's) gc_heap \<Rightarrow> unit gc_result" where
  "check_allocation heap d H =
     and_then (marking_check (gmarking H)) (\<lambda>_.
     if heap \<noteq> gid H then Err ForeignHeap
     else and_then (descriptors_get (desc_id d) (descriptors_of (gphysical H))) (\<lambda>d'.
       if d' \<noteq> d then Err Representation
       else if objects (gphysical H) \<ge> max_objects (gconfig H) then Err (Limit ''objects'')
       else Ok ()))"

text \<open>The services of \<^verbatim>\<open>Init\<close> to a constructor.\<close>

definition init_edge_scoped :: "nat \<Rightarrow> ('o, 's) gc_heap \<Rightarrow> nat gc_result" where
  "init_edge_scoped a H = and_then (resolve a (gphysical H)) (\<lambda>_. Ok a)"

definition init_edge :: "nat \<Rightarrow> root_lease \<Rightarrow> ('o, 's) gc_heap \<Rightarrow> nat gc_result" where
  "init_edge T source H = typed_root T source H"

text \<open>The scan of a new object, which publishes what it refers to; the loop is the scanner's.\<close>

partial_function (option) inspect_initial ::
    "('o, 's) provider \<Rightarrow> nat \<Rightarrow> 'o \<Rightarrow> 's \<Rightarrow> edge_visitor \<Rightarrow> (unit gc_result \<times> edge_visitor) option" where
  "inspect_initial P t w s v =
     (case scan_hook P t w s (budget_new 1024) v of
        (x, s, b, v) \<Rightarrow>
          (case x of
             Err e \<Rightarrow> Some (Err e, v)
           | Panic m \<Rightarrow> Some (Panic m, v)
           | Ok status \<Rightarrow>
               if kind_of P t \<noteq> Indivisible \<and> spent b > 1024 then Some (Err (Provider ''initial scan exceeded allowance''), v)
               else if (case kind_of P t of Bounded max_work \<Rightarrow> status \<noteq> Complete \<or> spent b > max_work * 5 | _ \<Rightarrow> False)
                 then Some (Err (Provider ''initial bounded scan violated contract''), v)
               else if status = Complete then Some (Ok (), v)
               else if spent b = 0 then Some (Err (Provider ''initial scan made no progress''), v)
               else inspect_initial P t w s v))"

text \<open>The validation closures of \<^verbatim>\<open>allocate\<close> and \<^verbatim>\<open>alloc_dynamic\<close>.\<close>

type_synonym 'o validation = "'o payload \<Rightarrow> edge_visitor \<Rightarrow> (unit gc_result \<times> edge_visitor) option"

definition validate_typed :: "('o, 's) provider \<Rightarrow> nat \<Rightarrow> 'o validation" where
  "validate_typed P t x v =
     (case x of
        RustValue w \<Rightarrow> inspect_initial P t w (begin_hook P t w) v
      | Record _ \<Rightarrow> Some (Panic ''representation'', v))"

definition validate_dynamic :: "'o validation" where
  "validate_dynamic x v = Some (Ok (), v)"

text \<open>The charge, the budget check and the validation; a panic of a provider's hook is caught.\<close>

definition publish_initial :: "('o, 's) provider \<Rightarrow> descriptor \<Rightarrow> 'o validation \<Rightarrow> 'o payload \<Rightarrow> ('o, 's) gc_heap \<Rightarrow>
    (nat gc_result \<times> ('o, 's) gc_heap) option" where
  "publish_initial P d validate x H =
     do { (y, H) \<leftarrow>
            (case and_then (descriptor_charge P d x) (\<lambda>charge. ledger_check (gledger H) 0 charge (max_indirect_bytes (gconfig H))) of
               Err e \<Rightarrow> Some (Err e, H)
             | Panic m \<Rightarrow> Some (Panic m, H)
             | Ok bytes \<Rightarrow> do { (y, v) \<leftarrow> validate x (visitor H); Some (and_then y (\<lambda>_. Ok bytes), visited v H) });
          (case y of
             Panic m \<Rightarrow> Some (Err (Provider ''initial scan or charge panicked''), set_phase Faulted H)
           | _ \<Rightarrow> Some (y, H)) }"

text \<open>
  The drop of the guard of an allocation that is not committed. The destructor of an initialized
  object runs first; it has no access to the heap and its panic is caught.
\<close>

definition guard_rollback :: "reservation \<Rightarrow> 'a gc_result \<times> ('o, 's) gc_heap \<Rightarrow> 'a gc_result \<times> ('o, 's) gc_heap" where
  "guard_rollback rv = (\<lambda>(x, H).
     case heap_rollback rv (gphysical H) of
       (Ok _, h) \<Rightarrow> (x, H\<lparr>gphysical := h\<rparr>)
     | (_, h) \<Rightarrow> (Panic ''linear allocation rollback'', H\<lparr>gphysical := h\<rparr>))"

definition admit_object :: "reservation \<Rightarrow> ('o, 's, unit) heap_action" where
  "admit_object rv H = (case marking_admit rv (visitor H) of (x, v) \<Rightarrow> (x, visited v H))"

definition commit_object :: "reservation \<Rightarrow> descriptor \<Rightarrow> 'o payload \<Rightarrow> nat \<Rightarrow> ('o, 's, nat) heap_action" where
  "commit_object rv d x bytes H =
     (case heap_commit rv (desc_id d) (gphysical H) of
        (Err e, h) \<Rightarrow> (Err e, H\<lparr>gphysical := h\<rparr>)
      | (Panic m, h) \<Rightarrow> (Panic m, H\<lparr>gphysical := h\<rparr>)
      | (Ok _, h) \<Rightarrow>
          let l = ledger_grew (saturating_add (lsize (desc_layout d)) (bytes - indirect (gledger H))) (gledger H)
          in (Ok (rreference rv),
              H\<lparr>gphysical := h, gobjects := (gobjects H)(rreference rv \<mapsto> x),
                gledger := ledger_observe (backing_bytes h) (l\<lparr>indirect := bytes\<rparr>)\<rparr>))"

definition construct :: "('o, 's) provider \<Rightarrow> descriptor \<Rightarrow> 'o payload gc_result \<Rightarrow> 'o validation \<Rightarrow> reservation \<Rightarrow> ('o, 's) gc_heap \<Rightarrow>
    (nat gc_result \<times> ('o, 's) gc_heap) option" where
  "construct P d built validate rv H =
     (case built of
        Err e \<Rightarrow> Some (guard_rollback rv (Err e, H))
      | Panic m \<Rightarrow> Some (guard_rollback rv (Panic m, H))
      | Ok x \<Rightarrow>
          do { (y, H) \<leftarrow> publish_initial P d validate x H;
               (case heap_then (heap_reads (\<lambda>_. y)) (\<lambda>bytes. heap_then (admit_object rv) (\<lambda>_. commit_object rv d x bytes)) H of
                  (Ok a, H) \<Rightarrow> Some (Ok a, H)
                | s \<Rightarrow> Some (guard_rollback rv s)) })"

definition allocate_initialized ::
    "('o, 's) provider \<Rightarrow> trailer_types \<Rightarrow> reserve \<Rightarrow> nat \<Rightarrow> (layout \<Rightarrow> nat option) \<Rightarrow> descriptor \<Rightarrow>
     (('o, 's) gc_heap \<Rightarrow> 'o payload gc_result) \<Rightarrow> 'o validation \<Rightarrow> ('o, 's) gc_heap \<Rightarrow> (nat gc_result \<times> ('o, 's) gc_heap) option" where
  "allocate_initialized P tt mem slack alloc d init validate H =
     (case and_then (ok_or (Limit ''page jobs'') (checked_add (page_count (gphysical H)) 1)) (\<lambda>n. reserve_pages mem slack n (gmarking H)) of
        Err e \<Rightarrow> Some (Err e, H)
      | Panic m \<Rightarrow> Some (Panic m, H)
      | Ok m \<Rightarrow>
          let H = H\<lparr>gmarking := m\<rparr>
          in case heap_reserve tt mem alloc d (max_backing_bytes (gconfig H)) (gphysical H) of
               (Err e, h) \<Rightarrow> Some (Err e, H\<lparr>gphysical := h\<rparr>)
             | (Panic m, h) \<Rightarrow> Some (Panic m, H\<lparr>gphysical := h\<rparr>)
             | (Ok rv, h) \<Rightarrow> let H = H\<lparr>gphysical := h\<rparr> in construct P d (init H) validate rv H)"

definition allocate_typed ::
    "('o, 's) provider \<Rightarrow> trailer_types \<Rightarrow> reserve \<Rightarrow> nat \<Rightarrow> (layout \<Rightarrow> nat option) \<Rightarrow> descriptor \<Rightarrow> nat \<Rightarrow>
     (('o, 's) gc_heap \<Rightarrow> 'o gc_result) \<Rightarrow> ('o, 's) gc_heap \<Rightarrow> (nat gc_result \<times> ('o, 's) gc_heap) option" where
  "allocate_typed P tt mem slack alloc d t init =
     allocate_initialized P tt mem slack alloc d (\<lambda>H. and_then (init H) (\<lambda>w. Ok (RustValue w))) (validate_typed P t)"

text \<open>\<^verbatim>\<open>TypedDescriptor::alloc_with\<close>: an object that only the scope protects.\<close>

definition scope_alloc ::
    "('o, 's) provider \<Rightarrow> trailer_types \<Rightarrow> reserve \<Rightarrow> nat \<Rightarrow> (layout \<Rightarrow> nat option) \<Rightarrow> nat \<Rightarrow> descriptor \<Rightarrow> nat \<Rightarrow>
     (('o, 's) gc_heap \<Rightarrow> 'o gc_result) \<Rightarrow> ('o, 's) gc_heap \<Rightarrow> (nat gc_result \<times> ('o, 's) gc_heap) option" where
  "scope_alloc P tt mem slack alloc heap d t init H =
     (case check_allocation heap d H of
        Err e \<Rightarrow> Some (Err e, H)
      | Panic m \<Rightarrow> Some (Panic m, H)
      | Ok _ \<Rightarrow> allocate_typed P tt mem slack alloc d t init H)"

definition scope_alloc_leaf ::
    "('o, 's) provider \<Rightarrow> trailer_types \<Rightarrow> reserve \<Rightarrow> nat \<Rightarrow> (layout \<Rightarrow> nat option) \<Rightarrow> nat \<Rightarrow> descriptor \<Rightarrow> nat \<Rightarrow>
     'o \<Rightarrow> ('o, 's) gc_heap \<Rightarrow> (nat gc_result \<times> ('o, 's) gc_heap) option" where
  "scope_alloc_leaf P tt mem slack alloc heap d t w H =
     (if kind_of P t \<noteq> EdgeFree then Some (Err (Provider ''alloc_leaf requires EdgeFree''), H)
      else scope_alloc P tt mem slack alloc heap d t (\<lambda>_. Ok w) H)"

text \<open>\<^verbatim>\<open>Access::alloc_with\<close>: the root is prepared before and committed after the allocation.\<close>

definition access_alloc ::
    "('o, 's) provider \<Rightarrow> trailer_types \<Rightarrow> reserve \<Rightarrow> nat \<Rightarrow> (layout \<Rightarrow> nat option) \<Rightarrow> nat \<Rightarrow> nat \<Rightarrow> descriptor \<Rightarrow> nat \<Rightarrow>
     (('o, 's) gc_heap \<Rightarrow> 'o gc_result) \<Rightarrow> ('o, 's) gc_heap \<Rightarrow> (root_lease gc_result \<times> ('o, 's) gc_heap) option" where
  "access_alloc P tt mem slack alloc ptr heap d t init H =
     (case heap_then (heap_reads (check_allocation heap d)) (\<lambda>_. prepare_root mem slack ptr 1 (Some t)) H of
        (Err e, H) \<Rightarrow> Some (Err e, H)
      | (Panic m, H) \<Rightarrow> Some (Panic m, H)
      | (Ok p, H) \<Rightarrow>
          do { s \<leftarrow> allocate_typed P tt mem slack alloc d t init H;
               (case s of
                  (Ok a, H) \<Rightarrow> Some (commit_root p (Some a) H)
                | (Err e, H) \<Rightarrow> Some (Err e, abandon_root p H)
                | (Panic m, H) \<Rightarrow> Some (Panic m, abandon_root p H)) })"

definition shape_initial :: "dynamic_shape \<Rightarrow> 'o payload" where
  "shape_initial shape = Record (\<lambda>_. None)"

definition alloc_dynamic ::
    "('o, 's) provider \<Rightarrow> trailer_types \<Rightarrow> reserve \<Rightarrow> nat \<Rightarrow> (layout \<Rightarrow> nat option) \<Rightarrow> dynamic_layout \<Rightarrow>
     ('o, 's) gc_heap \<Rightarrow> (nat gc_result \<times> ('o, 's) gc_heap) option" where
  "alloc_dynamic P tt mem slack alloc l H =
     (case and_then (check_allocation (dl_heap l) (dl_descriptor l) H) (\<lambda>_. descriptor_shape (dl_descriptor l)) of
        Err e \<Rightarrow> Some (Err e, H)
      | Panic m \<Rightarrow> Some (Panic m, H)
      | Ok shape \<Rightarrow> allocate_initialized P tt mem slack alloc (dl_descriptor l) (\<lambda>_. Ok (shape_initial shape)) validate_dynamic H)"

subsection \<open>The roots of a driver (root_source.rs)\<close>

text \<open>
  What \<^verbatim>\<open>Scope\<close> does for an adapter of a root source: a target is published before the adapter
  installs it, and a slot that is still traced gives a handle back. The storage of the source is
  the adapter's own.
\<close>

definition source_edge :: "nat \<Rightarrow> ('o, 's, nat) heap_action" where
  "source_edge a = heap_then (heap_reads (\<lambda>H. marking_check (gmarking H))) (\<lambda>_. scope_publish a)"

definition source_get :: "nat \<Rightarrow> ('o, 's) gc_heap \<Rightarrow> nat gc_result" where
  "source_get edge H = and_then (marking_check (gmarking H)) (\<lambda>_. Ok edge)"

text \<open>\<^verbatim>\<open>DynamicLayout::reference\<close> with the layout it pins.\<close>

definition layout_reference :: "dynamic_layout \<Rightarrow> field_key \<Rightarrow> reference_field gc_result" where
  "layout_reference l key = and_then (bind_reference (dl_descriptor l) key) (\<lambda>offset. Ok \<lparr>rf_layout = l, rf_offset = offset\<rparr>)"

end
