(* ===== verification/Gc_Mutator.thy ===== *)
theory Gc_Mutator
  imports Gc_Access
begin

text \<open>
  The write barrier: every operation of \<open>Gc_Access\<close> on handles that a scope may use keeps the
  invariant of the collector, in every phase of a cycle, and the handles stay usable. A handle is
  usable when its object is allocated and, during a sweep, black; it is secured when it may be
  stored without further protection. Reads from usable objects and from roots give usable handles;
  publication secures them; writes, root registrations and new roots store secured ones only.
\<close>

section \<open>Definitions\<close>

text \<open>What a scope may use, and what may be stored without further protection.\<close>

definition usable :: "('o, 's) gc_heap \<Rightarrow> nat set" where
  "usable H = (if mphase (gmarking H) = Sweep then black_set (gphysical H) (mepoch (gmarking H)) else live_set (gphysical H))"

definition secured :: "('o, 's) gc_heap \<Rightarrow> nat set" where
  "secured H = (case mphase (gmarking H) of
     Idle \<Rightarrow> live_set (gphysical H)
   | Sweep \<Rightarrow> black_set (gphysical H) (mepoch (gmarking H))
   | _ \<Rightarrow> found_set (gphysical H) (mepoch (gmarking H)))"

text \<open>An operation keeps the objects a scope may use: they stay usable, with their descriptors.\<close>

definition carries :: "('o, 's) gc_heap \<Rightarrow> ('o, 's) gc_heap \<Rightarrow> bool" where
  "carries H H' \<longleftrightarrow> mphase (gmarking H') = mphase (gmarking H) \<and> gid H' = gid H \<and> usable H \<subseteq> usable H' \<and> secured H \<subseteq> secured H' \<and>
     (\<forall>a \<in> live_set (gphysical H). a \<in> live_set (gphysical H') \<and> descriptor_at (gphysical H') a = descriptor_at (gphysical H) a)"

subsection \<open>Reference definitions\<close>

text \<open>
  \<open>grows X rs rs'\<close>: registrations keep their places, new ones follow, and a target that was not
  there before is in \<open>X\<close>.
\<close>

definition grows :: "nat set \<Rightarrow> roots \<Rightarrow> roots \<Rightarrow> bool" where
  "grows X rs rs' \<longleftrightarrow> (\<exists>ys. ractive rs' = ractive rs @ ys) \<and>
     (\<forall>k < length (ractive rs). map_option generation (registration rs' (ractive rs ! k)) = map_option generation (registration rs (ractive rs ! k))) \<and>
     (\<forall>k s j a. k < length (ractive rs') \<longrightarrow> registration rs' (ractive rs' ! k) = Some s \<longrightarrow> 0 < strong rs' (elease (entry s)) \<longrightarrow>
        j < length (targets (entry s)) \<longrightarrow> targets (entry s) ! j = Some a \<longrightarrow> a \<in> X \<or>
        k < length (ractive rs) \<and> (\<exists>t. registration rs (ractive rs ! k) = Some t \<and> 0 < strong rs (elease (entry t)) \<and>
          j < length (targets (entry t)) \<and> targets (entry t) ! j = Some a))"

text \<open>Preparing, committing and abandoning a registration.\<close>

definition preparing :: "prepared_root \<Rightarrow> nat \<Rightarrow> nat \<Rightarrow> roots \<Rightarrow> bool" where
  "preparing p ptr count rs \<longleftrightarrow> prepared_ok p rs \<and> length (ractive rs) < acapacity rs \<and> \<not> armed rs ptr \<and> strong rs ptr = 1 \<and>
     lease_ptr (prep_lease p) = ptr \<and> targets (prep_entry p) = replicate count None"

text \<open>The contract of a fixed edge field and of a scalar field of the type \<open>t\<close>.\<close>

definition edge_field_ok :: "'o edge_map \<Rightarrow> ('o, 's) cover_map \<Rightarrow> nat \<Rightarrow> 'o edge_field \<Rightarrow> bool" where
  "edge_field_ok E C t f \<longleftrightarrow> (\<forall>w v. set_option (ef_read f w) \<subseteq> E t w \<and> E t (ef_write f v w) \<subseteq> E t w \<union> set_option v \<and>
     (\<forall>s. C t (ef_write f v w) s \<subseteq> C t w s \<union> set_option v))"

definition scalar_field_ok :: "'o edge_map \<Rightarrow> ('o, 's) cover_map \<Rightarrow> nat \<Rightarrow> ('o, 'v) scalar_field \<Rightarrow> bool" where
  "scalar_field_ok E C t f \<longleftrightarrow> (\<forall>w v. E t (sf_write f v w) = E t w \<and> (\<forall>s. C t (sf_write f v w) s = C t w s))"

text \<open>The handle is one of the type \<open>t\<close>.\<close>

definition handle_type :: "('o, 's) gc_heap \<Rightarrow> nat \<Rightarrow> nat \<Rightarrow> bool" where
  "handle_type H a t \<longleftrightarrow> (\<exists>d. descriptor_at (gphysical H) a = Some d \<and> descriptor_type d = Some t)"

section \<open>Handles\<close>

lemma secured_usable: "secured H \<subseteq> usable H" "usable H \<subseteq> live_set (gphysical H)"
  using found_live by (auto simp: secured_def usable_def split: phase.splits)

lemma carries_refl [simp]: "carries H H"
  by (simp add: carries_def)

lemma carries_trans: "carries H H' \<Longrightarrow> carries H' H'' \<Longrightarrow> carries H H''"
  by (auto simp: carries_def)

lemma carries_cong: "gphysical H' = gphysical H \<Longrightarrow> gmarking H' = gmarking H \<Longrightarrow> gid H' = gid H \<Longrightarrow> carries H H'"
  unfolding carries_def usable_def secured_def by (simp split: phase.splits)

lemma carries_marks:
  assumes "same_objects (gphysical H) (gphysical H')" "mphase (gmarking H') = mphase (gmarking H)" "mepoch (gmarking H') = mepoch (gmarking H)" "gid H' = gid H"
    "found_set (gphysical H) (mepoch (gmarking H)) \<subseteq> found_set (gphysical H') (mepoch (gmarking H))"
    "black_set (gphysical H) (mepoch (gmarking H)) \<subseteq> black_set (gphysical H') (mepoch (gmarking H))"
  shows "carries H H'"
  using assms same_objects_view [OF assms(1)] unfolding carries_def usable_def secured_def by (auto split: phase.splits)

context collector
begin

text \<open>Objects that the mutator publishes are discovered; nothing else changes.\<close>

lemma discover_inv:
  assumes inv: "gc_inv P E C S D H r" and ph: "mphase (gmarking H) \<in> {phase.Roots, Mark}"
    and v: "scanned V (visitor H) v" "V \<subseteq> live_set (gphysical H)" "heap_inv (physical v)" "mark_inv (active_slots H) v"
  shows "gc_inv P E C S D (visited v H) r" "carries H (visited v H)" "V \<subseteq> secured (visited v H)"
proof -
  let ?h = "gphysical H" and ?e = "mepoch (gmarking H)"
  have I: "heap_inv ?h" "uses_ok [] ?h" "typed_objects P ?h (gobjects H)" "roots_inv (groots H)" "connected (released (groots H))" "rheap (groots H) = gid H"
    "tricolour E H" using inv ph by (auto simp: gc_inv_def phase_inv_def Let_def)
  note N = discovery [OF I(1,3) v(1,2) I(7)]
  note W = same_objects_view [OF N(3)]
  have as: "active_slots (visited v H) = active_slots H" using N(3) by (simp add: active_slots_def same_objects_def split: option.splits)
  have b: "black_set ?h ?e \<subseteq> black_set (physical v) ?e" using scanned_sets(2) [OF v(1) _ refl] v(2) I(1) by auto
  have cur: "cursor_ok (visited v H) = cursor_ok H" by (simp add: cursor_ok_def)
  have ac: "active_ok C (visited v H) ac" if "active_ok C H ac" for ac
    using that W(1,5) N(2,5) by (auto simp: active_ok_def)
  have "phase_inv E C S D (visited v H) r"
  proof (cases "mphase (gmarking H) = Mark")
    case True
    then have "gc_roots S H r \<subseteq> found_set ?h ?e" "\<And>ac. gactive H = Some ac \<Longrightarrow> active_ok C H ac" "closed_in (edges_at E ?h (gobjects H)) (live_set ?h)"
      using inv by (simp_all add: gc_inv_def phase_inv_def Let_def)
    then show ?thesis using True N(1,2,4,5) ac by (auto simp: phase_inv_def Let_def gc_roots_def closed_in_def W(2,5))
  next
    case False
    then have r: "mphase (gmarking H) = phase.Roots" using ph by simp
    then have "gc_roots S H r \<subseteq> live_set ?h" "cursor_ok H" "gactive H = None" "closed_in (edges_at E ?h (gobjects H)) (live_set ?h)"
      "passed_roots (groot_cursor H) (groots H) \<union> passed_source S D r \<subseteq> found_set ?h ?e"
      using inv by (simp_all add: gc_inv_def phase_inv_def Let_def)
    then show ?thesis using r N(1,2,4,5) cur by (auto simp: phase_inv_def Let_def gc_roots_def closed_in_def W(2,5))
  qed
  then show "gc_inv P E C S D (visited v H) r" using I v(3,4) by (simp add: gc_inv_def as W(3,4))
  show "carries H (visited v H)" by (rule carries_marks) (use N b in auto)
  show "V \<subseteq> secured (visited v H)" using N ph by (auto simp: secured_def)
qed

lemma inv_base:
  assumes "gc_inv P E C S D H r"
  shows "heap_inv (gphysical H)" "uses_ok [] (gphysical H)" "typed_objects P (gphysical H) (gobjects H)" "mark_inv (active_slots H) (visitor H)"
    "roots_inv (groots H)" "connected (released (groots H))" "rheap (groots H) = gid H" "phase_inv E C S D H r"
    "mphase (gmarking H) \<in> {Idle, phase.Roots, Mark, Sweep}" "marking_check (gmarking H) = Ok ()"
  using assms inv_phase [OF assms] by (auto simp: gc_inv_def marking_check_Ok)

text \<open>Publication by the mutator, in any phase.\<close>

lemma publish_any:
  assumes inv: "gc_inv P E C S D H r" and a: "a \<in> usable H" and p: "publish a None (visitor H) = (x, b, v)"
  shows "gc_inv P E C S D (visited v H) r" "carries H (visited v H)" "x = Ok Complete \<and> a \<in> secured (visited v H) \<or> x = Err (Limit ''publication work'')"
proof -
  note B = inv_base [OF inv]
  have al: "a \<in> live_set (gphysical H)" using a secured_usable(2) by blast
  then obtain i s where s: "slot_at (gphysical H) i s = Occupied" "slot_address (gphysical H) i s = Some a" by (auto simp: live_set_def)
  have goal: "gc_inv P E C S D (visited v H) r \<and> carries H (visited v H) \<and> (x = Ok Complete \<and> a \<in> secured (visited v H) \<or> x = Err (Limit ''publication work''))"
  proof (cases "mphase (gmarking H) \<in> {phase.Roots, Mark}")
    case True
    have P: "(x = Ok Complete \<and> scanned {a} (visitor H) v \<or> x = Err (Limit ''publication work'') \<and> v = visitor H) \<and> heap_inv (physical v) \<and> mark_inv (active_slots H) v"
      using publish_scanned [of "visitor H" "active_slots H" a None x b v] B(1,4) True al p by auto
    then show ?thesis
    proof (elim conjE disjE)
      assume "x = Ok Complete" "scanned {a} (visitor H) v" "heap_inv (physical v)" "mark_inv (active_slots H) v"
      then show ?thesis using discover_inv [OF inv True, of "{a}" v] al by simp
    qed (use inv in simp)
  next
    case False
    then consider (i) "mphase (gmarking H) = Idle" | (s) "mphase (gmarking H) = Sweep" using B(9) by auto
    then show ?thesis
    proof cases
      case i
      then show ?thesis using publish_idle [of "visitor H" i s a None] B(1) s p inv al by (simp add: secured_def)
    next
      case sw: s
      have "a \<in> black_set (gphysical H) (mepoch (gmarking H))" using a sw by (simp add: usable_def)
      then have "black_at (gphysical H) (mepoch (gmarking H)) i s" using address_inj [OF B(1) s(2)] unfolding black_set_def by blast
      then show ?thesis using publish_sweep [of "visitor H" i s a None] B(1) s p inv sw a by (simp add: secured_def usable_def)
    qed
  qed
  then show "gc_inv P E C S D (visited v H) r" "carries H (visited v H)" "x = Ok Complete \<and> a \<in> secured (visited v H) \<or> x = Err (Limit ''publication work'')" by auto
qed

lemma heap_publish_ok:
  assumes "gc_inv P E C S D H r" "a \<in> usable H" "heap_publish a H = (x, H')"
  shows "gc_inv P E C S D H' r" "carries H H'" "x = Ok () \<and> a \<in> secured H' \<or> x = Err (Limit ''publication work'')" "\<exists>v. H' = visited v H"
proof -
  obtain y b v where p: "publish a None (visitor H) = (y, b, v)" by (cases "publish a None (visitor H)")
  then have e: "H' = visited v H" "x = and_then y (\<lambda>_. Ok ())" using assms(3) by (auto simp: heap_publish_def)
  from publish_any [OF assms(1,2) p] show "gc_inv P E C S D H' r" "carries H H'" "x = Ok () \<and> a \<in> secured H' \<or> x = Err (Limit ''publication work'')"
    "\<exists>v. H' = visited v H" using e by auto
qed

lemma scope_publish_ok:
  assumes inv: "gc_inv P E C S D H r" and a: "a \<in> usable H" and p: "scope_publish a H = (x, H')"
  shows "x = Ok a \<and> gc_inv P E C S D H' r \<and> carries H H' \<and> a \<in> secured H' \<and> (\<exists>v. H' = visited v H)
    \<or> x = Err (Limit ''publication work'') \<and> mphase (gmarking H') = Faulted"
proof (cases "mphase (gmarking H) = Idle")
  case True
  then show ?thesis using p inv a by (auto simp: scope_publish_def secured_def usable_def intro: exI [of _ "visitor H"])
next
  case False
  obtain y b v where q: "publish a None (visitor H) = (y, b, v)" by (cases "publish a None (visitor H)")
  then have q': "publish_admitted a None (visitor H) = (y, b, v)" using inv_base(10) [OF inv] by (simp add: publish_def)
  from publish_any [OF inv a q] show ?thesis using p False q' by (auto simp: scope_publish_def set_phase_def)
qed

end

section \<open>Writing objects, roots and sources\<close>

context collector
begin

text \<open>
  A write may add references to \<open>X\<close>, which is secured, to the edges of the object and to those
  that a suspended scan of it counts as covered.
\<close>

lemma write_any:
  assumes inv: "gc_inv P E C S D H r" and X: "X \<subseteq> secured H"
    and a: "gobjects H a = Some x" "descriptor_at (gphysical H) a = Some d"
    and x': "payload_fits (desc_rep d) x'" "payload_edges E d x' \<subseteq> payload_edges E d x \<union> X"
      "\<And>ac. gactive H = Some ac \<Longrightarrow> aowner ac = a \<Longrightarrow> \<not> restart ac \<Longrightarrow> payload_covered C d x' (gworkspace H) \<subseteq> payload_covered C d x (gworkspace H) \<union> X"
  shows "gc_inv P E C S D (write_object a x' H) r" "carries H (write_object a x' H)"
proof -
  let ?H = "write_object a x' H" let ?h = "gphysical H" and ?e = "mepoch (gmarking H)"
  note B = inv_base [OF inv]
  have sel: "gphysical ?H = ?h" "gmarking ?H = gmarking H" "groots ?H = groots H" "gactive ?H = gactive H" "gid ?H = gid H" "groot_cursor ?H = groot_cursor H"
    "gsweep ?H = gsweep H" "gobjects ?H = (gobjects H)(a \<mapsto> x')" "gworkspace ?H = gworkspace H" "visitor ?H = visitor H" by (simp_all add: write_object_def visitor_def)
  show "carries H ?H" by (rule carries_cong) (simp_all add: sel)
  have ed: "edges_at E ?h (gobjects ?H) b \<subseteq> edges_at E ?h (gobjects H) b \<union> (if b = a then X else {})" for b
    using a x'(2) by (auto simp: edges_at_def sel split: option.splits)
  have ty: "typed_objects P ?h (gobjects ?H)" using B(3) a x'(1) by (auto simp: typed_objects_def sel)
  have as: "active_slots ?H = active_slots H" by (simp add: active_slots_def sel split: option.splits)
  have roots: "gc_roots S ?H r = gc_roots S H r" "cursor_ok ?H = cursor_ok H" "sweep_inv ?H = sweep_inv H"
    unfolding gc_roots_def cursor_ok_def sweep_inv_def Let_def sel by (rule refl)+
  have cl: "closed_in (edges_at E ?h (gobjects ?H)) Y" if "closed_in (edges_at E ?h (gobjects H)) Y" "X \<subseteq> Y" for Y
    using that ed unfolding closed_in_def by (fastforce split: if_splits)
  have tri: "tricolour E ?H" if "tricolour E H" "X \<subseteq> found_set ?h ?e"
    using that ed unfolding tricolour_def sel by (fastforce split: if_splits)
  have ac: "active_ok C ?H w" if w: "active_ok C H w" "X \<subseteq> found_set ?h ?e" "gactive H = Some w" for w
  proof -
    have "payload_covered C (adescriptor w) y (gworkspace H) \<subseteq> found_set ?h ?e"
      if "((gobjects H)(a \<mapsto> x')) (aowner w) = Some y" "\<not> restart w" for y
    proof (cases "aowner w = a")
      case True
      then have "y = x'" "adescriptor w = d" "payload_covered C d x (gworkspace H) \<subseteq> found_set ?h ?e"
        using that w a by (auto simp: active_ok_def)
      then show ?thesis using x'(3) [OF w(3) True that(2)] w(2) by blast
    qed (use that w in \<open>auto simp: active_ok_def\<close>)
    then show ?thesis using w(1) by (simp add: active_ok_def sel)
  qed
  have "phase_inv E C S D ?H r"
  proof (cases "mphase (gmarking H)")
    case Idle
    then show ?thesis using B(8) X cl by (simp add: phase_inv_def secured_def sel roots Let_def)
  next
    case Roots
    then have "X \<subseteq> found_set ?h ?e" using X by (simp add: secured_def)
    then show ?thesis using B(8) Roots cl tri found_live(1) [of ?h ?e] by (simp add: phase_inv_def sel roots Let_def)
  next
    case Mark
    then have "X \<subseteq> found_set ?h ?e" using X by (simp add: secured_def)
    then show ?thesis using B(8) Mark cl tri ac found_live(1) [of ?h ?e] by (simp add: phase_inv_def sel roots Let_def)
  next
    case Sweep
    then show ?thesis using B(8) X cl by (simp add: phase_inv_def secured_def sel roots Let_def)
  qed (use B(9) in auto)
  then show "gc_inv P E C S D ?H r" using B ty by (simp add: gc_inv_def sel as)
qed

lemma write_inv:
  assumes inv: "gc_inv P E C S D H r" and X: "X \<subseteq> secured H"
    and a: "gobjects H a = Some x" "descriptor_at (gphysical H) a = Some d"
    and x': "payload_fits (desc_rep d) x'" "payload_edges E d x' \<subseteq> payload_edges E d x \<union> X"
      "\<And>st. payload_covered C d x' st \<subseteq> payload_covered C d x st \<union> X"
  shows "gc_inv P E C S D (write_object a x' H) r" "carries H (write_object a x' H)"
  using write_any [OF inv X a x'(1,2)] x'(3) by blast+

text \<open>A change of the host roots that adds only secured targets.\<close>

lemma roots_inv_step:
  assumes inv: "gc_inv P E C S D H r" and X: "X \<subseteq> secured H"
    and rs: "roots_inv rs" "connected (released rs)" "rheap rs = gid H" "host_roots rs \<subseteq> host_roots (groots H) \<union> X"
    and scan: "mphase (gmarking H) = phase.Roots \<Longrightarrow> cursor_ok (H\<lparr>groots := rs\<rparr>)"
      "mphase (gmarking H) = phase.Roots \<Longrightarrow> passed_roots (groot_cursor H) rs \<subseteq> passed_roots (groot_cursor H) (groots H) \<union> X"
    and sweep: "pending_releases (groots H) \<le> pending_releases rs"
  shows "gc_inv P E C S D (H\<lparr>groots := rs\<rparr>) r" "carries H (H\<lparr>groots := rs\<rparr>)"
proof -
  let ?H = "H\<lparr>groots := rs\<rparr>" let ?h = "gphysical H" and ?e = "mepoch (gmarking H)"
  note B = inv_base [OF inv]
  show "carries H ?H" by (rule carries_cong) simp_all
  have sel: "visitor ?H = visitor H" "active_slots ?H = active_slots H" by (simp_all add: visitor_def active_slots_def split: option.splits)
  have view: "tricolour E ?H = tricolour E H" "active_ok C ?H = active_ok C H"
    by (auto simp: tricolour_def active_ok_def fun_eq_iff)
  have gr: "gc_roots S ?H r \<subseteq> gc_roots S H r \<union> X" using rs(4) by (auto simp: gc_roots_def)
  have sw: "sweep_inv ?H" if "sweep_inv H" using that sweep unfolding sweep_inv_def Let_def by (auto split: sweep_stage.splits)
  have "phase_inv E C S D ?H r"
  proof (cases "mphase (gmarking H)")
    case Idle
    then have "X \<subseteq> live_set ?h" using X by (simp add: secured_def)
    then show ?thesis using B(8) gr Idle unfolding phase_inv_def Let_def by auto
  next
    case Roots
    then have "X \<subseteq> found_set ?h ?e" using X by (simp add: secured_def)
    moreover have "gc_roots S H r \<subseteq> live_set ?h" "passed_roots (groot_cursor H) (groots H) \<union> passed_source S D r \<subseteq> found_set ?h ?e"
      using B(8) Roots by (simp_all add: phase_inv_def Let_def)
    ultimately have "gc_roots S ?H r \<subseteq> live_set ?h" "passed_roots (groot_cursor H) rs \<union> passed_source S D r \<subseteq> found_set ?h ?e"
      using Roots gr scan(2) found_live(1) [of ?h ?e] by blast+
    then show ?thesis using B(8) Roots scan(1) view unfolding phase_inv_def Let_def by simp
  next
    case Mark
    then have "X \<subseteq> found_set ?h ?e" using X by (simp add: secured_def)
    then show ?thesis using B(8) gr Mark view unfolding phase_inv_def Let_def by auto
  next
    case Sweep
    then have "X \<subseteq> black_set ?h ?e" using X by (simp add: secured_def)
    then show ?thesis using B(8) gr Sweep sw unfolding phase_inv_def Let_def by auto
  qed (use B(9) in auto)
  then show "gc_inv P E C S D ?H r" using B rs by (simp add: gc_inv_def sel)
qed

text \<open>A change of the driver's roots that adds only secured targets and keeps what its cursor covers.\<close>

lemma source_inv_step:
  assumes inv: "gc_inv P E C S D H r" and X: "X \<subseteq> secured H"
    and r': "source_roots S r' \<subseteq> source_roots S r \<union> X" "passed_source S D r' \<subseteq> passed_source S D r \<union> X"
  shows "gc_inv P E C S D H r'"
proof -
  let ?h = "gphysical H" and ?e = "mepoch (gmarking H)"
  note B = inv_base [OF inv]
  have gr: "gc_roots S H r' \<subseteq> gc_roots S H r \<union> X" using r'(1) by (auto simp: gc_roots_def)
  have "phase_inv E C S D H r'"
  proof (cases "mphase (gmarking H)")
    case Idle
    then have "X \<subseteq> live_set ?h" using X by (simp add: secured_def)
    then show ?thesis using B(8) gr Idle unfolding phase_inv_def Let_def by auto
  next
    case Roots
    then have "X \<subseteq> found_set ?h ?e" using X by (simp add: secured_def)
    moreover have "gc_roots S H r \<subseteq> live_set ?h" "passed_roots (groot_cursor H) (groots H) \<union> passed_source S D r \<subseteq> found_set ?h ?e"
      using B(8) Roots by (simp_all add: phase_inv_def Let_def)
    ultimately have "gc_roots S H r' \<subseteq> live_set ?h" "passed_roots (groot_cursor H) (groots H) \<union> passed_source S D r' \<subseteq> found_set ?h ?e"
      using gr r'(2) found_live(1) [of ?h ?e] by blast+
    then show ?thesis using B(8) Roots unfolding phase_inv_def Let_def by simp
  next
    case Mark
    then have "X \<subseteq> found_set ?h ?e" using X by (simp add: secured_def)
    then show ?thesis using B(8) gr Mark unfolding phase_inv_def Let_def by auto
  next
    case Sweep
    then have "X \<subseteq> black_set ?h ?e" using X by (simp add: secured_def)
    then show ?thesis using B(8) gr Sweep unfolding phase_inv_def Let_def by auto
  qed (use B(9) in auto)
  then show ?thesis using B by (simp add: gc_inv_def)
qed

end

section \<open>Registrations\<close>

lemma growsD:
  assumes "grows X rs rs'"
  shows "roots_inv rs' \<Longrightarrow> roots_inv rs \<Longrightarrow> host_roots rs' \<subseteq> host_roots rs \<union> X"
    "passed_roots c rs' \<subseteq> passed_roots c rs \<union> X"
    "cursor_ok H \<Longrightarrow> groots H = rs \<Longrightarrow> cursor_ok (H\<lparr>groots := rs'\<rparr>)"
proof -
  obtain ys where ys: "ractive rs' = ractive rs @ ys" using assms by (auto simp: grows_def)
  have T: "a \<in> X \<or> k < length (ractive rs) \<and> (\<exists>t. registration rs (ractive rs ! k) = Some t \<and> 0 < strong rs (elease (entry t)) \<and>
          j < length (targets (entry t)) \<and> targets (entry t) ! j = Some a)"
    if "k < length (ractive rs')" "registration rs' (ractive rs' ! k) = Some s" "0 < strong rs' (elease (entry s))"
       "j < length (targets (entry s))" "targets (entry s) ! j = Some a" for k s j a
    using assms that unfolding grows_def by blast
  show "host_roots rs' \<subseteq> host_roots rs \<union> X" if "roots_inv rs'" "roots_inv rs"
  proof
    fix a assume "a \<in> host_roots rs'"
    from held_passed [OF that(1) this] T show "a \<in> host_roots rs \<union> X" unfolding host_roots_def by (metis (mono_tags, lifting) UnI1 UnI2 mem_Collect_eq nth_mem)
  qed
  show "passed_roots c rs' \<subseteq> passed_roots c rs \<union> X"
  proof
    fix a assume "a \<in> passed_roots c rs'"
    then obtain k s j where k: "k < length (ractive rs')" "registration rs' (ractive rs' ! k) = Some s" "0 < strong rs' (elease (entry s))"
      "j < length (targets (entry s))" "targets (entry s) ! j = Some a" "passed_target c k j" unfolding passed_roots_def by blast
    from T [OF k(1-5)] show "a \<in> passed_roots c rs \<union> X" using k(6) unfolding passed_roots_def by blast
  qed
  show "cursor_ok (H\<lparr>groots := rs'\<rparr>)" if c: "cursor_ok H" "groots H = rs"
  proof -
    let ?c = "groot_cursor H"
    have e: "rc_end ?c \<le> length (ractive rs)" using c by (simp add: cursor_ok_def Let_def)
    have "\<exists>s. registration rs' (ractive rs' ! rc_next ?c) = Some s \<and> rc_active ?c = Some \<lparr>id_heap = gid H, id_slot = ractive rs' ! rc_next ?c, id_generation = generation s\<rparr>"
      if "rc_next ?c < rc_end ?c" "registration rs (ractive rs ! rc_next ?c) = Some t"
        "rc_active ?c = Some \<lparr>id_heap = gid H, id_slot = ractive rs ! rc_next ?c, id_generation = generation t\<rparr>" for t
    proof -
      have l: "rc_next ?c < length (ractive rs)" using that(1) e by simp
      then have "map_option generation (registration rs' (ractive rs ! rc_next ?c)) = Some (generation t)" using assms that(2) unfolding grows_def by simp
      then show ?thesis using that(3) l ys by (auto simp: nth_append)
    qed
    then show ?thesis using c e ys unfolding cursor_ok_def Let_def by auto
  qed
qed

lemma grows_same:
  assumes "ractive rs' = ractive rs" "\<And>i. registration rs' i = registration rs i"
    "\<And>i s. registration rs i = Some s \<Longrightarrow> 0 < strong rs' (elease (entry s)) \<Longrightarrow> 0 < strong rs (elease (entry s))"
  shows "grows {} rs rs'"
  using assms unfolding grows_def by auto

lemma grows_commit:
  assumes inv: "roots_inv rs" and i: "registration rs i = None" and rs': "ractive rs' = ractive rs @ [i]" "strong rs' = strong rs"
    "\<And>j. registration rs' j = (if j = i then Some \<lparr>generation = g, entry = e\<lparr>targets := first_target target (replicate n None)\<rparr>\<rparr> else registration rs j)"
  shows "grows (set_option target) rs rs'"
proof -
  have ni: "ractive rs ! k \<noteq> i" if "k < length (ractive rs)" for k using roots_invD(3) [OF inv] i that by (metis nth_mem)
  have ft: "first_target target (replicate n None) ! j = Some a \<Longrightarrow> j < length (first_target target (replicate n None)) \<Longrightarrow> target = Some a" for j a
    by (cases n; cases j) (auto simp: first_target_def)
  show ?thesis unfolding grows_def
  proof (intro conjI allI impI)
    show "\<exists>ys. ractive rs' = ractive rs @ ys" using rs'(1) by blast
    show "map_option generation (registration rs' (ractive rs ! k)) = map_option generation (registration rs (ractive rs ! k))"
      if "k < length (ractive rs)" for k using ni [OF that] rs'(3) by simp
    fix k s j a assume a: "k < length (ractive rs')" "registration rs' (ractive rs' ! k) = Some s" "0 < strong rs' (elease (entry s))"
      "j < length (targets (entry s))" "targets (entry s) ! j = Some a"
    show "a \<in> set_option target \<or> k < length (ractive rs) \<and> (\<exists>t. registration rs (ractive rs ! k) = Some t \<and> 0 < strong rs (elease (entry t)) \<and>
          j < length (targets (entry t)) \<and> targets (entry t) ! j = Some a)"
    proof (cases "k < length (ractive rs)")
      case True
      then show ?thesis using a rs' ni [OF True] by (auto simp: nth_append)
    next
      case False
      then have "ractive rs' ! k = i" using a(1) rs'(1) by (auto simp: nth_append)
      then show ?thesis using a rs'(3) ft by auto
    qed
  qed
qed

lemma grows_replace:
  assumes "ractive rs' = ractive rs" "strong rs' = strong rs"
    "\<And>i. registration rs' i = (if i = i0 then map_option (set_target n target) (registration rs i) else registration rs i)"
  shows "grows (set_option target) rs rs'"
proof -
  have g: "map_option generation (registration rs' i) = map_option generation (registration rs i)" for i
    by (simp add: assms(3) set_target_def option.map_comp comp_def)
  have t: "a \<in> set_option target \<or> (\<exists>t. registration rs i = Some t \<and> 0 < strong rs (elease (entry t)) \<and> j < length (targets (entry t)) \<and> targets (entry t) ! j = Some a)"
    if a: "registration rs' i = Some s" "0 < strong rs' (elease (entry s))" "j < length (targets (entry s))" "targets (entry s) ! j = Some a" for i s j a
  proof (cases "i = i0")
    case True
    then obtain u where u: "registration rs i = Some u" "s = set_target n target u" using a(1) assms(3) by auto
    then show ?thesis using a(2-4) assms(2) by (cases "j = n") (auto simp: set_target_def)
  qed (use a assms in auto)
  show ?thesis unfolding grows_def using assms(1) g t by auto
qed

context collector
begin

lemma grows_inv:
  assumes inv: "gc_inv P E C S D H r" and X: "X \<subseteq> secured H" and rs: "grows X (groots H) rs" "roots_inv rs" "connected (released rs)" "rheap rs = gid H"
    and pend: "pending_releases (groots H) \<le> pending_releases rs"
  shows "gc_inv P E C S D (H\<lparr>groots := rs\<rparr>) r" "carries H (H\<lparr>groots := rs\<rparr>)"
proof -
  note B = inv_base [OF inv]
  have c: "cursor_ok H" if "mphase (gmarking H) = phase.Roots" using B(8) that by (simp add: phase_inv_def Let_def)
  show "gc_inv P E C S D (H\<lparr>groots := rs\<rparr>) r" "carries H (H\<lparr>groots := rs\<rparr>)"
    using roots_inv_step [OF inv X rs(2-4) growsD(1) [OF rs(1,2) B(5)] growsD(3) [OF rs(1) c refl] growsD(2) [OF rs(1)] pend] by blast+
qed

text \<open>Handles of roots are cloned and dropped between any two operations.\<close>

lemma lease_clone_gc:
  assumes "gc_inv P E C S D H r" "0 < strong (groots H) (lease_ptr l)"
  shows "gc_inv P E C S D (H\<lparr>groots := lease_clone l (groots H)\<rparr>) r" "carries H (H\<lparr>groots := lease_clone l (groots H)\<rparr>)"
proof -
  note B = inv_base [OF assms(1)]
  have g: "grows {} (groots H) (lease_clone l (groots H))"
    by (rule grows_same) (use assms(2) in \<open>auto simp: lease_clone_def registration_def split: if_splits\<close>)
  show "gc_inv P E C S D (H\<lparr>groots := lease_clone l (groots H)\<rparr>) r" "carries H (H\<lparr>groots := lease_clone l (groots H)\<rparr>)"
    using grows_inv [OF assms(1) _ g lease_clone_inv [OF B(5) assms(2)]] B(6,7) by (auto simp: lease_clone_def pending_releases_def)
qed

lemma lease_drop_gc:
  assumes inv: "gc_inv P E C S D H r" and l: "issued l (groots H)" "0 < strong (groots H) (lease_ptr l)" and run: "lease_drop l (groots H) = (x, rs)"
  shows "x = Ok ()" "gc_inv P E C S D (H\<lparr>groots := rs\<rparr>) r" "carries H (H\<lparr>groots := rs\<rparr>)"
proof -
  note B = inv_base [OF inv]
  from lease_drop_ok [OF B(5,6) l] run have d: "x = Ok ()" "roots_inv rs" "connected (released rs)" "\<And>i. registration rs i = registration (groots H) i"
    "rheap rs = rheap (groots H)" "ractive rs = ractive (groots H)" "strong rs = (strong (groots H))(lease_ptr l := strong (groots H) (lease_ptr l) - 1)"
    "notices (released rs) = notices (released (groots H)) @ (if strong (groots H) (lease_ptr l) = 1 then [lease_id l] else [])" by auto
  have g: "grows {} (groots H) rs" by (rule grows_same) (use d(4,6,7) l in \<open>auto split: if_splits\<close>)
  show "x = Ok ()" by (rule d)
  show "gc_inv P E C S D (H\<lparr>groots := rs\<rparr>) r" "carries H (H\<lparr>groots := rs\<rparr>)"
    using grows_inv [OF inv _ g d(2,3)] d(5,8) B(7) by (auto simp: pending_releases_def)
qed

lemma prepare_root_ok:
  assumes inv: "gc_inv P E C S D H r" and fresh: "fresh_lease ptr (groots H)" and run: "prepare_root mem slack ptr count ty H = (x, H')"
  shows "gc_inv P E C S D H' r" "carries H H'" "\<exists>rs. H' = H\<lparr>groots := rs\<rparr>"
    "(\<exists>p. x = Ok p \<and> preparing p ptr count (groots H')) \<or> (\<exists>e. x = Err e)"
proof -
  note B = inv_base [OF inv]
  from run obtain rs where rs: "roots_prepare mem slack ptr count ty (max_roots (gconfig H)) (groots H) = (x, rs)" "H' = H\<lparr>groots := rs\<rparr>"
    by (auto simp: prepare_root_def split: prod.splits)
  note R = roots_prepare_ok [OF B(5,6) fresh, of mem slack count ty "max_roots (gconfig H)"]
  have f: "elease (entry s) \<noteq> ptr" if "registration (groots H) i = Some s" for i s using fresh that by (simp add: fresh_lease_def)
  have g: "grows {} (groots H) rs" by (rule grows_same) (use R rs(1) f in \<open>auto split: if_splits\<close>)
  have k: "roots_inv rs" "connected (released rs)" "rheap rs = gid H" "pending_releases rs = pending_releases (groots H)"
    using R rs(1) B(7) by (auto simp: pending_releases_def)
  show "gc_inv P E C S D H' r" "carries H H'" "\<exists>rs. H' = H\<lparr>groots := rs\<rparr>"
    using grows_inv [OF inv _ g k(1-3)] k(4) rs(2) by auto
  show "(\<exists>p. x = Ok p \<and> preparing p ptr count (groots H')) \<or> (\<exists>e. x = Err e)"
    using R rs by (auto simp: preparing_def)
qed

lemma commit_root_ok:
  assumes inv: "gc_inv P E C S D H r" and p: "preparing p ptr count (groots H)" and t: "set_option target \<subseteq> secured H" and run: "commit_root p target H = (x, H')"
  shows "x = Ok (prep_lease p)" "gc_inv P E C S D H' r" "carries H H'" "issued (prep_lease p) (groots H')" "0 < strong (groots H') (lease_ptr (prep_lease p))"
    "\<exists>rs. H' = H\<lparr>groots := rs\<rparr>"
proof -
  note B = inv_base [OF inv]
  have q: "prepared_ok p (groots H)" "length (ractive (groots H)) < acapacity (groots H)" "targets (prep_entry p) = replicate count None"
    "registration (groots H) (id_slot (lease_id (prep_lease p))) = None" "0 < strong (groots H) (lease_ptr (prep_lease p))"
    using p by (auto simp: preparing_def prepared_ok_def Let_def)
  from run obtain rs where rs: "roots_commit p target (groots H) = (x, rs)" "H' = H\<lparr>groots := rs\<rparr>" by (auto simp: commit_root_def split: prod.splits)
  from roots_commit_ok [OF B(5,6) q(1,2), of target] rs(1) have c: "x = Ok (prep_lease p)" "roots_inv rs" "connected (released rs)" "rheap rs = rheap (groots H)"
    "issued (prep_lease p) rs" "ractive rs = ractive (groots H) @ [id_slot (lease_id (prep_lease p))]" "strong rs = strong (groots H)"
    "notices (released rs) = notices (released (groots H))"
    "\<And>i. registration rs i = (if i = id_slot (lease_id (prep_lease p)) then Some \<lparr>generation = id_generation (lease_id (prep_lease p)),
        entry = (prep_entry p)\<lparr>targets := first_target target (targets (prep_entry p))\<rparr>\<rparr> else registration (groots H) i)" by auto
  have g: "grows (set_option target) (groots H) rs" by (rule grows_commit [OF B(5) q(4) c(6,7), where e = "prep_entry p" and n = count and g = "id_generation (lease_id (prep_lease p))"]) (simp add: c(9) q(3))
  show "x = Ok (prep_lease p)" "issued (prep_lease p) (groots H')" "\<exists>rs. H' = H\<lparr>groots := rs\<rparr>" using c rs(2) by auto
  show "0 < strong (groots H') (lease_ptr (prep_lease p))" using c(7) q(5) rs(2) by simp
  show "gc_inv P E C S D H' r" "carries H H'" using grows_inv [OF inv t g c(2,3)] c(4,8) B(7) rs(2) by (auto simp: pending_releases_def)
qed

lemma abandon_root_ok:
  assumes inv: "gc_inv P E C S D H r" and p: "preparing p ptr count (groots H)"
  shows "gc_inv P E C S D (abandon_root p H) r" "carries H (abandon_root p H)"
proof -
  note B = inv_base [OF inv]
  let ?rs = "(groots H)\<lparr>strong := (strong (groots H))(ptr := 0)\<rparr>"
  have q: "fresh_lease ptr (groots H)" "\<not> armed (groots H) ptr" "strong (groots H) ptr = 1" "lease_ptr (prep_lease p) = ptr"
    using p by (auto simp: preparing_def prepared_ok_def Let_def)
  have a: "abandon_root p H = H\<lparr>groots := ?rs\<rparr>" using q by (simp add: abandon_root_def lease_drop_def lease_dropped_def Let_def)
  have f: "elease (entry s) \<noteq> ptr" if "registration (groots H) i = Some s" for i s using q(1) that by (simp add: fresh_lease_def)
  have ri: "roots_inv ?rs" by (rule roots_inv_cong [OF B(5)]) (use f roots_invD [OF B(5)] port_invD [OF roots_invD(7) [OF B(5)] B(6)] in \<open>auto simp: registration_def\<close>)
  have g: "grows {} (groots H) ?rs" by (rule grows_same) (use f in \<open>auto simp: registration_def split: if_splits\<close>)
  show "gc_inv P E C S D (abandon_root p H) r" "carries H (abandon_root p H)"
    using grows_inv [OF inv _ g ri] B(6,7) unfolding a by (auto simp: pending_releases_def)
qed

end

section \<open>Operations on roots\<close>

lemma heap_then_cases:
  assumes "heap_then m f H = (y, H')"
  obtains x H1 where "m H = (Ok x, H1)" "f x H1 = (y, H')" | e where "m H = (Err e, H')" "y = Err e" | q where "m H = (Panic q, H')" "y = Panic q"
  using assms unfolding heap_then_def by (auto split: prod.splits outcome.splits)

lemma heap_reads_eq [simp]: "heap_reads f H = (f H, H)"
  by (simp add: heap_reads_def)

lemma held_root:
  assumes "roots_admit l rs = Ok e" "0 < strong rs (lease_ptr l)" "Some a \<in> set (targets e)"
  shows "a \<in> host_roots rs"
  using assms by (auto simp: roots_admit_def host_roots_def registration_def split: if_splits option.splits) (metis)

lemma entry_target_in: "entry_target n e = Ok a \<Longrightarrow> Some a \<in> set (targets e)"
  by (auto simp: entry_target_def split: if_splits) (metis nth_mem)

lemma typed_root_in:
  assumes "typed_root T l H = Ok a" "0 < strong (groots H) (lease_ptr l)"
  shows "a \<in> host_roots (groots H)"
proof -
  from assms(1) obtain e where e: "roots_admit l (groots H) = Ok e" "Some a \<in> set (targets e)"
    by (auto simp: typed_root_def roots_target_def split: if_splits list.splits)
  from held_root [OF e(1) assms(2) e(2)] show ?thesis .
qed

context collector
begin

lemma roots_usable:
  assumes "gc_inv P E C S D H r"
  shows "gc_roots S H r \<subseteq> usable H" "host_roots (groots H) \<subseteq> usable H"
proof -
  show g: "gc_roots S H r \<subseteq> usable H" using inv_base(8,9) [OF assms] found_live(1) [of "gphysical H" "mepoch (gmarking H)"]
    unfolding usable_def phase_inv_def Let_def subset_iff by auto
  then show "host_roots (groots H) \<subseteq> usable H" by (simp add: gc_roots_def)
qed

lemma edges_usable:
  assumes "gc_inv P E C S D H r" "a \<in> usable H"
  shows "edges_at E (gphysical H) (gobjects H) a \<subseteq> usable H"
proof -
  have "closed_in (edges_at E (gphysical H) (gobjects H)) (usable H)"
    using inv_base(8,9) [OF assms(1)] by (auto simp: usable_def phase_inv_def Let_def)
  then show ?thesis using assms(2) by (simp add: closed_in_def)
qed

lemma retain_root_ok:
  assumes inv: "gc_inv P E C S D H r" and a: "a \<in> usable H" and fresh: "fresh_lease ptr (groots H)" and run: "retain mem slack ptr T a H = (x, H')"
  shows "gc_inv P E C S D H' r \<and> carries H H' \<and> (\<forall>l. x = Ok l \<longrightarrow> issued l (groots H') \<and> 0 < strong (groots H') (lease_ptr l))"
proof -
  have stuck: ?thesis if "H' = H" "\<And>l. x \<noteq> Ok l" using that inv by simp
  from run [unfolded retain_def] show ?thesis
  proof (cases rule: heap_then_cases)
    case (1 ob H1)
    then have H1: "H1 = H" by simp
    from 1(2) show ?thesis
    proof (cases rule: heap_then_cases)
      case (1 u H2)
      then have H2: "H2 = H" using H1 by simp
      from 1(2) show ?thesis unfolding H2
      proof (cases rule: heap_then_cases)
        case (1 p H3)
        note R = prepare_root_ok [OF inv fresh 1(1)]
        have p: "preparing p ptr 1 (groots H3)" using R(4) by simp
        have a3: "a \<in> usable H3" using a R(2) by (auto simp: carries_def)
        obtain y H4 where H4: "heap_publish a H3 = (y, H4)" by (cases "heap_publish a H3")
        note Q = heap_publish_ok [OF R(1) a3 H4]
        have p4: "preparing p ptr 1 (groots H4)" using Q(4) p by auto
        have c4: "carries H H4" using carries_trans R(2) Q(2) by blast
        from Q(3) show ?thesis
        proof (elim disjE conjE)
          assume y: "y = Ok ()" "a \<in> secured H4"
          then have "commit_root p (Some a) H4 = (x, H')" using 1(2) H4 by simp
          from commit_root_ok [OF Q(1) p4 _ this] y(2) show ?thesis using c4 carries_trans by auto
        next
          assume y: "y = Err (Limit ''publication work'')"
          then have "x = Err (Limit ''publication work'')" "H' = abandon_root p H4" using 1(2) H4 by simp_all
          then show ?thesis using abandon_root_ok [OF Q(1) p4] c4 carries_trans by auto
        qed
      next
        case (2 e)
        then show ?thesis using prepare_root_ok [OF inv fresh 2(1)] by simp
      next
        case (3 q)
        then show ?thesis using prepare_root_ok(4) [OF inv fresh 3(1)] by simp
      qed
    qed (use H1 stuck in auto)
  qed (use stuck in auto)
qed

text \<open>What the closures of \<^verbatim>\<open>replace_with\<close> promise.\<close>

lemma replace_target_ok:
  assumes inv: "gc_inv P E C S D H r" and run: "replace_target pack n pick H = (x, H')"
    and pick: "\<And>y H1. pick (groots H) H = (y, H1) \<Longrightarrow> gc_inv P E C S D H1 r \<and> carries H H1 \<and> groots H1 = groots H \<and> (\<forall>t. y = Ok t \<longrightarrow> set_option t \<subseteq> secured H1)"
  shows "gc_inv P E C S D H' r \<and> carries H H'"
proof -
  note B = inv_base [OF inv]
  obtain rs H1 where r: "replace_with pack n pick (groots H) H = (x, rs, H1)" "H' = H1\<lparr>groots := rs\<rparr>"
    using run B(10) by (auto simp: replace_target_def heap_then_def split: prod.splits)
  obtain y H2 where y: "pick (groots H) H = (y, H2)" by (cases "pick (groots H) H")
  note K = pick [OF y]
  have same: "gc_inv P E C S D H' r \<and> carries H H'" if "H1 = H \<or> H1 = H2" "rs = groots H"
  proof -
    have "H' = H1" using that K r(2) by (cases "H1 = H") auto
    then show ?thesis using that(1) inv K by auto
  qed
  show ?thesis
  proof (cases "\<exists>e t. roots_admit pack (groots H) = Ok e \<and> typed e = None \<and> n < length (targets e) \<and> y = Ok t")
    case True
    then obtain e t where e: "roots_admit pack (groots H) = Ok e" "typed e = None" "n < length (targets e)" "y = Ok t" by blast
    from replace_with_ok [OF B(5) e(1-3), of pick H t H2] y e(4) r(1) have R: "H1 = H2" "roots_inv rs" "released rs = released (groots H)" "strong rs = strong (groots H)"
      "rheap rs = rheap (groots H)" "ractive rs = ractive (groots H)"
      "\<And>i. registration rs i = (if i = id_slot (lease_id pack) then map_option (set_target n t) (registration (groots H) i) else registration (groots H) i)" by auto
    have g: "grows (set_option t) (groots H2) rs" by (rule grows_replace [where n = n and ?i0.0 = "id_slot (lease_id pack)"]) (use R K in simp_all)
    have "gid H2 = gid H" using K by (simp add: carries_def)
    then have "gc_inv P E C S D (H2\<lparr>groots := rs\<rparr>) r \<and> carries H2 (H2\<lparr>groots := rs\<rparr>)"
      using grows_inv [of H2 r "set_option t" rs] K g R e(4) B(6,7) by (auto simp: pending_releases_def)
    then show ?thesis using r(2) R(1) K carries_trans by blast
  next
    case False
    then have "(H1 = H \<or> H1 = H2) \<and> rs = groots H" using r(1) y unfolding replace_with_def by (auto split: outcome.splits if_splits)
    then show ?thesis using same by blast
  qed
qed

lemma set_root_ok:
  assumes inv: "gc_inv P E C S D H r" and v: "set_option value \<subseteq> usable H" and run: "set_root pack n value H = (x, H')"
  shows "gc_inv P E C S D H' r \<and> carries H H'"
proof (rule replace_target_ok [OF inv run [unfolded set_root_def]])
  fix y H1 assume y: "pick_handle value (groots H) H = (y, H1)"
  show "gc_inv P E C S D H1 r \<and> carries H H1 \<and> groots H1 = groots H \<and> (\<forall>t. y = Ok t \<longrightarrow> set_option t \<subseteq> secured H1)"
  proof (cases "value")
    case None
    then show ?thesis using y inv by (auto simp: pick_handle_def)
  next
    case (Some a)
    then have "heap_then (heap_publish a) (\<lambda>_. heap_reads (\<lambda>_. Ok (Some a))) H = (y, H1)" using y by (simp add: pick_handle_def)
    then show ?thesis
    proof (cases rule: heap_then_cases)
      case (1 u H2)
      then show ?thesis using heap_publish_ok [OF inv _ 1(1)] v Some by auto
    qed (use heap_publish_ok [OF inv] v Some in fastforce)+
  qed
qed

lemma replace_root_ok:
  assumes inv: "gc_inv P E C S D H r" and l: "0 < strong (groots H) (lease_ptr source)" and run: "replace_root pack n T source H = (x, H')"
  shows "gc_inv P E C S D H' r \<and> carries H H'"
proof (rule replace_target_ok [OF inv run [unfolded replace_root_def]])
  fix y H1 assume y: "pick_root T source (groots H) H = (y, H1)"
  show "gc_inv P E C S D H1 r \<and> carries H H1 \<and> groots H1 = groots H \<and> (\<forall>t. y = Ok t \<longrightarrow> set_option t \<subseteq> secured H1)"
  proof (cases "typed_root T source H")
    case (Ok a)
    have a: "a \<in> usable H" using typed_root_in [OF Ok l] roots_usable(2) [OF inv] by blast
    have "heap_then (heap_publish a) (\<lambda>_. heap_reads (\<lambda>_. Ok (Some a))) H = (y, H1)" using y Ok by (simp add: pick_root_def heap_then_def [of "heap_reads _"])
    then show ?thesis
    proof (cases rule: heap_then_cases)
      case (1 u H2)
      then show ?thesis using heap_publish_ok [OF inv a 1(1)] by auto
    qed (use heap_publish_ok [OF inv a] in fastforce)+
  qed (use y inv in \<open>auto simp: pick_root_def heap_then_def\<close>)
qed

lemma create_roots_ok:
  assumes inv: "gc_inv P E C S D H r" and fresh: "fresh_lease ptr (groots H)" and run: "create_roots mem slack ptr count H = (x, H')"
  shows "gc_inv P E C S D H' r \<and> carries H H' \<and> (\<forall>l. x = Ok l \<longrightarrow> issued l (groots H') \<and> 0 < strong (groots H') (lease_ptr l))"
proof -
  have "heap_then (prepare_root mem slack ptr count None) (\<lambda>p. commit_root p None) H = (x, H')"
    using run inv_base(10) [OF inv] by (simp add: create_roots_def heap_then_def [of "heap_reads _"])
  then show ?thesis
  proof (cases rule: heap_then_cases)
    case (1 p H1)
    note R = prepare_root_ok [OF inv fresh 1(1)]
    have p: "preparing p ptr count (groots H1)" using R(4) by simp
    from commit_root_ok [OF R(1) p _ 1(2)] show ?thesis using R(2) carries_trans by auto
  next
    case (2 e)
    then show ?thesis using prepare_root_ok [OF inv fresh 2(1)] by simp
  next
    case (3 q)
    then show ?thesis using prepare_root_ok(4) [OF inv fresh 3(1)] by simp
  qed
qed

end

section \<open>Operations on objects\<close>

lemma scope_read_Ok: "scope_read a H = Ok w \<Longrightarrow> gobjects H a = Some (RustValue w)"
  by (auto simp: scope_read_def scope_check_def split: outcome.splits option.splits payload.splits elim: and_then.elims)

lemma layout_pointer_Ok: "layout_pointer l a H = Ok f \<Longrightarrow> gobjects H a = Some (Record f)"
  by (auto simp: layout_pointer_def scope_check_def split: if_splits option.splits payload.splits)

context collector
begin

lemma publish_value_ok:
  assumes inv: "gc_inv P E C S D H r" and v: "set_option value \<subseteq> usable H" and run: "publish_value value H = (x, H')"
  shows "x = Ok value \<and> gc_inv P E C S D H' r \<and> carries H H' \<and> set_option value \<subseteq> secured H' \<and> gobjects H' = gobjects H
    \<or> x = Err (Limit ''publication work'') \<and> mphase (gmarking H') = Faulted"
proof (cases "value")
  case None
  then show ?thesis using run inv by (simp add: publish_value_def)
next
  case (Some b)
  then have "heap_then (scope_publish b) (\<lambda>b. heap_reads (\<lambda>_. Ok (Some b))) H = (x, H')" using run by (simp add: publish_value_def)
  then show ?thesis
  proof (cases rule: heap_then_cases)
    case (1 c H1)
    then show ?thesis using scope_publish_ok [OF inv _ 1(1)] v Some by auto
  next
    case (2 e)
    then show ?thesis using scope_publish_ok [OF inv _ 2(1)] v Some by auto
  next
    case (3 q)
    then show ?thesis using scope_publish_ok [OF inv _ 3(1)] v Some by auto
  qed
qed

lemma live_object:
  assumes "gc_inv P E C S D H r" "a \<in> usable H"
  shows "\<exists>d x. descriptor_at (gphysical H) a = Some d \<and> gobjects H a = Some x \<and> payload_fits (desc_rep d) x"
  using inv_base(3) [OF assms(1)] assms(2) secured_usable(2) unfolding typed_objects_def by blast

lemma usable_resolves:
  assumes "gc_inv P E C S D H r" "a \<in> usable H"
  shows "\<exists>ob x. resolve a (gphysical H) = Ok ob \<and> descriptor_at (gphysical H) a = Some (odescriptor ob) \<and> header_descriptor (gphysical H) a = Some (desc_id (odescriptor ob)) \<and>
    gobjects H a = Some x \<and> payload_fits (desc_rep (odescriptor ob)) x"
proof -
  have "a \<in> live_set (gphysical H)" using assms(2) secured_usable(2) by blast
  then obtain i s where "slot_at (gphysical H) i s = Occupied" "slot_address (gphysical H) i s = Some a" by (auto simp: live_set_def)
  from object_descriptor [OF inv_base(1) [OF assms(1)] this] live_object [OF assms] show ?thesis by fastforce
qed

lemma record_object:
  assumes "gc_inv P E C S D H r" "a \<in> usable H" "layout_pointer l a H = Ok sl"
  shows "\<exists>d shape. descriptor_at (gphysical H) a = Some d \<and> desc_rep d = Dynamic shape \<and> gobjects H a = Some (Record sl)"
proof -
  from live_object [OF assms(1,2)] layout_pointer_Ok [OF assms(3)]
  obtain d where d: "descriptor_at (gphysical H) a = Some d" "payload_fits (desc_rep d) (Record sl :: 'o payload)" "gobjects H a = Some (Record sl)" by auto
  then show ?thesis by (cases "desc_rep d") auto
qed

lemma carries_desc:
  assumes "carries H H'" "a \<in> usable H"
  shows "descriptor_at (gphysical H') a = descriptor_at (gphysical H) a" "a \<in> usable H'"
  using assms secured_usable(2) [of H] by (auto simp: carries_def)

lemma reference_set_ok:
  assumes inv: "gc_inv P E C S D H r" and a: "a \<in> usable H" and v: "set_option value \<subseteq> usable H" and run: "reference_set f a value H = (x, H')"
  shows "gc_inv P E C S D H' r \<and> carries H H' \<or> mphase (gmarking H') = Faulted"
proof (cases "layout_pointer (rf_layout f) a H")
  case (Ok sl)
  from record_object [OF inv a Ok] obtain d shape where d: "descriptor_at (gphysical H) a = Some d" and sh: "desc_rep d = Dynamic shape"
    and o: "gobjects H a = Some (Record sl)" by blast
  have "heap_then (publish_value value) (\<lambda>target H. (Ok (), write_object a (Record (sl(rf_offset f := target))) H)) H = (x, H')"
    using run Ok by (simp add: reference_set_def heap_then_def [of "heap_reads _"])
  then show ?thesis
  proof (cases rule: heap_then_cases)
    case (1 t H1)
    from publish_value_ok [OF inv v 1(1)] have p: "t = value" "gc_inv P E C S D H1 r" "carries H H1" "set_option value \<subseteq> secured H1" "gobjects H1 = gobjects H" by auto
    have "gc_inv P E C S D (write_object a (Record (sl(rf_offset f := value))) H1) r \<and> carries H1 (write_object a (Record (sl(rf_offset f := value))) H1)"
      by (intro conjI write_inv [where x = "Record sl" and d = d and X = "set_option value"])
        (use p o d sh carries_desc [OF p(3) a] in \<open>auto simp: payload_edges_def payload_covered_def record_edges_def record_covered_def split: scan_state.splits if_splits\<close>)
    then show ?thesis using 1(2) p(1,3) carries_trans by auto
  next
    case (2 e)
    then show ?thesis using publish_value_ok [OF inv v 2(1)] by auto
  next
    case (3 q)
    then show ?thesis using publish_value_ok [OF inv v 3(1)] by auto
  qed
qed (use run inv in \<open>auto simp: reference_set_def heap_then_def\<close>)

lemma typed_payload:
  assumes "gc_inv P E C S D H r" "a \<in> usable H" "scope_read a H = Ok w" "handle_type H a t"
  shows "\<exists>d. descriptor_at (gphysical H) a = Some d \<and> desc_rep d = Rust t \<and> gobjects H a = Some (RustValue w)"
proof -
  from assms(4) obtain d where "descriptor_at (gphysical H) a = Some d" "descriptor_type d = Some t" by (auto simp: handle_type_def)
  then show ?thesis using scope_read_Ok [OF assms(3)] by (cases "desc_rep d") (auto simp: descriptor_type_def)
qed

lemma scalar_set_ok:
  assumes inv: "gc_inv P E C S D H r" and a: "a \<in> usable H" "handle_type H a t" and f: "scalar_field_ok E C t f" and run: "scalar_set f a value H = (x, H')"
  shows "gc_inv P E C S D H' r \<and> carries H H'"
proof (cases "scope_read a H")
  case (Ok w)
  from typed_payload [OF inv a(1) Ok a(2)] obtain d where d: "descriptor_at (gphysical H) a = Some d" "desc_rep d = Rust t" "gobjects H a = Some (RustValue w)" by blast
  have "H' = write_object a (RustValue (sf_write f value w)) H" using run Ok by (simp add: scalar_set_def heap_then_def)
  then show ?thesis using write_inv [OF inv _ d(3,1), of "{}" "RustValue (sf_write f value w)"] d(2) f
    by (auto simp: payload_edges_def payload_covered_def scalar_field_ok_def split: scan_state.splits)
qed (use run inv in \<open>auto simp: scalar_set_def heap_then_def\<close>)

lemma edge_set_ok:
  assumes inv: "gc_inv P E C S D H r" and a: "a \<in> usable H" "handle_type H a t" and f: "edge_field_ok E C t f" and v: "set_option value \<subseteq> usable H"
    and run: "edge_set f a value H = (x, H')"
  shows "gc_inv P E C S D H' r \<and> carries H H' \<or> mphase (gmarking H') = Faulted"
proof (cases "scope_read a H")
  case (Ok w)
  from typed_payload [OF inv a(1) Ok a(2)] obtain d where d: "descriptor_at (gphysical H) a = Some d" "desc_rep d = Rust t" "gobjects H a = Some (RustValue w)" by blast
  obtain y H1 where y: "publish_value value H = (y, H1)" by (cases "publish_value value H")
  have e: "edge_set f a value H = (case publish_value value H of (Ok target, H) \<Rightarrow> (Ok (), write_object a (RustValue (ef_write f target w)) H)
       | (_, H) \<Rightarrow> (Panic ''fixed edge publication failed'', H))" using Ok by (simp add: edge_set_def heap_then_def)
  from publish_value_ok [OF inv v y] show ?thesis
  proof (elim disjE conjE)
    assume p: "y = Ok value" "gc_inv P E C S D H1 r" "carries H H1" "set_option value \<subseteq> secured H1" "gobjects H1 = gobjects H"
    then have H': "H' = write_object a (RustValue (ef_write f value w)) H1" using run e y by simp
    have "gc_inv P E C S D H' r \<and> carries H1 H'" unfolding H'
      by (intro conjI write_inv [where x = "RustValue w" and d = d and X = "set_option value"])
        (use p d f carries_desc [OF p(3) a(1)] in \<open>auto simp: payload_edges_def payload_covered_def edge_field_ok_def split: scan_state.splits\<close>)
    then show ?thesis using p(3) carries_trans by blast
  qed (use run e y in auto)
qed (use run inv in \<open>auto simp: edge_set_def heap_then_def\<close>)

text \<open>Reading a reference leads to an object of the scope.\<close>

lemma reference_get_ok:
  assumes inv: "gc_inv P E C S D H r" and a: "a \<in> usable H" and run: "reference_get f a H = Ok (Some b)"
    and off: "\<And>d shape. descriptor_at (gphysical H) a = Some d \<Longrightarrow> desc_rep d = Dynamic shape \<Longrightarrow> rf_offset f \<in> set (references shape)"
  shows "b \<in> usable H"
proof -
  from run obtain sl where sl: "layout_pointer (rf_layout f) a H = Ok sl" "sl (rf_offset f) = Some b" by (auto simp: reference_get_def split: option.splits)
  from record_object [OF inv a sl(1)] obtain d shape where d: "descriptor_at (gphysical H) a = Some d" and sh: "desc_rep d = Dynamic shape"
    and o: "gobjects H a = Some (Record sl)" by blast
  have "b \<in> edges_at E (gphysical H) (gobjects H) a" using d o sh sl(2) off [OF d sh] by (auto simp: edges_at_def payload_edges_def record_edges_def)
  then show ?thesis using edges_usable [OF inv a] by blast
qed

lemma edge_get_ok:
  assumes inv: "gc_inv P E C S D H r" and a: "a \<in> usable H" "handle_type H a t" and f: "edge_field_ok E C t f" and run: "edge_get U f a H = Ok (Some b)"
  shows "b \<in> usable H"
proof -
  from run obtain w where w: "scope_read a H = Ok w" "ef_read f w = Some b"
  proof (cases "scope_read a H")
    case (Ok w)
    then show ?thesis using run that [OF Ok] by (cases "ef_read f w"; cases "resolve (the (ef_read f w)) (gphysical H)") (auto simp: edge_get_def scope_follow_def split: if_splits)
  qed (auto simp: edge_get_def scope_follow_def)
  from typed_payload [OF inv a(1) w(1) a(2)] obtain d where d: "descriptor_at (gphysical H) a = Some d" "desc_rep d = Rust t" "gobjects H a = Some (RustValue w)" by blast
  have "b \<in> edges_at E (gphysical H) (gobjects H) a" using d w(2) f by (force simp: edges_at_def payload_edges_def edge_field_ok_def)
  then show ?thesis using edges_usable [OF inv a(1)] by blast
qed

lemma scope_get_ok:
  assumes "gc_inv P E C S D H r" "scope_get T l H = Ok a" "0 < strong (groots H) (lease_ptr l)"
  shows "a \<in> usable H"
  using typed_root_in [OF _ assms(3)] roots_usable(2) [OF assms(1)] assms(2) inv_base(10) [OF assms(1)] by (auto simp: scope_get_def)

lemma get_root_ok:
  assumes "gc_inv P E C S D H r" "get_root T l n H = Ok a" "0 < strong (groots H) (lease_ptr l)"
  shows "a \<in> usable H"
proof -
  from assms(2) inv_base(10) [OF assms(1)] obtain e where e: "roots_admit l (groots H) = Ok e" "entry_target n e = Ok a" by (auto simp: get_root_def split: if_splits)
  from held_root [OF e(1) assms(3) entry_target_in [OF e(2)]] roots_usable(2) [OF assms(1)] show ?thesis by blast
qed

end

end
