(* ===== verification/Gc_Allocation.thy ===== *)
theory Gc_Allocation
  imports Gc_Mutator
begin

text \<open>
  Allocation and registration keep the invariant of the collector: a reserved slot is invisible
  until it is committed, what the new object refers to is published before it is, the object is
  born black, and a constructor that fails gives its slot back.
\<close>

section \<open>Definitions\<close>

subsection \<open>Reference definitions\<close>

text \<open>The same allocated objects with the same colours.\<close>

definition same_view :: "nat \<Rightarrow> physical_heap \<Rightarrow> physical_heap \<Rightarrow> bool" where
  "same_view e h h' \<longleftrightarrow> (\<forall>j t. slot_at h' j t = Occupied \<longleftrightarrow> slot_at h j t = Occupied) \<and>
     (\<forall>j t. slot_at h j t = Occupied \<longrightarrow> slot_address h' j t = slot_address h j t \<and> found_at h' e j t = found_at h e j t \<and> black_at h' e j t = black_at h e j t) \<and>
     memory h' = memory h \<and> descriptors_of h' = descriptors_of h"

text \<open>The slot of an allocation under way.\<close>

definition held_slot :: "reservation \<Rightarrow> physical_heap \<Rightarrow> bool" where
  "held_slot rv h \<longleftrightarrow> slot_at h (rpage rv) (rslot rv) = Unavailable \<and> slot_address h (rpage rv) (rslot rv) = Some (rreference rv)"

text \<open>What the validation of a new object leaves; after success the edges in \<open>X\<close> are secured.\<close>

definition validated ::
    "('o, 's) provider \<Rightarrow> 'o edge_map \<Rightarrow> ('o, 's) cover_map \<Rightarrow> ('q \<Rightarrow> nat set) \<Rightarrow> ('q \<Rightarrow> 'c \<Rightarrow> nat set) \<Rightarrow>
     ('o, 's) gc_heap \<Rightarrow> ('q, 'c) root_scan \<Rightarrow> nat set \<Rightarrow> unit gc_result \<Rightarrow> edge_visitor \<Rightarrow> bool" where
  "validated P E C S D H r X x v \<longleftrightarrow> gc_inv P E C S D (visited v H) r \<and> carries H (visited v H) \<and> same_objects (gphysical H) (physical v) \<and>
     (x = Ok () \<longrightarrow> X \<subseteq> secured (visited v H))"

text \<open>What an allocation leaves: the heap it found, with one more object or not.\<close>

definition allocated ::
    "('o, 's) provider \<Rightarrow> 'o edge_map \<Rightarrow> ('o, 's) cover_map \<Rightarrow> ('q \<Rightarrow> nat set) \<Rightarrow> ('q \<Rightarrow> 'c \<Rightarrow> nat set) \<Rightarrow>
     ('o, 's) gc_heap \<Rightarrow> ('q, 'c) root_scan \<Rightarrow> descriptor \<Rightarrow> nat gc_result \<Rightarrow> ('o, 's) gc_heap \<Rightarrow> bool" where
  "allocated P E C S D H r d y H' \<longleftrightarrow> gc_inv P E C S D H' r \<and> carries H H' \<and> groots H' = groots H \<and>
     (case y of
        Ok a \<Rightarrow> a \<in> secured H' \<and> a \<notin> live_set (gphysical H) \<and> descriptor_at (gphysical H') a = Some d \<and> (\<forall>b. b \<noteq> a \<longrightarrow> gobjects H' b = gobjects H b)
      | _ \<Rightarrow> gobjects H' = gobjects H)"

text \<open>The parameters of an allocation: layouts of the runtime, and an allocator whose new blocks are apart from those in use.\<close>

definition supplies :: "trailer_types \<Rightarrow> (layout \<Rightarrow> nat option) \<Rightarrow> ('o, 's) gc_heap \<Rightarrow> bool" where
  "supplies tt alloc H \<longleftrightarrow> page_types_ok tt \<and> fresh_alloc alloc (gphysical H)"

section \<open>Allocation\<close>

lemma same_viewD:
  assumes "same_view e h h'"
  shows "live_set h' = live_set h" "found_set h' e = found_set h e" "black_set h' e = black_set h e" "descriptor_at h' a = descriptor_at h a"
    "edges_at E h' os = edges_at E h os" "uses_ok B h' = uses_ok B h" "typed_objects P h' os = typed_objects P h os"
proof -
  show l: "live_set h' = live_set h" "found_set h' e = found_set h e" "black_set h' e = black_set h e"
    using assms unfolding same_view_def live_set_def found_set_def black_set_def by (metis (no_types, lifting))+
  have m: "memory h' = memory h" "descriptors_of h' = descriptors_of h" using assms by (simp_all add: same_view_def)
  show d: "descriptor_at h' a = descriptor_at h a" for a using m by (simp add: descriptor_at_def header_descriptor_def)
  show "edges_at E h' os = edges_at E h os" by (simp add: edges_at_def d fun_eq_iff)
  show "uses_ok B h' = uses_ok B h" "typed_objects P h' os = typed_objects P h os"
    using m l(1) d by (simp_all add: uses_ok_def users_def header_descriptor_def typed_objects_def)
qed

lemma swept_reserve:
  assumes "swept h e act" "same_view e h h'" "cursor h' = cursor h" "contents (allocations h) i = None \<or> act' = act" "act' = i # act \<or> act' = act"
  shows "swept h' e act'"
proof -
  have clean: "slot_at h' j t = Occupied \<Longrightarrow> slot_at h j t = Occupied \<and> black_at h' e j t = black_at h e j t" for j t
    using assms(2) by (simp add: same_view_def)
  have i: "slot_at h i t = Vacant" if "act' \<noteq> act" for t using that assms(4) by (auto simp: slot_at_def)
  show ?thesis
  proof (cases "cpage (cursor h)")
    case None
    then show ?thesis using assms(1,3) clean by (simp add: swept_def Let_def)
  next
    case (Some c)
    with assms(1) obtain xs ys where xy: "act = xs @ c # ys" and xs: "\<And>j t. j \<in> set xs \<Longrightarrow> slot_at h j t = Occupied \<Longrightarrow> black_at h e j t"
      and c: "\<And>t. t < cslot (cursor h) \<Longrightarrow> slot_at h c t = Occupied \<Longrightarrow> black_at h e c t" by (auto simp: swept_def Let_def)
    show ?thesis
    proof (cases "act' = act")
      case True
      then show ?thesis using Some xy xs c clean assms(3) by (intro swept_at [of h' c _ xs ys]) auto
    next
      case False
      then have a: "act' = (i # xs) @ c # ys" using assms(5) xy by simp
      show ?thesis
      proof (rule swept_at [OF _ a])
        show "cpage (cursor h') = Some c" using Some assms(3) by simp
        show "black_at h' e j t" if "j \<in> set (i # xs)" "slot_at h' j t = Occupied" for j t
          using that xs [of j t] clean [of j t] i [OF False, of t] by auto
        show "black_at h' e c t" if "t < cslot (cursor h')" "slot_at h' c t = Occupied" for t
          using that c [of t] clean [of c t] assms(3) by auto
      qed
    qed
  qed
qed

lemma active_slots_view:
  assumes "same_view e (gphysical H) (gphysical H')" "gactive H' = gactive H"
  shows "active_slots H' = active_slots H"
  using assms unfolding active_slots_def same_view_def by (auto split: option.splits)

context collector
begin

lemma view_inv:
  assumes inv: "gc_inv P E C S D H r" and m: "m = (gmarking H)\<lparr>pcapacity := c\<rparr>" and H': "H' = H\<lparr>gphysical := h', gmarking := m\<rparr>"
    and h': "heap_inv h'" "mark_inv (active_slots H) \<lparr>physical = h', marking = m\<rparr>" "same_view (mepoch (gmarking H)) (gphysical H) h'"
    and sweep: "\<And>act avs. heap_at {} (gphysical H) act avs \<Longrightarrow> swept (gphysical H) (mepoch (gmarking H)) act \<Longrightarrow>
      \<exists>act avs. heap_at {} h' act avs \<and> swept h' (mepoch (gmarking H)) act"
      "cpage (cursor (gphysical H)) = None \<Longrightarrow> cpage (cursor h') = None"
  shows "gc_inv P E C S D H' r" "carries H H'"
proof -
  note B = inv_base [OF inv]
  note V = same_viewD [OF h'(3)]
  have sel: "gphysical H' = h'" "gmarking H' = m" "gobjects H' = gobjects H" "groots H' = groots H" "gactive H' = gactive H" "gid H' = gid H"
    "groot_cursor H' = groot_cursor H" "gsweep H' = gsweep H" "gworkspace H' = gworkspace H" "mphase m = mphase (gmarking H)" "mepoch m = mepoch (gmarking H)"
    "pending m = pending (gmarking H)" by (simp_all add: H' m)
  have as: "active_slots H' = active_slots H" using active_slots_view [of _ H H'] h'(3) by (simp add: sel)
  have view: "tricolour E H' = tricolour E H" "active_ok C H' = active_ok C H" "cursor_ok H' = cursor_ok H" "gc_roots S H' r = gc_roots S H r"
    unfolding tricolour_def active_ok_def cursor_ok_def gc_roots_def sel V by (rule refl)+
  have sw: "sweep_inv H'" if "sweep_inv H"
  proof -
    from that obtain act avs where a: "heap_at {} (gphysical H) act avs" "swept (gphysical H) (mepoch (gmarking H)) act"
      "case gsweep H of SweepPhysical \<Rightarrow> True | SweepRoots n \<Rightarrow> cpage (cursor (gphysical H)) = None \<and> n \<le> pending_releases (groots H)
         | SweepDescriptors n \<Rightarrow> cpage (cursor (gphysical H)) = None \<and> n \<le> length (dactive (descriptors_of (gphysical H)))"
      unfolding sweep_inv_def Let_def by blast
    from sweep(1) [OF a(1,2)] obtain act' avs' where a': "heap_at {} h' act' avs'" "swept h' (mepoch (gmarking H)) act'" by blast
    have d: "descriptors_of h' = descriptors_of (gphysical H)" using h'(3) by (simp add: same_view_def)
    have "case gsweep H of SweepPhysical \<Rightarrow> True | SweepRoots n \<Rightarrow> cpage (cursor h') = None \<and> n \<le> pending_releases (groots H)
         | SweepDescriptors n \<Rightarrow> cpage (cursor h') = None \<and> n \<le> length (dactive (descriptors_of h'))"
      using a(3) sweep(2) by (cases "gsweep H") (simp_all add: d)
    with a' show ?thesis unfolding sweep_inv_def Let_def sel by blast
  qed
  have "phase_inv E C S D H' r"
    using B(8) sw unfolding phase_inv_def Let_def sel V view by (cases "mphase (gmarking H)") auto
  then show "gc_inv P E C S D H' r" using B h'(1,2) by (simp add: gc_inv_def sel as visitor_def V(6,7))
  show "carries H H'" unfolding carries_def usable_def secured_def sel V by (simp split: phase.splits)
qed

end

lemma held_slot_same: "same_objects h h' \<Longrightarrow> held_slot rv h' = held_slot rv h"
  by (simp add: held_slot_def same_objects_def)

lemma reserve_view:
  assumes inv: "heap_inv h" "heap_inv h'" and r: "slot_at h i s = Vacant" "slot_at h' = set_slot i s Unavailable (slot_at h)" "slot_address h' i s = Some a"
      "memory h' = memory h" "descriptors_of h' = descriptors_of h" "keeps_blocks h h'"
      "marks_at h' = (marks_at h)(i := clear_slot s (marks_at h i))"
  shows "same_view e h h'"
proof -
  note C = reserve_colours [OF inv(1) slot_bound [OF inv(2) r(3)] r(7)]
  have "slot_address h' j t = slot_address h j t \<and> found_at h' e j t = found_at h e j t \<and> black_at h' e j t = black_at h e j t"
    if "slot_at h j t = Occupied" for j t
    using that r(1) slot_address_kept [OF r(6) occupied_page, of j t] by (auto simp: C)
  then show ?thesis using r(1,2,4,5) by (auto simp: same_view_def set_slot_def)
qed

lemma refuse_view:
  assumes "contents (allocations h') = contents (allocations h)" "memory h' = memory h" "descriptors_of h' = descriptors_of h" "cursor h' = cursor h"
    "heap_inv h" "heap_inv h'"
  shows "same_view e h h'" "mark_inv A (v\<lparr>physical := h'\<rparr>) = mark_inv A (v\<lparr>physical := h\<rparr>)" "swept h' e act = swept h e act"
proof -
  have m: "marks_at h' = marks_at h" "slot_at h' = slot_at h" "slot_address h' = slot_address h" "page_count h' = page_count h"
    using assms(1) page_count_dom [OF assms(5)] page_count_dom [OF assms(6)] by (simp_all add: marks_at_def slot_at_def slot_address_def [abs_def] fun_eq_iff [of "marks_at _"] fun_eq_iff [of "slot_at _"])
  note C = marks_colours [OF m(1)]
  have l: "leaf_at h' = leaf_at h" by (simp add: leaf_at_def m assms fun_eq_iff)
  show "same_view e h h'" by (simp add: same_view_def m C assms)
  show "mark_inv A (v\<lparr>physical := h'\<rparr>) = mark_inv A (v\<lparr>physical := h\<rparr>)" by (simp add: mark_inv_def Let_def m C l assms)
  show "swept h' e act = swept h e act" unfolding swept_def Let_def m C assms(4) by (rule refl)
qed

lemma release_view:
  assumes h: "heap_at {} h act avs" and rv: "held_slot rv h" and v: "mark_inv A v" "physical v = h"
  shows "\<exists>h' act' avs'. heap_rollback rv h = (Ok (), h') \<and> heap_at {} h' act' avs' \<and> same_view e h h' \<and> mark_inv A (v\<lparr>physical := h'\<rparr>) \<and>
    (swept h e act \<longrightarrow> swept h' e act') \<and> (cpage (cursor h) = None \<longrightarrow> cpage (cursor h') = None)"
proof -
  let ?i = "rpage rv" and ?s = "rslot rv"
  have u: "slot_at h ?i ?s = Unavailable" using rv by (simp add: held_slot_def)
  from release_slot_ok [OF h u] obtain h2 act2 avs2 where r: "release_slot ?i ?s h = (Ok (), h2)" "heap_at {} h2 act2 avs2"
    "act2 = (if contents (allocations h2) ?i = None then remove1 ?i act else act)"
    "cursor h2 = (if contents (allocations h2) ?i = None \<and> cpage (cursor h) = Some ?i then \<lparr>cpage = after_in ?i act, cslot = 0\<rparr> else cursor h)"
    "slot_at h2 = (slot_at h)(?i := (slot_at h ?i)(?s := Vacant))" "memory h2 = memory h" "descriptors_of h2 = descriptors_of h"
    "\<And>j. j \<noteq> ?i \<Longrightarrow> contents (allocations h2) j = contents (allocations h) j"
    "\<And>q. contents (allocations h2) ?i = Some q \<Longrightarrow> \<exists>p. contents (allocations h) ?i = Some p \<and> same_block p q \<and> page_marks_of q = page_marks_of p" by blast
  note R = released_objects [OF u r(5,6,8,9)]
  have hi: "heap_inv h" "heap_inv h2" using h r(2) by (auto simp: heap_inv_def)
  have kb: "keeps_blocks h2 h" using r(8,9) unfolding keeps_blocks_def by (metis same_block_def)
  have ma: "marks_at h2 j = (if contents (allocations h2) j = None then marks_default else marks_at h j)" for j
    using r(8,9) by (cases "j = ?i") (force simp: marks_at_def split: option.splits)+
  from release_marks [OF hi v u _ r(6,7) kb this] have m2: "mark_inv A (v\<lparr>physical := h2\<rparr>)" using r(5) by (simp add: set_slot_def)
  have fo: "found_at h2 e j t = found_at h e j t" if "slot_at h j t = Occupied" for j t
    using release_colours(1) [of h2 h e j t, OF ma] occupied_page [of h2 j t] R(1) [of j t] that by simp
  have sv: "same_view e h h2" using R(1,2) fo r(6,7) by (auto simp: same_view_def)
  have inact: "?i \<in> set act" using occupied_page [of h ?i ?s] u heap_atD(1) [OF h] by (auto simp: links_ok_def)
  have dist: "distinct act" using heap_atD(1) [OF h] by (simp add: links_ok_def dlist_def)
  have rm: "remove1 ?i act \<noteq> act" using inact dist by (metis Diff_iff set_remove1_eq singletonI)
  have sw: "swept h2 e act2" if "swept h e act"
  proof (rule swept_release [OF that h, where i = ?i])
    show "slot_at h2 j t = Occupied \<Longrightarrow> slot_at h j t = Occupied \<and> black_at h2 e j t = black_at h e j t" for j t using R(1,2) by blast
    show "slot_at h2 ?i = (\<lambda>_. Vacant) \<or> act2 = act \<and> cursor h2 = cursor h" using r(3,4) by (auto simp: slot_at_def)
  qed (use r(3,4) rm in auto)
  have "cpage (cursor h) = None \<longrightarrow> cpage (cursor h2) = None" using r(4) by simp
  then show ?thesis using r(1,2) sv m2 sw unfolding heap_rollback_def by (intro exI conjI) auto
qed

context collector
begin

text \<open>A scan by the mutator: the edges it visits are secured.\<close>

lemma scan_run_still:
  assumes "scan_run F bv V bv'" "F \<subseteq> usable H" "gc_inv P E C S D H r" "mphase (gmarking H) \<in> {Idle, Sweep}" "snd bv = visitor H"
  shows "V \<subseteq> F \<and> snd bv' = visitor H"
  using assms(1)
proof (induction rule: scan_run.induct)
  case (run_visit V b v a x b' v')
  then have v: "v = visitor H" "V \<subseteq> F" by simp_all
  note B = inv_base [OF assms(3)]
  have a: "a \<in> usable H" using run_visit.hyps(2) assms(2) by blast
  then have "a \<in> live_set (gphysical H)" using secured_usable(2) by blast
  then obtain i s where s: "slot_at (gphysical H) i s = Occupied" "slot_address (gphysical H) i s = Some a" by (auto simp: live_set_def)
  have "snd (snd (publish a (Some b) (visitor H))) = visitor H"
    using assms(4) publish_idle [of "visitor H" i s a "Some b"] publish_sweep [of "visitor H" i s a "Some b"] B(1) s by auto
  then have "v' = visitor H" using run_visit.hyps(3) v(1) by (auto simp: try_visit_reference_def split: prod.splits)
  then show ?case using v(2) run_visit.hyps(2) by auto
qed (use assms(5) in auto)

lemma scan_any:
  assumes inv: "gc_inv P E C S D H r" and run: "scan_run F (b, visitor H) V (b', v)" and F: "F \<subseteq> usable H"
  shows "gc_inv P E C S D (visited v H) r" "carries H (visited v H)" "V \<subseteq> secured (visited v H)" "same_objects (gphysical H) (physical v)"
proof -
  note B = inv_base [OF inv]
  have "gc_inv P E C S D (visited v H) r \<and> carries H (visited v H) \<and> V \<subseteq> secured (visited v H) \<and> same_objects (gphysical H) (physical v)"
  proof (cases "mphase (gmarking H) \<in> {phase.Roots, Mark}")
    case True
    have Fl: "F \<subseteq> live_set (gphysical H)" using F secured_usable(2) by blast
    from scan_run_ok [OF run] Fl B(1,4) True have s: "V \<subseteq> F" "scanned V (visitor H) v" "heap_inv (physical v)" "mark_inv (active_slots H) v" by auto
    have Vl: "V \<subseteq> live_set (gphysical H)" using s(1) Fl by blast
    from discover_inv [OF inv True s(2) Vl s(3,4)] scanned_sets(3) [OF s(2) _ refl] Vl B(1) show ?thesis by simp
  next
    case False
    then have p: "mphase (gmarking H) \<in> {Idle, Sweep}" using B(9) by auto
    from scan_run_still [OF run F inv p] have v: "V \<subseteq> F" "v = visitor H" by simp_all
    have "usable H = secured H" using p by (auto simp: usable_def secured_def)
    then show ?thesis using v inv F by simp
  qed
  then show "gc_inv P E C S D (visited v H) r" "carries H (visited v H)" "V \<subseteq> secured (visited v H)" "same_objects (gphysical H) (physical v)" by auto
qed

end

lemma visited_visited [simp]: "visited v (visited w H) = visited v H"
  by (simp add: visited_def)

context collector
begin

lemma inspect_initial_ok:
  assumes "inspect_initial P t w s v0 = Some (x, v)" "v0 = visitor H" "gc_inv P E C S D H r" "E t w \<subseteq> usable H" "C t w s \<subseteq> secured H"
  shows "validated P E C S D H r (E t w) x v"
proof -
  define G where "G = (\<lambda>((((P', t'), w'), s), v0) (y :: unit gc_result \<times> edge_visitor). \<forall>H. P' = P \<longrightarrow> t' = t \<longrightarrow> w' = w \<longrightarrow> v0 = visitor H \<longrightarrow>
    gc_inv P E C S D H r \<longrightarrow> E t w \<subseteq> usable H \<longrightarrow> C t w s \<subseteq> secured H \<longrightarrow> validated P E C S D H r (E t w) (fst y) (snd y))"
  have "G ((((P, t), w), s), v0) (x, v)"
  proof (rule inspect_initial.raw_induct [OF _ assms(1), where Pa = G])
    fix f P' t' w' s v0 y
    assume IH: "\<And>P t w s v y. f P t w s v = Some y \<Longrightarrow> G ((((P, t), w), s), v) y"
      and y: "(case scan_hook P' t' w' s (budget_new 1024) v0 of
        (x, s, b, v) \<Rightarrow>
          (case x of
             Err e \<Rightarrow> Some (Err e, v)
           | Panic m \<Rightarrow> Some (Panic m, v)
           | Ok status \<Rightarrow>
               if kind_of P' t' \<noteq> Indivisible \<and> spent b > 1024 then Some (Err (Provider ''initial scan exceeded allowance''), v)
               else if (case kind_of P' t' of Bounded max_work \<Rightarrow> status \<noteq> Complete \<or> spent b > max_work * 5 | _ \<Rightarrow> False)
                 then Some (Err (Provider ''initial bounded scan violated contract''), v)
               else if status = Complete then Some (Ok (), v)
               else if spent b = 0 then Some (Err (Provider ''initial scan made no progress''), v)
               else f P' t' w' s v)) = Some y"
    show "G ((((P', t'), w'), s), v0) y" unfolding G_def split_def fst_conv snd_conv
    proof (intro allI impI)
      fix H assume a: "P' = P" "t' = t" "w' = w" "v0 = visitor H" "gc_inv P E C S D H r" "E t w \<subseteq> usable H" "C t w s \<subseteq> secured H"
      obtain z s1 b1 v1 where h: "scan_hook P t w s (budget_new 1024) (visitor H) = (z, s1, b1, v1)" by (cases "scan_hook P t w s (budget_new 1024) (visitor H)")
      from edge_scanner.scan_law [OF scanner h] obtain V where V: "scan_run (E t w) (budget_new 1024, visitor H) V (b1, v1)"
        "z = Ok Complete \<longrightarrow> E t w \<subseteq> C t w s \<union> V" "z = Ok Pending \<longrightarrow> C t w s1 \<subseteq> C t w s \<union> V" by blast
      note R = scan_any [OF a(5) V(1) a(6)]
      have sec: "C t w s \<union> V \<subseteq> secured (visited v1 H)" using R(2,3) a(7) by (auto simp: carries_def)
      have stop: "validated P E C S D H r (E t w) (fst y) (snd y)" if "snd y = v1" "fst y = Ok () \<longrightarrow> z = Ok Complete"
        using that R V(2) sec by (auto simp: validated_def)
      show "validated P E C S D H r (E t w) (fst y) (snd y)"
      proof (cases "f P t w s1 v1 = Some y \<and> z = Ok Pending")
        case True
        have "E t w \<subseteq> usable (visited v1 H)" using R(2) a(6) by (auto simp: carries_def)
        moreover have "C t w s1 \<subseteq> secured (visited v1 H)" using V(3) True sec by blast
        ultimately have "validated P E C S D (visited v1 H) r (E t w) (fst y) (snd y)" using IH [of P t w s1 v1 y] True R(1) by (auto simp: G_def)
        then show ?thesis using R(2,4) carries_trans [OF R(2)] same_objects_trans [OF R(4)] by (auto simp: validated_def)
      next
        case False
        have "snd y = v1 \<and> (fst y = Ok () \<longrightarrow> z = Ok Complete)"
        proof (cases z)
          case (Ok status)
          then show ?thesis using y h a(1-4) False by (cases status) (auto split: if_splits)
        qed (use y h a(1-4) in auto)
        then show ?thesis by (intro stop) auto
      qed
    qed
  qed
  then show ?thesis using assms(2-5) by (auto simp: G_def)
qed

lemma validate_typed_ok:
  assumes "validate_typed P t (RustValue w) (visitor H) = Some (x, v)" "gc_inv P E C S D H r" "E t w \<subseteq> usable H"
  shows "validated P E C S D H r (E t w) x v"
proof (rule inspect_initial_ok [OF _ refl assms(2,3)])
  show "inspect_initial P t w (begin_hook P t w) (visitor H) = Some (x, v)" using assms(1) by (simp add: validate_typed_def)
  show "C t w (begin_hook P t w) \<subseteq> secured H" using edge_scanner.start_law [OF scanner] by simp
qed

end

context collector
begin

lemma reserve_step:
  assumes inv: "gc_inv P E C S D H r" and par: "page_types_ok tt" "descriptor_ok d" "fresh_alloc alloc (gphysical H)"
    and m: "reserve_pages mem slack (page_count (gphysical H) + 1) (gmarking H) = Ok m"
    and run: "heap_reserve tt mem alloc d limit (gphysical H) = (x, h')" and H': "H' = H\<lparr>gphysical := h', gmarking := m\<rparr>"
  shows "gc_inv P E C S D H' r" "carries H H'" "(\<exists>rv. x = Ok rv \<and> held_slot rv h') \<or> (\<exists>e. x = Err e)" "descriptors_of h' = descriptors_of (gphysical H)"
proof -
  let ?h = "gphysical H" and ?e = "mepoch (gmarking H)"
  note B = inv_base [OF inv]
  have mi: "mark_inv (active_slots H) ((visitor H)\<lparr>marking := m\<rparr>)" "page_count ?h + 1 \<le> pcapacity m" "\<exists>c. m = (gmarking H)\<lparr>pcapacity := c\<rparr>"
    using reserve_pages_ok [of "visitor H" "active_slots H" mem slack "page_count ?h + 1" m] B(1,4) m by auto
  obtain c where c: "m = (gmarking H)\<lparr>pcapacity := c\<rparr>" using mi(3) by blast
  have vm: "(visitor H)\<lparr>marking := m\<rparr> = \<lparr>physical = ?h, marking = m\<rparr>" by (simp add: visitor_def)
  from B(1) obtain act avs where ha: "heap_at {} ?h act avs" by (auto simp: heap_inv_def)
  have step: "(\<exists>rv. x = Ok rv \<and> held_slot rv h') \<or> (\<exists>e. x = Err e)" and hi: "heap_inv h'" and sv: "same_view ?e ?h h'"
    and mk: "mark_inv (active_slots H) \<lparr>physical = h', marking = m\<rparr>" and cu: "cursor h' = cursor ?h"
  proof -
    from heap_reserve_at [OF ha par, of mem limit] run
    have "(\<exists>rv. x = Ok rv \<and> held_slot rv h') \<or> (\<exists>e. x = Err e)" "heap_inv h'" "cursor h' = cursor ?h"
      by (auto simp: heap_inv_def held_slot_def set_slot_def)
    then show "(\<exists>rv. x = Ok rv \<and> held_slot rv h') \<or> (\<exists>e. x = Err e)" and hi: "heap_inv h'" and "cursor h' = cursor ?h" by simp_all
    from heap_reserve_at [OF ha par, of mem limit] run
    have "same_view ?e ?h h' \<and> mark_inv (active_slots H) \<lparr>physical = h', marking = m\<rparr>"
    proof (elim disjE exE conjE)
      fix rv h2 avs2 assume a: "heap_reserve tt mem alloc d limit ?h = (Ok rv, h2)" "slot_at ?h (rpage rv) (rslot rv) = Vacant"
        "slot_at h2 = set_slot (rpage rv) (rslot rv) Unavailable (slot_at ?h)" "slot_address h2 (rpage rv) (rslot rv) = Some (rreference rv)" "memory h2 = memory ?h"
        "descriptors_of h2 = descriptors_of ?h" "keeps_blocks ?h h2"
        "marks_at h2 = (marks_at ?h)(rpage rv := clear_slot (rslot rv) (marks_at ?h (rpage rv)))"
        "dom (contents (allocations h2)) = insert (rpage rv) (dom (contents (allocations ?h)))"
      have e: "h2 = h'" using a(1) run by simp
      show ?thesis using reserve_view [OF B(1) hi a(2-8)[unfolded e]]
          reserve_marks [OF B(1) hi mi(1) _ _ a(2-9)[unfolded e]] mi(2) by (simp add: vm)
    next
      fix e h2 assume a: "heap_reserve tt mem alloc d limit ?h = (Err e, h2)" "contents (allocations h2) = contents (allocations ?h)" "memory h2 = memory ?h"
        "descriptors_of h2 = descriptors_of ?h" "cursor h2 = cursor ?h"
      have e: "h2 = h'" using a(1) run by simp
      show ?thesis using refuse_view(1) [OF a(2-5)[unfolded e] B(1) hi, of ?e]
          refuse_view(2) [OF a(2-5)[unfolded e] B(1) hi, of "active_slots H" "\<lparr>physical = ?h, marking = m\<rparr>"] mi(1) by (simp add: vm)
    qed
    then show "same_view ?e ?h h'" "mark_inv (active_slots H) \<lparr>physical = h', marking = m\<rparr>" by simp_all
  qed
  have sw: "\<exists>act avs. heap_at {} h' act avs \<and> swept h' ?e act" if "heap_at {} ?h act avs" "swept ?h ?e act" for act avs
    using heap_reserve_at [OF that(1) par, of mem limit]
  proof (elim disjE exE conjE)
    fix rv h2 avs2 assume a: "heap_reserve tt mem alloc d limit ?h = (Ok rv, h2)"
      "heap_at {} h2 (if contents (allocations ?h) (rpage rv) = None then rpage rv # act else act) avs2"
    have e: "h2 = h'" using a(1) run by simp
    have "swept h' ?e (if contents (allocations ?h) (rpage rv) = None then rpage rv # act else act)"
      by (rule swept_reserve [OF that(2) sv cu, where i = "rpage rv"]) auto
    then show ?thesis using a(2) e by blast
  next
    fix e h2 assume a: "heap_reserve tt mem alloc d limit ?h = (Err e, h2)" "heap_at {} h2 act avs"
    have e: "h2 = h'" using a(1) run by simp
    have "swept h' ?e act" by (rule swept_reserve [OF that(2) sv cu]) auto
    then show ?thesis using a(2) e by blast
  qed
  show "gc_inv P E C S D H' r" "carries H H'"
    using view_inv [OF inv c H' hi mk sv sw] cu by simp_all
  show "(\<exists>rv. x = Ok rv \<and> held_slot rv h') \<or> (\<exists>e. x = Err e)" by (rule step)
  show "descriptors_of h' = descriptors_of ?h" using sv by (simp add: same_view_def)
qed

lemma rollback_step:
  assumes inv: "gc_inv P E C S D H r" and rv: "held_slot rv (gphysical H)"
  shows "\<exists>h'. guard_rollback rv (x, H) = (x, H\<lparr>gphysical := h'\<rparr>) \<and> gc_inv P E C S D (H\<lparr>gphysical := h'\<rparr>) r \<and> carries H (H\<lparr>gphysical := h'\<rparr>)"
proof -
  let ?h = "gphysical H" and ?e = "mepoch (gmarking H)"
  note B = inv_base [OF inv]
  from B(1) obtain act avs where ha: "heap_at {} ?h act avs" by (auto simp: heap_inv_def)
  have vp: "physical (visitor H) = ?h" by simp
  from release_view [OF ha rv B(4) vp, of ?e] obtain h' act' avs' where h': "heap_rollback rv ?h = (Ok (), h')" "heap_at {} h' act' avs'" "same_view ?e ?h h'"
    "mark_inv (active_slots H) ((visitor H)\<lparr>physical := h'\<rparr>)" "cpage (cursor ?h) = None \<longrightarrow> cpage (cursor h') = None"
    by (elim exE conjE) (rule that)
  have hi: "heap_inv h'" using h'(2) by (auto simp: heap_inv_def)
  have sw: "\<exists>act avs. heap_at {} h' act avs \<and> swept h' ?e act" if "heap_at {} ?h act avs" "swept ?h ?e act" for act avs
    using release_view [OF that(1) rv B(4) vp, of ?e] that(2) h'(1) by (elim exE conjE) auto
  have mk: "mark_inv (active_slots H) \<lparr>physical = h', marking = gmarking H\<rparr>" using h'(4) by (simp add: visitor_def)
  have "guard_rollback rv (x, H) = (x, H\<lparr>gphysical := h'\<rparr>)" using h'(1) by (simp add: guard_rollback_def)
  moreover have "gc_inv P E C S D (H\<lparr>gphysical := h'\<rparr>) r \<and> carries H (H\<lparr>gphysical := h'\<rparr>)"
    using view_inv [OF inv _ _ hi mk h'(3) sw, of "pcapacity (gmarking H)" "H\<lparr>gphysical := h'\<rparr>"] h'(5) by simp
  ultimately show ?thesis by blast
qed

lemma rollback_phase: "snd (guard_rollback rv (x, H)) = H\<lparr>gphysical := snd (heap_rollback rv (gphysical H))\<rparr>"
  by (auto simp: guard_rollback_def split: prod.splits outcome.splits)

text \<open>A new object is born black while a cycle is under way.\<close>

lemma admit_step:
  assumes inv: "gc_inv P E C S D H r" and rv: "held_slot rv (gphysical H)" and run: "admit_object rv H = (x, H')"
  shows "x = Ok ()" "gc_inv P E C S D H' r" "carries H H'" "held_slot rv (gphysical H')" "H' = H\<lparr>gphysical := gphysical H'\<rparr>"
    "mphase (gmarking H) \<noteq> Idle \<Longrightarrow> black_at (gphysical H') (mepoch (gmarking H)) (rpage rv) (rslot rv) \<and> found_at (gphysical H') (mepoch (gmarking H)) (rpage rv) (rslot rv)"
    "descriptors_of (gphysical H') = descriptors_of (gphysical H)" "same_objects (gphysical H) (gphysical H')"
proof -
  let ?h = "gphysical H" and ?e = "mepoch (gmarking H)" and ?i = "rpage rv" and ?s = "rslot rv"
  note B = inv_base [OF inv]
  have u: "slot_at ?h ?i ?s = Unavailable" "slot_address ?h ?i ?s = Some (rreference rv)" using rv by (simp_all add: held_slot_def)
  have goal: "x = Ok () \<and> gc_inv P E C S D H' r \<and> carries H H' \<and> H' = H\<lparr>gphysical := gphysical H'\<rparr> \<and> same_objects ?h (gphysical H') \<and>
    (mphase (gmarking H) \<noteq> Idle \<longrightarrow> black_at (gphysical H') ?e ?i ?s \<and> found_at (gphysical H') ?e ?i ?s)"
  proof (cases "mphase (gmarking H) = Idle")
    case True
    then show ?thesis using run inv by (simp add: admit_object_def marking_admit_def)
  next
    case False
    from occupied_page [of ?h ?i ?s] u(1) obtain p where p: "contents (allocations ?h) ?i = Some p" by auto
    obtain p0 where p0: "table_get ?i (allocations ?h) = Some p0" using contents_get p by blast
    let ?h' = "set_marks ?i (set_black ?s ?e) ?h"
    have hp: "heap_page ?i ?h = Ok p0" using p0 by (simp add: heap_page_def)
    have H': "x = Ok ()" "H' = H\<lparr>gphysical := ?h'\<rparr>"
      using run False hp by (auto simp: admit_object_def marking_admit_def visited_def visitor_def)
    have ng: "\<not> (found_at ?h ?e ?i ?s \<and> \<not> black_at ?h ?e ?i ?s)" using mark_invD(6) [OF B(4), of ?i ?s] u(1) by (auto simp: visitor_def)
    have vp: "physical (visitor H) = ?h" "marking (visitor H) = gmarking H" by simp_all
    note PB = paint_black [OF B(1)[folded vp(1)] B(4), unfolded vp, OF p slot_bound [OF B(1) u(2)] disjI2 [OF ng] refl]
    have v': "(visitor H)\<lparr>physical := ?h'\<rparr> = \<lparr>physical = ?h', marking = gmarking H\<rparr>" by (simp add: visitor_def)
    have nA: "(?i, ?s) \<notin> active_slots H" using u(1) by (auto simp: active_slots_def split: option.splits)
    have mk: "mark_inv (active_slots H) \<lparr>physical = ?h', marking = gmarking H\<rparr>" using PB(3) nA by (simp add: v')
    have so: "same_objects ?h ?h'" "heap_inv ?h'" using PB(1,2) by (simp_all add: v')
    have col: "found_at ?h' ?e j t \<longleftrightarrow> found_at ?h ?e j t \<or> (j, t) = (?i, ?s)" "black_at ?h' ?e j t \<longleftrightarrow> black_at ?h ?e j t \<or> (j, t) = (?i, ?s)" for j t
      using PB(4,5) by (simp_all add: v')
    have sv: "same_view ?e ?h ?h'" using so(1) col u(1) by (auto simp: same_view_def same_objects_def)
    have sw: "\<exists>act avs. heap_at {} ?h' act avs \<and> swept ?h' ?e act" if "heap_at {} ?h act avs" "swept ?h ?e act" for act avs
    proof -
      have "swept ?h' ?e act" by (rule swept_reserve [OF that(2) sv]) (use so(1) in \<open>auto simp: same_objects_def\<close>)
      moreover have "heap_at {} ?h' act avs" using that(1) so(1) by (simp add: same_objects_def)
      ultimately show ?thesis by blast
    qed
    have "gc_inv P E C S D H' r" "carries H H'"
      using view_inv [OF inv _ _ so(2) mk sv sw, of "pcapacity (gmarking H)" H'] so(1) H'(2) by (simp_all add: same_objects_def)
    then show ?thesis using H' so(1) col by simp
  qed
  then show "x = Ok ()" "gc_inv P E C S D H' r" "carries H H'" "H' = H\<lparr>gphysical := gphysical H'\<rparr>"
    "mphase (gmarking H) \<noteq> Idle \<Longrightarrow> black_at (gphysical H') ?e ?i ?s \<and> found_at (gphysical H') ?e ?i ?s" "same_objects ?h (gphysical H')" by auto
  show "held_slot rv (gphysical H')" using goal held_slot_same rv by blast
  show "descriptors_of (gphysical H') = descriptors_of ?h" using goal by (simp add: same_objects_def)
qed

end

text \<open>The heap after a slot has become an object.\<close>

lemma committed_sets:
  assumes inv: "heap_inv h" "heap_inv h'" and rv: "held_slot rv h"
    and r: "slot_at h' = set_slot (rpage rv) (rslot rv) Occupied (slot_at h)" "slot_address h' (rpage rv) (rslot rv) = Some (rreference rv)"
      "keeps_blocks h h'" "marks_at h' = marks_at h"
      "memory h' = (memory h)(rreference rv \<mapsto> \<lparr>hdescriptor = i, hallocation = rpage rv\<rparr>)" "recounted i n (descriptors_of h) (descriptors_of h')"
      "registered i (descriptors_of h) = Some en"
  shows "rreference rv \<notin> live_set h" "live_set h' = insert (rreference rv) (live_set h)"
    "found_set h' e = found_set h e \<union> (if found_at h e (rpage rv) (rslot rv) then {rreference rv} else {})"
    "black_set h' e = black_set h e \<union> (if black_at h e (rpage rv) (rslot rv) then {rreference rv} else {})"
    "descriptor_at h' (rreference rv) = Some (entry_descriptor en)"
    "b \<noteq> rreference rv \<Longrightarrow> descriptor_at h' b = descriptor_at h b"
proof -
  let ?i = "rpage rv" and ?s = "rslot rv" and ?a = "rreference rv"
  have u: "slot_at h ?i ?s = Unavailable" "slot_address h ?i ?s = Some ?a" using rv by (simp_all add: held_slot_def)
  note C = marks_colours [OF r(4)]
  have ad: "slot_address h' j t = slot_address h j t" if "slot_at h j t = Occupied" for j t
    using slot_address_kept [OF r(3) occupied_page, of j t] that by simp
  have occ: "slot_at h' j t = Occupied \<longleftrightarrow> slot_at h j t = Occupied \<or> (j, t) = (?i, ?s)" for j t using r(1) by (auto simp: set_slot_def)
  show "?a \<notin> live_set h"
  proof
    assume "?a \<in> live_set h"
    then obtain j t where "slot_at h j t = Occupied" "slot_address h j t = Some ?a" by (auto simp: live_set_def)
    with address_inj [OF inv(1) u(2)] u(1) show False by auto
  qed
  have sets: "{b. \<exists>j t. slot_at h' j t = Occupied \<and> slot_address h' j t = Some b \<and> Q j t} =
      {b. \<exists>j t. slot_at h j t = Occupied \<and> slot_address h j t = Some b \<and> Q j t} \<union> (if Q ?i ?s then {?a} else {})" (is "?L = ?R") for Q
  proof
    show "?L \<subseteq> ?R" using occ ad r(2) by (auto; metis)
    show "?R \<subseteq> ?L" using occ ad r(2) by (auto split: if_splits) metis+
  qed
  show "live_set h' = insert ?a (live_set h)" using sets [of "\<lambda>_ _. True"] by (simp add: live_set_def)
  show "found_set h' e = found_set h e \<union> (if found_at h e ?i ?s then {?a} else {})" using sets [of "found_at h e"] by (simp only: found_set_def C)
  show "black_set h' e = black_set h e \<union> (if black_at h e ?i ?s then {?a} else {})" using sets [of "black_at h e"] by (simp only: black_set_def C)
  show "descriptor_at h' ?a = Some (entry_descriptor en)" using r(5-7) by (simp add: descriptor_at_def header_descriptor_def recounted_def)
  show "descriptor_at h' b = descriptor_at h b" if "b \<noteq> ?a" using that r(5) recounted_descriptors [OF r(6)]
    by (simp add: descriptor_at_def header_descriptor_def)
qed

context collector
begin

lemma commit_step:
  assumes inv: "gc_inv P E C S D H r" and rv: "held_slot rv (gphysical H)"
    and born: "mphase (gmarking H) \<noteq> Idle \<longrightarrow> black_at (gphysical H) (mepoch (gmarking H)) (rpage rv) (rslot rv) \<and> found_at (gphysical H) (mepoch (gmarking H)) (rpage rv) (rslot rv)"
    and d: "registered (desc_id d) (descriptors_of (gphysical H)) = Some en" "entry_descriptor en = d"
    and x: "payload_fits (desc_rep d) x" "payload_edges E d x \<subseteq> secured H"
    and run: "commit_object rv d x bytes H = (y, H')"
  shows "(y = Ok (rreference rv) \<and> gc_inv P E C S D H' r \<and> carries H H' \<and> rreference rv \<in> secured H' \<and> descriptor_at (gphysical H') (rreference rv) = Some d \<and>
      gobjects H' = (gobjects H)(rreference rv \<mapsto> x) \<and> groots H' = groots H)
    \<or> (\<exists>e. y = Err e \<and> H' = H)"
proof (cases "uses en < usize_max")
  case False
  then have "descriptors_retain (desc_id d) (descriptors_of (gphysical H)) = Err (Limit ''descriptor uses'')"
    using d(1) by (simp add: descriptors_retain_def registered_def checked_add_def)
  then have "heap_commit rv (desc_id d) (gphysical H) = (Err (Limit ''descriptor uses''), gphysical H)" by (simp add: heap_commit_def)
  then show ?thesis using run by (auto simp: commit_object_def)
next
  case True
  let ?h = "gphysical H" and ?e = "mepoch (gmarking H)" and ?i = "rpage rv" and ?s = "rslot rv" and ?a = "rreference rv"
  note B = inv_base [OF inv]
  have u: "slot_at ?h ?i ?s = Unavailable" "slot_address ?h ?i ?s = Some ?a" using rv by (simp_all add: held_slot_def)
  from B(1) obtain act0 avs0 where ha: "heap_at {} ?h act0 avs0" by (auto simp: heap_inv_def)
  obtain z h where z: "heap_commit rv (desc_id d) ?h = (z, h)" by (cases "heap_commit rv (desc_id d) ?h")
  from heap_commit_at [OF ha u d(1) True] z have c: "z = Ok ()" "heap_inv h" "cursor h = cursor ?h" "marks_at h = marks_at ?h"
    "dom (contents (allocations h)) = dom (contents (allocations ?h))" "keeps_blocks ?h h" "slot_at h = set_slot ?i ?s Occupied (slot_at ?h)"
    "slot_address h ?i ?s = Some ?a" "memory h = (memory ?h)(?a \<mapsto> \<lparr>hdescriptor = desc_id d, hallocation = ?i\<rparr>)"
    "recounted (desc_id d) (uses en + 1) (descriptors_of ?h) (descriptors_of h)" by (auto simp: heap_inv_def)
  note Z = committed_sets [OF B(1) c(2) rv c(7,8,6,4,9,10) d(1)]
  have sel: "gphysical H' = h" "gmarking H' = gmarking H" "gobjects H' = (gobjects H)(?a \<mapsto> x)" "groots H' = groots H" "gactive H' = gactive H" "gid H' = gid H"
    "groot_cursor H' = groot_cursor H" "gsweep H' = gsweep H" "gworkspace H' = gworkspace H" and y: "y = Ok ?a"
    using run z c(1) by (auto simp: commit_object_def Let_def)
  have da: "descriptor_at h ?a = Some d" using Z(5) d(2) by simp
  have la: "b \<noteq> ?a" if "b \<in> live_set ?h" for b using that Z(1) by blast
  have ed: "edges_at E h (gobjects H') b = edges_at E ?h (gobjects H) b" if "b \<in> live_set ?h" for b
    using la [OF that] Z(6) [of b] by (simp add: edges_at_def sel)
  have ea: "edges_at E h (gobjects H') ?a \<subseteq> secured H" using x(2) da by (simp add: edges_at_def sel)
  have uses: "uses_ok [] h"
  proof -
    have us: "users h k = (if k = desc_id d then insert ?a (users ?h k) else users ?h k)" for k
      using Z(2) la by (auto simp: users_def header_descriptor_def c(9))
    have fin: "finite (users ?h k)" for k
    proof -
      have "users ?h k \<subseteq> live_set ?h" by (auto simp: users_def)
      then show ?thesis using live_finite [OF B(1)] finite_subset by blast
    qed
    have "?a \<notin> users ?h k" for k using Z(1) by (auto simp: users_def)
    then have "uses f = card (users h k)" if "registered k (descriptors_of h) = Some f" for k f
      using that c(10) B(2) d(1) fin by (auto simp: us recounted_def uses_ok_def split: if_splits)
    then show ?thesis by (simp add: uses_ok_def)
  qed
  have typed: "typed_objects P h (gobjects H')"
  proof -
    have "descriptor_fits P (entry_descriptor f)" if "registered k (descriptors_of h) = Some f" for k f
    proof -
      from recounted_descriptors [OF c(10), of k] that obtain f' where "registered k (descriptors_of ?h) = Some f'" "entry_descriptor f' = entry_descriptor f"
        by (cases "registered k (descriptors_of ?h)") auto
      then show ?thesis using B(3) unfolding typed_objects_def by metis
    qed
    moreover have "\<exists>d' x'. descriptor_at h b = Some d' \<and> gobjects H' b = Some x' \<and> payload_fits (desc_rep d') x'" if "b \<in> live_set h" for b
      using that da x(1) Z(2) Z(6) [of b] B(3) by (cases "b = ?a") (auto simp: sel typed_objects_def)
    ultimately show ?thesis by (simp add: typed_objects_def)
  qed
  have own: "aowner ac \<noteq> ?a" if "gactive H = Some ac" for ac
    using that B(8) B(9) Z(1) by (auto simp: phase_inv_def Let_def active_ok_def)
  have as: "active_slots H' = active_slots H"
  proof -
    have "slot_at h j t = Occupied \<and> slot_address h j t = Some b \<longleftrightarrow> slot_at ?h j t = Occupied \<and> slot_address ?h j t = Some b" if "b \<noteq> ?a" for j t b
      using that c(7,8) u(1) slot_address_kept [OF c(6) occupied_page, of j t] by (auto simp: set_slot_def split: if_splits)
    then show ?thesis using own by (auto simp: active_slots_def sel split: option.splits)
  qed
  have mk: "mark_inv (active_slots H) (visitor H')"
    using commit_marks [OF B(1) c(2) B(4) _ u(1) c(7) u(2) c(9,10,6,4,5)] by (simp add: visitor_def sel)
  have roots: "gc_roots S H' r = gc_roots S H r" "cursor_ok H' = cursor_ok H" by (simp_all add: gc_roots_def cursor_ok_def sel)
  have sub: "found_set ?h ?e \<subseteq> live_set ?h" "black_set ?h ?e \<subseteq> live_set ?h" by (rule found_live)+
  have grown: "found_set ?h ?e \<subseteq> found_set h ?e" "black_set ?h ?e \<subseteq> black_set h ?e" using Z(3,4) by blast+
  have new: "found_set h ?e = insert ?a (found_set ?h ?e)" "black_set h ?e = insert ?a (black_set ?h ?e)" if "mphase (gmarking H) \<noteq> Idle"
    using born that Z(3,4) by simp_all
  have cl: "closed_in (edges_at E h (gobjects H')) (insert ?a Y)" if "closed_in (edges_at E ?h (gobjects H)) Y" "Y \<subseteq> live_set ?h" "secured H \<subseteq> Y" for Y
    using that ed ea unfolding closed_in_def by blast
  have tri: "tricolour E H'" if "tricolour E H" "mphase (gmarking H) \<noteq> Idle" "secured H = found_set ?h ?e"
    using that(1,3) ed ea sub unfolding tricolour_def sel new [OF that(2)] by blast
  have ac: "active_ok C H' w" if "active_ok C H w" for w
    using that la [of "aowner w"] Z(2) Z(6) [of "aowner w"] grown(1) by (auto simp: active_ok_def sel)
  have sw: "sweep_inv H'" if swi: "sweep_inv H" and ph: "mphase (gmarking H) = Sweep"
  proof -
    from swi obtain act avs where a: "heap_at {} ?h act avs" "swept ?h ?e act"
      "case gsweep H of SweepPhysical \<Rightarrow> True | SweepRoots n \<Rightarrow> cpage (cursor ?h) = None \<and> n \<le> pending_releases (groots H)
         | SweepDescriptors n \<Rightarrow> cpage (cursor ?h) = None \<and> n \<le> length (dactive (descriptors_of ?h))"
      unfolding sweep_inv_def Let_def by blast
    have h: "heap_at {} h act avs" using heap_commit_at [OF a(1) u d(1) True] z by auto
    have clean: "black_at h ?e j t" if "slot_at ?h j t = Occupied \<Longrightarrow> black_at ?h ?e j t" "slot_at h j t = Occupied" for j t
      using that born ph c(7) marks_colours(2) [OF c(4)] by (cases "j = ?i \<and> t = ?s") (auto simp: set_slot_def split: if_splits)
    have "swept h ?e act" using a(2) clean unfolding swept_def Let_def c(3) by (cases "cpage (cursor ?h)") (simp_all, blast)
    moreover have "case gsweep H of SweepPhysical \<Rightarrow> True | SweepRoots n \<Rightarrow> cpage (cursor h) = None \<and> n \<le> pending_releases (groots H)
         | SweepDescriptors n \<Rightarrow> cpage (cursor h) = None \<and> n \<le> length (dactive (descriptors_of h))"
      using a(3) c(3,10) by (cases "gsweep H") (simp_all add: recounted_def)
    ultimately show ?thesis using h unfolding sweep_inv_def Let_def sel by blast
  qed
  have "phase_inv E C S D H' r"
  proof (cases "mphase (gmarking H)")
    case Idle
    then show ?thesis using B(8) cl [of "live_set ?h"] Z(2) by (auto simp: phase_inv_def Let_def sel roots secured_def)
  next
    case Roots
    then show ?thesis using B(8) cl [of "live_set ?h"] Z(2) tri grown(1) sub(1) by (auto simp: phase_inv_def Let_def sel roots secured_def)
  next
    case Mark
    then show ?thesis using B(8) cl [of "live_set ?h"] Z(2) tri grown(1) sub(1) ac by (auto simp: phase_inv_def Let_def sel roots secured_def)
  next
    case Sweep
    then show ?thesis using B(8) cl [of "black_set ?h ?e"] new sub(2) sw by (auto simp: phase_inv_def Let_def sel roots secured_def)
  qed (use B(9) in auto)
  then have "gc_inv P E C S D H' r" using B(5-7) c(2) uses typed mk by (simp add: gc_inv_def sel as)
  moreover have "carries H H'" using Z(2,6) la grown unfolding carries_def usable_def secured_def sel by (auto split: phase.splits)
  moreover have "?a \<in> secured H'" using new Z(2) B(9) by (auto simp: secured_def sel)
  ultimately show ?thesis using y da sel by simp
qed

end

lemma held_slot_fresh: "heap_inv h \<Longrightarrow> held_slot rv h \<Longrightarrow> rreference rv \<notin> live_set h"
proof
  assume h: "heap_inv h" "held_slot rv h" "rreference rv \<in> live_set h"
  then obtain j t where "slot_at h j t = Occupied" "slot_address h j t = Some (rreference rv)" by (auto simp: live_set_def)
  with address_inj [OF h(1), of "rpage rv" "rslot rv" "rreference rv" j t] h(2) show False by (auto simp: held_slot_def)
qed

context collector
begin

lemma publish_initial_ok:
  assumes inv: "gc_inv P E C S D H r" and x: "payload_fits (desc_rep d) x"
    and val: "\<And>y v. validate x (visitor H) = Some (y, v) \<Longrightarrow> validated P E C S D H r (payload_edges E d x) y v"
    and run: "publish_initial P d validate x H = Some (y, H')"
  shows "(\<exists>v. H' = visited v H \<and> gc_inv P E C S D H' r \<and> carries H H' \<and> same_objects (gphysical H) (gphysical H')) \<and>
      ((\<exists>e. y = Err e) \<or> (\<exists>n. y = Ok n \<and> payload_edges E d x \<subseteq> secured H'))
    \<or> (\<exists>e. y = Err e) \<and> mphase (gmarking H') = Faulted"
proof -
  define c where "c = and_then (descriptor_charge P d x) (\<lambda>charge. ledger_check (gledger H) 0 charge (max_indirect_bytes (gconfig H)))"
  note dfn = publish_initial_def [of P d validate x H, folded c_def]
  have self: "\<exists>v. H = visited v H" by (rule exI [of _ "visitor H"]) simp
  show ?thesis
  proof (cases c)
    case (Ok n)
    then obtain z v where z: "validate x (visitor H) = Some (z, v)" using run by (cases "validate x (visitor H)") (auto simp: dfn)
    note V = val [OF z, unfolded validated_def]
    show ?thesis using run Ok z V by (cases z) (auto simp: dfn set_phase_def)
  next
    case (Err e)
    then show ?thesis using run inv self by (auto simp: dfn)
  next
    case (Panic m)
    then show ?thesis using run by (auto simp: dfn set_phase_def)
  qed
qed

lemma construct_ok:
  assumes inv: "gc_inv P E C S D H r" and rv: "held_slot rv (gphysical H)"
    and d: "registered (desc_id d) (descriptors_of (gphysical H)) = Some en" "entry_descriptor en = d"
    and x: "\<And>x. built = Ok x \<Longrightarrow> payload_fits (desc_rep d) x"
    and val: "\<And>x y v. built = Ok x \<Longrightarrow> validate x (visitor H) = Some (y, v) \<Longrightarrow> validated P E C S D H r (payload_edges E d x) y v"
    and run: "construct P d built validate rv H = Some (y, H')"
  shows "allocated P E C S D H r d y H' \<or> mphase (gmarking H') = Faulted"
proof -
  have undo: "y = y' \<and> allocated P E C S D H r d y H'" if g: "guard_rollback rv (y', H1) = (y, H')" and H1: "gobjects H1 = gobjects H" "groots H1 = groots H"
    and b: "gc_inv P E C S D H1 r" "carries H H1" "held_slot rv (gphysical H1)" "\<And>a. y' \<noteq> Ok a" for y' H1
  proof -
    from rollback_step [OF b(1,3), of y'] g obtain h' where h': "H' = H1\<lparr>gphysical := h'\<rparr>" "y = y'" "gc_inv P E C S D H' r" "carries H1 H'" by auto
    then show ?thesis using H1 b(4) carries_trans [OF b(2) h'(4)] by (cases y') (auto simp: allocated_def)
  qed
  show ?thesis
  proof (cases built)
    case (Ok x)
    then obtain z H1 where z: "publish_initial P d validate x H = Some (z, H1)" using run by (cases "publish_initial P d validate x H") (auto simp: construct_def)
    define s where "s = heap_then (heap_reads (\<lambda>_. z)) (\<lambda>bytes. heap_then (admit_object rv) (\<lambda>_. commit_object rv d x bytes)) H1"
    have run': "(case s of (Ok a, H) \<Rightarrow> Some (Ok a, H) | s \<Rightarrow> Some (guard_rollback rv s)) = Some (y, H')" using run Ok z by (simp add: construct_def s_def)
    have "(\<exists>v. H1 = visited v H \<and> gc_inv P E C S D H1 r \<and> carries H H1 \<and> same_objects (gphysical H) (gphysical H1)) \<and>
      ((\<exists>e. z = Err e) \<or> (\<exists>n. z = Ok n \<and> payload_edges E d x \<subseteq> secured H1))
    \<or> (\<exists>e. z = Err e) \<and> mphase (gmarking H1) = Faulted"
      by (rule publish_initial_ok [OF inv x [OF Ok] _ z]) (rule val [OF Ok])
    then show ?thesis
    proof (elim disjE conjE exE)
      fix e assume a: "z = Err e" "mphase (gmarking H1) = Faulted"
      then have "guard_rollback rv (Err e, H1) = (y, H')" using run' by (simp add: s_def heap_then_def)
      then have "H' = H1\<lparr>gphysical := snd (heap_rollback rv (gphysical H1))\<rparr>" using rollback_phase [of rv "Err e :: nat gc_result" H1] by simp
      then show ?thesis using a(2) by simp
    next
      fix v e assume a: "H1 = visited v H" "gc_inv P E C S D H1 r" "carries H H1" "same_objects (gphysical H) (gphysical H1)" "z = Err e"
      then have g: "guard_rollback rv (Err e, H1) = (y, H')" using run' by (simp add: s_def heap_then_def)
      show ?thesis using undo [OF g _ _ a(2,3)] held_slot_same [OF a(4)] rv a(1) by auto
    next
      fix v n assume a: "H1 = visited v H" "gc_inv P E C S D H1 r" "carries H H1" "same_objects (gphysical H) (gphysical H1)" "z = Ok n" "payload_edges E d x \<subseteq> secured H1"
      have rv1: "held_slot rv (gphysical H1)" using held_slot_same [OF a(4)] rv by simp
      obtain w H2 where w: "admit_object rv H1 = (w, H2)" by (cases "admit_object rv H1")
      note A = admit_step [OF a(2) rv1 w]
      have s: "s = commit_object rv d x n H2" using a(5) w A(1) by (simp add: s_def heap_then_def)
      obtain q H3 where q: "commit_object rv d x n H2 = (q, H3)" by (cases "commit_object rv d x n H2")
      have c2: "carries H H2" using carries_trans [OF a(3) A(3)] .
      have "descriptors_of (gphysical H2) = descriptors_of (gphysical H)" using A(7) a(4) by (simp add: same_objects_def)
      then have d2: "registered (desc_id d) (descriptors_of (gphysical H2)) = Some en" using d(1) by simp
      have x2: "payload_edges E d x \<subseteq> secured H2" using a(6) A(3) by (auto simp: carries_def)
      have m2: "gmarking H2 = gmarking H1" by (subst A(5)) simp
      have born: "mphase (gmarking H2) \<noteq> Idle \<longrightarrow> black_at (gphysical H2) (mepoch (gmarking H2)) (rpage rv) (rslot rv) \<and> found_at (gphysical H2) (mepoch (gmarking H2)) (rpage rv) (rslot rv)"
        using A(6) by (simp add: m2)
      have parts: "groots H2 = groots H" "gobjects H2 = gobjects H" using a(1) by (subst A(5), simp)+
      from commit_step [OF A(2,4) born d2 d(2) x [OF Ok] x2 q] show ?thesis
      proof (elim disjE conjE exE)
        assume b: "q = Ok (rreference rv)" "gc_inv P E C S D H3 r" "carries H2 H3" "rreference rv \<in> secured H3" "descriptor_at (gphysical H3) (rreference rv) = Some d"
          "gobjects H3 = (gobjects H2)(rreference rv \<mapsto> x)" "groots H3 = groots H2"
        then have "y = Ok (rreference rv)" "H' = H3" using run' s q by simp_all
        moreover have "rreference rv \<notin> live_set (gphysical H)" using held_slot_fresh inv_base(1) [OF inv] rv by blast
        ultimately show ?thesis using b parts carries_trans [OF c2 b(3)] by (simp add: allocated_def)
      next
        fix e assume b: "q = Err e" "H3 = H2"
        then have g: "guard_rollback rv (Err e, H2) = (y, H')" using run' s q by simp
        show ?thesis using undo [OF g parts(2,1) A(2) c2 A(4)] by auto
      qed
    qed
  next
    case (Err e)
    then have g: "guard_rollback rv (Err e, H) = (y, H')" using run by (simp add: construct_def)
    show ?thesis using undo [OF g refl refl inv carries_refl rv] by auto
  next
    case (Panic m)
    then have g: "guard_rollback rv (Panic m, H) = (y, H')" using run by (simp add: construct_def)
    show ?thesis using undo [OF g refl refl inv carries_refl rv] by auto
  qed
qed

end

section \<open>Registration\<close>

lemma registry_length:
  assumes "registry_inv ds" "registry_inv ds'" "\<And>j. registered j ds \<noteq> None \<Longrightarrow> registered j ds' \<noteq> None"
  shows "length (dactive ds) \<le> length (dactive ds')"
proof -
  have "set (dactive ds) \<subseteq> set (dactive ds')" using assms by (auto simp: registry_inv_def)
  moreover have "distinct (dactive ds)" "distinct (dactive ds')" using assms(1,2) by (simp_all add: registry_inv_def)
  ultimately show ?thesis using card_mono [of "set (dactive ds')" "set (dactive ds)"] by (simp add: distinct_card)
qed

lemma header_extended:
  assumes "layout_extend header_layout l = Some (m, off)" "0 < lalign l"
  shows "0 < lsize m"
  using assms(1) round_up_spec(1) [OF assms(2), of 8] by (auto simp: layout_extend_def header_layout_def Let_def split: if_splits)

lemma descriptor_new_ok: "descriptor_new T i = Ok d \<Longrightarrow> 0 < lalign (type_layout T) \<Longrightarrow> descriptor_ok d"
  by (auto simp: descriptor_new_def descriptor_ok_def header_extended page_group_spec(1) split: if_splits)

lemma descriptor_dynamic_ok: "descriptor_dynamic i s = Ok d \<Longrightarrow> 0 < lalign (slayout s) \<Longrightarrow> descriptor_ok d"
  by (auto simp: descriptor_dynamic_def descriptor_ok_def header_extended page_group_spec(1))

text \<open>A registry that keeps every entry; an entry it adds has no user yet.\<close>

definition registry_extends :: "('o, 's) provider \<Rightarrow> descriptors \<Rightarrow> descriptors \<Rightarrow> bool" where
  "registry_extends P ds ds' \<longleftrightarrow> registry_inv ds' \<and>
     (\<forall>j e. registered j ds = Some e \<longrightarrow> registered j ds' = Some e) \<and>
     (\<forall>j e. registered j ds' = Some e \<longrightarrow> registered j ds = None \<longrightarrow> descriptor_fits P (entry_descriptor e) \<and> uses e = 0)"

lemma refused_extends: "registry_refused ds ds' \<Longrightarrow> registry_extends P ds ds'"
  by (auto simp: registry_refused_def registry_extends_def)

context collector
begin

lemma registry_step:
  assumes inv: "gc_inv P E C S D H r" and ds: "registry_extends P (descriptors_of (gphysical H)) ds"
    and H': "H' = H\<lparr>gphysical := (gphysical H)\<lparr>descriptors_of := ds\<rparr>\<rparr>"
  shows "gc_inv P E C S D H' r" "carries H H'"
proof -
  let ?h = "gphysical H" and ?e = "mepoch (gmarking H)"
  define h' where "h' = ?h\<lparr>descriptors_of := ds\<rparr>"
  note B = inv_base [OF inv]
  have ri: "registry_inv ds" using ds by (simp add: registry_extends_def)
  have same: "slot_at h' = slot_at ?h" "slot_address h' = slot_address ?h" "marks_at h' = marks_at ?h" "cursor h' = cursor ?h" "memory h' = memory ?h"
      "descriptors_of h' = ds" "page_count h' = page_count ?h" "allocations h' = allocations ?h"
    by (simp_all add: h'_def slot_at_def slot_address_def marks_at_def fun_eq_iff page_count_def)
  note col = marks_colours [OF same(3)]
  have sets: "live_set h' = live_set ?h" "black_set h' e = black_set ?h e" "found_set h' e = found_set ?h e" for e
    by (simp_all add: live_set_def black_set_def found_set_def same col)
  have reg: "registered c ds = registered c (descriptors_of ?h)" if "registered c (descriptors_of ?h) \<noteq> None" for c
    using ds that by (auto simp: registry_extends_def)
  have live: "\<exists>c. memory ?h a = Some \<lparr>hdescriptor = c, hallocation = j\<rparr> \<and> registered c (descriptors_of ?h) \<noteq> None"
    if "slot_at ?h j s = Occupied" "slot_address ?h j s = Some a" for j s a
    using object_at_occupied [OF B(1) that] by blast
  have hd: "header_descriptor h' = header_descriptor ?h" by (simp add: header_descriptor_def same fun_eq_iff)
  have da: "descriptor_at h' a = descriptor_at ?h a" if l: "a \<in> live_set ?h" for a
  proof -
    from l obtain j s where "slot_at ?h j s = Occupied" "slot_address ?h j s = Some a" by (auto simp: live_set_def)
    from live [OF this] reg show ?thesis by (auto simp: descriptor_at_def header_descriptor_def same)
  qed
  have ha': "heap_at {} h' act avs" if ha: "heap_at {} ?h act avs" for act avs
  proof -
    have "memory_ok (memory ?h) ds (contents (allocations ?h))" using heap_atD(7) [OF ha] ri reg unfolding memory_ok_def by metis
    then show ?thesis using ha by (simp add: heap_at_def Let_def h'_def)
  qed
  have hi: "heap_inv h'" using B(1) ha' unfolding heap_inv_def by blast
  have leaf: "leaf_at h' j s = leaf_at ?h j s" if o: "slot_at ?h j s = Occupied" for j s
  proof -
    obtain a where a: "slot_address ?h j s = Some a" using occupied_address [OF B(1), of j s] o by (metis slot_status.distinct(3))
    from live [OF o a] reg a show ?thesis by (auto simp: leaf_at_def same)
  qed
  have mk: "mark_inv (active_slots H) ((visitor H)\<lparr>physical := h'\<rparr>)"
  proof (rule mark_inv_transfer [OF B(1) hi B(4) _ _ _ _ _ refl])
    show "page_count h' \<le> pcapacity (marking (visitor H))" using mark_invD(7) [OF B(4)] by (simp add: same)
    show "black_at h' (mepoch (marking (visitor H))) j t \<Longrightarrow> found_at h' (mepoch (marking (visitor H))) j t" for j t using mark_invD(5) [OF B(4)] by (simp add: col)
  qed (use leaf in \<open>auto simp: col same\<close>)
  have sel: "gphysical H' = h'" "gmarking H' = gmarking H" "gobjects H' = gobjects H" "groots H' = groots H" "gactive H' = gactive H" "gid H' = gid H"
    "groot_cursor H' = groot_cursor H" "gsweep H' = gsweep H" "gworkspace H' = gworkspace H" by (simp_all add: H' h'_def)
  have ed: "edges_at E h' (gobjects H) a = edges_at E ?h (gobjects H) a" if "a \<in> live_set ?h" for a using da [OF that] by (simp add: edges_at_def)
  have uses: "uses_ok [] h'"
  proof -
    have "users h' c = users ?h c" for c by (simp add: users_def sets hd)
    moreover have "users ?h i = {}" if new: "registered i (descriptors_of ?h) = None" for i
    proof -
      have "header_descriptor ?h a \<noteq> Some i" if "a \<in> live_set ?h" for a
      proof -
        from that obtain j s where "slot_at ?h j s = Occupied" "slot_address ?h j s = Some a" by (auto simp: live_set_def)
        from live [OF this] new show ?thesis by (auto simp: header_descriptor_def)
      qed
      then show ?thesis by (auto simp: users_def)
    qed
    ultimately have "uses en = card (users h' c)" if "registered c ds = Some en" for c en
      using that ds B(2) reg [of c] by (cases "registered c (descriptors_of ?h)") (auto simp: registry_extends_def uses_ok_def)
    then show ?thesis by (simp add: uses_ok_def same)
  qed
  have typed: "typed_objects P h' (gobjects H)"
  proof -
    have "descriptor_fits P (entry_descriptor f)" if "registered k ds = Some f" for k f
      using that ds B(3) by (cases "registered k (descriptors_of ?h)") (auto simp: registry_extends_def typed_objects_def)
    then show ?thesis using B(3) da unfolding typed_objects_def sets same(6) by metis
  qed
  have len: "length (dactive (descriptors_of ?h)) \<le> length (dactive ds)"
  proof (rule registry_length [OF _ ri])
    from B(1) obtain act avs where "heap_at {} ?h act avs" by (auto simp: heap_inv_def)
    then show "registry_inv (descriptors_of ?h)" using heap_atD(7) by (fastforce simp: memory_ok_def)
  qed (use reg in simp)
  have as: "active_slots H' = active_slots H" by (simp add: active_slots_def sel same split: option.splits)
  have view: "cursor_ok H' = cursor_ok H" "gc_roots S H' r = gc_roots S H r" unfolding cursor_ok_def gc_roots_def sel by (rule refl)+
  have cl: "closed_in (edges_at E h' (gobjects H)) Y = closed_in (edges_at E ?h (gobjects H)) Y" if "Y \<subseteq> live_set ?h" for Y
    using ed that unfolding closed_in_def by blast
  have tri: "tricolour E H' = tricolour E H" using ed found_live(2) [of ?h ?e] unfolding tricolour_def sel sets by blast
  have ac: "active_ok C H' w" if "active_ok C H w" for w using that da [of "aowner w"] by (auto simp: active_ok_def sel sets)
  have sw: "sweep_inv H'" if swi: "sweep_inv H"
  proof -
    from swi obtain act avs where a: "heap_at {} ?h act avs" "swept ?h ?e act"
      "case gsweep H of SweepPhysical \<Rightarrow> True | SweepRoots n \<Rightarrow> cpage (cursor ?h) = None \<and> n \<le> pending_releases (groots H)
         | SweepDescriptors n \<Rightarrow> cpage (cursor ?h) = None \<and> n \<le> length (dactive (descriptors_of ?h))"
      unfolding sweep_inv_def Let_def by blast
    have "swept h' ?e act" using a(2) unfolding swept_def Let_def same(1,4) col .
    moreover have "case gsweep H of SweepPhysical \<Rightarrow> True | SweepRoots n \<Rightarrow> cpage (cursor h') = None \<and> n \<le> pending_releases (groots H)
         | SweepDescriptors n \<Rightarrow> cpage (cursor h') = None \<and> n \<le> length (dactive (descriptors_of h'))"
      using a(3) len by (cases "gsweep H") (simp_all add: same)
    ultimately show ?thesis using ha' [OF a(1)] unfolding sweep_inv_def Let_def sel by blast
  qed
  have "phase_inv E C S D H' r"
    using B(8) B(9) cl [of "live_set ?h"] cl [of "black_set ?h ?e"] found_live(2) [of ?h ?e] sw ac tri
    unfolding phase_inv_def Let_def sel view sets by (cases "mphase (gmarking H)") auto
  then show "gc_inv P E C S D H' r" using B mk hi uses typed by (simp add: gc_inv_def sel as visitor_def)
  show "carries H H'" using da unfolding carries_def usable_def secured_def sel sets by (simp split: phase.splits)
qed

end

lemma descriptor_new_fits:
  "descriptor_new T i = Ok d \<Longrightarrow> 0 < lalign (type_layout T) \<Longrightarrow> kind_of P (type_id T) = type_kind T \<Longrightarrow> descriptor_fits P d"
  using descriptor_new_ok [of T i d] by (auto simp: descriptor_fits_def descriptor_new_def split: if_splits)

lemma descriptor_dynamic_fits: "descriptor_dynamic i s = Ok d \<Longrightarrow> 0 < lalign (slayout s) \<Longrightarrow> descriptor_fits P d"
  using descriptor_dynamic_ok [of i s d] by (auto simp: descriptor_fits_def descriptor_dynamic_def)

lemma register_descriptor:
  assumes "register mem T ds = Ok (ds', d)" "map_of (dtypes ds) (type_id T) = None"
  shows "\<exists>i. descriptor_new T i = Ok d"
  using assms by (auto simp: register_def split: if_splits)

lemma register_dynamic_descriptor:
  assumes "register_dynamic mem s ds = Ok (ds', d)"
  shows "\<exists>i. descriptor_dynamic i s = Ok d"
  using assms by (auto simp: register_dynamic_def)

lemma shape_aligned: "shape_new mem b = Ok s \<Longrightarrow> 0 < lalign (slayout s)"
  using shape_new_spec(7) [of mem b s] by auto

lemma check_allocation_Ok:
  "check_allocation heap d H = Ok () \<Longrightarrow> \<exists>en. registered (desc_id d) (descriptors_of (gphysical H)) = Some en \<and> entry_descriptor en = d"
  by (auto simp: check_allocation_def descriptors_get_def registered_def split: if_splits)

context collector
begin

lemma registry_known:
  assumes inv: "gc_inv P E C S D H r"
  shows "registry_inv (descriptors_of (gphysical H))"
proof -
  obtain act avs where a: "heap_at {} (gphysical H) act avs" using inv_base(1) [OF inv] unfolding heap_inv_def by blast
  show ?thesis using heap_atD(7) [OF a] by (simp add: memory_ok_def)
qed

lemma with_registry_ok:
  assumes inv: "gc_inv P E C S D H r" and run: "with_registry reg failed room H = (x, H')"
    and reg: "\<And>ds d. reg (descriptors_of (gphysical H)) = Ok (ds, d) \<Longrightarrow> registry_extends P (descriptors_of (gphysical H)) ds"
    and failed: "registry_extends P (descriptors_of (gphysical H)) (failed (descriptors_of (gphysical H)))"
  shows "gc_inv P E C S D H' r \<and> carries H H' \<and> gobjects H' = gobjects H \<and> (\<forall>d. x = Ok d \<longrightarrow> (\<exists>ds. reg (descriptors_of (gphysical H)) = Ok (ds, d)))"
proof -
  have step: "gc_inv P E C S D (set_registry ds H) r \<and> carries H (set_registry ds H)" if "registry_extends P (descriptors_of (gphysical H)) ds" for ds
    using registry_step [OF inv that set_registry_def [of ds H]] by blast
  have strong: "gc_inv P E C S D (K\<lparr>gstrong := f\<rparr>) r \<longleftrightarrow> gc_inv P E C S D K r" "carries H (K\<lparr>gstrong := f\<rparr>) \<longleftrightarrow> carries H K" for K f
    by (simp_all add: gc_inv_def phase_inv_def Let_def visitor_def active_slots_def gc_roots_def cursor_ok_def tricolour_def active_ok_def sweep_inv_def
      carries_def usable_def secured_def split: phase.splits option.splits cong: sweep_stage.case_cong)
  have "gobjects (set_registry ds H) = gobjects H" for ds by (simp add: set_registry_def)
  then show ?thesis using run inv inv_base(10) [OF inv] strong step [OF failed] step [OF reg]
    by (auto simp: with_registry_def heap_then_def Let_def split: if_splits outcome.splits)
qed

lemma access_register_ok:
  assumes inv: "gc_inv P E C S D H r" and T: "0 < lalign (type_layout T)" "kind_of P (type_id T) = type_kind T" and run: "access_register mem room T H = (x, H')"
  shows "gc_inv P E C S D H' r \<and> carries H H' \<and> gobjects H' = gobjects H"
proof -
  note ri = registry_known [OF inv]
  have "registry_extends P (descriptors_of (gphysical H)) ds"
    if "register mem T (descriptors_of (gphysical H)) = Ok (ds, d)" for ds d
  proof (cases "map_of (dtypes (descriptors_of (gphysical H))) (type_id T)")
    case None
    then show ?thesis using register_new [OF ri None that] register_descriptor [OF that None] descriptor_new_fits T
      by (auto simp: registry_extends_def split: if_splits)
  next
    case (Some i)
    then show ?thesis using register_known [OF ri Some, of mem] that ri by (auto simp: registry_extends_def)
  qed
  then show ?thesis
    using with_registry_ok [OF inv run [unfolded access_register_def]] refused_extends [OF register_failed_ok [OF ri]] by blast
qed

lemma access_register_dynamic_ok:
  assumes inv: "gc_inv P E C S D H r" and run: "access_register_dynamic mem room b H = (x, H')"
  shows "gc_inv P E C S D H' r \<and> carries H H' \<and> gobjects H' = gobjects H"
proof -
  note ri = registry_known [OF inv]
  let ?reg = "\<lambda>ds. and_then (shape_new mem b) (\<lambda>shape. register_dynamic mem shape ds)"
  let ?failed = "\<lambda>ds. case shape_new mem b of Ok shape \<Rightarrow> register_dynamic_failed mem shape ds | Err e \<Rightarrow> ds | Panic m \<Rightarrow> ds"
  have f: "registry_extends P (descriptors_of (gphysical H)) (?failed (descriptors_of (gphysical H)))"
    using refused_extends [OF register_dynamic_failed_ok [OF ri]] refused_extends [OF refused_refl [OF ri]]
    by (auto split: outcome.splits)
  have w: "gc_inv P E C S D H1 r \<and> carries H H1 \<and> gobjects H1 = gobjects H" if "with_registry ?reg ?failed room H = (y, H1)" for y H1
  proof -
    have "registry_extends P (descriptors_of (gphysical H)) ds"
      if reg: "?reg (descriptors_of (gphysical H)) = Ok (ds, d)" for ds d
    proof -
      from reg obtain s where s: "shape_new mem b = Ok s" "register_dynamic mem s (descriptors_of (gphysical H)) = Ok (ds, d)" by auto
      from register_dynamic_ok [OF ri s(2)] register_dynamic_descriptor [OF s(2)] descriptor_dynamic_fits [OF _ shape_aligned [OF s(1)]] show ?thesis
        by (auto simp: registry_extends_def split: if_splits)
    qed
    then show ?thesis using with_registry_ok [OF inv that] f by blast
  qed
  show ?thesis using run [unfolded access_register_dynamic_def] by (cases rule: heap_then_cases) (use w in auto)
qed

lemma allocate_initialized_ok:
  assumes inv: "gc_inv P E C S D H r" and par: "supplies tt alloc H"
    and d: "registered (desc_id d) (descriptors_of (gphysical H)) = Some en" "entry_descriptor en = d"
    and x: "\<And>H1 x. carries H H1 \<Longrightarrow> init H1 = Ok x \<Longrightarrow> payload_fits (desc_rep d) x"
    and val: "\<And>H1 x y v. gc_inv P E C S D H1 r \<Longrightarrow> carries H H1 \<Longrightarrow> init H1 = Ok x \<Longrightarrow> validate x (visitor H1) = Some (y, v) \<Longrightarrow>
      validated P E C S D H1 r (payload_edges E d x) y v"
    and run: "allocate_initialized P tt mem slack alloc d init validate H = Some (y, H')"
  shows "allocated P E C S D H r d y H' \<or> mphase (gmarking H') = Faulted"
proof -
  have same: "allocated P E C S D H r d y H" if "\<And>a. y \<noteq> Ok a" for y using that inv by (cases y) (auto simp: allocated_def)
  define j where "j = and_then (ok_or (Limit ''page jobs'') (checked_add (page_count (gphysical H)) 1)) (\<lambda>n. reserve_pages mem slack n (gmarking H))"
  note dfn = allocate_initialized_def [of P tt mem slack alloc d init validate H, folded j_def]
  have dok: "descriptor_ok d" using inv_base(3) [OF inv] d by (auto simp: typed_objects_def descriptor_fits_def)
  show ?thesis
  proof (cases j)
    case (Ok m)
    then have m: "reserve_pages mem slack (page_count (gphysical H) + 1) (gmarking H) = Ok m" by (auto simp: j_def checked_add_def split: if_splits)
    obtain z h where z: "heap_reserve tt mem alloc d (max_backing_bytes (gconfig H)) (gphysical H) = (z, h)"
      by (cases "heap_reserve tt mem alloc d (max_backing_bytes (gconfig H)) (gphysical H)")
    let ?H = "H\<lparr>gphysical := h, gmarking := m\<rparr>"
    have sw: "H\<lparr>gmarking := m, gphysical := h\<rparr> = ?H" by simp
    have R: "gc_inv P E C S D ?H r" "carries H ?H" "(\<exists>rv. z = Ok rv \<and> held_slot rv h) \<or> (\<exists>e. z = Err e)" "descriptors_of h = descriptors_of (gphysical H)"
      using reserve_step [OF inv _ dok _ m z HOL.refl] par by (auto simp: supplies_def)
    from R(3) show ?thesis
    proof (elim disjE exE conjE)
      fix e assume "z = Err e"
      then have "y = Err e" "H' = ?H" using run Ok z by (auto simp: dfn Let_def)
      then show ?thesis using R by (simp add: allocated_def)
    next
      fix rv assume rv: "z = Ok rv" "held_slot rv h"
      then have c: "construct P d (init ?H) validate rv ?H = Some (y, H')" using run Ok z by (simp add: dfn Let_def sw)
      have "allocated P E C S D ?H r d y H' \<or> mphase (gmarking H') = Faulted"
      proof (rule construct_ok [OF R(1) _ _ d(2) _ _ c])
        show "held_slot rv (gphysical ?H)" "registered (desc_id d) (descriptors_of (gphysical ?H)) = Some en" using rv(2) d(1) R(4) by simp_all
        show "payload_fits (desc_rep d) w" if "init ?H = Ok w" for w using x [OF R(2) that] .
        show "validated P E C S D ?H r (payload_edges E d w) u v" if "init ?H = Ok w" "validate w (visitor ?H) = Some (u, v)" for w u v
          using val [OF R(1,2) that] .
      qed
      then show ?thesis
      proof
        assume a: "allocated P E C S D ?H r d y H'"
        have "live_set (gphysical H) \<subseteq> live_set (gphysical ?H)" using R(2) by (auto simp: carries_def)
        then show ?thesis using a carries_trans [OF R(2)] by (cases y) (auto simp: allocated_def)
      qed simp
    qed
  next
    case (Err e)
    then show ?thesis using run same by (auto simp: dfn)
  next
    case (Panic m)
    then show ?thesis using run same by (auto simp: dfn)
  qed
qed

end

lemma guard_rollback_not_Ok: "guard_rollback rv (x, H) = (Ok b, H') \<Longrightarrow> x = Ok b"
  by (auto simp: guard_rollback_def split: prod.splits outcome.splits)

lemma construct_contents:
  assumes "construct P d built validate rv H = Some (Ok a, H')"
  shows "\<exists>x. built = Ok x \<and> gobjects H' a = Some x"
proof (cases built)
  case (Ok x)
  obtain y H1 where p: "publish_initial P d validate x H = Some (y, H1)" using assms Ok by (auto simp: construct_def bind_eq_Some_conv)
  obtain z H2 where z: "heap_then (heap_reads (\<lambda>_. y)) (\<lambda>bytes. heap_then (admit_object rv) (\<lambda>_. commit_object rv d x bytes)) H1 = (z, H2)" by fastforce
  from assms Ok p z have "z = Ok a \<and> H2 = H'" using guard_rollback_not_Ok [of rv z H2 a H'] by (cases z) (auto simp: construct_def)
  then show ?thesis using z Ok by (auto simp: heap_then_def commit_object_def Let_def split: outcome.splits prod.splits)
qed (use assms in \<open>auto simp: construct_def dest: guard_rollback_not_Ok\<close>)

lemma allocate_initialized_contents:
  assumes "allocate_initialized P tt mem slack alloc d init validate H = Some (Ok a, H')"
  shows "\<exists>H1 x. init H1 = Ok x \<and> gobjects H' a = Some x"
  using assms construct_contents by (fastforce simp: allocate_initialized_def Let_def split: outcome.splits prod.splits)

lemma alloc_dynamic_returns: "\<exists>y H'. alloc_dynamic P tt mem slack alloc l H = Some (y, H')"
  by (auto simp: alloc_dynamic_def allocate_initialized_def construct_def publish_initial_def validate_dynamic_def Let_def
    split: outcome.split prod.split)

context collector
begin

lemma allocate_typed_ok:
  assumes inv: "gc_inv P E C S D H r" and par: "supplies tt alloc H" and t: "descriptor_type d = Some t" and c: "check_allocation heap d H0 = Ok u"
    and same: "gphysical H0 = gphysical H"
    and init: "\<And>H1 w. gc_inv P E C S D H1 r \<Longrightarrow> carries H H1 \<Longrightarrow> init H1 = Ok w \<Longrightarrow> E t w \<subseteq> usable H1"
    and run: "allocate_typed P tt mem slack alloc d t init H = Some (y, H')"
  shows "allocated P E C S D H r d y H' \<or> mphase (gmarking H') = Faulted"
proof -
  from c obtain en where en: "registered (desc_id d) (descriptors_of (gphysical H)) = Some en" "entry_descriptor en = d"
    using check_allocation_Ok [of heap d H0] same by auto
  have rep: "desc_rep d = Rust t" using t by (auto simp: descriptor_type_def split: representation.splits)
  show ?thesis
  proof (rule allocate_initialized_ok [OF inv par en _ _ run [unfolded allocate_typed_def]])
    show "payload_fits (desc_rep d) x" if "and_then (init H1) (\<lambda>w. Ok (RustValue w)) = Ok x" for H1 and x :: "'o payload" using that by (auto simp: rep)
    fix H1 x z v
    assume a: "gc_inv P E C S D H1 r" "carries H H1" "and_then (init H1) (\<lambda>w. Ok (RustValue w)) = Ok x" "validate_typed P t x (visitor H1) = Some (z, v)"
    then obtain w where w: "init H1 = Ok w" "x = RustValue w" by auto
    show "validated P E C S D H1 r (payload_edges E d x) z v"
      using validate_typed_ok [OF a(4) [unfolded w(2)] a(1) init [OF a(1,2) w(1)]] by (simp add: w(2) payload_edges_def rep)
  qed
qed

lemma scope_alloc_ok:
  assumes inv: "gc_inv P E C S D H r" and par: "supplies tt alloc H" and t: "descriptor_type d = Some t"
    and init: "\<And>H1 w. gc_inv P E C S D H1 r \<Longrightarrow> carries H H1 \<Longrightarrow> init H1 = Ok w \<Longrightarrow> E t w \<subseteq> usable H1"
    and run: "scope_alloc P tt mem slack alloc heap d t init H = Some (y, H')"
  shows "allocated P E C S D H r d y H' \<or> mphase (gmarking H') = Faulted"
proof (cases "check_allocation heap d H")
  case (Ok u)
  show ?thesis by (rule allocate_typed_ok [OF inv par t Ok refl init]) (use run Ok in \<open>auto simp: scope_alloc_def\<close>)
qed (use run inv in \<open>auto simp: scope_alloc_def allocated_def\<close>)

lemma alloc_dynamic_ok:
  assumes inv: "gc_inv P E C S D H r" and par: "supplies tt alloc H" and run: "alloc_dynamic P tt mem slack alloc l H = Some (y, H')"
  shows "allocated P E C S D H r (dl_descriptor l) y H' \<or> mphase (gmarking H') = Faulted"
proof (cases "and_then (check_allocation (dl_heap l) (dl_descriptor l) H) (\<lambda>_. descriptor_shape (dl_descriptor l))")
  case (Ok shape)
  let ?d = "dl_descriptor l"
  from Ok have c: "check_allocation (dl_heap l) ?d H = Ok ()" and s: "descriptor_shape ?d = Ok shape" by auto
  from check_allocation_Ok [OF c] obtain en where en: "registered (desc_id ?d) (descriptors_of (gphysical H)) = Some en" "entry_descriptor en = ?d" by auto
  have rep: "desc_rep ?d = Dynamic shape" using s by (auto simp: descriptor_shape_def split: representation.splits)
  have r: "allocate_initialized P tt mem slack alloc ?d (\<lambda>_. Ok (shape_initial shape)) validate_dynamic H = Some (y, H')"
    using run Ok by (simp add: alloc_dynamic_def)
  show ?thesis
  proof (rule allocate_initialized_ok [OF inv par en _ _ r])
    fix H1 and x :: "'o payload" and z v
    assume a: "gc_inv P E C S D H1 r" "Ok (shape_initial shape) = Ok x" "validate_dynamic x (visitor H1) = Some (z, v)"
    then show "validated P E C S D H1 r (payload_edges E ?d x) z v"
      by (auto simp: validate_dynamic_def validated_def payload_edges_def rep shape_initial_def record_edges_def)
  qed (auto simp: rep shape_initial_def)
qed (use run inv in \<open>auto simp: alloc_dynamic_def allocated_def\<close>)

text \<open>A new object comes with a root, or with none.\<close>

lemma access_alloc_ok:
  assumes inv: "gc_inv P E C S D H r" and par: "supplies tt alloc H" and t: "descriptor_type d = Some t" and fresh: "fresh_lease ptr (groots H)"
    and init: "\<And>H1 w. gc_inv P E C S D H1 r \<Longrightarrow> carries H H1 \<Longrightarrow> init H1 = Ok w \<Longrightarrow> E t w \<subseteq> usable H1"
    and run: "access_alloc P tt mem slack alloc ptr heap d t init H = Some (y, H')"
  shows "gc_inv P E C S D H' r \<and> carries H H' \<and> (\<forall>l. y = Ok l \<longrightarrow> issued l (groots H') \<and> 0 < strong (groots H') (lease_ptr l)) \<or> mphase (gmarking H') = Faulted"
proof (cases "heap_then (heap_reads (check_allocation heap d)) (\<lambda>_. prepare_root mem slack ptr 1 (Some t)) H")
  case (Pair z H1)
  show ?thesis using Pair
  proof (cases rule: heap_then_cases)
    case (1 u H0)
    then have c: "check_allocation heap d H = Ok u" and p: "prepare_root mem slack ptr 1 (Some t) H = (z, H1)" by auto
    note R = prepare_root_ok [OF inv fresh p]
    from R(4) show ?thesis
    proof (elim disjE exE conjE)
      fix q assume q: "z = Ok q" "preparing q ptr 1 (groots H1)"
      obtain w H2 where a: "allocate_typed P tt mem slack alloc d t init H1 = Some (w, H2)" using run Pair q(1) by (auto simp: access_alloc_def bind_eq_Some_conv)
      from R(3) have phys: "gphysical H = gphysical H1" by auto
      have "allocated P E C S D H1 r d w H2 \<or> mphase (gmarking H2) = Faulted"
        by (rule allocate_typed_ok [OF R(1) _ t c phys _ a]) (use par phys init carries_trans [OF R(2)] in \<open>auto simp: supplies_def\<close>)
      then show ?thesis
      proof
        assume al: "allocated P E C S D H1 r d w H2"
        then have H2: "gc_inv P E C S D H2 r" "carries H1 H2" "preparing q ptr 1 (groots H2)" using q(2) by (auto simp: allocated_def)
        note tr = carries_trans [OF R(2) H2(2)]
        show ?thesis
        proof (cases w)
          case (Ok b)
          then have r: "commit_root q (Some b) H2 = (y, H')" using run Pair q(1) a by (simp add: access_alloc_def)
          have b: "set_option (Some b) \<subseteq> secured H2" using al Ok by (simp add: allocated_def)
          from commit_root_ok [OF H2(1,3) b r] carries_trans [OF tr] show ?thesis by auto
        qed (use run Pair q(1) a abandon_root_ok [OF H2(1,3)] carries_trans [OF tr] in \<open>auto simp: access_alloc_def\<close>)
      next
        assume f: "mphase (gmarking H2) = Faulted"
        show ?thesis using run Pair q(1) a f by (cases w) (auto simp: access_alloc_def commit_root_def abandon_root_def split: prod.splits)
      qed
    next
      fix e assume "z = Err e"
      then show ?thesis using run Pair R by (auto simp: access_alloc_def)
    qed
  qed (use run Pair inv in \<open>auto simp: access_alloc_def\<close>)
qed

end

end
