(* ===== verification/Gc_Loan.thy ===== *)
theory Gc_Loan
  imports Gc_Allocation
begin

text \<open>
  Mutable loans (\<^verbatim>\<open>crates/kagari-gc/src: access/mutation.rs\<close> and the services of \<^verbatim>\<open>Mutation\<close> in
  \<^verbatim>\<open>access.rs\<close>): a reviewed provider edits a Rust object in place while a cycle may be scanning it.

  The loan makes a suspended scan of the object restart unless the provider declares, and keeps to it,
  that what the scan has covered stays covered. The provider's code is a parameter, an operation on
  the services and the heap; \<open>loan_step\<close> states its contract, one rule per service and one for the
  edits: what it stores it has published or found in the object. The loan ends with the accounting of
  the object's owned memory; an operation that fails or unwinds makes the scan restart, and one
  that grows beyond what was admitted faults the heap.
\<close>

section \<open>Definitions\<close>

subsection \<open>Borrowing an object\<close>

record mutation =
  mowner :: nat
  old_charge :: nat
  admitted_bytes :: nat
  continuation :: bool
  scan_reusable :: bool
  force_restart :: bool

definition set_restart :: "nat \<Rightarrow> bool \<Rightarrow> ('o, 's) gc_heap \<Rightarrow> ('o, 's) gc_heap" where
  "set_restart a b H =
     (case gactive H of
        Some ac \<Rightarrow> if aowner ac = a then H\<lparr>gactive := Some (ac\<lparr>restart := b\<rparr>)\<rparr> else H
      | None \<Rightarrow> H)"

definition borrow_object_mut :: "('o, 's) provider \<Rightarrow> nat \<Rightarrow> nat \<Rightarrow> ('o, 's, mutation) heap_action" where
  "borrow_object_mut P t a H =
     (case resolve a (gphysical H) of
        Err e \<Rightarrow> (Err e, H)
      | Panic m \<Rightarrow> (Panic m, H)
      | Ok ob \<Rightarrow>
          if \<not> descriptor_matches t (odescriptor ob) then (Err Representation, H)
          else if (case gactive H of Some ac \<Rightarrow> aowner ac = a \<and> adescriptor ac \<noteq> odescriptor ob | None \<Rightarrow> False) then (Err Representation, H)
          else (case gobjects H a of
                  None \<Rightarrow> (Panic ''representation'', H)
                | Some x \<Rightarrow>
                    (case descriptor_charge P (odescriptor ob) x of
                       Ok n \<Rightarrow>
                         let reusable = (case gactive H of Some ac \<Rightarrow> aowner ac = a \<and> \<not> restart ac | None \<Rightarrow> False)
                         in (Ok \<lparr>mowner = a, old_charge = n, admitted_bytes = n, continuation = False, scan_reusable = reusable, force_restart = False\<rparr>,
                             set_restart a True H)
                     | _ \<Rightarrow> (Err (Provider ''charge panicked''), set_phase Faulted H))))"

subsection \<open>Services of a mutation\<close>

definition mutation_edge_scoped :: "nat \<Rightarrow> ('o, 's, nat) heap_action" where
  "mutation_edge_scoped a = heap_then (heap_publish a) (\<lambda>_. heap_reads (\<lambda>_. Ok a))"

definition mutation_edge :: "nat \<Rightarrow> root_lease \<Rightarrow> ('o, 's, nat) heap_action" where
  "mutation_edge T source =
     heap_then (heap_reads (typed_root T source)) (\<lambda>a. heap_then (heap_publish a) (\<lambda>_. heap_reads (\<lambda>_. Ok a)))"

definition publish_existing :: "nat \<Rightarrow> ('o, 's, unit) heap_action" where
  "publish_existing a = heap_publish a"

definition retain_existing :: "reserve \<Rightarrow> nat \<Rightarrow> nat \<Rightarrow> nat \<Rightarrow> nat \<Rightarrow> ('o, 's, root_lease) heap_action" where
  "retain_existing mem slack ptr T a = retain mem slack ptr T a"

definition prepare_charge :: "mutation \<Rightarrow> nat \<Rightarrow> ('o, 's) gc_heap \<Rightarrow> unit gc_result \<times> mutation" where
  "prepare_charge m bytes H =
     (case ledger_check (gledger H) (old_charge m) bytes (max_indirect_bytes (gconfig H)) of
        Ok _ \<Rightarrow> (Ok (), m\<lparr>admitted_bytes := bytes\<rparr>)
      | Err e \<Rightarrow> (Err e, m)
      | Panic p \<Rightarrow> (Panic p, m))"

text \<open>The state that \<^verbatim>\<open>with_scan_state\<close> lends, and a repair of it.\<close>

definition scan_lent :: "mutation \<Rightarrow> ('o, 's) gc_heap \<Rightarrow> bool" where
  "scan_lent m H \<longleftrightarrow> (case gactive H of Some ac \<Rightarrow> aowner ac = mowner m | None \<Rightarrow> False) \<and> scan_reusable m \<and> \<not> force_restart m"

definition with_scan_state :: "mutation \<Rightarrow> ('s \<Rightarrow> 's) \<Rightarrow> ('o, 's) gc_heap \<Rightarrow> ('o, 's) gc_heap" where
  "with_scan_state m repair H =
     (if scan_lent m H then H\<lparr>gworkspace := (case gworkspace H of RustState s \<Rightarrow> RustState (repair s) | w \<Rightarrow> w)\<rparr> else H)"

definition continue_scan :: "mutation \<Rightarrow> mutation" where
  "continue_scan m = m\<lparr>continuation := True\<rparr>"

definition invalidate :: "mutation \<Rightarrow> ('o, 's) gc_heap \<Rightarrow> mutation \<times> ('o, 's) gc_heap" where
  "invalidate m H = (m\<lparr>force_restart := True\<rparr>, set_restart (mowner m) True H)"

subsection \<open>The end of a loan\<close>

definition object_charge :: "('o, 's) provider \<Rightarrow> nat \<Rightarrow> nat \<Rightarrow> ('o, 's) gc_heap \<Rightarrow> nat gc_result" where
  "object_charge P t a H = (case gobjects H a of Some (RustValue w) \<Rightarrow> Ok (charge_hook P t w) | _ \<Rightarrow> Panic ''representation'')"

definition settle_charge :: "('o, 's) provider \<Rightarrow> nat \<Rightarrow> mutation \<Rightarrow> ('o, 's, unit) heap_action" where
  "settle_charge P t m H =
     (case and_then (object_charge P t (mowner m) H) (\<lambda>n.
             if n > admitted_bytes m then Err (Provider ''capacity growth was not admitted'')
             else and_then (ledger_check (gledger H) (old_charge m) n (max_indirect_bytes (gconfig H))) (\<lambda>bytes. Ok (n, bytes))) of
        Ok (n, bytes) \<Rightarrow>
          (Ok (), H\<lparr>gledger := ledger_observe (backing_bytes (gphysical H)) (ledger_grew (n - old_charge m) ((gledger H)\<lparr>indirect := bytes\<rparr>))\<rparr>)
      | Err e \<Rightarrow> (Err e, set_phase Faulted H)
      | Panic _ \<Rightarrow> (Err (Provider ''mutation charge panicked''), set_phase Faulted H))"

definition finalize :: "('o, 's) provider \<Rightarrow> nat \<Rightarrow> bool \<Rightarrow> mutation \<Rightarrow> ('o, 's, unit) heap_action" where
  "finalize P t unwinding m H =
     (case (if \<not> continuation m \<or> unwinding then invalidate m H else (m, H)) of
        (m, H) \<Rightarrow> settle_charge P t m (set_restart (mowner m) (\<not> scan_reusable m \<or> force_restart m) H))"

type_synonym ('o, 's, 'a) loan = "mutation \<Rightarrow> ('o, 's) gc_heap \<Rightarrow> 'a gc_result \<times> mutation \<times> ('o, 's) gc_heap"

definition with_reference_mut :: "('o, 's) provider \<Rightarrow> nat \<Rightarrow> nat \<Rightarrow> ('o, 's, 'a) loan \<Rightarrow> ('o, 's, 'a) heap_action" where
  "with_reference_mut P t a operation =
     heap_then (borrow_object_mut P t a) (\<lambda>m H.
       case operation m H of (x, m, H) \<Rightarrow>
         (case (case x of Ok _ \<Rightarrow> (m, H) | _ \<Rightarrow> invalidate m H) of (m, H) \<Rightarrow>
            (case finalize P t False m H of (z, H) \<Rightarrow>
               (case x of
                  Panic p \<Rightarrow> (Panic p, H)
                | _ \<Rightarrow> (case z of Ok _ \<Rightarrow> (x, H) | Err e \<Rightarrow> (Err e, H) | Panic p \<Rightarrow> (Panic p, H))))))"

definition with_object_mut :: "('o, 's) provider \<Rightarrow> nat \<Rightarrow> root_lease \<Rightarrow> ('o, 's, 'a) loan \<Rightarrow> ('o, 's, 'a) heap_action" where
  "with_object_mut P t root operation =
     heap_then (heap_reads (\<lambda>H. and_then (marking_check (gmarking H)) (\<lambda>_. roots_target t root (groots H)))) (\<lambda>a. with_reference_mut P t a operation)"

definition scope_with_object_mut :: "('o, 's) provider \<Rightarrow> nat \<Rightarrow> nat \<Rightarrow> ('o, 's, 'a) loan \<Rightarrow> ('o, 's, 'a) heap_action" where
  "scope_with_object_mut P t a operation = heap_then (heap_reads (scope_check a)) (\<lambda>a. with_reference_mut P t a operation)"

subsection \<open>The contract of a provider\<close>

fun handles_of :: "nat gc_result \<Rightarrow> nat set" where
  "handles_of (Ok a) = {a}"
| "handles_of _ = {}"

text \<open>
  A state of an operation: the mutation, the heap, what it has published so far, and whether every
  edit has kept what a suspended scan had covered.
\<close>

type_synonym ('o, 's) loan_state = "mutation \<times> ('o, 's) gc_heap \<times> nat set \<times> bool"

inductive loan_step :: "'o edge_map \<Rightarrow> ('o, 's) cover_map \<Rightarrow> nat set \<Rightarrow> nat \<Rightarrow> ('o, 's) loan_state \<Rightarrow> ('o, 's) loan_state \<Rightarrow> bool"
  for E C K t where
  loan_scoped: "mutation_edge_scoped b H = (x, H') \<Longrightarrow> b \<in> K \<Longrightarrow> loan_step E C K t (m, H, X, k) (m, H', X \<union> handles_of x, k)"
| loan_edge: "mutation_edge T l H = (x, H') \<Longrightarrow> 0 < strong (groots H) (lease_ptr l) \<Longrightarrow> loan_step E C K t (m, H, X, k) (m, H', X \<union> handles_of x, k)"
| loan_existing: "publish_existing b H = (x, H') \<Longrightarrow> b \<in> edges_at E (gphysical H) (gobjects H) (mowner m) \<Longrightarrow>
    loan_step E C K t (m, H, X, k) (m, H', X \<union> (if x = Ok () then {b} else {}), k)"
| loan_retain: "retain_existing mem slack ptr T b H = (x, H') \<Longrightarrow> b \<in> edges_at E (gphysical H) (gobjects H) (mowner m) \<Longrightarrow> fresh_lease ptr (groots H) \<Longrightarrow>
    loan_step E C K t (m, H, X, k) (m, H', X, k)"
| loan_charge: "prepare_charge m n H = (x, m') \<Longrightarrow> loan_step E C K t (m, H, X, k) (m', H, X, k)"
| loan_edit: "gobjects H (mowner m) = Some (RustValue w) \<Longrightarrow> E t w' \<subseteq> E t w \<union> X \<Longrightarrow>
    k' = (k \<and> (\<forall>s. gworkspace H = RustState s \<longrightarrow> C t w' (if scan_lent m H then repair s else s) \<subseteq> C t w s \<union> X)) \<Longrightarrow> (continuation m \<longrightarrow> k') \<Longrightarrow>
    loan_step E C K t (m, H, X, k) (m, write_object (mowner m) (RustValue w') (with_scan_state m repair H), X, k')"
| loan_continue: "k \<Longrightarrow> loan_step E C K t (m, H, X, k) (continue_scan m, H, X, k)"

definition loan_contract :: "'o edge_map \<Rightarrow> ('o, 's) cover_map \<Rightarrow> nat set \<Rightarrow> nat \<Rightarrow> ('o, 's, 'a) loan \<Rightarrow> bool" where
  "loan_contract E C K t operation \<longleftrightarrow>
     (\<forall>m H x m' H'. operation m H = (x, m', H') \<longrightarrow> (\<exists>X k. (loan_step E C K t)\<^sup>*\<^sup>* (m, H, {}, True) (m', H', X, k)))"

subsection \<open>Reference definitions\<close>

text \<open>
  What holds during a loan of \<open>a\<close> that began in \<open>H0\<close>: a suspended scan of the object is marked for
  restart, and if every edit kept its coverage it could go on.
\<close>

definition loan_inv ::
    "('o, 's) provider \<Rightarrow> 'o edge_map \<Rightarrow> ('o, 's) cover_map \<Rightarrow> ('q \<Rightarrow> nat set) \<Rightarrow> ('q \<Rightarrow> 'c \<Rightarrow> nat set) \<Rightarrow> ('q, 'c) root_scan \<Rightarrow>
     ('o, 's) gc_heap \<Rightarrow> nat \<Rightarrow> ('o, 's) loan_state \<Rightarrow> bool" where
  "loan_inv P E C S D r H0 a = (\<lambda>(m, H, X, k). gc_inv P E C S D H r \<and> carries H0 H \<and> X \<subseteq> secured H \<and> mowner m = a \<and> \<not> force_restart m \<and>
     (\<forall>ac. gactive H = Some ac \<longrightarrow> aowner ac = a \<longrightarrow> restart ac) \<and> (continuation m \<longrightarrow> k) \<and>
     (k \<longrightarrow> scan_reusable m \<longrightarrow> (\<forall>ac. gactive H = Some ac \<longrightarrow> aowner ac = a \<longrightarrow> active_ok C H (ac\<lparr>restart := False\<rparr>))))"

definition sample_leaf :: gc_type where
  "sample_leaf = \<lparr>type_id = 3, type_layout = \<lparr>lsize = 16, lalign = 128\<rparr>, type_kind = EdgeFree, type_state = \<lparr>lsize = 0, lalign = 1\<rparr>\<rparr>"

definition sample_leaf_descriptor :: descriptor where
  "sample_leaf_descriptor = \<lparr>desc_id = 0, desc_rep = Rust 3, desc_layout = \<lparr>lsize = 144, lalign = 128\<rparr>, desc_group = None, payload_offset = 128,
     state_layout = \<lparr>lsize = 0, lalign = 1\<rparr>, desc_kind = EdgeFree\<rparr>"

definition sample_leaves :: descriptors where
  "sample_leaves = (case register (\<lambda>_. True) sample_leaf descriptors_default of Ok (ds, d) \<Rightarrow> ds | _ \<Rightarrow> descriptors_default)"

definition sample_leaf_gc :: "(nat, unit) gc_heap" where
  "sample_leaf_gc = sample_gc\<lparr>gphysical := (gphysical sample_gc)\<lparr>descriptors_of := sample_leaves\<rparr>, gstrong := (\<lambda>_. 1)(0 := 2)\<rparr>"

text \<open>A provider that counts up.\<close>

definition sample_edit :: "(nat, unit, unit) loan" where
  "sample_edit m H = (case gobjects H (mowner m) of Some (RustValue w) \<Rightarrow> (Ok (), m, write_object (mowner m) (RustValue (w + 1)) H) | _ \<Rightarrow> (Ok (), m, H))"

definition sample_leaf_reserved :: physical_heap where
  "sample_leaf_reserved = snd (heap_reserve sample_types (\<lambda>_. True) (\<lambda>_. Some 4096) sample_leaf_descriptor usize_max (gphysical sample_leaf_gc))"

section \<open>Keeping the invariant\<close>

lemma set_restart_parts [simp]:
  "gphysical (set_restart a b H) = gphysical H" "gmarking (set_restart a b H) = gmarking H" "groots (set_restart a b H) = groots H" "gid (set_restart a b H) = gid H"
  "gobjects (set_restart a b H) = gobjects H" "gworkspace (set_restart a b H) = gworkspace H" "groot_cursor (set_restart a b H) = groot_cursor H" "gsweep (set_restart a b H) = gsweep H"
  "gledger (set_restart a b H) = gledger H" "gconfig (set_restart a b H) = gconfig H" "visitor (set_restart a b H) = visitor H"
  "gactive (set_restart a b H) = map_option (\<lambda>ac. if aowner ac = a then ac\<lparr>restart := b\<rparr> else ac) (gactive H)"
  by (simp_all add: set_restart_def visitor_def split: option.splits)

context collector
begin

lemma inv_view:
  assumes "gphysical H' = gphysical H" "gmarking H' = gmarking H" "groots H' = groots H" "gid H' = gid H" "gobjects H' = gobjects H"
    "groot_cursor H' = groot_cursor H" "gsweep H' = gsweep H" "map_option (\<lambda>ac. (aowner ac, adescriptor ac)) (gactive H') = map_option (\<lambda>ac. (aowner ac, adescriptor ac)) (gactive H)"
    and inv: "gc_inv P E C S D H r" and ac: "\<And>ac. gactive H' = Some ac \<Longrightarrow> active_ok C H' ac"
  shows "gc_inv P E C S D H' r \<and> carries H H'"
proof -
  note sel = assms(1-7)
  have none: "gactive H' = None \<longleftrightarrow> gactive H = None" using assms(8) by (cases "gactive H'"; cases "gactive H") auto
  have as: "active_slots H' = active_slots H" using assms(8) by (cases "gactive H'"; cases "gactive H") (auto simp: active_slots_def sel)
  have eq: "gc_roots S H' r = gc_roots S H r" "cursor_ok H' = cursor_ok H" "sweep_inv H' = sweep_inv H" "tricolour E H' = tricolour E H" "visitor H' = visitor H"
    unfolding gc_roots_def cursor_ok_def sweep_inv_def tricolour_def visitor_def Let_def sel by (rule refl)+
  have "phase_inv E C S D H' r" using inv_base(8) [OF inv] none ac by (auto simp: phase_inv_def Let_def sel eq split: phase.splits)
  then have "gc_inv P E C S D H' r" using inv_base [OF inv] by (simp add: gc_inv_def sel eq as)
  moreover have "carries H H'" by (rule carries_cong) (simp_all add: sel)
  ultimately show ?thesis by simp
qed

lemma restart_inv:
  assumes inv: "gc_inv P E C S D H r" and b: "\<not> b \<Longrightarrow> \<forall>ac. gactive H = Some ac \<longrightarrow> aowner ac = a \<longrightarrow> active_ok C H (ac\<lparr>restart := False\<rparr>)"
  shows "gc_inv P E C S D (set_restart a b H) r \<and> carries H (set_restart a b H)"
proof (rule inv_view [OF _ _ _ _ _ _ _ _ inv])
  fix ac assume a: "gactive (set_restart a b H) = Some ac"
  then obtain ac0 where ac0: "gactive H = Some ac0" "ac = (if aowner ac0 = a then ac0\<lparr>restart := b\<rparr> else ac0)" by auto
  have "mphase (gmarking H) = Mark" using inv_base(8) [OF inv] ac0(1) by (auto simp: phase_inv_def Let_def split: phase.splits)
  then have "active_ok C H ac0" using inv_base(8) [OF inv] ac0(1) by (simp add: phase_inv_def Let_def)
  then show "active_ok C (set_restart a b H) ac" using ac0 b by (cases b) (auto simp: active_ok_def)
qed (simp_all, cases "gactive H", auto)

lemma active_fits:
  assumes "gc_inv P E C S D H r" "gactive H = Some ac"
  shows "active_ok C H ac" "mphase (gmarking H) = Mark"
proof -
  show "mphase (gmarking H) = Mark" using inv_base(8) [OF assms(1)] assms(2) by (auto simp: phase_inv_def Let_def split: phase.splits)
  then show "active_ok C H ac" using inv_base(8) [OF assms(1)] assms(2) by (simp add: phase_inv_def Let_def)
qed

lemma workspace_inv:
  assumes inv: "gc_inv P E C S D H r" and ac: "\<And>ac. gactive H = Some ac \<Longrightarrow> restart ac"
  shows "gc_inv P E C S D (H\<lparr>gworkspace := w\<rparr>) r \<and> carries H (H\<lparr>gworkspace := w\<rparr>)"
  by (rule inv_view [OF _ _ _ _ _ _ _ _ inv]) (use active_fits(1) [OF inv] ac in \<open>auto simp: active_ok_def\<close>)

lemma ledger_inv:
  assumes inv: "gc_inv P E C S D H r"
  shows "gc_inv P E C S D (H\<lparr>gledger := w\<rparr>) r \<and> carries H (H\<lparr>gledger := w\<rparr>)"
  by (rule inv_view [OF _ _ _ _ _ _ _ _ inv]) (use active_fits(1) [OF inv] in \<open>auto simp: active_ok_def\<close>)

end

lemma visited_parts: "gactive (visited v H) = gactive H" "gworkspace (visited v H) = gworkspace H" "gobjects (visited v H) = gobjects H"
  by (simp_all add: visited_def)

lemma publish_parts:
  assumes "heap_publish b H = (x, H')"
  shows "gactive H' = gactive H" "gworkspace H' = gworkspace H" "gobjects H' = gobjects H"
  using assms by (auto simp: heap_publish_def visited_parts split: prod.splits)

lemma publish_all: "heap_publish b H = (x, H') \<Longrightarrow> gactive H' = gactive H \<and> gworkspace H' = gworkspace H \<and> gobjects H' = gobjects H"
  using publish_parts by blast

lemma retain_parts:
  assumes "retain mem slack ptr T b H = (x, H')"
  shows "gactive H' = gactive H" "gworkspace H' = gworkspace H" "gobjects H' = gobjects H"
  using assms unfolding retain_def heap_then_def
  by (auto simp: prepare_root_def commit_root_def abandon_root_def split: outcome.splits prod.splits if_splits dest!: publish_all)

context collector
begin

lemma covered_kept:
  assumes inv: "gc_inv P E C S D H r" "gc_inv P E C S D H' r" and c: "carries H H'" and same: "gactive H' = gactive H" "gworkspace H' = gworkspace H" "gobjects H' = gobjects H"
    and ac: "gactive H = Some ac" "active_ok C H (ac\<lparr>restart := False\<rparr>)"
  shows "active_ok C H' (ac\<lparr>restart := False\<rparr>)"
proof -
  have ph: "mphase (gmarking H) = Mark" "mphase (gmarking H') = Mark" using active_fits(2) [OF inv(1) ac(1)] active_fits(2) [OF inv(2)] same(1) ac(1) by auto
  then have "found_set (gphysical H) (mepoch (gmarking H)) \<subseteq> found_set (gphysical H') (mepoch (gmarking H'))" using c by (simp add: carries_def secured_def)
  moreover have "aowner ac \<in> live_set (gphysical H') \<and> descriptor_at (gphysical H') (aowner ac) = descriptor_at (gphysical H) (aowner ac)"
    using c ac(2) by (auto simp: carries_def active_ok_def)
  ultimately show ?thesis using ac(2) same by (auto simp: active_ok_def)
qed

lemma loan_frame:
  assumes l: "loan_inv P E C S D r H0 a (m, H, X, k)" and H': "gc_inv P E C S D H' r" "carries H H'"
    and same: "gactive H' = gactive H" "gworkspace H' = gworkspace H" "gobjects H' = gobjects H" and Y: "Y \<subseteq> secured H'"
  shows "loan_inv P E C S D r H0 a (m, H', X \<union> Y, k)"
proof -
  have i: "gc_inv P E C S D H r" "carries H0 H" "X \<subseteq> secured H" using l by (auto simp: loan_inv_def)
  have "X \<union> Y \<subseteq> secured H'" using i(3) H'(2) Y by (auto simp: carries_def)
  then show ?thesis using l H'(1) carries_trans [OF i(2) H'(2)] covered_kept [OF i(1) H' same] same(1) by (simp add: loan_inv_def)
qed

lemma loan_publish:
  assumes l: "loan_inv P E C S D r H0 a (m, H, X, k)" and b: "b \<in> usable H" and run: "heap_publish b H = (x, H')"
  shows "loan_inv P E C S D r H0 a (m, H', X \<union> (if x = Ok () then {b} else {}), k)"
proof -
  have inv: "gc_inv P E C S D H r" using l by (simp add: loan_inv_def)
  note p = heap_publish_ok [OF inv b run]
  show ?thesis by (rule loan_frame [OF l p(1,2) publish_parts [OF run]]) (use p(3) in auto)
qed

lemma loan_edit_inv:
  assumes l: "loan_inv P E C S D r H0 a (m, H, X, k)" and t: "handle_type H a t" "a \<in> usable H" and w: "gobjects H a = Some (RustValue w)" "E t w' \<subseteq> E t w \<union> X"
    and k': "k' = (k \<and> (\<forall>s. gworkspace H = RustState s \<longrightarrow> C t w' (if scan_lent m H then repair s else s) \<subseteq> C t w s \<union> X))" "continuation m \<longrightarrow> k'"
  shows "loan_inv P E C S D r H0 a (m, write_object a (RustValue w') (with_scan_state m repair H), X, k')"
proof -
  let ?H1 = "with_scan_state m repair H"
  let ?H2 = "write_object a (RustValue w') ?H1"
  have i: "gc_inv P E C S D H r" "carries H0 H" "X \<subseteq> secured H" "mowner m = a" "\<not> force_restart m" "\<And>ac. gactive H = Some ac \<Longrightarrow> aowner ac = a \<Longrightarrow> restart ac"
    "\<And>ac. k \<Longrightarrow> scan_reusable m \<Longrightarrow> gactive H = Some ac \<Longrightarrow> aowner ac = a \<Longrightarrow> active_ok C H (ac\<lparr>restart := False\<rparr>)" using l by (auto simp: loan_inv_def)
  have H1: "gc_inv P E C S D ?H1 r \<and> carries H ?H1"
  proof (cases "scan_lent m H")
    case True
    then have "restart ac" if "gactive H = Some ac" for ac using that i(4,6) by (simp add: scan_lent_def)
    then show ?thesis using workspace_inv [OF i(1)] True by (simp add: with_scan_state_def)
  qed (use i(1) in \<open>simp add: with_scan_state_def\<close>)
  have sel: "gphysical ?H1 = gphysical H" "gmarking ?H1 = gmarking H" "gobjects ?H1 = gobjects H" "gactive ?H1 = gactive H" by (simp_all add: with_scan_state_def)
  have X: "X \<subseteq> secured ?H1" using H1 i(3) by (auto simp: carries_def)
  obtain d where d0: "descriptor_at (gphysical H) a = Some d" "descriptor_type d = Some t" using t(1) by (auto simp: handle_type_def)
  then have d: "descriptor_at (gphysical H) a = Some d" "desc_rep d = Rust t" by (auto simp: descriptor_type_def split: representation.splits)
  have o: "gobjects ?H1 a = Some (RustValue w)" "descriptor_at (gphysical ?H1) a = Some d" using w(1) d(1) by (simp_all add: sel)
  have fits: "payload_fits (desc_rep d) (RustValue w')" "payload_edges E d (RustValue w') \<subseteq> payload_edges E d (RustValue w) \<union> X" using w(2) d(2) by (simp_all add: payload_edges_def)
  have wr: "gc_inv P E C S D ?H2 r" "carries ?H1 ?H2" using write_any [OF conjunct1 [OF H1] X o fits] i(6) by (auto simp: sel)
  have sel2: "gphysical ?H2 = gphysical H" "gmarking ?H2 = gmarking H" "gobjects ?H2 = (gobjects H)(a \<mapsto> RustValue w')" "gactive ?H2 = gactive H" "gworkspace ?H2 = gworkspace ?H1"
    by (simp_all add: write_object_def sel)
  have cov: "active_ok C ?H2 (ac\<lparr>restart := False\<rparr>)" if k: "k'" "scan_reusable m" and ac: "gactive H = Some ac" "aowner ac = a" for ac
  proof -
    have ok: "active_ok C H (ac\<lparr>restart := False\<rparr>)" using i(7) k k'(1) ac by blast
    then have ad: "adescriptor ac = d" using d(1) ac(2) by (simp add: active_ok_def)
    obtain s where s: "gworkspace H = RustState s" "C t w s \<subseteq> found_set (gphysical H) (mepoch (gmarking H))"
      using ok ad d(2) w(1) ac(2) by (cases "gworkspace H") (auto simp: active_ok_def payload_covered_def)
    have lent: "scan_lent m H" using ac i(4,5) k(2) by (simp add: scan_lent_def)
    have "X \<subseteq> found_set (gphysical H) (mepoch (gmarking H))" using i(3) active_fits(2) [OF i(1) ac(1)] by (simp add: secured_def)
    then have "C t w' (repair s) \<subseteq> found_set (gphysical H) (mepoch (gmarking H))" using k(1) k'(1) s lent by auto
    then show ?thesis using ok s(1) lent ad ac(2) d(2) by (simp add: active_ok_def write_object_def with_scan_state_def payload_covered_def)
  qed
  have "carries H0 ?H2" using carries_trans [OF i(2) carries_trans [OF conjunct2 [OF H1] wr(2)]] .
  moreover have "X \<subseteq> secured ?H2" using X wr(2) by (auto simp: carries_def)
  ultimately show ?thesis using wr(1) i(4,5,6) k'(2) cov by (simp add: loan_inv_def sel2)
qed

end

context collector
begin

lemma loan_step_inv:
  assumes step: "loan_step E C K t (m, H, X, k) s'" and l: "loan_inv P E C S D r H0 a (m, H, X, k)"
    and a: "a \<in> usable H0" "handle_type H0 a t" "K \<subseteq> usable H0"
  shows "loan_inv P E C S D r H0 a s'"
proof -
  have inv: "gc_inv P E C S D H r" and c: "carries H0 H" and own: "mowner m = a" using l by (simp_all add: loan_inv_def)
  have K: "K \<subseteq> usable H" and u: "a \<in> usable H" using c a(1,3) by (auto simp: carries_def)
  have t: "handle_type H a t" using a(2) carries_desc [OF c a(1)] by (simp add: handle_type_def)
  note edges = subsetD [OF edges_usable [OF inv u]]
  from step show ?thesis
  proof cases
    case (loan_scoped b x H')
    then obtain y where y: "heap_publish b H = (y, H')" "handles_of x = (if y = Ok () then {b} else {})"
      by (auto simp: mutation_edge_scoped_def heap_then_def split: prod.splits outcome.splits)
    show ?thesis using loan_publish [OF l _ y(1)] K loan_scoped(1,3) y(2) by auto
  next
    case (loan_edge T l' x H')
    from loan_edge(2) [unfolded mutation_edge_def] show ?thesis
    proof (cases rule: heap_then_cases)
      case (1 b H1)
      then have b: "typed_root T l' H = Ok b" "H1 = H" by auto
      have ub: "b \<in> usable H" using typed_root_in [OF b(1) loan_edge(3)] roots_usable(2) [OF inv] by blast
      from 1(2) b(2) obtain y where y: "heap_publish b H = (y, H')" "handles_of x = (if y = Ok () then {b} else {})"
        by (auto simp: heap_then_def split: prod.splits outcome.splits)
      show ?thesis using loan_publish [OF l ub y(1)] loan_edge(1) y(2) by auto
    qed (use l loan_edge(1) in auto)
  next
    case (loan_existing b x H')
    then show ?thesis using loan_publish [OF l edges, of b x H'] own by (simp add: publish_existing_def)
  next
    case (loan_retain mem slack ptr T b x H')
    have run: "retain mem slack ptr T b H = (x, H')" using loan_retain(2) by (simp add: retain_existing_def)
    have "b \<in> usable H" using edges loan_retain(3) own by simp
    from retain_root_ok [OF inv this loan_retain(4) run] loan_frame [OF l _ _ retain_parts [OF run], of "{}"] show ?thesis using loan_retain(1) by simp
  next
    case (loan_charge n x m')
    then have "mowner m' = mowner m" "continuation m' = continuation m" "scan_reusable m' = scan_reusable m" "force_restart m' = force_restart m"
      by (auto simp: prepare_charge_def split: outcome.splits)
    then show ?thesis using l loan_charge(1) by (simp add: loan_inv_def)
  next
    case (loan_edit w w' k' repair)
    show ?thesis using loan_edit_inv [OF l t u loan_edit(2) [unfolded own] loan_edit(3) loan_edit(4) loan_edit(5)] loan_edit(1) own by simp
  next
    case loan_continue
    then show ?thesis using l by (simp add: loan_inv_def continue_scan_def)
  qed
qed

lemma loan_run_inv:
  assumes "(loan_step E C K t)\<^sup>*\<^sup>* s s'" "loan_inv P E C S D r H0 a s" "a \<in> usable H0" "handle_type H0 a t" "K \<subseteq> usable H0"
  shows "loan_inv P E C S D r H0 a s'"
  using assms(1,2)
proof (induction rule: rtranclp_induct)
  case (step y z)
  obtain m H X k where "y = (m, H, X, k)" by (cases y)
  then show ?case using loan_step_inv [of K t m H X k z r H0 a] step assms(3-5) by simp
qed simp

lemma borrow_ok:
  assumes inv: "gc_inv P E C S D H r" and run: "borrow_object_mut P t a H = (x, H')"
  shows "case x of Ok m \<Rightarrow> loan_inv P E C S D r H a (m, H', {}, True) | _ \<Rightarrow> H' = H \<or> mphase (gmarking H') = Faulted"
proof (cases x)
  case (Ok m)
  then obtain n where m: "m = \<lparr>mowner = a, old_charge = n, admitted_bytes = n, continuation = False,
      scan_reusable = (case gactive H of Some ac \<Rightarrow> aowner ac = a \<and> \<not> restart ac | None \<Rightarrow> False), force_restart = False\<rparr>" "H' = set_restart a True H"
  proof -
    have "fst (borrow_object_mut P t a H) = Ok m" using run Ok by simp
    then obtain ob x n where "resolve a (gphysical H) = Ok ob" "descriptor_matches t (odescriptor ob)"
      "\<not> (case gactive H of Some ac \<Rightarrow> aowner ac = a \<and> adescriptor ac \<noteq> odescriptor ob | None \<Rightarrow> False)" "gobjects H a = Some x"
      "descriptor_charge P (odescriptor ob) x = Ok n"
      unfolding borrow_object_mut_def Let_def by (auto split: outcome.splits if_splits option.splits)
    then show ?thesis using run Ok by (intro that [of n]) (simp_all add: borrow_object_mut_def Let_def)
  qed
  have reusable: "scan_reusable m = (case gactive H of Some ac \<Rightarrow> aowner ac = a \<and> \<not> restart ac | None \<Rightarrow> False)" "mowner m = a" "\<not> force_restart m" "\<not> continuation m"
    by (simp_all add: m(1))
  have "active_ok C H' (ac\<lparr>restart := False\<rparr>)" if "scan_reusable m" "gactive H' = Some ac" "aowner ac = a" for ac
  proof -
    from that(2) obtain ac0 where ac0: "gactive H = Some ac0" "ac = (if aowner ac0 = a then ac0\<lparr>restart := True\<rparr> else ac0)" by (auto simp: m(2))
    then have "\<not> restart ac0" "aowner ac0 = a" using that(1) by (auto simp: reusable)
    then show ?thesis using active_fits(1) [OF inv ac0(1)] ac0(2) by (simp add: active_ok_def m(2))
  qed
  moreover have "restart ac" if "gactive H' = Some ac" "aowner ac = a" for ac
    using that by (cases "gactive H") (auto simp: m(2) split: if_splits)
  ultimately show ?thesis using restart_inv [OF inv, of True a] Ok reusable by (simp add: loan_inv_def m(2))
qed (use run in \<open>auto simp: borrow_object_mut_def Let_def split: outcome.splits if_splits option.splits\<close>)

lemma settle_ok:
  assumes "gc_inv P E C S D H r" "settle_charge P t m H = (x, H')"
  shows "gc_inv P E C S D H' r \<and> carries H H' \<or> mphase (gmarking H') = Faulted \<and> (\<exists>e. x = Err e)"
  using assms ledger_inv [OF assms(1)] by (auto simp: settle_charge_def split: outcome.splits)

lemma finalize_ok:
  assumes inv: "gc_inv P E C S D H r"
    and ac: "\<And>ac. continuation m \<Longrightarrow> scan_reusable m \<Longrightarrow> \<not> force_restart m \<Longrightarrow> gactive H = Some ac \<Longrightarrow> aowner ac = mowner m \<Longrightarrow> active_ok C H (ac\<lparr>restart := False\<rparr>)"
    and run: "finalize P t unwinding m H = (x, H')"
  shows "gc_inv P E C S D H' r \<and> carries H H' \<or> mphase (gmarking H') = Faulted \<and> (\<exists>e. x = Err e)"
proof -
  obtain m1 H1 where 1: "(if \<not> continuation m \<or> unwinding then invalidate m H else (m, H)) = (m1, H1)" by fastforce
  let ?b = "\<not> scan_reusable m1 \<or> force_restart m1"
  have H1: "gc_inv P E C S D H1 r \<and> carries H H1" using 1 inv restart_inv [OF inv, of True] by (auto simp: invalidate_def split: if_splits)
  have "active_ok C H1 (a\<lparr>restart := False\<rparr>)" if "\<not> ?b" "gactive H1 = Some a" "aowner a = mowner m1" for a
    using that 1 ac by (auto simp: invalidate_def split: if_splits)
  then have H2: "gc_inv P E C S D (set_restart (mowner m1) ?b H1) r \<and> carries H1 (set_restart (mowner m1) ?b H1)" using restart_inv [of H1 r ?b "mowner m1"] H1 by blast
  have "settle_charge P t m1 (set_restart (mowner m1) ?b H1) = (x, H')" using run 1 by (simp add: finalize_def)
  from settle_ok [OF conjunct1 [OF H2] this] show ?thesis using carries_trans H1 H2 by blast
qed

lemma with_reference_mut_ok:
  assumes inv: "gc_inv P E C S D H r" and a: "a \<in> usable H" "handle_type H a t" "K \<subseteq> usable H" and op: "loan_contract E C K t operation"
    and run: "with_reference_mut P t a operation H = (x, H')"
  shows "gc_inv P E C S D H' r \<and> carries H H' \<or> mphase (gmarking H') = Faulted \<and> (\<forall>v. x \<noteq> Ok v)"
  using run [unfolded with_reference_mut_def]
proof (cases rule: heap_then_cases)
  case (1 m H1)
  have l1: "loan_inv P E C S D r H a (m, H1, {}, True)" using borrow_ok [OF inv 1(1)] by simp
  obtain y m2 H2 where y: "operation m H1 = (y, m2, H2)" by (cases "operation m H1")
  with op obtain X k where "(loan_step E C K t)\<^sup>*\<^sup>* (m, H1, {}, True) (m2, H2, X, k)" unfolding loan_contract_def by blast
  from loan_run_inv [OF this l1 a] have l2: "gc_inv P E C S D H2 r" "carries H H2" "mowner m2 = a" "continuation m2 \<longrightarrow> k"
    "\<And>ac. k \<Longrightarrow> scan_reusable m2 \<Longrightarrow> gactive H2 = Some ac \<Longrightarrow> aowner ac = a \<Longrightarrow> active_ok C H2 (ac\<lparr>restart := False\<rparr>)" by (auto simp: loan_inv_def)
  obtain m3 H3 where 3: "(case y of Ok _ \<Rightarrow> (m2, H2) | _ \<Rightarrow> invalidate m2 H2) = (m3, H3)" by fastforce
  have H3: "gc_inv P E C S D H3 r \<and> carries H2 H3" using 3 l2(1) restart_inv [OF l2(1), of True] by (auto simp: invalidate_def split: outcome.splits)
  have ac: "active_ok C H3 (ac\<lparr>restart := False\<rparr>)" if "continuation m3" "scan_reusable m3" "\<not> force_restart m3" "gactive H3 = Some ac" "aowner ac = mowner m3" for ac
    using that 3 l2(3-5) by (cases y) (auto simp: invalidate_def)
  obtain z H4 where z: "finalize P t False m3 H3 = (z, H4)" by fastforce
  have "H' = H4" "z = Err e \<Longrightarrow> x \<noteq> Ok v" for e v using 1(2) y 3 z by (auto split: outcome.splits)
  with finalize_ok [OF conjunct1 [OF H3] ac z] show ?thesis using carries_trans [OF l2(2)] carries_trans [of H2 H3 H4] H3 by blast
next
  case (2 e)
  then show ?thesis using borrow_ok [OF inv 2(1)] inv by auto
next
  case (3 q)
  then show ?thesis using borrow_ok [OF inv 3(1)] inv by auto
qed

end

lemma loan_step_ledger:
  assumes "loan_step E C K t s s'"
  shows "gledger (fst (snd s')) = gledger (fst (snd s)) \<and> gconfig (fst (snd s')) = gconfig (fst (snd s)) \<and> mowner (fst s') = mowner (fst s) \<and> old_charge (fst s') = old_charge (fst s)"
  using assms
proof cases
  case (loan_scoped b H x H' m X k)
  then show ?thesis by (auto simp: mutation_edge_scoped_def heap_then_def heap_publish_def visited_def split: prod.splits outcome.splits)
next
  case (loan_edge T l H x H' m X k)
  then show ?thesis by (auto simp: mutation_edge_def heap_then_def heap_publish_def visited_def split: prod.splits outcome.splits)
next
  case (loan_existing b H x H' m X k)
  then show ?thesis by (auto simp: publish_existing_def heap_publish_def visited_def split: prod.splits outcome.splits)
next
  case (loan_retain mem slack ptr T b H x H' m X k)
  have p: "gledger H' = gledger H \<and> gconfig H' = gconfig H" if "heap_publish b H = (y, H')" for y H' and H :: "('a, 'b) gc_heap"
    using that by (auto simp: heap_publish_def visited_def split: prod.splits)
  show ?thesis using loan_retain unfolding retain_existing_def retain_def heap_then_def
    by (auto simp: prepare_root_def commit_root_def abandon_root_def split: outcome.splits prod.splits if_splits dest!: p)
next
  case (loan_charge m n H x m' X k)
  then show ?thesis by (auto simp: prepare_charge_def split: outcome.splits)
qed (auto simp: write_object_def with_scan_state_def continue_scan_def)

lemma loan_run_ledger:
  assumes "(loan_step E C K t)\<^sup>*\<^sup>* s s'"
  shows "gledger (fst (snd s')) = gledger (fst (snd s)) \<and> gconfig (fst (snd s')) = gconfig (fst (snd s)) \<and> mowner (fst s') = mowner (fst s) \<and> old_charge (fst s') = old_charge (fst s)"
  using assms by (induction rule: rtranclp_induct) (auto dest!: loan_step_ledger)

lemma settle_accounts:
  assumes "settle_charge P t m H = (Ok u, H')"
  shows "\<exists>w. gobjects H' (mowner m) = Some (RustValue w) \<and> indirect (gledger H') + old_charge m = indirect (gledger H) + charge_hook P t w \<and>
    indirect (gledger H') \<le> max_indirect_bytes (gconfig H)"
  using assms by (auto simp: settle_charge_def object_charge_def ledger_check_def checked_sub_def checked_add_def ledger_observe_def ledger_grew_def
    split: outcome.splits if_splits option.splits payload.splits)

lemma finalize_settles:
  assumes "finalize P t unwinding m H = (x, H')"
  shows "\<exists>m1 H1. settle_charge P t m1 H1 = (x, H') \<and> gledger H1 = gledger H \<and> gconfig H1 = gconfig H \<and> mowner m1 = mowner m \<and> old_charge m1 = old_charge m \<and>
    (force_restart m \<or> \<not> continuation m \<longrightarrow> (\<forall>ac. gactive H1 = Some ac \<longrightarrow> aowner ac = mowner m \<longrightarrow> restart ac))"
proof -
  obtain m1 H0 where 1: "(if \<not> continuation m \<or> unwinding then invalidate m H else (m, H)) = (m1, H0)" by fastforce
  let ?H1 = "set_restart (mowner m1) (\<not> scan_reusable m1 \<or> force_restart m1) H0"
  have p: "gledger H0 = gledger H" "gconfig H0 = gconfig H" "mowner m1 = mowner m" "old_charge m1 = old_charge m" using 1 by (auto simp: invalidate_def split: if_splits)
  have f: "force_restart m1" if "force_restart m \<or> \<not> continuation m" using 1 that by (auto simp: invalidate_def split: if_splits)
  have "restart ac" if "force_restart m1" "gactive ?H1 = Some ac" "aowner ac = mowner m" for ac
    using that p(3) by (cases "gactive H0") (auto split: if_splits)
  moreover have "settle_charge P t m1 ?H1 = (x, H')" using assms 1 by (simp add: finalize_def)
  ultimately show ?thesis using p f by (intro exI [of _ m1] exI [of _ ?H1]) auto
qed

context collector
begin

text \<open>The accounting of a loan that succeeds.\<close>

lemma with_reference_mut_accounts:
  assumes op: "loan_contract E C K t operation" and run: "with_reference_mut P t a operation H = (Ok v, H')" and w: "gobjects H a = Some (RustValue w)" "handle_type H a t"
    and inv: "gc_inv P E C S D H r" "a \<in> usable H"
  shows "\<exists>w'. gobjects H' a = Some (RustValue w') \<and> indirect (gledger H') + charge_hook P t w = indirect (gledger H) + charge_hook P t w' \<and>
    indirect (gledger H') \<le> max_indirect_bytes (gconfig H)"
  using run [unfolded with_reference_mut_def]
proof (cases rule: heap_then_cases)
  case (1 m H1)
  have b: "mowner m = a" "old_charge m = charge_hook P t w" "gledger H1 = gledger H" "gconfig H1 = gconfig H"
  proof -
    obtain ob where ob: "resolve a (gphysical H) = Ok ob" "descriptor_at (gphysical H) a = Some (odescriptor ob)"
      using usable_resolves [OF inv] by blast
    then have "desc_rep (odescriptor ob) = Rust t" using w(2) by (auto simp: handle_type_def descriptor_type_def split: representation.splits)
    then show "mowner m = a" "old_charge m = charge_hook P t w" "gledger H1 = gledger H" "gconfig H1 = gconfig H"
      using 1(1) ob(1) w(1) by (auto simp: borrow_object_mut_def Let_def descriptor_charge_def split: if_splits)
  qed
  obtain y m2 H2 where y: "operation m H1 = (y, m2, H2)" by (cases "operation m H1")
  with op obtain X k where "(loan_step E C K t)\<^sup>*\<^sup>* (m, H1, {}, True) (m2, H2, X, k)" unfolding loan_contract_def by blast
  from loan_run_ledger [OF this] have l: "gledger H2 = gledger H1" "gconfig H2 = gconfig H1" "mowner m2 = mowner m" "old_charge m2 = old_charge m" by auto
  obtain z H4 where z: "finalize P t False m2 H2 = (z, H4)" by fastforce
  have ok: "z = Ok ()" "H' = H4" using 1(2) y z by (auto split: outcome.splits prod.splits)
  from finalize_settles [OF z] obtain m1 H3 where s: "settle_charge P t m1 H3 = (Ok (), H')" "gledger H3 = gledger H2" "gconfig H3 = gconfig H2" "mowner m1 = mowner m2" "old_charge m1 = old_charge m2"
    using ok by blast
  from settle_accounts [OF s(1)] show ?thesis using s l b by auto
qed auto

end

lemma failed_loan_restarts:
  assumes run: "with_reference_mut P t a operation H = (x, H')" and b: "borrow_object_mut P t a H = (Ok m, H1)" "operation m H1 = (y, m2, H2)" "\<And>v. y \<noteq> Ok v" "mowner m2 = a"
    and ac: "gactive H' = Some ac" "aowner ac = a"
  shows "restart ac"
proof -
  obtain z H4 where z: "finalize P t False (m2\<lparr>force_restart := True\<rparr>) (set_restart a True H2) = (z, H4)" by fastforce
  have H': "H' = H4" using run b z by (cases y) (auto simp: with_reference_mut_def heap_then_def invalidate_def split: outcome.splits)
  from finalize_settles [OF z] obtain m1 H3 where s: "settle_charge P t m1 H3 = (z, H4)" "\<And>ac. gactive H3 = Some ac \<Longrightarrow> aowner ac = a \<Longrightarrow> restart ac" using b(4) by auto
  have "gactive H4 = gactive H3" using s(1) by (auto simp: settle_charge_def set_phase_def split: outcome.splits)
  then show ?thesis using s(2) ac H' by simp
qed

lemma borrow_owner: "borrow_object_mut P t a H = (Ok m, H1) \<Longrightarrow> mowner m = a"
  by (auto simp: borrow_object_mut_def Let_def split: outcome.splits if_splits option.splits)

lemma root_target_in:
  assumes "roots_target T l rs = Ok a" "0 < strong rs (lease_ptr l)"
  shows "a \<in> host_roots rs"
proof -
  from assms(1) obtain e where e: "roots_admit l rs = Ok e" "Some a \<in> set (targets e)"
    by (auto simp: roots_target_def split: if_splits list.splits)
  from held_root [OF e(1) assms(2) e(2)] show ?thesis .
qed

context collector
begin

lemma with_object_mut_ok:
  assumes inv: "gc_inv P E C S D H r" and l: "0 < strong (groots H) (lease_ptr l)" "t \<noteq> ANY_OBJECT" "K \<subseteq> usable H" and op: "loan_contract E C K t operation"
    and run: "with_object_mut P t l operation H = (x, H')"
  shows "gc_inv P E C S D H' r \<and> carries H H' \<or> mphase (gmarking H') = Faulted"
  using run [unfolded with_object_mut_def]
proof (cases rule: heap_then_cases)
  case (1 a H1)
  then have a: "roots_target t l (groots H) = Ok a" "H1 = H" by auto
  have u: "a \<in> usable H" using root_target_in [OF a(1) l(1)] roots_usable(2) [OF inv] by blast
  have run': "with_reference_mut P t a operation H = (x, H')" using 1(2) a(2) by simp
  show ?thesis
  proof (cases "handle_type H a t")
    case True
    then show ?thesis using with_reference_mut_ok [OF inv u True l(3) op run'] by blast
  next
    case False
    from usable_resolves [OF inv u] obtain ob where ob: "resolve a (gphysical H) = Ok ob" "descriptor_at (gphysical H) a = Some (odescriptor ob)" by blast
    then have "\<not> descriptor_matches t (odescriptor ob)" using False l(2) by (auto simp: handle_type_def descriptor_matches_def)
    then have "H' = H" using run' ob(1) by (simp add: with_reference_mut_def heap_then_def borrow_object_mut_def)
    then show ?thesis using inv by simp
  qed
qed (use inv in auto)

lemma scope_with_object_mut_ok:
  assumes inv: "gc_inv P E C S D H r" and a: "a \<in> usable H" "handle_type H a t" "K \<subseteq> usable H" and op: "loan_contract E C K t operation"
    and run: "scope_with_object_mut P t a operation H = (x, H')"
  shows "gc_inv P E C S D H' r \<and> carries H H' \<or> mphase (gmarking H') = Faulted"
  using with_reference_mut_ok [OF inv a op] run inv_base(10) [OF inv] by (auto simp: scope_with_object_mut_def heap_then_def scope_check_def)

end

section \<open>Samples\<close>

lemma sample_leaf_fields: "desc_id sample_leaf_descriptor = 0" "desc_rep sample_leaf_descriptor = Rust 3" "desc_group sample_leaf_descriptor = None" "desc_layout sample_leaf_descriptor = \<lparr>lsize = 144, lalign = 128\<rparr>"
  "payload_offset sample_leaf_descriptor = 128"
  by (simp_all add: sample_leaf_descriptor_def)

lemma sample_leaf_new: "descriptor_new sample_leaf 0 = Ok sample_leaf_descriptor"
  by (simp add: descriptor_new_def sample_leaf_def sample_leaf_descriptor_def exceeds_bound_def layout_extend_def header_layout_def round_up_def isize_max_def page_group_def)

lemma sample_leaf_registered: "register (\<lambda>_. True) sample_leaf descriptors_default = Ok (sample_leaves, sample_leaf_descriptor)"
  "dslots sample_leaves = Table [Some \<lparr>entry_descriptor = sample_leaf_descriptor, uses = 0\<rparr>] [] ((replicate 4 0)[0 := bit_at 0]) 0 1"
  by (simp_all add: sample_leaves_def register_def reserve_id_def descriptors_default_def sample_prepare sample_leaf_new
    install_def table_insert.simps table_get.simps sample_leaf_fields)

lemma sample_leaf_register: "access_register (\<lambda>_. True) True sample_leaf sample_gc = (Ok sample_leaf_descriptor, sample_leaf_gc)"
  by (simp add: access_register_def with_registry_def heap_then_def set_registry_def sample_gc_def marking_default_def marking_check_def physical_default_def
   sample_leaf_registered(1) sample_leaf_fields sample_leaf_gc_def numeral_2_eq_2)

lemma sample_leaf_reserve:
  "\<exists>p. heap_reserve sample_types (\<lambda>_. True) (\<lambda>_. Some 4096) sample_leaf_descriptor usize_max (gphysical sample_leaf_gc) =
     (Ok \<lparr>rreference = 4096, rpage = 0, rslot = 0\<rparr>, sample_leaf_reserved) \<and> descriptors_of sample_leaf_reserved = sample_leaves \<and>
     table_get 0 (allocations sample_leaf_reserved) = Some p \<and> allocations sample_leaf_reserved = Table [Some p] [] ((replicate 4 0)[0 := bit_at 0]) 0 1"
  by (simp add: sample_leaf_reserved_def heap_reserve_def sample_leaf_gc_def sample_gc_def sample_leaf_fields add_page_def
      sample_prepare_page physical_default_def act_then_def backing_layout_def layout_extend_def sample_types_def round_up_def
      isize_max_def checked_add_def usize_max_def new_large_def backing_new_def insert_page_def table_insert.simps
      link_active_def set_active_def page_mut_def heap_page_def table_get.simps table_update.simps reserve_in_def
      take_slot_def)

lemma sample_leaf_commit: "\<exists>h. heap_commit \<lparr>rreference = 4096, rpage = 0, rslot = 0\<rparr> 0 sample_leaf_reserved = (Ok (), h)"
proof -
  obtain p where p: "descriptors_of sample_leaf_reserved = sample_leaves" "table_get 0 (allocations sample_leaf_reserved) = Some p"
    "allocations sample_leaf_reserved = Table [Some p] [] ((replicate 4 0)[0 := bit_at 0]) 0 1" using sample_leaf_reserve by blast
  show ?thesis
    by (simp add: heap_commit_def p descriptors_retain_def sample_leaf_registered table_get.simps table_update.simps checked_add_def usize_max_def
      act_then_def page_mut_def heap_page_def)
qed

lemma sample_leaf_alloc:
  "\<exists>H. scope_alloc_leaf scalar_provider sample_types (\<lambda>_. True) 0 (\<lambda>_. Some 4096) 1 sample_leaf_descriptor 3 5 sample_leaf_gc = Some (Ok 4096, H) \<and>
     gobjects H 4096 = Some (RustValue 5) \<and> indirect (gledger H) = 0 \<and> max_indirect_bytes (gconfig H) = usize_max \<and> mphase (gmarking H) = Idle \<and> gid H = 1"
proof -
  have sel: "descriptors_of (gphysical sample_leaf_gc) = sample_leaves" "mphase (gmarking sample_leaf_gc) = Idle" "gid sample_leaf_gc = 1" "gledger sample_leaf_gc = ledger_default"
    "gconfig sample_leaf_gc = heap_config_default" "objects (gphysical sample_leaf_gc) = 0" "page_count (gphysical sample_leaf_gc) = 0"
    by (simp_all add: sample_leaf_gc_def sample_gc_def marking_default_def physical_default_def page_count_def table_default_def)
  have c: "check_allocation (Suc 0) sample_leaf_descriptor sample_leaf_gc = Ok ()"
    by (simp add: check_allocation_def marking_check_def sel descriptors_get_def sample_leaf_fields sample_leaf_registered table_get.simps heap_config_default_def usize_max_def)
  obtain m where m: "reserve_pages (\<lambda>_. True) 0 (Suc 0) (gmarking sample_leaf_gc) = Ok m" "mphase m = Idle"
    using sel(2) that by (fastforce simp: reserve_pages_def Let_def split: if_splits)
  obtain h where h: "heap_commit \<lparr>rreference = 4096, rpage = 0, rslot = 0\<rparr> 0 sample_leaf_reserved = (Ok (), h)" using sample_leaf_commit by blast
  have rs: "heap_reserve sample_types (\<lambda>_. True) (\<lambda>_. Some 4096) sample_leaf_descriptor usize_max (gphysical sample_leaf_gc) =
     (Ok \<lparr>rreference = 4096, rpage = 0, rslot = 0\<rparr>, sample_leaf_reserved)" using sample_leaf_reserve by blast
  have one: "Suc 0 \<le> usize_max" by (simp add: usize_max_def)
  have ins: "inspect_initial scalar_provider 3 5 () v = Some (Ok (), v)" for v
    by (simp add: inspect_initial.simps scalar_provider_def scalar_scan_def budget_new_def)
  have k: "kind_of scalar_provider 3 = EdgeFree" "charge_hook scalar_provider 3 5 = 0" "begin_hook scalar_provider 3 5 = ()" by (simp_all add: scalar_provider_def)
  show ?thesis
    by (simp add: scope_alloc_leaf_def scope_alloc_def allocate_typed_def k c one sample_leaf_fields allocate_initialized_def sel(3-7) m(1) checked_add_def Let_def heap_config_default_def rs
      construct_def publish_initial_def descriptor_charge_def ledger_check_def ledger_default_def validate_typed_def ins heap_then_def admit_object_def marking_admit_def visitor_def visited_def m(2)
      commit_object_def h checked_sub_def ledger_observe_def)
qed

lemma sample_edit_contract: "loan_contract (\<lambda>_ _. {}) (\<lambda>_ _ _. {}) K t sample_edit"
  unfolding loan_contract_def
proof (intro allI impI)
  fix m :: mutation and H :: "(nat, unit) gc_heap" and x m' H'
  assume run: "sample_edit m H = (x, m', H')"
  let ?step = "loan_step (\<lambda>_ _. {}) (\<lambda>_ _ _. {}) K t"
  have "?step\<^sup>*\<^sup>* (m, H, {}, True) (m', H', {}, True)"
  proof (cases "\<exists>w. gobjects H (mowner m) = Some (RustValue w)")
    case True
    then obtain w where w: "gobjects H (mowner m) = Some (RustValue w)" by blast
    have id: "with_scan_state m (\<lambda>s. s) H = H" by (cases "gworkspace H") (simp_all add: with_scan_state_def)
    have st: "?step (m, H, {}, True) (m, write_object (mowner m) (RustValue (w + 1)) (with_scan_state m (\<lambda>s. s) H), {}, True)"
      by (rule loan_edit [OF w]) simp_all
    show ?thesis using run w r_into_rtranclp [where r = ?step, OF st [unfolded id]] by (auto simp: sample_edit_def)
  next
    case False
    then have "m' = m" "H' = H" using run by (auto simp: sample_edit_def split: option.splits payload.splits)
    then show ?thesis by simp
  qed
  then show "\<exists>X k. ?step\<^sup>*\<^sup>* (m, H, {}, True) (m', H', X, k)" by blast
qed

section \<open>Properties\<close>

text \<open>
  (C6) A mutable loan of a Rust object, in any phase of a cycle and even while the object is being scanned.
  Whatever a provider does within its contract, the collector's invariant holds afterwards and the
  handles of the scope stay usable, unless the loan reports an error and the heap is faulted. When it
  succeeds, the ledger has changed by exactly the change of the object's owned memory and is within its
  quota; when the provider fails or unwinds, a suspended scan of the object starts again.
\<close>

theorem mutation_loan:
  assumes "collector P E C Q S D" "gc_inv P E C S D H r" "a \<in> usable H" "handle_type H a t" "K \<subseteq> usable H" "loan_contract E C K t operation"
    "gobjects H a = Some (RustValue w)" "with_reference_mut P t a operation H = (x, H')"
  shows "(gc_inv P E C S D H' r \<and> K \<subseteq> usable H' \<or> mphase (gmarking H') = Faulted \<and> (\<forall>v. x \<noteq> Ok v)) \<and>
    (\<forall>v. x = Ok v \<longrightarrow> (\<exists>w'. gobjects H' a = Some (RustValue w') \<and> indirect (gledger H') + charge_hook P t w = indirect (gledger H) + charge_hook P t w' \<and>
       indirect (gledger H') \<le> max_indirect_bytes (gconfig H))) \<and>
    (\<forall>m H1 y m2 H2 ac. borrow_object_mut P t a H = (Ok m, H1) \<longrightarrow> operation m H1 = (y, m2, H2) \<longrightarrow> (\<forall>v. y \<noteq> Ok v) \<longrightarrow>
       gactive H' = Some ac \<longrightarrow> aowner ac = a \<longrightarrow> restart ac)"
proof (intro conjI allI impI)
  show "gc_inv P E C S D H' r \<and> K \<subseteq> usable H' \<or> mphase (gmarking H') = Faulted \<and> (\<forall>v. x \<noteq> Ok v)"
    using collector.with_reference_mut_ok [OF assms(1-6,8)] assms(5) unfolding carries_def by blast
  show "\<exists>w'. gobjects H' a = Some (RustValue w') \<and> indirect (gledger H') + charge_hook P t w = indirect (gledger H) + charge_hook P t w' \<and>
       indirect (gledger H') \<le> max_indirect_bytes (gconfig H)" if "x = Ok v" for v
    using collector.with_reference_mut_accounts [OF assms(1,6) assms(8) [unfolded that] assms(7,4,2,3)] .
  fix m H1 y m2 H2 ac
  assume b: "borrow_object_mut P t a H = (Ok m, H1)" "operation m H1 = (y, m2, H2)" "\<forall>v. y \<noteq> Ok v" "gactive H' = Some ac" "aowner ac = a"
  obtain X k where "(loan_step E C K t)\<^sup>*\<^sup>* (m, H1, {}, True) (m2, H2, X, k)" using assms(6) b(2) unfolding loan_contract_def by blast
  then have "mowner m2 = a" using loan_run_ledger borrow_owner [OF b(1)] by fastforce
  then show "restart ac" using failed_loan_restarts [OF assms(8) b(1,2)] b(3-5) by blast
qed

theorem mutation_loan_witness:
  "\<exists>H H' w'. gobjects H 4096 = Some (RustValue 5) \<and> with_reference_mut scalar_provider 3 4096 sample_edit H = (Ok (), H') \<and>
     gobjects H' 4096 = Some (RustValue w') \<and> indirect (gledger H') \<le> usize_max"
proof -
  let ?inv = "gc_inv scalar_provider (\<lambda>_ _. {}) (\<lambda>_ _ _. {}) frame_roots frame_covered"
  have inv0: "?inv sample_leaf_gc NoSource"
    using frames.access_register_ok [OF sample_gc_inv _ _ sample_leaf_register] by (simp add: sample_leaf_def scalar_provider_def)
  obtain H where H: "scope_alloc_leaf scalar_provider sample_types (\<lambda>_. True) 0 (\<lambda>_. Some 4096) 1 sample_leaf_descriptor 3 5 sample_leaf_gc = Some (Ok 4096, H)"
    "gobjects H 4096 = Some (RustValue 5)" "indirect (gledger H) = 0" "max_indirect_bytes (gconfig H) = usize_max" "mphase (gmarking H) = Idle" using sample_leaf_alloc by blast
  have k: "kind_of scalar_provider 3 = EdgeFree" by (simp add: scalar_provider_def)
  have r: "scope_alloc scalar_provider sample_types (\<lambda>_. True) 0 (\<lambda>_. Some 4096) 1 sample_leaf_descriptor 3 (\<lambda>_. Ok 5) sample_leaf_gc = Some (Ok 4096, H)"
    using H(1) k by (simp add: scope_alloc_leaf_def)
  have sup: "supplies sample_types (\<lambda>_. Some 4096) sample_leaf_gc"
    by (simp add: supplies_def page_types_ok_def types_ok_def small_align_def sample_types_def fresh_alloc_def sample_leaf_gc_def sample_gc_def physical_default_def contents_def)
  have "allocated scalar_provider (\<lambda>_ _. {}) (\<lambda>_ _ _. {}) frame_roots frame_covered sample_leaf_gc NoSource sample_leaf_descriptor (Ok 4096) H \<or> mphase (gmarking H) = Faulted"
    by (rule frames.scope_alloc_ok [OF inv0 sup _ _ r]) (simp_all add: descriptor_type_def sample_leaf_fields)
  then have g: "?inv H NoSource" "4096 \<in> usable H" "descriptor_at (gphysical H) 4096 = Some sample_leaf_descriptor"
    using H(5) secured_usable(1) [of H] by (auto simp: allocated_def)
  have t: "handle_type H 4096 3" using g(3) by (simp add: handle_type_def descriptor_type_def sample_leaf_fields)
  have act: "gactive H = None" using frames.inv_base(8) [OF g(1)] H(5) by (simp add: phase_inv_def Let_def)
  from frames.usable_resolves [OF g(1,2)] g(3) obtain ob where ob: "resolve 4096 (gphysical H) = Ok ob" "odescriptor ob = sample_leaf_descriptor" by auto
  have c: "charge_hook scalar_provider 3 n = 0" for n by (simp add: scalar_provider_def)
  obtain H' where run: "with_reference_mut scalar_provider 3 4096 sample_edit H = (Ok (), H')"
    by (simp add: with_reference_mut_def heap_then_def borrow_object_mut_def ob descriptor_matches_def descriptor_type_def sample_leaf_fields act H(2) descriptor_charge_def c
      set_restart_def sample_edit_def finalize_def invalidate_def write_object_def settle_charge_def object_charge_def ledger_check_def H(3,4) checked_sub_def checked_add_def)
  from mutation_loan [OF frame_collector g(1,2) t _ sample_edit_contract H(2) run, of "{}"] H(2,4) run show ?thesis by auto
qed

end
