(* ===== verification/Gc_World.thy ===== *)
theory Gc_World
  imports Gc_Loan
begin

text \<open>
  The heap and its client together. A state of \<open>world_step\<close> is the heap, the roots of the driver
  (\<^verbatim>\<open>root_source.rs\<close>) and the handles that the current scope has given out; its steps are the
  operations of \<open>Gc_Access\<close> and, when no scope is open, the calls of the collector (\<open>Gc_Driver\<close>).
  The premises of a step are the documented obligations of unsafe client code (complete scanners,
  fields that name the storage they say, constructors that store what they were given) and what the
  borrow checker enforces: handles are used in the scope they come from and a root is used
  while it has an owner.

  The invariant of a run is that of the collector, and that every handle is usable. It gives
  memory safety of every reachable state and type safety of handles. The samples run a registration
  and an allocation on a new heap.
\<close>

section \<open>Definitions\<close>

text \<open>The states of the client: the heap, the roots of the driver and the handles of the scope.\<close>

type_synonym ('o, 's, 'q, 'c) world = "('o, 's) gc_heap \<times> ('q, 'c) root_scan \<times> nat set"

text \<open>A root that has a handle, and a layout that is registered.\<close>

definition lease_held :: "root_lease \<Rightarrow> ('o, 's) gc_heap \<Rightarrow> bool" where
  "lease_held l H \<longleftrightarrow> issued l (groots H) \<and> 0 < strong (groots H) (lease_ptr l)"

definition layout_held :: "dynamic_layout \<Rightarrow> ('o, 's) gc_heap \<Rightarrow> bool" where
  "layout_held l H \<longleftrightarrow> (\<exists>en. registered (desc_id (dl_descriptor l)) (descriptors_of (gphysical H)) = Some en \<and> entry_descriptor en = dl_descriptor l) \<and>
     (\<exists>mem b shape. shape_new mem b = Ok shape \<and> desc_rep (dl_descriptor l) = Dynamic shape)"

text \<open>
  The contract of a root source for a write to its storage: new targets are in \<open>X\<close>, and what its
  cursor counts as covered was covered before or is in \<open>X\<close>.
\<close>

definition source_write :: "('q \<Rightarrow> nat set) \<Rightarrow> ('q \<Rightarrow> 'c \<Rightarrow> nat set) \<Rightarrow> nat set \<Rightarrow> ('q, 'c) root_scan \<Rightarrow> ('q, 'c) root_scan \<Rightarrow> bool" where
  "source_write S D X r r' \<longleftrightarrow> source_roots S r' \<subseteq> source_roots S r \<union> X \<and> passed_source S D r' \<subseteq> passed_source S D r \<union> X"

text \<open>The contract of a constructor: what it stores it has from the scope's handles or from roots.\<close>

definition constructs :: "'o edge_map \<Rightarrow> nat \<Rightarrow> nat set \<Rightarrow> (('o, 's) gc_heap \<Rightarrow> 'o gc_result) \<Rightarrow> bool" where
  "constructs E t K init \<longleftrightarrow> (\<forall>H w. init H = Ok w \<longrightarrow> E t w \<subseteq> K \<union> host_roots (groots H))"

inductive world_step ::
    "('o, 's) provider \<Rightarrow> 'o edge_map \<Rightarrow> ('o, 's) cover_map \<Rightarrow> ('q, 'c) root_source \<Rightarrow> ('q \<Rightarrow> nat set) \<Rightarrow> ('q \<Rightarrow> 'c \<Rightarrow> nat set) \<Rightarrow>
     ('o, 's, 'q, 'c) world \<Rightarrow> ('o, 's, 'q, 'c) world \<Rightarrow> bool"
  for P E C Q S D where
  get: "scope_get T l H = Ok a \<Longrightarrow> lease_held l H \<Longrightarrow> world_step P E C Q S D (H, r, K) (H, r, insert a K)"
| get_slot: "get_root T l n H = Ok a \<Longrightarrow> lease_held l H \<Longrightarrow> world_step P E C Q S D (H, r, K) (H, r, insert a K)"
| import: "source_get a H = Ok b \<Longrightarrow> a \<in> source_roots S r \<Longrightarrow> world_step P E C Q S D (H, r, K) (H, r, insert b K)"
| follow: "edge_get U f a H = Ok (Some b) \<Longrightarrow> a \<in> K \<Longrightarrow> handle_type H a t \<Longrightarrow> edge_field_ok E C t f \<Longrightarrow>
    world_step P E C Q S D (H, r, K) (H, r, insert b K)"
| follow_dynamic: "reference_get f a H = Ok (Some b) \<Longrightarrow> a \<in> K \<Longrightarrow> layout_reference l key = Ok f \<Longrightarrow> layout_held l H \<Longrightarrow>
    world_step P E C Q S D (H, r, K) (H, r, insert b K)"
| write_scalar: "scalar_set (g :: ('o, nat) scalar_field) a v H = (x, H') \<Longrightarrow> a \<in> K \<Longrightarrow> handle_type H a t \<Longrightarrow> scalar_field_ok E C t g \<Longrightarrow>
    world_step P E C Q S D (H, r, K) (H', r, K)"
| write_edge: "edge_set f a value H = (x, H') \<Longrightarrow> a \<in> K \<Longrightarrow> handle_type H a t \<Longrightarrow> edge_field_ok E C t f \<Longrightarrow> set_option value \<subseteq> K \<Longrightarrow>
    world_step P E C Q S D (H, r, K) (H', r, K)"
| write_reference: "reference_set f a value H = (x, H') \<Longrightarrow> a \<in> K \<Longrightarrow> set_option value \<subseteq> K \<Longrightarrow>
    world_step P E C Q S D (H, r, K) (H', r, K)"
| mutate: "scope_with_object_mut P t a (operation :: ('o, 's, unit) loan) H = (x, H') \<Longrightarrow> a \<in> K \<Longrightarrow> handle_type H a t \<Longrightarrow> loan_contract E C K t operation \<Longrightarrow>
    world_step P E C Q S D (H, r, K) (H', r, K)"
| mutate_root: "with_object_mut P t l (operation :: ('o, 's, unit) loan) H = (x, H') \<Longrightarrow> lease_held l H \<Longrightarrow> t \<noteq> ANY_OBJECT \<Longrightarrow> loan_contract E C K t operation \<Longrightarrow>
    world_step P E C Q S D (H, r, K) (H', r, K)"
| retain: "scope_retain mem slack ptr T a H = (x, H') \<Longrightarrow> a \<in> K \<Longrightarrow> fresh_lease ptr (groots H) \<Longrightarrow>
    world_step P E C Q S D (H, r, K) (H', r, K)"
| retain_slot: "root_at mem slack ptr T l n H = (x, H') \<Longrightarrow> lease_held l H \<Longrightarrow> fresh_lease ptr (groots H) \<Longrightarrow>
    world_step P E C Q S D (H, r, K) (H', r, K)"
| create: "create_roots mem slack ptr count H = (x, H') \<Longrightarrow> fresh_lease ptr (groots H) \<Longrightarrow>
    world_step P E C Q S D (H, r, K) (H', r, K)"
| replace: "replace_root l n T source H = (x, H') \<Longrightarrow> lease_held source H \<Longrightarrow> world_step P E C Q S D (H, r, K) (H', r, K)"
| clear: "clear_root l n H = (x, H') \<Longrightarrow> world_step P E C Q S D (H, r, K) (H', r, K)"
| set: "set_root l n value H = (x, H') \<Longrightarrow> set_option value \<subseteq> K \<Longrightarrow> world_step P E C Q S D (H, r, K) (H', r, K)"
| clone: "lease_held l H \<Longrightarrow> world_step P E C Q S D (H, r, K) (H\<lparr>groots := lease_clone l (groots H)\<rparr>, r, K)"
| drop: "lease_drop l (groots H) = (x, rs) \<Longrightarrow> lease_held l H \<Longrightarrow> world_step P E C Q S D (H, r, K) (H\<lparr>groots := rs\<rparr>, r, K)"
| install: "source_edge a H = (x, H') \<Longrightarrow> a \<in> K \<Longrightarrow> source_write S D (handles_of x) r r' \<Longrightarrow> world_step P E C Q S D (H, r, K) (H', r', K)"
| register: "access_register mem room T H = (x, H') \<Longrightarrow> 0 < lalign (type_layout T) \<Longrightarrow> kind_of P (type_id T) = type_kind T \<Longrightarrow>
    world_step P E C Q S D (H, r, K) (H', r, K)"
| register_dynamic: "access_register_dynamic mem room builder H = (x, H') \<Longrightarrow> world_step P E C Q S D (H, r, K) (H', r, K)"
| unregister: "world_step P E C Q S D (H, r, K) (descriptor_drop i H, r, K)"
| alloc: "scope_alloc P tt mem slack alloc heap d t init H = Some (x, H') \<Longrightarrow> supplies tt alloc H \<Longrightarrow> descriptor_type d = Some t \<Longrightarrow> constructs E t K init \<Longrightarrow>
    world_step P E C Q S D (H, r, K) (H', r, K \<union> handles_of x)"
| alloc_leaf: "scope_alloc_leaf P tt mem slack alloc heap d t w H = Some (x, H') \<Longrightarrow> supplies tt alloc H \<Longrightarrow> descriptor_type d = Some t \<Longrightarrow>
    world_step P E C Q S D (H, r, K) (H', r, K \<union> handles_of x)"
| alloc_root: "access_alloc P tt mem slack alloc ptr heap d t init H = Some (y, H') \<Longrightarrow> supplies tt alloc H \<Longrightarrow> descriptor_type d = Some t \<Longrightarrow>
    fresh_lease ptr (groots H) \<Longrightarrow> constructs E t K init \<Longrightarrow> world_step P E C Q S D (H, r, K) (H', r, K)"
| alloc_dynamic: "alloc_dynamic P tt mem slack alloc l H = Some (x, H') \<Longrightarrow> supplies tt alloc H \<Longrightarrow>
    world_step P E C Q S D (H, r, K) (H', r, K \<union> handles_of x)"
| leave: "world_step P E C Q S D (H, r, K) (H, r, {})"
| step: "step_with P Q n H r = Some (y, H', r') \<Longrightarrow> world_step P E C Q S D (H, r, {}) (H', r', {})"
| collect: "collect_with P Q H r = Some (y, H', r') \<Longrightarrow> world_step P E C Q S D (H, r, {}) (H', r', {})"
| safepoint: "safepoint_with P Q H r = Some (y, H', r') \<Longrightarrow> world_step P E C Q S D (H, r, {}) (H', r', {})"
| trim: "trim_metadata H = (y, H') \<Longrightarrow> world_step P E C Q S D (H, r, {}) (H', r, {})"
| close: "shutdown P H = Some (y, H') \<Longrightarrow> world_step P E C Q S D (H, r, {}) (H', r, {})"

text \<open>A heap that is faulted or closed is out of service: its client goes no further.\<close>

definition in_service :: "('o, 's) gc_heap \<Rightarrow> bool" where
  "in_service H \<longleftrightarrow> mphase (gmarking H) \<notin> {Faulted, Closed}"

definition world_inv ::
    "('o, 's) provider \<Rightarrow> 'o edge_map \<Rightarrow> ('o, 's) cover_map \<Rightarrow> ('q \<Rightarrow> nat set) \<Rightarrow> ('q \<Rightarrow> 'c \<Rightarrow> nat set) \<Rightarrow> ('o, 's, 'q, 'c) world \<Rightarrow> bool" where
  "world_inv P E C S D = (\<lambda>(H, r, K). in_service H \<longrightarrow> gc_inv P E C S D H r \<and> K \<subseteq> usable H)"

inductive world_run ::
    "('o, 's) provider \<Rightarrow> 'o edge_map \<Rightarrow> ('o, 's) cover_map \<Rightarrow> ('q, 'c) root_source \<Rightarrow> ('q \<Rightarrow> nat set) \<Rightarrow> ('q \<Rightarrow> 'c \<Rightarrow> nat set) \<Rightarrow>
     ('o, 's, 'q, 'c) world \<Rightarrow> bool"
  for P E C Q S D where
  run_start: "heap_new config bytes st k = (Ok H, k') \<Longrightarrow> source_roots S r = {} \<Longrightarrow> world_run P E C Q S D (H, r, {})"
| run_step: "world_run P E C Q S D (H, r, K) \<Longrightarrow> in_service H \<Longrightarrow> world_step P E C Q S D (H, r, K) w \<Longrightarrow> world_run P E C Q S D w"

definition sample_record :: descriptor where
  "sample_record = \<lparr>desc_id = 0, desc_rep = Dynamic sample_shape, desc_layout = \<lparr>lsize = 48, lalign = 16\<rparr>, desc_group = Some 11, payload_offset = 16,
     state_layout = \<lparr>lsize = 8, lalign = 8\<rparr>, desc_kind = Resumable\<rparr>"

definition sample_records :: descriptors where
  "sample_records = (case register_dynamic (\<lambda>_. True) sample_shape descriptors_default of Ok (ds, d) \<Rightarrow> ds | _ \<Rightarrow> descriptors_default)"

definition sample_slab :: "u64 \<Rightarrow> u64 \<Rightarrow> nat \<Rightarrow> links \<Rightarrow> page" where
  "sample_slab occ un free avs = Small \<lparr>base = 4096, block = \<lparr>lsize = 1144, lalign = 16\<rparr>\<rparr> \<lparr>geometry = \<lparr>stride = 48, gslots = 21, words = 1, bits_offset = 1080, marks_offset = 1096, trailer = \<lparr>lsize = 120, lalign = 8\<rparr>\<rparr>,
     sgroup = 11, sfree = free, sactive = links_default, savailable = avs, bits = [occ, un], smarks = marks_default\<rparr>"

definition sample_layout :: dynamic_layout where
  "sample_layout = \<lparr>dl_heap = 1, dl_descriptor = sample_record\<rparr>"

definition sample_gc1 :: "(nat, unit) gc_heap" where
  "sample_gc1 = sample_gc\<lparr>gphysical := (gphysical sample_gc)\<lparr>descriptors_of := sample_records\<rparr>, gstrong := (\<lambda>_. 1)(0 := 2)\<rparr>"

definition sample_reserved :: physical_heap where
  "sample_reserved = \<lparr>allocations = Table [Some (sample_slab 0 1 20 links_default)] [] ((replicate 4 0)[0 := bit_at 0]) 0 1, available = (replicate 96 None)[11 := Some 0],
     first_active = Some 0, cursor = \<lparr>cpage = None, cslot = 0\<rparr>, descriptors_of = sample_records, backing_bytes = 1144, objects = 0, memory = (\<lambda>_. None)\<rparr>"

section \<open>Calls of the collector\<close>

context collector
begin

text \<open>A call of the collector leaves the invariant, or a faulted heap.\<close>

lemma service_settled:
  assumes "service_work P Q n H r = Some (x, H', r')" "gc_inv P E C S D H r"
  shows "gc_inv P E C S D H' r' \<or> mphase (gmarking H') = Faulted"
proof (cases "n < 8")
  case True
  then show ?thesis using assms inv_base(10) [OF assms(2)] by (auto simp: service_work_def)
next
  case False
  then show ?thesis using service_work_ok [OF assms(2), of n] assms(1) by (cases x) auto
qed

lemma drain_settled:
  assumes "drain P Q t H r = Some (x, H', r')" "gc_inv P E C S D H r"
  shows "gc_inv P E C S D H' r' \<or> mphase (gmarking H') = Faulted"
proof -
  define G where "G = (\<lambda>((((P', Q'), t :: work_report), H), r) (y :: work_report gc_result \<times> ('o, 's) gc_heap \<times> ('q, 'c) root_scan).
    P' = P \<longrightarrow> Q' = Q \<longrightarrow> gc_inv P E C S D H r \<longrightarrow> gc_inv P E C S D (fst (snd y)) (snd (snd y)) \<or> mphase (gmarking (fst (snd y))) = Faulted)"
  have "G ((((P, Q), t), H), r) (x, H', r')"
  proof (rule drain.raw_induct [OF _ assms(1), where Pa = G])
    fix f P' Q' t H r y
    assume IH: "\<And>P Q t H r y. f P Q t H r = Some y \<Longrightarrow> G ((((P, Q), t), H), r) y"
      and y: "(if mphase (gmarking H) = Idle then Some (Ok t, H, r) else service_work P' Q' WORK_NORMAL H r \<bind>
           (\<lambda>(x, H, r). case and_then x (add_work t) of Ok t \<Rightarrow> f P' Q' t H r | Err e \<Rightarrow> Some (Err e, H, r) | Panic m \<Rightarrow> Some (Panic m, H, r))) = Some y"
    show "G ((((P', Q'), t), H), r) y" unfolding G_def split_def fst_conv snd_conv
    proof (intro impI)
      assume a: "P' = P" "Q' = Q" "gc_inv P E C S D H r"
      show "gc_inv P E C S D (fst (snd y)) (snd (snd y)) \<or> mphase (gmarking (fst (snd y))) = Faulted"
      proof (cases "mphase (gmarking H) = Idle")
        case False
        from y False obtain z H1 r1 where s: "service_work P Q WORK_NORMAL H r = Some (z, H1, r1)" by (auto simp: bind_eq_Some_conv a)
        show ?thesis
        proof (cases "and_then z (add_work t)")
          case (Ok u)
          then have "gc_inv P E C S D H1 r1" using service_work_ok [OF a(3), of WORK_NORMAL] s by (cases z) auto
          moreover have "f P Q u H1 r1 = Some y" using y False s Ok by (simp add: a)
          ultimately show ?thesis using IH [of P Q u H1 r1 y] by (simp add: G_def)
        qed (use y False s service_settled [OF s a(3)] in \<open>auto simp: a\<close>)
      qed (use y a in auto)
    qed
  qed
  then show ?thesis using assms(2) by (simp add: G_def)
qed

lemma trim_settled:
  assumes "gc_inv P E C S D H r" "trim_metadata H = (x, H')"
  shows "gc_inv P E C S D H' r"
  using trim_metadata_ok [OF assms(1)] assms inv_base(10) [OF assms(1)] by (cases "mphase (gmarking H) = Idle") (auto simp: trim_metadata_def)

lemma then_drain_settled:
  assumes "then_drain P Q (x, H, r) = Some (y, H', r')" "gc_inv P E C S D H r \<or> mphase (gmarking H) = Faulted" "\<And>t. x = Ok t \<Longrightarrow> gc_inv P E C S D H r"
  shows "gc_inv P E C S D H' r' \<or> mphase (gmarking H') = Faulted"
  using assms drain_settled by (cases x) (auto simp: then_drain_def)

lemma collect_settled:
  assumes run: "collect_with P Q H r = Some (x, H', r')" and inv: "gc_inv P E C S D H r"
  shows "gc_inv P E C S D H' r' \<or> mphase (gmarking H') = Faulted"
proof -
  note ck = inv_base(10) [OF inv]
  from run ck obtain x1 H1 r1 where d1: "drain P Q \<lparr>work = 0, retired_owners = 0\<rparr> H r = Some (x1, H1, r1)"
    by (auto simp: collect_with_def bind_eq_Some_conv)
  show ?thesis
  proof (cases x1)
    case (Ok t1)
    then have g1: "gc_inv P E C S D H1 r1" using drain_ok [OF d1 inv] by simp
    obtain x2 H2 r2 where s2: "service_work P Q WORK_NORMAL H1 r1 = Some (x2, H2, r2)" using run ck d1 Ok by (auto simp: collect_with_def bind_eq_Some_conv)
    have g2: "gc_inv P E C S D H2 r2" if "and_then x2 (add_fresh t1) = Ok t" for t using service_work_ok [OF g1, of WORK_NORMAL] s2 that by (cases x2) auto
    obtain x3 H3 r3 where d3: "then_drain P Q (and_then x2 (add_fresh t1), H2, r2) = Some (x3, H3, r3)"
      using run ck d1 Ok s2 by (auto simp: collect_with_def bind_eq_Some_conv)
    have g3: "gc_inv P E C S D H3 r3 \<or> mphase (gmarking H3) = Faulted" by (rule then_drain_settled [OF d3 service_settled [OF s2 g1] g2])
    show ?thesis
    proof (cases x3)
      case ok3: (Ok t3)
      then obtain t2 where t2: "and_then x2 (add_fresh t1) = Ok t2" using d3 by (cases "and_then x2 (add_fresh t1)") (auto simp: then_drain_def)
      then have "gc_inv P E C S D H3 r3" using drain_ok [OF _ g2 [OF t2], of t2 x3 H3 r3] d3 [unfolded t2] ok3 by (simp add: then_drain_def)
      moreover obtain c H4 where t: "trim_metadata H3 = (c, H4)" by fastforce
      ultimately have "gc_inv P E C S D H4 r3" using trim_settled by blast
      moreover have "H' = H4 \<and> r' = r3" using run ck d1 Ok s2 d3 ok3 t by (auto simp: collect_with_def split: outcome.splits bool.splits)
      ultimately show ?thesis by simp
    qed (use run ck d1 Ok s2 d3 g3 in \<open>auto simp: collect_with_def\<close>)
  qed (use run ck d1 drain_settled [OF d1 inv] in \<open>auto simp: collect_with_def then_drain_def\<close>)
qed

lemma safepoint_settled:
  assumes run: "safepoint_with P Q H r = Some (x, H', r')" and inv: "gc_inv P E C S D H r"
  shows "gc_inv P E C S D H' r' \<or> mphase (gmarking H') = Faulted"
proof (cases "service_due H")
  case True
  note ck = inv_base(10) [OF inv]
  obtain x1 H1 r1 where s: "service_work P Q WORK_NORMAL H r = Some (x1, H1, r1)" using run ck True by (auto simp: safepoint_with_def Let_def bind_eq_Some_conv)
  obtain x2 H2 r2 where d: "(if automatic_choice H = Assist then then_drain P Q (x1, H1, r1) else Some (x1, H1, r1)) = Some (x2, H2, r2)"
    using run ck True s by (auto simp: safepoint_with_def Let_def bind_eq_Some_conv)
  have g1: "gc_inv P E C S D H1 r1" if "x1 = Ok t" for t using service_work_ok [OF inv, of WORK_NORMAL] s that by auto
  have g2: "gc_inv P E C S D H2 r2 \<or> mphase (gmarking H2) = Faulted"
    using d then_drain_settled [OF _ service_settled [OF s inv] g1] service_settled [OF s inv] by (auto split: if_splits)
  show ?thesis
  proof (cases x2)
    case (Ok t)
    then have "gc_inv P E C S D H2 r2" using d g1 drain_ok by (cases x1) (auto simp: then_drain_def split: if_splits)
    moreover obtain c H3 where t: "trim_metadata H2 = (c, H3)" by fastforce
    ultimately have "gc_inv P E C S D H3 r2" using trim_settled by blast
    moreover have "H' = H3 \<and> r' = r2" using run ck True s d Ok t by (auto simp: safepoint_with_def Let_def split: outcome.splits)
    ultimately show ?thesis by simp
  qed (use run ck True s d g2 in \<open>auto simp: safepoint_with_def Let_def\<close>)
qed (use run inv inv_base(10) [OF inv] in \<open>auto simp: safepoint_with_def\<close>)

end

section \<open>The invariant of the client\<close>

lemma world_keep:
  assumes "gc_inv P E C S D H r" "K \<subseteq> usable H" "gc_inv P E C S D H' r' \<and> carries H H' \<or> mphase (gmarking H') = Faulted" "in_service H' \<Longrightarrow> X \<subseteq> usable H'"
  shows "world_inv P E C S D (H', r', K \<union> X)"
  using assms by (auto simp: world_inv_def in_service_def carries_def)

lemma world_same:
  assumes "gc_inv P E C S D H r" "K \<subseteq> usable H" "gc_inv P E C S D H' r' \<and> carries H H' \<or> mphase (gmarking H') = Faulted"
  shows "world_inv P E C S D (H', r', K)"
  using world_keep [OF assms, of "{}"] by simp

lemma world_handle:
  assumes "gc_inv P E C S D H r" "K \<subseteq> usable H" "a \<in> usable H"
  shows "world_inv P E C S D (H, r, insert a K)"
  using assms by (simp add: world_inv_def)

lemma bound_offset:
  assumes "layout_reference l key = Ok f" "layout_held l H"
  shows "rf_layout f = l" "\<exists>shape. desc_rep (dl_descriptor l) = Dynamic shape \<and> rf_offset f \<in> set (references shape)"
proof -
  from assms(2) obtain mem b shape where s: "shape_new mem b = Ok shape" "desc_rep (dl_descriptor l) = Dynamic shape" by (auto simp: layout_held_def)
  from assms(1) s(2) have f: "rf_layout f = l" "kindex key < length (sfields shape)" "fkind (sfields shape ! kindex key) = FReference" "rf_offset f = foffset (sfields shape ! kindex key)"
    by (auto simp: layout_reference_def bind_reference_def layout_field_def descriptor_shape_def split: if_splits)
  then show "rf_layout f = l" "\<exists>shape. desc_rep (dl_descriptor l) = Dynamic shape \<and> rf_offset f \<in> set (references shape)"
    using shape_new_spec(3) [OF s(1)] s(2) by auto
qed

context collector
begin

lemma strong_inv: "gc_inv P E C S D (H\<lparr>gstrong := f\<rparr>) r \<longleftrightarrow> gc_inv P E C S D H r"
  by (simp add: gc_inv_def phase_inv_def Let_def visitor_def active_slots_def gc_roots_def cursor_ok_def tricolour_def active_ok_def sweep_inv_def
    split: phase.splits option.splits cong: sweep_stage.case_cong)

lemma dynamic_get_ok:
  assumes inv: "gc_inv P E C S D H r" and a: "a \<in> usable H" and run: "reference_get f a H = Ok (Some b)" and f: "layout_reference l key = Ok f" "layout_held l H"
  shows "b \<in> usable H"
proof (rule reference_get_ok [OF inv a run])
  fix d shape assume d: "descriptor_at (gphysical H) a = Some d" "desc_rep d = Dynamic shape"
  from run obtain hd where h: "read_header a (gphysical H) = Ok hd" "hdescriptor hd = desc_id (dl_descriptor l)"
    by (auto simp: reference_get_def layout_pointer_def scope_check_def bound_offset(1) [OF f] split: if_splits)
  then have "header_descriptor (gphysical H) a = Some (desc_id (dl_descriptor l))" by (auto simp: read_header_def header_descriptor_def split: option.splits)
  then have "d = dl_descriptor l" using d(1) f(2) by (auto simp: descriptor_at_def layout_held_def)
  then show "rf_offset f \<in> set (references shape)" using bound_offset(2) [OF f] d(2) by auto
qed

lemma retain_slot_ok:
  assumes inv: "gc_inv P E C S D H r" and l: "lease_held l H" "fresh_lease ptr (groots H)" and run: "root_at mem slack ptr T l n H = (x, H')"
  shows "gc_inv P E C S D H' r \<and> carries H H'"
  using run [unfolded root_at_def]
proof (cases rule: heap_then_cases)
  case (1 a H1)
  then have e3: "H1 = H" and "\<exists>e. roots_admit l (groots H) = Ok e \<and> entry_target n e = Ok a" by (simp_all split: if_splits) force
  then obtain e where e: "roots_admit l (groots H) = Ok e" "entry_target n e = Ok a" by blast
  have "a \<in> usable H" using held_root [OF e(1) _ entry_target_in [OF e(2)]] roots_usable(2) [OF inv] l(1) by (auto simp: lease_held_def)
  from retain_root_ok [OF inv this l(2) 1(2) [unfolded e3]] show ?thesis by blast
qed (use inv in auto)

lemma scope_retain_ok:
  assumes inv: "gc_inv P E C S D H r" and a: "a \<in> usable H" "fresh_lease ptr (groots H)" and run: "scope_retain mem slack ptr T a H = (x, H')"
  shows "gc_inv P E C S D H' r \<and> carries H H'"
  using run inv_base(10) [OF inv] retain_root_ok [OF inv a, of mem slack T] by (auto simp: scope_retain_def heap_then_def scope_check_def)

lemma clear_root_ok:
  assumes inv: "gc_inv P E C S D H r" and run: "clear_root l n H = (x, H')"
  shows "gc_inv P E C S D H' r \<and> carries H H'"
  by (rule replace_target_ok [OF inv run [unfolded clear_root_def]]) (use inv in auto)

lemma install_ok:
  assumes inv: "gc_inv P E C S D H r" and a: "a \<in> usable H" and run: "source_edge a H = (x, H')" and w: "source_write S D (handles_of x) r r'"
  shows "gc_inv P E C S D H' r' \<and> carries H H' \<or> mphase (gmarking H') = Faulted"
proof -
  have "scope_publish a H = (x, H')" using run inv_base(10) [OF inv] by (simp add: source_edge_def heap_then_def)
  from scope_publish_ok [OF inv a this] show ?thesis using source_inv_step [of H' r "{a}" r'] w by (auto simp: source_write_def)
qed

lemma constructs_usable:
  assumes "constructs E t K init" "K \<subseteq> usable H" "gc_inv P E C S D H1 r" "carries H H1" "init H1 = Ok w"
  shows "E t w \<subseteq> usable H1"
  using assms roots_usable(2) [OF assms(3)] unfolding constructs_def carries_def by blast

lemma allocated_world:
  assumes "allocated P E C S D H r d x H' \<or> mphase (gmarking H') = Faulted" "gc_inv P E C S D H r" "K \<subseteq> usable H"
  shows "world_inv P E C S D (H', r, K \<union> handles_of x)"
proof (rule world_keep [OF assms(2,3)])
  show "gc_inv P E C S D H' r \<and> carries H H' \<or> mphase (gmarking H') = Faulted" using assms(1) by (auto simp: allocated_def)
  show "handles_of x \<subseteq> usable H'" if "in_service H'"
    using assms(1) that secured_usable(1) [of H'] by (cases x) (auto simp: allocated_def in_service_def)
qed

lemma shutdown_closes: "shutdown P H = Some (y, H') \<Longrightarrow> mphase (gmarking H') = Closed"
  by (cases y) (auto simp: shutdown_def Let_def marking_close_def)

end

context collector
begin

text \<open>Every operation of the client keeps its invariant.\<close>

lemma world_step_inv:
  assumes "world_step P E C Q S D (H, r, K) w" "gc_inv P E C S D H r" "K \<subseteq> usable H"
  shows "world_inv P E C S D w"
proof -
  note u = subsetD [OF assms(3)] and us = subset_trans [OF _ assms(3)]
  have keep: ?thesis if "w = (H', r', K)" "gc_inv P E C S D H' r' \<and> carries H H' \<or> mphase (gmarking H') = Faulted" for H' r'
    using world_same [OF assms(2,3) that(2)] that(1) by simp
  have more: ?thesis if "w = (H, r, insert a K)" "a \<in> usable H" for a using world_handle [OF assms(2,3) that(2)] that(1) by simp
  show ?thesis using assms(1)
  proof cases
    case (get T l a)
    then show ?thesis using scope_get_ok [OF assms(2) get(2)] by (intro more) (simp_all add: lease_held_def)
  next
    case (get_slot T l n a)
    then show ?thesis using get_root_ok [OF assms(2) get_slot(2)] by (intro more) (simp_all add: lease_held_def)
  next
    case (import a b)
    then have "b \<in> gc_roots S H r" by (auto simp: source_get_def gc_roots_def)
    then show ?thesis using roots_usable(1) [OF assms(2)] by (intro more [OF import(1)]) blast
  next
    case (follow U f a b t)
    show ?thesis by (rule more [OF follow(1) edge_get_ok [OF assms(2) u [OF follow(3)] follow(4,5,2)]])
  next
    case (follow_dynamic f a b l key)
    show ?thesis by (rule more [OF follow_dynamic(1) dynamic_get_ok [OF assms(2) u [OF follow_dynamic(3)] follow_dynamic(2,4,5)]])
  next
    case (write_scalar g a v x H' t)
    show ?thesis by (rule keep [OF write_scalar(1) disjI1 [OF scalar_set_ok [OF assms(2) u [OF write_scalar(3)] write_scalar(4,5,2)]]])
  next
    case (write_edge f a val x H' t)
    show ?thesis by (rule keep [OF write_edge(1) edge_set_ok [OF assms(2) u [OF write_edge(3)] write_edge(4,5) us [OF write_edge(6)] write_edge(2)]])
  next
    case (write_reference f a val x H')
    show ?thesis by (rule keep [OF write_reference(1) reference_set_ok [OF assms(2) u [OF write_reference(3)] us [OF write_reference(4)] write_reference(2)]])
  next
    case (mutate t a operation x H')
    show ?thesis by (rule keep [OF mutate(1) scope_with_object_mut_ok [OF assms(2) u [OF mutate(3)] mutate(4) assms(3) mutate(5,2)]])
  next
    case (mutate_root t l operation x H')
    show ?thesis using with_object_mut_ok [OF assms(2) _ mutate_root(4) assms(3) mutate_root(5,2)] mutate_root(3) by (intro keep [OF mutate_root(1)]) (simp add: lease_held_def)
  next
    case (retain mem slack ptr T a x H')
    show ?thesis by (rule keep [OF retain(1) disjI1 [OF scope_retain_ok [OF assms(2) u [OF retain(3)] retain(4,2)]]])
  next
    case (retain_slot mem slack ptr T l n x H')
    show ?thesis by (rule keep [OF retain_slot(1) disjI1 [OF retain_slot_ok [OF assms(2) retain_slot(3,4,2)]]])
  next
    case (create mem slack ptr count x H')
    show ?thesis using create_roots_ok [OF assms(2) create(3,2)] by (intro keep [OF create(1)]) blast
  next
    case (replace l n T source x H')
    show ?thesis using replace_root_ok [OF assms(2) _ replace(2)] replace(3) by (intro keep [OF replace(1)]) (simp add: lease_held_def)
  next
    case (clear l n x H')
    show ?thesis by (rule keep [OF clear(1) disjI1 [OF clear_root_ok [OF assms(2) clear(2)]]])
  next
    case (set l n val x H')
    show ?thesis by (rule keep [OF set(1) disjI1 [OF set_root_ok [OF assms(2) us [OF set(3)] set(2)]]])
  next
    case (clone l)
    show ?thesis using lease_clone_gc [OF assms(2)] clone(2) by (intro keep [OF clone(1)]) (simp add: lease_held_def)
  next
    case (drop l x rs)
    show ?thesis using lease_drop_gc [OF assms(2) _ _ drop(2)] drop(3) by (intro keep [OF drop(1)]) (simp add: lease_held_def)
  next
    case (install a x H' r')
    show ?thesis by (rule keep [OF install(1) install_ok [OF assms(2) u [OF install(3)] install(2,4)]])
  next
    case (register mem room T x H')
    show ?thesis using access_register_ok [OF assms(2) register(3,4,2)] by (intro keep [OF register(1)]) blast
  next
    case (register_dynamic mem room builder x H')
    show ?thesis using access_register_dynamic_ok [OF assms(2) register_dynamic(2)] by (intro keep [OF register_dynamic(1)]) blast
  next
    case (unregister i)
    then show ?thesis using assms(2,3) by (auto simp: world_inv_def descriptor_drop_def strong_inv usable_def)
  next
    case (alloc tt mem slack al heap d t init x H')
    have "allocated P E C S D H r d x H' \<or> mphase (gmarking H') = Faulted"
      by (rule scope_alloc_ok [OF assms(2) alloc(3,4) _ alloc(2)]) (rule constructs_usable [OF alloc(5) assms(3)])
    then show ?thesis using allocated_world [OF _ assms(2,3)] alloc(1) by blast
  next
    case (alloc_leaf tt mem slack al heap d t v x H')
    have "allocated P E C S D H r d x H' \<or> mphase (gmarking H') = Faulted"
    proof (cases "kind_of P t = EdgeFree")
      case True
      have "scope_alloc P tt mem slack al heap d t (\<lambda>_. Ok v) H = Some (x, H')" using alloc_leaf(2) True by (simp add: scope_alloc_leaf_def)
      then show ?thesis by (rule scope_alloc_ok [OF assms(2) alloc_leaf(3,4), rotated]) (simp add: leaves [OF True])
    qed (use alloc_leaf(2) assms(2) in \<open>auto simp: scope_alloc_leaf_def allocated_def\<close>)
    then show ?thesis using allocated_world [OF _ assms(2,3)] alloc_leaf(1) by blast
  next
    case (alloc_root tt mem slack al ptr heap d t init y H')
    have "gc_inv P E C S D H' r \<and> carries H H' \<and> (\<forall>l. y = Ok l \<longrightarrow> issued l (groots H') \<and> 0 < strong (groots H') (lease_ptr l)) \<or> mphase (gmarking H') = Faulted"
      by (rule access_alloc_ok [OF assms(2) alloc_root(3,4,5) _ alloc_root(2)]) (rule constructs_usable [OF alloc_root(6) assms(3)])
    then show ?thesis by (intro keep [OF alloc_root(1)]) blast
  next
    case (alloc_dynamic tt mem slack al l x H')
    show ?thesis using allocated_world [OF alloc_dynamic_ok [OF assms(2) alloc_dynamic(3,2)] assms(2,3)] alloc_dynamic(1) by simp
  next
    case leave
    then show ?thesis using assms(2) by (simp add: world_inv_def)
  next
    case (step n y H' r')
    from step(3) obtain z where "service_work P Q n H r = Some (z, H', r')" by (auto simp: step_with_def split: prod.splits)
    from service_settled [OF this assms(2)] show ?thesis using step(2) by (auto simp: world_inv_def in_service_def)
  next
    case (collect y H' r')
    from collect_settled [OF collect(3) assms(2)] show ?thesis using collect(2) by (auto simp: world_inv_def in_service_def)
  next
    case (safepoint y H' r')
    from safepoint_settled [OF safepoint(3) assms(2)] show ?thesis using safepoint(2) by (auto simp: world_inv_def in_service_def)
  next
    case (trim y H')
    from trim_settled [OF assms(2) trim(3)] show ?thesis using trim(2) by (auto simp: world_inv_def)
  next
    case (close y H')
    from shutdown_closes [OF close(3)] show ?thesis using close(2) by (simp add: world_inv_def in_service_def)
  qed
qed

lemma world_run_inv: "world_run P E C Q S D w \<Longrightarrow> world_inv P E C S D w"
proof (induction rule: world_run.induct)
  case (run_start config bytes st k H k' r)
  then show ?case using new_heap_inv(1) [of config bytes st k H k' S r] by (simp add: world_inv_def)
next
  case (run_step H r K w)
  then show ?case using world_step_inv [OF run_step(3)] by (auto simp: world_inv_def)
qed

lemma usable_closed:
  assumes "gc_inv P E C S D H r" "a \<in> usable H" "(\<lambda>x y. y \<in> edges_at E (gphysical H) (gobjects H) x)\<^sup>*\<^sup>* a b"
  shows "b \<in> usable H"
  using assms(3,2) by (induction rule: rtranclp_induct) (use edges_usable [OF assms(1)] in auto)

end

section \<open>Samples\<close>

lemma sample_class: "find_class \<lparr>lsize = 48, lalign = 16\<rparr> = Some 5" by code_simp

lemma sample_record_new: "descriptor_dynamic 0 sample_shape = Ok sample_record"
  by (simp add: descriptor_dynamic_def sample_shape_def sample_record_def layout_extend_def header_layout_def round_up_def isize_max_def page_group_def sample_class)

lemma sample_record_fields: "desc_id sample_record = 0" "desc_rep sample_record = Dynamic sample_shape" "desc_group sample_record = Some 11" "desc_layout sample_record = \<lparr>lsize = 48, lalign = 16\<rparr>"
  "payload_offset sample_record = 16"
  by (simp_all add: sample_record_def)

lemma sample_record_registered: "register_dynamic (\<lambda>_. True) sample_shape descriptors_default = Ok (sample_records, sample_record)"
  "dslots sample_records = Table [Some \<lparr>entry_descriptor = sample_record, uses = 0\<rparr>] [] ((replicate 4 0)[0 := bit_at 0]) 0 1"
  "dactive sample_records = [0]" "dtypes sample_records = []"
  by (simp_all add: sample_records_def register_dynamic_def reserve_id_def descriptors_default_def sample_prepare sample_record_new
    install_def table_insert.simps table_get.simps sample_record_fields descriptor_type_def)

lemma sample_geometry: "geometry_new sample_types (group_stride 11) = Ok \<lparr>stride = 48, gslots = 21, words = 1, bits_offset = 1080, marks_offset = 1096, trailer = \<lparr>lsize = 120, lalign = 8\<rparr>\<rparr>"
  by (simp add: geometry_new_def group_stride_def STRIDES_def SLAB_BYTES_def div_ceil_def layout_extend_def u64_array_def sample_types_def round_up_def isize_max_def Let_def)

lemma sample_backing: "backing_layout sample_types l (Some 11) = Ok \<lparr>lsize = 1144, lalign = 16\<rparr>"
  by (simp add: backing_layout_def sample_geometry layout_extend_def SLAB_BYTES_def slab_align_def round_up_def isize_max_def assert_then_def)

lemma sample_new: "new_small sample_types (\<lambda>_. Some 4096) 11 = Ok (sample_slab 0 0 21 links_default)"
  by (simp add: new_small_def sample_geometry sample_backing backing_new_def sample_slab_def numeral_2_eq_2)

lemma first_bits: "trailing_zeros (- 1 :: 64 word) = 0" "bit_at 0 = (1 :: 64 word)"
  by code_simp+

lemma sample_take: "page_reserve (sample_slab 0 0 21 l) = Ok (sample_slab 0 1 20 l, 0)"
  by (simp add: sample_slab_def free_in_word_def Let_def unavail_bit_def set_word_bit_def clear_slot_def clear_word_bit_def marks_default_def first_bits)

lemma sample_slab_fields: "page_free (sample_slab o1 o2 n l) = n" "page_pointer (sample_slab o1 o2 n l) 0 = Ok 4096"
  "with_active (\<lambda>_. \<lparr>previous = None, successor = None\<rparr>) (sample_slab o1 o2 n l) = sample_slab o1 o2 n l"
  "with_available (\<lambda>_. \<lparr>previous = None, successor = None\<rparr>) (sample_slab o1 o2 n l) = Ok (sample_slab o1 o2 n links_default)"
  by (simp_all add: sample_slab_def links_default_def assert_then_def)

lemma sample_register: "access_register_dynamic (\<lambda>_. True) True sample_builder sample_gc = (Ok sample_layout, sample_gc1)"
  by (simp add: access_register_dynamic_def heap_then_def with_registry_def set_registry_def sample_gc_def marking_default_def marking_check_def physical_default_def
   sample_shape_new sample_record_registered(1) sample_record_fields sample_layout_def sample_gc1_def numeral_2_eq_2)

lemma sample_reserve:
  "heap_reserve sample_types (\<lambda>_. True) (\<lambda>_. Some 4096) sample_record usize_max (gphysical sample_gc1) = (Ok \<lparr>rreference = 4096, rpage = 0, rslot = 0\<rparr>, sample_reserved)"
  by (simp add: heap_reserve_def sample_record_fields add_page_def sample_gc1_def sample_gc_def sample_reserved_def
      sample_prepare_page physical_default_def act_then_def sample_backing checked_add_def usize_max_def sample_new insert_page_def table_insert.simps
      link_active_def link_available_def set_active_def set_available_def available_head_def set_available_head_def GROUPS_def page_mut_def heap_page_def table_get.simps table_update.simps reserve_in_def
      take_slot_def sample_slab_fields sample_take)

lemma sample_commit: "\<exists>h. heap_commit \<lparr>rreference = 4096, rpage = 0, rslot = 0\<rparr> 0 sample_reserved = (Ok (), h)"
  by (simp add: heap_commit_def sample_reserved_def descriptors_retain_def sample_record_registered table_get.simps table_update.simps checked_add_def usize_max_def
    act_then_def page_mut_def heap_page_def)

lemma sample_alloc: "\<exists>H. alloc_dynamic scalar_provider sample_types (\<lambda>_. True) 0 (\<lambda>_. Some 4096) sample_layout sample_gc1 = Some (Ok 4096, H)"
proof -
  have sel: "descriptors_of (gphysical sample_gc1) = sample_records" "mphase (gmarking sample_gc1) = Idle" "gid sample_gc1 = 1" "gledger sample_gc1 = ledger_default" "gconfig sample_gc1 = heap_config_default"
    "objects (gphysical sample_gc1) = 0" "page_count (gphysical sample_gc1) = 0" "pending (gmarking sample_gc1) = []"
    by (simp_all add: sample_gc1_def sample_gc_def marking_default_def physical_default_def page_count_def table_default_def)
  have c: "check_allocation (Suc 0) sample_record sample_gc1 = Ok ()"
    by (simp add: check_allocation_def marking_check_def sel descriptors_get_def sample_record_fields sample_record_registered table_get.simps heap_config_default_def usize_max_def)
  obtain m where m: "reserve_pages (\<lambda>_. True) 0 (Suc 0) (gmarking sample_gc1) = Ok m" "mphase m = Idle"
    using sel(2) that by (fastforce simp: reserve_pages_def Let_def split: if_splits)
  obtain h where h: "heap_commit \<lparr>rreference = 4096, rpage = 0, rslot = 0\<rparr> 0 sample_reserved = (Ok (), h)" using sample_commit by blast
  have one: "Suc 0 \<le> usize_max" by (simp add: usize_max_def)
  show ?thesis
    by (simp add: alloc_dynamic_def sample_layout_def c one descriptor_shape_def sample_record_fields allocate_initialized_def sel(4-7) m(1) checked_add_def Let_def heap_config_default_def sample_reserve
      construct_def publish_initial_def descriptor_charge_def ledger_check_def ledger_default_def validate_dynamic_def heap_then_def admit_object_def marking_admit_def visitor_def visited_def m(2) commit_object_def h checked_sub_def)
qed

section \<open>Allocation does not fault the heap\<close>

lemma guard_rollback_phase: "guard_rollback rv (x, H) = (y, H') \<Longrightarrow> mphase (gmarking H') = mphase (gmarking H)"
  by (auto simp: guard_rollback_def split: prod.splits outcome.splits)

lemma commit_object_phase: "commit_object rv d x n H = (y, H') \<Longrightarrow> mphase (gmarking H') = mphase (gmarking H)"
  by (auto simp: commit_object_def Let_def split: prod.splits outcome.splits)

lemma admit_object_phase: "admit_object rv H = (y, H') \<Longrightarrow> mphase (gmarking H') = mphase (gmarking H)"
  by (auto simp: admit_object_def marking_admit_def visited_def visitor_def split: outcome.splits if_splits)

lemma construct_dynamic_phase:
  assumes "construct P d built validate_dynamic rv H = Some (y, H')" "\<And>x. built = Ok x \<Longrightarrow> \<exists>n. descriptor_charge P d x = Ok n"
  shows "mphase (gmarking H') = mphase (gmarking H)"
proof (cases built)
  case (Ok x)
  obtain n where n: "descriptor_charge P d x = Ok n" using assms(2) Ok by blast
  obtain z where z: "publish_initial P d validate_dynamic x H = Some (z, H)" 
    using n by (cases "ledger_check (gledger H) 0 n (max_indirect_bytes (gconfig H))") (auto simp: publish_initial_def validate_dynamic_def ledger_check_def ok_or_def split: if_splits option.splits)
  obtain u H2 where u: "heap_then (heap_reads (\<lambda>_. z)) (\<lambda>bytes. heap_then (admit_object rv) (\<lambda>_. commit_object rv d x bytes)) H = (u, H2)" by fastforce
  then have "mphase (gmarking H2) = mphase (gmarking H)"
    by (auto simp: heap_then_def split: prod.splits outcome.splits dest!: admit_object_phase commit_object_phase)
  then show ?thesis using assms(1) Ok z u by (cases u) (auto simp: construct_def dest!: guard_rollback_phase)
qed (use assms(1) in \<open>auto simp: construct_def dest!: guard_rollback_phase\<close>)

lemma alloc_dynamic_phase:
  assumes "alloc_dynamic P tt mem slack alloc l H = Some (y, H')"
  shows "mphase (gmarking H') = mphase (gmarking H)"
proof (cases "and_then (check_allocation (dl_heap l) (dl_descriptor l) H) (\<lambda>_. descriptor_shape (dl_descriptor l))")
  case (Ok shape)
  then have rep: "desc_rep (dl_descriptor l) = Dynamic shape" by (auto simp: descriptor_shape_def split: representation.splits)
  have c: "descriptor_charge P (dl_descriptor l) x = Ok 0" for x by (simp add: descriptor_charge_def rep)
  have r: "allocate_initialized P tt mem slack alloc (dl_descriptor l) (\<lambda>_. Ok (shape_initial shape)) validate_dynamic H = Some (y, H')"
    using assms Ok by (simp add: alloc_dynamic_def)
  have m: "mphase m = mphase (gmarking H)" if "reserve_pages mem slack n (gmarking H) = Ok m" for n m
    using that by (auto simp: reserve_pages_def Let_def split: if_splits)
  show ?thesis using r c
    by (auto simp: allocate_initialized_def Let_def m split: outcome.splits prod.splits dest!: construct_dynamic_phase)
qed (use assms in \<open>auto simp: alloc_dynamic_def\<close>)

lemma sample_supplies: "supplies sample_types (\<lambda>_. Some 4096) sample_gc1"
  by (simp add: supplies_def page_types_ok_def types_ok_def small_align_def sample_types_def fresh_alloc_def sample_gc1_def sample_gc_def physical_default_def contents_def)

lemma sample_run:
  "\<exists>H. world_run scalar_provider (\<lambda>_ _. {}) (\<lambda>_ _ _. {}) frame_source frame_roots frame_covered (H, NoSource, {4096}) \<and> in_service H"
proof -
  let ?run = "world_run scalar_provider (\<lambda>_ _. {}) (\<lambda>_ _ _. {}) frame_source frame_roots frame_covered"
  have phase: "in_service sample_gc" "in_service sample_gc1" by (simp_all add: in_service_def sample_gc1_def sample_gc_def marking_default_def)
  have r0: "?run (sample_gc, NoSource, {})" by (rule run_start [OF sample_gc_new]) (simp add: source_roots_def)
  have r1: "?run (sample_gc1, NoSource, {})" by (rule run_step [OF r0 phase(1) world_step.register_dynamic [OF sample_register]])
  obtain H where H: "alloc_dynamic scalar_provider sample_types (\<lambda>_. True) 0 (\<lambda>_. Some 4096) sample_layout sample_gc1 = Some (Ok 4096, H)" using sample_alloc by blast
  have "?run (H, NoSource, {} \<union> handles_of (Ok 4096))" by (rule run_step [OF r1 phase(2) world_step.alloc_dynamic [OF H sample_supplies]])
  moreover have "in_service H" using alloc_dynamic_phase [OF H] phase(2) by (simp add: in_service_def)
  ultimately show ?thesis by auto
qed

section \<open>Properties\<close>

text \<open>
  (C1) Memory safety of the whole heap. Whatever sequence of operations a client runs on a new heap -
  allocations, field reads and writes, root and registration changes, writes to the roots of its
  driver, and between scopes any collector steps in any phase - as long as the heap is in service
  every handle of the scope and every root, and everything that can be reached from them, is an
  allocated object: its address resolves, its contents are there and have the representation of its
  descriptor; and while a sweep is going on none of them is due to be swept. Client code is held
  to the documented contracts of scanners, root sources, fields and constructors only.
\<close>

theorem world_safe:
  assumes "collector P E C Q S D" "world_run P E C Q S D (H, r, K)" "in_service H" "a \<in> K \<union> gc_roots S H r"
    "(\<lambda>x y. y \<in> edges_at E (gphysical H) (gobjects H) x)\<^sup>*\<^sup>* a b"
  shows "(\<exists>ob x. resolve b (gphysical H) = Ok ob \<and> gobjects H b = Some x \<and> payload_fits (desc_rep (odescriptor ob)) x) \<and>
    (mphase (gmarking H) = Sweep \<longrightarrow> b \<in> black_set (gphysical H) (mepoch (gmarking H)))"
proof -
  from collector.world_run_inv [OF assms(1,2)] assms(3) have inv: "gc_inv P E C S D H r" and K: "K \<subseteq> usable H" by (simp_all add: world_inv_def)
  have "a \<in> usable H" using assms(4) K collector.roots_usable(1) [OF assms(1) inv] by blast
  then have b: "b \<in> usable H" by (rule collector.usable_closed [OF assms(1) inv _ assms(5)])
  then show ?thesis using collector.usable_resolves [OF assms(1) inv b] by (auto simp: usable_def)
qed

theorem world_safe_witness:
  "\<exists>H. world_run scalar_provider (\<lambda>_ _. {}) (\<lambda>_ _ _. {}) frame_source frame_roots frame_covered (H, NoSource, {4096}) \<and>
     (\<exists>ob. resolve 4096 (gphysical H) = Ok ob)"
proof -
  from sample_run obtain H where H: "world_run scalar_provider (\<lambda>_ _. {}) (\<lambda>_ _ _. {}) frame_source frame_roots frame_covered (H, NoSource, {4096})" "in_service H" by blast
  from world_safe [OF frame_collector H, of 4096 4096] H(1) show ?thesis by auto
qed



text \<open>
  (C14) Allocating a dynamic record returns, in any phase of a cycle, without collecting. On success the
  record is at an address that no object had, has every reference empty and is already protected from
  the cycle under way; on failure nothing is allocated. Either way the objects before it stay as they
  were and the collector's invariant holds.
\<close>

theorem alloc_dynamic_fresh:
  assumes "collector P E C Q S D" "gc_inv P E C S D H r" "supplies tt alloc H"
  shows "\<exists>y H'. alloc_dynamic P tt mem slack alloc l H = Some (y, H') \<and> gc_inv P E C S D H' r \<and> mphase (gmarking H') = mphase (gmarking H) \<and>
    (\<forall>b \<in> live_set (gphysical H). b \<in> live_set (gphysical H') \<and> gobjects H' b = gobjects H b \<and> descriptor_at (gphysical H') b = descriptor_at (gphysical H) b) \<and>
    (case y of Ok a \<Rightarrow> a \<notin> live_set (gphysical H) \<and> a \<in> secured H' \<and> gobjects H' a = Some (Record (\<lambda>_. None)) \<and> descriptor_at (gphysical H') a = Some (dl_descriptor l)
       | _ \<Rightarrow> gobjects H' = gobjects H)"
proof -
  obtain y H' where run: "alloc_dynamic P tt mem slack alloc l H = Some (y, H')" using alloc_dynamic_returns by blast
  note ph = alloc_dynamic_phase [OF run]
  have "mphase (gmarking H') \<noteq> Faulted" using ph collector.inv_base(9) [OF assms(1,2)] by auto
  with collector.alloc_dynamic_ok [OF assms run] have al: "allocated P E C S D H r (dl_descriptor l) y H'" by blast
  have new: "gobjects H' a = Some (Record (\<lambda>_. None))" if "y = Ok a" for a
    using run allocate_initialized_contents that by (fastforce simp: alloc_dynamic_def shape_initial_def split: outcome.splits)
  show ?thesis
  proof (intro exI conjI, rule run)
    show "gc_inv P E C S D H' r" using al by (simp add: allocated_def)
    show "\<forall>b \<in> live_set (gphysical H). b \<in> live_set (gphysical H') \<and> gobjects H' b = gobjects H b \<and> descriptor_at (gphysical H') b = descriptor_at (gphysical H) b"
      using al unfolding allocated_def carries_def by (cases y) (simp_all, metis)
  qed (use al new ph in \<open>auto simp: allocated_def split: outcome.splits\<close>)
qed

theorem alloc_dynamic_fresh_witness:
  "\<exists>H. alloc_dynamic scalar_provider sample_types (\<lambda>_. True) 0 (\<lambda>_. Some 4096) sample_layout sample_gc1 = Some (Ok 4096, H) \<and>
     gobjects H 4096 = Some (Record (\<lambda>_. None)) \<and> 4096 \<in> secured H"
proof -
  have inv: "gc_inv scalar_provider (\<lambda>_ _. {}) (\<lambda>_ _ _. {}) frame_roots frame_covered sample_gc1 NoSource"
    using frames.access_register_dynamic_ok [OF sample_gc_inv sample_register] by blast
  from alloc_dynamic_fresh [OF frame_collector inv sample_supplies, of "\<lambda>_. True" 0 sample_layout] sample_alloc show ?thesis by auto
qed

text \<open>
  (C13) The write barrier of a reference field. A write through a bound field, in any phase of a cycle,
  either fails and leaves the contents of the heap as they were, or the field reads back the new
  reference, the other fields and the other objects are unchanged, and the new target has been
  published to the cycle under way; the collector's invariant holds unless the heap has been faulted.
\<close>

theorem reference_write_barrier:
  assumes "collector P E C Q S D" "gc_inv P E C S D H r" "a \<in> usable H" "set_option value \<subseteq> usable H" "reference_set f a value H = (x, H')"
  shows "(gc_inv P E C S D H' r \<or> mphase (gmarking H') = Faulted) \<and>
    (case x of
       Ok _ \<Rightarrow> gc_inv P E C S D H' r \<and> reference_get f a H' = Ok value \<and> set_option value \<subseteq> secured H' \<and>
         (\<exists>sl. gobjects H a = Some (Record sl) \<and> gobjects H' = (gobjects H)(a \<mapsto> Record (sl(rf_offset f := value))))
     | _ \<Rightarrow> gobjects H' = gobjects H)"
proof (cases "layout_pointer (rf_layout f) a H")
  case (Ok sl)
  note inv = assms(2)
  note set = collector.reference_set_ok [OF assms]
  have pv: "heap_then (publish_value value) (\<lambda>target H. (Ok (), write_object a (Record (sl(rf_offset f := target))) H)) H = (x, H')"
    using assms(5) Ok by (simp add: reference_set_def heap_then_def [of "heap_reads _"])
  then show ?thesis
  proof (cases rule: heap_then_cases)
    case (1 target H1)
    from collector.publish_value_ok [OF assms(1,2,4) 1(1)] have p: "target = value" "gc_inv P E C S D H1 r" "carries H H1" "set_option value \<subseteq> secured H1" "gobjects H1 = gobjects H" by auto
    have H': "H' = write_object a (Record (sl(rf_offset f := value))) H1" "x = Ok ()" using 1(2) p(1) by auto
    have nf: "mphase (gmarking H') \<noteq> Faulted" using H'(1) p(2) collector.inv_base(9) [OF assms(1) p(2)] by (auto simp: write_object_def)
    with set have g: "gc_inv P E C S D H' r" "carries H H'" by blast+
    have objs: "gobjects H' = (gobjects H)(a \<mapsto> Record (sl(rf_offset f := value)))" using p(5) by (simp add: H' write_object_def)
    have sec: "set_option value \<subseteq> secured H'" using p(4) by (auto simp: H' write_object_def secured_def split: phase.splits)
    have a': "a \<in> usable H'" using g(2) assms(3) by (auto simp: carries_def)
    from collector.usable_resolves [OF assms(1) inv assms(3)] collector.usable_resolves [OF assms(1) g(1) a'] g(2) secured_usable(2) [of H] assms(3)
    have hd: "header_descriptor (gphysical H') a = header_descriptor (gphysical H) a" unfolding carries_def by fastforce
    have lp: "layout_pointer (rf_layout f) a H' = Ok (sl(rf_offset f := value))"
      using Ok hd g(2) collector.inv_base(10) [OF assms(1) g(1)] objs
      by (auto simp: layout_pointer_def scope_check_def carries_def read_header_def header_descriptor_def split: if_splits option.splits)
    have "reference_get f a H' = Ok value"
    proof (cases "value")
      case (Some b)
      then have "b \<in> usable H'" using sec secured_usable(1) [of H'] by auto
      with collector.usable_resolves [OF assms(1) g(1)] show ?thesis using lp Some by (fastforce simp: reference_get_def)
    qed (use lp in \<open>simp add: reference_get_def\<close>)
    then show ?thesis using g sec objs layout_pointer_Ok [OF Ok] by (auto simp: H')
  next
    case (2 e)
    then have "gobjects H' = gobjects H" by (auto simp: publish_value_def heap_then_def scope_publish_def visited_def set_phase_def split: option.splits if_splits outcome.splits prod.splits)
    then show ?thesis using set 2 by auto
  next
    case (3 m)
    then have "gobjects H' = gobjects H" by (auto simp: publish_value_def heap_then_def scope_publish_def visited_def set_phase_def split: option.splits if_splits outcome.splits prod.splits)
    then show ?thesis using set 3 by auto
  qed
qed (use assms in \<open>auto simp: reference_set_def heap_then_def\<close>)

theorem reference_write_barrier_witness:
  "\<exists>(H :: (nat, unit) gc_heap) H' f. layout_reference sample_layout sample_key = Ok f \<and> reference_set f 4096 (Some 4096) H = (Ok (), H') \<and> reference_get f 4096 H' = Ok (Some 4096)"
proof -
  let ?f = "\<lparr>rf_layout = sample_layout, rf_offset = 16\<rparr>"
  have f: "layout_reference sample_layout sample_key = Ok ?f"
    by (simp add: layout_reference_def bind_reference_def layout_field_def descriptor_shape_def sample_layout_def sample_record_fields sample_key_def sample_shape_def)
  have inv: "gc_inv scalar_provider (\<lambda>_ _. {}) (\<lambda>_ _ _. {}) frame_roots frame_covered sample_gc1 NoSource"
    using frames.access_register_dynamic_ok [OF sample_gc_inv sample_register] by blast
  obtain H where H: "alloc_dynamic scalar_provider sample_types (\<lambda>_. True) 0 (\<lambda>_. Some 4096) sample_layout sample_gc1 = Some (Ok 4096, H)" using sample_alloc by blast
  have ph: "mphase (gmarking H) = Idle" using alloc_dynamic_phase [OF H] by (simp add: sample_gc1_def sample_gc_def marking_default_def)
  have "allocated scalar_provider (\<lambda>_ _. {}) (\<lambda>_ _ _. {}) frame_roots frame_covered sample_gc1 NoSource (dl_descriptor sample_layout) (Ok 4096) H"
    using frames.alloc_dynamic_ok [OF inv sample_supplies H] ph by simp
  then have g: "gc_inv scalar_provider (\<lambda>_ _. {}) (\<lambda>_ _ _. {}) frame_roots frame_covered H NoSource" "gid H = 1" "4096 \<in> usable H"
    "descriptor_at (gphysical H) 4096 = Some sample_record"
    using secured_usable(1) [of H] by (auto simp: allocated_def carries_def sample_gc1_def sample_gc_def sample_layout_def)
  from frames.usable_resolves [OF g(1,3)] g(4) obtain x where x: "header_descriptor (gphysical H) 4096 = Some 0" "gobjects H 4096 = Some x" "payload_fits (Dynamic sample_shape) x"
    by (auto simp: sample_record_fields)
  then obtain sl where sl: "x = Record sl" by (cases x) auto
  have lp: "layout_pointer (rf_layout ?f) 4096 H = Ok sl" using x sl ph g(2)
    by (auto simp: layout_pointer_def scope_check_def marking_check_def sample_layout_def read_header_def header_descriptor_def sample_record_fields)
  then obtain H' where r: "reference_set ?f 4096 (Some 4096) H = (Ok (), H')"
    using ph by (simp add: reference_set_def heap_then_def publish_value_def scope_publish_def)
  have "reference_get ?f 4096 H' = Ok (Some 4096)" using reference_write_barrier [OF frame_collector g(1,3) _ r] g(3) by simp
  then show ?thesis using f r by blast
qed

end
