(* ===== verification/Integer_Arith.thy ===== *)
theory Integer_Arith
  imports Kagari_Prelude "HOL-Library.Signed_Division"
begin

unbundle bit_operations_syntax

text \<open>
  Fixed-width integer arithmetic, the scalar types and their conversions:
  \<^verbatim>\<open>crates/kagari-types/src: integer.rs, arithmetic.rs, scalar.rs, conversion.rs, numeric.rs, range.rs\<close>.

  The source computes every width in \<open>i128\<close>. Values are \<open>int\<close>; where a result may leave the
  range of \<open>i128\<close>, the checked operations return \<open>None\<close> (\<open>i128_checked\<close>) and the shifts drop
  the high bits (\<open>to_i128\<close>). The results are compared below with the mathematical results, so
  the intermediate width is shown not to matter.

  Floating-point arithmetic is that of the machine: \<open>float_unit\<close> holds the operations that the
  source applies to \<open>f32\<close> and \<open>f64\<close> values, on their bit patterns.
\<close>

section \<open>Definitions\<close>

subsection \<open>integer.rs\<close>

datatype integer_op = BitAnd | BitOr | BitXor | BitNot | Shl | Shr
  | CheckedAdd | CheckedSub | CheckedMul | CheckedDiv | CheckedRem

definition i128_max :: int where "i128_max = 2 ^ 127 - 1"
definition i128_min :: int where "i128_min = - (2 ^ 127)"

definition i128_checked :: "int \<Rightarrow> int option" where
  "i128_checked v = (if i128_min \<le> v \<and> v \<le> i128_max then Some v else None)"

definition to_i128 :: "int \<Rightarrow> int" where
  "to_i128 v = signed_take_bit 127 v"

definition wrap :: "int \<Rightarrow> nat \<Rightarrow> bool \<Rightarrow> int" where
  "wrap v bits sg =
     (let modulus = 2 ^ bits; v = v AND (modulus - 1)
      in if sg \<and> v \<ge> modulus div 2 then v - modulus else v)"

definition bounds :: "nat \<Rightarrow> bool \<Rightarrow> int \<times> int" where
  "bounds bits sg =
     (if sg then (- (2 ^ (bits - 1)), 2 ^ (bits - 1) - 1) else (0, 2 ^ bits - 1))"

definition in_bounds :: "nat \<Rightarrow> bool \<Rightarrow> int \<Rightarrow> bool" where
  "in_bounds bits sg v \<longleftrightarrow> fst (bounds bits sg) \<le> v \<and> v \<le> snd (bounds bits sg)"

subsection \<open>arithmetic.rs\<close>

datatype arithmetic_error = Overflow | DivisionByZero | RemainderByZero

fun message :: "arithmetic_error \<Rightarrow> string" where
  "message Overflow = ''integer overflow''"
| "message DivisionByZero = ''integer division by zero''"
| "message RemainderByZero = ''integer remainder by zero''"

datatype integer_binary_op = Add | Sub | Mul | Div | Rem

text \<open>The checked operations of the native integer type of that width and signedness.\<close>

definition native :: "nat \<Rightarrow> bool \<Rightarrow> int \<Rightarrow> int option" where
  "native bits sg v = (if in_bounds bits sg v then Some v else None)"

definition native_div :: "nat \<Rightarrow> bool \<Rightarrow> int \<Rightarrow> int \<Rightarrow> int option" where
  "native_div bits sg l r = (if r = 0 then None else native bits sg (l sdiv r))"

definition native_rem :: "nat \<Rightarrow> bool \<Rightarrow> int \<Rightarrow> int \<Rightarrow> int option" where
  "native_rem bits sg l r =
     (if r = 0 \<or> sg \<and> l = fst (bounds bits sg) \<and> r = - 1 then None else Some (l smod r))"

fun native_binary ::
    "nat \<Rightarrow> bool \<Rightarrow> integer_binary_op \<Rightarrow> int \<Rightarrow> int \<Rightarrow> (arithmetic_error, int) outcome" where
  "native_binary bits sg Add l r = ok_or Overflow (native bits sg (l + r))"
| "native_binary bits sg Sub l r = ok_or Overflow (native bits sg (l - r))"
| "native_binary bits sg Mul l r = ok_or Overflow (native bits sg (l * r))"
| "native_binary bits sg Div l r =
     (if r = 0 then Err DivisionByZero else ok_or Overflow (native_div bits sg l r))"
| "native_binary bits sg Rem l r =
     (if r = 0 then Err RemainderByZero else ok_or Overflow (native_rem bits sg l r))"

definition native_neg :: "nat \<Rightarrow> int \<Rightarrow> (arithmetic_error, int) outcome" where
  "native_neg bits v = ok_or Overflow (native bits True (- v))"

definition native_abs :: "nat \<Rightarrow> int \<Rightarrow> (arithmetic_error, int) outcome" where
  "native_abs bits v = ok_or Overflow (native bits True (abs v))"

definition valid_width :: "nat \<Rightarrow> bool" where
  "valid_width bits \<longleftrightarrow> bits = 8 \<or> bits = 16 \<or> bits = 32 \<or> bits = 64"

definition fixed_binary ::
    "integer_binary_op \<Rightarrow> int \<Rightarrow> int \<Rightarrow> nat \<Rightarrow> bool \<Rightarrow> (arithmetic_error, int) outcome" where
  "fixed_binary op l r bits sg =
     (let (mn, mx) = bounds bits sg
      in if l < mn \<or> l > mx \<or> r < mn \<or> r > mx then Err Overflow
         else if valid_width bits
              then native_binary bits sg op (wrap l bits sg) (wrap r bits sg)
              else Err Overflow)"

subsection \<open>integer.rs, operations\<close>

fun map_err :: "('e \<Rightarrow> 'f) \<Rightarrow> ('e, 'a) outcome \<Rightarrow> ('f, 'a) outcome" where
  "map_err f (Ok x) = Ok x"
| "map_err f (Err e) = Err (f e)"
| "map_err f (Panic m) = Panic m"

fun integer_operation :: "integer_op \<Rightarrow> int \<Rightarrow> int \<Rightarrow> nat \<Rightarrow> bool \<Rightarrow> (string, int) outcome" where
  "integer_operation op l r bits sg =
     (if \<not> valid_width bits then Err ''invalid integer width''
      else if (op = Shl \<or> op = Shr) \<and> (r < 0 \<or> r \<ge> int bits) then Err ''integer shift out of range''
      else case op of
          CheckedAdd \<Rightarrow> map_err message (fixed_binary Add l r bits sg)
        | CheckedSub \<Rightarrow> map_err message (fixed_binary Sub l r bits sg)
        | CheckedMul \<Rightarrow> map_err message (fixed_binary Mul l r bits sg)
        | CheckedDiv \<Rightarrow> map_err message (fixed_binary Div l r bits sg)
        | CheckedRem \<Rightarrow> map_err message (fixed_binary Rem l r bits sg)
        | BitAnd \<Rightarrow> Ok (wrap (l AND r) bits sg)
        | BitOr \<Rightarrow> Ok (wrap (l OR r) bits sg)
        | BitXor \<Rightarrow> Ok (wrap (l XOR r) bits sg)
        | BitNot \<Rightarrow> Ok (wrap (NOT l) bits sg)
        | Shl \<Rightarrow> Ok (wrap (to_i128 (push_bit (nat r) l)) bits sg)
        | Shr \<Rightarrow> Ok (wrap (drop_bit (nat r) l) bits sg))"

datatype integer_method = WrappingAdd | WrappingSub | WrappingMul
  | MCheckedAdd | MCheckedSub | MCheckedMul | MCheckedDiv | MCheckedRem
  | OverflowingAdd | OverflowingSub | OverflowingMul
  | SaturatingAdd | SaturatingSub | SaturatingMul
  | WrappingAddSigned | RotateLeft | RotateRight

definition checked :: "integer_method \<Rightarrow> bool" where
  "checked m \<longleftrightarrow> m \<in> {MCheckedAdd, MCheckedSub, MCheckedMul, MCheckedDiv, MCheckedRem}"

definition overflowing :: "integer_method \<Rightarrow> bool" where
  "overflowing m \<longleftrightarrow> m \<in> {OverflowingAdd, OverflowingSub, OverflowingMul}"

definition allocates :: "integer_method \<Rightarrow> bool" where
  "allocates m \<longleftrightarrow> checked m \<or> overflowing m"

definition is_rotate :: "integer_method \<Rightarrow> bool" where
  "is_rotate m \<longleftrightarrow> m = RotateLeft \<or> m = RotateRight"

definition is_saturating :: "integer_method \<Rightarrow> bool" where
  "is_saturating m \<longleftrightarrow> m \<in> {SaturatingAdd, SaturatingSub, SaturatingMul}"

definition is_mul :: "integer_method \<Rightarrow> bool" where
  "is_mul m \<longleftrightarrow> m \<in> {WrappingMul, OverflowingMul, SaturatingMul}"

text \<open>
  The rotation count is \<open>(rhs % bits) as u32\<close>: a negative remainder becomes a count above the
  width, and \<open>bits - shift\<close> underflows.
\<close>

definition rotate_bits :: "integer_method \<Rightarrow> int \<Rightarrow> int \<Rightarrow> nat \<Rightarrow> bool \<Rightarrow> (string, int \<times> bool) outcome" where
  "rotate_bits op l r bits sg =
     (let shift = r smod int bits; v = wrap l bits False
      in if shift < 0 then Panic ''attempt to subtract with overflow''
         else let s = nat shift;
                  result = (if op = RotateLeft
                            then to_i128 (push_bit s v) OR drop_bit (bits - s) v
                            else drop_bit s v OR to_i128 (push_bit (bits - s) v))
              in Ok (wrap result bits sg, False))"

fun exact_result :: "integer_method \<Rightarrow> int \<Rightarrow> int \<Rightarrow> bool \<Rightarrow> int \<Rightarrow> int option" where
  "exact_result op l r sg minimum =
     (if op \<in> {WrappingAdd, MCheckedAdd, OverflowingAdd, SaturatingAdd, WrappingAddSigned}
      then i128_checked (l + r)
      else if op \<in> {WrappingSub, MCheckedSub, OverflowingSub, SaturatingSub} then i128_checked (l - r)
      else if op \<in> {WrappingMul, MCheckedMul, OverflowingMul, SaturatingMul} then i128_checked (l * r)
      else if op = MCheckedDiv then (if r = 0 then None else i128_checked (l sdiv r))
      else if op = MCheckedRem
           then (if sg \<and> l = minimum \<and> r = - 1 then None
                 else if r = 0 \<or> l = i128_min \<and> r = - 1 then None else Some (l smod r))
      else None)"

definition clamp :: "int \<Rightarrow> int \<Rightarrow> int \<Rightarrow> int" where
  "clamp mn mx v = (if v < mn then mn else if v > mx then mx else v)"

definition arithmetic_method ::
    "integer_method \<Rightarrow> int \<Rightarrow> int \<Rightarrow> nat \<Rightarrow> bool \<Rightarrow> (string, int \<times> bool) outcome" where
  "arithmetic_method op l r bits sg =
     (let (minimum, maximum) = bounds bits sg
      in if is_rotate op then rotate_bits op l r bits sg
         else let exact = exact_result op l r sg minimum;
                  overflow = (case exact of None \<Rightarrow> True | Some v \<Rightarrow> v < minimum \<or> v > maximum);
                  wrapped = (case exact of Some v \<Rightarrow> v
                             | None \<Rightarrow> if is_mul op then to_i128 (l * r) else 0)
              in if is_saturating op
                 then Ok (clamp minimum maximum (case exact of Some v \<Rightarrow> v | None \<Rightarrow> maximum), overflow)
                 else Ok (wrap wrapped bits sg, overflow))"

subsection \<open>scalar.rs\<close>

datatype builtin_type = Never | Unit | Bool | I8 | I16 | I32 | I64 | U8 | U16 | U32 | U64 | F32 | F64
  | String | Char

datatype integer_type = Int8 | Int16 | Int32 | Int64 | UInt8 | UInt16 | UInt32 | UInt64

fun from_builtin :: "builtin_type \<Rightarrow> integer_type option" where
  "from_builtin I8 = Some Int8"
| "from_builtin I16 = Some Int16"
| "from_builtin I32 = Some Int32"
| "from_builtin I64 = Some Int64"
| "from_builtin U8 = Some UInt8"
| "from_builtin U16 = Some UInt16"
| "from_builtin U32 = Some UInt32"
| "from_builtin U64 = Some UInt64"
| "from_builtin _ = None"

fun builtin_of :: "integer_type \<Rightarrow> builtin_type" where
  "builtin_of Int8 = I8"
| "builtin_of Int16 = I16"
| "builtin_of Int32 = I32"
| "builtin_of Int64 = I64"
| "builtin_of UInt8 = U8"
| "builtin_of UInt16 = U16"
| "builtin_of UInt32 = U32"
| "builtin_of UInt64 = U64"

fun integer_layout_of :: "integer_type \<Rightarrow> nat \<times> bool" where
  "integer_layout_of Int8 = (8, True)"
| "integer_layout_of Int16 = (16, True)"
| "integer_layout_of Int32 = (32, True)"
| "integer_layout_of Int64 = (64, True)"
| "integer_layout_of UInt8 = (8, False)"
| "integer_layout_of UInt16 = (16, False)"
| "integer_layout_of UInt32 = (32, False)"
| "integer_layout_of UInt64 = (64, False)"

definition integer_layout :: "builtin_type \<Rightarrow> (nat \<times> bool) option" where
  "integer_layout ty = map_option integer_layout_of (from_builtin ty)"

definition integer_bounds :: "builtin_type \<Rightarrow> (int \<times> int) option" where
  "integer_bounds ty = map_option (\<lambda>(bits, sg). bounds bits sg) (integer_layout ty)"

datatype number_type = TInteger nat bool | TF32 | TF64

definition number_type_of :: "builtin_type \<Rightarrow> number_type option" where
  "number_type_of ty =
     (case ty of
        F32 \<Rightarrow> Some TF32
      | F64 \<Rightarrow> Some TF64
      | _ \<Rightarrow> map_option (\<lambda>(bits, sg). TInteger bits sg) (integer_layout ty))"

definition can_cast_to :: "builtin_type \<Rightarrow> builtin_type \<Rightarrow> bool" where
  "can_cast_to source target \<longleftrightarrow>
     number_type_of source \<noteq> None \<and> number_type_of target \<noteq> None
     \<or> source = Bool \<and> integer_layout target \<noteq> None"

subsection \<open>conversion.rs\<close>

definition lossless_from :: "builtin_type \<Rightarrow> builtin_type \<Rightarrow> bool" where
  "lossless_from source target =
     (if source = target then number_type_of source \<noteq> None \<or> source = Bool
      else if source = Bool then integer_layout target \<noteq> None
      else case target of
          F32 \<Rightarrow> source \<in> {I8, I16, U8, U16}
        | F64 \<Rightarrow> source \<in> {I8, I16, I32, U8, U16, U32, F32}
        | _ \<Rightarrow> (case (integer_layout source, integer_layout target) of
                 (Some (a, sa), Some (b, sb)) \<Rightarrow> sa = sb \<and> a < b \<or> \<not> sa \<and> sb \<and> a < b
               | _ \<Rightarrow> False))"

definition checked_conversion_fallible :: "builtin_type \<Rightarrow> builtin_type \<Rightarrow> bool option" where
  "checked_conversion_fallible source target =
     (if lossless_from source target then Some False
      else if integer_layout source \<noteq> None \<and> integer_layout target \<noteq> None then Some True
      else None)"

subsection \<open>numeric.rs\<close>

datatype number = NInteger int | NF32 "32 word" | NF64 "64 word"

datatype float_op = FAdd | FSub | FMul | FDiv | FRem

text \<open>The comparisons of \<^verbatim>\<open>PartialOrd\<close>, for floats and integers.\<close>

datatype comparison = CEq | CNotEq | CLt | CLe | CGt | CGe

record float_unit =
  op32 :: "float_op \<Rightarrow> 32 word \<Rightarrow> 32 word \<Rightarrow> 32 word"
  op64 :: "float_op \<Rightarrow> 64 word \<Rightarrow> 64 word \<Rightarrow> 64 word"
  cmp32 :: "comparison \<Rightarrow> 32 word \<Rightarrow> 32 word \<Rightarrow> bool"
  cmp64 :: "comparison \<Rightarrow> 64 word \<Rightarrow> 64 word \<Rightarrow> bool"
  trunc32 :: "32 word \<Rightarrow> int"
  trunc64 :: "64 word \<Rightarrow> int"
  int_to_32 :: "int \<Rightarrow> 32 word"
  int_to_64 :: "int \<Rightarrow> 64 word"
  widen :: "32 word \<Rightarrow> 64 word"
  narrow :: "64 word \<Rightarrow> 32 word"

fun cast :: "float_unit \<Rightarrow> number \<Rightarrow> number_type \<Rightarrow> number" where
  "cast fu value (TInteger bits sg) =
     (let (mn, mx) = bounds bits sg
      in NInteger (case value of
          NInteger v \<Rightarrow> wrap v bits sg
        | NF32 v \<Rightarrow> clamp mn mx (trunc32 fu v)
        | NF64 v \<Rightarrow> clamp mn mx (trunc64 fu v)))"
| "cast fu value TF32 =
     NF32 (case value of NInteger v \<Rightarrow> int_to_32 fu v | NF32 v \<Rightarrow> v | NF64 v \<Rightarrow> narrow fu v)"
| "cast fu value TF64 =
     NF64 (case value of NInteger v \<Rightarrow> int_to_64 fu v | NF32 v \<Rightarrow> widen fu v | NF64 v \<Rightarrow> v)"

subsection \<open>range.rs\<close>

datatype range_kind = Exclusive | Inclusive | RFrom | RTo | ToInclusive | RFull

fun range_name :: "range_kind \<Rightarrow> string" where
  "range_name Exclusive = ''Range''"
| "range_name Inclusive = ''RangeInclusive''"
| "range_name RFrom = ''RangeFrom''"
| "range_name RTo = ''RangeTo''"
| "range_name ToInclusive = ''RangeToInclusive''"
| "range_name RFull = ''RangeFull''"

definition has_start :: "range_kind \<Rightarrow> bool" where
  "has_start k \<longleftrightarrow> k \<in> {Exclusive, Inclusive, RFrom}"

definition has_end :: "range_kind \<Rightarrow> bool" where
  "has_end k \<longleftrightarrow> k \<in> {Exclusive, Inclusive, RTo, ToInclusive}"

definition inclusive :: "range_kind \<Rightarrow> bool" where
  "inclusive k \<longleftrightarrow> k \<in> {Inclusive, ToInclusive}"

fun from_parts :: "bool \<Rightarrow> bool \<Rightarrow> bool \<Rightarrow> range_kind option" where
  "from_parts True True False = Some Exclusive"
| "from_parts True True True = Some Inclusive"
| "from_parts True False False = Some RFrom"
| "from_parts False True False = Some RTo"
| "from_parts False True True = Some ToInclusive"
| "from_parts False False False = Some RFull"
| "from_parts _ _ _ = None"

subsection \<open>Reference definitions\<close>

text \<open>What an operation means on mathematical integers, with its failures.\<close>

definition in_range :: "nat \<Rightarrow> bool \<Rightarrow> int \<Rightarrow> (string, int) outcome" where
  "in_range bits sg v = (if in_bounds bits sg v then Ok v else Err ''integer overflow'')"

fun reference_operation :: "integer_op \<Rightarrow> int \<Rightarrow> int \<Rightarrow> nat \<Rightarrow> bool \<Rightarrow> (string, int) outcome" where
  "reference_operation CheckedAdd l r bits sg = in_range bits sg (l + r)"
| "reference_operation CheckedSub l r bits sg = in_range bits sg (l - r)"
| "reference_operation CheckedMul l r bits sg = in_range bits sg (l * r)"
| "reference_operation CheckedDiv l r bits sg =
     (if r = 0 then Err ''integer division by zero'' else in_range bits sg (l sdiv r))"
| "reference_operation CheckedRem l r bits sg =
     (if r = 0 then Err ''integer remainder by zero''
      else if sg \<and> l = - (2 ^ (bits - 1)) \<and> r = - 1 then Err ''integer overflow'' else Ok (l smod r))"
| "reference_operation BitAnd l r bits sg = Ok (l AND r)"
| "reference_operation BitOr l r bits sg = Ok (l OR r)"
| "reference_operation BitXor l r bits sg = Ok (l XOR r)"
| "reference_operation BitNot l r bits sg = Ok (if sg then - l - 1 else 2 ^ bits - 1 - l)"
| "reference_operation Shl l r bits sg =
     (if 0 \<le> r \<and> r < int bits then Ok (wrap (l * 2 ^ nat r) bits sg) else Err ''integer shift out of range'')"
| "reference_operation Shr l r bits sg =
     (if 0 \<le> r \<and> r < int bits then Ok (l div 2 ^ nat r) else Err ''integer shift out of range'')"

text \<open>The mathematical result of a method, \<open>None\<close> where it is undefined.\<close>

definition math_result :: "integer_method \<Rightarrow> int \<Rightarrow> int \<Rightarrow> nat \<Rightarrow> bool \<Rightarrow> int option" where
  "math_result op l r bits sg =
     (if op \<in> {WrappingAdd, MCheckedAdd, OverflowingAdd, SaturatingAdd, WrappingAddSigned} then Some (l + r)
      else if op \<in> {WrappingSub, MCheckedSub, OverflowingSub, SaturatingSub} then Some (l - r)
      else if op \<in> {WrappingMul, MCheckedMul, OverflowingMul, SaturatingMul} then Some (l * r)
      else if op = MCheckedDiv then (if r = 0 then None else Some (l sdiv r))
      else if r = 0 \<or> sg \<and> l = - (2 ^ (bits - 1)) \<and> r = - 1 then None else Some (l smod r))"

definition policy_value :: "integer_method \<Rightarrow> int \<Rightarrow> nat \<Rightarrow> bool \<Rightarrow> int" where
  "policy_value op x bits sg =
     (if is_saturating op then clamp (fst (bounds bits sg)) (snd (bounds bits sg)) x else wrap x bits sg)"

definition method_operands :: "integer_method \<Rightarrow> int \<Rightarrow> int \<Rightarrow> nat \<Rightarrow> bool \<Rightarrow> bool" where
  "method_operands op l r bits sg \<longleftrightarrow> in_bounds bits sg l \<and>
     (if op = WrappingAddSigned then \<not> sg \<and> in_bounds bits True r else in_bounds bits sg r)"

section \<open>Wrapping\<close>

lemma wrap_unsigned: "wrap v bits False = take_bit bits v"
  by (simp add: wrap_def Let_def take_bit_eq_mask mask_eq_exp_minus_1)

lemma wrap_signed:
  assumes "0 < bits" shows "wrap v bits True = signed_take_bit (bits - 1) v"
proof -
  define h :: int where "h = 2 ^ (bits - 1)"
  have h: "(2 :: int) ^ bits = 2 * h" "0 < h" using assms by (cases bits; simp add: h_def)+
  have eq: "v AND (2 ^ bits - 1) = v mod (2 * h)"
    by (simp add: h(1) [symmetric] take_bit_eq_mod [symmetric] take_bit_eq_mask mask_eq_exp_minus_1)
  have m: "0 \<le> v mod (2 * h)" "v mod (2 * h) < 2 * h" using h by simp_all
  have "(v + h) mod (2 * h) = (v mod (2 * h) + h) mod (2 * h)" by (rule mod_add_left_eq [symmetric])
  also have "\<dots> = (if v mod (2 * h) \<ge> h then v mod (2 * h) - h else v mod (2 * h) + h)"
  proof (cases "v mod (2 * h) \<ge> h")
    case True
    have "(v mod (2 * h) + h) mod (2 * h) = (v mod (2 * h) - h + 2 * h) mod (2 * h)" by (simp add: algebra_simps)
    also have "\<dots> = (v mod (2 * h) - h) mod (2 * h)" by (rule mod_add_self2)
    finally show ?thesis using True m h(2) by simp
  qed (use m h(2) in simp)
  finally have st: "signed_take_bit (bits - 1) v = (if v mod (2 * h) \<ge> h then v mod (2 * h) - 2 * h else v mod (2 * h))"
    using assms h(1) by (simp add: signed_take_bit_eq_take_bit_shift take_bit_eq_mod h_def)
  have "2 * h div 2 = h" by simp
  then show ?thesis unfolding wrap_def Let_def eq st unfolding h(1) by simp
qed

lemma wrap_alt:
  "0 < bits \<Longrightarrow> wrap v bits sg = (if sg then signed_take_bit (bits - 1) v else take_bit bits v)"
  by (simp add: wrap_signed wrap_unsigned)

text \<open>\<^const>\<open>wrap\<close> yields the unique value in range that agrees modulo \<open>2 ^ bits\<close>.\<close>

lemma wrap_in_bounds: "0 < bits \<Longrightarrow> in_bounds bits sg (wrap v bits sg)"
  using signed_take_bit_int_greater_eq_minus_exp [of "bits - 1" v] signed_take_bit_int_less_exp [of "bits - 1" v]
    take_bit_int_less_exp [of bits v]
  by (auto simp: in_bounds_def bounds_def wrap_alt)

lemma wrap_id: "0 < bits \<Longrightarrow> in_bounds bits sg v \<Longrightarrow> wrap v bits sg = v"
  by (cases sg) (auto simp: in_bounds_def bounds_def wrap_alt signed_take_bit_int_eq_self_iff
      take_bit_int_eq_self_iff)

lemma wrap_iff: "0 < bits \<Longrightarrow> wrap v bits sg = v \<longleftrightarrow> in_bounds bits sg v"
  using wrap_id wrap_in_bounds by metis

lemma wrap_cong:
  assumes "0 < bits" shows "wrap v bits sg mod 2 ^ bits = v mod 2 ^ bits"
proof -
  have "take_bit bits (wrap v bits sg) = take_bit bits v"
    using assms by (simp add: wrap_alt take_bit_signed_take_bit)
  then show ?thesis by (simp add: take_bit_eq_mod)
qed

lemma wrap_eq_iff:
  assumes "0 < bits" shows "wrap v bits sg = wrap w bits sg \<longleftrightarrow> v mod 2 ^ bits = w mod 2 ^ bits"
proof
  assume "v mod 2 ^ bits = w mod 2 ^ bits"
  then have t: "take_bit bits v = take_bit bits w" by (simp add: take_bit_eq_mod)
  moreover have "Suc (bits - 1) = bits" using assms by simp
  ultimately have "signed_take_bit (bits - 1) v = signed_take_bit (bits - 1) w"
    using signed_take_bit_eq_iff_take_bit_eq [of "bits - 1" v w] by simp
  with t assms show "wrap v bits sg = wrap w bits sg" by (simp add: wrap_alt)
qed (metis assms wrap_cong)

lemma wrap_unique:
  assumes "0 < bits" "in_bounds bits sg w" "w mod 2 ^ bits = v mod 2 ^ bits"
  shows "wrap v bits sg = w"
  using assms wrap_eq_iff [of bits v sg w] wrap_id [of bits sg w] by simp

lemma wrap_and: "0 < bits \<Longrightarrow> wrap (a AND b) bits sg = wrap a bits sg AND wrap b bits sg"
  and wrap_or: "0 < bits \<Longrightarrow> wrap (a OR b) bits sg = wrap a bits sg OR wrap b bits sg"
  and wrap_xor: "0 < bits \<Longrightarrow> wrap (a XOR b) bits sg = wrap a bits sg XOR wrap b bits sg"
  by (auto simp: wrap_alt bit_signed_take_bit_iff bit_simps intro!: bit_eqI)

lemma valid_width_cases:
  "valid_width bits \<Longrightarrow> 0 < bits \<and> bits \<le> 64 \<and> bits \<noteq> 1" by (auto simp: valid_width_def)

text \<open>Operands of at most 64 bits are far inside \<open>i128\<close>.\<close>

lemma in_bounds_64:
  assumes "in_bounds bits sg v" "bits \<le> 64" shows "- (2 ^ 63) \<le> v" "v < 2 ^ 64"
proof -
  have "(2 :: int) ^ bits \<le> 2 ^ 64" "(2 :: int) ^ (bits - 1) \<le> 2 ^ 63"
    using assms(2) by (intro power_increasing; simp)+
  then show "- (2 ^ 63) \<le> v" "v < 2 ^ 64" using assms(1)
    by (auto simp: in_bounds_def bounds_def split: if_splits)
qed

lemma to_i128_id: "i128_min \<le> v \<Longrightarrow> v \<le> i128_max \<Longrightarrow> to_i128 v = v"
  by (simp add: to_i128_def i128_min_def i128_max_def signed_take_bit_int_eq_self_iff)

lemma wrap_to_i128:
  assumes "0 < bits" "bits \<le> 64" shows "wrap (to_i128 v) bits sg = wrap v bits sg"
proof -
  have "take_bit bits (to_i128 v) = take_bit bits v"
    using assms by (simp add: to_i128_def take_bit_signed_take_bit)
  then show ?thesis using assms by (simp add: wrap_eq_iff take_bit_eq_mod)
qed

lemma i128_checked_mono: "\<bar>v\<bar> < 2 ^ 127 \<Longrightarrow> i128_checked v = Some v"
  by (auto simp: i128_checked_def i128_min_def i128_max_def)

section \<open>Operations\<close>

lemma bounds_fst_snd: "in_bounds bits sg v \<Longrightarrow>
  \<not> v < fst (bounds bits sg) \<and> \<not> v > snd (bounds bits sg)"
  by (auto simp: in_bounds_def)

lemma fixed_binary_native:
  assumes "valid_width bits" "in_bounds bits sg l" "in_bounds bits sg r"
  shows "fixed_binary op l r bits sg = native_binary bits sg op l r"
  using assms bounds_fst_snd [of bits sg l] bounds_fst_snd [of bits sg r] valid_width_cases [of bits]
  by (simp add: fixed_binary_def wrap_id case_prod_unfold)

lemma smod_nonneg: "0 \<le> (l :: int) \<Longrightarrow> 0 \<le> l smod r \<and> l smod r \<le> l"
  by (cases "r = 0") (auto simp: signed_modulo_int_def sgn_if zmod_le_nonneg_dividend)

lemma rem_in_bounds:
  assumes "in_bounds bits sg l" "in_bounds bits sg r" "r \<noteq> 0"
  shows "in_bounds bits sg (l smod r)"
proof (cases sg)
  case True
  then have "\<bar>r\<bar> \<le> 2 ^ (bits - 1)" using assms(2) by (auto simp: in_bounds_def bounds_def)
  with True smod_int_range [OF assms(3), of l] show ?thesis by (auto simp: in_bounds_def bounds_def)
next
  case False
  then show ?thesis using assms smod_nonneg [of l r] by (auto simp: in_bounds_def bounds_def)
qed

lemma div_in_bounds:
  assumes "in_bounds bits sg l" shows "in_bounds bits sg (l div 2 ^ n)"
proof (cases "0 \<le> l")
  case True
  then have "l div 2 ^ n \<le> l" "0 \<le> l div 2 ^ n" using zdiv_mono2 [of l 1 "2 ^ n"]
    by (simp_all add: pos_imp_zdiv_nonneg_iff)
  then show ?thesis using assms by (auto simp: in_bounds_def bounds_def)
next
  case False
  then have "l \<le> l div 2 ^ n" "l div 2 ^ n < 0" using zdiv_mono2_neg [of l 1 "2 ^ n"]
    by (simp_all add: pos_imp_zdiv_neg_iff)
  then show ?thesis using assms by (auto simp: in_bounds_def bounds_def split: if_splits)
qed

lemma not_in_bounds:
  assumes "0 < bits" "in_bounds bits sg l"
  shows "wrap (NOT l) bits sg = (if sg then - l - 1 else 2 ^ bits - 1 - l)"
proof (rule wrap_unique [OF assms(1)])
  show "in_bounds bits sg (if sg then - l - 1 else 2 ^ bits - 1 - l)"
    using assms(2) by (auto simp: in_bounds_def bounds_def)
  show "(if sg then - l - 1 else 2 ^ bits - 1 - l) mod 2 ^ bits = NOT l mod 2 ^ bits"
    by (simp add: not_int_def algebra_simps) (metis minus_mod_self2 mod_add_self2 add.commute diff_add_eq uminus_add_conv_diff)
qed

lemma shift_exact:
  assumes "valid_width bits" shows "wrap (to_i128 (push_bit n l)) bits sg = wrap (l * 2 ^ n) bits sg"
  using valid_width_cases [OF assms] by (simp add: wrap_to_i128 push_bit_eq_mult)

lemma integer_operation_reference:
  assumes w: "valid_width bits" and l: "in_bounds bits sg l" and r: "op \<noteq> Shl \<and> op \<noteq> Shr \<longrightarrow> in_bounds bits sg r"
  shows "integer_operation op l r bits sg = reference_operation op l r bits sg"
proof -
  note v = valid_width_cases [OF w]
  have mn: "fst (bounds bits sg) = - (2 ^ (bits - 1))" if sg using that by (simp add: bounds_def)
  have id: "wrap l bits sg = l" "op \<noteq> Shl \<and> op \<noteq> Shr \<longrightarrow> wrap r bits sg = r"
    using v wrap_id l r by auto
  show ?thesis
    using w v r fixed_binary_native [OF w l] id not_in_bounds [of bits sg l] l shift_exact [OF w]
      wrap_id [of bits sg "l div 2 ^ nat r"] div_in_bounds [OF l, of "nat r"]
    by (cases op) (auto simp: wrap_and wrap_or wrap_xor drop_bit_eq_div native_def native_div_def
        native_rem_def in_range_def mn bounds_def ok_or_def)
qed

lemma reference_in_bounds:
  assumes w: "valid_width bits" and l: "in_bounds bits sg l" and r: "op \<noteq> Shl \<and> op \<noteq> Shr \<longrightarrow> in_bounds bits sg r"
    and ok: "reference_operation op l r bits sg = Ok v"
  shows "in_bounds bits sg v"
proof -
  note v = valid_width_cases [OF w]
  have bw: "in_bounds bits sg (l AND r)" "in_bounds bits sg (l OR r)" "in_bounds bits sg (l XOR r)"
    if "in_bounds bits sg r"
  proof -
    have "wrap l bits sg = l" "wrap r bits sg = r" using that l v by (simp_all add: wrap_id)
    then have "wrap (l AND r) bits sg = l AND r" "wrap (l OR r) bits sg = l OR r" "wrap (l XOR r) bits sg = l XOR r"
      using v by (simp_all add: wrap_and wrap_or wrap_xor)
    then show "in_bounds bits sg (l AND r)" "in_bounds bits sg (l OR r)" "in_bounds bits sg (l XOR r)"
      using v by (simp_all add: wrap_iff)
  qed
  show ?thesis
    using ok v l r bw rem_in_bounds [OF l] wrap_in_bounds [of bits sg "l * 2 ^ nat r"] div_in_bounds [OF l, of "nat r"]
      not_in_bounds [of bits sg l] wrap_in_bounds [of bits sg "NOT l"]
    by (cases op) (auto simp: in_range_def split: if_splits)
qed

section \<open>Explicit policies\<close>

lemma mult_bounds:
  fixes l r :: int
  assumes "- (2 ^ 63) \<le> l" "l < 2 ^ 64" "- (2 ^ 63) \<le> r" "r < 2 ^ 64" "sg \<longrightarrow> l < 2 ^ 63 \<and> r < 2 ^ 63"
    "\<not> sg \<longrightarrow> 0 \<le> l \<and> 0 \<le> r"
  shows "- (2 ^ 127) \<le> l * r" "sg \<Longrightarrow> l * r < 2 ^ 127"
proof -
  have "\<bar>l\<bar> * \<bar>r\<bar> \<le> 2 ^ 63 * 2 ^ 63" if sg using assms that by (intro mult_mono) auto
  then have s: "\<bar>l * r\<bar> \<le> 2 ^ 126" if sg using that by (simp add: abs_mult)
  then show "sg \<Longrightarrow> l * r < 2 ^ 127" by auto
  show "- (2 ^ 127) \<le> l * r"
  proof (cases sg)
    case True then show ?thesis using s by auto
  next
    case False
    then have "0 \<le> l * r" using assms by simp
    then show ?thesis by (rule order_trans [rotated]) simp
  qed
qed

lemma exact_result_math:
  assumes w: "valid_width bits" and op: "\<not> is_rotate op" and o: "method_operands op l r bits sg"
  shows "exact_result op l r sg (fst (bounds bits sg)) = math_result op l r bits sg
    \<or> exact_result op l r sg (fst (bounds bits sg)) = None \<and> \<not> sg \<and>
      op \<in> {WrappingMul, MCheckedMul, OverflowingMul, SaturatingMul} \<and> l * r > i128_max"
proof -
  note v = valid_width_cases [OF w]
  have l: "in_bounds bits sg l" using o by (simp add: method_operands_def)
  have r: "in_bounds bits (if op = WrappingAddSigned then True else sg) r"
    using o by (auto simp: method_operands_def split: if_splits)
  have pw: "(2 :: int) ^ (bits - 1) \<le> 2 ^ 63" using v by (intro power_increasing) auto
  note lb = in_bounds_64 [OF l] and rb = in_bounds_64 [OF r]
  have sb: "sg \<longrightarrow> l < 2 ^ 63" "sg \<and> op \<noteq> WrappingAddSigned \<longrightarrow> r < 2 ^ 63" "\<not> sg \<longrightarrow> 0 \<le> l"
    "\<not> sg \<and> op \<noteq> WrappingAddSigned \<longrightarrow> 0 \<le> r"
    using l r pw by (auto simp: in_bounds_def bounds_def split: if_splits)
  have "\<bar>l + r\<bar> < 2 ^ 127" "\<bar>l - r\<bar> < 2 ^ 127" using lb rb v by auto
  then have as: "i128_checked (l + r) = Some (l + r)" "i128_checked (l - r) = Some (l - r)"
    by (auto intro: i128_checked_mono)
  have "\<bar>l sdiv r\<bar> \<le> \<bar>l\<bar>" using sdiv_int_range [of l r] by auto
  then have dv: "i128_checked (l sdiv r) = Some (l sdiv r)" using lb v by (intro i128_checked_mono) auto
  have ml: "i128_checked (l * r) = Some (l * r) \<or> i128_checked (l * r) = None \<and> \<not> sg \<and> l * r > i128_max"
    if "op \<noteq> WrappingAddSigned"
    using mult_bounds [of l r sg] lb rb sb v that by (auto simp: i128_checked_def i128_min_def i128_max_def)
  have nm: "l \<noteq> i128_min" using lb v by (auto simp: i128_min_def)
  show ?thesis using op as dv ml nm by (cases op)
    (auto simp: math_result_def is_rotate_def bounds_def)
qed

lemma arithmetic_method_policy:
  assumes w: "valid_width bits" and op: "\<not> is_rotate op" and o: "method_operands op l r bits sg"
  shows "\<exists>v. arithmetic_method op l r bits sg =
      Ok (v, case math_result op l r bits sg of None \<Rightarrow> True | Some x \<Rightarrow> \<not> in_bounds bits sg x) \<and>
    (\<forall>x. math_result op l r bits sg = Some x \<and> (checked op \<longrightarrow> in_bounds bits sg x) \<longrightarrow> v = policy_value op x bits sg)"
proof -
  note v = valid_width_cases [OF w]
  have pw: "snd (bounds bits sg) \<le> i128_max"
  proof -
    have "(2 :: int) ^ bits \<le> 2 ^ 64" "(2 :: int) ^ (bits - 1) \<le> 2 ^ 64" using v by (intro power_increasing; linarith)+
    then show ?thesis by (auto simp: bounds_def i128_max_def)
  qed
  have big: "fst (bounds bits sg) \<le> snd (bounds bits sg)" by (auto simp: bounds_def) 
  let ?e = "exact_result op l r sg (fst (bounds bits sg))"
  from exact_result_math [OF assms] show ?thesis
  proof
    assume e: "?e = math_result op l r bits sg"
    show ?thesis
      by (cases "math_result op l r bits sg")
        (auto simp: arithmetic_method_def case_prod_unfold op Let_def e policy_value_def in_bounds_def
          simp del: exact_result.simps)
  next
    assume e: "?e = None \<and> \<not> sg \<and> op \<in> {WrappingMul, MCheckedMul, OverflowingMul, SaturatingMul} \<and> l * r > i128_max"
    then have m: "math_result op l r bits sg = Some (l * r)" by (auto simp: math_result_def)
    have out: "\<not> in_bounds bits sg (l * r)" using e pw by (auto simp: in_bounds_def)
    have cl: "clamp (fst (bounds bits sg)) (snd (bounds bits sg)) (l * r) = snd (bounds bits sg)"
      "clamp (fst (bounds bits sg)) (snd (bounds bits sg)) (snd (bounds bits sg)) = snd (bounds bits sg)"
      using e pw big by (auto simp: clamp_def)
    show ?thesis
      using e m out cl v by (auto simp: arithmetic_method_def case_prod_unfold op Let_def policy_value_def
          is_saturating_def is_mul_def checked_def wrap_to_i128 simp del: exact_result.simps)
  qed
qed

subsection \<open>Rotations\<close>

lemma bit_wrap: "i < bits \<Longrightarrow> bit (wrap v bits sg) i \<longleftrightarrow> bit v i"
proof -
  assume i: "i < bits"
  then have "min i (bits - 1) = i" by simp
  with i show ?thesis by (simp add: wrap_alt bit_signed_take_bit_iff bit_take_bit_iff)
qed

lemma bit_to_i128: "i < 128 \<Longrightarrow> bit (to_i128 v) i \<longleftrightarrow> bit v i"
proof -
  assume "i < 128"
  then have "min i 127 = i" by simp
  then show ?thesis by (simp add: to_i128_def bit_signed_take_bit_iff)
qed

lemma rotate_bits_spec:
  assumes w: "valid_width bits" and r: "0 \<le> r" and op: "is_rotate op"
  shows "\<exists>v. arithmetic_method op l r bits sg = Ok (v, False) \<and> in_bounds bits sg v \<and>
    (\<forall>i < bits. bit v (if op = RotateLeft then (i + nat r) mod bits else i)
      \<longleftrightarrow> bit l (if op = RotateLeft then i else (i + nat r) mod bits))"
proof -
  note v = valid_width_cases [OF w]
  define s where "s = nat r mod bits"
  have s: "s < bits" using v by (simp add: s_def)
  have sm: "r smod int bits = int s" using r v by (simp add: smod_mod_positive s_def nat_mod_as_int)
  have mod: "(i + nat r) mod bits = (if i + s < bits then i + s else i + s - bits)" if "i < bits" for i
  proof -
    have "(i + nat r) mod bits = (i + s) mod bits" by (simp add: s_def mod_simps)
    then show ?thesis using that s by (simp add: mod_if [of "i + s"])
  qed
  have u: "bit (wrap l bits False) j \<longleftrightarrow> bit l j \<and> j < bits" for j
    by (auto simp: wrap_unsigned bit_take_bit_iff)
  let ?L = "to_i128 (push_bit s (wrap l bits False)) OR drop_bit (bits - s) (wrap l bits False)"
  let ?R = "drop_bit s (wrap l bits False) OR to_i128 (push_bit (bits - s) (wrap l bits False))"
  have L: "bit ?L j \<longleftrightarrow> (if s \<le> j then bit l (j - s) else bit l (j + bits - s))" if "j < bits" for j
    using that s v by (auto simp: bit_or_iff bit_to_i128 bit_push_bit_iff bit_drop_bit_eq u)
      (metis Nat.add_diff_assoc add.commute diff_add_inverse2 less_imp_le_nat)+
  have R: "bit ?R j \<longleftrightarrow> (if j + s < bits then bit l (j + s) else bit l (j + s - bits))" if "j < bits" for j
    using that s v by (auto simp: bit_or_iff bit_to_i128 bit_push_bit_iff bit_drop_bit_eq u ac_simps)
  have eq: "arithmetic_method op l r bits sg = Ok (wrap (if op = RotateLeft then ?L else ?R) bits sg, False)"
    using op by (simp add: arithmetic_method_def case_prod_unfold rotate_bits_def sm Let_def)
  show ?thesis unfolding eq
  proof (intro exI conjI allI impI)
    show "in_bounds bits sg (wrap (if op = RotateLeft then ?L else ?R) bits sg)" using v wrap_in_bounds by auto
    fix i assume i: "i < bits"
    have ml: "(i + nat r) mod bits < bits" using v by simp
    show "bit (wrap (if op = RotateLeft then ?L else ?R) bits sg) (if op = RotateLeft then (i + nat r) mod bits else i)
        \<longleftrightarrow> bit l (if op = RotateLeft then i else (i + nat r) mod bits)"
      using i s L [OF ml] R [OF i] ml by (cases "op = RotateLeft") (auto simp: bit_wrap mod)
  qed (rule refl)
qed

section \<open>Conversions\<close>

lemma integer_layout_valid: "integer_layout ty = Some (bits, sg) \<Longrightarrow> valid_width bits"
  by (cases ty) (auto simp: integer_layout_def valid_width_def)

lemma from_builtin_builtin_of: "from_builtin (builtin_of t) = Some t"
  by (cases t) auto

lemma builtin_of_from_builtin: "from_builtin ty = Some t \<Longrightarrow> builtin_of t = ty"
  by (cases ty) auto

text \<open>A conversion between integer types is declared infallible exactly if the ranges are nested.\<close>

lemma fallible_iff:
  assumes "integer_layout source = Some (a, sa)" "integer_layout target = Some (b, sb)"
  shows "checked_conversion_fallible source target = Some (\<not> (\<forall>v. in_bounds a sa v \<longrightarrow> in_bounds b sb v))"
proof -
  have nested: "(\<forall>v. in_bounds a sa v \<longrightarrow> in_bounds b sb v) \<longleftrightarrow>
    fst (bounds b sb) \<le> fst (bounds a sa) \<and> snd (bounds a sa) \<le> snd (bounds b sb)"
  proof -
    have "in_bounds a sa (fst (bounds a sa))" "in_bounds a sa (snd (bounds a sa))"
      by (auto simp: in_bounds_def bounds_def)
    then show ?thesis by (auto simp: in_bounds_def dest: order_trans)
  qed
  show ?thesis unfolding nested using assms
    by (cases source; cases target)
      (auto simp: checked_conversion_fallible_def lossless_from_def integer_layout_def number_type_of_def bounds_def)
qed

lemma cast_integer:
  assumes "in_bounds bits sg v" "valid_width bits"
  shows "cast fu (NInteger v) (TInteger bits sg) = NInteger v"
  using assms valid_width_cases [OF assms(2)] by (simp add: wrap_id case_prod_unfold)

lemma from_parts_iff:
  "from_parts s e i = Some k \<longleftrightarrow> s = has_start k \<and> e = has_end k \<and> i = inclusive k"
  by (cases k; cases s; cases e; cases i) (auto simp: has_start_def has_end_def inclusive_def)

section \<open>Properties\<close>

text \<open>
  (C31) Integer operations compute the mathematical result: for operands in the range of the type,
  every operation of \<^verbatim>\<open>integer_operation\<close> agrees with its definition on unbounded integers, fails
  with the declared message exactly where that definition does, and returns a value of the type.
\<close>

theorem integer_operation_correct:
  assumes "valid_width bits" "in_bounds bits sg l" "op \<noteq> Shl \<and> op \<noteq> Shr \<longrightarrow> in_bounds bits sg r"
  shows "integer_operation op l r bits sg = reference_operation op l r bits sg \<and>
    (\<forall>v. integer_operation op l r bits sg = Ok v \<longrightarrow> in_bounds bits sg v)"
  using integer_operation_reference [OF assms] reference_in_bounds [OF assms] by simp

theorem integer_operation_correct_witness:
  "integer_operation CheckedRem (- 128) (- 1) 8 True = Err ''integer overflow'' \<and>
   integer_operation CheckedAdd 100 27 8 True = Ok 127"
  using integer_operation_correct [of 8 True "- 128" CheckedRem "- 1"]
    integer_operation_correct [of 8 True 100 CheckedAdd 27]
  by (simp add: valid_width_def in_bounds_def bounds_def in_range_def del: integer_operation.simps)

text \<open>
  (C32) The explicit arithmetic policies: the overflow flag of \<^verbatim>\<open>arithmetic_method\<close> is set exactly
  if the mathematical result is undefined or outside the type, and the value is that result
  wrapped, or clamped for the saturating methods, although the computation runs in \<open>i128\<close>,
  which an unsigned 64-bit product can leave. (The value of a checked method is used only
  without overflow.)
\<close>

theorem arithmetic_method_correct:
  assumes "valid_width bits" "\<not> is_rotate op" "method_operands op l r bits sg"
  shows "\<exists>v. arithmetic_method op l r bits sg =
      Ok (v, case math_result op l r bits sg of None \<Rightarrow> True | Some x \<Rightarrow> \<not> in_bounds bits sg x) \<and>
    (\<forall>x. math_result op l r bits sg = Some x \<and> (checked op \<longrightarrow> in_bounds bits sg x) \<longrightarrow> v = policy_value op x bits sg)"
  using assms by (rule arithmetic_method_policy)

theorem arithmetic_method_correct_witness:
  "\<exists>v. arithmetic_method OverflowingMul (2 ^ 64 - 1) (2 ^ 64 - 1) 64 False = Ok (v, True) \<and>
     v = wrap ((2 ^ 64 - 1) * (2 ^ 64 - 1)) 64 False"
  using arithmetic_method_correct [of 64 OverflowingMul "2 ^ 64 - 1" "2 ^ 64 - 1" False]
  by (simp add: valid_width_def is_rotate_def method_operands_def in_bounds_def bounds_def
      math_result_def policy_value_def is_saturating_def checked_def del: exact_result.simps)

text \<open>
  Rotations move bits cyclically: \<open>RotateLeft\<close> by \<open>r\<close> moves bit \<open>i\<close> to bit
  \<open>(i + r) mod bits\<close>, \<open>RotateRight\<close> moves it back, the result is a value of the type and no
  overflow is flagged, for every width, signed or not, and every count.
\<close>

theorem rotation_correct:
  assumes "valid_width bits" "0 \<le> r" "is_rotate op"
  shows "\<exists>v. arithmetic_method op l r bits sg = Ok (v, False) \<and> in_bounds bits sg v \<and>
    (\<forall>i < bits. bit v (if op = RotateLeft then (i + nat r) mod bits else i)
      \<longleftrightarrow> bit l (if op = RotateLeft then i else (i + nat r) mod bits))"
  using assms by (rule rotate_bits_spec)

theorem rotation_correct_witness:
  "\<exists>v. arithmetic_method RotateLeft (- 127) 9 8 True = Ok (v, False) \<and> in_bounds 8 True v"
  using rotation_correct [of 8 9 RotateLeft "- 127" True]
  by (auto simp: valid_width_def is_rotate_def)

text \<open>
  (C34) Checked integer conversions are declared infallible exactly if every value of the source
  type is a value of the target type, and the cast then keeps the value.
\<close>

theorem checked_conversion_exact:
  assumes "integer_layout source = Some (a, sa)" "integer_layout target = Some (b, sb)"
  shows "checked_conversion_fallible source target = Some (\<not> (\<forall>v. in_bounds a sa v \<longrightarrow> in_bounds b sb v)) \<and>
    (checked_conversion_fallible source target = Some False \<longrightarrow>
      (\<forall>v. in_bounds a sa v \<longrightarrow> cast fu (NInteger v) (TInteger b sb) = NInteger v))"
  using fallible_iff [OF assms] cast_integer [OF _ integer_layout_valid [OF assms(2)]] by simp

theorem checked_conversion_exact_witness:
  "checked_conversion_fallible U32 I64 = Some False \<and>
   (\<forall>fu. cast fu (NInteger 4294967295) (TInteger 64 True) = NInteger 4294967295)"
proof -
  have l: "integer_layout U32 = Some (32, False)" "integer_layout I64 = Some (64, True)"
    by (simp_all add: integer_layout_def)
  have "checked_conversion_fallible U32 I64 = Some False"
    by (simp add: checked_conversion_fallible_def lossless_from_def integer_layout_def)
  moreover have "in_bounds 32 False 4294967295" by (simp add: in_bounds_def bounds_def)
  ultimately show ?thesis using checked_conversion_exact [OF l] by blast
qed

end
