(* ===== verification/Runtime_Base.thy ===== *)
theory Runtime_Base
  imports Kagari_Prelude
begin

text \<open>
  Runtime errors (\<^verbatim>\<open>crates/kagari-runtime/src/error.rs\<close>). Traces and task origins, which only
  decorate an error for diagnostics, are left out.
\<close>

datatype runtime_error_kind = Cancelled
  | EngineFault
  | ScriptTrap
  | IndexOutOfBounds
  | ExecutionPhaseViolation
  | InvalidReflectiveRead
  | InvalidReflectiveWrite
  | ExpiredHostBorrow
  | HostBorrowConflict
  | HostBorrowEscape
  | HostCallFailure
  | TypedPathValidation
  | ModuleValidation
  | ResourceLimitExceeded
  | MetadataConflict
  | StaleHandle

fun error_code :: "runtime_error_kind \<Rightarrow> string" where
  "error_code Cancelled = ''KG_RUNTIME_CANCELLED''"
| "error_code EngineFault = ''KG_RUNTIME_ENGINE_FAULT''"
| "error_code ScriptTrap = ''KG_RUNTIME_SCRIPT_TRAP''"
| "error_code IndexOutOfBounds = ''KG_RUNTIME_INDEX_OUT_OF_BOUNDS''"
| "error_code ExecutionPhaseViolation = ''KG_RUNTIME_EXECUTION_PHASE_VIOLATION''"
| "error_code InvalidReflectiveRead = ''KG_RUNTIME_INVALID_REFLECTIVE_READ''"
| "error_code InvalidReflectiveWrite = ''KG_RUNTIME_INVALID_REFLECTIVE_WRITE''"
| "error_code ExpiredHostBorrow = ''KG_RUNTIME_EXPIRED_HOST_BORROW''"
| "error_code HostBorrowConflict = ''KG_RUNTIME_HOST_BORROW_CONFLICT''"
| "error_code HostBorrowEscape = ''KG_RUNTIME_HOST_BORROW_ESCAPE''"
| "error_code HostCallFailure = ''KG_RUNTIME_HOST_CALL_FAILURE''"
| "error_code TypedPathValidation = ''KG_RUNTIME_TYPED_PATH_VALIDATION''"
| "error_code ModuleValidation = ''KG_RUNTIME_MODULE_VALIDATION''"
| "error_code ResourceLimitExceeded = ''KG_RUNTIME_RESOURCE_LIMIT_EXCEEDED''"
| "error_code MetadataConflict = ''KG_RUNTIME_METADATA_CONFLICT''"
| "error_code StaleHandle = ''KG_RUNTIME_STALE_HANDLE''"

record runtime_error =
  kind :: runtime_error_kind
  msg :: string

type_synonym 'a rt_result = "(runtime_error, 'a) outcome"

definition runtime_error_new :: "runtime_error_kind \<Rightarrow> string \<Rightarrow> runtime_error" where
  "runtime_error_new k m = \<lparr>kind = k, msg = m\<rparr>"

definition execution_phase_violation :: "string \<Rightarrow> runtime_error" where
  "execution_phase_violation detail = runtime_error_new ExecutionPhaseViolation (''execution phase forbids: '' @ detail)"

definition resource_limit :: "string \<Rightarrow> runtime_error" where
  "resource_limit detail = runtime_error_new ResourceLimitExceeded (''resource limit exceeded: '' @ detail)"

definition metadata_conflict :: "string \<Rightarrow> runtime_error" where
  "metadata_conflict detail = runtime_error_new MetadataConflict (''metadata conflict: '' @ detail)"

definition expired_host_borrow :: "string \<Rightarrow> runtime_error" where
  "expired_host_borrow detail = runtime_error_new ExpiredHostBorrow (''expired host borrow: '' @ detail)"

definition host_borrow_conflict :: "string \<Rightarrow> runtime_error" where
  "host_borrow_conflict detail = runtime_error_new HostBorrowConflict (''host borrow conflict: '' @ detail)"

definition host_borrow_escape :: "string \<Rightarrow> runtime_error" where
  "host_borrow_escape detail = runtime_error_new HostBorrowEscape (''host borrow escape: '' @ detail)"

definition invalid_reflective_read :: "string \<Rightarrow> runtime_error" where
  "invalid_reflective_read detail = runtime_error_new InvalidReflectiveRead (''invalid reflective read: '' @ detail)"

definition invalid_reflective_write :: "string \<Rightarrow> runtime_error" where
  "invalid_reflective_write detail = runtime_error_new InvalidReflectiveWrite (''invalid reflective write: '' @ detail)"

definition host_call_failure :: "string \<Rightarrow> runtime_error" where
  "host_call_failure detail = runtime_error_new HostCallFailure (''host call failed: '' @ detail)"

definition typed_path_validation :: "string \<Rightarrow> runtime_error" where
  "typed_path_validation detail = runtime_error_new TypedPathValidation (''typed path validation failed: '' @ detail)"

definition module_validation :: "string \<Rightarrow> runtime_error" where
  "module_validation detail = runtime_error_new ModuleValidation (''module validation failed: '' @ detail)"

text \<open>Distinct kinds have distinct codes, so that a host can dispatch on the code.\<close>

lemma error_code_inject: "error_code a = error_code b \<longleftrightarrow> a = b"
  by (cases a; cases b; simp)

end
