(* ===== verification/Scalar_Payload.thy ===== *)
theory Scalar_Payload
  imports Integer_Arith Runtime_Base
begin

unbundle bit_operations_syntax

text \<open>
  Scalar execution, twice: over tagged values (\<^verbatim>\<open>crates/kagari-runtime/src/numeric.rs,
  numeric/compare.rs, value/scalar.rs\<close> with the contracts of \<^verbatim>\<open>crates/kagari-contract/src/numeric.rs,
  numeric/method.rs, representation.rs\<close>), and over untagged 64-bit carriers, as prepared code runs it
  (\<^verbatim>\<open>crates/kagari-types/src/payload.rs, payload/comparison.rs, payload/operation.rs,
  payload/operation/select.rs, payload/shared.rs\<close>).

  A carrier is a \<open>64 word\<close>. \<open>i32\<close>, \<open>i64\<close>, \<open>u64\<close>, \<open>f32\<close> and \<open>f64\<close> values are words of their
  width; the machine's floating-point operations are the parameter \<open>fu :: float_unit\<close>. The
  constant generic parameters of the source are ordinary arguments. The properties state that the
  two executions agree and that results stay in the domain of their type.
\<close>

section \<open>Definitions\<close>

type_synonym 'a scalar_result = "(string, 'a) outcome"

subsection \<open>payload.rs\<close>

datatype scalar_binary_op = SAdd | SSub | SMul | SDiv | SRem | SEq | SNotEq | SLt | SLe | SGt | SGe

text \<open>
  The floating-point unit is a function of the operand bits. Where the hardware may choose the
  payload of a NaN, the unit stands for one such choice, made alike by both execution paths.
\<close>

fun float_code :: "nat \<Rightarrow> float_op option" where
  "float_code n = (if n = 0 then Some FAdd else if n = 1 then Some FSub else if n = 2 then Some FMul
     else if n = 3 then Some FDiv else if n = 4 then Some FRem else None)"

definition float_binary :: "float_unit \<Rightarrow> nat \<Rightarrow> bool \<Rightarrow> u64 \<Rightarrow> u64 \<Rightarrow> u64 scalar_result" where
  "float_binary fu op f32 l r =
     (case float_code op of
        None \<Rightarrow> Panic ''unreachable''
      | Some f \<Rightarrow> Ok (if f32 then ucast (op32 fu f (ucast l) (ucast r)) else op64 fu f l r))"

definition decode_integer_domain :: "u64 \<Rightarrow> nat \<Rightarrow> bool \<Rightarrow> int scalar_result" where
  "decode_integer_domain value bits sg =
     (let v = (if sg then sint value else uint value); (mn, mx) = bounds bits sg
      in if v < mn \<or> v > mx then Err ''invalid numeric operand type or range'' else Ok v)"

text \<open>\<open>value as u64\<close> on an \<open>i128\<close>.\<close>

definition as_u64 :: "int \<Rightarrow> u64" where
  "as_u64 v = word_of_int v"

definition map_ok :: "('a \<Rightarrow> 'b) \<Rightarrow> ('e, 'a) outcome \<Rightarrow> ('e, 'b) outcome" where
  "map_ok f x = and_then x (\<lambda>v. Ok (f v))"

definition integer_value :: "nat \<Rightarrow> nat \<Rightarrow> bool \<Rightarrow> u64 \<Rightarrow> u64 \<Rightarrow> u64 scalar_result" where
  "integer_value op bits sg l r =
     and_then (decode_integer_domain l bits sg) (\<lambda>lv.
       let rhs = decode_integer_domain r bits sg;
           run = (\<lambda>o'. and_then rhs (\<lambda>rv. map_ok as_u64 (integer_operation o' lv rv bits sg)))
       in if op = 0 then run CheckedAdd else if op = 1 then run CheckedSub
          else if op = 2 then run CheckedMul else if op = 3 then run CheckedDiv
          else if op = 4 then run CheckedRem else if op = 5 then run BitAnd
          else if op = 6 then run BitOr else if op = 7 then run BitXor
          else if op = 8 then map_ok as_u64 (integer_operation BitNot lv 0 bits sg)
          else Panic ''unreachable'')"

definition decode_integer :: "u64 \<Rightarrow> integer_type \<Rightarrow> int scalar_result" where
  "decode_integer value ity =
     (let (bits, sg) = integer_layout_of ity in decode_integer_domain value bits sg)"

definition shift_value :: "bool \<Rightarrow> nat \<Rightarrow> bool \<Rightarrow> u64 \<Rightarrow> u64 \<Rightarrow> integer_type \<Rightarrow> u64 scalar_result" where
  "shift_value right bits sg l r count_domain =
     and_then (decode_integer_domain l bits sg) (\<lambda>lv.
       and_then (decode_integer r count_domain) (\<lambda>rv.
         map_ok as_u64 (integer_operation (if right then Shr else Shl) lv rv bits sg)))"

definition negate_integer :: "nat \<Rightarrow> u64 \<Rightarrow> u64 scalar_result" where
  "negate_integer bits value = integer_value 1 bits True 0 value"

definition negate_float :: "bool \<Rightarrow> u64 \<Rightarrow> u64 scalar_result" where
  "negate_float f32 value = Ok (value XOR bit_at (if f32 then 31 else 63))"

definition boolean_not :: "u64 \<Rightarrow> u64 scalar_result" where
  "boolean_not value = Ok (if value = 0 then 1 else 0)"

definition payload_convert :: "float_unit \<Rightarrow> u64 \<Rightarrow> builtin_type \<Rightarrow> builtin_type \<Rightarrow> u64 scalar_result" where
  "payload_convert fu value source target =
     and_then
       (case source of
          F32 \<Rightarrow> Ok (NF32 (ucast value))
        | F64 \<Rightarrow> Ok (NF64 value)
        | _ \<Rightarrow>
          (let input = (case integer_layout source of Some (_, True) \<Rightarrow> sint value | _ \<Rightarrow> uint value)
           in case integer_bounds source of
                Some (mn, mx) \<Rightarrow> if input < mn \<or> input > mx
                                then Err ''invalid numeric operand type or range''
                                else Ok (NInteger input)
              | None \<Rightarrow> Ok (NInteger input)))
       (\<lambda>number.
          if source = target then Ok value
          else and_then (expect ''numeric target'' (number_type_of target))
            (\<lambda>tgt. Ok (case cast fu number tgt of
                NInteger v \<Rightarrow> as_u64 v | NF32 v \<Rightarrow> ucast v | NF64 v \<Rightarrow> v)))"

subsection \<open>payload/comparison.rs\<close>

fun comparison_test :: "comparison \<Rightarrow> int \<Rightarrow> int \<Rightarrow> bool" where
  "comparison_test CEq l r = (l = r)"
| "comparison_test CNotEq l r = (l \<noteq> r)"
| "comparison_test CLt l r = (l < r)"
| "comparison_test CLe l r = (l \<le> r)"
| "comparison_test CGt l r = (l > r)"
| "comparison_test CGe l r = (l \<ge> r)"

definition from_bool :: "bool \<Rightarrow> u64" where
  "from_bool b = (if b then 1 else 0)"

datatype comparison_domain = DI32 | DI64 | DU64 | DF32 | DF64 | DChar | DScalar

definition integer_compare :: "nat \<Rightarrow> bool \<Rightarrow> u64 \<Rightarrow> u64 \<Rightarrow> comparison \<Rightarrow> u64 scalar_result" where
  "integer_compare bits sg l r c =
     and_then (decode_integer_domain l bits sg) (\<lambda>lv.
       and_then (decode_integer_domain r bits sg) (\<lambda>rv. Ok (from_bool (comparison_test c lv rv))))"

definition i32_compare :: "u64 \<Rightarrow> u64 \<Rightarrow> comparison \<Rightarrow> u64 scalar_result" where
  "i32_compare = integer_compare 32 True"

definition i64_compare :: "u64 \<Rightarrow> u64 \<Rightarrow> comparison \<Rightarrow> u64 scalar_result" where
  "i64_compare = integer_compare 64 True"

definition u64_compare :: "u64 \<Rightarrow> u64 \<Rightarrow> comparison \<Rightarrow> u64 scalar_result" where
  "u64_compare = integer_compare 64 False"

definition f32_compare :: "float_unit \<Rightarrow> u64 \<Rightarrow> u64 \<Rightarrow> comparison \<Rightarrow> u64 scalar_result" where
  "f32_compare fu l r c = Ok (from_bool (cmp32 fu c (ucast l) (ucast r)))"

definition f64_compare :: "float_unit \<Rightarrow> u64 \<Rightarrow> u64 \<Rightarrow> comparison \<Rightarrow> u64 scalar_result" where
  "f64_compare fu l r c = Ok (from_bool (cmp64 fu c l r))"

text \<open>\<open>u32::try_from(value).ok().and_then(char::from_u32)\<close>: a Unicode scalar value.\<close>

definition char_scalar :: "nat \<Rightarrow> bool" where
  "char_scalar n \<longleftrightarrow> n < 0xD800 \<or> 0xDFFF < n \<and> n < 0x110000"

definition decode_char :: "u64 \<Rightarrow> nat option" where
  "decode_char w = (if char_scalar (unat w) then Some (unat w) else None)"

definition char_compare :: "u64 \<Rightarrow> u64 \<Rightarrow> comparison \<Rightarrow> u64 scalar_result" where
  "char_compare l r c =
     (if decode_char l = None \<or> decode_char r = None then Err ''invalid Unicode scalar operand''
      else Ok (from_bool (comparison_test c (uint l) (uint r))))"

definition scalar_compare :: "u64 \<Rightarrow> u64 \<Rightarrow> comparison \<Rightarrow> u64 scalar_result" where
  "scalar_compare l r c = Ok (from_bool (comparison_test c (uint l) (uint r)))"

fun domain_evaluate :: "float_unit \<Rightarrow> comparison_domain \<Rightarrow> comparison \<Rightarrow> u64 \<Rightarrow> u64 \<Rightarrow> u64 scalar_result" where
  "domain_evaluate fu DI32 c l r = i32_compare l r c"
| "domain_evaluate fu DI64 c l r = i64_compare l r c"
| "domain_evaluate fu DU64 c l r = u64_compare l r c"
| "domain_evaluate fu DF32 c l r = f32_compare fu l r c"
| "domain_evaluate fu DF64 c l r = f64_compare fu l r c"
| "domain_evaluate fu DChar c l r = char_compare l r c"
| "domain_evaluate fu DScalar c l r = scalar_compare l r c"

subsection \<open>payload/operation.rs and payload/shared.rs\<close>

datatype float_type = Float32 | Float64

fun float_from_builtin :: "builtin_type \<Rightarrow> float_type option" where
  "float_from_builtin F32 = Some Float32"
| "float_from_builtin F64 = Some Float64"
| "float_from_builtin _ = None"

fun float_builtin :: "float_type \<Rightarrow> builtin_type" where
  "float_builtin Float32 = F32"
| "float_builtin Float64 = F64"

datatype shift_kind = I8Shl | I8Shr | I16Shl | I16Shr | I32Shl | I32Shr | I64Shl | I64Shr
  | U8Shl | U8Shr | U16Shl | U16Shr | U32Shl | U32Shr | U64Shl | U64Shr

fun shift_kind_new :: "integer_type \<Rightarrow> integer_op \<Rightarrow> shift_kind option" where
  "shift_kind_new Int8 Shl = Some I8Shl"
| "shift_kind_new Int8 Shr = Some I8Shr"
| "shift_kind_new Int16 Shl = Some I16Shl"
| "shift_kind_new Int16 Shr = Some I16Shr"
| "shift_kind_new Int32 Shl = Some I32Shl"
| "shift_kind_new Int32 Shr = Some I32Shr"
| "shift_kind_new Int64 Shl = Some I64Shl"
| "shift_kind_new Int64 Shr = Some I64Shr"
| "shift_kind_new UInt8 Shl = Some U8Shl"
| "shift_kind_new UInt8 Shr = Some U8Shr"
| "shift_kind_new UInt16 Shl = Some U16Shl"
| "shift_kind_new UInt16 Shr = Some U16Shr"
| "shift_kind_new UInt32 Shl = Some U32Shl"
| "shift_kind_new UInt32 Shr = Some U32Shr"
| "shift_kind_new UInt64 Shl = Some U64Shl"
| "shift_kind_new UInt64 Shr = Some U64Shr"
| "shift_kind_new _ _ = None"

fun shift_parts :: "shift_kind \<Rightarrow> integer_type \<times> integer_op" where
  "shift_parts I8Shl = (Int8, Shl)"
| "shift_parts I8Shr = (Int8, Shr)"
| "shift_parts I16Shl = (Int16, Shl)"
| "shift_parts I16Shr = (Int16, Shr)"
| "shift_parts I32Shl = (Int32, Shl)"
| "shift_parts I32Shr = (Int32, Shr)"
| "shift_parts I64Shl = (Int64, Shl)"
| "shift_parts I64Shr = (Int64, Shr)"
| "shift_parts U8Shl = (UInt8, Shl)"
| "shift_parts U8Shr = (UInt8, Shr)"
| "shift_parts U16Shl = (UInt16, Shl)"
| "shift_parts U16Shr = (UInt16, Shr)"
| "shift_parts U32Shl = (UInt32, Shl)"
| "shift_parts U32Shr = (UInt32, Shr)"
| "shift_parts U64Shl = (UInt64, Shl)"
| "shift_parts U64Shr = (UInt64, Shr)"

datatype scalar_operation =
    OInteger integer_type integer_op
  | OFloat float_type float_op
  | OShift shift_kind integer_type
  | OCompare comparison_domain comparison
  | OIntegerConvert integer_type integer_type
  | OIntegerToFloat integer_type float_type
  | OFloatToInteger float_type integer_type
  | OFloatConvert float_type float_type
  | OBoolToInteger integer_type
  | I8BitNot | I16BitNot | I32BitNot | I64BitNot | U8BitNot | U16BitNot | U32BitNot | U64BitNot
  | I32Neg | I64Neg | F32Neg | F64Neg | BoolNot

definition shared_integer :: "integer_op \<Rightarrow> integer_type \<Rightarrow> u64 \<Rightarrow> u64 \<Rightarrow> u64 scalar_result" where
  "shared_integer op ity l r =
     (let (bits, sg) = integer_layout_of ity
      in and_then (decode_integer_domain l bits sg) (\<lambda>lv.
           and_then (decode_integer_domain r bits sg) (\<lambda>rv.
             map_ok as_u64 (integer_operation op lv rv bits sg))))"

definition shared_shift :: "shift_kind \<Rightarrow> integer_type \<Rightarrow> u64 \<Rightarrow> u64 \<Rightarrow> u64 scalar_result" where
  "shared_shift k count_domain l r =
     (let (ity, op) = shift_parts k; (bits, sg) = integer_layout_of ity
      in and_then (decode_integer_domain l bits sg) (\<lambda>lv.
           and_then (decode_integer r count_domain) (\<lambda>rv.
             map_ok as_u64 (integer_operation op lv rv bits sg))))"

fun shared_float :: "float_unit \<Rightarrow> float_op \<Rightarrow> float_type \<Rightarrow> u64 \<Rightarrow> u64 \<Rightarrow> u64 scalar_result" where
  "shared_float fu FAdd Float32 l r = float_binary fu 0 True l r"
| "shared_float fu FSub Float32 l r = float_binary fu 1 True l r"
| "shared_float fu FMul Float32 l r = float_binary fu 2 True l r"
| "shared_float fu FDiv Float32 l r = float_binary fu 3 True l r"
| "shared_float fu FRem Float32 l r = float_binary fu 4 True l r"
| "shared_float fu FAdd Float64 l r = float_binary fu 0 False l r"
| "shared_float fu FSub Float64 l r = float_binary fu 1 False l r"
| "shared_float fu FMul Float64 l r = float_binary fu 2 False l r"
| "shared_float fu FDiv Float64 l r = float_binary fu 3 False l r"
| "shared_float fu FRem Float64 l r = float_binary fu 4 False l r"

fun evaluate :: "float_unit \<Rightarrow> scalar_operation \<Rightarrow> u64 \<Rightarrow> u64 \<Rightarrow> u64 scalar_result" where
  "evaluate fu (OInteger ity op) l r = shared_integer op ity l r"
| "evaluate fu (OFloat ity op) l r = shared_float fu op ity l r"
| "evaluate fu (OShift k count_domain) l r = shared_shift k count_domain l r"
| "evaluate fu (OCompare ity c) l r = domain_evaluate fu ity c l r"
| "evaluate fu (OIntegerConvert s t) l r = payload_convert fu l (builtin_of s) (builtin_of t)"
| "evaluate fu (OIntegerToFloat s t) l r = payload_convert fu l (builtin_of s) (float_builtin t)"
| "evaluate fu (OFloatToInteger s t) l r = payload_convert fu l (float_builtin s) (builtin_of t)"
| "evaluate fu (OFloatConvert s t) l r = payload_convert fu l (float_builtin s) (float_builtin t)"
| "evaluate fu (OBoolToInteger t) l r = payload_convert fu l Bool (builtin_of t)"
| "evaluate fu I8BitNot l r = integer_value 8 8 True l r"
| "evaluate fu I16BitNot l r = integer_value 8 16 True l r"
| "evaluate fu I32BitNot l r = integer_value 8 32 True l r"
| "evaluate fu I64BitNot l r = integer_value 8 64 True l r"
| "evaluate fu U8BitNot l r = integer_value 8 8 False l r"
| "evaluate fu U16BitNot l r = integer_value 8 16 False l r"
| "evaluate fu U32BitNot l r = integer_value 8 32 False l r"
| "evaluate fu U64BitNot l r = integer_value 8 64 False l r"
| "evaluate fu I32Neg l r = negate_integer 32 l"
| "evaluate fu I64Neg l r = negate_integer 64 l"
| "evaluate fu F32Neg l r = negate_float True l"
| "evaluate fu F64Neg l r = negate_float False l"
| "evaluate fu BoolNot l r = boolean_not l"

subsection \<open>payload/operation/select.rs\<close>

fun select_condition :: "scalar_binary_op \<Rightarrow> comparison option" where
  "select_condition SEq = Some CEq"
| "select_condition SNotEq = Some CNotEq"
| "select_condition SLt = Some CLt"
| "select_condition SLe = Some CLe"
| "select_condition SGt = Some CGt"
| "select_condition SGe = Some CGe"
| "select_condition _ = None"

fun select_integer :: "integer_op \<Rightarrow> builtin_type \<Rightarrow> builtin_type option \<Rightarrow> scalar_operation option" where
  "select_integer op input rhs =
     Option.bind (from_builtin input) (\<lambda>ity.
       if op = Shl \<or> op = Shr then
         Option.bind (shift_kind_new ity op) (\<lambda>k.
           Option.bind rhs (\<lambda>ty. Option.bind (from_builtin ty) (\<lambda>count. Some (OShift k count))))
       else if op = BitNot then
         Some (case ity of Int8 \<Rightarrow> I8BitNot | Int16 \<Rightarrow> I16BitNot | Int32 \<Rightarrow> I32BitNot | Int64 \<Rightarrow> I64BitNot | UInt8 \<Rightarrow> U8BitNot | UInt16 \<Rightarrow> U16BitNot | UInt32 \<Rightarrow> U32BitNot | UInt64 \<Rightarrow> U64BitNot)
       else Some (OInteger ity op))"

definition select_binary :: "scalar_binary_op \<Rightarrow> builtin_type \<Rightarrow> scalar_operation option" where
  "select_binary op input =
     (case select_condition op of
        Some c \<Rightarrow>
          (case input of
             I32 \<Rightarrow> Some (OCompare DI32 c)
           | I64 \<Rightarrow> Some (OCompare DI64 c)
           | U64 \<Rightarrow> Some (OCompare DU64 c)
           | F32 \<Rightarrow> Some (OCompare DF32 c)
           | F64 \<Rightarrow> Some (OCompare DF64 c)
           | Char \<Rightarrow> Some (OCompare DChar c)
           | Bool \<Rightarrow> if c = CEq \<or> c = CNotEq then Some (OCompare DScalar c) else None
           | Unit \<Rightarrow> if c = CEq \<or> c = CNotEq then Some (OCompare DScalar c) else None
           | _ \<Rightarrow> None)
      | None \<Rightarrow>
          if input = I32 \<or> input = I64 \<or> input = U64 then
            (case op of
               SAdd \<Rightarrow> select_integer CheckedAdd input (Some input)
             | SSub \<Rightarrow> select_integer CheckedSub input (Some input)
             | SMul \<Rightarrow> select_integer CheckedMul input (Some input)
             | SDiv \<Rightarrow> select_integer CheckedDiv input (Some input)
             | SRem \<Rightarrow> select_integer CheckedRem input (Some input)
             | _ \<Rightarrow> None)
          else
            Option.bind (float_from_builtin input) (\<lambda>ity.
              case op of
                SAdd \<Rightarrow> Some (OFloat ity FAdd)
              | SSub \<Rightarrow> Some (OFloat ity FSub)
              | SMul \<Rightarrow> Some (OFloat ity FMul)
              | SDiv \<Rightarrow> Some (OFloat ity FDiv)
              | SRem \<Rightarrow> Some (OFloat ity FRem)
              | _ \<Rightarrow> None))"

fun select_negation :: "builtin_type \<Rightarrow> scalar_operation option" where
  "select_negation I32 = Some I32Neg"
| "select_negation I64 = Some I64Neg"
| "select_negation F32 = Some F32Neg"
| "select_negation F64 = Some F64Neg"
| "select_negation _ = None"

definition select_conversion :: "builtin_type \<Rightarrow> builtin_type \<Rightarrow> scalar_operation option" where
  "select_conversion source target =
     (case from_builtin source of
        Some s \<Rightarrow>
          (case from_builtin target of
             Some t \<Rightarrow> Some (OIntegerConvert s t)
           | None \<Rightarrow> map_option (OIntegerToFloat s) (float_from_builtin target))
      | None \<Rightarrow>
          (case float_from_builtin source of
             Some s \<Rightarrow>
               (case from_builtin target of
                  Some t \<Rightarrow> Some (OFloatToInteger s t)
                | None \<Rightarrow> map_option (OFloatConvert s) (float_from_builtin target))
           | None \<Rightarrow>
               if source = Bool then map_option OBoolToInteger (from_builtin target) else None))"

subsection \<open>Tagged values (kagari-runtime value.rs, value/scalar.rs)\<close>

datatype value_type = RNever | RUnit | RBool | RI32 | RI64 | RU64 | RF32 | RF64 | RStr | RHeapObject
  | RHostHandle | RGeneric | RChar

datatype rvalue = VUnit | VBool bool | VChar nat | VI32 "32 word" | VI64 u64 | VU64 u64
  | VF32 "32 word" | VF64 u64 | VStr nat | VTuple nat | VRange nat | VArray nat | VMap nat | VSet nat
  | VEnum nat | VStruct nat | VGcHandle nat | VInterface nat | VClosure nat | VCell nat
  | VHostRoot nat | VHostPathView nat | VEphemeral nat | VRuntimeEphemeral nat

fun builtin_representation :: "builtin_type \<Rightarrow> value_type" where
  "builtin_representation Never = RNever"
| "builtin_representation Unit = RUnit"
| "builtin_representation Bool = RBool"
| "builtin_representation I8 = RI32"
| "builtin_representation I16 = RI32"
| "builtin_representation I32 = RI32"
| "builtin_representation I64 = RI64"
| "builtin_representation U8 = RI64"
| "builtin_representation U16 = RI64"
| "builtin_representation U32 = RI64"
| "builtin_representation U64 = RU64"
| "builtin_representation F32 = RF32"
| "builtin_representation F64 = RF64"
| "builtin_representation String = RStr"
| "builtin_representation Char = RChar"

definition has_representation :: "rvalue \<Rightarrow> value_type \<Rightarrow> bool" where
  "has_representation v ty =
     (if ty = RGeneric then (case v of VEphemeral _ \<Rightarrow> False | VRuntimeEphemeral _ \<Rightarrow> False | _ \<Rightarrow> True)
      else case v of
        VUnit \<Rightarrow> ty = RUnit
      | VBool _ \<Rightarrow> ty = RBool
      | VChar _ \<Rightarrow> ty = RChar
      | VI32 _ \<Rightarrow> ty = RI32
      | VI64 _ \<Rightarrow> ty = RI64
      | VU64 _ \<Rightarrow> ty = RU64
      | VF32 _ \<Rightarrow> ty = RF32
      | VF64 _ \<Rightarrow> ty = RF64
      | VStr _ \<Rightarrow> ty = RStr
      | VHostRoot _ \<Rightarrow> ty = RHostHandle
      | VHostPathView _ \<Rightarrow> ty = RHostHandle
      | VEphemeral _ \<Rightarrow> ty = RHostHandle
      | VRuntimeEphemeral _ \<Rightarrow> False
      | _ \<Rightarrow> ty = RHeapObject)"

fun encode :: "rvalue \<Rightarrow> u64 option" where
  "encode VUnit = Some 0"
| "encode (VBool b) = Some (from_bool b)"
| "encode (VChar c) = Some (of_nat c)"
| "encode (VI32 v) = Some (scast v)"
| "encode (VI64 v) = Some v"
| "encode (VU64 v) = Some v"
| "encode (VF32 v) = Some (ucast v)"
| "encode (VF64 v) = Some v"
| "encode _ = None"

fun decode :: "value_type \<Rightarrow> u64 \<Rightarrow> rvalue option" where
  "decode RUnit w = Some VUnit"
| "decode RBool w = (if w \<le> 1 then Some (VBool (w \<noteq> 0)) else None)"
| "decode RChar w = map_option VChar (decode_char w)"
| "decode RI32 w = Some (VI32 (ucast w))"
| "decode RI64 w = Some (VI64 w)"
| "decode RU64 w = Some (VU64 w)"
| "decode RF32 w = Some (VF32 (ucast w))"
| "decode RF64 w = Some (VF64 w)"
| "decode _ w = None"

definition admits_payload :: "value_type \<Rightarrow> builtin_type option \<Rightarrow> u64 \<Rightarrow> bool" where
  "admits_payload rep semantic w =
     (if rep = RChar \<or> semantic = Some Char
      then rep = RChar \<and> (case semantic of None \<Rightarrow> True | Some ty \<Rightarrow> ty = Char) \<and> decode_char w \<noteq> None
      else if rep = RBool \<and> w > 1 then False
      else case Option.bind semantic integer_bounds of
          None \<Rightarrow> True
        | Some (mn, mx) \<Rightarrow>
            (case rep of
               RI32 \<Rightarrow> mn \<le> sint w \<and> sint w \<le> mx
             | RI64 \<Rightarrow> mn \<le> sint w \<and> sint w \<le> mx
             | RU64 \<Rightarrow> mn \<le> uint w \<and> uint w \<le> mx
             | _ \<Rightarrow> False))"

subsection \<open>Numeric contracts (kagari-contract numeric.rs, numeric/method.rs)\<close>

record numeric_operation =
  nop :: integer_op
  ninput :: builtin_type
  nrhs :: "builtin_type option"

record numeric_signature =
  nleft :: builtin_type
  nright :: "builtin_type option"
  noutput :: builtin_type

definition operation_contract :: "numeric_operation \<Rightarrow> numeric_signature option" where
  "operation_contract n =
     Option.bind (integer_layout (ninput n)) (\<lambda>_.
       if (if nop n = BitNot then nrhs n = None
           else case nrhs n of
               None \<Rightarrow> False
             | Some rhs \<Rightarrow> integer_layout rhs \<noteq> None \<and> (nop n = Shl \<or> nop n = Shr \<or> rhs = ninput n))
       then Some \<lparr>nleft = ninput n, nright = nrhs n, noutput = ninput n\<rparr>
       else None)"

record numeric_conversion =
  nsource :: builtin_type
  ntarget :: builtin_type

definition conversion_contract :: "numeric_conversion \<Rightarrow> (builtin_type \<times> builtin_type) option" where
  "conversion_contract c =
     (if can_cast_to (nsource c) (ntarget c) then Some (nsource c, ntarget c) else None)"

record integer_method_contract =
  receiver :: builtin_type
  mrhs :: builtin_type
  mmethod :: integer_method

definition method_contract_new :: "integer_method \<Rightarrow> builtin_type \<Rightarrow> integer_method_contract option" where
  "method_contract_new m rc =
     Option.bind (integer_layout rc) (\<lambda>_.
       map_option (\<lambda>rhs. \<lparr>receiver = rc, mrhs = rhs, mmethod = m\<rparr>)
         (if m = RotateLeft \<or> m = RotateRight then Some U32
          else if m = WrappingAddSigned then
            (case rc of U8 \<Rightarrow> Some I8 | U16 \<Rightarrow> Some I16 | U32 \<Rightarrow> Some I32 | U64 \<Rightarrow> Some I64 | _ \<Rightarrow> None)
          else Some rc))"

subsection \<open>Operations on values (kagari-runtime numeric.rs, numeric/compare.rs)\<close>

datatype unary_op = UNeg | UNot

datatype binary_op = BNumeric numeric_operation | BAdd | BSub | BMul | BDiv | BRem | BEq | BNotEq
  | BIdentityEq | BIdentityNotEq | BLt | BGt | BLe | BGe

fun binary_operation :: "binary_op \<Rightarrow> scalar_binary_op rt_result" where
  "binary_operation BAdd = Ok SAdd"
| "binary_operation BSub = Ok SSub"
| "binary_operation BMul = Ok SMul"
| "binary_operation BDiv = Ok SDiv"
| "binary_operation BRem = Ok SRem"
| "binary_operation BEq = Ok SEq"
| "binary_operation BNotEq = Ok SNotEq"
| "binary_operation BLt = Ok SLt"
| "binary_operation BLe = Ok SLe"
| "binary_operation BGt = Ok SGt"
| "binary_operation BGe = Ok SGe"
| "binary_operation _ = Panic ''unreachable''"

definition script_trap :: "string \<Rightarrow> runtime_error" where
  "script_trap m = runtime_error_new ScriptTrap m"

definition arithmetic_trap :: "arithmetic_error \<Rightarrow> runtime_error" where
  "arithmetic_trap e = script_trap (message e)"

fun value_unary :: "unary_op \<Rightarrow> rvalue \<Rightarrow> rvalue rt_result" where
  "value_unary UNeg (VI32 v) = map_ok (\<lambda>x. VI32 (word_of_int x)) (map_err arithmetic_trap (native_neg 32 (sint v)))"
| "value_unary UNeg (VI64 v) = map_ok (\<lambda>x. VI64 (word_of_int x)) (map_err arithmetic_trap (native_neg 64 (sint v)))"
| "value_unary UNeg (VF32 v) = Ok (VF32 (v XOR push_bit 31 1))"
| "value_unary UNeg (VF64 v) = Ok (VF64 (v XOR push_bit 63 1))"
| "value_unary UNot (VBool b) = Ok (VBool (\<not> b))"
| "value_unary _ _ = Err (script_trap ''invalid unary operand'')"

definition expected_arithmetic :: runtime_error where
  "expected_arithmetic = script_trap ''expected arithmetic operation''"

definition float_bits :: "float_unit \<Rightarrow> bool \<Rightarrow> binary_op \<Rightarrow> u64 \<Rightarrow> u64 \<Rightarrow> u64 rt_result" where
  "float_bits fu f32 op l r =
     (case op of
        BAdd \<Rightarrow> map_err script_trap (float_binary fu 0 f32 l r)
      | BSub \<Rightarrow> map_err script_trap (float_binary fu 1 f32 l r)
      | BMul \<Rightarrow> map_err script_trap (float_binary fu 2 f32 l r)
      | BDiv \<Rightarrow> map_err script_trap (float_binary fu 3 f32 l r)
      | BRem \<Rightarrow> map_err script_trap (float_binary fu 4 f32 l r)
      | _ \<Rightarrow> Err expected_arithmetic)"

definition read_integer :: "builtin_type \<Rightarrow> rvalue \<Rightarrow> int rt_result" where
  "read_integer ty v =
     (let bad = Err (script_trap ''invalid numeric operand type or range'')
      in if \<not> has_representation v (builtin_representation ty) then bad
         else and_then (case v of VI32 w \<Rightarrow> Ok (sint w) | VI64 w \<Rightarrow> Ok (sint w) | VU64 w \<Rightarrow> Ok (uint w) | _ \<Rightarrow> bad)
           (\<lambda>x. case integer_layout ty of
                None \<Rightarrow> bad
              | Some (bits, sg) \<Rightarrow> if in_bounds bits sg x then Ok x else bad))"

definition fixed_integer :: "float_unit \<Rightarrow> numeric_operation \<Rightarrow> rvalue \<Rightarrow> rvalue option \<Rightarrow> rvalue rt_result" where
  "fixed_integer fu n l r =
     (let invalid = script_trap ''invalid numeric operand''
      in and_then (ok_or invalid (operation_contract n)) (\<lambda>_.
         and_then (map_ok as_u64 (read_integer (ninput n) l)) (\<lambda>lw.
         and_then (case (nrhs n, r) of
             (Some ty, Some v) \<Rightarrow> map_ok as_u64 (read_integer ty v)
           | (None, None) \<Rightarrow> Ok 0
           | _ \<Rightarrow> Err invalid) (\<lambda>rw.
         and_then (ok_or invalid (select_integer (nop n) (ninput n) (nrhs n))) (\<lambda>selected.
         and_then (map_err script_trap (evaluate fu selected lw rw)) (\<lambda>w.
           expect ''integer result'' (decode (builtin_representation (ninput n)) w)))))))"

definition value_integer :: "nat \<Rightarrow> bool \<Rightarrow> (int \<Rightarrow> rvalue) \<Rightarrow> binary_op \<Rightarrow> int \<Rightarrow> int \<Rightarrow> rvalue rt_result" where
  "value_integer bits sg tag op l r =
     (let run = (\<lambda>o'. map_ok tag (map_err arithmetic_trap (native_binary bits sg o' l r)))
      in case op of
           BAdd \<Rightarrow> run Add | BSub \<Rightarrow> run Sub | BMul \<Rightarrow> run Mul | BDiv \<Rightarrow> run Div | BRem \<Rightarrow> run Rem
         | _ \<Rightarrow> Err expected_arithmetic)"

definition value_binary :: "float_unit \<Rightarrow> binary_op \<Rightarrow> rvalue \<Rightarrow> rvalue \<Rightarrow> rvalue rt_result" where
  "value_binary fu op l r =
     (case op of
        BNumeric n \<Rightarrow> fixed_integer fu n l (Some r)
      | _ \<Rightarrow>
        (case (l, r) of
           (VI32 a, VI32 b) \<Rightarrow> value_integer 32 True (\<lambda>x. VI32 (word_of_int x)) op (sint a) (sint b)
         | (VI64 a, VI64 b) \<Rightarrow> value_integer 64 True (\<lambda>x. VI64 (word_of_int x)) op (sint a) (sint b)
         | (VU64 a, VU64 b) \<Rightarrow> value_integer 64 False (\<lambda>x. VU64 (word_of_int x)) op (uint a) (uint b)
         | (VF32 a, VF32 b) \<Rightarrow> map_ok (\<lambda>w. VF32 (ucast w)) (float_bits fu True op (ucast a) (ucast b))
         | (VF64 a, VF64 b) \<Rightarrow> map_ok VF64 (float_bits fu False op a b)
         | _ \<Rightarrow> Err (script_trap ''arithmetic requires matching numeric operands'')))"

fun compare_condition :: "binary_op \<Rightarrow> comparison option" where
  "compare_condition BEq = Some CEq"
| "compare_condition BNotEq = Some CNotEq"
| "compare_condition BLt = Some CLt"
| "compare_condition BLe = Some CLe"
| "compare_condition BGt = Some CGt"
| "compare_condition BGe = Some CGe"
| "compare_condition _ = None"

definition value_compare :: "float_unit \<Rightarrow> binary_op \<Rightarrow> rvalue \<Rightarrow> rvalue \<Rightarrow> rvalue rt_result" where
  "value_compare fu op l r =
     (let bad = module_validation ''scalar comparison operands'';
          ordered = (\<lambda>test. case compare_condition op of
              Some c \<Rightarrow> Ok (VBool (test c))
            | None \<Rightarrow> Err (module_validation ''scalar comparison opcode''));
          equality = (op = BEq \<or> op = BNotEq)
      in case (l, r) of
           (VUnit, VUnit) \<Rightarrow> if equality then Ok (VBool (op = BEq)) else Err bad
         | (VBool a, VBool b) \<Rightarrow> if equality then Ok (VBool ((a = b) = (op = BEq))) else Err bad
         | (VChar a, VChar b) \<Rightarrow> ordered (\<lambda>c. comparison_test c (int a) (int b))
         | (VI32 a, VI32 b) \<Rightarrow> ordered (\<lambda>c. comparison_test c (sint a) (sint b))
         | (VI64 a, VI64 b) \<Rightarrow> ordered (\<lambda>c. comparison_test c (sint a) (sint b))
         | (VU64 a, VU64 b) \<Rightarrow> ordered (\<lambda>c. comparison_test c (uint a) (uint b))
         | (VF32 a, VF32 b) \<Rightarrow> ordered (\<lambda>c. cmp32 fu c a b)
         | (VF64 a, VF64 b) \<Rightarrow> ordered (\<lambda>c. cmp64 fu c a b)
         | _ \<Rightarrow> Err bad)"

definition scalar_binary :: "float_unit \<Rightarrow> binary_op \<Rightarrow> rvalue \<Rightarrow> rvalue \<Rightarrow> rvalue rt_result" where
  "scalar_binary fu op l r =
     (if op = BEq \<or> op = BNotEq \<or> op = BLt \<or> op = BLe \<or> op = BGt \<or> op = BGe
      then value_compare fu op l r else value_binary fu op l r)"

text \<open>The heap's tuple allocation is an argument: \<open>overflowing_*\<close> methods return a pair.\<close>

definition integer_method_call ::
    "(rvalue list \<Rightarrow> rvalue rt_result) \<Rightarrow> integer_method \<Rightarrow> builtin_type \<Rightarrow> rvalue list \<Rightarrow> rvalue option rt_result" where
  "integer_method_call alloc_tuple m ty args =
     (case args of
        [l, r] \<Rightarrow>
          and_then (ok_or (script_trap ''integer receiver required'') (integer_layout ty)) (\<lambda>(bits, sg).
          and_then (ok_or (script_trap ''signed-offset wrapping requires an unsigned receiver'')
                      (method_contract_new m ty)) (\<lambda>contract.
          and_then (read_integer ty l) (\<lambda>lv.
          and_then (read_integer (mrhs contract) r) (\<lambda>rv.
          and_then (map_err script_trap (arithmetic_method m lv rv bits sg)) (\<lambda>(x, overflow).
            let v = (case ty of
                I8 \<Rightarrow> VI32 (word_of_int x) | I16 \<Rightarrow> VI32 (word_of_int x) | I32 \<Rightarrow> VI32 (word_of_int x)
              | U64 \<Rightarrow> VU64 (word_of_int x) | _ \<Rightarrow> VI64 (word_of_int x))
            in if checked m \<and> overflow then Ok None
               else if overflowing m then map_ok Some (alloc_tuple [v, VBool overflow])
               else Ok (Some v))))))
      | _ \<Rightarrow> Err (script_trap ''integer method requires two arguments''))"

definition value_convert :: "float_unit \<Rightarrow> numeric_conversion \<Rightarrow> rvalue \<Rightarrow> rvalue rt_result" where
  "value_convert fu c v =
     (let bad = script_trap ''invalid numeric conversion''
      in and_then (ok_or bad (conversion_contract c)) (\<lambda>_.
         if \<not> has_representation v (builtin_representation (nsource c)) then Err bad
         else
           and_then (ok_or bad (select_conversion (nsource c) (ntarget c))) (\<lambda>selected.
           and_then (ok_or bad (encode v)) (\<lambda>w.
           and_then (map_err script_trap (evaluate fu selected w 0)) (\<lambda>out.
             ok_or bad (decode (builtin_representation (ntarget c)) out))))))"

definition checked_convert :: "float_unit \<Rightarrow> builtin_type \<Rightarrow> builtin_type \<Rightarrow> rvalue \<Rightarrow> rvalue option rt_result" where
  "checked_convert fu source target v =
     and_then (ok_or (module_validation ''checked scalar conversion'') (checked_conversion_fallible source target))
       (\<lambda>fallible.
     and_then
       (if integer_layout source \<noteq> None then map_ok (\<lambda>_. ()) (read_integer source v)
        else if \<not> has_representation v (builtin_representation source)
             then Err (module_validation ''checked scalar source'') else Ok ())
       (\<lambda>_.
     and_then
       (if fallible then
          and_then (read_integer source v) (\<lambda>input.
          and_then (ok_or (module_validation ''checked scalar target'') (integer_layout target))
            (\<lambda>(bits, sg). Ok (in_bounds bits sg input)))
        else Ok True)
       (\<lambda>fits.
          if \<not> fits then Ok None
          else if source = target then Ok (Some v)
          else map_ok Some (value_convert fu \<lparr>nsource = source, ntarget = target\<rparr> v))))"

subsection \<open>Reference definitions\<close>

definition carrier_int :: "bool \<Rightarrow> u64 \<Rightarrow> int" where
  "carrier_int sg w = (if sg then sint w else uint w)"

definition char_ok :: "rvalue \<Rightarrow> bool" where
  "char_ok v = (case v of VChar c \<Rightarrow> char_scalar c | _ \<Rightarrow> True)"

definition result_representation :: "scalar_binary_op \<Rightarrow> builtin_type \<Rightarrow> value_type" where
  "result_representation op ty = (if select_condition op = None then builtin_representation ty else RBool)"

text \<open>Floating-point operations for the examples, which use none.\<close>

definition sample_float_unit :: float_unit where
  "sample_float_unit = \<lparr>op32 = \<lambda>_ a _. a, op64 = \<lambda>_ a _. a, cmp32 = \<lambda>_ _ _. False, cmp64 = \<lambda>_ _ _. False,
     trunc32 = \<lambda>_. 0, trunc64 = \<lambda>_. 0, int_to_32 = \<lambda>_. 0, int_to_64 = \<lambda>_. 0, widen = \<lambda>_. 0, narrow = \<lambda>_. 0\<rparr>"

section \<open>Carriers\<close>

lemma map_ok_simps [simp]: "map_ok f (Ok x) = Ok (f x)" "map_ok f (Err e) = Err e" "map_ok f (Panic m) = Panic m"
  by (simp_all add: map_ok_def)

lemma map_ok_eq_Ok [simp]: "map_ok f x = Ok y \<longleftrightarrow> (\<exists>z. x = Ok z \<and> y = f z)"
  by (cases x) auto

lemma decode_domain_iff:
  "decode_integer_domain w bits sg =
     (if in_bounds bits sg (carrier_int sg w) then Ok (carrier_int sg w)
      else Err ''invalid numeric operand type or range'')"
  by (auto simp: decode_integer_domain_def carrier_int_def in_bounds_def Let_def case_prod_unfold)

lemma carrier_as_u64:
  assumes "in_bounds bits sg v" "valid_width bits" shows "carrier_int sg (as_u64 v) = v"
proof -
  note b = in_bounds_64 [OF assms(1)] valid_width_cases [OF assms(2)]
  have pw: "(2 :: int) ^ (bits - 1) \<le> 2 ^ 63" using b by (intro power_increasing) auto
  show ?thesis
  proof (cases sg)
    case True
    then have "- (2 ^ 63) \<le> v" "v < 2 ^ 63" using assms(1) pw by (auto simp: in_bounds_def bounds_def)
    then have "signed_take_bit 63 v = v" by (simp add: signed_take_bit_int_eq_self_iff)
    with True show ?thesis by (simp add: carrier_int_def as_u64_def sint_sbintrunc')
  next
    case False
    then have "0 \<le> v" using assms(1) by (auto simp: in_bounds_def bounds_def)
    with b have "take_bit 64 v = v" by (simp add: take_bit_int_eq_self_iff)
    with False show ?thesis by (simp add: carrier_int_def as_u64_def uint_word_of_int_eq)
  qed
qed

lemma as_u64_carrier: "as_u64 (carrier_int sg w) = w"
  by (simp add: as_u64_def carrier_int_def)

lemma decode_as_u64:
  "in_bounds bits sg v \<Longrightarrow> valid_width bits \<Longrightarrow> decode_integer_domain (as_u64 v) bits sg = Ok v"
  by (simp add: decode_domain_iff carrier_as_u64)

lemma decode_domain_Ok:
  "decode_integer_domain w bits sg = Ok v \<Longrightarrow> in_bounds bits sg v \<and> as_u64 v = w"
  by (auto simp: decode_domain_iff as_u64_carrier split: if_splits)

section \<open>Prepared integer operations\<close>

lemma layout_of_valid: "integer_layout_of t = (bits, sg) \<Longrightarrow> valid_width bits"
  by (cases t) (auto simp: valid_width_def)

lemma select_integer_layout:
  "select_integer op input rhs = Some s \<Longrightarrow> \<exists>bits sg. integer_layout input = Some (bits, sg)"
  by (auto simp: integer_layout_def bind_eq_Some_conv)

lemma shift_kind_parts: "shift_kind_new t op = Some k \<Longrightarrow> shift_parts k = (t, op)"
  by (induction t op rule: shift_kind_new.induct) auto

lemma shift_kind_total: "op = Shl \<or> op = Shr \<Longrightarrow> \<exists>k. shift_kind_new t op = Some k"
  by (cases t; auto)

text \<open>Every admitted operation has a selection, and the selection computes the operation.\<close>

lemma select_integer_contract:
  assumes "operation_contract n = Some sig"
  shows "\<exists>s bits sg. select_integer (nop n) (ninput n) (nrhs n) = Some s \<and> integer_layout (ninput n) = Some (bits, sg)"
proof -
  from assms obtain bits sg where l: "integer_layout (ninput n) = Some (bits, sg)"
    by (auto simp: operation_contract_def bind_eq_Some_conv)
  then obtain t where t: "from_builtin (ninput n) = Some t" by (auto simp: integer_layout_def)
  show ?thesis
  proof (cases "nop n = Shl \<or> nop n = Shr")
    case True
    with assms l obtain ty c where "nrhs n = Some ty" "from_builtin ty = Some c"
      by (auto simp: operation_contract_def integer_layout_def split: option.splits if_splits)
    with True t l shift_kind_total [OF True, of t] show ?thesis by auto
  next
    case False
    with t l show ?thesis by auto
  qed
qed

lemma evaluate_select_integer:
  assumes s: "select_integer op input rhs = Some s" and l: "integer_layout input = Some (bits, sg)"
    and lv: "in_bounds bits sg lv"
    and rv: "op \<noteq> BitNot \<Longrightarrow> rhs = Some rty \<and> integer_layout rty = Some (rbits, rsg) \<and> in_bounds rbits rsg rv"
    and same: "op \<noteq> BitNot \<and> op \<noteq> Shl \<and> op \<noteq> Shr \<Longrightarrow> rty = input"
    and nr: "op = BitNot \<Longrightarrow> rv = 0"
  shows "evaluate fu s (as_u64 lv) (as_u64 rv) = map_ok as_u64 (integer_operation op lv rv bits sg)"
proof -
  from l obtain t where t: "from_builtin input = Some t" "integer_layout_of t = (bits, sg)"
    by (auto simp: integer_layout_def)
  have v: "valid_width bits" using t layout_of_valid by blast
  consider (shift) "op = Shl \<or> op = Shr" | (bnot) "op = BitNot" | (other) "op \<noteq> Shl" "op \<noteq> Shr" "op \<noteq> BitNot" by blast
  then show ?thesis
  proof cases
    case shift
    with rv obtain c where c: "rhs = Some rty" "from_builtin rty = Some c" "integer_layout_of c = (rbits, rsg)"
      "in_bounds rbits rsg rv" by (auto simp: integer_layout_def)
    with s shift t obtain k where k: "s = OShift k c" "shift_kind_new t op = Some k"
      by (auto simp: bind_eq_Some_conv)
    show ?thesis using shift_kind_parts [OF k(2)] t c lv v layout_of_valid [OF c(3)]
      by (simp add: k(1) shared_shift_def decode_integer_def decode_as_u64 del: integer_operation.simps)
  next
    case bnot
    with s t have "evaluate fu s (as_u64 lv) (as_u64 rv) = integer_value 8 bits sg (as_u64 lv) (as_u64 rv)"
      by (cases t) auto
    with bnot lv v nr show ?thesis
      by (simp add: integer_value_def decode_as_u64 Let_def del: integer_operation.simps)
  next
    case other
    with s t have "s = OInteger t op" by auto
    moreover have "in_bounds bits sg rv" using rv same other l by auto
    ultimately show ?thesis using t lv v
      by (simp add: shared_integer_def decode_as_u64 del: integer_operation.simps)
  qed
qed

section \<open>Tagged values\<close>

lemma scast_down: "ucast (scast (v :: 32 word) :: 64 word) = v"
proof (rule bit_word_eqI)
  fix n assume "n < LENGTH(32)"
  then have "min n 31 = n" "n < 64" by auto
  with \<open>n < LENGTH(32)\<close> show "bit (ucast (scast v :: 64 word) :: 32 word) n \<longleftrightarrow> bit v n"
    by (simp add: bit_ucast_iff bit_signed_iff)
qed

lemma representation_simps:
  "rep \<noteq> RGeneric \<Longrightarrow> has_representation VUnit rep \<longleftrightarrow> rep = RUnit"
  "rep \<noteq> RGeneric \<Longrightarrow> has_representation (VBool b) rep \<longleftrightarrow> rep = RBool"
  "rep \<noteq> RGeneric \<Longrightarrow> has_representation (VChar c) rep \<longleftrightarrow> rep = RChar"
  "rep \<noteq> RGeneric \<Longrightarrow> has_representation (VI32 w) rep \<longleftrightarrow> rep = RI32"
  "rep \<noteq> RGeneric \<Longrightarrow> has_representation (VI64 w') rep \<longleftrightarrow> rep = RI64"
  "rep \<noteq> RGeneric \<Longrightarrow> has_representation (VU64 w') rep \<longleftrightarrow> rep = RU64"
  "rep \<noteq> RGeneric \<Longrightarrow> has_representation (VF32 w) rep \<longleftrightarrow> rep = RF32"
  "rep \<noteq> RGeneric \<Longrightarrow> has_representation (VF64 w') rep \<longleftrightarrow> rep = RF64"
  by (simp_all add: has_representation_def)

lemma builtin_not_generic [simp]: "builtin_representation ty \<noteq> RGeneric"
  by (cases ty) auto

lemma encode_cases:
  assumes "encode v = Some w"
  obtains "v = VUnit" "w = 0" | b where "v = VBool b" "w = from_bool b" | c where "v = VChar c" "w = of_nat c"
  | x where "v = VI32 x" "w = scast x" | "v = VI64 w" | "v = VU64 w" | x where "v = VF32 x" "w = ucast x" | "v = VF64 w"
  using assms by (cases v) (auto simp only: encode.simps option.inject option.distinct)

lemma decode_encode:
  assumes "encode v = Some w" "char_ok v" "has_representation v rep" "rep \<noteq> RGeneric"
  shows "decode rep w = Some v"
  using assms(1)
proof (cases rule: encode_cases)
  case (3 c)
  then have "char_scalar c" "rep = RChar" using assms by (simp_all add: char_ok_def representation_simps)
  moreover from this have "unat (of_nat c :: u64) = c" by (auto simp: char_scalar_def unat_of_nat)
  ultimately show ?thesis using 3 by (simp add: decode_char_def)
qed (use assms in \<open>simp_all add: scast_down from_bool_def ucast_down_ucast_id is_down representation_simps\<close>)

lemma sint_as_u64: "- (2 ^ 63) \<le> x \<Longrightarrow> x < 2 ^ 63 \<Longrightarrow> sint (as_u64 x) = x"
  using carrier_as_u64 [of 64 True x] by (simp add: in_bounds_def bounds_def valid_width_def carrier_int_def)

lemma uint_as_u64: "0 \<le> x \<Longrightarrow> x < 2 ^ 64 \<Longrightarrow> uint (as_u64 x) = x"
  using carrier_as_u64 [of 64 False x] by (simp add: in_bounds_def bounds_def valid_width_def carrier_int_def)

lemma i32_as_u64:
  assumes "- (2 ^ 31) \<le> x" "x < 2 ^ 31"
  shows "sint (ucast (as_u64 x) :: 32 word) = x" "scast (ucast (as_u64 x) :: 32 word) = as_u64 x"
proof -
  have "signed_take_bit 31 x = x" using assms by (simp add: signed_take_bit_int_eq_self_iff)
  moreover have "ucast (as_u64 x) = (word_of_int x :: 32 word)"
    by (simp add: as_u64_def ucast_down_wi is_down)
  ultimately show a: "sint (ucast (as_u64 x) :: 32 word) = x" by (simp add: sint_sbintrunc')
  show "scast (ucast (as_u64 x) :: 32 word) = as_u64 x"
    by (simp only: scast_eq a) (rule as_u64_def [symmetric])
qed

lemma layout_cases:
  assumes "integer_layout ty = Some (bits, sg)"
  obtains "builtin_representation ty = RI32" "sg" "bits \<le> 32" | "builtin_representation ty = RI64" "sg" "bits = 64"
  | "builtin_representation ty = RI64" "\<not> sg" "bits \<le> 32" | "builtin_representation ty = RU64" "\<not> sg" "bits = 64"
  using assms by (cases ty) (auto simp: integer_layout_def)

lemma read_integer_decode:
  assumes l: "integer_layout ty = Some (bits, sg)" and x: "in_bounds bits sg x"
  shows "\<exists>v. decode (builtin_representation ty) (as_u64 x) = Some v \<and> read_integer ty v = Ok x \<and> encode v = Some (as_u64 x)"
  using l
proof (cases rule: layout_cases)
  case 1
  have "(2 :: int) ^ (bits - 1) \<le> 2 ^ 31" using 1 by (intro power_increasing) auto
  with x 1 have "- (2 ^ 31) \<le> x" "x < 2 ^ 31" by (auto simp: in_bounds_def bounds_def)
  with 1 l x show ?thesis by (simp add: read_integer_def representation_simps i32_as_u64)
next
  case 2
  with x have "- (2 ^ 63) \<le> x" "x < 2 ^ 63" by (auto simp: in_bounds_def bounds_def)
  with 2 l x show ?thesis by (simp add: read_integer_def representation_simps sint_as_u64)
next
  case 3
  have "(2 :: int) ^ bits \<le> 2 ^ 32" using 3 by (intro power_increasing) auto
  with x 3 have "- (2 ^ 63) \<le> x" "x < 2 ^ 63" by (auto simp: in_bounds_def bounds_def)
  with 3 l x show ?thesis by (simp add: read_integer_def representation_simps sint_as_u64)
next
  case 4
  with x have "0 \<le> x" "x < 2 ^ 64" by (auto simp: in_bounds_def bounds_def)
  with 4 l x show ?thesis by (simp add: read_integer_def representation_simps uint_as_u64)
qed

lemma read_integer_encode:
  assumes "read_integer ty v = Ok x"
  shows "\<exists>bits sg. integer_layout ty = Some (bits, sg) \<and> in_bounds bits sg x \<and> encode v = Some (as_u64 x) \<and>
    has_representation v (builtin_representation ty)"
proof -
  let ?bad = "Err (script_trap ''invalid numeric operand type or range'') :: int rt_result"
  let ?i = "case v of VI32 w \<Rightarrow> Ok (sint w) | VI64 w \<Rightarrow> Ok (sint w) | VU64 w \<Rightarrow> Ok (uint w) | _ \<Rightarrow> ?bad"
  from assms have r: "has_representation v (builtin_representation ty)"
    and e: "and_then ?i (\<lambda>x. case integer_layout ty of None \<Rightarrow> ?bad
       | Some (bits, sg) \<Rightarrow> if in_bounds bits sg x then Ok x else ?bad) = Ok x"
    by (simp_all add: read_integer_def Let_def split: if_splits)
  from e obtain bits sg where i: "?i = Ok x" and l: "integer_layout ty = Some (bits, sg)" "in_bounds bits sg x"
    by (auto split: option.splits if_splits)
  have "encode v = Some (as_u64 x)" using i by (cases v) (auto simp: as_u64_def scast_eq)
  with l r show ?thesis by blast
qed

text \<open>An operation on tagged values of an admitted contract never panics and computes the reference result.\<close>

lemma fixed_integer_reference:
  assumes c: "operation_contract n = Some sig" and l: "integer_layout (ninput n) = Some (bits, sg)"
    and lv: "read_integer (ninput n) lval = Ok lv"
    and rv: "case nrhs n of None \<Rightarrow> rval = None \<and> rv = 0 | Some ty \<Rightarrow> \<exists>x. rval = Some x \<and> read_integer ty x = Ok rv"
  shows "case reference_operation (nop n) lv rv bits sg of
      Ok x \<Rightarrow> \<exists>out. fixed_integer fu n lval rval = Ok out \<and> read_integer (ninput n) out = Ok x
    | Err m \<Rightarrow> fixed_integer fu n lval rval = Err (script_trap m)
    | Panic m \<Rightarrow> False"
proof -
  have w: "valid_width bits" using l by (rule integer_layout_valid)
  have lb: "in_bounds bits sg lv" using read_integer_encode [OF lv] l by auto
  obtain s where s: "select_integer (nop n) (ninput n) (nrhs n) = Some s"
    using select_integer_contract [OF c] by blast
  have shape: "nop n = BitNot \<longleftrightarrow> nrhs n = None"
    "\<And>ty. nrhs n = Some ty \<Longrightarrow> nop n \<noteq> Shl \<and> nop n \<noteq> Shr \<longrightarrow> ty = ninput n"
    using c by (auto simp: operation_contract_def bind_eq_Some_conv split: if_splits option.splits)
  have rb: "\<exists>rty rbits rsg. (nop n \<noteq> BitNot \<longrightarrow>
      nrhs n = Some rty \<and> integer_layout rty = Some (rbits, rsg) \<and> in_bounds rbits rsg rv)"
    using rv shape read_integer_encode by (cases "nrhs n") fastforce+
  then obtain rty rbits rsg where r: "nop n \<noteq> BitNot \<Longrightarrow>
      nrhs n = Some rty \<and> integer_layout rty = Some (rbits, rsg) \<and> in_bounds rbits rsg rv" by blast
  have ev: "evaluate fu s (as_u64 lv) (as_u64 rv) = map_ok as_u64 (integer_operation (nop n) lv rv bits sg)"
    by (rule evaluate_select_integer [OF s l lb r]) (use shape rv r in \<open>auto split: option.splits\<close>)
  have ib: "nop n \<noteq> Shl \<and> nop n \<noteq> Shr \<longrightarrow> in_bounds bits sg rv"
    using r shape l rv lb w by (cases "nop n = BitNot") (auto simp: in_bounds_def bounds_def)
  note op = integer_operation_reference [OF w lb ib] and res = reference_in_bounds [OF w lb ib]
  have rhs: "(case (nrhs n, rval) of (Some ty, Some v) \<Rightarrow> map_ok as_u64 (read_integer ty v)
       | (None, None) \<Rightarrow> Ok 0 | _ \<Rightarrow> Err (script_trap ''invalid numeric operand'')) = Ok (as_u64 rv)"
    using rv by (auto simp: as_u64_def split: option.splits)
  have run: "fixed_integer fu n lval rval =
    and_then (map_err script_trap (evaluate fu s (as_u64 lv) (as_u64 rv)))
      (\<lambda>w. expect ''integer result'' (decode (builtin_representation (ninput n)) w))"
    unfolding fixed_integer_def Let_def rhs by (simp add: c lv s del: select_integer.simps)
  show ?thesis
  proof (cases "reference_operation (nop n) lv rv bits sg")
    case (Ok x)
    from read_integer_decode [OF l res [OF Ok]] Ok show ?thesis by (auto simp: run ev op simp del: integer_operation.simps)
  next
    case (Err m)
    then show ?thesis by (simp add: run ev op del: integer_operation.simps)
  next
    case (Panic m)
    then show ?thesis by (cases "nop n") (auto simp: in_range_def split: if_splits)
  qed
qed

section \<open>Prepared and tagged execution agree\<close>

lemma native_fixed:
  assumes "valid_width bits" "in_bounds bits sg l" "in_bounds bits sg r"
  shows "integer_operation CheckedAdd l r bits sg = map_err message (native_binary bits sg Add l r)"
    "integer_operation CheckedSub l r bits sg = map_err message (native_binary bits sg Sub l r)"
    "integer_operation CheckedMul l r bits sg = map_err message (native_binary bits sg Mul l r)"
    "integer_operation CheckedDiv l r bits sg = map_err message (native_binary bits sg Div l r)"
    "integer_operation CheckedRem l r bits sg = map_err message (native_binary bits sg Rem l r)"
  using assms by (simp_all add: fixed_binary_native del: native_binary.simps)

lemma map_err_map_err: "map_err f (map_err g x) = map_err (f \<circ> g) x"
  by (cases x) auto

lemma map_err_map_ok: "map_err f (map_ok g x) = map_ok g (map_err f x)"
  by (cases x) auto

lemma and_then_map_ok: "and_then (map_ok f x) g = and_then x (\<lambda>v. g (f v))"
  by (cases x) auto

lemma trap_message: "script_trap \<circ> message = arithmetic_trap"
  by (auto simp: arithmetic_trap_def)

lemma expect_tag: "(\<And>x. dec (as_u64 x) = Some (tag x)) \<Longrightarrow>
    and_then y (\<lambda>v. expect m (dec (as_u64 v))) = map_ok tag y"
  by (cases y) (auto simp: expect_def)

lemma sint_in_bounds [simp]: "in_bounds 64 True (sint (a :: u64))" "in_bounds 32 True (sint (b :: 32 word))"
  "in_bounds 64 False (uint (a :: u64))"
  using sint_ge [of a] sint_lt [of a] sint_ge [of b] sint_lt [of b] uint_lt2p [of a]
  by (simp_all add: in_bounds_def bounds_def)

lemma width_simps [simp]: "valid_width 64" "valid_width 32" by (simp_all add: valid_width_def)

lemma carrier_words:
  "decode_integer_domain (scast (a :: 32 word)) 32 True = Ok (sint a)"
  "decode_integer_domain (c :: u64) 64 True = Ok (sint c)"
  "decode_integer_domain c 64 False = Ok (uint c)"
proof -
  have "scast a = as_u64 (sint a)" unfolding as_u64_def by (rule scast_eq)
  then show "decode_integer_domain (scast a) 32 True = Ok (sint a)"
    using decode_as_u64 [of 32 True "sint a"] by simp
  show "decode_integer_domain (c :: u64) 64 True = Ok (sint c)" "decode_integer_domain c 64 False = Ok (uint c)"
    by (simp_all add: decode_domain_iff carrier_int_def)
qed

lemma decode_tags:
  "decode RI32 (as_u64 x) = Some (VI32 (word_of_int x))" "decode RI64 (as_u64 x) = Some (VI64 (word_of_int x))"
  "decode RU64 (as_u64 x) = Some (VU64 (word_of_int x))"
  by (simp_all add: as_u64_def ucast_down_wi is_down)

lemma from_bool_decode: "decode RBool (from_bool b) = Some (VBool b)"
  by (simp add: from_bool_def)

lemma float_code_simps: "float_binary fu 0 f32 l r = Ok (if f32 then ucast (op32 fu FAdd (ucast l) (ucast r)) else op64 fu FAdd l r)"
  "float_binary fu 1 f32 l r = Ok (if f32 then ucast (op32 fu FSub (ucast l) (ucast r)) else op64 fu FSub l r)"
  "float_binary fu 2 f32 l r = Ok (if f32 then ucast (op32 fu FMul (ucast l) (ucast r)) else op64 fu FMul l r)"
  "float_binary fu 3 f32 l r = Ok (if f32 then ucast (op32 fu FDiv (ucast l) (ucast r)) else op64 fu FDiv l r)"
  "float_binary fu 4 f32 l r = Ok (if f32 then ucast (op32 fu FRem (ucast l) (ucast r)) else op64 fu FRem l r)"
  by (simp_all add: float_binary_def)

lemma ucast_32_64: "ucast (ucast (v :: 32 word) :: 64 word) = v"
  by (simp add: ucast_down_ucast_id is_down)

lemma arith_run:
  assumes "valid_width bits" "in_bounds bits sg l" "in_bounds bits sg r"
    "\<And>x. decode rep (as_u64 x) = Some (tag x)" "binary_operation op = Ok sop" "select_condition sop = None"
    "select_integer iop input (Some input) = Some (OInteger ity iop)" "integer_layout_of ity = (bits, sg)"
    "decode_integer_domain lw bits sg = Ok l" "decode_integer_domain rw bits sg = Ok r"
    "(sop, iop) \<in> {(SAdd, CheckedAdd), (SSub, CheckedSub), (SMul, CheckedMul), (SDiv, CheckedDiv), (SRem, CheckedRem)}"
  shows "value_integer bits sg tag op l r =
    and_then (map_err script_trap (evaluate fu (OInteger ity iop) lw rw)) (\<lambda>w. expect ''scalar result'' (decode rep w))"
proof -
  have "evaluate fu (OInteger ity iop) lw rw = map_ok as_u64 (integer_operation iop l r bits sg)"
    using assms by (simp add: shared_integer_def del: integer_operation.simps)
  then show ?thesis using assms(4,5,11)
    by (cases op) (auto simp: value_integer_def native_fixed [OF assms(1-3)] map_err_map_ok map_err_map_err
        and_then_map_ok trap_message map_ok_def [symmetric] simp del: integer_operation.simps native_binary.simps)
qed

lemma value_forms:
  assumes "encode v = Some w" "has_representation v (builtin_representation ty)" "char_ok v"
  shows "case ty of
      I32 \<Rightarrow> \<exists>a. v = VI32 a \<and> w = scast a | I64 \<Rightarrow> v = VI64 w | U64 \<Rightarrow> v = VU64 w
    | F32 \<Rightarrow> \<exists>a. v = VF32 a \<and> w = ucast a | F64 \<Rightarrow> v = VF64 w | Unit \<Rightarrow> v = VUnit \<and> w = 0
    | Bool \<Rightarrow> \<exists>b. v = VBool b \<and> w = from_bool b | Char \<Rightarrow> \<exists>c. v = VChar c \<and> w = of_nat c \<and> char_scalar c
    | _ \<Rightarrow> True"
  using assms(1)
  by (cases rule: encode_cases; use assms(2,3) in \<open>cases ty; simp add: representation_simps char_ok_def\<close>)

text \<open>Tagged execution of a selected operation is the execution of the selection on the carriers.\<close>

lemma scalar_arith_evaluate:
  assumes op: "binary_operation op = Ok sop" and sel: "select_binary sop ty = Some s" and none: "select_condition sop = None"
    and l: "encode l = Some lw" "has_representation l (builtin_representation ty)" "char_ok l"
    and r: "encode r = Some rw" "has_representation r (builtin_representation ty)" "char_ok r"
  shows "value_binary fu op l r =
    and_then (map_err script_trap (evaluate fu s lw rw))
      (\<lambda>w. expect ''scalar result'' (decode (builtin_representation ty) w))"
proof -
  note fl = value_forms [OF l] and fr = value_forms [OF r]
  obtain iop where iop: "(sop, iop) \<in> {(SAdd, CheckedAdd), (SSub, CheckedSub), (SMul, CheckedMul), (SDiv, CheckedDiv), (SRem, CheckedRem)}"
    using none by (cases sop) auto
  consider "ty = I32" | "ty = I64" | "ty = U64" | "ty = F32" | "ty = F64"
    using sel none by (cases ty) (auto simp: select_binary_def)
  then show ?thesis
  proof cases
    case 1
    then obtain a b where ab: "l = VI32 a" "lw = scast a" "r = VI32 b" "rw = scast b" using fl fr by auto
    have s: "s = OInteger Int32 iop" using sel none iop 1 by (auto simp: select_binary_def)
    have v: "value_binary fu op l r = value_integer 32 True (\<lambda>x. VI32 (word_of_int x)) op (sint a) (sint b)"
      using op none by (cases op) (auto simp: value_binary_def ab)
    have "value_integer 32 True (\<lambda>x. VI32 (word_of_int x)) op (sint a) (sint b) =
      and_then (map_err script_trap (evaluate fu (OInteger Int32 iop) (scast a) (scast b))) (\<lambda>w. expect ''scalar result'' (decode RI32 w))"
      by (rule arith_run [where sop = sop and input = I32])
        (use op none iop in \<open>auto simp: carrier_words decode_tags simp del: decode.simps\<close>)
    with v show ?thesis using 1 by (simp only: s ab builtin_representation.simps)
  next
    case 2
    then have ab: "l = VI64 lw" "r = VI64 rw" using fl fr by auto
    have s: "s = OInteger Int64 iop" using sel none iop 2 by (auto simp: select_binary_def)
    have v: "value_binary fu op l r = value_integer 64 True (\<lambda>x. VI64 (word_of_int x)) op (sint lw) (sint rw)"
      using op none by (cases op) (auto simp: value_binary_def ab)
    have "value_integer 64 True (\<lambda>x. VI64 (word_of_int x)) op (sint lw) (sint rw) =
      and_then (map_err script_trap (evaluate fu (OInteger Int64 iop) lw rw)) (\<lambda>w. expect ''scalar result'' (decode RI64 w))"
      by (rule arith_run [where sop = sop and input = I64])
        (use op none iop in \<open>auto simp: carrier_words decode_tags simp del: decode.simps\<close>)
    with v show ?thesis using 2 by (simp only: s ab builtin_representation.simps)
  next
    case 3
    then have ab: "l = VU64 lw" "r = VU64 rw" using fl fr by auto
    have s: "s = OInteger UInt64 iop" using sel none iop 3 by (auto simp: select_binary_def)
    have v: "value_binary fu op l r = value_integer 64 False (\<lambda>x. VU64 (word_of_int x)) op (uint lw) (uint rw)"
      using op none by (cases op) (auto simp: value_binary_def ab)
    have "value_integer 64 False (\<lambda>x. VU64 (word_of_int x)) op (uint lw) (uint rw) =
      and_then (map_err script_trap (evaluate fu (OInteger UInt64 iop) lw rw)) (\<lambda>w. expect ''scalar result'' (decode RU64 w))"
      by (rule arith_run [where sop = sop and input = U64])
        (use op none iop in \<open>auto simp: carrier_words decode_tags simp del: decode.simps\<close>)
    with v show ?thesis using 3 by (simp only: s ab builtin_representation.simps)
  next
    case 4
    then obtain a b where ab: "l = VF32 a" "lw = ucast a" "r = VF32 b" "rw = ucast b" using fl fr by auto
    show ?thesis using 4 op none sel
      by (cases op) (auto simp: value_binary_def ab select_binary_def float_bits_def float_code_simps [unfolded One_nat_def] ucast_32_64
          simp del: float_code.simps)
  next
    case 5
    then have ab: "l = VF64 lw" "r = VF64 rw" using fl fr by auto
    show ?thesis using 5 op none sel
      by (cases op) (auto simp: value_binary_def ab select_binary_def float_bits_def float_code_simps [unfolded One_nat_def]
          simp del: float_code.simps)
  qed
qed

lemma scalar_compare_evaluate:
  assumes op: "binary_operation op = Ok sop" and sel: "select_binary sop ty = Some s" and some: "select_condition sop = Some c"
    and l: "encode l = Some lw" "has_representation l (builtin_representation ty)" "char_ok l"
    and r: "encode r = Some rw" "has_representation r (builtin_representation ty)" "char_ok r"
  shows "value_compare fu op l r =
    and_then (map_err script_trap (evaluate fu s lw rw)) (\<lambda>w. expect ''scalar result'' (decode RBool w))"
proof -
  note fl = value_forms [OF l] and fr = value_forms [OF r]
  have cc: "compare_condition op = Some c" using op some by (cases op) auto
  have eq: "c = CEq \<longleftrightarrow> op = BEq" "c = CNotEq \<longleftrightarrow> op = BNotEq" using cc by (cases op; auto)+
  have small: "unat (of_nat n :: u64) = n \<and> uint (of_nat n :: u64) = int n" if "char_scalar n" for n
    using that by (auto simp: char_scalar_def unat_of_nat uint_nat)
  have ch: "decode_char (of_nat n) \<noteq> None" if "char_scalar n" for n
    using that small [OF that] by (simp add: decode_char_def)
  consider "ty = I32" | "ty = I64" | "ty = U64" | "ty = F32" | "ty = F64" | "ty = Char"
    | "ty = Bool" "c = CEq \<or> c = CNotEq" | "ty = Unit" "c = CEq \<or> c = CNotEq"
    using sel some by (cases ty) (auto simp: select_binary_def split: if_splits)
  then show ?thesis
  proof cases
    case 1
    with fl fr sel some show ?thesis
      by (auto simp: value_compare_def cc select_binary_def i32_compare_def integer_compare_def carrier_words
          from_bool_decode simp del: decode.simps)
  next
    case 2
    then have "l = VI64 lw" "r = VI64 rw" using fl fr by auto
    with 2 sel some show ?thesis
      by (auto simp: value_compare_def cc select_binary_def i64_compare_def integer_compare_def carrier_words
          from_bool_decode simp del: decode.simps)
  next
    case 3
    then have "l = VU64 lw" "r = VU64 rw" using fl fr by auto
    with 3 sel some show ?thesis
      by (auto simp: value_compare_def cc select_binary_def u64_compare_def integer_compare_def carrier_words
          from_bool_decode simp del: decode.simps)
  next
    case 4
    with fl fr sel some show ?thesis
      by (auto simp: value_compare_def cc select_binary_def f32_compare_def ucast_32_64 from_bool_decode simp del: decode.simps)
  next
    case 5
    then have "l = VF64 lw" "r = VF64 rw" using fl fr by auto
    with 5 sel some show ?thesis
      by (auto simp: value_compare_def cc select_binary_def f64_compare_def from_bool_decode simp del: decode.simps)
  next
    case 6
    with fl fr sel some ch small show ?thesis
      by (auto simp: value_compare_def cc select_binary_def char_compare_def from_bool_decode simp del: decode.simps)
  next
    case 7
    with fl fr sel some eq show ?thesis
      by (auto simp: value_compare_def select_binary_def scalar_compare_def from_bool_def)
  next
    case 8
    with fl fr sel some eq show ?thesis
      by (auto simp: value_compare_def select_binary_def scalar_compare_def from_bool_def)
  qed
qed

lemma scalar_binary_evaluate:
  assumes op: "binary_operation op = Ok sop" and sel: "select_binary sop ty = Some s"
    and l: "encode l = Some lw" "has_representation l (builtin_representation ty)" "char_ok l"
    and r: "encode r = Some rw" "has_representation r (builtin_representation ty)" "char_ok r"
  shows "scalar_binary fu op l r =
    and_then (map_err script_trap (evaluate fu s lw rw))
      (\<lambda>w. expect ''scalar result'' (decode (result_representation sop ty) w))"
proof (cases "select_condition sop")
  case None
  then have "scalar_binary fu op l r = value_binary fu op l r" using op by (cases op) (auto simp: scalar_binary_def)
  with scalar_arith_evaluate [OF op sel None l r] None show ?thesis by (simp add: result_representation_def)
next
  case (Some c)
  then have "scalar_binary fu op l r = value_compare fu op l r" using op by (cases op) (auto simp: scalar_binary_def)
  with scalar_compare_evaluate [OF op sel Some l r] Some show ?thesis by (simp add: result_representation_def)
qed

section \<open>Conversions of values\<close>

lemma payload_convert_integer:
  assumes s: "integer_layout source = Some (a, sa)" and t: "integer_layout target = Some (b, sb)"
    and x: "in_bounds a sa x" and ne: "source \<noteq> target"
  shows "payload_convert fu (as_u64 x) source target = Ok (as_u64 (wrap x b sb))"
proof -
  have c: "carrier_int sa (as_u64 x) = x" by (rule carrier_as_u64 [OF x integer_layout_valid [OF s]])
  have nt: "number_type_of target = Some (TInteger b sb)" using t by (cases target) (auto simp: number_type_of_def integer_layout_def)
  have "(case source of F32 \<Rightarrow> Ok (NF32 (ucast (as_u64 x))) | F64 \<Rightarrow> Ok (NF64 (as_u64 x))
      | _ \<Rightarrow> (let input = (case integer_layout source of Some (_, True) \<Rightarrow> sint (as_u64 x) | _ \<Rightarrow> uint (as_u64 x))
         in case integer_bounds source of
            Some (mn, mx) \<Rightarrow> if input < mn \<or> input > mx then Err ''invalid numeric operand type or range'' else Ok (NInteger input)
          | None \<Rightarrow> Ok (NInteger input))) = (Ok (NInteger x) :: number scalar_result)"
    using s x c by (cases source) (auto simp: integer_layout_def integer_bounds_def carrier_int_def in_bounds_def case_prod_unfold)
  then show ?thesis using ne by (simp add: payload_convert_def nt Let_def case_prod_unfold)
qed

lemma value_convert_integer:
  assumes s: "integer_layout source = Some (a, sa)" and t: "integer_layout target = Some (b, sb)"
    and v: "read_integer source v = Ok x" and ne: "source \<noteq> target"
  shows "\<exists>out. value_convert fu \<lparr>nsource = source, ntarget = target\<rparr> v = Ok out \<and> read_integer target out = Ok (wrap x b sb)"
proof -
  from read_integer_encode [OF v] s have r: "in_bounds a sa x" "encode v = Some (as_u64 x)"
    "has_representation v (builtin_representation source)" by auto
  have cc: "can_cast_to source target"
    using s t by (cases source; cases target) (auto simp: can_cast_to_def number_type_of_def integer_layout_def)
  from s t obtain si ti where f: "from_builtin source = Some si" "from_builtin target = Some ti"
    by (auto simp: integer_layout_def)
  then have sel: "select_conversion source target = Some (OIntegerConvert si ti)" by (simp add: select_conversion_def)
  have b: "builtin_of si = source" "builtin_of ti = target" using f builtin_of_from_builtin by auto
  have w: "in_bounds b sb (wrap x b sb)" using valid_width_cases [OF integer_layout_valid [OF t]] by (simp add: wrap_in_bounds)
  from read_integer_decode [OF t w] obtain out where
    out: "decode (builtin_representation target) (as_u64 (wrap x b sb)) = Some out" "read_integer target out = Ok (wrap x b sb)"
    by blast
  have "value_convert fu \<lparr>nsource = source, ntarget = target\<rparr> v = Ok out"
    using cc r sel out(1) by (simp add: value_convert_def conversion_contract_def Let_def b
        payload_convert_integer [OF s t r(1) ne])
  with out(2) show ?thesis by blast
qed

lemma checked_convert_integer:
  assumes s: "integer_layout source = Some (a, sa)" and t: "integer_layout target = Some (b, sb)"
    and v: "read_integer source v = Ok x"
  shows "if in_bounds b sb x
    then \<exists>out. checked_convert fu source target v = Ok (Some out) \<and> read_integer target out = Ok x
    else checked_convert fu source target v = Ok None"
proof -
  have x: "in_bounds a sa x" using read_integer_encode [OF v] s by auto
  note f = fallible_iff [OF s t]
  show ?thesis
  proof (cases "in_bounds b sb x")
    case False
    then have "checked_conversion_fallible source target = Some True" using f x by auto
    with False show ?thesis using s t v by (simp add: checked_convert_def)
  next
    case True
    have g: "checked_convert fu source target v =
      (if source = target then Ok (Some v) else map_ok Some (value_convert fu \<lparr>nsource = source, ntarget = target\<rparr> v))"
      using s t v f True by (cases "\<forall>v. in_bounds a sa v \<longrightarrow> in_bounds b sb v") (simp_all add: checked_convert_def)
    show ?thesis
    proof (cases "source = target")
      case eq: True
      with g v True show ?thesis by simp
    next
      case ne: False
      have "wrap x b sb = x" using True valid_width_cases [OF integer_layout_valid [OF t]] by (simp add: wrap_id)
      with value_convert_integer [OF s t v ne, of fu] g ne True show ?thesis by auto
    qed
  qed
qed

section \<open>Properties\<close>

text \<open>
  (C30) Prepared execution refines tagged execution: when an operation is selected for a type, running
  the selection on the 64-bit carriers of two values of that type and decoding the result gives
  exactly what the operation on the tagged values gives: the same value or the same trap.
\<close>

theorem prepared_execution_refines_values:
  assumes "binary_operation op = Ok sop" "select_binary sop ty = Some s"
    "encode l = Some lw" "has_representation l (builtin_representation ty)" "char_ok l"
    "encode r = Some rw" "has_representation r (builtin_representation ty)" "char_ok r"
  shows "scalar_binary fu op l r =
    and_then (map_err script_trap (evaluate fu s lw rw))
      (\<lambda>w. expect ''scalar result'' (decode (result_representation sop ty) w))"
  using assms by (rule scalar_binary_evaluate)

theorem prepared_execution_refines_values_witness:
  "scalar_binary sample_float_unit BDiv (VI32 (- 7)) (VI32 2) =
    and_then (map_err script_trap (evaluate sample_float_unit (OInteger Int32 CheckedDiv) (- 7) 2))
      (\<lambda>w. expect ''scalar result'' (decode (result_representation SDiv I32) w))"
  by (rule prepared_execution_refines_values [where ty = I32])
    (simp_all add: select_binary_def has_representation_def char_ok_def)

text \<open>
  (C33) Source-width integer operations on values: if the contract admits the operation and the
  operands are values of the declared types, \<^verbatim>\<open>fixed_integer\<close> never panics; it returns a value
  of the input type that holds the mathematical result, or traps with its message.
\<close>

theorem fixed_integer_correct:
  assumes "operation_contract n = Some sig" "integer_layout (ninput n) = Some (bits, sg)"
    "read_integer (ninput n) lval = Ok lv"
    "case nrhs n of None \<Rightarrow> rval = None \<and> rv = 0 | Some ty \<Rightarrow> \<exists>x. rval = Some x \<and> read_integer ty x = Ok rv"
  shows "case reference_operation (nop n) lv rv bits sg of
      Ok x \<Rightarrow> \<exists>out. fixed_integer fu n lval rval = Ok out \<and> read_integer (ninput n) out = Ok x
    | Err m \<Rightarrow> fixed_integer fu n lval rval = Err (script_trap m)
    | Panic m \<Rightarrow> False"
  using assms by (rule fixed_integer_reference)

theorem fixed_integer_correct_witness:
  "fixed_integer sample_float_unit \<lparr>nop = CheckedAdd, ninput = U8, nrhs = Some U8\<rparr> (VI64 255) (Some (VI64 1)) =
     Err (script_trap ''integer overflow'')"
proof -
  let ?n = "\<lparr>nop = CheckedAdd, ninput = U8, nrhs = Some U8\<rparr>"
  have "operation_contract ?n = Some \<lparr>nleft = U8, nright = Some U8, noutput = U8\<rparr>"
    by (simp add: operation_contract_def integer_layout_def)
  moreover have "integer_layout (ninput ?n) = Some (8, False)" by (simp add: integer_layout_def)
  moreover have "read_integer (ninput ?n) (VI64 255) = Ok 255" "read_integer U8 (VI64 1) = Ok 1"
    by (simp_all add: read_integer_def has_representation_def integer_layout_def in_bounds_def bounds_def)
  ultimately show ?thesis
    using fixed_integer_correct [of ?n "\<lparr>nleft = U8, nright = Some U8, noutput = U8\<rparr>" 8 False "VI64 255" 255
        "Some (VI64 1)" 1 sample_float_unit]
    by (simp add: in_range_def in_bounds_def bounds_def)
qed

text \<open>
  Checked integer conversion: a value that fits the target type converts to a value of that
  type with the same number, a value that does not fit yields \<open>None\<close>, and no other outcome occurs.
\<close>

theorem checked_convert_exact:
  assumes "integer_layout source = Some (a, sa)" "integer_layout target = Some (b, sb)" "read_integer source v = Ok x"
  shows "if in_bounds b sb x
    then \<exists>out. checked_convert fu source target v = Ok (Some out) \<and> read_integer target out = Ok x
    else checked_convert fu source target v = Ok None"
  using assms by (rule checked_convert_integer)

theorem checked_convert_exact_witness:
  "checked_convert sample_float_unit I32 U8 (VI32 (- 1)) = Ok None"
proof -
  have "integer_layout I32 = Some (32, True)" "integer_layout U8 = Some (8, False)" by (simp_all add: integer_layout_def)
  moreover have "read_integer I32 (VI32 (- 1)) = Ok (- 1)"
    by (simp add: read_integer_def has_representation_def integer_layout_def in_bounds_def bounds_def)
  ultimately show ?thesis using checked_convert_exact [of I32 32 True U8 8 False "VI32 (- 1)" "- 1" sample_float_unit]
    by (simp add: in_bounds_def bounds_def)
qed

text \<open>
  Values survive transport through carriers: every scalar value with a valid character payload
  is restored by decoding its encoding at its own representation, and the payload is admitted.
\<close>

theorem encode_decode_roundtrip:
  assumes "encode v = Some w" "char_ok v" "has_representation v rep" "rep \<noteq> RGeneric"
  shows "decode rep w = Some v \<and> admits_payload rep None w"
proof
  show d: "decode rep w = Some v" using assms by (rule decode_encode)
  then show "admits_payload rep None w" by (cases rep) (auto simp: admits_payload_def split: if_splits)
qed

theorem encode_decode_roundtrip_witness:
  "decode RChar 0x1F642 = Some (VChar 0x1F642) \<and> admits_payload RChar None 0x1F642"
  by (rule encode_decode_roundtrip) (simp_all add: char_ok_def char_scalar_def has_representation_def)

end
