(* ===== verification/Host_Borrows.thy ===== *)
theory Host_Borrows
  imports Runtime_Base "HOL-Library.Multiset"
begin

text \<open>
  Frame-scoped borrows of host objects: \<^verbatim>\<open>crates/kagari-runtime/src/host/borrows.rs\<close> and the
  types and guards of \<^verbatim>\<open>host.rs\<close>.

  The table keeps the active frames with the borrows made in them, and for every object the number
  of shared and unique borrows of each field path. Identities are natural numbers. Each
  \<^verbatim>\<open>try_reserve\<close> is answered by the argument \<open>mem\<close>, which is told the call site. The resource state
  of the runtime is the argument \<open>port\<close>: whether execution is allowed, and the error that a
  quarantine or a limit returns. An operation returns the state it leaves even when it fails, since
  some failures come after a change; \<open>leave_frame\<close> also returns the internal faults it reports.

  The main results: two live borrows of overlapping paths of one object are both shared, in every
  reachable state; leaving a frame returns exactly its borrows and reports no fault; a token is
  valid exactly while its frame is active.
\<close>

section \<open>Definitions\<close>

fun digit_chars :: "nat \<Rightarrow> string" where
  "digit_chars n =
     (if n < 10 then [char_of (48 + n)] else digit_chars (n div 10) @ [char_of (48 + n mod 10)])"

declare digit_chars.simps [simp del]

datatype borrow_kind = Shared | Unique

fun satisfies :: "borrow_kind \<Rightarrow> borrow_kind \<Rightarrow> bool" where
  "satisfies Shared Shared = True"
| "satisfies Unique Shared = True"
| "satisfies Unique Unique = True"
| "satisfies Shared Unique = False"

record token =
  towner :: nat
  tframe :: nat
  tobject :: nat
  tkind :: borrow_kind
  ttype :: nat
  tepoch :: nat

record borrow_record =
  robject :: nat
  rkind :: borrow_kind
  rtype :: "nat option"
  rpath :: "nat list"

record active_frame =
  fepoch :: nat
  borrows :: "borrow_record list"

record path_state =
  ppath :: "nat list"
  shared_count :: nat
  unique_count :: nat

datatype object_key = Installed nat | External nat

record borrow_state =
  next_frame_id :: nat
  next_epoch :: nat
  active_frames :: "nat \<Rightarrow> active_frame option"
  object_borrows :: "object_key \<Rightarrow> path_state list option"

definition borrow_state_default :: borrow_state where
  "borrow_state_default = \<lparr>next_frame_id = 0, next_epoch = 0, active_frames = Map.empty, object_borrows = Map.empty\<rparr>"

record borrow_table =
  owner :: nat
  bstate :: borrow_state

record call_guard =
  gframe :: nat
  gepoch :: nat

text \<open>The runtime's resource state, as far as the table consults it.\<close>

record resource_port =
  admission :: "unit rt_result"
  on_quarantine :: "string \<Rightarrow> runtime_error"
  on_limit :: "string \<Rightarrow> runtime_error"

datatype reserve_site = Frames | Borrows | Objects | Paths

definition token_shared :: "token \<Rightarrow> token" where
  "token_shared t = t\<lparr>tkind := Shared\<rparr>"

definition record_key :: "borrow_record \<Rightarrow> object_key" where
  "record_key r = (if rtype r \<noteq> None then Installed (robject r) else External (robject r))"

definition matches :: "borrow_record \<Rightarrow> token \<Rightarrow> bool" where
  "matches r t \<longleftrightarrow> robject r = tobject t \<and> satisfies (rkind r) (tkind t) \<and>
     rtype r = Some (ttype t) \<and> rpath r = []"

definition starts_with :: "nat list \<Rightarrow> nat list \<Rightarrow> bool" where
  "starts_with xs ys \<longleftrightarrow> take (length ys) xs = ys"

definition paths_overlap :: "nat list \<Rightarrow> nat list \<Rightarrow> bool" where
  "paths_overlap l r \<longleftrightarrow> starts_with l r \<or> starts_with r l"

definition invariant_error :: "resource_port option \<Rightarrow> string \<Rightarrow> runtime_error" where
  "invariant_error port m =
     (case port of None \<Rightarrow> runtime_error_new EngineFault m | Some p \<Rightarrow> on_quarantine p m)"

definition capacity_error :: "resource_port option \<Rightarrow> runtime_error" where
  "capacity_error port =
     (case port of None \<Rightarrow> resource_limit ''host borrow capacity''
      | Some p \<Rightarrow> on_limit p ''host borrow capacity'')"

definition ensure_allowed :: "resource_port option \<Rightarrow> unit rt_result" where
  "ensure_allowed port = (case port of None \<Rightarrow> Ok () | Some p \<Rightarrow> admission p)"

definition enter_frame_in ::
    "resource_port option \<Rightarrow> (reserve_site \<Rightarrow> bool) \<Rightarrow> borrow_table \<Rightarrow> (borrow_table \<times> call_guard) rt_result" where
  "enter_frame_in port mem tb =
     (let st = bstate tb
      in and_then (ensure_allowed port) (\<lambda>_.
         and_then (ok_or (invariant_error port ''host frame identity exhausted'') (checked_add (next_frame_id st) 1)) (\<lambda>nf.
         and_then (ok_or (invariant_error port ''host borrow epoch exhausted'') (checked_add (next_epoch st) 1)) (\<lambda>ne.
           if \<not> mem Frames then Err (capacity_error port)
           else Ok (tb\<lparr>bstate := st\<lparr>next_frame_id := nf, next_epoch := ne,
                        active_frames := (active_frames st)(next_frame_id st \<mapsto> \<lparr>fepoch = next_epoch st, borrows = []\<rparr>)\<rparr>\<rparr>,
                    \<lparr>gframe = next_frame_id st, gepoch = next_epoch st\<rparr>)))))"

definition kind_name :: "borrow_kind \<Rightarrow> string" where
  "kind_name k = (case k of Shared \<Rightarrow> ''Shared'' | Unique \<Rightarrow> ''Unique'')"

definition inactive_frame :: "nat \<Rightarrow> runtime_error" where
  "inactive_frame f = expired_host_borrow (''frame '' @ digit_chars f @ '' is no longer active'')"

definition epoch_mismatch :: "nat \<Rightarrow> runtime_error" where
  "epoch_mismatch f = expired_host_borrow (''frame '' @ digit_chars f @ '' epoch mismatch'')"

definition table_validate :: "borrow_table \<Rightarrow> token \<Rightarrow> borrow_kind \<Rightarrow> unit rt_result" where
  "table_validate tb t required =
     (if towner t \<noteq> owner tb then Err (expired_host_borrow ''host borrow belongs to another runtime or table'')
      else case active_frames (bstate tb) (tframe t) of
          None \<Rightarrow> Err (inactive_frame (tframe t))
        | Some f \<Rightarrow>
            if fepoch f \<noteq> tepoch t then Err (epoch_mismatch (tframe t))
            else if \<not> satisfies (tkind t) required
                 then Err (host_borrow_conflict (kind_name (tkind t) @ '' borrow cannot satisfy '' @ kind_name required @ '' access''))
            else if \<not> list_ex (\<lambda>r. matches r t) (borrows f)
                 then Err (expired_host_borrow (''token for host object '' @ digit_chars (tobject t) @ '' is not active''))
            else Ok ())"

definition guard_validate ::
    "resource_port option \<Rightarrow> borrow_table \<Rightarrow> call_guard \<Rightarrow> token \<Rightarrow> borrow_kind \<Rightarrow> unit rt_result" where
  "guard_validate port tb g t required =
     and_then (ensure_allowed port) (\<lambda>_.
       if tframe t \<noteq> gframe g
       then Err (expired_host_borrow (''token frame '' @ digit_chars (tframe t) @ '' does not match current frame '' @ digit_chars (gframe g)))
       else table_validate tb t required)"

definition conflicts :: "path_state list \<Rightarrow> borrow_record \<Rightarrow> bool" where
  "conflicts ps r \<longleftrightarrow> list_ex (\<lambda>a. paths_overlap (ppath a) (rpath r) \<and>
     (unique_count a > 0 \<or> rkind r = Unique \<and> shared_count a > 0)) ps"

fun path_position :: "nat list \<Rightarrow> path_state list \<Rightarrow> nat option" where
  "path_position p [] = None"
| "path_position p (a # as) = (if ppath a = p then Some 0 else map_option Suc (path_position p as))"

text \<open>\<open>borrow_record\<close>: the state it leaves, and the result.\<close>

definition record_borrow ::
    "resource_port option \<Rightarrow> (reserve_site \<Rightarrow> bool) \<Rightarrow> borrow_state \<Rightarrow> call_guard \<Rightarrow> borrow_record
       \<Rightarrow> borrow_state \<times> unit rt_result" where
  "record_borrow port mem st g r =
     (case ensure_allowed port of Err e \<Rightarrow> (st, Err e) | Panic m \<Rightarrow> (st, Panic m) | Ok _ \<Rightarrow>
      (case active_frames st (gframe g) of
         None \<Rightarrow> (st, Err (inactive_frame (gframe g)))
       | Some f \<Rightarrow>
           if fepoch f \<noteq> gepoch g then (st, Err (epoch_mismatch (gframe g)))
           else if \<not> mem Borrows then (st, Err (capacity_error port))
           else if \<not> mem Objects then (st, Err (capacity_error port))
           else
             (let ps = (case object_borrows st (record_key r) of None \<Rightarrow> [] | Some ps \<Rightarrow> ps);
                  put = (\<lambda>ps. st\<lparr>object_borrows := (object_borrows st)(record_key r \<mapsto> ps)\<rparr>)
              in if conflicts ps r
                 then (put ps, Err (host_borrow_conflict (''host object '' @ digit_chars (robject r) @ '' has an overlapping incompatible borrow'')))
                 else
                   (case (case path_position (rpath r) ps of
                            Some slot \<Rightarrow> Some (ps, slot)
                          | None \<Rightarrow> if mem Paths
                                   then Some (ps @ [\<lparr>ppath = rpath r, shared_count = 0, unique_count = 0\<rparr>], length ps)
                                   else None) of
                      None \<Rightarrow> (put ps, Err (capacity_error port))
                    | Some (ps, slot) \<Rightarrow>
                        (let a = ps ! slot;
                             done = (\<lambda>a'. ((put (ps[slot := a']))\<lparr>active_frames :=
                                 (active_frames st)(gframe g \<mapsto> f\<lparr>borrows := borrows f @ [r]\<rparr>)\<rparr>, Ok ()))
                         in case rkind r of
                              Unique \<Rightarrow> done (a\<lparr>unique_count := unique_count a + 1\<rparr>)
                            | Shared \<Rightarrow>
                                (case checked_add (shared_count a) 1 of
                                   None \<Rightarrow> (put ps, Err (invariant_error port ''host shared borrow count exhausted''))
                                 | Some c \<Rightarrow> done (a\<lparr>shared_count := c\<rparr>)))))))"

definition table_borrow ::
    "resource_port option \<Rightarrow> (reserve_site \<Rightarrow> bool) \<Rightarrow> borrow_table \<Rightarrow> call_guard \<Rightarrow> nat \<Rightarrow> borrow_kind \<Rightarrow> nat
       \<Rightarrow> borrow_table \<times> token rt_result" where
  "table_borrow port mem tb g obj k ty =
     (let (st, res) = record_borrow port mem (bstate tb) g \<lparr>robject = obj, rkind = k, rtype = Some ty, rpath = []\<rparr>
      in (tb\<lparr>bstate := st\<rparr>,
          and_then res (\<lambda>_. Ok \<lparr>towner = owner tb, tframe = gframe g, tobject = obj, tkind = k, ttype = ty, tepoch = gepoch g\<rparr>)))"

text \<open>Returning one borrow on leaving its frame; the faults are the calls of \<open>invariant\<close>.\<close>

definition return_borrow ::
    "borrow_record \<Rightarrow> (object_key \<Rightarrow> path_state list option) \<times> string list
       \<Rightarrow> (object_key \<Rightarrow> path_state list option) \<times> string list" where
  "return_borrow r s =
     (let (ob, faults) = s; key = record_key r
      in case ob key of
           None \<Rightarrow> (ob, faults @ [''host object borrow disappeared during cleanup''])
         | Some ps \<Rightarrow>
             (let (ps', faults') =
                (case path_position (rpath r) ps of
                   None \<Rightarrow> (ps, faults @ [''host path borrow disappeared during cleanup''])
                 | Some slot \<Rightarrow>
                     (let a = ps ! slot;
                          count = (case rkind r of Shared \<Rightarrow> shared_count a | Unique \<Rightarrow> unique_count a);
                          under = (count = 0);
                          a' = (case rkind r of Shared \<Rightarrow> a\<lparr>shared_count := count - 1\<rparr>
                                              | Unique \<Rightarrow> a\<lparr>unique_count := count - 1\<rparr>)
                      in (if shared_count a' = 0 \<and> unique_count a' = 0
                          then swap_remove slot (ps[slot := a']) else ps[slot := a'],
                          if under then faults @ [''host path borrow count underflow''] else faults)))
              in (if ps' = [] then ob(key := None) else ob(key \<mapsto> ps'), faults')))"

definition leave_frame :: "borrow_state \<Rightarrow> nat \<Rightarrow> nat \<Rightarrow> borrow_state \<times> string list" where
  "leave_frame st fid ep =
     (case active_frames st fid of
        None \<Rightarrow> (st, [''host borrow frame disappeared during cleanup''])
      | Some f \<Rightarrow>
          (let faults = (if fepoch f \<noteq> ep then [''host borrow frame epoch changed during cleanup''] else []);
               (ob, faults') = fold return_borrow (borrows f) (object_borrows st, faults)
           in (st\<lparr>active_frames := (active_frames st)(fid := None), object_borrows := ob\<rparr>, faults')))"

definition guard_drop :: "borrow_table \<Rightarrow> call_guard \<Rightarrow> borrow_table \<times> string list" where
  "guard_drop tb g = (let (st, faults) = leave_frame (bstate tb) (gframe g) (gepoch g) in (tb\<lparr>bstate := st\<rparr>, faults))"

subsection \<open>Reachable tables and their invariant\<close>

text \<open>A driver enters frames, borrows through a guard it holds, and drops guards.\<close>

inductive borrow_step :: "borrow_table \<Rightarrow> borrow_table \<Rightarrow> bool" where
  entered: "enter_frame_in port mem tb = Ok (tb', g) \<Longrightarrow> borrow_step tb tb'"
| recorded: "record_borrow port mem (bstate tb) g r = (st, res) \<Longrightarrow> borrow_step tb (tb\<lparr>bstate := st\<rparr>)"
| dropped: "guard_drop tb g = (tb', faults) \<Longrightarrow> active_frames (bstate tb) (gframe g) = Some f \<Longrightarrow>
    fepoch f = gepoch g \<Longrightarrow> borrow_step tb tb'"

inductive reachable :: "borrow_table \<Rightarrow> bool" where
  initially: "reachable \<lparr>owner = w, bstate = borrow_state_default\<rparr>"
| stepped: "reachable tb \<Longrightarrow> borrow_step tb tb' \<Longrightarrow> reachable tb'"

text \<open>All live borrows of a state.\<close>

definition live :: "borrow_state \<Rightarrow> borrow_record multiset" where
  "live st = (\<Sum>f \<in> dom (active_frames st). mset (borrows (the (active_frames st f))))"

definition live_count :: "borrow_record multiset \<Rightarrow> object_key \<Rightarrow> nat list \<Rightarrow> borrow_kind \<Rightarrow> nat" where
  "live_count M k p kd = size (filter_mset (\<lambda>r. record_key r = k \<and> rpath r = p \<and> rkind r = kd) M)"

definition path_counts :: "path_state list option \<Rightarrow> nat list \<Rightarrow> nat \<times> nat" where
  "path_counts ps p =
     (case Option.bind ps (\<lambda>ps. map_option ((!) ps) (path_position p ps)) of
        None \<Rightarrow> (0, 0) | Some a \<Rightarrow> (shared_count a, unique_count a))"

definition counts_ok :: "(object_key \<Rightarrow> path_state list option) \<Rightarrow> borrow_record multiset \<Rightarrow> bool" where
  "counts_ok ob M \<longleftrightarrow>
     (\<forall>k p. path_counts (ob k) p = (live_count M k p Shared, live_count M k p Unique)) \<and>
     (\<forall>k ps. ob k = Some ps \<longrightarrow> distinct (map ppath ps))"

definition compatible :: "borrow_record \<Rightarrow> borrow_record \<Rightarrow> bool" where
  "compatible r s \<longleftrightarrow>
     (record_key r = record_key s \<and> paths_overlap (rpath r) (rpath s) \<longrightarrow> rkind r = Shared \<and> rkind s = Shared)"

definition exclusive :: "borrow_record multiset \<Rightarrow> bool" where
  "exclusive M \<longleftrightarrow> (\<forall>r s. r \<in># M \<and> s \<in># M - {#r#} \<longrightarrow> compatible r s)"

definition borrow_inv :: "borrow_state \<Rightarrow> bool" where
  "borrow_inv st \<longleftrightarrow> finite (dom (active_frames st)) \<and>
     (\<forall>f fr. active_frames st f = Some fr \<longrightarrow> f < next_frame_id st \<and> fepoch fr < next_epoch st) \<and>
     counts_ok (object_borrows st) (live st) \<and> exclusive (live st)"

subsection \<open>Reference definitions\<close>

definition pool :: "(nat \<Rightarrow> active_frame option) \<Rightarrow> borrow_record multiset" where
  "pool fr = (\<Sum>f \<in> dom fr. mset (borrows (the (fr f))))"

definition object_paths :: "(object_key \<Rightarrow> path_state list option) \<Rightarrow> object_key \<Rightarrow> path_state list" where
  "object_paths ob k = (case ob k of None \<Rightarrow> [] | Some ps \<Rightarrow> ps)"

definition slot_for :: "bool \<Rightarrow> nat list \<Rightarrow> path_state list \<Rightarrow> (path_state list \<times> nat) option" where
  "slot_for grant p ps = (case path_position p ps of
     Some slot \<Rightarrow> Some (ps, slot)
   | None \<Rightarrow> if grant then Some (ps @ [\<lparr>ppath = p, shared_count = 0, unique_count = 0\<rparr>], length ps) else None)"

definition bump :: "borrow_kind \<Rightarrow> path_state \<Rightarrow> path_state" where
  "bump kd a = (case kd of Shared \<Rightarrow> a\<lparr>shared_count := shared_count a + 1\<rparr> | Unique \<Rightarrow> a\<lparr>unique_count := unique_count a + 1\<rparr>)"

text \<open>A frame that has been left stays inactive: identities are not reused.\<close>

definition retired :: "nat \<Rightarrow> borrow_table \<Rightarrow> bool" where
  "retired f tb \<longleftrightarrow> f < next_frame_id (bstate tb) \<and> active_frames (bstate tb) f = None"

text \<open>A table in which frame 0 holds two shared borrows of object 7, for the examples.\<close>

definition grant_all :: "reserve_site \<Rightarrow> bool" where "grant_all s = True"

definition empty_table :: borrow_table where
  "empty_table = \<lparr>owner = 1, bstate = borrow_state_default\<rparr>"

definition frame_table :: borrow_table where
  "frame_table = \<lparr>owner = 1, bstate = \<lparr>next_frame_id = 1, next_epoch = 1,
     active_frames = [0 \<mapsto> \<lparr>fepoch = 0, borrows = []\<rparr>], object_borrows = Map.empty\<rparr>\<rparr>"

definition sample_record :: borrow_record where
  "sample_record = \<lparr>robject = 7, rkind = Shared, rtype = Some 3, rpath = []\<rparr>"

definition shared_table :: "nat \<Rightarrow> borrow_table" where
  "shared_table n = \<lparr>owner = 1, bstate = \<lparr>next_frame_id = 1, next_epoch = 1,
     active_frames = [0 \<mapsto> \<lparr>fepoch = 0, borrows = replicate n sample_record\<rparr>],
     object_borrows = [Installed 7 \<mapsto> [\<lparr>ppath = [], shared_count = n, unique_count = 0\<rparr>]]\<rparr>\<rparr>"

definition sample_guard :: call_guard where
  "sample_guard = \<lparr>gframe = 0, gepoch = 0\<rparr>"

section \<open>Path tables\<close>

abbreviation entries :: "path_state list \<Rightarrow> nat list \<Rightarrow> path_state option" where
  "entries ps \<equiv> map_of (map (\<lambda>a. (ppath a, a)) ps)"

lemma position_entries: "map_option ((!) ps) (path_position p ps) = entries ps p"
proof (induction ps)
  case (Cons a ps)
  have "map_option (\<lambda>i. (a # ps) ! Suc i) (path_position p ps) = map_option ((!) ps) (path_position p ps)"
    by simp
  with Cons show ?case by (auto simp: option.map_comp comp_def)
qed simp

lemma path_counts_Some:
  "path_counts (Some ps) p = (case entries ps p of None \<Rightarrow> (0, 0) | Some a \<Rightarrow> (shared_count a, unique_count a))"
  by (simp add: path_counts_def position_entries)

lemma path_counts_None [simp]: "path_counts None p = (0, 0)" "path_counts (Some []) p = (0, 0)"
  by (simp_all add: path_counts_def)

lemma position_SomeD:
  "path_position p ps = Some i \<Longrightarrow> i < length ps \<and> ppath (ps ! i) = p \<and> entries ps p = Some (ps ! i)"
proof -
  assume a: "path_position p ps = Some i"
  then have "entries ps p = Some (ps ! i)" using position_entries [of ps p] by simp
  moreover from a have "i < length ps \<and> ppath (ps ! i) = p"
    by (induction ps arbitrary: i) (auto split: if_splits)
  ultimately show ?thesis by simp
qed

lemma path_position_None: "path_position p ps = None \<longleftrightarrow> p \<notin> ppath ` set ps"
  by (induction ps) auto

lemma option_eqI: "(\<And>b. x = Some b \<longleftrightarrow> y = Some b) \<Longrightarrow> x = y"
  by (cases x; cases y) auto

lemma entries_iff: "distinct (map ppath ps) \<Longrightarrow> entries ps p = Some a \<longleftrightarrow> a \<in> set ps \<and> ppath a = p"
  using map_of_eq_Some_iff [of "map (\<lambda>a. (ppath a, a)) ps" p a] by (auto simp: comp_def)

lemma map_ppath_update:
  assumes "i < length ps" "ppath a = ppath (ps ! i)"
  shows "map ppath (ps[i := a]) = map ppath ps"
  using assms by (simp add: map_update list_update_same_conv)

lemma entries_update:
  assumes d: "distinct (map ppath ps)" and i: "i < length ps" and a: "ppath a = ppath (ps ! i)"
  shows "entries (ps[i := a]) = (entries ps)(ppath a \<mapsto> a)"
proof
  fix p
  have d': "distinct (map ppath (ps[i := a]))" using d map_ppath_update [OF i a] by simp
  have "entries (ps[i := a]) p = Some b \<longleftrightarrow> ((entries ps)(ppath a \<mapsto> a)) p = Some b" for b
  proof (cases "p = ppath a")
    case True
    have "a \<in> set (ps[i := a])" using i by (simp add: set_update_memI)
    then have "entries (ps[i := a]) (ppath a) = Some a" using entries_iff [OF d'] by blast
    with True show ?thesis by auto
  next
    case False
    have "b \<in> set (ps[i := a]) \<longleftrightarrow> b \<in> set ps" if "ppath b \<noteq> ppath a" for b
      using that a i by (auto simp: in_set_conv_nth nth_list_update)
    with False show ?thesis by (auto simp: entries_iff [OF d'] entries_iff [OF d])
  qed
  then show "entries (ps[i := a]) p = ((entries ps)(ppath a \<mapsto> a)) p" by (rule option_eqI)
qed

lemma swap_remove_mset:
  assumes "i < length xs" shows "mset (swap_remove i xs) = mset xs - {#xs ! i#}"
proof -
  from assms have ne: "xs \<noteq> []" by auto
  have l: "xs[i := last xs] \<noteq> []" using ne by simp
  have "mset (xs[i := last xs]) = add_mset (last xs) (mset xs - {#xs ! i#})"
    using assms by (simp add: mset_update)
  moreover have "last (xs[i := last xs]) = last xs" using assms ne by (simp add: last_list_update)
  moreover have "mset (xs[i := last xs]) = add_mset (last (xs[i := last xs])) (mset (butlast (xs[i := last xs])))"
    using append_butlast_last_id [OF l] by (metis add.commute add_mset_add_single mset.simps(1) mset.simps(2) mset_append union_mset_add_mset_right)
  ultimately show ?thesis by (simp add: swap_remove_def)
qed

lemma distinct_submset:
  assumes "mset xs \<subseteq># mset ys" "distinct ys" shows "distinct xs"
  unfolding distinct_count_atmost_1
proof
  fix a
  have "count (mset xs) a \<le> count (mset ys) a" using assms(1) by (simp add: mset_subset_eq_count)
  also have "\<dots> \<le> 1" using assms(2) by (auto simp: distinct_count_atmost_1)
  finally show "count (mset xs) a = (if a \<in> set xs then 1 else 0)"
    by (metis One_nat_def count_greater_zero_iff le_0_eq le_Suc_eq less_numeral_extra(3) not_gr_zero set_mset_mset)
qed

lemma swap_remove_entries:
  assumes d: "distinct (map ppath ps)" and i: "i < length ps"
  shows "distinct (map ppath (swap_remove i ps))" "entries (swap_remove i ps) = (entries ps)(ppath (ps ! i) := None)"
proof -
  note m = swap_remove_mset [OF i]
  have "mset (map ppath (swap_remove i ps)) \<subseteq># mset (map ppath ps)"
    using i by (simp add: m image_mset_subseteq_mono)
  with d show d': "distinct (map ppath (swap_remove i ps))" using distinct_submset by blast
  have ds: "distinct ps" using d by (simp add: distinct_map)
  have "set_mset (mset (swap_remove i ps)) = set ps - {ps ! i}"
    unfolding m using ds i by (auto simp: distinct_count_atmost_1 in_diff_count split: if_splits)
  then have set: "set (swap_remove i ps) = set ps - {ps ! i}" by simp
  show "entries (swap_remove i ps) = (entries ps)(ppath (ps ! i) := None)"
  proof
    fix p
    have "entries (swap_remove i ps) p = Some b \<longleftrightarrow> ((entries ps)(ppath (ps ! i) := None)) p = Some b" for b
    proof -
      have "b = ps ! i" if "b \<in> set ps" "ppath b = ppath (ps ! i)"
        using that d i by (auto simp: distinct_map inj_on_def)
      then show ?thesis using set by (auto simp: entries_iff [OF d'] entries_iff [OF d])
    qed
    then show "entries (swap_remove i ps) p = ((entries ps)(ppath (ps ! i) := None)) p" by (rule option_eqI)
  qed
qed

section \<open>Live borrows\<close>

lemma live_count_add [simp]:
  "live_count (add_mset r M) k p kd =
     live_count M k p kd + (if record_key r = k \<and> rpath r = p \<and> rkind r = kd then 1 else 0)"
  by (simp add: live_count_def)

lemma live_count_pos: "s \<in># M \<Longrightarrow> 0 < live_count M (record_key s) (rpath s) (rkind s)"
proof -
  assume "s \<in># M"
  then have "s \<in># filter_mset (\<lambda>r. record_key r = record_key s \<and> rpath r = rpath s \<and> rkind r = rkind s) M" by simp
  then show ?thesis unfolding live_count_def by (metis empty_iff nonempty_has_size set_mset_empty)
qed

text \<open>Opening and closing the bookkeeping of one borrow.\<close>

lemma counts_ok_get:
  assumes "counts_ok ob M" shows "path_counts (ob k) p = (live_count M k p Shared, live_count M k p Unique)"
    "ob k = Some ps \<Longrightarrow> distinct (map ppath ps)"
  using assms by (auto simp: counts_ok_def)

lemma counts_ok_put:
  assumes ok: "counts_ok ob M" and d: "distinct (map ppath ps)"
    and e: "\<And>p. path_counts (Some ps) p = (live_count N k p Shared, live_count N k p Unique)"
    and o: "\<And>k' p kd. k' \<noteq> k \<Longrightarrow> live_count N k' p kd = live_count M k' p kd"
  shows "counts_ok (ob(k \<mapsto> ps)) N"
  using ok d e o by (auto simp: counts_ok_def)

lemma record_key_count: "record_key r \<noteq> k \<Longrightarrow> live_count (add_mset r M) k p kd = live_count M k p kd"
  by simp

lemma return_borrow_ok:
  assumes ok: "counts_ok ob (add_mset r M)"
  shows "\<exists>ob'. return_borrow r (ob, fs) = (ob', fs) \<and> counts_ok ob' M"
proof -
  let ?k = "record_key r" and ?p = "rpath r"
  have pc: "path_counts (ob ?k) ?p = (live_count M ?k ?p Shared + (if rkind r = Shared then 1 else 0),
      live_count M ?k ?p Unique + (if rkind r = Unique then 1 else 0))"
    using counts_ok_get(1) [OF ok, of ?k ?p] by simp
  then obtain ps where ps: "ob ?k = Some ps" by (cases "ob ?k"; cases "rkind r") auto
  have d: "distinct (map ppath ps)" using counts_ok_get(2) [OF ok ps] .
  obtain i where i: "path_position ?p ps = Some i"
  proof (cases "path_position ?p ps")
    case None
    then have "path_counts (Some ps) ?p = (0, 0)" by (simp add: path_counts_def)
    with pc ps show ?thesis by (cases "rkind r") auto
  qed
  note I = position_SomeD [OF i]
  let ?a = "ps ! i"
  have cnt: "shared_count ?a = live_count M ?k ?p Shared + (if rkind r = Shared then 1 else 0)"
    "unique_count ?a = live_count M ?k ?p Unique + (if rkind r = Unique then 1 else 0)"
    using pc ps I by (auto simp: path_counts_Some)
  define a' where "a' = (case rkind r of Shared \<Rightarrow> ?a\<lparr>shared_count := shared_count ?a - 1\<rparr>
     | Unique \<Rightarrow> ?a\<lparr>unique_count := unique_count ?a - 1\<rparr>)"
  have a': "ppath a' = ?p" "shared_count a' = live_count M ?k ?p Shared" "unique_count a' = live_count M ?k ?p Unique"
    using cnt I by (auto simp: a'_def split: borrow_kind.splits)
  define qs where "qs = (if shared_count a' = 0 \<and> unique_count a' = 0 then swap_remove i (ps[i := a']) else ps[i := a'])"
  have up: "distinct (map ppath (ps[i := a']))" "entries (ps[i := a']) = (entries ps)(?p \<mapsto> a')"
    using d I a' map_ppath_update [of i ps a'] entries_update [OF d, of i a'] by auto
  have ith: "ps[i := a'] ! i = a'" "i < length (ps[i := a'])" using I by auto
  have q: "distinct (map ppath qs)" "\<And>p. path_counts (Some qs) p = (live_count M ?k p Shared, live_count M ?k p Unique)"
  proof -
    show "distinct (map ppath qs)" using up swap_remove_entries [OF up(1) ith(2)] by (simp add: qs_def)
    fix p
    have "path_counts (Some ps) p = (live_count M ?k p Shared, live_count M ?k p Unique)" if "p \<noteq> ?p"
      using counts_ok_get(1) [OF ok, of ?k p] ps that by simp
    then show "path_counts (Some qs) p = (live_count M ?k p Shared, live_count M ?k p Unique)"
      using up swap_remove_entries(2) [OF up(1) ith(2)] a' ith
      by (cases "p = ?p") (auto simp: path_counts_Some qs_def split: if_splits)
  qed
  have ret: "return_borrow r (ob, fs) = (if qs = [] then ob(?k := None) else ob(?k \<mapsto> qs), fs)"
    using cnt by (auto simp: return_borrow_def ps i Let_def a'_def qs_def split: borrow_kind.splits)
  have put: "counts_ok (ob(?k \<mapsto> qs)) M"
    by (rule counts_ok_put [OF ok q]) simp
  show ?thesis
  proof (cases "qs = []")
    case True
    have "counts_ok (ob(?k := None)) M" using put True by (auto simp: counts_ok_def split: if_splits)
    with ret True show ?thesis by auto
  qed (use ret put in auto)
qed

lemma return_all_ok:
  "counts_ok ob (mset rs + M) \<Longrightarrow> \<exists>ob'. fold return_borrow rs (ob, fs) = (ob', fs) \<and> counts_ok ob' M"
proof (induction rs arbitrary: ob)
  case (Cons r rs)
  then have "counts_ok ob (add_mset r (mset rs + M))" by simp
  from return_borrow_ok [OF this, of fs] obtain ob1 where
    "return_borrow r (ob, fs) = (ob1, fs)" "counts_ok ob1 (mset rs + M)" by blast
  with Cons.IH show ?case by simp
qed simp

section \<open>Frames\<close>

lemma live_pool: "live st = pool (active_frames st)"
  by (simp add: live_def pool_def)

lemma pool_update: "finite (dom fr) \<Longrightarrow> pool (fr(f \<mapsto> x)) = mset (borrows x) + pool (fr(f := None))"
proof -
  assume "finite (dom fr)"
  then have "pool (fr(f \<mapsto> x)) = mset (borrows x) + (\<Sum>g \<in> dom fr - {f}. mset (borrows (the ((fr(f \<mapsto> x)) g))))"
    by (simp add: pool_def dom_fun_upd sum.insert_remove)
  also have "(\<Sum>g \<in> dom fr - {f}. mset (borrows (the ((fr(f \<mapsto> x)) g)))) = pool (fr(f := None))"
    unfolding pool_def by (rule sum.cong) (auto split: if_splits)
  finally show ?thesis .
qed

lemma pool_remove: "finite (dom fr) \<Longrightarrow> fr f = Some x \<Longrightarrow> pool fr = mset (borrows x) + pool (fr(f := None))"
  using pool_update [of fr f x] by (simp add: fun_upd_idem)

lemma pool_absent: "fr f = None \<Longrightarrow> pool (fr(f := None)) = pool fr"
  by (simp add: fun_upd_idem)

lemma pool_push:
  assumes "finite (dom fr)" "fr f = Some x"
  shows "pool (fr(f \<mapsto> x\<lparr>borrows := borrows x @ [r]\<rparr>)) = add_mset r (pool fr)"
  using pool_update [OF assms(1), of f "x\<lparr>borrows := borrows x @ [r]\<rparr>"] pool_remove [OF assms] by simp

section \<open>Recording a borrow\<close>

lemma object_paths_ok:
  assumes "counts_ok ob M"
  shows "distinct (map ppath (object_paths ob k))"
    "path_counts (Some (object_paths ob k)) p = (live_count M k p Shared, live_count M k p Unique)"
  using counts_ok_get(1) [OF assms, of k p] counts_ok_get(2) [OF assms, of k]
  by (auto simp: object_paths_def split: option.splits)

lemma slot_for_ok:
  assumes d: "distinct (map ppath ps)" and s: "slot_for grant p ps = Some (qs, i)"
  shows "distinct (map ppath qs)" "i < length qs" "ppath (qs ! i) = p"
    "path_counts (Some qs) q = path_counts (Some ps) q"
proof -
  consider "path_position p ps = Some i" "qs = ps"
    | "path_position p ps = None" "qs = ps @ [\<lparr>ppath = p, shared_count = 0, unique_count = 0\<rparr>]" "i = length ps"
    using s by (auto simp: slot_for_def split: option.splits if_splits)
  then have "distinct (map ppath qs) \<and> i < length qs \<and> ppath (qs ! i) = p \<and>
    path_counts (Some qs) q = path_counts (Some ps) q"
  proof cases
    case 1
    with d position_SomeD [OF 1(1)] show ?thesis by simp
  next
    case 2
    then have "p \<notin> ppath ` set ps" by (simp add: path_position_None)
    moreover from this have "entries ps p = None" by (simp add: map_of_eq_None_iff image_image)
    ultimately show ?thesis using d 2 by (auto simp: path_counts_Some map_add_def split: option.splits)
  qed
  then show "distinct (map ppath qs)" "i < length qs" "ppath (qs ! i) = p"
    "path_counts (Some qs) q = path_counts (Some ps) q" by auto
qed

lemma bump_counts:
  assumes ok: "counts_ok ob M" and s: "slot_for grant (rpath r) (object_paths ob (record_key r)) = Some (qs, i)"
  shows "counts_ok (ob(record_key r \<mapsto> qs[i := bump (rkind r) (qs ! i)])) (add_mset r M)"
    "counts_ok (ob(record_key r \<mapsto> qs)) M"
proof -
  note d = object_paths_ok(1) [OF ok, of "record_key r"] and pc = object_paths_ok(2) [OF ok, of "record_key r"]
  note q = slot_for_ok [OF d s]
  have b: "ppath (bump (rkind r) (qs ! i)) = ppath (qs ! i)" by (simp add: bump_def split: borrow_kind.splits)
  have bc: "shared_count (bump (rkind r) (qs ! i)) = shared_count (qs ! i) + (if rkind r = Shared then 1 else 0)"
    "unique_count (bump (rkind r) (qs ! i)) = unique_count (qs ! i) + (if rkind r = Unique then 1 else 0)"
    by (simp_all add: bump_def split: borrow_kind.splits)
  have self: "entries qs (rpath r) = Some (qs ! i)" using entries_iff [OF q(1)] q(2,3) by simp
  show "counts_ok (ob(record_key r \<mapsto> qs)) M"
    by (rule counts_ok_put [OF ok q(1)]) (simp_all add: q(4) pc)
  show "counts_ok (ob(record_key r \<mapsto> qs[i := bump (rkind r) (qs ! i)])) (add_mset r M)"
  proof (rule counts_ok_put [OF ok])
    show "distinct (map ppath (qs[i := bump (rkind r) (qs ! i)]))" using map_ppath_update [OF q(2) b] q(1) by simp
    fix p
    show "path_counts (Some (qs[i := bump (rkind r) (qs ! i)])) p =
      (live_count (add_mset r M) (record_key r) p Shared, live_count (add_mset r M) (record_key r) p Unique)"
      using q(4) [of p] pc [of p] self q(3) b bc
      unfolding path_counts_Some entries_update [OF q(1,2) b]
      by (cases "p = rpath r"; cases "rkind r") auto
  qed simp
qed

lemma no_conflict_compatible:
  assumes ok: "counts_ok ob M" and nc: "\<not> conflicts (object_paths ob (record_key r)) r" and s: "s \<in># M"
  shows "compatible r s" "compatible s r"
proof -
  have "rkind r = Shared \<and> rkind s = Shared" if k: "record_key r = record_key s" and o: "paths_overlap (rpath s) (rpath r)"
  proof -
    note d = object_paths_ok(1) [OF ok, of "record_key r"]
    have pc: "path_counts (Some (object_paths ob (record_key r))) (rpath s) =
      (live_count M (record_key s) (rpath s) Shared, live_count M (record_key s) (rpath s) Unique)"
      using object_paths_ok(2) [OF ok, of "record_key r" "rpath s"] k by simp
    from pc live_count_pos [OF s] obtain a where a: "entries (object_paths ob (record_key r)) (rpath s) = Some a"
      by (cases "rkind s"; auto simp: path_counts_Some split: option.splits)
    then have mem: "a \<in> set (object_paths ob (record_key r))" "ppath a = rpath s" using entries_iff [OF d] by auto
    have cnt: "rkind s = Shared \<Longrightarrow> 0 < shared_count a" "rkind s = Unique \<Longrightarrow> 0 < unique_count a"
      using pc a live_count_pos [OF s] by (auto simp: path_counts_Some)
    show ?thesis using nc mem o cnt unfolding conflicts_def list_ex_iff
      by (cases "rkind s"; cases "rkind r") auto
  qed
  moreover have "paths_overlap (rpath s) (rpath r) = paths_overlap (rpath r) (rpath s)" by (auto simp: paths_overlap_def)
  ultimately show "compatible r s" "compatible s r" by (auto simp: compatible_def)
qed

lemma conflict_incompatible:
  assumes ok: "counts_ok ob M" and c: "conflicts (object_paths ob (record_key r)) r"
  shows "\<exists>s. s \<in># M \<and> \<not> compatible r s"
proof -
  note d = object_paths_ok(1) [OF ok, of "record_key r"]
  from c obtain a where a: "a \<in> set (object_paths ob (record_key r))" "paths_overlap (ppath a) (rpath r)"
    "unique_count a > 0 \<or> rkind r = Unique \<and> shared_count a > 0" by (auto simp: conflicts_def list_ex_iff)
  then have "entries (object_paths ob (record_key r)) (ppath a) = Some a" using entries_iff [OF d] by blast
  then have e: "(shared_count a, unique_count a) =
    (live_count M (record_key r) (ppath a) Shared, live_count M (record_key r) (ppath a) Unique)"
    using object_paths_ok(2) [OF ok, of "record_key r" "ppath a"] by (simp add: path_counts_Some)
  have ex: "\<exists>s. s \<in># M \<and> record_key s = k \<and> rpath s = p \<and> rkind s = kd" if pos: "0 < live_count M k p kd" for k p kd
  proof -
    from pos obtain s where "s \<in># filter_mset (\<lambda>r. record_key r = k \<and> rpath r = p \<and> rkind r = kd) M"
      unfolding live_count_def nonempty_has_size [symmetric] by (rule multiset_nonemptyE)
    then show ?thesis by auto
  qed
  from a(3) e obtain kd where "0 < live_count M (record_key r) (ppath a) kd" "kd = Unique \<or> rkind r = Unique" by auto
  from ex [OF this(1)] this(2) a(2) show ?thesis by (auto simp: compatible_def paths_overlap_def)
qed

text \<open>The part of \<^const>\<open>record_borrow\<close> after its guards.\<close>

lemma record_borrow_admitted:
  assumes "ensure_allowed port = Ok u" "active_frames st (gframe g) = Some f" "fepoch f = gepoch g" "mem Borrows" "mem Objects"
  shows "record_borrow port mem st g r =
    (let ps = object_paths (object_borrows st) (record_key r);
         put = (\<lambda>ps. st\<lparr>object_borrows := (object_borrows st)(record_key r \<mapsto> ps)\<rparr>)
     in if conflicts ps r then (put ps, Err (host_borrow_conflict (''host object '' @ digit_chars (robject r) @ '' has an overlapping incompatible borrow'')))
        else case slot_for (mem Paths) (rpath r) ps of
            None \<Rightarrow> (put ps, Err (capacity_error port))
          | Some (qs, i) \<Rightarrow>
              if rkind r = Shared \<and> checked_add (shared_count (qs ! i)) 1 = None
              then (put qs, Err (invariant_error port ''host shared borrow count exhausted''))
              else ((put (qs[i := bump (rkind r) (qs ! i)]))\<lparr>active_frames :=
                      (active_frames st)(gframe g \<mapsto> f\<lparr>borrows := borrows f @ [r]\<rparr>)\<rparr>, Ok ()))"
  using assms unfolding record_borrow_def object_paths_def [symmetric] slot_for_def [symmetric]
  by (simp add: Let_def checked_add_def bump_def split: option.splits borrow_kind.splits)

lemma record_borrow_rejected:
  assumes "ensure_allowed port \<noteq> Ok () \<or> active_frames st (gframe g) = None \<or>
    fepoch (the (active_frames st (gframe g))) \<noteq> gepoch g \<or> \<not> mem Borrows \<or> \<not> mem Objects"
  shows "fst (record_borrow port mem st g r) = st" "snd (record_borrow port mem st g r) \<noteq> Ok ()"
  using assms by (auto simp: record_borrow_def split: outcome.splits option.splits)

lemma exclusive_add:
  assumes "exclusive M" "\<And>s. s \<in># M \<Longrightarrow> compatible r s \<and> compatible s r"
  shows "exclusive (add_mset r M)"
  unfolding exclusive_def
proof (intro allI impI)
  fix a b assume ab: "a \<in># add_mset r M \<and> b \<in># add_mset r M - {#a#}"
  show "compatible a b"
  proof (cases "a = r")
    case True
    with ab assms(2) show ?thesis by auto
  next
    case False
    with ab have "a \<in># M" by auto
    with ab False have "b = r \<or> b \<in># M - {#a#}" by (auto simp: add_mset_diff_bothsides diff_add_mset_swap)
    with assms \<open>a \<in># M\<close> show ?thesis by (auto simp: exclusive_def)
  qed
qed

lemma exclusive_mono: "exclusive (M + N) \<Longrightarrow> exclusive N"
  unfolding exclusive_def
proof (intro allI impI)
  fix r s assume e: "\<forall>r s. r \<in># M + N \<and> s \<in># M + N - {#r#} \<longrightarrow> compatible r s" and rs: "r \<in># N \<and> s \<in># N - {#r#}"
  then have "s \<in># M + N - {#r#}" by (metis diff_union_single_conv union_iff)
  with e rs show "compatible r s" by auto
qed

lemma record_borrow_inv:
  assumes inv: "borrow_inv st" and rb: "record_borrow port mem st g r = (st', res)"
  shows "borrow_inv st'" "res = Ok () \<Longrightarrow> live st' = add_mset r (live st)"
    "res \<noteq> Ok () \<Longrightarrow> active_frames st' = active_frames st"
proof -
  have fin: "finite (dom (active_frames st))" and ok: "counts_ok (object_borrows st) (live st)" and ex: "exclusive (live st)"
    using inv by (auto simp: borrow_inv_def)
  have same: "borrow_inv (st\<lparr>object_borrows := ob\<rparr>)" if "counts_ok ob (live st)" for ob
    using inv that by (simp add: borrow_inv_def live_pool)
  have "borrow_inv st' \<and> (res = Ok () \<longrightarrow> live st' = add_mset r (live st)) \<and>
    (res \<noteq> Ok () \<longrightarrow> active_frames st' = active_frames st)"
  proof (cases "ensure_allowed port \<noteq> Ok () \<or> active_frames st (gframe g) = None \<or>
    fepoch (the (active_frames st (gframe g))) \<noteq> gepoch g \<or> \<not> mem Borrows \<or> \<not> mem Objects")
    case True
    from record_borrow_rejected [OF True, of r] rb inv show ?thesis by auto
  next
    case False
    then obtain f where f: "active_frames st (gframe g) = Some f" "fepoch f = gepoch g" by auto
    let ?ob = "object_borrows st" and ?k = "record_key r"
    let ?ps = "object_paths ?ob ?k"
    note eq = record_borrow_admitted [of port "()" st g f mem r]
    have putps: "counts_ok (?ob(?k \<mapsto> ?ps)) (live st)"
      by (rule counts_ok_put [OF ok object_paths_ok(1) [OF ok] object_paths_ok(2) [OF ok]]) simp
    show ?thesis
    proof (cases "conflicts ?ps r \<or> slot_for (mem Paths) (rpath r) ?ps = None")
      case True
      with eq False f rb have "st' = st\<lparr>object_borrows := ?ob(?k \<mapsto> ?ps)\<rparr> \<and> res \<noteq> Ok ()"
        by (auto simp: Let_def split: if_splits)
      with same [OF putps] show ?thesis by auto
    next
      case nc: False
      then obtain qs i where s: "slot_for (mem Paths) (rpath r) ?ps = Some (qs, i)" by auto
      note bump = bump_counts [OF ok s]
      show ?thesis
      proof (cases "rkind r = Shared \<and> checked_add (shared_count (qs ! i)) 1 = None")
        case True
        with eq False f rb nc s have "st' = st\<lparr>object_borrows := ?ob(?k \<mapsto> qs)\<rparr> \<and> res \<noteq> Ok ()"
          by (auto simp: Let_def)
        with same [OF bump(2)] show ?thesis by auto
      next
        case go: False
        let ?fr = "(active_frames st)(gframe g \<mapsto> f\<lparr>borrows := borrows f @ [r]\<rparr>)"
        have st': "st' = st\<lparr>object_borrows := ?ob(?k \<mapsto> qs[i := bump (rkind r) (qs ! i)]), active_frames := ?fr\<rparr>" "res = Ok ()"
          using eq False f rb nc s go by (auto simp: Let_def)
        have live': "live st' = add_mset r (live st)"
          using pool_push [OF fin f(1)] by (simp add: live_pool st'(1))
        have "exclusive (live st')" unfolding live'
          by (rule exclusive_add [OF ex]) (use no_conflict_compatible [OF ok] nc in blast)
        moreover have "f' < next_frame_id st' \<and> fepoch fr < next_epoch st'" if "active_frames st' f' = Some fr" for f' fr
          using that inv f(1) unfolding st'(1) borrow_inv_def by (cases "f' = gframe g") auto
        ultimately show ?thesis using live' bump(1) fin st' unfolding borrow_inv_def by simp
      qed
    qed
  qed
  then show "borrow_inv st'" "res = Ok () \<Longrightarrow> live st' = add_mset r (live st)"
    "res \<noteq> Ok () \<Longrightarrow> active_frames st' = active_frames st" by auto
qed

section \<open>Entering and leaving frames\<close>

lemma leave_frame_inv:
  assumes inv: "borrow_inv st" and f: "active_frames st fid = Some f" "fepoch f = ep"
  shows "\<exists>st'. leave_frame st fid ep = (st', []) \<and> borrow_inv st' \<and> live st = mset (borrows f) + live st' \<and>
    active_frames st' = (active_frames st)(fid := None) \<and> next_frame_id st' = next_frame_id st \<and> next_epoch st' = next_epoch st"
proof -
  have fin: "finite (dom (active_frames st))" using inv by (simp add: borrow_inv_def)
  have split: "live st = mset (borrows f) + pool ((active_frames st)(fid := None))"
    using pool_remove [OF fin f(1)] by (simp add: live_pool)
  have "counts_ok (object_borrows st) (mset (borrows f) + pool ((active_frames st)(fid := None)))"
    using inv split by (simp add: borrow_inv_def)
  from return_all_ok [OF this, of "[]"] obtain ob where
    ob: "fold return_borrow (borrows f) (object_borrows st, []) = (ob, [])" "counts_ok ob (pool ((active_frames st)(fid := None)))"
    by blast
  let ?st = "st\<lparr>active_frames := (active_frames st)(fid := None), object_borrows := ob\<rparr>"
  have "exclusive (pool ((active_frames st)(fid := None)))"
    by (rule exclusive_mono [of "mset (borrows f)"]) (use inv split in \<open>simp add: borrow_inv_def\<close>)
  then have "borrow_inv ?st" using inv ob(2) by (auto simp: borrow_inv_def live_pool)
  moreover have "leave_frame st fid ep = (?st, [])" using f ob(1) by (simp add: leave_frame_def)
  ultimately show ?thesis using split by (intro exI [of _ ?st]) (auto simp: live_pool)
qed

lemma enter_frame_inv:
  assumes inv: "borrow_inv (bstate tb)" and e: "enter_frame_in port mem tb = Ok (tb', g)"
  shows "borrow_inv (bstate tb')" "live (bstate tb') = live (bstate tb)" "active_frames (bstate tb) (gframe g) = None"
    "active_frames (bstate tb') = (active_frames (bstate tb))(gframe g \<mapsto> \<lparr>fepoch = gepoch g, borrows = []\<rparr>)"
    "owner tb' = owner tb" "object_borrows (bstate tb') = object_borrows (bstate tb)"
proof -
  let ?st = "bstate tb"
  have e': "tb' = tb\<lparr>bstate := ?st\<lparr>next_frame_id := next_frame_id ?st + 1, next_epoch := next_epoch ?st + 1,
      active_frames := (active_frames ?st)(next_frame_id ?st \<mapsto> \<lparr>fepoch = next_epoch ?st, borrows = []\<rparr>)\<rparr>\<rparr>"
    "g = \<lparr>gframe = next_frame_id ?st, gepoch = next_epoch ?st\<rparr>"
    using e by (auto simp: enter_frame_in_def Let_def checked_add_eq_Some split: if_splits)
  show new: "active_frames ?st (gframe g) = None" using inv e'(2)
    by (cases "active_frames ?st (next_frame_id ?st)") (auto simp: borrow_inv_def)
  show "active_frames (bstate tb') = (active_frames ?st)(gframe g \<mapsto> \<lparr>fepoch = gepoch g, borrows = []\<rparr>)"
    "owner tb' = owner tb" "object_borrows (bstate tb') = object_borrows (bstate tb)"
    using e' by simp_all
  have fin: "finite (dom (active_frames ?st))" using inv by (simp add: borrow_inv_def)
  show l: "live (bstate tb') = live ?st"
    using pool_update [OF fin, of "gframe g" "\<lparr>fepoch = gepoch g, borrows = []\<rparr>"] pool_absent [of "active_frames ?st" "gframe g"] new e'
    by (simp add: live_pool)
  show "borrow_inv (bstate tb')" using inv l e' by (auto simp: borrow_inv_def less_Suc_eq)
qed

lemma guard_drop_inv:
  assumes "borrow_inv (bstate tb)" "active_frames (bstate tb) (gframe g) = Some f" "fepoch f = gepoch g"
  shows "\<exists>tb'. guard_drop tb g = (tb', []) \<and> borrow_inv (bstate tb') \<and> owner tb' = owner tb \<and>
    live (bstate tb) = mset (borrows f) + live (bstate tb') \<and>
    active_frames (bstate tb') = (active_frames (bstate tb))(gframe g := None)"
  using leave_frame_inv [OF assms] by (auto simp: guard_drop_def)

lemma borrow_inv_default: "borrow_inv borrow_state_default"
  by (simp add: borrow_inv_def borrow_state_default_def live_def counts_ok_def live_count_def exclusive_def)

lemma reachable_inv: "reachable tb \<Longrightarrow> borrow_inv (bstate tb)"
proof (induction rule: reachable.induct)
  case (initially w)
  then show ?case by (simp add: borrow_inv_default)
next
  case (stepped tb tb')
  from stepped.hyps(2) show ?case
  proof cases
    case (entered port mem g)
    then show ?thesis using enter_frame_inv(1) [OF stepped.IH] by blast
  next
    case (recorded port mem g r st res)
    then show ?thesis using record_borrow_inv(1) [OF stepped.IH] by simp
  next
    case (dropped g faults f)
    then show ?thesis using guard_drop_inv [OF stepped.IH, of g f] by auto
  qed
qed

lemma live_count_le: "live_count M k p kd \<le> size M"
  by (simp add: live_count_def size_filter_mset_lesseq)

lemma record_borrow_succeeds_iff:
  assumes inv: "borrow_inv st" and g: "active_frames st (gframe g) = Some f" "fepoch f = gepoch g"
    and p: "ensure_allowed port = Ok ()" and mem: "\<And>site. mem site" and few: "size (live st) < usize_max"
  shows "snd (record_borrow port mem st g r) = Ok () \<longleftrightarrow> (\<forall>s \<in># live st. compatible r s)"
proof -
  let ?ps = "object_paths (object_borrows st) (record_key r)"
  have ok: "counts_ok (object_borrows st) (live st)" using inv by (simp add: borrow_inv_def)
  note eq = record_borrow_admitted [OF p g mem [of Borrows] mem [of Objects], of r]
  have iff: "conflicts ?ps r \<longleftrightarrow> \<not> (\<forall>s \<in># live st. compatible r s)"
    using conflict_incompatible [OF ok] no_conflict_compatible(1) [OF ok] by blast
  obtain qs i where s: "slot_for (mem Paths) (rpath r) ?ps = Some (qs, i)"
    using mem [of Paths] by (cases "path_position (rpath r) ?ps") (auto simp: slot_for_def)
  note q = slot_for_ok [OF object_paths_ok(1) [OF ok] s]
  have "entries qs (rpath r) = Some (qs ! i)" using entries_iff [OF q(1)] q(2,3) by simp
  then have "shared_count (qs ! i) = live_count (live st) (record_key r) (rpath r) Shared"
    using q(4) [of "rpath r"] object_paths_ok(2) [OF ok, of "record_key r" "rpath r"] by (simp add: path_counts_Some)
  then have "checked_add (shared_count (qs ! i)) 1 \<noteq> None"
    using few live_count_le [of "live st" "record_key r" "rpath r" Shared] by (simp add: checked_add_def)
  then show ?thesis using iff s by (auto simp: eq Let_def)
qed

lemma record_borrow_frames:
  assumes "record_borrow port mem st g r = (st', res)"
  shows "next_frame_id st' = next_frame_id st" "dom (active_frames st') = dom (active_frames st)"
proof -
  have "next_frame_id st' = next_frame_id st \<and> dom (active_frames st') = dom (active_frames st)"
  proof (cases "ensure_allowed port \<noteq> Ok () \<or> active_frames st (gframe g) = None \<or>
    fepoch (the (active_frames st (gframe g))) \<noteq> gepoch g \<or> \<not> mem Borrows \<or> \<not> mem Objects")
    case True
    from record_borrow_rejected [OF True, of r] assms show ?thesis by auto
  next
    case False
    then obtain f where f: "active_frames st (gframe g) = Some f" "fepoch f = gepoch g" by auto
    with False assms record_borrow_admitted [of port "()" st g f mem r] show ?thesis
      by (auto simp: Let_def split: if_splits option.splits)
  qed
  then show "next_frame_id st' = next_frame_id st" "dom (active_frames st') = dom (active_frames st)" by auto
qed

lemma retired_step:
  assumes "borrow_step tb tb'" "retired f tb" shows "retired f tb' \<and> owner tb' = owner tb"
  using assms(1)
proof cases
  case (entered port mem g)
  then show ?thesis using assms(2)
    by (auto simp: enter_frame_in_def Let_def checked_add_eq_Some retired_def split: if_splits)
next
  case (recorded port mem g r st res)
  with record_borrow_frames [of port mem "bstate tb" g r st res] assms(2) show ?thesis
    by (auto simp: retired_def domIff)
next
  case (dropped g faults fr)
  then show ?thesis using assms(2)
    by (auto simp: guard_drop_def leave_frame_def retired_def Let_def split: prod.splits)
qed

lemma retired_steps:
  assumes "borrow_step\<^sup>*\<^sup>* tb tb'" "retired f tb" shows "retired f tb' \<and> owner tb' = owner tb"
  using assms by (induction rule: rtranclp_induct) (auto dest: retired_step)

lemma table_borrow_Ok:
  assumes "table_borrow port mem tb g obj k ty = (tb', Ok t)"
  shows "\<exists>f. active_frames (bstate tb') (gframe g) = Some f \<and> fepoch f = gepoch g \<and>
      \<lparr>robject = obj, rkind = k, rtype = Some ty, rpath = []\<rparr> \<in> set (borrows f)"
    "t = \<lparr>towner = owner tb, tframe = gframe g, tobject = obj, tkind = k, ttype = ty, tepoch = gepoch g\<rparr>"
    "owner tb' = owner tb"
    "record_borrow port mem (bstate tb) g \<lparr>robject = obj, rkind = k, rtype = Some ty, rpath = []\<rparr> = (bstate tb', Ok ())"
proof -
  let ?r = "\<lparr>robject = obj, rkind = k, rtype = Some ty, rpath = []\<rparr>"
  from assms show rb: "record_borrow port mem (bstate tb) g ?r = (bstate tb', Ok ())"
    and "t = \<lparr>towner = owner tb, tframe = gframe g, tobject = obj, tkind = k, ttype = ty, tepoch = gepoch g\<rparr>"
    and "owner tb' = owner tb"
    by (auto simp: table_borrow_def Let_def split: prod.splits)
  have "\<not> (ensure_allowed port \<noteq> Ok () \<or> active_frames (bstate tb) (gframe g) = None \<or>
    fepoch (the (active_frames (bstate tb) (gframe g))) \<noteq> gepoch g \<or> \<not> mem Borrows \<or> \<not> mem Objects)"
    using record_borrow_rejected(2) [of port "bstate tb" g mem ?r] rb by (metis snd_conv)
  then obtain f where f: "active_frames (bstate tb) (gframe g) = Some f" "fepoch f = gepoch g" "ensure_allowed port = Ok ()"
    "mem Borrows" "mem Objects" by auto
  from record_borrow_admitted [OF f(3,1,2,4,5), of ?r] rb
  show "\<exists>f. active_frames (bstate tb') (gframe g) = Some f \<and> fepoch f = gepoch g \<and> ?r \<in> set (borrows f)"
    using f by (auto simp: Let_def split: if_splits option.splits)
qed

section \<open>Properties\<close>

lemma frame_table_reachable: "reachable frame_table"
proof -
  have "enter_frame_in None grant_all empty_table = Ok (frame_table, sample_guard)"
    by (simp add: enter_frame_in_def empty_table_def frame_table_def sample_guard_def grant_all_def ensure_allowed_def
        borrow_state_default_def checked_add_def usize_max_def Let_def)
  then show ?thesis using reachable.stepped [OF reachable.initially borrow_step.entered] by (simp add: empty_table_def)
qed

lemma shared_table_step:
  assumes "n = 0 \<and> tb = frame_table \<or> 0 < n \<and> n < 10 \<and> tb = shared_table n"
  shows "table_borrow None grant_all tb sample_guard 7 Shared 3 =
    (shared_table (Suc n), Ok \<lparr>towner = 1, tframe = 0, tobject = 7, tkind = Shared, ttype = 3, tepoch = 0\<rparr>)"
proof -
  have rep: "replicate n sample_record @ [sample_record] = sample_record # replicate n sample_record"
    by (simp add: replicate_append_same)
  show ?thesis using assms rep
    by (auto simp: table_borrow_def record_borrow_def frame_table_def shared_table_def sample_guard_def grant_all_def
        ensure_allowed_def record_key_def conflicts_def paths_overlap_def starts_with_def checked_add_def usize_max_def
        sample_record_def Let_def)
qed

lemma shared_table_reachable: "reachable (shared_table 2)"
proof -
  have one: "reachable (shared_table 1)"
  proof (rule reachable.stepped [OF frame_table_reachable])
    have "record_borrow None grant_all (bstate frame_table) sample_guard sample_record = (bstate (shared_table 1), Ok ())"
      using table_borrow_Ok(4) [OF shared_table_step [of 0]] by (simp add: sample_record_def)
    moreover have "frame_table\<lparr>bstate := bstate (shared_table 1)\<rparr> = shared_table 1"
      by (simp add: frame_table_def shared_table_def)
    ultimately show "borrow_step frame_table (shared_table 1)" using borrow_step.recorded by metis
  qed
  show ?thesis
  proof (rule reachable.stepped [OF one])
    have "record_borrow None grant_all (bstate (shared_table 1)) sample_guard sample_record = (bstate (shared_table 2), Ok ())"
      using table_borrow_Ok(4) [OF shared_table_step [of 1]] by (simp add: sample_record_def numeral_2_eq_2)
    moreover have "(shared_table 1)\<lparr>bstate := bstate (shared_table 2)\<rparr> = shared_table 2" by (simp add: shared_table_def)
    ultimately show "borrow_step (shared_table 1) (shared_table 2)" using borrow_step.recorded by metis
  qed
qed

lemma shared_table_live: "live (bstate (shared_table n)) = mset (replicate n sample_record)"
  by (simp add: live_def shared_table_def)

text \<open>
  (C26) No aliased mutation: in every reachable borrow table, two live borrows of the same host
  object whose field paths overlap (one is a prefix of the other) are both shared. This holds across
  frames, for whole-object and field borrows.
\<close>

theorem borrows_exclusive:
  assumes "reachable tb" "r \<in># live (bstate tb)" "s \<in># live (bstate tb) - {#r#}"
    "record_key r = record_key s" "paths_overlap (rpath r) (rpath s)"
  shows "rkind r = Shared \<and> rkind s = Shared"
proof -
  have "exclusive (live (bstate tb))" using reachable_inv [OF assms(1)] by (simp add: borrow_inv_def)
  then have "compatible r s" using assms(2,3) unfolding exclusive_def by blast
  then show ?thesis using assms(4,5) by (simp add: compatible_def)
qed

theorem borrows_exclusive_witness: "rkind sample_record = Shared"
  using borrows_exclusive [OF shared_table_reachable, of sample_record sample_record]
  by (simp add: shared_table_live numeral_2_eq_2 paths_overlap_def starts_with_def)

text \<open>
  (C27) Borrow admission is exact: through an active guard, with memory available and fewer than
  \<open>usize::MAX\<close> live borrows, a borrow succeeds if and only if it is compatible with every live
  borrow, that is, no live borrow of an overlapping path is unique, nor shared when the new one is unique.
\<close>

theorem borrow_admission_exact:
  assumes "reachable tb" "active_frames (bstate tb) (gframe g) = Some f" "fepoch f = gepoch g"
    "ensure_allowed port = Ok ()" "\<And>site. mem site" "size (live (bstate tb)) < usize_max"
  shows "snd (record_borrow port mem (bstate tb) g r) = Ok () \<longleftrightarrow> (\<forall>s \<in># live (bstate tb). compatible r s)"
  using record_borrow_succeeds_iff [OF reachable_inv [OF assms(1)] assms(2-6)] .

theorem borrow_admission_exact_witness:
  "snd (record_borrow None grant_all (bstate (shared_table 2)) sample_guard (sample_record\<lparr>rkind := Unique\<rparr>)) \<noteq> Ok ()"
proof -
  have "snd (record_borrow None grant_all (bstate (shared_table 2)) sample_guard (sample_record\<lparr>rkind := Unique\<rparr>)) = Ok ()
    \<longleftrightarrow> (\<forall>s \<in># live (bstate (shared_table 2)). compatible (sample_record\<lparr>rkind := Unique\<rparr>) s)"
    by (rule borrow_admission_exact [OF shared_table_reachable, where f = "\<lparr>fepoch = 0, borrows = replicate 2 sample_record\<rparr>"])
      (unfold shared_table_live, simp_all add: shared_table_def sample_guard_def ensure_allowed_def grant_all_def usize_max_def)
  then show ?thesis
    by (simp add: shared_table_live numeral_2_eq_2 compatible_def sample_record_def record_key_def paths_overlap_def starts_with_def)
qed

text \<open>
  (C28) Dropping a guard returns exactly the borrows of its frame: no internal fault is reported, the
  other frames keep their borrows, and the counters agree with the borrows that are left.
\<close>

theorem guard_drop_returns_borrows:
  assumes "reachable tb" "active_frames (bstate tb) (gframe g) = Some f" "fepoch f = gepoch g"
  shows "\<exists>tb'. guard_drop tb g = (tb', []) \<and> reachable tb' \<and>
    live (bstate tb) = mset (borrows f) + live (bstate tb') \<and>
    active_frames (bstate tb') = (active_frames (bstate tb))(gframe g := None) \<and>
    counts_ok (object_borrows (bstate tb')) (live (bstate tb'))"
proof -
  from guard_drop_inv [OF reachable_inv [OF assms(1)] assms(2,3)] obtain tb' where
    t: "guard_drop tb g = (tb', [])" "borrow_inv (bstate tb')" "live (bstate tb) = mset (borrows f) + live (bstate tb')"
    "active_frames (bstate tb') = (active_frames (bstate tb))(gframe g := None)" by blast
  have "reachable tb'" using reachable.stepped [OF assms(1) borrow_step.dropped [OF t(1) assms(2,3)]] .
  with t show ?thesis by (auto simp: borrow_inv_def)
qed

theorem guard_drop_returns_borrows_witness:
  "\<exists>tb'. guard_drop (shared_table 2) sample_guard = (tb', []) \<and> live (bstate tb') = {#}"
proof -
  from guard_drop_returns_borrows [OF shared_table_reachable, of sample_guard "\<lparr>fepoch = 0, borrows = replicate 2 sample_record\<rparr>"]
  obtain tb' where "guard_drop (shared_table 2) sample_guard = (tb', [])"
    "live (bstate (shared_table 2)) = mset (replicate 2 sample_record) + live (bstate tb')"
    by (auto simp: shared_table_def sample_guard_def)
  then show ?thesis by (auto simp: shared_table_live)
qed

text \<open>
  (C29) Tokens live as long as their frame: a token just issued validates for every access its kind
  permits, and once its guard is dropped it is rejected by the table for ever, whatever frames are
  entered and left afterwards.
\<close>

theorem token_lifetime:
  assumes "reachable tb" "table_borrow port mem tb g obj k ty = (tb', Ok t)" "satisfies k req"
    "guard_drop tb' g = (tb'', faults)" "borrow_step\<^sup>*\<^sup>* tb'' later"
  shows "table_validate tb' t req = Ok () \<and> table_validate later t req = Err (inactive_frame (gframe g))"
proof -
  note b = table_borrow_Ok [OF assms(2)]
  from b(1) obtain f where f: "active_frames (bstate tb') (gframe g) = Some f" "fepoch f = gepoch g"
    "\<lparr>robject = obj, rkind = k, rtype = Some ty, rpath = []\<rparr> \<in> set (borrows f)" by blast
  have m: "matches \<lparr>robject = obj, rkind = k, rtype = Some ty, rpath = []\<rparr> t"
    by (cases k) (simp_all add: matches_def b(2))
  have now: "table_validate tb' t req = Ok ()"
    using f m assms(3) by (auto simp: table_validate_def b(2,3) list_ex_iff)
  have inv': "borrow_inv (bstate tb')" using record_borrow_inv(1) [OF reachable_inv [OF assms(1)] b(4)] .
  from guard_drop_inv [OF inv' f(1,2)] assms(4) have "active_frames (bstate tb'') (gframe g) = None" "owner tb'' = owner tb'"
    by auto
  moreover have "gframe g < next_frame_id (bstate tb')" using inv' f(1) by (auto simp: borrow_inv_def)
  moreover have "next_frame_id (bstate tb'') = next_frame_id (bstate tb')" using assms(4) f(1)
    by (auto simp: guard_drop_def leave_frame_def Let_def split: prod.splits)
  ultimately have "retired (gframe g) tb''" "owner tb'' = owner tb'" by (simp_all add: retired_def)
  with retired_steps [OF assms(5)] have "retired (gframe g) later" "owner later = owner tb" using b(3) by auto
  then have "table_validate later t req = Err (inactive_frame (gframe g))"
    by (simp add: table_validate_def b(2) retired_def)
  with now show ?thesis by simp
qed

theorem token_lifetime_witness:
  "\<exists>t later. table_validate (shared_table 1) t Shared = Ok () \<and> table_validate later t Shared = Err (inactive_frame 0)"
proof -
  obtain tb'' faults where "guard_drop (shared_table (Suc 0)) sample_guard = (tb'', faults)" by fastforce
  from token_lifetime [OF frame_table_reachable shared_table_step [of 0] _ this rtranclp.rtrancl_refl, of Shared]
  show ?thesis by (auto simp: sample_guard_def)
qed

end
