(* ===== verification/Source_Text.thy ===== *)
theory Source_Text
  imports Kagari_Prelude
begin

text \<open>
  Source text: what the front end uses of Rust's \<^verbatim>\<open>char\<close> and \<^verbatim>\<open>str\<close>, spans
  (\<^verbatim>\<open>crates/kagari-common/src/span.rs\<close>), cancellation (\<^verbatim>\<open>crates/kagari-common/src/cancellation.rs\<close>) and
  the polling character iterator of the lexer and the literal decoders.

  A character is its Unicode scalar value, a text the list of its characters; offsets count the bytes
  of its UTF-8 encoding. \<open>slice\<close> is \<^verbatim>\<open>str::get\<close> of a range, \<open>None\<close> where indexing would panic.

  Another thread may cancel at any moment and cancellation is never taken back. A token is
  therefore the number of checks that still succeed (\<open>None\<close>: it is never cancelled), and every check
  is counted. \<open>chars\<close> is \<^verbatim>\<open>char_indices().take_while(poll).peekable()\<close>: a character is polled for when it
  is first looked at, and after a failed poll the iterator pretends that the text has ended.
\<close>

section \<open>Definitions\<close>

subsection \<open>Characters\<close>

type_synonym scalar = nat
type_synonym str = "scalar list"

abbreviation uc :: "char \<Rightarrow> scalar" where
  "uc c \<equiv> of_char c"

abbreviation us :: "string \<Rightarrow> str" where
  "us s \<equiv> map of_char s"

abbreviation dquote :: scalar where
  "dquote \<equiv> 0x22"

abbreviation squote :: scalar where
  "squote \<equiv> 0x27"

abbreviation backslash :: scalar where
  "backslash \<equiv> 0x5C"

abbreviation tab :: scalar where
  "tab \<equiv> 9"

abbreviation lf :: scalar where
  "lf \<equiv> 10"

abbreviation cr :: scalar where
  "cr \<equiv> 13"

definition len_utf8 :: "scalar \<Rightarrow> nat" where
  "len_utf8 c = (if c < 0x80 then 1 else if c < 0x800 then 2 else if c < 0x10000 then 3 else 4)"

definition len_utf16 :: "scalar \<Rightarrow> nat" where
  "len_utf16 c = (if c < 0x10000 then 1 else 2)"

definition encode_utf8 :: "scalar \<Rightarrow> nat list" where
  "encode_utf8 c =
     (if c < 0x80 then [c]
      else if c < 0x800 then [0xC0 + c div 0x40, 0x80 + c mod 0x40]
      else if c < 0x10000 then [0xE0 + c div 0x1000, 0x80 + c div 0x40 mod 0x40, 0x80 + c mod 0x40]
      else [0xF0 + c div 0x40000, 0x80 + c div 0x1000 mod 0x40, 0x80 + c div 0x40 mod 0x40, 0x80 + c mod 0x40])"

definition from_u32 :: "nat \<Rightarrow> scalar option" where
  "from_u32 n = (if n < 0xD800 \<or> 0xE000 \<le> n \<and> n < 0x110000 then Some n else None)"

text \<open>The Unicode property \<^verbatim>\<open>White_Space\<close>.\<close>

definition is_whitespace :: "scalar \<Rightarrow> bool" where
  "is_whitespace c \<longleftrightarrow> 9 \<le> c \<and> c \<le> 13 \<or> c = 0x20 \<or> c = 0x85 \<or> c = 0xA0 \<or> c = 0x1680 \<or> 0x2000 \<le> c \<and> c \<le> 0x200A \<or>
     c = 0x2028 \<or> c = 0x2029 \<or> c = 0x202F \<or> c = 0x205F \<or> c = 0x3000"

definition is_ascii :: "scalar \<Rightarrow> bool" where
  "is_ascii c \<longleftrightarrow> c < 0x80"

definition is_ascii_digit :: "scalar \<Rightarrow> bool" where
  "is_ascii_digit c \<longleftrightarrow> uc CHR ''0'' \<le> c \<and> c \<le> uc CHR ''9''"

definition is_ascii_alphabetic :: "scalar \<Rightarrow> bool" where
  "is_ascii_alphabetic c \<longleftrightarrow> uc CHR ''a'' \<le> c \<and> c \<le> uc CHR ''z'' \<or> uc CHR ''A'' \<le> c \<and> c \<le> uc CHR ''Z''"

definition is_ascii_alphanumeric :: "scalar \<Rightarrow> bool" where
  "is_ascii_alphanumeric c \<longleftrightarrow> is_ascii_alphabetic c \<or> is_ascii_digit c"

definition to_digit :: "nat \<Rightarrow> scalar \<Rightarrow> nat option" where
  "to_digit radix c =
     (let d = (if is_ascii_digit c then Some (c - uc CHR ''0'')
               else if uc CHR ''a'' \<le> c \<and> c \<le> uc CHR ''z'' then Some (c - uc CHR ''a'' + 10)
               else if uc CHR ''A'' \<le> c \<and> c \<le> uc CHR ''Z'' then Some (c - uc CHR ''A'' + 10) else None)
      in case d of Some n \<Rightarrow> if n < radix then Some n else None | None \<Rightarrow> None)"

definition is_digit :: "nat \<Rightarrow> scalar \<Rightarrow> bool" where
  "is_digit radix c \<longleftrightarrow> to_digit radix c \<noteq> None"

subsection \<open>Texts\<close>

fun byte_len :: "str \<Rightarrow> nat" where
  "byte_len [] = 0"
| "byte_len (c # s) = len_utf8 c + byte_len s"

definition str_bytes :: "str \<Rightarrow> nat list" where
  "str_bytes s = concat (map encode_utf8 s)"

definition byte_at :: "str \<Rightarrow> nat \<Rightarrow> nat option" where
  "byte_at s i = (if i < length (str_bytes s) then Some (str_bytes s ! i) else None)"

fun split_text :: "nat \<Rightarrow> str \<Rightarrow> (str \<times> str) option" where
  "split_text n [] = (if n = 0 then Some ([], []) else None)"
| "split_text n (c # s) = (if n = 0 then Some ([], c # s) else if len_utf8 c \<le> n then map_option (\<lambda>(l, r). (c # l, r)) (split_text (n - len_utf8 c) s) else None)"

definition is_char_boundary :: "str \<Rightarrow> nat \<Rightarrow> bool" where
  "is_char_boundary s i \<longleftrightarrow> split_text i s \<noteq> None"

definition slice_from :: "str \<Rightarrow> nat \<Rightarrow> str option" where
  "slice_from s a = map_option snd (split_text a s)"

definition slice :: "str \<Rightarrow> nat \<Rightarrow> nat \<Rightarrow> str option" where
  "slice s a b = (if a \<le> b then case split_text a s of Some (l, r) \<Rightarrow> map_option fst (split_text (b - a) r) | None \<Rightarrow> None else None)"

fun str_starts :: "str \<Rightarrow> str \<Rightarrow> bool" where
  "str_starts s [] \<longleftrightarrow> True"
| "str_starts (c # s) (d # p) \<longleftrightarrow> c = d \<and> str_starts s p"
| "str_starts [] (d # p) \<longleftrightarrow> False"

definition str_starts_any :: "str \<Rightarrow> scalar list \<Rightarrow> bool" where
  "str_starts_any s cs \<longleftrightarrow> (case s of c # _ \<Rightarrow> c \<in> set cs | [] \<Rightarrow> False)"

definition strip_prefix :: "str \<Rightarrow> str \<Rightarrow> str option" where
  "strip_prefix p s = (if str_starts s p then Some (drop (length p) s) else None)"

definition strip_suffix :: "str \<Rightarrow> str \<Rightarrow> str option" where
  "strip_suffix p s = (if str_starts (rev s) (rev p) then Some (take (length s - length p) s) else None)"

record span =
  sstart :: nat
  send :: nat

definition span_new :: "nat \<Rightarrow> nat \<Rightarrow> span" where
  "span_new a b = \<lparr>sstart = a, send = b\<rparr>"

subsection \<open>Cancellation\<close>

datatype cancelled = Cancelled

type_synonym cancellation = "nat option"

definition cancel_seen :: "cancellation \<Rightarrow> nat \<Rightarrow> bool" where
  "cancel_seen c k \<longleftrightarrow> (case c of Some n \<Rightarrow> n \<le> k | None \<Rightarrow> False)"

text \<open>The check numbered \<open>k\<close>.\<close>

definition cancel_check :: "cancellation \<Rightarrow> nat \<Rightarrow> (cancelled, unit) outcome" where
  "cancel_check c k = (if cancel_seen c k then Err Cancelled else Ok ())"

subsection \<open>The polling iterator\<close>

definition CANCELLATION_CHECK_BYTES :: nat where
  "CANCELLATION_CHECK_BYTES = 4 * 1024"

record chars =
  peeked :: "(nat \<times> scalar) option option"
  ahead :: str
  at_byte :: nat
  next_check :: "nat option"
  ended :: bool
  polls :: nat

text \<open>\<open>k\<close> checks have been made when the iterator is created.\<close>

definition polling_chars :: "str \<Rightarrow> nat \<Rightarrow> chars" where
  "polling_chars s k = \<lparr>peeked = None, ahead = s, at_byte = 0, next_check = Some CANCELLATION_CHECK_BYTES, ended = False, polls = k\<rparr>"

definition plain_chars :: "str \<Rightarrow> chars" where
  "plain_chars s = \<lparr>peeked = None, ahead = s, at_byte = 0, next_check = None, ended = False, polls = 0\<rparr>"

definition pull :: "cancellation \<Rightarrow> chars \<Rightarrow> (nat \<times> scalar) option \<times> chars" where
  "pull c it =
     (if ended it then (None, it)
      else case ahead it of
        [] \<Rightarrow> (None, it)
      | ch # cs \<Rightarrow>
          let i = at_byte it; it' = it\<lparr>ahead := cs, at_byte := i + len_utf8 ch\<rparr>
          in case next_check it of
               None \<Rightarrow> (Some (i, ch), it')
             | Some n \<Rightarrow>
                 if i < n then (Some (i, ch), it')
                 else let it'' = it'\<lparr>next_check := Some (saturating_add i CANCELLATION_CHECK_BYTES), polls := polls it + 1\<rparr>
                      in if cancel_seen c (polls it) then (None, it''\<lparr>ended := True\<rparr>) else (Some (i, ch), it''))"

definition peek_char :: "cancellation \<Rightarrow> chars \<Rightarrow> (nat \<times> scalar) option \<times> chars" where
  "peek_char c it =
     (case peeked it of
        Some x \<Rightarrow> (x, it)
      | None \<Rightarrow> (case pull c it of (x, it') \<Rightarrow> (x, it'\<lparr>peeked := Some x\<rparr>)))"

definition next_char :: "cancellation \<Rightarrow> chars \<Rightarrow> (nat \<times> scalar) option \<times> chars" where
  "next_char c it =
     (case peeked it of
        Some x \<Rightarrow> (x, it\<lparr>peeked := None\<rparr>)
      | None \<Rightarrow> pull c it)"

text \<open>\<^verbatim>\<open>chars.next()\<close> for its effect, and \<^verbatim>\<open>chars.peek().is_some_and(p)\<close>.\<close>

definition skip_char :: "cancellation \<Rightarrow> chars \<Rightarrow> chars" where
  "skip_char c it = snd (next_char c it)"

definition peek_is :: "cancellation \<Rightarrow> (scalar \<Rightarrow> bool) \<Rightarrow> chars \<Rightarrow> bool \<times> chars" where
  "peek_is c p it = (case peek_char c it of (x, it') \<Rightarrow> ((case x of Some (i, ch) \<Rightarrow> p ch | None \<Rightarrow> False), it'))"

text \<open>\<^verbatim>\<open>once(x).chain(chars)\<close>\<close>

definition unread :: "scalar \<Rightarrow> chars \<Rightarrow> chars" where
  "unread ch it = it\<lparr>peeked := Some (Some (0, ch))\<rparr>"

text \<open>The number of characters that are left, for the termination of the scanners.\<close>

definition chars_left :: "chars \<Rightarrow> nat" where
  "chars_left it = length (ahead it) + (case peeked it of Some (Some _) \<Rightarrow> 1 | _ \<Rightarrow> 0)"

lemma pull_left: "pull c it = (x, it') \<Longrightarrow> peeked it' = peeked it \<and> length (ahead it') \<le> length (ahead it) \<and> (x \<noteq> None \<longrightarrow> length (ahead it') < length (ahead it))"
  by (auto simp: pull_def Let_def split: if_splits list.splits option.splits)

lemma next_char_left: "next_char c it = (x, it') \<Longrightarrow> chars_left it' \<le> chars_left it \<and> (x \<noteq> None \<longrightarrow> chars_left it' < chars_left it)"
  using pull_left by (fastforce simp: next_char_def chars_left_def split: option.splits)

lemma peek_char_left: "peek_char c it = (x, it') \<Longrightarrow> chars_left it' \<le> chars_left it \<and> peeked it' = Some x"
  using pull_left by (fastforce simp: peek_char_def chars_left_def split: option.splits prod.splits)

lemma peek_next_char: "peek_char c it = (x, it') \<Longrightarrow> next_char d it' = (x, it'\<lparr>peeked := None\<rparr>)"
  by (auto simp: next_char_def dest: peek_char_left)

lemma skip_peeked_left:
  assumes "peek_char c it = (Some x, it')"
  shows "chars_left (skip_char d it') < chars_left it"
  using peek_char_left [OF assms] next_char_left [of d it' "Some x"] peek_next_char [OF assms, of d]
  by (fastforce simp: skip_char_def)

text \<open>
  \<^verbatim>\<open>while let Some((i, ch)) = chars.peek() { if !p(ch) { break } end = i + w(ch); chars.next(); }\<close>
\<close>

function take_run :: "cancellation \<Rightarrow> (scalar \<Rightarrow> bool) \<Rightarrow> (scalar \<Rightarrow> nat) \<Rightarrow> nat \<Rightarrow> chars \<Rightarrow> nat \<times> chars" where
  "take_run c p w e it =
     (case peek_char c it of
        (Some (i, ch), it') \<Rightarrow> if p ch then take_run c p w (i + w ch) (skip_char c it') else (e, it')
      | (None, it') \<Rightarrow> (e, it'))"
  by pat_completeness auto
termination
  by (relation "measure (\<lambda>(c, p, w, e, it). chars_left it)") (auto dest: skip_peeked_left [OF sym])

declare take_run.simps [simp del]

lemma take_run_step:
  assumes "peek_char c it = (x, it')"
  shows "take_run c p w e it = (case x of Some (i, ch) \<Rightarrow> if p ch then take_run c p w (i + w ch) (skip_char c it') else (e, it') | None \<Rightarrow> (e, it'))"
  by (subst take_run.simps) (auto simp: assms split: option.splits)


subsection \<open>Reference definitions\<close>

text \<open>
  \<open>pending\<close> is the character that has been looked at and not taken, \<open>here\<close> the offset of the next
  character, \<open>tripped\<close> says that a check has failed.
\<close>

definition pending :: "chars \<Rightarrow> str" where
  "pending it = (case peeked it of Some (Some (i, ch)) \<Rightarrow> [ch] | _ \<Rightarrow> [])"

definition here :: "chars \<Rightarrow> nat" where
  "here it = (case peeked it of Some (Some (i, ch)) \<Rightarrow> i | _ \<Rightarrow> at_byte it)"

definition tripped :: "cancellation \<Rightarrow> nat \<Rightarrow> bool" where
  "tripped c k \<longleftrightarrow> (\<exists>n. c = Some n \<and> n < k)"

definition stopped :: "chars \<Rightarrow> bool" where
  "stopped it \<longleftrightarrow> ended it \<and> pending it = []"

text \<open>The iterator stands somewhere in \<open>s\<close>.\<close>

definition within :: "cancellation \<Rightarrow> str \<Rightarrow> chars \<Rightarrow> bool" where
  "within c s it \<longleftrightarrow>
     (\<exists>pre. s = pre @ pending it @ ahead it \<and> here it = byte_len pre \<and> at_byte it = byte_len (pre @ pending it)) \<and>
     (ended it \<longrightarrow> tripped c (polls it)) \<and> (peeked it = Some None \<longrightarrow> ahead it = [] \<or> ended it)"

text \<open>
  From \<open>it\<close> to \<open>it'\<close> the characters \<open>m\<close> have been taken. Only a failed poll loses characters, and
  nothing is taken after it.
\<close>

definition moved :: "chars \<Rightarrow> str \<Rightarrow> chars \<Rightarrow> bool" where
  "moved it m it' \<longleftrightarrow>
     polls it \<le> polls it' \<and> (\<exists>d. pending it @ ahead it = m @ d @ pending it' @ ahead it' \<and> (d \<noteq> [] \<longrightarrow> stopped it')) \<and> (stopped it \<longrightarrow> m = [] \<and> stopped it')"

section \<open>Texts\<close>

lemma len_utf8_pos [simp]: "0 < len_utf8 c"
  by (simp add: len_utf8_def)

lemma length_encode_utf8: "length (encode_utf8 c) = len_utf8 c"
  by (simp add: encode_utf8_def len_utf8_def)

lemma byte_len_append [simp]: "byte_len (s @ t) = byte_len s + byte_len t"
  by (induction s) auto

lemma length_str_bytes: "length (str_bytes s) = byte_len s"
  by (induction s) (auto simp: str_bytes_def length_encode_utf8)

lemma str_bytes_simps [simp]: "str_bytes [] = []" "str_bytes (c # s) = encode_utf8 c @ str_bytes s" "str_bytes (s @ t) = str_bytes s @ str_bytes t"
  by (simp_all add: str_bytes_def)

lemma byte_len_0 [simp]: "byte_len s = 0 \<longleftrightarrow> s = []"
  by (cases s) auto

lemma split_text_append [simp]: "split_text (byte_len l) (l @ r) = Some (l, r)"
proof (induction l)
  case Nil
  show ?case by (cases r) simp_all
next
  case (Cons c l)
  then show ?case using len_utf8_pos [of c] by simp
qed

lemma split_text_Some: "split_text n s = Some (l, r) \<longleftrightarrow> s = l @ r \<and> n = byte_len l"
proof
  show "split_text n s = Some (l, r) \<Longrightarrow> s = l @ r \<and> n = byte_len l"
    by (induction n s arbitrary: l r rule: split_text.induct) (auto split: if_splits)
qed auto

lemma slice_Some: "slice s a b = Some m \<longleftrightarrow> (\<exists>l r. s = l @ m @ r \<and> a = byte_len l \<and> b = byte_len l + byte_len m)"
proof
  assume "slice s a b = Some m"
  then show "\<exists>l r. s = l @ m @ r \<and> a = byte_len l \<and> b = byte_len l + byte_len m"
    by (fastforce simp: slice_def split_text_Some split: if_splits option.splits)
qed (auto simp: slice_def)

lemma slice_append [simp]: "slice (l @ m @ r) (byte_len l) (byte_len l + byte_len m) = Some m"
  by (auto simp: slice_Some)

lemma slice_from_Some: "slice_from s a = Some r \<longleftrightarrow> (\<exists>l. s = l @ r \<and> a = byte_len l)"
  by (auto simp: slice_from_def split_text_Some)

lemma str_starts_iff: "str_starts s p \<longleftrightarrow> (\<exists>r. s = p @ r)"
  by (induction s p rule: str_starts.induct) auto

lemma strip_prefix_Some [simp]: "strip_prefix p s = Some r \<longleftrightarrow> s = p @ r"
  by (auto simp: strip_prefix_def str_starts_iff)

lemma strip_suffix_Some [simp]: "strip_suffix p s = Some r \<longleftrightarrow> s = r @ p"
  by (auto simp: strip_suffix_def str_starts_iff rev_swap) (metis rev_rev_ident)

text \<open>An ASCII byte of the encoding is an ASCII character.\<close>

lemma str_bytes_ascii: "str_bytes s = b # bs \<Longrightarrow> b < 0x80 \<Longrightarrow> \<exists>r. s = b # r \<and> str_bytes r = bs"
  by (cases s) (auto simp: encode_utf8_def split: if_splits)

section \<open>The polling iterator\<close>

lemma tripped_None [simp]: "\<not> tripped None k"
  by (simp add: tripped_def)

lemma tripped_mono: "tripped c k \<Longrightarrow> k \<le> l \<Longrightarrow> tripped c l"
  by (auto simp: tripped_def)

lemma tripped_Suc: "tripped c (Suc k) \<longleftrightarrow> cancel_seen c k"
  by (cases c) (auto simp: tripped_def cancel_seen_def)

lemma tripped_seen: "tripped c k \<Longrightarrow> cancel_seen c k"
  by (cases c) (auto simp: tripped_def cancel_seen_def)

lemma moved_refl [simp]: "moved it [] it"
  by (simp add: moved_def)

lemma moved_trans:
  assumes "moved it m it'" "moved it' n it''"
  shows "moved it (m @ n) it''"
proof -
  obtain d where d: "pending it @ ahead it = m @ d @ pending it' @ ahead it'" "d \<noteq> [] \<longrightarrow> stopped it'" using assms(1) by (auto simp: moved_def)
  obtain e where e: "pending it' @ ahead it' = n @ e @ pending it'' @ ahead it''" "e \<noteq> [] \<longrightarrow> stopped it''" using assms(2) by (auto simp: moved_def)
  have "pending it @ ahead it = (m @ n) @ (d @ e) @ pending it'' @ ahead it''" if "d = [] \<or> n = []" using d(1) e(1) that by auto
  moreover have "d = [] \<or> n = []" "d @ e \<noteq> [] \<longrightarrow> stopped it''" using d e assms(2) by (auto simp: moved_def)
  ultimately have "\<exists>d. pending it @ ahead it = (m @ n) @ d @ pending it'' @ ahead it'' \<and> (d \<noteq> [] \<longrightarrow> stopped it'')" by blast
  then show ?thesis using assms by (simp add: moved_def)
qed

lemma withinE:
  assumes "within c s it"
  obtains pre where "s = pre @ pending it @ ahead it" "here it = byte_len pre" "at_byte it = byte_len pre + byte_len (pending it)"
    "ended it \<longrightarrow> tripped c (polls it)" "peeked it = Some None \<longrightarrow> ahead it = [] \<or> ended it"
  using assms unfolding within_def byte_len_append by blast

lemma moved_polls: "moved it m it' \<Longrightarrow> polls it \<le> polls it'"
  by (simp add: moved_def)

lemma moved_slice:
  assumes "within c s it" "moved it m it'"
  shows "slice s (here it) (here it + byte_len m) = Some m"
proof -
  obtain pre where "s = pre @ pending it @ ahead it" "here it = byte_len pre" using assms(1) by (rule withinE)
  moreover obtain d where "pending it @ ahead it = m @ d @ pending it' @ ahead it'" using assms(2) by (auto simp: moved_def)
  ultimately show ?thesis unfolding slice_Some by (intro exI [of _ pre] exI [of _ "d @ pending it' @ ahead it'"]) simp
qed

lemma moved_here:
  assumes "within c s it" "moved it m it'" "within c s it'" "\<not> tripped c (polls it')"
  shows "here it' = here it + byte_len m" "pending it @ ahead it = m @ pending it' @ ahead it'"
proof -
  have "\<not> stopped it'" using assms(3,4) by (auto simp: within_def stopped_def)
  then show eq: "pending it @ ahead it = m @ pending it' @ ahead it'" using assms(2) by (auto simp: moved_def)
  obtain l where "s = l @ pending it @ ahead it" "here it = byte_len l" using assms(1) by (rule withinE)
  moreover obtain r where "s = r @ pending it' @ ahead it'" "here it' = byte_len r" using assms(3) by (rule withinE)
  ultimately show "here it' = here it + byte_len m" using eq by simp
qed

lemma within_slice_from:
  assumes "within c s it"
  shows "slice_from s (here it) = Some (pending it @ ahead it)"
  using assms by (elim withinE) (auto simp: slice_from_Some)

lemma pull_cases:
  assumes "pull c it = (x, it')"
  obtains (stop) "ended it" "x = None" "it' = it" | (finish) "\<not> ended it" "ahead it = []" "x = None" "it' = it"
  | (take) ch cs where "\<not> ended it" "ahead it = ch # cs" "x = Some (at_byte it, ch)" "ahead it' = cs" "at_byte it' = at_byte it + len_utf8 ch" "peeked it' = peeked it"
      "ended it' = False" "polls it' = polls it \<or> polls it' = Suc (polls it) \<and> \<not> cancel_seen c (polls it)"
  | (trip) ch cs where "\<not> ended it" "ahead it = ch # cs" "x = None" "ahead it' = cs" "at_byte it' = at_byte it + len_utf8 ch" "peeked it' = peeked it"
      "ended it'" "polls it' = Suc (polls it)" "cancel_seen c (polls it)"
proof (cases "ended it")
  case True then show ?thesis using assms by (intro stop) (auto simp: pull_def)
next
  case e: False
  show ?thesis
  proof (cases "ahead it")
    case Nil then show ?thesis using assms e by (intro finish) (auto simp: pull_def)
  next
    case (Cons ch cs)
    have "x = Some (at_byte it, ch) \<and> ahead it' = cs \<and> at_byte it' = at_byte it + len_utf8 ch \<and> peeked it' = peeked it \<and> ended it' = False \<and>
        (polls it' = polls it \<or> polls it' = Suc (polls it) \<and> \<not> cancel_seen c (polls it)) \<or>
      x = None \<and> ahead it' = cs \<and> at_byte it' = at_byte it + len_utf8 ch \<and> peeked it' = peeked it \<and> ended it' \<and> polls it' = Suc (polls it) \<and> cancel_seen c (polls it)"
      using assms e Cons by (cases "next_check it") (auto simp: pull_def Let_def split: if_splits)
    then show ?thesis using take [OF e Cons] trip [OF e Cons] by metis
  qed
qed

lemma pull_moved:
  assumes "pull c it = (x, it')" "peeked it = None" "within c s it"
  shows "within c s it' \<and> moved it (case x of Some (i, ch) \<Rightarrow> [ch] | None \<Rightarrow> []) it' \<and> peeked it' = None \<and>
    (case x of Some (i, ch) \<Rightarrow> i = here it | None \<Rightarrow> (tripped c (polls it') \<or> ahead it = []) \<and> (ahead it' = [] \<or> ended it'))"
  using assms(1)
proof (cases rule: pull_cases)
  case stop
  then show ?thesis using assms(2,3) by (auto simp: within_def)
next
  case finish
  then show ?thesis using assms(2,3) by (auto simp: within_def)
next
  case (take ch cs)
  obtain pre where "s = pre @ pending it @ ahead it" "here it = byte_len pre" "at_byte it = byte_len pre + byte_len (pending it)" using assms(3) by (rule withinE)
  then have "s = (pre @ [ch]) @ pending it' @ ahead it' \<and> here it' = byte_len (pre @ [ch]) \<and> at_byte it' = byte_len ((pre @ [ch]) @ pending it')"
    using take assms(2) by (simp add: pending_def here_def)
  then have "within c s it'" unfolding within_def using take assms(2) by (metis option.distinct(1))
  moreover have "moved it [ch] it'" using take assms(2) by (auto simp: moved_def pending_def stopped_def)
  ultimately show ?thesis using take assms(2) by (simp add: here_def)
next
  case (trip ch cs)
  obtain pre where "s = pre @ pending it @ ahead it" "here it = byte_len pre" "at_byte it = byte_len pre + byte_len (pending it)" using assms(3) by (rule withinE)
  then have "s = (pre @ [ch]) @ pending it' @ ahead it' \<and> here it' = byte_len (pre @ [ch]) \<and> at_byte it' = byte_len ((pre @ [ch]) @ pending it')"
    using trip assms(2) by (simp add: pending_def here_def)
  then have "within c s it'" unfolding within_def using trip assms(2) tripped_Suc by (metis option.distinct(1))
  moreover have "moved it [] it'" using trip assms(2) by (auto simp: moved_def pending_def stopped_def)
  ultimately show ?thesis using trip assms(2) by (simp add: tripped_Suc)
qed

lemma pull_agree: "pull c it = (x, it') \<Longrightarrow> \<not> tripped c (polls it') \<Longrightarrow> pull None it = (x, it')"
  by (cases "ahead it"; cases "next_check it") (auto simp: pull_def Let_def cancel_seen_def tripped_def split: if_splits option.splits)

lemma pull_polls: "pull c it = (x, it') \<Longrightarrow> polls it \<le> polls it'"
  by (erule pull_cases) auto

text \<open>
  Where the iterator is after looking at the next character, taking it, and taking a run. The last
  part of each lemma says that a run in which no check failed is the run without a token.
\<close>

lemma peek_char_ok:
  assumes "peek_char c it = (x, it')" "within c s it"
  shows "within c s it'" "moved it [] it'" "peeked it' = Some x" "x = Some (i, ch) \<Longrightarrow> i = here it' \<and> pending it' = [ch]"
    "x = None \<Longrightarrow> tripped c (polls it') \<or> pending it' @ ahead it' = []"
proof -
  have "within c s it' \<and> moved it [] it' \<and> peeked it' = Some x \<and> (case x of Some (i, ch) \<Rightarrow> i = here it' \<and> pending it' = [ch] | None \<Rightarrow> tripped c (polls it') \<or> pending it' @ ahead it' = [])"
  proof (cases "peeked it")
    case (Some y)
    then show ?thesis using assms by (auto simp: peek_char_def here_def pending_def within_def split: option.splits)
  next
    case None
    then obtain it1 where it1: "pull c it = (x, it1)" "it' = it1\<lparr>peeked := Some x\<rparr>" using assms(1) by (auto simp: peek_char_def split: prod.splits)
    note p = it1(1) [THEN pull_moved, OF None assms(2)]
    have n: "peeked it1 = None" using p by blast
    show ?thesis
    proof (cases x)
      case xN: None
      have "pending it' = pending it1" "here it' = here it1" "ahead it' = ahead it1" "at_byte it' = at_byte it1" "polls it' = polls it1" "ended it' = ended it1"
        using n xN it1(2) by (simp_all add: pending_def here_def)
      then show ?thesis using p n xN it1(2) by (auto simp: within_def moved_def stopped_def pending_def)
    next
      case (Some y)
      obtain i ch where y: "y = (i, ch)" by (cases y)
      note p = p [unfolded Some y, simplified]
      have sel: "pending it' = [ch]" "here it' = i" "ahead it' = ahead it1" "at_byte it' = at_byte it1" "polls it' = polls it1" "ended it' = ended it1" "pending it1 = []"
        using n Some y it1(2) by (simp_all add: pending_def here_def)
      obtain pre where pre: "s = pre @ pending it @ ahead it" "here it = byte_len pre" "at_byte it = byte_len pre + byte_len (pending it)" using assms(2) by (rule withinE)
      have pi: "pending it = []" using None by (simp add: pending_def)
      have t: "ahead it = ch # ahead it1" "at_byte it1 = at_byte it + len_utf8 ch" "ended it1 = False" "\<not> ended it"
        using it1(1) unfolding Some y by (auto elim!: pull_cases)
      have "within c s it'" unfolding within_def sel using pre t pi p it1(2) Some by (intro conjI exI [of _ pre]) auto
      moreover have "moved it [] it'" using t p pi sel pull_polls [OF it1(1)] by (auto simp: moved_def stopped_def)
      ultimately show ?thesis using sel it1(2) Some y p by simp
    qed
  qed
  then show "within c s it'" "moved it [] it'" "peeked it' = Some x" "x = Some (i, ch) \<Longrightarrow> i = here it' \<and> pending it' = [ch]"
    "x = None \<Longrightarrow> tripped c (polls it') \<or> pending it' @ ahead it' = []" by (auto split: option.splits)
qed

lemma next_char_ok:
  assumes "next_char c it = (x, it')" "within c s it"
  shows "within c s it'" "moved it (case x of Some (i, ch) \<Rightarrow> [ch] | None \<Rightarrow> []) it'" "peeked it' = None" "x = Some (i, ch) \<Longrightarrow> i = here it"
    "x = None \<Longrightarrow> tripped c (polls it') \<or> pending it' @ ahead it' = []"
proof -
  have "within c s it' \<and> moved it (case x of Some (i, ch) \<Rightarrow> [ch] | None \<Rightarrow> []) it' \<and> peeked it' = None \<and>
    (case x of Some (i, ch) \<Rightarrow> i = here it | None \<Rightarrow> tripped c (polls it') \<or> pending it' @ ahead it' = [])"
  proof (cases "peeked it")
    case None
    then have "pull c it = (x, it')" using assms(1) by (simp add: next_char_def)
    from pull_moved [OF this None assms(2)] show ?thesis
      by (auto simp: pending_def within_def split: option.splits)
  next
    case (Some y)
    then have it': "it' = it\<lparr>peeked := None\<rparr>" "x = y" using assms(1) by (simp_all add: next_char_def)
    obtain pre where pre: "s = pre @ pending it @ ahead it" "here it = byte_len pre" "at_byte it = byte_len pre + byte_len (pending it)"
      "ended it \<longrightarrow> tripped c (polls it)" "peeked it = Some None \<longrightarrow> ahead it = [] \<or> ended it" using assms(2) by (rule withinE)
    have "within c s it'" unfolding within_def using pre it' by (intro conjI exI [of _ "pre @ pending it"]) (auto simp: pending_def here_def)
    moreover have "moved it (case x of Some (i, ch) \<Rightarrow> [ch] | None \<Rightarrow> []) it'" using it' Some by (auto simp: moved_def pending_def stopped_def split: option.splits)
    ultimately show ?thesis using pre it' Some by (auto simp: pending_def here_def split: option.splits)
  qed
  then show "within c s it'" "moved it (case x of Some (i, ch) \<Rightarrow> [ch] | None \<Rightarrow> []) it'" "peeked it' = None" "x = Some (i, ch) \<Longrightarrow> i = here it"
    "x = None \<Longrightarrow> tripped c (polls it') \<or> pending it' @ ahead it' = []" by (auto split: option.splits)
qed

lemma peek_char_agree: "peek_char c it = (x, it') \<Longrightarrow> \<not> tripped c (polls it') \<Longrightarrow> peek_char None it = (x, it')"
  using pull_agree by (fastforce simp: peek_char_def split: option.splits prod.splits)

lemma next_char_agree: "next_char c it = (x, it') \<Longrightarrow> \<not> tripped c (polls it') \<Longrightarrow> next_char None it = (x, it')"
  using pull_agree by (fastforce simp: next_char_def split: option.splits)

lemma peek_char_polls: "peek_char c it = (x, it') \<Longrightarrow> polls it \<le> polls it'"
  using pull_polls by (fastforce simp: peek_char_def split: option.splits prod.splits)

lemma next_char_polls: "next_char c it = (x, it') \<Longrightarrow> polls it \<le> polls it'"
  using pull_polls by (fastforce simp: next_char_def split: option.splits)

end
