(* ===== verification/Literals.thy ===== *)
theory Literals
  imports Source_Text
begin

text \<open>
  Literals (\<^verbatim>\<open>crates/kagari-source/src/literal.rs\<close>): integer literals with their suffixes, and the decoding
  of string, byte-string, character and byte-character literals.

  Errors are the messages of the source. Decoders that poll for cancellation take the number of checks
  made so far and return it updated; the characters that a decoder pushes are its value, which callers
  use only when it succeeds.
\<close>

section \<open>Definitions\<close>

subsection \<open>Integer literals\<close>

definition type_suffixes :: "str list" where
  "type_suffixes = map us [''i64'', ''u64'', ''i32'', ''u32'', ''i16'', ''u16'', ''i8'', ''u8'', ''f32'', ''f64'']"

definition non_decimal_prefixes :: "str list" where
  "non_decimal_prefixes = map us [''0x'', ''0o'', ''0b'']"

fun find_suffix :: "str list \<Rightarrow> str \<Rightarrow> str \<times> str option" where
  "find_suffix [] s = (s, None)"
| "find_suffix (suffix # rest) s =
     (if str_starts suffix (us ''f'') \<and> list_ex (str_starts s) non_decimal_prefixes then find_suffix rest s
      else case strip_suffix suffix s of Some digits \<Rightarrow> (digits, Some (drop (length digits) s)) | None \<Rightarrow> find_suffix rest s)"

definition numeric_literal_parts :: "str \<Rightarrow> str \<times> str option" where
  "numeric_literal_parts s = find_suffix type_suffixes s"

definition float_suffix :: "str option \<Rightarrow> bool" where
  "float_suffix suffix \<longleftrightarrow> (case suffix of Some x \<Rightarrow> str_starts x (us ''f'') | None \<Rightarrow> False)"

definition radix_digits :: "str \<Rightarrow> nat \<times> str" where
  "radix_digits s =
     (case strip_prefix (us ''0b'') s of Some digits \<Rightarrow> (2, digits)
      | None \<Rightarrow> (case strip_prefix (us ''0o'') s of Some digits \<Rightarrow> (8, digits)
      | None \<Rightarrow> (case strip_prefix (us ''0x'') s of Some digits \<Rightarrow> (16, digits)
      | None \<Rightarrow> (10, s))))"

definition integer_digits :: "str \<Rightarrow> (string, nat \<times> str) outcome" where
  "integer_digits s =
     (case numeric_literal_parts s of (s, suffix) \<Rightarrow>
        if float_suffix suffix then Err ''floating-point suffix on integer literal''
        else case radix_digits s of (radix, digits) \<Rightarrow>
          if \<not> list_ex (is_digit radix) digits then Err ''invalid integer literal''
          else if \<not> list_all (\<lambda>ch. ch = uc CHR ''_'' \<or> is_digit radix ch) digits then Err ''invalid integer literal''
          else Ok (radix, digits))"

definition is_integer_literal :: "str \<Rightarrow> bool" where
  "is_integer_literal s \<longleftrightarrow> (case integer_digits s of Ok _ \<Rightarrow> True | _ \<Rightarrow> False)"

text \<open>\<^verbatim>\<open>u64::from_str_radix\<close>\<close>

fun add_digits :: "nat \<Rightarrow> nat \<Rightarrow> str \<Rightarrow> nat option" where
  "add_digits radix n [] = Some n"
| "add_digits radix n (ch # s) =
     (case to_digit radix ch of
        Some d \<Rightarrow> if n * radix + d < 2 ^ 64 then add_digits radix (n * radix + d) s else None
      | None \<Rightarrow> None)"

definition u64_from_str_radix :: "str \<Rightarrow> nat \<Rightarrow> nat option" where
  "u64_from_str_radix s radix =
     (case strip_prefix (us ''+'') s of
        Some digits \<Rightarrow> if digits = [] then None else add_digits radix 0 digits
      | None \<Rightarrow> if s = [] then None else add_digits radix 0 s)"

definition parse_integer_literal :: "str \<Rightarrow> (string, nat) outcome" where
  "parse_integer_literal s =
     and_then (integer_digits s) (\<lambda>(radix, digits).
       ok_or ''integer literal is outside the u64 range'' (u64_from_str_radix (filter (\<lambda>ch. ch \<noteq> uc CHR ''_'') digits) radix))"

subsection \<open>Delimiters\<close>

datatype string_delimiter = Cooked | Raw nat

fun opening_hashes :: "nat list \<Rightarrow> nat \<Rightarrow> (string, (string_delimiter \<times> nat) option) outcome" where
  "opening_hashes [] hashes = Err ''invalid raw String opening delimiter''"
| "opening_hashes (byte # bytes) hashes =
     (if byte = dquote then Ok (Some (Raw hashes, hashes + 2))
      else if byte = uc CHR ''#'' then
        (if hashes + 1 < 256 then opening_hashes bytes (hashes + 1) else Err ''raw String has more than 255 hashes'')
      else Err ''invalid raw String opening delimiter'')"

definition delimiter_opening :: "str \<Rightarrow> (string, (string_delimiter \<times> nat) option) outcome" where
  "delimiter_opening s =
     (if str_starts s [dquote] then Ok (Some (Cooked, 1))
      else case strip_prefix (us ''r'') s of
        None \<Rightarrow> Ok None
      | Some rest \<Rightarrow> if \<not> str_starts_any rest [uc CHR ''#'', dquote] then Ok None else opening_hashes (str_bytes rest) 0)"

fun delimiter_hashes :: "string_delimiter \<Rightarrow> nat" where
  "delimiter_hashes Cooked = 0"
| "delimiter_hashes (Raw hashes) = hashes"

definition closing_len :: "string_delimiter \<Rightarrow> str \<Rightarrow> nat option" where
  "closing_len delimiter s =
     (let hashes = delimiter_hashes delimiter
      in if str_starts s [dquote] \<and> 1 + hashes \<le> length (str_bytes s) \<and> list_all (\<lambda>b. b = uc CHR ''#'') (take hashes (drop 1 (str_bytes s)))
         then Some (1 + hashes) else None)"

definition string_content :: "str \<Rightarrow> (string, string_delimiter \<times> str) outcome" where
  "string_content s =
     and_then (delimiter_opening s) (\<lambda>found. and_then (ok_or ''invalid String opening delimiter'' found) (\<lambda>(delimiter, start).
       let closing = delimiter_hashes delimiter + 1
       in if byte_len s < closing \<or> byte_len s - closing < start then Err ''unterminated String literal''
          else let e = byte_len s - closing
               in if (case slice_from s e of Some suffix \<Rightarrow> closing_len delimiter suffix | None \<Rightarrow> None) \<noteq> Some closing
                  then Err ''unterminated String literal''
                  else and_then (ok_or ''invalid String delimiter boundary'' (slice s start e)) (\<lambda>content. Ok (delimiter, content))))"

subsection \<open>Escapes\<close>

definition is_ascii_hexdigit :: "scalar \<Rightarrow> bool" where
  "is_ascii_hexdigit c \<longleftrightarrow> is_ascii_digit c \<or> uc CHR ''a'' \<le> c \<and> c \<le> uc CHR ''f'' \<or> uc CHR ''A'' \<le> c \<and> c \<le> uc CHR ''F''"

fun hex_digits :: "cancellation \<Rightarrow> nat \<Rightarrow> nat \<Rightarrow> chars \<Rightarrow> (string, nat) outcome \<times> chars" where
  "hex_digits c n v it =
     (if n = 0 then (Ok v, it) else case next_char c it of (x, it) \<Rightarrow>
        (case x of
           None \<Rightarrow> (Err ''invalid ASCII escape'', it)
         | Some (i, ch) \<Rightarrow>
             (case to_digit 16 ch of
                None \<Rightarrow> (Err ''invalid ASCII escape'', it)
              | Some d \<Rightarrow> hex_digits c (n - 1) (v * 16 + d) it)))"

declare hex_digits.simps [simp del]

function unicode_digits :: "cancellation \<Rightarrow> nat \<Rightarrow> nat \<Rightarrow> chars \<Rightarrow> (string, nat) outcome \<times> chars" where
  "unicode_digits c v digits it =
     (case next_char c it of
        (None, it') \<Rightarrow> (Err ''invalid Unicode escape'', it')
      | (Some (i, ch), it') \<Rightarrow>
          if ch = uc CHR ''}'' \<and> digits > 0 then (Ok v, it')
          else if ch = uc CHR ''_'' \<and> digits > 0 then unicode_digits c v digits it'
          else if is_ascii_hexdigit ch \<and> digits < 6 then
            (case to_digit 16 ch of
               Some d \<Rightarrow> unicode_digits c (v * 16 + d) (digits + 1) it'
             | None \<Rightarrow> (Panic ''unwrap'', it'))
          else (Err ''invalid Unicode escape'', it'))"
  by pat_completeness auto
termination
  by (relation "measure (\<lambda>(c, v, digits, it). chars_left it)") (auto dest!: next_char_left [OF sym])

declare unicode_digits.simps [simp del]

definition unicode_scalar :: "(string, nat) outcome \<times> chars \<Rightarrow> (string, scalar) outcome \<times> chars" where
  "unicode_scalar r = (case r of (x, it) \<Rightarrow> (and_then x (\<lambda>v. ok_or ''invalid Unicode scalar'' (from_u32 v)), it))"

definition decode_escape :: "cancellation \<Rightarrow> bool \<Rightarrow> chars \<Rightarrow> (string, scalar) outcome \<times> chars" where
  "decode_escape c byte it =
     (case next_char c it of
        (None, it) \<Rightarrow> (Err ''invalid char escape'', it)
      | (Some (i, ch), it) \<Rightarrow>
          if ch = squote then (Ok squote, it)
          else if ch = dquote then (Ok dquote, it)
          else if ch = backslash then (Ok backslash, it)
          else if ch = uc CHR ''n'' then (Ok lf, it)
          else if ch = uc CHR ''r'' then (Ok cr, it)
          else if ch = uc CHR ''t'' then (Ok tab, it)
          else if ch = uc CHR ''0'' then (Ok 0, it)
          else if ch = uc CHR ''x'' then
            (case hex_digits c 2 0 it of (x, it) \<Rightarrow>
               (and_then x (\<lambda>v. if \<not> byte \<and> v > 0x7F then Err ''char hexadecimal escape must be ASCII''
                                else ok_or ''invalid Unicode scalar'' (from_u32 v)), it))
          else if ch = uc CHR ''u'' \<and> byte then (Err ''Unicode escapes are forbidden in byte literals'', it)
          else if ch = uc CHR ''u'' then
            (case next_char c it of (x, it) \<Rightarrow>
               if map_option snd x \<noteq> Some (uc CHR ''{'') then (Err ''invalid Unicode escape'', it)
               else unicode_scalar (unicode_digits c 0 0 it))
          else (Err ''invalid char escape'', it))"

subsection \<open>Strings\<close>

lemma hex_digits_left: "hex_digits c n v it = (x, it') \<Longrightarrow> chars_left it' \<le> chars_left it"
proof (induction c n v it rule: hex_digits.induct)
  case (1 c n v it)
  obtain y it1 where n: "next_char c it = (y, it1)" by (cases "next_char c it")
  show ?case using 1 n next_char_left [OF n] by (subst (asm) (2) hex_digits.simps) (fastforce split: option.splits if_splits prod.splits)
qed

lemma unicode_digits_left: "unicode_digits c v digits it = (x, it') \<Longrightarrow> chars_left it' \<le> chars_left it"
proof (induction c v digits it rule: unicode_digits.induct)
  case (1 c v digits it)
  obtain y it1 where n: "next_char c it = (y, it1)" by (cases "next_char c it")
  note l = next_char_left [OF n]
  show ?case using 1 n l by (subst (asm) (3) unicode_digits.simps) (fastforce split: option.splits if_splits prod.splits)
qed

lemma decode_escape_left: "decode_escape c byte it = (x, it') \<Longrightarrow> chars_left it' \<le> chars_left it"
  by (auto simp: decode_escape_def unicode_scalar_def split: prod.splits option.splits if_splits
      dest!: next_char_left hex_digits_left unicode_digits_left)

definition is_blank :: "scalar \<Rightarrow> bool" where
  "is_blank ch \<longleftrightarrow> ch = 0x20 \<or> ch = tab \<or> ch = cr \<or> ch = lf"


text \<open>\<^verbatim>\<open>while chars.peek().is_some_and(p) { chars.next(); }\<close>\<close>

definition skip_run :: "cancellation \<Rightarrow> (scalar \<Rightarrow> bool) \<Rightarrow> chars \<Rightarrow> chars" where
  "skip_run c p it = snd (take_run c p (\<lambda>_. 0) 0 it)"

lemma take_run_left: "take_run c p w e it = (e', it') \<Longrightarrow> chars_left it' \<le> chars_left it"
proof (induction c p w e it rule: take_run.induct)
  case (1 c p w e it)
  obtain x it1 where n: "peek_char c it = (x, it1)" by (cases "peek_char c it")
  note step = 1(2) [unfolded take_run_step [OF n]]
  show ?case
  proof (cases "\<exists>i ch. x = Some (i, ch) \<and> p ch")
    case True
    then obtain i ch where x: "x = Some (i, ch)" "p ch" by blast
    then have "chars_left it' \<le> chars_left (skip_char c it1)" using 1(1) [of x it1 "(i, ch)" i ch] n step by simp
    then show ?thesis using skip_peeked_left [of c it "(i, ch)" it1 c] n x by simp
  next
    case False
    then have "it' = it1" using step by (auto split: option.splits)
    then show ?thesis using peek_char_left [OF n] by simp
  qed
qed

lemma skip_run_left: "chars_left (skip_run c p it) \<le> chars_left it"
  by (cases "take_run c p (\<lambda>_. 0) 0 it") (auto simp: skip_run_def dest: take_run_left)

text \<open>The line feed that must follow a carriage return, and the rest of a line continuation.\<close>

definition take_lf :: "cancellation \<Rightarrow> chars \<Rightarrow> bool \<times> chars" where
  "take_lf c it = (case next_char c it of (x, it) \<Rightarrow> (map_option snd x = Some lf, it))"

definition decode_continuation :: "cancellation \<Rightarrow> scalar \<Rightarrow> chars \<Rightarrow> (string, unit) outcome \<times> chars" where
  "decode_continuation c ch it =
     (case (if ch = cr then take_lf c it else (True, it)) of (fits, it) \<Rightarrow>
        if \<not> fits then (Err ''String continuation requires LF or CRLF'', it) else (Ok (), skip_run c is_blank it))"

text \<open>What follows a backslash: the characters it stands for.\<close>

definition decode_cooked_escape :: "cancellation \<Rightarrow> bool \<Rightarrow> chars \<Rightarrow> (string, str) outcome \<times> chars" where
  "decode_cooked_escape c byte it =
     (case next_char c it of
        (None, it) \<Rightarrow> (Err ''incomplete String escape'', it)
      | (Some (i, ch), it) \<Rightarrow>
          if ch = lf \<or> ch = cr then (case decode_continuation c ch it of (x, it) \<Rightarrow> (and_then x (\<lambda>_. Ok []), it))
          else (case decode_escape c byte (unread ch it) of (x, it) \<Rightarrow> (and_then x (\<lambda>v. Ok [v]), it)))"

definition decode_string_character :: "cancellation \<Rightarrow> bool \<Rightarrow> bool \<Rightarrow> scalar \<Rightarrow> chars \<Rightarrow> (string, str) outcome \<times> chars" where
  "decode_string_character c cooked byte ch it =
     (if byte \<and> \<not> is_ascii ch then (Err ''direct byte literal text must be ASCII'', it)
      else if ch = cr then (case take_lf c it of (fits, it) \<Rightarrow> if fits then (Ok [lf], it) else (Err ''standalone CR in String literal'', it))
      else if ch = backslash \<and> cooked then decode_cooked_escape c byte it
      else if (ch = uc CHR ''{'' \<or> ch = uc CHR ''}'') \<and> cooked \<and> \<not> byte then
        (case next_char c it of (x, it) \<Rightarrow>
           if map_option snd x \<noteq> Some ch then (Err ''String text requires doubled braces; interpolation requires a name binding'', it)
           else (Ok [ch], it))
      else if ch = dquote \<and> cooked then (Err ''unescaped quote in String text'', it)
      else (Ok [ch], it))"

lemma take_lf_left: "take_lf c it = (x, it') \<Longrightarrow> chars_left it' \<le> chars_left it"
  by (auto simp: take_lf_def split: prod.splits dest: next_char_left)

lemma decode_continuation_left: "decode_continuation c ch it = (x, it') \<Longrightarrow> chars_left it' \<le> chars_left it"
proof -
  assume a: "decode_continuation c ch it = (x, it')"
  obtain fits it1 where f: "(if ch = cr then take_lf c it else (True, it)) = (fits, it1)" by (cases "if ch = cr then take_lf c it else (True, it)")
  then have "chars_left it1 \<le> chars_left it" using take_lf_left [of c it fits it1] by (auto split: if_splits)
  moreover have "chars_left it' \<le> chars_left it1" using a f skip_run_left [of c is_blank it1] by (auto simp: decode_continuation_def split: if_splits)
  ultimately show ?thesis by simp
qed

lemma next_unread_left: "next_char c it = (Some x, it') \<Longrightarrow> chars_left (unread ch it') \<le> chars_left it"
proof -
  assume a: "next_char c it = (Some x, it')"
  have "chars_left (unread ch it') \<le> Suc (chars_left it')" by (auto simp: unread_def chars_left_def split: option.splits)
  then show ?thesis using next_char_left [OF a] by simp
qed

lemma decode_cooked_escape_left: "decode_cooked_escape c byte it = (x, it') \<Longrightarrow> chars_left it' \<le> chars_left it"
proof -
  assume a: "decode_cooked_escape c byte it = (x, it')"
  obtain y it1 where n: "next_char c it = (y, it1)" by (cases "next_char c it")
  show ?thesis
  proof (cases y)
    case (Some z)
    obtain i ch where z: "z = (i, ch)" by (cases z)
    have u: "chars_left it1 \<le> chars_left it" "chars_left (unread ch it1) \<le> chars_left it" using next_char_left [OF n] next_unread_left [of c it z it1] n Some by simp_all
    show ?thesis
    proof (cases "ch = lf \<or> ch = cr")
      case True
      then obtain r where "decode_continuation c ch it1 = (r, it')" using a n Some z by (auto simp: decode_cooked_escape_def split: prod.splits)
      then show ?thesis using decode_continuation_left u(1) le_trans by blast
    next
      case False
      then obtain r where "decode_escape c byte (unread ch it1) = (r, it')" using a n Some z by (auto simp: decode_cooked_escape_def split: prod.splits)
      then show ?thesis using decode_escape_left u(2) le_trans by blast
    qed
  qed (use a n next_char_left [OF n] in \<open>auto simp: decode_cooked_escape_def\<close>)
qed

lemma decode_string_character_left: "decode_string_character c cooked byte ch it = (x, it') \<Longrightarrow> chars_left it' \<le> chars_left it"
  by (auto simp: decode_string_character_def split: prod.splits if_splits dest: take_lf_left decode_cooked_escape_left next_char_left)

function decode_string_characters :: "cancellation \<Rightarrow> bool \<Rightarrow> bool \<Rightarrow> str \<Rightarrow> chars \<Rightarrow> (string, str) outcome \<times> chars" where
  "decode_string_characters c cooked byte v it =
     (case next_char c it of
        (None, it1) \<Rightarrow> (Ok v, it1)
      | (Some (i, ch), it1) \<Rightarrow>
          (case decode_string_character c cooked byte ch it1 of
             (Ok s, it2) \<Rightarrow> decode_string_characters c cooked byte (v @ s) it2
           | (Err e, it2) \<Rightarrow> (Err e, it2)
           | (Panic p, it2) \<Rightarrow> (Panic p, it2)))"
  by pat_completeness auto
termination
  by (relation "measure (\<lambda>(c, cooked, byte, v, it). chars_left it)") (auto dest!: next_char_left [OF sym] decode_string_character_left [OF sym])

declare decode_string_characters.simps [simp del]

text \<open>The \<^verbatim>\<open>?\<close> operator on a result with the number of checks made.\<close>

definition counted_then :: "(cancelled, 'a) outcome \<times> nat \<Rightarrow> ('a \<Rightarrow> nat \<Rightarrow> (cancelled, 'b) outcome \<times> nat) \<Rightarrow> (cancelled, 'b) outcome \<times> nat" where
  "counted_then r f = (case r of (Ok x, k) \<Rightarrow> f x k | (Err e, k) \<Rightarrow> (Err e, k) | (Panic p, k) \<Rightarrow> (Panic p, k))"

definition decode_string_content :: "cancellation \<Rightarrow> str \<Rightarrow> bool \<Rightarrow> bool \<Rightarrow> nat \<Rightarrow> (cancelled, (string, str) outcome) outcome \<times> nat" where
  "decode_string_content c content cooked byte k =
     (case decode_string_characters c cooked byte [] (polling_chars content k) of (decoded, it) \<Rightarrow>
        counted_then (cancel_check c (polls it), polls it + 1) (\<lambda>_ k. (Ok decoded, k)))"

text \<open>The search for a closing delimiter inside a raw string, from the offset \<open>index\<close>.\<close>

fun raw_closes :: "cancellation \<Rightarrow> string_delimiter \<Rightarrow> str \<Rightarrow> nat \<Rightarrow> nat \<Rightarrow> nat \<Rightarrow> (cancelled, bool) outcome \<times> nat" where
  "raw_closes c delimiter [] index next k = (Ok False, k)"
| "raw_closes c delimiter (ch # cs) index next k =
     (let poll = next \<le> index; next = (if poll then saturating_add index CANCELLATION_CHECK_BYTES else next)
      in if poll \<and> cancel_seen c k then (Err Cancelled, k + 1)
         else let k = (if poll then k + 1 else k)
              in if ch = dquote \<and> closing_len delimiter (ch # cs) \<noteq> None then (Ok True, k)
                 else raw_closes c delimiter cs (index + len_utf8 ch) next k)"

definition decode_string_literal_inner :: "cancellation \<Rightarrow> str \<Rightarrow> bool \<Rightarrow> nat \<Rightarrow> (cancelled, (string, str) outcome) outcome \<times> nat" where
  "decode_string_literal_inner c s byte k =
     (case string_content s of
        Err reason \<Rightarrow> (Ok (Err reason), k)
      | Panic p \<Rightarrow> (Panic p, k)
      | Ok (delimiter, content) \<Rightarrow>
          (case delimiter of
             Cooked \<Rightarrow> decode_string_content c content True byte k
           | Raw _ \<Rightarrow>
               counted_then (raw_closes c delimiter content 0 CANCELLATION_CHECK_BYTES k) (\<lambda>closes k.
                 if closes then (Ok (Err ''unexpected text after raw String delimiter''), k)
                 else decode_string_content c content False byte k)))"

text \<open>\<^verbatim>\<open>cancel.check()?; let decoded = inner?; cancel.check()?; Ok(decoded)\<close>\<close>

definition checked_decode :: "cancellation \<Rightarrow> (nat \<Rightarrow> (cancelled, 'a) outcome \<times> nat) \<Rightarrow> nat \<Rightarrow> (cancelled, 'a) outcome \<times> nat" where
  "checked_decode c inner k =
     counted_then (cancel_check c k, k + 1) (\<lambda>_ k.
       counted_then (inner k) (\<lambda>decoded k.
         counted_then (cancel_check c k, k + 1) (\<lambda>_ k. (Ok decoded, k))))"

definition decode_string_literal_with_cancellation :: "cancellation \<Rightarrow> str \<Rightarrow> nat \<Rightarrow> (cancelled, (string, str) outcome) outcome \<times> nat" where
  "decode_string_literal_with_cancellation c s = checked_decode c (decode_string_literal_inner c s False)"

definition decode_string_fragment_with_cancellation :: "cancellation \<Rightarrow> str \<Rightarrow> nat \<Rightarrow> (cancelled, (string, str) outcome) outcome \<times> nat" where
  "decode_string_fragment_with_cancellation c content = checked_decode c (decode_string_content c content True False)"

text \<open>Bytes: \<^verbatim>\<open>value.push(ch as u8)\<close>.\<close>

definition bytes_of :: "(cancelled, (string, str) outcome) outcome \<times> nat \<Rightarrow> (cancelled, (string, nat list) outcome) outcome \<times> nat" where
  "bytes_of r = (case r of (x, k) \<Rightarrow> (and_then x (\<lambda>d. Ok (and_then d (\<lambda>v. Ok (map (\<lambda>ch. ch mod 256) v)))), k))"

definition decode_byte_string_literal_with_cancellation :: "cancellation \<Rightarrow> str \<Rightarrow> nat \<Rightarrow> (cancelled, (string, nat list) outcome) outcome \<times> nat" where
  "decode_byte_string_literal_with_cancellation c s =
     checked_decode c (\<lambda>k. case strip_prefix (us ''b'') s of
       Some r \<Rightarrow> bytes_of (decode_string_literal_inner c r True k)
     | None \<Rightarrow> (Ok (Err ''invalid byte string prefix''), k))"

text \<open>\<^verbatim>\<open>.expect("fresh cancellation token")\<close>\<close>

definition fresh_token :: "(cancelled, (string, 'a) outcome) outcome \<times> nat \<Rightarrow> (string, 'a) outcome" where
  "fresh_token r = (case fst r of Ok x \<Rightarrow> x | Err _ \<Rightarrow> Panic ''fresh cancellation token'' | Panic p \<Rightarrow> Panic p)"

definition decode_string_literal :: "str \<Rightarrow> (string, str) outcome" where
  "decode_string_literal s = fresh_token (decode_string_literal_with_cancellation None s 0)"

definition decode_byte_string_literal :: "str \<Rightarrow> (string, nat list) outcome" where
  "decode_byte_string_literal s = fresh_token (decode_byte_string_literal_with_cancellation None s 0)"

definition decode_string_fragment :: "str \<Rightarrow> (string, str) outcome" where
  "decode_string_fragment s = fresh_token (decode_string_fragment_with_cancellation None s 0)"

subsection \<open>Characters\<close>

definition first_character :: "bool \<Rightarrow> chars \<Rightarrow> (string, scalar) outcome \<times> chars" where
  "first_character byte it =
     (case next_char None it of
        (None, it) \<Rightarrow> (Err ''empty char literal'', it)
      | (Some (i, ch), it) \<Rightarrow>
          if ch = backslash then decode_escape None byte it
          else if ch = tab \<or> ch = cr \<or> ch = lf then (Err ''direct whitespace in char literal'', it)
          else if ch = squote then (Err ''unescaped apostrophe in char literal'', it)
          else if byte \<and> \<not> is_ascii ch then (Err ''direct byte literal text must be ASCII'', it)
          else (Ok ch, it))"

definition decode_character :: "str \<Rightarrow> bool \<Rightarrow> (string, scalar) outcome" where
  "decode_character s byte =
     and_then (ok_or ''unterminated char literal'' (Option.bind (strip_prefix [squote] s) (strip_suffix [squote]))) (\<lambda>content.
       case first_character byte (plain_chars content) of (x, it) \<Rightarrow>
         and_then x (\<lambda>v.
           if fst (next_char None it) \<noteq> None
           then Err (if byte then ''byte character literal must contain exactly one byte'' else ''char literal must contain exactly one Unicode scalar'')
           else Ok v))"

definition decode_char_literal :: "str \<Rightarrow> (string, scalar) outcome" where
  "decode_char_literal s = decode_character s False"

definition decode_byte_char_literal :: "str \<Rightarrow> (string, nat) outcome" where
  "decode_byte_char_literal s =
     and_then (ok_or ''invalid byte character prefix'' (strip_prefix (us ''b'') s)) (\<lambda>r.
       and_then (decode_character r True) (\<lambda>ch. Ok (ch mod 256)))"

end
