(* ===== verification/Lexer.thy ===== *)
theory Lexer
  imports Literals
begin

text \<open>
  The lexer (\<^verbatim>\<open>crates/kagari-syntax/src: token.rs, lexer.rs, lexer/string.rs\<close>).

  The model follows the source loop by loop over the polling iterator of \<open>Source_Text\<close>. A scanner
  returns the tokens it pushes and the iterator it leaves. Indexing the text panics where an offset
  is not a character boundary. Every scanner ends: it leaves no more characters than it found, and a token
  takes at least one.
\<close>

section \<open>Definitions\<close>

subsection \<open>Tokens\<close>

datatype (plugins only:) token_kind =
    Whitespace | LineComment | BlockComment | AsKw | CrateKw | ForKw | InKw | AsyncKw | AwaitKw | FnKw
    | ImplKw | ModKw | PubKw | SelfKw | SuperKw | TraitKw | TypeKw | UseKw | WhereKw | ConstKw | StaticKw
    | ValKw | VarKw | StructKw | EnumKw | ReturnKw | IfKw | ElseKw | MatchKw | WhileKw | LoopKw | BreakKw
    | ContinueKw | TrueKw | FalseKw | Ident | Number | Float | String | FormatStart | FormatText | FormatOpen
    | FormatClose | FormatEnd | LParen | RParen | LBracket | RBracket | LBrace | RBrace | Comma | Colon
    | ColonColon | Semi | Dot | DotDot | DotDotEq | Hash | Eq | Plus | PlusEq | Minus | MinusEq | Star
    | StarEq | Slash | SlashEq | Percent | PercentEq | Bang | Question | EqEq | NotEq | IdentityEq
    | IdentityNotEq | Lt | Gt | Le | Ge | Amp | AmpEq | PipeEq | Caret | CaretEq | AmpAmp | Pipe | PipePipe
    | Arrow | FatArrow | Eof | Unknown | Char | ByteChar | ByteString

record token =
  tkind :: token_kind
  tspan :: span

definition is_trivia :: "token_kind \<Rightarrow> bool" where
  "is_trivia k \<longleftrightarrow> k = Whitespace \<or> k = LineComment \<or> k = BlockComment"

definition mk_token :: "token_kind \<Rightarrow> nat \<Rightarrow> nat \<Rightarrow> token" where
  "mk_token k a b = \<lparr>tkind = k, tspan = span_new a b\<rparr>"

definition keyword_table :: "(str \<times> token_kind) list" where
  "keyword_table =
    [(us ''as'', AsKw), (us ''crate'', CrateKw), (us ''for'', ForKw), (us ''in'', InKw),
     (us ''async'', AsyncKw), (us ''await'', AwaitKw), (us ''fn'', FnKw), (us ''impl'', ImplKw),
     (us ''mod'', ModKw), (us ''pub'', PubKw), (us ''self'', SelfKw), (us ''super'', SuperKw),
     (us ''trait'', TraitKw), (us ''type'', TypeKw), (us ''use'', UseKw), (us ''where'', WhereKw),
     (us ''const'', ConstKw), (us ''static'', StaticKw), (us ''val'', ValKw), (us ''var'', VarKw),
     (us ''struct'', StructKw), (us ''enum'', EnumKw), (us ''return'', ReturnKw), (us ''if'', IfKw),
     (us ''else'', ElseKw), (us ''match'', MatchKw), (us ''while'', WhileKw), (us ''loop'', LoopKw),
     (us ''break'', BreakKw), (us ''continue'', ContinueKw), (us ''true'', TrueKw), (us ''false'', FalseKw)]"

definition identifier_kind :: "str \<Rightarrow> token_kind" where
  "identifier_kind ident = (case map_of keyword_table ident of Some k \<Rightarrow> k | None \<Rightarrow> Ident)"

subsection \<open>Punctuation, trivia and identifiers\<close>

type_synonym 'a scan_result = "(cancelled, 'a) outcome \<times> chars"

text \<open>\<^verbatim>\<open>if let Some((i, ch)) = chars.peek().copied() { chars.next(); .. }\<close>\<close>

definition accept :: "cancellation \<Rightarrow> scalar \<Rightarrow> chars \<Rightarrow> nat option \<times> chars" where
  "accept c ch it =
     (case peek_char c it of
        (Some (i, d), it') \<Rightarrow> if d = ch then (Some i, skip_char c it') else (None, it')
      | (None, it') \<Rightarrow> (None, it'))"

lemma accept_left: "accept c ch it = (x, it') \<Longrightarrow> chars_left it' \<le> chars_left it"
proof -
  assume a: "accept c ch it = (x, it')"
  obtain y it1 where p: "peek_char c it = (y, it1)" by (cases "peek_char c it")
  have "it' = it1 \<or> (\<exists>z. y = Some z) \<and> it' = skip_char c it1" using a p by (auto simp: accept_def split: option.splits if_splits)
  then show ?thesis using peek_char_left [OF p] skip_peeked_left [of c it _ it1 c] p by (auto intro: less_imp_le)
qed

definition lex_one :: "cancellation \<Rightarrow> token_kind \<Rightarrow> nat \<Rightarrow> chars \<Rightarrow> token list scan_result" where
  "lex_one c k index it = (Ok [mk_token k index (index + 1)], skip_char c it)"

text \<open>One character, and a longer token when \<open>ch\<close> follows.\<close>

definition lex_two :: "cancellation \<Rightarrow> scalar \<Rightarrow> token_kind \<Rightarrow> token_kind \<Rightarrow> nat \<Rightarrow> chars \<Rightarrow> token list scan_result" where
  "lex_two c ch longer shorter index it =
     (case accept c ch (skip_char c it) of
        (Some e, it) \<Rightarrow> (Ok [mk_token longer index (e + 1)], it)
      | (None, it) \<Rightarrow> (Ok [mk_token shorter index (index + 1)], it))"

definition lex_dots :: "cancellation \<Rightarrow> nat \<Rightarrow> chars \<Rightarrow> token list scan_result" where
  "lex_dots c index it =
     (case accept c (uc CHR ''.'') (skip_char c it) of
        (Some dot, it) \<Rightarrow>
          (case accept c (uc CHR ''='') it of
             (Some eq, it) \<Rightarrow> (Ok [mk_token DotDotEq index (eq + 1)], it)
           | (None, it) \<Rightarrow> (Ok [mk_token DotDot index (dot + 1)], it))
      | (None, it) \<Rightarrow> (Ok [mk_token Dot index (index + 1)], it))"

definition lex_equals :: "cancellation \<Rightarrow> nat \<Rightarrow> chars \<Rightarrow> token list scan_result" where
  "lex_equals c index it =
     (case accept c (uc CHR ''='') (skip_char c it) of
        (Some e, it) \<Rightarrow>
          (case accept c (uc CHR ''='') it of
             (Some l, it) \<Rightarrow> (Ok [mk_token IdentityEq index (l + 1)], it)
           | (None, it) \<Rightarrow> (Ok [mk_token EqEq index (e + 1)], it))
      | (None, it) \<Rightarrow>
          (case accept c (uc CHR ''>'') it of
             (Some e, it) \<Rightarrow> (Ok [mk_token FatArrow index (e + 1)], it)
           | (None, it) \<Rightarrow> (Ok [mk_token Eq index (index + 1)], it)))"

definition lex_minus :: "cancellation \<Rightarrow> nat \<Rightarrow> chars \<Rightarrow> token list scan_result" where
  "lex_minus c index it =
     (case accept c (uc CHR ''>'') (skip_char c it) of
        (Some e, it) \<Rightarrow> (Ok [mk_token Arrow index (e + 1)], it)
      | (None, it) \<Rightarrow>
          (case accept c (uc CHR ''='') it of
             (Some e, it) \<Rightarrow> (Ok [mk_token MinusEq index (e + 1)], it)
           | (None, it) \<Rightarrow> (Ok [mk_token Minus index (index + 1)], it)))"

definition lex_bang :: "cancellation \<Rightarrow> nat \<Rightarrow> chars \<Rightarrow> token list scan_result" where
  "lex_bang c index it =
     (case accept c (uc CHR ''='') (skip_char c it) of
        (Some e, it) \<Rightarrow>
          (case accept c (uc CHR ''='') it of
             (Some l, it) \<Rightarrow> (Ok [mk_token IdentityNotEq index (l + 1)], it)
           | (None, it) \<Rightarrow> (Ok [mk_token NotEq index (e + 1)], it))
      | (None, it) \<Rightarrow> (Ok [mk_token Bang index (index + 1)], it))"

definition lex_percent :: "cancellation \<Rightarrow> nat \<Rightarrow> chars \<Rightarrow> token list scan_result" where
  "lex_percent c index it =
     (case accept c (uc CHR ''='') (skip_char c it) of
        (Some _, it) \<Rightarrow> (Ok [mk_token PercentEq index (index + 2)], it)
      | (None, it) \<Rightarrow> (Ok [mk_token Percent index (index + 1)], it))"

text \<open>\<^verbatim>\<open>chars.peek().map(|(i, _)| *i).unwrap_or(input.len())\<close>\<close>

definition peek_offset :: "cancellation \<Rightarrow> str \<Rightarrow> chars \<Rightarrow> nat \<times> chars" where
  "peek_offset c input it = (case peek_char c it of (x, it) \<Rightarrow> ((case x of Some (i, _) \<Rightarrow> i | None \<Rightarrow> byte_len input), it))"

definition bit_operator :: "cancellation \<Rightarrow> scalar \<Rightarrow> chars \<Rightarrow> token_kind \<times> chars" where
  "bit_operator c ch it =
     (case accept c (uc CHR ''='') it of
        (Some _, it) \<Rightarrow> (if ch = uc CHR ''&'' then AmpEq else if ch = uc CHR ''|'' then PipeEq else CaretEq, it)
      | (None, it) \<Rightarrow>
          (case (if ch \<noteq> uc CHR ''^'' then accept c ch it else (None, it)) of
             (Some _, it) \<Rightarrow> (if ch = uc CHR ''&'' then AmpAmp else PipePipe, it)
           | (None, it) \<Rightarrow> (if ch = uc CHR ''&'' then Amp else if ch = uc CHR ''|'' then Pipe else Caret, it)))"

definition lex_bit_operator :: "cancellation \<Rightarrow> str \<Rightarrow> nat \<Rightarrow> scalar \<Rightarrow> chars \<Rightarrow> token list scan_result" where
  "lex_bit_operator c input index ch it =
     (case bit_operator c ch (skip_char c it) of (k, it) \<Rightarrow>
        (case peek_offset c input it of (e, it) \<Rightarrow> (Ok [mk_token k index e], it)))"

definition lex_whitespace :: "cancellation \<Rightarrow> nat \<Rightarrow> chars \<Rightarrow> token list scan_result" where
  "lex_whitespace c index it = (case take_run c is_whitespace len_utf8 index it of (e, it) \<Rightarrow> (Ok [mk_token Whitespace index e], it))"

text \<open>The body of a block comment, from the end \<open>e\<close> of what has been read, and its final depth.\<close>

function block_comment :: "cancellation \<Rightarrow> nat \<Rightarrow> nat \<Rightarrow> chars \<Rightarrow> (nat \<times> nat) \<times> chars" where
  "block_comment c e depth it =
     (case next_char c it of
        (None, it1) \<Rightarrow> ((e, depth), it1)
      | (Some (i, ch), it1) \<Rightarrow>
          if ch = uc CHR ''/'' then
            (case accept c (uc CHR ''*'') it1 of
               (Some star, it2) \<Rightarrow> block_comment c (star + 1) (depth + 1) it2
             | (None, it2) \<Rightarrow> block_comment c (i + len_utf8 ch) depth it2)
          else if ch = uc CHR ''*'' then
            (case accept c (uc CHR ''/'') it1 of
               (Some slash, it2) \<Rightarrow> if depth - 1 = 0 then ((slash + 1, 0), it2) else block_comment c (slash + 1) (depth - 1) it2
             | (None, it2) \<Rightarrow> block_comment c (i + len_utf8 ch) depth it2)
          else block_comment c (i + len_utf8 ch) depth it1)"
  by pat_completeness auto
termination
  by (relation "measure (\<lambda>(c, e, depth, it). chars_left it)") (auto dest!: next_char_left [OF sym] accept_left [OF sym])

declare block_comment.simps [simp del]

definition lex_slash :: "cancellation \<Rightarrow> nat \<Rightarrow> chars \<Rightarrow> token list scan_result" where
  "lex_slash c index it =
     (case peek_char c (skip_char c it) of (x, it) \<Rightarrow>
        if map_option snd x = Some (uc CHR ''/'') then
          (case take_run c (\<lambda>ch. ch \<noteq> cr \<and> ch \<noteq> lf) len_utf8 (index + 1) it of (e, it) \<Rightarrow> (Ok [mk_token LineComment index e], it))
        else if map_option snd x = Some (uc CHR ''*'') then
          (case next_char c it of
             (None, it) \<Rightarrow> (Panic ''block comment opener'', it)
           | (Some (star, _), it) \<Rightarrow>
               (case block_comment c (star + 1) 1 it of ((e, depth), it) \<Rightarrow>
                  (Ok [mk_token (if depth = 0 then BlockComment else Unknown) index e], it)))
        else (case accept c (uc CHR ''='') it of
                (Some e, it) \<Rightarrow> (Ok [mk_token SlashEq index (e + 1)], it)
              | (None, it) \<Rightarrow> (Ok [mk_token Slash index (index + 1)], it)))"

definition is_ident_char :: "scalar \<Rightarrow> bool" where
  "is_ident_char ch \<longleftrightarrow> ch = uc CHR ''_'' \<or> is_ascii_alphanumeric ch"

text \<open>\<^verbatim>\<open>&input[a..b]\<close>, and the rest of the function.\<close>

definition with_slice :: "str \<Rightarrow> nat \<Rightarrow> nat \<Rightarrow> (str \<Rightarrow> 'a scan_result) \<Rightarrow> chars \<Rightarrow> 'a scan_result" where
  "with_slice input a b k it = (case slice input a b of Some s \<Rightarrow> k s | None \<Rightarrow> (Panic ''char boundary'', it))"

definition lex_identifier :: "cancellation \<Rightarrow> str \<Rightarrow> nat \<Rightarrow> chars \<Rightarrow> token list scan_result" where
  "lex_identifier c input index it =
     (case take_run c is_ident_char (\<lambda>_. 0) index it of (e, it) \<Rightarrow>
        with_slice input index (e + 1) (\<lambda>ident. (Ok [mk_token (identifier_kind ident) index (e + 1)], it)) it)"

subsection \<open>Character and number literals\<close>

function quoted_run :: "cancellation \<Rightarrow> bool \<Rightarrow> nat \<Rightarrow> chars \<Rightarrow> (nat \<times> bool) \<times> chars" where
  "quoted_run c escaped e it =
     (case peek_char c it of
        (None, it') \<Rightarrow> ((e, False), it')
      | (Some (i, ch), it') \<Rightarrow>
          if ch = cr \<or> ch = lf then ((e, False), it')
          else if escaped then quoted_run c False (i + len_utf8 ch) (skip_char c it')
          else if ch = backslash then quoted_run c True (i + len_utf8 ch) (skip_char c it')
          else if ch = squote then ((i + len_utf8 ch, True), skip_char c it')
          else quoted_run c escaped (i + len_utf8 ch) (skip_char c it'))"
  by pat_completeness auto
termination
  by (relation "measure (\<lambda>(c, escaped, e, it). chars_left it)") (auto dest: skip_peeked_left [OF sym])

declare quoted_run.simps [simp del]

definition lex_quote :: "cancellation \<Rightarrow> str \<Rightarrow> nat \<Rightarrow> scalar \<Rightarrow> chars \<Rightarrow> token list scan_result" where
  "lex_quote c input index ch it =
     (let byte = (ch = uc CHR ''b''); it = skip_char c it; it = (if byte then skip_char c it else it)
      in case quoted_run c False (index + 1 + (if byte then 1 else 0)) it of ((e, closed), it) \<Rightarrow>
           if \<not> closed then (Ok [mk_token Unknown index e], it)
           else with_slice input index e (\<lambda>s.
             (Ok [mk_token (if byte then (case decode_byte_char_literal s of Ok _ \<Rightarrow> ByteChar | _ \<Rightarrow> Unknown)
                            else (case decode_char_literal s of Ok _ \<Rightarrow> Char | _ \<Rightarrow> Unknown)) index e], it)) it)"

definition is_number_char :: "scalar \<Rightarrow> bool" where
  "is_number_char ch \<longleftrightarrow> is_ascii_digit ch \<or> ch = uc CHR ''_''"

definition lex_radix_number :: "cancellation \<Rightarrow> str \<Rightarrow> nat \<Rightarrow> chars \<Rightarrow> token list scan_result" where
  "lex_radix_number c input index it =
     (case next_char c it of
        (None, it) \<Rightarrow> (Panic ''integer base prefix'', it)
      | (Some (prefix, _), it) \<Rightarrow>
          (case take_run c is_ident_char (\<lambda>_. 1) (prefix + 1) it of (e, it) \<Rightarrow>
             with_slice input index e (\<lambda>s. (Ok [mk_token (if is_integer_literal s then Number else Unknown) index e], it)) it))"

text \<open>The fraction and the exponent: each returns the kind and the end so far.\<close>

definition number_fraction :: "cancellation \<Rightarrow> str \<Rightarrow> nat \<Rightarrow> chars \<Rightarrow> (token_kind \<times> nat) scan_result" where
  "number_fraction c input e it =
     (case peek_char c it of (x, it) \<Rightarrow>
        if (case x of
              Some (dot, ch) \<Rightarrow> ch = uc CHR ''.'' \<and> (case byte_at input (dot + 1) of Some b \<Rightarrow> is_ascii_digit b | None \<Rightarrow> False)
            | None \<Rightarrow> False)
        then (case next_char c it of
                (None, it) \<Rightarrow> (Panic ''fraction dot'', it)
              | (Some (dot, _), it) \<Rightarrow> (case take_run c is_number_char (\<lambda>_. 1) (dot + 1) it of (e, it) \<Rightarrow> (Ok (Float, e), it)))
        else (Ok (Number, e), it))"

definition number_exponent :: "cancellation \<Rightarrow> token_kind \<Rightarrow> nat \<Rightarrow> chars \<Rightarrow> (token_kind \<times> nat) scan_result" where
  "number_exponent c k e it =
     (case peek_is c (\<lambda>ch. ch = uc CHR ''e'' \<or> ch = uc CHR ''E'') it of
        (False, it) \<Rightarrow> (Ok (k, e), it)
      | (True, it) \<Rightarrow>
          (case next_char c it of
             (None, it) \<Rightarrow> (Panic ''exponent marker'', it)
           | (Some (exponent, _), it) \<Rightarrow>
               (case peek_is c (\<lambda>ch. ch = uc CHR ''+'' \<or> ch = uc CHR ''-'') it of (has_sign, it) \<Rightarrow>
                  (case (if has_sign then next_char c it else (Some (exponent, 0), it)) of
                     (None, it) \<Rightarrow> (Panic ''exponent sign'', it)
                   | (Some (sign, _), it) \<Rightarrow>
                       (case peek_is c is_ascii_digit it of (digits, it) \<Rightarrow>
                          (case take_run c is_number_char (\<lambda>_. 1) (sign + 1) it of (e, it) \<Rightarrow>
                             (Ok (if digits then Float else Unknown, e), it)))))))"

definition lex_decimal :: "cancellation \<Rightarrow> str \<Rightarrow> nat \<Rightarrow> chars \<Rightarrow> token list scan_result" where
  "lex_decimal c input index it =
     (case take_run c is_number_char (\<lambda>_. 1) (index + 1) it of (e, it) \<Rightarrow>
        (case number_fraction c input e it of
           (Err x, it) \<Rightarrow> (Err x, it) | (Panic p, it) \<Rightarrow> (Panic p, it)
         | (Ok (k, e), it) \<Rightarrow>
             (case number_exponent c k e it of
                (Err x, it) \<Rightarrow> (Err x, it) | (Panic p, it) \<Rightarrow> (Panic p, it)
              | (Ok (k, e), it) \<Rightarrow>
                  (case take_run c is_ident_char len_utf8 e it of (e, it) \<Rightarrow>
                     with_slice input index e (\<lambda>s.
                       let k = (if float_suffix (snd (numeric_literal_parts s)) then Float else k);
                           k = (if k = Number \<and> \<not> is_integer_literal s then Unknown else k)
                       in (Ok [mk_token k index e], it)) it))))"

definition lex_number :: "cancellation \<Rightarrow> str \<Rightarrow> nat \<Rightarrow> scalar \<Rightarrow> chars \<Rightarrow> token list scan_result" where
  "lex_number c input index ch it =
     (case (if ch = uc CHR ''0'' then peek_is c (\<lambda>d. d = uc CHR ''b'' \<or> d = uc CHR ''o'' \<or> d = uc CHR ''x'') (skip_char c it) else (False, skip_char c it)) of
        (True, it) \<Rightarrow> lex_radix_number c input index it
      | (False, it) \<Rightarrow> lex_decimal c input index it)"

subsection \<open>Strings\<close>

text \<open>Decoders count their checks with the token that the iterator polls.\<close>

definition with_decoder :: "(nat \<Rightarrow> (cancelled, 'b) outcome \<times> nat) \<Rightarrow> ('b \<Rightarrow> chars \<Rightarrow> 'a scan_result) \<Rightarrow> chars \<Rightarrow> 'a scan_result" where
  "with_decoder decode k it =
     (case decode (polls it) of (x, n) \<Rightarrow>
        (case x of Ok d \<Rightarrow> k d (it\<lparr>polls := n\<rparr>) | Err e \<Rightarrow> (Err e, it\<lparr>polls := n\<rparr>) | Panic p \<Rightarrow> (Panic p, it\<lparr>polls := n\<rparr>)))"

fun is_ok :: "('e, 'a) outcome \<Rightarrow> bool" where
  "is_ok (Ok _) = True"
| "is_ok _ = False"

definition skip_escape :: "cancellation \<Rightarrow> chars \<Rightarrow> chars" where
  "skip_escape c it =
     (case next_char c it of (discriminator, it) \<Rightarrow>
        if map_option snd discriminator = Some (uc CHR ''u'') then
          (case peek_is c (\<lambda>ch. ch = uc CHR ''{'') it of
             (False, it) \<Rightarrow> it
           | (True, it) \<Rightarrow>
               let it = skip_run c (\<lambda>ch. ch \<noteq> dquote \<and> ch \<noteq> uc CHR ''}'') (skip_char c it)
               in case peek_is c (\<lambda>ch. ch = uc CHR ''}'') it of (True, it) \<Rightarrow> skip_char c it | (False, it) \<Rightarrow> it)
        else it)"

definition push_text :: "cancellation \<Rightarrow> str \<Rightarrow> nat \<Rightarrow> nat \<Rightarrow> chars \<Rightarrow> token list scan_result" where
  "push_text c input start e it =
     (if start = e then (Ok [], it)
      else with_slice input start e (\<lambda>s.
        with_decoder (decode_string_fragment_with_cancellation c s) (\<lambda>d it. (Ok [mk_token (if is_ok d then FormatText else Unknown) start e], it)) it) it)"

fun hole_bytes :: "cancellation \<Rightarrow> nat list \<Rightarrow> nat \<Rightarrow> nat \<Rightarrow> (cancelled, bool) outcome \<times> nat" where
  "hole_bytes c [] offset k = (Ok True, k)"
| "hole_bytes c (ch # bytes) offset k =
     (let poll = (offset mod CANCELLATION_CHECK_BYTES = 0)
      in if poll \<and> cancel_seen c k then (Err Cancelled, k + 1)
         else let k = (if poll then k + 1 else k)
              in if ch \<noteq> uc CHR ''_'' \<and> \<not> is_ascii_alphanumeric ch then (Ok False, k) else hole_bytes c bytes (offset + 1) k)"

definition is_hole_name :: "cancellation \<Rightarrow> str \<Rightarrow> nat \<Rightarrow> (cancelled, bool) outcome \<times> nat" where
  "is_hole_name c name k =
     (if \<not> (case name of ch # _ \<Rightarrow> ch = uc CHR ''_'' \<or> is_ascii_alphabetic ch | [] \<Rightarrow> False) then (Ok False, k)
      else case hole_bytes c (str_bytes name) 0 k of
        (Ok True, k) \<Rightarrow> (Ok (identifier_kind name = Ident), k)
      | r \<Rightarrow> r)"

text \<open>\<^verbatim>\<open>cancel.check()?\<close>\<close>

definition with_check :: "cancellation \<Rightarrow> (chars \<Rightarrow> 'a scan_result) \<Rightarrow> chars \<Rightarrow> 'a scan_result" where
  "with_check c k it = (let it' = it\<lparr>polls := polls it + 1\<rparr> in if cancel_seen c (polls it) then (Err Cancelled, it') else k it')"

definition hole_name :: "str \<Rightarrow> str \<times> bool" where
  "hole_name content = (case strip_suffix (us '':?'') content of Some name \<Rightarrow> (name, True) | None \<Rightarrow> (content, False))"

definition hole_tokens :: "bool \<Rightarrow> bool \<Rightarrow> nat \<Rightarrow> str \<Rightarrow> nat \<Rightarrow> token list" where
  "hole_tokens valid debug start name e =
     (if valid then mk_token Ident start (start + byte_len name) #
        (if debug then [mk_token Colon (e - 2) (e - 1), mk_token Question (e - 1) e] else [])
      else if start \<noteq> e then [mk_token Unknown start e] else [])"

definition scan_hole :: "cancellation \<Rightarrow> str \<Rightarrow> nat \<Rightarrow> chars \<Rightarrow> token list scan_result" where
  "scan_hole c input start it =
     (case peek_offset c input (skip_run c (\<lambda>ch. ch \<noteq> uc CHR ''}'' \<and> ch \<noteq> dquote) it) of (e, it) \<Rightarrow>
        with_check c (\<lambda>it. with_slice input start e (\<lambda>content.
          case hole_name content of (name, debug) \<Rightarrow>
            (case is_hole_name c name (polls it) of (valid, n) \<Rightarrow>
               with_check c (\<lambda>it.
                 case valid of
                   Err x \<Rightarrow> (Err x, it) | Panic p \<Rightarrow> (Panic p, it)
                 | Ok valid \<Rightarrow>
                     (case accept c (uc CHR ''}'') it of
                        (Some _, it) \<Rightarrow> (Ok (hole_tokens valid debug start name e @ [mk_token FormatClose e (e + 1)]), it)
                      | (None, it) \<Rightarrow> (Ok (hole_tokens valid debug start name e), it))) (it\<lparr>polls := n\<rparr>))) it) it)"

definition scan_then :: "'a scan_result \<Rightarrow> ('a \<Rightarrow> chars \<Rightarrow> 'b scan_result) \<Rightarrow> 'b scan_result" where
  "scan_then r k = (case r of (Ok x, it) \<Rightarrow> k x it | (Err e, it) \<Rightarrow> (Err e, it) | (Panic p, it) \<Rightarrow> (Panic p, it))"

lemma scan_then_cong [fundef_cong]:
  "r = r' \<Longrightarrow> (\<And>x it. r' = (Ok x, it) \<Longrightarrow> k x it = k' x it) \<Longrightarrow> scan_then r k = scan_then r' k'"
  by (auto simp: scan_then_def split: prod.splits outcome.splits)

text \<open>A hole: its tokens with those of the text before it, and where the text goes on.\<close>

definition scan_interpolation :: "cancellation \<Rightarrow> str \<Rightarrow> nat \<Rightarrow> nat \<Rightarrow> chars \<Rightarrow> (token list \<times> nat) scan_result" where
  "scan_interpolation c input start index it =
     scan_then (push_text c input start index it) (\<lambda>ts it.
       scan_then (scan_hole c input (index + 1) it) (\<lambda>hs it.
         case peek_offset c input it of (p, it) \<Rightarrow> (Ok (ts @ mk_token FormatOpen index (index + 1) # hs, p), it)))"

text \<open>The state of the scan of an ordinary string, and the end of the string if it is closed.\<close>

record cooked =
  ctokens :: "token list"
  text_start :: nat
  has_hole :: bool
  closed_at :: "nat option"

lemma skip_char_left: "chars_left (skip_char c it) \<le> chars_left it"
  by (cases "next_char c it") (auto simp: skip_char_def dest: next_char_left)

lemma peek_is_left: "peek_is c p it = (b, it') \<Longrightarrow> chars_left it' \<le> chars_left it"
  by (auto simp: peek_is_def split: prod.splits dest: peek_char_left)

lemma skip_escape_left: "chars_left (skip_escape c it) \<le> chars_left it"
proof -
  obtain d it1 where n: "next_char c it = (d, it1)" by (cases "next_char c it")
  obtain b it2 where b: "peek_is c (\<lambda>ch. ch = uc CHR ''{'') it1 = (b, it2)" by (cases "peek_is c (\<lambda>ch. ch = uc CHR ''{'') it1")
  obtain e it3 where e: "peek_is c (\<lambda>ch. ch = uc CHR ''}'') (skip_run c (\<lambda>ch. ch \<noteq> dquote \<and> ch \<noteq> uc CHR ''}'') (skip_char c it2)) = (e, it3)"
    by (cases "peek_is c (\<lambda>ch. ch = uc CHR ''}'') (skip_run c (\<lambda>ch. ch \<noteq> dquote \<and> ch \<noteq> uc CHR ''}'') (skip_char c it2))")
  have l: "chars_left it1 \<le> chars_left it" "chars_left it2 \<le> chars_left it1" "chars_left it3 \<le> chars_left it2" "chars_left (skip_char c it3) \<le> chars_left it2"
    using next_char_left [OF n] peek_is_left [OF b] peek_is_left [OF e] skip_run_left [of c _ "skip_char c it2"] skip_char_left [of c it2] skip_char_left [of c it3] le_trans by (blast, blast, metis+)
  have "skip_escape c it \<in> {it1, it2, it3, skip_char c it3}" using n b e by (auto simp: skip_escape_def Let_def split: bool.splits)
  then show ?thesis using l by auto
qed

text \<open>\<open>decreases\<close>: a scanner leaves no more characters than it found.\<close>

lemma polls_left [simp]: "chars_left (it\<lparr>polls := n\<rparr>) = chars_left it"
  by (simp add: chars_left_def)

lemma peek_offset_left: "peek_offset c input it = (e, it') \<Longrightarrow> chars_left it' \<le> chars_left it"
  by (auto simp: peek_offset_def split: prod.splits dest: peek_char_left)

lemma push_text_left: "push_text c input start e it = (x, it') \<Longrightarrow> chars_left it' = chars_left it"
  by (auto simp: push_text_def with_slice_def with_decoder_def split: if_splits option.splits prod.splits outcome.splits)

lemma scan_hole_left: "scan_hole c input start it = (x, it') \<Longrightarrow> chars_left it' \<le> chars_left it"
proof -
  assume a: "scan_hole c input start it = (x, it')"
  obtain e it1 where e: "peek_offset c input (skip_run c (\<lambda>ch. ch \<noteq> uc CHR ''}'' \<and> ch \<noteq> dquote) it) = (e, it1)"
    by (cases "peek_offset c input (skip_run c (\<lambda>ch. ch \<noteq> uc CHR ''}'' \<and> ch \<noteq> dquote) it)")
  have 1: "chars_left it1 \<le> chars_left it" using peek_offset_left [OF e] skip_run_left le_trans by blast
  have "chars_left it' \<le> chars_left it1" using a e
    by (auto simp: scan_hole_def with_check_def with_slice_def Let_def split: if_splits option.splits prod.splits outcome.splits dest!: accept_left)
  then show ?thesis using 1 by simp
qed

lemma scan_interpolation_left: "scan_interpolation c input start index it = (x, it') \<Longrightarrow> chars_left it' \<le> chars_left it"
  by (auto simp: scan_interpolation_def scan_then_def split: prod.splits outcome.splits dest!: push_text_left scan_hole_left peek_offset_left)

function cooked_loop :: "cancellation \<Rightarrow> str \<Rightarrow> cooked \<Rightarrow> chars \<Rightarrow> cooked scan_result" where
  "cooked_loop c input st it =
     (case next_char c it of
        (None, it1) \<Rightarrow> (Ok st, it1)
      | (Some (index, ch), it1) \<Rightarrow>
          if ch = dquote then
            scan_then (push_text c input (text_start st) index it1) (\<lambda>ts it2.
              (Ok (st\<lparr>ctokens := ctokens st @ ts @ [mk_token FormatEnd index (index + 1)], closed_at := Some (index + 1)\<rparr>), it2))
          else if ch = backslash then cooked_loop c input st (skip_escape c it1)
          else if ch = uc CHR ''{'' \<or> ch = uc CHR ''}'' then
            (case accept c ch it1 of
               (Some _, it2) \<Rightarrow> cooked_loop c input st it2
             | (None, it2) \<Rightarrow>
                 if ch = uc CHR ''{'' then
                   scan_then (scan_interpolation c input (text_start st) index it2) (\<lambda>r it3.
                     cooked_loop c input (st\<lparr>ctokens := ctokens st @ fst r, text_start := snd r, has_hole := True\<rparr>) it3)
                 else cooked_loop c input st it2)
          else cooked_loop c input st it1)"
  by pat_completeness auto
termination
  by (relation "measure (\<lambda>(c, input, st, it). chars_left it)")
    (auto intro: le_less_trans [OF skip_escape_left] dest!: next_char_left [OF sym] accept_left [OF sym] scan_interpolation_left)

declare cooked_loop.simps [simp del]

definition scan_cooked :: "cancellation \<Rightarrow> str \<Rightarrow> nat \<Rightarrow> nat \<Rightarrow> chars \<Rightarrow> token list scan_result" where
  "scan_cooked c input start opening_len it =
     scan_then (cooked_loop c input \<lparr>ctokens = [mk_token FormatStart start (start + opening_len)], text_start = start + opening_len, has_hole = False, closed_at = None\<rparr> it)
       (\<lambda>st it.
          let e = (case closed_at st of Some e \<Rightarrow> e | None \<Rightarrow> byte_len input)
          in scan_then (if closed_at st = None then push_text c input (text_start st) e it else (Ok [], it)) (\<lambda>ts it.
               let tokens = ctokens st @ ts
               in if has_hole st then (Ok tokens, it)
                  else (Ok [mk_token (if closed_at st \<noteq> None \<and> list_all (\<lambda>t. tkind t \<noteq> Unknown) tokens then String else Unknown) start e], it)))"

text \<open>\<^verbatim>\<open>while chars.peek().is_some_and(|(i, _)| *i < e) { chars.next(); }\<close>\<close>

function skip_to :: "cancellation \<Rightarrow> nat \<Rightarrow> chars \<Rightarrow> chars" where
  "skip_to c e it =
     (case peek_char c it of
        (Some (i, ch), it') \<Rightarrow> if i < e then skip_to c e (skip_char c it') else it'
      | (None, it') \<Rightarrow> it')"
  by pat_completeness auto
termination
  by (relation "measure (\<lambda>(c, e, it). chars_left it)") (auto dest: skip_peeked_left [OF sym])

declare skip_to.simps [simp del]

text \<open>The literal that has been read, decoded to see whether it is one.\<close>

definition literal_token :: "cancellation \<Rightarrow> bool \<Rightarrow> str \<Rightarrow> nat \<Rightarrow> nat \<Rightarrow> chars \<Rightarrow> token list scan_result" where
  "literal_token c byte input start e it =
     with_slice input start e (\<lambda>s.
       if byte then with_decoder (decode_byte_string_literal_with_cancellation c s) (\<lambda>d it. (Ok [mk_token (if is_ok d then ByteString else Unknown) start e], it)) it
       else with_decoder (decode_string_literal_with_cancellation c s) (\<lambda>d it. (Ok [mk_token (if is_ok d then String else Unknown) start e], it)) it) it"

function scan_plain :: "cancellation \<Rightarrow> str \<Rightarrow> nat \<Rightarrow> string_delimiter \<Rightarrow> bool \<Rightarrow> chars \<Rightarrow> token list scan_result" where
  "scan_plain c input start delimiter byte it =
     (case next_char c it of
        (None, it1) \<Rightarrow> (Ok [mk_token Unknown start (byte_len input)], it1)
      | (Some (index, ch), it1) \<Rightarrow>
          if ch = backslash \<and> delimiter = Cooked then scan_plain c input start delimiter byte (skip_escape c it1)
          else if ch \<noteq> dquote then scan_plain c input start delimiter byte it1
          else (case slice_from input index of
                  None \<Rightarrow> (Panic ''char boundary'', it1)
                | Some r \<Rightarrow>
                    (case closing_len delimiter r of
                       None \<Rightarrow> scan_plain c input start delimiter byte it1
                     | Some l \<Rightarrow> literal_token c byte input start (index + l) (skip_to c (index + l) it1))))"
  by pat_completeness auto
termination
  by (relation "measure (\<lambda>(c, input, start, delimiter, byte, it). chars_left it)")
    (auto intro: le_less_trans [OF skip_escape_left] dest!: next_char_left [OF sym])

declare scan_plain.simps [simp del]

definition bad_opener :: "cancellation \<Rightarrow> str \<Rightarrow> nat \<Rightarrow> bool \<Rightarrow> chars \<Rightarrow> token list scan_result" where
  "bad_opener c input start byte it =
     (let it = skip_char c it; it = (if byte then skip_char c it else it)
      in case peek_offset c input (skip_run c (\<lambda>ch. ch = uc CHR ''#'') it) of (e, it) \<Rightarrow> (Ok [mk_token Unknown start e], it))"

definition scan_string :: "cancellation \<Rightarrow> str \<Rightarrow> nat \<Rightarrow> chars \<Rightarrow> token list scan_result" where
  "scan_string c input start it =
     (case slice_from input start of
        None \<Rightarrow> (Panic ''char boundary'', it)
      | Some r \<Rightarrow>
          let byte = str_starts r (us ''b''); prefix = (if byte then 1 else 0)
          in (case slice_from input (start + prefix) of
                None \<Rightarrow> (Panic ''char boundary'', it)
              | Some r \<Rightarrow>
                  (case delimiter_opening r of
                     Ok (Some (delimiter, opening_len)) \<Rightarrow>
                       let opening_len = opening_len + prefix; it = skip_to c (start + opening_len) it
                       in if byte \<or> delimiter \<noteq> Cooked then scan_plain c input start delimiter byte it
                          else scan_cooked c input start opening_len it
                   | _ \<Rightarrow> bad_opener c input start byte it)))"

subsection \<open>The lexer\<close>

definition string_opens :: "str \<Rightarrow> nat \<Rightarrow> scalar \<Rightarrow> (cancelled, bool) outcome" where
  "string_opens input index ch =
     (if ch = dquote then Ok True
      else if ch = uc CHR ''r'' then
        (case slice_from input (index + 1) of None \<Rightarrow> Panic ''char boundary'' | Some r \<Rightarrow> Ok (str_starts_any r [uc CHR ''#'', dquote]))
      else if ch = uc CHR ''b'' then
        (case slice_from input (index + 1) of
           None \<Rightarrow> Panic ''char boundary''
         | Some r \<Rightarrow> Ok (str_starts r [dquote] \<or> (case strip_prefix (us ''r'') r of Some q \<Rightarrow> str_starts_any q [uc CHR ''#'', dquote] | None \<Rightarrow> False)))
      else Ok False)"

definition starts_at :: "str \<Rightarrow> nat \<Rightarrow> str \<Rightarrow> (cancelled, bool) outcome" where
  "starts_at input index p = (case slice_from input index of None \<Rightarrow> Panic ''char boundary'' | Some r \<Rightarrow> Ok (str_starts r p))"

definition lex_symbol :: "cancellation \<Rightarrow> str \<Rightarrow> nat \<Rightarrow> scalar \<Rightarrow> chars \<Rightarrow> token list scan_result" where
  "lex_symbol c input index ch it =
     (if ch = uc CHR ''('' then lex_one c LParen index it
      else if ch = uc CHR '')'' then lex_one c RParen index it
      else if ch = uc CHR ''['' then lex_one c LBracket index it
      else if ch = uc CHR '']'' then lex_one c RBracket index it
      else if ch = uc CHR ''{'' then lex_one c LBrace index it
      else if ch = uc CHR ''}'' then lex_one c RBrace index it
      else if ch = uc CHR '','' then lex_one c Comma index it
      else if ch = uc CHR '':'' then lex_two c (uc CHR '':'') ColonColon Colon index it
      else if ch = uc CHR '';'' then lex_one c Semi index it
      else if ch = uc CHR ''#'' then lex_one c Hash index it
      else if ch = uc CHR ''.'' then lex_dots c index it
      else if ch = uc CHR ''+'' then lex_two c (uc CHR ''='') PlusEq Plus index it
      else if ch = uc CHR ''='' then lex_equals c index it
      else if ch = uc CHR ''-'' then lex_minus c index it
      else if ch = uc CHR ''*'' then lex_two c (uc CHR ''='') StarEq Star index it
      else if ch = uc CHR ''/'' then lex_slash c index it
      else if ch = uc CHR ''%'' then lex_percent c index it
      else if ch = uc CHR ''?'' then lex_one c Question index it
      else if ch = uc CHR ''!'' then lex_bang c index it
      else if ch = uc CHR ''<'' then lex_two c (uc CHR ''='') Le Lt index it
      else if ch = uc CHR ''>'' then lex_two c (uc CHR ''='') Ge Gt index it
      else if ch = uc CHR ''&'' \<or> ch = uc CHR ''|'' \<or> ch = uc CHR ''^'' then lex_bit_operator c input index ch it
      else (Ok [mk_token Unknown index (index + len_utf8 ch)], skip_char c it))"

definition lex_token :: "cancellation \<Rightarrow> str \<Rightarrow> nat \<Rightarrow> scalar \<Rightarrow> chars \<Rightarrow> token list scan_result" where
  "lex_token c input index ch it =
     scan_then (string_opens input index ch, it) (\<lambda>string it.
       if string then scan_string c input index it
       else scan_then (if ch = uc CHR ''f'' then starts_at input index [uc CHR ''f'', dquote] else Ok False, it) (\<lambda>format it.
         if format then (Ok [mk_token Unknown index (index + 1)], skip_char c it)
         else if is_whitespace ch then lex_whitespace c index it
         else scan_then (if ch = squote then Ok True else if ch = uc CHR ''b'' then starts_at input index [uc CHR ''b'', squote] else Ok False, it) (\<lambda>quote it.
           if quote then lex_quote c input index ch it
           else if is_ascii_digit ch then lex_number c input index ch it
           else if ch = uc CHR ''_'' \<or> is_ascii_alphabetic ch then lex_identifier c input index it
           else lex_symbol c input index ch it)))"

text \<open>A token takes at least the character it begins with.\<close>

lemma skip_peeked: "peeked it = Some (Some x) \<Longrightarrow> chars_left (skip_char c it) < chars_left it"
  by (simp add: skip_char_def next_char_def chars_left_def)

lemma block_comment_left: "block_comment c e depth it = (x, it') \<Longrightarrow> chars_left it' \<le> chars_left it"
proof (induction c e depth it rule: block_comment.induct)
  case (1 c e depth it)
  obtain y it1 where n: "next_char c it = (y, it1)" by (cases "next_char c it")
  obtain a it2 where a: "accept c (uc CHR ''*'') it1 = (a, it2)" by (cases "accept c (uc CHR ''*'') it1")
  obtain b it3 where b: "accept c (uc CHR ''/'') it1 = (b, it3)" by (cases "accept c (uc CHR ''/'') it1")
  note step = 1(6) [unfolded block_comment.simps [of c e depth it] n prod.case] and l = next_char_left [OF n] accept_left [OF a] accept_left [OF b]
  show ?case
  proof (cases y)
    case (Some z)
    obtain i ch where z: "z = (i, ch)" by (cases z)
    show ?thesis using step l 1(1-5) [OF n [symmetric] Some z [symmetric]] a b Some z by (fastforce split: if_splits option.splits)
  qed (use step l in auto)
qed

lemma quoted_run_left: "quoted_run c escaped e it = (x, it') \<Longrightarrow> chars_left it' \<le> chars_left it"
proof (induction c escaped e it rule: quoted_run.induct)
  case (1 c escaped e it)
  obtain y it1 where n: "peek_char c it = (y, it1)" by (cases "peek_char c it")
  note step = 1(4) [unfolded quoted_run.simps [of c escaped e it] n prod.case]
  show ?case
  proof (cases y)
    case (Some z)
    obtain i ch where z: "z = (i, ch)" by (cases z)
    have "chars_left (skip_char c it1) < chars_left it" using n Some skip_peeked_left by blast
    then show ?thesis using step peek_char_left [OF n] 1(1-3) [OF n [symmetric] Some z [symmetric]] Some z by (fastforce split: if_splits)
  qed (use step peek_char_left [OF n] in auto)
qed

lemma skip_to_left: "chars_left (skip_to c e it) \<le> chars_left it"
proof (induction c e it rule: skip_to.induct)
  case (1 c e it)
  obtain y it1 where n: "peek_char c it = (y, it1)" by (cases "peek_char c it")
  show ?case
  proof (cases y)
    case (Some z)
    obtain i ch where z: "z = (i, ch)" by (cases z)
    have "chars_left (skip_char c it1) < chars_left it" using n Some skip_peeked_left by blast
    then show ?thesis using peek_char_left [OF n] 1 [OF n [symmetric] Some z [symmetric]] Some z n by (subst skip_to.simps) auto
  qed (use n peek_char_left [OF n] in \<open>subst skip_to.simps, auto\<close>)
qed

lemma literal_token_left: "literal_token c byte input start e it = (x, it') \<Longrightarrow> chars_left it' = chars_left it"
  by (auto simp: literal_token_def with_slice_def with_decoder_def split: if_splits option.splits prod.splits outcome.splits)

lemma scan_plain_left: "scan_plain c input start delimiter byte it = (x, it') \<Longrightarrow> chars_left it' \<le> chars_left it"
proof (induction c input start delimiter byte it rule: scan_plain.induct)
  case (1 c input start delimiter byte it)
  obtain y it1 where n: "next_char c it = (y, it1)" by (cases "next_char c it")
  note step = 1(4) [unfolded scan_plain.simps [of c input start delimiter byte it] n prod.case] and l = next_char_left [OF n]
  show ?case
  proof (cases y)
    case (Some z)
    obtain i ch where z: "z = (i, ch)" by (cases z)
    consider (esc) "ch = backslash" "delimiter = Cooked" | (plain) "\<not> (ch = backslash \<and> delimiter = Cooked)" "ch \<noteq> dquote" | (close) "ch = dquote" by auto
    then show ?thesis
    proof cases
      case esc
      then show ?thesis using step l 1(1) [OF n [symmetric] Some z [symmetric]] skip_escape_left [of c it1] Some z by auto
    next
      case plain
      then show ?thesis using step l 1(2) [OF n [symmetric] Some z [symmetric]] Some z by auto
    next
      case close
      show ?thesis
      proof (cases "\<exists>r l. slice_from input i = Some r \<and> closing_len delimiter r = Some l")
        case True
        then obtain r n where "slice_from input i = Some r" "closing_len delimiter r = Some n" by blast
        then have "literal_token c byte input start (i + n) (skip_to c (i + n) it1) = (x, it')" using step close Some z by simp
        then show ?thesis using literal_token_left skip_to_left [of c "i + n" it1] l Some by fastforce
      next
        case False
        then show ?thesis using step l 1(3) [OF n [symmetric] Some z [symmetric]] close Some z by (fastforce split: option.splits)
      qed
    qed
  qed (use step l in auto)
qed

lemma cooked_loop_left: "cooked_loop c input st it = (x, it') \<Longrightarrow> chars_left it' \<le> chars_left it"
proof (induction c input st it rule: cooked_loop.induct)
  case (1 c input st it)
  obtain y it1 where n: "next_char c it = (y, it1)" by (cases "next_char c it")
  note step = 1(6) [unfolded cooked_loop.simps [of c input st it] n prod.case] and l = next_char_left [OF n]
  show ?case
  proof (cases y)
    case (Some z)
    obtain i ch where z: "z = (i, ch)" by (cases z)
    note ih = 1(1-5) [OF n [symmetric] Some z [symmetric]]
    obtain a it2 where a: "accept c ch it1 = (a, it2)" by (cases "accept c ch it1")
    note la = accept_left [OF a]
    consider (quote) "ch = dquote" | (esc) "ch = backslash" | (brace) "ch = uc CHR ''{'' \<or> ch = uc CHR ''}''" | (other) "ch \<noteq> dquote" "ch \<noteq> backslash" "\<not> (ch = uc CHR ''{'' \<or> ch = uc CHR ''}'')"
      by blast
    then show ?thesis
    proof cases
      case quote
      then show ?thesis using step l Some z by (auto simp: scan_then_def split: prod.splits outcome.splits dest!: push_text_left)
    next
      case esc
      then show ?thesis using step l ih(1) skip_escape_left [of c it1] Some z by auto
    next
      case brace
      then show ?thesis
      proof (cases a)
        case aS: (Some q)
        then have "cooked_loop c input st it2 = (x, it')" using brace step Some z a by auto
        then have "chars_left it' \<le> chars_left it2" using ih(4) [OF _ _ brace a [symmetric] aS] brace by auto
        then show ?thesis using l la Some by simp
      next
        case None
        show ?thesis
        proof (cases "ch = uc CHR ''{''")
          case True
          then show ?thesis using step l la ih(2) [OF _ _ brace a [symmetric] None True] Some z a None
            by (fastforce simp: scan_then_def split: prod.splits outcome.splits dest: scan_interpolation_left)
        next
          case False
          then show ?thesis using brace step l la ih(3) [OF _ _ brace a [symmetric] None False] Some z a None by auto
        qed
      qed
    next
      case other
      then show ?thesis using step l ih(5) Some z by auto
    qed
  qed (use step l in auto)
qed

lemma scan_cooked_left: "scan_cooked c input start n it = (x, it') \<Longrightarrow> chars_left it' \<le> chars_left it"
  by (auto simp: scan_cooked_def scan_then_def Let_def split: prod.splits outcome.splits if_splits option.splits dest!: cooked_loop_left push_text_left)

lemma skip_to_peeked: "peeked it = Some (Some (i, ch)) \<Longrightarrow> i < e \<Longrightarrow> chars_left (skip_to c e it) < chars_left it"
  using skip_to_left [of c e "skip_char c it"] skip_peeked [of it "(i, ch)" c] by (subst skip_to.simps) (simp add: peek_char_def)

lemma opening_hashes_pos: "opening_hashes bytes h = Ok (Some (d, n)) \<Longrightarrow> 0 < n"
  by (induction bytes h rule: opening_hashes.induct) (auto split: if_splits)

lemma delimiter_opening_pos: "delimiter_opening s = Ok (Some (d, n)) \<Longrightarrow> 0 < n"
  by (auto simp: delimiter_opening_def split: if_splits option.splits dest: opening_hashes_pos)

lemma bad_opener_left: "bad_opener c input start byte it = (x, it') \<Longrightarrow> chars_left it' \<le> chars_left (skip_char c it)"
proof -
  assume a: "bad_opener c input start byte it = (x, it')"
  define it1 where "it1 = (if byte then skip_char c (skip_char c it) else skip_char c it)"
  obtain e where "peek_offset c input (skip_run c (\<lambda>ch. ch = uc CHR ''#'') it1) = (e, it')"
    using a by (auto simp: bad_opener_def Let_def it1_def split: prod.splits if_splits)
  then have "chars_left it' \<le> chars_left it1" using peek_offset_left skip_run_left le_trans by blast
  also have "chars_left it1 \<le> chars_left (skip_char c it)" using skip_char_left [of c "skip_char c it"] by (simp add: it1_def)
  finally show ?thesis .
qed

lemma scan_string_left:
  assumes "scan_string c input start it = (Ok ts, it')" "peeked it = Some (Some (start, ch))"
  shows "chars_left it' < chars_left it"
proof -
  obtain r r2 where r: "slice_from input start = Some r" "slice_from input (start + (if str_starts r (us ''b'') then 1 else 0)) = Some r2"
    using assms(1) by (auto simp: scan_string_def Let_def split: option.splits)
  show ?thesis
  proof (cases "\<exists>d n. delimiter_opening r2 = Ok (Some (d, n))")
    case True
    then obtain d n where o: "delimiter_opening r2 = Ok (Some (d, n))" by blast
    let ?it = "skip_to c (start + (n + (if str_starts r (us ''b'') then 1 else 0))) it"
    have "chars_left ?it < chars_left it" using skip_to_peeked [OF assms(2)] delimiter_opening_pos [OF o] by simp
    moreover have "chars_left it' \<le> chars_left ?it" using assms(1) r o
      by (auto simp: scan_string_def Let_def split: if_splits dest!: scan_plain_left scan_cooked_left)
    ultimately show ?thesis by simp
  next
    case False
    then have "bad_opener c input start (str_starts r (us ''b'')) it = (Ok ts, it')" using assms(1) r
      by (auto simp: scan_string_def Let_def split: outcome.splits option.splits)
    then show ?thesis using bad_opener_left skip_peeked [OF assms(2)] le_less_trans by blast
  qed
qed

lemma lex_simple_left:
  "lex_two c ch a b index it = (x, it') \<Longrightarrow> chars_left it' \<le> chars_left (skip_char c it)"
  "lex_dots c index it = (x, it') \<Longrightarrow> chars_left it' \<le> chars_left (skip_char c it)"
  "lex_equals c index it = (x, it') \<Longrightarrow> chars_left it' \<le> chars_left (skip_char c it)"
  "lex_minus c index it = (x, it') \<Longrightarrow> chars_left it' \<le> chars_left (skip_char c it)"
  "lex_bang c index it = (x, it') \<Longrightarrow> chars_left it' \<le> chars_left (skip_char c it)"
  "lex_percent c index it = (x, it') \<Longrightarrow> chars_left it' \<le> chars_left (skip_char c it)"
  by (auto simp: lex_two_def lex_dots_def lex_equals_def lex_minus_def lex_bang_def lex_percent_def split: prod.splits option.splits dest!: accept_left)

lemma lex_bit_operator_left: "lex_bit_operator c input index ch it = (x, it') \<Longrightarrow> chars_left it' \<le> chars_left (skip_char c it)"
  by (auto simp: lex_bit_operator_def bit_operator_def split: prod.splits option.splits if_splits dest!: accept_left peek_offset_left)

lemma lex_slash_left: "lex_slash c index it = (x, it') \<Longrightarrow> chars_left it' \<le> chars_left (skip_char c it)"
  by (auto simp: lex_slash_def split: prod.splits option.splits if_splits dest!: peek_char_left take_run_left next_char_left block_comment_left accept_left)

lemma lex_quote_left: "lex_quote c input index ch it = (x, it') \<Longrightarrow> chars_left it' \<le> chars_left (skip_char c it)"
  using skip_char_left [of c "skip_char c it"]
  by (auto simp: lex_quote_def with_slice_def Let_def split: prod.splits option.splits if_splits dest!: quoted_run_left)

lemma number_fraction_left: "number_fraction c input e it = (x, it') \<Longrightarrow> chars_left it' \<le> chars_left it"
  by (auto simp: number_fraction_def split: prod.splits option.splits if_splits dest!: peek_char_left take_run_left next_char_left)

lemma number_exponent_left: "number_exponent c k e it = (x, it') \<Longrightarrow> chars_left it' \<le> chars_left it"
  by (auto simp: number_exponent_def split: prod.splits option.splits if_splits bool.splits dest!: peek_is_left take_run_left next_char_left)

lemma lex_number_left: "lex_number c input index ch it = (x, it') \<Longrightarrow> chars_left it' \<le> chars_left (skip_char c it)"
proof -
  have radix: "chars_left it' \<le> chars_left it" if "lex_radix_number c input index it = (x, it')" for it
    using that by (auto simp: lex_radix_number_def with_slice_def split: prod.splits option.splits dest!: next_char_left take_run_left)
  have decimal: "chars_left it' \<le> chars_left it" if "lex_decimal c input index it = (x, it')" for it
    using that by (auto simp: lex_decimal_def with_slice_def Let_def split: prod.splits option.splits outcome.splits dest!: number_fraction_left number_exponent_left take_run_left)
  assume "lex_number c input index ch it = (x, it')"
  then show ?thesis by (auto simp: lex_number_def split: prod.splits if_splits bool.splits dest!: radix decimal peek_is_left)
qed

lemma take_run_consumes:
  assumes "take_run c p w e it = (e', it')" "peeked it = Some (Some (i, ch))" "p ch"
  shows "chars_left it' < chars_left it"
proof -
  have "take_run c p w (i + w ch) (skip_char c it) = (e', it')" using assms take_run_step [of c it "Some (i, ch)" it p w e] by (simp add: peek_char_def)
  then show ?thesis using take_run_left skip_peeked [OF assms(2)] le_less_trans by blast
qed

lemma lex_symbol_left:
  assumes "lex_symbol c input index ch it = (x, it')" "peeked it = Some (Some y)"
  shows "chars_left it' < chars_left it"
proof -
  have "chars_left it' \<le> chars_left (skip_char c it)"
    using assms(1) lex_simple_left lex_bit_operator_left lex_slash_left unfolding lex_symbol_def by (simp add: lex_one_def split: if_splits)
  then show ?thesis using skip_peeked [OF assms(2)] le_less_trans by blast
qed

lemma lex_token_left:
  assumes "lex_token c input index ch it = (Ok ts, it')" "peeked it = Some (Some (index, ch))"
  shows "chars_left it' < chars_left it"
proof -
  note skip = skip_peeked [OF assms(2), of c]
  obtain string where string: "string_opens input index ch = Ok string" using assms(1) by (auto simp: lex_token_def scan_then_def split: outcome.splits)
  show ?thesis
  proof (cases string)
    case True
    then show ?thesis using assms(1) string scan_string_left [OF _ assms(2)] by (simp add: lex_token_def scan_then_def)
  next
    case False
    obtain format where format: "(if ch = uc CHR ''f'' then starts_at input index [uc CHR ''f'', dquote] else Ok False) = Ok format"
      using assms(1) string False by (auto simp: lex_token_def scan_then_def split: outcome.splits)
    note step1 = assms(1) [unfolded lex_token_def scan_then_def string format prod.case outcome.case]
    consider (format) format | (white) "\<not> format" "is_whitespace ch" | (rest) "\<not> format" "\<not> is_whitespace ch" by blast
    then show ?thesis
    proof cases
      case format
      then show ?thesis using step1 False skip by auto
    next
      case white
      then show ?thesis using step1 False take_run_consumes [OF _ assms(2)] by (auto simp: lex_whitespace_def split: prod.splits)
    next
      case rest
      obtain quote where quote: "(if ch = squote then Ok True else if ch = uc CHR ''b'' then starts_at input index [uc CHR ''b'', squote] else Ok False) = Ok quote"
        using step1 rest False by (auto split: outcome.splits)
      note step2 = step1 [unfolded quote prod.case outcome.case]
      consider "quote" | "\<not> quote" "is_ascii_digit ch" | "\<not> quote" "\<not> is_ascii_digit ch" "ch = uc CHR ''_'' \<or> is_ascii_alphabetic ch"
        | "\<not> quote" "\<not> is_ascii_digit ch" "\<not> (ch = uc CHR ''_'' \<or> is_ascii_alphabetic ch)" by blast
      then show ?thesis
      proof cases
        case 1
        then show ?thesis using step2 rest False lex_quote_left [of c input index ch it] skip by fastforce
      next
        case 2
        then show ?thesis using step2 rest False lex_number_left [of c input index ch it] skip by fastforce
      next
        case 3
        then have "is_ident_char ch" by (auto simp: is_ident_char_def is_ascii_alphanumeric_def)
        then show ?thesis using 3 step2 rest False take_run_consumes [OF _ assms(2), of c is_ident_char]
          by (auto simp: lex_identifier_def with_slice_def split: prod.splits option.splits)
      next
        case 4
        then show ?thesis using step2 rest False lex_symbol_left [OF _ assms(2)] by auto
      qed
    qed
  qed
qed

function lex_loop :: "cancellation \<Rightarrow> str \<Rightarrow> token list \<Rightarrow> chars \<Rightarrow> token list scan_result" where
  "lex_loop c input tokens it =
     (case peek_char c it of
        (None, it1) \<Rightarrow> (Ok tokens, it1)
      | (Some (index, ch), it1) \<Rightarrow>
          scan_then (lex_token c input index ch it1) (\<lambda>ts it2. lex_loop c input (tokens @ ts) it2))"
  by pat_completeness auto
termination
  by (relation "measure (\<lambda>(c, input, tokens, it). chars_left it)") (auto dest!: peek_char_left [OF sym] lex_token_left)

declare lex_loop.simps [simp del]

definition lex_with_cancellation :: "cancellation \<Rightarrow> str \<Rightarrow> (cancelled, token list) outcome" where
  "lex_with_cancellation c input =
     fst (with_check c (\<lambda>it.
       scan_then (lex_loop c input [] it) (\<lambda>tokens it.
         with_check c (\<lambda>it. (Ok (tokens @ [mk_token Eof (byte_len input) (byte_len input)]), it)) it)) (polling_chars input 0))"

definition lex :: "str \<Rightarrow> (cancelled, token list) outcome" where
  "lex input = (case lex_with_cancellation None input of Err _ \<Rightarrow> Panic ''fresh cancellation token'' | x \<Rightarrow> x)"

end
