(* ===== verification/Literal_Decoding.thy ===== *)
theory Literal_Decoding
  imports Literals
begin

text \<open>
  Decoders under cancellation. \<open>agrees c k r r'\<close> compares a run with the token \<open>c\<close> that began after \<open>k\<close>
  checks with a run whose token is never cancelled: checks are only ever added, and when none of
  them failed both runs return the same value and leave the iterator at the same place. The rules for
  the composition of runs carry the proofs.
\<close>

section \<open>Reference definitions\<close>

definition trails :: "cancellation \<Rightarrow> nat \<Rightarrow> chars \<Rightarrow> chars \<Rightarrow> bool" where
  "trails c k it it' \<longleftrightarrow> k \<le> polls it \<and> (\<not> tripped c (polls it) \<longrightarrow> it\<lparr>polls := 0\<rparr> = it'\<lparr>polls := 0\<rparr>)"

definition agrees :: "cancellation \<Rightarrow> nat \<Rightarrow> 'a \<times> chars \<Rightarrow> 'a \<times> chars \<Rightarrow> bool" where
  "agrees c k r r' \<longleftrightarrow> trails c k (snd r) (snd r') \<and> (\<not> tripped c (polls (snd r)) \<longrightarrow> fst r' = fst r)"

named_theorems agreement \<open>a run with a token agrees with the run without\<close>

section \<open>Composition\<close>

lemma trails_refl: "trails c (polls it) it it"
  by (simp add: trails_def)

lemma trails_iff:
  "trails c k it it' \<longleftrightarrow> k \<le> polls it \<and> (\<not> tripped c (polls it) \<longrightarrow>
     peeked it = peeked it' \<and> ahead it = ahead it' \<and> at_byte it = at_byte it' \<and> next_check it = next_check it' \<and> ended it = ended it')"
  by (cases it; cases it') (auto simp: trails_def)

lemma trails_here: "trails c k it it' \<Longrightarrow> trails c (polls it) it it'"
  by (simp add: trails_def)

lemma agrees_return [agreement]: "trails c k it it' \<Longrightarrow> agrees c k (x, it) (x, it')"
  by (simp add: agrees_def)

lemma agrees_bind [agreement]:
  assumes "agrees c k r r'" "\<And>x it it' l. r = (x, it) \<Longrightarrow> trails c l it it' \<Longrightarrow> agrees c l (F x it) (G x it')"
  shows "agrees c k (case r of (x, it) \<Rightarrow> F x it) (case r' of (x, it) \<Rightarrow> G x it)"
proof -
  obtain x it where r: "r = (x, it)" by (cases r)
  obtain y it' where r': "r' = (y, it')" by (cases r')
  have t: "trails c k it it'" using assms(1) r r' by (simp add: agrees_def)
  have F: "agrees c (polls it) (F x it) (G x it')" using assms(2) [OF r] trails_here [OF t] by blast
  then have mono: "polls it \<le> polls (snd (F x it))" by (simp add: agrees_def trails_def)
  show ?thesis
  proof (cases "tripped c (polls (snd (F x it)))")
    case True
    then show ?thesis using t mono r r' by (simp add: agrees_def trails_def)
  next
    case False
    then have "y = x" using assms(1) r r' tripped_mono [OF _ mono] by (auto simp: agrees_def)
    then show ?thesis using t F mono r r' by (auto simp: agrees_def trails_def)
  qed
qed

lemma agrees_option [agreement]:
  assumes "x = None \<Longrightarrow> agrees c k A A'" "\<And>y. x = Some y \<Longrightarrow> agrees c k (B y) (B' y)"
  shows "agrees c k (case x of None \<Rightarrow> A | Some y \<Rightarrow> B y) (case x of None \<Rightarrow> A' | Some y \<Rightarrow> B' y)"
  using assms by (cases x) auto

lemma agrees_outcome [agreement]:
  assumes "\<And>y. x = Ok y \<Longrightarrow> agrees c k (A y) (A' y)" "\<And>y. x = Err y \<Longrightarrow> agrees c k (B y) (B' y)" "\<And>y. x = Panic y \<Longrightarrow> agrees c k (C y) (C' y)"
  shows "agrees c k (case x of Ok y \<Rightarrow> A y | Err y \<Rightarrow> B y | Panic y \<Rightarrow> C y) (case x of Ok y \<Rightarrow> A' y | Err y \<Rightarrow> B' y | Panic y \<Rightarrow> C' y)"
  using assms by (cases x) auto

lemma agrees_bool [agreement]:
  assumes "x \<Longrightarrow> agrees c k A A'" "\<not> x \<Longrightarrow> agrees c k B B'"
  shows "agrees c k (case x of True \<Rightarrow> A | False \<Rightarrow> B) (case x of True \<Rightarrow> A' | False \<Rightarrow> B')"
  using assms by (cases x) auto

lemma agrees_prod [agreement]:
  assumes "\<And>a b. x = (a, b) \<Longrightarrow> agrees c k (A a b) (A' a b)"
  shows "agrees c k (case x of (a, b) \<Rightarrow> A a b) (case x of (a, b) \<Rightarrow> A' a b)"
  using assms by (cases x) auto

lemma agrees_if [agreement]:
  assumes "x \<Longrightarrow> agrees c k A A'" "\<not> x \<Longrightarrow> agrees c k B B'"
  shows "agrees c k (if x then A else B) (if x then A' else B')"
  using assms by auto

lemma trails_if [agreement]: "trails c k A A' \<Longrightarrow> trails c k B B' \<Longrightarrow> trails c k (if x then A else B) (if x then A' else B')"
  by simp

lemma trails_snd [agreement]: "agrees c k r r' \<Longrightarrow> trails c k (snd r) (snd r')"
  by (simp add: agrees_def)

section \<open>The iterator\<close>

text \<open>From runs that begin at the same place to runs of which one may have failed.\<close>

lemma agrees_lift:
  assumes "\<And>it it'. it\<lparr>polls := 0\<rparr> = it'\<lparr>polls := 0\<rparr> \<Longrightarrow> agrees c (polls it) (f it) (g it')" "trails c k it it'"
  shows "agrees c k (f it) (g it')"
proof (cases "tripped c (polls it)")
  case True
  have "polls it \<le> polls (snd (f it))" using assms(1) [OF refl, of it] by (simp add: agrees_def trails_def)
  then show ?thesis using True assms(2) tripped_mono by (fastforce simp: agrees_def trails_def)
next
  case False
  then show ?thesis using assms by (fastforce simp: agrees_def trails_def)
qed

lemma same_place:
  fixes it it' :: chars
  shows "it\<lparr>polls := 0\<rparr> = it'\<lparr>polls := 0\<rparr> \<longleftrightarrow>
     peeked it = peeked it' \<and> ahead it = ahead it' \<and> at_byte it = at_byte it' \<and> next_check it = next_check it' \<and> ended it = ended it'"
  by (cases it; cases it') auto

lemma pull_agrees: "it\<lparr>polls := 0\<rparr> = it'\<lparr>polls := 0\<rparr> \<Longrightarrow> agrees c (polls it) (pull c it) (pull None it')"
  by (cases "ahead it'"; cases "next_check it'")
    (auto simp: pull_def Let_def same_place agrees_def trails_iff cancel_seen_def tripped_def split: option.splits)

lemma next_char_agrees [agreement]: "trails c k it it' \<Longrightarrow> agrees c k (next_char c it) (next_char None it')"
proof (erule agrees_lift [rotated])
  fix it it' :: chars assume "it\<lparr>polls := 0\<rparr> = it'\<lparr>polls := 0\<rparr>"
  from pull_agrees [OF this, of c] this show "agrees c (polls it) (next_char c it) (next_char None it')"
    by (auto simp: next_char_def same_place agrees_def trails_iff split: option.splits)
qed

lemma peek_char_agrees [agreement]: "trails c k it it' \<Longrightarrow> agrees c k (peek_char c it) (peek_char None it')"
proof (erule agrees_lift [rotated])
  fix it it' :: chars assume "it\<lparr>polls := 0\<rparr> = it'\<lparr>polls := 0\<rparr>"
  from pull_agrees [OF this, of c] this show "agrees c (polls it) (peek_char c it) (peek_char None it')"
    by (auto simp: peek_char_def same_place agrees_def trails_iff split: option.splits prod.splits)
qed

lemma skip_char_trails [agreement]: "trails c k it it' \<Longrightarrow> trails c k (skip_char c it) (skip_char None it')"
  unfolding skip_char_def by (intro agreement)

lemma peek_is_agrees [agreement]: "trails c k it it' \<Longrightarrow> agrees c k (peek_is c p it) (peek_is None p it')"
  unfolding peek_is_def by (intro agreement)

lemma take_run_agrees [agreement]: "trails c k it it' \<Longrightarrow> agrees c k (take_run c p w e it) (take_run None p w e it')"
proof (induction c p w e it arbitrary: k it' rule: take_run.induct)
  case (1 c p w e it)
  show ?case unfolding take_run.simps [of c p w e it] take_run.simps [of None p w e it']
    by (intro agreement 1) auto
qed

lemma skip_run_trails [agreement]: "trails c k it it' \<Longrightarrow> trails c k (skip_run c p it) (skip_run None p it')"
  unfolding skip_run_def by (intro agreement)

section \<open>Decoders\<close>

lemma hex_digits_agrees [agreement]: "trails c k it it' \<Longrightarrow> agrees c k (hex_digits c n v it) (hex_digits None n v it')"
proof (induction c n v it arbitrary: k it' rule: hex_digits.induct)
  case (1 c n v it)
  show ?case unfolding hex_digits.simps [of c n v it] hex_digits.simps [of None n v it']
    by (intro agreement 1) auto
qed

lemma unicode_digits_agrees [agreement]: "trails c k it it' \<Longrightarrow> agrees c k (unicode_digits c v n it) (unicode_digits None v n it')"
proof (induction c v n it arbitrary: k it' rule: unicode_digits.induct)
  case (1 c v n it)
  show ?case unfolding unicode_digits.simps [of c v n it] unicode_digits.simps [of None v n it']
    by (intro agreement 1) auto
qed

lemma unicode_scalar_agrees [agreement]: "agrees c k r r' \<Longrightarrow> agrees c k (unicode_scalar r) (unicode_scalar r')"
  unfolding unicode_scalar_def by (intro agreement)

lemma decode_escape_agrees [agreement]: "trails c k it it' \<Longrightarrow> agrees c k (decode_escape c byte it) (decode_escape None byte it')"
  unfolding decode_escape_def by (intro agreement)

lemma take_lf_agrees [agreement]: "trails c k it it' \<Longrightarrow> agrees c k (take_lf c it) (take_lf None it')"
  unfolding take_lf_def by (intro agreement)

lemma decode_continuation_agrees [agreement]: "trails c k it it' \<Longrightarrow> agrees c k (decode_continuation c ch it) (decode_continuation None ch it')"
  unfolding decode_continuation_def by (intro agreement)

lemma unread_trails [agreement]: "trails c k it it' \<Longrightarrow> trails c k (unread ch it) (unread ch it')"
  by (simp add: trails_iff unread_def)

lemma decode_cooked_escape_agrees [agreement]: "trails c k it it' \<Longrightarrow> agrees c k (decode_cooked_escape c byte it) (decode_cooked_escape None byte it')"
  unfolding decode_cooked_escape_def by (intro agreement)

lemma decode_string_character_agrees [agreement]:
  "trails c k it it' \<Longrightarrow> agrees c k (decode_string_character c cooked byte ch it) (decode_string_character None cooked byte ch it')"
  unfolding decode_string_character_def by (intro agreement)

lemma decode_string_characters_agrees [agreement]:
  "trails c k it it' \<Longrightarrow> agrees c k (decode_string_characters c cooked byte v it) (decode_string_characters None cooked byte v it')"
proof (induction c cooked byte v it arbitrary: k it' rule: decode_string_characters.induct)
  case (1 c cooked byte v it)
  show ?case unfolding decode_string_characters.simps [of c cooked byte v it] decode_string_characters.simps [of None cooked byte v it']
    by (intro agreement 1) auto
qed

text \<open>Decoders that count their checks only: what they return is what they return without a token.\<close>

definition counts :: "cancellation \<Rightarrow> nat \<Rightarrow> (cancelled, 'a) outcome \<times> nat \<Rightarrow> (cancelled, 'a) outcome \<times> nat \<Rightarrow> bool" where
  "counts c k r r' \<longleftrightarrow> k \<le> snd r \<and> (case fst r of Err _ \<Rightarrow> tripped c (snd r) | _ \<Rightarrow> \<not> tripped c (snd r) \<longrightarrow> fst r' = fst r)"

lemma counts_return: "k \<le> n \<Longrightarrow> counts c k (Ok x, n) (Ok x, n')"
  by (simp add: counts_def)

lemma counts_then:
  assumes "counts c k r r'" "\<And>x n n'. counts c n (f x n) (g x n')"
  shows "counts c k (counted_then r f) (counted_then r' g)"
proof -
  obtain x n where r: "r = (x, n)" by (cases r)
  obtain y m where r': "r' = (y, m)" by (cases r')
  show ?thesis
  proof (cases x)
    case (Ok a)
    have F: "counts c n (f a n) (g a m)" by (rule assms(2))
    show ?thesis
    proof (cases "tripped c n")
      case True
      have "n \<le> snd (f a n)" using F by (simp add: counts_def)
      then have "tripped c (snd (f a n))" using True tripped_mono by blast
      then show ?thesis using assms(1) r r' Ok \<open>n \<le> snd (f a n)\<close> by (auto simp: counts_def counted_then_def split: outcome.splits)
    next
      case False
      then have "y = x" using assms(1) r r' Ok by (simp add: counts_def)
      then show ?thesis using assms(1) r r' Ok F by (auto simp: counts_def counted_then_def split: outcome.splits)
    qed
  qed (use assms(1) r r' in \<open>auto simp: counts_def counted_then_def split: outcome.splits\<close>)
qed

lemma counts_check: "counts c k (cancel_check c k, k + 1) (cancel_check None k', k' + 1)"
  by (simp add: counts_def cancel_check_def tripped_Suc cancel_seen_def)

lemma counts_weaken: "counts c l r r' \<Longrightarrow> k \<le> l \<Longrightarrow> counts c k r r'"
  by (simp add: counts_def)

lemma decode_string_content_counts: "counts c k (decode_string_content c content cooked byte k) (decode_string_content None content cooked byte k')"
proof -
  obtain d it where d: "decode_string_characters c cooked byte [] (polling_chars content k) = (d, it)" by (cases "decode_string_characters c cooked byte [] (polling_chars content k)")
  obtain d' it' where d': "decode_string_characters None cooked byte [] (polling_chars content k') = (d', it')" by (cases "decode_string_characters None cooked byte [] (polling_chars content k')")
  have "trails c k (polling_chars content k) (polling_chars content k')" by (simp add: trails_def polling_chars_def)
  then have "agrees c k (d, it) (d', it')" using decode_string_characters_agrees [of c k "polling_chars content k" "polling_chars content k'" cooked byte "[]"] d d' by simp
  then show ?thesis using d d' tripped_seen [of c "polls it"]
    by (auto simp: decode_string_content_def counts_def agrees_def trails_def cancel_check_def tripped_Suc cancel_seen_def counted_then_def)
qed

lemma raw_closes_counts: "counts c k (raw_closes c d s i n k) (raw_closes None d s i n k')"
proof (induction c d s i n k arbitrary: k' rule: raw_closes.induct)
  case (2 c d ch cs i n k)
  show ?case
  proof (cases "n \<le> i \<and> cancel_seen c k")
    case True
    then show ?thesis by (simp add: counts_def Let_def tripped_Suc)
  next
    case False
    let ?n = "if n \<le> i then saturating_add i CANCELLATION_CHECK_BYTES else n" and ?k = "\<lambda>k. if n \<le> i then k + 1 else k"
    have ih: "counts c (?k k) (raw_closes c d cs (i + len_utf8 ch) ?n (?k k)) (raw_closes None d cs (i + len_utf8 ch) ?n (?k k'))" if "\<not> (ch = dquote \<and> closing_len d (ch # cs) \<noteq> None)"
      using 2 [OF refl refl _ refl] False that by (auto simp: Let_def)
    have step: "raw_closes e d (ch # cs) i n l = (if ch = dquote \<and> closing_len d (ch # cs) \<noteq> None then (Ok True, ?k l) else raw_closes e d cs (i + len_utf8 ch) ?n (?k l))"
      if "\<not> (n \<le> i \<and> cancel_seen e l)" for e l
      using that by (auto simp: Let_def)
    show ?thesis unfolding step [OF False] using ih step [of None k'] by (auto simp: cancel_seen_def intro: counts_return counts_weaken)
  qed
qed (simp add: counts_def)

lemma decode_string_literal_inner_counts: "counts c k (decode_string_literal_inner c s byte k) (decode_string_literal_inner None s byte k')"
  unfolding decode_string_literal_inner_def
  by (cases "string_content s") (auto split: prod.splits string_delimiter.splits
      intro!: counts_then raw_closes_counts decode_string_content_counts counts_return simp: counts_def [of _ _ "(Panic _, _)"])

lemma checked_decode_counts:
  assumes "\<And>k k'. counts c k (f k) (g k')"
  shows "counts c k (checked_decode c f k) (checked_decode None g k')"
  unfolding checked_decode_def by (intro counts_then counts_check counts_return assms order.refl)

lemma bytes_of_counts: "counts c k r r' \<Longrightarrow> counts c k (bytes_of r) (bytes_of r')"
  by (auto simp: counts_def bytes_of_def split: outcome.splits prod.splits)

lemma decode_string_literal_counts:
  "counts c k (decode_string_literal_with_cancellation c s k) (decode_string_literal_with_cancellation None s k')"
  unfolding decode_string_literal_with_cancellation_def by (intro checked_decode_counts decode_string_literal_inner_counts)

lemma decode_string_fragment_counts:
  "counts c k (decode_string_fragment_with_cancellation c s k) (decode_string_fragment_with_cancellation None s k')"
  unfolding decode_string_fragment_with_cancellation_def by (intro checked_decode_counts decode_string_content_counts)

lemma decode_byte_string_literal_counts:
  "counts c k (decode_byte_string_literal_with_cancellation c s k) (decode_byte_string_literal_with_cancellation None s k')"
  unfolding decode_byte_string_literal_with_cancellation_def
  by (intro checked_decode_counts, cases "strip_prefix (us ''b'') s") (simp_all add: bytes_of_counts decode_string_literal_inner_counts counts_return del: strip_prefix_Some)

text \<open>A decoder that returns has not been cancelled.\<close>

lemma checked_decode_Ok: "checked_decode c f k = (Ok x, n) \<Longrightarrow> \<not> tripped c n"
  by (auto simp: checked_decode_def counted_then_def cancel_check_def tripped_Suc split: prod.splits outcome.splits if_splits)

lemma decode_string_literal_Ok:
  "decode_string_literal_with_cancellation c s k = (Ok d, n) \<Longrightarrow> decode_string_literal s = d"
  using decode_string_literal_counts [of c k s 0] checked_decode_Ok [of c "decode_string_literal_inner c s False" k d n]
  by (auto simp: counts_def decode_string_literal_def fresh_token_def decode_string_literal_with_cancellation_def split: outcome.splits prod.splits)

lemma decode_string_fragment_Ok:
  "decode_string_fragment_with_cancellation c s k = (Ok d, n) \<Longrightarrow> decode_string_fragment s = d"
  using decode_string_fragment_counts [of c k s 0] checked_decode_Ok [of c "decode_string_content c s True False" k d n]
  by (auto simp: counts_def decode_string_fragment_def fresh_token_def decode_string_fragment_with_cancellation_def split: outcome.splits prod.splits)

lemma decode_byte_string_literal_Ok:
  "decode_byte_string_literal_with_cancellation c s k = (Ok d, n) \<Longrightarrow> decode_byte_string_literal s = d"
  using decode_byte_string_literal_counts [of c k s 0] checked_decode_Ok [of c _ k d n]
  by (auto simp: counts_def decode_byte_string_literal_def fresh_token_def decode_byte_string_literal_with_cancellation_def split: outcome.splits)

end
