(* ===== verification/Lexer_Sound.thy ===== *)
theory Lexer_Sound
  imports Lexer Literal_Decoding
begin

text \<open>
  Correctness of the lexer. \<open>run c s it m it'\<close> says that from \<open>it\<close> the scanner has read the characters \<open>m\<close>
  and stands at \<open>it'\<close>. Each scanner is shown to emit tokens that tile what it has read, with
  spellings that fit their kinds (\<open>scan_ok\<close>), unless a check has failed; it never panics.
\<close>

section \<open>Reference definitions\<close>

definition punctuation :: "(token_kind \<times> str) list" where
  "punctuation =
    [(LParen, us ''(''), (RParen, us '')''), (LBracket, us ''[''), (RBracket, us '']''), (LBrace, us ''{''), (RBrace, us ''}''), (Comma, us '',''),
     (Colon, us '':''), (ColonColon, us ''::''), (Semi, us '';''), (Dot, us ''.''), (DotDot, us ''..''), (DotDotEq, us ''..=''), (Hash, us ''#''),
     (Eq, us ''=''), (Plus, us ''+''), (PlusEq, us ''+=''), (Minus, us ''-''), (MinusEq, us ''-=''), (Star, us ''*''), (StarEq, us ''*=''),
     (Slash, us ''/''), (SlashEq, us ''/=''), (Percent, us ''%''), (PercentEq, us ''%=''), (Bang, us ''!''), (Question, us ''?''),
     (EqEq, us ''==''), (NotEq, us ''!=''), (IdentityEq, us ''===''), (IdentityNotEq, us ''!==''), (Lt, us ''<''), (Gt, us ''>''), (Le, us ''<=''),
     (Ge, us ''>=''), (Amp, us ''&''), (AmpEq, us ''&=''), (PipeEq, us ''|=''), (Caret, us ''^''), (CaretEq, us ''^=''), (AmpAmp, us ''&&''),
     (Pipe, us ''|''), (PipePipe, us ''||''), (Arrow, us ''->''), (FatArrow, us ''=>''),
     (FormatStart, [dquote]), (FormatEnd, [dquote]), (FormatOpen, us ''{''), (FormatClose, us ''}''), (Eof, [])]"

definition is_identifier :: "str \<Rightarrow> bool" where
  "is_identifier m \<longleftrightarrow> m \<noteq> [] \<and> list_all is_ident_char m \<and> \<not> is_ascii_digit (hd m)"

text \<open>A comment that began at depth \<open>d\<close> ends exactly at the end of the text.\<close>

fun comment_closes :: "nat \<Rightarrow> str \<Rightarrow> bool" where
  "comment_closes d (a # b # s) \<longleftrightarrow>
     (if a = uc CHR ''/'' \<and> b = uc CHR ''*'' then comment_closes (d + 1) s
      else if a = uc CHR ''*'' \<and> b = uc CHR ''/'' then (if d \<le> 1 then s = [] else comment_closes (d - 1) s)
      else comment_closes d (b # s))"
| "comment_closes d _ \<longleftrightarrow> False"

text \<open>What a token of each kind is spelled like.\<close>

definition token_text :: "token_kind \<Rightarrow> str \<Rightarrow> bool" where
  "token_text k m \<longleftrightarrow>
     (if k = Unknown then True
      else if k = Whitespace then list_all is_whitespace m
      else if k = LineComment then (\<exists>r. m = us ''//'' @ r \<and> list_all (\<lambda>ch. ch \<noteq> cr \<and> ch \<noteq> lf) r)
      else if k = BlockComment then (\<exists>r. m = us ''/*'' @ r \<and> comment_closes 1 r)
      else if k = Ident then is_identifier m \<and> map_of keyword_table m = None
      else if k = Number then is_integer_literal m
      else if k = Float then is_ascii_digit (hd m)
      else if k = String then is_ok (decode_string_literal m)
      else if k = ByteString then is_ok (decode_byte_string_literal m)
      else if k = Char then is_ok (decode_char_literal m)
      else if k = ByteChar then is_ok (decode_byte_char_literal m)
      else if k = FormatText then is_ok (decode_string_fragment m)
      else if k \<in> snd ` set keyword_table then map_of keyword_table m = Some k
      else map_of punctuation k = Some m)"

definition token_ok :: "str \<Rightarrow> token \<Rightarrow> bool" where
  "token_ok s t \<longleftrightarrow> (\<exists>m. slice s (sstart (tspan t)) (send (tspan t)) = Some m \<and> token_text (tkind t) m)"

text \<open>The tokens cover the text from \<open>a\<close> to \<open>b\<close>, none is empty and none overlap.\<close>

fun tiles :: "nat \<Rightarrow> token list \<Rightarrow> nat \<Rightarrow> bool" where
  "tiles a [] b \<longleftrightarrow> a = b"
| "tiles a (t # ts) b \<longleftrightarrow> sstart (tspan t) = a \<and> a < send (tspan t) \<and> tiles (send (tspan t)) ts b"

definition run :: "cancellation \<Rightarrow> str \<Rightarrow> chars \<Rightarrow> str \<Rightarrow> chars \<Rightarrow> bool" where
  "run c s it m it' \<longleftrightarrow> within c s it \<and> within c s it' \<and> moved it m it'"

definition scan_ok :: "cancellation \<Rightarrow> str \<Rightarrow> chars \<Rightarrow> token list scan_result \<Rightarrow> bool" where
  "scan_ok c s it r \<longleftrightarrow>
     (case r of (x, it') \<Rightarrow>
        within c s it' \<and> polls it \<le> polls it' \<and>
        (case x of
           Ok ts \<Rightarrow> tripped c (polls it') \<or> tiles (here it) ts (here it') \<and> list_all (token_ok s) ts
         | Err _ \<Rightarrow> tripped c (polls it')
         | Panic _ \<Rightarrow> False))"

section \<open>Steps\<close>

lemma moved_position:
  assumes "within c s it" "moved it m it'" "within c s it'" "\<not> stopped it'"
  shows "here it' = here it + byte_len m"
proof -
  have eq: "pending it @ ahead it = m @ pending it' @ ahead it'" using assms(2,4) by (auto simp: moved_def)
  obtain l where "s = l @ pending it @ ahead it" "here it = byte_len l" using assms(1) by (rule withinE)
  moreover obtain r where "s = r @ pending it' @ ahead it'" "here it' = byte_len r" using assms(3) by (rule withinE)
  ultimately show ?thesis using eq by simp
qed

lemma run_start: "within c s it \<Longrightarrow> run c s it [] it"
  by (simp add: run_def)

lemma run_slice: "run c s it m it' \<Longrightarrow> slice s (here it) (here it + byte_len m) = Some m"
  unfolding run_def using moved_slice by blast

lemma run_here: "run c s it m it' \<Longrightarrow> \<not> tripped c (polls it') \<Longrightarrow> here it' = here it + byte_len m"
  unfolding run_def using moved_here(1) by blast

lemma run_polls: "run c s it m it' \<Longrightarrow> polls it \<le> polls it'"
  unfolding run_def using moved_polls by blast

lemma run_within: "run c s it m it' \<Longrightarrow> within c s it'"
  by (simp add: run_def)

lemma run_peek:
  assumes "run c s it m it1" "peek_char c it1 = (x, it')"
  shows "run c s it m it'" "peeked it' = Some x" "x = Some (i, ch) \<Longrightarrow> i = here it + byte_len m \<and> i = here it'"
    "x = None \<Longrightarrow> tripped c (polls it') \<or> here it + byte_len m = byte_len s"
proof -
  note p = peek_char_ok [OF assms(2) run_within [OF assms(1)]]
  show r: "run c s it m it'" using assms(1) p(1,2) moved_trans [of it m it1 "[]" it'] by (simp add: run_def)
  show "peeked it' = Some x" by (rule p(3))
  show "i = here it + byte_len m \<and> i = here it'" if "x = Some (i, ch)"
  proof -
    have "i = here it'" "\<not> stopped it'" using p(4) [OF that] by (auto simp: stopped_def)
    then show ?thesis using moved_position [of c s it m it'] r by (simp add: run_def)
  qed
  show "tripped c (polls it') \<or> here it + byte_len m = byte_len s" if "x = None"
  proof (cases "tripped c (polls it')")
    case False
    then have "pending it' @ ahead it' = []" using p(5) [OF that] by simp
    then have "here it' = byte_len s" using p(1) by (auto elim!: withinE)
    then show ?thesis using run_here [OF r False] by simp
  qed simp
qed

lemma run_next:
  assumes "run c s it m it1" "next_char c it1 = (x, it')"
  shows "run c s it (m @ (case x of Some (i, ch) \<Rightarrow> [ch] | None \<Rightarrow> [])) it'" "x = Some (i, ch) \<Longrightarrow> i = here it + byte_len m"
    "x = None \<Longrightarrow> tripped c (polls it') \<or> here it + byte_len m = byte_len s"
proof -
  note p = next_char_ok [OF assms(2) run_within [OF assms(1)]]
  show r: "run c s it (m @ (case x of Some (i, ch) \<Rightarrow> [ch] | None \<Rightarrow> [])) it'" using assms(1) p(1,2) unfolding run_def by (blast intro: moved_trans)
  show "i = here it + byte_len m" if x: "x = Some (i, ch)"
  proof -
    have "\<not> stopped it1" using p(2) x by (auto simp: moved_def)
    then show ?thesis using p(4) [OF x] moved_position [of c s it m it1] assms(1) by (simp add: run_def)
  qed
  show "tripped c (polls it') \<or> here it + byte_len m = byte_len s" if x: "x = None"
  proof (cases "tripped c (polls it')")
    case False
    then have "pending it' @ ahead it' = []" using p(5) [OF x] by simp
    then have "here it' = byte_len s" using p(1) by (auto elim!: withinE)
    then show ?thesis using run_here [OF r False] x by simp
  qed simp
qed

lemma run_skip:
  assumes "run c s it m it1" "peeked it1 = Some (Some (i, ch))"
  shows "run c s it (m @ [ch]) (skip_char c it1)"
  using run_next(1) [OF assms(1), of "Some (i, ch)" "it1\<lparr>peeked := None\<rparr>"] assms(2) by (simp add: skip_char_def next_char_def)

lemma run_accept:
  assumes "run c s it m it1" "accept c ch it1 = (x, it')"
  shows "run c s it (m @ (if x = None then [] else [ch])) it'" "x = Some i \<Longrightarrow> i = here it + byte_len m"
proof -
  obtain y it2 where p: "peek_char c it1 = (y, it2)" by (cases "peek_char c it1")
  note r = run_peek [OF assms(1) p]
  have "run c s it (m @ (if x = None then [] else [ch])) it' \<and> (\<forall>i. x = Some i \<longrightarrow> i = here it + byte_len m)"
  proof (cases "\<exists>i. y = Some (i, ch)")
    case True
    then obtain i where y: "y = Some (i, ch)" by blast
    then have "x = Some i" "it' = skip_char c it2" using assms(2) p by (simp_all add: accept_def)
    then show ?thesis using run_skip [OF r(1), of i ch] r(2,3) y by simp
  next
    case False
    then have "x = None" "it' = it2" using assms(2) p by (auto simp: accept_def split: option.splits if_splits)
    then show ?thesis using r(1) by simp
  qed
  then show "run c s it (m @ (if x = None then [] else [ch])) it'" "x = Some i \<Longrightarrow> i = here it + byte_len m" by auto
qed

text \<open>A run of characters that satisfy \<open>p\<close>; its end is computed from the last of them.\<close>

lemma run_take:
  assumes "run c s it m it1" "take_run c p w e it1 = (e', it')"
  obtains n where "run c s it (m @ n) it'" "list_all p n" "n = [] \<and> e' = e \<or> n \<noteq> [] \<and> e' = here it + byte_len m + byte_len (butlast n) + w (last n)"
    "peeked it1 = Some (Some (i, ch)) \<and> p ch \<longrightarrow> n \<noteq> [] \<and> hd n = ch"
proof -
  have "\<exists>n. run c s it (m @ n) it' \<and> list_all p n \<and> (n = [] \<and> e' = e \<or> n \<noteq> [] \<and> e' = here it + byte_len m + byte_len (butlast n) + w (last n)) \<and>
      (peeked it1 = Some (Some (i, ch)) \<and> p ch \<longrightarrow> n \<noteq> [] \<and> hd n = ch)" using assms
  proof (induction c p w e it1 arbitrary: m i ch rule: take_run.induct)
    case (1 c p w e it1)
    obtain y it2 where pk: "peek_char c it1 = (y, it2)" by (cases "peek_char c it1")
    note r = run_peek [OF 1(2) pk] and step = 1(3) [unfolded take_run_step [OF pk]]
    have yp: "y = Some (i, ch)" if "peeked it1 = Some (Some (i, ch))" using pk that by (simp add: peek_char_def)
    show ?case
    proof (cases "\<exists>j d. y = Some (j, d) \<and> p d")
      case True
      then obtain j d where y: "y = Some (j, d)" "p d" by blast
      have sk: "run c s it (m @ [d]) (skip_char c it2)" using run_skip [OF r(1)] r(2) y by simp
      have "take_run c p w (j + w d) (skip_char c it2) = (e', it')" using step y by simp
      from 1(1) [OF pk [symmetric] y(1) refl y(2) sk this] obtain n where n: "run c s it ((m @ [d]) @ n) it'" "list_all p n"
        "n = [] \<and> e' = j + w d \<or> n \<noteq> [] \<and> e' = here it + byte_len (m @ [d]) + byte_len (butlast n) + w (last n)" by blast
      then show ?thesis using y r(3) [OF y(1)] yp by (intro exI [of _ "d # n"]) auto
    next
      case False
      then have "e' = e" "it' = it2" using step by (auto split: option.splits if_splits)
      then show ?thesis using r(1) False yp by (intro exI [of _ "[]"]) auto
    qed
  qed
  then show ?thesis using that by blast
qed

section \<open>Single tokens\<close>

lemma mk_token_simps [simp]: "tkind (mk_token k a b) = k" "sstart (tspan (mk_token k a b)) = a" "send (tspan (mk_token k a b)) = b"
  by (simp_all add: mk_token_def span_new_def)

lemma token_unknown [simp]: "token_text Unknown m"
  by (simp add: token_text_def)

lemma keyword_kinds: "k \<in> snd ` set keyword_table \<Longrightarrow> k \<notin> {Unknown, Whitespace, LineComment, BlockComment, Ident, Number, Float, String, ByteString, Char, ByteChar, FormatText}"
  by (auto simp: keyword_table_def)

lemma punctuation_kinds:
  assumes "k \<in> fst ` set punctuation"
  shows "k \<notin> snd ` set keyword_table" "k \<notin> {Unknown, Whitespace, LineComment, BlockComment, Ident, Number, Float, String, ByteString, Char, ByteChar, FormatText}"
proof -
  have "fst ` set punctuation \<inter> snd ` set keyword_table = {}" by (simp add: punctuation_def keyword_table_def)
  then show "k \<notin> snd ` set keyword_table" using assms by blast
  have "fst ` set punctuation \<inter> {Unknown, Whitespace, LineComment, BlockComment, Ident, Number, Float, String, ByteString, Char, ByteChar, FormatText} = {}"
    by (simp add: punctuation_def)
  then show "k \<notin> {Unknown, Whitespace, LineComment, BlockComment, Ident, Number, Float, String, ByteString, Char, ByteChar, FormatText}" using assms by blast
qed

lemma token_punctuation:
  assumes "(k, m) \<in> set punctuation"
  shows "token_text k m"
proof -
  have "map_of punctuation k = Some m" by (rule map_of_is_SomeI [OF _ assms]) (simp add: punctuation_def)
  moreover have "k \<in> fst ` set punctuation" using imageI [OF assms, of fst] by simp
  ultimately show ?thesis using punctuation_kinds [of k] by (simp add: token_text_def)
qed

lemma token_identifier: "is_identifier m \<Longrightarrow> token_text (identifier_kind m) m"
proof (cases "map_of keyword_table m")
  case (Some k)
  then have k: "k \<in> snd ` set keyword_table" by (force dest: map_of_SomeD)
  then show ?thesis using Some keyword_kinds [OF k] by (simp add: identifier_kind_def token_text_def)
qed (simp add: identifier_kind_def token_text_def)

lemma scan_one:
  assumes "run c s it m it'" "m \<noteq> []" "token_text k m" "\<not> tripped c (polls it') \<Longrightarrow> e = here it + byte_len m"
  shows "scan_ok c s it (Ok [mk_token k (here it) e], it')"
  using assms run_slice [OF assms(1)] run_here [OF assms(1)] run_polls [OF assms(1)] run_within [OF assms(1)]
  by (auto simp: scan_ok_def token_ok_def simp flip: neq0_conv)

lemma scan_error: "within c s it' \<Longrightarrow> polls it \<le> polls it' \<Longrightarrow> tripped c (polls it') \<Longrightarrow> scan_ok c s it (Err e, it')"
  by (simp add: scan_ok_def)

text \<open>A punctuation token: what has been read is its spelling.\<close>

lemma scan_punctuation:
  assumes "run c s it m it'" "(k, m) \<in> set punctuation" "m \<noteq> []" "e = here it + byte_len m"
  shows "scan_ok c s it (Ok [mk_token k (here it) e], it')"
  using scan_one [OF assms(1,3) token_punctuation [OF assms(2)]] assms(4) by blast

text \<open>The scanner stands at \<open>ch\<close>, the first character of a token.\<close>

definition at_first :: "cancellation \<Rightarrow> str \<Rightarrow> chars \<Rightarrow> scalar \<Rightarrow> bool" where
  "at_first c s it ch \<longleftrightarrow> within c s it \<and> peeked it = Some (Some (here it, ch))"

lemma run_first: "at_first c s it ch \<Longrightarrow> run c s it [ch] (skip_char c it)"
  using run_skip [OF run_start, of c s it] by (fastforce simp: at_first_def)

lemma lex_one_ok: "at_first c s it ch \<Longrightarrow> (k, [ch]) \<in> set punctuation \<Longrightarrow> ch < 0x80 \<Longrightarrow> scan_ok c s it (lex_one c k (here it) it)"
  unfolding lex_one_def by (rule scan_punctuation [OF run_first]) (simp_all add: len_utf8_def)

lemma lex_two_ok:
  assumes "at_first c s it ch" "(longer, [ch, d]) \<in> set punctuation" "(shorter, [ch]) \<in> set punctuation" "ch < 0x80" "d < 0x80"
  shows "scan_ok c s it (lex_two c d longer shorter (here it) it)"
proof -
  obtain x it' where x: "accept c d (skip_char c it) = (x, it')" by (cases "accept c d (skip_char c it)")
  note r = run_accept [OF run_first [OF assms(1)] x]
  show ?thesis
  proof (cases x)
    case None
    then show ?thesis using x r(1) assms by (auto simp: lex_two_def len_utf8_def intro: scan_punctuation)
  next
    case (Some i)
    then show ?thesis using x r(1) r(2) [OF Some] assms by (auto simp: lex_two_def len_utf8_def intro: scan_punctuation)
  qed
qed

text \<open>What follows the first character.\<close>

lemma scan_ok_accept:
  assumes "run c s it m it1"
    "\<And>it'. accept c d it1 = (Some (here it + byte_len m), it') \<Longrightarrow> run c s it (m @ [d]) it' \<Longrightarrow> scan_ok c s it (A (here it + byte_len m) it')"
    "\<And>it'. accept c d it1 = (None, it') \<Longrightarrow> run c s it m it' \<Longrightarrow> scan_ok c s it (B it')"
  shows "scan_ok c s it (case accept c d it1 of (Some e, it') \<Rightarrow> A e it' | (None, it') \<Rightarrow> B it')"
proof -
  obtain x it' where x: "accept c d it1 = (x, it')" by (cases "accept c d it1")
  note r = run_accept [OF assms(1) x]
  show ?thesis
  proof (cases x)
    case None
    then show ?thesis using x r(1) assms(3) by simp
  next
    case (Some i)
    then show ?thesis using x r(1) r(2) [OF Some] assms(2) by simp
  qed
qed

lemma lex_dots_ok: "at_first c s it (uc CHR ''.'') \<Longrightarrow> scan_ok c s it (lex_dots c (here it) it)"
  unfolding lex_dots_def 
  by ((rule scan_ok_accept, erule run_first); ((rule scan_ok_accept, assumption)?; (erule scan_punctuation; simp add: punctuation_def len_utf8_def)))

lemma lex_equals_ok: "at_first c s it (uc CHR ''='') \<Longrightarrow> scan_ok c s it (lex_equals c (here it) it)"
  unfolding lex_equals_def 
  by ((rule scan_ok_accept, erule run_first); ((rule scan_ok_accept, assumption)?; (erule scan_punctuation; simp add: punctuation_def len_utf8_def)))

lemma lex_minus_ok: "at_first c s it (uc CHR ''-'') \<Longrightarrow> scan_ok c s it (lex_minus c (here it) it)"
  unfolding lex_minus_def 
  by ((rule scan_ok_accept, erule run_first); ((rule scan_ok_accept, assumption)?; (erule scan_punctuation; simp add: punctuation_def len_utf8_def)))

lemma lex_bang_ok: "at_first c s it (uc CHR ''!'') \<Longrightarrow> scan_ok c s it (lex_bang c (here it) it)"
  unfolding lex_bang_def 
  by ((rule scan_ok_accept, erule run_first); ((rule scan_ok_accept, assumption)?; (erule scan_punctuation; simp add: punctuation_def len_utf8_def)))

lemma lex_percent_ok: "at_first c s it (uc CHR ''%'') \<Longrightarrow> scan_ok c s it (lex_percent c (here it) it)"
  unfolding lex_percent_def 
  by (rule scan_ok_accept, erule run_first) (erule scan_punctuation; simp add: punctuation_def len_utf8_def)+

lemma run_offset:
  assumes "run c s it m it1" "peek_offset c s it1 = (e, it')"
  shows "run c s it m it'" "\<not> tripped c (polls it') \<Longrightarrow> e = here it + byte_len m"
proof -
  obtain x where x: "peek_char c it1 = (x, it')" "e = (case x of Some (i, _) \<Rightarrow> i | None \<Rightarrow> byte_len s)" using assms(2) by (auto simp: peek_offset_def split: prod.splits)
  note r = run_peek [OF assms(1) x(1)]
  show "run c s it m it'" by (rule r(1))
  show "e = here it + byte_len m" if "\<not> tripped c (polls it')"
  proof (cases x)
    case None
    then show ?thesis using r(4) that x(2) by simp
  next
    case (Some y)
    then show ?thesis using r(3) [of "fst y" "snd y"] x(2) by (simp add: case_prod_beta)
  qed
qed

lemma bit_operators:
  "(Amp, us ''&'') \<in> set punctuation" "(Pipe, us ''|'') \<in> set punctuation" "(Caret, us ''^'') \<in> set punctuation"
  "(AmpAmp, us ''&&'') \<in> set punctuation" "(PipePipe, us ''||'') \<in> set punctuation"
  "(AmpEq, us ''&='') \<in> set punctuation" "(PipeEq, us ''|='') \<in> set punctuation" "(CaretEq, us ''^='') \<in> set punctuation"
  by (simp_all add: punctuation_def)

lemma lex_bit_operator_ok:
  assumes "at_first c s it ch" "ch = uc CHR ''&'' \<or> ch = uc CHR ''|'' \<or> ch = uc CHR ''^''"
  shows "scan_ok c s it (lex_bit_operator c s (here it) ch it)"
proof -
  obtain k it1 where k: "bit_operator c ch (skip_char c it) = (k, it1)" by (cases "bit_operator c ch (skip_char c it)")
  obtain e it' where e: "peek_offset c s it1 = (e, it')" by (cases "peek_offset c s it1")
  obtain x it2 where x: "accept c (uc CHR ''='') (skip_char c it) = (x, it2)" by (cases "accept c (uc CHR ''='') (skip_char c it)")
  obtain y it3 where y: "accept c ch it2 = (y, it3)" by (cases "accept c ch it2")
  note r1 = run_accept(1) [OF run_first [OF assms(1)] x]
  note r2 = run_accept(1) [OF r1 y]
  have "\<exists>m. run c s it m it1 \<and> (k, m) \<in> set punctuation \<and> m \<noteq> []"
  proof (cases x)
    case (Some i)
    then show ?thesis using k x r1 assms(2) bit_operators by (intro exI [of _ "[ch, uc CHR ''='']"]) (elim disjE; simp add: bit_operator_def)
  next
    case None
    show ?thesis
    proof (cases "ch \<noteq> uc CHR ''^'' \<and> y \<noteq> None")
      case True
      then show ?thesis using k x y None r2 assms(2) bit_operators by (intro exI [of _ "[ch, ch]"]) (elim disjE; auto simp: bit_operator_def)
    next
      case False
      then show ?thesis using k x y None r1 r2 assms(2) bit_operators by (intro exI [of _ "[ch]"]) (elim disjE; auto simp: bit_operator_def)
    qed
  qed
  then obtain m where m: "run c s it m it1" "(k, m) \<in> set punctuation" "m \<noteq> []" by blast
  show ?thesis using k e scan_one [OF run_offset(1) [OF m(1) e] m(3) token_punctuation [OF m(2)] run_offset(2) [OF m(1) e]]
    by (simp add: lex_bit_operator_def)
qed

lemma byte_len_last: "n \<noteq> [] \<Longrightarrow> byte_len (butlast n) + len_utf8 (last n) = byte_len n"
proof -
  assume "n \<noteq> []"
  then have "byte_len (butlast n @ [last n]) = byte_len n" by simp
  then show ?thesis by (simp only: byte_len_append byte_len.simps)
qed

lemma lex_whitespace_ok:
  assumes "at_first c s it ch" "is_whitespace ch"
  shows "scan_ok c s it (lex_whitespace c (here it) it)"
proof -
  have w: "run c s it [] it" using assms(1) by (simp add: at_first_def run_start)
  obtain e it' where e: "take_run c is_whitespace len_utf8 (here it) it = (e, it')" by (cases "take_run c is_whitespace len_utf8 (here it) it")
  obtain n where n: "run c s it ([] @ n) it'" "list_all is_whitespace n" "n = [] \<and> e = here it \<or> n \<noteq> [] \<and> e = here it + byte_len [] + byte_len (butlast n) + len_utf8 (last n)"
    "peeked it = Some (Some (here it, ch)) \<and> is_whitespace ch \<longrightarrow> n \<noteq> [] \<and> hd n = ch" using run_take [OF w e] by metis
  then have "n \<noteq> []" "e = here it + byte_len n" using assms byte_len_last [of n] by (auto simp: at_first_def)
  then show ?thesis using n e scan_one [of c s it n it' Whitespace e] by (simp add: lex_whitespace_def token_text_def)
qed

lemma ident_char_ascii: "is_ident_char ch \<Longrightarrow> len_utf8 ch = 1"
  by (auto simp: is_ident_char_def is_ascii_alphanumeric_def is_ascii_alphabetic_def is_ascii_digit_def len_utf8_def)

lemma lex_identifier_ok:
  assumes "at_first c s it ch" "ch = uc CHR ''_'' \<or> is_ascii_alphabetic ch"
  shows "scan_ok c s it (lex_identifier c s (here it) it)"
proof -
  have w: "run c s it [] it" using assms(1) by (simp add: at_first_def run_start)
  have ch: "is_ident_char ch" "\<not> is_ascii_digit ch" using assms(2) by (auto simp: is_ident_char_def is_ascii_alphanumeric_def is_ascii_alphabetic_def is_ascii_digit_def)
  obtain e it' where e: "take_run c is_ident_char (\<lambda>_. 0) (here it) it = (e, it')" by (cases "take_run c is_ident_char (\<lambda>_. 0) (here it) it")
  obtain n where n: "run c s it ([] @ n) it'" "list_all is_ident_char n" "n = [] \<and> e = here it \<or> n \<noteq> [] \<and> e = here it + byte_len [] + byte_len (butlast n) + 0"
    "peeked it = Some (Some (here it, ch)) \<and> is_ident_char ch \<longrightarrow> n \<noteq> [] \<and> hd n = ch" using run_take [OF w e] by metis
  have ne: "n \<noteq> []" "hd n = ch" using n(4) assms(1) ch by (auto simp: at_first_def)
  then have "len_utf8 (last n) = 1" using n(2) ident_char_ascii by (simp add: list_all_iff)
  then have e1: "e + 1 = here it + byte_len n" using n(3) ne byte_len_last [of n] by simp
  have "is_identifier n" using ne n(2) ch by (simp add: is_identifier_def)
  then show ?thesis using n(1) e e1 ne scan_one [of c s it n it' "identifier_kind n" "e + 1"] run_slice [of c s it n it'] token_identifier
    by (simp add: lex_identifier_def with_slice_def)
qed

section \<open>Comments\<close>

lemma comment_skip:
  "\<not> (n \<noteq> [] \<and> a = uc CHR ''/'' \<and> hd n = uc CHR ''*'') \<Longrightarrow> \<not> (n \<noteq> [] \<and> a = uc CHR ''*'' \<and> hd n = uc CHR ''/'') \<Longrightarrow>
   comment_closes d n \<Longrightarrow> comment_closes d (a # n)"
  by (cases n) auto

text \<open>The next character after one that was looked at.\<close>

definition follows :: "chars \<Rightarrow> str \<Rightarrow> bool" where
  "follows it n \<longleftrightarrow> (\<forall>y. peeked it = Some y \<longrightarrow> n = [] \<or> (\<exists>i. y = Some (i, hd n)))"

lemma accept_None: "accept c ch it = (None, it') \<Longrightarrow> \<exists>y. peeked it' = Some y \<and> (\<forall>i. y \<noteq> Some (i, ch))"
  by (auto simp: accept_def split: prod.splits option.splits if_splits dest: peek_char_left)

lemma block_comment_ok:
  assumes "run c s it m it1" "block_comment c e d it1 = ((e', d'), it')" "e = here it + byte_len m" "0 < d"
  shows "\<exists>n. run c s it (m @ n) it' \<and> e' = here it + byte_len (m @ n) \<and> (d' = 0 \<longrightarrow> comment_closes d n) \<and> follows it1 n"
  using assms
proof (induction c e d it1 arbitrary: m rule: block_comment.induct)
  case (1 c e d it1)
  obtain y it2 where n: "next_char c it1 = (y, it2)" by (cases "next_char c it1")
  note step = 1(7) [unfolded block_comment.simps [of c e d it1] n prod.case] and r = run_next [OF 1(6) n]
  have fol: "follows it1 (ch # k)" if "y = Some (i, ch)" for i ch k using n that by (auto simp: follows_def next_char_def)
  show ?case
  proof (cases y)
    case None
    then show ?thesis using step r(1) 1(8,9) by (intro exI [of _ "[]"]) (auto simp: follows_def)
  next
    case (Some z)
    obtain i ch where z: "z = (i, ch)" by (cases z)
    have r1: "run c s it (m @ [ch]) it2" and i: "i = here it + byte_len m" using r(1) r(2) [of i ch] Some z by simp_all
    note ih = 1(1-5) [OF n [symmetric] Some z [symmetric]]
    have close: ?thesis if ex: "\<exists>k. run c s it ((m @ [ch]) @ k) it' \<and> e' = here it + byte_len ((m @ [ch]) @ k) \<and> (d' = 0 \<longrightarrow> comment_closes d (ch # k))"
    proof -
      from ex obtain k where "run c s it ((m @ [ch]) @ k) it'" "e' = here it + byte_len ((m @ [ch]) @ k)" "d' = 0 \<longrightarrow> comment_closes d (ch # k)" by blast
      then show ?thesis using fol [of i ch k] Some z by (intro exI [of _ "ch # k"]) simp
    qed
    show ?thesis
    proof (cases "ch = uc CHR ''/'' \<or> ch = uc CHR ''*''")
      case False
      have "block_comment c (i + len_utf8 ch) d it2 = ((e', d'), it')" using step Some z False by simp
      from ih(5) [OF _ _ r1 this] False i 1(9) obtain k where k: "run c s it ((m @ [ch]) @ k) it'" "e' = here it + byte_len ((m @ [ch]) @ k)" "d' = 0 \<longrightarrow> comment_closes d k" by auto
      then show ?thesis using comment_skip [of k ch d] False by (intro close exI [of _ k]) auto
    next
      case True
      define b where "b = (if ch = uc CHR ''/'' then uc CHR ''*'' else uc CHR ''/'')"
      obtain x it3 where x: "accept c b it2 = (x, it3)" by (cases "accept c b it2")
      note a = run_accept [OF r1 x]
      show ?thesis
      proof (cases x)
        case None
        then have r2: "run c s it (m @ [ch]) it3" using a(1) by simp
        have "block_comment c (i + len_utf8 ch) d it3 = ((e', d'), it')" using step Some z True x None by (auto simp: b_def split: if_splits)
        then have "\<exists>k. run c s it ((m @ [ch]) @ k) it' \<and> e' = here it + byte_len ((m @ [ch]) @ k) \<and> (d' = 0 \<longrightarrow> comment_closes d k) \<and> follows it3 k"
          using True ih(1) [OF _ _ None r2] ih(3) [OF _ _ _ None r2] x i 1(9) by (auto simp: b_def split: if_splits)
        then obtain k where k: "run c s it ((m @ [ch]) @ k) it'" "e' = here it + byte_len ((m @ [ch]) @ k)" "d' = 0 \<longrightarrow> comment_closes d k" "follows it3 k" by blast
        have "k = [] \<or> hd k \<noteq> b" using k(4) accept_None x None by (fastforce simp: follows_def)
        then show ?thesis using k comment_skip [of k ch d] True by (intro close exI [of _ k]) (auto simp: b_def split: if_splits)
      next
        case xS: (Some j)
        then have r2: "run c s it (m @ [ch, b]) it3" and j: "j = here it + byte_len (m @ [ch])" using a(1) a(2) [OF xS] by simp_all
        show ?thesis
        proof (cases "ch = uc CHR ''/''")
          case slash: True
          then have b: "b = uc CHR ''*''" by (simp add: b_def)
          have "block_comment c (j + 1) (d + 1) it3 = ((e', d'), it')" using step Some z slash x xS b by simp
          from ih(2) [OF slash x [unfolded b, symmetric] xS r2 [unfolded b] this] j b slash obtain k where
            "run c s it ((m @ [ch, b]) @ k) it'" "e' = here it + byte_len ((m @ [ch, b]) @ k)" "d' = 0 \<longrightarrow> comment_closes (d + 1) k" by (auto simp: len_utf8_def)
          then show ?thesis using slash b by (intro close exI [of _ "b # k"]) simp
        next
          case star: False
          then have b: "b = uc CHR ''/''" "ch = uc CHR ''*''" using True by (simp_all add: b_def)
          show ?thesis
          proof (cases "d - 1 = 0")
            case True
            then have "e' = j + 1" "d' = 0" "it' = it3" using step Some z x xS b by auto
            then show ?thesis using r2 b j True by (intro close exI [of _ "[b]"]) (simp add: len_utf8_def)
          next
            case False
            then have "block_comment c (j + 1) (d - 1) it3 = ((e', d'), it')" using step Some z x xS b by simp
            from ih(4) [OF star b(2) x [unfolded b(1), symmetric] xS False r2 [unfolded b(1)] this] j b False obtain k where
              "run c s it ((m @ [ch, b]) @ k) it'" "e' = here it + byte_len ((m @ [ch, b]) @ k)" "d' = 0 \<longrightarrow> comment_closes (d - 1) k" by (auto simp: len_utf8_def)
            then show ?thesis using b False by (intro close exI [of _ "b # k"]) auto
          qed
        qed
      qed
    qed
  qed
qed

lemma lex_slash_ok:
  assumes "at_first c s it (uc CHR ''/'')"
  shows "scan_ok c s it (lex_slash c (here it) it)"
proof -
  obtain x it1 where x: "peek_char c (skip_char c it) = (x, it1)" by (cases "peek_char c (skip_char c it)")
  note r0 = run_first [OF assms] note r = run_peek [OF r0 x]
  consider (line) "map_option snd x = Some (uc CHR ''/'')" | (block) "map_option snd x = Some (uc CHR ''*'')"
    | (op) "map_option snd x \<noteq> Some (uc CHR ''/'')" "map_option snd x \<noteq> Some (uc CHR ''*'')" by blast
  then show ?thesis
  proof cases
    case line
    let ?p = "\<lambda>ch. ch \<noteq> cr \<and> ch \<noteq> lf"
    obtain i where xi: "x = Some (i, uc CHR ''/'')" using line by (cases x) auto
    obtain e it' where e: "take_run c ?p len_utf8 (here it + 1) it1 = (e, it')" by (cases "take_run c ?p len_utf8 (here it + 1) it1")
    obtain n where n: "run c s it ([uc CHR ''/''] @ n) it'" "list_all ?p n"
      "n = [] \<and> e = here it + 1 \<or> n \<noteq> [] \<and> e = here it + byte_len [uc CHR ''/''] + byte_len (butlast n) + len_utf8 (last n)"
      "peeked it1 = Some (Some (i, uc CHR ''/'')) \<and> ?p (uc CHR ''/'') \<longrightarrow> n \<noteq> [] \<and> hd n = uc CHR ''/''" by (rule run_take [OF r(1) e])
    then have ne: "n \<noteq> []" "hd n = uc CHR ''/''" using r(2) xi by auto
    then have "token_text LineComment (uc CHR ''/'' # n)" using n(2) by (cases n) (auto simp: token_text_def)
    moreover have "e = here it + byte_len (uc CHR ''/'' # n)" using n(3) ne byte_len_last [of n] by simp
    ultimately show ?thesis using n(1) x e line scan_one [of c s it "uc CHR ''/'' # n" it' LineComment e] by (simp add: lex_slash_def)
  next
    case block
    obtain i where xi: "x = Some (i, uc CHR ''*'')" using block by (cases x) auto
    have i: "i = here it + 1" using r(3) [OF xi] by (simp add: len_utf8_def)
    define it2 where "it2 = it1\<lparr>peeked := None\<rparr>"
    have nx: "next_char c it1 = (Some (i, uc CHR ''*''), it2)" using r(2) xi by (simp add: next_char_def it2_def)
    have r2: "run c s it (us ''/*'') it2" using run_next(1) [OF r(1) nx] by simp
    obtain e d it' where b: "block_comment c (i + 1) 1 it2 = ((e, d), it')" by (metis prod.collapse)
    have "i + 1 = here it + byte_len (us ''/*'')" using i by (simp add: len_utf8_def)
    from block_comment_ok [OF r2 b this] obtain n where n: "run c s it (us ''/*'' @ n) it'" "e = here it + byte_len (us ''/*'' @ n)" "d = 0 \<longrightarrow> comment_closes 1 n" by auto
    have "token_text (if d = 0 then BlockComment else Unknown) (us ''/*'' @ n)" using n(3) by (simp add: token_text_def)
    then show ?thesis using scan_one [OF n(1) _ _ n(2)] x xi nx b by (simp add: lex_slash_def)
  next
    case op
    have "scan_ok c s it (case accept c (uc CHR ''='') it1 of (Some e, it) \<Rightarrow> (Ok [mk_token SlashEq (here it0) (e + 1)], it) | (None, it) \<Rightarrow> (Ok [mk_token Slash (here it0) (here it0 + 1)], it))"
      if "it0 = it" for it0
      unfolding that by (rule scan_ok_accept [OF r(1)]; (erule scan_punctuation; simp add: punctuation_def len_utf8_def))
    then show ?thesis using x op by (simp add: lex_slash_def)
  qed
qed

section \<open>Character literals\<close>

lemma next_char_None: "next_char c it = (None, it') \<Longrightarrow> within c s it \<Longrightarrow> peeked it' = None \<and> (ended it' \<or> ahead it' = [])"
  using pull_moved [of c it None it' s] by (auto simp: next_char_def within_def split: option.splits)

lemma quoted_run_ok:
  assumes "run c s it m it1" "quoted_run c escaped e it1 = ((e', closed), it')" "e = here it + byte_len m"
  shows "\<exists>n. run c s it (m @ n) it' \<and> e' = here it + byte_len (m @ n)"
  using assms
proof (induction c escaped e it1 arbitrary: m rule: quoted_run.induct)
  case (1 c escaped e it1)
  obtain y it2 where pk: "peek_char c it1 = (y, it2)" by (cases "peek_char c it1")
  note step = 1(5) [unfolded quoted_run.simps [of c escaped e it1] pk prod.case] and r = run_peek [OF 1(4) pk]
  show ?case
  proof (cases "\<exists>i ch. y = Some (i, ch) \<and> \<not> (ch = cr \<or> ch = lf)")
    case False
    then have "e' = e" "it' = it2" using step by (auto split: option.splits)
    then show ?thesis using r(1) 1(6) by (intro exI [of _ "[]"]) simp
  next
    case True
    then obtain i ch where y: "y = Some (i, ch)" "\<not> (ch = cr \<or> ch = lf)" by blast
    have sk: "run c s it (m @ [ch]) (skip_char c it2)" "i + len_utf8 ch = here it + byte_len (m @ [ch])"
      using run_skip [OF r(1)] r(2) r(3) [OF y(1)] y by simp_all
    note ih = 1(1-3) [OF pk [symmetric] y(1) refl y(2)]
    consider (closed) "e' = i + len_utf8 ch" "it' = skip_char c it2" | (escape) escaped "quoted_run c False (i + len_utf8 ch) (skip_char c it2) = ((e', closed), it')"
      | (backslash) "\<not> escaped" "ch = backslash" "quoted_run c True (i + len_utf8 ch) (skip_char c it2) = ((e', closed), it')"
      | (plain) "\<not> escaped" "ch \<noteq> backslash" "ch \<noteq> squote" "quoted_run c escaped (i + len_utf8 ch) (skip_char c it2) = ((e', closed), it')"
      using step y by (auto split: if_splits)
    then have "\<exists>n. run c s it ((m @ [ch]) @ n) it' \<and> e' = here it + byte_len ((m @ [ch]) @ n)"
    proof cases
      case closed
      then show ?thesis using sk by (intro exI [of _ "[]"]) simp
    next
      case escape
      then show ?thesis using ih(1) [OF _ sk(1) _ sk(2)] by blast
    next
      case backslash
      then show ?thesis using ih(2) [OF _ _ sk(1) _ sk(2)] by blast
    next
      case plain
      then show ?thesis using ih(3) [OF _ _ _ sk(1) _ sk(2)] by blast
    qed
    then show ?thesis by (metis append.assoc)
  qed
qed

lemma quoted_token_ok:
  assumes "run c s it m it1" "m \<noteq> []" "e = here it + byte_len m" "\<And>r. token_text (k r) r"
  shows "scan_ok c s it (case quoted_run c False e it1 of ((e, closed), it') \<Rightarrow>
     if \<not> closed then (Ok [mk_token Unknown (here it) e], it') else with_slice s (here it) e (\<lambda>r. (Ok [mk_token (k r) (here it) e], it')) it')"
proof -
  obtain e' closed it' where q: "quoted_run c False e it1 = ((e', closed), it')" by (metis prod.collapse)
  obtain n where n: "run c s it (m @ n) it'" "e' = here it + byte_len (m @ n)" using quoted_run_ok [OF assms(1) q assms(3)] by blast
  then show ?thesis using q assms(2) run_slice [OF n(1)] scan_one [OF n(1) _ assms(4) n(2)] scan_one [OF n(1) _ token_unknown n(2)]
    by (simp add: with_slice_def)
qed

lemma lex_quote_ok:
  assumes "at_first c s it ch" "ch = squote \<or> ch = uc CHR ''b'' \<and> starts_at s (here it) [uc CHR ''b'', squote] = Ok True"
  shows "scan_ok c s it (lex_quote c s (here it) ch it)"
proof -
  have tt: "token_text (case decode_byte_char_literal r of Ok _ \<Rightarrow> ByteChar | _ \<Rightarrow> Unknown) r"
    "token_text (case decode_char_literal r of Ok _ \<Rightarrow> Char | _ \<Rightarrow> Unknown) r" for r
    by (auto simp: token_text_def split: outcome.splits)
  note r0 = run_first [OF assms(1)]
  show ?thesis
  proof (cases "ch = uc CHR ''b''")
    case False
    then have "ch = squote" using assms(2) by simp
    then show ?thesis using quoted_token_ok [OF r0 _ _ tt(2), of "here it + 1"] by (simp add: lex_quote_def Let_def len_utf8_def cong: if_cong)
  next
    case b: True
    obtain y it2 where n: "next_char c (skip_char c it) = (y, it2)" by (cases "next_char c (skip_char c it)")
    note r = run_next [OF r0 n]
    have sk: "skip_char c (skip_char c it) = it2" using n by (simp add: skip_char_def)
    show ?thesis
    proof (cases y)
      case (Some z)
      obtain i d where z: "z = (i, d)" by (cases z)
      have "slice_from s (here it) = Some (pending it @ ahead it)" using within_slice_from assms(1) by (auto simp: at_first_def)
      then obtain q where q: "pending it @ ahead it = uc CHR ''b'' # squote # q" using assms(2) b by (auto simp: starts_at_def str_starts_iff)
      obtain k where "pending it @ ahead it = [ch, d] @ k" using r(1) Some z by (auto simp: run_def moved_def)
      then have "d = squote" using q by simp
      then have "run c s it [ch, squote] it2" using r(1) Some z by simp
      then show ?thesis using quoted_token_ok [OF _ _ _ tt(1), of c s it "[ch, squote]" it2 "here it + 2"] b sk by (simp add: lex_quote_def Let_def len_utf8_def cong: if_cong)
    next
      case None
      have w: "peeked it2 = None" "ended it2 \<or> ahead it2 = []" using next_char_None n None run_within [OF r0] by auto
      then obtain it3 where "peek_char c it2 = (None, it3)" by (auto simp: peek_char_def pull_def split: option.splits)
      then have q: "quoted_run c False (here it + 2) it2 = ((here it + 2, False), it3)" by (subst quoted_run.simps) simp
      have "slice_from s (here it) = Some (pending it @ ahead it)" using within_slice_from assms(1) by (auto simp: at_first_def)
      then obtain k where k: "pending it @ ahead it = uc CHR ''b'' # squote # k" using assms(2) b by (auto simp: starts_at_def str_starts_iff)
      have "here it + 1 \<noteq> byte_len s" using assms(1) k by (auto simp: at_first_def len_utf8_def elim!: withinE)
      then have "tripped c (polls it2)" using r(3) None b by (simp add: len_utf8_def)
      moreover have "run c s it [ch] it3" using run_peek(1) [OF _ \<open>peek_char c it2 = (None, it3)\<close>] r(1) None by simp
      ultimately have "scan_ok c s it (Ok ts, it3)" for ts
        using run_polls [OF \<open>run c s it [ch] it3\<close>] run_within [OF \<open>run c s it [ch] it3\<close>] peek_char_polls [OF \<open>peek_char c it2 = (None, it3)\<close>] tripped_mono by (auto simp: scan_ok_def)
      then show ?thesis using b sk q by (simp add: lex_quote_def Let_def cong: if_cong)
    qed
  qed
qed

section \<open>Numbers\<close>

lemma run_take_end:
  assumes "run c s it m it1" "take_run c p w e it1 = (e', it')" "e = here it + byte_len m" "\<And>ch. p ch \<Longrightarrow> w ch = len_utf8 ch"
  shows "\<exists>n. run c s it (m @ n) it' \<and> e' = here it + byte_len (m @ n)"
proof -
  obtain n where n: "run c s it (m @ n) it'" "list_all p n" "n = [] \<and> e' = e \<or> n \<noteq> [] \<and> e' = here it + byte_len m + byte_len (butlast n) + w (last n)"
    using run_take [OF assms(1,2)] by metis
  moreover have "w (last n) = len_utf8 (last n)" if "n \<noteq> []" using n(2) that assms(4) by (simp add: list_all_iff)
  ultimately show ?thesis using assms(3) byte_len_last [of n] by (intro exI [of _ n]) auto
qed

lemma run_peek_is:
  assumes "run c s it m it1" "peek_is c p it1 = (b, it')"
  shows "run c s it m it'" "b \<Longrightarrow> \<exists>i ch. peeked it' = Some (Some (i, ch)) \<and> p ch"
proof -
  obtain x where x: "peek_char c it1 = (x, it')" "b = (case x of Some (i, ch) \<Rightarrow> p ch | None \<Rightarrow> False)" using assms(2) by (auto simp: peek_is_def split: prod.splits)
  show "run c s it m it'" by (rule run_peek(1) [OF assms(1) x(1)])
  show "\<exists>i ch. peeked it' = Some (Some (i, ch)) \<and> p ch" if b using run_peek(2) [OF assms(1) x(1)] x(2) that by (auto split: option.splits)
qed

lemma run_next_peeked:
  assumes "run c s it m it1" "peeked it1 = Some (Some (i, ch))"
  obtains it' where "next_char c it1 = (Some (i, ch), it')" "run c s it (m @ [ch]) it'" "i = here it + byte_len m"
proof -
  have n: "next_char c it1 = (Some (i, ch), it1\<lparr>peeked := None\<rparr>)" using assms(2) by (simp add: next_char_def)
  show ?thesis using that [OF n] run_next(1) [OF assms(1) n] run_next(2) [OF assms(1) n] by simp
qed

lemma number_char_ascii: "is_number_char ch \<Longrightarrow> 1 = len_utf8 ch"
  by (auto simp: is_number_char_def is_ascii_digit_def len_utf8_def)

lemma number_fraction_ok:
  assumes "run c s it m it1" "e = here it + byte_len m" "number_fraction c s e it1 = (x, it')"
  shows "\<exists>k n. x = Ok (k, here it + byte_len (m @ n)) \<and> run c s it (m @ n) it' \<and> k \<in> {Number, Float}"
proof -
  obtain y it2 where pk: "peek_char c it1 = (y, it2)" by (cases "peek_char c it1")
  note r = run_peek [OF assms(1) pk]
  show ?thesis
  proof (cases "case y of Some (dot, ch) \<Rightarrow> ch = uc CHR ''.'' \<and> (case byte_at s (dot + 1) of Some b \<Rightarrow> is_ascii_digit b | None \<Rightarrow> False) | None \<Rightarrow> False")
    case False
    then show ?thesis using assms(2,3) pk r(1) by (intro exI [of _ Number] exI [of _ "[]"]) (auto simp: number_fraction_def)
  next
    case True
    then obtain dot where y: "y = Some (dot, uc CHR ''.'')" by (auto split: option.splits)
    obtain it3 where n: "next_char c it2 = (Some (dot, uc CHR ''.''), it3)" "run c s it (m @ us ''.'') it3" "dot = here it + byte_len m"
      using run_next_peeked [OF r(1)] r(2) y by (metis list.simps(8,9))
    obtain e' it4 where t: "take_run c is_number_char (\<lambda>_. 1) (dot + 1) it3 = (e', it4)" by (cases "take_run c is_number_char (\<lambda>_. 1) (dot + 1) it3")
    obtain q where q: "run c s it ((m @ us ''.'') @ q) it4" "e' = here it + byte_len ((m @ us ''.'') @ q)"
      using run_take_end [OF n(2) t _ number_char_ascii] n(3) by (auto simp: len_utf8_def)
    have "x = Ok (Float, e')" "it' = it4" using assms(3) pk True n(1) t by (auto simp: number_fraction_def)
    then show ?thesis using q by (intro exI [of _ Float] exI [of _ "us ''.'' @ q"]) simp
  qed
qed

lemma number_exponent_ok:
  assumes "run c s it m it1" "e = here it + byte_len m" "number_exponent c k e it1 = (x, it')"
  shows "\<exists>k' n. x = Ok (k', here it + byte_len (m @ n)) \<and> run c s it (m @ n) it' \<and> k' \<in> {k, Float, Unknown}"
proof -
  obtain b it2 where b: "peek_is c (\<lambda>ch. ch = uc CHR ''e'' \<or> ch = uc CHR ''E'') it1 = (b, it2)"
    by (cases "peek_is c (\<lambda>ch. ch = uc CHR ''e'' \<or> ch = uc CHR ''E'') it1")
  note r = run_peek_is [OF assms(1) b]
  show ?thesis
  proof (cases b)
    case False
    then show ?thesis using assms(2,3) b r(1) by (intro exI [of _ k] exI [of _ "[]"]) (auto simp: number_exponent_def)
  next
    case True
    obtain i ch where ch: "peeked it2 = Some (Some (i, ch))" "ch = uc CHR ''e'' \<or> ch = uc CHR ''E''" using r(2) [OF True] by blast
    obtain it3 where n: "next_char c it2 = (Some (i, ch), it3)" "run c s it (m @ [ch]) it3" "i = here it + byte_len m" using run_next_peeked [OF r(1) ch(1)] by blast
    obtain g it4 where g: "peek_is c (\<lambda>ch. ch = uc CHR ''+'' \<or> ch = uc CHR ''-'') it3 = (g, it4)" by (cases "peek_is c (\<lambda>ch. ch = uc CHR ''+'' \<or> ch = uc CHR ''-'') it3")
    note rg = run_peek_is [OF n(2) g]
    have "\<exists>j d it5 q. (if g then next_char c it4 else (Some (i, 0), it4)) = (Some (j, d), it5) \<and> run c s it ((m @ [ch]) @ q) it5 \<and> j + 1 = here it + byte_len ((m @ [ch]) @ q)"
    proof (cases g)
      case False
      then show ?thesis using rg(1) n(3) ch(2) by (auto simp: len_utf8_def intro!: exI [of _ "[]"])
    next
      case True
      obtain j d where d: "peeked it4 = Some (Some (j, d))" "d = uc CHR ''+'' \<or> d = uc CHR ''-''" using rg(2) [OF True] by blast
      obtain it5 where "next_char c it4 = (Some (j, d), it5)" "run c s it ((m @ [ch]) @ [d]) it5" "j = here it + byte_len (m @ [ch])" using run_next_peeked [OF rg(1) d(1)] by blast
      then show ?thesis using True d(2) by (intro exI [of _ j] exI [of _ d] exI [of _ it5] exI [of _ "[d]"]) (auto simp: len_utf8_def)
    qed
    then obtain j d it5 q where q: "(if g then next_char c it4 else (Some (i, 0), it4)) = (Some (j, d), it5)" "run c s it ((m @ [ch]) @ q) it5" "j + 1 = here it + byte_len ((m @ [ch]) @ q)" by blast
    obtain h it6 where h: "peek_is c is_ascii_digit it5 = (h, it6)" by (cases "peek_is c is_ascii_digit it5")
    obtain e' it7 where t: "take_run c is_number_char (\<lambda>_. 1) (j + 1) it6 = (e', it7)" by (cases "take_run c is_number_char (\<lambda>_. 1) (j + 1) it6")
    obtain w where w: "run c s it (((m @ [ch]) @ q) @ w) it7" "e' = here it + byte_len (((m @ [ch]) @ q) @ w)"
      using run_take_end [OF run_peek_is(1) [OF q(2) h] t q(3) number_char_ascii] by blast
    have "x = Ok (if h then Float else Unknown, e')" "it' = it7" using assms(3) b True n(1) g q(1) h t by (simp_all add: number_exponent_def split: if_splits)
    then show ?thesis using w by (intro exI [of _ "if h then Float else Unknown"] exI [of _ "[ch] @ q @ w"]) simp
  qed
qed

lemma lex_number_ok:
  assumes "at_first c s it ch" "is_ascii_digit ch"
  shows "scan_ok c s it (lex_number c s (here it) ch it)"
proof -
  have tt: "token_text Number m \<longleftrightarrow> is_integer_literal m" "token_text Float m \<longleftrightarrow> is_ascii_digit (hd m)" for m by (simp_all add: token_text_def)
  have ch: "len_utf8 ch = 1" using assms(2) by (auto simp: is_ascii_digit_def len_utf8_def)
  note r0 = run_first [OF assms(1)]
  let ?p = "\<lambda>d. d = uc CHR ''b'' \<or> d = uc CHR ''o'' \<or> d = uc CHR ''x''"
  obtain b it1 where b: "(if ch = uc CHR ''0'' then peek_is c ?p (skip_char c it) else (False, skip_char c it)) = (b, it1)"
    by (cases "if ch = uc CHR ''0'' then peek_is c ?p (skip_char c it) else (False, skip_char c it)")
  have r1: "run c s it [ch] it1" "b \<Longrightarrow> \<exists>i d. peeked it1 = Some (Some (i, d)) \<and> ?p d" using b r0 run_peek_is [OF r0, of ?p] by (auto split: if_splits)
  show ?thesis
  proof (cases b)
    case True
    obtain i d where d: "peeked it1 = Some (Some (i, d))" "?p d" using r1(2) [OF True] by blast
    obtain it2 where n: "next_char c it1 = (Some (i, d), it2)" "run c s it ([ch] @ [d]) it2" "i = here it + byte_len [ch]" using run_next_peeked [OF r1(1) d(1)] by blast
    obtain e it3 where t: "take_run c is_ident_char (\<lambda>_. 1) (i + 1) it2 = (e, it3)" by (cases "take_run c is_ident_char (\<lambda>_. 1) (i + 1) it2")
    have "i + 1 = here it + byte_len ([ch] @ [d])" using n(3) d(2) by (auto simp: len_utf8_def)
    then obtain w where w: "run c s it (([ch] @ [d]) @ w) it3" "e = here it + byte_len (([ch] @ [d]) @ w)"
      using run_take_end [OF n(2) t] ident_char_ascii by fastforce
    show ?thesis using True b n(1) t run_slice [OF w(1)] w(2) scan_one [OF w(1) _ _ w(2)] tt by (simp add: lex_number_def lex_radix_number_def with_slice_def)
  next
    case False
    obtain e it2 where t: "take_run c is_number_char (\<lambda>_. 1) (here it + 1) it1 = (e, it2)" by (cases "take_run c is_number_char (\<lambda>_. 1) (here it + 1) it1")
    obtain p where p: "run c s it ([ch] @ p) it2" "e = here it + byte_len ([ch] @ p)" using run_take_end [OF r1(1) t _ number_char_ascii] ch by auto
    obtain x it3 where x: "number_fraction c s e it2 = (x, it3)" by (cases "number_fraction c s e it2")
    obtain k q where q: "x = Ok (k, here it + byte_len (([ch] @ p) @ q))" "run c s it (([ch] @ p) @ q) it3" "k \<in> {Number, Float}" using number_fraction_ok [OF p x] by blast
    obtain y it4 where y: "number_exponent c k (here it + byte_len (([ch] @ p) @ q)) it3 = (y, it4)" by (cases "number_exponent c k (here it + byte_len (([ch] @ p) @ q)) it3")
    obtain k' u where u: "y = Ok (k', here it + byte_len ((([ch] @ p) @ q) @ u))" "run c s it ((([ch] @ p) @ q) @ u) it4" "k' \<in> {k, Float, Unknown}"
      using number_exponent_ok [OF q(2) refl y] by blast
    obtain e' it5 where t2: "take_run c is_ident_char len_utf8 (here it + byte_len ((([ch] @ p) @ q) @ u)) it4 = (e', it5)"
      by (cases "take_run c is_ident_char len_utf8 (here it + byte_len ((([ch] @ p) @ q) @ u)) it4")
    obtain v where "run c s it (((([ch] @ p) @ q) @ u) @ v) it5" "e' = here it + byte_len (((([ch] @ p) @ q) @ u) @ v)" using run_take_end [OF u(2) t2 refl] by blast
    then obtain w where w: "run c s it (ch # w) it5" "e' = here it + byte_len (ch # w)" by simp
    define k2 where "k2 = (if float_suffix (snd (numeric_literal_parts (ch # w))) then Float else k')"
    define k3 where "k3 = (if k2 = Number \<and> \<not> is_integer_literal (ch # w) then Unknown else k2)"
    have "token_text k3 (ch # w)" using q(3) u(3) assms(2) by (auto simp: k2_def k3_def tt)
    then have "scan_ok c s it (Ok [mk_token k3 (here it) e'], it5)" using scan_one [OF w(1) _ _ w(2)] by simp
    moreover have "lex_number c s (here it) ch it = (Ok [mk_token k3 (here it) e'], it5)"
      using False b t x q(1) y u(1) t2 run_slice [OF w(1)] w(2) by (simp add: lex_number_def lex_decimal_def with_slice_def k2_def k3_def Let_def)
    ultimately show ?thesis by simp
  qed
qed

end
