(* ===== verification/Lexer_Cancellation.thy ===== *)
theory Lexer_Cancellation
  imports Lexer Literal_Decoding
begin

text \<open>
  The lexer under cancellation: a scan in which no check failed is the scan without a token. The
  proofs follow the definitions through the composition rules of \<open>Literal_Decoding\<close>.
\<close>

section \<open>Composition\<close>

lemma scan_then_agrees [agreement]:
  assumes "agrees c k r r'" "\<And>x it it' l. r = (Ok x, it) \<Longrightarrow> trails c l it it' \<Longrightarrow> agrees c l (f x it) (g x it')"
  shows "agrees c k (scan_then r f) (scan_then r' g)"
proof -
  have "agrees c k (case r of (x, it) \<Rightarrow> (case x of Ok y \<Rightarrow> f y it | Err e \<Rightarrow> (Err e, it) | Panic p \<Rightarrow> (Panic p, it)))
    (case r' of (x, it) \<Rightarrow> (case x of Ok y \<Rightarrow> g y it | Err e \<Rightarrow> (Err e, it) | Panic p \<Rightarrow> (Panic p, it)))"
    by (intro agrees_bind agrees_outcome agrees_return assms) auto
  then show ?thesis by (simp add: scan_then_def)
qed

lemma with_slice_agrees [agreement]:
  assumes "trails c k it it'" "\<And>t. agrees c k (f t) (g t)"
  shows "agrees c k (with_slice s a b f it) (with_slice s a b g it')"
  using assms by (auto simp: with_slice_def intro: agreement split: option.splits)

lemma counted_trails [agreement]: "trails c k it it' \<Longrightarrow> polls it \<le> n \<Longrightarrow> trails c k (it\<lparr>polls := n\<rparr>) (it'\<lparr>polls := m\<rparr>)"
  using tripped_mono by (fastforce simp: trails_iff)

lemma with_decoder_agrees [agreement]:
  assumes "trails c k it it'" "\<And>k k'. counts c k (decode k) (decode' k')" "\<And>x l it it'. trails c l it it' \<Longrightarrow> agrees c l (f x it) (g x it')"
  shows "agrees c k (with_decoder decode f it) (with_decoder decode' g it')"
proof -
  obtain x n where x: "decode (polls it) = (x, n)" by fastforce
  obtain y m where y: "decode' (polls it') = (y, m)" by fastforce
  have ct: "polls it \<le> n" "case x of Err _ \<Rightarrow> tripped c n | _ \<Rightarrow> \<not> tripped c n \<longrightarrow> y = x" using assms(2) [of "polls it" "polls it'"] x y by (auto simp: counts_def split: outcome.splits)
  have t: "trails c k (it\<lparr>polls := n\<rparr>) (it'\<lparr>polls := m\<rparr>)" by (rule counted_trails [OF assms(1) ct(1)])
  have "agrees c k (x, it\<lparr>polls := n\<rparr>) (y, it'\<lparr>polls := m\<rparr>)" using t ct(2) by (auto simp: agrees_def split: outcome.splits)
  then have "agrees c k (case (x, it\<lparr>polls := n\<rparr>) of (x, it) \<Rightarrow> (case x of Ok d \<Rightarrow> f d it | Err e \<Rightarrow> (Err e, it) | Panic p \<Rightarrow> (Panic p, it)))
      (case (y, it'\<lparr>polls := m\<rparr>) of (x, it) \<Rightarrow> (case x of Ok d \<Rightarrow> g d it | Err e \<Rightarrow> (Err e, it) | Panic p \<Rightarrow> (Panic p, it)))"
    by (intro agrees_bind agrees_outcome agrees_return assms(3)) auto
  then show ?thesis by (simp add: with_decoder_def x y)
qed

lemma with_check_agrees [agreement]:
  assumes "trails c k it it'" "\<And>l it it'. trails c l it it' \<Longrightarrow> agrees c l (f it) (g it')"
  shows "agrees c k (with_check c f it) (with_check None g it')"
proof (cases "cancel_seen c (polls it)")
  case True
  then show ?thesis using assms(1) by (auto simp: with_check_def Let_def agrees_def trails_def tripped_Suc)
next
  case False
  then show ?thesis using assms(2) [OF counted_trails [OF assms(1), of "polls it + 1" "polls it' + 1"]] by (simp add: with_check_def Let_def cancel_seen_def)
qed

section \<open>Scanners\<close>

lemma accept_agrees [agreement]: "trails c k it it' \<Longrightarrow> agrees c k (accept c ch it) (accept None ch it')"
  unfolding accept_def by (intro agreement)

lemma peek_offset_agrees [agreement]: "trails c k it it' \<Longrightarrow> agrees c k (peek_offset c s it) (peek_offset None s it')"
  unfolding peek_offset_def by (intro agreement)

lemma bit_operator_agrees [agreement]: "trails c k it it' \<Longrightarrow> agrees c k (bit_operator c ch it) (bit_operator None ch it')"
  unfolding bit_operator_def by (intro agreement)

lemma block_comment_agrees [agreement]: "trails c k it it' \<Longrightarrow> agrees c k (block_comment c e d it) (block_comment None e d it')"
proof (induction c e d it arbitrary: k it' rule: block_comment.induct)
  case (1 c e d it)
  show ?case unfolding block_comment.simps [of c e d it] block_comment.simps [of None e d it'] by (intro agreement 1) auto
qed

lemma quoted_run_agrees [agreement]: "trails c k it it' \<Longrightarrow> agrees c k (quoted_run c b e it) (quoted_run None b e it')"
proof (induction c b e it arbitrary: k it' rule: quoted_run.induct)
  case (1 c b e it)
  show ?case unfolding quoted_run.simps [of c b e it] quoted_run.simps [of None b e it'] by (intro agreement 1) auto
qed

lemma skip_to_trails [agreement]: "trails c k it it' \<Longrightarrow> trails c k (skip_to c e it) (skip_to None e it')"
proof (induction c e it arbitrary: k it' rule: skip_to.induct)
  case (1 c e it)
  have eq: "skip_to c e it = snd (case peek_char c it of (Some (i, ch), it2) \<Rightarrow> if i < e then ((), skip_to c e (skip_char c it2)) else ((), it2) | (None, it2) \<Rightarrow> ((), it2))" for c it
    by (subst skip_to.simps) (auto split: prod.splits option.splits)
  have "trails c l (skip_to c e (skip_char c it2)) (skip_to None e (skip_char None it2'))"
    if "peek_char c it = (Some (i, ch), it2)" "i < e" "trails c l it2 it2'" for i ch it2 it2' l
    by (intro agreement 1(1) [OF that(1) [symmetric] refl refl that(2)] that(3))
  then show ?case unfolding eq [of c it] eq [of None it'] by (intro agreement 1(2)) auto
qed

lemma skip_escape_trails [agreement]: "trails c k it it' \<Longrightarrow> trails c k (skip_escape c it) (skip_escape None it')"
proof -
  assume t: "trails c k it it'"
  have eq: "skip_escape c it = snd (case next_char c it of (discriminator, it) \<Rightarrow>
        if map_option snd discriminator = Some (uc CHR ''u'') then
          (case peek_is c (\<lambda>ch. ch = uc CHR ''{'') it of
             (b, it) \<Rightarrow> (case b of False \<Rightarrow> ((), it)
           | True \<Rightarrow>
               (case peek_is c (\<lambda>ch. ch = uc CHR ''}'') (skip_run c (\<lambda>ch. ch \<noteq> dquote \<and> ch \<noteq> uc CHR ''}'') (skip_char c it)) of (b, it) \<Rightarrow> (case b of True \<Rightarrow> ((), skip_char c it) | False \<Rightarrow> ((), it)))))
        else ((), it))" for c it
    by (auto simp: skip_escape_def Let_def split: prod.splits bool.splits)
  show ?thesis unfolding eq using t by (intro agreement)
qed

lemma push_text_agrees [agreement]: "trails c k it it' \<Longrightarrow> agrees c k (push_text c s a b it) (push_text None s a b it')"
  unfolding push_text_def by (intro agreement decode_string_fragment_counts)

lemma hole_bytes_counts: "counts c k (hole_bytes c bytes i k) (hole_bytes None bytes i k')"
proof (induction c bytes i k arbitrary: k' rule: hole_bytes.induct)
  case (2 c ch bytes i k)
  let ?p = "i mod CANCELLATION_CHECK_BYTES = 0" let ?k = "\<lambda>k. if ?p then k + 1 else k"
  show ?case
  proof (cases "?p \<and> cancel_seen c k")
    case True
    then show ?thesis by (simp add: counts_def Let_def tripped_Suc)
  next
    case False
    have step: "hole_bytes e (ch # bytes) i l = (if ch \<noteq> uc CHR ''_'' \<and> \<not> is_ascii_alphanumeric ch then (Ok False, ?k l) else hole_bytes e bytes (i + 1) (?k l))"
      if "\<not> (?p \<and> cancel_seen e l)" for e l using that by (auto simp: Let_def)
    have ih: "counts c (?k k) (hole_bytes c bytes (i + 1) (?k k)) (hole_bytes None bytes (i + 1) (?k k'))" if "\<not> (ch \<noteq> uc CHR ''_'' \<and> \<not> is_ascii_alphanumeric ch)"
      using 2 [OF refl _ refl] False that by auto
    show ?thesis unfolding step [OF False] using ih step [of None k'] by (auto simp: cancel_seen_def intro: counts_return counts_weaken)
  qed
qed (simp add: counts_def)

lemma is_hole_name_counts: "counts c k (is_hole_name c name k) (is_hole_name None name k')"
proof -
  have eq: "is_hole_name c name k = (if \<not> (case name of ch # _ \<Rightarrow> ch = uc CHR ''_'' \<or> is_ascii_alphabetic ch | [] \<Rightarrow> False) then (Ok False, k)
      else counted_then (hole_bytes c (str_bytes name) 0 k) (\<lambda>b k. (Ok (b \<and> identifier_kind name = Ident), k)))" for c k
    by (auto simp: is_hole_name_def counted_then_def split: prod.splits outcome.splits bool.splits)
  show ?thesis unfolding eq by (auto intro!: counts_then hole_bytes_counts counts_return)
qed

lemma scan_hole_agrees [agreement]: "trails c k it it' \<Longrightarrow> agrees c k (scan_hole c s a it) (scan_hole None s a it')"
proof -
  assume t: "trails c k it it'"
  have eq: "(case is_hole_name c name (polls it) of (valid, n) \<Rightarrow>
               with_check c (\<lambda>it.
                 case valid of
                   Err x \<Rightarrow> (Err x, it) | Panic p \<Rightarrow> (Panic p, it)
                 | Ok valid \<Rightarrow> F valid it) (it\<lparr>polls := n\<rparr>)) =
      (case is_hole_name c name (polls it) of (valid, n) \<Rightarrow> with_check c (\<lambda>it. scan_then (valid, it) F) (it\<lparr>polls := n\<rparr>))" for c name it and F :: "bool \<Rightarrow> chars \<Rightarrow> token list scan_result"
    by (simp add: scan_then_def)
  have inner: "agrees c l (case is_hole_name c name (polls it) of (valid, n) \<Rightarrow> with_check c (\<lambda>it. scan_then (valid, it) F) (it\<lparr>polls := n\<rparr>))
      (case is_hole_name None name (polls it') of (valid, n) \<Rightarrow> with_check None (\<lambda>it. scan_then (valid, it) G) (it'\<lparr>polls := n\<rparr>))"
    if t: "trails c l it it'" and FG: "\<And>b l it it'. trails c l it it' \<Longrightarrow> agrees c l (F b it) (G b it')" for name l it it' and F G :: "bool \<Rightarrow> chars \<Rightarrow> token list scan_result"
  proof -
    obtain x n where x: "is_hole_name c name (polls it) = (x, n)" by fastforce
    obtain y m where y: "is_hole_name None name (polls it') = (y, m)" by fastforce
    have ct: "polls it \<le> n" "case x of Err _ \<Rightarrow> tripped c n | _ \<Rightarrow> \<not> tripped c n \<longrightarrow> y = x"
      using is_hole_name_counts [of c "polls it" name "polls it'"] x y by (auto simp: counts_def split: outcome.splits)
    have t1: "trails c l (it\<lparr>polls := n\<rparr>) (it'\<lparr>polls := m\<rparr>)" by (rule counted_trails [OF t ct(1)])
    show ?thesis
    proof (cases "tripped c n")
      case True
      then have "cancel_seen c n" by (rule tripped_seen)
      then show ?thesis using t1 x y by (simp add: with_check_def Let_def agrees_def trails_def tripped_Suc)
    next
      case False
      then have "y = x" using ct(2) by (auto split: outcome.splits)
      then show ?thesis unfolding x y prod.case by (auto intro!: with_check_agrees t1 scan_then_agrees FG agrees_return)
    qed
  qed
  show ?thesis unfolding scan_hole_def eq using t by (intro agreement inner)
qed

lemma scan_interpolation_agrees [agreement]: "trails c k it it' \<Longrightarrow> agrees c k (scan_interpolation c s a i it) (scan_interpolation None s a i it')"
  unfolding scan_interpolation_def by (intro agreement)

lemma cooked_loop_agrees [agreement]: "trails c k it it' \<Longrightarrow> agrees c k (cooked_loop c s st it) (cooked_loop None s st it')"
proof (induction c s st it arbitrary: k it' rule: cooked_loop.induct)
  case (1 c s st it)
  show ?case unfolding cooked_loop.simps [of c s st it] cooked_loop.simps [of None s st it'] by (intro agreement 1) auto
qed

lemma scan_cooked_agrees [agreement]: "trails c k it it' \<Longrightarrow> agrees c k (scan_cooked c s a n it) (scan_cooked None s a n it')"
  unfolding scan_cooked_def Let_def by (intro agreement)

lemma literal_token_agrees [agreement]: "trails c k it it' \<Longrightarrow> agrees c k (literal_token c b s a e it) (literal_token None b s a e it')"
  unfolding literal_token_def by (intro agreement decode_byte_string_literal_counts decode_string_literal_counts)

lemma scan_plain_agrees [agreement]: "trails c k it it' \<Longrightarrow> agrees c k (scan_plain c s a d b it) (scan_plain None s a d b it')"
proof (induction c s a d b it arbitrary: k it' rule: scan_plain.induct)
  case (1 c s a d b it)
  show ?case unfolding scan_plain.simps [of c s a d b it] scan_plain.simps [of None s a d b it'] by (intro agreement 1) auto
qed

lemma bad_opener_agrees [agreement]: "trails c k it it' \<Longrightarrow> agrees c k (bad_opener c s a b it) (bad_opener None s a b it')"
  unfolding bad_opener_def Let_def by (intro agreement)

lemma scan_string_agrees [agreement]: "trails c k it it' \<Longrightarrow> agrees c k (scan_string c s a it) (scan_string None s a it')"
  unfolding scan_string_def Let_def by (intro agreement)

lemma lex_symbol_agrees [agreement]: "trails c k it it' \<Longrightarrow> agrees c k (lex_symbol c s i ch it) (lex_symbol None s i ch it')"
  unfolding lex_symbol_def lex_one_def lex_two_def lex_dots_def lex_equals_def lex_minus_def lex_bang_def lex_percent_def lex_bit_operator_def lex_slash_def by (intro agreement)

lemma lex_number_agrees [agreement]: "trails c k it it' \<Longrightarrow> agrees c k (lex_number c s i ch it) (lex_number None s i ch it')"
  unfolding lex_number_def lex_radix_number_def lex_decimal_def number_fraction_def number_exponent_def Let_def by (intro agreement)

lemma lex_quote_agrees [agreement]: "trails c k it it' \<Longrightarrow> agrees c k (lex_quote c s i ch it) (lex_quote None s i ch it')"
  unfolding lex_quote_def Let_def by (intro agreement)

lemma lex_token_agrees [agreement]: "trails c k it it' \<Longrightarrow> agrees c k (lex_token c s i ch it) (lex_token None s i ch it')"
  unfolding lex_token_def lex_whitespace_def lex_identifier_def by (intro agreement)

lemma lex_loop_agrees [agreement]: "trails c k it it' \<Longrightarrow> agrees c k (lex_loop c s ts it) (lex_loop None s ts it')"
proof (induction c s ts it arbitrary: k it' rule: lex_loop.induct)
  case (1 c s ts it)
  show ?case unfolding lex_loop.simps [of c s ts it] lex_loop.simps [of None s ts it'] by (intro agreement 1) auto
qed

text \<open>What the lexer returns with a token is what it returns without.\<close>

lemma lex_with_cancellation_agrees:
  assumes "lex_with_cancellation c s = Ok ts"
  shows "lex_with_cancellation None s = Ok ts"
proof -
  let ?f = "\<lambda>c. with_check c (\<lambda>it. scan_then (lex_loop c s [] it) (\<lambda>tokens it.
         with_check c (\<lambda>it. (Ok (tokens @ [mk_token Eof (byte_len s) (byte_len s)]), it)) it)) (polling_chars s 0)"
  have a: "agrees c 0 (?f c) (?f None)" by (intro agreement) (simp add: trails_def)
  have "\<not> tripped c (polls (snd (?f c)))" using assms
    by (auto simp: lex_with_cancellation_def with_check_def Let_def scan_then_def tripped_Suc split: if_splits prod.splits outcome.splits)
  then show ?thesis using a assms by (simp add: lex_with_cancellation_def agrees_def)
qed

end
