(* ===== verification/Lexer_Strings.thy ===== *)
theory Lexer_Strings
  imports Lexer_Sound Lexer_Cancellation
begin

text \<open>
  Strings and interpolation, and the lexer as a whole. A string without a hole is one token that
  decodes; a string with holes is a sequence of tokens that tile it, whose texts decode and whose
  names are identifiers.
\<close>

lemma byte_len_pos [simp]: "0 < byte_len s \<longleftrightarrow> s \<noteq> []"
  by (cases s) auto

lemma len_utf8_nonzero: "len_utf8 c \<noteq> 0"
  by (simp add: len_utf8_def)

section \<open>Decoders never panic\<close>

lemma delimiter_opening_total: "delimiter_opening s \<noteq> Panic p"
proof -
  have "opening_hashes bytes h \<noteq> Panic p" for bytes h by (induction bytes h rule: opening_hashes.induct) auto
  then show ?thesis by (simp add: delimiter_opening_def split: option.splits)
qed

lemma string_content_total: "string_content s \<noteq> Panic p"
  using delimiter_opening_total [of s] by (cases "delimiter_opening s") (auto simp: string_content_def Let_def ok_or_def split: option.splits)

definition total :: "('e, 'a) outcome \<times> nat \<Rightarrow> bool" where
  "total r \<longleftrightarrow> (\<forall>p. fst r \<noteq> Panic p)"

lemma total_simps [simp]: "total (Ok x, k)" "total (Err e, k)" "total (cancel_check c k, l)"
  by (simp_all add: total_def cancel_check_def)

lemma counted_then_total: "total r \<Longrightarrow> (\<And>x n. total (f x n)) \<Longrightarrow> total (counted_then r f)"
  by (cases r; cases "fst r") (auto simp: counted_then_def total_def)

lemma decode_string_content_total: "total (decode_string_content c content cooked byte k)"
  unfolding decode_string_content_def by (auto split: prod.splits intro!: counted_then_total)

lemma raw_closes_total: "total (raw_closes c d s i n k)"
  by (induction c d s i n k rule: raw_closes.induct) (auto simp: Let_def)

lemma decode_string_literal_inner_total: "total (decode_string_literal_inner c s byte k)"
  using string_content_total [of s]
  by (auto simp: decode_string_literal_inner_def split: outcome.splits string_delimiter.splits
      intro!: counted_then_total raw_closes_total decode_string_content_total)

lemma checked_decode_total: "(\<And>k. total (f k)) \<Longrightarrow> total (checked_decode c f k)"
  unfolding checked_decode_def by (intro counted_then_total) simp_all

lemma bytes_of_total: "total r \<Longrightarrow> total (bytes_of r)"
  by (cases r; cases "fst r") (auto simp: bytes_of_def total_def)

text \<open>The decoders that the scanner calls: they only count checks, fail only when one failed, and agree with the decoders without a token.\<close>

lemma decoder_ok:
  assumes "counts c k (decode k) r'" "total (decode k)" "decode k = (x, n)"
  shows "k \<le> n \<and> (case x of Ok _ \<Rightarrow> True | Err _ \<Rightarrow> tripped c n | Panic _ \<Rightarrow> False)"
  using assms by (auto simp: counts_def total_def split: outcome.splits)

lemma decoders_total:
  "total (decode_string_fragment_with_cancellation c s k)" "total (decode_string_literal_with_cancellation c s k)"
  "total (decode_byte_string_literal_with_cancellation c s k)"
  unfolding decode_string_fragment_with_cancellation_def decode_string_literal_with_cancellation_def decode_byte_string_literal_with_cancellation_def
  by (auto intro!: checked_decode_total decode_string_content_total decode_string_literal_inner_total bytes_of_total split: option.splits)

lemmas fragment_decoder = decoder_ok [OF decode_string_fragment_counts [where k' = 0] decoders_total(1)]
  and literal_decoder = decoder_ok [OF decode_string_literal_counts [where k' = 0] decoders_total(2)]
  and byte_literal_decoder = decoder_ok [OF decode_byte_string_literal_counts [where k' = 0] decoders_total(3)]

text \<open>A string without holes decodes when its text does.\<close>

lemma string_content_cooked: "string_content (dquote # q @ [dquote]) = Ok (Cooked, q)"
proof -
  have "slice_from (dquote # q @ [dquote]) (1 + byte_len q) = Some [dquote]" unfolding slice_from_Some by (intro exI [of _ "dquote # q"]) (simp add: len_utf8_def)
  moreover have "slice (dquote # q @ [dquote]) 1 (1 + byte_len q) = Some q" unfolding slice_Some by (intro exI [of _ "[dquote]"] exI [of _ "[dquote]"]) (simp add: len_utf8_def)
  ultimately show ?thesis by (simp add: string_content_def delimiter_opening_def closing_len_def encode_utf8_def len_utf8_def Let_def)
qed

lemma cooked_literal_decodes:
  assumes "is_ok (decode_string_fragment q)"
  shows "is_ok (decode_string_literal (dquote # q @ [dquote]))"
proof -
  have "decode_string_literal_inner None (dquote # q @ [dquote]) False = decode_string_content None q True False"
    by (rule ext) (simp add: decode_string_literal_inner_def string_content_cooked)
  then show ?thesis using assms
    by (simp add: decode_string_literal_def decode_string_fragment_def decode_string_literal_with_cancellation_def decode_string_fragment_with_cancellation_def)
qed

lemma empty_fragment_decodes: "is_ok (decode_string_fragment [])"
  by (simp add: decode_string_fragment_def decode_string_fragment_with_cancellation_def checked_decode_def counted_then_def decode_string_content_def
      decode_string_characters.simps polling_chars_def next_char_def pull_def cancel_check_def cancel_seen_def fresh_token_def)

section \<open>Runs inside a string\<close>

lemma skip_run_ok:
  assumes "run c s it m it1"
  shows "\<exists>n. run c s it (m @ n) (skip_run c p it1) \<and> list_all p n"
proof -
  obtain e it' where t: "take_run c p (\<lambda>_. 0) 0 it1 = (e, it')" by (cases "take_run c p (\<lambda>_. 0) 0 it1")
  then show ?thesis using run_take [OF assms t] by (metis skip_run_def snd_conv)
qed

lemma run_skip_any:
  assumes "run c s it m it1"
  shows "\<exists>n. run c s it (m @ n) (skip_char c it1)"
  using run_next(1) [OF assms, of "fst (next_char c it1)" "skip_char c it1"] by (auto simp: skip_char_def)

lemma skip_escape_ok:
  assumes "run c s it m it1"
  shows "\<exists>n. run c s it (m @ n) (skip_escape c it1)"
proof -
  obtain d it2 where d: "next_char c it1 = (d, it2)" by (cases "next_char c it1")
  obtain n1 where r1: "run c s it (m @ n1) it2" using run_next(1) [OF assms d] by blast
  obtain b it3 where b: "peek_is c (\<lambda>ch. ch = uc CHR ''{'') it2 = (b, it3)" by (cases "peek_is c (\<lambda>ch. ch = uc CHR ''{'') it2")
  note r2 = run_peek_is(1) [OF r1 b]
  obtain n2 where r3: "run c s it ((m @ n1) @ n2) (skip_char c it3)" using run_skip_any [OF r2] by blast
  let ?it4 = "skip_run c (\<lambda>ch. ch \<noteq> dquote \<and> ch \<noteq> uc CHR ''}'') (skip_char c it3)"
  obtain n3 where r4: "run c s it (((m @ n1) @ n2) @ n3) ?it4" using skip_run_ok [OF r3] by blast
  obtain e it5 where e: "peek_is c (\<lambda>ch. ch = uc CHR ''}'') ?it4 = (e, it5)" by (cases "peek_is c (\<lambda>ch. ch = uc CHR ''}'') ?it4")
  note r5 = run_peek_is(1) [OF r4 e]
  obtain n4 where r6: "run c s it ((((m @ n1) @ n2) @ n3) @ n4) (skip_char c it5)" using run_skip_any [OF r5] by blast
  have "skip_escape c it1 \<in> {it2, it3, it5, skip_char c it5}" using d b e by (auto simp: skip_escape_def Let_def split: bool.splits)
  then show ?thesis using r1 r2 r5 r6 by (metis append.assoc insertE singletonD)
qed

lemma counted_place [simp]: "pending (it\<lparr>polls := n\<rparr>) = pending it" "here (it\<lparr>polls := n\<rparr>) = here it"
  by (simp_all add: pending_def here_def split: option.splits)

lemma run_counted:
  assumes "run c s it m it1" "polls it1 \<le> n"
  shows "run c s it m (it1\<lparr>polls := n\<rparr>)"
proof -
  have "tripped c (polls it1) \<Longrightarrow> tripped c n" using assms(2) tripped_mono by blast
  then have "within c s (it1\<lparr>polls := n\<rparr>)" using run_within [OF assms(1)] by (auto simp: within_def)
  moreover have "moved it m (it1\<lparr>polls := n\<rparr>)" using assms by (auto simp: run_def moved_def stopped_def)
  ultimately show ?thesis using assms by (simp add: run_def)
qed

lemma push_text_ok:
  assumes "run c s it m it1" "slice s a b = Some t" "push_text c s a b it1 = (x, it')"
  shows "run c s it m it'"
    "case x of
       Ok ts \<Rightarrow> tiles a ts b \<and> list_all (token_ok s) ts \<and> (list_all (\<lambda>t. tkind t \<noteq> Unknown) ts \<longrightarrow> is_ok (decode_string_fragment t))
     | Err _ \<Rightarrow> tripped c (polls it') | Panic _ \<Rightarrow> False"
proof -
  have ab: "a \<le> b" "a = b \<longleftrightarrow> t = []" using assms(2) by (auto simp: slice_Some)
  have "run c s it m it' \<and> (case x of
       Ok ts \<Rightarrow> tiles a ts b \<and> list_all (token_ok s) ts \<and> (list_all (\<lambda>t. tkind t \<noteq> Unknown) ts \<longrightarrow> is_ok (decode_string_fragment t))
     | Err _ \<Rightarrow> tripped c (polls it') | Panic _ \<Rightarrow> False)"
  proof (cases "a = b")
    case True
    then show ?thesis using assms ab empty_fragment_decodes by (auto simp: push_text_def)
  next
    case False
    obtain d n where d: "decode_string_fragment_with_cancellation c t (polls it1) = (d, n)" by (cases "decode_string_fragment_with_cancellation c t (polls it1)")
    note k = fragment_decoder [OF d]
    have r: "run c s it m (it1\<lparr>polls := n\<rparr>)" using run_counted assms(1) k by blast
    show ?thesis
    proof (cases d)
      case (Ok v)
      have v: "decode_string_fragment t = v" using decode_string_fragment_Ok d Ok by blast
      have "token_ok s (mk_token (if is_ok v then FormatText else Unknown) a b)" using assms(2) v by (auto simp: token_ok_def token_text_def)
      then show ?thesis using r assms(2,3) d Ok v False ab by (auto simp: push_text_def with_slice_def with_decoder_def)
    qed (use r assms(2,3) d k False in \<open>auto simp: push_text_def with_slice_def with_decoder_def\<close>)
  qed
  then show "run c s it m it'"
    "case x of
       Ok ts \<Rightarrow> tiles a ts b \<and> list_all (token_ok s) ts \<and> (list_all (\<lambda>t. tkind t \<noteq> Unknown) ts \<longrightarrow> is_ok (decode_string_fragment t))
     | Err _ \<Rightarrow> tripped c (polls it') | Panic _ \<Rightarrow> False" by blast+
qed

lemma tiles_append: "tiles a (ts @ vs) b \<longleftrightarrow> (\<exists>e. tiles a ts e \<and> tiles e vs b)"
  by (induction ts arbitrary: a) auto

section \<open>Holes\<close>

lemma hole_bytes_ok:
  assumes "hole_bytes c bytes i k = (x, n)"
  shows "k \<le> n \<and> (case x of Ok v \<Rightarrow> v \<longrightarrow> list_all is_ident_char bytes | Err _ \<Rightarrow> tripped c n | Panic _ \<Rightarrow> False)"
  using assms
proof (induction c bytes i k arbitrary: x n rule: hole_bytes.induct)
  case (2 c ch bytes i k)
  show ?case
  proof (cases "i mod CANCELLATION_CHECK_BYTES = 0 \<and> cancel_seen c k")
    case True
    then show ?thesis using 2(2) by (auto simp: Let_def tripped_Suc)
  next
    case False
    let ?k = "if i mod CANCELLATION_CHECK_BYTES = 0 then k + 1 else k"
    show ?thesis
    proof (cases "is_ident_char ch")
      case True
      then have "hole_bytes c bytes (i + 1) ?k = (x, n)" using 2(2) False by (auto simp: Let_def is_ident_char_def split: if_splits)
      then have "?k \<le> n \<and> (case x of Ok v \<Rightarrow> v \<longrightarrow> list_all is_ident_char bytes | Err _ \<Rightarrow> tripped c n | Panic _ \<Rightarrow> False)"
        using 2(1) [OF refl _ refl _, of x n] False True by (auto simp: is_ident_char_def)
      then show ?thesis using True by (auto split: outcome.splits if_splits)
    next
      case False
      then show ?thesis using 2(2) \<open>\<not> (i mod _ = 0 \<and> cancel_seen c k)\<close> by (auto simp: Let_def is_ident_char_def split: if_splits)
    qed
  qed
qed auto

lemma ident_bytes: "list_all is_ident_char (str_bytes s) \<Longrightarrow> list_all is_ident_char s"
proof (induction s)
  case (Cons ch s)
  obtain b bs where e: "encode_utf8 ch = b # bs" using length_encode_utf8 [of ch] len_utf8_pos [of ch] by (cases "encode_utf8 ch") auto
  then have "is_ident_char b" using Cons.prems by simp
  then have "b < 0x80" by (auto simp: is_ident_char_def is_ascii_alphanumeric_def is_ascii_alphabetic_def is_ascii_digit_def)
  then have "ch = b" using e by (auto simp: encode_utf8_def split: if_splits)
  then show ?case using Cons \<open>is_ident_char b\<close> by simp
qed simp

lemma is_hole_name_ok:
  assumes "is_hole_name c name k = (x, n)"
  shows "k \<le> n \<and> (case x of Ok v \<Rightarrow> v \<longrightarrow> token_text Ident name \<and> name \<noteq> [] | Err _ \<Rightarrow> tripped c n | Panic _ \<Rightarrow> False)"
proof (cases "case name of ch # _ \<Rightarrow> ch = uc CHR ''_'' \<or> is_ascii_alphabetic ch | [] \<Rightarrow> False")
  case False
  then show ?thesis using assms by (auto simp: is_hole_name_def)
next
  case True
  obtain y l where y: "hole_bytes c (str_bytes name) 0 k = (y, l)" by (cases "hole_bytes c (str_bytes name) 0 k")
  note h = hole_bytes_ok [OF y]
  have hd: "name \<noteq> []" "\<not> is_ascii_digit (hd name)" using True by (auto simp: is_ascii_alphabetic_def is_ascii_digit_def split: list.splits)
  show ?thesis
  proof (cases "y = Ok True")
    case y1: True
    then have "list_all is_ident_char name" using h ident_bytes by simp
    then have i: "is_identifier name" using hd by (simp add: is_identifier_def)
    have "x = Ok (identifier_kind name = Ident)" "n = l" using assms True y y1 by (auto simp: is_hole_name_def)
    then show ?thesis using h hd token_identifier [OF i] by auto
  next
    case False
    then have "x = y" "n = l" using assms True y by (auto simp: is_hole_name_def split: outcome.splits bool.splits)
    then show ?thesis using h False by (auto split: outcome.splits)
  qed
qed

lemma with_check_ok:
  assumes "with_check c f it = (x, it')"
  shows "x = Err Cancelled \<and> it' = it\<lparr>polls := polls it + 1\<rparr> \<and> tripped c (polls it') \<or>
    f (it\<lparr>polls := polls it + 1\<rparr>) = (x, it') \<and> \<not> tripped c (polls it + 1)"
  using assms by (auto simp: with_check_def Let_def tripped_Suc split: if_splits)

lemma slice_parts:
  assumes "slice s a (a + byte_len (l @ m @ r)) = Some (l @ m @ r)"
  shows "slice s (a + byte_len l) (a + byte_len l + byte_len m) = Some m"
proof -
  obtain p q where "s = p @ (l @ m @ r) @ q" "a = byte_len p" using assms by (auto simp: slice_Some)
  then show ?thesis unfolding slice_Some by (intro exI [of _ "p @ l"] exI [of _ "r @ q"]) simp
qed

lemma hole_name_ok: "hole_name q = (name, debug) \<Longrightarrow> q = name @ (if debug then us '':?'' else [])"
  by (auto simp: hole_name_def split: option.splits)

text \<open>The tokens of a hole whose content is \<open>q\<close>, at the offset \<open>a\<close>.\<close>

lemma hole_tokens_ok:
  assumes "slice s a (a + byte_len q) = Some q" "hole_name q = (name, debug)" "valid \<longrightarrow> token_text Ident name \<and> name \<noteq> []"
  shows "tiles a (hole_tokens valid debug a name (a + byte_len q)) (a + byte_len q) \<and> list_all (token_ok s) (hole_tokens valid debug a name (a + byte_len q))"
proof (cases valid)
  case False
  then show ?thesis using assms(1) by (auto simp: hole_tokens_def token_ok_def)
next
  case True
  have pt: "token_text Colon (us '':'')" "token_text Question (us ''?'')" by (rule token_punctuation, simp add: punctuation_def)+
  have q: "q = name @ (if debug then us '':?'' else [])" by (rule hole_name_ok [OF assms(2)])
  have ident: "token_ok s (mk_token Ident a (a + byte_len name))" using slice_parts [of s a "[]" name] assms(1,3) q True by (auto simp: token_ok_def)
  show ?thesis
  proof (cases debug)
    case False
    then show ?thesis using True q ident assms(3) byte_len_0 [of name] by (auto simp: hole_tokens_def simp flip: neq0_conv)
  next
    case db: True
    have "slice s (a + byte_len name) (a + byte_len name + 1) = Some (us '':'')" "slice s (a + byte_len name + 1) (a + byte_len name + 2) = Some (us ''?'')"
      using slice_parts [of s a name "us '':''" "us ''?''"] slice_parts [of s a "name @ us '':''" "us ''?''" "[]"] assms(1) q db by (simp_all add: len_utf8_def)
    then have "token_ok s (mk_token Colon (a + byte_len name) (a + byte_len name + 1))" "token_ok s (mk_token Question (a + byte_len name + 1) (a + byte_len name + 2))"
      using pt by (auto simp: token_ok_def)
    then show ?thesis using True db q ident assms(3) byte_len_0 [of name] by (auto simp: hole_tokens_def len_utf8_def simp flip: neq0_conv)
  qed
qed

lemma scan_hole_ok:
  assumes "run c s it m it1" "scan_hole c s (here it + byte_len m) it1 = (x, it')"
  shows "\<exists>n. run c s it (m @ n) it' \<and>
    (case x of Ok ts \<Rightarrow> tiles (here it + byte_len m) ts (here it + byte_len (m @ n)) \<and> list_all (token_ok s) ts | Err _ \<Rightarrow> tripped c (polls it') | Panic _ \<Rightarrow> False)"
proof -
  obtain q where q: "run c s it (m @ q) (skip_run c (\<lambda>ch. ch \<noteq> uc CHR ''}'' \<and> ch \<noteq> dquote) it1)" using skip_run_ok [OF assms(1)] by blast
  obtain e it3 where e: "peek_offset c s (skip_run c (\<lambda>ch. ch \<noteq> uc CHR ''}'' \<and> ch \<noteq> dquote) it1) = (e, it3)"
    by (cases "peek_offset c s (skip_run c (\<lambda>ch. ch \<noteq> uc CHR ''}'' \<and> ch \<noteq> dquote) it1)")
  note r3 = run_offset [OF q e]
  let ?it4 = "it3\<lparr>polls := polls it3 + 1\<rparr>" and ?a = "here it + byte_len m"
  have r4: "run c s it (m @ q) ?it4" using run_counted [OF r3(1)] by simp
  define body where "body = (\<lambda>it. with_slice s ?a e (\<lambda>content.
          case hole_name content of (name, debug) \<Rightarrow>
            (case is_hole_name c name (polls it) of (valid, n) \<Rightarrow>
               with_check c (\<lambda>it.
                 case valid of
                   Err x \<Rightarrow> (Err x, it) | Panic p \<Rightarrow> (Panic p, it)
                 | Ok valid \<Rightarrow>
                     (case accept c (uc CHR ''}'') it of
                        (Some _, it) \<Rightarrow> (Ok (hole_tokens valid debug ?a name e @ [mk_token FormatClose e (e + 1)]), it)
                      | (None, it) \<Rightarrow> (Ok (hole_tokens valid debug ?a name e), it))) (it\<lparr>polls := n\<rparr>))) it)"
  have "with_check c body it3 = (x, it')" using assms(2) e by (simp add: scan_hole_def body_def)
  from with_check_ok [OF this] show ?thesis
  proof (elim disjE conjE)
    assume "x = Err Cancelled" "it' = ?it4" "tripped c (polls it')"
    then show ?thesis using r4 by auto
  next
    assume b: "body ?it4 = (x, it')" and nt: "\<not> tripped c (polls it3 + 1)"
    then have "\<not> tripped c (polls it3)" using tripped_mono [of c "polls it3"] by auto
    then have ea: "e = ?a + byte_len q" using r3(2) by simp
    have sl: "slice s ?a e = Some q" using slice_parts [of s "here it" m q "[]"] run_slice [OF q] ea by simp
    obtain name debug where nd: "hole_name q = (name, debug)" by (cases "hole_name q")
    obtain valid n where v: "is_hole_name c name (polls it3 + 1) = (valid, n)" by (cases "is_hole_name c name (polls it3 + 1)")
    note vn = is_hole_name_ok [OF v]
    let ?it5 = "it3\<lparr>polls := n\<rparr>" let ?it6 = "it3\<lparr>polls := n + 1\<rparr>"
    define rest where "rest = (\<lambda>it. case valid of
                   Err x \<Rightarrow> (Err x, it) | Panic p \<Rightarrow> (Panic p, it)
                 | Ok valid \<Rightarrow>
                     (case accept c (uc CHR ''}'') it of
                        (Some _, it) \<Rightarrow> (Ok (hole_tokens valid debug ?a name e @ [mk_token FormatClose e (e + 1)]), it)
                      | (None, it) \<Rightarrow> (Ok (hole_tokens valid debug ?a name e), it)))"
    have r6: "run c s it (m @ q) ?it6" using run_counted [OF r3(1), of "n + 1"] vn by simp
    have "with_check c rest ?it5 = (x, it')" using b sl nd v by (simp add: body_def with_slice_def rest_def)
    from with_check_ok [OF this] show ?thesis
    proof (elim disjE conjE)
      assume "x = Err Cancelled" "it' = ?it5\<lparr>polls := polls ?it5 + 1\<rparr>" "tripped c (polls it')"
      then show ?thesis using r6 by auto
    next
      assume r: "rest (?it5\<lparr>polls := polls ?it5 + 1\<rparr>) = (x, it')" and nt: "\<not> tripped c (polls ?it5 + 1)"
      then have "\<not> tripped c n" using tripped_mono [of c n "n + 1"] by auto
      then obtain b where b: "valid = Ok b" "b \<longrightarrow> token_text Ident name \<and> name \<noteq> []" using vn by (cases valid) auto
      note ht = hole_tokens_ok [OF _ nd b(2), of s ?a, folded ea, OF sl]
      obtain y it7 where y: "accept c (uc CHR ''}'') ?it6 = (y, it7)" by (cases "accept c (uc CHR ''}'') ?it6")
      note a = run_accept(1) [OF r6 y]
      show ?thesis
      proof (cases y)
        case None
        then have "x = Ok (hole_tokens b debug ?a name e)" "it' = it7" using r b y by (auto simp: rest_def)
        then show ?thesis using a None ht ea by (intro exI [of _ q]) (simp add: add.assoc)
      next
        case (Some j)
        then have x: "x = Ok (hole_tokens b debug ?a name e @ [mk_token FormatClose e (e + 1)])" "it' = it7" using r b y by (auto simp: rest_def)
        have a': "run c s it (m @ q @ us ''}'') it7" using a Some by simp
        have "slice s e (e + 1) = Some (us ''}'')" using slice_parts [of s "here it" "m @ q" "us ''}''" "[]"] run_slice [OF a'] ea by (simp add: len_utf8_def add.assoc)
        moreover have "token_text FormatClose (us ''}'')" by (rule token_punctuation) (simp add: punctuation_def)
        ultimately have "token_ok s (mk_token FormatClose e (e + 1))" by (auto simp: token_ok_def)
        then show ?thesis using a' x ht ea by (intro exI [of _ "q @ us ''}''"]) (auto simp: tiles_append len_utf8_def add.assoc)
      qed
    qed
  qed
qed

section \<open>Ordinary strings\<close>

lemma stopped_next: "stopped it \<Longrightarrow> \<exists>it'. next_char c it = (None, it')"
  by (auto simp: stopped_def pending_def next_char_def pull_def split: option.splits)

lemma peek_offset_place:
  assumes "run c s it m it1" "peek_offset c s it1 = (e, it')"
  shows "stopped it' \<and> e = byte_len s \<or> e = here it + byte_len m"
proof -
  obtain x where x: "peek_char c it1 = (x, it')" "e = (case x of Some (i, _) \<Rightarrow> i | None \<Rightarrow> byte_len s)" using assms(2) by (auto simp: peek_offset_def split: prod.splits)
  note r = run_peek [OF assms(1) x(1)]
  show ?thesis
  proof (cases x)
    case None
    then have "ahead it' = [] \<or> ended it'" "pending it' = []" using run_within [OF r(1)] r(2) by (auto simp: within_def pending_def)
    moreover have "here it + byte_len m = byte_len s" if "\<not> ended it'"
    proof -
      have "here it' = byte_len s" using run_within [OF r(1)] that calculation by (auto elim!: withinE)
      moreover have "here it' = here it + byte_len m" using moved_position [of c s it m it'] r(1) that by (simp add: run_def stopped_def)
      ultimately show ?thesis by simp
    qed
    ultimately show ?thesis using x(2) None by (cases "ended it'") (auto simp: stopped_def)
  next
    case (Some y)
    then show ?thesis using r(3) [of "fst y" "snd y"] x(2) by (simp add: case_prod_beta)
  qed
qed

text \<open>
  The loop invariant. The text that has not been emitted begins at \<open>text_start\<close>; before the first hole
  nothing but the opening quote has been emitted.
\<close>

definition cooked_inv :: "cancellation \<Rightarrow> str \<Rightarrow> chars \<Rightarrow> str \<Rightarrow> cooked \<Rightarrow> chars \<Rightarrow> bool" where
  "cooked_inv c s it m st it1 \<longleftrightarrow>
     run c s it m it1 \<and> m \<noteq> [] \<and> closed_at st = None \<and>
     (stopped it1 \<and> text_start st = byte_len s \<or> (\<exists>p q. m = p @ q \<and> text_start st = here it + byte_len p)) \<and>
     (tripped c (polls it1) \<or> tiles (here it) (ctokens st) (text_start st) \<and> list_all (token_ok s) (ctokens st)) \<and>
     (\<not> has_hole st \<longrightarrow> ctokens st = [mk_token FormatStart (here it) (here it + 1)] \<and> text_start st = here it + 1 \<and> hd m = dquote)"

text \<open>What the loop leaves: a closed string, or the end of the text.\<close>

definition cooked_end :: "cancellation \<Rightarrow> str \<Rightarrow> chars \<Rightarrow> str \<Rightarrow> cooked \<Rightarrow> chars \<Rightarrow> bool" where
  "cooked_end c s it m st it1 \<longleftrightarrow>
     run c s it m it1 \<and> m \<noteq> [] \<and>
     (case closed_at st of
        Some e \<Rightarrow> e = here it + byte_len m \<and> (tripped c (polls it1) \<or> tiles (here it) (ctokens st) e \<and> list_all (token_ok s) (ctokens st)) \<and>
          (\<not> has_hole st \<longrightarrow> (\<exists>q. m = dquote # q @ [dquote] \<and> (list_all (\<lambda>t. tkind t \<noteq> Unknown) (ctokens st) \<longrightarrow> is_ok (decode_string_fragment q))))
      | None \<Rightarrow> (tripped c (polls it1) \<or> here it + byte_len m = byte_len s) \<and>
          (text_start st = byte_len s \<or> (\<exists>p q. m = p @ q \<and> text_start st = here it + byte_len p)) \<and>
          (tripped c (polls it1) \<or> tiles (here it) (ctokens st) (text_start st) \<and> list_all (token_ok s) (ctokens st)))"

lemma cooked_inv_more:
  assumes "cooked_inv c s it m st it1" "run c s it (m @ n) it2" "stopped it1 \<longrightarrow> stopped it2" "polls it1 \<le> polls it2"
  shows "cooked_inv c s it (m @ n) st it2"
proof -
  have "tripped c (polls it1) \<longrightarrow> tripped c (polls it2)" using assms(4) tripped_mono by blast
  moreover have "\<exists>p q. m @ n = p @ q \<and> text_start st = here it + byte_len p" if "\<exists>p q. m = p @ q \<and> text_start st = here it + byte_len p"
    using that by (metis append.assoc)
  ultimately show ?thesis using assms by (auto simp: cooked_inv_def)
qed

lemma scan_interpolation_ok:
  assumes "run c s it (m @ [uc CHR ''{'']) it1" "slice s a (here it + byte_len m) = Some t" "scan_interpolation c s a (here it + byte_len m) it1 = (x, it')"
  shows "\<exists>n. run c s it (m @ [uc CHR ''{''] @ n) it' \<and>
    (case x of
       Ok (ts, p) \<Rightarrow> (tripped c (polls it') \<or> p = here it + byte_len (m @ [uc CHR ''{''] @ n)) \<and>
         (stopped it' \<and> p = byte_len s \<or> p = here it + byte_len (m @ [uc CHR ''{''] @ n)) \<and>
         tiles a ts (here it + byte_len (m @ [uc CHR ''{''] @ n)) \<and> list_all (token_ok s) ts
     | Err _ \<Rightarrow> tripped c (polls it') | Panic _ \<Rightarrow> False)"
proof -
  let ?i = "here it + byte_len m"
  obtain y it2 where y: "push_text c s a ?i it1 = (y, it2)" by (cases "push_text c s a ?i it1")
  note p = push_text_ok [OF assms(1,2) y]
  show ?thesis
  proof (cases y)
    case (Ok ts)
    obtain z it3 where z: "scan_hole c s (?i + 1) it2 = (z, it3)" by (cases "scan_hole c s (?i + 1) it2")
    have i1: "here it + byte_len (m @ [uc CHR ''{'']) = ?i + 1" by (simp add: len_utf8_def)
    from scan_hole_ok [OF p(1), unfolded i1, OF z] obtain n where n: "run c s it ((m @ [uc CHR ''{'']) @ n) it3"
      "case z of Ok hs \<Rightarrow> tiles (?i + 1) hs (here it + byte_len ((m @ [uc CHR ''{'']) @ n)) \<and> list_all (token_ok s) hs | Err _ \<Rightarrow> tripped c (polls it3) | Panic _ \<Rightarrow> False" by blast
    show ?thesis
    proof (cases z)
      case zO: (Ok hs)
      obtain e it4 where e: "peek_offset c s it3 = (e, it4)" by (cases "peek_offset c s it3")
      have x: "x = Ok (ts @ mk_token FormatOpen ?i (?i + 1) # hs, e)" "it' = it4" using assms(3) y Ok z zO e by (auto simp: scan_interpolation_def scan_then_def)
      have "slice s ?i (?i + 1) = Some [uc CHR ''{'']" using slice_parts [of s "here it" m "[uc CHR ''{'']" "[]"] run_slice [OF assms(1)] by (simp add: len_utf8_def)
      moreover have "token_text FormatOpen [uc CHR ''{'']" by (rule token_punctuation) (simp add: punctuation_def)
      ultimately have "token_ok s (mk_token FormatOpen ?i (?i + 1))" by (auto simp: token_ok_def)
      then show ?thesis using x p(2) Ok n zO run_offset [OF n(1) e] peek_offset_place [OF n(1) e] by (intro exI [of _ n]) (auto simp: tiles_append)
    qed (use assms(3) y Ok z n in \<open>auto simp: scan_interpolation_def scan_then_def\<close>)
  qed (use assms(3) y p in \<open>auto simp: scan_interpolation_def scan_then_def intro!: exI [of _ "[]"]\<close>)
qed

lemma agrees_polls: "agrees c k r r' \<Longrightarrow> k \<le> polls (snd r)"
  by (simp add: agrees_def trails_def)

lemma scanner_polls:
  "push_text c s a b it = (x, it') \<Longrightarrow> polls it \<le> polls it'"
  "scan_interpolation c s a i it = (y, it') \<Longrightarrow> polls it \<le> polls it'"
  by (drule arg_cong [where f = snd], use agrees_polls [OF push_text_agrees [OF trails_refl [of c it], of s a b]]
      agrees_polls [OF scan_interpolation_agrees [OF trails_refl [of c it], of s a i]] in simp)+

lemma cooked_close_ok:
  assumes inv: "cooked_inv c s it m st it1" and ns: "\<not> stopped it1" and r1: "run c s it (m @ [dquote]) it2" and pl: "polls it1 \<le> polls it2"
    and p: "push_text c s (text_start st) (here it + byte_len m) it2 = (y, it3)"
  shows "within c s it3 \<and> polls it1 \<le> polls it3 \<and>
    (case y of
       Ok ts \<Rightarrow> cooked_end c s it (m @ [dquote])
         (st\<lparr>ctokens := ctokens st @ ts @ [mk_token FormatEnd (here it + byte_len m) (here it + byte_len m + 1)], closed_at := Some (here it + byte_len m + 1)\<rparr>) it3
     | Err _ \<Rightarrow> tripped c (polls it3) | Panic _ \<Rightarrow> False)"
proof -
  let ?i = "here it + byte_len m"
  obtain l q where lq: "m = l @ q" "text_start st = here it + byte_len l" using inv ns by (auto simp: cooked_inv_def)
  have rm: "run c s it m it1" using inv by (simp add: cooked_inv_def)
  have sq: "slice s (text_start st) ?i = Some q" using slice_parts [of s "here it" l q "[]"] run_slice [OF rm] lq by (simp add: add.assoc)
  note pt = push_text_ok [OF r1 sq p]
  have pl3: "polls it1 \<le> polls it3" using pl scanner_polls(1) [OF p] by simp
  show ?thesis
  proof (cases y)
    case (Ok ts)
    have "slice s ?i (?i + 1) = Some [dquote]" using slice_parts [of s "here it" m "[dquote]" "[]"] run_slice [OF r1] by (simp add: len_utf8_def)
    moreover have "token_text FormatEnd [dquote]" by (rule token_punctuation) (simp add: punctuation_def)
    ultimately have fe: "token_ok s (mk_token FormatEnd ?i (?i + 1))" by (auto simp: token_ok_def)
    have q: "m = dquote # q" if "\<not> has_hole st"
    proof -
      have "hd m = dquote" "byte_len l = 1" using inv that lq by (auto simp: cooked_inv_def)
      moreover from this obtain a l' where "l = a # l'" by (cases l) auto
      ultimately have "l = [dquote]" using lq(1) by (auto simp: len_utf8_def)
      then show ?thesis using lq by simp
    qed
    have "tripped c (polls it3)" if "tripped c (polls it1)" using that pl3 tripped_mono by blast
    then show ?thesis using Ok pt inv fe pl3 run_within [OF pt(1)] q
      by (auto simp: cooked_end_def cooked_inv_def tiles_append len_utf8_def)
  qed (use pt pl3 run_within [OF pt(1)] in auto)
qed

lemma cooked_inv_hole:
  assumes "cooked_inv c s it m st it1" "run c s it (m @ k) it2" "tripped c (polls it1) \<Longrightarrow> tripped c (polls it2)"
    "tripped c (polls it2) \<or> p = here it + byte_len (m @ k)" "stopped it2 \<and> p = byte_len s \<or> p = here it + byte_len (m @ k)"
    "tiles (text_start st) ts (here it + byte_len (m @ k))" "list_all (token_ok s) ts"
  shows "cooked_inv c s it (m @ k) (st\<lparr>ctokens := ctokens st @ ts, text_start := p, has_hole := True\<rparr>) it2"
proof -
  have "stopped it2 \<and> p = byte_len s \<or> (\<exists>l q. m @ k = l @ q \<and> p = here it + byte_len l)" using assms(5) by (metis append_Nil2)
  moreover have "tripped c (polls it2) \<or> tiles (here it) (ctokens st @ ts) p \<and> list_all (token_ok s) (ctokens st @ ts)"
    using assms(1,3,4,6,7) by (auto simp: cooked_inv_def tiles_append)
  ultimately show ?thesis using assms(1,2) by (simp add: cooked_inv_def)
qed

lemma cooked_loop_ok:
  assumes "cooked_inv c s it m st it1" "cooked_loop c s st it1 = (x, it')"
  shows "within c s it' \<and> polls it1 \<le> polls it' \<and> (case x of Ok st' \<Rightarrow> \<exists>m'. cooked_end c s it m' st' it' | Err _ \<Rightarrow> tripped c (polls it') | Panic _ \<Rightarrow> False)"
  using assms
proof (induction c s st it1 arbitrary: m rule: cooked_loop.induct)
  case (1 c s st it1)
  have rm: "run c s it m it1" using 1(6) by (simp add: cooked_inv_def)
  obtain y it2 where n: "next_char c it1 = (y, it2)" by (cases "next_char c it1")
  note step = 1(7) [unfolded cooked_loop.simps [of c s st it1] n prod.case] and r = run_next [OF rm n] and p2 = next_char_polls [OF n]
  let ?goal = "within c s it' \<and> polls it1 \<le> polls it' \<and> (case x of Ok st' \<Rightarrow> \<exists>m'. cooked_end c s it m' st' it' | Err _ \<Rightarrow> tripped c (polls it') | Panic _ \<Rightarrow> False)"
  show ?case
  proof (cases y)
    case None
    have t: "tripped c (polls it1) \<Longrightarrow> tripped c (polls it2)" using p2 tripped_mono by blast
    have "cooked_end c s it m st it2" using r(1) r(3) 1(6) None t by (auto simp: cooked_inv_def cooked_end_def)
    then show ?thesis using step None p2 run_within [OF r(1)] by auto
  next
    case (Some z)
    obtain i ch where z: "z = (i, ch)" by (cases z)
    have ns: "\<not> stopped it1" using stopped_next [of it1 c] n Some by auto
    have r1: "run c s it (m @ [ch]) it2" and i: "i = here it + byte_len m" using r(1) r(2) [of i ch] Some z by simp_all
    note ih = 1(1-5) [OF n [symmetric] Some z [symmetric]]
    have inv1: "cooked_inv c s it (m @ k) st it3" if "run c s it (m @ k) it3" "polls it2 \<le> polls it3" for k it3
      using cooked_inv_more [OF 1(6) that(1)] ns that(2) p2 by simp
    consider (quote) "ch = dquote" | (esc) "ch = backslash" | (brace) "ch = uc CHR ''{'' \<or> ch = uc CHR ''}''"
      | (other) "ch \<noteq> dquote" "ch \<noteq> backslash" "\<not> (ch = uc CHR ''{'' \<or> ch = uc CHR ''}'')" by blast
    then show ?thesis
    proof cases
      case quote
      obtain y' it3 where p: "push_text c s (text_start st) i it2 = (y', it3)" by (cases "push_text c s (text_start st) i it2")
      show ?thesis using cooked_close_ok [OF 1(6) ns r1 [unfolded quote] p2 p [unfolded i]] step Some z quote p i
        by (cases y') (auto simp: scan_then_def)
    next
      case esc
      obtain k where k: "run c s it ((m @ [ch]) @ k) (skip_escape c it2)" using skip_escape_ok [OF r1] by blast
      have pk: "polls it2 \<le> polls (skip_escape c it2)" using skip_escape_ok [OF run_start [OF run_within [OF r1]]] run_polls by blast
      have "cooked_loop c s st (skip_escape c it2) = (x, it')" using step Some z esc by simp
      then show ?thesis using ih(1) [OF _ _ inv1 [of "[ch] @ k"]] k pk esc p2 by auto
    next
      case brace
      obtain a it3 where a: "accept c ch it2 = (a, it3)" by (cases "accept c ch it2")
      note ra = run_accept(1) [OF r1 a]
      have pa: "polls it2 \<le> polls it3" using run_accept(1) [OF run_start [OF run_within [OF r1]] a] run_polls by blast
      show ?thesis
      proof (cases a)
        case aS: (Some j)
        have "cooked_loop c s st it3 = (x, it')" using step Some z brace a aS by auto
        then show ?thesis using ih(4) [OF _ _ brace a [symmetric] aS inv1 [of "[ch, ch]" it3]] ra aS brace pa p2 by auto
      next
        case None
        show ?thesis
        proof (cases "ch = uc CHR ''{''")
          case False
          have "cooked_loop c s st it3 = (x, it')" using step Some z brace a None False by auto
          then show ?thesis using ih(3) [OF _ _ brace a [symmetric] None False inv1 [of "[ch]" it3]] ra None brace pa p2 by auto
        next
          case hole: True
          obtain w it4 where w: "scan_interpolation c s (text_start st) i it3 = (w, it4)" by (cases "scan_interpolation c s (text_start st) i it3")
          obtain l q where lq: "m = l @ q" "text_start st = here it + byte_len l" using 1(6) ns by (auto simp: cooked_inv_def)
          have sq: "slice s (text_start st) i = Some q" using slice_parts [of s "here it" l q "[]"] run_slice [OF rm] lq i by (simp add: add.assoc)
          have ra': "run c s it (m @ [uc CHR ''{'']) it3" using ra None hole by simp
          obtain k where k: "run c s it (m @ [uc CHR ''{''] @ k) it4" and kw:
            "case w of
               Ok (ts, p) \<Rightarrow> (tripped c (polls it4) \<or> p = here it + byte_len (m @ [uc CHR ''{''] @ k)) \<and>
                 (stopped it4 \<and> p = byte_len s \<or> p = here it + byte_len (m @ [uc CHR ''{''] @ k)) \<and>
                 tiles (text_start st) ts (here it + byte_len (m @ [uc CHR ''{''] @ k)) \<and> list_all (token_ok s) ts
             | Err _ \<Rightarrow> tripped c (polls it4) | Panic _ \<Rightarrow> False"
            using scan_interpolation_ok [OF ra' sq [unfolded i] w [unfolded i]] by blast
          have p4: "polls it3 \<le> polls it4"
            by (rule scanner_polls(2) [OF w])
          show ?thesis
          proof (cases w)
            case (Ok r)
            obtain ts p where rr: "r = (ts, p)" by (cases r)
            let ?st = "st\<lparr>ctokens := ctokens st @ fst r, text_start := snd r, has_hole := True\<rparr>"
            have "tripped c (polls it1) \<Longrightarrow> tripped c (polls it4)" using p2 pa p4 tripped_mono by (meson le_trans)
            then have "cooked_inv c s it (m @ [uc CHR ''{''] @ k) ?st it4" 
              using cooked_inv_hole [OF 1(6) k] kw Ok rr by auto
            moreover have "cooked_loop c s ?st it4 = (x, it')" using step Some z hole a None w Ok by (auto simp: scan_then_def)
            ultimately have "within c s it' \<and> polls it4 \<le> polls it' \<and> (case x of Ok st' \<Rightarrow> \<exists>m'. cooked_end c s it m' st' it' | Err _ \<Rightarrow> tripped c (polls it') | Panic _ \<Rightarrow> False)"
              using ih(2) [OF _ _ brace a [symmetric] None hole w [unfolded Ok]] hole by auto
            then show ?thesis using p2 pa p4 by linarith
          qed (use step Some z hole a None w k kw p2 pa p4 run_within [OF k] in \<open>auto simp: scan_then_def\<close>)
        qed
      qed
    next
      case other
      have "cooked_loop c s st it2 = (x, it')" using step Some z other by auto
      then show ?thesis using ih(5) [OF other inv1 [of "[ch]" it2]] r1 p2 by auto
    qed
  qed
qed

lemma scan_okI:
  assumes "run c s it m it'" "\<not> tripped c (polls it') \<Longrightarrow> tiles (here it) ts (here it + byte_len m) \<and> list_all (token_ok s) ts"
  shows "scan_ok c s it (Ok ts, it')"
  using assms(2) run_within [OF assms(1)] run_polls [OF assms(1)] run_here [OF assms(1)] by (auto simp: scan_ok_def)

lemma scan_cooked_ok:
  assumes "run c s it [dquote] it1"
  shows "scan_ok c s it (scan_cooked c s (here it) 1 it1)"
proof -
  let ?st = "\<lparr>ctokens = [mk_token FormatStart (here it) (here it + 1)], text_start = here it + 1, has_hole = False, closed_at = None\<rparr>"
  have "token_text FormatStart [dquote]" by (rule token_punctuation) (simp add: punctuation_def)
  then have "token_ok s (mk_token FormatStart (here it) (here it + 1))" using run_slice [OF assms] by (auto simp: token_ok_def len_utf8_def)
  moreover have "\<exists>p q. [dquote] = p @ q \<and> here it + 1 = here it + byte_len p" by (intro exI [of _ "[dquote]"] exI [of _ "[]"]) (simp add: len_utf8_def)
  ultimately have inv: "cooked_inv c s it [dquote] ?st it1" using assms by (simp add: cooked_inv_def)
  obtain x it2 where x: "cooked_loop c s ?st it1 = (x, it2)" by fastforce
  note l = cooked_loop_ok [OF inv x]
  have p1: "polls it \<le> polls it1" by (rule run_polls [OF assms])
  show ?thesis
  proof (cases x)
    case (Ok st)
    obtain m where e: "cooked_end c s it m st it2" using l Ok by auto
    then have r: "run c s it m it2" "m \<noteq> []" by (simp_all add: cooked_end_def)
    show ?thesis
    proof (cases "closed_at st")
      case (Some e')
      have ce: "e' = here it + byte_len m" "tripped c (polls it2) \<or> tiles (here it) (ctokens st) e' \<and> list_all (token_ok s) (ctokens st)"
        "\<not> has_hole st \<longrightarrow> (\<exists>q. m = dquote # q @ [dquote] \<and> (list_all (\<lambda>t. tkind t \<noteq> Unknown) (ctokens st) \<longrightarrow> is_ok (decode_string_fragment q)))"
        using e Some by (auto simp: cooked_end_def)
      show ?thesis
      proof (cases "has_hole st")
        case True
        then have "scan_cooked c s (here it) 1 it1 = (Ok (ctokens st), it2)" using x Ok Some by (simp add: scan_cooked_def scan_then_def Let_def)
        then show ?thesis using scan_okI [OF r(1)] ce by auto
      next
        case False
        let ?k = "if list_all (\<lambda>t. tkind t \<noteq> Unknown) (ctokens st) then String else Unknown"
        have "token_text ?k m" using ce(3) False cooked_literal_decodes by (auto simp: token_text_def)
        moreover have "scan_cooked c s (here it) 1 it1 = (Ok [mk_token ?k (here it) e'], it2)" using x Ok Some False by (simp add: scan_cooked_def scan_then_def Let_def)
        ultimately show ?thesis using scan_one [OF r] ce(1) by simp
      qed
    next
      case None
      have ce: "tripped c (polls it2) \<or> here it + byte_len m = byte_len s" "text_start st = byte_len s \<or> (\<exists>p q. m = p @ q \<and> text_start st = here it + byte_len p)"
        "tripped c (polls it2) \<or> tiles (here it) (ctokens st) (text_start st) \<and> list_all (token_ok s) (ctokens st)"
        using e None by (simp_all add: cooked_end_def)
      obtain l r' where lr: "s = l @ m @ r'" "here it = byte_len l" using run_slice [OF r(1)] by (auto simp: slice_Some)
      have "\<exists>t. slice s (text_start st) (byte_len s) = Some t" using ce(2)
      proof
        assume "text_start st = byte_len s"
        then show ?thesis unfolding slice_Some by (intro exI [of _ "[]"] exI [of _ s]) simp
      next
        assume "\<exists>p q. m = p @ q \<and> text_start st = here it + byte_len p"
        then obtain p q where "m = p @ q" "text_start st = here it + byte_len p" by blast
        then show ?thesis unfolding slice_Some using lr by (intro exI [of _ "q @ r'"] exI [of _ "l @ p"] exI [of _ "[]"]) simp
      qed
      then obtain t where t: "slice s (text_start st) (byte_len s) = Some t" by blast
      obtain y it3 where y: "push_text c s (text_start st) (byte_len s) it2 = (y, it3)" by fastforce
      note p = push_text_ok [OF r(1) t y] and pp = scanner_polls(1) [OF y]
      have tr: "tripped c (polls it2) \<Longrightarrow> tripped c (polls it3)" using pp tripped_mono by blast
      show ?thesis
      proof (cases y)
        case yO: (Ok ts)
        have "scan_cooked c s (here it) 1 it1 = (Ok (if has_hole st then ctokens st @ ts else [mk_token Unknown (here it) (byte_len s)]), it3)"
          using x Ok None y yO by (simp add: scan_cooked_def scan_then_def Let_def)
        moreover have "scan_ok c s it (Ok (ctokens st @ ts), it3)" by (rule scan_okI [OF p(1)]) (use ce tr p(2) yO in \<open>auto simp: tiles_append\<close>)
        moreover have "scan_ok c s it (Ok [mk_token Unknown (here it) (byte_len s)], it3)" by (rule scan_one [OF p(1) r(2) token_unknown]) (use ce tr in auto)
        ultimately show ?thesis by simp
      qed (use x Ok None y p run_within [OF p(1)] run_polls [OF p(1)] in \<open>auto simp: scan_cooked_def scan_then_def Let_def scan_ok_def\<close>)
    qed
  qed (use x l p1 in \<open>auto simp: scan_cooked_def scan_then_def scan_ok_def\<close>)
qed

section \<open>Raw and byte strings\<close>

lemma skip_to_ok:
  assumes "run c s it m it1" "slice s (here it) (here it + byte_len (m @ u)) = Some (m @ u)"
  shows "\<exists>n. run c s it (m @ n) (skip_to c (here it + byte_len (m @ u)) it1) \<and> (tripped c (polls (skip_to c (here it + byte_len (m @ u)) it1)) \<or> n = u)"
  using assms
proof (induction u arbitrary: m it1)
  case Nil
  obtain x it2 where x: "peek_char c it1 = (x, it2)" by fastforce
  note r = run_peek [OF Nil(1) x]
  have "skip_to c (here it + byte_len (m @ [])) it1 = it2" using x r(3) by (subst skip_to.simps) (auto split: option.splits)
  then show ?case using r(1) by (intro exI [of _ "[]"]) simp
next
  case (Cons d u)
  obtain x it2 where x: "peek_char c it1 = (x, it2)" by fastforce
  note r = run_peek [OF Cons(2) x]
  let ?e = "here it + byte_len (m @ d # u)"
  show ?case
  proof (cases x)
    case None
    then have "skip_to c ?e it1 = it2" using x by (subst skip_to.simps) simp
    moreover have "here it + byte_len m \<noteq> byte_len s" using Cons(3) by (auto simp: slice_Some len_utf8_nonzero)
    then have "tripped c (polls it2)" using r(4) [OF None] by simp
    ultimately show ?thesis using r(1) by (intro exI [of _ "[]"]) simp
  next
    case (Some z)
    obtain i ch where z: "z = (i, ch)" by (cases z)
    have i: "i = here it + byte_len m" using r(3) Some z by blast
    have sk: "run c s it (m @ [ch]) (skip_char c it2)" using run_skip [OF r(1)] r(2) Some z by simp
    obtain l q where "s = l @ (m @ d # u) @ q" "here it = byte_len l" using Cons(3) by (auto simp: slice_Some)
    moreover obtain l' q' where "s = l' @ (m @ [ch]) @ q'" "here it = byte_len l'" using run_slice [OF sk] by (auto simp: slice_Some)
    ultimately have "split_text (byte_len (l @ m)) s = Some (l @ m, d # u @ q)" "split_text (byte_len (l' @ m)) s = Some (l' @ m, ch # q')" "byte_len l' = byte_len l"
      using split_text_append [of "l @ m" "d # u @ q"] split_text_append [of "l' @ m" "ch # q'"] by simp_all
    then have d: "ch = d" by simp
    have "skip_to c ?e it1 = skip_to c ?e (skip_char c it2)" using x Some z i len_utf8_pos [of d] by (subst skip_to.simps) simp
    then show ?thesis using Cons(1) [of "m @ [ch]" "skip_char c it2"] sk Cons(3) d by (metis append.assoc append_Cons append_Nil)
  qed
qed

lemma literal_token_ok:
  assumes "run c s it (m @ n) it1" "tripped c (polls it1) \<or> n = u" "slice s (here it) (here it + byte_len (m @ u)) = Some (m @ u)" "m \<noteq> []"
  shows "scan_ok c s it (literal_token c byte s (here it) (here it + byte_len (m @ u)) it1)"
proof -
  let ?e = "here it + byte_len (m @ u)"
  have one: "scan_ok c s it (Ok [mk_token k (here it) ?e], it1\<lparr>polls := j\<rparr>)" if "polls it1 \<le> j" "token_text k (m @ u)" for k j
  proof (cases "n = u")
    case True
    then show ?thesis using scan_one [OF run_counted [OF assms(1) that(1)]] that(2) assms(4) by simp
  next
    case False
    then have "tripped c j" using assms(2) that(1) tripped_mono by blast
    then show ?thesis using run_within [OF run_counted [OF assms(1) that(1)]] run_polls [OF run_counted [OF assms(1) that(1)]] by (simp add: scan_ok_def)
  qed
  have err: "scan_ok c s it (Err x, it1\<lparr>polls := j\<rparr>)" if "polls it1 \<le> j" "tripped c j" for x j
    using run_within [OF run_counted [OF assms(1) that(1)]] run_polls [OF run_counted [OF assms(1) that(1)]] that(2) by (simp add: scan_ok_def)
  show ?thesis
  proof (cases byte)
    case True
    obtain d j where d: "decode_byte_string_literal_with_cancellation c (m @ u) (polls it1) = (d, j)" by fastforce
    note k = byte_literal_decoder [OF d]
    show ?thesis
    proof (cases d)
      case (Ok v)
      then have "decode_byte_string_literal (m @ u) = v" using decode_byte_string_literal_Ok d by blast
      then have "token_text (if is_ok v then ByteString else Unknown) (m @ u)" by (simp add: token_text_def)
      then show ?thesis using one d k Ok True assms(3) by (simp add: literal_token_def with_slice_def with_decoder_def)
    qed (use err d k True assms(3) in \<open>auto simp: literal_token_def with_slice_def with_decoder_def\<close>)
  next
    case False
    obtain d j where d: "decode_string_literal_with_cancellation c (m @ u) (polls it1) = (d, j)" by fastforce
    note k = literal_decoder [OF d]
    show ?thesis
    proof (cases d)
      case (Ok v)
      then have "decode_string_literal (m @ u) = v" using decode_string_literal_Ok d by blast
      then have "token_text (if is_ok v then String else Unknown) (m @ u)" by (simp add: token_text_def)
      then show ?thesis using one d k Ok False assms(3) by (simp add: literal_token_def with_slice_def with_decoder_def)
    qed (use err d k False assms(3) in \<open>auto simp: literal_token_def with_slice_def with_decoder_def\<close>)
  qed
qed

lemma str_bytes_prefix:
  assumes "str_bytes r = bs @ cs" "list_all (\<lambda>b. b < 0x80) bs"
  shows "\<exists>v. r = bs @ v"
  using assms
proof (induction bs arbitrary: r)
  case (Cons b bs)
  then obtain r' where "r = b # r'" "str_bytes r' = bs @ cs" using str_bytes_ascii [of r b "bs @ cs"] by auto
  then show ?case using Cons by auto
qed simp

lemma ascii_byte_len: "list_all (\<lambda>b. b < 0x80) bs \<Longrightarrow> byte_len bs = length bs"
  by (induction bs) (auto simp: len_utf8_def)

lemma closing_len_ok:
  assumes "closing_len d r = Some l"
  shows "\<exists>u v. r = u @ v \<and> byte_len u = l"
proof -
  let ?h = "delimiter_hashes d"
  have a: "str_starts r [dquote]" "1 + ?h \<le> length (str_bytes r)" "list_all (\<lambda>b. b = uc CHR ''#'') (take ?h (drop 1 (str_bytes r)))" "l = 1 + ?h"
    using assms by (auto simp: closing_len_def Let_def split: if_splits)
  obtain q where q: "r = dquote # q" using a(1) by (auto simp: str_starts_iff)
  have b: "str_bytes r = dquote # str_bytes q" using q by (simp add: encode_utf8_def)
  have "take ?h (str_bytes q) = replicate ?h (uc CHR ''#'')" using a(2,3) b by (intro replicate_eqI) (auto simp: list_all_iff)
  then have "str_bytes q = replicate ?h (uc CHR ''#'') @ drop ?h (str_bytes q)" by (metis append_take_drop_id)
  then obtain v where "q = replicate ?h (uc CHR ''#'') @ v" using str_bytes_prefix [of q "replicate ?h (uc CHR ''#'')"] by (auto simp: list_all_iff)
  moreover have "byte_len (replicate ?h (uc CHR ''#'')) = ?h" using ascii_byte_len [of "replicate ?h (uc CHR ''#'')"] by (simp add: list_all_iff)
  ultimately show ?thesis using q a(4) by (intro exI [of _ "dquote # replicate ?h (uc CHR ''#'')"] exI [of _ v]) (simp add: len_utf8_def)
qed

lemma scan_plain_ok:
  assumes "run c s it m it1" "m \<noteq> []"
  shows "scan_ok c s it (scan_plain c s (here it) d byte it1)"
  using assms
proof (induction c s "here it" d byte it1 arbitrary: m rule: scan_plain.induct)
  case (1 c s d byte it1)
  obtain y it2 where n: "next_char c it1 = (y, it2)" by fastforce
  note r = run_next [OF 1(4) n]
  show ?case
  proof (cases y)
    case None
    have "scan_ok c s it (Ok [mk_token Unknown (here it) (byte_len s)], it2)" using r(1,3) None 1(5) by (intro scan_one [of _ _ _ m]) auto
    then show ?thesis using n None by (subst scan_plain.simps) simp
  next
    case (Some z)
    obtain i ch where z: "z = (i, ch)" by (cases z)
    have r1: "run c s it (m @ [ch]) it2" and i: "i = here it + byte_len m" using r(1) r(2) [of i ch] Some z by simp_all
    note ih = 1(1-3) [OF n [symmetric] Some z [symmetric]]
    consider (esc) "ch = backslash \<and> d = Cooked" | (plain) "\<not> (ch = backslash \<and> d = Cooked)" "ch \<noteq> dquote" | (quote) "ch = dquote" by fastforce
    then show ?thesis
    proof cases
      case esc
      obtain k where "run c s it ((m @ [ch]) @ k) (skip_escape c it2)" using skip_escape_ok [OF r1] by blast
      then show ?thesis using ih(1) [OF esc] n Some z esc by (subst scan_plain.simps) auto
    next
      case plain
      then show ?thesis using ih(2) [OF plain r1] n Some z by (subst scan_plain.simps) auto
    next
      case quote
      obtain l q where lq: "s = l @ (m @ [ch]) @ q" "here it = byte_len l" using run_slice [OF r1] by (auto simp: slice_Some)
      have sf: "slice_from s i = Some (ch # q)" unfolding slice_from_Some using lq i by (intro exI [of _ "l @ m"]) simp
      show ?thesis
      proof (cases "closing_len d (ch # q)")
        case None
        then show ?thesis using ih(3) [OF _ _ sf None r1] n Some z sf quote by (subst scan_plain.simps) auto
      next
        case cl: (Some w)
        obtain u v where uv: "ch # q = u @ v" "byte_len u = w" using closing_len_ok [OF cl] by blast
        have "w \<noteq> 0" using cl by (auto simp: closing_len_def Let_def split: if_splits)
        then obtain u' where u': "u = ch # u'" using uv by (cases u) auto
        have sl: "slice s (here it) (here it + byte_len ((m @ [ch]) @ u')) = Some ((m @ [ch]) @ u')"
          unfolding slice_Some using lq uv u' by (intro exI [of _ l] exI [of _ v]) simp
        have e: "i + w = here it + byte_len ((m @ [ch]) @ u')" using i uv(2) u' by simp
        obtain k where k: "run c s it ((m @ [ch]) @ k) (skip_to c (i + w) it2)" "tripped c (polls (skip_to c (i + w) it2)) \<or> k = u'"
          using skip_to_ok [OF r1 sl] e by auto
        show ?thesis using literal_token_ok [OF k sl] e n Some z sf cl quote by (subst scan_plain.simps) auto
      qed
    qed
  qed
qed

section \<open>Any string\<close>

lemma delimiter_opening_ok:
  assumes "delimiter_opening r = Ok (Some (d, n))"
  shows "\<exists>u v. r = u @ v \<and> byte_len u = n \<and> u \<noteq> [] \<and> (d = Cooked \<longrightarrow> u = [dquote])"
proof (cases "str_starts r [dquote]")
  case True
  then obtain v where "r = dquote # v" by (auto simp: str_starts_iff)
  then show ?thesis using assms by (intro exI [of _ "[dquote]"] exI [of _ v]) (auto simp: delimiter_opening_def len_utf8_def)
next
  case False
  have hashes: "\<exists>k cs. bytes = replicate k (uc CHR ''#'') @ dquote # cs \<and> d = Raw (h + k) \<and> n = h + k + 2" if "opening_hashes bytes h = Ok (Some (d, n))" for bytes h
    using that
  proof (induction bytes h rule: opening_hashes.induct)
    case (2 byte bytes h)
    show ?case
    proof (cases "byte = dquote")
      case True
      then show ?thesis using 2(2) by (intro exI [of _ 0]) auto
    next
      case False
      then have b: "byte = uc CHR ''#''" "opening_hashes bytes (h + 1) = Ok (Some (d, n))" "h + 1 < 256" using 2(2) by (auto split: if_splits)
      then obtain k cs where "bytes = replicate k (uc CHR ''#'') @ dquote # cs" "d = Raw (h + 1 + k)" "n = h + 1 + k + 2" using 2(1) [OF False b(1) b(3) b(2)] by blast
      then show ?thesis using b(1) by (intro exI [of _ "Suc k"]) auto
    qed
  qed simp
  obtain q where q: "r = uc CHR ''r'' # q" "opening_hashes (str_bytes q) 0 = Ok (Some (d, n))" using assms False by (auto simp: delimiter_opening_def split: option.splits if_splits)
  obtain k cs where k: "str_bytes q = (replicate k (uc CHR ''#'') @ [dquote]) @ cs" "d = Raw k" "n = k + 2" using hashes [OF q(2)] by auto
  have ascii: "list_all (\<lambda>b. b < 0x80) (replicate k (uc CHR ''#'') @ [dquote])" by (auto simp: list_all_iff)
  obtain v where "q = (replicate k (uc CHR ''#'') @ [dquote]) @ v" using str_bytes_prefix [OF k(1) ascii] by blast
  then show ?thesis using q(1) k ascii_byte_len [OF ascii] by (intro exI [of _ "uc CHR ''r'' # replicate k (uc CHR ''#'') @ [dquote]"] exI [of _ v]) (simp add: len_utf8_def)
qed

lemma bad_opener_ok:
  assumes "at_first c s it ch"
  shows "scan_ok c s it (bad_opener c s (here it) byte it)"
proof -
  let ?it2 = "if byte then skip_char c (skip_char c it) else skip_char c it"
  obtain n where n: "run c s it ([ch] @ n) ?it2" using run_first [OF assms] run_skip_any [OF run_first [OF assms]] by (cases byte) fastforce+
  obtain k where k: "run c s it (([ch] @ n) @ k) (skip_run c (\<lambda>ch. ch = uc CHR ''#'') ?it2)" using skip_run_ok [OF n] by blast
  obtain e it' where e: "peek_offset c s (skip_run c (\<lambda>ch. ch = uc CHR ''#'') ?it2) = (e, it')" by fastforce
  show ?thesis using scan_one [OF run_offset(1) [OF k e] _ token_unknown run_offset(2) [OF k e]] e by (simp add: bad_opener_def Let_def)
qed

end
