(* ===== verification/Lexer_Correct.thy ===== *)
theory Lexer_Correct
  imports Lexer_Strings
begin

text \<open>
  The lexer as a whole: what its scanners promise, put together over \<open>lex_token\<close> and the main loop.
\<close>

section \<open>Any string\<close>

lemma at_first_ahead: "at_first c s it ch \<Longrightarrow> slice_from s (here it) = Some (ch # ahead it)"
  using within_slice_from [of c s it] by (simp add: at_first_def pending_def)

text \<open>The opening of a string that begins here is passed; at least its first character is.\<close>

lemma skip_opening:
  assumes "at_first c s it ch" "ch # ahead it = u @ v" "u \<noteq> []"
  shows "\<exists>k. run c s it (ch # k) (skip_to c (here it + byte_len u) it) \<and> (tl u = [] \<longrightarrow> k = [])"
proof -
  obtain u' where u: "u = ch # u'" using assms(2,3) by (cases u) auto
  have r: "run c s it [ch] (skip_char c it)" using run_first [OF assms(1)] .
  obtain l where l: "s = l @ ch # ahead it" "here it = byte_len l" using at_first_ahead [OF assms(1)] by (auto simp: slice_from_Some)
  have sl: "slice s (here it) (here it + byte_len ([ch] @ u')) = Some ([ch] @ u')"
    unfolding slice_Some using l assms(2) u by (intro exI [of _ l] exI [of _ v]) simp
  have "peek_char c it = (Some (here it, ch), it)" using assms(1) by (simp add: at_first_def peek_char_def)
  then have st: "skip_to c (here it + byte_len u) it = skip_to c (here it + byte_len u) (skip_char c it)"
    using u len_utf8_pos [of ch] by (subst skip_to.simps) simp
  show ?thesis
  proof (cases "u' = []")
    case True
    obtain x it2 where x: "peek_char c (skip_char c it) = (x, it2)" by fastforce
    note p = run_peek [OF r x]
    have "skip_to c (here it + byte_len u) (skip_char c it) = it2" using x p(3) True u by (subst skip_to.simps) (auto split: option.splits)
    then show ?thesis using p(1) st by (intro exI [of _ "[]"]) simp
  next
    case False
    then show ?thesis using skip_to_ok [OF r sl] st u by auto
  qed
qed

lemma scan_string_ok:
  assumes "at_first c s it ch"
  shows "scan_ok c s it (scan_string c s (here it) it)"
proof -
  let ?r = "ch # ahead it"
  have sf: "slice_from s (here it) = Some ?r" using at_first_ahead [OF assms] .
  define byte where "byte = str_starts ?r (us ''b'')"
  define p where "p = (if byte then us ''b'' else [])"
  obtain r2 where r2: "?r = p @ r2" using byte_def by (auto simp: p_def str_starts_iff)
  have pl: "byte_len p = (if byte then 1 else 0)" by (simp add: p_def len_utf8_def)
  obtain l where l: "s = l @ ?r" "here it = byte_len l" using sf by (auto simp: slice_from_Some)
  have sf2: "slice_from s (here it + byte_len p) = Some r2" unfolding slice_from_Some using l r2 by (intro exI [of _ "l @ p"]) simp
  show ?thesis
  proof (cases "\<exists>d n. delimiter_opening r2 = Ok (Some (d, n))")
    case True
    then obtain d n where o: "delimiter_opening r2 = Ok (Some (d, n))" by blast
    obtain u v where u: "r2 = u @ v" "byte_len u = n" "u \<noteq> []" "d = Cooked \<longrightarrow> u = [dquote]" using delimiter_opening_ok [OF o] by blast
    let ?it = "skip_to c (here it + (n + byte_len p)) it"
    obtain k where k: "run c s it (ch # k) ?it" "tl (p @ u) = [] \<longrightarrow> k = []"
      using skip_opening [OF assms, of "p @ u" v] r2 u(1,2,3) by (auto simp: add.commute)
    have eq: "scan_string c s (here it) it = (if byte \<or> d \<noteq> Cooked then scan_plain c s (here it) d byte ?it else scan_cooked c s (here it) (n + byte_len p) ?it)"
      using sf sf2 o by (simp add: scan_string_def Let_def byte_def pl)
    show ?thesis
    proof (cases "byte \<or> d \<noteq> Cooked")
      case True
      then show ?thesis using scan_plain_ok [OF k(1)] eq by simp
    next
      case False
      then have pu: "p = []" "u = [dquote]" "n = 1" using u by (auto simp: p_def len_utf8_def)
      then have "ch = dquote" "k = []" using r2 u(1) k(2) by auto
      then show ?thesis using scan_cooked_ok [of c s it ?it] k(1) eq False pu by simp
    qed
  next
    case False
    have "scan_string c s (here it) it = bad_opener c s (here it) byte it"
      using sf sf2 False by (auto simp: scan_string_def Let_def byte_def pl split: outcome.splits option.splits)
    then show ?thesis using bad_opener_ok [OF assms] by simp
  qed
qed

section \<open>Any token\<close>

lemma lex_symbol_ok:
  assumes "at_first c s it ch"
  shows "scan_ok c s it (lex_symbol c s (here it) ch it)"
proof -
  note one = lex_one_ok [OF assms] and two = lex_two_ok [OF assms]
  have "scan_ok c s it (Ok [mk_token Unknown (here it) (here it + len_utf8 ch)], skip_char c it)"
    using scan_one [OF run_first [OF assms] _ token_unknown] by simp
  then show ?thesis unfolding lex_symbol_def
    using assms lex_dots_ok lex_equals_ok lex_minus_ok lex_slash_ok lex_bang_ok lex_percent_ok lex_bit_operator_ok
    by (auto intro!: one two simp: punctuation_def)
qed


lemma starts_at_here: "at_first c s it ch \<Longrightarrow> starts_at s (here it) p = Ok (str_starts (ch # ahead it) p)"
  by (simp add: starts_at_def at_first_ahead)

lemma string_opens_here:
  assumes "at_first c s it ch"
  shows "\<exists>b. string_opens s (here it) ch = Ok b"
proof -
  obtain l where l: "s = l @ ch # ahead it" "here it = byte_len l" using at_first_ahead [OF assms] by (auto simp: slice_from_Some)
  have "slice_from s (here it + 1) = Some (ahead it)" if "ch < 0x80"
    unfolding slice_from_Some using l that by (intro exI [of _ "l @ [ch]"]) (simp add: len_utf8_def)
  then show ?thesis by (auto simp: string_opens_def)
qed

text \<open>Whatever begins here: its tokens cover what was read, and each is spelled as its kind demands.\<close>

lemma lex_token_ok:
  assumes "at_first c s it ch"
  shows "scan_ok c s it (lex_token c s (here it) ch it)"
proof -
  note fa = assms
  obtain string where string: "string_opens s (here it) ch = Ok string" using string_opens_here [OF assms] by blast
  define format where "format = (ch = uc CHR ''f'' \<and> str_starts (ch # ahead it) [uc CHR ''f'', dquote])"
  have format: "(if ch = uc CHR ''f'' then starts_at s (here it) [uc CHR ''f'', dquote] else Ok False) = Ok format"
    by (simp add: format_def starts_at_here [OF assms])
  define quote where "quote = (ch = squote \<or> ch = uc CHR ''b'' \<and> starts_at s (here it) [uc CHR ''b'', squote] = Ok True)"
  have quote: "(if ch = squote then Ok True else if ch = uc CHR ''b'' then starts_at s (here it) [uc CHR ''b'', squote] else Ok False) = Ok quote"
    by (simp add: quote_def starts_at_here [OF assms])
  have eq: "lex_token c s (here it) ch it =
     (if string then scan_string c s (here it) it
      else if format then (Ok [mk_token Unknown (here it) (here it + 1)], skip_char c it)
      else if is_whitespace ch then lex_whitespace c (here it) it
      else if quote then lex_quote c s (here it) ch it
      else if is_ascii_digit ch then lex_number c s (here it) ch it
      else if ch = uc CHR ''_'' \<or> is_ascii_alphabetic ch then lex_identifier c s (here it) it
      else lex_symbol c s (here it) ch it)"
    unfolding lex_token_def string format quote by (simp add: scan_then_def)
  have "scan_ok c s it (Ok [mk_token Unknown (here it) (here it + 1)], skip_char c it)" if format
    using scan_one [OF run_first [OF assms] _ token_unknown] that by (simp add: format_def len_utf8_def)
  then show ?thesis unfolding eq
    using scan_string_ok [OF fa] lex_whitespace_ok [OF fa] lex_quote_ok [OF fa] lex_number_ok [OF fa] lex_identifier_ok [OF fa] lex_symbol_ok [OF fa]
    by (simp add: quote_def)
qed

section \<open>The main loop\<close>

text \<open>What is so of the tokens so far.\<close>

definition lexed :: "cancellation \<Rightarrow> str \<Rightarrow> token list \<Rightarrow> chars \<Rightarrow> bool" where
  "lexed c s ts it \<longleftrightarrow> within c s it \<and> (tripped c (polls it) \<or> tiles 0 ts (here it) \<and> list_all (token_ok s) ts)"

definition lexed_all :: "cancellation \<Rightarrow> str \<Rightarrow> token list scan_result \<Rightarrow> bool" where
  "lexed_all c s r \<longleftrightarrow>
     (case r of
        (Ok ts, it) \<Rightarrow> tripped c (polls it) \<or> tiles 0 ts (byte_len s) \<and> list_all (token_ok s) ts
      | (Err _, it) \<Rightarrow> tripped c (polls it)
      | (Panic _, it) \<Rightarrow> False)"

lemma lexed_step:
  assumes "lexed c s ts it" "scan_ok c s it (Ok ts', it')"
  shows "lexed c s (ts @ ts') it'"
  using assms tripped_mono [of c "polls it" "polls it'"] by (auto simp: lexed_def scan_ok_def tiles_append)

lemma lex_loop_ok: "lexed c s ts it \<Longrightarrow> lexed_all c s (lex_loop c s ts it)"
proof (induction c s ts it rule: lex_loop.induct)
  case (1 c s ts it)
  obtain x it1 where p: "peek_char c it = (x, it1)" by fastforce
  have w: "run c s it [] it" using 1(2) by (simp add: lexed_def run_start)
  note r = run_peek [OF w p]
  have l1: "lexed c s ts it1"
    using 1(2) run_within [OF r(1)] run_polls [OF r(1)] run_here [OF r(1)] tripped_mono [of c "polls it" "polls it1"] by (auto simp: lexed_def)
  show ?case
  proof (cases x)
    case None
    have "lexed_all c s (Ok ts, it1)" using l1 r(4) [OF None] run_here [OF r(1)] by (auto simp: lexed_all_def lexed_def)
    then show ?thesis using p None by (subst lex_loop.simps) simp
  next
    case (Some z)
    obtain i ch where z: "z = (i, ch)" by (cases z)
    have i: "i = here it1" using r(3) Some z by blast
    have "at_first c s it1 ch" using run_within [OF r(1)] r(2) Some z i by (simp add: at_first_def)
    from lex_token_ok [OF this] have ok: "scan_ok c s it1 (lex_token c s i ch it1)" using i by simp
    obtain y it2 where y: "lex_token c s i ch it1 = (y, it2)" by fastforce
    show ?thesis
    proof (cases y)
      case (Ok ts')
      have "lexed c s (ts @ ts') it2" using lexed_step [OF l1] ok y Ok by simp
      then show ?thesis using 1(1) [OF p [symmetric] Some z [symmetric]] p Some z y Ok by (subst lex_loop.simps) (simp add: scan_then_def)
    qed (use ok y p Some z in \<open>subst lex_loop.simps, simp add: scan_then_def scan_ok_def lexed_all_def\<close>)+
  qed
qed

lemma polling_chars_within: "within c s (polling_chars s k)"
  by (simp add: within_def polling_chars_def pending_def here_def)

lemma tiles_spelled:
  assumes "tiles (byte_len l) ts (byte_len (l @ r))" "list_all (token_ok (l @ r)) ts"
  shows "\<exists>ms. list_all2 (\<lambda>t m. slice (l @ r) (sstart (tspan t)) (send (tspan t)) = Some m \<and> token_text (tkind t) m) ts ms \<and> concat ms = r"
  using assms
proof (induction ts arbitrary: l r)
  case (Cons t ts)
  obtain m where m: "slice (l @ r) (byte_len l) (send (tspan t)) = Some m" "token_text (tkind t) m" using Cons(2,3) by (auto simp: token_ok_def)
  then obtain r' where r: "r = m @ r'" "send (tspan t) = byte_len (l @ m)"
    using split_text_append [of l r] by (auto simp: slice_def split_text_Some split: if_splits)
  obtain ms where "list_all2 (\<lambda>t n. slice ((l @ m) @ r') (sstart (tspan t)) (send (tspan t)) = Some n \<and> token_text (tkind t) n) ts ms" "concat ms = r'"
  proof -
    from Cons(1) [of "l @ m" r'] Cons(2,3) r show ?thesis using that by auto
  qed
  then show ?case using Cons(2) m r by (intro exI [of _ "m # ms"]) simp
qed simp

text \<open>The lexer without a token, and with one that is never cancelled.\<close>

lemma lex_ok: "\<exists>ts. lex_with_cancellation None s = Ok (ts @ [mk_token Eof (byte_len s) (byte_len s)]) \<and> tiles 0 ts (byte_len s) \<and> list_all (token_ok s) ts"
proof -
  let ?it = "(polling_chars s 0)\<lparr>polls := 1\<rparr>"
  have "lexed None s [] ?it" using polling_chars_within [of None s 0] by (simp add: lexed_def within_def polling_chars_def pending_def here_def)
  from lex_loop_ok [OF this] obtain ts it where ts: "lex_loop None s [] ?it = (Ok ts, it)" "tiles 0 ts (byte_len s)" "list_all (token_ok s) ts"
    by (auto simp: lexed_all_def split: prod.splits outcome.splits)
  have "polls (polling_chars s 0) + 1 = 1" by (simp add: polling_chars_def)
  then show ?thesis using ts by (intro exI [of _ ts]) (simp add: lex_with_cancellation_def with_check_def Let_def cancel_seen_def scan_then_def)
qed

lemma lex_is: "lex s = lex_with_cancellation None s"
  using lex_ok [of s] by (auto simp: lex_def)

lemma lex_with_cancellation_result: "lex_with_cancellation c s = Err Cancelled \<or> (\<exists>ts. lex_with_cancellation c s = Ok ts)"
proof -
  let ?it = "(polling_chars s 0)\<lparr>polls := 1\<rparr>"
  have "lexed c s [] ?it" using polling_chars_within [of c s 0] by (simp add: lexed_def within_def polling_chars_def pending_def here_def)
  from lex_loop_ok [OF this] have ok: "lexed_all c s (lex_loop c s [] ?it)" .
  obtain x it where x: "lex_loop c s [] ?it = (x, it)" by fastforce
  have "polls (polling_chars s 0) + 1 = 1" by (simp add: polling_chars_def)
  then show ?thesis using ok x by (cases x) (auto simp: lex_with_cancellation_def with_check_def Let_def scan_then_def lexed_all_def intro: cancelled.exhaust)
qed

section \<open>Properties\<close>

text \<open>
  (C7) Lexing loses nothing. For every text the lexer returns; the tokens before the final \<open>Eof\<close> are
  non-empty, adjoin one another without gap or overlap from offset 0 to the end of the text, every span
  lies on character boundaries, and their spellings put together are the text.
\<close>

theorem lex_lossless:
  "\<exists>ts ms. lex s = Ok (ts @ [mk_token Eof (byte_len s) (byte_len s)]) \<and> tiles 0 ts (byte_len s) \<and>
     list_all2 (\<lambda>t m. slice s (sstart (tspan t)) (send (tspan t)) = Some m) ts ms \<and> concat ms = s"
proof -
  obtain ts where ts: "lex s = Ok (ts @ [mk_token Eof (byte_len s) (byte_len s)])" "tiles 0 ts (byte_len s)" "list_all (token_ok s) ts"
    using lex_ok [of s] by (auto simp: lex_is)
  then obtain ms where "list_all2 (\<lambda>t m. slice s (sstart (tspan t)) (send (tspan t)) = Some m \<and> token_text (tkind t) m) ts ms" "concat ms = s"
    using tiles_spelled [of "[]" ts s] by auto
  then show ?thesis using ts by (intro exI [of _ ts] exI [of _ ms]) (auto elim: list_all2_mono)
qed


text \<open>
  (C9) Cancellation is all or nothing: whenever the token is cancelled, lexing reports it or returns what
  it returns without cancellation. It never returns a shortened list of tokens although the iterator
  then pretends that the text has ended, and never panics. A token cancelled beforehand is always
  reported, one that is never cancelled never.
\<close>

theorem lex_cancellation_safe:
  "(lex_with_cancellation c s = Err Cancelled \<or> lex_with_cancellation c s = lex s) \<and>
   lex_with_cancellation (Some 0) s = Err Cancelled \<and> lex_with_cancellation None s = lex s"
proof -
  have "lex_with_cancellation c s = lex s" if "lex_with_cancellation c s = Ok ts" for ts
    using lex_with_cancellation_agrees [OF that] that by (simp add: lex_is)
  then have "lex_with_cancellation c s = Err Cancelled \<or> lex_with_cancellation c s = lex s" using lex_with_cancellation_result [of c s] by blast
  moreover have "lex_with_cancellation (Some 0) s = Err Cancelled"
    by (simp add: lex_with_cancellation_def with_check_def cancel_seen_def polling_chars_def)
  ultimately show ?thesis by (simp add: lex_is)
qed

end
