(* ===== verification/Lexer_Complete.thy ===== *)
theory Lexer_Complete
  imports Lexer_Correct
begin

text \<open>
  What the lexer recognises: every identifier, keyword and punctuation token, written alone, is read as
  one token of its kind.
\<close>

section \<open>A text of one token\<close>

text \<open>Nothing is left to read.\<close>

definition at_end :: "chars \<Rightarrow> bool" where
  "at_end it \<longleftrightarrow> fst (peek_char None it) = None"

text \<open>The iterator when the first character has been looked at.\<close>

definition begun :: "scalar \<Rightarrow> str \<Rightarrow> chars" where
  "begun ch cs = \<lparr>peeked = Some (Some (0, ch)), ahead = cs, at_byte = len_utf8 ch, next_check = Some CANCELLATION_CHECK_BYTES, ended = False, polls = 1\<rparr>"

lemma begun_first: "at_first None (ch # cs) (begun ch cs) ch" "here (begun ch cs) = 0" "ahead (begun ch cs) = cs"
  by (simp_all add: begun_def at_first_def within_def pending_def here_def)

lemma lex_single:
  assumes "lex_token None (ch # cs) 0 ch (begun ch cs) = (Ok [t], it)" "at_end it"
  shows "lex (ch # cs) = Ok [t, mk_token Eof (byte_len (ch # cs)) (byte_len (ch # cs))]"
proof -
  let ?s = "ch # cs" and ?it = "(polling_chars (ch # cs) 0)\<lparr>polls := 1\<rparr>"
  have p: "peek_char None ?it = (Some (0, ch), begun ch cs)"
    by (simp add: begun_def peek_char_def polling_chars_def pull_def CANCELLATION_CHECK_BYTES_def Let_def)
  obtain it3 where e: "peek_char None it = (None, it3)" using assms(2) by (cases "peek_char None it") (simp add: at_end_def)
  have "lex_loop None ?s [t] it = (Ok [t], it3)" using e by (subst lex_loop.simps) simp
  then have "lex_loop None ?s [] ?it = (Ok [t], it3)" using p assms(1) by (subst lex_loop.simps) (simp add: scan_then_def)
  moreover have "polls (polling_chars ?s 0) + 1 = 1" by (simp add: polling_chars_def)
  ultimately show ?thesis by (simp add: lex_is lex_with_cancellation_def with_check_def Let_def cancel_seen_def scan_then_def)
qed

section \<open>Identifiers\<close>

lemma take_run_stops: "take_run c p w e it = (e', it') \<Longrightarrow> \<exists>x. peeked it' = Some x \<and> (\<forall>i ch. x = Some (i, ch) \<longrightarrow> \<not> p ch)"
proof (induction c p w e it rule: take_run.induct)
  case (1 c p w e it)
  obtain x it1 where n: "peek_char c it = (x, it1)" by fastforce
  note step = 1(2) [unfolded take_run_step [OF n]]
  show ?case
  proof (cases "\<exists>i ch. x = Some (i, ch) \<and> p ch")
    case True
    then obtain i ch where x: "x = Some (i, ch)" "p ch" by blast
    then show ?thesis using 1(1) [of x it1 "(i, ch)" i ch] n step by simp
  next
    case False
    then have "it' = it1" using step by (auto split: option.splits)
    then show ?thesis using peek_char_left [OF n] False by auto
  qed
qed

text \<open>A run over a text of which every character fits takes all of it.\<close>

lemma take_run_whole:
  assumes "within None s it" "here it = 0" "list_all p s" "s \<noteq> []" "take_run None p w e it = (e', it')"
  shows "e' = byte_len (butlast s) + w (last s)" "at_end it'"
proof -
  have st: "run None s it [] it" using assms(1) by (rule run_start)
  obtain n where n: "run None s it ([] @ n) it'" "n = [] \<and> e' = e \<or> n \<noteq> [] \<and> e' = here it + byte_len [] + byte_len (butlast n) + w (last n)"
    by (rule run_take [OF st assms(5)])
  obtain x where x: "peeked it' = Some x" "\<And>i ch. x = Some (i, ch) \<Longrightarrow> \<not> p ch" using take_run_stops [OF assms(5)] by blast
  have s: "s = pending it @ ahead it" using assms(1,2) by (auto elim!: withinE)
  then have eq: "s = n @ pending it' @ ahead it'" using n(1) moved_here(2) [of None s it n it'] by (simp add: run_def)
  have "x = None"
  proof (cases x)
    case (Some z)
    then obtain i ch where "x = Some (i, ch)" by (cases z) auto
    then have "ch \<in> set s" "\<not> p ch" using eq x by (auto simp: pending_def)
    then show ?thesis using assms(3) by (auto simp: list_all_iff)
  qed
  then show "at_end it'" using x(1) by (simp add: at_end_def peek_char_def)
  have "ahead it' = []" using run_within [OF n(1)] x(1) \<open>x = None\<close> by (auto elim!: withinE)
  then have "s = n" using eq x(1) \<open>x = None\<close> by (simp add: pending_def)
  then show "e' = byte_len (butlast s) + w (last s)" using n(2) assms(2,4) by simp
qed

lemma ident_not_special: "is_ident_char ch \<Longrightarrow> ch \<noteq> dquote \<and> ch \<noteq> squote \<and> ch \<noteq> uc CHR ''#'' \<and> \<not> is_whitespace ch"
  by (auto simp: is_ident_char_def is_ascii_alphanumeric_def is_ascii_alphabetic_def is_ascii_digit_def is_whitespace_def)

lemma ident_byte_len: "list_all is_ident_char m \<Longrightarrow> byte_len m = length m"
  by (induction m) (auto simp: ident_char_ascii)

lemma identifier_token:
  assumes "is_identifier (ch # cs)" "at_first None (ch # cs) it ch" "here it = 0" "ahead it = cs"
  shows "\<exists>it'. lex_token None (ch # cs) 0 ch it = (Ok [mk_token (identifier_kind (ch # cs)) 0 (byte_len (ch # cs))], it') \<and> at_end it'"
proof -
  let ?s = "ch # cs"
  have id: "list_all is_ident_char ?s" "\<not> is_ascii_digit ch" using assms(1) by (simp_all add: is_identifier_def)
  then have first: "ch = uc CHR ''_'' \<or> is_ascii_alphabetic ch" by (auto simp: is_ident_char_def is_ascii_alphanumeric_def)
  have sp: "x \<noteq> dquote \<and> x \<noteq> squote \<and> x \<noteq> uc CHR ''#'' \<and> \<not> is_whitespace x" if "x \<in> set ?s" for x using that id(1) ident_not_special by (auto simp: list_all_iff)
  have sl: "slice_from ?s 1 = Some cs" unfolding slice_from_Some using id(1) ident_char_ascii by (intro exI [of _ "[ch]"]) simp
  have quiet: "\<not> str_starts_any q [uc CHR ''#'', dquote]" if "set q \<subseteq> set ?s" for q using that sp by (cases q) (auto simp: str_starts_any_def)
  have "\<not> str_starts cs [dquote]" using sp [of dquote] by (auto simp: str_starts_iff)
  moreover have "(case strip_prefix (us ''r'') cs of Some q \<Rightarrow> str_starts_any q [uc CHR ''#'', dquote] | None \<Rightarrow> False) = False"
  proof (cases "strip_prefix (us ''r'') cs")
    case (Some q)
    then have "set q \<subseteq> set ?s" by auto
    then show ?thesis using quiet [of q] Some by (simp del: strip_prefix_Some)
  qed simp
  moreover have "\<not> str_starts_any cs [uc CHR ''#'', dquote]" by (rule quiet) auto
  ultimately have opens: "string_opens ?s 0 ch = Ok False" using sl sp [of dquote] by (auto simp: string_opens_def)
  have starts: "starts_at ?s 0 p = Ok (str_starts ?s p)" for p using starts_at_here [OF assms(2), of p] assms(3,4) by simp
  obtain e it' where t: "take_run None is_ident_char (\<lambda>_. 0) 0 it = (e, it')" by fastforce
  have w: "within None ?s it" using assms(2) by (simp add: at_first_def)
  have "list_all is_ident_char (butlast ?s)" using id(1) by (auto simp: list_all_iff dest: in_set_butlastD)
  then have "byte_len (butlast ?s) + 1 = byte_len ?s" using ident_byte_len [OF id(1)] ident_byte_len [of "butlast ?s"] by (simp del: byte_len.simps butlast.simps)
  then have e: "e + 1 = byte_len ?s" "at_end it'" using take_run_whole [OF w assms(3) id(1) _ t] by auto
  have "slice ?s 0 (e + 1) = Some ?s" unfolding slice_Some using e(1) by (intro exI [of _ "[]"]) simp
  then have "lex_identifier None ?s 0 it = (Ok [mk_token (identifier_kind ?s) 0 (byte_len ?s)], it')"
    using t e(1) by (simp add: lex_identifier_def with_slice_def)
  moreover have "lex_token None ?s 0 ch it = lex_identifier None ?s 0 it"
    using opens starts sp [of ch] sp [of dquote] sp [of squote] id(2) first by (auto simp: lex_token_def scan_then_def str_starts_iff)
  ultimately show ?thesis using e(2) by simp
qed

lemma lex_identifier_alone:
  assumes "is_identifier m"
  shows "lex m = Ok [mk_token (identifier_kind m) 0 (byte_len m), mk_token Eof (byte_len m) (byte_len m)]"
proof -
  obtain ch cs where m: "m = ch # cs" using assms by (cases m) (auto simp: is_identifier_def)
  obtain it where "lex_token None (ch # cs) 0 ch (begun ch cs) = (Ok [mk_token (identifier_kind (ch # cs)) 0 (byte_len (ch # cs))], it)" "at_end it"
    using identifier_token [OF _ begun_first] assms m by blast
  then show ?thesis unfolding m by (rule lex_single)
qed

lemma keywords_identifiers: "list_all (\<lambda>(m, k). is_identifier m \<and> identifier_kind m = k) keyword_table"
proof -
  have d: "distinct (map fst keyword_table)" and i: "list_all is_identifier (map fst keyword_table)"
    unfolding keyword_table_def list.map fst_conv by code_simp+
  have "is_identifier m \<and> identifier_kind m = k" if "(m, k) \<in> set keyword_table" for m k
    using that d i by (auto simp: identifier_kind_def list_all_iff)
  then show ?thesis by (auto simp: list_all_iff)
qed

section \<open>Punctuation\<close>

lemmas punctuation_scanners =
  lex_token_def string_opens_def scan_then_def is_whitespace_def is_ascii_digit_def is_ascii_alphabetic_def lex_symbol_def
  lex_one_def lex_two_def lex_dots_def lex_equals_def lex_minus_def lex_bang_def lex_percent_def lex_bit_operator_def bit_operator_def
  peek_offset_def lex_slash_def accept_def skip_char_def next_char_def peek_char_def pull_def begun_def at_end_def len_utf8_def CANCELLATION_CHECK_BYTES_def Let_def

lemma lex_punctuation:
  assumes "case lex_token None (ch # cs) 0 ch (begun ch cs) of (x, it) \<Rightarrow> x = Ok [mk_token k 0 (byte_len (ch # cs))] \<and> at_end it"
  shows "lex (ch # cs) = Ok [mk_token k 0 (byte_len (ch # cs)), mk_token Eof (byte_len (ch # cs)) (byte_len (ch # cs))]"
  using assms lex_single by (auto split: prod.splits)

lemma punctuation_alone:
  "list_all (\<lambda>(k, m). k \<in> {FormatStart, FormatEnd, FormatOpen, FormatClose, Eof} \<or>
      lex m = Ok [mk_token k 0 (byte_len m), mk_token Eof (byte_len m) (byte_len m)]) punctuation"
  unfolding punctuation_def list.pred_inject prod.case list.map
  by (intro conjI TrueI; (rule disjI2, rule lex_punctuation, simp add: punctuation_scanners; fail)?; simp)

section \<open>Properties\<close>

text \<open>
  (C10) What the lexer is to recognise it does: an identifier written alone is read as one token, of kind \<open>Ident\<close>
  unless the keyword table names it, every keyword as its keyword token, and every punctuation token of the
  table, the longest ones included, as itself. (The delimiters of interpolated strings occur only within one.)
\<close>

theorem lex_recognises:
  "(is_identifier m \<longrightarrow> lex m = Ok [mk_token (identifier_kind m) 0 (byte_len m), mk_token Eof (byte_len m) (byte_len m)]) \<and>
   list_all (\<lambda>(m, k). lex m = Ok [mk_token k 0 (byte_len m), mk_token Eof (byte_len m) (byte_len m)]) keyword_table \<and>
   list_all (\<lambda>(k, m). k \<in> {FormatStart, FormatEnd, FormatOpen, FormatClose, Eof} \<or>
      lex m = Ok [mk_token k 0 (byte_len m), mk_token Eof (byte_len m) (byte_len m)]) punctuation"
proof -
  have "list_all (\<lambda>(m, k). lex m = Ok [mk_token k 0 (byte_len m), mk_token Eof (byte_len m) (byte_len m)]) keyword_table"
    using keywords_identifiers by (rule list.pred_mono_strong) (auto dest: lex_identifier_alone)
  then show ?thesis using lex_identifier_alone punctuation_alone by simp
qed

theorem lex_recognises_witness:
  "is_identifier (us ''f_32'') \<and> lex (us ''f_32'') = Ok [mk_token Ident 0 4, mk_token Eof 4 4]"
proof -
  have "us ''f_32'' \<notin> set (map fst keyword_table)" unfolding keyword_table_def list.map fst_conv by code_simp
  then have "map_of keyword_table (us ''f_32'') = None" by (simp add: map_of_eq_None_iff del: map_of.simps)
  then have "identifier_kind (us ''f_32'') = Ident" by (simp add: identifier_kind_def)
  moreover have "is_identifier (us ''f_32'')" "byte_len (us ''f_32'') = 4" by code_simp+
  ultimately show ?thesis using lex_recognises [of "us ''f_32''"] by simp
qed

end
