(* ===== verification/Literal_Values.thy ===== *)
theory Literal_Values
  imports Lexer_Strings
begin

text \<open>
  The values of literals. Reference printers write a text, a byte string or a character as a literal, and
  an integer in any radix; the decoders of \<open>Literals\<close> read back what was written.
\<close>

section \<open>Reference definitions\<close>

definition string_escape :: "scalar \<Rightarrow> str" where
  "string_escape ch =
     (if ch = dquote \<or> ch = backslash then [backslash, ch]
      else if ch = uc CHR ''{'' \<or> ch = uc CHR ''}'' then [ch, ch]
      else if ch = cr then [backslash, uc CHR ''r'']
      else [ch])"

definition quote_string :: "str \<Rightarrow> str" where
  "quote_string s = dquote # concat (map string_escape s) @ [dquote]"

definition hex_digit :: "nat \<Rightarrow> scalar" where
  "hex_digit d = (if d < 10 then uc CHR ''0'' + d else uc CHR ''A'' + (d - 10))"

definition byte_escape :: "nat \<Rightarrow> str" where
  "byte_escape b =
     (if b = dquote \<or> b = backslash then [backslash, b]
      else if b = cr \<or> 0x80 \<le> b then [backslash, uc CHR ''x'', hex_digit (b div 16), hex_digit (b mod 16)]
      else [b])"

definition quote_bytes :: "nat list \<Rightarrow> str" where
  "quote_bytes bs = uc CHR ''b'' # dquote # concat (map byte_escape bs) @ [dquote]"

definition char_escape :: "scalar \<Rightarrow> str" where
  "char_escape ch =
     (if ch = squote \<or> ch = backslash then [backslash, ch]
      else if ch = tab then [backslash, uc CHR ''t'']
      else if ch = lf then [backslash, uc CHR ''n'']
      else if ch = cr then [backslash, uc CHR ''r'']
      else [ch])"

definition quote_char :: "scalar \<Rightarrow> str" where
  "quote_char ch = squote # char_escape ch @ [squote]"




section \<open>Reading without a token\<close>

text \<open>The iterator will hand out \<open>r\<close>: no check can fail.\<close>

definition feeds :: "chars \<Rightarrow> str \<Rightarrow> bool" where
  "feeds it r \<longleftrightarrow> \<not> ended it \<and> peeked it = None \<and> ahead it = r"

lemma feeds_start [simp]: "feeds (polling_chars s k) s" "feeds (plain_chars s) s"
  by (simp_all add: feeds_def polling_chars_def plain_chars_def)

lemma feeds_next:
  assumes "feeds it (ch # r)"
  obtains i it' where "next_char None it = (Some (i, ch), it')" "feeds it' r"
proof -
  have "\<exists>i it'. next_char None it = (Some (i, ch), it') \<and> feeds it' r" using assms
    by (cases "next_check it"; cases "at_byte it < the (next_check it)") (auto simp: feeds_def next_char_def pull_def Let_def cancel_seen_def)
  then show ?thesis using that by blast
qed

lemma feeds_end: "feeds it [] \<Longrightarrow> next_char None it = (None, it)"
  by (simp add: feeds_def next_char_def pull_def)

lemma unread_next: "feeds it r \<Longrightarrow> \<exists>it'. next_char None (unread ch it) = (Some (0, ch), it') \<and> feeds it' r"
  by (simp add: feeds_def next_char_def unread_def)

section \<open>Escapes\<close>

text \<open>A simple escape, read from a string and from a character literal.\<close>

definition simple_escape :: "scalar \<Rightarrow> scalar \<Rightarrow> bool" where
  "simple_escape e v \<longleftrightarrow> (e, v) \<in> {(squote, squote), (dquote, dquote), (backslash, backslash), (uc CHR ''n'', lf), (uc CHR ''r'', cr), (uc CHR ''t'', tab)}"

lemma decode_simple_escape:
  assumes "simple_escape e v" "next_char None it = (Some (i, e), it')"
  shows "decode_escape None byte it = (Ok v, it')"
  using assms by (auto simp: simple_escape_def decode_escape_def)

lemma cooked_simple_escape:
  assumes "simple_escape e v" "feeds it (e # r)"
  obtains it' where "decode_cooked_escape None byte it = (Ok [v], it')" "feeds it' r"
proof -
  obtain i it1 where n: "next_char None it = (Some (i, e), it1)" "feeds it1 r" using assms(2) by (rule feeds_next)
  obtain it2 where u: "next_char None (unread e it1) = (Some (0, e), it2)" "feeds it2 r" using unread_next [OF n(2)] by blast
  have "e \<noteq> lf" "e \<noteq> cr" using assms(1) by (auto simp: simple_escape_def)
  then have "decode_cooked_escape None byte it = (Ok [v], it2)" using n(1) decode_simple_escape [OF assms(1) u(1), of byte] by (simp add: decode_cooked_escape_def)
  then show ?thesis using that u(2) by blast
qed

lemma hex_digit_value: "d < 16 \<Longrightarrow> to_digit 16 (hex_digit d) = Some d"
  by (auto simp: hex_digit_def to_digit_def is_ascii_digit_def Let_def)

lemma cooked_hex_escape:
  assumes "b < 256" "feeds it (uc CHR ''x'' # hex_digit (b div 16) # hex_digit (b mod 16) # r)"
  obtains it' where "decode_cooked_escape None True it = (Ok [b], it')" "feeds it' r"
proof -
  obtain i it1 where n: "next_char None it = (Some (i, uc CHR ''x''), it1)" "feeds it1 (hex_digit (b div 16) # hex_digit (b mod 16) # r)"
    using assms(2) by (rule feeds_next)
  obtain it2 where u: "next_char None (unread (uc CHR ''x'') it1) = (Some (0, uc CHR ''x''), it2)" "feeds it2 (hex_digit (b div 16) # hex_digit (b mod 16) # r)"
    using unread_next [OF n(2)] by blast
  obtain j it3 where a: "next_char None it2 = (Some (j, hex_digit (b div 16)), it3)" "feeds it3 (hex_digit (b mod 16) # r)" using u(2) by (rule feeds_next)
  obtain k it4 where b: "next_char None it3 = (Some (k, hex_digit (b mod 16)), it4)" "feeds it4 r" using a(2) by (rule feeds_next)
  have "b div 16 < 16" "b mod 16 < 16" "b div 16 * 16 + b mod 16 = b" using assms(1) by simp_all
  then have "hex_digits None 2 0 it2 = (Ok b, it4)" using a(1) b(1) by (simp add: hex_digits.simps hex_digit_value)
  then have "decode_escape None True (unread (uc CHR ''x'') it1) = (Ok b, it4)" using u(1) assms(1) by (simp add: decode_escape_def from_u32_def)
  then have "decode_cooked_escape None True it = (Ok [b], it4)" using n(1) by (simp add: decode_cooked_escape_def)
  then show ?thesis using that b(2) by blast
qed

section \<open>Strings\<close>

text \<open>One printed character is read as that character.\<close>

lemma string_escape_reads:
  assumes "feeds it (string_escape ch @ r)"
  shows "\<exists>i d it1 it2. next_char None it = (Some (i, d), it1) \<and> decode_string_character None True False d it1 = (Ok [ch], it2) \<and> feeds it2 r" (is ?ok)
proof -
  have esc: ?ok if e: "simple_escape e ch" and f: "feeds it (backslash # e # r)" for e
  proof -
    obtain i it1 where n: "next_char None it = (Some (i, backslash), it1)" "feeds it1 (e # r)" using f by (rule feeds_next)
    obtain it2 where "decode_cooked_escape None False it1 = (Ok [ch], it2)" "feeds it2 r" using cooked_simple_escape [OF e n(2)] by blast
    then show ?thesis using n(1) by (auto simp: decode_string_character_def)
  qed
  have brace: ?ok if b: "ch = uc CHR ''{'' \<or> ch = uc CHR ''}''" and f: "feeds it (ch # ch # r)"
  proof -
    obtain i it1 where n: "next_char None it = (Some (i, ch), it1)" "feeds it1 (ch # r)" using f by (rule feeds_next)
    obtain j it2 where "next_char None it1 = (Some (j, ch), it2)" "feeds it2 r" using n(2) by (rule feeds_next)
    then show ?thesis using n(1) b by (auto simp: decode_string_character_def)
  qed
  have plain: ?ok if p: "ch \<notin> {dquote, backslash, cr, uc CHR ''{'', uc CHR ''}''}" and f: "feeds it (ch # r)"
  proof -
    obtain i it1 where n: "next_char None it = (Some (i, ch), it1)" "feeds it1 r" using f by (rule feeds_next)
    have "decode_string_character None True False ch it1 = (Ok [ch], it1)" using p by (simp add: decode_string_character_def)
    then show ?thesis using n by blast
  qed
  show ?ok
  proof (cases "ch = dquote \<or> ch = backslash \<or> ch = cr")
    case True
    then show ?thesis using assms esc [of ch] esc [of "uc CHR ''r''"] by (auto simp: string_escape_def simple_escape_def)
  next
    case False
    then show ?thesis using assms brace plain by (cases "ch = uc CHR ''{'' \<or> ch = uc CHR ''}''") (auto simp: string_escape_def)
  qed
qed

lemma byte_escape_reads:
  assumes "feeds it (byte_escape b @ r)" "b < 256"
  shows "\<exists>i d it1 it2. next_char None it = (Some (i, d), it1) \<and> decode_string_character None True True d it1 = (Ok [b], it2) \<and> feeds it2 r" (is ?ok)
proof -
  have bs: ?ok if f: "feeds it (backslash # q)" and e: "\<And>it1. feeds it1 q \<Longrightarrow> \<exists>it2. decode_cooked_escape None True it1 = (Ok [b], it2) \<and> feeds it2 r" for q
  proof -
    obtain i it1 where n: "next_char None it = (Some (i, backslash), it1)" "feeds it1 q" using f by (rule feeds_next)
    then show ?thesis using e [OF n(2)] by (auto simp: decode_string_character_def is_ascii_def)
  qed
  have plain: ?ok if p: "b \<notin> {dquote, backslash, cr}" "b < 0x80" and f: "feeds it (b # r)"
  proof -
    obtain i it1 where n: "next_char None it = (Some (i, b), it1)" "feeds it1 r" using f by (rule feeds_next)
    have "decode_string_character None True True b it1 = (Ok [b], it1)" using p by (simp add: decode_string_character_def is_ascii_def)
    then show ?thesis using n by blast
  qed
  show ?ok
  proof (cases "b = dquote \<or> b = backslash")
    case True
    then have "simple_escape b b" "feeds it (backslash # b # r)" using assms(1) by (auto simp: simple_escape_def byte_escape_def)
    then show ?thesis using bs [of "b # r"] cooked_simple_escape [of b b _ r True] by blast
  next
    case False
    show ?thesis
    proof (cases "b = cr \<or> 0x80 \<le> b")
      case True
      let ?h = "uc CHR ''x'' # hex_digit (b div 16) # hex_digit (b mod 16) # r"
      have "feeds it (backslash # ?h)" using assms(1) True False by (simp add: byte_escape_def)
      then show ?thesis using bs [of ?h] cooked_hex_escape [OF assms(2), of _ r] by blast
    next
      case f: False
      then have "feeds it (b # r)" using assms(1) False by (simp add: byte_escape_def)
      then show ?thesis using plain False f by simp
    qed
  qed
qed

lemma decode_characters_reads:
  assumes "feeds it (concat (map esc s))"
    "\<And>ch it r. ch \<in> set s \<Longrightarrow> feeds it (esc ch @ r) \<Longrightarrow>
       \<exists>i d it1 it2. next_char None it = (Some (i, d), it1) \<and> decode_string_character None cooked byte d it1 = (Ok [ch], it2) \<and> feeds it2 r"
  shows "\<exists>it'. decode_string_characters None cooked byte v it = (Ok (v @ s), it')"
  using assms
proof (induction s arbitrary: v it)
  case Nil
  then show ?case by (subst decode_string_characters.simps) (simp add: feeds_end)
next
  case (Cons ch s)
  obtain i d it1 it2 where s: "next_char None it = (Some (i, d), it1)" "decode_string_character None cooked byte d it1 = (Ok [ch], it2)" "feeds it2 (concat (map esc s))"
    using Cons(3) [of ch it "concat (map esc s)"] Cons(2) by auto
  have "\<exists>it'. decode_string_characters None cooked byte (v @ [ch]) it2 = (Ok ((v @ [ch]) @ s), it')" by (rule Cons(1) [OF s(3)]) (rule Cons(3), simp_all)
  then show ?case using s(1,2) by (subst decode_string_characters.simps) simp
qed

lemma fresh_decode:
  assumes "\<And>k. \<exists>l. inner k = (Ok (Ok v), l)"
  shows "fresh_token (checked_decode None inner 0) = Ok v"
proof -
  obtain l where "inner 1 = (Ok (Ok v), l)" using assms by blast
  then show ?thesis by (simp add: fresh_token_def checked_decode_def counted_then_def cancel_check_def cancel_seen_def)
qed

lemma decode_content_reads:
  assumes "\<And>it. feeds it q \<Longrightarrow> \<exists>it'. decode_string_characters None cooked byte [] it = (Ok v, it')"
  shows "\<exists>l. decode_string_content None q cooked byte k = (Ok (Ok v), l)"
proof -
  obtain it where "decode_string_characters None cooked byte [] (polling_chars q k) = (Ok v, it)" using assms by fastforce
  then show ?thesis by (simp add: decode_string_content_def counted_then_def cancel_check_def cancel_seen_def)
qed

lemma decode_quoted_string: "decode_string_literal (quote_string s) = Ok s"
proof -
  let ?q = "concat (map string_escape s)"
  have "\<exists>l. decode_string_content None ?q True False k = (Ok (Ok s), l)" for k
    by (rule decode_content_reads, rule decode_characters_reads [where v = "[]" and s = s, unfolded append_Nil], assumption, rule string_escape_reads, assumption)
  then show ?thesis unfolding decode_string_literal_def decode_string_literal_with_cancellation_def quote_string_def
    by (intro fresh_decode) (simp add: decode_string_literal_inner_def string_content_cooked)
qed

lemma decode_quoted_bytes:
  assumes "list_all (\<lambda>b. b < 256) bs"
  shows "decode_byte_string_literal (quote_bytes bs) = Ok bs"
proof -
  let ?q = "concat (map byte_escape bs)"
  have sp: "strip_prefix (us ''b'') (quote_bytes bs) = Some (dquote # ?q @ [dquote])" by (simp add: quote_bytes_def)
  have bytes: "map (\<lambda>ch. ch mod 256) bs = bs" using assms by (induction bs) auto
  have "\<exists>l. bytes_of (decode_string_literal_inner None (dquote # ?q @ [dquote]) True k) = (Ok (Ok bs), l)" for k
  proof -
    have "\<exists>l. decode_string_content None ?q True True k = (Ok (Ok bs), l)"
      by (rule decode_content_reads, rule decode_characters_reads [where v = "[]" and s = bs, unfolded append_Nil], assumption, rule byte_escape_reads, assumption)
        (use assms in \<open>simp add: list_all_iff\<close>)
    then show ?thesis using bytes by (auto simp: decode_string_literal_inner_def string_content_cooked bytes_of_def)
  qed
  then show ?thesis unfolding decode_byte_string_literal_def decode_byte_string_literal_with_cancellation_def sp option.case by (rule fresh_decode)
qed

lemma decode_quoted_char: "decode_char_literal (quote_char ch) = Ok ch"
proof -
  have "\<exists>it. first_character False (plain_chars (char_escape ch)) = (Ok ch, it) \<and> feeds it []"
  proof (cases "char_escape ch = [ch]")
    case True
    then have "ch \<notin> {backslash, tab, cr, lf, squote}" by (auto simp: char_escape_def split: if_splits)
    then show ?thesis using feeds_next [OF feeds_start(2) [of "[ch]"]] True by (force simp: first_character_def)
  next
    case False
    then obtain e where e: "char_escape ch = [backslash, e]" "simple_escape e ch" by (auto simp: char_escape_def simple_escape_def split: if_splits)
    obtain i it1 where n: "next_char None (plain_chars [backslash, e]) = (Some (i, backslash), it1)" "feeds it1 [e]" using feeds_next [OF feeds_start(2)] by blast
    obtain j it2 where "next_char None it1 = (Some (j, e), it2)" "feeds it2 []" using feeds_next [OF n(2)] by blast
    then show ?thesis using n(1) e(1) decode_simple_escape [OF e(2)] by (auto simp: first_character_def)
  qed
  then show ?thesis by (auto simp: decode_char_literal_def decode_character_def quote_char_def feeds_end strip_prefix_def strip_suffix_def)
qed

section \<open>Integers\<close>

















section \<open>Properties\<close>

text \<open>
  (C11) Strings, byte strings and characters survive being written as literals: escaping quotes,
  backslashes, carriage returns and braces (or, in bytes, everything that is not ASCII) and decoding
  the literal gives back what was written, for every text, every list of bytes and every character.
\<close>

theorem literal_round_trip:
  "decode_string_literal (quote_string s) = Ok s \<and>
   (list_all (\<lambda>b. b < 256) bs \<longrightarrow> decode_byte_string_literal (quote_bytes bs) = Ok bs) \<and>
   decode_char_literal (quote_char ch) = Ok ch"
  by (simp add: decode_quoted_string decode_quoted_bytes decode_quoted_char)

theorem literal_round_trip_witness:
  "decode_string_literal (quote_string (us ''{a}'')) = Ok (us ''{a}'') \<and> list_all (\<lambda>b. b < 256) [0 :: nat, 34, 255] \<and>
   decode_byte_string_literal (quote_bytes [0, 34, 255]) = Ok [0, 34, 255] \<and> decode_char_literal (quote_char squote) = Ok squote"
  using literal_round_trip [of "us ''{a}''" "[0, 34, 255]" squote] by simp



end
