(* ===== verification/Spec2Isabelle.thy ===== *)
theory Spec2Isabelle
  imports Gc_World Scalar_Payload Host_Borrows Lexer_Complete Literal_Values
begin

text \<open>
  Kagari is an embeddable scripting language in Rust. Source text goes through a lexer and a parser
  (\<^verbatim>\<open>kagari-syntax\<close>), name resolution and type checking (\<^verbatim>\<open>kagari-hir\<close>), a control-flow representation
  (\<^verbatim>\<open>kagari-mir\<close>) and a compiler to bytecode (\<^verbatim>\<open>kagari-compiler\<close>, \<^verbatim>\<open>kagari-bytecode\<close>); the bytecode
  runs on an interpreter or as prepared code (\<^verbatim>\<open>kagari-vm\<close>, \<^verbatim>\<open>kagari-runtime\<close>) over a managed heap
  (\<^verbatim>\<open>kagari-gc\<close>) and may borrow objects of the host program. This library models the part that
  everything else rests on at run time, the garbage-collected heap with its clients, the numeric
  semantics and the table of host borrows, and where every program begins, the lexer. Paths below are relative to \<^verbatim>\<open>src/crates\<close>.

  \<^bold>\<open>The heap\<close> (\<^verbatim>\<open>kagari-gc/src\<close>). An incremental, non-moving mark-and-sweep collector. From the bottom:
  \<^item> \<open>Gc_Base\<close> (\<^verbatim>\<open>error.rs, scan.rs, heap.rs\<close>): errors, phases, work budgets and the memory ledger.
  \<^item> \<open>Gc_Table\<close> (\<^verbatim>\<open>table.rs\<close>): the radix directory of stable identities. A value inserted under a
    prepared identity is found there and the others stay; preparation succeeds while identities and
    memory last; trimming keeps every value. Operations on \<^verbatim>\<open>&mut self\<close> that may fail half-way have a
    second definition for what they leave behind (\<open>prepare_failed\<close>, and \<open>register_failed\<close> in the
    registry); clients carry that state on.
  \<^item> \<open>Gc_Page\<close> (\<^verbatim>\<open>allocation/page.rs, marking.rs\<close>): slab pages, their trailers and bitmaps at 64-bit
    words. Slots are aligned, inside the slab and disjoint from the trailer; the word-at-a-time
    search for dead slots equals the slot-by-slot one.
  \<^item> \<open>Gc_Descriptors\<close> (\<^verbatim>\<open>dynamic.rs, dynamic/*.rs, descriptor.rs, object.rs\<close>): layouts of records
    defined at run time, field keys, the registry of representations and its retirement.
  \<^item> \<open>Gc_Physical\<close> and \<open>Gc_Heap\<close> (\<^verbatim>\<open>allocation.rs\<close>): the page directory with intrusive lists and
    address resolution, and its invariant. The interface to the allocation path is the locale
    \<open>slot_heap\<close>. An address resolves exactly when it is the address of an allocated object.
  \<^item> \<open>Gc_Marking\<close> (\<^verbatim>\<open>marking.rs\<close>): colours and the queue of pages with gray objects.
  \<^item> \<open>Gc_Scanning\<close> (\<^verbatim>\<open>object.rs, descriptor.rs, scan.rs\<close>): the hooks of managed types. Their
    implementations are client code and a parameter, \<open>provider\<close>; their documented contract is the
    locale \<open>edge_scanner\<close>, interpreted on the scanner of dynamic records.
  \<^item> \<open>Gc_Roots\<close> (\<^verbatim>\<open>root.rs\<close>): registrations of host roots, leases and the release port.
  \<^item> \<open>Gc_Retirement\<close> (\<^verbatim>\<open>sweep.rs\<close>): batches of detached objects, destroyed outside the loans.
  \<^item> \<open>Gc_Collector\<close> (\<^verbatim>\<open>heap/service.rs, root_source.rs, heap.rs\<close>): the state machine of a cycle, with
    the invariant \<open>gc_inv\<close> and the locale \<open>collector\<close>; \<open>Gc_Root_Phase\<close>, \<open>Gc_Mark_Phase\<close>,
    \<open>Gc_Sweep_Phase\<close> and \<open>Gc_Service\<close> prove that every branch of the three phases keeps it and keeps
    every reachable object.
  \<^item> \<open>Gc_Driver\<close> (\<^verbatim>\<open>heap.rs, heap/pacing.rs, heap/metadata.rs\<close>): the entry points of a driver. A
    successful full collection leaves exactly the reachable objects; a safepoint follows the pacing
    policy, stated by \<open>quota_pressed\<close> and \<open>burst\<close>.
  \<^item> \<open>Gc_Access\<close> (\<^verbatim>\<open>access.rs, access/scope.rs, access/fields.rs, dynamic/access.rs\<close>): what clients do:
    register, allocate, read and write fields, hold roots. \<open>Gc_Mutator\<close>, \<open>Gc_Allocation\<close> and
    \<open>Gc_Loan\<close> (\<^verbatim>\<open>access/mutation.rs\<close>) prove that each operation keeps the invariant in every phase
    of a cycle.
  \<^item> \<open>Gc_World\<close>: heap and client together as a step relation. In every reachable state everything
    that handles and roots reach is allocated, of its representation, and not about to be swept.

  \<^bold>\<open>Numbers\<close>. \<open>Integer_Arith\<close> (\<^verbatim>\<open>kagari-types/src: integer.rs, arithmetic.rs, scalar.rs, conversion.rs,
  numeric.rs, range.rs\<close>) and \<open>Scalar_Payload\<close> (\<^verbatim>\<open>kagari-types/src/payload\<close>, \<^verbatim>\<open>kagari-contract/src/numeric.rs\<close>,
  \<^verbatim>\<open>kagari-runtime/src/numeric.rs\<close>): operations at every width equal the mathematical ones with their
  traps, although the source computes in \<^verbatim>\<open>i128\<close>; prepared operations on untagged 64-bit carriers
  refine the operations on tagged values.

  \<^bold>\<open>Host borrows\<close>. \<open>Host_Borrows\<close> (\<^verbatim>\<open>kagari-runtime/src/host/borrows.rs, host.rs\<close>): the table of borrows
  by frame. In every reachable table two live borrows of overlapping paths are both shared, a borrow
  is refused only for a conflict, and a token dies with its guard.

  \<^bold>\<open>Source text\<close> (\<^verbatim>\<open>kagari-syntax/src: token.rs, lexer.rs, lexer/string.rs\<close>, \<^verbatim>\<open>kagari-source/src/literal.rs\<close>,
  \<^verbatim>\<open>kagari-common/src: span.rs, cancellation.rs\<close>).
  \<^item> \<open>Source_Text\<close>: characters, UTF-8 offsets and slices, and the character iterator that polls for
    cancellation while it is read. Another thread may cancel at any moment, so a token is the number
    of checks that still succeed.
  \<^item> \<open>Literals\<close>: integer, string, byte-string, character and byte-character literals, and \<open>Lexer\<close>: all
    scanners with the main loop, written over the iterator as in the source.
  \<^item> \<open>Literal_Decoding\<close> and \<open>Lexer_Cancellation\<close>: a run in which no check failed is the run without a
    token. Each scanner is related to itself by the rules of the collection \<open>agreement\<close>.
  \<^item> \<open>Lexer_Sound\<close>, \<open>Lexer_Strings\<close> and \<open>Lexer_Correct\<close>: what each scanner reads and emits, and the lexer
    as a whole. Tokens tile the text, are spelled as their kinds demand, and a cancelled run never
    passes for a complete one.
  \<^item> \<open>Lexer_Complete\<close>: identifiers, keywords and punctuation are recognised.
  \<^item> \<open>Literal_Values\<close>: a text, bytes, a character or an integer written as a literal is read back.

  \<^bold>\<open>Parameters.\<close> The system allocator (\<open>fresh_alloc\<close>: it returns blocks that overlap none it has not
  got back), the grants of \<^verbatim>\<open>try_reserve\<close>, the sizes the Rust compiler chooses for private structs, the
  hooks of managed types and of root sources, the programs that mutable loans run, and floating-point
  arithmetic. Loops that the source bounds only by progress of such code (\<open>drain\<close>, \<open>inspect_initial\<close>,
  \<open>dispose_all\<close>) are partial functions; where a theorem says that a call returns, it is proved to.

  \<^bold>\<open>Abstractions.\<close> The bytes of objects and of the scan workspace are \<open>payload\<close> and \<open>scan_state\<close>; the
  last drop of a root handle and the notice it queues are one step; the floating-point unit is a
  function of the operand bits, so that it chooses NaN payloads alike on both execution paths.

  \<^bold>\<open>Not modelled.\<close> The parser, the source database, type checker, MIR, bytecode compiler and verifier, the interpreter,
  native code generation, package loading, formatter, lints and the language server; within the
  heap, the read views that only bound lifetimes, loan guards kept beyond one call, and timing reports.
\<close>

end
